(* ===== verification/Zumy_Prelude.thy ===== *)
theory Zumy_Prelude
  imports Main "HOL-Library.Word" "HOL-Library.Signed_Division"
begin

unbundle bit_operations_syntax

text \<open>
  Shared vocabulary of the development: the machine integers of the C++ code, checked signed
  arithmetic, hash values, and the collections of simplification rules that the component
  theories extend.

  Unsigned C++ integers wrap, so they are words of their width.  Signed overflow is undefined
  behaviour in C++, so signed integers are mathematical integers; an expression whose overflow
  matters is passed through \<open>i64\<close>, which is \<open>None\<close> where the C++ expression would overflow.
\<close>

type_synonym byte = "8 word"
type_synonym u32 = "32 word"
type_synonym u64 = "64 word"
type_synonym uint256 = "256 word"

text \<open>Facts that unfold the model's small predicates, and facts about lengths.\<close>

named_theorems model_simps
named_theorems length_simps
named_theorems inv_intros

subsection \<open>Signed 64-bit arithmetic\<close>

definition INT64_MIN :: int where "INT64_MIN = - 9223372036854775808"

definition INT64_MAX :: int where "INT64_MAX = 9223372036854775807"

definition in_i64 :: "int \<Rightarrow> bool" where
  "in_i64 x \<longleftrightarrow> INT64_MIN \<le> x \<and> x \<le> INT64_MAX"

definition i64 :: "int \<Rightarrow> int option" where
  "i64 x = (if in_i64 x then Some x else None)"

lemmas i64_bounds = INT64_MIN_def INT64_MAX_def in_i64_def

lemma i64_Some_iff [simp]: "i64 x = Some y \<longleftrightarrow> in_i64 x \<and> y = x"
  by (auto simp: i64_def)

lemma i64_None_iff [simp]: "i64 x = None \<longleftrightarrow> \<not> in_i64 x"
  by (simp add: i64_def)

text \<open>C++ division truncates towards zero; on a non-negative dividend and a positive divisor it
  agrees with \<open>div\<close>.\<close>

lemma sdiv_nonneg: "0 \<le> a \<Longrightarrow> 0 < b \<Longrightarrow> a sdiv b = a div b" for a b :: int
  by (simp add: signed_divide_int_def sgn_if)

lemma smod_nonneg: "0 \<le> a \<Longrightarrow> 0 < b \<Longrightarrow> a smod b = a mod b" for a b :: int
  by (cases "a = 0") (auto simp: signed_modulo_int_def sgn_if)

subsection \<open>Words\<close>

lemma unat_u32_less: "unat (x :: u32) < 4294967296"
  using unsigned_less [of x, where ?'a = nat] by simp

lemma unat_u32_le: "unat (x :: u32) \<le> 4294967295"
  using unat_u32_less [of x] by simp

lemma unat_u64_less: "unat (x :: u64) < 18446744073709551616"
  using unsigned_less [of x, where ?'a = nat] by simp

lemma unat_byte_less: "unat (x :: byte) < 256"
  using unsigned_less [of x, where ?'a = nat] by simp

lemma unat_drop_bit_div: "unat (drop_bit n w) = unat w div 2 ^ n"
  unfolding unat_drop_bit_eq by (rule drop_bit_eq_div)

lemma unat_take_bit_mod: "unat (take_bit n w) = unat w mod 2 ^ n"
  unfolding unsigned_take_bit_eq by (rule take_bit_eq_mod)

lemma unat_ucast_mod: "unat (ucast w :: 'a::len word) = unat w mod 2 ^ LENGTH('a)"
  unfolding unsigned_ucast_eq by (rule take_bit_eq_mod)

lemma unat_ucast_32_64 [simp]: "unat (ucast (x :: u32) :: u64) = unat x"
  using unat_u32_less [of x] by (simp add: unat_ucast_mod)

lemma u64_and_mask32: "(n :: u64) AND 0xffffffff = take_bit 32 n"
proof -
  have "(0xffffffff :: u64) = mask 32" by (simp add: mask_eq_exp_minus_1)
  then show ?thesis by (simp only: take_bit_eq_mask)
qed

lemma unat_low32: "unat (ucast (n AND 0xffffffff :: u64) :: u32) = unat n mod 2 ^ 32"
  unfolding unat_ucast_mod u64_and_mask32 unat_take_bit_mod by simp

lemma unat_high32: "unat (drop_bit 32 n :: u64) = unat n div 2 ^ 32"
  by (rule unat_drop_bit_div)

lemma unat_not: "unat (NOT (x :: u32)) = 4294967295 - unat x"
proof -
  have "x + NOT x = - 1" by (simp add: not_eq_complement)
  then have "unat (x + NOT x) = 4294967295"
    by (simp only: unsigned_minus_1_eq_mask) (simp add: mask_eq_exp_minus_1)
  then have "(unat x + unat (NOT x)) mod 4294967296 = 4294967295"
    by (simp only: unat_word_ariths) simp
  then show ?thesis using unat_u32_le [of x] unat_u32_le [of "NOT x"]
    by (cases "unat x + unat (NOT x) < 4294967296") (simp_all add: le_mod_geq)
qed

end
