(* ===== verification/Params.thy ===== *)
theory Params
  imports Zumy_Prelude
begin

text \<open>
  The consensus parameters (src/src/consensus/params.h) and the fixed flags and limits of
  src/src/consensus/consensus.h.  The values of a network (src/src/chainparams.cpp) are an argument
  of every function that reads them.
\<close>

datatype DeploymentPos = DEPLOYMENT_TESTDUMMY | DEPLOYMENT_CSV

record BIP9Deployment =
  dep_bit :: nat
  dep_nStartTime :: int
  dep_nTimeout :: int

record Consensus_Params =
  hashGenesisBlock :: uint256
  nHardForkOne :: int
  nHardForkTwo :: int
  nMasternodePaymentsStartBlock :: int
  nInstantSendKeepLock :: int
  nBudgetPaymentsStartBlock :: int
  nBudgetPaymentsCycleBlocks :: int
  nBudgetPaymentsWindowBlocks :: int
  nBudgetProposalEstablishingTime :: int
  nSuperblockStartBlock :: int
  nSuperblockCycle :: int
  nGovernanceMinQuorum :: int
  nGovernanceFilterElements :: int
  nMasternodeMinimumConfirmations :: int
  nMajorityEnforceBlockUpgrade :: int
  nMajorityRejectBlockOutdated :: int
  nMajorityWindow :: int
  nIntPhaseTotalBlocks :: int
  nZumyBeginsBlock :: int
  nDevPhaseTotalBlocks :: int
  nPhase1LastBlock :: int
  nPhase2LastBlock :: int
  nPhase3LastBlock :: int
  nPhase4LastBlock :: int
  nPhase5LastBlock :: int
  nRuleChangeActivationThreshold :: int
  nMinerConfirmationWindow :: int
  vDeployments :: "DeploymentPos \<Rightarrow> BIP9Deployment"
  powLimit :: uint256
  nPowTargetSpacing :: int
  nPowTargetTimespan :: int

end
