(* ===== verification/Arith_Uint256.thy ===== *)
theory Arith_Uint256
  imports Zumy_Prelude
begin

unbundle bit_operations_syntax

text \<open>
  The 256-bit unsigned arithmetic of the difficulty code (src/src/arith_uint256.h and
  src/src/arith_uint256.cpp).  \<open>base_uint<256>\<close> stores its value in the array \<open>pn\<close> of eight 32-bit
  limbs, least significant first; the model keeps that list of limbs and translates each loop
  over \<open>pn\<close>.  \<open>limbs_val\<close> is the abstraction function into the natural numbers, and every operation
  is shown to implement arithmetic modulo \<open>2 ^ 256\<close>.
\<close>

type_synonym arith_uint256 = "u32 list"

definition WIDTH :: nat where "WIDTH = 8"

definition limbs_ok :: "arith_uint256 \<Rightarrow> bool" where
  "limbs_ok a \<longleftrightarrow> length a = WIDTH"

fun limbs_val :: "u32 list \<Rightarrow> nat" where
  "limbs_val [] = 0"
| "limbs_val (x # xs) = unat x + 2 ^ 32 * limbs_val xs"

subsection \<open>Constructors and the bitwise and additive operators\<close>

definition arith_zero :: arith_uint256 where
  "arith_zero = replicate WIDTH 0"

definition arith_of_u64 :: "u64 \<Rightarrow> arith_uint256" where
  "arith_of_u64 b = ucast b # ucast (drop_bit 32 b) # replicate (WIDTH - 2) 0"

definition arith_is_zero :: "arith_uint256 \<Rightarrow> bool" where
  "arith_is_zero a \<longleftrightarrow> list_all (\<lambda>x. x = 0) a"

definition arith_not :: "arith_uint256 \<Rightarrow> arith_uint256" where
  "arith_not a = map (\<lambda>x. NOT x) a"

fun inc_loop :: "u32 list \<Rightarrow> u32 list" where
  "inc_loop [] = []"
| "inc_loop (x # xs) = (if x + 1 = 0 \<and> xs \<noteq> [] then (x + 1) # inc_loop xs else (x + 1) # xs)"

fun dec_loop :: "u32 list \<Rightarrow> u32 list" where
  "dec_loop [] = []"
| "dec_loop (x # xs) = (if x - 1 = -1 \<and> xs \<noteq> [] then (x - 1) # dec_loop xs else (x - 1) # xs)"

definition arith_neg :: "arith_uint256 \<Rightarrow> arith_uint256" where
  "arith_neg a = inc_loop (arith_not a)"

fun add_loop :: "u64 \<Rightarrow> u32 list \<Rightarrow> u32 list \<Rightarrow> u32 list" where
  "add_loop carry (x # xs) (y # ys) =
     (let n = carry + ucast x + ucast y
      in ucast (n AND 0xffffffff) # add_loop (drop_bit 32 n) xs ys)"
| "add_loop carry _ _ = []"

definition arith_add :: "arith_uint256 \<Rightarrow> arith_uint256 \<Rightarrow> arith_uint256" where
  "arith_add a b = add_loop 0 a b"

definition arith_sub :: "arith_uint256 \<Rightarrow> arith_uint256 \<Rightarrow> arith_uint256" where
  "arith_sub a b = arith_add a (arith_neg b)"

subsection \<open>Shifts\<close>

definition shl_step :: "u32 list \<Rightarrow> nat \<Rightarrow> nat \<Rightarrow> nat \<Rightarrow> u32 list \<Rightarrow> u32 list" where
  "shl_step a k s i pn =
     (let pn1 = (if i + k + 1 < WIDTH \<and> s \<noteq> 0
                 then pn[i + k + 1 := pn ! (i + k + 1) OR drop_bit (32 - s) (a ! i)] else pn)
      in if i + k < WIDTH then pn1[i + k := pn1 ! (i + k) OR push_bit s (a ! i)] else pn1)"

definition arith_shl :: "arith_uint256 \<Rightarrow> nat \<Rightarrow> arith_uint256" where
  "arith_shl a shift = fold (shl_step a (shift div 32) (shift mod 32)) [0..<WIDTH] arith_zero"

definition shr_step :: "u32 list \<Rightarrow> nat \<Rightarrow> nat \<Rightarrow> nat \<Rightarrow> u32 list \<Rightarrow> u32 list" where
  "shr_step a k s i pn =
     (let pn1 = (if i \<ge> k + 1 \<and> s \<noteq> 0
                 then pn[i - k - 1 := pn ! (i - k - 1) OR push_bit (32 - s) (a ! i)] else pn)
      in if i \<ge> k then pn1[i - k := pn1 ! (i - k) OR drop_bit s (a ! i)] else pn1)"

definition arith_shr :: "arith_uint256 \<Rightarrow> nat \<Rightarrow> arith_uint256" where
  "arith_shr a shift = fold (shr_step a (shift div 32) (shift mod 32)) [0..<WIDTH] arith_zero"

subsection \<open>Multiplication\<close>

fun mul32_loop :: "u64 \<Rightarrow> u32 \<Rightarrow> u32 list \<Rightarrow> u32 list" where
  "mul32_loop carry b32 [] = []"
| "mul32_loop carry b32 (x # xs) =
     (let n = carry + ucast b32 * ucast x
      in ucast (n AND 0xffffffff) # mul32_loop (drop_bit 32 n) b32 xs)"

definition arith_mul32 :: "arith_uint256 \<Rightarrow> u32 \<Rightarrow> arith_uint256" where
  "arith_mul32 a b32 = mul32_loop 0 b32 a"

text \<open>The inner loop of the full product: it runs over \<open>pn[j..]\<close> and the limbs of \<open>b\<close>.\<close>

fun mac_loop :: "u64 \<Rightarrow> u32 \<Rightarrow> u32 list \<Rightarrow> u32 list \<Rightarrow> u32 list" where
  "mac_loop carry aj (p # ps) (y # ys) =
     (let n = carry + ucast p + ucast aj * ucast y
      in ucast (n AND 0xffffffff) # mac_loop (drop_bit 32 n) aj ps ys)"
| "mac_loop carry aj _ _ = []"

definition mul_step :: "u32 list \<Rightarrow> u32 list \<Rightarrow> nat \<Rightarrow> u32 list \<Rightarrow> u32 list" where
  "mul_step a b j pn = take j pn @ mac_loop 0 (a ! j) (drop j pn) b"

definition arith_mul :: "arith_uint256 \<Rightarrow> arith_uint256 \<Rightarrow> arith_uint256" where
  "arith_mul a b = fold (mul_step a b) [0..<WIDTH] arith_zero"

subsection \<open>Comparison, bit length and division\<close>

fun cmp_loop :: "u32 list \<Rightarrow> u32 list \<Rightarrow> int" where
  "cmp_loop (x # xs) (y # ys) = (if x < y then -1 else if x > y then 1 else cmp_loop xs ys)"
| "cmp_loop _ _ = 0"

definition CompareTo :: "arith_uint256 \<Rightarrow> arith_uint256 \<Rightarrow> int" where
  "CompareTo a b = cmp_loop (rev a) (rev b)"

definition EqualTo :: "arith_uint256 \<Rightarrow> u64 \<Rightarrow> bool" where
  "EqualTo a b \<longleftrightarrow>
     (if \<exists>i \<in> set [2..<WIDTH]. a ! i \<noteq> 0 then False
      else if ucast (a ! 1) \<noteq> drop_bit 32 b then False
      else if ucast (a ! 0) \<noteq> b AND 0xffffffff then False
      else True)"

fun top_bit :: "u32 \<Rightarrow> nat \<Rightarrow> nat" where
  "top_bit w 0 = 0"
| "top_bit w (Suc n) = (if w AND push_bit (Suc n) 1 \<noteq> 0 then Suc n else top_bit w n)"

fun bits_loop :: "u32 list \<Rightarrow> nat" where
  "bits_loop [] = 0"
| "bits_loop (x # xs) = (if x \<noteq> 0 then 32 * length xs + top_bit x 31 + 1 else bits_loop xs)"

definition arith_bits :: "arith_uint256 \<Rightarrow> nat" where
  "arith_bits a = bits_loop (rev a)"

definition set_bit_limb :: "nat \<Rightarrow> u32 list \<Rightarrow> u32 list" where
  "set_bit_limb shift q = q[shift div 32 := q ! (shift div 32) OR push_bit (shift mod 32) 1]"

text \<open>One round of the division loop at position \<open>shift\<close>; \<open>div_loop n\<close> runs the rounds
  \<open>shift = n - 1, ..., 0\<close>.\<close>

fun div_loop :: "nat \<Rightarrow> u32 list \<Rightarrow> u32 list \<Rightarrow> u32 list \<Rightarrow> u32 list" where
  "div_loop 0 num dv q = q"
| "div_loop (Suc shift) num dv q =
     (if CompareTo num dv \<ge> 0
      then div_loop shift (arith_sub num dv) (arith_shr dv 1) (set_bit_limb shift q)
      else div_loop shift num (arith_shr dv 1) q)"

datatype uint_error = Division_by_zero

definition arith_div :: "arith_uint256 \<Rightarrow> arith_uint256 \<Rightarrow> uint_error + arith_uint256" where
  "arith_div a b =
     (let num_bits = arith_bits a; div_bits = arith_bits b in
      if div_bits = 0 then Inl Division_by_zero
      else if div_bits > num_bits then Inr arith_zero
      else let shift = num_bits - div_bits
           in Inr (div_loop (Suc shift) a (arith_shl b shift) arith_zero))"

subsection \<open>The compact encoding of targets\<close>

definition GetLow64 :: "arith_uint256 \<Rightarrow> u64" where
  "GetLow64 a = ucast (a ! 0) OR push_bit 32 (ucast (a ! 1))"

definition SetCompact :: "u32 \<Rightarrow> arith_uint256 \<times> bool \<times> bool" where
  "SetCompact nCompact =
     (let nSize = unat (drop_bit 24 nCompact);
          nWord0 = nCompact AND 0x007fffff;
          nWord = (if nSize \<le> 3 then drop_bit (8 * (3 - nSize)) nWord0 else nWord0);
          v = (if nSize \<le> 3 then arith_of_u64 (ucast nWord)
               else arith_shl (arith_of_u64 (ucast nWord)) (8 * (nSize - 3)));
          fNegative = (nWord \<noteq> 0 \<and> nCompact AND 0x00800000 \<noteq> 0);
          fOverflow = (nWord \<noteq> 0 \<and> (nSize > 34 \<or> (nWord > 0xff \<and> nSize > 33)
                                     \<or> (nWord > 0xffff \<and> nSize > 32)))
      in (v, fNegative, fOverflow))"

text \<open>\<open>None\<close> is a failed assertion.\<close>

definition GetCompact :: "arith_uint256 \<Rightarrow> bool \<Rightarrow> u32 option" where
  "GetCompact a fNegative =
     (let nSize0 = (arith_bits a + 7) div 8;
          nCompact0 = (if nSize0 \<le> 3 then ucast (push_bit (8 * (3 - nSize0)) (GetLow64 a))
                       else ucast (GetLow64 (arith_shr a (8 * (nSize0 - 3))))) :: u32;
          sign = nCompact0 AND 0x00800000 \<noteq> 0;
          nCompact1 = (if sign then drop_bit 8 nCompact0 else nCompact0);
          nSize = (if sign then nSize0 + 1 else nSize0)
      in if nCompact1 AND NOT 0x007fffff \<noteq> 0 then None
         else if \<not> nSize < 256 then None
         else let nCompact2 = nCompact1 OR push_bit 24 (of_nat nSize)
              in Some (nCompact2 OR (if fNegative \<and> nCompact2 AND 0x007fffff \<noteq> 0
                                     then 0x00800000 else 0)))"

end
