(* ===== verification/Arith_Refine.thy ===== *)
theory Arith_Refine
  imports Arith_Uint256
begin

unbundle bit_operations_syntax

text \<open>
  The limb loops of \<open>Arith_Uint256\<close> implement arithmetic modulo \<open>2 ^ 256\<close>: addition, negation,
  subtraction, both products and the comparison, each against \<open>limbs_val\<close>.
\<close>

lemma limbs_val_append:
  "limbs_val (xs @ ys) = limbs_val xs + 2 ^ (32 * length xs) * limbs_val ys"
  by (induction xs) (simp_all add: algebra_simps power_add)

lemma limbs_val_bound: "limbs_val xs < 2 ^ (32 * length xs)"
proof (induction xs)
  case (Cons x xs)
  have "limbs_val xs + 1 \<le> 2 ^ (32 * length xs)" using Cons by simp
  then have "2 ^ 32 * (limbs_val xs + 1) \<le> 2 ^ 32 * (2 ^ (32 * length xs) :: nat)"
    by (rule mult_le_mono2)
  then show ?case using unat_u32_less [of x] by (simp add: power_add)
qed simp

lemma limbs_val_replicate_0 [simp]: "limbs_val (replicate n 0) = 0"
  by (induction n) simp_all

lemma limbs_val_less: "limbs_ok a \<Longrightarrow> limbs_val a < 2 ^ 256"
  using limbs_val_bound [of a] by (simp add: limbs_ok_def WIDTH_def)

lemma limbs_val_zero [simp]: "limbs_val arith_zero = 0"
  by (simp add: arith_zero_def)

lemma carry_step: "r mod B + B * ((r div B + v) mod M) = (r + B * v) mod (B * M)"
  if "0 < B" for r B v M :: nat
  using that by (simp add: mod_mult2_eq add.commute)

lemma length_add_loop [simp]: "length (add_loop c xs ys) = min (length xs) (length ys)"
  by (induction c xs ys rule: add_loop.induct) (simp_all add: Let_def)

lemma add_loop_val:
  "length xs = length ys \<Longrightarrow> unat c \<le> 1 \<Longrightarrow>
   limbs_val (add_loop c xs ys) = (unat c + limbs_val xs + limbs_val ys) mod 2 ^ (32 * length xs)"
proof (induction c xs ys rule: add_loop.induct)
  case (1 c x xs y ys)
  define n where "n = c + ucast x + (ucast y :: u64)"
  have n: "unat n = unat c + unat x + unat y"
    using 1(3) unat_u32_less [of x] unat_u32_less [of y]
    by (simp add: n_def unat_word_ariths)
  have c': "unat (drop_bit 32 n) = unat n div 2 ^ 32" by (rule unat_high32)
  have "unat (drop_bit 32 n) \<le> 1"
    unfolding c' n using 1(3) unat_u32_less [of x] unat_u32_less [of y] by simp
  then have IH: "limbs_val (add_loop (drop_bit 32 n) xs ys)
      = (unat (drop_bit 32 n) + limbs_val xs + limbs_val ys) mod 2 ^ (32 * length xs)"
    using 1(1) [of n] 1(2) by (simp add: n_def)
  have "limbs_val (add_loop c (x # xs) (y # ys))
      = unat n mod 2 ^ 32 + 2 ^ 32 * ((unat n div 2 ^ 32 + (limbs_val xs + limbs_val ys)) mod 2 ^ (32 * length xs))"
    by (simp only: add_loop.simps Let_def n_def [symmetric] limbs_val.simps unat_low32 IH c')
      (simp add: add.assoc)
  also have "\<dots> = (unat n + 2 ^ 32 * (limbs_val xs + limbs_val ys)) mod (2 ^ 32 * 2 ^ (32 * length xs))"
    by (rule carry_step) simp
  finally show ?case by (simp add: n power_add algebra_simps)
qed simp_all

lemma inc_loop_val:
  "limbs_val (inc_loop xs) = (limbs_val xs + 1) mod 2 ^ (32 * length xs)"
proof (induction xs)
  case (Cons x xs)
  show ?case
  proof (cases "x + 1 = 0")
    case True
    then have x: "unat x = 2 ^ 32 - 1"
    proof -
      have "x = - 1" using True by (simp add: add_eq_0_iff2)
      then show ?thesis by (simp only: unsigned_minus_1_eq_mask) (simp add: mask_eq_exp_minus_1)
    qed
    show ?thesis
    proof (cases "xs = []")
      case False
      have "limbs_val (inc_loop (x # xs)) = 0 + 2 ^ 32 * ((1 + limbs_val xs) mod 2 ^ (32 * length xs))"
        using True False Cons by simp
      also have "\<dots> = (2 ^ 32 + 2 ^ 32 * limbs_val xs) mod (2 ^ 32 * 2 ^ (32 * length xs))"
        using carry_step [of "2 ^ 32" "2 ^ 32" "limbs_val xs" "2 ^ (32 * length xs)"] by simp
      finally show ?thesis using x by (simp add: power_add)
    qed (use True x in simp)
  next
    case False
    then have "unat (x + 1) = unat x + 1"
      by (metis Suc_eq_plus1 unatSuc add.commute)
    moreover have "unat x + 1 + 2 ^ 32 * limbs_val xs < 2 ^ (32 * length (x # xs))"
      using limbs_val_bound [of "(x + 1) # xs"] calculation by simp
    ultimately show ?thesis using False by simp
  qed
qed simp

lemma length_inc_loop [simp]: "length (inc_loop xs) = length xs"
  by (induction xs) simp_all

lemma limbs_val_not: "limbs_val (map (\<lambda>x. NOT x) xs) + limbs_val xs + 1 = 2 ^ (32 * length xs)"
proof (induction xs)
  case (Cons x xs)
  have "unat (NOT x) + unat x + 1 = 2 ^ 32" using unat_u32_le [of x] by (simp add: unat_not)
  moreover have "2 ^ 32 * (limbs_val (map (\<lambda>x. NOT x) xs) + limbs_val xs + 1) = 2 ^ 32 * (2 ^ (32 * length xs) :: nat)"
    by (simp only: Cons)
  ultimately show ?case by (simp add: power_add algebra_simps)
qed simp

lemma limbs_ok_simps [simp, length_simps]:
  "limbs_ok arith_zero"
  "limbs_ok (arith_of_u64 w)"
  "limbs_ok a \<Longrightarrow> limbs_ok (arith_not a)"
  "limbs_ok a \<Longrightarrow> limbs_ok (arith_neg a)"
  "limbs_ok a \<Longrightarrow> limbs_ok b \<Longrightarrow> limbs_ok (arith_add a b)"
  "limbs_ok a \<Longrightarrow> limbs_ok b \<Longrightarrow> limbs_ok (arith_sub a b)"
  by (simp_all add: limbs_ok_def arith_zero_def arith_of_u64_def arith_not_def arith_neg_def
        arith_add_def arith_sub_def WIDTH_def)

lemma limbs_val_of_u64 [simp]: "limbs_val (arith_of_u64 w) = unat w"
proof -
  have "unat (ucast w :: u32) = unat w mod 2 ^ 32" by (simp add: unat_ucast_mod)
  moreover have "unat (ucast (drop_bit 32 w) :: u32) = unat w div 2 ^ 32"
    using unat_u64_less [of w] by (simp add: unat_ucast_mod unat_high32)
  ultimately show ?thesis by (simp add: arith_of_u64_def WIDTH_def numeral_eq_Suc [of "num.Bit0 num.One"])
qed

lemma limbs_val_add:
  "limbs_ok a \<Longrightarrow> limbs_ok b \<Longrightarrow> limbs_val (arith_add a b) = (limbs_val a + limbs_val b) mod 2 ^ 256"
  using add_loop_val [of a b 0] by (simp add: arith_add_def limbs_ok_def WIDTH_def)

lemma limbs_val_neg:
  assumes "limbs_ok a"
  shows "limbs_val (arith_neg a) = (2 ^ 256 - limbs_val a) mod 2 ^ 256"
proof -
  have "limbs_val (map (\<lambda>x. NOT x) a) + 1 = 2 ^ 256 - limbs_val a"
    using limbs_val_not [of a] assms by (simp add: limbs_ok_def WIDTH_def)
  moreover have "limbs_val (arith_neg a) = (limbs_val (map (\<lambda>x. NOT x) a) + 1) mod 2 ^ 256"
    using assms by (simp add: arith_neg_def inc_loop_val arith_not_def limbs_ok_def WIDTH_def)
  ultimately show ?thesis by (simp only:)
qed

lemma limbs_val_sub:
  assumes "limbs_ok a" "limbs_ok b"
  shows "limbs_val (arith_sub a b) = (limbs_val a + (2 ^ 256 - limbs_val b)) mod 2 ^ 256"
  using assms by (simp add: arith_sub_def limbs_val_add limbs_val_neg mod_add_right_eq)

lemma limbs_val_sub_le:
  assumes "limbs_ok a" "limbs_ok b" "limbs_val b \<le> limbs_val a"
  shows "limbs_val (arith_sub a b) = limbs_val a - limbs_val b"
proof -
  have "limbs_val a + (2 ^ 256 - limbs_val b) = (limbs_val a - limbs_val b) + 2 ^ 256"
    using assms(3) limbs_val_less [OF assms(1)] limbs_val_less [OF assms(2)] by linarith
  then have "limbs_val (arith_sub a b) = (limbs_val a - limbs_val b) mod 2 ^ 256"
    using limbs_val_sub [OF assms(1,2)] by (simp only: mod_add_self2)
  then show ?thesis using limbs_val_less [OF assms(1)] by simp
qed

subsection \<open>Multiplication\<close>

lemma length_mul32_loop [simp]: "length (mul32_loop c b xs) = length xs"
  by (induction c b xs rule: mul32_loop.induct) (simp_all add: Let_def)

lemma u32_mult_bound: "unat (x :: u32) * unat (y :: u32) \<le> 4294967295 * 4294967295"
  by (intro mult_le_mono unat_u32_le)

lemma mul32_loop_val:
  "unat c < 2 ^ 32 \<Longrightarrow>
   limbs_val (mul32_loop c b xs) = (unat c + unat b * limbs_val xs) mod 2 ^ (32 * length xs)"
proof (induction c b xs rule: mul32_loop.induct)
  case (2 c b x xs)
  define n where "n = c + ucast b * (ucast x :: u64)"
  have n: "unat n = unat c + unat b * unat x"
    using 2(2) u32_mult_bound [of b x] by (simp add: n_def unat_word_ariths)
  have c': "unat (drop_bit 32 n) = unat n div 2 ^ 32" by (rule unat_high32)
  have "unat (drop_bit 32 n) < 2 ^ 32"
    unfolding c' using unat_u64_less [of n] by simp
  then have IH: "limbs_val (mul32_loop (drop_bit 32 n) b xs)
      = (unat n div 2 ^ 32 + unat b * limbs_val xs) mod 2 ^ (32 * length xs)"
    using 2(1) [of n] by (simp add: n_def [symmetric] c')
  have "limbs_val (mul32_loop c b (x # xs))
      = unat n mod 2 ^ 32 + 2 ^ 32 * ((unat n div 2 ^ 32 + unat b * limbs_val xs) mod 2 ^ (32 * length xs))"
    by (simp only: mul32_loop.simps Let_def n_def [symmetric] limbs_val.simps unat_low32 IH)
  also have "\<dots> = (unat n + 2 ^ 32 * (unat b * limbs_val xs)) mod (2 ^ 32 * 2 ^ (32 * length xs))"
    by (rule carry_step) simp
  finally show ?case by (simp add: n power_add algebra_simps)
qed simp

lemma limbs_val_mul32:
  "limbs_ok a \<Longrightarrow> limbs_val (arith_mul32 a b) = (limbs_val a * unat b) mod 2 ^ 256"
  using mul32_loop_val [of 0 b a] by (simp add: arith_mul32_def limbs_ok_def WIDTH_def mult.commute)

lemma length_mac_loop [simp]: "length (mac_loop c b ps ys) = min (length ps) (length ys)"
  by (induction c b ps ys rule: mac_loop.induct) (simp_all add: Let_def)

lemma mac_loop_val:
  "length ps \<le> length ys \<Longrightarrow> unat c < 2 ^ 32 \<Longrightarrow>
   limbs_val (mac_loop c b ps ys) = (unat c + limbs_val ps + unat b * limbs_val ys) mod 2 ^ (32 * length ps)"
proof (induction c b ps ys rule: mac_loop.induct)
  case (1 c b p ps y ys)
  define n where "n = c + ucast p + ucast b * (ucast y :: u64)"
  have n: "unat n = unat c + unat p + unat b * unat y"
    using 1(3) u32_mult_bound [of b y] unat_u32_le [of p] by (simp add: n_def unat_word_ariths)
  have c': "unat (drop_bit 32 n) = unat n div 2 ^ 32" by (rule unat_high32)
  have "unat (drop_bit 32 n) < 2 ^ 32"
    unfolding c' using unat_u64_less [of n] by simp
  then have IH: "limbs_val (mac_loop (drop_bit 32 n) b ps ys)
      = (unat n div 2 ^ 32 + (limbs_val ps + unat b * limbs_val ys)) mod 2 ^ (32 * length ps)"
    using 1(1) [OF n_def] 1(2) by (simp add: c' add.assoc)
  have "limbs_val (mac_loop c b (p # ps) (y # ys))
      = unat n mod 2 ^ 32 + 2 ^ 32 * ((unat n div 2 ^ 32 + (limbs_val ps + unat b * limbs_val ys)) mod 2 ^ (32 * length ps))"
    by (simp only: mac_loop.simps Let_def n_def [symmetric] limbs_val.simps unat_low32 IH)
  also have "\<dots> = (unat n + 2 ^ 32 * (limbs_val ps + unat b * limbs_val ys)) mod (2 ^ 32 * 2 ^ (32 * length ps))"
    by (rule carry_step) simp
  finally show ?case by (simp add: n power_add algebra_simps)
qed simp_all

lemma mul_step_ok: "limbs_ok pn \<Longrightarrow> limbs_ok b \<Longrightarrow> limbs_ok (mul_step a b j pn)"
  by (simp add: limbs_ok_def mul_step_def)

lemma mul_step_val:
  assumes "limbs_ok pn" "limbs_ok b" "j < WIDTH"
  shows "limbs_val (mul_step a b j pn) = (limbs_val pn + 2 ^ (32 * j) * (unat (a ! j) * limbs_val b)) mod 2 ^ 256"
proof -
  have j: "length (take j pn) = j" "length (drop j pn) = WIDTH - j" "length (drop j pn) \<le> length b"
    using assms by (simp_all add: limbs_ok_def)
  have pn: "limbs_val pn = limbs_val (take j pn) + 2 ^ (32 * j) * limbs_val (drop j pn)"
    using limbs_val_append [of "take j pn" "drop j pn"] j by simp
  have split: "(2::nat) ^ 256 = 2 ^ (32 * j) * 2 ^ (32 * (WIDTH - j))"
    unfolding power_add [symmetric] using assms(3) by (intro arg_cong [where f = "power 2"]) (simp add: WIDTH_def)
  have small: "limbs_val (take j pn) < 2 ^ (32 * j)" using limbs_val_bound [of "take j pn"] j by simp
  define r where "r = limbs_val (take j pn)"
  define v where "v = limbs_val (drop j pn) + unat (a ! j) * limbs_val b"
  have "limbs_val (mul_step a b j pn) = r + 2 ^ (32 * j) * (v mod 2 ^ (32 * (WIDTH - j)))"
    unfolding mul_step_def limbs_val_append j r_def v_def
    by (subst mac_loop_val) (use j in simp_all)
  also have "\<dots> = (r + 2 ^ (32 * j) * v) mod 2 ^ 256"
    unfolding split using carry_step [of "2 ^ (32 * j)" r v "2 ^ (32 * (WIDTH - j))"] small
    by (simp add: r_def)
  finally show ?thesis by (simp add: pn r_def v_def algebra_simps)
qed

lemma mul_fold_val:
  assumes "limbs_ok a" "limbs_ok b" "n \<le> WIDTH"
  shows "limbs_ok (fold (mul_step a b) [0..<n] arith_zero)
       \<and> limbs_val (fold (mul_step a b) [0..<n] arith_zero) = (limbs_val (take n a) * limbs_val b) mod 2 ^ 256"
  using assms(3)
proof (induction n)
  case (Suc n)
  have n: "n < length a" using Suc.prems assms(1) by (simp add: limbs_ok_def)
  have tk: "limbs_val (take (Suc n) a) = limbs_val (take n a) + 2 ^ (32 * n) * unat (a ! n)"
    using n by (simp add: take_Suc_conv_app_nth limbs_val_append)
  define acc where "acc = fold (mul_step a b) [0..<n] arith_zero"
  have acc: "limbs_ok acc" "limbs_val acc = (limbs_val (take n a) * limbs_val b) mod 2 ^ 256"
    using Suc by (simp_all add: acc_def)
  have "limbs_val (mul_step a b n acc)
      = ((limbs_val (take n a) * limbs_val b) mod 2 ^ 256 + 2 ^ (32 * n) * (unat (a ! n) * limbs_val b)) mod 2 ^ 256"
    using mul_step_val [OF acc(1) assms(2), of n a] Suc.prems by (simp only: acc(2) Suc_le_eq)
  also have "\<dots> = (limbs_val (take n a) * limbs_val b + 2 ^ (32 * n) * (unat (a ! n) * limbs_val b)) mod 2 ^ 256"
    by (rule mod_add_left_eq)
  also have "\<dots> = (limbs_val (take (Suc n) a) * limbs_val b) mod 2 ^ 256"
    unfolding tk by (intro arg_cong [where f = "\<lambda>t. t mod 2 ^ 256"]) (simp add: algebra_simps)
  finally show ?case using mul_step_ok [OF acc(1) assms(2)] by (simp add: acc_def)
qed simp

lemma arith_mul_ok [simp]: "limbs_ok a \<Longrightarrow> limbs_ok b \<Longrightarrow> limbs_ok (arith_mul a b)"
  using mul_fold_val [of a b WIDTH] by (simp add: arith_mul_def)

lemma limbs_val_mul:
  "limbs_ok a \<Longrightarrow> limbs_ok b \<Longrightarrow> limbs_val (arith_mul a b) = (limbs_val a * limbs_val b) mod 2 ^ 256"
  using mul_fold_val [of a b WIDTH] by (simp add: arith_mul_def limbs_ok_def)

subsection \<open>Comparison\<close>

lemma limbs_val_rev_Cons:
  "limbs_val (rev (x # xs)) = limbs_val (rev xs) + 2 ^ (32 * length xs) * unat x"
  by (simp add: limbs_val_append)

lemma top_limb_less:
  assumes "u < (P :: nat)" "x < y" shows "u + P * x < v + P * y"
proof -
  have "u + P * x < P * Suc x" using assms(1) by simp
  also have "\<dots> \<le> P * y" using assms(2) by (intro mult_le_mono2) simp
  finally show ?thesis by simp
qed

lemma cmp_loop_val:
  "length xs = length ys \<Longrightarrow>
   cmp_loop xs ys = (if limbs_val (rev xs) < limbs_val (rev ys) then -1
                     else if limbs_val (rev xs) > limbs_val (rev ys) then 1 else 0)"
proof (induction xs ys rule: cmp_loop.induct)
  case (1 x xs y ys)
  have bx: "limbs_val (rev xs) < 2 ^ (32 * length xs)" and by': "limbs_val (rev ys) < 2 ^ (32 * length xs)"
    using limbs_val_bound [of "rev xs"] limbs_val_bound [of "rev ys"] 1(2) by simp_all
  have len: "length ys = length xs" using 1(2) by simp
  consider "x < y" | "y < x" | "x = y" by fastforce
  then show ?case
  proof cases
    case 1
    then show ?thesis
      using top_limb_less [OF bx, of "unat x" "unat y" "limbs_val (rev ys)"] len
      by (simp add: limbs_val_rev_Cons word_less_nat_alt del: rev.simps)
  next
    case 2
    then show ?thesis
      using top_limb_less [OF by', of "unat y" "unat x" "limbs_val (rev xs)"] len
      by (simp add: limbs_val_rev_Cons word_less_nat_alt del: rev.simps)
  next
    case 3
    then show ?thesis using 1 len by (simp add: limbs_val_append)
  qed
qed simp_all

lemma CompareTo_val:
  "limbs_ok a \<Longrightarrow> limbs_ok b \<Longrightarrow>
   CompareTo a b = (if limbs_val a < limbs_val b then -1 else if limbs_val a > limbs_val b then 1 else 0)"
  using cmp_loop_val [of "rev a" "rev b"] by (simp add: CompareTo_def limbs_ok_def)

lemma CompareTo_ge: "limbs_ok a \<Longrightarrow> limbs_ok b \<Longrightarrow> CompareTo a b \<ge> 0 \<longleftrightarrow> limbs_val b \<le> limbs_val a"
  by (simp add: CompareTo_val)

lemma CompareTo_gt: "limbs_ok a \<Longrightarrow> limbs_ok b \<Longrightarrow> CompareTo a b > 0 \<longleftrightarrow> limbs_val b < limbs_val a"
  by (simp add: CompareTo_val)

end
