(* ===== verification/Arith_Shift.thy ===== *)
theory Arith_Shift
  imports Arith_Refine
begin

unbundle bit_operations_syntax

text \<open>
  The bit length, the two shift operators and the long division of \<open>Arith_Uint256\<close>, against the
  natural-number operations they implement.
\<close>

subsection \<open>Bit length\<close>

lemma bit_u32: "bit (w :: u32) n \<Longrightarrow> n < 32"
  using bit_imp_le_length [of w n] by simp

lemma u32_bit_unat: "w AND push_bit n 1 \<noteq> 0 \<longleftrightarrow> bit (unat w) n" for w :: u32
proof -
  have "w AND push_bit n 1 \<noteq> 0 \<longleftrightarrow> bit w n"
    by (simp only: bit_iff_and_push_bit_not_eq_0)
  then show ?thesis by (auto simp: bit_unsigned_iff dest: bit_u32)
qed

lemma bit_top_iff: "x < 2 ^ Suc n \<Longrightarrow> bit x n \<longleftrightarrow> 2 ^ n \<le> x" for x :: nat
proof -
  assume x: "x < 2 ^ Suc n"
  have "x div 2 ^ n < 2" using x by (simp add: less_mult_imp_div_less)
  then have "x div 2 ^ n = 0 \<or> x div 2 ^ n = 1" by linarith
  then show ?thesis
  proof
    assume d: "x div 2 ^ n = 0"
    then have "x < 2 ^ n" by (simp add: div_eq_0_iff)
    then show ?thesis using d by (simp add: bit_iff_odd)
  next
    assume d: "x div 2 ^ n = 1"
    then have "2 ^ n \<le> x" by (metis div_less linorder_not_less zero_neq_one)
    then show ?thesis using d by (simp add: bit_iff_odd)
  qed
qed

lemma top_bit_spec:
  "unat w < 2 ^ Suc n \<Longrightarrow> w \<noteq> 0 \<Longrightarrow>
   top_bit w n \<le> n \<and> 2 ^ top_bit w n \<le> unat w \<and> unat w < 2 ^ Suc (top_bit w n)"
proof (induction w n rule: top_bit.induct)
  case (1 w)
  then show ?case by (simp add: Suc_le_eq unat_gt_0)
next
  case (2 w n)
  show ?case
  proof (cases "bit (unat w) (Suc n)")
    case True
    then show ?thesis using 2(2) bit_top_iff [OF 2(2)] u32_bit_unat [of w "Suc n"] by simp
  next
    case False
    then have "unat w < 2 ^ Suc n" using bit_top_iff [OF 2(2)] by simp
    then show ?thesis using 2 False u32_bit_unat [of w "Suc n"] by (simp add: le_SucI)
  qed
qed

lemma bits_loop_spec:
  "(bits_loop xs = 0 \<longleftrightarrow> limbs_val (rev xs) = 0)
   \<and> limbs_val (rev xs) < 2 ^ bits_loop xs
   \<and> (bits_loop xs \<noteq> 0 \<longrightarrow> 2 ^ (bits_loop xs - 1) \<le> limbs_val (rev xs))"
proof (induction xs)
  case (Cons x xs)
  show ?case
  proof (cases "x = 0")
    case False
    define t where "t = top_bit x 31"
    have t: "2 ^ t \<le> unat x" "unat x < 2 ^ Suc t"
      using top_bit_spec [of x 31] False unat_u32_less [of x] by (simp_all add: t_def)
    have val: "limbs_val (rev (x # xs)) = limbs_val (rev xs) + 2 ^ (32 * length xs) * unat x"
      by (rule limbs_val_rev_Cons)
    have "limbs_val (rev xs) < 2 ^ (32 * length xs)" using limbs_val_bound [of "rev xs"] by simp
    then have "limbs_val (rev (x # xs)) < 2 ^ (32 * length xs) * Suc (unat x)" unfolding val by simp
    also have "\<dots> \<le> 2 ^ (32 * length xs) * 2 ^ Suc t" using t(2) by (intro mult_le_mono2) simp
    finally have up: "limbs_val (rev (x # xs)) < 2 ^ (32 * length xs + Suc t)" by (simp only: power_add)
    have "2 ^ (32 * length xs) * 2 ^ t \<le> 2 ^ (32 * length xs) * unat x" using t(1) by (rule mult_le_mono2)
    then have lo: "2 ^ (32 * length xs + t) \<le> limbs_val (rev (x # xs))"
      unfolding val by (simp only: power_add trans_le_add2)
    have bl: "bits_loop (x # xs) = 32 * length xs + Suc t" using False by (simp add: t_def)
    have "limbs_val (rev (x # xs)) \<noteq> 0" using lo by (metis le_zero_eq power_not_zero zero_neq_numeral)
    then show ?thesis using up lo unfolding bl by simp
  next
    case True
    then show ?thesis using Cons by (auto simp: limbs_val_append)
  qed
qed simp

lemma arith_bits_upper: "limbs_val a < 2 ^ arith_bits a"
  using bits_loop_spec [of "rev a"] by (simp add: arith_bits_def)

lemma arith_bits_lower: "arith_bits a \<noteq> 0 \<Longrightarrow> 2 ^ (arith_bits a - 1) \<le> limbs_val a"
  using bits_loop_spec [of "rev a"] by (simp add: arith_bits_def)

lemma arith_bits_0_iff: "arith_bits a = 0 \<longleftrightarrow> limbs_val a = 0"
  using bits_loop_spec [of "rev a"] by (simp add: arith_bits_def)

lemma arith_bits_le: "limbs_val a < 2 ^ n \<Longrightarrow> arith_bits a \<le> n"
proof (rule ccontr)
  assume a: "limbs_val a < 2 ^ n" "\<not> arith_bits a \<le> n"
  then have "(2::nat) ^ n \<le> 2 ^ (arith_bits a - 1)" by (intro power_increasing) simp_all
  also have "\<dots> \<le> limbs_val a" using a by (intro arith_bits_lower) simp
  finally show False using a by simp
qed

subsection \<open>Shifts, bit by bit\<close>

lemma bit_limbs_val:
  "bit (limbs_val a) n \<longleftrightarrow> n < 32 * length a \<and> bit (a ! (n div 32)) (n mod 32)"
proof (induction a arbitrary: n)
  case (Cons x xs)
  have "unat x AND push_bit 32 (limbs_val xs) = 0"
  proof (rule bit_eqI)
    fix m
    have "bit (unat x) m \<Longrightarrow> m < 32" by (auto simp: bit_unsigned_iff dest: bit_u32)
    then show "bit (unat x AND push_bit 32 (limbs_val xs)) m = bit (0 :: nat) m"
      by (auto simp: bit_and_iff bit_push_bit_iff)
  qed
  then have or: "limbs_val (x # xs) = unat x OR push_bit 32 (limbs_val xs)"
    by (simp add: disjunctive_add_eq_or [symmetric] push_bit_eq_mult)
  show ?case
  proof (cases "n < 32")
    case True
    then show ?thesis unfolding or by (simp add: bit_or_iff bit_push_bit_iff bit_unsigned_iff)
  next
    case False
    have "\<not> bit (unat x) n" using False by (auto simp: bit_unsigned_iff dest: bit_u32)
    moreover obtain m where "n = m + 32" using False by (metis add.commute le_Suc_ex linorder_not_less)
    moreover have "(m + 32) div 32 = Suc (m div 32)" by simp
    ultimately show ?thesis
      unfolding or using Cons [of m] by (simp add: bit_or_iff bit_push_bit_iff)
  qed
qed simp

lemma shl_step_len [simp]: "length (shl_step a k s i pn) = length pn"
  by (simp add: shl_step_def Let_def)

lemma shr_step_len [simp]: "length (shr_step a k s i pn) = length pn"
  by (simp add: shr_step_def Let_def)

lemma fold_step_len:
  "(\<And>i pn. length (f i pn) = length pn) \<Longrightarrow> length (fold f xs pn) = length pn"
  by (induction xs arbitrary: pn) simp_all

lemma arith_shl_ok [simp]: "limbs_ok (arith_shl a n)"
  by (simp add: arith_shl_def limbs_ok_def fold_step_len arith_zero_def)

lemma arith_shr_ok [simp]: "limbs_ok (arith_shr a n)"
  by (simp add: arith_shr_def limbs_ok_def fold_step_len arith_zero_def)

lemma shl_fold_bit:
  assumes "j < WIDTH" "m \<le> WIDTH"
  shows "bit (fold (shl_step a k s) [0..<m] arith_zero ! j) t \<longleftrightarrow>
     (k \<le> j \<and> j - k < m \<and> bit (push_bit s (a ! (j - k))) t)
     \<or> (k + 1 \<le> j \<and> j - k - 1 < m \<and> s \<noteq> 0 \<and> bit (drop_bit (32 - s) (a ! (j - k - 1))) t)"
  using assms(2)
proof (induction m)
  case 0
  then show ?case using assms(1) by (simp add: arith_zero_def)
next
  case (Suc m)
  define pn where "pn = fold (shl_step a k s) [0..<m] arith_zero"
  have len: "length pn = WIDTH" by (simp add: pn_def fold_step_len arith_zero_def)
  have IH: "bit (pn ! j) t \<longleftrightarrow> (k \<le> j \<and> j - k < m \<and> bit (push_bit s (a ! (j - k))) t)
     \<or> (k + 1 \<le> j \<and> j - k - 1 < m \<and> s \<noteq> 0 \<and> bit (drop_bit (32 - s) (a ! (j - k - 1))) t)"
    using Suc by (simp add: pn_def)
  have "bit (shl_step a k s m pn ! j) t \<longleftrightarrow> bit (pn ! j) t
     \<or> (j = m + k \<and> bit (push_bit s (a ! m)) t)
     \<or> (j = m + k + 1 \<and> s \<noteq> 0 \<and> bit (drop_bit (32 - s) (a ! m)) t)"
    using len assms(1)
    by (cases "j = m + k"; cases "j = m + k + 1") (simp_all add: shl_step_def Let_def bit_or_iff)
  moreover have "fold (shl_step a k s) [0..<Suc m] arith_zero = shl_step a k s m pn"
    by (simp add: pn_def)
  moreover have "(k \<le> j \<and> j - k < Suc m \<and> X) = ((k \<le> j \<and> j - k < m \<and> X) \<or> (j = m + k \<and> X))"
    and "(k + 1 \<le> j \<and> j - k - 1 < Suc m \<and> X)
       = ((k + 1 \<le> j \<and> j - k - 1 < m \<and> X) \<or> (j = m + k + 1 \<and> X))" for X
    by auto
  moreover have "(j = m + k \<and> bit (push_bit s (a ! m)) t) = (j = m + k \<and> bit (push_bit s (a ! (j - k))) t)"
    "(j = m + k + 1 \<and> s \<noteq> 0 \<and> bit (drop_bit (32 - s) (a ! m)) t)
     = (j = m + k + 1 \<and> s \<noteq> 0 \<and> bit (drop_bit (32 - s) (a ! (j - k - 1))) t)"
    by auto
  ultimately show ?case using IH by (simp only: disj_ac)
qed

lemma shr_fold_bit:
  assumes "j < WIDTH" "m \<le> WIDTH"
  shows "bit (fold (shr_step a k s) [0..<m] arith_zero ! j) t \<longleftrightarrow>
     (j + k < m \<and> bit (drop_bit s (a ! (j + k))) t)
     \<or> (j + k + 1 < m \<and> s \<noteq> 0 \<and> bit (push_bit (32 - s) (a ! (j + k + 1))) t)"
  using assms(2)
proof (induction m)
  case 0
  then show ?case using assms(1) by (simp add: arith_zero_def)
next
  case (Suc m)
  define pn where "pn = fold (shr_step a k s) [0..<m] arith_zero"
  have len: "length pn = WIDTH" by (simp add: pn_def fold_step_len arith_zero_def)
  have IH: "bit (pn ! j) t \<longleftrightarrow> (j + k < m \<and> bit (drop_bit s (a ! (j + k))) t)
     \<or> (j + k + 1 < m \<and> s \<noteq> 0 \<and> bit (push_bit (32 - s) (a ! (j + k + 1))) t)"
    using Suc by (simp add: pn_def)
  have mw: "m < WIDTH" using Suc.prems by simp
  have "bit (shr_step a k s m pn ! j) t \<longleftrightarrow> bit (pn ! j) t
     \<or> (m = j + k \<and> bit (drop_bit s (a ! m)) t)
     \<or> (m = j + k + 1 \<and> s \<noteq> 0 \<and> bit (push_bit (32 - s) (a ! m)) t)"
    using len assms(1) mw
    by (cases "m = j + k"; cases "m = j + k + 1") (auto simp: shr_step_def Let_def bit_or_iff)
  moreover have "fold (shr_step a k s) [0..<Suc m] arith_zero = shr_step a k s m pn"
    by (simp add: pn_def)
  ultimately show ?case using IH by (auto simp: less_Suc_eq)
qed

lemma div_mod_32: "t < 32 \<Longrightarrow> (32 * m + t) div 32 = m" "t < 32 \<Longrightarrow> (32 * m + t) mod 32 = t"
  for t m :: nat
  by simp_all

lemma limbs_val_shl':
  assumes "limbs_ok a"
  shows "limbs_val (arith_shl a sh) = take_bit 256 (push_bit sh (limbs_val a))"
proof (rule bit_eqI)
  fix n :: nat
  define k s j t where d: "k = sh div 32" "s = sh mod 32" "j = n div 32" "t = n mod 32"
  have sh: "sh = 32 * k + s" and n: "n = 32 * j + t" and st: "s < 32" "t < 32"
    by (simp_all add: d)
  have la: "length a = 8" using assms by (simp add: limbs_ok_def WIDTH_def)
  have lhs: "bit (limbs_val (arith_shl a sh)) n \<longleftrightarrow> j < 8 \<and> bit (arith_shl a sh ! j) t"
    using arith_shl_ok [of a sh] st by (auto simp: bit_limbs_val limbs_ok_def WIDTH_def d)
  have rhs: "bit (take_bit 256 (push_bit sh (limbs_val a))) n \<longleftrightarrow> j < 8 \<and> sh \<le> n \<and> bit (limbs_val a) (n - sh)"
    using st unfolding n by (auto simp: bit_take_bit_iff bit_push_bit_iff)
  show "bit (limbs_val (arith_shl a sh)) n = bit (take_bit 256 (push_bit sh (limbs_val a))) n"
  proof (cases "j < 8")
    case True
    have n256: "n - sh < 256" using True st by (simp add: n)
    have fb: "bit (arith_shl a sh ! j) t \<longleftrightarrow>
      (k \<le> j \<and> bit (push_bit s (a ! (j - k))) t)
      \<or> (k + 1 \<le> j \<and> s \<noteq> 0 \<and> bit (drop_bit (32 - s) (a ! (j - k - 1))) t)"
      using shl_fold_bit [of j WIDTH a k s t] True by (auto simp: arith_shl_def d WIDTH_def)
    show ?thesis
    proof (cases "s \<le> t")
      case le: True
      have nd: "\<not> bit (drop_bit (32 - s) (a ! i)) t" for i
        using le st by (auto simp: bit_drop_bit_eq dest!: bit_u32)
      have pb: "bit (push_bit s (a ! i)) t \<longleftrightarrow> bit (a ! i) (t - s)" for i
        using le st by (simp add: bit_push_bit_iff)
      show ?thesis
      proof (cases "k \<le> j")
        case kj: True
        then have "n - sh = 32 * (j - k) + (t - s)" "sh \<le> n" using le by (simp_all add: n sh)
        moreover have "t - s < 32" using st by simp
        ultimately show ?thesis
          unfolding lhs rhs fb using nd pb kj True la n256 by (simp only: bit_limbs_val div_mod_32) simp
      next
        case False
        then have "\<not> sh \<le> n" using st by (simp add: n sh)
        then show ?thesis unfolding lhs rhs fb using False by simp
      qed
    next
      case gt: False
      have nd: "bit (drop_bit (32 - s) (a ! i)) t \<longleftrightarrow> bit (a ! i) (32 + t - s)" for i
        using gt st by (simp add: bit_drop_bit_eq)
      have pb: "\<not> bit (push_bit s (a ! i)) t" for i
        using gt by (simp add: bit_push_bit_iff)
      show ?thesis
      proof (cases "k + 1 \<le> j")
        case kj: True
        then have "n - sh = 32 * (j - k - 1) + (32 + t - s)" "sh \<le> n" using gt st by (simp_all add: n sh)
        moreover have "32 + t - s < 32" "s \<noteq> 0" using gt st by simp_all
        ultimately show ?thesis
          unfolding lhs rhs fb using nd pb kj True la n256 by (simp only: bit_limbs_val div_mod_32) simp
      next
        case False
        then have "\<not> sh \<le> n" using st gt by (simp add: n sh)
        then show ?thesis unfolding lhs rhs fb using False pb by simp
      qed
    qed
  qed (simp add: lhs rhs)
qed

lemma limbs_val_shl:
  "limbs_ok a \<Longrightarrow> limbs_val (arith_shl a sh) = (limbs_val a * 2 ^ sh) mod 2 ^ 256"
  by (simp only: limbs_val_shl' take_bit_eq_mod push_bit_eq_mult)

lemma limbs_val_shr':
  assumes "limbs_ok a"
  shows "limbs_val (arith_shr a sh) = drop_bit sh (limbs_val a)"
proof (rule bit_eqI)
  fix n :: nat
  define k s j t where d: "k = sh div 32" "s = sh mod 32" "j = n div 32" "t = n mod 32"
  have sh: "sh = 32 * k + s" and n: "n = 32 * j + t" and st: "s < 32" "t < 32"
    by (simp_all add: d)
  have la: "length a = 8" using assms by (simp add: limbs_ok_def WIDTH_def)
  have lhs: "bit (limbs_val (arith_shr a sh)) n \<longleftrightarrow> j < 8 \<and> bit (arith_shr a sh ! j) t"
    using arith_shr_ok [of a sh] st by (auto simp: bit_limbs_val limbs_ok_def WIDTH_def d)
  have rhs: "bit (drop_bit sh (limbs_val a)) n \<longleftrightarrow> bit (limbs_val a) (sh + n)"
    by (simp add: bit_drop_bit_eq)
  show "bit (limbs_val (arith_shr a sh)) n = bit (drop_bit sh (limbs_val a)) n"
  proof (cases "j < 8")
    case True
    have fb: "bit (arith_shr a sh ! j) t \<longleftrightarrow>
      (j + k < 8 \<and> bit (drop_bit s (a ! (j + k))) t)
      \<or> (j + k + 1 < 8 \<and> s \<noteq> 0 \<and> bit (push_bit (32 - s) (a ! (j + k + 1))) t)"
      using shr_fold_bit [of j WIDTH a k s t] True by (auto simp: arith_shr_def d WIDTH_def)
    show ?thesis
    proof (cases "s + t < 32")
      case lt: True
      have pb: "\<not> (s \<noteq> 0 \<and> bit (push_bit (32 - s) (a ! i)) t)" for i
        using lt by (auto simp: bit_push_bit_iff)
      have db: "bit (drop_bit s (a ! i)) t \<longleftrightarrow> bit (a ! i) (s + t)" for i
        by (simp add: bit_drop_bit_eq)
      have "sh + n = 32 * (j + k) + (s + t)" by (simp add: n sh)
      then show ?thesis
        unfolding lhs rhs fb using pb db True la lt by (simp only: bit_limbs_val div_mod_32) auto
    next
      case ge: False
      have db: "\<not> bit (drop_bit s (a ! i)) t" for i
        using ge by (auto simp: bit_drop_bit_eq dest!: bit_u32)
      have pb: "bit (push_bit (32 - s) (a ! i)) t \<longleftrightarrow> bit (a ! i) (s + t - 32)" for i
        using ge st by (auto simp: bit_push_bit_iff add.commute)
      have "sh + n = 32 * (j + k + 1) + (s + t - 32)" using ge by (simp add: n sh)
      moreover have "s + t - 32 < 32" "s \<noteq> 0" using st ge by simp_all
      ultimately show ?thesis
        unfolding lhs rhs fb using pb db True la by (simp only: bit_limbs_val div_mod_32) auto
    qed
  next
    case False
    then have "\<not> bit (limbs_val a) (sh + n)" by (simp add: bit_limbs_val la n)
    then show ?thesis using False by (simp add: lhs rhs)
  qed
qed

lemma limbs_val_shr:
  "limbs_ok a \<Longrightarrow> limbs_val (arith_shr a sh) = limbs_val a div 2 ^ sh"
  by (simp only: limbs_val_shr' drop_bit_eq_div)

subsection \<open>Division\<close>

lemma set_bit_limb_ok [simp]: "limbs_ok q \<Longrightarrow> limbs_ok (set_bit_limb n q)"
  by (simp add: set_bit_limb_def limbs_ok_def)

lemma limbs_val_set_bit:
  assumes "limbs_ok q" "n < 256" "2 ^ Suc n dvd limbs_val q"
  shows "limbs_val (set_bit_limb n q) = limbs_val q + 2 ^ n"
proof -
  have len: "length q = 8" using assms(1) by (simp add: limbs_ok_def WIDTH_def)
  have "limbs_val (set_bit_limb n q) = limbs_val q OR push_bit n 1"
  proof (rule bit_eqI)
    fix m
    have "bit (set_bit_limb n q ! (m div 32)) (m mod 32) \<longleftrightarrow>
        bit (q ! (m div 32)) (m mod 32) \<or> (m div 32 = n div 32 \<and> m mod 32 = n mod 32)" if "m < 256"
    proof (cases "m div 32 = n div 32")
      case True
      have "m div 32 < 8" "n div 32 < 8" "m mod 32 < 32" using that assms(2) by auto
      then show ?thesis
        using len True by (auto simp: set_bit_limb_def bit_or_iff bit_push_bit_iff bit_exp_iff bit_1_iff)
    next
      case False
      then show ?thesis by (auto simp: set_bit_limb_def)
    qed
    moreover have "m div 32 = n div 32 \<and> m mod 32 = n mod 32 \<longleftrightarrow> m = n"
      by (metis mult_div_mod_eq)
    ultimately show "bit (limbs_val (set_bit_limb n q)) m = bit (limbs_val q OR push_bit n 1) m"
      using len assms(2) set_bit_limb_ok [OF assms(1), of n]
      by (auto simp: bit_limbs_val bit_or_iff bit_push_bit_iff bit_exp_iff bit_1_iff limbs_ok_def WIDTH_def)
  qed
  moreover have "limbs_val q AND push_bit n 1 = 0"
  proof (rule bit_eqI)
    fix m
    obtain c where c: "limbs_val q = 2 ^ Suc n * c" using assms(3) by auto
    have "bit (limbs_val q) n \<longleftrightarrow> odd (2 ^ n * (2 * c) div 2 ^ n)"
      by (simp only: bit_iff_odd c power_Suc) (simp add: mult.assoc)
    then have "\<not> bit (limbs_val q) n" by simp
    then show "bit (limbs_val q AND push_bit n 1) m = bit (0 :: nat) m"
      by (auto simp: bit_and_iff bit_push_bit_iff bit_exp_iff bit_1_iff)
  qed
  ultimately show ?thesis
    by (simp add: disjunctive_add_eq_or [symmetric] push_bit_eq_mult)
qed

lemma div_loop_spec:
  assumes "0 < B" "n \<le> 256" "limbs_ok num" "limbs_ok dv" "limbs_ok q"
    "limbs_val num < B * 2 ^ n" "limbs_val dv = B * 2 ^ n div 2" "2 ^ n dvd limbs_val q"
  shows "limbs_ok (div_loop n num dv q)
     \<and> limbs_val (div_loop n num dv q) = limbs_val q + limbs_val num div B"
  using assms
proof (induction n arbitrary: num dv q)
  case (Suc n)
  have dv: "limbs_val dv = B * 2 ^ n" using Suc.prems(7) by simp
  have dv': "limbs_val (arith_shr dv 1) = B * 2 ^ n div 2"
    using limbs_val_shr [OF Suc.prems(4), of 1] by (simp add: dv)
  show ?case
  proof (cases "limbs_val dv \<le> limbs_val num")
    case True
    define num' where "num' = arith_sub num dv"
    define q' where "q' = set_bit_limb n q"
    have num': "limbs_ok num'" "limbs_val num' = limbs_val num - B * 2 ^ n"
      using Suc.prems True limbs_val_sub_le [of num dv] by (simp_all add: num'_def dv)
    have q': "limbs_ok q'" "limbs_val q' = limbs_val q + 2 ^ n"
      using Suc.prems limbs_val_set_bit [of q n] by (simp_all add: q'_def)
    have "2 ^ n dvd limbs_val q'"
      unfolding q' using Suc.prems(8) by (metis dvd_add dvd_refl dvd_trans le_imp_power_dvd lessI less_imp_le)
    moreover have "limbs_val num' < B * 2 ^ n" using num' Suc.prems(6) by simp
    ultimately have r: "limbs_ok (div_loop n num' (arith_shr dv 1) q')
      \<and> limbs_val (div_loop n num' (arith_shr dv 1) q') = limbs_val q' + limbs_val num' div B"
      using Suc.IH [of num' "arith_shr dv 1" q'] Suc.prems num' q' dv' by simp
    obtain r where "limbs_val num = r + B * 2 ^ n" using True dv by (metis le_Suc_ex add.commute)
    then have "limbs_val num div B = 2 ^ n + limbs_val num' div B"
      using num' Suc.prems(1) by simp
    then show ?thesis
      using r q' CompareTo_ge [OF Suc.prems(3,4)] True by (simp add: num'_def q'_def)
  next
    case False
    have "2 ^ n dvd limbs_val q"
      using Suc.prems(8) by (metis dvd_trans le_imp_power_dvd lessI less_imp_le)
    then show ?thesis
      using Suc.IH [of num "arith_shr dv 1" q] Suc.prems dv' False dv CompareTo_ge [OF Suc.prems(3,4)]
      by simp
  qed
qed simp

lemma arith_div_spec:
  assumes "limbs_ok a" "limbs_ok b"
  shows "if limbs_val b = 0 then arith_div a b = Inl Division_by_zero
         else \<exists>q. arith_div a b = Inr q \<and> limbs_ok q \<and> limbs_val q = limbs_val a div limbs_val b"
proof (cases "limbs_val b = 0")
  case True
  then have "arith_bits b = 0" by (simp add: arith_bits_0_iff)
  then show ?thesis using True by (simp add: arith_div_def)
next
  case nz: False
  then have bb: "arith_bits b \<noteq> 0" by (simp add: arith_bits_0_iff)
  show ?thesis
  proof (cases "arith_bits b > arith_bits a")
    case True
    have "limbs_val a < 2 ^ arith_bits a" by (rule arith_bits_upper)
    also have "\<dots> \<le> 2 ^ (arith_bits b - 1)" using True by (intro power_increasing) simp_all
    also have "\<dots> \<le> limbs_val b" using bb by (rule arith_bits_lower)
    finally show ?thesis using True nz bb by (simp add: arith_div_def Let_def)
  next
    case False
    define s where "s = arith_bits a - arith_bits b"
    have na: "arith_bits a = s + arith_bits b" using False by (simp add: s_def)
    have "arith_bits a \<le> 256" using arith_bits_le limbs_val_less [OF assms(1)] by blast
    then have s256: "Suc s \<le> 256" "s + arith_bits b \<le> 256" using na bb by simp_all
    have "limbs_val b * 2 ^ s < 2 ^ arith_bits b * 2 ^ s"
      using arith_bits_upper [of b] by simp
    also have "\<dots> = 2 ^ (s + arith_bits b)" by (simp add: power_add mult.commute)
    also have "\<dots> \<le> (2::nat) ^ 256" using s256(2) by (intro power_increasing) simp_all
    finally have shl: "limbs_val (arith_shl b s) = limbs_val b * 2 ^ s"
      using limbs_val_shl [OF assms(2), of s] by simp
    have "limbs_val a < 2 ^ (s + arith_bits b)" using arith_bits_upper [of a] na by simp
    also have "\<dots> = 2 ^ (arith_bits b - 1) * 2 ^ Suc s"
      using bb unfolding power_add [symmetric] by (intro arg_cong [where f = "power 2"]) simp
    also have "\<dots> \<le> limbs_val b * 2 ^ Suc s" using arith_bits_lower [OF bb] by (rule mult_le_mono1)
    finally have num: "limbs_val a < limbs_val b * 2 ^ Suc s" .
    have "limbs_ok (div_loop (Suc s) a (arith_shl b s) arith_zero)
        \<and> limbs_val (div_loop (Suc s) a (arith_shl b s) arith_zero) = limbs_val arith_zero + limbs_val a div limbs_val b"
      by (rule div_loop_spec) (use nz s256 assms shl num in simp_all)
    then show ?thesis using False bb nz by (simp add: arith_div_def Let_def s_def [symmetric])
  qed
qed

end
