(* ===== verification/Arith_Compact.thy ===== *)
theory Arith_Compact
  imports Arith_Shift
begin

unbundle bit_operations_syntax

text \<open>
  The compact encoding of 256-bit targets, and the properties of the 256-bit arithmetic.
\<close>

lemma unat_push_bit_mod: "unat (push_bit n w) = (unat w * 2 ^ n) mod 2 ^ LENGTH('a)" for w :: "'a::len word"
  by (subst unsigned_push_bit_eq) (simp only: push_bit_eq_mult take_bit_eq_mod)

lemma u32_and_mask23: "(c :: u32) AND 0x007fffff = take_bit 23 c"
proof -
  have "(0x007fffff :: u32) = mask 23" by (simp add: mask_eq_exp_minus_1)
  then show ?thesis by (simp only: take_bit_eq_mask)
qed

lemma u32_sign_bit: "(c :: u32) AND 0x00800000 \<noteq> 0 \<longleftrightarrow> odd (unat c div 2 ^ 23)"
proof -
  have "(0x00800000 :: u32) = push_bit 23 1" by simp
  then have "c AND 0x00800000 \<noteq> 0 \<longleftrightarrow> bit c 23"
    by (simp only: bit_iff_and_push_bit_not_eq_0)
  also have "\<dots> \<longleftrightarrow> bit (unat c) 23" by (simp add: bit_unsigned_iff)
  finally show ?thesis by (simp only: bit_iff_odd)
qed

lemma u32_field_OR:
  assumes "unat (x :: u32) < 2 ^ 24" and "n < 256"
  shows "unat (x OR push_bit 24 (of_nat n)) = unat x + 2 ^ 24 * n"
proof -
  have x: "x = take_bit 24 x"
    using assms(1) by (simp add: word_unat_eq_iff unat_take_bit_mod)
  have "x AND push_bit 24 (of_nat n) = 0"
    by (subst x) (auto intro!: bit_eqI simp: bit_and_iff bit_take_bit_iff bit_push_bit_iff)
  then have "x OR push_bit 24 (of_nat n) = x + push_bit 24 (of_nat n)"
    by (rule disjunctive_add_eq_or [symmetric])
  moreover have "push_bit 24 (of_nat n) = (of_nat (2 ^ 24 * n) :: u32)"
    unfolding push_bit_eq_mult by simp
  ultimately have eq: "x OR push_bit 24 (of_nat n) = x + of_nat (2 ^ 24 * n)" by (simp only:)
  have "unat (of_nat (2 ^ 24 * n) :: u32) = 2 ^ 24 * n"
    using assms(2) by (simp only: unat_of_nat) simp
  then show ?thesis
    unfolding eq using assms by (simp only: unat_word_ariths) simp
qed

lemma unat_GetLow64:
  assumes "limbs_ok a"
  shows "unat (GetLow64 a) = limbs_val a mod 2 ^ 64"
proof -
  obtain x y zs where a: "a = x # y # zs"
    using assms by (auto simp: limbs_ok_def WIDTH_def length_Suc_conv numeral_eq_Suc)
  have "ucast x AND push_bit 32 (ucast y) = (0 :: u64)"
  proof (rule bit_eqI)
    fix n
    have "bit x n \<Longrightarrow> n < 32" by (rule bit_u32)
    then show "bit (ucast x AND push_bit 32 (ucast y) :: u64) n = bit (0 :: u64) n"
      by (auto simp: bit_and_iff bit_push_bit_iff bit_ucast_iff)
  qed
  then have "GetLow64 a = ucast x + push_bit 32 (ucast y)"
    by (simp add: GetLow64_def a disjunctive_add_eq_or)
  then have l: "unat (GetLow64 a) = unat x + 2 ^ 32 * unat y"
    using unat_u32_le [of x] unat_u32_le [of y]
    by (simp add: push_bit_eq_mult unat_word_ariths)
  have "limbs_val a mod 2 ^ 64 = (unat (GetLow64 a) + 2 ^ 64 * limbs_val zs) mod 2 ^ 64"
    unfolding l by (simp add: a algebra_simps)
  also have "\<dots> = unat (GetLow64 a)"
    using unat_u64_less [of "GetLow64 a"] by (simp only: mod_mult_self2) simp
  finally show ?thesis by (rule sym)
qed

lemma GetCompact_cong: "limbs_ok a \<Longrightarrow> unat (GetLow64 (arith_shr a n)) = limbs_val a div 2 ^ n mod 2 ^ 64"
  by (simp add: unat_GetLow64 limbs_val_shr)

lemma SetCompact_fields:
  assumes c: "unat c = m + 2 ^ 24 * e" and m: "m < 2 ^ 23"
  defines "w \<equiv> if e \<le> 3 then m div 256 ^ (3 - e) else m"
  obtains v where "SetCompact c = (v, False, w \<noteq> 0 \<and> (e > 34 \<or> w > 0xff \<and> e > 33 \<or> w > 0xffff \<and> e > 32))"
    and "limbs_ok v" and "limbs_val v = (if e \<le> 3 then w else (w * 256 ^ (e - 3)) mod 2 ^ 256)"
proof -
  define W where "W = (if e \<le> 3 then drop_bit (8 * (3 - e)) (c AND 0x007fffff) else c AND 0x007fffff)"
  have e: "unat (drop_bit 24 c) = e" using c m by (simp add: unat_drop_bit_div)
  have "unat (c AND 0x007fffff) = (m + 2 ^ 23 * (2 * e)) mod 2 ^ 23"
    unfolding u32_and_mask23 unat_take_bit_mod c by simp
  also have "\<dots> = m" using m by (simp only: mod_mult_self2) simp
  finally have x: "unat (c AND 0x007fffff) = m" .
  have W: "unat W = w"
    unfolding W_def w_def by (simp only: unat_drop_bit_div x if_distrib [where f = unat] power_mult) simp
  have sg: "c AND 0x00800000 = 0"
  proof -
    have "unat c div 2 ^ 23 = (m + 2 ^ 23 * (2 * e)) div 2 ^ 23" unfolding c by simp
    also have "\<dots> = 2 * e" using m by (simp only: div_mult_self2) simp
    finally show ?thesis using u32_sign_bit [of c] by simp
  qed
  define v where "v = (if e \<le> 3 then arith_of_u64 (ucast W) else arith_shl (arith_of_u64 (ucast W)) (8 * (e - 3)))"
  have "limbs_ok v" by (simp add: v_def)
  moreover have "limbs_val v = (if e \<le> 3 then w else (w * 256 ^ (e - 3)) mod 2 ^ 256)"
    using W by (simp add: v_def limbs_val_shl power_mult)
  moreover have "SetCompact c = (v, False, W \<noteq> 0 \<and> (e > 34 \<or> W > 0xff \<and> e > 33 \<or> W > 0xffff \<and> e > 32))"
    unfolding SetCompact_def Let_def e W_def [symmetric] v_def [symmetric] sg by simp
  moreover have "W \<noteq> 0 \<longleftrightarrow> w \<noteq> 0" "W > 0xff \<longleftrightarrow> w > 0xff" "W > 0xffff \<longleftrightarrow> w > 0xffff"
    using W by (auto simp: word_less_nat_alt unat_gt_0)
  ultimately show thesis using that by simp
qed

text \<open>The size in bytes and the mantissa that \<open>GetCompact\<close> writes for the number \<open>n\<close>.\<close>

definition compact_mantissa0 :: "nat \<Rightarrow> nat \<Rightarrow> nat" where
  "compact_mantissa0 nb n = (if nb \<le> 3 then n * 256 ^ (3 - nb) else n div 256 ^ (nb - 3))"

lemma compact_mantissa0_less: "n < 256 ^ nb \<Longrightarrow> compact_mantissa0 nb n < 2 ^ 24"
proof (cases "nb \<le> 3")
  case True
  assume "n < 256 ^ nb"
  then have "n * 256 ^ (3 - nb) < 256 ^ nb * 256 ^ (3 - nb)" by simp
  also have "\<dots> = 256 ^ 3" unfolding power_add [symmetric] using True by simp
  finally show ?thesis using True by (simp add: compact_mantissa0_def)
next
  case False
  assume "n < 256 ^ nb"
  also have "(256 :: nat) ^ nb = 256 ^ 3 * 256 ^ (nb - 3)" unfolding power_add [symmetric] using False by simp
  finally show ?thesis using False by (simp add: compact_mantissa0_def less_mult_imp_div_less)
qed

lemma arith_nbytes:
  assumes "limbs_ok a" defines "nb \<equiv> (arith_bits a + 7) div 8"
  shows "limbs_val a < 256 ^ nb" and "nb \<le> 32" and "nb \<noteq> 0 \<Longrightarrow> 256 ^ (nb - 1) \<le> limbs_val a"
proof -
  have "arith_bits a \<le> 8 * nb" by (simp add: nb_def)
  then have "(2::nat) ^ arith_bits a \<le> 2 ^ (8 * nb)" by (intro power_increasing) simp_all
  then show "limbs_val a < 256 ^ nb" using arith_bits_upper [of a] by (simp add: power_mult)
  have "arith_bits a \<le> 256" using arith_bits_le limbs_val_less [OF assms(1)] by blast
  then show "nb \<le> 32" by (simp add: nb_def)
  assume "nb \<noteq> 0"
  then have "8 * (nb - 1) \<le> arith_bits a - 1" "arith_bits a \<noteq> 0" by (simp_all add: nb_def)
  then have "(2::nat) ^ (8 * (nb - 1)) \<le> 2 ^ (arith_bits a - 1)" by (intro power_increasing) simp_all
  then show "256 ^ (nb - 1) \<le> limbs_val a"
    using arith_bits_lower \<open>arith_bits a \<noteq> 0\<close> by (simp add: power_mult) (meson le_trans)
qed

lemma GetCompact_fields:
  assumes ok: "limbs_ok a"
  defines "nb \<equiv> (arith_bits a + 7) div 8"
  defines "m0 \<equiv> compact_mantissa0 nb (limbs_val a)"
  defines "m \<equiv> if m0 < 2 ^ 23 then m0 else m0 div 256" and "e \<equiv> if m0 < 2 ^ 23 then nb else nb + 1"
  obtains c where "GetCompact a False = Some c" "unat c = m + 2 ^ 24 * e" "m < 2 ^ 23" "e \<le> 33"
proof -
  note nbs = arith_nbytes [OF ok, folded nb_def]
  have m0: "m0 < 2 ^ 24" unfolding m0_def by (rule compact_mantissa0_less) (rule nbs)
  define C where "C = (if nb \<le> 3 then ucast (push_bit (8 * (3 - nb)) (GetLow64 a))
                       else ucast (GetLow64 (arith_shr a (8 * (nb - 3)))) :: u32)"
  have C: "unat C = m0"
  proof (cases "nb \<le> 3")
    case True
    have "limbs_val a < 256 ^ nb" by (rule nbs)
    also have "\<dots> \<le> (256::nat) ^ 3" using True by (intro power_increasing) simp_all
    finally have "unat (GetLow64 a) = limbs_val a" by (simp add: unat_GetLow64 ok)
    then have "unat (push_bit (8 * (3 - nb)) (GetLow64 a)) = m0 mod 2 ^ 64"
      unfolding unat_push_bit_mod using True by (simp add: m0_def compact_mantissa0_def power_mult)
    then show ?thesis using True m0 by (simp add: C_def unat_ucast_mod)
  next
    case False
    then have "unat (GetLow64 (arith_shr a (8 * (nb - 3)))) = m0 mod 2 ^ 64"
      using ok by (simp add: GetCompact_cong m0_def compact_mantissa0_def power_mult)
    then show ?thesis using False m0 by (simp add: C_def unat_ucast_mod)
  qed
  have "m0 div 2 ^ 23 < 2" using m0 by simp
  then have sg: "C AND 0x00800000 \<noteq> 0 \<longleftrightarrow> \<not> m0 < 2 ^ 23"
    unfolding u32_sign_bit C using m0 by (auto simp: div_eq_0_iff dest: less_2_cases)
  define C1 where "C1 = (if C AND 0x00800000 \<noteq> 0 then drop_bit 8 C else C)"
  have C1: "unat C1 = m" using C by (simp add: C1_def sg m_def unat_drop_bit_div)
  have e: "(if C AND 0x00800000 \<noteq> 0 then nb + 1 else nb) = e" by (simp add: sg e_def)
  have "m0 div 256 < 2 ^ 16" using m0 by simp
  then have m: "m < 2 ^ 23" by (simp add: m_def)
  have "take_bit 23 C1 = C1" using C1 m by (simp add: word_unat_eq_iff unat_take_bit_mod)
  then have "C1 = C1 AND 0x007fffff" by (simp only: u32_and_mask23)
  then have mask: "C1 AND NOT 0x007fffff = 0"
    by (metis and.assoc bit.conj_cancel_right bit.conj_zero_right)
  have e33: "e \<le> 33" using nbs(2) by (simp add: e_def)
  have "GetCompact a False = Some (C1 OR push_bit 24 (of_nat e))"
    unfolding GetCompact_def Let_def nb_def [symmetric] C_def [symmetric] C1_def [symmetric] e
    using mask e33 by simp
  moreover have "unat (C1 OR push_bit 24 (of_nat e)) = m + 2 ^ 24 * e"
    using u32_field_OR [of C1 e] C1 m e33 by simp
  ultimately show thesis using that m e33 by blast
qed

lemma compact_mantissa0_ge:
  assumes "256 ^ (nb - 1) \<le> n" "nb \<noteq> 0"
  shows "2 ^ 16 \<le> compact_mantissa0 nb n"
proof (cases "nb \<le> 3")
  case True
  have "(2::nat) ^ 16 = 256 ^ (nb - 1) * 256 ^ (3 - nb)"
    unfolding power_add [symmetric] using True assms(2) by simp
  also have "\<dots> \<le> n * 256 ^ (3 - nb)" using assms(1) by (rule mult_le_mono1)
  finally show ?thesis using True by (simp add: compact_mantissa0_def)
next
  case False
  have "256 ^ (nb - 1) div 256 ^ (nb - 3) \<le> n div 256 ^ (nb - 3)" using assms(1) by (rule div_le_mono)
  moreover have "(256::nat) ^ (nb - 1) = 256 ^ 2 * 256 ^ (nb - 3)"
    unfolding power_add [symmetric] using False by (intro arg_cong [where f = "power 256"]) simp
  ultimately show ?thesis using False by (simp add: compact_mantissa0_def)
qed

text \<open>What \<open>SetCompact\<close> reads from the mantissa \<open>m\<close> with the size \<open>e\<close>.\<close>

definition compact_val :: "nat \<Rightarrow> nat \<Rightarrow> nat" where
  "compact_val e m = (if e \<le> 3 then m div 256 ^ (3 - e) else m * 256 ^ (e - 3))"

lemma compact_val_bounds:
  assumes lo: "nb \<noteq> 0 \<Longrightarrow> 256 ^ (nb - 1) \<le> n" and hi: "n < 256 ^ nb"
  defines "m0 \<equiv> compact_mantissa0 nb n"
  defines "m \<equiv> if m0 < 2 ^ 23 then m0 else m0 div 256" and "e \<equiv> if m0 < 2 ^ 23 then nb else nb + 1"
  shows "compact_val e m \<le> n" and "(n - compact_val e m) * 2 ^ 15 \<le> n"
proof -
  have "nb = 0 \<or> nb = 1 \<or> nb = 2 \<or> nb = 3 \<or> 3 < nb" by linarith
  then have main: "compact_val e m = n \<or> (\<exists>k q. compact_val e m = q * 256 ^ k \<and> q * 256 ^ k \<le> n
      \<and> n < (q + 1) * 256 ^ k \<and> 2 ^ 15 \<le> q)"
  proof (elim disjE)
    assume "3 < nb"
    have m0: "m0 = n div 256 ^ (nb - 3)" using \<open>3 < nb\<close> by (simp add: m0_def compact_mantissa0_def)
    have ge: "2 ^ 16 \<le> m0"
      unfolding m0_def by (rule compact_mantissa0_ge) (use lo \<open>3 < nb\<close> in simp_all)
    have trunc: "n div P * P \<le> n" "n < (n div P + 1) * P" if "0 < P" for P :: nat
      using that by (simp_all add: dividend_less_div_times)
    show ?thesis
    proof (cases "m0 < 2 ^ 23")
      case True
      have "m0 * 256 ^ (nb - 3) \<le> n" "n < (m0 + 1) * 256 ^ (nb - 3)"
        unfolding m0 by (rule trunc, simp)+
      then show ?thesis using True ge \<open>3 < nb\<close>
        by (intro disjI2 exI [of _ "nb - 3"] exI [of _ m0]) (simp add: e_def m_def compact_val_def)
    next
      case False
      have q: "m0 div 256 = n div 256 ^ (nb - 2)"
      proof -
        have "m0 div 256 = n div (256 ^ (nb - 3) * 256)" unfolding m0 by (simp only: div_mult2_eq)
        also have "256 ^ (nb - 3) * 256 = (256::nat) ^ Suc (nb - 3)" by simp
        also have "Suc (nb - 3) = nb - 2" using \<open>3 < nb\<close> by simp
        finally show ?thesis .
      qed
      have "m0 div 256 * 256 ^ (nb - 2) \<le> n" "n < (m0 div 256 + 1) * 256 ^ (nb - 2)"
        unfolding q by (rule trunc, simp)+
      moreover have "2 ^ 15 \<le> m0 div 256" using False by simp
      moreover have "compact_val e m = m0 div 256 * 256 ^ (nb - 2)"
        using False \<open>3 < nb\<close> by (simp add: e_def m_def compact_val_def)
      ultimately show ?thesis by (intro disjI2 exI [of _ "nb - 2"] exI [of _ "m0 div 256"]) simp
    qed
  next
    assume "nb = 3"
    then have "m0 = n" by (simp add: m0_def compact_mantissa0_def)
    show ?thesis
    proof (cases "n < 2 ^ 23")
      case True
      then show ?thesis using \<open>m0 = n\<close> \<open>nb = 3\<close> by (simp add: m_def e_def compact_val_def)
    next
      case False
      have "compact_val e m = n div 256 * 256 ^ 1"
        using False \<open>m0 = n\<close> \<open>nb = 3\<close> by (simp add: m_def e_def compact_val_def)
      moreover have "n div 256 * 256 ^ 1 \<le> n" "n < (n div 256 + 1) * 256 ^ 1"
        by (simp_all add: dividend_less_div_times)
      moreover have "2 ^ 15 \<le> n div 256" using False by simp
      ultimately show ?thesis by blast
    qed
  next
    assume "nb = 2"
    then have "m0 = n * 256" by (simp add: m0_def compact_mantissa0_def)
    then show ?thesis using \<open>nb = 2\<close> by (simp add: m_def e_def compact_val_def)
  next
    assume "nb = 1"
    then have m0: "m0 = n * 256 * 256" by (simp add: m0_def compact_mantissa0_def)
    have "m0 div 256 = n * 256" unfolding m0 by (rule nonzero_mult_div_cancel_right) simp
    then show ?thesis using \<open>nb = 1\<close> m0 by (simp add: m_def e_def compact_val_def)
  next
    assume "nb = 0"
    then show ?thesis using hi by (simp add: m_def e_def compact_val_def m0_def compact_mantissa0_def)
  qed
  then show "compact_val e m \<le> n" by auto
  from main show "(n - compact_val e m) * 2 ^ 15 \<le> n"
  proof
    assume "\<exists>k q. compact_val e m = q * 256 ^ k \<and> q * 256 ^ k \<le> n \<and> n < (q + 1) * 256 ^ k \<and> 2 ^ 15 \<le> q"
    then obtain k q where v: "compact_val e m = q * 256 ^ k" and "q * 256 ^ k \<le> n"
      and "n < (q + 1) * 256 ^ k" and q: "2 ^ 15 \<le> q" by blast
    then have "n - compact_val e m \<le> 256 ^ k" by (simp add: algebra_simps)
    then have "(n - compact_val e m) * 2 ^ 15 \<le> 256 ^ k * q" using q by (rule mult_le_mono)
    also have "\<dots> \<le> n" using \<open>q * 256 ^ k \<le> n\<close> by (simp add: mult.commute)
    finally show ?thesis .
  qed simp
qed

lemma SetCompact_GetCompact:
  assumes ok: "limbs_ok a"
  obtains c v where "GetCompact a False = Some c" and "SetCompact c = (v, False, False)"
    and "limbs_ok v" and "limbs_val v \<le> limbs_val a"
    and "(limbs_val a - limbs_val v) * 2 ^ 15 \<le> limbs_val a"
proof -
  define nb where "nb = (arith_bits a + 7) div 8"
  define m0 where "m0 = compact_mantissa0 nb (limbs_val a)"
  define m where "m = (if m0 < 2 ^ 23 then m0 else m0 div 256)"
  define e where "e = (if m0 < 2 ^ 23 then nb else nb + 1)"
  note nbs = arith_nbytes [OF ok, folded nb_def]
  have bnd: "compact_val e m \<le> limbs_val a" "(limbs_val a - compact_val e m) * 2 ^ 15 \<le> limbs_val a"
    using compact_val_bounds [of nb "limbs_val a", folded m0_def, folded m_def e_def] nbs by blast+
  obtain c where c: "GetCompact a False = Some c" "unat c = m + 2 ^ 24 * e" "m < 2 ^ 23" "e \<le> 33"
    using GetCompact_fields [OF ok, folded nb_def, folded m0_def, folded m_def e_def] by blast
  have m0: "m0 < 2 ^ 24" unfolding m0_def by (rule compact_mantissa0_less) (rule nbs)
  have e33: "e = 33 \<Longrightarrow> m \<le> 0xffff" using m0 nbs(2) by (auto simp: e_def m_def split: if_splits)
  define w where "w = (if e \<le> 3 then m div 256 ^ (3 - e) else m)"
  obtain v where v: "SetCompact c = (v, False, w \<noteq> 0 \<and> (e > 34 \<or> w > 0xff \<and> e > 33 \<or> w > 0xffff \<and> e > 32))"
    "limbs_ok v" "limbs_val v = (if e \<le> 3 then w else (w * 256 ^ (e - 3)) mod 2 ^ 256)"
    using SetCompact_fields [OF c(2,3), folded w_def] by blast
  have "w * 256 ^ (e - 3) < 2 ^ 256" if "\<not> e \<le> 3"
    using bnd(1) limbs_val_less [OF ok] that by (simp add: w_def compact_val_def)
  then have val: "limbs_val v = compact_val e m" using v(3) by (simp add: w_def compact_val_def)
  have "\<not> (w \<noteq> 0 \<and> (e > 34 \<or> w > 0xff \<and> e > 33 \<or> w > 0xffff \<and> e > 32))"
  proof (cases "e = 33")
    case True
    then have "w \<le> 0xffff" using e33 by (simp add: w_def)
    then show ?thesis using True by simp
  qed (use c(4) in simp)
  then have "SetCompact c = (v, False, False)" using v(1) by (simp only: simp_thms)
  then show thesis using that [of c v] c(1) v(2) bnd by (simp only: val)
qed

subsection \<open>Properties\<close>

text \<open>C40: the limb-wise operators \<open>+\<close>, unary and binary \<open>-\<close>, the two products and the two shifts
  of \<open>base_uint<256>\<close> compute the corresponding operation modulo \<open>2 ^ 256\<close>.\<close>

theorem arith_operators_mod:
  assumes "limbs_ok a" and "limbs_ok b"
  shows "limbs_val (arith_add a b) = (limbs_val a + limbs_val b) mod 2 ^ 256
       \<and> limbs_val (arith_neg a) = (2 ^ 256 - limbs_val a) mod 2 ^ 256
       \<and> limbs_val (arith_sub a b) = (limbs_val a + (2 ^ 256 - limbs_val b)) mod 2 ^ 256
       \<and> limbs_val (arith_mul a b) = (limbs_val a * limbs_val b) mod 2 ^ 256
       \<and> limbs_val (arith_mul32 a w) = (limbs_val a * unat w) mod 2 ^ 256
       \<and> limbs_val (arith_shl a n) = (limbs_val a * 2 ^ n) mod 2 ^ 256
       \<and> limbs_val (arith_shr a n) = limbs_val a div 2 ^ n"
  by (intro conjI limbs_val_add limbs_val_neg limbs_val_sub limbs_val_mul limbs_val_mul32
      limbs_val_shl limbs_val_shr assms)

lemma arith_operators_mod_witness:
  "limbs_val (arith_sub (arith_of_u64 3) (arith_of_u64 5)) = 2 ^ 256 - 2"
proof -
  have "limbs_val (arith_sub (arith_of_u64 3) (arith_of_u64 5))
      = (limbs_val (arith_of_u64 3) + (2 ^ 256 - limbs_val (arith_of_u64 5))) mod 2 ^ 256"
    using arith_operators_mod [of "arith_of_u64 3" "arith_of_u64 5" 0 0] limbs_ok_simps(2) by blast
  then show ?thesis by simp
qed

text \<open>C39: the shift-and-subtract division raises the division error exactly on a zero divisor and
  otherwise returns the quotient.\<close>

theorem arith_div_correct:
  assumes "limbs_ok a" and "limbs_ok b"
  shows "arith_div a b = Inl Division_by_zero \<and> limbs_val b = 0
       \<or> (\<exists>q. arith_div a b = Inr q \<and> limbs_ok q \<and> limbs_val b \<noteq> 0 \<and> limbs_val q = limbs_val a div limbs_val b)"
  using arith_div_spec [OF assms] by (auto split: if_splits)

lemma arith_div_correct_witness:
  "\<exists>q. arith_div (arith_of_u64 100) (arith_of_u64 7) = Inr q \<and> limbs_val q = 14"
  using arith_div_correct [of "arith_of_u64 100" "arith_of_u64 7"] by auto

text \<open>\<open>GetCompact\<close> never fails its assertions on a 256-bit number, and reading its result back
  with \<open>SetCompact\<close> gives a number without the sign or overflow flag that is at most the original
  and misses it by at most one part in \<open>2 ^ 15\<close>.\<close>

theorem compact_roundtrip:
  assumes "limbs_ok a"
  shows "\<exists>c v. GetCompact a False = Some c \<and> SetCompact c = (v, False, False) \<and> limbs_ok v
       \<and> limbs_val v \<le> limbs_val a \<and> (limbs_val a - limbs_val v) * 2 ^ 15 \<le> limbs_val a"
  using SetCompact_GetCompact [OF assms] by metis

lemma compact_roundtrip_witness:
  "\<exists>c v. GetCompact (arith_of_u64 0x123456789a) False = Some c \<and> SetCompact c = (v, False, False)
     \<and> limbs_val v \<le> 0x123456789a"
  using compact_roundtrip [of "arith_of_u64 0x123456789a"] by auto

end
