(* ===== verification/Chain.thy ===== *)
theory Chain
  imports Arith_Uint256
begin

unbundle bit_operations_syntax

text \<open>
  The block index and the active chain (src/src/chain.h, src/src/chain.cpp and
  \<open>LastCommonAncestor\<close> of src/src/main.cpp).

  A block index entry is a value: its scalar fields are the record \<open>block_data\<close>, and the pointers
  \<open>pprev\<close> and \<open>pskip\<close> are the optional entries they point to.  An entry is never changed after its
  descendants point to it except in \<open>nStatus\<close>, \<open>nTx\<close>, \<open>nChainTx\<close>, \<open>nSequenceId\<close> and the disk position,
  which the operations of this theory do not read through a pointer; entries that are equal as
  values are the same entry because \<open>phashBlock\<close> is the key of \<open>mapBlockIndex\<close>.  A result of type
  \<open>'a option\<close> is \<open>None\<close> where the C++ code fails an assertion or dereferences a null pointer.
\<close>

record block_data =
  bi_hash :: uint256
  bi_nHeight :: int
  bi_nFile :: int
  bi_nDataPos :: u32
  bi_nUndoPos :: u32
  bi_nChainWork :: arith_uint256
  bi_nTx :: u32
  bi_nChainTx :: u32
  bi_nStatus :: u32
  bi_nVersion :: int
  bi_hashMerkleRoot :: uint256
  bi_nTime :: u32
  bi_nBits :: u32
  bi_nNonce :: u32
  bi_nSequenceId :: u32

datatype CBlockIndex =
  CBlockIndex (bi: block_data) (pprev: "CBlockIndex option") (pskip: "CBlockIndex option")

abbreviation height :: "CBlockIndex \<Rightarrow> int" where
  "height b \<equiv> bi_nHeight (bi b)"

definition SetNull_index :: block_data where
  "SetNull_index = \<lparr> bi_hash = 0, bi_nHeight = 0, bi_nFile = 0, bi_nDataPos = 0, bi_nUndoPos = 0,
     bi_nChainWork = arith_zero, bi_nTx = 0, bi_nChainTx = 0, bi_nStatus = 0, bi_nVersion = 0,
     bi_hashMerkleRoot = 0, bi_nTime = 0, bi_nBits = 0, bi_nNonce = 0, bi_nSequenceId = 0 \<rparr>"

lemma size_pprev [termination_simp]: "pprev b = Some p \<Longrightarrow> size p < size b"
  by (cases b) simp

lemma size_pskip [termination_simp]: "pskip b = Some p \<Longrightarrow> size p < size b"
  by (cases b) simp

subsection \<open>Status flags and disk positions\<close>

definition BLOCK_VALID_HEADER :: u32 where "BLOCK_VALID_HEADER = 1"
definition BLOCK_VALID_TREE :: u32 where "BLOCK_VALID_TREE = 2"
definition BLOCK_VALID_TRANSACTIONS :: u32 where "BLOCK_VALID_TRANSACTIONS = 3"
definition BLOCK_VALID_CHAIN :: u32 where "BLOCK_VALID_CHAIN = 4"
definition BLOCK_VALID_SCRIPTS :: u32 where "BLOCK_VALID_SCRIPTS = 5"
definition BLOCK_VALID_MASK :: u32 where
  "BLOCK_VALID_MASK = BLOCK_VALID_HEADER OR BLOCK_VALID_TREE OR BLOCK_VALID_TRANSACTIONS
     OR BLOCK_VALID_CHAIN OR BLOCK_VALID_SCRIPTS"
definition BLOCK_HAVE_DATA :: u32 where "BLOCK_HAVE_DATA = 8"
definition BLOCK_HAVE_UNDO :: u32 where "BLOCK_HAVE_UNDO = 16"
definition BLOCK_FAILED_VALID :: u32 where "BLOCK_FAILED_VALID = 32"
definition BLOCK_FAILED_CHILD :: u32 where "BLOCK_FAILED_CHILD = 64"
definition BLOCK_FAILED_MASK :: u32 where
  "BLOCK_FAILED_MASK = BLOCK_FAILED_VALID OR BLOCK_FAILED_CHILD"

definition IsValid :: "CBlockIndex \<Rightarrow> u32 \<Rightarrow> bool option" where
  "IsValid b nUpTo =
     (if nUpTo AND NOT BLOCK_VALID_MASK \<noteq> 0 then None
      else if bi_nStatus (bi b) AND BLOCK_FAILED_MASK \<noteq> 0 then Some False
      else Some (bi_nStatus (bi b) AND BLOCK_VALID_MASK \<ge> nUpTo))"

definition RaiseValidity :: "CBlockIndex \<Rightarrow> u32 \<Rightarrow> (CBlockIndex \<times> bool) option" where
  "RaiseValidity b nUpTo =
     (if nUpTo AND NOT BLOCK_VALID_MASK \<noteq> 0 then None
      else if bi_nStatus (bi b) AND BLOCK_FAILED_MASK \<noteq> 0 then Some (b, False)
      else if bi_nStatus (bi b) AND BLOCK_VALID_MASK < nUpTo
      then Some (CBlockIndex ((bi b)\<lparr> bi_nStatus := (bi_nStatus (bi b) AND NOT BLOCK_VALID_MASK) OR nUpTo \<rparr>)
                   (pprev b) (pskip b), True)
      else Some (b, False))"

record CDiskBlockPos =
  dp_nFile :: int
  dp_nPos :: u32

definition CDiskBlockPos_null :: CDiskBlockPos where
  "CDiskBlockPos_null = \<lparr> dp_nFile = -1, dp_nPos = 0 \<rparr>"

definition GetBlockPos :: "CBlockIndex \<Rightarrow> CDiskBlockPos" where
  "GetBlockPos b = (if bi_nStatus (bi b) AND BLOCK_HAVE_DATA \<noteq> 0
     then \<lparr> dp_nFile = bi_nFile (bi b), dp_nPos = bi_nDataPos (bi b) \<rparr> else CDiskBlockPos_null)"

definition GetUndoPos :: "CBlockIndex \<Rightarrow> CDiskBlockPos" where
  "GetUndoPos b = (if bi_nStatus (bi b) AND BLOCK_HAVE_UNDO \<noteq> 0
     then \<lparr> dp_nFile = bi_nFile (bi b), dp_nPos = bi_nUndoPos (bi b) \<rparr> else CDiskBlockPos_null)"

subsection \<open>Ancestors by the skip list\<close>

definition InvertLowestOne :: "int \<Rightarrow> int" where
  "InvertLowestOne n = n AND (n - 1)"

definition GetSkipHeight :: "int \<Rightarrow> int" where
  "GetSkipHeight h =
     (if h < 2 then 0
      else if h AND 1 \<noteq> 0 then InvertLowestOne (InvertLowestOne (h - 1)) + 1 else InvertLowestOne h)"

function ancestor_walk :: "CBlockIndex \<Rightarrow> int \<Rightarrow> int \<Rightarrow> CBlockIndex option" where
  "ancestor_walk w heightWalk h =
     (if heightWalk > h then
        let heightSkip = GetSkipHeight heightWalk; heightSkipPrev = GetSkipHeight (heightWalk - 1) in
        if pskip w \<noteq> None \<and> (heightSkip = h \<or>
              heightSkip > h \<and> \<not> (heightSkipPrev < heightSkip - 2 \<and> heightSkipPrev \<ge> h))
        then (case pskip w of Some s \<Rightarrow> ancestor_walk s heightSkip h | None \<Rightarrow> None)
        else (case pprev w of Some p \<Rightarrow> ancestor_walk p (heightWalk - 1) h | None \<Rightarrow> None)
      else Some w)"
  by pat_completeness auto
termination by (relation "measure (\<lambda>(w, hw, h). size w)") (auto simp: size_pprev size_pskip)

declare ancestor_walk.simps [simp del]

definition GetAncestor :: "CBlockIndex \<Rightarrow> int \<Rightarrow> CBlockIndex option option" where
  "GetAncestor b h =
     (if h > height b \<or> h < 0 then Some None
      else case ancestor_walk b (height b) h of None \<Rightarrow> None | Some r \<Rightarrow> Some (Some r))"

definition BuildSkip :: "CBlockIndex \<Rightarrow> CBlockIndex option" where
  "BuildSkip b =
     (case pprev b of
        None \<Rightarrow> Some b
      | Some p \<Rightarrow> (case GetAncestor p (GetSkipHeight (height b)) of
                     None \<Rightarrow> None
                   | Some s \<Rightarrow> Some (CBlockIndex (bi b) (pprev b) s)))"

definition nMedianTimeSpan :: nat where "nMedianTimeSpan = 11"

fun median_times :: "nat \<Rightarrow> CBlockIndex \<Rightarrow> int list" where
  "median_times 0 b = []"
| "median_times (Suc n) b =
     uint (bi_nTime (bi b)) # (case pprev b of None \<Rightarrow> [] | Some p \<Rightarrow> median_times n p)"

definition GetMedianTimePast :: "CBlockIndex \<Rightarrow> int" where
  "GetMedianTimePast b =
     (let pmedian = sort (median_times nMedianTimeSpan b) in pmedian ! (length pmedian div 2))"

subsection \<open>The active chain\<close>

text \<open>\<open>vChain\<close> is a vector of pointers, null between the \<open>resize\<close> and the end of \<open>SetTip\<close>.\<close>

type_synonym CChain = "CBlockIndex option list"

definition chain_at :: "CChain \<Rightarrow> int \<Rightarrow> CBlockIndex option" where
  "chain_at vChain h = (if h < 0 \<or> h \<ge> int (length vChain) then None else vChain ! nat h)"

definition chain_Genesis :: "CChain \<Rightarrow> CBlockIndex option" where
  "chain_Genesis vChain = (if length vChain > 0 then vChain ! 0 else None)"

definition chain_Tip :: "CChain \<Rightarrow> CBlockIndex option" where
  "chain_Tip vChain = (if length vChain > 0 then vChain ! (length vChain - 1) else None)"

definition chain_Contains :: "CChain \<Rightarrow> CBlockIndex \<Rightarrow> bool" where
  "chain_Contains vChain b \<longleftrightarrow> chain_at vChain (height b) = Some b"

definition chain_Next :: "CChain \<Rightarrow> CBlockIndex \<Rightarrow> CBlockIndex option" where
  "chain_Next vChain b = (if chain_Contains vChain b then chain_at vChain (height b + 1) else None)"

definition chain_Height :: "CChain \<Rightarrow> int" where
  "chain_Height vChain = int (length vChain) - 1"

definition resize_chain :: "CChain \<Rightarrow> nat \<Rightarrow> CChain" where
  "resize_chain vChain n = take n vChain @ replicate (n - length vChain) None"

function settip_loop :: "CBlockIndex option \<Rightarrow> CChain \<Rightarrow> CChain" where
  "settip_loop None vChain = vChain"
| "settip_loop (Some b) vChain =
     (if vChain ! nat (height b) \<noteq> Some b
      then settip_loop (pprev b) (vChain[nat (height b) := Some b]) else vChain)"
  by pat_completeness auto
termination
  by (relation "measure (\<lambda>(p, v). case p of None \<Rightarrow> 0 | Some b \<Rightarrow> Suc (size b))")
    (auto split: option.splits simp: size_pprev)

declare settip_loop.simps(2) [simp del]

definition SetTip :: "CChain \<Rightarrow> CBlockIndex option \<Rightarrow> CChain" where
  "SetTip vChain pindex =
     (case pindex of None \<Rightarrow> []
      | Some b \<Rightarrow> settip_loop (Some b) (resize_chain vChain (nat (height b + 1))))"

text \<open>The locator loop; \<open>fuel\<close> bounds its rounds, and \<open>None\<close> is also an exhausted bound.\<close>

fun locator_loop :: "nat \<Rightarrow> CChain \<Rightarrow> CBlockIndex option \<Rightarrow> int \<Rightarrow> uint256 list \<Rightarrow> uint256 list option" where
  "locator_loop 0 vChain pindex nStep vHave = None"
| "locator_loop (Suc fuel) vChain None nStep vHave = Some vHave"
| "locator_loop (Suc fuel) vChain (Some b) nStep vHave =
     (let vHave' = vHave @ [bi_hash (bi b)] in
      if height b = 0 then Some vHave'
      else let nHeight = max (height b - nStep) 0;
               nStep' = (if length vHave' > 10 then nStep * 2 else nStep)
           in case (if chain_Contains vChain b then Some (chain_at vChain nHeight)
                    else GetAncestor b nHeight) of
                None \<Rightarrow> None
              | Some q \<Rightarrow> locator_loop fuel vChain q nStep' vHave')"

definition GetLocator :: "nat \<Rightarrow> CChain \<Rightarrow> CBlockIndex option \<Rightarrow> uint256 list option" where
  "GetLocator fuel vChain pindex =
     locator_loop fuel vChain (if pindex = None then chain_Tip vChain else pindex) 1 []"

function fork_loop :: "CChain \<Rightarrow> CBlockIndex option \<Rightarrow> CBlockIndex option" where
  "fork_loop vChain None = None"
| "fork_loop vChain (Some b) = (if \<not> chain_Contains vChain b then fork_loop vChain (pprev b) else Some b)"
  by pat_completeness auto
termination
  by (relation "measure (\<lambda>(v, p). case p of None \<Rightarrow> 0 | Some b \<Rightarrow> Suc (size b))")
    (auto split: option.splits simp: size_pprev)

declare fork_loop.simps(2) [simp del]

definition FindFork :: "CChain \<Rightarrow> CBlockIndex option \<Rightarrow> CBlockIndex option option" where
  "FindFork vChain pindex =
     (case pindex of None \<Rightarrow> Some None
      | Some b \<Rightarrow>
         (case (if height b > chain_Height vChain then GetAncestor b (chain_Height vChain) else Some (Some b)) of
            None \<Rightarrow> None
          | Some q \<Rightarrow> Some (fork_loop vChain q)))"

text \<open>\<open>LastCommonAncestor\<close> of src/src/main.cpp.  \<open>None\<close> is the failed assertion that both walks meet.\<close>

function common_loop :: "CBlockIndex option \<Rightarrow> CBlockIndex option \<Rightarrow> CBlockIndex option \<times> CBlockIndex option" where
  "common_loop (Some a) (Some b) = (if a \<noteq> b then common_loop (pprev a) (pprev b) else (Some a, Some b))"
| "common_loop None q = (None, q)"
| "common_loop (Some a) None = (Some a, None)"
  by pat_completeness auto
termination
  by (relation "measure (\<lambda>(p, q). case p of None \<Rightarrow> 0 | Some b \<Rightarrow> Suc (size b))")
    (auto split: option.splits simp: size_pprev)

declare common_loop.simps(1) [simp del]

definition LastCommonAncestor :: "CBlockIndex \<Rightarrow> CBlockIndex \<Rightarrow> CBlockIndex option option" where
  "LastCommonAncestor a b =
     (case (if height a > height b then GetAncestor a (height b) else Some (Some a)) of
        None \<Rightarrow> None
      | Some pa \<Rightarrow>
         (case (if height b > height a then GetAncestor b (height a) else Some (Some b)) of
            None \<Rightarrow> None
          | Some pb \<Rightarrow> (let (x, y) = common_loop pa pb in if x = y then Some x else None)))"

end
