(* ===== verification/Chain_Props.thy ===== *)
theory Chain_Props
  imports Chain "HOL-Library.Multiset"
begin

unbundle bit_operations_syntax

text \<open>
  The path from the genesis block to an index entry is the specification of the skip list and of
  the active chain: \<open>path b ! h\<close> is the ancestor of \<open>b\<close> at height \<open>h\<close>.
\<close>

fun path :: "CBlockIndex \<Rightarrow> CBlockIndex list" where
  "path b = (case pprev b of None \<Rightarrow> [] | Some p \<Rightarrow> path p) @ [b]"

declare path.simps [simp del]

text \<open>The invariant of the block index: heights count the predecessors, and a skip pointer points
  to the ancestor at the skip height.\<close>

fun wf_index :: "CBlockIndex \<Rightarrow> bool" where
  "wf_index b \<longleftrightarrow>
     (case pprev b of None \<Rightarrow> height b = 0 | Some p \<Rightarrow> height b = height p + 1 \<and> wf_index p)
     \<and> (case pskip b of None \<Rightarrow> True | Some s \<Rightarrow> s = path b ! nat (GetSkipHeight (height b)))"

declare wf_index.simps [simp del]

lemma wf_height: "wf_index b \<Longrightarrow> 0 \<le> height b \<and> length (path b) = nat (height b) + 1"
proof (induction b rule: path.induct)
  case (1 b)
  show ?case
  proof (cases "pprev b")
    case None
    then show ?thesis using 1(2) by (simp add: wf_index.simps [of b] path.simps [of b])
  next
    case (Some p)
    then show ?thesis using 1 by (auto simp: wf_index.simps [of b] path.simps [of b])
  qed
qed

lemmas wf_height_nonneg [inv_intros] = wf_height [THEN conjunct1]
  and path_length = wf_height [THEN conjunct2]

lemma wf_pprev: "wf_index b \<Longrightarrow> pprev b = Some p \<Longrightarrow> wf_index p \<and> height b = height p + 1 \<and> path b = path p @ [b]"
  by (simp add: wf_index.simps [of b] path.simps [of b])

lemma wf_genesis: "wf_index b \<Longrightarrow> height b = 0 \<longleftrightarrow> pprev b = None"
  by (cases "pprev b") (auto simp: wf_index.simps [of b] dest: wf_height_nonneg)

lemma path_genesis: "pprev b = None \<Longrightarrow> path b = [b]"
  by (simp add: path.simps [of b])

lemma path_last: "wf_index b \<Longrightarrow> path b ! nat (height b) = b"
  using path_length [of b] by (simp add: path.simps [of b] nth_append split: option.splits)

lemma path_nonempty [simp]: "path b \<noteq> []"
  by (simp add: path.simps [of b])

lemma path_nth:
  "wf_index b \<Longrightarrow> k < length (path b) \<Longrightarrow>
   wf_index (path b ! k) \<and> height (path b ! k) = int k \<and> path (path b ! k) = take (Suc k) (path b)"
proof (induction b rule: path.induct)
  case (1 b)
  show ?case
  proof (cases "pprev b")
    case None
    then show ?thesis using 1(2,3) by (simp add: path_genesis wf_genesis)
  next
    case (Some p)
    note p = wf_pprev [OF 1(2) Some]
    show ?thesis
    proof (cases "k < length (path p)")
      case True
      then show ?thesis using 1(1) [OF Some] p by (simp add: nth_append)
    next
      case False
      then have "k = length (path p)" using 1(3) p by simp
      moreover have "int (length (path p)) = height b" using p path_length [of p] wf_height_nonneg [of p] by simp
      ultimately show ?thesis using 1(2) p by simp
    qed
  qed
qed

lemma path_nth_height: "wf_index b \<Longrightarrow> 0 \<le> h \<Longrightarrow> h \<le> height b \<Longrightarrow> height (path b ! nat h) = h"
  and path_nth_wf: "wf_index b \<Longrightarrow> 0 \<le> h \<Longrightarrow> h \<le> height b \<Longrightarrow> wf_index (path b ! nat h)"
  using path_nth [of b "nat h"] path_length [of b] by (auto simp: nat_le_iff less_Suc_eq_le)

lemma path_nth_nth:
  assumes "wf_index b" "0 \<le> h" "h \<le> k" "k \<le> height b"
  shows "path (path b ! nat k) ! nat h = path b ! nat h"
proof -
  have "nat k < length (path b)" using assms path_length [of b] by (simp add: nat_le_iff less_Suc_eq_le)
  then show ?thesis using path_nth [OF assms(1), of "nat k"] assms by (simp add: nat_mono less_Suc_eq_le)
qed

lemma path_pprev_nth:
  assumes "wf_index b" "pprev b = Some p" "0 \<le> h" "h \<le> height p"
  shows "path b ! nat h = path p ! nat h"
  using wf_pprev [OF assms(1,2)] assms path_length [of p]
  by (simp add: nth_append nat_le_iff less_Suc_eq_le)

subsection \<open>The skip list\<close>

lemma InvertLowestOne_bounds: "0 < n \<Longrightarrow> 0 \<le> InvertLowestOne n \<and> InvertLowestOne n < n"
  using AND_upper2 [of "n - 1" n] by (simp add: InvertLowestOne_def)

lemma InvertLowestOne_nonneg: "0 \<le> n \<Longrightarrow> 0 \<le> InvertLowestOne n \<and> InvertLowestOne n \<le> n"
  by (simp add: InvertLowestOne_def AND_upper1)

lemma GetSkipHeight_bounds: "0 < h \<Longrightarrow> 0 \<le> GetSkipHeight h \<and> GetSkipHeight h < h"
proof (cases "h < 2")
  case False
  assume "0 < h"
  have 1: "0 \<le> InvertLowestOne (h - 1)" "InvertLowestOne (h - 1) < h - 1"
    using InvertLowestOne_bounds [of "h - 1"] False by simp_all
  then show ?thesis
    using False InvertLowestOne_nonneg [OF 1(1)] InvertLowestOne_bounds [of h] by (auto simp: GetSkipHeight_def)
qed (simp add: GetSkipHeight_def)

lemma ancestor_walk_spec:
  "wf_index w \<Longrightarrow> hw = height w \<Longrightarrow> 0 \<le> h \<Longrightarrow> h \<le> height w \<Longrightarrow>
   ancestor_walk w hw h = Some (path w ! nat h)"
proof (induction w hw h rule: ancestor_walk.induct)
  case (1 w hw h)
  show ?case
  proof (cases "hw > h")
    case False
    then show ?thesis using 1(3-6) by (subst ancestor_walk.simps) (simp add: path_last)
  next
    case gt: True
    define hs where "hs = GetSkipHeight hw"
    define hsp where "hsp = GetSkipHeight (hw - 1)"
    define c where "c \<longleftrightarrow> pskip w \<noteq> None \<and> (hs = h \<or> hs > h \<and> \<not> (hsp < hs - 2 \<and> hsp \<ge> h))"
    have hs: "0 \<le> hs" "hs < hw" using GetSkipHeight_bounds [of hw] gt 1(5) by (auto simp: hs_def)
    show ?thesis
    proof (cases c)
      case True
      then obtain s where s: "pskip w = Some s" by (auto simp: c_def)
      have sw: "s = path w ! nat hs" using 1(3,4) s by (simp add: wf_index.simps [of w] hs_def)
      have sh: "height s = hs" "wf_index s" using hs 1(3,4) unfolding sw by (auto intro: path_nth_height path_nth_wf)
      have "h \<le> hs" using True by (auto simp: c_def)
      then have "ancestor_walk s hs h = Some (path s ! nat h)"
        using 1(1) [OF gt hs_def hsp_def] True sh 1(5) s unfolding c_def by (metis option.distinct(1))
      also have "path s ! nat h = path w ! nat h"
        unfolding sw by (rule path_nth_nth) (use 1(3-5) hs \<open>h \<le> hs\<close> in auto)
      finally show ?thesis
        using gt True s by (simp add: ancestor_walk.simps [of w hw h] Let_def c_def hs_def hsp_def)
    next
      case False
      obtain p where p: "pprev w = Some p" using gt 1(3-5) wf_genesis [of w] by (cases "pprev w") auto
      note wp = wf_pprev [OF 1(3) p]
      have "ancestor_walk p (hw - 1) h = Some (path p ! nat h)"
        using 1(2) [OF gt hs_def hsp_def] False wp 1(4,5) gt p unfolding c_def by auto
      also have "path p ! nat h = path w ! nat h"
        by (rule path_pprev_nth [symmetric, OF 1(3) p]) (use wp gt 1(4,5) in auto)
      finally show ?thesis
        using gt False p by (auto simp: ancestor_walk.simps [of w hw h] Let_def c_def hs_def hsp_def)
    qed
  qed
qed

lemma GetAncestor_path:
  "wf_index b \<Longrightarrow>
   GetAncestor b h = Some (if 0 \<le> h \<and> h \<le> height b then Some (path b ! nat h) else None)"
  by (auto simp: GetAncestor_def ancestor_walk_spec)

lemma BuildSkip_wf:
  assumes "pskip b = None" "case pprev b of None \<Rightarrow> height b = 0 | Some p \<Rightarrow> wf_index p \<and> height b = height p + 1"
  shows "\<exists>b'. BuildSkip b = Some b' \<and> wf_index b' \<and> bi b' = bi b \<and> pprev b' = pprev b
              \<and> (pprev b \<noteq> None \<longrightarrow> pskip b' \<noteq> None)"
proof (cases "pprev b")
  case None
  then show ?thesis using assms by (simp add: BuildSkip_def wf_index.simps [of b])
next
  case (Some p)
  define k where "k = GetSkipHeight (height b)"
  have wp: "wf_index p" "height b = height p + 1" using assms Some by simp_all
  have k: "0 \<le> k" "k \<le> height p" using GetSkipHeight_bounds [of "height b"] wp wf_height_nonneg [OF wp(1)] by (auto simp: k_def)
  define b' where "b' = CBlockIndex (bi b) (Some p) (Some (path p ! nat k))"
  have "path b' = path p @ [b']" by (subst path.simps) (simp add: b'_def)
  then have "path b' ! nat k = path p ! nat k"
    using k wp path_length [of p] by (simp add: nth_append nat_le_iff less_Suc_eq_le)
  then have "wf_index b'" using wp by (simp add: wf_index.simps [of b']) (simp add: b'_def k_def)
  moreover have "BuildSkip b = Some b'"
    using Some k wp(1) by (simp add: BuildSkip_def GetAncestor_path k_def [symmetric] b'_def)
  ultimately show ?thesis using Some by (simp add: b'_def)
qed

subsection \<open>The active chain\<close>

definition chain_ok :: "CChain \<Rightarrow> bool" where
  "chain_ok v \<longleftrightarrow> v = [] \<or> (\<exists>t. wf_index t \<and> v = map Some (path t))"

lemma chain_ok_Nil: "chain_ok []"
  by (simp add: chain_ok_def)

lemma chain_ok_path: "wf_index t \<Longrightarrow> chain_ok (map Some (path t))"
  by (auto simp: chain_ok_def)

lemma settip_loop_spec:
  "wf_index b \<Longrightarrow> nat (height b) < length v \<Longrightarrow>
   \<forall>i \<le> nat (height b). \<forall>x. v ! i = Some x \<longrightarrow> (\<forall>j \<le> i. v ! j = Some (path x ! j)) \<Longrightarrow>
   settip_loop (Some b) v = map Some (path b) @ drop (Suc (nat (height b))) v"
proof (induction b arbitrary: v rule: path.induct)
  case (1 b)
  define h where "h = nat (height b)"
  show ?case
  proof (cases "v ! h = Some b")
    case True
    have "take (Suc h) v = map Some (path b)"
      by (rule nth_equalityI) (use 1(2-4) True path_length [of b] in \<open>auto simp: h_def less_Suc_eq_le\<close>)
    then have "v = map Some (path b) @ drop (Suc h) v" by (metis append_take_drop_id)
    then show ?thesis using True by (simp add: settip_loop.simps(2) [of b v] h_def [symmetric])
  next
    case False
    have dr: "drop h (v[h := Some b]) = Some b # drop (Suc h) v"
      using 1(3) by (simp add: h_def Cons_nth_drop_Suc [symmetric])
    have step: "settip_loop (Some b) v = settip_loop (pprev b) (v[h := Some b])"
      using False by (simp add: settip_loop.simps(2) [of b v] h_def [symmetric])
    show ?thesis
    proof (cases "pprev b")
      case None
      then have "h = 0" using 1(2) wf_genesis [of b] by (simp add: h_def)
      then show ?thesis using step None dr by (simp add: path_genesis h_def)
    next
      case (Some p)
      note wp = wf_pprev [OF 1(2) Some]
      have hp: "h = Suc (nat (height p))" using wp wf_height_nonneg [of p] by (simp add: h_def)
      have "settip_loop (Some p) (v[h := Some b])
          = map Some (path p) @ drop (Suc (nat (height p))) (v[h := Some b])"
      proof (rule 1(1) [OF Some])
        show "\<forall>i \<le> nat (height p). \<forall>x. v[h := Some b] ! i = Some x
            \<longrightarrow> (\<forall>j \<le> i. v[h := Some b] ! j = Some (path x ! j))"
        proof (intro allI impI)
          fix i x j
          assume "i \<le> nat (height p)" "v[h := Some b] ! i = Some x" "j \<le> i"
          then show "v[h := Some b] ! j = Some (path x ! j)"
            using 1(4) [rule_format, of i x j] hp by (simp add: h_def [symmetric])
        qed
      qed (use wp 1(3) hp h_def in simp_all)
      then show ?thesis
        using step Some dr wp hp unfolding h_def [symmetric] by (simp del: drop_update_cancel)
    qed
  qed
qed

lemma SetTip_spec:
  assumes "chain_ok v" "wf_index b"
  shows "SetTip v (Some b) = map Some (path b)"
proof -
  define n where "n = nat (height b + 1)"
  have n: "n = Suc (nat (height b))" "n = length (path b)"
    using wf_height [OF assms(2)] by (simp_all add: n_def nat_add_distrib)
  have len: "length (resize_chain v n) = n" by (simp add: resize_chain_def)
  have "settip_loop (Some b) (resize_chain v n) = map Some (path b) @ drop (Suc (nat (height b))) (resize_chain v n)"
  proof (rule settip_loop_spec [OF assms(2)])
    show "\<forall>i \<le> nat (height b). \<forall>x. resize_chain v n ! i = Some x
        \<longrightarrow> (\<forall>j \<le> i. resize_chain v n ! j = Some (path x ! j))"
    proof (intro allI impI)
      fix i x j
      assume i: "i \<le> nat (height b)" and x: "resize_chain v n ! i = Some x" and j: "j \<le> i"
      have iv: "i < length v \<and> i < n"
        using x i n by (auto simp: resize_chain_def nth_append split: if_splits)
      then obtain t where t: "wf_index t" "v = map Some (path t)" using assms(1) by (auto simp: chain_ok_def)
      have "x = path t ! i" using x iv t by (simp add: resize_chain_def nth_append)
      moreover have "path (path t ! i) = take (Suc i) (path t)" using path_nth [OF t(1), of i] iv t by simp
      ultimately show "resize_chain v n ! j = Some (path x ! j)"
        using iv j t by (simp add: resize_chain_def nth_append)
    qed
  qed (use len n in simp)
  then show ?thesis using len n by (simp add: SetTip_def n_def [symmetric])
qed

lemma SetTip_ok: "chain_ok v \<Longrightarrow> (\<And>b. p = Some b \<Longrightarrow> wf_index b) \<Longrightarrow> chain_ok (SetTip v p)"
  using SetTip_spec by (cases p) (auto simp: SetTip_def chain_ok_def)

lemma chain_ok_at:
  assumes "wf_index t" shows "chain_at (map Some (path t)) h = (if 0 \<le> h \<and> h \<le> height t then Some (path t ! nat h) else None)"
  using path_length [OF assms] wf_height_nonneg [OF assms]
  by (auto simp: chain_at_def nat_less_iff nat_le_iff less_Suc_eq_le)

lemma chain_ok_contains:
  "wf_index t \<Longrightarrow> chain_Contains (map Some (path t)) b \<longleftrightarrow> 0 \<le> height b \<and> height b \<le> height t \<and> path t ! nat (height b) = b"
  by (auto simp: chain_Contains_def chain_ok_at)

lemma contains_path:
  assumes t: "wf_index t" and b: "wf_index b" and c: "chain_Contains (map Some (path t)) b"
    and h: "0 \<le> h" "h \<le> height b"
  shows "path b ! nat h = path t ! nat h"
  using path_nth_nth [OF t h(1,2)] c by (simp add: chain_ok_contains t)

lemma chain_Height_path: "wf_index t \<Longrightarrow> chain_Height (map Some (path t)) = height t"
  by (simp add: chain_Height_def path_length wf_height_nonneg)

lemma set_path_le: "wf_index b \<Longrightarrow> x \<in> set (path b) \<Longrightarrow> 0 \<le> height x \<and> height x \<le> height b \<and> path b ! nat (height x) = x"
  using path_nth [of b] path_length [of b] wf_height_nonneg [of b] by (auto simp: in_set_conv_nth)

lemma nth_in_set_take: "i < n \<Longrightarrow> i < length xs \<Longrightarrow> xs ! i \<in> set (take n xs)"
  by (metis in_set_conv_nth length_take min_less_iff_conj nth_take)

text \<open>The walk of \<open>fork_loop\<close> stops at the highest block of the path that the chain contains.\<close>

definition highest_in :: "(CBlockIndex \<Rightarrow> bool) \<Rightarrow> CBlockIndex list \<Rightarrow> CBlockIndex option \<Rightarrow> bool" where
  "highest_in P xs r \<longleftrightarrow> (case r of
      None \<Rightarrow> \<forall>x \<in> set xs. \<not> P x
    | Some f \<Rightarrow> f \<in> set xs \<and> P f \<and> (\<forall>x \<in> set xs. P x \<longrightarrow> height x \<le> height f))"

lemma fork_loop_spec:
  "wf_index b \<Longrightarrow> highest_in (chain_Contains v) (path b) (fork_loop v (Some b))"
proof (induction b rule: path.induct)
  case (1 b)
  show ?case
  proof (cases "chain_Contains v b")
    case True
    have "height x \<le> height b" if "x \<in> set (path b)" for x
      using that set_path_le [OF 1(2)] by blast
    moreover have "b \<in> set (path b)" by (simp add: path.simps [of b])
    ultimately show ?thesis using True by (simp add: highest_in_def fork_loop.simps(2) [of v b])
  next
    case False
    then show ?thesis
      by (cases "pprev b")
        (use 1 wf_pprev [OF 1(2)] in \<open>auto simp: highest_in_def fork_loop.simps(2) [of v b] path_genesis split: option.splits\<close>)
  qed
qed

lemma FindFork_spec:
  assumes v: "chain_ok v" and b: "wf_index b"
  shows "\<exists>r. FindFork v (Some b) = Some r \<and> highest_in (chain_Contains v) (path b) r"
proof (cases "height b > chain_Height v")
  case False
  then show ?thesis using fork_loop_spec [OF b] by (simp add: FindFork_def)
next
  case True
  show ?thesis
  proof (cases "v = []")
    case True
    then have "chain_Height v = -1" by (simp add: chain_Height_def)
    then show ?thesis using True \<open>height b > chain_Height v\<close> b
      by (auto simp: FindFork_def GetAncestor_path highest_in_def chain_Contains_def chain_at_def)
  next
    case False
    then obtain t where t: "wf_index t" "v = map Some (path t)" using v by (auto simp: chain_ok_def)
    have lt: "height t < height b" using True t by (simp add: chain_Height_path)
    define a where "a = path b ! nat (height t)"
    have a: "wf_index a" "height a = height t" "path a = take (Suc (nat (height t))) (path b)"
      using lt path_nth_wf [OF b] path_nth_height [OF b] path_nth [OF b, of "nat (height t)"] path_length [OF b] t(1) wf_height_nonneg [OF t(1)]
      by (simp_all add: a_def nat_less_iff)
    have "x \<in> set (path a)" if "x \<in> set (path b)" "chain_Contains v x" for x
    proof -
      have x: "0 \<le> height x" "height x \<le> height t" "path b ! nat (height x) = x"
        using that set_path_le [OF b] by (auto simp: t chain_ok_contains)
      then have "nat (height x) < Suc (nat (height t))" "nat (height x) < length (path b)"
        using path_length [OF b] lt by (simp_all add: less_Suc_eq_le nat_mono)
      then show ?thesis unfolding a(3) using nth_in_set_take x(3) by metis
    qed
    moreover have "set (path a) \<subseteq> set (path b)" unfolding a(3) by (rule set_take_subset)
    moreover have "FindFork v (Some b) = Some (fork_loop v (Some a))"
      using True b lt wf_height_nonneg [OF t(1)] by (simp add: FindFork_def GetAncestor_path a_def) (simp add: t chain_Height_path wf_height_nonneg)
    ultimately show ?thesis using fork_loop_spec [OF a(1), of v]
      by (cases "fork_loop v (Some a)") (auto simp: highest_in_def)
  qed
qed

lemma common_loop_spec:
  assumes "path a ! 0 = path b ! 0"
  shows "wf_index a \<Longrightarrow> wf_index b \<Longrightarrow> height a = height b \<Longrightarrow>
    \<exists>c. common_loop (Some a) (Some b) = (Some c, Some c) \<and> highest_in (\<lambda>x. x \<in> set (path b)) (path a) (Some c)"
  using assms
proof (induction a arbitrary: b rule: path.induct)
  case (1 a)
  show ?case
  proof (cases "a = b")
    case True
    have "a \<in> set (path a)" by (simp add: path.simps [of a])
    then show ?thesis using True set_path_le [OF 1(2)]
      by (simp add: common_loop.simps(1) highest_in_def)
  next
    case False
    show ?thesis
    proof (cases "pprev a")
      case None
      then have "pprev b = None" using wf_genesis [of a] wf_genesis [of b] 1(2-4) by simp
      then show ?thesis using None 1(5) False by (simp add: path_genesis)
    next
      case (Some p)
      note wa = wf_pprev [OF 1(2) Some]
      then have "height b \<noteq> 0" using 1(4) wf_height_nonneg [of p] by simp
      then obtain q where q: "pprev b = Some q" using wf_genesis [OF 1(3)] by auto
      note wb = wf_pprev [OF 1(3) q]
      have "path p ! 0 = path q ! 0"
        using 1(5) wa wb by (simp add: nth_append)
      then obtain c where c: "common_loop (Some p) (Some q) = (Some c, Some c)"
        "highest_in (\<lambda>x. x \<in> set (path q)) (path p) (Some c)"
        using 1(1) [OF Some, of q] wa wb 1(4) by auto
      have "a \<notin> set (path b)"
        using set_path_le [OF 1(3), of a] 1(4) path_last [OF 1(3)] False by auto
      moreover have "b \<notin> set (path a)"
        using set_path_le [OF 1(2), of b] 1(4) path_last [OF 1(2)] False by auto
      ultimately have "highest_in (\<lambda>x. x \<in> set (path b)) (path a) (Some c)"
        using c(2) wa wb by (auto simp: highest_in_def)
      then show ?thesis using c(1) False Some q by (simp add: common_loop.simps(1) [of a b])
    qed
  qed
qed

text \<open>The ancestor of the higher of two entries at the height of the lower one has the same common
  ancestors.\<close>

lemma highest_in_lift:
  assumes b: "wf_index b" and h: "0 \<le> h" "h \<le> height b"
    and small: "\<And>x. P x \<Longrightarrow> height x \<le> h"
    and hi: "highest_in P (path (path b ! nat h)) r"
  shows "highest_in P (path b) r"
proof -
  have pa: "path (path b ! nat h) = take (Suc (nat h)) (path b)"
    using path_nth [OF b, of "nat h"] path_length [OF b] h by (simp add: less_Suc_eq_le nat_mono)
  have "x \<in> set (take (Suc (nat h)) (path b))" if "x \<in> set (path b)" "P x" for x
  proof -
    have "height x \<le> h" "0 \<le> height x" "height x \<le> height b" "path b ! nat (height x) = x"
      using set_path_le [OF b that(1)] small [OF that(2)] by simp_all
    then show ?thesis
      using nth_in_set_take [of "nat (height x)" "Suc (nat h)" "path b"] path_length [OF b]
      by (simp add: less_Suc_eq_le nat_mono)
  qed
  then show ?thesis using hi set_take_subset [of "Suc (nat h)" "path b"] unfolding pa
    by (cases r) (auto simp: highest_in_def)
qed

lemma LastCommonAncestor_spec:
  assumes a: "wf_index a" and b: "wf_index b" and g: "path a ! 0 = path b ! 0"
  shows "\<exists>c. LastCommonAncestor a b = Some (Some c) \<and> highest_in (\<lambda>x. x \<in> set (path b)) (path a) (Some c)"
proof -
  define h where "h = min (height a) (height b)"
  have h: "0 \<le> h" "h \<le> height a" "h \<le> height b"
    using wf_height_nonneg [OF a] wf_height_nonneg [OF b] by (simp_all add: h_def)
  define pa where "pa = path a ! nat h"
  define pb where "pb = path b ! nat h"
  have w: "wf_index pa" "wf_index pb" "height pa = h" "height pb = h"
    using h a b by (simp_all add: pa_def pb_def path_nth_wf path_nth_height)
  have "path pa ! 0 = path pb ! 0"
    using path_nth_nth [OF a order_refl h(1,2)] path_nth_nth [OF b order_refl h(1,3)] g
    by (simp add: pa_def pb_def)
  then obtain c where c: "common_loop (Some pa) (Some pb) = (Some c, Some c)"
    "highest_in (\<lambda>x. x \<in> set (path pb)) (path pa) (Some c)"
    using common_loop_spec w by metis
  have sub: "x \<in> set (path pb) \<longleftrightarrow> x \<in> set (path b)" if "height x \<le> h" for x
    using that set_path_le [OF b, of x] h path_nth [OF b, of "nat h"] path_length [OF b]
      nth_in_set_take [of "nat (height x)" "Suc (nat h)" "path b"] set_take_subset [of "Suc (nat h)" "path b"]
    by (auto simp: pb_def less_Suc_eq_le nat_mono)
  have "highest_in (\<lambda>x. x \<in> set (path b)) (path pa) (Some c)"
    using c(2) sub set_path_le [OF w(1)] w(3) by (auto simp: highest_in_def)
  then have "highest_in (\<lambda>x. x \<in> set (path b)) (path a) (Some c)"
  proof -
    assume hi: "highest_in (\<lambda>x. x \<in> set (path b)) (path pa) (Some c)"
    show ?thesis
    proof (cases "height a \<le> height b")
      case True
      then show ?thesis using hi path_last [OF a] by (simp add: pa_def h_def)
    next
      case False
      then show ?thesis
        using highest_in_lift [OF a h(1,2), of "\<lambda>x. x \<in> set (path b)" "Some c"] hi set_path_le [OF b]
        by (simp add: pa_def h_def)
    qed
  qed
  moreover have "LastCommonAncestor a b = Some (Some c)"
    using c(1) h path_last [OF a] path_last [OF b]
    by (auto simp: LastCommonAncestor_def GetAncestor_path a b pa_def pb_def h_def min_def split: if_splits)
  ultimately show ?thesis by blast
qed

subsection \<open>Block locators\<close>

text \<open>The heights that a locator lists: strictly decreasing from the start to the genesis block.\<close>

definition locator_heights :: "int \<Rightarrow> int list \<Rightarrow> bool" where
  "locator_heights h hs \<longleftrightarrow> hs \<noteq> [] \<and> hd hs = h \<and> last hs = 0 \<and> sorted_wrt (>) hs"

lemma sorted_gt_last: "sorted_wrt (>) hs \<Longrightarrow> x \<in> set hs \<Longrightarrow> last hs \<le> x" for x :: int
proof (induction hs)
  case (Cons y ys)
  then show ?case using last_in_set [of ys] by (cases "ys = []") (auto intro: less_imp_le)
qed simp

lemma locator_heights_range: "locator_heights h hs \<Longrightarrow> x \<in> set hs \<Longrightarrow> 0 \<le> x \<and> x \<le> h"
  using sorted_gt_last [of hs x] by (cases hs) (auto simp: locator_heights_def)

lemma locator_next:
  assumes v: "chain_ok v" and b: "wf_index b" and h: "0 \<le> h" "h \<le> height b"
  shows "(if chain_Contains v b then Some (chain_at v h) else GetAncestor b h) = Some (Some (path b ! nat h))"
proof (cases "chain_Contains v b")
  case True
  then obtain t where t: "wf_index t" "v = map Some (path t)"
    using v by (auto simp: chain_ok_def chain_Contains_def chain_at_def split: if_splits)
  have "height b \<le> height t" using True t by (simp add: chain_ok_contains)
  then show ?thesis using True t h contains_path [OF t(1) b _ h] by (simp add: chain_ok_at)
qed (simp add: GetAncestor_path b h)

lemma locator_loop_spec:
  assumes v: "chain_ok v"
  shows "wf_index b \<Longrightarrow> 1 \<le> step \<Longrightarrow> nat (height b) < fuel \<Longrightarrow>
    \<exists>hs. locator_loop fuel v (Some b) step acc = Some (acc @ map (\<lambda>h. bi_hash (bi (path b ! nat h))) hs)
       \<and> locator_heights (height b) hs"
proof (induction fuel arbitrary: b step acc)
  case (Suc fuel)
  show ?case
  proof (cases "height b = 0")
    case True
    then show ?thesis using path_last [OF Suc.prems(1)]
      by (intro exI [of _ "[0]"]) (simp add: locator_heights_def)
  next
    case False
    define h where "h = max (height b - step) 0"
    define acc' where "acc' = acc @ [bi_hash (bi b)]"
    define step' where "step' = (if length acc' > 10 then step * 2 else step)"
    define q where "q = path b ! nat h"
    have hb: "0 \<le> h" "h < height b" using wf_height_nonneg [OF Suc.prems(1)] Suc.prems(2) False by (auto simp: h_def)
    have q: "wf_index q" "height q = h"
      using hb Suc.prems(1) by (simp_all add: q_def path_nth_wf path_nth_height)
    have st: "1 \<le> step'" "nat h < fuel" using Suc.prems(2,3) hb by (auto simp: step'_def)
    have "locator_loop (Suc fuel) v (Some b) step acc = locator_loop fuel v (Some q) step' acc'"
      using locator_next [OF v Suc.prems(1), of h] hb False
      by (simp add: Let_def h_def [symmetric] acc'_def [symmetric] step'_def [symmetric] q_def [symmetric])
    moreover obtain hs where hs: "locator_loop fuel v (Some q) step' acc' = Some (acc' @ map (\<lambda>h. bi_hash (bi (path q ! nat h))) hs)"
      "locator_heights h hs"
      using Suc.IH [OF q(1), of step' acc'] st unfolding q(2) by blast
    moreover have le: "0 \<le> x \<and> x \<le> h" if "x \<in> set hs" for x
      using locator_heights_range [OF hs(2) that] .
    moreover have "map (\<lambda>h. bi_hash (bi (path q ! nat h))) hs = map (\<lambda>h. bi_hash (bi (path b ! nat h))) hs"
      using le path_nth_nth [OF Suc.prems(1)] hb by (intro map_cong) (auto simp: q_def)
    ultimately have "locator_loop (Suc fuel) v (Some b) step acc
        = Some (acc @ map (\<lambda>h. bi_hash (bi (path b ! nat h))) (height b # hs))"
      using path_last [OF Suc.prems(1)] by (simp add: acc'_def)
    moreover have "locator_heights (height b) (height b # hs)"
      using hs(2) le hb unfolding locator_heights_def by force
    ultimately show ?thesis by blast
  qed
qed simp

subsection \<open>Validity flags and the median time\<close>

lemma u32_and_or_not: "((s AND NOT m) OR n) AND m = n" if "n AND NOT m = 0" for s m n :: u32
proof (rule bit_eqI)
  fix i assume "possible_bit TYPE(u32) i"
  moreover have "\<not> bit (n AND NOT m) i" using that by simp
  ultimately show "bit (((s AND NOT m) OR n) AND m) i = bit n i"
    by (auto simp: bit_and_iff bit_or_iff bit_not_iff)
qed

lemma RaiseValidity_spec:
  assumes "n AND NOT BLOCK_VALID_MASK = 0"
  shows "\<exists>b' ch. RaiseValidity b n = Some (b', ch)
     \<and> (\<forall>m. m AND NOT BLOCK_VALID_MASK = 0 \<longrightarrow> IsValid b' m = Some (IsValid b m = Some True \<or> (m \<le> n \<and> bi_nStatus (bi b) AND BLOCK_FAILED_MASK = 0)))"
proof -
  define s where "s = bi_nStatus (bi b)"
  have n0: "n AND BLOCK_FAILED_MASK = 0"
  proof -
    have "NOT BLOCK_VALID_MASK AND BLOCK_FAILED_MASK = BLOCK_FAILED_MASK"
      by (simp add: BLOCK_VALID_MASK_def BLOCK_FAILED_MASK_def BLOCK_VALID_HEADER_def BLOCK_VALID_TREE_def
          BLOCK_VALID_TRANSACTIONS_def BLOCK_VALID_CHAIN_def BLOCK_VALID_SCRIPTS_def BLOCK_FAILED_VALID_def
          BLOCK_FAILED_CHILD_def)
    then show ?thesis using assms by (metis and.assoc and_zero_eq zero_and_eq)
  qed
  have fm: "((s AND NOT BLOCK_VALID_MASK) OR n) AND BLOCK_FAILED_MASK = s AND BLOCK_FAILED_MASK"
  proof -
    have "NOT BLOCK_VALID_MASK AND BLOCK_FAILED_MASK = BLOCK_FAILED_MASK"
      by (simp add: BLOCK_VALID_MASK_def BLOCK_FAILED_MASK_def BLOCK_VALID_HEADER_def BLOCK_VALID_TREE_def
          BLOCK_VALID_TRANSACTIONS_def BLOCK_VALID_CHAIN_def BLOCK_VALID_SCRIPTS_def BLOCK_FAILED_VALID_def
          BLOCK_FAILED_CHILD_def)
    then show ?thesis using n0 by (simp add: bit.conj_disj_distrib2 and.assoc)
  qed
  show ?thesis
  proof (cases "s AND BLOCK_FAILED_MASK = 0 \<and> s AND BLOCK_VALID_MASK < n")
    case True
    then show ?thesis
      using assms fm u32_and_or_not [OF assms, of s]
      by (auto simp: RaiseValidity_def IsValid_def s_def [symmetric])
  next
    case False
    then show ?thesis using assms by (auto simp: RaiseValidity_def IsValid_def s_def [symmetric])
  qed
qed

lemma median_times_path:
  "wf_index b \<Longrightarrow> median_times n b = take n (rev (map (\<lambda>x. uint (bi_nTime (bi x))) (path b)))"
proof (induction n b rule: median_times.induct)
  case (2 n b)
  show ?case
  proof (cases "pprev b")
    case (Some p)
    then show ?thesis using 2(1) [OF Some] wf_pprev [OF 2(2) Some] by simp
  qed (simp add: path_genesis)
qed simp

text \<open>The median of a list: no more than half of the elements are below it and less than half are
  above it.\<close>

definition median_of :: "int list \<Rightarrow> int \<Rightarrow> bool" where
  "median_of xs m \<longleftrightarrow> m \<in> set xs \<and> 2 * length (filter (\<lambda>x. x < m) xs) \<le> length xs
                      \<and> 2 * length (filter (\<lambda>x. m < x) xs) < length xs"

lemma sorted_median: "sorted ys \<Longrightarrow> ys \<noteq> [] \<Longrightarrow> median_of ys (ys ! (length ys div 2))" for ys :: "int list"
proof -
  assume s: "sorted ys" and ne: "ys \<noteq> []"
  define k where "k = length ys div 2"
  have k: "k < length ys" using ne by (simp add: k_def)
  have mono: "ys ! i \<le> ys ! j" if "i \<le> j" "j < length ys" for i j
    using s that by (rule sorted_nth_mono)
  have sub: "{i. i < length ys \<and> ys ! i < ys ! k} \<subseteq> {..<k}" "{i. i < length ys \<and> ys ! k < ys ! i} \<subseteq> {k<..<length ys}"
  proof -
    have "i < k" if "i < length ys" "ys ! i < ys ! k" for i
      using mono [of k i] that by (cases "i < k") auto
    moreover have "k < i" if "ys ! k < ys ! i" for i
      using mono [of i k] that k by (cases "k < i") auto
    ultimately show "{i. i < length ys \<and> ys ! i < ys ! k} \<subseteq> {..<k}"
      "{i. i < length ys \<and> ys ! k < ys ! i} \<subseteq> {k<..<length ys}" by auto
  qed
  have "length (filter (\<lambda>x. x < ys ! k) ys) = card {i. i < length ys \<and> ys ! i < ys ! k}"
    by (simp add: length_filter_conv_card)
  also have "\<dots> \<le> card {..<k}"
    by (rule card_mono) (use sub in simp_all)
  finally have lo: "length (filter (\<lambda>x. x < ys ! k) ys) \<le> k" by simp
  have "length (filter (\<lambda>x. ys ! k < x) ys) = card {i. i < length ys \<and> ys ! k < ys ! i}"
    by (simp add: length_filter_conv_card)
  also have "\<dots> \<le> card {k<..<length ys}"
    by (rule card_mono) (use sub in simp_all)
  finally have "length (filter (\<lambda>x. ys ! k < x) ys) \<le> length ys - k - 1" by simp
  then show ?thesis using lo k by (auto simp: median_of_def k_def)
qed

lemma median_of_perm: "mset xs = mset ys \<Longrightarrow> median_of xs m \<longleftrightarrow> median_of ys m"
proof -
  assume m: "mset xs = mset ys"
  have "length (filter P xs) = length (filter P ys)" for P
    using arg_cong [OF m, of "\<lambda>z. size (filter_mset P z)"] by (simp flip: mset_filter)
  then show ?thesis using mset_eq_setD [OF m] mset_eq_length [OF m] by (simp add: median_of_def)
qed

lemma median_times_nonempty: "n \<noteq> 0 \<Longrightarrow> median_times n b \<noteq> []"
  by (cases n) simp_all

lemma GetMedianTimePast_spec:
  assumes "wf_index b"
  shows "median_of (take nMedianTimeSpan (rev (map (\<lambda>x. uint (bi_nTime (bi x))) (path b)))) (GetMedianTimePast b)"
proof -
  define xs where "xs = median_times nMedianTimeSpan b"
  have "xs \<noteq> []" unfolding xs_def by (rule median_times_nonempty) (simp add: nMedianTimeSpan_def)
  then have "sort xs \<noteq> []" by (metis length_0_conv length_sort)
  then have "median_of (sort xs) (sort xs ! (length (sort xs) div 2))"
    by (intro sorted_median sorted_sort)
  then have "median_of xs (GetMedianTimePast b)"
    unfolding GetMedianTimePast_def xs_def [symmetric] Let_def
    using median_of_perm [of xs "sort xs"] by (simp only: mset_sort)
  then show ?thesis using median_times_path [OF assms] by (simp add: xs_def)
qed

subsection \<open>Properties\<close>

text \<open>Two entries for the concrete instances below: a genesis block and its successor.\<close>

definition sample_genesis :: CBlockIndex where
  "sample_genesis = CBlockIndex (SetNull_index \<lparr> bi_hash := 7 \<rparr>) None None"

definition sample_block :: CBlockIndex where
  "sample_block = CBlockIndex (SetNull_index \<lparr> bi_hash := 8, bi_nHeight := 1, bi_nTime := 5 \<rparr>)
     (Some sample_genesis) (Some sample_genesis)"

lemma sample_simps [simp]:
  "pprev sample_genesis = None" "pskip sample_genesis = None" "height sample_genesis = 0"
  "pprev sample_block = Some sample_genesis" "pskip sample_block = Some sample_genesis"
  "height sample_block = 1" "bi_hash (bi sample_genesis) = 7" "bi_hash (bi sample_block) = 8"
  "bi_nTime (bi sample_genesis) = 0" "bi_nTime (bi sample_block) = 5"
  by (simp_all add: sample_genesis_def sample_block_def SetNull_index_def)

lemma sample_path [simp]:
  "path sample_genesis = [sample_genesis]" "path sample_block = [sample_genesis, sample_block]"
  by (simp_all add: path.simps [of sample_genesis] path.simps [of sample_block])

lemma sample_wf [simp]: "wf_index sample_genesis" "wf_index sample_block"
  by (simp_all add: wf_index.simps [of sample_genesis] wf_index.simps [of sample_block] GetSkipHeight_def)

text \<open>C29: on a well-formed index the logarithmic walk over \<open>pskip\<close> and \<open>pprev\<close> never fails and returns
  exactly the predecessor at the requested height, or null for a height outside the path.\<close>

theorem GetAncestor_correct:
  assumes "wf_index b"
  shows "GetAncestor b h = Some (if 0 \<le> h \<and> h \<le> height b then Some (path b ! nat h) else None)"
  by (rule GetAncestor_path [OF assms])

lemma GetAncestor_correct_witness: "GetAncestor sample_block 0 = Some (Some sample_genesis)"
  using GetAncestor_correct [of sample_block 0] by simp

text \<open>\<open>BuildSkip\<close> on a new entry whose predecessor is well formed gives a well-formed entry
  with a skip pointer.\<close>

theorem BuildSkip_preserves_wf:
  assumes "pskip b = None"
    and "case pprev b of None \<Rightarrow> height b = 0 | Some p \<Rightarrow> wf_index p \<and> height b = height p + 1"
  shows "\<exists>b'. BuildSkip b = Some b' \<and> wf_index b' \<and> bi b' = bi b \<and> pprev b' = pprev b
              \<and> (pprev b \<noteq> None \<longrightarrow> pskip b' \<noteq> None)"
  using assms by (rule BuildSkip_wf)

lemma BuildSkip_preserves_wf_witness:
  "\<exists>b'. BuildSkip (CBlockIndex (SetNull_index \<lparr> bi_nHeight := 2 \<rparr>) (Some sample_block) None) = Some b' \<and> wf_index b'"
  using BuildSkip_preserves_wf [of "CBlockIndex (SetNull_index \<lparr> bi_nHeight := 2 \<rparr>) (Some sample_block) None"]
  by auto

text \<open>\<open>SetTip\<close>, which stops as soon as it meets an entry that is already in place, leaves exactly
  the path of the new tip in the chain, whatever well-formed chain was there before.\<close>

theorem SetTip_path:
  assumes "chain_ok v" and "wf_index b"
  shows "SetTip v (Some b) = map Some (path b) \<and> chain_ok (SetTip v (Some b))
       \<and> chain_Tip (SetTip v (Some b)) = Some b \<and> chain_Height (SetTip v (Some b)) = height b"
proof -
  have "chain_Tip (map Some (path b)) = Some b"
    using path_length [OF assms(2)] path_last [OF assms(2)] by (simp add: chain_Tip_def)
  then show ?thesis
    using SetTip_spec [OF assms] chain_Height_path [OF assms(2)] assms(2) by (auto simp: chain_ok_def)
qed

lemma SetTip_path_witness:
  "SetTip (SetTip [] (Some sample_genesis)) (Some sample_block) = [Some sample_genesis, Some sample_block]"
proof -
  have "chain_ok (SetTip [] (Some sample_genesis))"
    using SetTip_path [of "[]" sample_genesis] chain_ok_Nil sample_wf(1) by blast
  then show ?thesis using SetTip_path [of _ sample_block] by simp
qed

text \<open>\<open>FindFork\<close> returns the highest block on the path of the entry that the active chain
  contains, and null only when the chain contains none of them.\<close>

theorem FindFork_correct:
  assumes "chain_ok v" and "wf_index b"
  shows "\<exists>r. FindFork v (Some b) = Some r \<and> highest_in (chain_Contains v) (path b) r"
  using assms by (rule FindFork_spec)

lemma FindFork_correct_witness:
  "\<exists>r. FindFork [Some sample_genesis] (Some sample_block) = Some r
     \<and> highest_in (chain_Contains [Some sample_genesis]) (path sample_block) r"
proof (rule FindFork_correct)
  show "chain_ok [Some sample_genesis]" using chain_ok_path [OF sample_wf(1)] by simp
qed simp

text \<open>Two entries of the same block tree always have a last common ancestor, the assertion of
  \<open>LastCommonAncestor\<close> never fails, and its result is their highest common ancestor.\<close>

theorem LastCommonAncestor_correct:
  assumes "wf_index a" and "wf_index b" and "path a ! 0 = path b ! 0"
  shows "\<exists>c. LastCommonAncestor a b = Some (Some c) \<and> c \<in> set (path a) \<and> c \<in> set (path b)
       \<and> (\<forall>x \<in> set (path a) \<inter> set (path b). height x \<le> height c)"
  using LastCommonAncestor_spec [OF assms] by (auto simp: highest_in_def)

lemma LastCommonAncestor_correct_witness:
  "\<exists>c. LastCommonAncestor sample_block sample_genesis = Some (Some c) \<and> c \<in> set (path sample_genesis)"
  using LastCommonAncestor_correct [of sample_block sample_genesis] by auto

text \<open>With fuel for the height of the start (one round per block at most) the locator loop
  ends, and it lists hashes of ancestors of the start at strictly decreasing heights, from the start
  itself down to the genesis block, through the chain index and through the skip list alike.\<close>

theorem GetLocator_correct:
  assumes "chain_ok v" and "wf_index b" and "nat (height b) < fuel"
  shows "\<exists>hs. GetLocator fuel v (Some b) = Some (map (\<lambda>h. bi_hash (bi (path b ! nat h))) hs)
       \<and> locator_heights (height b) hs"
  using locator_loop_spec [OF assms(1,2), of 1 fuel "[]"] assms(3) by (simp add: GetLocator_def)

lemma GetLocator_correct_witness:
  "\<exists>hs. GetLocator 2 [] (Some sample_block) = Some (map (\<lambda>h. bi_hash (bi (path sample_block ! nat h))) hs)
     \<and> locator_heights 1 hs"
  using GetLocator_correct [of "[]" sample_block 2] by (simp add: chain_ok_def)

text \<open>The median time past of a block is the median of the times of the block and its last ten
  ancestors.\<close>

theorem GetMedianTimePast_median:
  assumes "wf_index b"
  shows "median_of (take nMedianTimeSpan (rev (map (\<lambda>x. uint (bi_nTime (bi x))) (path b)))) (GetMedianTimePast b)"
  using assms by (rule GetMedianTimePast_spec)

lemma GetMedianTimePast_median_witness:
  "median_of [5, 0] (GetMedianTimePast sample_block)"
  using GetMedianTimePast_median [of sample_block]
  by (simp add: nMedianTimeSpan_def)

end
