(* ===== verification/Pow.thy ===== *)
theory Pow
  imports Params Arith_Compact Chain_Props
begin

unbundle bit_operations_syntax

text \<open>
  Proof of work (src/src/pow.cpp): the check of a header hash against its target, the work of a
  block, and the retargeting rule (the dual Kimoto gravity well).  The comparison of the rate
  adjustment with the event horizon is done with doubles and the C library's \<open>pow\<close>; it is the
  parameter \<open>horizon\<close>, a predicate of the three integers it reads.  \<open>None\<close> is an uncaught division
  error or a null dereference.
\<close>

definition UintToArith256 :: "uint256 \<Rightarrow> arith_uint256" where
  "UintToArith256 a = map (\<lambda>x. ucast (drop_bit (32 * x) a)) [0..<WIDTH]"

definition CheckProofOfWork :: "uint256 \<Rightarrow> u32 \<Rightarrow> Consensus_Params \<Rightarrow> bool" where
  "CheckProofOfWork h nBits P =
     (let (bnTarget, fNegative, fOverflow) = SetCompact nBits in
      if fNegative \<or> EqualTo bnTarget 0 \<or> fOverflow \<or> CompareTo bnTarget (UintToArith256 (powLimit P)) > 0 then False
      else if CompareTo (UintToArith256 h) bnTarget > 0 then False
      else True)"

definition quotient_of :: "uint_error + arith_uint256 \<Rightarrow> arith_uint256 option" where
  "quotient_of r = (case r of Inl e \<Rightarrow> None | Inr q \<Rightarrow> Some q)"

definition GetBlockProof :: "CBlockIndex \<Rightarrow> arith_uint256 option" where
  "GetBlockProof b =
     (let (bnTarget, fNegative, fOverflow) = SetCompact (bi_nBits (bi b)) in
      if fNegative \<or> fOverflow \<or> EqualTo bnTarget 0 then Some arith_zero
      else (case quotient_of (arith_div (arith_not bnTarget) (arith_add bnTarget (arith_of_u64 1))) of
              None \<Rightarrow> None | Some q \<Rightarrow> Some (arith_add q (arith_of_u64 1))))"

text \<open>The result is converted from \<open>uint64_t\<close> to \<open>int64_t\<close>; \<open>sign * r.GetLow64()\<close> is computed in
  \<open>uint64_t\<close> and converted back.\<close>

definition GetBlockProofEquivalentTime ::
  "CBlockIndex \<Rightarrow> CBlockIndex \<Rightarrow> CBlockIndex \<Rightarrow> Consensus_Params \<Rightarrow> int option" where
  "GetBlockProofEquivalentTime to from tip P =
     (let w_to = bi_nChainWork (bi to); w_from = bi_nChainWork (bi from);
          gt = CompareTo w_to w_from > 0;
          r0 = (if gt then arith_sub w_to w_from else arith_sub w_from w_to);
          sign = (if gt then 1 else -1)
      in case GetBlockProof tip of
           None \<Rightarrow> None
         | Some proof \<Rightarrow>
            (case quotient_of (arith_div (arith_mul r0 (arith_of_u64 (of_int (nPowTargetSpacing P)))) proof) of
               None \<Rightarrow> None
             | Some r \<Rightarrow> if arith_bits r > 63 then Some (sign * INT64_MAX)
                         else Some (sint (of_int sign * GetLow64 r))))"

subsection \<open>Retargeting\<close>

record kgw_state =
  PastBlocksMass :: int
  PastRateActualSeconds :: int
  PastRateTargetSeconds :: int
  PastDifficultyAverage :: arith_uint256
  PastDifficultyAveragePrev :: arith_uint256

definition kgw_init :: kgw_state where
  "kgw_init = \<lparr> PastBlocksMass = 0, PastRateActualSeconds = 0, PastRateTargetSeconds = 0,
     PastDifficultyAverage = arith_zero, PastDifficultyAveragePrev = arith_zero \<rparr>"

definition pastSecondsMin :: nat where "pastSecondsMin = 2160"

definition pastSecondsMax :: nat where "pastSecondsMax = 604800"

definition block_time :: "CBlockIndex \<Rightarrow> int" where
  "block_time b = uint (bi_nTime (bi b))"

definition kgw_average :: "u32 \<Rightarrow> nat \<Rightarrow> arith_uint256 \<Rightarrow> arith_uint256 option" where
  "kgw_average nBits i prev =
     (let d = fst (SetCompact nBits) in
      if i > 1 then
        if CompareTo d prev \<ge> 0
        then map_option (\<lambda>q. arith_add q prev) (quotient_of (arith_div (arith_sub d prev) (arith_of_u64 (of_nat i))))
        else map_option (\<lambda>q. arith_sub prev q) (quotient_of (arith_div (arith_sub prev d) (arith_of_u64 (of_nat i))))
      else Some d)"

function kgw_loop ::
  "(int \<Rightarrow> int \<Rightarrow> int \<Rightarrow> bool) \<Rightarrow> int \<Rightarrow> nat \<Rightarrow> nat \<Rightarrow> CBlockIndex \<Rightarrow> CBlockIndex \<Rightarrow> nat \<Rightarrow> kgw_state \<Rightarrow> kgw_state option"
where
  "kgw_loop horizon Blocktime PastBlocksMin PastBlocksMax BlockLastSolved BlockReading i s =
     (if \<not> height BlockReading > 0 then Some s
      else if PastBlocksMax > 0 \<and> i > PastBlocksMax then Some s
      else case kgw_average (bi_nBits (bi BlockReading)) i (PastDifficultyAveragePrev s) of
        None \<Rightarrow> None
      | Some avg \<Rightarrow>
          let mass = PastBlocksMass s + 1;
              actual = max 0 (block_time BlockLastSolved - block_time BlockReading);
              target = Blocktime * mass;
              s' = \<lparr> PastBlocksMass = mass, PastRateActualSeconds = actual, PastRateTargetSeconds = target,
                     PastDifficultyAverage = avg, PastDifficultyAveragePrev = avg \<rparr>
          in if nat mass \<ge> PastBlocksMin \<and> horizon mass target actual then Some s'
             else (case pprev BlockReading of
                     None \<Rightarrow> Some s'
                   | Some p \<Rightarrow> kgw_loop horizon Blocktime PastBlocksMin PastBlocksMax BlockLastSolved p (i + 1) s'))"
  by pat_completeness auto
termination
  by (relation "measure (\<lambda>(_, _, _, _, _, b, _, _). size b)") (auto simp: size_pprev)

declare kgw_loop.simps [simp del]

text \<open>The first well's answer: the average scaled by the observed rate.  \<open>*=\<close> with an \<open>int64_t\<close> picks
  the overload for \<open>uint32_t\<close>, so the factor is taken modulo \<open>2 ^ 32\<close>.\<close>

definition kgw_dual1 :: "kgw_state \<Rightarrow> arith_uint256 option" where
  "kgw_dual1 s =
     (if PastRateActualSeconds s \<noteq> 0 \<and> PastRateTargetSeconds s \<noteq> 0
      then quotient_of (arith_div (arith_mul32 (PastDifficultyAverage s) (of_int (PastRateActualSeconds s)))
                                  (arith_of_u64 (of_int (PastRateTargetSeconds s))))
      else Some (PastDifficultyAverage s))"

definition clamp_time :: "int \<Rightarrow> int \<Rightarrow> int" where
  "clamp_time Blocktime t0 =
     (let t1 = (if t0 < 0 then Blocktime else t0);
          t2 = (if t1 < Blocktime sdiv 3 then Blocktime sdiv 3 else t1)
      in if t2 > Blocktime * 3 then Blocktime * 3 else t2)"

definition kgw_dual2 :: "int \<Rightarrow> u32 \<Rightarrow> int \<Rightarrow> arith_uint256 option" where
  "kgw_dual2 Blocktime nBits t =
     quotient_of (arith_div (arith_mul32 (fst (SetCompact nBits)) (of_int t)) (arith_of_u64 (of_int Blocktime)))"

definition kgw_combine :: "int \<Rightarrow> int \<Rightarrow> arith_uint256 \<Rightarrow> arith_uint256 \<Rightarrow> arith_uint256 option" where
  "kgw_combine Blocktime nActualTimespanshort d1 d2 =
     (case quotient_of (arith_div (arith_add d2 d1) (arith_of_u64 2)) of
        None \<Rightarrow> None
      | Some bnNew \<Rightarrow>
          if nActualTimespanshort < Blocktime sdiv 6
          then quotient_of (arith_div (arith_mul32 bnNew 85) (arith_of_u64 100))
          else Some bnNew)"

definition GetNextWorkRequired ::
  "(int \<Rightarrow> int \<Rightarrow> int \<Rightarrow> bool) \<Rightarrow> CBlockIndex option \<Rightarrow> Consensus_Params \<Rightarrow> u32 option" where
  "GetNextWorkRequired horizon pindexLast P =
     (let Blocktime = nPowTargetSpacing P;
          blockDiv = nat (Blocktime mod 2 ^ 64);
          PastBlocksMin = pastSecondsMin div blockDiv;
          PastBlocksMax = pastSecondsMax div blockDiv;
          bnPowLimit = UintToArith256 (powLimit P)
      in if blockDiv = 0 then None
         else case pindexLast of
           None \<Rightarrow> GetCompact bnPowLimit False
         | Some BlockLastSolved \<Rightarrow>
             if height BlockLastSolved = 0 \<or> nat (height BlockLastSolved mod 2 ^ 64) < PastBlocksMin then GetCompact bnPowLimit False
             else case kgw_loop horizon Blocktime PastBlocksMin PastBlocksMax BlockLastSolved BlockLastSolved 1 kgw_init of
               None \<Rightarrow> None
             | Some s \<Rightarrow>
                 (case (kgw_dual1 s, pprev BlockLastSolved) of
                    (Some d1, Some prev) \<Rightarrow>
                      let short = block_time BlockLastSolved - block_time prev in
                      (case kgw_dual2 Blocktime (bi_nBits (bi BlockLastSolved)) (clamp_time Blocktime short) of
                         None \<Rightarrow> None
                       | Some d2 \<Rightarrow>
                           (case kgw_combine Blocktime short d1 d2 of
                              None \<Rightarrow> None
                            | Some bnNew \<Rightarrow>
                                GetCompact (if CompareTo bnNew bnPowLimit > 0 then bnPowLimit else bnNew) False))
                  | _ \<Rightarrow> None))"

subsection \<open>The compact encoding, all fields\<close>

lemma shifted_zero_iff: "(if e \<le> 3 then m div 256 ^ (3 - e) else m) = 0 \<longleftrightarrow> compact_val e m = 0"
  by (simp add: compact_val_def)

lemma power256_add: "i + j = k \<Longrightarrow> (256 :: nat) ^ i * 256 ^ j = 256 ^ k"
  by (auto simp: power_add)

lemma compact_overflow_iff:
  fixes m e :: nat
  assumes m: "m < 2 ^ 23"
  defines "w \<equiv> if e \<le> 3 then m div 256 ^ (3 - e) else m"
  shows "(w \<noteq> 0 \<and> (e > 34 \<or> w > 0xff \<and> e > 33 \<or> w > 0xffff \<and> e > 32)) \<longleftrightarrow> 2 ^ 256 \<le> compact_val e m"
proof (cases "e \<le> 3")
  case True
  have "m div 256 ^ (3 - e) < 2 ^ 23" using m by (rule le_less_trans [OF div_le_dividend])
  then show ?thesis using True m by (simp add: compact_val_def)
next
  case False
  have p: "(2 :: nat) ^ 256 = 256 ^ 32" by simp
  have w: "w = m" "compact_val e m = m * 256 ^ (e - 3)" using False by (simp_all add: w_def compact_val_def)
  have up: "m * 256 ^ (e - 3) < 256 ^ 32" if "m < 256 ^ i" "e - 3 + i \<le> 32" for i
  proof -
    have "m * 256 ^ (e - 3) < 256 ^ i * 256 ^ (e - 3)" using that(1) by simp
    also have "\<dots> = 256 ^ (e - 3 + i)" by (simp add: power_add mult.commute)
    also have "\<dots> \<le> (256 :: nat) ^ 32" using that(2) by (intro power_increasing) simp_all
    finally show ?thesis .
  qed
  have lo: "256 ^ 32 \<le> m * 256 ^ (e - 3)" if "256 ^ i \<le> m" "32 \<le> e - 3 + i" for i
  proof -
    have "(256 :: nat) ^ 32 \<le> 256 ^ (e - 3 + i)" using that(2) by (intro power_increasing) simp_all
    also have "\<dots> = 256 ^ i * 256 ^ (e - 3)" by (simp add: power_add mult.commute)
    also have "\<dots> \<le> m * 256 ^ (e - 3)" using that(1) by (rule mult_le_mono1)
    finally show ?thesis .
  qed
  consider "m = 0" | "0 < m" "e > 34" | "m > 0xff" "e > 33" | "m > 0xffff" "e > 32"
    | "0 < m" "e \<le> 34" "m \<le> 0xff" | "0xff < m" "e \<le> 33" "m \<le> 0xffff" | "0xffff < m" "e \<le> 32"
    by linarith
  then show ?thesis
  proof cases
    case 1 then show ?thesis by (simp add: w compact_val_def)
  next
    case 2 then show ?thesis unfolding w p using lo [of 0] by simp
  next
    case 3 then show ?thesis unfolding w p using lo [of 1] by simp
  next
    case 4 then show ?thesis unfolding w p using lo [of 2] by simp
  next
    case 5
    then have "m * 256 ^ (e - 3) < 256 ^ 32" by (intro up [of 1]) simp_all
    then show ?thesis unfolding w p using 5 by simp
  next
    case 6
    then have "m * 256 ^ (e - 3) < 256 ^ 32" by (intro up [of 2]) simp_all
    then show ?thesis unfolding w p using 6 by simp
  next
    case 7
    then have "m * 256 ^ (e - 3) < 256 ^ 32" using m by (intro up [of 3]) simp_all
    then show ?thesis unfolding w p using 7 by simp
  qed
qed

lemma SetCompact_value:
  fixes c :: u32
  defines "m \<equiv> unat c mod 2 ^ 23" and "e \<equiv> unat c div 2 ^ 24" and "sg \<equiv> odd (unat c div 2 ^ 23)"
  obtains v where "SetCompact c = (v, compact_val e m \<noteq> 0 \<and> sg, 2 ^ 256 \<le> compact_val e m)"
    and "limbs_ok v" and "limbs_val v = compact_val e m mod 2 ^ 256"
proof -
  define W where "W = (if e \<le> 3 then drop_bit (8 * (3 - e)) (c AND 0x007fffff) else c AND 0x007fffff)"
  define w where "w = (if e \<le> 3 then m div 256 ^ (3 - e) else m)"
  have m: "m < 2 ^ 23" by (simp add: m_def)
  have e: "unat (drop_bit 24 c) = e" by (simp add: e_def unat_drop_bit_div)
  have x: "unat (c AND 0x007fffff) = m" unfolding u32_and_mask23 unat_take_bit_mod m_def by simp
  have W: "unat W = w"
    unfolding W_def w_def by (simp only: unat_drop_bit_div x if_distrib [where f = unat] power_mult) simp
  define v where "v = (if e \<le> 3 then arith_of_u64 (ucast W) else arith_shl (arith_of_u64 (ucast W)) (8 * (e - 3)))"
  have Ws: "W \<noteq> 0 \<longleftrightarrow> w \<noteq> 0" "W > 0xff \<longleftrightarrow> w > 0xff" "W > 0xffff \<longleftrightarrow> w > 0xffff"
    using W by (auto simp: word_less_nat_alt unat_gt_0)
  have "limbs_ok v" by (simp add: v_def)
  moreover have "limbs_val v = compact_val e m mod 2 ^ 256"
  proof (cases "e \<le> 3")
    case True
    have "w \<le> m" using True div_le_dividend by (simp add: w_def)
    then have "w mod 2 ^ 256 = w" using m by simp
    then show ?thesis using True W by (simp add: v_def w_def compact_val_def)
  next
    case False
    then show ?thesis using W by (simp add: v_def w_def compact_val_def limbs_val_shl power_mult)
  qed
  moreover have "SetCompact c = (v, w \<noteq> 0 \<and> sg, w \<noteq> 0 \<and> (e > 34 \<or> w > 0xff \<and> e > 33 \<or> w > 0xffff \<and> e > 32))"
    unfolding SetCompact_def Let_def e W_def [symmetric] v_def [symmetric] Ws u32_sign_bit sg_def [symmetric] by simp
  ultimately show thesis
    using that compact_overflow_iff [OF m, of e] shifted_zero_iff [of e m] unfolding w_def by simp
qed

text \<open>No compact number is \<open>2 ^ 256 - 1\<close>.\<close>

lemma compact_not_max: "m < 2 ^ 23 \<Longrightarrow> compact_val e m < 2 ^ 256 \<Longrightarrow> compact_val e m + 1 < 2 ^ 256"
proof (cases "e \<le> 3")
  case True
  assume "m < 2 ^ 23"
  then have "m div 256 ^ (3 - e) < 2 ^ 23" by (rule le_less_trans [OF div_le_dividend])
  then show ?thesis using True by (simp add: compact_val_def)
next
  case False
  assume a: "compact_val e m < 2 ^ 256"
  have "even (compact_val e m)" using False by (simp add: compact_val_def)
  moreover have "odd ((2 :: nat) ^ 256 - 1)" by simp
  ultimately have "compact_val e m \<noteq> 2 ^ 256 - 1" by metis
  then show ?thesis using a by simp
qed

lemma SetCompact_ok: "limbs_ok (fst (SetCompact c))"
  by (rule SetCompact_value [of c]) simp

lemma EqualTo_zero: "limbs_ok a \<Longrightarrow> EqualTo a 0 \<longleftrightarrow> limbs_val a = 0"
proof -
  assume "limbs_ok a"
  then obtain x y zs where a: "a = x # y # zs" "length zs = 6"
    by (auto simp: limbs_ok_def WIDTH_def length_Suc_conv numeral_eq_Suc)
  have zs: "limbs_val zs = 0 \<longleftrightarrow> (\<forall>z \<in> set zs. z = 0)" for zs
    by (induction zs) (auto simp: unat_eq_0)
  have "(\<exists>i \<in> set [2..<WIDTH]. a ! i \<noteq> 0) \<longleftrightarrow> (\<exists>z \<in> set zs. z \<noteq> 0)"
  proof
    assume "\<exists>i \<in> set [2..<WIDTH]. a ! i \<noteq> 0"
    then obtain i where "i \<in> {2..<8}" "a ! i \<noteq> 0" unfolding WIDTH_def set_upt by blast
    then have "2 \<le> i" "i < 8" "a ! i \<noteq> 0" by simp_all
    then show "\<exists>z \<in> set zs. z \<noteq> 0" using a by (intro bexI [of _ "zs ! (i - 2)"]) (auto simp: numeral_2_eq_2)
  next
    assume "\<exists>z \<in> set zs. z \<noteq> 0"
    then obtain k where "k < 6" "zs ! k \<noteq> 0" using a by (auto simp: in_set_conv_nth)
    then show "\<exists>i \<in> set [2..<WIDTH]. a ! i \<noteq> 0"
      unfolding WIDTH_def set_upt using a by (intro bexI [of _ "k + 2"]) simp_all
  qed
  moreover have "ucast (x :: u32) = (0 :: u64) \<longleftrightarrow> x = 0" for x
    by (metis unat_ucast_32_64 unat_eq_zero)
  ultimately show ?thesis using zs [of zs] a by (auto simp: EqualTo_def unat_eq_0)
qed

lemma UintToArith256_ok [simp]: "limbs_ok (UintToArith256 a)"
  by (simp add: limbs_ok_def UintToArith256_def)

lemma limbs_val_map_digits:
  "limbs_val (map (\<lambda>x. ucast (drop_bit (32 * x) (a :: uint256))) [0..<n]) = unat a mod 2 ^ (32 * n)"
proof (induction n)
  case (Suc n)
  have "limbs_val (map (\<lambda>x. ucast (drop_bit (32 * x) a)) [0..<Suc n])
      = unat a mod 2 ^ (32 * n) + 2 ^ (32 * n) * (unat a div 2 ^ (32 * n) mod 2 ^ 32)"
    using Suc by (simp add: limbs_val_append unat_ucast_mod unat_drop_bit_div)
  also have "\<dots> = unat a mod (2 ^ (32 * n) * 2 ^ 32)" by (simp add: mod_mult2_eq)
  also have "2 ^ (32 * n) * 2 ^ 32 = (2 :: nat) ^ (32 * Suc n)" by (simp add: power_add)
  finally show ?case .
qed simp

lemma limbs_val_uint256 [simp]: "limbs_val (UintToArith256 a) = unat a"
  using limbs_val_map_digits [of a WIDTH] unsigned_less [of a, where ?'a = nat]
  by (simp add: UintToArith256_def WIDTH_def)

lemma arith_not_ok_val:
  assumes "limbs_ok a" shows "limbs_val (arith_not a) = 2 ^ 256 - 1 - limbs_val a"
  using limbs_val_not [of a] assms by (simp add: arith_not_def limbs_ok_def WIDTH_def)

lemma quotient_of_spec:
  "limbs_ok a \<Longrightarrow> limbs_ok b \<Longrightarrow> limbs_val b \<noteq> 0 \<Longrightarrow>
   \<exists>q. quotient_of (arith_div a b) = Some q \<and> limbs_ok q \<and> limbs_val q = limbs_val a div limbs_val b"
  using arith_div_spec [of a b] by (auto simp: quotient_of_def)

subsection \<open>Properties of the proof of work\<close>

text \<open>The target that the 32 bits of \<open>nBits\<close> stand for.\<close>

definition target_of :: "u32 \<Rightarrow> nat" where
  "target_of nBits = compact_val (unat nBits div 2 ^ 24) (unat nBits mod 2 ^ 23)"

lemma CheckProofOfWork_spec:
  "CheckProofOfWork h nBits P \<longleftrightarrow>
     even (unat nBits div 2 ^ 23) \<and> 0 < target_of nBits
     \<and> target_of nBits \<le> unat (powLimit P) \<and> unat h \<le> target_of nBits"
proof -
  obtain v where v: "SetCompact nBits = (v, target_of nBits \<noteq> 0 \<and> odd (unat nBits div 2 ^ 23), 2 ^ 256 \<le> target_of nBits)"
    "limbs_ok v" "limbs_val v = target_of nBits mod 2 ^ 256"
    using SetCompact_value [of nBits] unfolding target_of_def by blast
  have lim: "unat (powLimit P) < 2 ^ 256" using unsigned_less [of "powLimit P", where ?'a = nat] by simp
  show ?thesis
  proof (cases "2 ^ 256 \<le> target_of nBits")
    case True
    then show ?thesis using v(1) lim by (simp add: CheckProofOfWork_def)
  next
    case False
    then have val: "limbs_val v = target_of nBits" using v(3) by simp
    then show ?thesis
      using v(1,2) lim False by (auto simp: CheckProofOfWork_def EqualTo_zero CompareTo_gt not_less)
  qed
qed

lemma GetBlockProof_spec:
  defines "T b \<equiv> target_of (bi_nBits (bi b))"
  shows "\<exists>w. GetBlockProof b = Some w \<and> limbs_ok w
     \<and> limbs_val w = (if T b = 0 \<or> 2 ^ 256 \<le> T b \<or> odd (unat (bi_nBits (bi b)) div 2 ^ 23) then 0
                      else 2 ^ 256 div (T b + 1))"
proof -
  obtain v where v: "SetCompact (bi_nBits (bi b)) = (v, T b \<noteq> 0 \<and> odd (unat (bi_nBits (bi b)) div 2 ^ 23), 2 ^ 256 \<le> T b)"
    "limbs_ok v" "limbs_val v = T b mod 2 ^ 256"
    using SetCompact_value [of "bi_nBits (bi b)"] unfolding T_def target_of_def by blast
  show ?thesis
  proof (cases "T b = 0 \<or> 2 ^ 256 \<le> T b \<or> odd (unat (bi_nBits (bi b)) div 2 ^ 23)")
    case True
    then show ?thesis using v by (auto simp: GetBlockProof_def EqualTo_zero)
  next
    case False
    define t where "t = T b"
    have t: "limbs_val v = t" "0 < t" "t < 2 ^ 256" using False v(3) by (simp_all add: t_def)
    define d where "d = arith_add v (arith_of_u64 1)"
    define n where "n = arith_not v"
    have n: "limbs_ok n" "limbs_val n = 2 ^ 256 - 1 - t" using v(2) t by (simp_all add: n_def arith_not_ok_val)
    have d: "limbs_ok d" "limbs_val d = (t + 1) mod 2 ^ 256"
      using v(2) t limbs_val_add [of v "arith_of_u64 1"] by (simp_all add: d_def)
    have td: "t + 1 < 2 ^ 256"
    proof -
      have "unat (bi_nBits (bi b)) mod 2 ^ 23 < 2 ^ 23" by simp
      then show ?thesis using t compact_not_max [of "unat (bi_nBits (bi b)) mod 2 ^ 23" "unat (bi_nBits (bi b)) div 2 ^ 24"]
        by (simp add: t_def T_def target_of_def)
    qed
    obtain q where q: "quotient_of (arith_div n d) = Some q" "limbs_ok q" "limbs_val q = (2 ^ 256 - 1 - t) div (t + 1)"
      using quotient_of_spec [OF n(1) d(1)] d(2) n(2) td by auto
    have whole: "2 ^ 256 div (t + 1) = (2 ^ 256 - 1 - t) div (t + 1) + 1"
    proof -
      have "(2 :: nat) ^ 256 = (2 ^ 256 - 1 - t) + (t + 1)" using td by simp
      then have "2 ^ 256 div (t + 1) = ((2 ^ 256 - 1 - t) + (t + 1)) div (t + 1)" by (simp only:)
      also have "\<dots> = (2 ^ 256 - 1 - t) div (t + 1) + 1" by (rule div_add_self2) simp
      finally show ?thesis .
    qed
    have "2 ^ 256 div (t + 1) \<le> (2 :: nat) ^ 256 div 2" using t(2) by (intro div_le_mono2) simp_all
    then have "limbs_val (arith_add q (arith_of_u64 1)) = 2 ^ 256 div (t + 1)"
      using q(2,3) whole limbs_val_add [of q "arith_of_u64 1"] by simp
    moreover have "GetBlockProof b = Some (arith_add q (arith_of_u64 1))"
      using v(1,2) False t q(1) by (simp add: GetBlockProof_def EqualTo_zero n_def d_def)
    ultimately show ?thesis using False q(2) by (simp add: t_def)
  qed
qed

subsection \<open>Retargeting never fails and respects the limit\<close>

lemma SetCompact_GetCompact_le:
  assumes "limbs_ok a"
  shows "\<exists>c v. GetCompact a False = Some c \<and> SetCompact c = (v, False, False) \<and> limbs_ok v \<and> limbs_val v \<le> limbs_val a"
  using SetCompact_GetCompact [OF assms] by metis

lemma quotient_of_total:
  "limbs_ok a \<Longrightarrow> limbs_ok b \<Longrightarrow> limbs_val b \<noteq> 0 \<Longrightarrow> \<exists>q. quotient_of (arith_div a b) = Some q \<and> limbs_ok q"
  using quotient_of_spec by blast

lemma arith_mul32_ok [simp]: "limbs_ok a \<Longrightarrow> limbs_ok (arith_mul32 a b)"
  by (simp add: arith_mul32_def limbs_ok_def)

lemma kgw_average_ok:
  assumes "limbs_ok prev" "i < 2 ^ 64"
  shows "\<exists>avg. kgw_average nBits i prev = Some avg \<and> limbs_ok avg"
proof (cases "i > 1")
  case True
  have "unat (of_nat i :: u64) = i" using assms(2) by (simp add: unat_of_nat)
  then have nz: "limbs_val (arith_of_u64 (of_nat i)) \<noteq> 0" using True by simp
  have total: "\<exists>q. quotient_of (arith_div x (arith_of_u64 (of_nat i))) = Some q \<and> limbs_ok q" if "limbs_ok x" for x
    using quotient_of_total [OF that _ nz] by simp
  show ?thesis
  proof (cases "CompareTo (fst (SetCompact nBits)) prev \<ge> 0")
    case ge: True
    obtain q where "quotient_of (arith_div (arith_sub (fst (SetCompact nBits)) prev) (arith_of_u64 (of_nat i))) = Some q" "limbs_ok q"
      using total [of "arith_sub (fst (SetCompact nBits)) prev"] assms SetCompact_ok by auto
    then show ?thesis using True ge assms(1) by (simp add: kgw_average_def Let_def)
  next
    case lt: False
    obtain q where "quotient_of (arith_div (arith_sub prev (fst (SetCompact nBits))) (arith_of_u64 (of_nat i))) = Some q" "limbs_ok q"
      using total [of "arith_sub prev (fst (SetCompact nBits))"] assms SetCompact_ok by auto
    then show ?thesis using True lt assms(1) by (simp add: kgw_average_def Let_def)
  qed
qed (simp add: kgw_average_def SetCompact_ok)

definition kgw_inv :: "int \<Rightarrow> int \<Rightarrow> int \<Rightarrow> kgw_state \<Rightarrow> bool" where
  "kgw_inv Blocktime H h s \<longleftrightarrow>
     limbs_ok (PastDifficultyAverage s) \<and> limbs_ok (PastDifficultyAveragePrev s)
     \<and> 0 \<le> PastBlocksMass s \<and> PastBlocksMass s + h \<le> H
     \<and> 0 \<le> PastRateTargetSeconds s \<and> PastRateTargetSeconds s \<le> Blocktime * H"

lemma kgw_loop_ok:
  assumes bt: "0 \<le> Blocktime"
  shows "wf_index b \<Longrightarrow> int i + height b < 2 ^ 64 \<Longrightarrow> kgw_inv Blocktime H (height b) s \<Longrightarrow>
    \<exists>s' h'. kgw_loop horizon Blocktime minB maxB l b i s = Some s' \<and> kgw_inv Blocktime H h' s' \<and> 0 \<le> h'"
proof (induction b arbitrary: i s rule: path.induct)
  case (1 b)
  note unf = kgw_loop.simps [of horizon Blocktime minB maxB l b i s]
  have h0: "0 \<le> height b" using wf_height_nonneg [OF 1(2)] .
  show ?case
  proof (cases "\<not> height b > 0 \<or> maxB > 0 \<and> i > maxB")
    case True
    then show ?thesis unfolding unf using 1(4) h0 by auto
  next
    case False
    obtain avg where avg: "kgw_average (bi_nBits (bi b)) i (PastDifficultyAveragePrev s) = Some avg" "limbs_ok avg"
      using kgw_average_ok [of "PastDifficultyAveragePrev s" i "bi_nBits (bi b)"] 1(3,4) False
      by (auto simp: kgw_inv_def)
    define s' where "s' = \<lparr> PastBlocksMass = PastBlocksMass s + 1,
      PastRateActualSeconds = max 0 (block_time l - block_time b),
      PastRateTargetSeconds = Blocktime * (PastBlocksMass s + 1),
      PastDifficultyAverage = avg, PastDifficultyAveragePrev = avg \<rparr>"
    have m: "PastBlocksMass s + 1 \<le> H" "0 \<le> PastBlocksMass s" using 1(4) False by (auto simp: kgw_inv_def)
    then have "Blocktime * (PastBlocksMass s + 1) \<le> Blocktime * H" using bt by (intro mult_left_mono) simp_all
    then have inv: "kgw_inv Blocktime H (height b - 1) s'"
      using avg(2) m 1(4) bt by (simp add: kgw_inv_def s'_def)
    obtain p where p: "pprev b = Some p" using wf_genesis [OF 1(2)] False by auto
    note wp = wf_pprev [OF 1(2) p]
    have hp: "height b - 1 = height p" using wp by simp
    show ?thesis
    proof (cases "nat (PastBlocksMass s + 1) \<ge> minB \<and>
        horizon (PastBlocksMass s + 1) (Blocktime * (PastBlocksMass s + 1)) (max 0 (block_time l - block_time b))")
      case True
      then have "kgw_loop horizon Blocktime minB maxB l b i s = Some s'"
        unfolding unf using False avg(1) by (auto simp: s'_def Let_def)
      then show ?thesis using inv False by (intro exI [of _ s'] exI [of _ "height b - 1"]) simp
    next
      case nh: False
      then have "kgw_loop horizon Blocktime minB maxB l b i s = kgw_loop horizon Blocktime minB maxB l p (i + 1) s'"
        unfolding unf using False avg(1) p by (auto simp: s'_def Let_def)
      moreover have "\<exists>s'' h'. kgw_loop horizon Blocktime minB maxB l p (i + 1) s' = Some s'' \<and> kgw_inv Blocktime H h' s'' \<and> 0 \<le> h'"
        using 1(1) [OF p, of "i + 1" s'] wp 1(3) inv unfolding hp by simp
      ultimately show ?thesis by simp
    qed
  qed
qed

lemma u64_of_int_nz: "0 < x \<Longrightarrow> x < 2 ^ 64 \<Longrightarrow> limbs_val (arith_of_u64 (of_int x)) \<noteq> 0"
  by (simp add: unsigned_of_int take_bit_int_eq_self)

lemma kgw_dual1_ok:
  assumes "kgw_inv Blocktime H h s" "Blocktime * H < 2 ^ 64"
  shows "\<exists>d. kgw_dual1 s = Some d \<and> limbs_ok d"
proof (cases "PastRateActualSeconds s \<noteq> 0 \<and> PastRateTargetSeconds s \<noteq> 0")
  case True
  have "limbs_val (arith_of_u64 (of_int (PastRateTargetSeconds s))) \<noteq> 0"
    by (rule u64_of_int_nz) (use assms True in \<open>auto simp: kgw_inv_def\<close>)
  then show ?thesis
    using True assms(1) quotient_of_total [of "arith_mul32 (PastDifficultyAverage s) (of_int (PastRateActualSeconds s))"]
    by (simp add: kgw_dual1_def kgw_inv_def)
qed (use assms in \<open>auto simp: kgw_dual1_def kgw_inv_def\<close>)

lemma kgw_dual2_ok:
  "0 < Blocktime \<Longrightarrow> Blocktime < 2 ^ 64 \<Longrightarrow> \<exists>d. kgw_dual2 Blocktime nBits t = Some d \<and> limbs_ok d"
  using quotient_of_total [OF arith_mul32_ok [OF SetCompact_ok] limbs_ok_simps(2) u64_of_int_nz]
  by (simp add: kgw_dual2_def)

lemma kgw_combine_ok:
  assumes "limbs_ok d1" "limbs_ok d2"
  shows "\<exists>d. kgw_combine Blocktime short d1 d2 = Some d \<and> limbs_ok d"
proof -
  obtain q where "quotient_of (arith_div (arith_add d2 d1) (arith_of_u64 2)) = Some q" "limbs_ok q"
    using quotient_of_total [of "arith_add d2 d1" "arith_of_u64 2"] assms by auto
  moreover obtain q' where "quotient_of (arith_div (arith_mul32 q 85) (arith_of_u64 100)) = Some q'" "limbs_ok q'"
    using quotient_of_total [of "arith_mul32 q 85" "arith_of_u64 100"] \<open>limbs_ok q\<close> by auto
  ultimately show ?thesis by (simp add: kgw_combine_def)
qed

lemma GetNextWorkRequired_spec:
  assumes wf: "case pindexLast of None \<Rightarrow> True | Some b \<Rightarrow> wf_index b \<and> height b < 2 ^ 31"
    and bt: "0 < nPowTargetSpacing P" "nPowTargetSpacing P < 2 ^ 32"
  shows "\<exists>c. GetNextWorkRequired horizon pindexLast P = Some c
     \<and> (\<exists>v. SetCompact c = (v, False, False) \<and> limbs_ok v \<and> limbs_val v \<le> unat (powLimit P))"
proof -
  have lim: "\<exists>c. GetCompact (UintToArith256 (powLimit P)) False = Some c
      \<and> (\<exists>v. SetCompact c = (v, False, False) \<and> limbs_ok v \<and> limbs_val v \<le> unat (powLimit P))"
    using SetCompact_GetCompact_le [of "UintToArith256 (powLimit P)"] by auto
  define Bt where "Bt = nPowTargetSpacing P"
  have dv: "nat (Bt mod 2 ^ 64) \<noteq> 0" using bt by (simp add: Bt_def)
  define minB where "minB = pastSecondsMin div nat (Bt mod 2 ^ 64)"
  define maxB where "maxB = pastSecondsMax div nat (Bt mod 2 ^ 64)"
  show ?thesis
  proof (cases pindexLast)
    case None
    then show ?thesis using lim dv by (simp add: GetNextWorkRequired_def Let_def Bt_def)
  next
    case (Some b)
    have wb: "wf_index b" "height b < 2 ^ 31" using wf Some by simp_all
    show ?thesis
    proof (cases "height b = 0 \<or> nat (height b mod 2 ^ 64) < minB")
      case True
      then show ?thesis using lim dv Some by (simp add: GetNextWorkRequired_def Let_def Bt_def minB_def)
    next
      case False
      have hb: "0 < height b" using False wf_height_nonneg [OF wb(1)] by auto
      have "kgw_inv Bt (height b) (height b) kgw_init"
        using hb bt by (simp add: kgw_inv_def kgw_init_def Bt_def)
      then obtain s h' where s: "kgw_loop horizon Bt minB maxB b b 1 kgw_init = Some s" "kgw_inv Bt (height b) h' s"
        using kgw_loop_ok [of Bt b 1 "height b" kgw_init horizon minB maxB b] wb bt by (auto simp: Bt_def)
      have "Bt * height b \<le> 2 ^ 32 * 2 ^ 31" using bt wb hb by (intro mult_mono) (simp_all add: Bt_def)
      then obtain d1 where d1: "kgw_dual1 s = Some d1" "limbs_ok d1"
        using kgw_dual1_ok [OF s(2)] by auto
      obtain p where p: "pprev b = Some p" using wf_genesis [OF wb(1)] hb by auto
      obtain d2 where d2: "kgw_dual2 Bt (bi_nBits (bi b)) (clamp_time Bt (block_time b - block_time p)) = Some d2" "limbs_ok d2"
        using kgw_dual2_ok [of Bt] bt by (auto simp: Bt_def)
      obtain d where d: "kgw_combine Bt (block_time b - block_time p) d1 d2 = Some d" "limbs_ok d"
        using kgw_combine_ok [OF d1(2) d2(2)] by blast
      define r where "r = (if CompareTo d (UintToArith256 (powLimit P)) > 0 then UintToArith256 (powLimit P) else d)"
      have r: "limbs_ok r" "limbs_val r \<le> unat (powLimit P)"
        using d(2) by (auto simp: r_def CompareTo_gt)
      have "GetNextWorkRequired horizon pindexLast P = GetCompact r False"
        unfolding GetNextWorkRequired_def Let_def Bt_def [symmetric] minB_def [symmetric] maxB_def [symmetric] r_def
        using Some False dv s(1) d1(1) p d2(1) d(1) by simp
      then show ?thesis using SetCompact_GetCompact_le [OF r(1)] r(2) by (metis le_trans)
    qed
  qed
qed

subsection \<open>Properties\<close>

text \<open>C27: a hash passes the proof-of-work check exactly when the sign bit of \<open>nBits\<close> is clear, the
  target that its size byte and mantissa denote is positive and at most the limit of the network,
  and the hash does not exceed it; no overflowing encoding slips through.\<close>

theorem CheckProofOfWork_correct:
  "CheckProofOfWork h nBits P \<longleftrightarrow>
     even (unat nBits div 2 ^ 23) \<and> 0 < target_of nBits
     \<and> target_of nBits \<le> unat (powLimit P) \<and> unat h \<le> target_of nBits"
  by (rule CheckProofOfWork_spec)

text \<open>The work of a block is \<open>2 ^ 256 div (target + 1)\<close>, although the code never holds
  \<open>2 ^ 256\<close>, and zero for an encoding that is negative, zero or too large; the division never fails.\<close>

theorem GetBlockProof_correct:
  "\<exists>w. GetBlockProof b = Some w \<and> limbs_ok w
     \<and> limbs_val w = (if target_of (bi_nBits (bi b)) = 0 \<or> 2 ^ 256 \<le> target_of (bi_nBits (bi b))
                        \<or> odd (unat (bi_nBits (bi b)) div 2 ^ 23) then 0
                      else 2 ^ 256 div (target_of (bi_nBits (bi b)) + 1))"
  by (rule GetBlockProof_spec)

lemma GetBlockProof_correct_witness:
  "\<exists>w. GetBlockProof (CBlockIndex (SetNull_index \<lparr> bi_nBits := 0x1d00ffff \<rparr>) None None) = Some w
     \<and> limbs_val w = 0x100010001"
  using GetBlockProof_correct [of "CBlockIndex (SetNull_index \<lparr> bi_nBits := 0x1d00ffff \<rparr>) None None"]
  by (auto simp: target_of_def compact_val_def)

text \<open>C26: on a well-formed index and for a positive target spacing the retargeting rule always
  returns, whatever the floating-point comparison answers: no division by zero, no null
  dereference, no failed assertion.  The compact number it returns has neither flag set and denotes
  a target within the limit of the network.\<close>

theorem GetNextWorkRequired_within_limit:
  assumes "case pindexLast of None \<Rightarrow> True | Some b \<Rightarrow> wf_index b \<and> height b < 2 ^ 31"
    and "0 < nPowTargetSpacing P" and "nPowTargetSpacing P < 2 ^ 32"
  shows "\<exists>c. GetNextWorkRequired horizon pindexLast P = Some c
     \<and> (\<exists>v. SetCompact c = (v, False, False) \<and> limbs_ok v \<and> limbs_val v \<le> unat (powLimit P))"
  using assms by (rule GetNextWorkRequired_spec)

definition sample_params :: Consensus_Params where
  "sample_params =
     \<lparr> hashGenesisBlock = 7, nHardForkOne = 250000, nHardForkTwo = 1999999999,
       nMasternodePaymentsStartBlock = 10801, nInstantSendKeepLock = 24,
       nBudgetPaymentsStartBlock = 20545, nBudgetPaymentsCycleBlocks = 20545,
       nBudgetPaymentsWindowBlocks = 100, nBudgetProposalEstablishingTime = 86400,
       nSuperblockStartBlock = 20546, nSuperblockCycle = 20545, nGovernanceMinQuorum = 10,
       nGovernanceFilterElements = 20000, nMasternodeMinimumConfirmations = 15,
       nMajorityEnforceBlockUpgrade = 750, nMajorityRejectBlockOutdated = 950, nMajorityWindow = 1000,
       nIntPhaseTotalBlocks = 0, nZumyBeginsBlock = 0, nDevPhaseTotalBlocks = 0,
       nPhase1LastBlock = 0, nPhase2LastBlock = 0, nPhase3LastBlock = 0, nPhase4LastBlock = 0,
       nPhase5LastBlock = 0, nRuleChangeActivationThreshold = 321, nMinerConfirmationWindow = 338,
       vDeployments = (\<lambda>d. \<lparr> dep_bit = 28, dep_nStartTime = 1199145601, dep_nTimeout = 1230767999 \<rparr>),
       powLimit = 2 ^ 240 - 1, nPowTargetSpacing = 128, nPowTargetTimespan = 86400 \<rparr>"

lemma GetNextWorkRequired_within_limit_witness:
  "\<exists>c. GetNextWorkRequired (\<lambda>m t a. False) (Some sample_block) sample_params = Some c"
  using GetNextWorkRequired_within_limit [of "Some sample_block" sample_params "\<lambda>m t a. False"]
  by (auto simp: sample_params_def)

end
