(* ===== verification/Serialize.thy ===== *)
theory Serialize
  imports Zumy_Prelude
begin

unbundle bit_operations_syntax

text \<open>
  The wire format (src/src/serialize.h): fixed-width little-endian integers, the compact size of a
  vector, variable-length integers, byte strings and vectors.

  A writer returns the bytes it appends to the stream.  A reader takes the bytes left in the stream
  and returns the value and the rest, or \<open>None\<close> where the code throws \<open>std::ios_base::failure\<close>.  The
  locale \<open>codec\<close> states the contract between a writer and its reader.
\<close>

type_synonym 'a reader = "byte list \<Rightarrow> ('a \<times> byte list) option"

subsection \<open>The contract of a writer and a reader\<close>

locale codec =
  fixes ser :: "'a \<Rightarrow> byte list" and unser :: "byte list \<Rightarrow> ('a \<times> byte list) option"
    and good :: "'a \<Rightarrow> bool"
  assumes unser_ser: "good x \<Longrightarrow> unser (ser x @ rest) = Some (x, rest)"
begin

lemma ser_prefix_free:
  assumes "good x" "good y" "ser x @ r = ser y @ r'"
  shows "x = y \<and> r = r'"
proof -
  have "Some (x, r) = Some (y, r')"
    by (simp only: unser_ser [OF assms(1), of r, symmetric] unser_ser [OF assms(2), of r', symmetric] assms(3))
  then show ?thesis unfolding option.inject prod.inject .
qed

lemma ser_inject: "good x \<Longrightarrow> good y \<Longrightarrow> ser x = ser y \<longleftrightarrow> x = y"
  by (metis append_Nil2 ser_prefix_free)

end

text \<open>A codec whose writer also reports the size of what it writes, as \<open>GetSerializeSize\<close> does.\<close>

locale sized_codec = codec +
  fixes sz :: "'a \<Rightarrow> nat"
  assumes length_ser: "good x \<Longrightarrow> length (ser x) = sz x"

subsection \<open>Fixed-width integers\<close>

fun le_bytes :: "nat \<Rightarrow> nat \<Rightarrow> byte list" where
  "le_bytes 0 v = []"
| "le_bytes (Suc n) v = of_nat (v mod 256) # le_bytes n (v div 256)"

fun le_nat :: "byte list \<Rightarrow> nat" where
  "le_nat [] = 0"
| "le_nat (b # bs) = unat b + 256 * le_nat bs"

text \<open>\<open>s.read(p, n)\<close>: fails when fewer than \<open>n\<close> bytes are left.\<close>

definition read_bytes :: "nat \<Rightarrow> byte list reader" where
  "read_bytes n s = (if length s < n then None else Some (take n s, drop n s))"

definition ser_writedata8 :: "byte \<Rightarrow> byte list" where "ser_writedata8 b = [b]"
definition ser_writedata16 :: "16 word \<Rightarrow> byte list" where "ser_writedata16 w = le_bytes 2 (unat w)"
definition ser_writedata32 :: "u32 \<Rightarrow> byte list" where "ser_writedata32 w = le_bytes 4 (unat w)"
definition ser_writedata64 :: "u64 \<Rightarrow> byte list" where "ser_writedata64 w = le_bytes 8 (unat w)"

definition read_word :: "nat \<Rightarrow> 'a::len word reader" where
  "read_word n s = map_option (\<lambda>(bs, r). (of_nat (le_nat bs), r)) (read_bytes n s)"

definition ser_readdata8 :: "byte reader" where "ser_readdata8 = read_word 1"
definition ser_readdata16 :: "16 word reader" where "ser_readdata16 = read_word 2"
definition ser_readdata32 :: "u32 reader" where "ser_readdata32 = read_word 4"
definition ser_readdata64 :: "u64 reader" where "ser_readdata64 = read_word 8"

text \<open>Signed integers are written as their two's complement.\<close>

definition ser_int32 :: "int \<Rightarrow> byte list" where "ser_int32 x = ser_writedata32 (word_of_int x)"
definition ser_int64 :: "int \<Rightarrow> byte list" where "ser_int64 x = ser_writedata64 (word_of_int x)"

definition unser_int32 :: "int reader" where
  "unser_int32 s = map_option (\<lambda>(w, r). (sint w, r)) (ser_readdata32 s)"

definition unser_int64 :: "int reader" where
  "unser_int64 s = map_option (\<lambda>(w, r). (sint w, r)) (ser_readdata64 s)"

text \<open>A \<open>uint256\<close> is its 32 bytes, the least significant first.\<close>

definition ser_uint256 :: "uint256 \<Rightarrow> byte list" where "ser_uint256 h = le_bytes 32 (unat h)"
definition unser_uint256 :: "uint256 reader" where "unser_uint256 = read_word 32"

lemma length_le_bytes [simp, length_simps]: "length (le_bytes n v) = n"
  by (induction n arbitrary: v) simp_all

lemma le_nat_le_bytes: "le_nat (le_bytes n v) = v mod 256 ^ n"
proof (induction n arbitrary: v)
  case (Suc n)
  have "v mod 256 + 256 * (v div 256 mod 256 ^ n) = v mod (256 * 256 ^ n)"
    by (simp add: mod_mult2_eq)
  then show ?case by (simp add: Suc unat_of_nat)
qed simp

lemma read_bytes_append [simp]: "length bs = n \<Longrightarrow> read_bytes n (bs @ r) = Some (bs, r)"
  by (simp add: read_bytes_def)

lemma read_word_le_bytes:
  "256 ^ n = (2 :: nat) ^ LENGTH('a) \<Longrightarrow>
   read_word n (le_bytes n (unat (w :: 'a::len word)) @ r) = Some (w, r)"
  by (simp add: read_word_def le_nat_le_bytes unsigned_less)

interpretation c_u8: sized_codec ser_writedata8 ser_readdata8 "\<lambda>_. True" "\<lambda>_. 1"
  by unfold_locales
    (simp_all add: ser_writedata8_def ser_readdata8_def read_word_def read_bytes_def)

interpretation c_u16: sized_codec ser_writedata16 ser_readdata16 "\<lambda>_. True" "\<lambda>_. 2"
  by unfold_locales (simp_all add: ser_writedata16_def ser_readdata16_def read_word_le_bytes)

interpretation c_u32: sized_codec ser_writedata32 ser_readdata32 "\<lambda>_. True" "\<lambda>_. 4"
  by unfold_locales (simp_all add: ser_writedata32_def ser_readdata32_def read_word_le_bytes)

interpretation c_u64: sized_codec ser_writedata64 ser_readdata64 "\<lambda>_. True" "\<lambda>_. 8"
  by unfold_locales (simp_all add: ser_writedata64_def ser_readdata64_def read_word_le_bytes)

interpretation c_u256: sized_codec ser_uint256 unser_uint256 "\<lambda>_. True" "\<lambda>_. 32"
  by unfold_locales (simp_all add: ser_uint256_def unser_uint256_def read_word_le_bytes)

definition in_i32 :: "int \<Rightarrow> bool" where
  "in_i32 x \<longleftrightarrow> - 2147483648 \<le> x \<and> x \<le> 2147483647"

lemma sint_i32: "in_i32 x \<Longrightarrow> sint (word_of_int x :: u32) = x"
  by (simp add: sint_sbintrunc' in_i32_def signed_take_bit_int_eq_self)

lemma sint_i64: "in_i64 x \<Longrightarrow> sint (word_of_int x :: u64) = x"
  by (simp add: sint_sbintrunc' i64_bounds signed_take_bit_int_eq_self)

interpretation c_i32: sized_codec ser_int32 unser_int32 in_i32 "\<lambda>_. 4"
  by unfold_locales (simp_all add: ser_int32_def unser_int32_def c_u32.unser_ser c_u32.length_ser sint_i32)

interpretation c_i64: sized_codec ser_int64 unser_int64 in_i64 "\<lambda>_. 8"
  by unfold_locales (simp_all add: ser_int64_def unser_int64_def c_u64.unser_ser c_u64.length_ser sint_i64)

subsection \<open>Compact sizes\<close>

definition MAX_SIZE :: nat where "MAX_SIZE = 0x02000000"

definition GetSizeOfCompactSize :: "nat \<Rightarrow> nat" where
  "GetSizeOfCompactSize nSize =
     (if nSize < 253 then 1 else if nSize \<le> 65535 then 3 else if nSize \<le> 4294967295 then 5 else 9)"

definition WriteCompactSize :: "nat \<Rightarrow> byte list" where
  "WriteCompactSize nSize =
     (if nSize < 253 then ser_writedata8 (of_nat nSize)
      else if nSize \<le> 65535 then ser_writedata8 253 @ ser_writedata16 (of_nat nSize)
      else if nSize \<le> 4294967295 then ser_writedata8 254 @ ser_writedata32 (of_nat nSize)
      else ser_writedata8 255 @ ser_writedata64 (of_nat nSize))"

definition check_max :: "nat \<Rightarrow> nat \<times> byte list \<Rightarrow> (nat \<times> byte list) option" where
  "check_max minSize x = (if fst x < minSize then None else if fst x > MAX_SIZE then None else Some x)"

definition ReadCompactSize :: "nat reader" where
  "ReadCompactSize s =
     Option.bind (ser_readdata8 s) (\<lambda>(chSize, r).
       if chSize < 253 then check_max 0 (unat chSize, r)
       else if chSize = 253 then Option.bind (ser_readdata16 r) (\<lambda>(w, r'). check_max 253 (unat w, r'))
       else if chSize = 254 then Option.bind (ser_readdata32 r) (\<lambda>(w, r'). check_max 0x10000 (unat w, r'))
       else Option.bind (ser_readdata64 r) (\<lambda>(w, r'). check_max 0x100000000 (unat w, r')))"

interpretation c_size: sized_codec WriteCompactSize ReadCompactSize "\<lambda>n. n \<le> MAX_SIZE" GetSizeOfCompactSize
proof (unfold_locales, goal_cases)
  case (1 n rest)
  then have n: "n \<le> 33554432" by (simp add: MAX_SIZE_def)
  consider "n < 253" | "253 \<le> n" "n \<le> 65535" | "65535 < n" by linarith
  then show ?case
  proof cases
    case 1
    then show ?thesis using n
      by (simp add: WriteCompactSize_def ReadCompactSize_def c_u8.unser_ser check_max_def unat_of_nat
          MAX_SIZE_def word_less_nat_alt)
  next
    case 2
    then show ?thesis using n
      by (simp add: WriteCompactSize_def ReadCompactSize_def c_u8.unser_ser c_u16.unser_ser check_max_def
          unat_of_nat MAX_SIZE_def)
  next
    case 3
    then show ?thesis using n
      by (simp add: WriteCompactSize_def ReadCompactSize_def c_u8.unser_ser c_u32.unser_ser check_max_def
          unat_of_nat MAX_SIZE_def)
  qed
next
  case (2 n)
  then show ?case
    by (simp add: WriteCompactSize_def GetSizeOfCompactSize_def MAX_SIZE_def c_u8.length_ser c_u16.length_ser
        c_u32.length_ser)
qed

subsection \<open>Variable-length integers\<close>

text \<open>The digits that \<open>WriteVarInt\<close> puts in \<open>tmp\<close>, the last byte of the output first.\<close>

function varint_tmp :: "nat \<Rightarrow> bool \<Rightarrow> byte list" where
  "varint_tmp n more =
     (of_nat (n mod 128) OR (if more then 0x80 else 0x00))
     # (if n \<le> 0x7F then [] else varint_tmp (n div 128 - 1) True)"
  by pat_completeness auto
termination by (relation "measure fst") auto

declare varint_tmp.simps [simp del]

definition WriteVarInt :: "nat \<Rightarrow> byte list" where
  "WriteVarInt n = rev (varint_tmp n False)"

function GetSizeOfVarInt :: "nat \<Rightarrow> nat" where
  "GetSizeOfVarInt n = (if n \<le> 0x7F then 1 else Suc (GetSizeOfVarInt (n div 128 - 1)))"
  by pat_completeness auto
termination by (relation "measure id") auto

declare GetSizeOfVarInt.simps [simp del]

text \<open>\<open>ReadVarInt\<close> at an integer type of \<open>w\<close> bits: the accumulator wraps.\<close>

fun varint_loop :: "nat \<Rightarrow> nat \<Rightarrow> nat reader" where
  "varint_loop w n [] = None"
| "varint_loop w n (chData # s) =
     (let n' = (n * 128) mod 2 ^ w OR unat (chData AND 0x7F) in
      if chData AND 0x80 \<noteq> 0 then varint_loop w ((n' + 1) mod 2 ^ w) s else Some (n', s))"

definition ReadVarInt :: "nat \<Rightarrow> nat reader" where
  "ReadVarInt w s = varint_loop w 0 s"

lemma length_varint_tmp: "length (varint_tmp n b) = GetSizeOfVarInt n"
proof (induction n arbitrary: b rule: GetSizeOfVarInt.induct)
  case (1 n)
  then show ?case by (simp add: varint_tmp.simps [of n] GetSizeOfVarInt.simps [of n])
qed

lemma GetSizeOfVarInt_le: "n < 128 ^ k \<Longrightarrow> 0 < k \<Longrightarrow> GetSizeOfVarInt n \<le> k"
proof (induction n arbitrary: k rule: GetSizeOfVarInt.induct)
  case (1 n)
  show ?case
  proof (cases "n \<le> 0x7F")
    case False
    then obtain j where k: "k = Suc j" "0 < j" using 1(2,3) by (cases k; cases "k = 1") auto
    have "n div 128 < 128 ^ j" using 1(2) by (simp add: k less_mult_imp_div_less mult.commute)
    then have "GetSizeOfVarInt (n div 128 - 1) \<le> j" using 1(1) [of j] False k by simp
    then show ?thesis using False k by (simp add: GetSizeOfVarInt.simps [of n])
  qed (use 1 in \<open>simp add: GetSizeOfVarInt.simps [of n]\<close>)
qed

lemma varint_byte:
  assumes "d < 128"
  shows "unat ((of_nat d OR 0x80 :: byte) AND 0x7F) = d" "(of_nat d OR 0x80 :: byte) AND 0x80 \<noteq> 0"
    "unat ((of_nat d OR 0x00 :: byte) AND 0x7F) = d" "(of_nat d OR 0x00 :: byte) AND 0x80 = 0"
proof -
  have m: "(0x7F :: byte) = mask 7" "(0x80 :: byte) = push_bit 7 1" by (simp_all add: mask_eq_exp_minus_1)
  have z: "(0x80 AND 0x7F :: byte) = 0" by simp
  have u: "unat (of_nat d :: byte) = d" using assms by (simp add: unat_of_nat)
  have "unat (take_bit 7 (of_nat d :: byte)) = unat (of_nat d :: byte)"
    unfolding unat_take_bit_mod u using assms by simp
  then have t: "(of_nat d :: byte) AND 0x7F = of_nat d"
    unfolding m(1) take_bit_eq_mask [symmetric] by (simp only: word_unat_eq_iff)
  show "unat ((of_nat d OR 0x80 :: byte) AND 0x7F) = d"
    by (simp add: bit.conj_disj_distrib2 t u z)
  show "unat ((of_nat d OR 0x00 :: byte) AND 0x7F) = d" by (simp add: t u)
  show "(of_nat d OR 0x80 :: byte) AND 0x80 \<noteq> 0" by (simp add: bit.conj_disj_distrib2)
  have "(of_nat d :: byte) AND 0x80 = (of_nat d AND 0x7F) AND 0x80" by (simp add: t)
  also have "\<dots> = 0" by (simp add: ac_simps)
  finally show "(of_nat d OR 0x00 :: byte) AND 0x80 = 0" by simp
qed

lemma mult128_or: "d < 128 \<Longrightarrow> a * 128 OR d = a * 128 + d" for a d :: nat
proof -
  assume d: "d < 128"
  then have t: "take_bit 7 d = d" by (simp add: take_bit_nat_eq_self)
  have "push_bit 7 a AND take_bit 7 d = 0"
    by (auto intro!: bit_eqI simp: bit_and_iff bit_take_bit_iff bit_push_bit_iff)
  then show ?thesis unfolding t by (simp add: disjunctive_add_eq_or [symmetric] push_bit_eq_mult)
qed

lemma varint_loop_continue:
  "n + 1 < 2 ^ w \<Longrightarrow> varint_loop w 0 (rev (varint_tmp n True) @ r) = varint_loop w (n + 1) r"
proof (induction n arbitrary: r rule: GetSizeOfVarInt.induct)
  case (1 n)
  define b where "b = (of_nat (n mod 128) OR 0x80 :: byte)"
  have "n mod 128 < 128" by simp
  note b = varint_byte(1,2) [OF this, folded b_def]
  have step: "varint_loop w a (b # r) = varint_loop w (n + 1) r" if "a * 128 + n mod 128 = n" for a
  proof -
    have "a * 128 < 2 ^ w" using that 1(2) by linarith
    then have "(a * 128) mod 2 ^ w OR n mod 128 = n" using that by (simp add: mult128_or)
    then show ?thesis using b 1(2) by (simp add: Let_def)
  qed
  show ?case
  proof (cases "n \<le> 0x7F")
    case True
    then show ?thesis using step [of 0] by (simp add: varint_tmp.simps [of n] b_def)
  next
    case False
    have "n div 128 - 1 + 1 < 2 ^ w" using 1(2) False by (simp add: div_le_dividend less_le_trans)
    then have "varint_loop w 0 (rev (varint_tmp n True) @ r) = varint_loop w (n div 128 - 1 + 1) (b # r)"
      using 1(1) [OF False, of "b # r"] False by (simp add: varint_tmp.simps [of n] b_def)
    then show ?thesis using step [of "n div 128"] False by (simp add: div_mult_mod_eq)
  qed
qed

lemma ReadVarInt_WriteVarInt:
  assumes "n < 2 ^ w"
  shows "ReadVarInt w (WriteVarInt n @ r) = Some (n, r)"
proof -
  define b where "b = (of_nat (n mod 128) OR 0x00 :: byte)"
  have "n mod 128 < 128" by simp
  note b = varint_byte(3,4) [OF this, folded b_def]
  have last: "varint_loop w a (b # r) = Some (n, r)" if "a * 128 + n mod 128 = n" for a
  proof -
    have "a * 128 < 2 ^ w" using that assms by linarith
    then have "(a * 128) mod 2 ^ w OR n mod 128 = n" using that by (simp add: mult128_or)
    then show ?thesis using b by (simp add: Let_def)
  qed
  show ?thesis
  proof (cases "n \<le> 0x7F")
    case True
    then show ?thesis using last [of 0] by (simp add: WriteVarInt_def ReadVarInt_def varint_tmp.simps [of n] b_def)
  next
    case False
    have "n div 128 - 1 + 1 < 2 ^ w" using assms False by (simp add: div_le_dividend less_le_trans)
    then have "ReadVarInt w (WriteVarInt n @ r) = varint_loop w (n div 128 - 1 + 1) (b # r)"
      using varint_loop_continue [of "n div 128 - 1" w "b # r"] False
      by (simp add: WriteVarInt_def ReadVarInt_def varint_tmp.simps [of n] b_def)
    then show ?thesis using last [of "n div 128"] False by (simp add: div_mult_mod_eq)
  qed
qed

interpretation c_varint: sized_codec WriteVarInt "ReadVarInt w" "\<lambda>n. n < 2 ^ w" GetSizeOfVarInt for w
  by (unfold_locales, erule ReadVarInt_WriteVarInt) (simp add: WriteVarInt_def length_varint_tmp)

text \<open>A variable-length integer of any width is read back as it was written, with the rest of the
  stream untouched, no encoding is a prefix of another, and the writer never overruns its buffer of
  \<open>(sizeof(n)*8+6)/7\<close> bytes.\<close>

theorem VarInt_roundtrip:
  assumes "n < 2 ^ w" "m < 2 ^ w" "0 < w"
  shows "ReadVarInt w (WriteVarInt n @ rest) = Some (n, rest)
    \<and> (WriteVarInt n @ rest = WriteVarInt m @ rest' \<longleftrightarrow> n = m \<and> rest = rest')
    \<and> length (WriteVarInt n) = GetSizeOfVarInt n \<and> length (WriteVarInt n) \<le> (w + 6) div 7"
proof (intro conjI)
  show "ReadVarInt w (WriteVarInt n @ rest) = Some (n, rest)" using assms by (simp add: ReadVarInt_WriteVarInt)
  show "WriteVarInt n @ rest = WriteVarInt m @ rest' \<longleftrightarrow> n = m \<and> rest = rest'"
    using c_varint.ser_prefix_free [of n w m rest rest'] assms by auto
  show l: "length (WriteVarInt n) = GetSizeOfVarInt n" by (simp add: WriteVarInt_def length_varint_tmp)
  have "n < 2 ^ (7 * ((w + 6) div 7))"
    by (rule less_le_trans [OF assms(1)]) (rule power_increasing, auto)
  then have "n < 128 ^ ((w + 6) div 7)" by (simp add: power_mult)
  then show "length (WriteVarInt n) \<le> (w + 6) div 7" unfolding l using assms(3) by (intro GetSizeOfVarInt_le) auto
qed

theorem VarInt_roundtrip_witness:
  "ReadVarInt 32 (WriteVarInt 65535 @ [1]) = Some (65535, [1])"
  using VarInt_roundtrip [of 65535 32 7 "[1]" "[]"] by simp

subsection \<open>Byte strings and vectors\<close>

definition ser_bytes :: "byte list \<Rightarrow> byte list" where
  "ser_bytes v = WriteCompactSize (length v) @ v"

definition unser_bytes :: "byte list reader" where
  "unser_bytes s = Option.bind (ReadCompactSize s) (\<lambda>(nSize, r). read_bytes nSize r)"

definition bytes_size :: "byte list \<Rightarrow> nat" where
  "bytes_size v = GetSizeOfCompactSize (length v) + length v"

interpretation c_bytes: sized_codec ser_bytes unser_bytes "\<lambda>v. length v \<le> MAX_SIZE" bytes_size
  by unfold_locales (simp_all add: ser_bytes_def unser_bytes_def bytes_size_def c_size.unser_ser c_size.length_ser)

definition ser_vec :: "('a \<Rightarrow> byte list) \<Rightarrow> 'a list \<Rightarrow> byte list" where
  "ser_vec ser v = WriteCompactSize (length v) @ concat (map ser v)"

fun unser_n :: "'a reader \<Rightarrow> nat \<Rightarrow> 'a list reader" where
  "unser_n unser 0 s = Some ([], s)"
| "unser_n unser (Suc n) s =
     Option.bind (unser s) (\<lambda>(x, r). map_option (\<lambda>(xs, r'). (x # xs, r')) (unser_n unser n r))"

definition unser_vec :: "'a reader \<Rightarrow> 'a list reader" where
  "unser_vec unser s = Option.bind (ReadCompactSize s) (\<lambda>(nSize, r). unser_n unser nSize r)"

definition vec_size :: "('a \<Rightarrow> nat) \<Rightarrow> 'a list \<Rightarrow> nat" where
  "vec_size sz v = GetSizeOfCompactSize (length v) + sum_list (map sz v)"

definition good_vec :: "('a \<Rightarrow> bool) \<Rightarrow> 'a list \<Rightarrow> bool" where
  "good_vec good v \<longleftrightarrow> length v \<le> MAX_SIZE \<and> list_all good v"

context sized_codec begin

lemma unser_n_ser: "list_all good v \<Longrightarrow> unser_n unser (length v) (concat (map ser v) @ rest) = Some (v, rest)"
  by (induction v) (simp_all add: unser_ser)

lemma length_concat_ser: "list_all good v \<Longrightarrow> length (concat (map ser v)) = sum_list (map sz v)"
  by (induction v) (simp_all add: length_ser)

lemma vec_codec: "sized_codec (ser_vec ser) (unser_vec unser) (good_vec good) (vec_size sz)"
  by unfold_locales
    (simp_all add: ser_vec_def unser_vec_def good_vec_def vec_size_def c_size.unser_ser c_size.length_ser
      unser_n_ser length_concat_ser del: length_concat map_map)

end

end
