(* ===== verification/Script.thy ===== *)
theory Script
  imports Zumy_Prelude
begin

unbundle bit_operations_syntax

text \<open>
  Scripts (src/src/script/script.h and src/src/script/script.cpp): opcodes, script numbers, the
  push encoders, the opcode reader \<open>GetOp2\<close> and the static analyses built on it.

  A script is its list of bytes and an iterator into it is the suffix it points to, so \<open>pc >= end()\<close>
  is the empty suffix and \<open>end() - pc\<close> its length.
\<close>

type_synonym script = "byte list"
type_synonym valtype = "byte list"
type_synonym opcodetype = byte

named_theorems opcode_defs

subsection \<open>Limits and opcodes\<close>

definition MAX_SCRIPT_ELEMENT_SIZE :: nat where "MAX_SCRIPT_ELEMENT_SIZE = 520"
definition MAX_OPS_PER_SCRIPT :: nat where "MAX_OPS_PER_SCRIPT = 201"
definition MAX_PUBKEYS_PER_MULTISIG :: nat where "MAX_PUBKEYS_PER_MULTISIG = 20"
definition LOCKTIME_THRESHOLD :: int where "LOCKTIME_THRESHOLD = 500000000"

definition OP_0 :: opcodetype where [opcode_defs]: "OP_0 = 0x00"
definition OP_FALSE :: opcodetype where [opcode_defs]: "OP_FALSE = OP_0"
definition OP_PUSHDATA1 :: opcodetype where [opcode_defs]: "OP_PUSHDATA1 = 0x4c"
definition OP_PUSHDATA2 :: opcodetype where [opcode_defs]: "OP_PUSHDATA2 = 0x4d"
definition OP_PUSHDATA4 :: opcodetype where [opcode_defs]: "OP_PUSHDATA4 = 0x4e"
definition OP_1NEGATE :: opcodetype where [opcode_defs]: "OP_1NEGATE = 0x4f"
definition OP_RESERVED :: opcodetype where [opcode_defs]: "OP_RESERVED = 0x50"
definition OP_1 :: opcodetype where [opcode_defs]: "OP_1 = 0x51"
definition OP_TRUE :: opcodetype where [opcode_defs]: "OP_TRUE = OP_1"
definition OP_2 :: opcodetype where [opcode_defs]: "OP_2 = 0x52"
definition OP_3 :: opcodetype where [opcode_defs]: "OP_3 = 0x53"
definition OP_4 :: opcodetype where [opcode_defs]: "OP_4 = 0x54"
definition OP_5 :: opcodetype where [opcode_defs]: "OP_5 = 0x55"
definition OP_6 :: opcodetype where [opcode_defs]: "OP_6 = 0x56"
definition OP_7 :: opcodetype where [opcode_defs]: "OP_7 = 0x57"
definition OP_8 :: opcodetype where [opcode_defs]: "OP_8 = 0x58"
definition OP_9 :: opcodetype where [opcode_defs]: "OP_9 = 0x59"
definition OP_10 :: opcodetype where [opcode_defs]: "OP_10 = 0x5a"
definition OP_11 :: opcodetype where [opcode_defs]: "OP_11 = 0x5b"
definition OP_12 :: opcodetype where [opcode_defs]: "OP_12 = 0x5c"
definition OP_13 :: opcodetype where [opcode_defs]: "OP_13 = 0x5d"
definition OP_14 :: opcodetype where [opcode_defs]: "OP_14 = 0x5e"
definition OP_15 :: opcodetype where [opcode_defs]: "OP_15 = 0x5f"
definition OP_16 :: opcodetype where [opcode_defs]: "OP_16 = 0x60"
definition OP_NOP :: opcodetype where [opcode_defs]: "OP_NOP = 0x61"
definition OP_VER :: opcodetype where [opcode_defs]: "OP_VER = 0x62"
definition OP_IF :: opcodetype where [opcode_defs]: "OP_IF = 0x63"
definition OP_NOTIF :: opcodetype where [opcode_defs]: "OP_NOTIF = 0x64"
definition OP_VERIF :: opcodetype where [opcode_defs]: "OP_VERIF = 0x65"
definition OP_VERNOTIF :: opcodetype where [opcode_defs]: "OP_VERNOTIF = 0x66"
definition OP_ELSE :: opcodetype where [opcode_defs]: "OP_ELSE = 0x67"
definition OP_ENDIF :: opcodetype where [opcode_defs]: "OP_ENDIF = 0x68"
definition OP_VERIFY :: opcodetype where [opcode_defs]: "OP_VERIFY = 0x69"
definition OP_RETURN :: opcodetype where [opcode_defs]: "OP_RETURN = 0x6a"
definition OP_TOALTSTACK :: opcodetype where [opcode_defs]: "OP_TOALTSTACK = 0x6b"
definition OP_FROMALTSTACK :: opcodetype where [opcode_defs]: "OP_FROMALTSTACK = 0x6c"
definition OP_2DROP :: opcodetype where [opcode_defs]: "OP_2DROP = 0x6d"
definition OP_2DUP :: opcodetype where [opcode_defs]: "OP_2DUP = 0x6e"
definition OP_3DUP :: opcodetype where [opcode_defs]: "OP_3DUP = 0x6f"
definition OP_2OVER :: opcodetype where [opcode_defs]: "OP_2OVER = 0x70"
definition OP_2ROT :: opcodetype where [opcode_defs]: "OP_2ROT = 0x71"
definition OP_2SWAP :: opcodetype where [opcode_defs]: "OP_2SWAP = 0x72"
definition OP_IFDUP :: opcodetype where [opcode_defs]: "OP_IFDUP = 0x73"
definition OP_DEPTH :: opcodetype where [opcode_defs]: "OP_DEPTH = 0x74"
definition OP_DROP :: opcodetype where [opcode_defs]: "OP_DROP = 0x75"
definition OP_DUP :: opcodetype where [opcode_defs]: "OP_DUP = 0x76"
definition OP_NIP :: opcodetype where [opcode_defs]: "OP_NIP = 0x77"
definition OP_OVER :: opcodetype where [opcode_defs]: "OP_OVER = 0x78"
definition OP_PICK :: opcodetype where [opcode_defs]: "OP_PICK = 0x79"
definition OP_ROLL :: opcodetype where [opcode_defs]: "OP_ROLL = 0x7a"
definition OP_ROT :: opcodetype where [opcode_defs]: "OP_ROT = 0x7b"
definition OP_SWAP :: opcodetype where [opcode_defs]: "OP_SWAP = 0x7c"
definition OP_TUCK :: opcodetype where [opcode_defs]: "OP_TUCK = 0x7d"
definition OP_CAT :: opcodetype where [opcode_defs]: "OP_CAT = 0x7e"
definition OP_SUBSTR :: opcodetype where [opcode_defs]: "OP_SUBSTR = 0x7f"
definition OP_LEFT :: opcodetype where [opcode_defs]: "OP_LEFT = 0x80"
definition OP_RIGHT :: opcodetype where [opcode_defs]: "OP_RIGHT = 0x81"
definition OP_SIZE :: opcodetype where [opcode_defs]: "OP_SIZE = 0x82"
definition OP_INVERT :: opcodetype where [opcode_defs]: "OP_INVERT = 0x83"
definition OP_AND :: opcodetype where [opcode_defs]: "OP_AND = 0x84"
definition OP_OR :: opcodetype where [opcode_defs]: "OP_OR = 0x85"
definition OP_XOR :: opcodetype where [opcode_defs]: "OP_XOR = 0x86"
definition OP_EQUAL :: opcodetype where [opcode_defs]: "OP_EQUAL = 0x87"
definition OP_EQUALVERIFY :: opcodetype where [opcode_defs]: "OP_EQUALVERIFY = 0x88"
definition OP_RESERVED1 :: opcodetype where [opcode_defs]: "OP_RESERVED1 = 0x89"
definition OP_RESERVED2 :: opcodetype where [opcode_defs]: "OP_RESERVED2 = 0x8a"
definition OP_1ADD :: opcodetype where [opcode_defs]: "OP_1ADD = 0x8b"
definition OP_1SUB :: opcodetype where [opcode_defs]: "OP_1SUB = 0x8c"
definition OP_2MUL :: opcodetype where [opcode_defs]: "OP_2MUL = 0x8d"
definition OP_2DIV :: opcodetype where [opcode_defs]: "OP_2DIV = 0x8e"
definition OP_NEGATE :: opcodetype where [opcode_defs]: "OP_NEGATE = 0x8f"
definition OP_ABS :: opcodetype where [opcode_defs]: "OP_ABS = 0x90"
definition OP_NOT :: opcodetype where [opcode_defs]: "OP_NOT = 0x91"
definition OP_0NOTEQUAL :: opcodetype where [opcode_defs]: "OP_0NOTEQUAL = 0x92"
definition OP_ADD :: opcodetype where [opcode_defs]: "OP_ADD = 0x93"
definition OP_SUB :: opcodetype where [opcode_defs]: "OP_SUB = 0x94"
definition OP_MUL :: opcodetype where [opcode_defs]: "OP_MUL = 0x95"
definition OP_DIV :: opcodetype where [opcode_defs]: "OP_DIV = 0x96"
definition OP_MOD :: opcodetype where [opcode_defs]: "OP_MOD = 0x97"
definition OP_LSHIFT :: opcodetype where [opcode_defs]: "OP_LSHIFT = 0x98"
definition OP_RSHIFT :: opcodetype where [opcode_defs]: "OP_RSHIFT = 0x99"
definition OP_BOOLAND :: opcodetype where [opcode_defs]: "OP_BOOLAND = 0x9a"
definition OP_BOOLOR :: opcodetype where [opcode_defs]: "OP_BOOLOR = 0x9b"
definition OP_NUMEQUAL :: opcodetype where [opcode_defs]: "OP_NUMEQUAL = 0x9c"
definition OP_NUMEQUALVERIFY :: opcodetype where [opcode_defs]: "OP_NUMEQUALVERIFY = 0x9d"
definition OP_NUMNOTEQUAL :: opcodetype where [opcode_defs]: "OP_NUMNOTEQUAL = 0x9e"
definition OP_LESSTHAN :: opcodetype where [opcode_defs]: "OP_LESSTHAN = 0x9f"
definition OP_GREATERTHAN :: opcodetype where [opcode_defs]: "OP_GREATERTHAN = 0xa0"
definition OP_LESSTHANOREQUAL :: opcodetype where [opcode_defs]: "OP_LESSTHANOREQUAL = 0xa1"
definition OP_GREATERTHANOREQUAL :: opcodetype where [opcode_defs]: "OP_GREATERTHANOREQUAL = 0xa2"
definition OP_MIN :: opcodetype where [opcode_defs]: "OP_MIN = 0xa3"
definition OP_MAX :: opcodetype where [opcode_defs]: "OP_MAX = 0xa4"
definition OP_WITHIN :: opcodetype where [opcode_defs]: "OP_WITHIN = 0xa5"
definition OP_RIPEMD160 :: opcodetype where [opcode_defs]: "OP_RIPEMD160 = 0xa6"
definition OP_SHA1 :: opcodetype where [opcode_defs]: "OP_SHA1 = 0xa7"
definition OP_SHA256 :: opcodetype where [opcode_defs]: "OP_SHA256 = 0xa8"
definition OP_HASH160 :: opcodetype where [opcode_defs]: "OP_HASH160 = 0xa9"
definition OP_HASH256 :: opcodetype where [opcode_defs]: "OP_HASH256 = 0xaa"
definition OP_CODESEPARATOR :: opcodetype where [opcode_defs]: "OP_CODESEPARATOR = 0xab"
definition OP_CHECKSIG :: opcodetype where [opcode_defs]: "OP_CHECKSIG = 0xac"
definition OP_CHECKSIGVERIFY :: opcodetype where [opcode_defs]: "OP_CHECKSIGVERIFY = 0xad"
definition OP_CHECKMULTISIG :: opcodetype where [opcode_defs]: "OP_CHECKMULTISIG = 0xae"
definition OP_CHECKMULTISIGVERIFY :: opcodetype where [opcode_defs]: "OP_CHECKMULTISIGVERIFY = 0xaf"
definition OP_NOP1 :: opcodetype where [opcode_defs]: "OP_NOP1 = 0xb0"
definition OP_CHECKLOCKTIMEVERIFY :: opcodetype where [opcode_defs]: "OP_CHECKLOCKTIMEVERIFY = 0xb1"
definition OP_NOP2 :: opcodetype where [opcode_defs]: "OP_NOP2 = OP_CHECKLOCKTIMEVERIFY"
definition OP_CHECKSEQUENCEVERIFY :: opcodetype where [opcode_defs]: "OP_CHECKSEQUENCEVERIFY = 0xb2"
definition OP_NOP3 :: opcodetype where [opcode_defs]: "OP_NOP3 = OP_CHECKSEQUENCEVERIFY"
definition OP_NOP4 :: opcodetype where [opcode_defs]: "OP_NOP4 = 0xb3"
definition OP_NOP5 :: opcodetype where [opcode_defs]: "OP_NOP5 = 0xb4"
definition OP_NOP6 :: opcodetype where [opcode_defs]: "OP_NOP6 = 0xb5"
definition OP_NOP7 :: opcodetype where [opcode_defs]: "OP_NOP7 = 0xb6"
definition OP_NOP8 :: opcodetype where [opcode_defs]: "OP_NOP8 = 0xb7"
definition OP_NOP9 :: opcodetype where [opcode_defs]: "OP_NOP9 = 0xb8"
definition OP_NOP10 :: opcodetype where [opcode_defs]: "OP_NOP10 = 0xb9"
definition OP_SMALLINTEGER :: opcodetype where [opcode_defs]: "OP_SMALLINTEGER = 0xfa"
definition OP_PUBKEYS :: opcodetype where [opcode_defs]: "OP_PUBKEYS = 0xfb"
definition OP_PUBKEYHASH :: opcodetype where [opcode_defs]: "OP_PUBKEYHASH = 0xfd"
definition OP_PUBKEY :: opcodetype where [opcode_defs]: "OP_PUBKEY = 0xfe"
definition OP_INVALIDOPCODE :: opcodetype where [opcode_defs]: "OP_INVALIDOPCODE = 0xff"

definition op_names :: "(opcodetype \<times> string) list" where
  "op_names = [
     (OP_0, ''0''),
     (OP_PUSHDATA1, ''OP_PUSHDATA1''),
     (OP_PUSHDATA2, ''OP_PUSHDATA2''),
     (OP_PUSHDATA4, ''OP_PUSHDATA4''),
     (OP_1NEGATE, ''-1''),
     (OP_RESERVED, ''OP_RESERVED''),
     (OP_1, ''1''),
     (OP_2, ''2''),
     (OP_3, ''3''),
     (OP_4, ''4''),
     (OP_5, ''5''),
     (OP_6, ''6''),
     (OP_7, ''7''),
     (OP_8, ''8''),
     (OP_9, ''9''),
     (OP_10, ''10''),
     (OP_11, ''11''),
     (OP_12, ''12''),
     (OP_13, ''13''),
     (OP_14, ''14''),
     (OP_15, ''15''),
     (OP_16, ''16''),
     (OP_NOP, ''OP_NOP''),
     (OP_VER, ''OP_VER''),
     (OP_IF, ''OP_IF''),
     (OP_NOTIF, ''OP_NOTIF''),
     (OP_VERIF, ''OP_VERIF''),
     (OP_VERNOTIF, ''OP_VERNOTIF''),
     (OP_ELSE, ''OP_ELSE''),
     (OP_ENDIF, ''OP_ENDIF''),
     (OP_VERIFY, ''OP_VERIFY''),
     (OP_RETURN, ''OP_RETURN''),
     (OP_TOALTSTACK, ''OP_TOALTSTACK''),
     (OP_FROMALTSTACK, ''OP_FROMALTSTACK''),
     (OP_2DROP, ''OP_2DROP''),
     (OP_2DUP, ''OP_2DUP''),
     (OP_3DUP, ''OP_3DUP''),
     (OP_2OVER, ''OP_2OVER''),
     (OP_2ROT, ''OP_2ROT''),
     (OP_2SWAP, ''OP_2SWAP''),
     (OP_IFDUP, ''OP_IFDUP''),
     (OP_DEPTH, ''OP_DEPTH''),
     (OP_DROP, ''OP_DROP''),
     (OP_DUP, ''OP_DUP''),
     (OP_NIP, ''OP_NIP''),
     (OP_OVER, ''OP_OVER''),
     (OP_PICK, ''OP_PICK''),
     (OP_ROLL, ''OP_ROLL''),
     (OP_ROT, ''OP_ROT''),
     (OP_SWAP, ''OP_SWAP''),
     (OP_TUCK, ''OP_TUCK''),
     (OP_CAT, ''OP_CAT''),
     (OP_SUBSTR, ''OP_SUBSTR''),
     (OP_LEFT, ''OP_LEFT''),
     (OP_RIGHT, ''OP_RIGHT''),
     (OP_SIZE, ''OP_SIZE''),
     (OP_INVERT, ''OP_INVERT''),
     (OP_AND, ''OP_AND''),
     (OP_OR, ''OP_OR''),
     (OP_XOR, ''OP_XOR''),
     (OP_EQUAL, ''OP_EQUAL''),
     (OP_EQUALVERIFY, ''OP_EQUALVERIFY''),
     (OP_RESERVED1, ''OP_RESERVED1''),
     (OP_RESERVED2, ''OP_RESERVED2''),
     (OP_1ADD, ''OP_1ADD''),
     (OP_1SUB, ''OP_1SUB''),
     (OP_2MUL, ''OP_2MUL''),
     (OP_2DIV, ''OP_2DIV''),
     (OP_NEGATE, ''OP_NEGATE''),
     (OP_ABS, ''OP_ABS''),
     (OP_NOT, ''OP_NOT''),
     (OP_0NOTEQUAL, ''OP_0NOTEQUAL''),
     (OP_ADD, ''OP_ADD''),
     (OP_SUB, ''OP_SUB''),
     (OP_MUL, ''OP_MUL''),
     (OP_DIV, ''OP_DIV''),
     (OP_MOD, ''OP_MOD''),
     (OP_LSHIFT, ''OP_LSHIFT''),
     (OP_RSHIFT, ''OP_RSHIFT''),
     (OP_BOOLAND, ''OP_BOOLAND''),
     (OP_BOOLOR, ''OP_BOOLOR''),
     (OP_NUMEQUAL, ''OP_NUMEQUAL''),
     (OP_NUMEQUALVERIFY, ''OP_NUMEQUALVERIFY''),
     (OP_NUMNOTEQUAL, ''OP_NUMNOTEQUAL''),
     (OP_LESSTHAN, ''OP_LESSTHAN''),
     (OP_GREATERTHAN, ''OP_GREATERTHAN''),
     (OP_LESSTHANOREQUAL, ''OP_LESSTHANOREQUAL''),
     (OP_GREATERTHANOREQUAL, ''OP_GREATERTHANOREQUAL''),
     (OP_MIN, ''OP_MIN''),
     (OP_MAX, ''OP_MAX''),
     (OP_WITHIN, ''OP_WITHIN''),
     (OP_RIPEMD160, ''OP_RIPEMD160''),
     (OP_SHA1, ''OP_SHA1''),
     (OP_SHA256, ''OP_SHA256''),
     (OP_HASH160, ''OP_HASH160''),
     (OP_HASH256, ''OP_HASH256''),
     (OP_CODESEPARATOR, ''OP_CODESEPARATOR''),
     (OP_CHECKSIG, ''OP_CHECKSIG''),
     (OP_CHECKSIGVERIFY, ''OP_CHECKSIGVERIFY''),
     (OP_CHECKMULTISIG, ''OP_CHECKMULTISIG''),
     (OP_CHECKMULTISIGVERIFY, ''OP_CHECKMULTISIGVERIFY''),
     (OP_NOP1, ''OP_NOP1''),
     (OP_CHECKLOCKTIMEVERIFY, ''OP_CHECKLOCKTIMEVERIFY''),
     (OP_CHECKSEQUENCEVERIFY, ''OP_CHECKSEQUENCEVERIFY''),
     (OP_NOP4, ''OP_NOP4''),
     (OP_NOP5, ''OP_NOP5''),
     (OP_NOP6, ''OP_NOP6''),
     (OP_NOP7, ''OP_NOP7''),
     (OP_NOP8, ''OP_NOP8''),
     (OP_NOP9, ''OP_NOP9''),
     (OP_NOP10, ''OP_NOP10''),
     (OP_INVALIDOPCODE, ''OP_INVALIDOPCODE'')]"

definition GetOpName :: "opcodetype \<Rightarrow> string" where
  "GetOpName opcode = (case map_of op_names opcode of Some s \<Rightarrow> s | None \<Rightarrow> ''OP_UNKNOWN'')"

subsection \<open>Script numbers\<close>

text \<open>The value of a \<open>CScriptNum\<close> is the integer \<open>m_value\<close>.  \<open>set_vch\<close> is exact for operands of up
  to seven bytes; the constructor is called with a limit of four or five.\<close>

datatype scriptnum_error = Script_number_overflow | Non_minimally_encoded

definition nDefaultMaxNumSize :: nat where "nDefaultMaxNumSize = 4"

fun set_vch_loop :: "nat \<Rightarrow> valtype \<Rightarrow> int \<Rightarrow> int" where
  "set_vch_loop i [] result = result"
| "set_vch_loop i (b # bs) result = set_vch_loop (i + 1) bs (result OR push_bit (8 * i) (uint b))"

definition set_vch :: "valtype \<Rightarrow> int" where
  "set_vch vch =
     (if vch = [] then 0
      else let result = set_vch_loop 0 vch 0 in
           if last vch AND 0x80 \<noteq> 0
           then - (result AND NOT (push_bit (8 * (length vch - 1)) 0x80))
           else result)"

definition minimal_num :: "valtype \<Rightarrow> bool" where
  "minimal_num vch \<longleftrightarrow>
     \<not> (length vch > 0 \<and> last vch AND 0x7f = 0
        \<and> (length vch \<le> 1 \<or> vch ! (length vch - 2) AND 0x80 = 0))"

definition CScriptNum_of :: "valtype \<Rightarrow> bool \<Rightarrow> nat \<Rightarrow> scriptnum_error + int" where
  "CScriptNum_of vch fRequireMinimal nMaxNumSize =
     (if length vch > nMaxNumSize then Inl Script_number_overflow
      else if fRequireMinimal \<and> \<not> minimal_num vch then Inl Non_minimally_encoded
      else Inr (set_vch vch))"

fun abs_bytes :: "nat \<Rightarrow> valtype" where
  "abs_bytes absvalue =
     (if absvalue = 0 then [] else of_nat (absvalue mod 256) # abs_bytes (absvalue div 256))"

declare abs_bytes.simps [simp del]

definition serialize :: "int \<Rightarrow> valtype" where
  "serialize value =
     (if value = 0 then []
      else let neg = value < 0; result = abs_bytes (nat (if neg then - value else value)) in
           if last result AND 0x80 \<noteq> 0 then result @ [if neg then 0x80 else 0]
           else if neg then butlast result @ [last result OR 0x80]
           else result)"

definition getint :: "int \<Rightarrow> int" where
  "getint m_value =
     (if m_value > 2147483647 then 2147483647
      else if m_value < - 2147483648 then - 2147483648
      else m_value)"

subsection \<open>Building scripts\<close>

definition WriteLE16 :: "nat \<Rightarrow> byte list" where
  "WriteLE16 x = [of_nat (x mod 256), of_nat (x div 256 mod 256)]"

definition WriteLE32 :: "nat \<Rightarrow> byte list" where
  "WriteLE32 x = [of_nat (x mod 256), of_nat (x div 256 mod 256), of_nat (x div 65536 mod 256),
                  of_nat (x div 16777216 mod 256)]"

definition ReadLE16 :: "byte list \<Rightarrow> nat" where
  "ReadLE16 p = unat (p ! 0) + 256 * unat (p ! 1)"

definition ReadLE32 :: "byte list \<Rightarrow> nat" where
  "ReadLE32 p = unat (p ! 0) + 256 * unat (p ! 1) + 65536 * unat (p ! 2) + 16777216 * unat (p ! 3)"

definition push_op :: "script \<Rightarrow> opcodetype \<Rightarrow> script" where
  "push_op s opcode = s @ [opcode]"

definition push_data :: "script \<Rightarrow> valtype \<Rightarrow> script" where
  "push_data s b =
     (if length b < unat OP_PUSHDATA1 then s @ [of_nat (length b)]
      else if length b \<le> 0xff then s @ [OP_PUSHDATA1, of_nat (length b)]
      else if length b \<le> 0xffff then s @ [OP_PUSHDATA2] @ WriteLE16 (length b)
      else s @ [OP_PUSHDATA4] @ WriteLE32 (length b)) @ b"

definition push_int64 :: "script \<Rightarrow> int \<Rightarrow> script" where
  "push_int64 s n =
     (if n = -1 \<or> (n \<ge> 1 \<and> n \<le> 16) then s @ [of_int (n + (uint OP_1 - 1))]
      else if n = 0 then s @ [OP_0]
      else push_data s (serialize n))"

subsection \<open>Reading scripts\<close>

text \<open>\<open>GetOp2\<close> at the suffix \<open>pc\<close>: whether an instruction was read, \<open>opcodeRet\<close>, \<open>vchRet\<close> and the
  iterator afterwards, which has moved past the opcode and the size even when the read fails.\<close>

definition GetOp_data :: "opcodetype \<Rightarrow> nat \<Rightarrow> script \<Rightarrow> bool \<times> opcodetype \<times> valtype \<times> script" where
  "GetOp_data opcode nSize pc =
     (if length pc < nSize then (False, OP_INVALIDOPCODE, [], pc)
      else (True, opcode, take nSize pc, drop nSize pc))"

definition GetOp :: "script \<Rightarrow> bool \<times> opcodetype \<times> valtype \<times> script" where
  "GetOp pc =
     (case pc of
        [] \<Rightarrow> (False, OP_INVALIDOPCODE, [], [])
      | opcode # pc1 \<Rightarrow>
          if opcode \<le> OP_PUSHDATA4 then
            if opcode < OP_PUSHDATA1 then GetOp_data opcode (unat opcode) pc1
            else if opcode = OP_PUSHDATA1 then
              (if length pc1 < 1 then (False, OP_INVALIDOPCODE, [], pc1)
               else GetOp_data opcode (unat (pc1 ! 0)) (drop 1 pc1))
            else if opcode = OP_PUSHDATA2 then
              (if length pc1 < 2 then (False, OP_INVALIDOPCODE, [], pc1)
               else GetOp_data opcode (ReadLE16 pc1) (drop 2 pc1))
            else
              (if length pc1 < 4 then (False, OP_INVALIDOPCODE, [], pc1)
               else GetOp_data opcode (ReadLE32 pc1) (drop 4 pc1))
          else (True, opcode, [], pc1))"

lemma GetOp_data_length: "GetOp_data op n pc = (r, op', d, pc') \<Longrightarrow> length pc' \<le> length pc"
  by (auto simp: GetOp_data_def split: if_splits)

lemma GetOp_length: "GetOp pc = (r, op, d, pc') \<Longrightarrow> pc \<noteq> [] \<Longrightarrow> length pc' < length pc"
  by (auto simp: GetOp_def split: list.splits if_splits dest!: GetOp_data_length)

lemma GetOp_True_length: "GetOp pc = (True, op, d, pc') \<Longrightarrow> length pc' < length pc"
  by (rule GetOp_length) (auto simp: GetOp_def)

lemma GetOp_True_length': "(True, op, d, pc') = GetOp pc \<Longrightarrow> length pc' < length pc"
  by (rule GetOp_True_length, rule sym)

definition DecodeOP_N :: "opcodetype \<Rightarrow> nat option" where
  "DecodeOP_N opcode =
     (if opcode = OP_0 then Some 0
      else if opcode \<ge> OP_1 \<and> opcode \<le> OP_16 then Some (unat opcode - (unat OP_1 - 1))
      else None)"

definition EncodeOP_N :: "int \<Rightarrow> opcodetype option" where
  "EncodeOP_N n =
     (if n \<ge> 0 \<and> n \<le> 16 then Some (if n = 0 then OP_0 else of_int (uint OP_1 + n - 1)) else None)"

text \<open>The inner loop of \<open>FindAndDelete\<close>: skip every occurrence of \<open>b\<close> that starts at \<open>pc\<close>.\<close>

function skip_matches :: "script \<Rightarrow> script \<Rightarrow> nat \<Rightarrow> script \<times> nat" where
  "skip_matches b pc nFound =
     (if b \<noteq> [] \<and> length pc \<ge> length b \<and> take (length b) pc = b
      then skip_matches b (drop (length b) pc) (nFound + 1) else (pc, nFound))"
  by pat_completeness auto
termination
  by (relation "measure (\<lambda>(b, pc, n). length pc)") (auto simp: diff_less length_greater_0_conv intro!: diff_less)

declare skip_matches.simps [simp del]

lemma skip_matches_length: "skip_matches b pc n = (pc', n') \<Longrightarrow> length pc' \<le> length pc"
proof (induction b pc n rule: skip_matches.induct)
  case (1 b pc n)
  show ?case
  proof (cases "b \<noteq> [] \<and> length pc \<ge> length b \<and> take (length b) pc = b")
    case True
    then have "length pc' \<le> length (drop (length b) pc)"
      using 1(1) 1(2) by (simp add: skip_matches.simps [of b pc])
    then show ?thesis by simp
  next
    case False
    then show ?thesis using 1(2) by (simp only: skip_matches.simps [of b pc]) auto
  qed
qed

text \<open>The outer loop: \<open>pc2\<close> is where the bytes not yet copied begin.\<close>

function find_loop :: "script \<Rightarrow> script \<Rightarrow> script \<Rightarrow> script \<Rightarrow> nat \<Rightarrow> script \<times> script \<times> nat" where
  "find_loop b result pc2 pc nFound =
     (let result' = result @ take (length pc2 - length pc) pc2;
          (pc3, nFound') = skip_matches b pc nFound;
          (ok, opcode, d, pc4) = GetOp pc3
      in if ok then find_loop b result' pc3 pc4 nFound' else (result', pc3, nFound'))"
  by pat_completeness auto
termination
proof (relation "measure (\<lambda>(b, r, pc2, pc, n). length pc)")
  fix b result pc2 pc :: script and nFound result' x pc3 nFound' y ok z opcode w d pc4
  assume "(pc3, nFound') = x" "x = skip_matches b pc nFound"
    "y = GetOp pc3" "(ok, z) = y" "(opcode, w) = z" "(d, pc4) = w" ok
  then have "length pc3 \<le> length pc" "length pc4 < length pc3"
    using skip_matches_length [of b pc nFound pc3 nFound'] GetOp_True_length [of pc3 opcode d pc4] by auto
  then show "((b, result', pc3, pc4, nFound'), (b, result, pc2, pc, nFound)) \<in> measure (\<lambda>(b, r, pc2, pc, n). length pc)"
    by simp
qed simp

declare find_loop.simps [simp del]

definition FindAndDelete :: "script \<Rightarrow> script \<Rightarrow> script \<times> nat" where
  "FindAndDelete s b =
     (if b = [] then (s, 0)
      else let (result, pc2, nFound) = find_loop b [] s s 0
           in if nFound > 0 then (result @ pc2, nFound) else (s, nFound))"

function find_op_loop :: "opcodetype \<Rightarrow> script \<Rightarrow> nat \<Rightarrow> nat" where
  "find_op_loop op pc nFound =
     (case GetOp pc of
        (True, opcode, d, pc') \<Rightarrow> find_op_loop op pc' (if opcode = op then nFound + 1 else nFound)
      | (False, _) \<Rightarrow> nFound)"
  by pat_completeness auto
termination by (relation "measure (\<lambda>(op, pc, n). length pc)") (auto dest: GetOp_True_length')

declare find_op_loop.simps [simp del]

definition Find :: "script \<Rightarrow> opcodetype \<Rightarrow> nat" where
  "Find s op = find_op_loop op s 0"

subsection \<open>Static analyses\<close>

function sigop_loop :: "bool \<Rightarrow> script \<Rightarrow> opcodetype \<Rightarrow> nat \<Rightarrow> nat" where
  "sigop_loop fAccurate pc lastOpcode n =
     (if pc = [] then n
      else case GetOp pc of
        (False, _) \<Rightarrow> n
      | (True, opcode, d, pc') \<Rightarrow>
          sigop_loop fAccurate pc' opcode
            (if opcode = OP_CHECKSIG \<or> opcode = OP_CHECKSIGVERIFY then n + 1
             else if opcode = OP_CHECKMULTISIG \<or> opcode = OP_CHECKMULTISIGVERIFY then
               (if fAccurate \<and> lastOpcode \<ge> OP_1 \<and> lastOpcode \<le> OP_16
                then n + the (DecodeOP_N lastOpcode) else n + MAX_PUBKEYS_PER_MULTISIG)
             else n))"
  by pat_completeness auto
termination by (relation "measure (\<lambda>(f, pc, l, n). length pc)") (auto dest: GetOp_True_length')

declare sigop_loop.simps [simp del]

definition GetSigOpCount :: "script \<Rightarrow> bool \<Rightarrow> nat" where
  "GetSigOpCount s fAccurate = sigop_loop fAccurate s OP_INVALIDOPCODE 0"

definition IsPayToScriptHash :: "script \<Rightarrow> bool" where
  "IsPayToScriptHash s \<longleftrightarrow>
     length s = 23 \<and> s ! 0 = OP_HASH160 \<and> s ! 1 = 0x14 \<and> s ! 22 = OP_EQUAL"

text \<open>The last item that \<open>scriptSig\<close> pushes; \<open>None\<close> is the early return on a failed read or on an
  opcode that is not a push.\<close>

function last_push :: "script \<Rightarrow> valtype \<Rightarrow> valtype option" where
  "last_push pc vch =
     (if pc = [] then Some vch
      else case GetOp pc of
        (False, _) \<Rightarrow> None
      | (True, opcode, d, pc') \<Rightarrow> if opcode > OP_16 then None else last_push pc' d)"
  by pat_completeness auto
termination by (relation "measure (\<lambda>(pc, d). length pc)") (auto dest: GetOp_True_length')

declare last_push.simps [simp del]

definition GetSigOpCount_P2SH :: "script \<Rightarrow> script \<Rightarrow> nat" where
  "GetSigOpCount_P2SH s scriptSig =
     (if \<not> IsPayToScriptHash s then GetSigOpCount s True
      else case last_push scriptSig [] of None \<Rightarrow> 0 | Some subscript \<Rightarrow> GetSigOpCount subscript True)"

function normal_payment_loop :: "script \<Rightarrow> nat \<Rightarrow> bool" where
  "normal_payment_loop pc i =
     (if pc = [] then True
      else let (ok, opcode, d, pc') = GetOp pc in
           if i = 0 \<and> opcode \<noteq> OP_DUP then False
           else if i = 1 \<and> opcode \<noteq> OP_HASH160 then False
           else if i = 3 \<and> opcode \<noteq> OP_EQUALVERIFY then False
           else if i = 4 \<and> opcode \<noteq> OP_CHECKSIG then False
           else if i = 5 then False
           else normal_payment_loop pc' (i + 1))"
  by pat_completeness auto
termination
  by (relation "measure (\<lambda>(pc, i). length pc)") (auto dest!: sym [of _ "GetOp _"] GetOp_length)

declare normal_payment_loop.simps [simp del]

definition IsNormalPaymentScript :: "script \<Rightarrow> bool" where
  "IsNormalPaymentScript s \<longleftrightarrow> length s = 25 \<and> normal_payment_loop s 0"

definition IsPayToPublicKeyHash :: "script \<Rightarrow> bool" where
  "IsPayToPublicKeyHash s \<longleftrightarrow>
     length s = 25 \<and> s ! 0 = OP_DUP \<and> s ! 1 = OP_HASH160 \<and> s ! 2 = 0x14
     \<and> s ! 23 = OP_EQUALVERIFY \<and> s ! 24 = OP_CHECKSIG"

function IsPushOnly :: "script \<Rightarrow> bool" where
  "IsPushOnly pc =
     (if pc = [] then True
      else case GetOp pc of
        (False, _) \<Rightarrow> False
      | (True, opcode, d, pc') \<Rightarrow> if opcode > OP_16 then False else IsPushOnly pc')"
  by pat_completeness auto
termination by (relation "measure length") (auto dest: GetOp_True_length')

declare IsPushOnly.simps [simp del]

definition IsUnspendable :: "script \<Rightarrow> bool" where
  "IsUnspendable s \<longleftrightarrow> length s > 0 \<and> s ! 0 = OP_RETURN"

end
