(* ===== verification/Amount.thy ===== *)
theory Amount
  imports Zumy_Prelude
begin

text \<open>
  Amounts and fee rates (src/src/amount.h, src/src/amount.cpp): the money range and the class
  \<open>CFeeRate\<close>.  A \<open>None\<close> result is a failed \<open>assert\<close> or a signed overflow.
\<close>

type_synonym CAmount = int

definition COIN :: CAmount where "COIN = 100000000"

definition MAX_MONEY :: CAmount where "MAX_MONEY = 1261440000000000"

definition MoneyRange :: "CAmount \<Rightarrow> bool" where
  "MoneyRange nValue \<longleftrightarrow> nValue \<ge> 0 \<and> nValue \<le> MAX_MONEY"

record CFeeRate =
  nSatoshisPerK :: CAmount

definition CFeeRate_paid :: "CAmount \<Rightarrow> nat \<Rightarrow> CFeeRate option" where
  "CFeeRate_paid nFeePaid nBytes =
     (if int nBytes \<le> INT64_MAX
      then let nSize = int nBytes in
           if nSize > 0
           then map_option (\<lambda>p. \<lparr>nSatoshisPerK = p sdiv nSize\<rparr>) (i64 (nFeePaid * 1000))
           else Some \<lparr>nSatoshisPerK = 0\<rparr>
      else None)"

definition GetFee :: "CFeeRate \<Rightarrow> nat \<Rightarrow> CAmount option" where
  "GetFee r nBytes =
     (if int nBytes \<le> INT64_MAX
      then let nSize = int nBytes in
           case i64 (nSatoshisPerK r * nSize) of
             None \<Rightarrow> None
           | Some p \<Rightarrow>
               (let nFee = p sdiv 1000 in
                if nFee = 0 \<and> nSize \<noteq> 0
                then if nSatoshisPerK r > 0 then Some 1
                     else if nSatoshisPerK r < 0 then Some (-1) else Some nFee
                else Some nFee)
      else None)"

definition GetFeePerK :: "CFeeRate \<Rightarrow> CAmount option" where
  "GetFeePerK r = GetFee r 1000"

subsection \<open>Behaviour of fee rates\<close>

lemma GetFee_nonneg:
  assumes "0 \<le> nSatoshisPerK r" and "int n \<le> INT64_MAX" and "in_i64 (nSatoshisPerK r * int n)"
  shows "GetFee r n =
    Some (if n = 0 \<or> nSatoshisPerK r = 0 then 0 else max 1 (nSatoshisPerK r * int n div 1000))"
proof -
  let ?p = "nSatoshisPerK r * int n"
  have div: "?p sdiv 1000 = ?p div 1000"
    using assms(1) by (simp add: sdiv_nonneg)
  have nonneg: "0 \<le> ?p div 1000"
    using assms(1) by (simp add: pos_imp_zdiv_nonneg_iff)
  show ?thesis
    using assms nonneg by (auto simp: GetFee_def i64_def div Let_def)
qed

lemma CFeeRate_paid_Some:
  assumes "CFeeRate_paid fee n = Some r" and "0 < n"
  shows "int n \<le> INT64_MAX" and "in_i64 (fee * 1000)"
    and "nSatoshisPerK r = (fee * 1000) sdiv int n"
  using assms by (auto simp: CFeeRate_paid_def Let_def split: if_splits)

text \<open>A fee rate computed from a fee paid for a transaction of some size never asks, for that
  same size, more than the fee that was paid, never loses more than the rounding of one division
  per 1000 bytes, and its evaluation neither overflows nor trips the assertion.
\<close>

theorem CFeeRate_roundtrip:
  assumes "0 \<le> fee" and "0 < n" and "CFeeRate_paid fee n = Some r"
  shows "\<exists>f. GetFee r n = Some f \<and> 0 \<le> f \<and> f \<le> fee \<and> fee * 1000 < (f + 1) * 1000 + int n"
proof -
  define q where "q = (fee * 1000) div int n"
  have rate: "nSatoshisPerK r = q"
    using CFeeRate_paid_Some(3) [OF assms(3,2)] assms(1,2) by (simp add: q_def sdiv_nonneg)
  have q0: "0 \<le> q"
    using assms(1,2) by (simp add: q_def pos_imp_zdiv_nonneg_iff)
  have le: "q * int n \<le> fee * 1000" and gt: "fee * 1000 < q * int n + int n"
    using assms(2) div_mult_mod_eq [of "fee * 1000" "int n"]
      pos_mod_bound [of "int n" "fee * 1000"] pos_mod_sign [of "int n" "fee * 1000"]
    unfolding q_def by linarith+
  have ok: "in_i64 (q * int n)"
    using le q0 CFeeRate_paid_Some(2) [OF assms(3,2)]
    by (auto simp: i64_bounds intro: order_trans [of _ 0])
  have f: "GetFee r n = Some (if q = 0 then 0 else max 1 (q * int n div 1000))"
    using GetFee_nonneg [of r n] rate q0 ok CFeeRate_paid_Some(1) [OF assms(3,2)] assms(2) by simp
  show ?thesis
  proof (cases "q = 0")
    case True
    then show ?thesis using f gt assms(1) by auto
  next
    case False
    then have "1 * int n \<le> q * int n"
      using q0 by (intro mult_right_mono) auto
    then have "1 \<le> fee" using le assms(2) by linarith
    then show ?thesis using f False le gt by (auto simp: max_def)
  qed
qed

theorem CFeeRate_roundtrip_witness:
  "\<exists>f. GetFee \<lparr>nSatoshisPerK = 44247\<rparr> 226 = Some f \<and> 0 \<le> f \<and> f \<le> 10000
     \<and> 10000 * 1000 < (f + 1) * 1000 + int 226"
  using CFeeRate_roundtrip [of 10000 226 "\<lparr>nSatoshisPerK = 44247\<rparr>"]
  by (simp add: CFeeRate_paid_def i64_def i64_bounds signed_divide_int_def)

end
