(* ===== verification/Transaction.thy ===== *)
theory Transaction
  imports Serialize Script Amount "HOL-Library.List_Lexorder"
begin

text \<open>
  Transactions and block headers (src/src/primitives/transaction.h, transaction.cpp, block.h): the
  data, its order and its wire format.  The cached \<open>hash\<close> of a \<open>CTransaction\<close> is recomputed whenever the
  other fields are set, so it is not a field here: \<open>GetHash\<close> applies the double-SHA256 \<open>H\<close>, a
  parameter, to the serialization.
\<close>

subsection \<open>Outpoints, inputs and outputs\<close>

datatype COutPoint = COutPoint (prev_hash: uint256) (prev_n: u32)

definition COutPoint_null :: COutPoint where
  "COutPoint_null = COutPoint 0 0xffffffff"

definition COutPoint_IsNull :: "COutPoint \<Rightarrow> bool" where
  "COutPoint_IsNull p \<longleftrightarrow> prev_hash p = 0 \<and> prev_n p = 0xffffffff"

text \<open>\<open>operator<\<close> of \<open>uint256\<close> is \<open>memcmp\<close> on its bytes.\<close>

definition uint256_less :: "uint256 \<Rightarrow> uint256 \<Rightarrow> bool" where
  "uint256_less a b \<longleftrightarrow> ser_uint256 a < ser_uint256 b"

definition COutPoint_less :: "COutPoint \<Rightarrow> COutPoint \<Rightarrow> bool" where
  "COutPoint_less a b \<longleftrightarrow>
     uint256_less (prev_hash a) (prev_hash b) \<or> (prev_hash a = prev_hash b \<and> prev_n a < prev_n b)"

lemma ser_uint256_inject: "ser_uint256 a = ser_uint256 b \<longleftrightarrow> a = b"
  by (rule c_u256.ser_inject) simp_all

instantiation COutPoint :: linorder
begin

definition less_COutPoint :: "COutPoint \<Rightarrow> COutPoint \<Rightarrow> bool" where
  "less_COutPoint a b = COutPoint_less a b"

definition less_eq_COutPoint :: "COutPoint \<Rightarrow> COutPoint \<Rightarrow> bool" where
  "less_eq_COutPoint a b \<longleftrightarrow> COutPoint_less a b \<or> a = b"

instance
proof
  fix x y z :: COutPoint
  show "x < y \<longleftrightarrow> x \<le> y \<and> \<not> y \<le> x"
    by (cases x; cases y)
      (auto simp: less_COutPoint_def less_eq_COutPoint_def COutPoint_less_def uint256_less_def)
  show "x \<le> x" by (simp add: less_eq_COutPoint_def)
  show "x \<le> y \<Longrightarrow> y \<le> z \<Longrightarrow> x \<le> z"
    by (auto simp: less_eq_COutPoint_def COutPoint_less_def uint256_less_def)
  show "x \<le> y \<Longrightarrow> y \<le> x \<Longrightarrow> x = y"
    by (auto simp: less_eq_COutPoint_def COutPoint_less_def uint256_less_def)
  show "x \<le> y \<or> y \<le> x"
    using ser_uint256_inject [of "prev_hash x" "prev_hash y"]
    by (cases x; cases y) (auto simp: less_eq_COutPoint_def COutPoint_less_def uint256_less_def)
qed

end

definition ser_COutPoint :: "COutPoint \<Rightarrow> byte list" where
  "ser_COutPoint p = ser_uint256 (prev_hash p) @ ser_writedata32 (prev_n p)"

definition unser_COutPoint :: "COutPoint reader" where
  "unser_COutPoint s = Option.bind (unser_uint256 s) (\<lambda>(h, r).
     map_option (\<lambda>(n, r'). (COutPoint h n, r')) (ser_readdata32 r))"

record CTxIn =
  txin_prevout :: COutPoint
  txin_scriptSig :: script
  txin_nSequence :: u32
  txin_prevPubKey :: script

definition SEQUENCE_FINAL :: u32 where "SEQUENCE_FINAL = 0xffffffff"
definition SEQUENCE_LOCKTIME_DISABLE_FLAG :: u32 where "SEQUENCE_LOCKTIME_DISABLE_FLAG = push_bit 31 1"
definition SEQUENCE_LOCKTIME_TYPE_FLAG :: u32 where "SEQUENCE_LOCKTIME_TYPE_FLAG = push_bit 22 1"
definition SEQUENCE_LOCKTIME_MASK :: u32 where "SEQUENCE_LOCKTIME_MASK = 0x0000ffff"
definition SEQUENCE_LOCKTIME_GRANULARITY :: nat where "SEQUENCE_LOCKTIME_GRANULARITY = 9"

definition mk_CTxIn :: "COutPoint \<Rightarrow> script \<Rightarrow> u32 \<Rightarrow> CTxIn" where
  "mk_CTxIn prevout sig nSeq = \<lparr> txin_prevout = prevout, txin_scriptSig = sig, txin_nSequence = nSeq,
     txin_prevPubKey = [] \<rparr>"

text \<open>The fields that \<open>operator==\<close> compares and the wire format carries.\<close>

definition CTxIn_eq :: "CTxIn \<Rightarrow> CTxIn \<Rightarrow> bool" where
  "CTxIn_eq a b \<longleftrightarrow> txin_prevout a = txin_prevout b \<and> txin_scriptSig a = txin_scriptSig b
     \<and> txin_nSequence a = txin_nSequence b"

definition ser_CTxIn :: "CTxIn \<Rightarrow> byte list" where
  "ser_CTxIn i = ser_COutPoint (txin_prevout i) @ ser_bytes (txin_scriptSig i) @ ser_writedata32 (txin_nSequence i)"

definition unser_CTxIn :: "CTxIn reader" where
  "unser_CTxIn s = Option.bind (unser_COutPoint s) (\<lambda>(p, r).
     Option.bind (unser_bytes r) (\<lambda>(sig, r').
     map_option (\<lambda>(q, r''). (mk_CTxIn p sig q, r'')) (ser_readdata32 r')))"

definition txin_size :: "CTxIn \<Rightarrow> nat" where
  "txin_size i = 36 + bytes_size (txin_scriptSig i) + 4"

record CTxOut =
  txout_nValue :: CAmount
  txout_scriptPubKey :: script
  txout_nRounds :: int

definition CTxOut_null :: CTxOut where
  "CTxOut_null = \<lparr> txout_nValue = -1, txout_scriptPubKey = [], txout_nRounds = -10 \<rparr>"

definition CTxOut_IsNull :: "CTxOut \<Rightarrow> bool" where
  "CTxOut_IsNull o' \<longleftrightarrow> txout_nValue o' = -1"

definition mk_CTxOut :: "CAmount \<Rightarrow> script \<Rightarrow> CTxOut" where
  "mk_CTxOut v pk = \<lparr> txout_nValue = v, txout_scriptPubKey = pk, txout_nRounds = -10 \<rparr>"

definition ser_CTxOut :: "CTxOut \<Rightarrow> byte list" where
  "ser_CTxOut o' = ser_int64 (txout_nValue o') @ ser_bytes (txout_scriptPubKey o')"

definition unser_CTxOut :: "CTxOut reader" where
  "unser_CTxOut s = Option.bind (unser_int64 s) (\<lambda>(v, r).
     map_option (\<lambda>(pk, r'). (mk_CTxOut v pk, r')) (unser_bytes r))"

definition txout_size :: "CTxOut \<Rightarrow> nat" where
  "txout_size o' = 8 + bytes_size (txout_scriptPubKey o')"

text \<open>\<open>None\<close> is a signed overflow.\<close>

definition GetDustThreshold :: "CTxOut \<Rightarrow> CFeeRate \<Rightarrow> CAmount option" where
  "GetDustThreshold o' minRelayTxFee =
     (if IsUnspendable (txout_scriptPubKey o') then Some 0
      else let nSize = txout_size o' + 148 in
           Option.bind (GetFee minRelayTxFee nSize) (\<lambda>f. i64 (3 * f)))"

definition IsDust :: "CTxOut \<Rightarrow> CFeeRate \<Rightarrow> bool option" where
  "IsDust o' minRelayTxFee = map_option (\<lambda>t. txout_nValue o' < t) (GetDustThreshold o' minRelayTxFee)"

subsection \<open>Transactions\<close>

record CTransaction =
  tx_nVersion :: int
  tx_vin :: "CTxIn list"
  tx_vout :: "CTxOut list"
  tx_nLockTime :: u32

definition ser_CTransaction :: "CTransaction \<Rightarrow> byte list" where
  "ser_CTransaction tx = ser_int32 (tx_nVersion tx) @ ser_vec ser_CTxIn (tx_vin tx)
     @ ser_vec ser_CTxOut (tx_vout tx) @ ser_writedata32 (tx_nLockTime tx)"

definition unser_CTransaction :: "CTransaction reader" where
  "unser_CTransaction s = Option.bind (unser_int32 s) (\<lambda>(v, r).
     Option.bind (unser_vec unser_CTxIn r) (\<lambda>(ins, r1).
     Option.bind (unser_vec unser_CTxOut r1) (\<lambda>(outs, r2).
     map_option (\<lambda>(lt, r3). (\<lparr> tx_nVersion = v, tx_vin = ins, tx_vout = outs, tx_nLockTime = lt \<rparr>, r3))
       (ser_readdata32 r2))))"

definition tx_size :: "CTransaction \<Rightarrow> nat" where
  "tx_size tx = 4 + vec_size txin_size (tx_vin tx) + vec_size txout_size (tx_vout tx) + 4"

definition tx_GetHash :: "(byte list \<Rightarrow> uint256) \<Rightarrow> CTransaction \<Rightarrow> uint256" where
  "tx_GetHash H tx = H (ser_CTransaction tx)"

definition tx_IsNull :: "CTransaction \<Rightarrow> bool" where
  "tx_IsNull tx \<longleftrightarrow> tx_vin tx = [] \<and> tx_vout tx = []"

definition IsCoinBase :: "CTransaction \<Rightarrow> bool" where
  "IsCoinBase tx \<longleftrightarrow> length (tx_vin tx) = 1 \<and> COutPoint_IsNull (txin_prevout (tx_vin tx ! 0))"

datatype value_error = value_overflow | value_out_of_range

text \<open>The sum is formed before it is checked, so a value close to \<open>2\<^sup>63\<close> overflows first.\<close>

fun value_out_loop :: "CTxOut list \<Rightarrow> CAmount \<Rightarrow> value_error + CAmount" where
  "value_out_loop [] nValueOut = Inr nValueOut"
| "value_out_loop (o' # os) nValueOut =
     (case i64 (nValueOut + txout_nValue o') of
        None \<Rightarrow> Inl value_overflow
      | Some n \<Rightarrow>
          if \<not> MoneyRange (txout_nValue o') \<or> \<not> MoneyRange n then Inl value_out_of_range
          else value_out_loop os n)"

definition GetValueOut :: "CTransaction \<Rightarrow> value_error + CAmount" where
  "GetValueOut tx = value_out_loop (tx_vout tx) 0"

text \<open>Sizes are 32-bit in the code; a transaction that passed the size check is far below.\<close>

fun modified_size_loop :: "CTxIn list \<Rightarrow> nat \<Rightarrow> nat" where
  "modified_size_loop [] nTxSize = nTxSize"
| "modified_size_loop (i # is) nTxSize =
     (let offset = 41 + min 110 (length (txin_scriptSig i)) in
      modified_size_loop is (if nTxSize > offset then nTxSize - offset else nTxSize))"

definition CalculateModifiedSize :: "CTransaction \<Rightarrow> nat \<Rightarrow> nat" where
  "CalculateModifiedSize tx nTxSize =
     modified_size_loop (tx_vin tx) (if nTxSize = 0 then tx_size tx else nTxSize)"

subsection \<open>Block headers and blocks\<close>

record CBlockHeader =
  hdr_nVersion :: int
  hdr_hashPrevBlock :: uint256
  hdr_hashMerkleRoot :: uint256
  hdr_nTime :: u32
  hdr_nBits :: u32
  hdr_nNonce :: u32

definition ser_CBlockHeader :: "CBlockHeader \<Rightarrow> byte list" where
  "ser_CBlockHeader h = ser_int32 (hdr_nVersion h) @ ser_uint256 (hdr_hashPrevBlock h)
     @ ser_uint256 (hdr_hashMerkleRoot h) @ ser_writedata32 (hdr_nTime h) @ ser_writedata32 (hdr_nBits h)
     @ ser_writedata32 (hdr_nNonce h)"

definition unser_CBlockHeader :: "CBlockHeader reader" where
  "unser_CBlockHeader s = Option.bind (unser_int32 s) (\<lambda>(v, r).
     Option.bind (unser_uint256 r) (\<lambda>(p, r1). Option.bind (unser_uint256 r1) (\<lambda>(m, r2).
     Option.bind (ser_readdata32 r2) (\<lambda>(t, r3). Option.bind (ser_readdata32 r3) (\<lambda>(b, r4).
     map_option (\<lambda>(n, r5). (\<lparr> hdr_nVersion = v, hdr_hashPrevBlock = p, hdr_hashMerkleRoot = m,
       hdr_nTime = t, hdr_nBits = b, hdr_nNonce = n \<rparr>, r5)) (ser_readdata32 r4))))))"

definition CBlockHeader_null :: CBlockHeader where
  "CBlockHeader_null = \<lparr> hdr_nVersion = 0, hdr_hashPrevBlock = 0, hdr_hashMerkleRoot = 0,
     hdr_nTime = 0, hdr_nBits = 0, hdr_nNonce = 0 \<rparr>"

definition CBlockHeader_IsNull :: "CBlockHeader \<Rightarrow> bool" where
  "CBlockHeader_IsNull h \<longleftrightarrow> hdr_nBits h = 0"

record CBlock =
  blk_header :: CBlockHeader
  blk_vtx :: "CTransaction list"

definition ser_CBlock :: "CBlock \<Rightarrow> byte list" where
  "ser_CBlock b = ser_CBlockHeader (blk_header b) @ ser_vec ser_CTransaction (blk_vtx b)"

definition unser_CBlock :: "CBlock reader" where
  "unser_CBlock s = Option.bind (unser_CBlockHeader s) (\<lambda>(h, r).
     map_option (\<lambda>(txs, r'). (\<lparr> blk_header = h, blk_vtx = txs \<rparr>, r')) (unser_vec unser_CTransaction r))"

definition block_size :: "CBlock \<Rightarrow> nat" where
  "block_size b = 80 + vec_size tx_size (blk_vtx b)"

subsection \<open>The wire format is faithful\<close>

interpretation c_outpoint: sized_codec ser_COutPoint unser_COutPoint "\<lambda>_. True" "\<lambda>_. 36"
  by unfold_locales
    (simp_all add: ser_COutPoint_def unser_COutPoint_def c_u256.unser_ser c_u32.unser_ser
      c_u256.length_ser c_u32.length_ser)

definition good_txin :: "CTxIn \<Rightarrow> bool" where
  "good_txin i \<longleftrightarrow> length (txin_scriptSig i) \<le> MAX_SIZE \<and> txin_prevPubKey i = []"

definition good_txout :: "CTxOut \<Rightarrow> bool" where
  "good_txout o' \<longleftrightarrow> in_i64 (txout_nValue o') \<and> length (txout_scriptPubKey o') \<le> MAX_SIZE \<and> txout_nRounds o' = -10"

definition good_tx :: "CTransaction \<Rightarrow> bool" where
  "good_tx tx \<longleftrightarrow> in_i32 (tx_nVersion tx) \<and> good_vec good_txin (tx_vin tx) \<and> good_vec good_txout (tx_vout tx)"

definition good_header :: "CBlockHeader \<Rightarrow> bool" where
  "good_header h \<longleftrightarrow> in_i32 (hdr_nVersion h)"

definition good_block :: "CBlock \<Rightarrow> bool" where
  "good_block b \<longleftrightarrow> good_header (blk_header b) \<and> good_vec good_tx (blk_vtx b)"

interpretation c_txin: sized_codec ser_CTxIn unser_CTxIn good_txin txin_size
  by unfold_locales
    (simp_all add: ser_CTxIn_def unser_CTxIn_def mk_CTxIn_def good_txin_def txin_size_def c_outpoint.unser_ser
      c_bytes.unser_ser c_u32.unser_ser c_outpoint.length_ser c_bytes.length_ser c_u32.length_ser)

interpretation c_txout: sized_codec ser_CTxOut unser_CTxOut good_txout txout_size
  by unfold_locales
    (simp_all add: ser_CTxOut_def unser_CTxOut_def mk_CTxOut_def good_txout_def txout_size_def c_i64.unser_ser
      c_bytes.unser_ser c_i64.length_ser c_bytes.length_ser)

interpretation c_vin: sized_codec "ser_vec ser_CTxIn" "unser_vec unser_CTxIn" "good_vec good_txin" "vec_size txin_size"
  by (rule c_txin.vec_codec)

interpretation c_vout: sized_codec "ser_vec ser_CTxOut" "unser_vec unser_CTxOut" "good_vec good_txout" "vec_size txout_size"
  by (rule c_txout.vec_codec)

interpretation c_tx: sized_codec ser_CTransaction unser_CTransaction good_tx tx_size
  by unfold_locales
    (simp_all add: ser_CTransaction_def unser_CTransaction_def good_tx_def tx_size_def c_i32.unser_ser
      c_vin.unser_ser c_vout.unser_ser c_u32.unser_ser c_i32.length_ser c_vin.length_ser c_vout.length_ser
      c_u32.length_ser)

interpretation c_vtx: sized_codec "ser_vec ser_CTransaction" "unser_vec unser_CTransaction" "good_vec good_tx" "vec_size tx_size"
  by (rule c_tx.vec_codec)

interpretation c_header: sized_codec ser_CBlockHeader unser_CBlockHeader good_header "\<lambda>_. 80"
  by unfold_locales
    (simp_all add: ser_CBlockHeader_def unser_CBlockHeader_def good_header_def c_i32.unser_ser c_u256.unser_ser
      c_u32.unser_ser c_i32.length_ser c_u256.length_ser c_u32.length_ser)

interpretation c_block: sized_codec ser_CBlock unser_CBlock good_block block_size
  by unfold_locales
    (simp_all add: ser_CBlock_def unser_CBlock_def good_block_def block_size_def c_header.unser_ser
      c_vtx.unser_ser c_header.length_ser c_vtx.length_ser)

text \<open>C34: a block that fits the format is read back from its serialization, whatever follows it in the
  stream; the size computed by \<open>GetSerializeSize\<close> is the number of bytes written; and two blocks
  with the same serialization are equal.\<close>

theorem block_wire_roundtrip:
  assumes "good_block b" "good_block b'"
  shows "unser_CBlock (ser_CBlock b @ rest) = Some (b, rest)
    \<and> length (ser_CBlock b) = block_size b \<and> (ser_CBlock b = ser_CBlock b' \<longleftrightarrow> b = b')"
  using assms by (simp add: c_block.unser_ser c_block.length_ser c_block.ser_inject)

theorem block_wire_roundtrip_witness:
  "unser_CBlock (ser_CBlock \<lparr> blk_header = CBlockHeader_null, blk_vtx =
      [\<lparr> tx_nVersion = 1, tx_vin = [mk_CTxIn COutPoint_null [1, 2] SEQUENCE_FINAL],
         tx_vout = [mk_CTxOut 500 [OP_RETURN]], tx_nLockTime = 7 \<rparr>] \<rparr> @ [9])
   = Some (\<lparr> blk_header = CBlockHeader_null, blk_vtx =
      [\<lparr> tx_nVersion = 1, tx_vin = [mk_CTxIn COutPoint_null [1, 2] SEQUENCE_FINAL],
         tx_vout = [mk_CTxOut 500 [OP_RETURN]], tx_nLockTime = 7 \<rparr>] \<rparr>, [9])"
proof -
  have "good_block \<lparr> blk_header = CBlockHeader_null, blk_vtx =
      [\<lparr> tx_nVersion = 1, tx_vin = [mk_CTxIn COutPoint_null [1, 2] SEQUENCE_FINAL],
         tx_vout = [mk_CTxOut 500 [OP_RETURN]], tx_nLockTime = 7 \<rparr>] \<rparr>"
    by (simp add: good_block_def good_header_def good_vec_def good_tx_def good_txin_def good_txout_def
        CBlockHeader_null_def mk_CTxIn_def mk_CTxOut_def MAX_SIZE_def in_i32_def i64_bounds)
  from block_wire_roundtrip [OF this this, of "[9]"] show ?thesis by simp
qed

subsection \<open>Values\<close>

lemma MoneyRange_in_i64: "MoneyRange a \<Longrightarrow> MoneyRange b \<Longrightarrow> in_i64 (a + b)"
  by (simp add: MoneyRange_def MAX_MONEY_def i64_bounds)

lemma value_out_loop_Inr:
  "MoneyRange n \<Longrightarrow> value_out_loop os n = Inr v \<longleftrightarrow>
     (\<forall>o'\<in>set os. MoneyRange (txout_nValue o')) \<and> MoneyRange (n + sum_list (map txout_nValue os))
     \<and> v = n + sum_list (map txout_nValue os)"
proof (induction os arbitrary: n)
  case (Cons o' os)
  have nonneg: "(\<forall>o'\<in>set os. MoneyRange (txout_nValue o')) \<Longrightarrow> 0 \<le> sum_list (map txout_nValue os)"
    by (rule sum_list_nonneg) (auto simp: MoneyRange_def)
  show ?case
  proof (cases "MoneyRange (txout_nValue o') \<and> MoneyRange (n + txout_nValue o')")
    case True
    then show ?thesis using Cons MoneyRange_in_i64 [of n "txout_nValue o'"]
      by (auto simp: add.assoc i64_def)
  next
    case False
    then have "\<not> ((\<forall>x\<in>set (o' # os). MoneyRange (txout_nValue x))
        \<and> MoneyRange (n + sum_list (map txout_nValue (o' # os))))"
      using nonneg Cons(2) by (auto simp: MoneyRange_def)
    then show ?thesis using False by (auto split: option.splits)
  qed
qed auto

lemma GetValueOut_Inr:
  "GetValueOut tx = Inr v \<longleftrightarrow> (\<forall>o'\<in>set (tx_vout tx). MoneyRange (txout_nValue o'))
     \<and> MoneyRange v \<and> v = sum_list (map txout_nValue (tx_vout tx))"
  using value_out_loop_Inr [of 0 "tx_vout tx" v]
  by (auto simp: GetValueOut_def MoneyRange_def MAX_MONEY_def)

end
