(* ===== verification/Tx_Check.thy ===== *)
theory Tx_Check
  imports Transaction Chain_Props
begin

unbundle bit_operations_syntax

text \<open>
  Context-free and lock-time checks of transactions (src/src/main.cpp) and the record of a validation
  result (src/src/consensus/validation.h).
\<close>

subsection \<open>Validation results\<close>

datatype mode_state = MODE_VALID | MODE_INVALID | MODE_ERROR

record CValidationState =
  vs_mode :: mode_state
  vs_nDoS :: int
  vs_strRejectReason :: string
  vs_chRejectCode :: nat
  vs_corruptionPossible :: bool
  vs_strDebugMessage :: string

definition REJECT_MALFORMED :: nat where "REJECT_MALFORMED = 0x01"
definition REJECT_INVALID :: nat where "REJECT_INVALID = 0x10"
definition REJECT_OBSOLETE :: nat where "REJECT_OBSOLETE = 0x11"
definition REJECT_DUPLICATE :: nat where "REJECT_DUPLICATE = 0x12"
definition REJECT_NONSTANDARD :: nat where "REJECT_NONSTANDARD = 0x40"
definition REJECT_CHECKPOINT :: nat where "REJECT_CHECKPOINT = 0x43"

definition CValidationState_init :: CValidationState where
  "CValidationState_init = \<lparr> vs_mode = MODE_VALID, vs_nDoS = 0, vs_strRejectReason = [], vs_chRejectCode = 0,
     vs_corruptionPossible = False, vs_strDebugMessage = [] \<rparr>"

definition DoS :: "CValidationState \<Rightarrow> int \<Rightarrow> nat \<Rightarrow> string \<Rightarrow> bool \<Rightarrow> string \<Rightarrow> CValidationState" where
  "DoS st level code reason corruption dbg =
     (let st1 = st \<lparr> vs_chRejectCode := code, vs_strRejectReason := reason, vs_corruptionPossible := corruption,
                     vs_strDebugMessage := dbg \<rparr>
      in if vs_mode st = MODE_ERROR then st1
         else st1 \<lparr> vs_nDoS := vs_nDoS st + level, vs_mode := MODE_INVALID \<rparr>)"

definition Invalid :: "CValidationState \<Rightarrow> nat \<Rightarrow> string \<Rightarrow> string \<Rightarrow> CValidationState" where
  "Invalid st code reason dbg = DoS st 0 code reason False dbg"

definition Error_state :: "CValidationState \<Rightarrow> string \<Rightarrow> CValidationState" where
  "Error_state st reason =
     (if vs_mode st = MODE_VALID then st \<lparr> vs_strRejectReason := reason, vs_mode := MODE_ERROR \<rparr>
      else st \<lparr> vs_mode := MODE_ERROR \<rparr>)"

definition IsInvalid :: "CValidationState \<Rightarrow> bool" where
  "IsInvalid st \<longleftrightarrow> vs_mode st = MODE_INVALID"

definition IsInvalid_dos :: "CValidationState \<Rightarrow> int option" where
  "IsInvalid_dos st = (if IsInvalid st then Some (vs_nDoS st) else None)"

text \<open>A check returns the value of the function and the state it leaves.\<close>

type_synonym check_result = "bool \<times> CValidationState"

definition reject :: "CValidationState \<Rightarrow> int \<Rightarrow> string \<Rightarrow> check_result" where
  "reject st level reason = (False, DoS st level REJECT_INVALID reason False [])"

subsection \<open>Checks that need no context\<close>

definition MAX_BLOCK_SIZE :: nat where "MAX_BLOCK_SIZE = 4194304"
definition MAX_BLOCK_SIGOPS :: nat where "MAX_BLOCK_SIGOPS = MAX_BLOCK_SIZE div 50"
definition COINBASE_MATURITY :: int where "COINBASE_MATURITY = 10"

text \<open>The loop over the outputs; both values are in range when they are added.\<close>

fun check_outputs :: "CTxOut list \<Rightarrow> CAmount \<Rightarrow> (int \<times> string) option" where
  "check_outputs [] nValueOut = None"
| "check_outputs (o' # os) nValueOut =
     (if txout_nValue o' < 0 then Some (100, ''bad-txns-vout-negative'')
      else if txout_nValue o' > MAX_MONEY then Some (100, ''bad-txns-vout-toolarge'')
      else if \<not> MoneyRange (nValueOut + txout_nValue o') then Some (100, ''bad-txns-txouttotal-toolarge'')
      else check_outputs os (nValueOut + txout_nValue o'))"

fun check_inputs_distinct :: "CTxIn list \<Rightarrow> COutPoint set \<Rightarrow> (int \<times> string) option" where
  "check_inputs_distinct [] vInOutPoints = None"
| "check_inputs_distinct (i # is) vInOutPoints =
     (if txin_prevout i \<in> vInOutPoints then Some (100, ''bad-txns-inputs-duplicate'')
      else check_inputs_distinct is (insert (txin_prevout i) vInOutPoints))"

fun check_inputs_null :: "CTxIn list \<Rightarrow> (int \<times> string) option" where
  "check_inputs_null [] = None"
| "check_inputs_null (i # is) =
     (if COutPoint_IsNull (txin_prevout i) then Some (10, ''bad-txns-prevout-null'') else check_inputs_null is)"

definition CheckTransaction :: "CTransaction \<Rightarrow> CValidationState \<Rightarrow> check_result" where
  "CheckTransaction tx st =
     (if tx_vin tx = [] then reject st 10 ''bad-txns-vin-empty''
      else if tx_vout tx = [] then reject st 10 ''bad-txns-vout-empty''
      else if tx_size tx > MAX_BLOCK_SIZE then reject st 100 ''bad-txns-oversize''
      else case check_outputs (tx_vout tx) 0 of
        Some (level, reason) \<Rightarrow> reject st level reason
      | None \<Rightarrow>
         (case check_inputs_distinct (tx_vin tx) {} of
            Some (level, reason) \<Rightarrow> reject st level reason
          | None \<Rightarrow>
              if IsCoinBase tx then
                (let n = length (txin_scriptSig (tx_vin tx ! 0)) in
                 if n < 2 \<or> n > 100 then reject st 100 ''bad-cb-length'' else (True, st))
              else
                (case check_inputs_null (tx_vin tx) of
                   Some (level, reason) \<Rightarrow> reject st level reason
                 | None \<Rightarrow> (True, st))))"

definition GetLegacySigOpCount :: "CTransaction \<Rightarrow> nat" where
  "GetLegacySigOpCount tx =
     sum_list (map (\<lambda>i. GetSigOpCount (txin_scriptSig i) False) (tx_vin tx))
     + sum_list (map (\<lambda>o'. GetSigOpCount (txout_scriptPubKey o') False) (tx_vout tx))"

subsection \<open>Lock times\<close>

definition LOCKTIME_VERIFY_SEQUENCE :: nat where "LOCKTIME_VERIFY_SEQUENCE = 0"
definition LOCKTIME_MEDIAN_TIME_PAST :: nat where "LOCKTIME_MEDIAN_TIME_PAST = 1"

text \<open>The flags are the bits with these numbers.\<close>

definition IsFinalTx :: "CTransaction \<Rightarrow> int \<Rightarrow> int \<Rightarrow> bool" where
  "IsFinalTx tx nBlockHeight nBlockTime =
     (if tx_nLockTime tx = 0 then True
      else if uint (tx_nLockTime tx) <
              (if uint (tx_nLockTime tx) < LOCKTIME_THRESHOLD then nBlockHeight else nBlockTime) then True
      else list_all (\<lambda>i. txin_nSequence i = SEQUENCE_FINAL) (tx_vin tx))"

text \<open>\<open>None\<close> is the null tip of an empty chain.\<close>

definition CheckFinalTx :: "CChain \<Rightarrow> int \<Rightarrow> CTransaction \<Rightarrow> int \<Rightarrow> bool option" where
  "CheckFinalTx chainActive nAdjustedTime tx flags0 =
     (let flags = max flags0 0;
          nBlockHeight = chain_Height chainActive + 1
      in if bit flags LOCKTIME_MEDIAN_TIME_PAST
         then map_option (\<lambda>tip. IsFinalTx tx nBlockHeight (GetMedianTimePast tip)) (chain_Tip chainActive)
         else Some (IsFinalTx tx nBlockHeight nAdjustedTime))"

text \<open>The rounds of \<open>CalculateSequenceLocks\<close>: the inputs with their heights, the two running maxima,
  and the heights as they are left.\<close>

fun seqlock_loop :: "CBlockIndex \<Rightarrow> CTxIn list \<Rightarrow> int list \<Rightarrow> int \<times> int \<Rightarrow> ((int \<times> int) \<times> int list) option" where
  "seqlock_loop block (txin # ins) (h # hs) (nMinHeight, nMinTime) =
     (if txin_nSequence txin AND SEQUENCE_LOCKTIME_DISABLE_FLAG \<noteq> 0
      then map_option (\<lambda>(p, hs'). (p, 0 # hs')) (seqlock_loop block ins hs (nMinHeight, nMinTime))
      else if txin_nSequence txin AND SEQUENCE_LOCKTIME_TYPE_FLAG \<noteq> 0 then
        (case GetAncestor block (max (h - 1) 0) of
           Some (Some b) \<Rightarrow>
             map_option (\<lambda>(p, hs'). (p, h # hs'))
               (seqlock_loop block ins hs (nMinHeight, max nMinTime (GetMedianTimePast b
                  + uint (push_bit SEQUENCE_LOCKTIME_GRANULARITY (txin_nSequence txin AND SEQUENCE_LOCKTIME_MASK)) - 1)))
         | _ \<Rightarrow> None)
      else map_option (\<lambda>(p, hs'). (p, h # hs'))
             (seqlock_loop block ins hs
               (max nMinHeight (h + uint (txin_nSequence txin AND SEQUENCE_LOCKTIME_MASK) - 1), nMinTime)))"
| "seqlock_loop block ins hs p = Some (p, hs)"

text \<open>\<open>None\<close> is a failed assertion or a null ancestor.\<close>

definition CalculateSequenceLocks ::
  "CTransaction \<Rightarrow> int \<Rightarrow> int list \<Rightarrow> CBlockIndex \<Rightarrow> ((int \<times> int) \<times> int list) option" where
  "CalculateSequenceLocks tx flags prevHeights block =
     (if length prevHeights \<noteq> length (tx_vin tx) then None
      else let fEnforceBIP68 = (word_of_int (tx_nVersion tx) :: u32) \<ge> 2 \<and> bit flags LOCKTIME_VERIFY_SEQUENCE in
           if \<not> fEnforceBIP68 then Some ((-1, -1), prevHeights)
           else seqlock_loop block (tx_vin tx) prevHeights (-1, -1))"

definition EvaluateSequenceLocks :: "CBlockIndex \<Rightarrow> int \<times> int \<Rightarrow> bool option" where
  "EvaluateSequenceLocks block lockPair =
     (case pprev block of None \<Rightarrow> None
      | Some p \<Rightarrow> Some (\<not> (fst lockPair \<ge> height block \<or> snd lockPair \<ge> GetMedianTimePast p)))"

definition SequenceLocks :: "CTransaction \<Rightarrow> int \<Rightarrow> int list \<Rightarrow> CBlockIndex \<Rightarrow> (bool \<times> int list) option" where
  "SequenceLocks tx flags prevHeights block =
     (case CalculateSequenceLocks tx flags prevHeights block of
        None \<Rightarrow> None
      | Some (p, hs) \<Rightarrow> map_option (\<lambda>ok. (ok, hs)) (EvaluateSequenceLocks block p))"

subsection \<open>What \<open>CheckTransaction\<close> accepts\<close>

lemma check_outputs_None:
  "MoneyRange n \<Longrightarrow> check_outputs os n = None \<longleftrightarrow>
     (\<forall>o'\<in>set os. MoneyRange (txout_nValue o')) \<and> MoneyRange (n + sum_list (map txout_nValue os))"
proof (induction os arbitrary: n)
  case (Cons o' os)
  have nonneg: "(\<forall>o'\<in>set os. MoneyRange (txout_nValue o')) \<Longrightarrow> 0 \<le> sum_list (map txout_nValue os)"
    by (rule sum_list_nonneg) (auto simp: MoneyRange_def)
  show ?case
  proof (cases "MoneyRange (txout_nValue o') \<and> MoneyRange (n + txout_nValue o')")
    case True
    then show ?thesis using Cons by (auto simp: add.assoc MoneyRange_def)
  next
    case False
    then have "\<not> ((\<forall>x\<in>set (o' # os). MoneyRange (txout_nValue x))
        \<and> MoneyRange (n + sum_list (map txout_nValue (o' # os))))"
      using nonneg Cons(2) by (auto simp: MoneyRange_def)
    then show ?thesis using False by (auto simp: MoneyRange_def)
  qed
qed auto

lemma check_inputs_distinct_None:
  "check_inputs_distinct is S = None \<longleftrightarrow> distinct (map txin_prevout is) \<and> txin_prevout ` set is \<inter> S = {}"
  by (induction "is" arbitrary: S) auto

lemma check_inputs_null_None:
  "check_inputs_null is = None \<longleftrightarrow> (\<forall>i\<in>set is. \<not> COutPoint_IsNull (txin_prevout i))"
  by (induction "is") auto

lemma check_outputs_level: "check_outputs os n = Some (l, r) \<Longrightarrow> l = 100"
  by (induction os n rule: check_outputs.induct) (auto split: if_splits)

lemma check_inputs_distinct_level: "check_inputs_distinct is S = Some (l, r) \<Longrightarrow> l = 100"
  by (induction "is" S rule: check_inputs_distinct.induct) (auto split: if_splits)

lemma check_inputs_null_level: "check_inputs_null is = Some (l, r) \<Longrightarrow> l = 10"
  by (induction "is" rule: check_inputs_null.induct) (auto split: if_splits)

lemmas check_levels = check_outputs_level check_inputs_distinct_level check_inputs_null_level

lemma reject_simps [simp]:
  "fst (reject st l r) = False" "snd (reject st l r) = DoS st l REJECT_INVALID r False []"
  by (simp_all add: reject_def)

text \<open>The rules that a transaction must satisfy by itself.\<close>

definition well_formed_tx :: "CTransaction \<Rightarrow> bool" where
  "well_formed_tx tx \<longleftrightarrow> tx_vin tx \<noteq> [] \<and> tx_vout tx \<noteq> [] \<and> tx_size tx \<le> MAX_BLOCK_SIZE
     \<and> (\<exists>v. GetValueOut tx = Inr v) \<and> distinct (map txin_prevout (tx_vin tx))
     \<and> (if IsCoinBase tx then length (txin_scriptSig (tx_vin tx ! 0)) \<in> {2..100}
        else \<forall>i\<in>set (tx_vin tx). \<not> COutPoint_IsNull (txin_prevout i))"

lemma CheckTransaction_cases:
  "CheckTransaction tx st = (True, st) \<and> well_formed_tx tx
   \<or> (\<exists>l r. CheckTransaction tx st = reject st l r \<and> l \<ge> 10 \<and> \<not> well_formed_tx tx)"
proof -
  have vals: "(\<exists>v. GetValueOut tx = Inr v) \<longleftrightarrow> check_outputs (tx_vout tx) 0 = None"
    using check_outputs_None [of 0 "tx_vout tx"] by (simp add: GetValueOut_Inr MoneyRange_def MAX_MONEY_def)
  have dist: "distinct (map txin_prevout (tx_vin tx)) \<longleftrightarrow> check_inputs_distinct (tx_vin tx) {} = None"
    by (simp add: check_inputs_distinct_None)
  have null: "(\<forall>i\<in>set (tx_vin tx). \<not> COutPoint_IsNull (txin_prevout i)) \<longleftrightarrow> check_inputs_null (tx_vin tx) = None"
    by (simp add: check_inputs_null_None)
  show ?thesis
  proof (cases "tx_vin tx = [] \<or> tx_vout tx = [] \<or> tx_size tx > MAX_BLOCK_SIZE")
    case True
    then show ?thesis by (auto simp: CheckTransaction_def well_formed_tx_def)
  next
    case False
    define cb where "cb = (if IsCoinBase tx
        then if length (txin_scriptSig (tx_vin tx ! 0)) \<in> {2..100} then None else Some (100, ''bad-cb-length'')
        else check_inputs_null (tx_vin tx))"
    have cbl: "cb = Some (l, r) \<Longrightarrow> 10 \<le> l" for l r
      by (auto simp: cb_def split: if_splits dest: check_inputs_null_level)
    define e where "e = (case check_outputs (tx_vout tx) 0 of Some x \<Rightarrow> Some x | None \<Rightarrow>
        (case check_inputs_distinct (tx_vin tx) {} of Some x \<Rightarrow> Some x | None \<Rightarrow> cb))"
    have el: "e = Some (l, r) \<Longrightarrow> 10 \<le> l" for l r
      using cbl check_outputs_level check_inputs_distinct_level by (fastforce simp: e_def split: option.splits)
    have "CheckTransaction tx st = (case e of None \<Rightarrow> (True, st) | Some (l, r) \<Rightarrow> reject st l r)"
      using False by (auto simp: CheckTransaction_def e_def cb_def Let_def split: option.split)
    moreover have "well_formed_tx tx \<longleftrightarrow> e = None"
      using False unfolding well_formed_tx_def vals dist null
      by (auto simp: e_def cb_def split: option.split)
    ultimately show ?thesis using el by (cases e) auto
  qed
qed

text \<open>C13: \<open>CheckTransaction\<close> accepts exactly the transactions that have inputs and outputs, fit in a block,
  have output values and a total in the money range (so that \<open>GetValueOut\<close> cannot throw), spend no
  outpoint twice, and are either a coinbase with a script of 2 to 100 bytes or have no null input.
  When it accepts, the validation state is unchanged; when it refuses, the state is invalid, or in
  error as before, and the ban score has grown by at least 10.\<close>

theorem CheckTransaction_correct:
  assumes "vs_mode st \<noteq> MODE_ERROR"
  shows "(fst (CheckTransaction tx st) \<longleftrightarrow> well_formed_tx tx)
    \<and> (if fst (CheckTransaction tx st) then snd (CheckTransaction tx st) = st
       else IsInvalid (snd (CheckTransaction tx st)) \<and> vs_nDoS (snd (CheckTransaction tx st)) \<ge> vs_nDoS st + 10)"
  using CheckTransaction_cases [of tx st] assms by (auto simp: DoS_def Let_def IsInvalid_def)

theorem CheckTransaction_correct_witness:
  "fst (CheckTransaction \<lparr> tx_nVersion = 1, tx_vin = [mk_CTxIn COutPoint_null [1, 2] SEQUENCE_FINAL],
      tx_vout = [mk_CTxOut 500 []], tx_nLockTime = 0 \<rparr> CValidationState_init)"
proof -
  have "well_formed_tx \<lparr> tx_nVersion = 1, tx_vin = [mk_CTxIn COutPoint_null [1, 2] SEQUENCE_FINAL],
      tx_vout = [mk_CTxOut 500 []], tx_nLockTime = 0 \<rparr>"
    by (simp add: well_formed_tx_def IsCoinBase_def mk_CTxIn_def mk_CTxOut_def COutPoint_IsNull_def COutPoint_null_def
        GetValueOut_Inr MoneyRange_def MAX_MONEY_def tx_size_def vec_size_def txin_size_def txout_size_def bytes_size_def
        GetSizeOfCompactSize_def MAX_BLOCK_SIZE_def)
  then show ?thesis
    using CheckTransaction_correct [of CValidationState_init] by (simp add: CValidationState_init_def)
qed

subsection \<open>Relative lock times\<close>

text \<open>What BIP 68 asks of one input, whose coin was created at height \<open>h\<close>.\<close>

definition input_unlocked :: "CBlockIndex \<Rightarrow> CBlockIndex \<Rightarrow> CTxIn \<Rightarrow> int \<Rightarrow> bool" where
  "input_unlocked block prev txin h =
     (if bit (txin_nSequence txin) 31 then True
      else if bit (txin_nSequence txin) 22
      then GetMedianTimePast (path block ! nat (max (h - 1) 0)) + 512 * (uint (txin_nSequence txin) mod 65536)
             \<le> GetMedianTimePast prev
      else h + uint (txin_nSequence txin) mod 65536 \<le> height block)"

lemma sequence_bits:
  "q AND SEQUENCE_LOCKTIME_DISABLE_FLAG \<noteq> 0 \<longleftrightarrow> bit q 31"
  "q AND SEQUENCE_LOCKTIME_TYPE_FLAG \<noteq> 0 \<longleftrightarrow> bit q 22"
  unfolding SEQUENCE_LOCKTIME_DISABLE_FLAG_def SEQUENCE_LOCKTIME_TYPE_FLAG_def
  by (simp_all only: bit_iff_and_push_bit_not_eq_0 simp_thms)

lemma sequence_mask:
  "uint (q AND SEQUENCE_LOCKTIME_MASK) = uint q mod 65536"
  "uint (push_bit SEQUENCE_LOCKTIME_GRANULARITY (q AND SEQUENCE_LOCKTIME_MASK)) = 512 * (uint q mod 65536)"
proof -
  have "(0x0000ffff :: u32) = mask 16" by (simp add: mask_eq_exp_minus_1)
  then have "q AND SEQUENCE_LOCKTIME_MASK = take_bit 16 q"
    by (simp only: SEQUENCE_LOCKTIME_MASK_def take_bit_eq_mask)
  then have m: "uint (q AND SEQUENCE_LOCKTIME_MASK) = uint q mod 65536"
    by (simp only: unsigned_take_bit_eq) (simp add: take_bit_eq_mod)
  then show "uint (q AND SEQUENCE_LOCKTIME_MASK) = uint q mod 65536" .
  have b: "512 * (uint q mod 65536) < 2 ^ 32" using pos_mod_bound [of 65536 "uint q"] by simp
  have nn: "0 \<le> 512 * (uint q mod 65536)" by simp
  have "uint (push_bit 9 (q AND SEQUENCE_LOCKTIME_MASK)) = take_bit 32 (push_bit 9 (uint q mod 65536))"
    by (simp only: unsigned_push_bit_eq m) simp
  also have "\<dots> = 512 * (uint q mod 65536)"
    using b nn by (simp add: push_bit_eq_mult take_bit_int_eq_self mult.commute)
  finally show "uint (push_bit SEQUENCE_LOCKTIME_GRANULARITY (q AND SEQUENCE_LOCKTIME_MASK)) = 512 * (uint q mod 65536)"
    by (simp add: SEQUENCE_LOCKTIME_GRANULARITY_def)
qed

lemma seqlock_loop_spec:
  assumes "wf_index block"
  shows "length ins = length hs \<Longrightarrow> \<forall>h\<in>set hs. h \<le> height block \<Longrightarrow>
    \<exists>mh' mt' hs'. seqlock_loop block ins hs (mh, mt) = Some ((mh', mt'), hs')
      \<and> (mh' < height block \<and> mt' < GetMedianTimePast prev \<longleftrightarrow>
         mh < height block \<and> mt < GetMedianTimePast prev
         \<and> list_all2 (input_unlocked block prev) ins hs)"
proof (induction ins hs arbitrary: mh mt rule: list_induct2')
  case (4 txin ins h hs)
  have h0: "0 \<le> max (h - 1) 0" "max (h - 1) 0 \<le> height block"
    using 4(3) wf_height_nonneg [OF assms] by auto
  have anc: "GetAncestor block (max (h - 1) 0) = Some (Some (path block ! nat (max (h - 1) 0)))"
    using GetAncestor_path [OF assms] h0 by simp
  define q where "q = txin_nSequence txin"
  define k where "k = uint q mod 65536"
  define t where "t = GetMedianTimePast (path block ! nat (max (h - 1) 0)) + 512 * k"
  have tl: "\<forall>h\<in>set hs. h \<le> height block" using 4(3) by simp
  have len: "length ins = length hs" using 4(2) by simp
  note IH = 4(1) [OF len tl]
  consider (disabled) "bit q 31" | (time) "\<not> bit q 31" "bit q 22" | (blocks) "\<not> bit q 31" "\<not> bit q 22" by blast
  then show ?case
  proof cases
    case disabled
    then have "input_unlocked block prev txin h" by (simp add: input_unlocked_def q_def)
    then show ?thesis using IH [of mh mt] disabled by (auto simp: sequence_bits q_def)
  next
    case time
    then have "input_unlocked block prev txin h \<longleftrightarrow> t \<le> GetMedianTimePast prev"
      by (simp add: input_unlocked_def q_def t_def k_def)
    moreover have "t \<le> x \<longleftrightarrow> t - 1 < x" for x by arith
    ultimately have u: "input_unlocked block prev txin h \<longleftrightarrow> t - 1 < GetMedianTimePast prev" by simp
    have e: "seqlock_loop block (txin # ins) (h # hs) (mh, mt) =
        map_option (\<lambda>(p, hs'). (p, h # hs')) (seqlock_loop block ins hs (mh, max mt (t - 1)))"
      using time anc by (simp add: sequence_bits sequence_mask q_def t_def k_def del: push_bit_and)
    show ?thesis unfolding e list_all2_Cons u using IH [of mh "max mt (t - 1)"] by (elim exE conjE) (simp; blast)
  next
    case blocks
    then have "input_unlocked block prev txin h \<longleftrightarrow> h + k \<le> height block"
      by (simp add: input_unlocked_def q_def k_def)
    moreover have "h + k \<le> x \<longleftrightarrow> h + k - 1 < x" for x by arith
    ultimately have u: "input_unlocked block prev txin h \<longleftrightarrow> h + k - 1 < height block" by simp
    have e: "seqlock_loop block (txin # ins) (h # hs) (mh, mt) =
        map_option (\<lambda>(p, hs'). (p, h # hs')) (seqlock_loop block ins hs (max mh (h + k - 1), mt))"
      using blocks by (simp add: sequence_bits sequence_mask q_def k_def)
    show ?thesis unfolding e list_all2_Cons u using IH [of "max mh (h + k - 1)" mt] by (elim exE conjE) (simp; blast)
  qed
qed auto

lemma GetMedianTimePast_nonneg: "0 \<le> GetMedianTimePast b"
proof -
  have n: "median_times nMedianTimeSpan b \<noteq> []" by (rule median_times_nonempty) (simp add: nMedianTimeSpan_def)
  have "\<forall>x \<in> set (median_times n b). 0 \<le> x" for n b
    by (induction n arbitrary: b) (auto split: option.splits)
  moreover have "GetMedianTimePast b \<in> set (median_times nMedianTimeSpan b)"
  proof -
    have "length (sort (median_times nMedianTimeSpan b)) div 2 < length (sort (median_times nMedianTimeSpan b))"
      using n by (intro div_less_dividend) auto
    then have "GetMedianTimePast b \<in> set (sort (median_times nMedianTimeSpan b))"
      unfolding GetMedianTimePast_def Let_def by (rule nth_mem)
    then show ?thesis by simp
  qed
  ultimately show ?thesis by blast
qed

text \<open>C35: with BIP 68 enforced, the running maxima of \<open>CalculateSequenceLocks\<close> decide exactly whether every
  input is unlocked: an input with the disable bit is, one with the type bit needs the median time
  past of the previous block to have advanced by its value in units of 512 seconds since the block
  before its coin, any other needs its value in blocks since its coin.\<close>

theorem SequenceLocks_correct:
  assumes "wf_index block" "pprev block = Some prev" "length prevHeights = length (tx_vin tx)"
    and "\<forall>h\<in>set prevHeights. h \<le> height block"
    and "(word_of_int (tx_nVersion tx) :: u32) \<ge> 2" "bit flags LOCKTIME_VERIFY_SEQUENCE"
  shows "map_option fst (SequenceLocks tx flags prevHeights block) =
    Some (list_all2 (input_unlocked block prev) (tx_vin tx) prevHeights)"
proof -
  obtain mh mt hs' where l: "seqlock_loop block (tx_vin tx) prevHeights (-1, -1) = Some ((mh, mt), hs')"
    "mh < height block \<and> mt < GetMedianTimePast prev \<longleftrightarrow>
         -1 < height block \<and> -1 < GetMedianTimePast prev
         \<and> list_all2 (input_unlocked block prev) (tx_vin tx) prevHeights"
    using seqlock_loop_spec [OF assms(1) assms(3) [symmetric] assms(4), of "-1" "-1" prev] by blast
  have "-1 < height block" "-1 < GetMedianTimePast prev"
    using wf_height_nonneg [OF assms(1)] GetMedianTimePast_nonneg [of prev] by simp_all
  then show ?thesis
    using l assms(2,3,5,6)
    by (auto simp: SequenceLocks_def CalculateSequenceLocks_def EvaluateSequenceLocks_def Let_def not_le)
qed

theorem SequenceLocks_correct_witness:
  "map_option fst (SequenceLocks \<lparr> tx_nVersion = 2, tx_vin = [mk_CTxIn (COutPoint 5 0) [] 1],
      tx_vout = [], tx_nLockTime = 0 \<rparr> 1 [1] sample_block) = Some False"
  using SequenceLocks_correct [of sample_block sample_genesis "[1]" "\<lparr> tx_nVersion = 2,
      tx_vin = [mk_CTxIn (COutPoint 5 0) [] 1], tx_vout = [], tx_nLockTime = 0 \<rparr>" 1]
  by (simp add: LOCKTIME_VERIFY_SEQUENCE_def input_unlocked_def mk_CTxIn_def bit_iff_odd)

end
