(* ===== verification/Coins.thy ===== *)
theory Coins
  imports Tx_Check "HOL-Library.AList"
begin

text \<open>
  The unspent outputs of one transaction (\<open>CCoins\<close> of src/src/coins.h and src/src/coins.cpp) and its
  undo record (src/src/undo.h).
\<close>

record CCoins =
  cc_fCoinBase :: bool
  cc_vout :: "CTxOut list"
  cc_nHeight :: int
  cc_nVersion :: int

definition CCoins_empty :: CCoins where
  "CCoins_empty = \<lparr> cc_fCoinBase = False, cc_vout = [], cc_nHeight = 0, cc_nVersion = 0 \<rparr>"

definition CCoins_Clear :: "CCoins \<Rightarrow> CCoins" where
  "CCoins_Clear c = CCoins_empty"

text \<open>\<open>while (vout.size() > 0 && vout.back().IsNull()) vout.pop_back()\<close>.\<close>

definition drop_null_back :: "CTxOut list \<Rightarrow> CTxOut list" where
  "drop_null_back v = rev (dropWhile CTxOut_IsNull (rev v))"

definition Cleanup :: "CCoins \<Rightarrow> CCoins" where
  "Cleanup c = c \<lparr> cc_vout := drop_null_back (cc_vout c) \<rparr>"

definition null_unspendable :: "CTxOut \<Rightarrow> CTxOut" where
  "null_unspendable o' = (if IsUnspendable (txout_scriptPubKey o') then CTxOut_null else o')"

definition ClearUnspendable :: "CCoins \<Rightarrow> CCoins" where
  "ClearUnspendable c = Cleanup (c \<lparr> cc_vout := map null_unspendable (cc_vout c) \<rparr>)"

definition FromTx :: "CTransaction \<Rightarrow> int \<Rightarrow> CCoins" where
  "FromTx tx nHeightIn = ClearUnspendable
     \<lparr> cc_fCoinBase = IsCoinBase tx, cc_vout = tx_vout tx, cc_nHeight = nHeightIn, cc_nVersion = tx_nVersion tx \<rparr>"

definition IsPruned :: "CCoins \<Rightarrow> bool" where
  "IsPruned c \<longleftrightarrow> list_all CTxOut_IsNull (cc_vout c)"

definition CCoins_eq :: "CCoins \<Rightarrow> CCoins \<Rightarrow> bool" where
  "CCoins_eq a b \<longleftrightarrow>
     (if IsPruned a \<and> IsPruned b then True
      else cc_fCoinBase a = cc_fCoinBase b \<and> cc_nHeight a = cc_nHeight b \<and> cc_nVersion a = cc_nVersion b
           \<and> cc_vout a = cc_vout b)"

definition IsAvailable :: "CCoins \<Rightarrow> nat \<Rightarrow> bool" where
  "IsAvailable c nPos \<longleftrightarrow> nPos < length (cc_vout c) \<and> \<not> CTxOut_IsNull (cc_vout c ! nPos)"

definition Spend :: "CCoins \<Rightarrow> nat \<Rightarrow> CCoins \<times> bool" where
  "Spend c nPos =
     (if nPos \<ge> length (cc_vout c) \<or> CTxOut_IsNull (cc_vout c ! nPos) then (c, False)
      else (Cleanup (c \<lparr> cc_vout := (cc_vout c)[nPos := CTxOut_null] \<rparr>), True))"

text \<open>The bytes of the bit mask of the outputs from the third on: the index after the last non-zero
  byte, and the number of non-zero bytes.\<close>

definition mask_byte_zero :: "CCoins \<Rightarrow> nat \<Rightarrow> bool" where
  "mask_byte_zero c b = list_all (\<lambda>i. 2 + b * 8 + i < length (cc_vout c) \<longrightarrow> CTxOut_IsNull (cc_vout c ! (2 + b * 8 + i))) [0..<8]"

function mask_loop :: "CCoins \<Rightarrow> nat \<Rightarrow> nat \<Rightarrow> nat \<Rightarrow> nat \<times> nat" where
  "mask_loop c b nLastUsedByte nNonzeroBytes =
     (if 2 + b * 8 < length (cc_vout c)
      then if \<not> mask_byte_zero c b then mask_loop c (b + 1) (b + 1) (nNonzeroBytes + 1)
           else mask_loop c (b + 1) nLastUsedByte nNonzeroBytes
      else (nLastUsedByte, nNonzeroBytes))"
  by pat_completeness auto
termination by (relation "measure (\<lambda>(c, b, l, n). length (cc_vout c) - b)") auto

declare mask_loop.simps [simp del]

definition CalcMaskSize :: "CCoins \<Rightarrow> nat \<Rightarrow> nat \<Rightarrow> nat \<times> nat" where
  "CalcMaskSize c nBytes nNonzeroBytes =
     (let (l, z) = mask_loop c 0 0 nNonzeroBytes in (nBytes + l, z))"

subsection \<open>Undo records\<close>

record CTxInUndo =
  ui_txout :: CTxOut
  ui_fCoinBase :: bool
  ui_nHeight :: int
  ui_nVersion :: int

definition CTxInUndo_of :: "CTxOut \<Rightarrow> CTxInUndo" where
  "CTxInUndo_of o' = \<lparr> ui_txout = o', ui_fCoinBase = False, ui_nHeight = 0, ui_nVersion = 0 \<rparr>"

type_synonym CTxUndo = "CTxInUndo list"

subsection \<open>Clean coins\<close>

text \<open>Coins as the code keeps them: no spent output at the end, and spent outputs are all alike.\<close>

definition clean_vout :: "CTxOut list \<Rightarrow> bool" where
  "clean_vout v \<longleftrightarrow> v = [] \<or> \<not> CTxOut_IsNull (last v)"

definition clean :: "CCoins \<Rightarrow> bool" where
  "clean c \<longleftrightarrow> clean_vout (cc_vout c) \<and> (\<forall>o'\<in>set (cc_vout c). CTxOut_IsNull o' \<longrightarrow> o' = CTxOut_null)"

lemma drop_null_back_simps [simp]:
  "drop_null_back [] = []"
  "drop_null_back (o' # os) =
     (case drop_null_back os of
        [] \<Rightarrow> if CTxOut_IsNull o' then [] else [o']
      | os' \<Rightarrow> o' # os')"
proof -
  show "drop_null_back (o' # os) =
     (case drop_null_back os of [] \<Rightarrow> if CTxOut_IsNull o' then [] else [o'] | os' \<Rightarrow> o' # os')"
  proof (cases "\<forall>x\<in>set os. CTxOut_IsNull x")
    case True
    then have e: "dropWhile CTxOut_IsNull (rev os) = []" by (simp add: dropWhile_eq_Nil_conv)
    show ?thesis using True by (simp add: drop_null_back_def dropWhile_append e)
  next
    case False
    then have "dropWhile CTxOut_IsNull (rev os) \<noteq> []" by (simp add: dropWhile_eq_Nil_conv)
    then show ?thesis using False by (auto simp: drop_null_back_def dropWhile_append split: list.split)
  qed
qed (simp add: drop_null_back_def)

lemma drop_null_back_clean: "clean_vout (drop_null_back v)"
  by (induction v) (auto simp: clean_vout_def split: list.splits)

lemma drop_null_back_append:
  "\<exists>k. v = drop_null_back v @ k \<and> list_all CTxOut_IsNull k"
  by (induction v) (auto split: list.splits)

lemma drop_null_back_id: "clean_vout v \<Longrightarrow> drop_null_back v = v"
  by (induction v) (auto simp: clean_vout_def split: list.splits if_splits)

lemma drop_null_back_null: "drop_null_back v = [] \<longleftrightarrow> list_all CTxOut_IsNull v"
  by (induction v) (auto split: list.splits)

lemma drop_null_back_nulls: "list_all CTxOut_IsNull k \<Longrightarrow> drop_null_back (v @ k) = drop_null_back v"
proof (induction v)
  case Nil
  then show ?case by (simp add: drop_null_back_null)
qed simp

lemma set_drop_null_back: "set (drop_null_back v) \<subseteq> set v"
  using drop_null_back_append [of v] by (metis set_append sup_ge1)

lemma CTxOut_null_IsNull [simp]: "CTxOut_IsNull CTxOut_null"
  by (simp add: CTxOut_IsNull_def CTxOut_null_def)

lemma IsPruned_Cleanup [simp]: "IsPruned (Cleanup c) \<longleftrightarrow> IsPruned c"
proof -
  obtain k where k: "cc_vout c = drop_null_back (cc_vout c) @ k" "list_all CTxOut_IsNull k"
    using drop_null_back_append by blast
  have "list_all CTxOut_IsNull (cc_vout c) \<longleftrightarrow> list_all CTxOut_IsNull (drop_null_back (cc_vout c))"
    using k by (metis list_all_append)
  then show ?thesis by (simp add: IsPruned_def Cleanup_def)
qed

lemma clean_IsPruned: "clean c \<Longrightarrow> IsPruned c \<longleftrightarrow> cc_vout c = []"
  by (cases "cc_vout c = []") (auto simp: clean_def clean_vout_def IsPruned_def list_all_iff)

text \<open>Outputs whose only null value is the spent output.\<close>

definition plain_nulls :: "CCoins \<Rightarrow> bool" where
  "plain_nulls c \<longleftrightarrow> (\<forall>o'\<in>set (cc_vout c). CTxOut_IsNull o' \<longrightarrow> o' = CTxOut_null)"

lemma clean_Cleanup: "plain_nulls c \<Longrightarrow> clean (Cleanup c)"
  using set_drop_null_back [of "cc_vout c"] drop_null_back_clean
  by (auto simp: clean_def Cleanup_def plain_nulls_def)

lemma Cleanup_clean: "clean c \<Longrightarrow> Cleanup c = c"
  by (simp add: clean_def Cleanup_def drop_null_back_id)

lemma clean_plain_nulls: "clean c \<Longrightarrow> plain_nulls c"
  by (simp add: clean_def plain_nulls_def)

lemma clean_empty [simp]: "clean CCoins_empty" "IsPruned CCoins_empty" "plain_nulls CCoins_empty"
  by (simp_all add: clean_def clean_vout_def CCoins_empty_def IsPruned_def plain_nulls_def)

definition no_null_outs :: "CTransaction \<Rightarrow> bool" where
  "no_null_outs tx \<longleftrightarrow> (\<forall>o'\<in>set (tx_vout tx). \<not> CTxOut_IsNull o')"

lemma clean_FromTx: "no_null_outs tx \<Longrightarrow> clean (FromTx tx h)"
  unfolding FromTx_def ClearUnspendable_def
  by (rule clean_Cleanup) (auto simp: plain_nulls_def no_null_outs_def null_unspendable_def)

lemma plain_nulls_spend: "plain_nulls c \<Longrightarrow> plain_nulls (c \<lparr> cc_vout := (cc_vout c)[n := CTxOut_null] \<rparr>)"
  by (auto simp: plain_nulls_def dest: subsetD [OF set_update_subset_insert])

lemma clean_Spend: "clean c \<Longrightarrow> clean (fst (Spend c n))"
  using clean_Cleanup [OF plain_nulls_spend [OF clean_plain_nulls], of c n] by (simp add: Spend_def)

end
