(* ===== verification/Coins_View.thy ===== *)
theory Coins_View
  imports Coins
begin

text \<open>
  Views on the unspent outputs (\<open>CCoinsView\<close>, \<open>CCoinsViewCache\<close> and \<open>CCoinsModifier\<close> of src/src/coins.h and
  src/src/coins.cpp, \<open>CCoinsViewDB\<close> of src/src/txdb.cpp).

  The virtual functions of a view are the record \<open>view_ops\<close>; a read returns the view again because a
  cache fills itself on reads.  A \<open>CCoinsMap\<close> is the list of its entries in the order of iteration,
  with distinct keys, and the two bits of \<open>flags\<close> are two fields of an entry.  The memory statistics
  are left out.  A modification through a \<open>CCoinsModifier\<close> is a function on the coins, followed by the
  destructor of the modifier.
\<close>

record CCoinsCacheEntry =
  ce_coins :: CCoins
  ce_dirty :: bool
  ce_fresh :: bool

type_synonym CCoinsMap = "(uint256 \<times> CCoinsCacheEntry) list"

record 'v view_ops =
  vo_GetCoins :: "'v \<Rightarrow> uint256 \<Rightarrow> 'v \<times> CCoins option"
  vo_GetBestBlock :: "'v \<Rightarrow> 'v \<times> uint256"
  vo_BatchWrite :: "'v \<Rightarrow> CCoinsMap \<Rightarrow> uint256 \<Rightarrow> 'v \<times> bool"

subsection \<open>The database\<close>

text \<open>LevelDB is the map of its keys; a write to it is taken to succeed.\<close>

record CCoinsViewDB =
  db_coins :: "uint256 \<Rightarrow> CCoins option"
  db_best :: uint256

definition db_GetCoins :: "CCoinsViewDB \<Rightarrow> uint256 \<Rightarrow> CCoinsViewDB \<times> CCoins option" where
  "db_GetCoins db txid = (db, db_coins db txid)"

definition db_GetBestBlock :: "CCoinsViewDB \<Rightarrow> CCoinsViewDB \<times> uint256" where
  "db_GetBestBlock db = (db, db_best db)"

fun db_batch :: "CCoinsMap \<Rightarrow> (uint256 \<Rightarrow> CCoins option) \<Rightarrow> uint256 \<Rightarrow> CCoins option" where
  "db_batch [] m = m"
| "db_batch ((txid, e) # es) m =
     db_batch es (if ce_dirty e then m(txid := (if IsPruned (ce_coins e) then None else Some (ce_coins e))) else m)"

definition db_BatchWrite :: "CCoinsViewDB \<Rightarrow> CCoinsMap \<Rightarrow> uint256 \<Rightarrow> CCoinsViewDB \<times> bool" where
  "db_BatchWrite db mapCoins hashBlock =
     (\<lparr> db_coins = db_batch mapCoins (db_coins db),
        db_best = (if hashBlock \<noteq> 0 then hashBlock else db_best db) \<rparr>, True)"

definition db_ops :: "CCoinsViewDB view_ops" where
  "db_ops = \<lparr> vo_GetCoins = db_GetCoins, vo_GetBestBlock = db_GetBestBlock, vo_BatchWrite = db_BatchWrite \<rparr>"

subsection \<open>The cache\<close>

record 'v CCoinsViewCache =
  cv_base :: 'v
  cv_hashBlock :: uint256
  cv_cacheCoins :: CCoinsMap

text \<open>The functions of the cache take the virtual functions \<open>B\<close> of its base.\<close>

definition FetchCoins ::
  "'v view_ops \<Rightarrow> 'v CCoinsViewCache \<Rightarrow> uint256 \<Rightarrow> 'v CCoinsViewCache \<times> CCoinsCacheEntry option" where
  "FetchCoins B view txid =
     (case map_of (cv_cacheCoins view) txid of
        Some e \<Rightarrow> (view, Some e)
      | None \<Rightarrow>
          (case vo_GetCoins B (cv_base view) txid of
             (base', None) \<Rightarrow> (view \<lparr> cv_base := base' \<rparr>, None)
           | (base', Some c) \<Rightarrow>
               let e = \<lparr> ce_coins = c, ce_dirty = False, ce_fresh = IsPruned c \<rparr> in
               (view \<lparr> cv_base := base', cv_cacheCoins := (txid, e) # cv_cacheCoins view \<rparr>, Some e)))"

definition cache_GetCoins ::
  "'v view_ops \<Rightarrow> 'v CCoinsViewCache \<Rightarrow> uint256 \<Rightarrow> 'v CCoinsViewCache \<times> CCoins option" where
  "cache_GetCoins B view txid = (let (view', e) = FetchCoins B view txid in (view', map_option ce_coins e))"

text \<open>\<open>AccessCoins\<close> returns a pointer into the cache, \<open>None\<close> for null.\<close>

definition AccessCoins ::
  "'v view_ops \<Rightarrow> 'v CCoinsViewCache \<Rightarrow> uint256 \<Rightarrow> 'v CCoinsViewCache \<times> CCoins option" where
  "AccessCoins B view txid =
     (case FetchCoins B view txid of (view', None) \<Rightarrow> (view', None) | (view', Some e) \<Rightarrow> (view', Some (ce_coins e)))"

definition HaveCoins :: "'v view_ops \<Rightarrow> 'v CCoinsViewCache \<Rightarrow> uint256 \<Rightarrow> 'v CCoinsViewCache \<times> bool" where
  "HaveCoins B view txid =
     (let (view', e) = FetchCoins B view txid in
      (view', case e of None \<Rightarrow> False | Some x \<Rightarrow> cc_vout (ce_coins x) \<noteq> []))"

definition HaveCoinsInCache :: "'v CCoinsViewCache \<Rightarrow> uint256 \<Rightarrow> bool" where
  "HaveCoinsInCache view txid \<longleftrightarrow> map_of (cv_cacheCoins view) txid \<noteq> None"

definition cache_GetBestBlock :: "'v view_ops \<Rightarrow> 'v CCoinsViewCache \<Rightarrow> 'v CCoinsViewCache \<times> uint256" where
  "cache_GetBestBlock B view =
     (if cv_hashBlock view = 0
      then let (base', h) = vo_GetBestBlock B (cv_base view) in
           (view \<lparr> cv_base := base', cv_hashBlock := h \<rparr>, h)
      else (view, cv_hashBlock view))"

definition SetBestBlock :: "'v CCoinsViewCache \<Rightarrow> uint256 \<Rightarrow> 'v CCoinsViewCache" where
  "SetBestBlock view h = view \<lparr> cv_hashBlock := h \<rparr>"

text \<open>The destructor of the modifier, which erases an entry that the parent does not have and that is
  pruned.\<close>

definition end_modify :: "'v CCoinsViewCache \<Rightarrow> uint256 \<Rightarrow> CCoinsCacheEntry \<Rightarrow> 'v CCoinsViewCache" where
  "end_modify view txid e =
     (let e' = e \<lparr> ce_coins := Cleanup (ce_coins e) \<rparr> in
      if ce_fresh e' \<and> IsPruned (ce_coins e')
      then view \<lparr> cv_cacheCoins := AList.delete txid (cv_cacheCoins view) \<rparr>
      else view \<lparr> cv_cacheCoins := AList.update txid e' (cv_cacheCoins view) \<rparr>)"

definition begin_modify ::
  "'v view_ops \<Rightarrow> 'v CCoinsViewCache \<Rightarrow> uint256 \<Rightarrow> 'v CCoinsViewCache \<times> CCoinsCacheEntry" where
  "begin_modify B view txid =
     (case map_of (cv_cacheCoins view) txid of
        Some e \<Rightarrow> (view, e \<lparr> ce_dirty := True \<rparr>)
      | None \<Rightarrow>
          (case vo_GetCoins B (cv_base view) txid of
             (base', None) \<Rightarrow> (view \<lparr> cv_base := base' \<rparr>,
                 \<lparr> ce_coins = CCoins_empty, ce_dirty = True, ce_fresh = True \<rparr>)
           | (base', Some c) \<Rightarrow> (view \<lparr> cv_base := base' \<rparr>,
                 \<lparr> ce_coins = c, ce_dirty = True, ce_fresh = IsPruned c \<rparr>)))"

definition ModifyCoins ::
  "'v view_ops \<Rightarrow> 'v CCoinsViewCache \<Rightarrow> uint256 \<Rightarrow> (CCoins \<Rightarrow> CCoins) \<Rightarrow> 'v CCoinsViewCache" where
  "ModifyCoins B view txid f =
     (let (view', e) = begin_modify B view txid in end_modify view' txid (e \<lparr> ce_coins := f (ce_coins e) \<rparr>))"

definition ModifyNewCoins :: "'v CCoinsViewCache \<Rightarrow> uint256 \<Rightarrow> (CCoins \<Rightarrow> CCoins) \<Rightarrow> 'v CCoinsViewCache" where
  "ModifyNewCoins view txid f =
     end_modify view txid \<lparr> ce_coins = f CCoins_empty, ce_dirty = True, ce_fresh = True \<rparr>"

definition batch_entry :: "uint256 \<Rightarrow> CCoinsCacheEntry \<Rightarrow> CCoinsMap \<Rightarrow> CCoinsMap" where
  "batch_entry txid e cache =
     (if \<not> ce_dirty e then cache
      else case map_of cache txid of
        None \<Rightarrow>
          if \<not> (ce_fresh e \<and> IsPruned (ce_coins e))
          then AList.update txid \<lparr> ce_coins = ce_coins e, ce_dirty = True, ce_fresh = ce_fresh e \<rparr> cache
          else cache
      | Some us \<Rightarrow>
          if ce_fresh us \<and> IsPruned (ce_coins e) then AList.delete txid cache
          else AList.update txid (us \<lparr> ce_coins := ce_coins e, ce_dirty := True \<rparr>) cache)"

fun batch_loop :: "CCoinsMap \<Rightarrow> CCoinsMap \<Rightarrow> CCoinsMap" where
  "batch_loop [] cache = cache"
| "batch_loop ((txid, e) # es) cache = batch_loop es (batch_entry txid e cache)"

definition cache_BatchWrite ::
  "'v CCoinsViewCache \<Rightarrow> CCoinsMap \<Rightarrow> uint256 \<Rightarrow> 'v CCoinsViewCache \<times> bool" where
  "cache_BatchWrite view mapCoins hashBlockIn =
     (view \<lparr> cv_cacheCoins := batch_loop mapCoins (cv_cacheCoins view), cv_hashBlock := hashBlockIn \<rparr>, True)"

definition Flush :: "'v view_ops \<Rightarrow> 'v CCoinsViewCache \<Rightarrow> 'v CCoinsViewCache \<times> bool" where
  "Flush B view =
     (let (base', fOk) = vo_BatchWrite B (cv_base view) (cv_cacheCoins view) (cv_hashBlock view) in
      (view \<lparr> cv_base := base', cv_cacheCoins := [] \<rparr>, fOk))"

definition Uncache :: "'v CCoinsViewCache \<Rightarrow> uint256 \<Rightarrow> 'v CCoinsViewCache" where
  "Uncache view h =
     (case map_of (cv_cacheCoins view) h of
        Some e \<Rightarrow> if \<not> ce_dirty e \<and> \<not> ce_fresh e
                  then view \<lparr> cv_cacheCoins := AList.delete h (cv_cacheCoins view) \<rparr> else view
      | None \<Rightarrow> view)"

definition GetCacheSize :: "'v CCoinsViewCache \<Rightarrow> nat" where
  "GetCacheSize view = length (cv_cacheCoins view)"

text \<open>A cache is a view itself, so caches stack.\<close>

definition cache_ops :: "'v view_ops \<Rightarrow> 'v CCoinsViewCache view_ops" where
  "cache_ops B = \<lparr> vo_GetCoins = cache_GetCoins B, vo_GetBestBlock = cache_GetBestBlock B,
     vo_BatchWrite = cache_BatchWrite \<rparr>"

definition new_cache :: "'v \<Rightarrow> 'v CCoinsViewCache" where
  "new_cache base = \<lparr> cv_base = base, cv_hashBlock = 0, cv_cacheCoins = [] \<rparr>"

subsection \<open>The contract of a view\<close>

text \<open>What a view shows for a transaction: its coins while some output is unspent.\<close>

definition live :: "CCoins option \<Rightarrow> CCoins option" where
  "live r = (case r of None \<Rightarrow> None | Some c \<Rightarrow> if IsPruned c then None else Some c)"

lemma live_simps [simp]:
  "live None = None" "live (Some c) = (if IsPruned c then None else Some c)" "live (live r) = live r"
  by (simp_all add: live_def split: option.split)

definition merge_entries :: "(uint256 \<Rightarrow> CCoins option) \<Rightarrow> CCoinsMap \<Rightarrow> uint256 \<Rightarrow> CCoins option" where
  "merge_entries a m t =
     (case map_of m t of
        Some e \<Rightarrow> if ce_dirty e then live (Some (ce_coins e)) else a t
      | None \<Rightarrow> a t)"

definition entry_ok :: "CCoins option \<Rightarrow> CCoinsCacheEntry \<Rightarrow> bool" where
  "entry_ok a e \<longleftrightarrow> clean (ce_coins e) \<and> (ce_fresh e \<longrightarrow> a = None)
     \<and> (\<not> ce_dirty e \<longrightarrow> live (Some (ce_coins e)) = a)"

text \<open>The entries of a child cache fit the view \<open>a\<close> of its parent.\<close>

definition entries_ok :: "(uint256 \<Rightarrow> CCoins option) \<Rightarrow> CCoinsMap \<Rightarrow> bool" where
  "entries_ok a m \<longleftrightarrow> distinct (map fst m) \<and> (\<forall>t e. map_of m t = Some e \<longrightarrow> entry_ok (a t) e)"

definition shows_clean :: "(uint256 \<Rightarrow> CCoins option) \<Rightarrow> bool" where
  "shows_clean a \<longleftrightarrow> (\<forall>t c. a t = Some c \<longrightarrow> clean c \<and> \<not> IsPruned c)"

text \<open>What a cache over a view shows, and the invariant of its entries.\<close>

definition cabs :: "('v \<Rightarrow> uint256 \<Rightarrow> CCoins option) \<Rightarrow> 'v CCoinsViewCache \<Rightarrow> uint256 \<Rightarrow> CCoins option" where
  "cabs av view t = (case map_of (cv_cacheCoins view) t of
     Some e \<Rightarrow> live (Some (ce_coins e)) | None \<Rightarrow> av (cv_base view) t)"

definition cinv :: "('v \<Rightarrow> uint256 \<Rightarrow> CCoins option) \<Rightarrow> ('v \<Rightarrow> bool) \<Rightarrow> 'v CCoinsViewCache \<Rightarrow> bool" where
  "cinv av iv view \<longleftrightarrow> iv (cv_base view) \<and> entries_ok (av (cv_base view)) (cv_cacheCoins view)"

lemma map_of_AList [simp]:
  "map_of (AList.delete t m) = (map_of m)(t := None)"
  "map_of (AList.update t e m) = (map_of m)(t \<mapsto> e)"
  by (rule delete_conv', rule update_conv')

lemma entries_ok_changes:
  assumes "entries_ok a m"
  shows "entries_ok a (AList.delete t m)" "entry_ok (a t) e \<Longrightarrow> entries_ok a (AList.update t e m)"
  using assms by (simp_all add: entries_ok_def distinct_delete distinct_update)

lemma cabs_changes:
  "cabs av (view \<lparr> cv_cacheCoins := AList.delete t (cv_cacheCoins view) \<rparr>) = (cabs av view)(t := av (cv_base view) t)"
  "cabs av (view \<lparr> cv_cacheCoins := AList.update t e (cv_cacheCoins view) \<rparr>) =
     (cabs av view)(t := live (Some (ce_coins e)))"
  by (rule ext, simp add: cabs_def split: option.split)+

lemma cabs_hash: "cabs av (view \<lparr> cv_hashBlock := h \<rparr>) = cabs av view"
    "cabs av (view \<lparr> cv_base := b, cv_hashBlock := h \<rparr>) = cabs av (view \<lparr> cv_base := b \<rparr>)"
    "cabs av (view \<lparr> cv_cacheCoins := m, cv_hashBlock := h \<rparr>) = cabs av (view \<lparr> cv_cacheCoins := m \<rparr>)"
  and cinv_hash: "cinv av iv (view \<lparr> cv_hashBlock := h \<rparr>) = cinv av iv view"
    "cinv av iv (view \<lparr> cv_base := b, cv_hashBlock := h \<rparr>) = cinv av iv (view \<lparr> cv_base := b \<rparr>)"
    "cinv av iv (view \<lparr> cv_cacheCoins := m, cv_hashBlock := h \<rparr>) = cinv av iv (view \<lparr> cv_cacheCoins := m \<rparr>)"
  by (simp_all add: cinv_def cabs_def fun_eq_iff split: option.split)

lemma cinv_changes:
  assumes "cinv av iv view"
  shows "cinv av iv (view \<lparr> cv_cacheCoins := AList.delete t (cv_cacheCoins view) \<rparr>)"
    "entry_ok (av (cv_base view) t) e \<Longrightarrow> cinv av iv (view \<lparr> cv_cacheCoins := AList.update t e (cv_cacheCoins view) \<rparr>)"
  using assms by (simp_all add: cinv_def entries_ok_changes)

locale coins_reader =
  fixes B :: "'v view_ops" and abs :: "'v \<Rightarrow> uint256 \<Rightarrow> CCoins option" and inv :: "'v \<Rightarrow> bool"
  assumes abs_clean: "inv v \<Longrightarrow> shows_clean (abs v)"
    and get_abs: "inv v \<Longrightarrow> vo_GetCoins B v t = (v', r) \<Longrightarrow> live r = abs v t \<and> abs v' = abs v"
    and get_inv: "inv v \<Longrightarrow> vo_GetCoins B v t = (v', r) \<Longrightarrow> inv v'"
    and get_clean: "inv v \<Longrightarrow> vo_GetCoins B v t = (v', Some c) \<Longrightarrow> clean c"
    and best_abs: "inv v \<Longrightarrow> vo_GetBestBlock B v = (v', h) \<Longrightarrow> inv v' \<and> abs v' = abs v"
begin

lemma cinv_entry: "cinv abs inv view \<Longrightarrow> map_of (cv_cacheCoins view) t = Some e \<Longrightarrow> entry_ok (abs (cv_base view) t) e"
  by (simp add: cinv_def entries_ok_def)

lemma cabs_clean: "cinv abs inv view \<Longrightarrow> shows_clean (cabs abs view)"
  using abs_clean [of "cv_base view"] cinv_entry [of view]
  by (auto simp: shows_clean_def cabs_def cinv_def entry_ok_def split: option.splits if_splits)

lemma cabs_merge: "cinv abs inv view \<Longrightarrow> cabs abs view = merge_entries (abs (cv_base view)) (cv_cacheCoins view)"
  by (rule ext) (auto simp: cabs_def merge_entries_def entry_ok_def dest: cinv_entry split: option.split)

lemma base_step:
  assumes "cinv abs inv view" "inv base'" "abs base' = abs (cv_base view)"
  shows "cinv abs inv (view \<lparr> cv_base := base' \<rparr>) \<and> cabs abs (view \<lparr> cv_base := base' \<rparr>) = cabs abs view"
proof -
  have "cabs abs (view \<lparr> cv_base := base' \<rparr>) = cabs abs view"
    by (rule ext) (simp add: cabs_def assms(3) split: option.split)
  then show ?thesis using assms by (simp add: cinv_def)
qed

lemma FetchCoins_spec:
  assumes "cinv abs inv view" "FetchCoins B view t = (view', r)"
  shows "cinv abs inv view' \<and> cabs abs view' = cabs abs view \<and> live (map_option ce_coins r) = cabs abs view t
    \<and> (\<forall>e. r = Some e \<longrightarrow> clean (ce_coins e))"
proof (cases "map_of (cv_cacheCoins view) t")
  case (Some e)
  then have v: "view' = view" "r = Some e" using assms(2) by (simp_all add: FetchCoins_def)
  show ?thesis using assms(1) Some cinv_entry [OF assms(1) Some] by (simp add: v cabs_def entry_ok_def)
next
  case None
  obtain base' g where g: "vo_GetCoins B (cv_base view) t = (base', g)" by fastforce
  have b: "inv (cv_base view)" using assms(1) by (simp add: cinv_def)
  note ga = get_abs [OF b g] and gi = get_inv [OF b g]
  show ?thesis
  proof (cases g)
    case [simp]: None
    have v: "view' = view \<lparr> cv_base := base' \<rparr>" "r = None"
      using assms(2) g \<open>map_of (cv_cacheCoins view) t = None\<close> by (simp_all add: FetchCoins_def)
    have "cabs abs view t = abs (cv_base view) t" using \<open>map_of (cv_cacheCoins view) t = None\<close> by (simp add: cabs_def)
    then show ?thesis using base_step [OF assms(1) gi] ga by (simp add: v)
  next
    case [simp]: (Some c)
    have c: "clean c" using get_clean [OF b] g by simp
    have fr: "t \<notin> fst ` set (cv_cacheCoins view)" using None by (simp add: map_of_eq_None_iff)
    have v: "view' = view \<lparr> cv_base := base', cv_cacheCoins :=
        (t, \<lparr> ce_coins = c, ce_dirty = False, ce_fresh = IsPruned c \<rparr>) # cv_cacheCoins view \<rparr>"
      "r = Some \<lparr> ce_coins = c, ce_dirty = False, ce_fresh = IsPruned c \<rparr>"
      using assms(2) g None by (simp_all add: FetchCoins_def Let_def)
    have eok: "entry_ok (abs (cv_base view) t) \<lparr> ce_coins = c, ce_dirty = False, ce_fresh = IsPruned c \<rparr>"
      using c ga by (auto simp: entry_ok_def)
    have "cinv abs inv view'" using assms(1) ga gi fr eok by (simp add: v cinv_def entries_ok_def)
    moreover have "cabs abs view' = cabs abs view"
      by (rule ext) (use ga None in \<open>simp add: v cabs_def split: option.split\<close>)
    ultimately show ?thesis using c ga None by (simp add: v cabs_def)
  qed
qed

lemma Uncache_spec:
  assumes "cinv abs inv view"
  shows "cinv abs inv (Uncache view t) \<and> cabs abs (Uncache view t) = cabs abs view"
proof (cases "map_of (cv_cacheCoins view) t")
  case None
  then show ?thesis using assms by (simp add: Uncache_def)
next
  case (Some e)
  have "(cabs abs view)(t := abs (cv_base view) t) = cabs abs view" if "\<not> ce_dirty e"
    by (rule ext) (use cinv_entry [OF assms Some] Some that in \<open>simp add: cabs_def entry_ok_def\<close>)
  then show ?thesis using assms Some by (simp add: Uncache_def cabs_changes cinv_changes)
qed

lemma end_modify_spec:
  assumes i: "cinv abs inv view"
    and e: "ce_dirty e" "plain_nulls (ce_coins e)" "ce_fresh e \<Longrightarrow> abs (cv_base view) t = None"
  shows "cinv abs inv (end_modify view t e)
    \<and> cabs abs (end_modify view t e) = (cabs abs view)(t := live (Some (Cleanup (ce_coins e))))"
proof -
  have "entry_ok (abs (cv_base view) t) (e \<lparr> ce_coins := Cleanup (ce_coins e) \<rparr>)"
    using e clean_Cleanup [OF e(2)] by (simp add: entry_ok_def)
  then show ?thesis using i e(3) by (simp add: end_modify_def Let_def cabs_changes cinv_changes)
qed

lemma begin_modify_spec:
  assumes i: "cinv abs inv view" and b: "begin_modify B view t = (view', e)"
  shows "cinv abs inv view' \<and> cabs abs view' = cabs abs view \<and> ce_dirty e \<and> clean (ce_coins e)
    \<and> (ce_fresh e \<longrightarrow> abs (cv_base view') t = None)
    \<and> (if cabs abs view t = None then IsPruned (ce_coins e) else cabs abs view t = Some (ce_coins e))"
proof (cases "map_of (cv_cacheCoins view) t")
  case (Some e0)
  then show ?thesis using b i cinv_entry [OF i Some] by (auto simp: begin_modify_def cabs_def entry_ok_def)
next
  case None
  obtain base' g where g: "vo_GetCoins B (cv_base view) t = (base', g)" by fastforce
  have bi: "inv (cv_base view)" using i by (simp add: cinv_def)
  note ga = get_abs [OF bi g] and gi = get_inv [OF bi g]
  have v: "view' = view \<lparr> cv_base := base' \<rparr>" using b g None by (auto simp: begin_modify_def split: option.splits)
  have s: "cinv abs inv view' \<and> cabs abs view' = cabs abs view" unfolding v using base_step [OF i gi] ga by simp
  have c: "cabs abs view t = abs (cv_base view) t" using None by (simp add: cabs_def)
  show ?thesis
    using b g None ga s get_clean [OF bi] by (cases g) (auto simp: begin_modify_def v c split: if_splits)
qed

text \<open>The coins a modification starts from: those shown, or pruned ones when none are.\<close>

lemma ModifyCoins_spec:
  assumes i: "cinv abs inv view"
    and f: "\<And>c. clean c \<Longrightarrow> (if cabs abs view t = None then IsPruned c else cabs abs view t = Some c) \<Longrightarrow>
      plain_nulls (f c) \<and> live (Some (Cleanup (f c))) = r"
  shows "cinv abs inv (ModifyCoins B view t f) \<and> cabs abs (ModifyCoins B view t f) = (cabs abs view)(t := r)"
proof -
  obtain view' e where b: "begin_modify B view t = (view', e)" by fastforce
  note s = begin_modify_spec [OF i b]
  have fe: "plain_nulls (f (ce_coins e)) \<and> live (Some (Cleanup (f (ce_coins e)))) = r" using f s by blast
  have "cinv abs inv (end_modify view' t (e \<lparr> ce_coins := f (ce_coins e) \<rparr>)) \<and>
      cabs abs (end_modify view' t (e \<lparr> ce_coins := f (ce_coins e) \<rparr>)) = (cabs abs view')(t := r)"
    using end_modify_spec [of view' "e \<lparr> ce_coins := f (ce_coins e) \<rparr>" t] s fe by simp
  then show ?thesis using s b by (simp add: ModifyCoins_def)
qed

lemma ModifyNewCoins_spec:
  assumes "cinv abs inv view" "abs (cv_base view) t = None" "plain_nulls (f CCoins_empty)"
  shows "cinv abs inv (ModifyNewCoins view t f) \<and> cabs abs (ModifyNewCoins view t f) = (cabs abs view)(t := live (Some (Cleanup (f CCoins_empty))))"
  using end_modify_spec [OF assms(1), of "\<lparr> ce_coins = f CCoins_empty, ce_dirty = True, ce_fresh = True \<rparr>" t] assms(2,3)
  by (simp add: ModifyNewCoins_def)

lemma batch_entry_spec:
  assumes i: "cinv abs inv view" and e: "entry_ok (cabs abs view t) e"
  shows "cinv abs inv (view \<lparr> cv_cacheCoins := batch_entry t e (cv_cacheCoins view) \<rparr>)
    \<and> cabs abs (view \<lparr> cv_cacheCoins := batch_entry t e (cv_cacheCoins view) \<rparr>) =
        (if ce_dirty e then (cabs abs view)(t := live (Some (ce_coins e))) else cabs abs view)"
proof (cases "map_of (cv_cacheCoins view) t")
  case None
  have c: "cabs abs view t = abs (cv_base view) t" using None by (simp add: cabs_def)
  have "(cabs abs view)(t := None) = cabs abs view" if "cabs abs view t = None"
    using that by (rule fun_upd_idem)
  moreover have "entry_ok (abs (cv_base view) t) \<lparr> ce_coins = ce_coins e, ce_dirty = True, ce_fresh = ce_fresh e \<rparr>"
    using e c by (simp add: entry_ok_def)
  ultimately show ?thesis using i e None c
    by (auto simp: batch_entry_def cabs_changes cinv_changes entry_ok_def)
next
  case (Some us)
  have us: "entry_ok (abs (cv_base view) t) (us \<lparr> ce_coins := ce_coins e, ce_dirty := True \<rparr>)"
      "ce_fresh us \<Longrightarrow> abs (cv_base view) t = None"
    using e cinv_entry [OF i Some] by (simp_all add: entry_ok_def)
  then show ?thesis using i Some by (simp add: batch_entry_def cabs_changes cinv_changes)
qed

lemma batch_loop_spec:
  "cinv abs inv view \<Longrightarrow> entries_ok (cabs abs view) m \<Longrightarrow>
   cinv abs inv (view \<lparr> cv_cacheCoins := batch_loop m (cv_cacheCoins view) \<rparr>)
   \<and> cabs abs (view \<lparr> cv_cacheCoins := batch_loop m (cv_cacheCoins view) \<rparr>) = merge_entries (cabs abs view) m"
proof (induction m arbitrary: view)
  case Nil
  then show ?case by (auto simp: merge_entries_def)
next
  case (Cons x es)
  obtain t e where x: "x = (t, e)" by fastforce
  let ?v = "view \<lparr> cv_cacheCoins := batch_entry t e (cv_cacheCoins view) \<rparr>"
  have fr: "t \<notin> fst ` set es" "distinct (map fst es)" using Cons(3) by (simp_all add: x entries_ok_def)
  have "entry_ok (cabs abs view t) e" using Cons(3) by (simp add: x entries_ok_def)
  note s = batch_entry_spec [OF Cons(2) this]
  have none: "map_of es t = None" using fr by (simp add: map_of_eq_None_iff)
  have "entries_ok (cabs abs ?v) es"
    using Cons(3) s fr none by (auto simp: x entries_ok_def split: if_splits)
  note IH = Cons(1) [OF s [THEN conjunct1] this]
  have "merge_entries (cabs abs ?v) es = merge_entries (cabs abs view) (x # es)"
    using s none by (auto simp: x merge_entries_def fun_eq_iff split: option.split if_splits)
  then show ?case using IH by (simp add: x)
qed

lemma GetBestBlock_spec:
  assumes i: "cinv abs inv view" and g: "cache_GetBestBlock B view = (view', h)"
  shows "cinv abs inv view' \<and> cabs abs view' = cabs abs view"
proof (cases "cv_hashBlock view = 0")
  case True
  obtain base' where b: "vo_GetBestBlock B (cv_base view) = (base', h)"
      "view' = view \<lparr> cv_base := base', cv_hashBlock := h \<rparr>"
    using g True by (auto simp: cache_GetBestBlock_def split: prod.splits)
  have "inv base' \<and> abs base' = abs (cv_base view)" using best_abs [OF _ b(1)] i by (simp add: cinv_def)
  then show ?thesis using base_step [OF i, of base'] by (simp add: b(2) cabs_hash cinv_hash)
next
  case False
  then show ?thesis using i g by (simp add: cache_GetBestBlock_def)
qed

lemma begin_modify_base:
  assumes i: "cinv abs inv view" and b: "begin_modify B view t = (view', e)"
  shows "abs (cv_base view') = abs (cv_base view)"
proof -
  obtain base' g where g: "vo_GetCoins B (cv_base view) t = (base', g)" by fastforce
  have "abs base' = abs (cv_base view)" using get_abs [OF _ g] i by (simp add: cinv_def)
  then show ?thesis using b g by (auto simp: begin_modify_def split: option.splits)
qed

lemma FetchCoins_base:
  assumes i: "cinv abs inv view" and b: "FetchCoins B view t = (view', e)"
  shows "abs (cv_base view') = abs (cv_base view)"
proof -
  obtain base' g where g: "vo_GetCoins B (cv_base view) t = (base', g)" by fastforce
  have "abs base' = abs (cv_base view)" using get_abs [OF _ g] i by (simp add: cinv_def)
  then show ?thesis using b g by (auto simp: FetchCoins_def Let_def split: option.splits)
qed

end

text \<open>The operations of a cache in any order, with their answers; a read is recorded as what it shows.\<close>

datatype cache_op =
  op_get_coins uint256 | op_access_coins uint256 | op_have_coins uint256 | op_uncache uint256 | op_modify_coins uint256 "CCoins \<Rightarrow> CCoins" | op_modify_new_coins uint256 "CCoins \<Rightarrow> CCoins" | op_flush

datatype cache_answer = answer_coins "CCoins option" | answer_bool bool | answer_none

definition cache_step :: "'v view_ops \<Rightarrow> cache_op \<Rightarrow> 'v CCoinsViewCache \<Rightarrow> 'v CCoinsViewCache \<times> cache_answer" where
  "cache_step B opn view =
     (case opn of
        op_get_coins t \<Rightarrow> (case cache_GetCoins B view t of (view', r) \<Rightarrow> (view', answer_coins (live r)))
      | op_access_coins t \<Rightarrow> (case AccessCoins B view t of (view', r) \<Rightarrow> (view', answer_coins (live r)))
      | op_have_coins t \<Rightarrow> (case HaveCoins B view t of (view', r) \<Rightarrow> (view', answer_bool r))
      | op_uncache t \<Rightarrow> (Uncache view t, answer_none)
      | op_modify_coins t f \<Rightarrow> (ModifyCoins B view t f, answer_none)
      | op_modify_new_coins t f \<Rightarrow> (ModifyNewCoins view t f, answer_none)
      | op_flush \<Rightarrow> (case Flush B view of (view', ok) \<Rightarrow> (view', answer_bool ok)))"

fun cache_run :: "'v view_ops \<Rightarrow> cache_op list \<Rightarrow> 'v CCoinsViewCache \<Rightarrow> 'v CCoinsViewCache \<times> cache_answer list" where
  "cache_run B [] view = (view, [])"
| "cache_run B (opn # opns) view =
     (case cache_step B opn view of (view1, r) \<Rightarrow> case cache_run B opns view1 of (view2, rs) \<Rightarrow> (view2, r # rs))"

text \<open>The same on a map \<open>a\<close> of coins with the map \<open>b\<close> that was written last.\<close>

type_synonym coins_map = "uint256 \<Rightarrow> CCoins option"

definition map_step :: "cache_op \<Rightarrow> coins_map \<times> coins_map \<Rightarrow> (coins_map \<times> coins_map) \<times> cache_answer" where
  "map_step opn = (\<lambda>(b, a).
     case opn of
       op_get_coins t \<Rightarrow> ((b, a), answer_coins (a t))
     | op_access_coins t \<Rightarrow> ((b, a), answer_coins (a t))
     | op_have_coins t \<Rightarrow> ((b, a), answer_bool (a t \<noteq> None))
     | op_uncache t \<Rightarrow> ((b, a), answer_none)
     | op_modify_coins t f \<Rightarrow> ((b, a(t := live (Some (Cleanup (f (case a t of Some c \<Rightarrow> c | None \<Rightarrow> CCoins_empty)))))), answer_none)
     | op_modify_new_coins t f \<Rightarrow> ((b, a(t := live (Some (Cleanup (f CCoins_empty))))), answer_none)
     | op_flush \<Rightarrow> ((a, a), answer_bool True))"

fun map_run :: "cache_op list \<Rightarrow> coins_map \<times> coins_map \<Rightarrow> (coins_map \<times> coins_map) \<times> cache_answer list" where
  "map_run [] s = (s, [])"
| "map_run (opn # opns) s = (case map_step opn s of (s1, r) \<Rightarrow> case map_run opns s1 of (s2, rs) \<Rightarrow> (s2, r # rs))"

text \<open>What the callers keep to: a modification gives coins whose spent outputs are null, and does the same to all pruned coins; new
  coins are not in the map that was written last.\<close>

definition op_allowed :: "cache_op \<Rightarrow> coins_map \<times> coins_map \<Rightarrow> bool" where
  "op_allowed opn = (\<lambda>(b, a).
     case opn of
       op_modify_coins t f \<Rightarrow>
         (case a t of
            Some c \<Rightarrow> plain_nulls (f c)
          | None \<Rightarrow> \<forall>c. clean c \<longrightarrow> IsPruned c \<longrightarrow> plain_nulls (f c) \<and> live (Some (Cleanup (f c))) = live (Some (Cleanup (f CCoins_empty))))
     | op_modify_new_coins t f \<Rightarrow> b t = None \<and> plain_nulls (f CCoins_empty)
     | _ \<Rightarrow> True)"

fun ops_allowed :: "cache_op list \<Rightarrow> coins_map \<times> coins_map \<Rightarrow> bool" where
  "ops_allowed [] s \<longleftrightarrow> True"
| "ops_allowed (opn # opns) s \<longleftrightarrow> op_allowed opn s \<and> ops_allowed opns (fst (map_step opn s))"

text \<open>A view that can be written to as well.\<close>

locale coins_view = coins_reader +
  assumes write_abs: "inv v \<Longrightarrow> entries_ok (abs v) m \<Longrightarrow> vo_BatchWrite B v m h = (v', ok) \<Longrightarrow>
      inv v' \<and> abs v' = merge_entries (abs v) m"
begin

lemma Flush_spec:
  assumes "cinv abs inv view" "Flush B view = (view', ok)"
  shows "cinv abs inv view' \<and> cabs abs view' = cabs abs view \<and> abs (cv_base view') = cabs abs view \<and> cv_cacheCoins view' = []"
proof -
  obtain base' where b: "vo_BatchWrite B (cv_base view) (cv_cacheCoins view) (cv_hashBlock view) = (base', ok)"
    "view' = view \<lparr> cv_base := base', cv_cacheCoins := [] \<rparr>"
    using assms(2) by (auto simp: Flush_def Let_def split: prod.splits)
  have "inv base' \<and> abs base' = cabs abs view"
    using write_abs [OF _ _ b(1)] assms(1) cabs_merge [OF assms(1)] by (simp add: cinv_def)
  then show ?thesis by (auto simp: b(2) cinv_def entries_ok_def cabs_def fun_eq_iff)
qed

text \<open>Writing returns true in the views of the node.\<close>

lemma cache_step_refines:
  assumes i: "cinv abs inv view" and wr: "\<And>v m h. snd (vo_BatchWrite B v m h)" and al: "op_allowed opn (abs (cv_base view), cabs abs view)"
  shows "case cache_step B opn view of (view', r) \<Rightarrow>
    cinv abs inv view' \<and> map_step opn (abs (cv_base view), cabs abs view) = ((abs (cv_base view'), cabs abs view'), r)"
proof (cases opn)
  case (op_get_coins t)
  obtain view' e where f: "FetchCoins B view t = (view', e)" by fastforce
  show ?thesis using FetchCoins_spec [OF i f] FetchCoins_base [OF i f] by (simp add: op_get_coins cache_step_def map_step_def cache_GetCoins_def f)
next
  case (op_access_coins t)
  obtain view' e where f: "FetchCoins B view t = (view', e)" by fastforce
  show ?thesis using FetchCoins_spec [OF i f] FetchCoins_base [OF i f]
    by (cases e) (auto simp: op_access_coins cache_step_def map_step_def AccessCoins_def f)
next
  case (op_have_coins t)
  obtain view' e where f: "FetchCoins B view t = (view', e)" by fastforce
  note s = FetchCoins_spec [OF i f]
  have "(case e of None \<Rightarrow> False | Some x \<Rightarrow> cc_vout (ce_coins x) \<noteq> []) = (cabs abs view t \<noteq> None)"
    using s by (cases e) (auto simp: clean_IsPruned, metis)
  then show ?thesis using s FetchCoins_base [OF i f] by (simp add: op_have_coins cache_step_def map_step_def HaveCoins_def f)
next
  case (op_uncache t)
  have "cv_base (Uncache view t) = cv_base view" by (simp add: Uncache_def split: option.split)
  then show ?thesis using Uncache_spec [OF i, of t] by (simp add: op_uncache cache_step_def map_step_def)
next
  case (op_modify_coins t f)
  let ?c = "case cabs abs view t of Some c \<Rightarrow> c | None \<Rightarrow> CCoins_empty"
  have m: "cinv abs inv (ModifyCoins B view t f) \<and> cabs abs (ModifyCoins B view t f) = (cabs abs view)(t := live (Some (Cleanup (f ?c))))"
    by (rule ModifyCoins_spec [OF i]) (use al in \<open>auto simp: op_modify_coins op_allowed_def split: option.splits if_splits\<close>)
  have "abs (cv_base (ModifyCoins B view t f)) = abs (cv_base view)"
    using begin_modify_base [OF i] by (auto simp: ModifyCoins_def end_modify_def Let_def split: prod.split)
  then show ?thesis using m by (simp add: op_modify_coins cache_step_def map_step_def)
next
  case (op_modify_new_coins t f)
  have "cv_base (ModifyNewCoins view t f) = cv_base view" by (simp add: ModifyNewCoins_def end_modify_def Let_def)
  then show ?thesis using ModifyNewCoins_spec [OF i, of t f] al by (simp add: op_modify_new_coins cache_step_def map_step_def op_allowed_def)
next
  case op_flush
  obtain view' ok where f: "Flush B view = (view', ok)" by fastforce
  then have "ok" using wr [of "cv_base view" "cv_cacheCoins view" "cv_hashBlock view"] by (auto simp: Flush_def Let_def split: prod.splits)
  then show ?thesis using Flush_spec [OF i f] by (simp add: op_flush cache_step_def map_step_def f)
qed

lemma cache_run_refines:
  assumes wr: "\<And>v m h. snd (vo_BatchWrite B v m h)"
  shows "cinv abs inv view \<Longrightarrow> ops_allowed opns (abs (cv_base view), cabs abs view) \<Longrightarrow>
    case cache_run B opns view of (view', rs) \<Rightarrow>
      cinv abs inv view' \<and> map_run opns (abs (cv_base view), cabs abs view) = ((abs (cv_base view'), cabs abs view'), rs)"
proof (induction opns arbitrary: view)
  case (Cons opn opns)
  obtain view1 r where 1: "cache_step B opn view = (view1, r)" by fastforce
  note s = cache_step_refines [OF Cons.prems(1) wr, of opn]
  show ?case using s Cons.prems(2) Cons.IH [of view1] 1 by (auto split: prod.splits)
qed simp

text \<open>A cache over a view is a view.\<close>

lemma cache_view: "coins_view (cache_ops B) (cabs abs) (cinv abs inv)"
proof
  fix v t v' r c h m ok
  show "cinv abs inv v \<Longrightarrow> shows_clean (cabs abs v)" by (rule cabs_clean)
  show "cinv abs inv v \<Longrightarrow> vo_GetCoins (cache_ops B) v t = (v', r) \<Longrightarrow> live r = cabs abs v t \<and> cabs abs v' = cabs abs v"
    using FetchCoins_spec by (fastforce simp: cache_ops_def cache_GetCoins_def split: prod.splits)
  show "cinv abs inv v \<Longrightarrow> vo_GetCoins (cache_ops B) v t = (v', r) \<Longrightarrow> cinv abs inv v'"
    using FetchCoins_spec by (fastforce simp: cache_ops_def cache_GetCoins_def split: prod.splits)
  show "cinv abs inv v \<Longrightarrow> vo_GetCoins (cache_ops B) v t = (v', Some c) \<Longrightarrow> clean c"
    using FetchCoins_spec by (fastforce simp: cache_ops_def cache_GetCoins_def split: prod.splits)
  show "cinv abs inv v \<Longrightarrow> vo_GetBestBlock (cache_ops B) v = (v', h) \<Longrightarrow> cinv abs inv v' \<and> cabs abs v' = cabs abs v"
    using GetBestBlock_spec by (simp add: cache_ops_def)
  show "cinv abs inv v \<Longrightarrow> entries_ok (cabs abs v) m \<Longrightarrow> vo_BatchWrite (cache_ops B) v m h = (v', ok) \<Longrightarrow>
      cinv abs inv v' \<and> cabs abs v' = merge_entries (cabs abs v) m"
    using batch_loop_spec [of v m] by (auto simp: cache_ops_def cache_BatchWrite_def cabs_hash cinv_hash)
qed

end

subsection \<open>The database and the caches of the node\<close>

text \<open>The database keeps clean coins with an unspent output only.  Over it lie the cache of the active
  chain (\<open>pcoinsTip\<close>) and the caches in which a block is connected.\<close>

definition db_inv :: "CCoinsViewDB \<Rightarrow> bool" where
  "db_inv db \<longleftrightarrow> shows_clean (db_coins db)"

lemma db_batch_spec: "distinct (map fst m) \<Longrightarrow> db_batch m a = merge_entries a m"
proof (induction m arbitrary: a)
  case Nil
  then show ?case by (simp add: merge_entries_def fun_eq_iff)
next
  case (Cons x m)
  obtain t e where x: "x = (t, e)" by fastforce
  have none: "map_of m t = None" using Cons.prems by (simp add: x map_of_eq_None_iff)
  show ?case using Cons none
    by (auto simp: x merge_entries_def fun_eq_iff split: option.split)
qed

lemma db_batch_ok: "entries_ok b m \<Longrightarrow> db_batch m a = merge_entries a m"
  by (simp add: entries_ok_def db_batch_spec)

lemma shows_cleanD: "shows_clean a \<Longrightarrow> a t = Some c \<Longrightarrow> clean c"
  by (simp add: shows_clean_def)

lemma live_clean: "shows_clean a \<Longrightarrow> live (a t) = a t"
  by (cases "a t") (auto simp: shows_clean_def)

lemma shows_clean_merge: "shows_clean a \<Longrightarrow> entries_ok a m \<Longrightarrow> shows_clean (merge_entries a m)"
  by (auto simp: shows_clean_def merge_entries_def entries_ok_def entry_ok_def split: option.splits if_splits)

interpretation db: coins_view db_ops db_coins db_inv
  by unfold_locales
    (auto simp: db_ops_def db_inv_def db_GetCoins_def db_GetBestBlock_def db_BatchWrite_def db_batch_ok
      live_clean shows_clean_merge shows_cleanD)

interpretation tip: coins_view "cache_ops db_ops" "cabs db_coins" "cinv db_coins db_inv"
  by (rule db.cache_view)

interpretation blk: coins_view "cache_ops (cache_ops db_ops)" "cabs (cabs db_coins)" "cinv (cabs db_coins) (cinv db_coins db_inv)"
  by (rule tip.cache_view)


definition sample_coins :: CCoins where
  "sample_coins = \<lparr> cc_fCoinBase = False, cc_vout = [\<lparr> txout_nValue = 7, txout_scriptPubKey = [], txout_nRounds = -10 \<rparr>],
     cc_nHeight = 3, cc_nVersion = 1 \<rparr>"

definition sample_view :: "CCoinsViewDB CCoinsViewCache CCoinsViewCache" where
  "sample_view = \<lparr> cv_base = \<lparr> cv_base = \<lparr> db_coins = (\<lambda>t. if t = 5 then Some sample_coins else None), db_best = 9 \<rparr>,
     cv_hashBlock = 9, cv_cacheCoins = [] \<rparr>, cv_hashBlock = 9, cv_cacheCoins = [] \<rparr>"

lemma sample_view_inv: "cinv (cabs db_coins) (cinv db_coins db_inv) sample_view"
  by (simp add: sample_view_def cinv_def entries_ok_def db_inv_def shows_clean_def sample_coins_def clean_def clean_vout_def
      IsPruned_def CTxOut_IsNull_def)

text \<open>Coins 5 are spent in the cache of the chain, and coins 6 are created in the cache above it.\<close>

definition dirty_view :: "CCoinsViewDB CCoinsViewCache CCoinsViewCache" where
  "dirty_view = \<lparr> cv_base = \<lparr> cv_base = \<lparr> db_coins = (\<lambda>t. if t = 5 then Some sample_coins else None), db_best = 9 \<rparr>,
     cv_hashBlock = 9, cv_cacheCoins = [(5, \<lparr> ce_coins = CCoins_empty, ce_dirty = True, ce_fresh = False \<rparr>)] \<rparr>,
     cv_hashBlock = 10, cv_cacheCoins = [(6, \<lparr> ce_coins = sample_coins, ce_dirty = True, ce_fresh = True \<rparr>)] \<rparr>"

lemma sample_coins_clean:
  "clean sample_coins" "\<not> IsPruned sample_coins" "Cleanup sample_coins = sample_coins" "plain_nulls sample_coins" "plain_nulls CCoins_empty"
  "IsPruned CCoins_empty" "clean CCoins_empty"
  by code_simp+



definition sample_cache_ops :: "cache_op list" where
  "sample_cache_ops = [op_get_coins 6, op_modify_coins 6 (\<lambda>_. sample_coins), op_get_coins 6, op_modify_coins 6 (\<lambda>_. CCoins_empty), op_have_coins 6,
     op_modify_coins 5 (\<lambda>c. fst (Spend c 0)), op_get_coins 5, op_modify_new_coins 8 (\<lambda>_. sample_coins), op_uncache 8, op_flush, op_have_coins 5, op_get_coins 8]"


end
