(* ===== verification/Coins_Update.thy ===== *)
theory Coins_Update
  imports Coins_View
begin

text \<open>
  Spending and restoring coins: \<open>GetOutputFor\<close>, \<open>GetValueIn\<close> and \<open>HaveInputs\<close> of
  src/src/coins.cpp, \<open>UpdateCoins\<close>, \<open>ApplyTxInUndo\<close> and \<open>DisconnectBlock\<close> of src/src/main.cpp.

  A result \<open>None\<close> is a failed assertion.  The optional address and spent indexes are left out.
\<close>

subsection \<open>Reading outputs\<close>

definition GetOutputFor ::
  "'v view_ops \<Rightarrow> 'v CCoinsViewCache \<Rightarrow> CTxIn \<Rightarrow> 'v CCoinsViewCache \<times> CTxOut option" where
  "GetOutputFor B view input =
     (let (view', coins) = AccessCoins B view (prev_hash (txin_prevout input)); n = unat (prev_n (txin_prevout input)) in
      (view', case coins of
                None \<Rightarrow> None
              | Some c \<Rightarrow> if IsAvailable c n then Some (cc_vout c ! n) else None))"

fun value_in_loop :: "'v view_ops \<Rightarrow> 'v CCoinsViewCache \<Rightarrow> CTxIn list \<Rightarrow> CAmount \<Rightarrow> 'v CCoinsViewCache \<times> CAmount option" where
  "value_in_loop B view [] nResult = (view, Some nResult)"
| "value_in_loop B view (i # is) nResult =
     (case GetOutputFor B view i of
        (view', None) \<Rightarrow> (view', None)
      | (view', Some o') \<Rightarrow>
          (case i64 (nResult + txout_nValue o') of
             None \<Rightarrow> (view', None)
           | Some n \<Rightarrow> value_in_loop B view' is n))"

definition GetValueIn :: "'v view_ops \<Rightarrow> 'v CCoinsViewCache \<Rightarrow> CTransaction \<Rightarrow> 'v CCoinsViewCache \<times> CAmount option" where
  "GetValueIn B view tx = (if IsCoinBase tx then (view, Some 0) else value_in_loop B view (tx_vin tx) 0)"

fun have_inputs_loop :: "'v view_ops \<Rightarrow> 'v CCoinsViewCache \<Rightarrow> CTxIn list \<Rightarrow> 'v CCoinsViewCache \<times> bool" where
  "have_inputs_loop B view [] = (view, True)"
| "have_inputs_loop B view (i # is) =
     (case AccessCoins B view (prev_hash (txin_prevout i)) of
        (view', None) \<Rightarrow> (view', False)
      | (view', Some c) \<Rightarrow>
          if \<not> IsAvailable c (unat (prev_n (txin_prevout i))) then (view', False) else have_inputs_loop B view' is)"

definition HaveInputs :: "'v view_ops \<Rightarrow> 'v CCoinsViewCache \<Rightarrow> CTransaction \<Rightarrow> 'v CCoinsViewCache \<times> bool" where
  "HaveInputs B view tx = (if \<not> IsCoinBase tx then have_inputs_loop B view (tx_vin tx) else (view, True))"

subsection \<open>Connecting a transaction\<close>

text \<open>One round of the loop over the inputs: the modifier is alive for the whole round.\<close>

definition spend_input ::
  "'v view_ops \<Rightarrow> 'v CCoinsViewCache \<Rightarrow> CTxIn \<Rightarrow> ('v CCoinsViewCache \<times> CTxInUndo) option" where
  "spend_input B view i =
     (let t = prev_hash (txin_prevout i); nPos = unat (prev_n (txin_prevout i));
          (view', e) = begin_modify B view t; coins = ce_coins e in
      if nPos \<ge> length (cc_vout coins) \<or> CTxOut_IsNull (cc_vout coins ! nPos) then None
      else let undo = CTxInUndo_of (cc_vout coins ! nPos);
               coins' = fst (Spend coins nPos);
               undo' = (if length (cc_vout coins') = 0
                        then undo \<lparr> ui_nHeight := cc_nHeight coins', ui_fCoinBase := cc_fCoinBase coins',
                                    ui_nVersion := cc_nVersion coins' \<rparr>
                        else undo)
           in Some (end_modify view' t (e \<lparr> ce_coins := coins' \<rparr>), undo'))"

fun spend_loop ::
  "'v view_ops \<Rightarrow> 'v CCoinsViewCache \<Rightarrow> CTxIn list \<Rightarrow> CTxUndo \<Rightarrow> ('v CCoinsViewCache \<times> CTxUndo) option" where
  "spend_loop B view [] vprevout = Some (view, vprevout)"
| "spend_loop B view (i # is) vprevout =
     (case spend_input B view i of
        None \<Rightarrow> None
      | Some (view', undo) \<Rightarrow> spend_loop B view' is (vprevout @ [undo]))"

definition UpdateCoins ::
  "(byte list \<Rightarrow> uint256) \<Rightarrow> 'v view_ops \<Rightarrow> 'v CCoinsViewCache \<Rightarrow> CTransaction \<Rightarrow> CTxUndo \<Rightarrow> int \<Rightarrow>
     ('v CCoinsViewCache \<times> CTxUndo) option" where
  "UpdateCoins H B inputs tx txundo nHeight =
     (if \<not> IsCoinBase tx
      then (case spend_loop B inputs (tx_vin tx) txundo of
              None \<Rightarrow> None
            | Some (view', txundo') \<Rightarrow>
                Some (ModifyNewCoins view' (tx_GetHash H tx) (\<lambda>_. FromTx tx nHeight), txundo'))
      else Some (ModifyCoins B inputs (tx_GetHash H tx) (\<lambda>_. FromTx tx nHeight), txundo))"

subsection \<open>Disconnecting a block\<close>

text \<open>\<open>std::vector::resize\<close> when the vector is shorter.\<close>

definition grow :: "nat \<Rightarrow> CTxOut list \<Rightarrow> CTxOut list" where
  "grow n v = (if length v < n then v @ replicate (n - length v) CTxOut_null else v)"

text \<open>The position plus one is a 32-bit number in the code.\<close>

definition undo_coins :: "CTxInUndo \<Rightarrow> u32 \<Rightarrow> CCoins \<Rightarrow> CCoins \<times> bool" where
  "undo_coins undo n coins =
     (let (c, fClean) =
        (if ui_nHeight undo \<noteq> 0
         then ((CCoins_Clear coins) \<lparr> cc_fCoinBase := ui_fCoinBase undo, cc_nHeight := ui_nHeight undo,
                 cc_nVersion := ui_nVersion undo \<rparr>, IsPruned coins)
         else (coins, \<not> IsPruned coins))
      in (c \<lparr> cc_vout := (grow (unat (n + 1)) (cc_vout c))[unat n := ui_txout undo] \<rparr>,
          fClean \<and> \<not> IsAvailable c (unat n)))"

definition ApplyTxInUndo ::
  "'v view_ops \<Rightarrow> 'v CCoinsViewCache \<Rightarrow> CTxInUndo \<Rightarrow> COutPoint \<Rightarrow> 'v CCoinsViewCache \<times> bool" where
  "ApplyTxInUndo B view undo out =
     (let (view', e) = begin_modify B view (prev_hash out);
          (c, fClean) = undo_coins undo (prev_n out) (ce_coins e)
      in (end_modify view' (prev_hash out) (e \<lparr> ce_coins := c \<rparr>), fClean))"

definition undo_outputs ::
  "(byte list \<Rightarrow> uint256) \<Rightarrow> 'v view_ops \<Rightarrow> 'v CCoinsViewCache \<Rightarrow> CTransaction \<Rightarrow> int \<Rightarrow> 'v CCoinsViewCache \<times> bool" where
  "undo_outputs H B view tx nHeight =
     (let t = tx_GetHash H tx; (view', e) = begin_modify B view t;
          outs = ClearUnspendable (ce_coins e);
          outsBlock = FromTx tx nHeight;
          outs' = (if cc_nVersion outsBlock < 0 then outs \<lparr> cc_nVersion := cc_nVersion outsBlock \<rparr> else outs)
      in (end_modify view' t (e \<lparr> ce_coins := CCoins_Clear outs' \<rparr>), CCoins_eq outs' outsBlock))"

text \<open>The inputs are restored from the last to the first; the list is given in that order.\<close>

fun undo_loop :: "'v view_ops \<Rightarrow> 'v CCoinsViewCache \<Rightarrow> (CTxIn \<times> CTxInUndo) list \<Rightarrow> bool \<Rightarrow> 'v CCoinsViewCache \<times> bool" where
  "undo_loop B view [] fClean = (view, fClean)"
| "undo_loop B view ((i, undo) # rest) fClean =
     (let (view', ok) = ApplyTxInUndo B view undo (txin_prevout i) in undo_loop B view' rest (fClean \<and> ok))"

text \<open>The transactions after the coinbase, from the last to the first, each with its undo record, and
  then the coinbase.\<close>

fun disconnect_loop ::
  "(byte list \<Rightarrow> uint256) \<Rightarrow> 'v view_ops \<Rightarrow> int \<Rightarrow> CTransaction \<Rightarrow> 'v CCoinsViewCache \<Rightarrow> (CTransaction \<times> CTxUndo) list \<Rightarrow>
     bool \<Rightarrow> ('v CCoinsViewCache \<times> bool) option" where
  "disconnect_loop H B nHeight coinbase view [] fClean =
     (let (view', ok) = undo_outputs H B view coinbase nHeight in Some (view', fClean \<and> ok))"
| "disconnect_loop H B nHeight coinbase view ((tx, txundo) # rest) fClean =
     (let (view1, ok) = undo_outputs H B view tx nHeight in
      if length txundo \<noteq> length (tx_vin tx) then None
      else let (view2, fClean2) = undo_loop B view1 (rev (zip (tx_vin tx) txundo)) (fClean \<and> ok) in
           disconnect_loop H B nHeight coinbase view2 rest fClean2)"

datatype disconnect_error = no_undo_data | undo_read_failure | undo_inconsistent

text \<open>\<open>undo_read\<close> is what \<open>UndoReadFromDisk\<close> returns.  The result is the view with the clean flag, or
  the error with which the function returns false; \<open>None\<close> stands for a failed assertion or a null
  \<open>pprev\<close>.\<close>

definition DisconnectBlock ::
  "(byte list \<Rightarrow> uint256) \<Rightarrow> 'v view_ops \<Rightarrow> CTransaction list \<Rightarrow> CBlockIndex \<Rightarrow> CTxUndo list option \<Rightarrow>
     'v CCoinsViewCache \<Rightarrow> (disconnect_error + 'v CCoinsViewCache \<times> bool) option" where
  "DisconnectBlock H B vtx pindex undo_read view =
     (let (view0, best) = cache_GetBestBlock B view in
      if bi_hash (bi pindex) \<noteq> best then None
      else if dp_nFile (GetUndoPos pindex) = -1 then Some (Inl no_undo_data)
      else case pprev pindex of
        None \<Rightarrow> None
      | Some prev \<Rightarrow>
          (case undo_read of
             None \<Rightarrow> Some (Inl undo_read_failure)
           | Some vtxundo \<Rightarrow>
               (case vtx of
                  [] \<Rightarrow> Some (Inl undo_inconsistent)
                | coinbase # txs \<Rightarrow>
                    if length vtxundo \<noteq> length txs then Some (Inl undo_inconsistent)
                    else (case disconnect_loop H B (height pindex) coinbase view0 (rev (zip txs vtxundo)) True of
                            None \<Rightarrow> Some (Inl undo_inconsistent)
                          | Some (view1, fClean) \<Rightarrow> Some (Inr (SetBestBlock view1 (bi_hash (bi prev)), fClean))))))"

end
