(* ===== verification/Coins_Undo.thy ===== *)
theory Coins_Undo
  imports Coins_Update
begin

text \<open>
  The undo records restore the coins: what \<open>UpdateCoins\<close> does to a view, \<open>DisconnectBlock\<close> takes back.
  The lemmas are proved for a cache over any view and then used for the caches of the node.
\<close>

subsection \<open>One input\<close>

text \<open>The undo record of an input.\<close>

definition spend_undo :: "CCoins \<Rightarrow> nat \<Rightarrow> CTxInUndo" where
  "spend_undo c n =
     (let undo = CTxInUndo_of (cc_vout c ! n) in
      if cc_vout (fst (Spend c n)) = []
      then undo \<lparr> ui_nHeight := cc_nHeight c, ui_fCoinBase := cc_fCoinBase c, ui_nVersion := cc_nVersion c \<rparr>
      else undo)"

text \<open>Coins of a real block: not of height zero, and with output indexes of 32 bits.\<close>

definition coins_ok :: "(uint256 \<Rightarrow> CCoins option) \<Rightarrow> bool" where
  "coins_ok a \<longleftrightarrow> (\<forall>t c. a t = Some c \<longrightarrow> cc_nHeight c \<noteq> 0 \<and> length (cc_vout c) < 4294967296)"

lemma Spend_fields [simp]:
  "cc_nHeight (fst (Spend c n)) = cc_nHeight c" "cc_fCoinBase (fst (Spend c n)) = cc_fCoinBase c"
  "cc_nVersion (fst (Spend c n)) = cc_nVersion c"
  by (simp_all add: Spend_def Cleanup_def)

lemma length_drop_null_back: "length (drop_null_back v) \<le> length v"
  by (simp add: drop_null_back_def) (metis length_dropWhile_le length_rev)

lemma Spend_length: "length (cc_vout (fst (Spend c n))) \<le> length (cc_vout c)"
  using length_drop_null_back [of "(cc_vout c)[n := CTxOut_null]"] by (simp add: Spend_def Cleanup_def)

lemma drop_null_back_grow:
  assumes c: "clean_vout v" and n: "n < length v" and p: "\<forall>o'\<in>set v. CTxOut_IsNull o' \<longrightarrow> o' = CTxOut_null"
  shows "grow (Suc n) (drop_null_back (v[n := CTxOut_null])) = v[n := CTxOut_null]"
proof -
  define u d where "u = v[n := CTxOut_null]" and "d = drop_null_back u"
  obtain k where k: "u = d @ k" "list_all CTxOut_IsNull k" unfolding d_def using drop_null_back_append by blast
  have "set k \<subseteq> set u" using k(1) by simp
  then have "\<forall>x\<in>set k. x = CTxOut_null"
    using k(2) p set_update_subset_insert [of v n CTxOut_null] by (auto simp: list_all_iff u_def)
  then have rep: "k = replicate (length k) CTxOut_null" by (simp add: replicate_length_same)
  have lu: "length u = length v" by (simp add: u_def)
  then have len: "length v = length d + length k" using k(1) by simp
  have v: "v \<noteq> []" using n by auto
  have "grow (Suc n) d = u"
  proof (cases "n = length v - 1")
    case True
    have lt: "length d < Suc n"
    proof (rule ccontr)
      assume "\<not> length d < Suc n"
      then have "length k = 0" using len n True by linarith
      then have "d = u" using k(1) by simp
      moreover have "last u = CTxOut_null" using True v by (simp add: last_list_update u_def)
      ultimately show False using drop_null_back_clean [of u] n lu by (auto simp: clean_vout_def d_def)
    qed
    have "Suc n - length d = length k" using True n len by simp
    then have "grow (Suc n) d = d @ replicate (length k) CTxOut_null" using lt by (simp add: grow_def)
    then show ?thesis using rep k(1) by metis
  next
    case False
    then have "last u = last v" using v by (simp add: last_list_update u_def)
    then have "clean_vout u" using c n lu by (auto simp: clean_vout_def)
    then have "d = u" unfolding d_def by (rule drop_null_back_id)
    then show ?thesis using n lu by (simp add: grow_def)
  qed
  then show ?thesis by (simp only: u_def d_def)
qed

lemma undo_coins_Spend:
  assumes c: "clean c" and av: "IsAvailable c (unat m)"
    and ok: "cc_nHeight c \<noteq> 0" "length (cc_vout c) < 4294967296"
    and c0: "if live (Some (fst (Spend c (unat m)))) = None then IsPruned c0 else c0 = fst (Spend c (unat m))"
  shows "undo_coins (spend_undo c (unat m)) m c0 = (c, True)"
proof -
  define n v where "n = unat m" and "v = cc_vout c"
  have n: "n < length v" "\<not> CTxOut_IsNull (v ! n)" using av by (simp_all add: IsAvailable_def n_def v_def)
  have wrap: "unat (m + 1) = Suc n"
    using n(1) ok(2) unat_u32_less [of m] by (simp add: n_def v_def unat_word_ariths)
  have p: "clean_vout v" "\<forall>o'\<in>set v. CTxOut_IsNull o' \<longrightarrow> o' = CTxOut_null" using c by (simp_all add: clean_def v_def)
  define s where "s = drop_null_back (v[n := CTxOut_null])"
  have sp: "fst (Spend c n) = c \<lparr> cc_vout := s \<rparr>" using n by (simp add: Spend_def Cleanup_def s_def v_def)
  have grow: "(grow (Suc n) s)[n := v ! n] = v"
    using drop_null_back_grow [OF p(1) n(1) p(2)] by (simp add: s_def)
  have pr: "IsPruned (c \<lparr> cc_vout := s \<rparr>) \<longleftrightarrow> s = []"
    using clean_IsPruned [OF clean_Spend [OF c, of n]] by (simp add: sp)
  show ?thesis
  proof (cases "s = []")
    case True
    have "IsPruned c0" using c0 True pr by (simp add: n_def [symmetric] sp)
    then show ?thesis using grow True ok(1)
      by (simp add: undo_coins_def spend_undo_def n_def [symmetric] sp wrap CCoins_Clear_def CCoins_empty_def
          IsAvailable_def CTxInUndo_of_def v_def)
  next
    case False
    have e: "c0 = c \<lparr> cc_vout := s \<rparr>" using c0 False pr by (simp add: n_def [symmetric] sp)
    have "\<not> IsAvailable c0 n"
    proof -
      obtain k where k: "v[n := CTxOut_null] = s @ k" using drop_null_back_append s_def by blast
      have "s ! n = CTxOut_null" if "n < length s"
        using arg_cong [OF k, of "\<lambda>x. x ! n"] that n(1) by (simp add: nth_append)
      then show ?thesis by (auto simp: IsAvailable_def e)
    qed
    then show ?thesis using grow False pr
      by (simp add: undo_coins_def spend_undo_def n_def [symmetric] sp wrap CTxInUndo_of_def v_def e)
  qed
qed

subsection \<open>Outputs\<close>

lemma null_unspendable_idem: "null_unspendable (null_unspendable o') = null_unspendable o'"
  by (simp add: null_unspendable_def CTxOut_null_def IsUnspendable_def)

lemma ClearUnspendable_FromTx: "no_null_outs tx \<Longrightarrow> ClearUnspendable (FromTx tx h) = FromTx tx h"
proof -
  assume nn: "no_null_outs tx"
  define w where "w = map null_unspendable (tx_vout tx)"
  obtain k where k: "w = drop_null_back w @ k" using drop_null_back_append by blast
  have "set (drop_null_back w) \<subseteq> set w" by (rule set_drop_null_back)
  then have "map null_unspendable (drop_null_back w) = drop_null_back w"
    by (intro map_idI) (auto simp: w_def null_unspendable_idem)
  then have "ClearUnspendable (FromTx tx h) = Cleanup (FromTx tx h)"
    by (simp add: ClearUnspendable_def FromTx_def Cleanup_def w_def)
  then show ?thesis using Cleanup_clean [OF clean_FromTx [OF nn]] by simp
qed

lemma ClearUnspendable_pruned: "IsPruned c \<Longrightarrow> IsPruned (ClearUnspendable c)"
  by (auto simp: ClearUnspendable_def IsPruned_def [of "cc_vout_update _ _"] list_all_iff null_unspendable_def IsPruned_def [of c])

lemma FromTx_length: "length (cc_vout (FromTx tx h)) \<le> length (tx_vout tx)"
  using length_drop_null_back [of "map null_unspendable (tx_vout tx)"]
  by (simp add: FromTx_def ClearUnspendable_def Cleanup_def)

lemma FromTx_height [simp]: "cc_nHeight (FromTx tx h) = h"
  by (simp add: FromTx_def ClearUnspendable_def Cleanup_def)

lemma CCoins_eq_refl [simp]: "CCoins_eq c c"
  by (simp add: CCoins_eq_def)

subsection \<open>On a view\<close>

lemma undo_loop_append:
  "undo_loop B w (xs @ ys) f = (let (w', f') = undo_loop B w xs f in undo_loop B w' ys f')"
  by (induction B w xs f rule: undo_loop.induct) (simp_all split: prod.split)

lemma end_modify_base [simp]: "cv_base (end_modify view t e) = cv_base view"
  by (simp add: end_modify_def Let_def)

lemma ModifyNewCoins_base [simp]: "cv_base (ModifyNewCoins view t f) = cv_base view"
  by (simp add: ModifyNewCoins_def)

context coins_reader begin

lemma spend_input_spec:
  assumes i: "cinv abs inv view" and s: "spend_input B view inp = Some (view', undo)"
  shows "\<exists>c. cabs abs view (prev_hash (txin_prevout inp)) = Some c \<and> IsAvailable c (unat (prev_n (txin_prevout inp)))
    \<and> undo = spend_undo c (unat (prev_n (txin_prevout inp)))
    \<and> cinv abs inv view' \<and> abs (cv_base view') = abs (cv_base view)
    \<and> cabs abs view' = (cabs abs view)(prev_hash (txin_prevout inp) :=
        live (Some (fst (Spend c (unat (prev_n (txin_prevout inp)))))))"
proof -
  define t n where "t = prev_hash (txin_prevout inp)" and "n = unat (prev_n (txin_prevout inp))"
  obtain view1 e where b: "begin_modify B view t = (view1, e)" by fastforce
  let ?c = "ce_coins e"
  have av: "n < length (cc_vout ?c)" "\<not> CTxOut_IsNull (cc_vout ?c ! n)"
    and v: "view' = end_modify view1 t (e \<lparr> ce_coins := fst (Spend ?c n) \<rparr>)" "undo = spend_undo ?c n"
    using s by (auto simp: spend_input_def b t_def [symmetric] n_def [symmetric] Let_def spend_undo_def split: if_splits)
  note bs = begin_modify_spec [OF i b]
  have "\<not> IsPruned ?c" using av by (auto simp: IsPruned_def list_all_length)
  then have c: "cabs abs view t = Some ?c" using bs by (simp split: if_splits)
  have cl: "clean (fst (Spend ?c n))" using bs clean_Spend by blast
  have "cinv abs inv view' \<and> cabs abs view' = (cabs abs view1)(t := live (Some (Cleanup (fst (Spend ?c n)))))"
    using end_modify_spec [of view1 "e \<lparr> ce_coins := fst (Spend ?c n) \<rparr>" t] bs clean_plain_nulls [OF cl]
    by (simp add: v)
  then show ?thesis using c av v(2) bs begin_modify_base [OF i b] Cleanup_clean [OF cl]
    by (simp add: t_def [symmetric] n_def [symmetric] IsAvailable_def v(1))
qed

lemma ApplyTxInUndo_spec:
  assumes i: "cinv abs inv w" and c: "clean c" "IsAvailable c (unat m)" "cc_nHeight c \<noteq> 0" "length (cc_vout c) < 4294967296"
    and w: "cabs abs w t = live (Some (fst (Spend c (unat m))))"
  shows "\<exists>w'. ApplyTxInUndo B w (spend_undo c (unat m)) (COutPoint t m) = (w', True)
    \<and> cinv abs inv w' \<and> cabs abs w' = (cabs abs w)(t := Some c)"
proof -
  obtain w1 e where b: "begin_modify B w t = (w1, e)" by fastforce
  note bs = begin_modify_spec [OF i b]
  have "undo_coins (spend_undo c (unat m)) m (ce_coins e) = (c, True)"
    by (rule undo_coins_Spend [OF c]) (use bs w in \<open>auto split: if_splits\<close>)
  moreover have "\<not> IsPruned c" using c(2) by (auto simp: IsAvailable_def IsPruned_def list_all_length)
  ultimately show ?thesis
    using end_modify_spec [of w1 "e \<lparr> ce_coins := c \<rparr>" t] bs clean_plain_nulls [OF c(1)] Cleanup_clean [OF c(1)]
    by (simp add: ApplyTxInUndo_def b)
qed

lemma undo_outputs_spec:
  assumes i: "cinv abs inv w" and nn: "no_null_outs tx"
    and w: "cabs abs w (tx_GetHash H tx) = live (Some (FromTx tx h))"
  shows "\<exists>w'. undo_outputs H B w tx h = (w', True) \<and> cinv abs inv w' \<and> cabs abs w' = (cabs abs w)(tx_GetHash H tx := None)"
proof -
  let ?t = "tx_GetHash H tx"
  obtain w1 e where b: "begin_modify B w ?t = (w1, e)" by fastforce
  note bs = begin_modify_spec [OF i b]
  define outs where "outs = ClearUnspendable (ce_coins e)"
  define outs' where "outs' = (if cc_nVersion (FromTx tx h) < 0 then outs \<lparr> cc_nVersion := cc_nVersion (FromTx tx h) \<rparr> else outs)"
  have pr: "IsPruned (c \<lparr> cc_nVersion := x \<rparr>) = IsPruned c" for c x by (simp add: IsPruned_def)
  have "CCoins_eq outs' (FromTx tx h)"
  proof (cases "IsPruned (FromTx tx h)")
    case True
    then have "IsPruned (ce_coins e)" using bs w by simp
    then have "IsPruned outs'" using ClearUnspendable_pruned by (simp add: outs'_def outs_def pr)
    then show ?thesis using True by (simp add: CCoins_eq_def)
  next
    case False
    then have "ce_coins e = FromTx tx h" using bs w by simp
    then have "outs' = FromTx tx h" by (simp add: outs'_def outs_def ClearUnspendable_FromTx [OF nn])
    then show ?thesis by simp
  qed
  moreover have "undo_outputs H B w tx h =
      (end_modify w1 ?t (e \<lparr> ce_coins := CCoins_empty \<rparr>), CCoins_eq outs' (FromTx tx h))"
    by (simp add: undo_outputs_def b Let_def outs'_def outs_def CCoins_Clear_def)
  moreover have "Cleanup CCoins_empty = CCoins_empty" by (rule Cleanup_clean) simp
  ultimately show ?thesis
    using end_modify_spec [of w1 "e \<lparr> ce_coins := CCoins_empty \<rparr>" ?t] bs by simp
qed

text \<open>What spending the inputs did is undone on any view that shows the same.\<close>

lemma spend_loop_undo:
  "cinv abs inv view \<Longrightarrow> coins_ok (cabs abs view) \<Longrightarrow> spend_loop B view is us = Some (view', us') \<Longrightarrow>
   \<exists>us2. us' = us @ us2 \<and> length us2 = length is \<and> cinv abs inv view' \<and> coins_ok (cabs abs view')
     \<and> abs (cv_base view') = abs (cv_base view) \<and> (\<forall>t. cabs abs view t = None \<longrightarrow> cabs abs view' t = None)
     \<and> (\<forall>w f. cinv abs inv w \<longrightarrow> cabs abs w = cabs abs view' \<longrightarrow>
          (\<exists>w'. undo_loop B w (rev (zip is us2)) f = (w', f) \<and> cinv abs inv w' \<and> cabs abs w' = cabs abs view))"
proof (induction "is" arbitrary: view us)
  case Nil
  then show ?case by auto
next
  case (Cons i "is")
  obtain view1 u where s: "spend_input B view i = Some (view1, u)" "spend_loop B view1 is (us @ [u]) = Some (view', us')"
    using Cons.prems(3) by (auto split: option.splits)
  obtain t m where tm: "txin_prevout i = COutPoint t m" by (cases "txin_prevout i")
  obtain c where c: "cabs abs view t = Some c" "IsAvailable c (unat m)" "u = spend_undo c (unat m)"
      "cinv abs inv view1" "abs (cv_base view1) = abs (cv_base view)"
      "cabs abs view1 = (cabs abs view)(t := live (Some (fst (Spend c (unat m)))))"
    using spend_input_spec [OF Cons.prems(1) s(1)] by (auto simp: tm)
  have cl: "clean c" using cabs_clean [OF Cons.prems(1)] c(1) by (simp add: shows_clean_def)
  have ck: "cc_nHeight c \<noteq> 0" "length (cc_vout c) < 4294967296" using Cons.prems(2) c(1) by (auto simp: coins_ok_def)
  have "coins_ok (cabs abs view1)"
    using Cons.prems(2) ck Spend_length [of c "unat m"] by (auto simp: c(6) coins_ok_def split: if_splits)
  from Cons.IH [OF c(4) this s(2)] obtain us2 where us2:
    "us' = (us @ [u]) @ us2" "length us2 = length is" "cinv abs inv view'" "coins_ok (cabs abs view')"
    "abs (cv_base view') = abs (cv_base view1)" "\<And>t. cabs abs view1 t = None \<Longrightarrow> cabs abs view' t = None"
    "\<And>w f. cinv abs inv w \<Longrightarrow> cabs abs w = cabs abs view' \<Longrightarrow>
          \<exists>w'. undo_loop B w (rev (zip is us2)) f = (w', f) \<and> cinv abs inv w' \<and> cabs abs w' = cabs abs view1"
    by blast
  have undo: "\<exists>w'. undo_loop B w (rev (zip (i # is) (u # us2))) f = (w', f) \<and> cinv abs inv w' \<and> cabs abs w' = cabs abs view"
    if w: "cinv abs inv w" "cabs abs w = cabs abs view'" for w f
  proof -
    obtain w1 where w1: "undo_loop B w (rev (zip is us2)) f = (w1, f)" "cinv abs inv w1" "cabs abs w1 = cabs abs view1"
      using us2(7) [OF w] by blast
    have "cabs abs w1 t = live (Some (fst (Spend c (unat m))))" by (simp add: w1(3) c(6))
    then obtain w2 where w2: "ApplyTxInUndo B w1 u (COutPoint t m) = (w2, True)" "cinv abs inv w2"
        "cabs abs w2 = (cabs abs w1)(t := Some c)"
      using ApplyTxInUndo_spec [OF w1(2) cl c(2) ck] by (auto simp: c(3))
    have "cabs abs w2 = cabs abs view" by (simp add: w2(3) w1(3) c(6) fun_upd_idem c(1))
    then show ?thesis using w1(1) w2 by (simp add: undo_loop_append tm)
  qed
  have none: "cabs abs view' x = None" if "cabs abs view x = None" for x
    using that c(1) us2(6) [of x] by (cases "x = t") (simp_all add: c(6))
  show ?case
    by (rule exI [of _ "u # us2"]) (use us2 undo none c(5) in simp)
qed

end

end
