(* ===== verification/Interpreter.thy ===== *)
theory Interpreter
  imports Transaction
begin

unbundle bit_operations_syntax

text \<open>
  The script interpreter (src/src/script/interpreter.cpp, interpreter.h, script_error.h): the
  encoding checks, \<open>EvalScript\<close> and \<open>VerifyScript\<close>.

  The stack is a list whose head is \<open>stack.back()\<close>, so \<open>stacktop(-i)\<close> is \<open>stack ! (i - 1)\<close>; \<open>vfExec\<close>
  and the alternative stack are kept the same way.  A C++ exception inside \<open>EvalScript\<close> is caught
  there and becomes \<open>SCRIPT_ERR_UNKNOWN_ERROR\<close>.  The signature checker is the record of its three
  virtual functions, and the hash functions and the low-S test of a DER signature are fields of
  \<open>script_ctx\<close>.
\<close>

datatype ScriptError =
    SCRIPT_ERR_OK | SCRIPT_ERR_UNKNOWN_ERROR | SCRIPT_ERR_EVAL_FALSE | SCRIPT_ERR_OP_RETURN
  | SCRIPT_ERR_SCRIPT_SIZE | SCRIPT_ERR_PUSH_SIZE | SCRIPT_ERR_OP_COUNT | SCRIPT_ERR_STACK_SIZE
  | SCRIPT_ERR_SIG_COUNT | SCRIPT_ERR_PUBKEY_COUNT
  | SCRIPT_ERR_VERIFY | SCRIPT_ERR_EQUALVERIFY | SCRIPT_ERR_CHECKMULTISIGVERIFY
  | SCRIPT_ERR_CHECKSIGVERIFY | SCRIPT_ERR_NUMEQUALVERIFY
  | SCRIPT_ERR_BAD_OPCODE | SCRIPT_ERR_DISABLED_OPCODE | SCRIPT_ERR_INVALID_STACK_OPERATION
  | SCRIPT_ERR_INVALID_ALTSTACK_OPERATION | SCRIPT_ERR_UNBALANCED_CONDITIONAL
  | SCRIPT_ERR_NEGATIVE_LOCKTIME | SCRIPT_ERR_UNSATISFIED_LOCKTIME
  | SCRIPT_ERR_SIG_HASHTYPE | SCRIPT_ERR_SIG_DER | SCRIPT_ERR_MINIMALDATA | SCRIPT_ERR_SIG_PUSHONLY
  | SCRIPT_ERR_SIG_HIGH_S | SCRIPT_ERR_SIG_NULLDUMMY | SCRIPT_ERR_PUBKEYTYPE | SCRIPT_ERR_CLEANSTACK
  | SCRIPT_ERR_DISCOURAGE_UPGRADABLE_NOPS

fun ScriptErrorString :: "ScriptError \<Rightarrow> string" where
  "ScriptErrorString SCRIPT_ERR_OK = ''No error''"
| "ScriptErrorString SCRIPT_ERR_EVAL_FALSE = ''Script evaluated without error but finished with a false/empty top stack element''"
| "ScriptErrorString SCRIPT_ERR_VERIFY = ''Script failed an OP_VERIFY operation''"
| "ScriptErrorString SCRIPT_ERR_EQUALVERIFY = ''Script failed an OP_EQUALVERIFY operation''"
| "ScriptErrorString SCRIPT_ERR_CHECKMULTISIGVERIFY = ''Script failed an OP_CHECKMULTISIGVERIFY operation''"
| "ScriptErrorString SCRIPT_ERR_CHECKSIGVERIFY = ''Script failed an OP_CHECKSIGVERIFY operation''"
| "ScriptErrorString SCRIPT_ERR_NUMEQUALVERIFY = ''Script failed an OP_NUMEQUALVERIFY operation''"
| "ScriptErrorString SCRIPT_ERR_SCRIPT_SIZE = ''Script is too big''"
| "ScriptErrorString SCRIPT_ERR_PUSH_SIZE = ''Push value size limit exceeded''"
| "ScriptErrorString SCRIPT_ERR_OP_COUNT = ''Operation limit exceeded''"
| "ScriptErrorString SCRIPT_ERR_STACK_SIZE = ''Stack size limit exceeded''"
| "ScriptErrorString SCRIPT_ERR_SIG_COUNT = ''Signature count negative or greater than pubkey count''"
| "ScriptErrorString SCRIPT_ERR_PUBKEY_COUNT = ''Pubkey count negative or limit exceeded''"
| "ScriptErrorString SCRIPT_ERR_BAD_OPCODE = ''Opcode missing or not understood''"
| "ScriptErrorString SCRIPT_ERR_DISABLED_OPCODE = ''Attempted to use a disabled opcode''"
| "ScriptErrorString SCRIPT_ERR_INVALID_STACK_OPERATION = ''Operation not valid with the current stack size''"
| "ScriptErrorString SCRIPT_ERR_INVALID_ALTSTACK_OPERATION = ''Operation not valid with the current altstack size''"
| "ScriptErrorString SCRIPT_ERR_OP_RETURN = ''OP_RETURN was encountered''"
| "ScriptErrorString SCRIPT_ERR_UNBALANCED_CONDITIONAL = ''Invalid OP_IF construction''"
| "ScriptErrorString SCRIPT_ERR_NEGATIVE_LOCKTIME = ''Negative locktime''"
| "ScriptErrorString SCRIPT_ERR_UNSATISFIED_LOCKTIME = ''Locktime requirement not satisfied''"
| "ScriptErrorString SCRIPT_ERR_SIG_HASHTYPE = ''Signature hash type missing or not understood''"
| "ScriptErrorString SCRIPT_ERR_SIG_DER = ''Non-canonical DER signature''"
| "ScriptErrorString SCRIPT_ERR_MINIMALDATA = ''Data push larger than necessary''"
| "ScriptErrorString SCRIPT_ERR_SIG_PUSHONLY = ''Only non-push operators allowed in signatures''"
| "ScriptErrorString SCRIPT_ERR_SIG_HIGH_S = ''Non-canonical signature: S value is unnecessarily high''"
| "ScriptErrorString SCRIPT_ERR_SIG_NULLDUMMY = ''Dummy CHECKMULTISIG argument must be zero''"
| "ScriptErrorString SCRIPT_ERR_DISCOURAGE_UPGRADABLE_NOPS = ''NOPx reserved for soft-fork upgrades''"
| "ScriptErrorString SCRIPT_ERR_PUBKEYTYPE = ''Public key is neither compressed or uncompressed''"
| "ScriptErrorString _ = ''unknown error''"

type_synonym 'a script_result = "ScriptError + 'a"

fun bindE :: "'e + 'a \<Rightarrow> ('a \<Rightarrow> 'e + 'b) \<Rightarrow> 'e + 'b" where
  "bindE (Inl e) f = Inl e"
| "bindE (Inr x) f = f x"

lemma bindE_Inr_iff: "bindE m f = Inr y \<longleftrightarrow> (\<exists>x. m = Inr x \<and> f x = Inr y)"
  by (cases m) auto

lemma Inr_bindE_iff: "Inr y = bindE m f \<longleftrightarrow> (\<exists>x. m = Inr x \<and> f x = Inr y)"
  by (cases m) auto

subsection \<open>Flags\<close>

definition SIGHASH_ALL :: int where "SIGHASH_ALL = 1"
definition SIGHASH_NONE :: int where "SIGHASH_NONE = 2"
definition SIGHASH_SINGLE :: int where "SIGHASH_SINGLE = 3"
definition SIGHASH_ANYONECANPAY :: int where "SIGHASH_ANYONECANPAY = 0x80"

definition SCRIPT_VERIFY_P2SH :: nat where "SCRIPT_VERIFY_P2SH = 0"
definition SCRIPT_VERIFY_STRICTENC :: nat where "SCRIPT_VERIFY_STRICTENC = 1"
definition SCRIPT_VERIFY_DERSIG :: nat where "SCRIPT_VERIFY_DERSIG = 2"
definition SCRIPT_VERIFY_LOW_S :: nat where "SCRIPT_VERIFY_LOW_S = 3"
definition SCRIPT_VERIFY_NULLDUMMY :: nat where "SCRIPT_VERIFY_NULLDUMMY = 4"
definition SCRIPT_VERIFY_SIGPUSHONLY :: nat where "SCRIPT_VERIFY_SIGPUSHONLY = 5"
definition SCRIPT_VERIFY_MINIMALDATA :: nat where "SCRIPT_VERIFY_MINIMALDATA = 6"
definition SCRIPT_VERIFY_DISCOURAGE_UPGRADABLE_NOPS :: nat where
  "SCRIPT_VERIFY_DISCOURAGE_UPGRADABLE_NOPS = 7"
definition SCRIPT_VERIFY_CLEANSTACK :: nat where "SCRIPT_VERIFY_CLEANSTACK = 8"
definition SCRIPT_VERIFY_CHECKLOCKTIMEVERIFY :: nat where "SCRIPT_VERIFY_CHECKLOCKTIMEVERIFY = 9"
definition SCRIPT_VERIFY_CHECKSEQUENCEVERIFY :: nat where "SCRIPT_VERIFY_CHECKSEQUENCEVERIFY = 10"

text \<open>A flag is the number of its bit; \<open>has_flag flags f\<close> is \<open>(flags & (1U << f)) != 0\<close>.\<close>

definition has_flag :: "u32 \<Rightarrow> nat \<Rightarrow> bool" where
  "has_flag flags f \<longleftrightarrow> bit flags f"


record checker =
  ck_CheckSig :: "valtype \<Rightarrow> valtype \<Rightarrow> script \<Rightarrow> bool"
  ck_CheckLockTime :: "int \<Rightarrow> bool"
  ck_CheckSequence :: "int \<Rightarrow> bool"

definition BaseSignatureChecker :: checker where
  "BaseSignatureChecker = \<lparr> ck_CheckSig = (\<lambda>sig pubkey code. False),
     ck_CheckLockTime = (\<lambda>n. False), ck_CheckSequence = (\<lambda>n. False) \<rparr>"

record script_ctx =
  sc_flags :: u32
  sc_checker :: checker
  sc_ripemd160 :: "byte list \<Rightarrow> byte list"
  sc_sha1 :: "byte list \<Rightarrow> byte list"
  sc_sha256 :: "byte list \<Rightarrow> byte list"
  sc_CheckLowS :: "byte list \<Rightarrow> bool"

abbreviation ctx_flag :: "script_ctx \<Rightarrow> nat \<Rightarrow> bool" where
  "ctx_flag c f \<equiv> has_flag (sc_flags c) f"

subsection \<open>Encoding checks\<close>

fun CastToBool :: "valtype \<Rightarrow> bool" where
  "CastToBool [] = False"
| "CastToBool (b # bs) = (if b \<noteq> 0 then \<not> (bs = [] \<and> b = 0x80) else CastToBool bs)"

definition IsCompressedOrUncompressedPubKey :: "valtype \<Rightarrow> bool" where
  "IsCompressedOrUncompressedPubKey k =
     (if length k < 33 then False
      else if k ! 0 = 0x04 then length k = 65
      else if k ! 0 = 0x02 \<or> k ! 0 = 0x03 then length k = 33
      else False)"

definition IsValidSignatureEncoding :: "valtype \<Rightarrow> bool" where
  "IsValidSignatureEncoding sig =
     (if length sig < 9 then False
      else if length sig > 73 then False
      else if sig ! 0 \<noteq> 0x30 then False
      else if unat (sig ! 1) \<noteq> length sig - 3 then False
      else let lenR = unat (sig ! 3) in
      if 5 + lenR \<ge> length sig then False
      else let lenS = unat (sig ! (5 + lenR)) in
      if lenR + lenS + 7 \<noteq> length sig then False
      else if sig ! 2 \<noteq> 0x02 then False
      else if lenR = 0 then False
      else if sig ! 4 AND 0x80 \<noteq> 0 then False
      else if lenR > 1 \<and> sig ! 4 = 0x00 \<and> sig ! 5 AND 0x80 = 0 then False
      else if sig ! (lenR + 4) \<noteq> 0x02 then False
      else if lenS = 0 then False
      else if sig ! (lenR + 6) AND 0x80 \<noteq> 0 then False
      else if lenS > 1 \<and> sig ! (lenR + 6) = 0x00 \<and> sig ! (lenR + 7) AND 0x80 = 0 then False
      else True)"

definition IsLowDERSignature :: "script_ctx \<Rightarrow> valtype \<Rightarrow> unit script_result" where
  "IsLowDERSignature c vchSig =
     (if \<not> IsValidSignatureEncoding vchSig then Inl SCRIPT_ERR_SIG_DER
      else if \<not> sc_CheckLowS c (butlast vchSig) then Inl SCRIPT_ERR_SIG_HIGH_S
      else Inr ())"

definition IsDefinedHashtypeSignature :: "valtype \<Rightarrow> bool" where
  "IsDefinedHashtypeSignature vchSig =
     (if vchSig = [] then False
      else let nHashType = uint (last vchSig AND NOT 0x80) in
           \<not> (nHashType < SIGHASH_ALL \<or> nHashType > SIGHASH_SINGLE))"

definition CheckSignatureEncoding :: "script_ctx \<Rightarrow> valtype \<Rightarrow> unit script_result" where
  "CheckSignatureEncoding c vchSig =
     (if vchSig = [] then Inr ()
      else if (ctx_flag c SCRIPT_VERIFY_DERSIG \<or> ctx_flag c SCRIPT_VERIFY_LOW_S
               \<or> ctx_flag c SCRIPT_VERIFY_STRICTENC) \<and> \<not> IsValidSignatureEncoding vchSig
      then Inl SCRIPT_ERR_SIG_DER
      else bindE (if ctx_flag c SCRIPT_VERIFY_LOW_S then IsLowDERSignature c vchSig else Inr ())
        (\<lambda>_. if ctx_flag c SCRIPT_VERIFY_STRICTENC \<and> \<not> IsDefinedHashtypeSignature vchSig
             then Inl SCRIPT_ERR_SIG_HASHTYPE else Inr ()))"

definition CheckPubKeyEncoding :: "script_ctx \<Rightarrow> valtype \<Rightarrow> unit script_result" where
  "CheckPubKeyEncoding c vchPubKey =
     (if ctx_flag c SCRIPT_VERIFY_STRICTENC \<and> \<not> IsCompressedOrUncompressedPubKey vchPubKey
      then Inl SCRIPT_ERR_PUBKEYTYPE else Inr ())"

definition CheckMinimalPush :: "valtype \<Rightarrow> opcodetype \<Rightarrow> bool" where
  "CheckMinimalPush vch opcode =
     (if length vch = 0 then opcode = OP_0
      else if length vch = 1 \<and> vch ! 0 \<ge> 1 \<and> vch ! 0 \<le> 16 then opcode = OP_1 + (vch ! 0 - 1)
      else if length vch = 1 \<and> vch ! 0 = 0x81 then opcode = OP_1NEGATE
      else if length vch \<le> 75 then unat opcode = length vch
      else if length vch \<le> 255 then opcode = OP_PUSHDATA1
      else if length vch \<le> 65535 then opcode = OP_PUSHDATA2
      else True)"

subsection \<open>Instructions\<close>

record script_state =
  st_stack :: "valtype list"
  st_altstack :: "valtype list"
  st_vfExec :: "bool list"
  st_nOpCount :: int
  st_begincodehash :: script

definition vchFalse :: valtype where "vchFalse = []"
definition vchTrue :: valtype where "vchTrue = [1]"

definition num_arg :: "script_ctx \<Rightarrow> valtype \<Rightarrow> nat \<Rightarrow> int script_result" where
  "num_arg c v n =
     (case CScriptNum_of v (ctx_flag c SCRIPT_VERIFY_MINIMALDATA) n of
        Inl e \<Rightarrow> Inl SCRIPT_ERR_UNKNOWN_ERROR | Inr x \<Rightarrow> Inr x)"

definition bool_push :: "bool \<Rightarrow> valtype" where
  "bool_push b = (if b then vchTrue else vchFalse)"

definition with_stack :: "script_state \<Rightarrow> valtype list script_result \<Rightarrow> script_state script_result" where
  "with_stack st r = bindE r (\<lambda>s. Inr (st \<lparr> st_stack := s \<rparr>))"

abbreviation invalid_stack :: "'a script_result" where
  "invalid_stack \<equiv> Inl SCRIPT_ERR_INVALID_STACK_OPERATION"

text \<open>Push values and the stack operations.  The source comments give the stack effect with the top
  on the right; here the top is on the left.\<close>

definition op_push_small :: "opcodetype \<Rightarrow> valtype list \<Rightarrow> valtype list script_result" where
  "op_push_small opcode s = Inr (serialize (uint opcode - (uint OP_1 - 1)) # s)"

fun op_verify :: "valtype list \<Rightarrow> valtype list script_result" where
  "op_verify (x # s) = (if CastToBool x then Inr s else Inl SCRIPT_ERR_VERIFY)"
| "op_verify [] = invalid_stack"

fun op_2drop :: "valtype list \<Rightarrow> valtype list script_result" where
  "op_2drop (x2 # x1 # s) = Inr s"
| "op_2drop _ = invalid_stack"

fun op_2dup :: "valtype list \<Rightarrow> valtype list script_result" where
  "op_2dup (x2 # x1 # s) = Inr (x2 # x1 # x2 # x1 # s)"
| "op_2dup _ = invalid_stack"

fun op_3dup :: "valtype list \<Rightarrow> valtype list script_result" where
  "op_3dup (x3 # x2 # x1 # s) = Inr (x3 # x2 # x1 # x3 # x2 # x1 # s)"
| "op_3dup _ = invalid_stack"

fun op_2over :: "valtype list \<Rightarrow> valtype list script_result" where
  "op_2over (x4 # x3 # x2 # x1 # s) = Inr (x2 # x1 # x4 # x3 # x2 # x1 # s)"
| "op_2over _ = invalid_stack"

fun op_2rot :: "valtype list \<Rightarrow> valtype list script_result" where
  "op_2rot (x6 # x5 # x4 # x3 # x2 # x1 # s) = Inr (x2 # x1 # x6 # x5 # x4 # x3 # s)"
| "op_2rot _ = invalid_stack"

fun op_2swap :: "valtype list \<Rightarrow> valtype list script_result" where
  "op_2swap (x4 # x3 # x2 # x1 # s) = Inr (x2 # x1 # x4 # x3 # s)"
| "op_2swap _ = invalid_stack"

fun op_ifdup :: "valtype list \<Rightarrow> valtype list script_result" where
  "op_ifdup (x # s) = Inr (if CastToBool x then x # x # s else x # s)"
| "op_ifdup [] = invalid_stack"

definition op_depth :: "valtype list \<Rightarrow> valtype list script_result" where
  "op_depth s = Inr (serialize (int (length s)) # s)"

fun op_drop :: "valtype list \<Rightarrow> valtype list script_result" where
  "op_drop (x # s) = Inr s"
| "op_drop [] = invalid_stack"

fun op_dup :: "valtype list \<Rightarrow> valtype list script_result" where
  "op_dup (x # s) = Inr (x # x # s)"
| "op_dup [] = invalid_stack"

fun op_nip :: "valtype list \<Rightarrow> valtype list script_result" where
  "op_nip (x2 # x1 # s) = Inr (x2 # s)"
| "op_nip _ = invalid_stack"

fun op_over :: "valtype list \<Rightarrow> valtype list script_result" where
  "op_over (x2 # x1 # s) = Inr (x1 # x2 # x1 # s)"
| "op_over _ = invalid_stack"

definition op_pick_roll :: "script_ctx \<Rightarrow> opcodetype \<Rightarrow> valtype list \<Rightarrow> valtype list script_result" where
  "op_pick_roll c opcode s =
     (if length s < 2 then invalid_stack
      else bindE (num_arg c (s ! 0) nDefaultMaxNumSize) (\<lambda>m.
        let n = getint m; s' = tl s in
        if n < 0 \<or> n \<ge> int (length s') then invalid_stack
        else let vch = s' ! nat n in
             Inr (vch # (if opcode = OP_ROLL then take (nat n) s' @ drop (Suc (nat n)) s' else s'))))"

fun op_rot :: "valtype list \<Rightarrow> valtype list script_result" where
  "op_rot (x3 # x2 # x1 # s) = Inr (x1 # x3 # x2 # s)"
| "op_rot _ = invalid_stack"

fun op_swap :: "valtype list \<Rightarrow> valtype list script_result" where
  "op_swap (x2 # x1 # s) = Inr (x1 # x2 # s)"
| "op_swap _ = invalid_stack"

fun op_tuck :: "valtype list \<Rightarrow> valtype list script_result" where
  "op_tuck (x2 # x1 # s) = Inr (x2 # x1 # x2 # s)"
| "op_tuck _ = invalid_stack"

fun op_size :: "valtype list \<Rightarrow> valtype list script_result" where
  "op_size (x # s) = Inr (serialize (int (length x)) # x # s)"
| "op_size [] = invalid_stack"

fun op_equal :: "opcodetype \<Rightarrow> valtype list \<Rightarrow> valtype list script_result" where
  "op_equal opcode (x2 # x1 # s) =
     (if opcode = OP_EQUALVERIFY then (if x1 = x2 then Inr s else Inl SCRIPT_ERR_EQUALVERIFY)
      else Inr (bool_push (x1 = x2) # s))"
| "op_equal opcode _ = invalid_stack"

text \<open>Numeric operations.  The operands have at most four bytes, so the assertions of \<open>CScriptNum\<close>
  against overflow of 64 bits cannot fail.\<close>

definition num1_fun :: "opcodetype \<Rightarrow> int \<Rightarrow> int" where
  "num1_fun opcode bn =
     (if opcode = OP_1ADD then bn + 1
      else if opcode = OP_1SUB then bn - 1
      else if opcode = OP_NEGATE then - bn
      else if opcode = OP_ABS then (if bn < 0 then - bn else bn)
      else if opcode = OP_NOT then of_bool (bn = 0)
      else of_bool (bn \<noteq> 0))"

fun op_num1 :: "script_ctx \<Rightarrow> opcodetype \<Rightarrow> valtype list \<Rightarrow> valtype list script_result" where
  "op_num1 c opcode (x # s) =
     bindE (num_arg c x nDefaultMaxNumSize) (\<lambda>bn. Inr (serialize (num1_fun opcode bn) # s))"
| "op_num1 c opcode [] = invalid_stack"

definition num2_fun :: "opcodetype \<Rightarrow> int \<Rightarrow> int \<Rightarrow> int" where
  "num2_fun opcode bn1 bn2 =
     (if opcode = OP_ADD then bn1 + bn2
      else if opcode = OP_SUB then bn1 - bn2
      else if opcode = OP_BOOLAND then of_bool (bn1 \<noteq> 0 \<and> bn2 \<noteq> 0)
      else if opcode = OP_BOOLOR then of_bool (bn1 \<noteq> 0 \<or> bn2 \<noteq> 0)
      else if opcode = OP_NUMEQUAL then of_bool (bn1 = bn2)
      else if opcode = OP_NUMEQUALVERIFY then of_bool (bn1 = bn2)
      else if opcode = OP_NUMNOTEQUAL then of_bool (bn1 \<noteq> bn2)
      else if opcode = OP_LESSTHAN then of_bool (bn1 < bn2)
      else if opcode = OP_GREATERTHAN then of_bool (bn1 > bn2)
      else if opcode = OP_LESSTHANOREQUAL then of_bool (bn1 \<le> bn2)
      else if opcode = OP_GREATERTHANOREQUAL then of_bool (bn1 \<ge> bn2)
      else if opcode = OP_MIN then (if bn1 < bn2 then bn1 else bn2)
      else (if bn1 > bn2 then bn1 else bn2))"

fun op_num2 :: "script_ctx \<Rightarrow> opcodetype \<Rightarrow> valtype list \<Rightarrow> valtype list script_result" where
  "op_num2 c opcode (x2 # x1 # s) =
     bindE (num_arg c x1 nDefaultMaxNumSize) (\<lambda>bn1.
     bindE (num_arg c x2 nDefaultMaxNumSize) (\<lambda>bn2.
       let r = serialize (num2_fun opcode bn1 bn2) in
       if opcode = OP_NUMEQUALVERIFY
       then (if CastToBool r then Inr s else Inl SCRIPT_ERR_NUMEQUALVERIFY)
       else Inr (r # s)))"
| "op_num2 c opcode _ = invalid_stack"

fun op_within :: "script_ctx \<Rightarrow> valtype list \<Rightarrow> valtype list script_result" where
  "op_within c (x3 # x2 # x1 # s) =
     bindE (num_arg c x1 nDefaultMaxNumSize) (\<lambda>bn1.
     bindE (num_arg c x2 nDefaultMaxNumSize) (\<lambda>bn2.
     bindE (num_arg c x3 nDefaultMaxNumSize) (\<lambda>bn3.
       Inr (bool_push (bn2 \<le> bn1 \<and> bn1 < bn3) # s))))"
| "op_within c _ = invalid_stack"

definition script_hash :: "script_ctx \<Rightarrow> opcodetype \<Rightarrow> valtype \<Rightarrow> valtype" where
  "script_hash c opcode x =
     (if opcode = OP_RIPEMD160 then sc_ripemd160 c x
      else if opcode = OP_SHA1 then sc_sha1 c x
      else if opcode = OP_SHA256 then sc_sha256 c x
      else if opcode = OP_HASH160 then sc_ripemd160 c (sc_sha256 c x)
      else sc_sha256 c (sc_sha256 c x))"

fun op_hash :: "script_ctx \<Rightarrow> opcodetype \<Rightarrow> valtype list \<Rightarrow> valtype list script_result" where
  "op_hash c opcode (x # s) = Inr (script_hash c opcode x # s)"
| "op_hash c opcode [] = invalid_stack"

text \<open>Signature checks.  \<open>code\<close> is the script from the last code separator to the end.\<close>

definition sig_code :: "script \<Rightarrow> valtype list \<Rightarrow> script" where
  "sig_code code sigs = fold (\<lambda>sig sc. fst (FindAndDelete sc (push_data [] sig))) sigs code"

definition check_encodings :: "script_ctx \<Rightarrow> valtype \<Rightarrow> valtype \<Rightarrow> unit script_result" where
  "check_encodings c vchSig vchPubKey =
     bindE (CheckSignatureEncoding c vchSig) (\<lambda>_. CheckPubKeyEncoding c vchPubKey)"

fun op_checksig :: "script_ctx \<Rightarrow> opcodetype \<Rightarrow> script \<Rightarrow> valtype list \<Rightarrow> valtype list script_result" where
  "op_checksig c opcode code (vchPubKey # vchSig # s) =
     bindE (check_encodings c vchSig vchPubKey) (\<lambda>_.
       let fSuccess = ck_CheckSig (sc_checker c) vchSig vchPubKey (sig_code code [vchSig]) in
       if opcode = OP_CHECKSIGVERIFY
       then (if fSuccess then Inr s else Inl SCRIPT_ERR_CHECKSIGVERIFY)
       else Inr (bool_push fSuccess # s))"
| "op_checksig c opcode code _ = invalid_stack"

text \<open>The signatures and keys not yet used; the lengths are \<open>nSigsCount\<close> and \<open>nKeysCount\<close>, and a
  signature without a key is never reached because \<open>nSigsCount <= nKeysCount\<close> is kept.\<close>

fun multisig_loop :: "script_ctx \<Rightarrow> script \<Rightarrow> valtype list \<Rightarrow> valtype list \<Rightarrow> bool script_result" where
  "multisig_loop c code [] keys = Inr True"
| "multisig_loop c code (vchSig # sigs) [] = Inr False"
| "multisig_loop c code (vchSig # sigs) (vchPubKey # keys) =
     bindE (check_encodings c vchSig vchPubKey) (\<lambda>_.
       let fOk = ck_CheckSig (sc_checker c) vchSig vchPubKey code;
           sigs' = (if fOk then sigs else vchSig # sigs)
       in if length sigs' > length keys then Inr False else multisig_loop c code sigs' keys)"

definition multisig_counts :: "script_ctx \<Rightarrow> script_state \<Rightarrow> (nat \<times> nat \<times> int) script_result" where
  "multisig_counts c st =
     (let s = st_stack st in
      if length s < 1 then invalid_stack
      else bindE (num_arg c (s ! 0) nDefaultMaxNumSize) (\<lambda>k.
        let nKeys = getint k in
        if nKeys < 0 \<or> nKeys > int MAX_PUBKEYS_PER_MULTISIG then Inl SCRIPT_ERR_PUBKEY_COUNT
        else let nOpCount = st_nOpCount st + nKeys in
        if nOpCount > int MAX_OPS_PER_SCRIPT then Inl SCRIPT_ERR_OP_COUNT
        else let n = nat nKeys in
        if length s < 2 + n then invalid_stack
        else bindE (num_arg c (s ! (n + 1)) nDefaultMaxNumSize) (\<lambda>m.
          let nSigs = getint m in
          if nSigs < 0 \<or> nSigs > nKeys then Inl SCRIPT_ERR_SIG_COUNT
          else if length s < 3 + n + nat nSigs then invalid_stack
          else Inr (n, nat nSigs, nOpCount))))"

definition op_checkmultisig :: "script_ctx \<Rightarrow> opcodetype \<Rightarrow> script_state \<Rightarrow> script_state script_result" where
  "op_checkmultisig c opcode st =
     bindE (multisig_counts c st) (\<lambda>(n, m, nOpCount).
       let s = st_stack st;
           keys = take n (drop 1 s);
           sigs = take m (drop (n + 2) s);
           code = sig_code (st_begincodehash st) sigs
       in bindE (multisig_loop c code sigs keys) (\<lambda>fSuccess.
         let s1 = drop (n + m + 2) s in
         if ctx_flag c SCRIPT_VERIFY_NULLDUMMY \<and> length (s1 ! 0) \<noteq> 0 then Inl SCRIPT_ERR_SIG_NULLDUMMY
         else let st1 = st \<lparr> st_nOpCount := nOpCount \<rparr> in
         if opcode = OP_CHECKMULTISIGVERIFY
         then (if fSuccess then Inr (st1 \<lparr> st_stack := tl s1 \<rparr>) else Inl SCRIPT_ERR_CHECKMULTISIGVERIFY)
         else Inr (st1 \<lparr> st_stack := bool_push fSuccess # tl s1 \<rparr>)))"

text \<open>Control.\<close>

definition discouraged_nop :: "script_ctx \<Rightarrow> script_state \<Rightarrow> script_state script_result" where
  "discouraged_nop c st =
     (if ctx_flag c SCRIPT_VERIFY_DISCOURAGE_UPGRADABLE_NOPS
      then Inl SCRIPT_ERR_DISCOURAGE_UPGRADABLE_NOPS else Inr st)"

definition op_checklocktime :: "script_ctx \<Rightarrow> script_state \<Rightarrow> script_state script_result" where
  "op_checklocktime c st =
     (if \<not> ctx_flag c SCRIPT_VERIFY_CHECKLOCKTIMEVERIFY then discouraged_nop c st
      else if length (st_stack st) < 1 then invalid_stack
      else bindE (num_arg c (st_stack st ! 0) 5) (\<lambda>nLockTime.
        if nLockTime < 0 then Inl SCRIPT_ERR_NEGATIVE_LOCKTIME
        else if \<not> ck_CheckLockTime (sc_checker c) nLockTime then Inl SCRIPT_ERR_UNSATISFIED_LOCKTIME
        else Inr st))"

definition op_checksequence :: "script_ctx \<Rightarrow> script_state \<Rightarrow> script_state script_result" where
  "op_checksequence c st =
     (if \<not> ctx_flag c SCRIPT_VERIFY_CHECKSEQUENCEVERIFY then discouraged_nop c st
      else if length (st_stack st) < 1 then invalid_stack
      else bindE (num_arg c (st_stack st ! 0) 5) (\<lambda>nSequence.
        if nSequence < 0 then Inl SCRIPT_ERR_NEGATIVE_LOCKTIME
        else if nSequence AND uint SEQUENCE_LOCKTIME_DISABLE_FLAG \<noteq> 0 then Inr st
        else if \<not> ck_CheckSequence (sc_checker c) nSequence then Inl SCRIPT_ERR_UNSATISFIED_LOCKTIME
        else Inr st))"

definition op_if :: "opcodetype \<Rightarrow> bool \<Rightarrow> script_state \<Rightarrow> script_state script_result" where
  "op_if opcode fExec st =
     (if fExec
      then (case st_stack st of
              [] \<Rightarrow> Inl SCRIPT_ERR_UNBALANCED_CONDITIONAL
            | x # s \<Rightarrow>
                let fValue = (if opcode = OP_NOTIF then \<not> CastToBool x else CastToBool x) in
                Inr (st \<lparr> st_stack := s, st_vfExec := fValue # st_vfExec st \<rparr>))
      else Inr (st \<lparr> st_vfExec := False # st_vfExec st \<rparr>))"

definition op_else :: "script_state \<Rightarrow> script_state script_result" where
  "op_else st =
     (case st_vfExec st of
        [] \<Rightarrow> Inl SCRIPT_ERR_UNBALANCED_CONDITIONAL
      | f # fs \<Rightarrow> Inr (st \<lparr> st_vfExec := (\<not> f) # fs \<rparr>))"

definition op_endif :: "script_state \<Rightarrow> script_state script_result" where
  "op_endif st =
     (case st_vfExec st of
        [] \<Rightarrow> Inl SCRIPT_ERR_UNBALANCED_CONDITIONAL
      | f # fs \<Rightarrow> Inr (st \<lparr> st_vfExec := fs \<rparr>))"

definition op_toalt :: "script_state \<Rightarrow> script_state script_result" where
  "op_toalt st =
     (case st_stack st of
        [] \<Rightarrow> invalid_stack
      | x # s \<Rightarrow> Inr (st \<lparr> st_stack := s, st_altstack := x # st_altstack st \<rparr>))"

definition op_fromalt :: "script_state \<Rightarrow> script_state script_result" where
  "op_fromalt st =
     (case st_altstack st of
        [] \<Rightarrow> Inl SCRIPT_ERR_INVALID_ALTSTACK_OPERATION
      | x # a \<Rightarrow> Inr (st \<lparr> st_stack := x # st_stack st, st_altstack := a \<rparr>))"

subsection \<open>The switch over opcodes\<close>

text \<open>Operations on the main stack alone; \<open>None\<close> for an opcode that is not one of them.\<close>

definition exec_stack_op :: "script_ctx \<Rightarrow> opcodetype \<Rightarrow> valtype list \<Rightarrow> valtype list script_result option" where
  "exec_stack_op c opcode s =
     (if opcode = OP_1NEGATE \<or> (OP_1 \<le> opcode \<and> opcode \<le> OP_16) then Some (op_push_small opcode s)
      else if opcode = OP_VERIFY then Some (op_verify s)
      else if opcode = OP_2DROP then Some (op_2drop s)
      else if opcode = OP_2DUP then Some (op_2dup s)
      else if opcode = OP_3DUP then Some (op_3dup s)
      else if opcode = OP_2OVER then Some (op_2over s)
      else if opcode = OP_2ROT then Some (op_2rot s)
      else if opcode = OP_2SWAP then Some (op_2swap s)
      else if opcode = OP_IFDUP then Some (op_ifdup s)
      else if opcode = OP_DEPTH then Some (op_depth s)
      else if opcode = OP_DROP then Some (op_drop s)
      else if opcode = OP_DUP then Some (op_dup s)
      else if opcode = OP_NIP then Some (op_nip s)
      else if opcode = OP_OVER then Some (op_over s)
      else if opcode = OP_PICK \<or> opcode = OP_ROLL then Some (op_pick_roll c opcode s)
      else if opcode = OP_ROT then Some (op_rot s)
      else if opcode = OP_SWAP then Some (op_swap s)
      else if opcode = OP_TUCK then Some (op_tuck s)
      else if opcode = OP_SIZE then Some (op_size s)
      else if opcode = OP_EQUAL \<or> opcode = OP_EQUALVERIFY then Some (op_equal opcode s)
      else if opcode \<in> {OP_1ADD, OP_1SUB, OP_NEGATE, OP_ABS, OP_NOT, OP_0NOTEQUAL}
      then Some (op_num1 c opcode s)
      else if opcode \<in> {OP_ADD, OP_SUB, OP_BOOLAND, OP_BOOLOR, OP_NUMEQUAL, OP_NUMEQUALVERIFY,
                         OP_NUMNOTEQUAL, OP_LESSTHAN, OP_GREATERTHAN, OP_LESSTHANOREQUAL,
                         OP_GREATERTHANOREQUAL, OP_MIN, OP_MAX}
      then Some (op_num2 c opcode s)
      else if opcode = OP_WITHIN then Some (op_within c s)
      else if opcode \<in> {OP_RIPEMD160, OP_SHA1, OP_SHA256, OP_HASH160, OP_HASH256}
      then Some (op_hash c opcode s)
      else None)"

text \<open>Operations on the other parts of the state.  \<open>pc\<close> is the iterator after the instruction.\<close>

definition exec_state_op ::
  "script_ctx \<Rightarrow> opcodetype \<Rightarrow> script \<Rightarrow> bool \<Rightarrow> script_state \<Rightarrow> script_state script_result" where
  "exec_state_op c opcode pc fExec st =
     (if opcode = OP_NOP then Inr st
      else if opcode = OP_CHECKLOCKTIMEVERIFY then op_checklocktime c st
      else if opcode = OP_CHECKSEQUENCEVERIFY then op_checksequence c st
      else if opcode \<in> {OP_NOP1, OP_NOP4, OP_NOP5, OP_NOP6, OP_NOP7, OP_NOP8, OP_NOP9, OP_NOP10}
      then discouraged_nop c st
      else if opcode = OP_IF \<or> opcode = OP_NOTIF then op_if opcode fExec st
      else if opcode = OP_ELSE then op_else st
      else if opcode = OP_ENDIF then op_endif st
      else if opcode = OP_RETURN then Inl SCRIPT_ERR_OP_RETURN
      else if opcode = OP_TOALTSTACK then op_toalt st
      else if opcode = OP_FROMALTSTACK then op_fromalt st
      else if opcode = OP_CODESEPARATOR then Inr (st \<lparr> st_begincodehash := pc \<rparr>)
      else if opcode = OP_CHECKSIG \<or> opcode = OP_CHECKSIGVERIFY
      then with_stack st (op_checksig c opcode (st_begincodehash st) (st_stack st))
      else if opcode = OP_CHECKMULTISIG \<or> opcode = OP_CHECKMULTISIGVERIFY
      then op_checkmultisig c opcode st
      else Inl SCRIPT_ERR_BAD_OPCODE)"

definition exec_op ::
  "script_ctx \<Rightarrow> opcodetype \<Rightarrow> script \<Rightarrow> bool \<Rightarrow> script_state \<Rightarrow> script_state script_result" where
  "exec_op c opcode pc fExec st =
     (case exec_stack_op c opcode (st_stack st) of
        Some r \<Rightarrow> with_stack st r
      | None \<Rightarrow> exec_state_op c opcode pc fExec st)"

definition disabled_opcodes :: "opcodetype set" where
  "disabled_opcodes = {OP_CAT, OP_SUBSTR, OP_LEFT, OP_RIGHT, OP_INVERT, OP_AND, OP_OR, OP_XOR,
     OP_2MUL, OP_2DIV, OP_MUL, OP_DIV, OP_MOD, OP_LSHIFT, OP_RSHIFT}"

text \<open>One round of the loop of \<open>EvalScript\<close> after the instruction has been read.\<close>

definition exec_instr ::
  "script_ctx \<Rightarrow> opcodetype \<Rightarrow> valtype \<Rightarrow> script \<Rightarrow> script_state \<Rightarrow> script_state script_result" where
  "exec_instr c opcode vchPushValue pc st =
     (let fExec = list_all id (st_vfExec st) in
      if length vchPushValue > MAX_SCRIPT_ELEMENT_SIZE then Inl SCRIPT_ERR_PUSH_SIZE
      else let st0 = (if opcode > OP_16 then st \<lparr> st_nOpCount := st_nOpCount st + 1 \<rparr> else st) in
      if opcode > OP_16 \<and> st_nOpCount st0 > int MAX_OPS_PER_SCRIPT then Inl SCRIPT_ERR_OP_COUNT
      else if opcode \<in> disabled_opcodes then Inl SCRIPT_ERR_DISABLED_OPCODE
      else bindE
        (if fExec \<and> opcode \<le> OP_PUSHDATA4 then
           (if ctx_flag c SCRIPT_VERIFY_MINIMALDATA \<and> \<not> CheckMinimalPush vchPushValue opcode
            then Inl SCRIPT_ERR_MINIMALDATA
            else Inr (st0 \<lparr> st_stack := vchPushValue # st_stack st0 \<rparr>))
         else if fExec \<or> (OP_IF \<le> opcode \<and> opcode \<le> OP_ENDIF) then exec_op c opcode pc fExec st0
         else Inr st0)
        (\<lambda>st1. if length (st_stack st1) + length (st_altstack st1) > 1000
               then Inl SCRIPT_ERR_STACK_SIZE else Inr st1))"

function eval_loop :: "script_ctx \<Rightarrow> script \<Rightarrow> script_state \<Rightarrow> script_state script_result" where
  "eval_loop c pc st =
     (if pc = [] then Inr st
      else case GetOp pc of
        (False, _) \<Rightarrow> Inl SCRIPT_ERR_BAD_OPCODE
      | (True, opcode, vchPushValue, pc') \<Rightarrow>
          (case exec_instr c opcode vchPushValue pc' st of
             Inl e \<Rightarrow> Inl e
           | Inr st' \<Rightarrow> eval_loop c pc' st'))"
  by pat_completeness auto
termination by (relation "measure (\<lambda>(c, pc, st). length pc)") (auto dest: GetOp_True_length')

declare eval_loop.simps [simp del]

definition EvalScript :: "script_ctx \<Rightarrow> valtype list \<Rightarrow> script \<Rightarrow> valtype list script_result" where
  "EvalScript c stack script =
     (if length script > 10000 then Inl SCRIPT_ERR_SCRIPT_SIZE
      else bindE (eval_loop c script
               \<lparr> st_stack = stack, st_altstack = [], st_vfExec = [], st_nOpCount = 0,
                 st_begincodehash = script \<rparr>)
             (\<lambda>st. if st_vfExec st \<noteq> [] then Inl SCRIPT_ERR_UNBALANCED_CONDITIONAL
                   else Inr (st_stack st)))"

text \<open>\<open>VerifyScript\<close>: \<open>None\<close> is a failed assertion.\<close>

definition eval_true :: "valtype list \<Rightarrow> unit script_result" where
  "eval_true stack =
     (case stack of [] \<Rightarrow> Inl SCRIPT_ERR_EVAL_FALSE
      | x # s \<Rightarrow> if CastToBool x then Inr () else Inl SCRIPT_ERR_EVAL_FALSE)"

definition verify_p2sh :: "script_ctx \<Rightarrow> script \<Rightarrow> valtype list \<Rightarrow> valtype list script_result option" where
  "verify_p2sh c scriptSig stackCopy =
     (if \<not> IsPushOnly scriptSig then Some (Inl SCRIPT_ERR_SIG_PUSHONLY)
      else case stackCopy of
        [] \<Rightarrow> None
      | pubKeySerialized # s \<Rightarrow>
          Some (bindE (EvalScript c s pubKeySerialized)
                  (\<lambda>stack. bindE (eval_true stack) (\<lambda>_. Inr stack))))"

definition verify_cleanstack :: "script_ctx \<Rightarrow> valtype list \<Rightarrow> unit script_result option" where
  "verify_cleanstack c stack =
     (if ctx_flag c SCRIPT_VERIFY_CLEANSTACK then
        (if \<not> ctx_flag c SCRIPT_VERIFY_P2SH then None
         else if length stack \<noteq> 1 then Some (Inl SCRIPT_ERR_CLEANSTACK) else Some (Inr ()))
      else Some (Inr ()))"

definition VerifyScript :: "script_ctx \<Rightarrow> script \<Rightarrow> script \<Rightarrow> unit script_result option" where
  "VerifyScript c scriptSig scriptPubKey =
     (if ctx_flag c SCRIPT_VERIFY_SIGPUSHONLY \<and> \<not> IsPushOnly scriptSig
      then Some (Inl SCRIPT_ERR_SIG_PUSHONLY)
      else case EvalScript c [] scriptSig of
        Inl e \<Rightarrow> Some (Inl e)
      | Inr stack1 \<Rightarrow>
          (case bindE (EvalScript c stack1 scriptPubKey)
                  (\<lambda>s. bindE (eval_true s) (\<lambda>_. Inr s)) of
             Inl e \<Rightarrow> Some (Inl e)
           | Inr stack2 \<Rightarrow>
               (case (if ctx_flag c SCRIPT_VERIFY_P2SH \<and> IsPayToScriptHash scriptPubKey
                      then verify_p2sh c scriptSig stack1 else Some (Inr stack2)) of
                  None \<Rightarrow> None
                | Some (Inl e) \<Rightarrow> Some (Inl e)
                | Some (Inr stack3) \<Rightarrow> verify_cleanstack c stack3)))"

end
