(* ===== verification/Script_Props.thy ===== *)
theory Script_Props
  imports Script "HOL-Library.Sublist"
begin

unbundle bit_operations_syntax

text \<open>
  Properties of script numbers, of the push encoder and the opcode reader, of \<open>FindAndDelete\<close> and
  of the signature-operation count.
\<close>

subsection \<open>Little-endian magnitudes\<close>

fun le_val :: "valtype \<Rightarrow> int" where
  "le_val [] = 0"
| "le_val (b # bs) = uint b + 256 * le_val bs"

lemma uint_byte: "0 \<le> uint (b :: byte)" "uint b < 256"
  using unsigned_less [of b, where ?'a = int] by simp_all

lemma le_val_nonneg: "0 \<le> le_val bs"
  by (induction bs) (auto intro: add_nonneg_nonneg)

lemma le_val_less: "le_val bs < 256 ^ length bs"
proof (induction bs)
  case (Cons b bs)
  have "256 * (le_val bs + 1) \<le> 256 * 256 ^ length bs" using Cons by simp
  then show ?case using uint_byte(2) [of b] by simp
qed simp

lemma le_val_append: "le_val (xs @ ys) = le_val xs + 256 ^ length xs * le_val ys"
  by (induction xs) (simp_all add: algebra_simps)

lemma digit_bound:
  fixes x P d :: int
  assumes "0 \<le> x" "x < P" "0 \<le> d" "d \<le> 255"
  shows "x + P * d < 256 * P" "0 \<le> x + P * d"
proof -
  have "P * d \<le> P * 255" using assms by (intro mult_left_mono) simp_all
  then show "x + P * d < 256 * P" using assms by linarith
  show "0 \<le> x + P * d" using assms by (intro add_nonneg_nonneg mult_nonneg_nonneg) simp_all
qed

lemma OR_push_bit_add:
  assumes "0 \<le> (r :: int)" "r < 2 ^ k"
  shows "r OR push_bit k b = r + 2 ^ k * b"
proof -
  have "take_bit k r = r" using assms by (simp add: take_bit_int_eq_self)
  moreover have "take_bit k r AND push_bit k b = 0"
    by (auto intro!: bit_eqI simp: bit_and_iff bit_take_bit_iff bit_push_bit_iff)
  ultimately have "r AND push_bit k b = 0" by simp
  then show ?thesis by (simp add: disjunctive_add_eq_or [symmetric] push_bit_eq_mult mult.commute)
qed

lemma set_vch_loop_val:
  "0 \<le> r \<Longrightarrow> r < 256 ^ i \<Longrightarrow> set_vch_loop i bs r = r + 256 ^ i * le_val bs"
proof (induction i bs r rule: set_vch_loop.induct)
  case (2 i b bs r)
  have p: "(2::int) ^ (8 * i) = 256 ^ i" by (simp add: power_mult)
  have or: "r OR push_bit (8 * i) (uint b) = r + 256 ^ i * uint b"
    using OR_push_bit_add [of r "8 * i" "uint b"] 2(2,3) unfolding p by simp
  have "r + 256 ^ i * uint b < 256 * 256 ^ i" by (rule digit_bound) (use 2 uint_byte [of b] in simp_all)
  then have "r + 256 ^ i * uint b < 256 ^ (i + 1)" by simp
  then have "set_vch_loop (i + 1) bs (r + 256 ^ i * uint b)
      = r + 256 ^ i * uint b + 256 ^ (i + 1) * le_val bs"
    using 2(1) [unfolded or] 2(2) uint_byte(1) [of b] by simp
  then show ?case by (simp only: set_vch_loop.simps or) (simp add: algebra_simps)
qed simp

lemma byte_sign_iff: "b AND 0x80 \<noteq> 0 \<longleftrightarrow> 128 \<le> uint b" for b :: byte
proof -
  have "(0x80 :: byte) = push_bit 7 1" by simp
  then have "b AND 0x80 \<noteq> 0 \<longleftrightarrow> bit b 7" by (simp only: bit_iff_and_push_bit_not_eq_0)
  also have "\<dots> \<longleftrightarrow> bit (uint b) 7" by (simp add: bit_unsigned_iff)
  also have "\<dots> \<longleftrightarrow> odd (uint b div 128)" by (simp add: bit_iff_odd)
  also have "\<dots> \<longleftrightarrow> 128 \<le> uint b"
    using uint_byte [of b] by (cases "128 \<le> uint b") (auto simp: div_pos_pos_trivial, presburger)
  finally show ?thesis .
qed

lemma set_vch_snoc:
  "set_vch (xs @ [b]) =
     (if 128 \<le> uint b then - (le_val xs + 256 ^ length xs * (uint b - 128))
      else le_val xs + 256 ^ length xs * uint b)"
proof -
  define n where "n = length xs"
  define r where "r = le_val xs + 256 ^ n * uint b"
  have loop: "set_vch_loop 0 (xs @ [b]) 0 = r"
    by (simp add: set_vch_loop_val le_val_append r_def n_def)
  show ?thesis
  proof (cases "128 \<le> uint b")
    case True
    have pw: "(2 :: int) ^ (8 * n + 7) = 256 ^ n * 128" by (simp add: power_add power_mult)
    have "push_bit (8 * n) (0x80 :: int) = 2 ^ (8 * n + 7)" by (simp add: push_bit_eq_mult power_add)
    then have "r AND NOT (push_bit (8 * n) 0x80) = unset_bit (8 * n + 7) r"
      by (simp add: unset_bit_eq_and_not push_bit_of_1)
    also have "\<dots> = r - 2 ^ (8 * n + 7)"
    proof -
      have "r div 2 ^ (8 * n) = uint b"
        using le_val_nonneg [of xs] le_val_less [of xs] by (simp add: r_def n_def power_mult)
      then have "r div 2 ^ (8 * n + 7) = uint b div 128" by (simp add: power_add zdiv_zmult2_eq)
      moreover have "odd (uint b div 128)" using True uint_byte(2) [of b] by presburger
      ultimately have "bit r (8 * n + 7)" unfolding bit_iff_odd by metis
      then show ?thesis by (simp add: unset_bit_eq)
    qed
    also have "\<dots> = le_val xs + 256 ^ n * (uint b - 128)"
      unfolding pw r_def by (simp add: algebra_simps)
    finally show ?thesis
      using True by (simp add: set_vch_def loop byte_sign_iff n_def Let_def)
  next
    case False
    then show ?thesis by (simp add: set_vch_def loop byte_sign_iff n_def r_def Let_def)
  qed
qed

lemma set_vch_bound: "\<bar>set_vch vch\<bar> < 256 ^ length vch"
proof (cases vch rule: rev_cases)
  case (snoc xs b)
  note x = le_val_nonneg [of xs] le_val_less [of xs]
  show ?thesis
  proof (cases "128 \<le> uint b")
    case True
    then have "0 \<le> uint b - 128" "uint b - 128 \<le> 255" using uint_byte [of b] by simp_all
    from digit_bound [OF x this] show ?thesis using True by (simp only: snoc set_vch_snoc) simp
  next
    case False
    then have "0 \<le> uint b" "uint b \<le> 255" using uint_byte [of b] by simp_all
    from digit_bound [OF x this] show ?thesis using False by (simp only: snoc set_vch_snoc) simp
  qed
qed (simp add: set_vch_def)

subsection \<open>Encoding and decoding of script numbers\<close>

lemma uint_of_nat_mod: "uint (of_nat (n mod 256) :: byte) = int n mod 256"
  by (simp add: unsigned_of_nat take_bit_eq_mod zmod_int)

lemma le_val_abs_bytes: "le_val (abs_bytes n) = int n"
proof (induction n rule: abs_bytes.induct)
  case (1 n)
  show ?case
  proof (cases "n = 0")
    case False
    then have "le_val (abs_bytes n) = int n mod 256 + 256 * int (n div 256)"
      using 1 by (simp add: abs_bytes.simps [of n] uint_of_nat_mod)
    then show ?thesis by (simp add: zdiv_int)
  qed (simp add: abs_bytes.simps)
qed

lemma abs_bytes_last: "0 < n \<Longrightarrow> abs_bytes n \<noteq> [] \<and> last (abs_bytes n) \<noteq> 0"
proof (induction n rule: abs_bytes.induct)
  case (1 n)
  show ?case
  proof (cases "n div 256 = 0")
    case True
    then have "n < 256" by simp
    then have "uint (of_nat (n mod 256) :: byte) \<noteq> 0" using 1(2) by (simp only: uint_of_nat_mod) simp
    then have "(of_nat (n mod 256) :: byte) \<noteq> 0" by (metis unsigned_0)
    then show ?thesis using 1(2) True by (simp add: abs_bytes.simps [of n] abs_bytes.simps [of 0])
  next
    case False
    then show ?thesis using 1 by (simp add: abs_bytes.simps [of n])
  qed
qed

lemma abs_bytes_le_val: "bs = [] \<or> last bs \<noteq> 0 \<Longrightarrow> abs_bytes (nat (le_val bs)) = bs"
proof (induction bs)
  case (Cons b bs)
  define v where "v = le_val bs"
  have v: "0 \<le> v" by (simp add: v_def le_val_nonneg)
  have b: "0 \<le> uint b" "uint b < 256" by (rule uint_byte)+
  have pos: "0 < uint b + 256 * v"
  proof (cases "bs = []")
    case True
    then have "b \<noteq> 0" using Cons.prems by simp
    then have "uint b \<noteq> 0" by (metis unsigned_0 word_uint_eqI)
    then have "0 < uint b" using b by linarith
    then show ?thesis using v by linarith
  next
    case False
    then have "abs_bytes (nat v) = bs" using Cons by (simp add: v_def)
    then have "nat v \<noteq> 0" using False by (metis abs_bytes.simps)
    then show ?thesis using b v by linarith
  qed
  define m where "m = nat (uint b + 256 * v)"
  have m: "m mod 256 = nat (uint b)" "m div 256 = nat v"
    using b v by (simp_all add: m_def nat_mod_distrib [symmetric] nat_div_distrib [symmetric] flip: nat_numeral)
  have "(of_nat (m mod 256) :: byte) = b" by (simp add: m(1))
  moreover have "abs_bytes (m div 256) = bs" using Cons by (cases "bs = []") (auto simp: m(2) v_def abs_bytes.simps [of 0])
  moreover have "m \<noteq> 0" using pos by (simp add: m_def)
  ultimately show ?case by (simp add: abs_bytes.simps [of m] v_def [symmetric] flip: m_def)
qed (simp add: abs_bytes.simps)

lemma byte_or_sign: "uint b < 128 \<Longrightarrow> uint (b OR 0x80) = uint b + 128" for b :: byte
proof -
  assume b: "uint b < 128"
  have "uint (b OR 0x80) = uint b OR 0x80" by (simp add: unsigned_or_eq)
  also have "(0x80 :: int) = push_bit 7 1" by simp
  also have "uint b OR push_bit 7 1 = uint b + 2 ^ 7 * 1"
    by (rule OR_push_bit_add) (use b uint_byte in simp_all)
  finally show ?thesis by simp
qed

lemma set_vch_serialize: "set_vch (serialize v) = v"
proof (cases "v = 0")
  case False
  define bs where "bs = abs_bytes (nat \<bar>v\<bar>)"
  have val: "le_val bs = \<bar>v\<bar>" by (simp add: bs_def le_val_abs_bytes)
  obtain xs l where bs: "bs = xs @ [l]" using abs_bytes_last [of "nat \<bar>v\<bar>"] False by (cases bs rule: rev_cases) (auto simp: bs_def)
  have ser: "serialize v = (if last bs AND 0x80 \<noteq> 0 then bs @ [if v < 0 then 0x80 else 0]
           else if v < 0 then butlast bs @ [last bs OR 0x80] else bs)"
    using False by (simp add: serialize_def bs_def Let_def abs_if)
  have magn: "le_val xs + 256 ^ length xs * uint l = \<bar>v\<bar>" using val by (simp add: bs le_val_append)
  show ?thesis
  proof (cases "128 \<le> uint l")
    case True
    then show ?thesis using val by (auto simp: ser byte_sign_iff bs set_vch_snoc simp del: append_assoc)
  next
    case False
    then have "uint (l OR 0x80) = uint l + 128" by (intro byte_or_sign) simp
    then show ?thesis using False magn by (auto simp: ser byte_sign_iff bs set_vch_snoc)
  qed
qed (simp add: serialize_def set_vch_def)

lemma uint_low7: "uint (b AND 0x7f) = uint b mod 128" for b :: byte
proof -
  have "(0x7f :: byte) = mask 7" by (simp add: mask_eq_exp_minus_1)
  then have "b AND 0x7f = take_bit 7 b" by (simp only: take_bit_eq_mask)
  then have "uint (b AND 0x7f) = take_bit 7 (uint b)" by (simp only: unsigned_take_bit_eq)
  then show ?thesis by (simp add: take_bit_eq_mod)
qed

lemma byte_low7_zero_iff: "b AND 0x7f = 0 \<longleftrightarrow> uint b = 0 \<or> uint b = 128" for b :: byte
proof -
  have "uint (b AND 0x7f) = uint b mod 128" by (rule uint_low7)
  then have "b AND 0x7f = 0 \<longleftrightarrow> uint b mod 128 = 0"
    by (metis unsigned_0 word_uint_eqI)
  also have "\<dots> \<longleftrightarrow> uint b = 0 \<or> uint b = 128"
    using uint_byte [of b] by presburger
  finally show ?thesis .
qed

lemma byte_eqI: "uint a = uint b \<Longrightarrow> a = b" for a b :: byte
  by (rule word_uint_eqI)

lemma serialize_set_vch:
  assumes "minimal_num vch"
  shows "serialize (set_vch vch) = vch"
proof (cases vch rule: rev_cases)
  case Nil
  then show ?thesis by (simp add: set_vch_def serialize_def)
next
  case (snoc xs b)
  define P :: int where "P = 256 ^ length xs"
  note x = le_val_nonneg [of xs] le_val_less [of xs, folded P_def]
  have P: "0 < P" by (simp add: P_def)
  have b: "0 \<le> uint b" "uint b < 256" by (rule uint_byte)+
  define d where "d = (if 128 \<le> uint b then uint b - 128 else uint b)"
  have d: "0 \<le> d" "d < 128" using b by (auto simp: d_def)
  define m where "m = le_val xs + P * d"
  have sv: "set_vch vch = (if 128 \<le> uint b then - m else m)"
    by (simp add: snoc set_vch_snoc m_def d_def P_def)
  show ?thesis
  proof (cases "d = 0")
    case False
    define l where "l = (if 128 \<le> uint b then b AND 0x7f else b)"
    have low: "uint (b AND 0x7f) = uint b mod 128" by (rule uint_low7)
    have ul: "uint l = d"
    proof (cases "128 \<le> uint b")
      case True
      then have "uint b mod 128 = uint b - 128" using b by presburger
      then show ?thesis using True low by (simp add: l_def d_def)
    qed (simp add: l_def d_def)
    then have l0: "l \<noteq> 0" using False by auto
    have "le_val (xs @ [l]) = m" by (simp add: le_val_append ul m_def P_def)
    then have ab: "abs_bytes (nat m) = xs @ [l]" using abs_bytes_le_val [of "xs @ [l]"] l0 by simp
    have "0 < P * d" using P d False by simp
    then have m0: "0 < m" using x by (simp add: m_def)
    have nsign: "\<not> (l AND 0x80 \<noteq> 0)" using d by (simp add: byte_sign_iff ul)
    show ?thesis
    proof (cases "128 \<le> uint b")
      case True
      then have "l OR 0x80 = b"
        using byte_or_sign [of l] ul d by (intro byte_eqI) (simp add: d_def)
      moreover have "serialize (- m) = xs @ [l OR 0x80]"
        using m0 ab nsign by (simp add: serialize_def)
      ultimately show ?thesis using True sv snoc by simp
    next
      case False
      then have "l = b" by (simp add: l_def)
      moreover have "serialize m = xs @ [l]" using m0 ab nsign by (simp add: serialize_def)
      ultimately show ?thesis using False sv snoc by simp
    qed
  next
    case True
    then have b2: "uint b = 0 \<or> uint b = 128" by (auto simp: d_def split: if_splits)
    then have "b AND 0x7f = 0" by (simp add: byte_low7_zero_iff)
    then have pre: "1 < length vch" "vch ! (length vch - 2) AND 0x80 \<noteq> 0"
      using assms by (auto simp: minimal_num_def snoc)
    then obtain ys y where xs: "xs = ys @ [y]" by (cases xs rule: rev_cases) (auto simp: snoc)
    have y: "128 \<le> uint y" using pre(2) by (simp add: snoc xs nth_append byte_sign_iff)
    then have y0: "y \<noteq> 0" by auto
    have m: "m = le_val xs" using True by (simp add: m_def)
    have ab: "abs_bytes (nat m) = xs" unfolding m by (rule abs_bytes_le_val) (simp add: xs y0)
    have "0 < (256 :: int) ^ length ys * uint y" using y by simp
    then have m0: "0 < m" using le_val_nonneg [of ys] by (simp add: m xs le_val_append)
    have last: "last xs AND 0x80 \<noteq> 0" using y by (simp add: xs byte_sign_iff)
    show ?thesis
    proof (cases "uint b = 128")
      case True
      then have "b = 0x80" by (intro byte_eqI) simp
      then show ?thesis using m0 ab last True sv snoc by (simp add: serialize_def Let_def)
    next
      case False
      then have "b = 0" using b2 by (intro byte_eqI) simp
      then show ?thesis using m0 ab last False sv snoc by (simp add: serialize_def Let_def)
    qed
  qed
qed

lemma serialize_minimal: "minimal_num (serialize v)"
proof (cases "v = 0")
  case True
  then show ?thesis by (simp add: minimal_num_def serialize_def)
next
  case False
  define bs where "bs = abs_bytes (nat \<bar>v\<bar>)"
  obtain xs l where bs: "bs = xs @ [l]" and l: "l \<noteq> 0"
    using abs_bytes_last [of "nat \<bar>v\<bar>"] False by (cases bs rule: rev_cases) (auto simp: bs_def)
  have ser: "serialize v = (if last bs AND 0x80 \<noteq> 0 then bs @ [if v < 0 then 0x80 else 0]
           else if v < 0 then butlast bs @ [last bs OR 0x80] else bs)"
    using False by (simp add: serialize_def bs_def Let_def abs_if)
  have l1: "uint l \<noteq> 0" using l by (metis unsigned_0 word_uint_eqI)
  show ?thesis
  proof (cases "128 \<le> uint l")
    case True
    then show ?thesis by (simp add: ser bs byte_sign_iff minimal_num_def nth_append)
  next
    case False
    then have "uint (l OR 0x80) = uint l + 128" by (intro byte_or_sign) simp
    then have "uint (l OR 0x80) \<noteq> 0" "uint (l OR 0x80) \<noteq> 128" using l1 uint_byte(1) [of l] by linarith+
    then have "(l OR 0x80) AND 0x7f \<noteq> 0" "l AND 0x7f \<noteq> 0"
      using l1 False by (simp_all add: byte_low7_zero_iff)
    then show ?thesis using False by (simp add: ser bs byte_sign_iff minimal_num_def)
  qed
qed

subsection \<open>Pushes read back\<close>

lemma of_nat_byte_less: "n < 256 \<Longrightarrow> unat (of_nat n :: byte) = n"
  by (simp add: unat_of_nat)

lemma ReadLE16_WriteLE16: "n < 65536 \<Longrightarrow> ReadLE16 (WriteLE16 n @ xs) = n"
  by (simp add: ReadLE16_def WriteLE16_def of_nat_byte_less)

lemma ReadLE32_WriteLE32: "n < 4294967296 \<Longrightarrow> ReadLE32 (WriteLE32 n @ xs) = n"
proof -
  assume n: "n < 4294967296"
  have "n div 16777216 mod 256 = n div 16777216" using n by simp
  moreover have "n mod 256 + 256 * (n div 256 mod 256) + 65536 * (n div 65536 mod 256) + 16777216 * (n div 16777216) = n"
  proof -
    have e: "n div 65536 = n div 256 div 256" "n div 16777216 = n div 256 div 256 div 256"
      by (simp_all flip: div_mult2_eq)
    have "r0 + 256 * r1 + 65536 * r2 + 16777216 * a3 = n"
      if "n = 256 * a1 + r0" "a1 = 256 * a2 + r1" "a2 = 256 * a3 + r2" for a1 a2 a3 r0 r1 r2 :: nat
      using that by simp
    from this [of "n div 256" "n mod 256"] show ?thesis unfolding e by (simp only: mult_div_mod_eq)
  qed
  moreover have "unat (of_nat (n div 16777216) :: byte) = n div 16777216"
    by (rule of_nat_byte_less) (use n in simp)
  ultimately show ?thesis by (simp add: ReadLE32_def WriteLE32_def of_nat_byte_less)
qed

lemma push_opcodes:
  "unat OP_PUSHDATA1 = 76" "unat OP_PUSHDATA2 = 77" "unat OP_PUSHDATA4 = 78" "OP_PUSHDATA2 \<noteq> OP_PUSHDATA1" "OP_PUSHDATA4 \<noteq> OP_PUSHDATA1"
  "OP_PUSHDATA4 \<noteq> OP_PUSHDATA2" "OP_PUSHDATA1 \<le> OP_PUSHDATA4" "OP_PUSHDATA2 \<le> OP_PUSHDATA4"
  "\<not> OP_PUSHDATA1 < OP_PUSHDATA1" "\<not> OP_PUSHDATA2 < OP_PUSHDATA1" "\<not> OP_PUSHDATA4 < OP_PUSHDATA1"
  "op < OP_PUSHDATA1 \<longleftrightarrow> unat op < 76" "op \<le> OP_PUSHDATA4 \<longleftrightarrow> unat op \<le> 78"
  by (simp_all add: OP_PUSHDATA1_def OP_PUSHDATA2_def OP_PUSHDATA4_def word_less_nat_alt word_le_nat_alt)

lemma GetOp_push_data:
  assumes "length d < 2 ^ 32"
  shows "\<exists>op. GetOp (push_data [] d @ rest) = (True, op, d, rest) \<and> op \<le> OP_PUSHDATA4"
proof -
  consider "length d < 76" | "76 \<le> length d" "length d \<le> 255" | "255 < length d" "length d \<le> 65535"
    | "65535 < length d" by linarith
  then show ?thesis
  proof cases
    case 1
    define op where "op = (of_nat (length d) :: byte)"
    have u: "unat op = length d" using 1 by (simp add: op_def of_nat_byte_less)
    have "op < OP_PUSHDATA1" "op \<le> OP_PUSHDATA4" using 1 u by (simp_all add: push_opcodes)
    moreover have "push_data [] d = op # d" using 1 by (simp add: push_data_def push_opcodes op_def)
    ultimately show ?thesis using u by (simp add: GetOp_def GetOp_data_def)
  next
    case 2
    then show ?thesis by (simp add: push_data_def push_opcodes GetOp_def GetOp_data_def of_nat_byte_less)
  next
    case 3
    obtain x y where w: "WriteLE16 (length d) = [x, y]" by (simp add: WriteLE16_def)
    have rd: "ReadLE16 (x # y # d @ rest) = length d"
      using ReadLE16_WriteLE16 [of "length d" "d @ rest"] 3 by (simp add: w)
    have "push_data [] d = OP_PUSHDATA2 # x # y # d" using 3 by (simp add: push_data_def push_opcodes w)
    then show ?thesis using rd by (simp add: GetOp_def GetOp_data_def push_opcodes)
  next
    case 4
    obtain x y z u where w: "WriteLE32 (length d) = [x, y, z, u]" by (simp add: WriteLE32_def)
    have rd: "ReadLE32 (x # y # z # u # d @ rest) = length d"
      using ReadLE32_WriteLE32 [of "length d" "d @ rest"] assms by (simp add: w)
    have "push_data [] d = OP_PUSHDATA4 # x # y # z # u # d" using 4 by (simp add: push_data_def push_opcodes w)
    then show ?thesis using rd by (simp add: GetOp_def GetOp_data_def push_opcodes)
  qed
qed

lemma GetOp_suffix: "GetOp pc = (r, op, d, pc') \<Longrightarrow> suffix pc' pc"
  by (auto simp: GetOp_def GetOp_data_def suffix_drop split: list.splits if_splits
      intro: suffix_ConsI suffix_order.trans [OF suffix_drop])

subsection \<open>Counting signature operations\<close>

lemma DecodeOP_N_le: "OP_1 \<le> op \<Longrightarrow> op \<le> OP_16 \<Longrightarrow> the (DecodeOP_N op) \<le> MAX_PUBKEYS_PER_MULTISIG"
proof -
  assume a: "OP_1 \<le> op" "op \<le> OP_16"
  then have "unat op \<le> 96" "81 \<le> unat op" by (simp_all add: OP_1_def OP_16_def word_le_nat_alt)
  then show ?thesis using a
    by (auto simp: DecodeOP_N_def MAX_PUBKEYS_PER_MULTISIG_def OP_1_def OP_0_def)
qed

lemma sigop_loop_step:
  "pc \<noteq> [] \<Longrightarrow> GetOp pc = (True, op, d, pc') \<Longrightarrow>
   sigop_loop f pc l n = sigop_loop f pc' op
     (if op = OP_CHECKSIG \<or> op = OP_CHECKSIGVERIFY then n + 1
      else if op = OP_CHECKMULTISIG \<or> op = OP_CHECKMULTISIGVERIFY then
        (if f \<and> l \<ge> OP_1 \<and> l \<le> OP_16 then n + the (DecodeOP_N l) else n + MAX_PUBKEYS_PER_MULTISIG)
      else n)"
  by (simp add: sigop_loop.simps [of f pc l n])

lemma sigop_loop_stop: "pc = [] \<or> GetOp pc = (False, op, d, pc') \<Longrightarrow> sigop_loop f pc l n = n"
  by (auto simp: sigop_loop.simps [of f pc l n])

text \<open>Induction over the instructions of a script.\<close>

lemma script_induct [case_names Stop Step]:
  assumes stop: "\<And>pc. pc = [] \<or> (\<exists>op d pc'. GetOp pc = (False, op, d, pc')) \<Longrightarrow> P pc"
    and step: "\<And>pc op d pc'. pc \<noteq> [] \<Longrightarrow> GetOp pc = (True, op, d, pc') \<Longrightarrow> P pc' \<Longrightarrow> P pc"
  shows "P pc"
proof (induction "length pc" arbitrary: pc rule: less_induct)
  case less
  obtain ok op d pc' where g: "GetOp pc = (ok, op, d, pc')" by (metis prod_cases4)
  show ?case
  proof (cases "pc = [] \<or> \<not> ok")
    case True
    then show ?thesis using stop g by (cases "pc = []") auto
  next
    case False
    then have "GetOp pc = (True, op, d, pc')" using g by simp
    then show ?thesis using step [of pc op d pc'] less GetOp_True_length [of pc op d pc'] False by blast
  qed
qed

lemma sigop_loop_mono: "n \<le> n' \<Longrightarrow> sigop_loop True pc l n \<le> sigop_loop False pc l' n'"
proof (induction pc arbitrary: l l' n n' rule: script_induct)
  case (Stop pc)
  then show ?case by (metis sigop_loop_stop)
next
  case (Step pc op d pc')
  show ?case
    unfolding sigop_loop_step [OF Step(1,2)]
    by (rule Step(3)) (use Step(4) DecodeOP_N_le [of l] in auto)
qed

lemma sigop_loop_bound: "sigop_loop f pc l n \<le> n + MAX_PUBKEYS_PER_MULTISIG * length pc"
proof (induction pc arbitrary: l n rule: script_induct)
  case (Stop pc)
  then show ?case by (metis sigop_loop_stop le_add1)
next
  case (Step pc op d pc')
  define n1 where "n1 = (if op = OP_CHECKSIG \<or> op = OP_CHECKSIGVERIFY then n + 1
      else if op = OP_CHECKMULTISIG \<or> op = OP_CHECKMULTISIGVERIFY then
        (if f \<and> l \<ge> OP_1 \<and> l \<le> OP_16 then n + the (DecodeOP_N l) else n + MAX_PUBKEYS_PER_MULTISIG)
      else n)"
  have n1: "n1 \<le> n + MAX_PUBKEYS_PER_MULTISIG"
    using DecodeOP_N_le [of l] by (auto simp: n1_def MAX_PUBKEYS_PER_MULTISIG_def)
  have "length pc' + 1 \<le> length pc" using GetOp_True_length [OF Step(2)] by simp
  then have "MAX_PUBKEYS_PER_MULTISIG * (length pc' + 1) \<le> MAX_PUBKEYS_PER_MULTISIG * length pc"
    by (rule mult_le_mono2)
  then have "n1 + MAX_PUBKEYS_PER_MULTISIG * length pc' \<le> n + MAX_PUBKEYS_PER_MULTISIG * length pc"
    using n1 by simp
  then show ?case
    using Step(3) [of op n1] unfolding sigop_loop_step [OF Step(1,2)] n1_def [symmetric] by simp
qed

lemma IsPushOnly_step:
  "pc \<noteq> [] \<Longrightarrow> GetOp pc = (True, op, d, pc') \<Longrightarrow> IsPushOnly pc \<longleftrightarrow> op \<le> OP_16 \<and> IsPushOnly pc'"
  by (auto simp: IsPushOnly.simps [of pc] not_less)

lemma push_not_sigop:
  "op \<le> OP_16 \<Longrightarrow> op \<noteq> OP_CHECKSIG \<and> op \<noteq> OP_CHECKSIGVERIFY \<and> op \<noteq> OP_CHECKMULTISIG \<and> op \<noteq> OP_CHECKMULTISIGVERIFY"
  by (auto simp: OP_16_def OP_CHECKSIG_def OP_CHECKSIGVERIFY_def OP_CHECKMULTISIG_def
      OP_CHECKMULTISIGVERIFY_def word_le_nat_alt)

lemma sigop_loop_push_only: "IsPushOnly pc \<Longrightarrow> sigop_loop f pc l n = n"
proof (induction pc arbitrary: l n rule: script_induct)
  case (Stop pc)
  then show ?case by (metis sigop_loop_stop)
next
  case (Step pc op d pc')
  have "op \<le> OP_16" "IsPushOnly pc'" using IsPushOnly_step [OF Step(1,2)] Step(4) by auto
  then show ?case
    unfolding sigop_loop_step [OF Step(1,2)] using push_not_sigop [of op] Step(3) by simp
qed

lemma IsPushOnly_push_data: "length d < 2 ^ 32 \<Longrightarrow> IsPushOnly (push_data [] d @ rest) \<longleftrightarrow> IsPushOnly rest"
proof -
  assume "length d < 2 ^ 32"
  then obtain op where g: "GetOp (push_data [] d @ rest) = (True, op, d, rest)" "op \<le> OP_PUSHDATA4"
    using GetOp_push_data by blast
  have "op \<le> OP_16" using g(2) by (simp add: push_opcodes OP_16_def word_le_nat_alt)
  moreover have "push_data [] d @ rest \<noteq> []" using g(1) by (auto simp: GetOp_def)
  ultimately show ?thesis using IsPushOnly_step g(1) by blast
qed

subsection \<open>Deleting occurrences\<close>

text \<open>\<open>removes b xs ys n\<close>: \<open>ys\<close> is \<open>xs\<close> without \<open>n\<close> disjoint occurrences of \<open>b\<close>.\<close>

inductive removes :: "script \<Rightarrow> script \<Rightarrow> script \<Rightarrow> nat \<Rightarrow> bool" where
  removes_nil: "removes b [] [] 0"
| removes_keep: "removes b xs ys n \<Longrightarrow> removes b (x # xs) (x # ys) n"
| removes_del: "removes b xs ys n \<Longrightarrow> removes b (b @ xs) ys (Suc n)"

lemma removes_refl: "removes b xs xs 0"
  by (induction xs) (auto intro: removes.intros)

lemma removes_append: "removes b xs ys n \<Longrightarrow> removes b xs' ys' m \<Longrightarrow> removes b (xs @ xs') (ys @ ys') (n + m)"
  by (induction rule: removes.induct) (auto intro: removes.intros)

lemma removes_length: "removes b xs ys n \<Longrightarrow> length xs = length ys + n * length b"
  by (induction rule: removes.induct) auto

lemma removes_zero: "removes b xs ys n \<Longrightarrow> n = 0 \<Longrightarrow> ys = xs"
  by (induction rule: removes.induct) auto

lemma skip_matches_spec:
  "skip_matches b pc n = (pc', n') \<Longrightarrow> \<exists>k xs. pc = xs @ pc' \<and> removes b xs [] k \<and> n' = n + k"
proof (induction b pc n rule: skip_matches.induct)
  case (1 b pc n)
  show ?case
  proof (cases "b \<noteq> [] \<and> length pc \<ge> length b \<and> take (length b) pc = b")
    case True
    then have "skip_matches b (drop (length b) pc) (n + 1) = (pc', n')"
      using 1(2) by (simp add: skip_matches.simps [of b pc])
    then obtain k xs where k: "drop (length b) pc = xs @ pc'" "removes b xs [] k" "n' = n + 1 + k"
      using 1(1) True by blast
    have "pc = b @ xs @ pc'" using True k(1) by (metis append_take_drop_id)
    then show ?thesis using k removes_del [OF k(2)] by (intro exI [of _ "Suc k"] exI [of _ "b @ xs"]) simp
  next
    case False
    then have "(pc, n) = (pc', n')" using 1(2) by (simp only: skip_matches.simps [of b pc]) simp
    then show ?thesis using removes_nil by auto
  qed
qed

lemma find_loop_spec:
  "pc2 = mid @ pc \<Longrightarrow> find_loop b result pc2 pc n = (r, pc', n') \<Longrightarrow>
   \<exists>xs ys k. pc2 = xs @ pc' \<and> r = result @ ys \<and> removes b xs ys k \<and> n' = n + k"
proof (induction b result pc2 pc n arbitrary: mid rule: find_loop.induct)
  case (1 b result pc2 pc n)
  obtain pc3 n3 where sk: "skip_matches b pc n = (pc3, n3)" by fastforce
  obtain ok op d pc4 where g: "GetOp pc3 = (ok, op, d, pc4)" by (metis prod_cases4)
  obtain k xs where k: "pc = xs @ pc3" "removes b xs [] k" "n3 = n + k" using skip_matches_spec [OF sk] by blast
  have mid: "take (length pc2 - length pc) pc2 = mid" using 1(2) by simp
  have rm: "removes b (mid @ xs) mid k" using removes_append [OF removes_refl [of b mid] k(2)] by simp
  have unf: "find_loop b result pc2 pc n
      = (if ok then find_loop b (result @ mid) pc3 pc4 n3 else (result @ mid, pc3, n3))"
    by (subst find_loop.simps) (simp add: mid sk g Let_def)
  show ?case
  proof (cases ok)
    case False
    then show ?thesis using 1(2,3) unf k rm by auto
  next
    case True
    then obtain m2 where m2: "pc3 = m2 @ pc4" using GetOp_suffix [OF g] by (auto elim: suffixE)
    have "\<exists>xs ys k. pc3 = xs @ pc' \<and> r = (result @ mid) @ ys \<and> removes b xs ys k \<and> n' = n3 + k"
      by (rule 1(1) [OF _ sk [symmetric] refl g [symmetric] refl refl refl True m2])
        (use 1(3) unf True mid in simp_all)
    then obtain xs2 ys2 k2 where k2: "pc3 = xs2 @ pc'" "r = (result @ mid) @ ys2" "removes b xs2 ys2 k2" "n' = n3 + k2"
      by blast
    have "removes b ((mid @ xs) @ xs2) (mid @ ys2) (k + k2)" using removes_append [OF rm k2(3)] .
    then show ?thesis using 1(2) k k2 by auto
  qed
qed

lemma FindAndDelete_spec:
  "FindAndDelete s b = (s', n) \<Longrightarrow> b \<noteq> [] \<Longrightarrow> removes b s s' n"
proof -
  assume a: "FindAndDelete s b = (s', n)" "b \<noteq> []"
  obtain r pc2 m where f: "find_loop b [] s s 0 = (r, pc2, m)" by (metis prod_cases3)
  obtain xs ys k where k: "s = xs @ pc2" "r = ys" "removes b xs ys k" "m = k"
    using find_loop_spec [of s "[]" s b "[]" 0 r pc2 m] f by auto
  have "removes b s (r @ pc2) m" using removes_append [OF k(3) removes_refl [of b pc2]] k by simp
  then show ?thesis using a f removes_zero [of b s "r @ pc2" m] by (auto simp: FindAndDelete_def split: if_splits)
qed

subsection \<open>Properties\<close>

text \<open>With the minimality rule switched on, \<open>CScriptNum\<close> accepts exactly the byte strings that
  \<open>serialize\<close> produces, within the size limit, and reads each back as the number it came from.\<close>

theorem CScriptNum_minimal_roundtrip:
  "CScriptNum_of vch True n = Inr v \<longleftrightarrow> length vch \<le> n \<and> vch = serialize v"
  using serialize_set_vch [of vch] set_vch_serialize [of v] serialize_minimal [of v]
  by (auto simp: CScriptNum_of_def)

text \<open>The bytes appended by \<open>operator<<\<close> for any data below \<open>2 ^ 32\<close> bytes are read back by
  \<open>GetOp2\<close> as one push of exactly that data, and the iterator stops right behind it.\<close>

theorem push_data_GetOp_roundtrip:
  assumes "length d < 2 ^ 32"
  shows "\<exists>op. GetOp (push_data [] d @ rest) = (True, op, d, rest) \<and> op \<le> OP_PUSHDATA4"
  using assms by (rule GetOp_push_data)

lemma push_data_GetOp_roundtrip_witness:
  "\<exists>op. GetOp (push_data [] (replicate 300 7) @ [0xac]) = (True, op, replicate 300 7, [0xac])"
  using push_data_GetOp_roundtrip [of "replicate 300 7" "[0xac]"] by auto

text \<open>The accurate count of signature operations never exceeds the legacy count, which is at
  most 20 per byte, and a script of pushes has none.\<close>

theorem GetSigOpCount_bounds:
  "GetSigOpCount s True \<le> GetSigOpCount s False
   \<and> GetSigOpCount s False \<le> MAX_PUBKEYS_PER_MULTISIG * length s
   \<and> (IsPushOnly s \<longrightarrow> GetSigOpCount s f = 0)"
  using sigop_loop_mono [of 0 0 s OP_INVALIDOPCODE OP_INVALIDOPCODE] sigop_loop_bound [of False s OP_INVALIDOPCODE 0]
  by (simp add: GetSigOpCount_def sigop_loop_push_only)

lemma GetSigOpCount_bounds_witness:
  "GetSigOpCount (push_data [] [1, 2, 3]) False = 0"
proof -
  have "IsPushOnly (push_data [] [1, 2, 3] @ [])"
    by (subst IsPushOnly_push_data) (simp_all add: IsPushOnly.simps)
  then show ?thesis using GetSigOpCount_bounds [of "push_data [] [1, 2, 3]" False] by simp
qed

text \<open>\<open>FindAndDelete\<close> returns the script without as many disjoint occurrences of the pattern as
  it reports, so the length shrinks by that multiple, and an unreported pattern leaves the script
  unchanged.\<close>

theorem FindAndDelete_removes:
  assumes "b \<noteq> []" and "FindAndDelete s b = (s', n)"
  shows "removes b s s' n \<and> length s = length s' + n * length b \<and> (n = 0 \<longrightarrow> s' = s)"
  using FindAndDelete_spec [OF assms(2,1)] removes_length removes_zero by blast

lemma FindAndDelete_removes_witness:
  "removes [0xac] [0x51, 0xac, 0x52] (fst (FindAndDelete [0x51, 0xac, 0x52] [0xac]))
       (snd (FindAndDelete [0x51, 0xac, 0x52] [0xac]))"
  using FindAndDelete_removes [of "[0xac]" "[0x51, 0xac, 0x52]"
      "fst (FindAndDelete [0x51, 0xac, 0x52] [0xac])" "snd (FindAndDelete [0x51, 0xac, 0x52] [0xac])"]
  by simp

end
