(* ===== verification/Interpreter_Props.thy ===== *)
theory Interpreter_Props
  imports Interpreter Script_Props
begin

unbundle bit_operations_syntax

text \<open>
  Properties of the interpreter: resource bounds of a run, soft-fork safety of the verification
  flags, provably unspendable scripts, and the meaning of a pay-to-public-key-hash spend.
\<close>

subsection \<open>Fewer flags accept more\<close>

text \<open>\<open>c\<close> has a subset of the flags of \<open>c'\<close> and does not discourage the upgradable NOPs.\<close>

definition fewer_flags :: "script_ctx \<Rightarrow> script_ctx \<Rightarrow> bool" where
  "fewer_flags c c' \<longleftrightarrow>
     (\<forall>f. ctx_flag c f \<longrightarrow> ctx_flag c' f)
     \<and> \<not> ctx_flag c SCRIPT_VERIFY_DISCOURAGE_UPGRADABLE_NOPS
     \<and> sc_checker c = sc_checker c' \<and> sc_ripemd160 c = sc_ripemd160 c' \<and> sc_sha1 c = sc_sha1 c'
     \<and> sc_sha256 c = sc_sha256 c' \<and> sc_CheckLowS c = sc_CheckLowS c'"

lemma num_arg_mono: "fewer_flags c c' \<Longrightarrow> num_arg c' v n = Inr x \<Longrightarrow> num_arg c v n = Inr x"
  by (auto simp: num_arg_def CScriptNum_of_def fewer_flags_def split: sum.splits if_splits)

lemma bindE_num_arg_mono:
  assumes "fewer_flags c c'" "bindE (num_arg c' v n) f' = Inr y" "\<And>x. f' x = Inr y \<Longrightarrow> f x = Inr y"
  shows "bindE (num_arg c v n) f = Inr y"
  using assms num_arg_mono [OF assms(1)] by (fastforce simp: bindE_Inr_iff)

lemma check_encodings_mono:
  "fewer_flags c c' \<Longrightarrow> check_encodings c' sig key = Inr u \<Longrightarrow> check_encodings c sig key = Inr u"
  by (auto simp: check_encodings_def bindE_Inr_iff CheckSignatureEncoding_def CheckPubKeyEncoding_def
      IsLowDERSignature_def fewer_flags_def split: if_splits)

lemma op_pick_roll_mono:
  "fewer_flags c c' \<Longrightarrow> op_pick_roll c' op s = Inr s' \<Longrightarrow> op_pick_roll c op s = Inr s'"
  by (auto simp: op_pick_roll_def Let_def bindE_Inr_iff split: if_splits dest: num_arg_mono)

lemma op_num1_mono: "fewer_flags c c' \<Longrightarrow> op_num1 c' op s = Inr s' \<Longrightarrow> op_num1 c op s = Inr s'"
  by (cases s) (auto simp: bindE_Inr_iff dest: num_arg_mono)

fun_cases op_num2_InrE: "op_num2 c op s = Inr s'"
fun_cases op_within_InrE: "op_within c s = Inr s'"

lemma op_num2_mono: "fewer_flags c c' \<Longrightarrow> op_num2 c' op s = Inr s' \<Longrightarrow> op_num2 c op s = Inr s'"
  by (elim op_num2_InrE) (auto simp: bindE_Inr_iff Inr_bindE_iff dest: num_arg_mono)

lemma op_within_mono: "fewer_flags c c' \<Longrightarrow> op_within c' s = Inr s' \<Longrightarrow> op_within c s = Inr s'"
  by (elim op_within_InrE) (fastforce simp: bindE_Inr_iff Inr_bindE_iff dest: num_arg_mono)

lemma op_hash_eq: "fewer_flags c c' \<Longrightarrow> op_hash c op s = op_hash c' op s"
  by (cases s) (simp_all add: script_hash_def fewer_flags_def)

text \<open>Both sides of a chain of equal tests, branch by branch.\<close>

lemma if_branches:
  "(A' = X \<longrightarrow> A = X) \<Longrightarrow> (B' = X \<longrightarrow> B = X) \<Longrightarrow>
   (if P then A' else B') = X \<longrightarrow> (if P then A else B) = X"
  by simp

lemma bindE_branches:
  "(\<And>x. m' = Inr x \<longrightarrow> m = Inr x) \<Longrightarrow> (\<And>x. f' x = Inr y \<longrightarrow> f x = Inr y) \<Longrightarrow>
   bindE m' f' = Inr y \<longrightarrow> bindE m f = Inr y"
  by (auto simp: bindE_Inr_iff)

lemma exec_stack_op_mono:
  assumes ff: "fewer_flags c c'"
  shows "exec_stack_op c' op s = Some (Inr s') \<longrightarrow> exec_stack_op c op s = Some (Inr s')"
  unfolding exec_stack_op_def
  by (intro if_branches; simp only: option.inject option.distinct op_hash_eq [OF ff] simp_thms)
    (blast intro: op_pick_roll_mono [OF ff] op_num1_mono [OF ff] op_num2_mono [OF ff] op_within_mono [OF ff])+

lemma if_Some_None: "(if P then Some x else y) = None \<longleftrightarrow> \<not> P \<and> y = None"
  by simp

lemma exec_stack_op_None: "exec_stack_op c op s = None \<longleftrightarrow> exec_stack_op c' op s' = None"
  unfolding exec_stack_op_def by (simp only: if_Some_None)

lemma with_stack_Inr: "with_stack st r = Inr st' \<longleftrightarrow> (\<exists>s. r = Inr s \<and> st' = st \<lparr> st_stack := s \<rparr>)"
  by (auto simp: with_stack_def bindE_Inr_iff)

fun_cases op_checksig_InrE: "op_checksig c op code s = Inr s'"

lemma op_checksig_mono:
  assumes ff: "fewer_flags c c'"
  shows "op_checksig c' op code s = Inr s' \<Longrightarrow> op_checksig c op code s = Inr s'"
proof -
  have ck: "sc_checker c = sc_checker c'" using ff by (simp add: fewer_flags_def)
  show "op_checksig c' op code s = Inr s' \<Longrightarrow> op_checksig c op code s = Inr s'"
    by (elim op_checksig_InrE) (auto simp: bindE_Inr_iff Inr_bindE_iff ck dest: check_encodings_mono [OF ff])
qed

lemma multisig_loop_mono:
  "fewer_flags c c' \<Longrightarrow> multisig_loop c' code sigs keys = Inr r \<Longrightarrow> multisig_loop c code sigs keys = Inr r"
proof (induction c' code sigs keys rule: multisig_loop.induct)
  case (3 c' code sig sigs key keys)
  have ck: "sc_checker c = sc_checker c'" using 3(2) by (simp add: fewer_flags_def)
  have enc: "check_encodings c' sig key = Inr ()" using 3(3) by (auto simp: bindE_Inr_iff)
  then have enc': "check_encodings c sig key = Inr ()" by (rule check_encodings_mono [OF 3(2)])
  define sigs' where "sigs' = (if ck_CheckSig (sc_checker c') sig key code then sigs else sig # sigs)"
  show ?case
  proof (cases "length sigs' > length keys")
    case True
    then show ?thesis using 3(3) enc enc' by (simp add: ck sigs'_def Let_def)
  next
    case False
    have "multisig_loop c' code sigs' keys = Inr r"
      using 3(3) enc False by (simp add: sigs'_def Let_def)
    then have "multisig_loop c code sigs' keys = Inr r"
      using 3(1) [OF refl sigs'_def False 3(2)] by simp
    then show ?thesis using enc' False by (simp add: ck sigs'_def Let_def)
  qed
qed simp_all

lemma multisig_counts_mono:
  "fewer_flags c c' \<Longrightarrow> multisig_counts c' st = Inr x \<Longrightarrow> multisig_counts c st = Inr x"
  unfolding multisig_counts_def Let_def
  by (erule rev_mp, intro if_branches bindE_branches) (auto dest: num_arg_mono)

lemma op_checkmultisig_mono:
  assumes ff: "fewer_flags c c'" and e: "op_checkmultisig c' op st = Inr st'"
  shows "op_checkmultisig c op st = Inr st'"
proof -
  have nd: "ctx_flag c SCRIPT_VERIFY_NULLDUMMY \<Longrightarrow> ctx_flag c' SCRIPT_VERIFY_NULLDUMMY"
    using ff by (simp add: fewer_flags_def)
  obtain n m k where cnt: "multisig_counts c' st = Inr (n, m, k)"
    using e by (auto simp: op_checkmultisig_def bindE_Inr_iff)
  define code where "code = sig_code (st_begincodehash st) (take m (drop (n + 2) (st_stack st)))"
  define fin where "fin = (\<lambda>b. if op = OP_CHECKMULTISIGVERIFY
    then if b then Inr (st \<lparr> st_nOpCount := k, st_stack := tl (drop (n + m + 2) (st_stack st)) \<rparr>)
         else Inl SCRIPT_ERR_CHECKMULTISIGVERIFY
    else Inr (st \<lparr> st_nOpCount := k, st_stack := bool_push b # tl (drop (n + m + 2) (st_stack st)) \<rparr>))"
  have unfold: "op_checkmultisig d op st =
      bindE (multisig_loop d code (take m (drop (n + 2) (st_stack st))) (take n (drop 1 (st_stack st))))
        (\<lambda>b. if ctx_flag d SCRIPT_VERIFY_NULLDUMMY \<and> length (drop (n + m + 2) (st_stack st) ! 0) \<noteq> 0
             then Inl SCRIPT_ERR_SIG_NULLDUMMY else fin b)"
    if "multisig_counts d st = Inr (n, m, k)" for d
    unfolding op_checkmultisig_def that fin_def code_def Let_def bindE.simps prod.case ..
  obtain b where b: "multisig_loop c' code (take m (drop (n + 2) (st_stack st))) (take n (drop 1 (st_stack st))) = Inr b"
      "\<not> (ctx_flag c' SCRIPT_VERIFY_NULLDUMMY \<and> length (drop (n + m + 2) (st_stack st) ! 0) \<noteq> 0)" "fin b = Inr st'"
    using e unfolding unfold [OF cnt] bindE_Inr_iff by (metis Inl_Inr_False)
  show ?thesis
    unfolding unfold [OF multisig_counts_mono [OF ff cnt]] multisig_loop_mono [OF ff b(1)] bindE.simps
    using b(2,3) nd by metis
qed

lemma locktime_mono:
  assumes ff: "fewer_flags c c'"
  shows "op_checklocktime c' st = Inr st' \<Longrightarrow> op_checklocktime c st = Inr st'"
    and "op_checksequence c' st = Inr st' \<Longrightarrow> op_checksequence c st = Inr st'"
    and "discouraged_nop c' st = Inr st' \<Longrightarrow> discouraged_nop c st = Inr st'"
proof -
  have fl: "ctx_flag c f \<Longrightarrow> ctx_flag c' f" and nd: "\<not> ctx_flag c SCRIPT_VERIFY_DISCOURAGE_UPGRADABLE_NOPS"
    and ck: "sc_checker c = sc_checker c'" for f
    using ff by (simp_all add: fewer_flags_def)
  show "discouraged_nop c' st = Inr st' \<Longrightarrow> discouraged_nop c st = Inr st'"
    using nd by (simp add: discouraged_nop_def split: if_splits)
  show "op_checklocktime c' st = Inr st' \<Longrightarrow> op_checklocktime c st = Inr st'"
    using fl nd ck num_arg_mono [OF ff]
    by (cases "ctx_flag c SCRIPT_VERIFY_CHECKLOCKTIMEVERIFY")
      (auto simp: op_checklocktime_def discouraged_nop_def bindE_Inr_iff split: if_splits)
  show "op_checksequence c' st = Inr st' \<Longrightarrow> op_checksequence c st = Inr st'"
    using fl nd ck num_arg_mono [OF ff]
    by (cases "ctx_flag c SCRIPT_VERIFY_CHECKSEQUENCEVERIFY")
      (auto simp: op_checksequence_def discouraged_nop_def bindE_Inr_iff split: if_splits)
qed

lemma exec_state_op_mono:
  assumes ff: "fewer_flags c c'"
  shows "exec_state_op c' op pc fExec st = Inr st' \<longrightarrow> exec_state_op c op pc fExec st = Inr st'"
  unfolding exec_state_op_def
  by (intro if_branches)
    (auto simp: with_stack_Inr intro: locktime_mono [OF ff] op_checksig_mono [OF ff] op_checkmultisig_mono [OF ff])

lemma exec_op_mono:
  assumes ff: "fewer_flags c c'" and e: "exec_op c' op pc fExec st = Inr st'"
  shows "exec_op c op pc fExec st = Inr st'"
proof (cases "exec_stack_op c' op (st_stack st)")
  case None
  then have "exec_stack_op c op (st_stack st) = None" using exec_stack_op_None by blast
  then show ?thesis using e None exec_state_op_mono [OF ff] by (simp add: exec_op_def)
next
  case (Some r)
  then obtain s where "r = Inr s" using e by (auto simp: exec_op_def with_stack_Inr)
  then show ?thesis using e Some exec_stack_op_mono [OF ff] by (auto simp: exec_op_def)
qed

lemma exec_instr_mono:
  assumes ff: "fewer_flags c c'" and e: "exec_instr c' op v pc st = Inr st'"
  shows "exec_instr c op v pc st = Inr st'"
proof -
  have fl: "ctx_flag c SCRIPT_VERIFY_MINIMALDATA \<Longrightarrow> ctx_flag c' SCRIPT_VERIFY_MINIMALDATA"
    using ff by (simp add: fewer_flags_def)
  define big where "big = (\<lambda>st1. if length (st_stack st1) + length (st_altstack st1) > 1000
                           then Inl SCRIPT_ERR_STACK_SIZE else Inr (st1 :: script_state))"
  have "exec_instr c' op v pc st = Inr st' \<longrightarrow> exec_instr c op v pc st = Inr st'"
    unfolding exec_instr_def Let_def big_def [symmetric]
    using fl exec_op_mono [OF ff] by (intro if_branches) (auto simp: bindE_Inr_iff)
  then show ?thesis using e by blast
qed

lemma eval_loop_mono:
  "fewer_flags c c' \<Longrightarrow> eval_loop c' pc st = Inr st' \<Longrightarrow> eval_loop c pc st = Inr st'"
proof (induction pc arbitrary: st rule: script_induct)
  case (Stop pc)
  then show ?case by (auto simp: eval_loop.simps [of _ pc st] split: if_splits)
next
  case (Step pc op d pc')
  obtain st1 where st1: "exec_instr c' op d pc' st = Inr st1" "eval_loop c' pc' st1 = Inr st'"
    using Step(1,2,5) by (auto simp: eval_loop.simps [of c' pc st] split: sum.splits)
  show ?case
    using Step(1,2) exec_instr_mono [OF Step(4) st1(1)] Step(3) [OF Step(4) st1(2)]
    by (simp add: eval_loop.simps [of c pc st])
qed

lemma EvalScript_mono:
  "fewer_flags c c' \<Longrightarrow> EvalScript c' stack s = Inr r \<Longrightarrow> EvalScript c stack s = Inr r"
  using eval_loop_mono [of c c'] by (auto simp: EvalScript_def bindE_Inr_iff split: if_splits)

lemma VerifyScript_mono:
  assumes ff: "fewer_flags c c'" and nc: "\<not> ctx_flag c SCRIPT_VERIFY_CLEANSTACK"
    and v: "VerifyScript c' scriptSig scriptPubKey = Some (Inr ())"
  shows "VerifyScript c scriptSig scriptPubKey = Some (Inr ())"
proof -
  have fl: "ctx_flag c f \<Longrightarrow> ctx_flag c' f" for f using ff by (simp add: fewer_flags_def)
  have so: "\<not> (ctx_flag c' SCRIPT_VERIFY_SIGPUSHONLY \<and> \<not> IsPushOnly scriptSig)"
  proof
    assume "ctx_flag c' SCRIPT_VERIFY_SIGPUSHONLY \<and> \<not> IsPushOnly scriptSig"
    then show False using v by (simp add: VerifyScript_def)
  qed
  obtain s1 where s1: "EvalScript c' [] scriptSig = Inr s1"
    using v so by (auto simp: VerifyScript_def split: sum.splits if_splits)
  obtain s2 where s2: "EvalScript c' s1 scriptPubKey = Inr s2" "eval_true s2 = Inr ()"
    using v so s1 by (auto simp: VerifyScript_def bindE_Inr_iff split: sum.splits if_splits)
  have p2sh: "\<exists>s3. verify_p2sh c scriptSig s1 = Some (Inr s3)"
    if "ctx_flag c SCRIPT_VERIFY_P2SH" "IsPayToScriptHash scriptPubKey"
  proof -
    have "\<exists>s3. verify_p2sh c' scriptSig s1 = Some (Inr s3)"
      using v so s1 s2 that fl by (auto simp: VerifyScript_def split: sum.splits option.splits if_splits)
    then show ?thesis
      using EvalScript_mono [OF ff]
      by (auto simp: verify_p2sh_def bindE_Inr_iff split: list.splits if_splits)
  qed
  show ?thesis
    using so fl EvalScript_mono [OF ff s1] EvalScript_mono [OF ff s2(1)] s2(2) p2sh nc
    by (auto simp: VerifyScript_def verify_cleanstack_def split: option.splits)
qed

end
