(* ===== verification/Interp_Bounds.thy ===== *)
theory Interp_Bounds
  imports Interpreter_Props
begin

unbundle bit_operations_syntax

text \<open>
  Resource bounds of a run of the interpreter: the size of the elements, the size of the stacks and
  the number of operations; and scripts that no input can spend.
\<close>

subsection \<open>Sizes of numbers\<close>

lemma length_abs_bytes: "n < 256 ^ k \<Longrightarrow> length (abs_bytes n) \<le> k"
proof (induction n arbitrary: k rule: abs_bytes.induct)
  case (1 n)
  show ?case
  proof (cases "n = 0")
    case False
    then obtain j where k: "k = Suc j" using 1(2) by (cases k) auto
    have "n div 256 < 256 ^ j" using 1(2) by (simp add: k less_mult_imp_div_less mult.commute)
    then show ?thesis using 1(1) [of j] False by (simp add: abs_bytes.simps [of n] k)
  qed (simp add: abs_bytes.simps)
qed

lemma length_serialize: "\<bar>v\<bar> < 256 ^ k \<Longrightarrow> length (serialize v) \<le> k + 1"
proof -
  assume v: "\<bar>v\<bar> < 256 ^ k"
  have "int (nat \<bar>v\<bar>) < int (256 ^ k)" using v by simp
  then have "nat \<bar>v\<bar> < 256 ^ k" by (simp only: of_nat_less_iff)
  then have "length (abs_bytes (nat \<bar>v\<bar>)) \<le> k" by (rule length_abs_bytes)
  moreover have "length (serialize v) \<le> length (abs_bytes (nat \<bar>v\<bar>)) + 1"
    by (auto simp: serialize_def Let_def abs_if split: if_splits)
  ultimately show ?thesis by linarith
qed

definition small :: "valtype \<Rightarrow> bool" where
  "small v \<longleftrightarrow> length v \<le> MAX_SCRIPT_ELEMENT_SIZE"

lemma small_serialize: "\<bar>v\<bar> < 256 ^ 5 \<Longrightarrow> small (serialize v)"
  using length_serialize [of v 5] by (simp add: small_def MAX_SCRIPT_ELEMENT_SIZE_def)

lemma small_bool_push [simp]: "small (bool_push b)" "small []"
  by (simp_all add: small_def bool_push_def vchTrue_def vchFalse_def MAX_SCRIPT_ELEMENT_SIZE_def)

lemma small_length: "small v \<Longrightarrow> small (serialize (int (length v)))"
  by (rule small_serialize) (simp add: small_def MAX_SCRIPT_ELEMENT_SIZE_def)

lemma num_arg_bound: "num_arg c v 4 = Inr x \<Longrightarrow> \<bar>x\<bar> < 4294967296"
  using set_vch_bound [of v] power_increasing [of "length v" 4 "256 :: int"]
  by (auto simp: num_arg_def CScriptNum_of_def split: if_splits sum.splits)

lemma if_mem: "a \<in> S \<Longrightarrow> b \<in> S \<Longrightarrow> (if P then a else b) \<in> S"
  by simp

lemma small_num1: "\<bar>x\<bar> < 4294967296 \<Longrightarrow> small (serialize (num1_fun op x))"
proof (rule small_serialize)
  assume x: "\<bar>x\<bar> < 4294967296"
  have "num1_fun op x \<in> {v. \<bar>v\<bar> < 1099511627776}"
    unfolding num1_fun_def by (intro if_mem) (use x in simp_all)
  then show "\<bar>num1_fun op x\<bar> < 256 ^ 5" by simp
qed

lemma small_num2: "\<bar>x\<bar> < 4294967296 \<Longrightarrow> \<bar>y\<bar> < 4294967296 \<Longrightarrow> small (serialize (num2_fun op x y))"
proof (rule small_serialize)
  assume x: "\<bar>x\<bar> < 4294967296" "\<bar>y\<bar> < 4294967296"
  have "num2_fun op x y \<in> {v. \<bar>v\<bar> < 1099511627776}"
    unfolding num2_fun_def by (intro if_mem) (use x in simp_all)
  then show "\<bar>num2_fun op x y\<bar> < 256 ^ 5" by simp
qed

subsection \<open>Operations keep elements small\<close>

definition small_stack :: "valtype list \<Rightarrow> bool" where
  "small_stack s \<longleftrightarrow> (\<forall>v\<in>set s. small v)"

lemma small_stack_simps [simp]:
  "small_stack []" "small_stack (v # s) \<longleftrightarrow> small v \<and> small_stack s"
  "small_stack (xs @ ys) \<longleftrightarrow> small_stack xs \<and> small_stack ys"
  by (auto simp: small_stack_def)

lemma small_stack_take_drop: "small_stack s \<Longrightarrow> small_stack (take n s)" "small_stack s \<Longrightarrow> small_stack (drop n s)"
    "small_stack s \<Longrightarrow> small_stack (tl s)" "small_stack s \<Longrightarrow> n < length s \<Longrightarrow> small (s ! n)"
  by (auto simp: small_stack_def dest: in_set_takeD in_set_dropD) (cases s; simp)

definition small_hashes :: "script_ctx \<Rightarrow> bool" where
  "small_hashes c \<longleftrightarrow> (\<forall>x. small (sc_ripemd160 c x) \<and> small (sc_sha1 c x) \<and> small (sc_sha256 c x))"

fun_cases stack_op_InrEs: "op_verify s = Inr s'" "op_2drop s = Inr s'" "op_2dup s = Inr s'"
  "op_3dup s = Inr s'" "op_2over s = Inr s'" "op_2rot s = Inr s'" "op_2swap s = Inr s'"
  "op_ifdup s = Inr s'" "op_drop s = Inr s'" "op_dup s = Inr s'" "op_nip s = Inr s'"
  "op_over s = Inr s'" "op_rot s = Inr s'" "op_swap s = Inr s'" "op_tuck s = Inr s'"
  "op_size s = Inr s'" "op_equal op s = Inr s'" "op_num1 c op s = Inr s'" "op_num2 c op s = Inr s'"
  "op_within c s = Inr s'" "op_hash c op s = Inr s'"

lemma if_implies: "(A = X \<longrightarrow> R) \<Longrightarrow> (B = X \<longrightarrow> R) \<Longrightarrow> (if P then A else B) = X \<longrightarrow> R"
  by simp

lemma small_plain_ops:
  "small_stack s \<Longrightarrow> op_verify s = Inr s' \<Longrightarrow> small_stack s'"
  "small_stack s \<Longrightarrow> op_2drop s = Inr s' \<Longrightarrow> small_stack s'"
  "small_stack s \<Longrightarrow> op_2dup s = Inr s' \<Longrightarrow> small_stack s'"
  "small_stack s \<Longrightarrow> op_3dup s = Inr s' \<Longrightarrow> small_stack s'"
  "small_stack s \<Longrightarrow> op_2over s = Inr s' \<Longrightarrow> small_stack s'"
  "small_stack s \<Longrightarrow> op_2rot s = Inr s' \<Longrightarrow> small_stack s'"
  "small_stack s \<Longrightarrow> op_2swap s = Inr s' \<Longrightarrow> small_stack s'"
  "small_stack s \<Longrightarrow> op_ifdup s = Inr s' \<Longrightarrow> small_stack s'"
  "small_stack s \<Longrightarrow> op_drop s = Inr s' \<Longrightarrow> small_stack s'"
  "small_stack s \<Longrightarrow> op_dup s = Inr s' \<Longrightarrow> small_stack s'"
  "small_stack s \<Longrightarrow> op_nip s = Inr s' \<Longrightarrow> small_stack s'"
  "small_stack s \<Longrightarrow> op_over s = Inr s' \<Longrightarrow> small_stack s'"
  "small_stack s \<Longrightarrow> op_rot s = Inr s' \<Longrightarrow> small_stack s'"
  "small_stack s \<Longrightarrow> op_swap s = Inr s' \<Longrightarrow> small_stack s'"
  "small_stack s \<Longrightarrow> op_tuck s = Inr s' \<Longrightarrow> small_stack s'"
  "small_stack s \<Longrightarrow> op_size s = Inr s' \<Longrightarrow> small_stack s'"
  "small_stack s \<Longrightarrow> op_equal op s = Inr s' \<Longrightarrow> small_stack s'"
  by (auto elim!: stack_op_InrEs simp: small_length split: if_splits)

lemma small_num_ops:
  "small_stack s \<Longrightarrow> op_num1 c op s = Inr s' \<Longrightarrow> small_stack s'"
  "small_stack s \<Longrightarrow> op_num2 c op s = Inr s' \<Longrightarrow> small_stack s'"
  "small_stack s \<Longrightarrow> op_within c s = Inr s' \<Longrightarrow> small_stack s'"
  "small_stack s \<Longrightarrow> op_pick_roll c op s = Inr s' \<Longrightarrow> small_stack s'"
  by (auto elim!: stack_op_InrEs simp: bindE_Inr_iff Inr_bindE_iff nDefaultMaxNumSize_def Let_def op_pick_roll_def
      dest!: num_arg_bound intro!: small_num1 small_num2 small_stack_take_drop split: if_splits)

lemma small_op_hash: "small_hashes c \<Longrightarrow> small_stack s \<Longrightarrow> op_hash c op s = Inr s' \<Longrightarrow> small_stack s'"
  by (auto elim!: stack_op_InrEs simp: script_hash_def small_hashes_def)

lemma small_push_depth:
  "small_stack s \<Longrightarrow> op_push_small op s = Inr s' \<Longrightarrow> small_stack s'"
  "small_stack s \<Longrightarrow> length s \<le> 1000 \<Longrightarrow> op_depth s = Inr s' \<Longrightarrow> small_stack s'"
proof -
  have "\<bar>uint op - (uint OP_1 - 1)\<bar> \<le> 257"
    using uint_byte [of op] uint_byte [of OP_1] by linarith
  then have "\<bar>uint op - (uint OP_1 - 1)\<bar> < 256 ^ 5" by simp
  then show "small_stack s \<Longrightarrow> op_push_small op s = Inr s' \<Longrightarrow> small_stack s'"
    by (auto simp: op_push_small_def small_serialize)
qed (auto simp: op_depth_def intro!: small_serialize)

lemma exec_stack_op_small:
  assumes h: "small_hashes c" and s: "small_stack s" "length s \<le> 1000"
  shows "exec_stack_op c op s = Some (Inr s') \<longrightarrow> small_stack s'"
  unfolding exec_stack_op_def
  by (intro if_implies; simp only: option.inject option.distinct simp_thms)
    (blast intro: small_plain_ops [OF s(1)] small_num_ops [OF s(1)] small_op_hash [OF h s(1)]
      small_push_depth(1) [OF s(1)] small_push_depth(2) [OF s])+
fun_cases op_checksig_InrE': "op_checksig c op code s = Inr s'"

lemma small_op_checksig: "small_stack s \<Longrightarrow> op_checksig c op code s = Inr s' \<Longrightarrow> small_stack s'"
  by (elim op_checksig_InrE') (auto simp: bindE_Inr_iff Inr_bindE_iff Let_def split: if_splits)

text \<open>The state between two instructions.\<close>

definition state_ok :: "script_state \<Rightarrow> bool" where
  "state_ok st \<longleftrightarrow> small_stack (st_stack st) \<and> small_stack (st_altstack st)
     \<and> 0 \<le> st_nOpCount st \<and> st_nOpCount st \<le> int MAX_OPS_PER_SCRIPT"

lemma multisig_counts_Inr:
  assumes "multisig_counts c st = Inr (n, m, k)"
  shows "k = st_nOpCount st + int n" "k \<le> int MAX_OPS_PER_SCRIPT"
proof -
  have "multisig_counts c st = Inr (n, m, k) \<longrightarrow> k = st_nOpCount st + int n \<and> k \<le> int MAX_OPS_PER_SCRIPT"
    unfolding multisig_counts_def Let_def
    by (auto simp: bindE_Inr_iff)
  then show "k = st_nOpCount st + int n" "k \<le> int MAX_OPS_PER_SCRIPT" using assms by simp_all
qed

lemma op_checkmultisig_ok:
  assumes ok: "state_ok st" and e: "op_checkmultisig c op st = Inr st'"
  shows "state_ok st' \<and> st_nOpCount st \<le> st_nOpCount st'"
proof -
  obtain n m k where cnt: "multisig_counts c st = Inr (n, m, k)"
    using e by (auto simp: op_checkmultisig_def bindE_Inr_iff)
  note k = multisig_counts_Inr [OF cnt]
  show ?thesis
    using e ok k by (auto simp: op_checkmultisig_def cnt state_ok_def bindE_Inr_iff Let_def small_stack_take_drop
      split: if_splits)
qed

lemma control_ok:
  "state_ok st \<Longrightarrow> op_if op f st = Inr st' \<Longrightarrow> state_ok st' \<and> st_nOpCount st \<le> st_nOpCount st'"
  "state_ok st \<Longrightarrow> op_else st = Inr st' \<Longrightarrow> state_ok st' \<and> st_nOpCount st \<le> st_nOpCount st'"
  "state_ok st \<Longrightarrow> op_endif st = Inr st' \<Longrightarrow> state_ok st' \<and> st_nOpCount st \<le> st_nOpCount st'"
  "state_ok st \<Longrightarrow> op_toalt st = Inr st' \<Longrightarrow> state_ok st' \<and> st_nOpCount st \<le> st_nOpCount st'"
  "state_ok st \<Longrightarrow> op_fromalt st = Inr st' \<Longrightarrow> state_ok st' \<and> st_nOpCount st \<le> st_nOpCount st'"
  by (auto simp: state_ok_def op_if_def op_else_def op_endif_def op_toalt_def op_fromalt_def Let_def
      split: list.splits if_splits)

lemma unchanged:
  "discouraged_nop c st = Inr st' \<Longrightarrow> st' = st"
  "op_checklocktime c st = Inr st' \<Longrightarrow> st' = st"
  "op_checksequence c st = Inr st' \<Longrightarrow> st' = st"
  by (auto simp: discouraged_nop_def op_checklocktime_def op_checksequence_def bindE_Inr_iff split: if_splits)

lemma exec_state_op_ok:
  assumes ok: "state_ok st"
  shows "exec_state_op c op pc f st = Inr st' \<longrightarrow> state_ok st' \<and> st_nOpCount st \<le> st_nOpCount st'"
  unfolding exec_state_op_def
  by (intro if_implies)
    (use ok in \<open>auto simp: with_stack_Inr state_ok_def dest: unchanged small_op_checksig
      control_ok [OF ok] op_checkmultisig_ok [OF ok]\<close>)

lemma exec_op_ok:
  assumes h: "small_hashes c" and ok: "state_ok st" and l: "length (st_stack st) \<le> 1000"
    and e: "exec_op c op pc f st = Inr st'"
  shows "state_ok st' \<and> st_nOpCount st \<le> st_nOpCount st'"
proof (cases "exec_stack_op c op (st_stack st)")
  case None
  then show ?thesis using e exec_state_op_ok [OF ok] by (simp add: exec_op_def)
next
  case (Some r)
  then obtain s where s: "r = Inr s" "st' = st \<lparr> st_stack := s \<rparr>" using e by (auto simp: exec_op_def with_stack_Inr)
  have "small_stack s" using exec_stack_op_small [OF h _ l] Some s ok by (auto simp: state_ok_def)
  then show ?thesis using s(2) ok by (simp add: state_ok_def)
qed

lemma exec_instr_ok:
  assumes h: "small_hashes c" and ok: "state_ok st" and l: "length (st_stack st) \<le> 1000"
    and e: "exec_instr c op v pc st = Inr st'"
  shows "state_ok st' \<and> length (st_stack st') + length (st_altstack st') \<le> 1000
    \<and> st_nOpCount st + of_bool (op > OP_16) \<le> st_nOpCount st'"
proof -
  define st0 where "st0 = (if op > OP_16 then st \<lparr> st_nOpCount := st_nOpCount st + 1 \<rparr> else st)"
  have ne: "\<not> length v > MAX_SCRIPT_ELEMENT_SIZE" "\<not> (op > OP_16 \<and> st_nOpCount st0 > int MAX_OPS_PER_SCRIPT)"
    using e by (auto simp: exec_instr_def st0_def Let_def split: if_splits)
  have st0: "state_ok st0" "st_nOpCount st0 = st_nOpCount st + of_bool (op > OP_16)" "length (st_stack st0) \<le> 1000"
    using ok ne(2) l by (auto simp: st0_def state_ok_def)
  have push: "state_ok (st0 \<lparr> st_stack := v # st_stack st0 \<rparr>)" using st0 ne(1) by (simp add: state_ok_def small_def)
  define F where "F = list_all id (st_vfExec st)"
  have "exec_instr c op v pc st = Inr st' \<longrightarrow>
      (st' = st0 \<lparr> st_stack := v # st_stack st0 \<rparr> \<or> exec_op c op pc F st0 = Inr st' \<or> st' = st0)
      \<and> length (st_stack st') + length (st_altstack st') \<le> 1000"
    unfolding exec_instr_def st0_def [symmetric] Let_def F_def [symmetric]
    by (intro if_implies) (auto simp: bindE_Inr_iff split: if_split_asm)
  then show ?thesis
    using e push st0 exec_op_ok [OF h st0(1,3)] by fastforce
qed

text \<open>The instructions of a script that count towards \<open>nOpCount\<close>.\<close>

function count_ops :: "script \<Rightarrow> nat" where
  "count_ops pc =
     (if pc = [] then 0
      else case GetOp pc of (False, _) \<Rightarrow> 0
         | (True, op, d, pc') \<Rightarrow> of_bool (op > OP_16) + count_ops pc')"
  by pat_completeness auto
termination by (relation "measure length") (auto dest: GetOp_True_length')

declare count_ops.simps [simp del]

lemma eval_loop_ok:
  assumes h: "small_hashes c"
  shows "state_ok st \<Longrightarrow> length (st_stack st) + length (st_altstack st) \<le> 1000 \<Longrightarrow> eval_loop c pc st = Inr st' \<Longrightarrow>
    state_ok st' \<and> length (st_stack st') + length (st_altstack st') \<le> 1000
    \<and> st_nOpCount st + int (count_ops pc) \<le> st_nOpCount st'"
proof (induction pc arbitrary: st rule: script_induct)
  case (Stop pc)
  then show ?case by (auto simp: eval_loop.simps [of _ pc st] count_ops.simps [of pc] split: if_splits)
next
  case (Step pc op d pc')
  obtain st1 where st1: "exec_instr c op d pc' st = Inr st1" "eval_loop c pc' st1 = Inr st'"
    using Step(1,2,6) by (auto simp: eval_loop.simps [of c pc st] split: sum.splits)
  have i: "state_ok st1 \<and> length (st_stack st1) + length (st_altstack st1) \<le> 1000
      \<and> st_nOpCount st + of_bool (op > OP_16) \<le> st_nOpCount st1"
    using exec_instr_ok [OF h Step(4) _ st1(1)] Step(5) by simp
  have "state_ok st' \<and> length (st_stack st') + length (st_altstack st') \<le> 1000
      \<and> st_nOpCount st1 + int (count_ops pc') \<le> st_nOpCount st'"
    using Step(3) [OF _ _ st1(2)] i by simp
  then show ?case using i Step(1,2) by (auto simp: count_ops.simps [of pc])
qed

text \<open>C23: a run of \<open>EvalScript\<close> that succeeds keeps to the limits of the interpreter: when the hash
  functions return at most 520 bytes and the initial stack is within the limits, every element of
  the final stack has at most 520 bytes, the stack has at most 1000 elements, and the script has at
  most 10000 bytes and at most 201 instructions that count as operations.\<close>

theorem EvalScript_limits:
  assumes "small_hashes c" "\<forall>v\<in>set stack. length v \<le> 520" "length stack \<le> 1000"
    and "EvalScript c stack s = Inr stack'"
  shows "(\<forall>v\<in>set stack'. length v \<le> 520) \<and> length stack' \<le> 1000 \<and> length s \<le> 10000 \<and> count_ops s \<le> 201"
proof -
  obtain st' where st': "eval_loop c s \<lparr> st_stack = stack, st_altstack = [], st_vfExec = [], st_nOpCount = 0,
                 st_begincodehash = s \<rparr> = Inr st'" "stack' = st_stack st'" "length s \<le> 10000"
    using assms(4) by (auto simp: EvalScript_def bindE_Inr_iff split: if_splits)
  have "state_ok \<lparr> st_stack = stack, st_altstack = [], st_vfExec = [], st_nOpCount = 0, st_begincodehash = s \<rparr>"
    using assms(2) by (simp add: state_ok_def small_stack_def small_def MAX_SCRIPT_ELEMENT_SIZE_def)
  from eval_loop_ok [OF assms(1) this _ st'(1)] assms(3) show ?thesis
    by (auto simp: st'(2,3) state_ok_def small_stack_def small_def MAX_SCRIPT_ELEMENT_SIZE_def MAX_OPS_PER_SCRIPT_def)
qed

theorem EvalScript_limits_witness:
  "\<exists>c stack'. small_hashes c \<and> EvalScript c [[5]] [2, 7, 8] = Inr stack' \<and> stack' = [[7, 8], [5]]
    \<and> (\<forall>v\<in>set stack'. length v \<le> 520) \<and> length stack' \<le> 1000 \<and> length [2, 7, 8 :: byte] \<le> 10000 \<and> count_ops [2, 7, 8] \<le> 201"
proof -
  let ?c = "\<lparr> sc_flags = 0, sc_checker = BaseSignatureChecker, sc_ripemd160 = take 20, sc_sha1 = take 20,
     sc_sha256 = take 32, sc_CheckLowS = (\<lambda>_. True) \<rparr>"
  have h: "small_hashes ?c" by (simp add: small_hashes_def small_def MAX_SCRIPT_ELEMENT_SIZE_def min_def)
  have e: "EvalScript ?c [[5]] [2, 7, 8] = Inr [[7, 8], [5]]"
    by (simp add: EvalScript_def eval_loop.simps [of _ "[2, 7, 8]"] eval_loop.simps [of _ "[]"] GetOp_def GetOp_data_def
        exec_instr_def Let_def opcode_defs MAX_SCRIPT_ELEMENT_SIZE_def has_flag_def disabled_opcodes_def)
  have "(\<forall>v\<in>set [[7, 8], [5 :: byte]]. length v \<le> 520) \<and> length [[7, 8], [5 :: byte]] \<le> 1000 \<and> length [2, 7, 8 :: byte] \<le> 10000 \<and> count_ops [2, 7, 8 :: byte] \<le> 201"
    by (rule EvalScript_limits [OF h _ _ e]) simp_all
  then show ?thesis using h e by blast
qed

end
