(* ===== verification/Interp_Spend.thy ===== *)
theory Interp_Spend
  imports Interp_Bounds
begin

unbundle bit_operations_syntax

text \<open>
  What verification of particular scripts means: a script that starts with \<open>OP_RETURN\<close> cannot be
  spent, and a pay-to-public-key-hash output is spent exactly by a signature of the key it names.
\<close>

lemma eval_loop_step:
  "GetOp pc = (True, op, d, pc') \<Longrightarrow> eval_loop c pc st = bindE (exec_instr c op d pc' st) (eval_loop c pc')"
  by (cases "pc = []")
    (auto simp: eval_loop.simps [of c pc] GetOp_def [of "[]"] split: sum.splits elim: bindE.elims)

lemma GetOp_op: "op > OP_PUSHDATA4 \<Longrightarrow> GetOp (op # pc) = (True, op, [], pc)"
proof -
  assume "op > OP_PUSHDATA4"
  then have "\<not> op \<le> OP_PUSHDATA4" by simp
  then show ?thesis by (simp only: GetOp_def list.case if_False)
qed

lemma eval_loop_Nil: "eval_loop c [] st = Inr st"
  by (simp add: eval_loop.simps)

text \<open>An executed instruction that is not a push.\<close>

definition size_check :: "script_state \<Rightarrow> script_state script_result" where
  "size_check st = (if length (st_stack st) + length (st_altstack st) > 1000
     then Inl SCRIPT_ERR_STACK_SIZE else Inr st)"

lemma exec_instr_op:
  assumes "op > OP_16" "op \<notin> disabled_opcodes" "st_vfExec st = []" "st_nOpCount st < int MAX_OPS_PER_SCRIPT"
  shows "exec_instr c op [] pc st =
    bindE (exec_op c op pc True (st \<lparr> st_nOpCount := st_nOpCount st + 1 \<rparr>)) size_check"
proof -
  have "\<not> op \<le> OP_PUSHDATA4" using assms(1) by (auto simp: OP_16_def OP_PUSHDATA4_def word_le_nat_alt word_less_nat_alt)
  then show ?thesis using assms
    by (simp add: exec_instr_def Let_def MAX_OPS_PER_SCRIPT_def size_check_def [abs_def])
qed

lemma exec_instr_push:
  assumes "op \<le> OP_PUSHDATA4" "st_vfExec st = []" "length d \<le> 520" "CheckMinimalPush d op"
  shows "exec_instr c op d pc st = size_check (st \<lparr> st_stack := d # st_stack st \<rparr>)"
proof -
  have "\<not> op > OP_16" using assms(1) by (auto simp: OP_16_def OP_PUSHDATA4_def word_le_nat_alt word_less_nat_alt)
  moreover have "op \<notin> disabled_opcodes"
    using assms(1) by (auto simp: disabled_opcodes_def opcode_defs)
  ultimately show ?thesis using assms
    by (simp add: exec_instr_def Let_def MAX_SCRIPT_ELEMENT_SIZE_def size_check_def)
qed

lemma exec_op_values:
  "exec_op c OP_DUP pc f st = with_stack st (op_dup (st_stack st))"
  "exec_op c OP_HASH160 pc f st = with_stack st (op_hash c OP_HASH160 (st_stack st))"
  "exec_op c OP_EQUALVERIFY pc f st = with_stack st (op_equal OP_EQUALVERIFY (st_stack st))"
  by (simp_all add: exec_op_def exec_stack_op_def opcode_defs)

lemma exec_op_state_values:
  "exec_op c OP_CHECKSIG pc f st =
     with_stack st (op_checksig c OP_CHECKSIG (st_begincodehash st) (st_stack st))"
  "exec_op c OP_RETURN pc f st = Inl SCRIPT_ERR_OP_RETURN"
  by (simp_all add: exec_op_def exec_stack_op_def exec_state_op_def opcode_defs)

lemma plain_ops:
  "OP_DUP > OP_16 \<and> OP_DUP \<notin> disabled_opcodes \<and> OP_DUP > OP_PUSHDATA4"
  "OP_HASH160 > OP_16 \<and> OP_HASH160 \<notin> disabled_opcodes \<and> OP_HASH160 > OP_PUSHDATA4"
  "OP_EQUALVERIFY > OP_16 \<and> OP_EQUALVERIFY \<notin> disabled_opcodes \<and> OP_EQUALVERIFY > OP_PUSHDATA4"
  "OP_CHECKSIG > OP_16 \<and> OP_CHECKSIG \<notin> disabled_opcodes \<and> OP_CHECKSIG > OP_PUSHDATA4"
  "OP_RETURN > OP_16 \<and> OP_RETURN \<notin> disabled_opcodes \<and> OP_RETURN > OP_PUSHDATA4"
  by (simp_all add: disabled_opcodes_def opcode_defs word_less_nat_alt)

text \<open>An output whose script \<open>IsUnspendable\<close> reports can never be spent: whatever the input script,
  the flags and the checker, \<open>VerifyScript\<close> does not succeed, so dropping such outputs from the set
  of unspent coins loses nothing.\<close>

theorem IsUnspendable_never_spent:
  assumes "IsUnspendable scriptPubKey"
  shows "VerifyScript c scriptSig scriptPubKey \<noteq> Some (Inr ())"
proof -
  obtain pc where s: "scriptPubKey = OP_RETURN # pc"
    using assms by (cases scriptPubKey) (auto simp: IsUnspendable_def)
  have "EvalScript c stack scriptPubKey \<noteq> Inr r" for stack r
    using plain_ops(5)
    by (simp add: EvalScript_def s eval_loop_step [OF GetOp_op] exec_instr_op exec_op_state_values
        MAX_OPS_PER_SCRIPT_def)
  then show ?thesis
    by (auto simp: VerifyScript_def bindE_Inr_iff split: sum.splits if_splits elim: bindE.elims)
qed

theorem IsUnspendable_never_spent_witness:
  "VerifyScript \<lparr> sc_flags = 0, sc_checker = BaseSignatureChecker, sc_ripemd160 = id, sc_sha1 = id,
     sc_sha256 = id, sc_CheckLowS = (\<lambda>_. True) \<rparr> [OP_1] [OP_RETURN, 0x01, 0x07] \<noteq> Some (Inr ())"
  by (rule IsUnspendable_never_spent) (simp add: IsUnspendable_def)

subsection \<open>Pay to public key hash\<close>

definition p2pkh :: "byte list \<Rightarrow> script" where
  "p2pkh h = OP_DUP # OP_HASH160 # 20 # h @ [OP_EQUALVERIFY, OP_CHECKSIG]"

lemma IsPayToPublicKeyHash_p2pkh:
  "IsPayToPublicKeyHash s \<longleftrightarrow> (\<exists>h. length h = 20 \<and> s = p2pkh h)"
proof
  assume a: "IsPayToPublicKeyHash s"
  then have l: "length s = 25" by (simp add: IsPayToPublicKeyHash_def)
  have "s = s ! 0 # s ! 1 # s ! 2 # take 20 (drop 3 s) @ [s ! 23, s ! 24]"
    by (rule nth_equalityI) (use l in \<open>auto simp: nth_Cons nth_append numeral_eq_Suc less_Suc_eq split: nat.splits\<close>)
  then show "\<exists>h. length h = 20 \<and> s = p2pkh h"
    using a l by (intro exI [of _ "take 20 (drop 3 s)"]) (simp add: p2pkh_def IsPayToPublicKeyHash_def)
next
  assume "\<exists>h. length h = 20 \<and> s = p2pkh h"
  then show "IsPayToPublicKeyHash s" by (auto simp: p2pkh_def IsPayToPublicKeyHash_def nth_append)
qed

lemma GetOp_push20: "length h = 20 \<Longrightarrow> GetOp (20 # h @ pc) = (True, 20, h, pc)"
  by (simp add: GetOp_def GetOp_data_def push_opcodes)

lemma EvalScript_p2pkh:
  assumes h: "length h = 20" and r: "length rest \<le> 900"
  shows "EvalScript c (pub # sig # rest) (p2pkh h) =
    (if sc_ripemd160 c (sc_sha256 c pub) = h
     then bindE (check_encodings c sig pub)
       (\<lambda>_. Inr (bool_push (ck_CheckSig (sc_checker c) sig pub (sig_code (p2pkh h) [sig])) # rest))
     else Inl SCRIPT_ERR_EQUALVERIFY)"
proof -
  have push: "CheckMinimalPush h 20" "(20 :: byte) \<le> OP_PUSHDATA4"
    using h by (simp_all add: CheckMinimalPush_def OP_PUSHDATA4_def)
  have hash: "script_hash c OP_HASH160 pub = sc_ripemd160 c (sc_sha256 c pub)"
    by (simp add: script_hash_def opcode_defs)
  have sg: "OP_CHECKSIG \<noteq> OP_CHECKSIGVERIFY" by (simp add: opcode_defs)
  define code where "code = p2pkh h"
  have code: "eval_loop c code = eval_loop c (OP_DUP # OP_HASH160 # 20 # h @ [OP_EQUALVERIFY, OP_CHECKSIG])"
    "length code = 25"
    using h by (simp_all add: code_def p2pkh_def)
  show ?thesis
    unfolding EvalScript_def code_def [symmetric] code
    using h r plain_ops(1-4) push
    by (cases "check_encodings c sig pub")
     (simp_all add: eval_loop_step [OF GetOp_op] eval_loop_step [OF GetOp_push20] exec_instr_op
        exec_instr_push exec_op_values exec_op_state_values MAX_OPS_PER_SCRIPT_def with_stack_def size_check_def
        eval_loop_Nil hash sg Let_def sig_code_def)
qed

lemma direct_push:
  assumes "2 \<le> length d" "length d \<le> 75"
  shows "push_data [] d = of_nat (length d) # d" "GetOp (of_nat (length d) # d @ pc) = (True, of_nat (length d), d, pc)"
    "(of_nat (length d) :: byte) \<le> OP_PUSHDATA4" "CheckMinimalPush d (of_nat (length d))" "length d \<le> 520"
proof -
  have u: "unat (of_nat (length d) :: byte) = length d" using assms by (simp add: of_nat_byte_less)
  show "push_data [] d = of_nat (length d) # d" using assms by (simp add: push_data_def push_opcodes)
  show "GetOp (of_nat (length d) # d @ pc) = (True, of_nat (length d), d, pc)"
    using assms u by (simp add: GetOp_def GetOp_data_def push_opcodes)
  show "(of_nat (length d) :: byte) \<le> OP_PUSHDATA4" using assms u by (simp add: push_opcodes)
  have "length d \<noteq> 0" "length d \<noteq> 1" using assms by auto
  then show "CheckMinimalPush d (of_nat (length d))" unfolding CheckMinimalPush_def using assms u by simp
  show "length d \<le> 520" using assms by simp
qed

lemma EvalScript_two_pushes:
  assumes "2 \<le> length a" "length a \<le> 75" "2 \<le> length b" "length b \<le> 75"
  shows "EvalScript c [] (push_data [] a @ push_data [] b) = Inr [b, a]"
proof -
  note d = direct_push [OF assms(1,2)] and e = direct_push [OF assms(3,4)]
  show ?thesis using assms
    by (simp add: d(1) e(1) EvalScript_def eval_loop_step [OF d(2)] eval_loop_step [OF e(2) [of "[]", simplified]]
        exec_instr_push [OF d(3) _ d(5,4)] exec_instr_push [OF e(3) _ e(5,4)] size_check_def eval_loop_Nil)
qed

lemma CastToBool_bool_push [simp]: "CastToBool (bool_push b) = b"
  by (simp add: bool_push_def vchTrue_def vchFalse_def)

text \<open>C21: a pay-to-public-key-hash output is spent by a signature and a public key exactly when the key
  hashes to the value in the output, both encodings pass the checks that the flags ask for, and the
  checker accepts the signature for that key over the output script without the signature itself.\<close>

theorem p2pkh_spend_iff:
  assumes s: "IsPayToPublicKeyHash scriptPubKey"
    and sig: "2 \<le> length sig" "length sig \<le> 75" and pub: "2 \<le> length pub" "length pub \<le> 75"
    and fl: "ctx_flag c SCRIPT_VERIFY_CLEANSTACK \<Longrightarrow> ctx_flag c SCRIPT_VERIFY_P2SH"
  shows "VerifyScript c (push_data [] sig @ push_data [] pub) scriptPubKey = Some (Inr ()) \<longleftrightarrow>
    sc_ripemd160 c (sc_sha256 c pub) = take 20 (drop 3 scriptPubKey)
    \<and> CheckSignatureEncoding c sig = Inr () \<and> CheckPubKeyEncoding c pub = Inr ()
    \<and> ck_CheckSig (sc_checker c) sig pub (fst (FindAndDelete scriptPubKey (push_data [] sig)))"
proof -
  obtain h where h: "length h = 20" "scriptPubKey = p2pkh h" using s IsPayToPublicKeyHash_p2pkh by blast
  have th: "take 20 (drop 3 scriptPubKey) = h" using h by (simp add: p2pkh_def)
  have np: "\<not> IsPayToScriptHash scriptPubKey" using s by (simp add: IsPayToScriptHash_def IsPayToPublicKeyHash_def)
  have "IsPushOnly []" by (simp add: IsPushOnly.simps)
  then have po: "IsPushOnly (push_data [] sig @ push_data [] pub)"
    using IsPushOnly_push_data [of sig "push_data [] pub"] IsPushOnly_push_data [of pub "[]"] sig pub by simp
  have enc: "check_encodings c sig pub = Inr u \<longleftrightarrow> CheckSignatureEncoding c sig = Inr () \<and> CheckPubKeyEncoding c pub = Inr ()" for u
    by (auto simp: check_encodings_def bindE_Inr_iff)
  have ev: "EvalScript c [pub, sig] scriptPubKey =
    (if sc_ripemd160 c (sc_sha256 c pub) = h
     then bindE (check_encodings c sig pub)
       (\<lambda>_. Inr [bool_push (ck_CheckSig (sc_checker c) sig pub (fst (FindAndDelete scriptPubKey (push_data [] sig))))])
     else Inl SCRIPT_ERR_EQUALVERIFY)"
    using EvalScript_p2pkh [OF h(1), of "[]" c pub sig] by (simp add: h(2) sig_code_def)
  show ?thesis
    unfolding VerifyScript_def EvalScript_two_pushes [OF sig pub] th sum.case ev
    using po np fl enc
    by (cases "check_encodings c sig pub") (auto simp: eval_true_def verify_cleanstack_def)
qed

theorem p2pkh_spend_iff_witness:
  "VerifyScript \<lparr> sc_flags = 0x101, sc_checker = BaseSignatureChecker \<lparr> ck_CheckSig := \<lambda>sig pub code. sig = [5, 6] \<rparr>,
     sc_ripemd160 = take 20, sc_sha1 = id, sc_sha256 = id, sc_CheckLowS = (\<lambda>_. True) \<rparr>
    (push_data [] [5, 6] @ push_data [] (replicate 33 2)) (p2pkh (replicate 20 2)) = Some (Inr ())"
proof -
  have "IsPayToPublicKeyHash (p2pkh (replicate 20 2))"
    using IsPayToPublicKeyHash_p2pkh by (metis length_replicate)
  note p2pkh_spend_iff [OF this, of "[5, 6]" "replicate 33 2"
      "\<lparr> sc_flags = 0x101, sc_checker = BaseSignatureChecker \<lparr> ck_CheckSig := \<lambda>sig pub code. sig = [5, 6] \<rparr>,
     sc_ripemd160 = take 20, sc_sha1 = id, sc_sha256 = id, sc_CheckLowS = (\<lambda>_. True) \<rparr>"]
  then show ?thesis
    by (simp add: has_flag_def SCRIPT_VERIFY_P2SH_def SCRIPT_VERIFY_CLEANSTACK_def bit_iff_odd
        CheckSignatureEncoding_def SCRIPT_VERIFY_DERSIG_def SCRIPT_VERIFY_LOW_S_def SCRIPT_VERIFY_STRICTENC_def
        CheckPubKeyEncoding_def p2pkh_def)
qed

text \<open>C12: raising the verification flags is a soft fork: whatever verifies under a set of flags also
  verifies under any subset of it that neither discourages the upgradable NOPs nor asks for a clean
  stack, with the same checker and hash functions.\<close>

theorem VerifyScript_soft_fork:
  assumes "fewer_flags c c'" "\<not> ctx_flag c SCRIPT_VERIFY_CLEANSTACK"
    and "VerifyScript c' scriptSig scriptPubKey = Some (Inr ())"
  shows "VerifyScript c scriptSig scriptPubKey = Some (Inr ())"
  using assms by (rule VerifyScript_mono)

theorem VerifyScript_soft_fork_witness:
  "VerifyScript \<lparr> sc_flags = 0, sc_checker = BaseSignatureChecker, sc_ripemd160 = id, sc_sha1 = id,
     sc_sha256 = id, sc_CheckLowS = (\<lambda>_. True) \<rparr> (push_data [] [5, 6] @ push_data [] [7, 8]) [] = Some (Inr ())"
proof (rule VerifyScript_soft_fork)
  let ?c = "\<lparr> sc_flags = 0x67f, sc_checker = BaseSignatureChecker, sc_ripemd160 = id, sc_sha1 = id,
     sc_sha256 = id, sc_CheckLowS = (\<lambda>_. True) \<rparr>"
  show "fewer_flags \<lparr> sc_flags = 0, sc_checker = BaseSignatureChecker, sc_ripemd160 = id, sc_sha1 = id,
     sc_sha256 = id, sc_CheckLowS = (\<lambda>_. True) \<rparr> ?c"
    by (simp add: fewer_flags_def has_flag_def)
  have po: "IsPushOnly (push_data [] [5, 6] @ push_data [] [7, 8])"
    using IsPushOnly_push_data [of "[5, 6]" "push_data [] [7, 8]"] IsPushOnly_push_data [of "[7, 8]" "[]"]
    by (simp add: IsPushOnly.simps [of "[]"])
  show "VerifyScript ?c (push_data [] [5, 6] @ push_data [] [7, 8]) [] = Some (Inr ())"
    using po EvalScript_two_pushes [of "[5, 6]" "[7, 8]" ?c]
    by (simp add: VerifyScript_def EvalScript_def eval_loop_Nil eval_true_def IsPayToScriptHash_def
        verify_cleanstack_def has_flag_def SCRIPT_VERIFY_CLEANSTACK_def bit_iff_odd)
qed (simp add: has_flag_def)

end
