(* ===== verification/SigHash.thy ===== *)
theory SigHash
  imports Interp_Spend Tx_Check
begin

unbundle bit_operations_syntax

text \<open>
  The signature hash and the signature checker of a transaction (the second half of
  src/src/script/interpreter.cpp).  The double-SHA256 of \<open>CHashWriter\<close> and the ECDSA verification are
  parameters.
\<close>

subsection \<open>The serialization that is signed\<close>

definition fAnyoneCanPay :: "int \<Rightarrow> bool" where
  "fAnyoneCanPay nHashType \<longleftrightarrow> nHashType AND SIGHASH_ANYONECANPAY \<noteq> 0"

definition fHashSingle :: "int \<Rightarrow> bool" where
  "fHashSingle nHashType \<longleftrightarrow> nHashType AND 0x1f = SIGHASH_SINGLE"

definition fHashNone :: "int \<Rightarrow> bool" where
  "fHashNone nHashType \<longleftrightarrow> nHashType AND 0x1f = SIGHASH_NONE"

text \<open>The second pass of \<open>SerializeScriptCode\<close>: \<open>it\<close>, \<open>itBegin\<close> and what has been written.  A read that
  fails leaves \<open>it\<close> behind the opcode and its size, so the tail is written up to there only.\<close>

function code_loop :: "script \<Rightarrow> script \<Rightarrow> byte list \<Rightarrow> script \<times> script \<times> byte list" where
  "code_loop it itBegin s =
     (case GetOp it of
        (True, opcode, d, it') \<Rightarrow>
          if opcode = OP_CODESEPARATOR
          then code_loop it' it' (s @ take (length itBegin - length it' - 1) itBegin)
          else code_loop it' itBegin s
      | (False, opcode, d, it') \<Rightarrow> (it', itBegin, s))"
  by pat_completeness auto
termination by (relation "measure (\<lambda>(it, b, s). length it)") (auto dest: GetOp_True_length')

declare code_loop.simps [simp del]

definition SerializeScriptCode :: "script \<Rightarrow> byte list" where
  "SerializeScriptCode scriptCode =
     (let nCodeSeparators = find_op_loop OP_CODESEPARATOR scriptCode 0;
          (it, itBegin, s) = code_loop scriptCode scriptCode []
      in WriteCompactSize (length scriptCode - nCodeSeparators) @ s
         @ (if itBegin \<noteq> [] then take (length itBegin - length it) itBegin else []))"

definition SerializeInput :: "CTransaction \<Rightarrow> script \<Rightarrow> nat \<Rightarrow> int \<Rightarrow> nat \<Rightarrow> byte list" where
  "SerializeInput txTo scriptCode nIn nHashType nInput0 =
     (let nInput = (if fAnyoneCanPay nHashType then nIn else nInput0) in
      ser_COutPoint (txin_prevout (tx_vin txTo ! nInput))
      @ (if nInput \<noteq> nIn then ser_bytes [] else SerializeScriptCode scriptCode)
      @ (if nInput \<noteq> nIn \<and> (fHashSingle nHashType \<or> fHashNone nHashType) then ser_int32 0
         else ser_writedata32 (txin_nSequence (tx_vin txTo ! nInput))))"

definition SerializeOutput :: "CTransaction \<Rightarrow> nat \<Rightarrow> int \<Rightarrow> nat \<Rightarrow> byte list" where
  "SerializeOutput txTo nIn nHashType nOutput =
     (if fHashSingle nHashType \<and> nOutput \<noteq> nIn then ser_CTxOut CTxOut_null
      else ser_CTxOut (tx_vout txTo ! nOutput))"

definition sig_nInputs :: "CTransaction \<Rightarrow> int \<Rightarrow> nat" where
  "sig_nInputs txTo nHashType = (if fAnyoneCanPay nHashType then 1 else length (tx_vin txTo))"

definition sig_nOutputs :: "CTransaction \<Rightarrow> nat \<Rightarrow> int \<Rightarrow> nat" where
  "sig_nOutputs txTo nIn nHashType =
     (if fHashNone nHashType then 0 else if fHashSingle nHashType then nIn + 1 else length (tx_vout txTo))"

definition ser_for_signature :: "CTransaction \<Rightarrow> script \<Rightarrow> nat \<Rightarrow> int \<Rightarrow> byte list" where
  "ser_for_signature txTo scriptCode nIn nHashType =
     ser_int32 (tx_nVersion txTo)
     @ WriteCompactSize (sig_nInputs txTo nHashType)
     @ concat (map (SerializeInput txTo scriptCode nIn nHashType) [0..<sig_nInputs txTo nHashType])
     @ WriteCompactSize (sig_nOutputs txTo nIn nHashType)
     @ concat (map (SerializeOutput txTo nIn nHashType) [0..<sig_nOutputs txTo nIn nHashType])
     @ ser_writedata32 (tx_nLockTime txTo)"

definition SignatureHash :: "(byte list \<Rightarrow> uint256) \<Rightarrow> script \<Rightarrow> CTransaction \<Rightarrow> nat \<Rightarrow> int \<Rightarrow> uint256" where
  "SignatureHash H scriptCode txTo nIn nHashType =
     (if nIn \<ge> length (tx_vin txTo) then 1
      else if fHashSingle nHashType \<and> nIn \<ge> length (tx_vout txTo) then 1
      else H (ser_for_signature txTo scriptCode nIn nHashType @ ser_int32 nHashType))"

subsection \<open>The signature checker\<close>

text \<open>A \<open>CPubKey\<close> (src/src/pubkey.h) is its bytes; an invalid one has the header \<open>0xFF\<close>.\<close>

definition CPubKey_GetLen :: "byte \<Rightarrow> nat" where
  "CPubKey_GetLen chHeader =
     (if chHeader = 2 \<or> chHeader = 3 then 33
      else if chHeader = 4 \<or> chHeader = 6 \<or> chHeader = 7 then 65 else 0)"

definition CPubKey_of :: "byte list \<Rightarrow> byte list" where
  "CPubKey_of vch =
     (let len = (if vch = [] then 0 else CPubKey_GetLen (vch ! 0)) in
      if len \<noteq> 0 \<and> len = length vch then vch else [0xFF])"

definition CPubKey_IsValid :: "byte list \<Rightarrow> bool" where
  "CPubKey_IsValid k \<longleftrightarrow> CPubKey_GetLen (k ! 0) > 0"

definition tx_CheckSig ::
  "(byte list \<Rightarrow> uint256) \<Rightarrow> (byte list \<Rightarrow> uint256 \<Rightarrow> byte list \<Rightarrow> bool) \<Rightarrow> CTransaction \<Rightarrow> nat \<Rightarrow>
   valtype \<Rightarrow> valtype \<Rightarrow> script \<Rightarrow> bool" where
  "tx_CheckSig H verify txTo nIn vchSigIn vchPubKey scriptCode =
     (let pubkey = CPubKey_of vchPubKey in
      if \<not> CPubKey_IsValid pubkey then False
      else if vchSigIn = [] then False
      else let nHashType = uint (last vchSigIn); vchSig = butlast vchSigIn;
               sighash = SignatureHash H scriptCode txTo nIn nHashType
           in verify pubkey sighash vchSig)"

definition tx_CheckLockTime :: "CTransaction \<Rightarrow> nat \<Rightarrow> int \<Rightarrow> bool" where
  "tx_CheckLockTime txTo nIn nLockTime =
     (if \<not> ((uint (tx_nLockTime txTo) < LOCKTIME_THRESHOLD \<and> nLockTime < LOCKTIME_THRESHOLD)
            \<or> (uint (tx_nLockTime txTo) \<ge> LOCKTIME_THRESHOLD \<and> nLockTime \<ge> LOCKTIME_THRESHOLD)) then False
      else if nLockTime > uint (tx_nLockTime txTo) then False
      else if SEQUENCE_FINAL = txin_nSequence (tx_vin txTo ! nIn) then False
      else True)"

definition tx_CheckSequence :: "CTransaction \<Rightarrow> nat \<Rightarrow> int \<Rightarrow> bool" where
  "tx_CheckSequence txTo nIn nSequence =
     (let txToSequence = uint (txin_nSequence (tx_vin txTo ! nIn)) in
      if (word_of_int (tx_nVersion txTo) :: u32) < 2 then False
      else if txToSequence AND uint SEQUENCE_LOCKTIME_DISABLE_FLAG \<noteq> 0 then False
      else let nLockTimeMask = uint (SEQUENCE_LOCKTIME_TYPE_FLAG OR SEQUENCE_LOCKTIME_MASK);
               txToSequenceMasked = txToSequence AND nLockTimeMask;
               nSequenceMasked = nSequence AND nLockTimeMask;
               flag = uint SEQUENCE_LOCKTIME_TYPE_FLAG
           in if \<not> ((txToSequenceMasked < flag \<and> nSequenceMasked < flag)
                   \<or> (txToSequenceMasked \<ge> flag \<and> nSequenceMasked \<ge> flag)) then False
              else \<not> (nSequenceMasked > txToSequenceMasked))"

definition TransactionSignatureChecker ::
  "(byte list \<Rightarrow> uint256) \<Rightarrow> (byte list \<Rightarrow> uint256 \<Rightarrow> byte list \<Rightarrow> bool) \<Rightarrow> CTransaction \<Rightarrow> nat \<Rightarrow> checker" where
  "TransactionSignatureChecker H verify txTo nIn =
     \<lparr> ck_CheckSig = tx_CheckSig H verify txTo nIn, ck_CheckLockTime = tx_CheckLockTime txTo nIn,
       ck_CheckSequence = tx_CheckSequence txTo nIn \<rparr>"

subsection \<open>What a signature commits to\<close>

lemma concat_map_split:
  assumes "\<And>i r r'. i < n \<Longrightarrow> f i @ r = g i @ r' \<Longrightarrow> f i = g i \<and> r = r'"
  shows "m \<le> n \<Longrightarrow> concat (map f [m..<n]) @ r = concat (map g [m..<n]) @ r' \<longleftrightarrow>
    (\<forall>i. m \<le> i \<longrightarrow> i < n \<longrightarrow> f i = g i) \<and> r = r'"
proof (induction "n - m" arbitrary: m)
  case 0
  then show ?case by auto
next
  case (Suc k)
  have m: "m < n" using Suc(2) by simp
  have IH: "concat (map f [Suc m..<n]) @ r = concat (map g [Suc m..<n]) @ r' \<longleftrightarrow>
      (\<forall>i. Suc m \<le> i \<longrightarrow> i < n \<longrightarrow> f i = g i) \<and> r = r'"
    by (rule Suc(1)) (use Suc(2) in auto)
  have "concat (map f [m..<n]) @ r = concat (map g [m..<n]) @ r' \<longleftrightarrow>
      f m = g m \<and> concat (map f [Suc m..<n]) @ r = concat (map g [Suc m..<n]) @ r'"
    using assms [OF m, of "concat (map f [Suc m..<n]) @ r" "concat (map g [Suc m..<n]) @ r'"]
    by (auto simp: upt_conv_Cons [OF m])
  moreover have "(\<forall>i. m \<le> i \<longrightarrow> i < n \<longrightarrow> f i = g i) \<longleftrightarrow>
      f m = g m \<and> (\<forall>i. Suc m \<le> i \<longrightarrow> i < n \<longrightarrow> f i = g i)"
    using m by (auto simp: Suc_le_eq) (metis le_neq_implies_less)
  ultimately show ?case unfolding IH by simp
qed

text \<open>The parts of a transaction that a signature with this hash type covers.\<close>

definition same_committed :: "int \<Rightarrow> nat \<Rightarrow> CTransaction \<Rightarrow> CTransaction \<Rightarrow> bool" where
  "same_committed ht nIn tx tx' \<longleftrightarrow>
     tx_nVersion tx = tx_nVersion tx' \<and> tx_nLockTime tx = tx_nLockTime tx'
     \<and> (if fAnyoneCanPay ht
        then txin_prevout (tx_vin tx ! nIn) = txin_prevout (tx_vin tx' ! nIn)
             \<and> txin_nSequence (tx_vin tx ! nIn) = txin_nSequence (tx_vin tx' ! nIn)
        else map txin_prevout (tx_vin tx) = map txin_prevout (tx_vin tx')
             \<and> (if fHashSingle ht \<or> fHashNone ht
                then txin_nSequence (tx_vin tx ! nIn) = txin_nSequence (tx_vin tx' ! nIn)
                else map txin_nSequence (tx_vin tx) = map txin_nSequence (tx_vin tx')))
     \<and> (if fHashNone ht then True
        else if fHashSingle ht then tx_vout tx ! nIn = tx_vout tx' ! nIn
        else tx_vout tx = tx_vout tx')"

lemma SerializeInput_eq:
  "SerializeInput tx code nIn ht i @ r = SerializeInput tx' code nIn ht i @ r' \<longleftrightarrow>
   (let j = (if fAnyoneCanPay ht then nIn else i) in
    txin_prevout (tx_vin tx ! j) = txin_prevout (tx_vin tx' ! j)
    \<and> (j = nIn \<or> \<not> (fHashSingle ht \<or> fHashNone ht) \<longrightarrow> txin_nSequence (tx_vin tx ! j) = txin_nSequence (tx_vin tx' ! j)))
   \<and> r = r'"
proof -
  define j where "j = (if fAnyoneCanPay ht then nIn else i)"
  define x where "x = (if j \<noteq> nIn then ser_bytes [] else SerializeScriptCode code)"
  have out: "ser_COutPoint p @ r1 = ser_COutPoint p' @ r2 \<longleftrightarrow> p = p' \<and> r1 = r2" for p p' r1 r2
    using c_outpoint.ser_prefix_free [where x = p and y = p' and r = r1 and r' = r2] by auto
  have seq: "ser_writedata32 q @ r1 = ser_writedata32 q' @ r2 \<longleftrightarrow> q = q' \<and> r1 = r2" for q q' r1 r2
    using c_u32.ser_prefix_free [where x = q and y = q' and r = r1 and r' = r2] by auto
  show ?thesis
    unfolding SerializeInput_def Let_def j_def [symmetric] x_def [symmetric]
    by (cases "j \<noteq> nIn \<and> (fHashSingle ht \<or> fHashNone ht)") (auto simp: out seq)
qed

lemma SerializeOutput_eq:
  assumes "good_tx tx" "good_tx tx'" "i < length (tx_vout tx)" "i < length (tx_vout tx')"
    "\<not> (fHashSingle ht \<and> i \<noteq> nIn)"
  shows "SerializeOutput tx nIn ht i @ r = SerializeOutput tx' nIn ht i @ r' \<longleftrightarrow>
    tx_vout tx ! i = tx_vout tx' ! i \<and> r = r'"
proof -
  have "good_txout (tx_vout tx ! i)" "good_txout (tx_vout tx' ! i)"
    using assms(1-4) by (auto simp: good_tx_def good_vec_def list_all_length)
  from c_txout.ser_prefix_free [OF this, of r r'] show ?thesis
    using assms(5) by (auto simp: SerializeOutput_def)
qed

lemma SerializeOutputs_eq:
  assumes g: "good_tx tx" "good_tx tx'" and i: "fHashSingle ht \<Longrightarrow> nIn < length (tx_vout tx) \<and> nIn < length (tx_vout tx')"
    and n: "sig_nOutputs tx nIn ht = sig_nOutputs tx' nIn ht"
  shows "concat (map (SerializeOutput tx nIn ht) [0..<sig_nOutputs tx nIn ht]) @ r
       = concat (map (SerializeOutput tx' nIn ht) [0..<sig_nOutputs tx' nIn ht]) @ r' \<longleftrightarrow>
    (if fHashNone ht then True
     else if fHashSingle ht then tx_vout tx ! nIn = tx_vout tx' ! nIn
     else tx_vout tx = tx_vout tx') \<and> r = r'"
proof -
  let ?n = "sig_nOutputs tx nIn ht"
  have lt: "j < length (tx_vout tx) \<and> j < length (tx_vout tx')" if "j < ?n" for j
    using that i n by (auto simp: sig_nOutputs_def split: if_splits)
  have eq: "SerializeOutput tx nIn ht j @ s = SerializeOutput tx' nIn ht j @ s' \<longleftrightarrow>
      (fHashSingle ht \<and> j \<noteq> nIn \<or> tx_vout tx ! j = tx_vout tx' ! j) \<and> s = s'" if "j < ?n" for j s s'
    using SerializeOutput_eq [OF g, of j ht nIn s s'] lt [OF that]
    by (cases "fHashSingle ht \<and> j \<noteq> nIn") (auto simp: SerializeOutput_def)
  have eq0: "SerializeOutput tx nIn ht j = SerializeOutput tx' nIn ht j \<longleftrightarrow>
      (fHashSingle ht \<and> j \<noteq> nIn \<or> tx_vout tx ! j = tx_vout tx' ! j)" if "j < ?n" for j
    using eq [OF that, of "[]" "[]"] by simp
  have "concat (map (SerializeOutput tx nIn ht) [0..<?n]) @ r = concat (map (SerializeOutput tx' nIn ht) [0..<?n]) @ r' \<longleftrightarrow>
      (\<forall>j<?n. fHashSingle ht \<and> j \<noteq> nIn \<or> tx_vout tx ! j = tx_vout tx' ! j) \<and> r = r'"
    using concat_map_split [of ?n "SerializeOutput tx nIn ht" "SerializeOutput tx' nIn ht" 0 r r'] eq eq0 by auto
  also have "\<dots> \<longleftrightarrow> (if fHashNone ht then True
     else if fHashSingle ht then tx_vout tx ! nIn = tx_vout tx' ! nIn
     else tx_vout tx = tx_vout tx') \<and> r = r'"
    using n by (auto simp: sig_nOutputs_def list_eq_iff_nth_eq)
  finally show ?thesis by (simp only: n [symmetric])
qed

lemma SerializeInputs_eq:
  assumes i: "nIn < length (tx_vin tx)" "nIn < length (tx_vin tx')" and n: "sig_nInputs tx ht = sig_nInputs tx' ht"
  shows "concat (map (SerializeInput tx code nIn ht) [0..<sig_nInputs tx ht]) @ r
       = concat (map (SerializeInput tx' code nIn ht) [0..<sig_nInputs tx' ht]) @ r' \<longleftrightarrow>
    (if fAnyoneCanPay ht
     then txin_prevout (tx_vin tx ! nIn) = txin_prevout (tx_vin tx' ! nIn)
          \<and> txin_nSequence (tx_vin tx ! nIn) = txin_nSequence (tx_vin tx' ! nIn)
     else map txin_prevout (tx_vin tx) = map txin_prevout (tx_vin tx')
          \<and> (if fHashSingle ht \<or> fHashNone ht
             then txin_nSequence (tx_vin tx ! nIn) = txin_nSequence (tx_vin tx' ! nIn)
             else map txin_nSequence (tx_vin tx) = map txin_nSequence (tx_vin tx'))) \<and> r = r'"
proof -
  let ?n = "sig_nInputs tx ht"
  define P where "P = (\<lambda>i. let j = (if fAnyoneCanPay ht then nIn else i) in
    txin_prevout (tx_vin tx ! j) = txin_prevout (tx_vin tx' ! j)
    \<and> (j = nIn \<or> \<not> (fHashSingle ht \<or> fHashNone ht) \<longrightarrow> txin_nSequence (tx_vin tx ! j) = txin_nSequence (tx_vin tx' ! j)))"
  note eq = SerializeInput_eq [of tx code nIn ht _ _ tx', folded P_def]
  have P: "SerializeInput tx code nIn ht j @ s = SerializeInput tx' code nIn ht j @ s' \<longleftrightarrow> P j \<and> s = s'" for j s s'
    using SerializeInput_eq [of tx code nIn ht j s tx' s'] by (simp add: P_def)
  have P0: "SerializeInput tx code nIn ht j = SerializeInput tx' code nIn ht j \<longleftrightarrow> P j" for j
    using P [of j "[]" "[]"] by simp
  have "concat (map (SerializeInput tx code nIn ht) [0..<?n]) @ r = concat (map (SerializeInput tx' code nIn ht) [0..<?n]) @ r' \<longleftrightarrow>
      (\<forall>j<?n. P j) \<and> r = r'"
    using concat_map_split [of ?n "SerializeInput tx code nIn ht" "SerializeInput tx' code nIn ht" 0 r r'] P P0 by auto
  also have "(\<forall>j<?n. P j) \<longleftrightarrow> (if fAnyoneCanPay ht
     then txin_prevout (tx_vin tx ! nIn) = txin_prevout (tx_vin tx' ! nIn)
          \<and> txin_nSequence (tx_vin tx ! nIn) = txin_nSequence (tx_vin tx' ! nIn)
     else map txin_prevout (tx_vin tx) = map txin_prevout (tx_vin tx')
          \<and> (if fHashSingle ht \<or> fHashNone ht
             then txin_nSequence (tx_vin tx ! nIn) = txin_nSequence (tx_vin tx' ! nIn)
             else map txin_nSequence (tx_vin tx) = map txin_nSequence (tx_vin tx')))"
    using i n by (auto simp: P_def sig_nInputs_def list_eq_iff_nth_eq Let_def)
  finally show ?thesis by (simp only: n [symmetric])
qed

lemma sig_counts:
  assumes "good_tx tx" "nIn < length (tx_vin tx)" "fHashSingle ht \<Longrightarrow> nIn < length (tx_vout tx)"
  shows "sig_nInputs tx ht \<le> MAX_SIZE" "sig_nOutputs tx nIn ht \<le> MAX_SIZE"
  using assms by (auto simp: sig_nInputs_def sig_nOutputs_def good_tx_def good_vec_def MAX_SIZE_def)

lemma same_committed_counts:
  "same_committed ht nIn tx tx' \<Longrightarrow> sig_nInputs tx ht = sig_nInputs tx' ht \<and> sig_nOutputs tx nIn ht = sig_nOutputs tx' nIn ht"
  by (auto simp: same_committed_def sig_nInputs_def sig_nOutputs_def dest: map_eq_imp_length_eq split: if_splits)

text \<open>C22: what a signature commits to.  Under every hash type, two transactions have the same bytes to
  sign for input \<open>nIn\<close> exactly when they agree on the version, the lock time and the inputs and
  outputs that the hash type covers: all of them by default, only the signed input with
  \<open>ANYONECANPAY\<close>, no output with \<open>NONE\<close>, the output with the same index with \<open>SINGLE\<close>.  So a signature
  cannot be moved to a transaction that differs in a covered part without a collision of the hash.\<close>

theorem SignatureHash_commits:
  assumes g: "good_tx tx" "good_tx tx'" and i: "nIn < length (tx_vin tx)" "nIn < length (tx_vin tx')"
    and s: "fHashSingle ht \<Longrightarrow> nIn < length (tx_vout tx) \<and> nIn < length (tx_vout tx')"
  shows "(ser_for_signature tx code nIn ht = ser_for_signature tx' code nIn ht \<longleftrightarrow> same_committed ht nIn tx tx')
    \<and> SignatureHash H code tx nIn ht = H (ser_for_signature tx code nIn ht @ ser_int32 ht)"
proof (intro conjI)
  have v: "in_i32 (tx_nVersion tx)" "in_i32 (tx_nVersion tx')" using g by (simp_all add: good_tx_def)
  have cnt: "sig_nInputs tx ht \<le> MAX_SIZE" "sig_nOutputs tx nIn ht \<le> MAX_SIZE"
    "sig_nInputs tx' ht \<le> MAX_SIZE" "sig_nOutputs tx' nIn ht \<le> MAX_SIZE"
    using sig_counts [OF g(1) i(1)] sig_counts [OF g(2) i(2)] s by auto
  have ver: "ser_int32 (tx_nVersion tx) @ r = ser_int32 (tx_nVersion tx') @ r' \<longleftrightarrow> tx_nVersion tx = tx_nVersion tx' \<and> r = r'" for r r'
    using c_i32.ser_prefix_free [OF v, of r r'] by auto
  have cin: "WriteCompactSize (sig_nInputs tx ht) @ r = WriteCompactSize (sig_nInputs tx' ht) @ r'
      \<longleftrightarrow> sig_nInputs tx ht = sig_nInputs tx' ht \<and> r = r'" for r r'
    using c_size.ser_prefix_free [OF cnt(1,3), of r r'] by auto
  have cout: "WriteCompactSize (sig_nOutputs tx nIn ht) @ r = WriteCompactSize (sig_nOutputs tx' nIn ht) @ r'
      \<longleftrightarrow> sig_nOutputs tx nIn ht = sig_nOutputs tx' nIn ht \<and> r = r'" for r r'
    using c_size.ser_prefix_free [OF cnt(2,4), of r r'] by auto
  have lt: "ser_writedata32 (tx_nLockTime tx) = ser_writedata32 (tx_nLockTime tx') \<longleftrightarrow> tx_nLockTime tx = tx_nLockTime tx'"
    by (rule c_u32.ser_inject) simp_all
  let ?ins = "\<lambda>t. concat (map (SerializeInput t code nIn ht) [0..<sig_nInputs t ht])"
  let ?outs = "\<lambda>t. concat (map (SerializeOutput t nIn ht) [0..<sig_nOutputs t nIn ht])"
  have "ser_for_signature tx code nIn ht = ser_for_signature tx' code nIn ht \<longleftrightarrow>
      tx_nVersion tx = tx_nVersion tx' \<and> sig_nInputs tx ht = sig_nInputs tx' ht
      \<and> ?ins tx @ WriteCompactSize (sig_nOutputs tx nIn ht) @ ?outs tx @ ser_writedata32 (tx_nLockTime tx)
        = ?ins tx' @ WriteCompactSize (sig_nOutputs tx' nIn ht) @ ?outs tx' @ ser_writedata32 (tx_nLockTime tx')"
    unfolding ser_for_signature_def by (simp only: append_assoc ver cin)
  also have "\<dots> \<longleftrightarrow> same_committed ht nIn tx tx'"
  proof (cases "sig_nInputs tx ht = sig_nInputs tx' ht \<and> sig_nOutputs tx nIn ht = sig_nOutputs tx' nIn ht")
    case True
    then have n: "sig_nInputs tx ht = sig_nInputs tx' ht" "sig_nOutputs tx nIn ht = sig_nOutputs tx' nIn ht" by simp_all
    have outs: "?outs tx @ r = ?outs tx' @ r' \<longleftrightarrow>
      (if fHashNone ht then True
       else if fHashSingle ht then tx_vout tx ! nIn = tx_vout tx' ! nIn
       else tx_vout tx = tx_vout tx') \<and> r = r'" for r r'
      by (rule SerializeOutputs_eq [OF g _ n(2)]) (rule s)
    show ?thesis
      unfolding SerializeInputs_eq [OF i n(1)] cout outs lt same_committed_def
      using n by auto
  next
    case False
    then show ?thesis
      using same_committed_counts [of ht nIn tx tx'] SerializeInputs_eq [OF i, of ht code] cout by (auto simp del: append_assoc)
  qed
  finally show "ser_for_signature tx code nIn ht = ser_for_signature tx' code nIn ht \<longleftrightarrow> same_committed ht nIn tx tx'" .
  show "SignatureHash H code tx nIn ht = H (ser_for_signature tx code nIn ht @ ser_int32 ht)"
    using i s by (auto simp: SignatureHash_def not_le)
qed

theorem SignatureHash_commits_witness:
  "ser_for_signature \<lparr> tx_nVersion = 1, tx_vin = [mk_CTxIn (COutPoint 5 0) [1, 7] 3],
      tx_vout = [mk_CTxOut 9 []], tx_nLockTime = 0 \<rparr> [OP_1] 0 1
   = ser_for_signature \<lparr> tx_nVersion = 1, tx_vin = [mk_CTxIn (COutPoint 5 0) [] 3],
      tx_vout = [mk_CTxOut 9 []], tx_nLockTime = 0 \<rparr> [OP_1] 0 1"
proof -
  let ?t = "\<lambda>sig. \<lparr> tx_nVersion = 1, tx_vin = [mk_CTxIn (COutPoint 5 0) sig 3],
      tx_vout = [mk_CTxOut 9 []], tx_nLockTime = 0 \<rparr>"
  have g: "good_tx (?t [1, 7])" "good_tx (?t [])"
    by (simp_all add: good_vec_def good_tx_def good_txin_def good_txout_def mk_CTxIn_def mk_CTxOut_def MAX_SIZE_def
        in_i32_def i64_bounds)
  have f: "\<not> fHashSingle 1" "\<not> fHashNone 1" "\<not> fAnyoneCanPay 1"
    by (simp_all add: fHashSingle_def fHashNone_def fAnyoneCanPay_def SIGHASH_SINGLE_def SIGHASH_NONE_def
        SIGHASH_ANYONECANPAY_def)
  have "same_committed 1 0 (?t [1, 7]) (?t [])" by (simp add: same_committed_def mk_CTxIn_def f)
  then show ?thesis using SignatureHash_commits [OF g, of 0 1 "[OP_1]" "\<lambda>_. 0"] f by simp
qed

subsection \<open>Lock-time opcodes\<close>

text \<open>C36: \<open>OP_CHECKLOCKTIMEVERIFY\<close> enforces its operand: when the opcode succeeds with operand \<open>n\<close> in an
  input of a transaction that is final at a height and a time, then the height, or for operands from
  the threshold on the time, is past \<open>n\<close> (zero locks nothing).\<close>

theorem checklocktime_enforced:
  assumes e: "op_checklocktime c st = Inr st'" and f: "ctx_flag c SCRIPT_VERIFY_CHECKLOCKTIMEVERIFY"
    and c: "sc_checker c = TransactionSignatureChecker H verify tx nIn" and i: "nIn < length (tx_vin tx)"
    and fin: "IsFinalTx tx nHeight nTime"
  shows "\<exists>n. num_arg c (hd (st_stack st)) 5 = Inr n
    \<and> (n = 0 \<or> 0 < n \<and> (if n < LOCKTIME_THRESHOLD then n < nHeight else n < nTime))"
proof -
  obtain n where n: "num_arg c (st_stack st ! 0) 5 = Inr n" "0 \<le> n" "tx_CheckLockTime tx nIn n"
    and ne: "st_stack st \<noteq> []"
    using e f c by (auto simp: op_checklocktime_def bindE_Inr_iff TransactionSignatureChecker_def split: if_splits)
  have lt: "n \<le> uint (tx_nLockTime tx)" "n < LOCKTIME_THRESHOLD \<longleftrightarrow> uint (tx_nLockTime tx) < LOCKTIME_THRESHOLD"
    and ns: "txin_nSequence (tx_vin tx ! nIn) \<noteq> SEQUENCE_FINAL"
    using n(3) by (auto simp: tx_CheckLockTime_def split: if_splits)
  have "\<not> list_all (\<lambda>i. txin_nSequence i = SEQUENCE_FINAL) (tx_vin tx)"
    using ns i by (auto simp: list_all_length)
  then have "tx_nLockTime tx = 0 \<or> uint (tx_nLockTime tx) <
              (if uint (tx_nLockTime tx) < LOCKTIME_THRESHOLD then nHeight else nTime)"
    using fin by (auto simp: IsFinalTx_def split: if_splits)
  then show ?thesis
  proof
    assume "tx_nLockTime tx = 0"
    then have "n = 0" using lt(1) n(2) by simp
    then show ?thesis using n(1) ne by (simp add: hd_conv_nth)
  next
    assume "uint (tx_nLockTime tx) < (if uint (tx_nLockTime tx) < LOCKTIME_THRESHOLD then nHeight else nTime)"
    then show ?thesis using lt n(1,2) ne by (intro exI [of _ n]) (auto simp: hd_conv_nth)
  qed
qed

theorem checklocktime_enforced_witness:
  "\<exists>n. num_arg \<lparr> sc_flags = 0x200, sc_checker = TransactionSignatureChecker (\<lambda>_. 0) (\<lambda>_ _ _. True)
      \<lparr> tx_nVersion = 1, tx_vin = [mk_CTxIn (COutPoint 5 0) [] 3], tx_vout = [], tx_nLockTime = 20 \<rparr> 0,
      sc_ripemd160 = id, sc_sha1 = id, sc_sha256 = id, sc_CheckLowS = (\<lambda>_. True) \<rparr> [12] 5 = Inr n
    \<and> (n = 0 \<or> 0 < n \<and> (if n < LOCKTIME_THRESHOLD then n < 21 else n < 600000000))"
proof -
  let ?tx = "\<lparr> tx_nVersion = 1, tx_vin = [mk_CTxIn (COutPoint 5 0) [] 3], tx_vout = [], tx_nLockTime = 20 \<rparr>"
  let ?c = "\<lparr> sc_flags = 0x200, sc_checker = TransactionSignatureChecker (\<lambda>_. 0) (\<lambda>_ _ _. True) ?tx 0,
      sc_ripemd160 = id, sc_sha1 = id, sc_sha256 = id, sc_CheckLowS = (\<lambda>_. True) \<rparr>"
  let ?st = "\<lparr> st_stack = [[12]], st_altstack = [], st_vfExec = [], st_nOpCount = 1, st_begincodehash = [] \<rparr>"
  have f: "ctx_flag ?c SCRIPT_VERIFY_CHECKLOCKTIMEVERIFY" "\<not> ctx_flag ?c SCRIPT_VERIFY_MINIMALDATA"
    by (simp_all add: has_flag_def SCRIPT_VERIFY_CHECKLOCKTIMEVERIFY_def SCRIPT_VERIFY_MINIMALDATA_def bit_iff_odd)
  have n: "num_arg ?c [12] 5 = Inr 12" using f(2) by (simp add: num_arg_def CScriptNum_of_def set_vch_def Let_def)
  have "op_checklocktime ?c ?st = Inr ?st"
    using f n by (simp add: op_checklocktime_def TransactionSignatureChecker_def tx_CheckLockTime_def
        LOCKTIME_THRESHOLD_def SEQUENCE_FINAL_def mk_CTxIn_def)
  moreover have "IsFinalTx ?tx 21 600000000" by (simp add: IsFinalTx_def LOCKTIME_THRESHOLD_def)
  ultimately show ?thesis
    using checklocktime_enforced [of ?c ?st ?st "\<lambda>_. 0" "\<lambda>_ _ _. True" ?tx 0 21 600000000] f by simp
qed

lemma mask22: "(x :: int) AND (4194304 + 65535) = (if bit x 22 then 4194304 else 0) + x mod 65536"
proof -
  have b: "x AND 4194304 = (if bit x 22 then 4194304 else 0)"
  proof (rule bit_eqI)
    fix n
    have "(4194304 :: int) = push_bit 22 1" by (simp add: push_bit_eq_mult)
    then have m: "bit (4194304 :: int) n \<longleftrightarrow> n = 22" by (simp only: bit_push_bit_iff bit_1_iff) auto
    show "bit (x AND 4194304) n \<longleftrightarrow> bit (if bit x 22 then 4194304 else 0 :: int) n"
      by (auto simp: bit_and_iff m)
  qed
  have "(65535 :: int) = mask 16" by (simp add: mask_eq_exp_minus_1)
  then have t: "x AND 65535 = x mod 65536" by (simp only: take_bit_eq_mask [symmetric]) (simp add: take_bit_eq_mod)
  have d: "(4194304 :: int) + 65535 = 4194304 OR 65535" by simp
  have "x AND (4194304 + 65535) = (x AND 4194304) OR (x AND 65535)"
    unfolding d by (rule bit.conj_disj_distrib)
  also have "\<dots> = (x AND 4194304) + (x AND 65535)"
  proof -
    have "(x AND 4194304) AND (x AND 65535) = x AND (4194304 AND 65535)" by (simp only: ac_simps and.left_idem)
    then have "(x AND 4194304) AND (x AND 65535) = 0" by simp
    then show ?thesis by (rule disjunctive_add_eq_or [symmetric])
  qed
  finally show ?thesis unfolding b t .
qed

lemma sequence_flag_values:
  "uint SEQUENCE_LOCKTIME_TYPE_FLAG = 4194304"
  "uint (SEQUENCE_LOCKTIME_TYPE_FLAG OR SEQUENCE_LOCKTIME_MASK) = 4194304 + 65535"
  by (simp_all add: SEQUENCE_LOCKTIME_TYPE_FLAG_def SEQUENCE_LOCKTIME_MASK_def push_bit_eq_mult)

lemma and_disable: "x AND uint SEQUENCE_LOCKTIME_DISABLE_FLAG \<noteq> 0 \<longleftrightarrow> bit x 31"
proof -
  have "uint SEQUENCE_LOCKTIME_DISABLE_FLAG = push_bit 31 1"
    by (simp add: SEQUENCE_LOCKTIME_DISABLE_FLAG_def push_bit_eq_mult)
  then show ?thesis by (simp only: bit_iff_and_push_bit_not_eq_0)
qed

text \<open>C37: \<open>OP_CHECKSEQUENCEVERIFY\<close> enforces its operand: when the opcode succeeds with operand \<open>n\<close> without
  the disable bit, the relative lock that BIP 68 puts on the input is at least as long as \<open>n\<close> asks, in
  the same unit: if the input is unlocked in a block, the coin has aged by \<open>n\<close>.\<close>

theorem checksequence_enforced:
  assumes e: "op_checksequence c st = Inr st'" and f: "ctx_flag c SCRIPT_VERIFY_CHECKSEQUENCEVERIFY"
    and c: "sc_checker c = TransactionSignatureChecker H verify tx nIn"
    and u: "input_unlocked block prev (tx_vin tx ! nIn) h"
  shows "\<exists>n. num_arg c (hd (st_stack st)) 5 = Inr n \<and> 0 \<le> n
    \<and> (bit n 31
       \<or> (if bit n 22
          then GetMedianTimePast (path block ! nat (max (h - 1) 0)) + 512 * (n mod 65536) \<le> GetMedianTimePast prev
          else h + n mod 65536 \<le> height block))"
proof -
  obtain n where n: "num_arg c (st_stack st ! 0) 5 = Inr n" "0 \<le> n" "bit n 31 \<or> tx_CheckSequence tx nIn n"
    and ne: "st_stack st \<noteq> []"
    using e f c
    by (auto simp: op_checksequence_def bindE_Inr_iff TransactionSignatureChecker_def and_disable split: if_splits)
  show ?thesis
  proof (cases "bit n 31")
    case True
    then show ?thesis using n ne by (auto simp: hd_conv_nth)
  next
    case False
    define q where "q = uint (txin_nSequence (tx_vin tx ! nIn))"
    have bq: "bit (txin_nSequence (tx_vin tx ! nIn)) k = bit q k" if "k < 32" for k
      using that by (simp add: q_def bit_unsigned_iff)
    have ck: "tx_CheckSequence tx nIn n" using n(3) False by simp
    define b where "b = (\<lambda>x :: int. if bit x 22 then 4194304 else 0 :: int)"
    have nd: "\<not> bit q 31" and cmp: "n AND (4194304 + 65535) \<le> q AND (4194304 + 65535)"
      and kind: "q AND (4194304 + 65535) < 4194304 \<longleftrightarrow> n AND (4194304 + 65535) < 4194304"
      using ck unfolding tx_CheckSequence_def Let_def q_def [symmetric] sequence_flag_values and_disable
      by (auto split: if_splits)
    have r: "0 \<le> x mod 65536" "x mod 65536 < 65536" for x :: int by simp_all
    have k22: "bit q 22 \<longleftrightarrow> bit n 22" using kind r [of q] r [of n] unfolding mask22 by (auto split: if_splits)
    have le: "n mod 65536 \<le> q mod 65536" using cmp k22 unfolding mask22 by simp
    show ?thesis
      using u n(1,2) ne le k22 nd bq by (auto simp: input_unlocked_def q_def [symmetric] hd_conv_nth split: if_splits)
  qed
qed

theorem checksequence_enforced_witness:
  "\<exists>n. num_arg \<lparr> sc_flags = 0x400, sc_checker = TransactionSignatureChecker (\<lambda>_. 0) (\<lambda>_ _ _. True)
      \<lparr> tx_nVersion = 2, tx_vin = [mk_CTxIn (COutPoint 5 0) [] 1], tx_vout = [], tx_nLockTime = 0 \<rparr> 0,
      sc_ripemd160 = id, sc_sha1 = id, sc_sha256 = id, sc_CheckLowS = (\<lambda>_. True) \<rparr> [1] 5 = Inr n
    \<and> 0 \<le> n \<and> (bit n 31 \<or> (if bit n 22
          then GetMedianTimePast (path sample_block ! nat (max (0 - 1) 0)) + 512 * (n mod 65536)
                 \<le> GetMedianTimePast sample_genesis
          else 0 + n mod 65536 \<le> height sample_block))"
proof -
  let ?tx = "\<lparr> tx_nVersion = 2, tx_vin = [mk_CTxIn (COutPoint 5 0) [] 1], tx_vout = [], tx_nLockTime = 0 \<rparr>"
  let ?c = "\<lparr> sc_flags = 0x400, sc_checker = TransactionSignatureChecker (\<lambda>_. 0) (\<lambda>_ _ _. True) ?tx 0,
      sc_ripemd160 = id, sc_sha1 = id, sc_sha256 = id, sc_CheckLowS = (\<lambda>_. True) \<rparr>"
  let ?st = "\<lparr> st_stack = [[1]], st_altstack = [], st_vfExec = [], st_nOpCount = 1, st_begincodehash = [] \<rparr>"
  have f: "ctx_flag ?c SCRIPT_VERIFY_CHECKSEQUENCEVERIFY" "\<not> ctx_flag ?c SCRIPT_VERIFY_MINIMALDATA"
    by (simp_all add: has_flag_def SCRIPT_VERIFY_CHECKSEQUENCEVERIFY_def SCRIPT_VERIFY_MINIMALDATA_def bit_iff_odd)
  have n: "num_arg ?c [1] 5 = Inr 1" using f(2) by (simp add: num_arg_def CScriptNum_of_def set_vch_def Let_def)
  have ck: "tx_CheckSequence ?tx 0 1"
    by (simp add: tx_CheckSequence_def Let_def sequence_flag_values mk_CTxIn_def and_disable bit_1_iff)
  have "op_checksequence ?c ?st = Inr ?st"
    using f n ck by (simp add: op_checksequence_def TransactionSignatureChecker_def and_disable bit_1_iff)
  moreover have "input_unlocked sample_block sample_genesis (tx_vin ?tx ! 0) 0"
    by (simp add: input_unlocked_def mk_CTxIn_def bit_1_iff)
  ultimately show ?thesis
    using checksequence_enforced [of ?c ?st ?st "\<lambda>_. 0" "\<lambda>_ _ _. True" ?tx 0 sample_block sample_genesis 0] f by simp
qed

end
