(* ===== verification/Money_Str.thy ===== *)
theory Money_Str
  imports Amount
begin

text \<open>
  Amounts as text (src/src/utilmoneystr.cpp) and the decimal conversions it uses.

  A C string ends at its first zero byte.  \<open>FormatMoney\<close> is \<open>None\<close> where the negation of the amount
  overflows.
\<close>

subsection \<open>Characters and decimal numbers\<close>

definition isdigit :: "char \<Rightarrow> bool" where
  "isdigit c \<longleftrightarrow> 48 \<le> (of_char c :: nat) \<and> (of_char c :: nat) \<le> 57"

definition isspace :: "char \<Rightarrow> bool" where
  "isspace c \<longleftrightarrow> (of_char c :: nat) = 32 \<or> 9 \<le> (of_char c :: nat) \<and> (of_char c :: nat) \<le> 13"

definition digit_val :: "char \<Rightarrow> int" where
  "digit_val c = int (of_char c) - 48"

definition digit_char :: "nat \<Rightarrow> char" where
  "digit_char d = char_of (48 + d)"

text \<open>\<open>%d\<close> of a natural number, and of any integer.\<close>

fun digits10 :: "nat \<Rightarrow> string" where
  "digits10 n = (if n < 10 then [digit_char n] else digits10 (n div 10) @ [digit_char (n mod 10)])"

declare digits10.simps [simp del]

definition print_d :: "int \<Rightarrow> string" where
  "print_d n = (if n < 0 then ''-'' @ digits10 (nat (- n)) else digits10 (nat n))"

text \<open>\<open>%08d\<close>; the model needs it for numbers that are not negative.\<close>

definition print_08d :: "int \<Rightarrow> string" where
  "print_08d n = (let s = digits10 (nat n) in replicate (8 - length s) CHR ''0'' @ s)"

definition dec_val :: "string \<Rightarrow> int" where
  "dec_val s = foldl (\<lambda>a c. a * 10 + digit_val c) 0 s"

text \<open>\<open>strtoll\<close> in base ten: white space, a sign, digits; the result saturates.\<close>

definition atoi64 :: "string \<Rightarrow> int" where
  "atoi64 s =
     (let s1 = dropWhile isspace s;
          neg = (s1 \<noteq> [] \<and> hd s1 = CHR ''-'');
          s2 = (if s1 \<noteq> [] \<and> (hd s1 = CHR ''-'' \<or> hd s1 = CHR ''+'') then tl s1 else s1);
          v = dec_val (takeWhile isdigit s2)
      in max INT64_MIN (min INT64_MAX (if neg then - v else v)))"

subsection \<open>Printing\<close>

text \<open>The trimming loop counts from the end of the string, so it works on the reversed string.\<close>

fun trim_zeros_rev :: "string \<Rightarrow> string" where
  "trim_zeros_rev (c0 # c1 # c2 # s) =
     (if c0 = CHR ''0'' \<and> isdigit c2 then trim_zeros_rev (c1 # c2 # s) else c0 # c1 # c2 # s)"
| "trim_zeros_rev s = s"

definition FormatMoney :: "CAmount \<Rightarrow> string option" where
  "FormatMoney n =
     (case (if n > 0 then Some n else i64 (- n)) of
        None \<Rightarrow> None
      | Some n_abs \<Rightarrow>
          (let quotient = n_abs sdiv COIN;
               remainder = n_abs smod COIN;
               str = print_d quotient @ ''.'' @ print_08d remainder;
               str = rev (trim_zeros_rev (rev str))
           in Some (if n < 0 then CHR ''-'' # str else str)))"

subsection \<open>Parsing\<close>

definition CENT :: CAmount where "CENT = 1000000"

fun frac_loop :: "string \<Rightarrow> int \<Rightarrow> int \<Rightarrow> string \<times> int" where
  "frac_loop [] nMult nUnits = ([], nUnits)"
| "frac_loop (c # p) nMult nUnits =
     (if isdigit c \<and> nMult > 0 then frac_loop p (nMult sdiv 10) (nUnits + nMult * digit_val c)
      else (c # p, nUnits))"

fun whole_loop :: "string \<Rightarrow> string \<Rightarrow> (string \<times> string \<times> int) option" where
  "whole_loop [] strWhole = Some ([], strWhole, 0)"
| "whole_loop (c # p) strWhole =
     (if c = CHR ''.'' then let (p', nUnits) = frac_loop p (CENT * 10) 0 in Some (p', strWhole, nUnits)
      else if isspace c then Some (c # p, strWhole, 0)
      else if \<not> isdigit c then None
      else whole_loop p (strWhole @ [c]))"

definition ParseMoney :: "string \<Rightarrow> CAmount option" where
  "ParseMoney str =
     (case whole_loop (dropWhile isspace (takeWhile (\<lambda>c. c \<noteq> CHR 0x00) str)) [] of
        None \<Rightarrow> None
      | Some (p, strWhole, nUnits) \<Rightarrow>
          if \<not> list_all isspace p then None
          else if length strWhole > 10 then None
          else if nUnits < 0 \<or> nUnits > COIN then None
          else Some (atoi64 strWhole * COIN + nUnits))"

subsection \<open>What is printed is read back\<close>

lemma digit_char_props [simp]:
  assumes "d < 10"
  shows "isdigit (digit_char d)" "digit_val (digit_char d) = int d" "\<not> isspace (digit_char d)"
    "digit_char d \<noteq> CHR ''.''" "digit_char d \<noteq> CHR ''-''" "digit_char d \<noteq> CHR ''+''" "digit_char d \<noteq> CHR 0x00"
proof -
  have o: "(of_char (digit_char d) :: nat) = 48 + d"
    using assms by (simp_all add: digit_char_def)
  have n: "(of_char (CHR ''.'') :: nat) = 46" "(of_char (CHR ''-'') :: nat) = 45" "(of_char (CHR ''+'') :: nat) = 43"
      "(of_char (CHR 0x00) :: nat) = 0" by simp_all
  show "isdigit (digit_char d)" "digit_val (digit_char d) = int d" "\<not> isspace (digit_char d)"
    using assms by (simp_all add: isdigit_def digit_val_def isspace_def o)
  show "digit_char d \<noteq> CHR ''.''" "digit_char d \<noteq> CHR ''-''" "digit_char d \<noteq> CHR ''+''" "digit_char d \<noteq> CHR 0x00"
    using o n by auto
qed

lemma digit_char_cases: "isdigit c \<Longrightarrow> \<exists>d < 10. c = digit_char d"
proof -
  assume "isdigit c"
  then have "48 \<le> (of_char c :: nat)" "(of_char c :: nat) \<le> 57" by (simp_all add: isdigit_def)
  then have "c = digit_char (of_char c - 48)" by (simp add: digit_char_def)
  then show ?thesis using \<open>(of_char c :: nat) \<le> 57\<close> by (intro exI [of _ "of_char c - 48"]) simp
qed

lemma isdigit_other [simp]:
  "isdigit c \<Longrightarrow> \<not> isspace c" "isdigit c \<Longrightarrow> c \<noteq> CHR ''.''" "isdigit c \<Longrightarrow> c \<noteq> CHR ''-''"
  "isdigit c \<Longrightarrow> c \<noteq> CHR ''+''" "isdigit c \<Longrightarrow> c \<noteq> CHR 0x00"
  by (auto dest!: digit_char_cases)

lemma dec_val_snoc [simp]: "dec_val [] = 0" "dec_val (s @ [c]) = dec_val s * 10 + digit_val c"
  by (simp_all add: dec_val_def)

lemma dec_val_append: "dec_val (s @ t) = dec_val s * 10 ^ length t + dec_val t"
  by (induction t rule: rev_induct) (simp_all add: algebra_simps flip: append_assoc)

lemma digits10_spec: "list_all isdigit (digits10 n) \<and> digits10 n \<noteq> [] \<and> dec_val (digits10 n) = int n"
proof (induction n rule: digits10.induct)
  case (1 n)
  show ?case
  proof (cases "n < 10")
    case True
    then show ?thesis by (subst (1 2 3) digits10.simps) (simp add: dec_val_def)
  next
    case False
    then have "list_all isdigit (digits10 (n div 10)) \<and> dec_val (digits10 (n div 10)) = int (n div 10)"
      using 1 by blast
    then show ?thesis using False
      by (subst (1 2 3) digits10.simps) (simp add: zmod_int zdiv_int)
  qed
qed

lemma digits10_length: "n < 10 ^ k \<Longrightarrow> 0 < k \<Longrightarrow> length (digits10 n) \<le> k"
proof (induction k arbitrary: n)
  case (Suc k)
  show ?case
  proof (cases "n < 10")
    case True
    then show ?thesis by (subst digits10.simps) simp
  next
    case False
    then have "0 < k" using Suc.prems by (cases k) simp_all
    moreover have "n div 10 < 10 ^ k" using Suc.prems by (simp add: less_mult_imp_div_less mult.commute)
    ultimately show ?thesis using Suc.IH [of "n div 10"] False by (subst digits10.simps) simp
  qed
qed simp

lemma dec_val_zeros [simp]: "dec_val (replicate k CHR ''0'') = 0"
proof (induction k)
  case (Suc k)
  have "replicate (Suc k) CHR ''0'' = replicate k CHR ''0'' @ [CHR ''0'']" by (simp add: replicate_append_same)
  then show ?case using Suc by (simp only: dec_val_snoc) (simp add: digit_val_def)
qed simp

lemma print_08d_spec:
  assumes "0 \<le> n" "n < COIN"
  shows "list_all isdigit (print_08d n) \<and> length (print_08d n) = 8 \<and> dec_val (print_08d n) = n"
proof -
  have z: "isdigit CHR ''0''" by (simp add: isdigit_def)
  have "length (digits10 (nat n)) \<le> 8" using digits10_length [of "nat n" 8] assms by (simp add: COIN_def)
  then show ?thesis using digits10_spec [of "nat n"] assms z
    by (auto simp: print_08d_def Let_def dec_val_append list_all_iff)
qed

lemma trim_zeros_rev_spec: "\<exists>k. s = replicate k CHR ''0'' @ trim_zeros_rev s"
proof (induction s rule: trim_zeros_rev.induct)
  case (1 c0 c1 c2 s)
  show ?case
  proof (cases "c0 = CHR ''0'' \<and> isdigit c2")
    case True
    then obtain k where "c1 # c2 # s = replicate k CHR ''0'' @ trim_zeros_rev (c1 # c2 # s)" using 1 by blast
    then show ?thesis using True by (intro exI [of _ "Suc k"]) simp
  qed (auto intro: exI [of _ 0])
qed (auto intro: exI [of _ 0])

lemma trim_after_point:
  assumes "list_all isdigit f"
  shows "\<exists>k f'. f = f' @ replicate k CHR ''0'' \<and> rev (trim_zeros_rev (rev (w @ CHR ''.'' # f))) = w @ CHR ''.'' # f'"
proof -
  obtain k where k: "rev (w @ CHR ''.'' # f) = replicate k CHR ''0'' @ trim_zeros_rev (rev (w @ CHR ''.'' # f))"
    using trim_zeros_rev_spec by blast
  define t where "t = rev (trim_zeros_rev (rev (w @ CHR ''.'' # f)))"
  have e: "w @ CHR ''.'' # f = t @ replicate k CHR ''0''" unfolding t_def using k by (metis rev_append rev_replicate rev_rev_ident)
  have "k \<le> length f"
  proof (rule ccontr)
    assume "\<not> k \<le> length f"
    then have "(w @ CHR ''.'' # f) ! length w = CHR ''0''" using arg_cong [OF e, of length]
      by (subst e) (simp add: nth_append)
    then show False by (simp add: nth_append)
  qed
  then have "length t = length w + 1 + (length f - k)" using arg_cong [OF e, of length] by simp
  then have "t = w @ CHR ''.'' # take (length f - k) f" using arg_cong [OF e, of "take (length t)"] by simp
  moreover have "f = take (length f - k) f @ replicate k CHR ''0''"
    using arg_cong [OF e, of "drop (length t)"] \<open>length t = length w + 1 + (length f - k)\<close>
      append_take_drop_id [of "length f - k" f] by simp
  ultimately show ?thesis unfolding t_def by blast
qed

lemma frac_loop_digits:
  "list_all isdigit f \<Longrightarrow> length f \<le> k \<Longrightarrow> 
   frac_loop f (if k = 0 then 0 else 10 ^ (k - 1)) u = ([], u + dec_val f * 10 ^ (k - length f))"
proof (induction f arbitrary: k u)
  case (Cons c f)
  then obtain j where j: "k = Suc j" by (cases k) auto
  have "(10 ^ j :: int) sdiv 10 = (if j = 0 then 0 else 10 ^ (j - 1))"
    by (cases j) (simp_all add: sdiv_nonneg)
  moreover have "dec_val (c # f) = digit_val c * 10 ^ length f + dec_val f"
    using dec_val_append [of "[c]" f] by (simp add: dec_val_def)
  moreover have "(10 :: int) ^ j = 10 ^ length f * 10 ^ (j - length f)"
    using Cons.prems by (simp add: j flip: power_add)
  ultimately show ?case using Cons.IH [of j "u + 10 ^ j * digit_val c"] Cons.prems by (simp add: j algebra_simps)
qed simp

lemma whole_loop_digits:
  "list_all isdigit w \<Longrightarrow> whole_loop (w @ CHR ''.'' # f) s =
    (let (p', u) = frac_loop f (CENT * 10) 0 in Some (p', s @ w, u))"
  by (induction w arbitrary: s) simp_all

lemma dropWhile_digit: "list_all isdigit w \<Longrightarrow> w \<noteq> [] \<Longrightarrow> dropWhile isspace (w @ f) = w @ f"
  by (cases w) simp_all

lemma atoi64_digits:
  assumes "list_all isdigit w" "0 \<le> dec_val w" "dec_val w \<le> INT64_MAX"
  shows "atoi64 w = dec_val w"
proof (cases w)
  case Nil
  then show ?thesis by (simp add: atoi64_def INT64_MIN_def INT64_MAX_def)
next
  case (Cons c v)
  have tw: "takeWhile isdigit v = v" using assms(1) Cons by (simp add: takeWhile_eq_all_conv list_all_iff)
  show ?thesis using assms Cons by (simp add: atoi64_def INT64_MIN_def tw)
qed

text \<open>Every amount that is not negative and below \<open>10 ^ 18\<close> (a whole part of at most ten digits,
  so every amount of the money range) is printed by \<open>FormatMoney\<close> without overflow, and
  \<open>ParseMoney\<close> reads that text back as the same amount.\<close>

theorem FormatMoney_ParseMoney:
  assumes "0 \<le> n" "n < 1000000000000000000"
  shows "\<exists>s. FormatMoney n = Some s \<and> ParseMoney s = Some n"
proof -
  define q r where "q = n div COIN" and "r = n mod COIN"
  have qr: "n = q * COIN + r" "0 \<le> r" "r < COIN" "0 \<le> q" "q < 10000000000"
    using assms by (auto simp: q_def r_def COIN_def)
  define w f where "w = digits10 (nat q)" and "f = print_08d r"
  have w: "list_all isdigit w" "w \<noteq> []" "dec_val w = q" "length w \<le> 10"
    using digits10_spec [of "nat q"] digits10_length [of "nat q" 10] qr by (simp_all add: w_def)
  have f: "list_all isdigit f" "length f = 8" "dec_val f = r" using print_08d_spec [OF qr(2,3)] by (simp_all add: f_def)
  obtain k f' where f': "f = f' @ replicate k CHR ''0''"
      "rev (trim_zeros_rev (rev (w @ CHR ''.'' # f))) = w @ CHR ''.'' # f'"
    using trim_after_point [OF f(1)] by blast
  have "FormatMoney n = Some (w @ CHR ''.'' # f')"
  proof -
    have abs: "(if n > 0 then Some n else i64 (- n)) = Some n" using assms(1) by (auto simp: i64_bounds)
    have "n sdiv COIN = q" "n smod COIN = r"
      using assms(1) by (simp_all add: q_def r_def sdiv_nonneg smod_nonneg COIN_def)
    moreover have "print_d q = w" using qr(4) by (simp add: print_d_def w_def)
    moreover have "print_08d r = f" by (simp add: f_def)
    moreover have "\<not> n < 0" using assms(1) by simp
    ultimately show ?thesis using f'(2) unfolding FormatMoney_def abs Let_def by simp
  qed
  moreover have "ParseMoney (w @ CHR ''.'' # f') = Some n"
  proof -
    have d: "list_all isdigit f'" "length f' \<le> 8" using f f'(1) by auto
    have "dec_val f' * 10 ^ (8 - length f') = r"
      using f f'(1) by (auto simp: dec_val_append)
    then have "frac_loop f' (CENT * 10) 0 = ([], r)"
      using frac_loop_digits [OF d, of 0] by (simp add: CENT_def)
    moreover have tw: "takeWhile (\<lambda>c. c \<noteq> CHR 0x00) (w @ CHR ''.'' # f') = w @ CHR ''.'' # f'"
      using w(1) d(1) by (auto simp: takeWhile_eq_all_conv list_all_iff)
    ultimately show ?thesis using w qr atoi64_digits [of w] unfolding ParseMoney_def tw
      by (simp add: dropWhile_digit whole_loop_digits INT64_MAX_def)
  qed
  ultimately show ?thesis by blast
qed

theorem FormatMoney_ParseMoney_witness:
  "\<exists>s. FormatMoney 150000000 = Some s \<and> ParseMoney s = Some 150000000"
  by (rule FormatMoney_ParseMoney) simp_all

end
