(* ===== verification/Block_Connect.thy ===== *)
theory Block_Connect
  imports Coins_Update SigHash Money_Str
begin

unbundle bit_operations_syntax

text \<open>
  The checks of a transaction against the coins and the loop of \<open>ConnectBlock\<close> over the transactions of
  a block (src/src/main.cpp: \<open>GetP2SHSigOpCount\<close>, \<open>GetUTXOHeight\<close>, \<open>CheckTxInputs\<close>, \<open>CScriptCheck\<close>,
  \<open>CheckInputs\<close>, \<open>ConnectBlock\<close>).

  The hash functions and the curve are the record \<open>crypto_env\<close>.  The signature cache only remembers
  valid signatures, so a check through it is the check itself.  The queue of script checks is the list
  of its checks; \<open>Wait\<close> tells whether all of them hold.
\<close>

record crypto_env =
  cy_Hash :: "byte list \<Rightarrow> uint256"
  cy_ripemd160 :: "byte list \<Rightarrow> byte list"
  cy_sha1 :: "byte list \<Rightarrow> byte list"
  cy_sha256 :: "byte list \<Rightarrow> byte list"
  cy_verify :: "byte list \<Rightarrow> uint256 \<Rightarrow> byte list \<Rightarrow> bool"
  cy_CheckLowS :: "byte list \<Rightarrow> bool"

subsection \<open>Values and signature operations of the inputs\<close>

fun p2sh_sigop_loop :: "'v view_ops \<Rightarrow> 'v CCoinsViewCache \<Rightarrow> CTxIn list \<Rightarrow> nat \<Rightarrow> 'v CCoinsViewCache \<times> nat option" where
  "p2sh_sigop_loop B view [] nSigOps = (view, Some nSigOps)"
| "p2sh_sigop_loop B view (i # is) nSigOps =
     (case GetOutputFor B view i of
        (view', None) \<Rightarrow> (view', None)
      | (view', Some prevout) \<Rightarrow>
          p2sh_sigop_loop B view' is
            (if IsPayToScriptHash (txout_scriptPubKey prevout)
             then nSigOps + GetSigOpCount_P2SH (txout_scriptPubKey prevout) (txin_scriptSig i) else nSigOps))"

definition GetP2SHSigOpCount :: "'v view_ops \<Rightarrow> 'v CCoinsViewCache \<Rightarrow> CTransaction \<Rightarrow> 'v CCoinsViewCache \<times> nat option" where
  "GetP2SHSigOpCount B view tx = (if IsCoinBase tx then (view, Some 0) else p2sh_sigop_loop B view (tx_vin tx) 0)"

definition GetUTXOHeight :: "'v view_ops \<Rightarrow> 'v CCoinsViewCache \<Rightarrow> COutPoint \<Rightarrow> 'v CCoinsViewCache \<times> int" where
  "GetUTXOHeight B view outpoint =
     (case cache_GetCoins B view (prev_hash outpoint) of
        (view', None) \<Rightarrow> (view', -1)
      | (view', Some coins) \<Rightarrow>
          let n = unat (prev_n outpoint) in
          (view', if n \<ge> length (cc_vout coins) \<or> CTxOut_IsNull (cc_vout coins ! n) then -1 else cc_nHeight coins))"

text \<open>The loop of \<open>CheckTxInputs\<close>: a rejection, the total of the inputs, or \<open>None\<close> where an assertion or
  the addition fails.\<close>

fun input_values_loop ::
  "'v view_ops \<Rightarrow> int \<Rightarrow> CValidationState \<Rightarrow> 'v CCoinsViewCache \<Rightarrow> CTxIn list \<Rightarrow> CAmount \<Rightarrow>
     'v CCoinsViewCache \<times> (CValidationState + CAmount) option" where
  "input_values_loop B nSpendHeight st view [] nValueIn = (view, Some (Inr nValueIn))"
| "input_values_loop B nSpendHeight st view (i # is) nValueIn =
     (case AccessCoins B view (prev_hash (txin_prevout i)) of
        (view', None) \<Rightarrow> (view', None)
      | (view', Some coins) \<Rightarrow>
          if cc_fCoinBase coins \<and> nSpendHeight - cc_nHeight coins < COINBASE_MATURITY
          then (view', Some (Inl (Invalid st REJECT_INVALID ''bad-txns-premature-spend-of-coinbase''
                  (''tried to spend coinbase at depth '' @ print_d (nSpendHeight - cc_nHeight coins)))))
          else let nValue = txout_nValue (cc_vout coins ! unat (prev_n (txin_prevout i))) in
               (case i64 (nValueIn + nValue) of
                  None \<Rightarrow> (view', None)
                | Some nValueIn' \<Rightarrow>
                    if \<not> MoneyRange nValue \<or> \<not> MoneyRange nValueIn'
                    then (view', Some (Inl (DoS st 100 REJECT_INVALID ''bad-txns-inputvalues-outofrange'' False [])))
                    else input_values_loop B nSpendHeight st view' is nValueIn'))"

definition money_text :: "CAmount \<Rightarrow> string" where
  "money_text n = (case FormatMoney n of None \<Rightarrow> [] | Some s \<Rightarrow> s)"

definition CheckTxInputs ::
  "'v view_ops \<Rightarrow> 'v CCoinsViewCache \<Rightarrow> CTransaction \<Rightarrow> CValidationState \<Rightarrow> int \<Rightarrow> 'v CCoinsViewCache \<times> check_result option" where
  "CheckTxInputs B view tx st nSpendHeight =
     (case HaveInputs B view tx of
        (view1, False) \<Rightarrow> (view1, Some (False, Invalid st 0 [] ''Inputs unavailable''))
      | (view1, True) \<Rightarrow>
          (case input_values_loop B nSpendHeight st view1 (tx_vin tx) 0 of
             (view2, None) \<Rightarrow> (view2, None)
           | (view2, Some (Inl st')) \<Rightarrow> (view2, Some (False, st'))
           | (view2, Some (Inr nValueIn)) \<Rightarrow>
               (case GetValueOut tx of
                  Inl _ \<Rightarrow> (view2, None)
                | Inr nValueOut \<Rightarrow>
                    (view2, Some
                      (if nValueIn < nValueOut
                       then (False, DoS st 100 REJECT_INVALID ''bad-txns-in-belowout'' False
                               (''value in ('' @ money_text nValueIn @ '') < value out ('' @ money_text nValueOut @ '')''))
                       else let nTxFee = nValueIn - nValueOut; nFees = 0 + nTxFee in
                            if nTxFee < 0 then reject st 100 ''bad-txns-fee-negative''
                            else if \<not> MoneyRange nFees then reject st 100 ''bad-txns-fee-outofrange''
                            else (True, st))))))"

subsection \<open>Script checks\<close>

record CScriptCheck =
  sk_scriptPubKey :: script
  sk_tx :: CTransaction
  sk_nIn :: nat
  sk_nFlags :: u32

definition CScriptCheck_of :: "CCoins \<Rightarrow> CTransaction \<Rightarrow> nat \<Rightarrow> u32 \<Rightarrow> CScriptCheck" where
  "CScriptCheck_of txFrom txTo nIn nFlags =
     \<lparr> sk_scriptPubKey = txout_scriptPubKey (cc_vout txFrom ! unat (prev_n (txin_prevout (tx_vin txTo ! nIn)))),
       sk_tx = txTo, sk_nIn = nIn, sk_nFlags = nFlags \<rparr>"

definition CScriptCheck_run :: "crypto_env \<Rightarrow> CScriptCheck \<Rightarrow> unit script_result option" where
  "CScriptCheck_run env k =
     VerifyScript \<lparr> sc_flags = sk_nFlags k,
         sc_checker = TransactionSignatureChecker (cy_Hash env) (cy_verify env) (sk_tx k) (sk_nIn k),
         sc_ripemd160 = cy_ripemd160 env, sc_sha1 = cy_sha1 env, sc_sha256 = cy_sha256 env,
         sc_CheckLowS = cy_CheckLowS env \<rparr>
       (txin_scriptSig (tx_vin (sk_tx k) ! sk_nIn k)) (sk_scriptPubKey k)"

definition flag_bit :: "nat \<Rightarrow> u32" where
  "flag_bit f = push_bit f 1"

definition MANDATORY_SCRIPT_VERIFY_FLAGS :: u32 where
  "MANDATORY_SCRIPT_VERIFY_FLAGS = flag_bit SCRIPT_VERIFY_P2SH"

definition STANDARD_SCRIPT_VERIFY_FLAGS :: u32 where
  "STANDARD_SCRIPT_VERIFY_FLAGS = MANDATORY_SCRIPT_VERIFY_FLAGS OR flag_bit SCRIPT_VERIFY_DERSIG
     OR flag_bit SCRIPT_VERIFY_STRICTENC OR flag_bit SCRIPT_VERIFY_MINIMALDATA OR flag_bit SCRIPT_VERIFY_NULLDUMMY
     OR flag_bit SCRIPT_VERIFY_DISCOURAGE_UPGRADABLE_NOPS OR flag_bit SCRIPT_VERIFY_CLEANSTACK
     OR flag_bit SCRIPT_VERIFY_CHECKLOCKTIMEVERIFY OR flag_bit SCRIPT_VERIFY_CHECKSEQUENCEVERIFY
     OR flag_bit SCRIPT_VERIFY_LOW_S"

definition STANDARD_NOT_MANDATORY_VERIFY_FLAGS :: u32 where
  "STANDARD_NOT_MANDATORY_VERIFY_FLAGS = STANDARD_SCRIPT_VERIFY_FLAGS AND NOT MANDATORY_SCRIPT_VERIFY_FLAGS"

text \<open>\<open>deferred\<close> tells whether the caller gives a vector for the checks; \<open>n\<close> is the index of the input.\<close>

fun check_scripts_loop ::
  "crypto_env \<Rightarrow> 'v view_ops \<Rightarrow> CTransaction \<Rightarrow> u32 \<Rightarrow> bool \<Rightarrow> CValidationState \<Rightarrow> 'v CCoinsViewCache \<Rightarrow> CTxIn list \<Rightarrow> nat \<Rightarrow>
     CScriptCheck list \<Rightarrow> 'v CCoinsViewCache \<times> (check_result \<times> CScriptCheck list) option" where
  "check_scripts_loop env B tx flags deferred st view [] n vChecks = (view, Some ((True, st), vChecks))"
| "check_scripts_loop env B tx flags deferred st view (i # is) n vChecks =
     (case AccessCoins B view (prev_hash (txin_prevout i)) of
        (view', None) \<Rightarrow> (view', None)
      | (view', Some coins) \<Rightarrow>
          let check = CScriptCheck_of coins tx n flags;
              rejected = (\<lambda>err. (False, DoS st 100 REJECT_INVALID
                (''mandatory-script-verify-flag-failed ('' @ ScriptErrorString err @ '')'') False [])) in
          if deferred then check_scripts_loop env B tx flags deferred st view' is (Suc n) (vChecks @ [check])
          else (case CScriptCheck_run env check of
                  None \<Rightarrow> (view', None)
                | Some (Inr _) \<Rightarrow> check_scripts_loop env B tx flags deferred st view' is (Suc n) vChecks
                | Some (Inl err) \<Rightarrow>
                    if flags AND STANDARD_NOT_MANDATORY_VERIFY_FLAGS \<noteq> 0
                    then (case CScriptCheck_run env
                             (CScriptCheck_of coins tx n (flags AND NOT STANDARD_NOT_MANDATORY_VERIFY_FLAGS)) of
                            None \<Rightarrow> (view', None)
                          | Some (Inr _) \<Rightarrow> (view', Some ((False, Invalid st REJECT_NONSTANDARD
                              (''non-mandatory-script-verify-flag ('' @ ScriptErrorString err @ '')'') []), vChecks))
                          | Some (Inl _) \<Rightarrow> (view', Some (rejected err, vChecks)))
                    else (view', Some (rejected err, vChecks))))"

definition CheckInputs ::
  "crypto_env \<Rightarrow> 'v view_ops \<Rightarrow> 'v CCoinsViewCache \<Rightarrow> CTransaction \<Rightarrow> CValidationState \<Rightarrow> int \<Rightarrow> bool \<Rightarrow> u32 \<Rightarrow> bool \<Rightarrow>
     'v CCoinsViewCache \<times> (check_result \<times> CScriptCheck list) option" where
  "CheckInputs env B view tx st nSpendHeight fScriptChecks flags deferred =
     (if IsCoinBase tx then (view, Some ((True, st), []))
      else case CheckTxInputs B view tx st nSpendHeight of
        (view1, None) \<Rightarrow> (view1, None)
      | (view1, Some (False, st')) \<Rightarrow> (view1, Some ((False, st'), []))
      | (view1, Some (True, st')) \<Rightarrow>
          if fScriptChecks then check_scripts_loop env B tx flags deferred st' view1 (tx_vin tx) 0 []
          else (view1, Some ((True, st'), [])))"

subsection \<open>The transactions of a block\<close>

record 'v connect_state =
  cn_view :: "'v CCoinsViewCache"
  cn_nSigOps :: nat
  cn_nFees :: CAmount
  cn_vtxundo :: "CTxUndo list"
  cn_checks :: "CScriptCheck list"

datatype connect_failure = failed_assertion | rejected CValidationState

fun input_heights :: "'v view_ops \<Rightarrow> 'v CCoinsViewCache \<Rightarrow> CTxIn list \<Rightarrow> int list \<Rightarrow> 'v CCoinsViewCache \<times> int list option" where
  "input_heights B view [] hs = (view, Some hs)"
| "input_heights B view (i # is) hs =
     (case AccessCoins B view (prev_hash (txin_prevout i)) of
        (view', None) \<Rightarrow> (view', None)
      | (view', Some c) \<Rightarrow> input_heights B view' is (hs @ [cc_nHeight c]))"

definition block_script_flags :: "bool \<Rightarrow> u32" where
  "block_script_flags fStrictPayToScriptHash =
     (if fStrictPayToScriptHash then flag_bit SCRIPT_VERIFY_P2SH else 0) OR flag_bit SCRIPT_VERIFY_DERSIG
       OR flag_bit SCRIPT_VERIFY_CHECKLOCKTIMEVERIFY OR flag_bit SCRIPT_VERIFY_CHECKSEQUENCEVERIFY"

definition strict_p2sh :: "CBlockIndex \<Rightarrow> bool" where
  "strict_p2sh pindex \<longleftrightarrow> uint (bi_nTime (bi pindex)) \<ge> 1333238400"

definition GetSpendHeight :: "(uint256 \<Rightarrow> CBlockIndex option) \<Rightarrow> 'v view_ops \<Rightarrow> 'v CCoinsViewCache \<Rightarrow> 'v CCoinsViewCache \<times> int option" where
  "GetSpendHeight mapBlockIndex B view =
     (let (view', best) = cache_GetBestBlock B view in
      (view', map_option (\<lambda>p. height p + 1) (mapBlockIndex best)))"

text \<open>What stays the same in the loop: the environment, the entry of the block, the block index, and
  whether scripts are checked and their checks queued.  The address, spent and transaction indexes and
  the list of orphan transactions to erase are left out.\<close>

record connect_env =
  cx_crypto :: crypto_env
  cx_pindex :: CBlockIndex
  cx_mapBlockIndex :: "uint256 \<Rightarrow> CBlockIndex option"
  cx_fScriptChecks :: bool
  cx_queued :: bool

definition asserted :: "'a \<times> 'b option \<Rightarrow> connect_failure + 'a \<times> 'b" where
  "asserted r = (case r of (v, None) \<Rightarrow> Inl failed_assertion | (v, Some x) \<Rightarrow> Inr (v, x))"

definition reject_connect :: "CValidationState \<Rightarrow> string \<Rightarrow> connect_failure + 'a" where
  "reject_connect st reason = Inl (rejected (DoS st 100 REJECT_INVALID reason False []))"

text \<open>The part of the loop for a transaction that is not a coinbase.\<close>

definition connect_inputs ::
  "connect_env \<Rightarrow> 'v view_ops \<Rightarrow> CValidationState \<Rightarrow> CTransaction \<Rightarrow> 'v connect_state \<Rightarrow>
     connect_failure + 'v connect_state" where
  "connect_inputs cx B st tx cn =
     (let (view1, have_inputs) = HaveInputs B (cn_view cn) tx; strict = strict_p2sh (cx_pindex cx) in
      if \<not> have_inputs then reject_connect st ''bad-txns-inputs-missingorspent''
      else bindE (asserted (input_heights B view1 (tx_vin tx) [])) (\<lambda>(view2, prevheights).
        bindE (asserted ((), SequenceLocks tx (push_bit LOCKTIME_VERIFY_SEQUENCE 1) prevheights (cx_pindex cx))) (\<lambda>(_, final, _).
          if \<not> final then reject_connect st ''bad-txns-nonfinal''
          else bindE (if strict then asserted (GetP2SHSigOpCount B view2 tx) else Inr (view2, 0)) (\<lambda>(view3, n).
            let nSigOps = cn_nSigOps cn + n in
            if strict \<and> nSigOps > MAX_BLOCK_SIGOPS then reject_connect st ''bad-blk-sigops''
            else bindE (asserted (GetValueIn B view3 tx)) (\<lambda>(view4, nValueIn).
              case GetValueOut tx of
                Inl _ \<Rightarrow> Inl failed_assertion
              | Inr nValueOut \<Rightarrow>
                  bindE (asserted ((), i64 (cn_nFees cn + (nValueIn - nValueOut)))) (\<lambda>(_, nFees).
                    bindE (asserted (GetSpendHeight (cx_mapBlockIndex cx) B view4)) (\<lambda>(view5, nSpendHeight).
                      bindE (asserted (CheckInputs (cx_crypto cx) B view5 tx st nSpendHeight (cx_fScriptChecks cx)
                               (block_script_flags strict) (cx_queued cx))) (\<lambda>(view6, (ok, st'), vChecks).
                        if \<not> ok then Inl (rejected st')
                        else Inr (cn \<lparr> cn_view := view6, cn_nSigOps := nSigOps, cn_nFees := nFees,
                                      cn_checks := cn_checks cn @ vChecks \<rparr>)))))))))"

definition connect_tx ::
  "connect_env \<Rightarrow> 'v view_ops \<Rightarrow> CValidationState \<Rightarrow> bool \<Rightarrow> CTransaction \<Rightarrow> 'v connect_state \<Rightarrow>
     connect_failure + 'v connect_state" where
  "connect_tx cx B st first tx cn =
     (let nSigOps = cn_nSigOps cn + GetLegacySigOpCount tx; cn1 = cn \<lparr> cn_nSigOps := nSigOps \<rparr> in
      if nSigOps > MAX_BLOCK_SIGOPS then reject_connect st ''bad-blk-sigops''
      else bindE (if \<not> IsCoinBase tx then connect_inputs cx B st tx cn1 else Inr cn1) (\<lambda>cn2.
        bindE (asserted ((), UpdateCoins (cy_Hash (cx_crypto cx)) B (cn_view cn2) tx [] (height (cx_pindex cx)))) (\<lambda>(_, view', txundo).
          Inr (cn2 \<lparr> cn_view := view',
                    cn_vtxundo := (if first then cn_vtxundo cn2 else cn_vtxundo cn2 @ [txundo]) \<rparr>))))"

fun connect_loop ::
  "connect_env \<Rightarrow> 'v view_ops \<Rightarrow> CValidationState \<Rightarrow> bool \<Rightarrow> CTransaction list \<Rightarrow> 'v connect_state \<Rightarrow>
     connect_failure + 'v connect_state" where
  "connect_loop cx B st first [] cn = Inr cn"
| "connect_loop cx B st first (tx # txs) cn =
     bindE (connect_tx cx B st first tx cn) (connect_loop cx B st False txs)"

text \<open>The transactions of a block, from the view of its predecessor.\<close>

definition connect_block_txs ::
  "connect_env \<Rightarrow> 'v view_ops \<Rightarrow> CValidationState \<Rightarrow> CTransaction list \<Rightarrow> 'v CCoinsViewCache \<Rightarrow>
     connect_failure + 'v connect_state" where
  "connect_block_txs cx B st vtx view =
     connect_loop cx B st True vtx \<lparr> cn_view = view, cn_nSigOps = 0, cn_nFees = 0, cn_vtxundo = [], cn_checks = [] \<rparr>"

end
