(* ===== verification/Block_Connect_Props.thy ===== *)
theory Block_Connect_Props
  imports Coins_Undo Block_Connect
begin

text \<open>
  A block that was connected is disconnected again without a trace, a transaction that passes the
  checks does not create money, and a flush of the caches writes exactly what they show.
\<close>

subsection \<open>Reading does not change what a view shows\<close>

definition same_shown :: "('v \<Rightarrow> uint256 \<Rightarrow> CCoins option) \<Rightarrow> ('v \<Rightarrow> bool) \<Rightarrow> 'v CCoinsViewCache \<Rightarrow> 'v CCoinsViewCache \<Rightarrow> bool" where
  "same_shown av iv view view' \<longleftrightarrow>
     cinv av iv view' \<and> cabs av view' = cabs av view \<and> av (cv_base view') = av (cv_base view)"

lemma same_shown_refl: "cinv av iv view \<Longrightarrow> same_shown av iv view view"
  by (simp add: same_shown_def)

lemma same_shown_trans: "same_shown av iv a b \<Longrightarrow> same_shown av iv b c \<Longrightarrow> same_shown av iv a c"
  by (simp add: same_shown_def)

lemma same_shown_inv: "same_shown av iv a b \<Longrightarrow> cinv av iv b"
  by (simp add: same_shown_def)

text \<open>Transactions as the checks of a block leave them, and identifiers that no coins have.\<close>

definition storable :: "CTransaction \<Rightarrow> bool" where
  "storable tx \<longleftrightarrow> no_null_outs tx \<and> length (tx_vout tx) < 4294967296"

definition fresh_ids ::
  "(byte list \<Rightarrow> uint256) \<Rightarrow> (uint256 \<Rightarrow> CCoins option) \<Rightarrow> (uint256 \<Rightarrow> CCoins option) \<Rightarrow> CTransaction list \<Rightarrow> bool" where
  "fresh_ids H a b txs \<longleftrightarrow> distinct (map (tx_GetHash H) txs)
     \<and> (\<forall>tx\<in>set txs. a (tx_GetHash H tx) = None \<and> b (tx_GetHash H tx) = None)"

lemma bind_asserted: "bindE (asserted p) f = Inr y \<longleftrightarrow> (\<exists>v x. p = (v, Some x) \<and> f (v, x) = Inr y)"
  by (cases p; cases "snd p") (auto simp: asserted_def)

lemma asserted_Inr [simp]: "asserted p = Inr (v, x) \<longleftrightarrow> p = (v, Some x)"
  by (cases p; cases "snd p") (auto simp: asserted_def)

lemma reject_connect_Inr [simp]: "reject_connect st r \<noteq> Inr y"
  by (simp add: reject_connect_def)

context coins_reader begin

abbreviation "shown \<equiv> same_shown abs inv"

lemma FetchCoins_shown:
  assumes "cinv abs inv view" "FetchCoins B view t = (view', r)"
  shows "shown view view'"
proof -
  have "abs (cv_base view') = abs (cv_base view)"
    using assms get_abs [of "cv_base view" t] by (auto simp: FetchCoins_def cinv_def Let_def split: option.splits prod.splits)
  then show ?thesis using FetchCoins_spec [OF assms] by (simp add: same_shown_def)
qed

lemma AccessCoins_shown:
  assumes "cinv abs inv view" "AccessCoins B view t = (view', r)"
  shows "shown view view' \<and> (case r of None \<Rightarrow> cabs abs view t = None
    | Some c \<Rightarrow> clean c \<and> live (Some c) = cabs abs view t)"
proof -
  obtain e where f: "FetchCoins B view t = (view', e)" "r = map_option ce_coins e"
    using assms(2) by (auto simp: AccessCoins_def split: prod.splits option.splits)
  show ?thesis using FetchCoins_shown [OF assms(1) f(1)] FetchCoins_spec [OF assms(1) f(1)]
    by (cases e) (simp_all add: f(2))
qed

lemma GetBestBlock_shown:
  assumes "cinv abs inv view" "cache_GetBestBlock B view = (view', h)"
  shows "shown view view'"
proof -
  have "abs (cv_base view') = abs (cv_base view)"
    using assms best_abs [of "cv_base view"] by (auto simp: cache_GetBestBlock_def cinv_def Let_def split: prod.splits if_splits)
  then show ?thesis using GetBestBlock_spec [OF assms] by (simp add: same_shown_def)
qed

lemma GetOutputFor_shown:
  assumes "cinv abs inv view" "GetOutputFor B view i = (view', r)"
  shows "shown view view'"
  using assms AccessCoins_shown [OF assms(1)] by (auto simp: GetOutputFor_def Let_def split: prod.splits)

lemma value_in_loop_shown:
  "cinv abs inv view \<Longrightarrow> value_in_loop B view is n = (view', r) \<Longrightarrow> shown view view'"
proof (induction "is" arbitrary: view n)
  case (Cons i "is")
  obtain view1 o' where g: "GetOutputFor B view i = (view1, o')" by fastforce
  note s = GetOutputFor_shown [OF Cons.prems(1) g]
  show ?case using Cons.prems(2) g s Cons.IH [OF same_shown_inv [OF s]]
    by (auto split: option.splits intro: same_shown_trans)
qed (auto intro: same_shown_refl)

lemma p2sh_sigop_loop_shown:
  "cinv abs inv view \<Longrightarrow> p2sh_sigop_loop B view is n = (view', r) \<Longrightarrow> shown view view'"
proof (induction "is" arbitrary: view n)
  case (Cons i "is")
  obtain view1 o' where g: "GetOutputFor B view i = (view1, o')" by fastforce
  note s = GetOutputFor_shown [OF Cons.prems(1) g]
  show ?case using Cons.prems(2) g s Cons.IH [OF same_shown_inv [OF s]]
    by (auto split: option.splits intro: same_shown_trans)
qed (auto intro: same_shown_refl)

lemma have_inputs_loop_shown:
  "cinv abs inv view \<Longrightarrow> have_inputs_loop B view is = (view', r) \<Longrightarrow> shown view view' \<and>
    (r \<longleftrightarrow> (\<forall>i\<in>set is. \<exists>c. cabs abs view (prev_hash (txin_prevout i)) = Some c \<and> IsAvailable c (unat (prev_n (txin_prevout i)))))"
proof (induction "is" arbitrary: view)
  case (Cons i "is")
  obtain view1 c where g: "AccessCoins B view (prev_hash (txin_prevout i)) = (view1, c)" by fastforce
  note s = AccessCoins_shown [OF Cons.prems(1) g]
  have pr: "IsAvailable c n \<Longrightarrow> \<not> IsPruned c" for c n by (auto simp: IsAvailable_def IsPruned_def list_all_length)
  have s1: "shown view view1" using s by blast
  show ?case
  proof (cases c)
    case None
    then show ?thesis using Cons.prems(2) g s by auto
  next
    case [simp]: (Some d)
    show ?thesis
    proof (cases "IsAvailable d (unat (prev_n (txin_prevout i)))")
      case True
      have h: "have_inputs_loop B view1 is = (view', r)" using Cons.prems(2) g True by simp
      have d: "cabs abs view (prev_hash (txin_prevout i)) = Some d" using s pr [OF True] by simp
      have "cabs abs view1 = cabs abs view" using s1 by (simp add: same_shown_def)
      then show ?thesis using Cons.IH [OF same_shown_inv [OF s1] h] same_shown_trans [OF s1] True d by auto
    next
      case False
      have "cabs abs view (prev_hash (txin_prevout i)) = Some c' \<Longrightarrow> c' = d" for c'
        using s by (auto split: if_splits)
      then show ?thesis using Cons.prems(2) g s1 False by auto
    qed
  qed
qed (auto intro: same_shown_refl)

lemma HaveInputs_shown:
  "cinv abs inv view \<Longrightarrow> HaveInputs B view tx = (view', r) \<Longrightarrow> shown view view'"
  using have_inputs_loop_shown by (auto simp: HaveInputs_def same_shown_refl split: if_splits)

lemma input_heights_shown:
  "cinv abs inv view \<Longrightarrow> input_heights B view is hs = (view', r) \<Longrightarrow> shown view view'"
proof (induction "is" arbitrary: view hs)
  case (Cons i "is")
  obtain view1 c where g: "AccessCoins B view (prev_hash (txin_prevout i)) = (view1, c)" by fastforce
  have s: "shown view view1" using AccessCoins_shown [OF Cons.prems(1) g] by blast
  show ?case using Cons.prems(2) g s Cons.IH [OF same_shown_inv [OF s]]
    by (auto split: option.splits intro: same_shown_trans)
qed (auto intro: same_shown_refl)

lemma input_values_loop_shown:
  "cinv abs inv view \<Longrightarrow> input_values_loop B h st view is n = (view', r) \<Longrightarrow> shown view view'"
proof (induction "is" arbitrary: view n)
  case (Cons i "is")
  obtain view1 c where g: "AccessCoins B view (prev_hash (txin_prevout i)) = (view1, c)" by fastforce
  have s: "shown view view1" using AccessCoins_shown [OF Cons.prems(1) g] by blast
  show ?case using Cons.prems(2) g s Cons.IH [OF same_shown_inv [OF s]]
    by (auto simp: Let_def split: option.splits if_splits intro: same_shown_trans)
qed (auto intro: same_shown_refl)

lemma check_scripts_loop_shown:
  "cinv abs inv view \<Longrightarrow> check_scripts_loop env B tx fl q st view is n ks = (view', r) \<Longrightarrow> shown view view'"
proof (induction "is" arbitrary: view n ks)
  case (Cons i "is")
  obtain view1 c where g: "AccessCoins B view (prev_hash (txin_prevout i)) = (view1, c)" by fastforce
  have s: "shown view view1" using AccessCoins_shown [OF Cons.prems(1) g] by blast
  show ?case using Cons.prems(2) g s Cons.IH [OF same_shown_inv [OF s]]
    by (auto simp: Let_def split: option.splits if_splits sum.splits intro: same_shown_trans)
qed (auto intro: same_shown_refl)

lemma CheckTxInputs_shown:
  "cinv abs inv view \<Longrightarrow> CheckTxInputs B view tx st h = (view', r) \<Longrightarrow> shown view view'"
proof -
  assume i: "cinv abs inv view" and c: "CheckTxInputs B view tx st h = (view', r)"
  obtain view1 ok where h1: "HaveInputs B view tx = (view1, ok)" by fastforce
  note s1 = HaveInputs_shown [OF i h1]
  obtain view2 x where h2: "input_values_loop B h st view1 (tx_vin tx) 0 = (view2, x)" by fastforce
  have "shown view view2" using input_values_loop_shown [OF same_shown_inv [OF s1] h2] s1 same_shown_trans by blast
  then show ?thesis using c h1 h2 s1
    by (auto simp: CheckTxInputs_def split: bool.splits option.splits sum.splits)
qed

lemma CheckInputs_shown:
  "cinv abs inv view \<Longrightarrow> CheckInputs env B view tx st h fs fl q = (view', r) \<Longrightarrow> shown view view'"
proof -
  assume i: "cinv abs inv view" and c: "CheckInputs env B view tx st h fs fl q = (view', r)"
  obtain view1 x where h1: "CheckTxInputs B view tx st h = (view1, x)" by fastforce
  note s1 = CheckTxInputs_shown [OF i h1]
  have s2: "shown view v" if "check_scripts_loop env B tx fl q st' view1 is 0 [] = (v, r')" for v r' "is" st'
    using check_scripts_loop_shown [OF same_shown_inv [OF s1] that] s1 same_shown_trans by blast
  show ?thesis using c h1 s1 same_shown_refl [OF i]
    by (auto simp: CheckInputs_def split: bool.splits option.splits if_splits dest: s2)
qed

lemma connect_inputs_shown:
  assumes i: "cinv abs inv (cn_view cn)" and c: "connect_inputs cx B st tx cn = Inr cn'"
  shows "shown (cn_view cn) (cn_view cn') \<and> cn_vtxundo cn' = cn_vtxundo cn"
proof -
  obtain view1 b1 where 1: "HaveInputs B (cn_view cn) tx = (view1, b1)" by fastforce
  obtain view2 hs view3 n view4 vi view5 nh view6 st' ks where
    2: "input_heights B view1 (tx_vin tx) [] = (view2, Some hs)"
    and 3: "view3 = view2 \<or> GetP2SHSigOpCount B view2 tx = (view3, Some n)"
    and 4: "GetValueIn B view3 tx = (view4, Some vi)"
    and 5: "GetSpendHeight (cx_mapBlockIndex cx) B view4 = (view5, Some nh)"
    and 6: "CheckInputs (cx_crypto cx) B view5 tx st nh (cx_fScriptChecks cx)
        (block_script_flags (strict_p2sh (cx_pindex cx))) (cx_queued cx) = (view6, Some ((True, st'), ks))"
    and cn': "cn_view cn' = view6" "cn_vtxundo cn' = cn_vtxundo cn"
    using c by (cases "strict_p2sh (cx_pindex cx)"; cases "GetValueOut tx";
        fastforce simp: connect_inputs_def 1 Let_def bind_asserted split: if_splits)
  note s1 = HaveInputs_shown [OF i 1]
  note s2 = same_shown_trans [OF s1 input_heights_shown [OF same_shown_inv [OF s1] 2]]
  have s3: "shown (cn_view cn) view3"
    using 3 p2sh_sigop_loop_shown [OF same_shown_inv [OF s2]] s2
    by (auto simp: GetP2SHSigOpCount_def split: if_splits intro: same_shown_trans)
  have s4: "shown (cn_view cn) view4"
    using 4 value_in_loop_shown [OF same_shown_inv [OF s3]] s3 by (auto simp: GetValueIn_def split: if_splits intro: same_shown_trans)
  have s5: "shown (cn_view cn) view5"
    using 5 GetBestBlock_shown [OF same_shown_inv [OF s4]] s4
    by (auto simp: GetSpendHeight_def Let_def split: prod.splits intro: same_shown_trans)
  show ?thesis using same_shown_trans [OF s5 CheckInputs_shown [OF same_shown_inv [OF s5] 6]] cn' by simp
qed

lemma UpdateCoins_undo:
  assumes i: "cinv abs inv view" and ok: "coins_ok (cabs abs view)" and tx: "storable tx" and h: "h \<noteq> 0"
    and fresh: "cabs abs view (tx_GetHash H tx) = None" "abs (cv_base view) (tx_GetHash H tx) = None"
    and u: "UpdateCoins H B view tx [] h = Some (view', us)"
  shows "cinv abs inv view' \<and> coins_ok (cabs abs view') \<and> abs (cv_base view') = abs (cv_base view)
    \<and> (\<forall>t. t \<noteq> tx_GetHash H tx \<longrightarrow> cabs abs view t = None \<longrightarrow> cabs abs view' t = None)
    \<and> (\<not> IsCoinBase tx \<longrightarrow> length us = length (tx_vin tx))
    \<and> (\<forall>w f. cinv abs inv w \<longrightarrow> cabs abs w = cabs abs view' \<longrightarrow>
         (\<exists>w1 w2. undo_outputs H B w tx h = (w1, True)
            \<and> (if IsCoinBase tx then w2 = w1 else undo_loop B w1 (rev (zip (tx_vin tx) us)) f = (w2, f))
            \<and> cinv abs inv w2 \<and> cabs abs w2 = cabs abs view))"
proof -
  let ?t = "tx_GetHash H tx"
  have nn: "no_null_outs tx" "length (tx_vout tx) < 4294967296" using tx by (simp_all add: storable_def)
  have cl: "clean (FromTx tx h)" using clean_FromTx [OF nn(1)] .
  note c0 = clean_plain_nulls [OF cl] Cleanup_clean [OF cl]
  have ok': "coins_ok (a(?t := live (Some (FromTx tx h))))" if "coins_ok a" for a
    using that h FromTx_length [of tx h] nn(2) by (auto simp: coins_ok_def)
  have outs: "\<exists>w1. undo_outputs H B w tx h = (w1, True) \<and> cinv abs inv w1 \<and> cabs abs w1 = a"
    if "cinv abs inv w" "cabs abs w = a(?t := live (Some (FromTx tx h)))" "a ?t = None" for w a
    using undo_outputs_spec [OF that(1) nn(1), of H h] that(2,3) by (auto simp: fun_upd_idem)
  show ?thesis
  proof (cases "IsCoinBase tx")
    case True
    have v: "view' = ModifyCoins B view ?t (\<lambda>_. FromTx tx h)" "us = []" using u True by (simp_all add: UpdateCoins_def)
    have m: "cinv abs inv view' \<and> cabs abs view' = (cabs abs view)(?t := live (Some (FromTx tx h)))"
      unfolding v by (rule ModifyCoins_spec [OF i]) (simp add: c0)
    have b: "abs (cv_base view') = abs (cv_base view)"
      using begin_modify_base [OF i] by (simp add: v ModifyCoins_def split: prod.split)
    show ?thesis using m b ok' [OF ok] outs fresh(1) True by (auto simp: v(2))
  next
    case False
    obtain view1 where s: "spend_loop B view (tx_vin tx) [] = Some (view1, us)"
      and v: "view' = ModifyNewCoins view1 ?t (\<lambda>_. FromTx tx h)"
      using u False by (auto simp: UpdateCoins_def split: option.splits)
    obtain us2 where us2: "us = us2" "length us2 = length (tx_vin tx)" "cinv abs inv view1" "coins_ok (cabs abs view1)"
      "abs (cv_base view1) = abs (cv_base view)" "\<And>t. cabs abs view t = None \<Longrightarrow> cabs abs view1 t = None"
      "\<And>w f. cinv abs inv w \<Longrightarrow> cabs abs w = cabs abs view1 \<Longrightarrow>
          \<exists>w'. undo_loop B w (rev (zip (tx_vin tx) us2)) f = (w', f) \<and> cinv abs inv w' \<and> cabs abs w' = cabs abs view"
      using spend_loop_undo [OF i ok s] by auto
    have m: "cinv abs inv view' \<and> cabs abs view' = (cabs abs view1)(?t := live (Some (FromTx tx h)))"
      unfolding v using ModifyNewCoins_spec [OF us2(3), of ?t "\<lambda>_. FromTx tx h"] us2(5) fresh(2) by (simp add: c0)
    have undo: "\<exists>w1 w2. undo_outputs H B w tx h = (w1, True) \<and> undo_loop B w1 (rev (zip (tx_vin tx) us)) f = (w2, f)
        \<and> cinv abs inv w2 \<and> cabs abs w2 = cabs abs view"
      if w: "cinv abs inv w" "cabs abs w = cabs abs view'" for w f
      using outs [OF w(1), of "cabs abs view1"] w(2) m us2(6) [OF fresh(1)] us2(1,7) by metis
    show ?thesis using m v us2(1,2,5,6) ok' [OF us2(4)] undo False by auto
  qed
qed

lemma connect_tx_update:
  assumes i: "cinv abs inv (cn_view cn)" and c: "connect_tx cx B st first tx cn = Inr cn'"
  obtains view us where "shown (cn_view cn) view"
    and "UpdateCoins (cy_Hash (cx_crypto cx)) B view tx [] (height (cx_pindex cx)) = Some (cn_view cn', us)"
    and "cn_vtxundo cn' = (if first then cn_vtxundo cn else cn_vtxundo cn @ [us])"
proof -
  let ?cn1 = "cn \<lparr> cn_nSigOps := cn_nSigOps cn + GetLegacySigOpCount tx \<rparr>"
  obtain cn2 us where 2: "(if \<not> IsCoinBase tx then connect_inputs cx B st tx ?cn1 else Inr ?cn1) = Inr cn2"
    and u: "UpdateCoins (cy_Hash (cx_crypto cx)) B (cn_view cn2) tx [] (height (cx_pindex cx)) = Some (cn_view cn', us)"
      "cn_vtxundo cn' = (if first then cn_vtxundo cn2 else cn_vtxundo cn2 @ [us])"
    using c by (fastforce simp: connect_tx_def Let_def bindE_Inr_iff split: if_splits)
  have "shown (cn_view cn) (cn_view cn2) \<and> cn_vtxundo cn2 = cn_vtxundo cn"
    using 2 connect_inputs_shown [of ?cn1 cx st tx cn2] i same_shown_refl [OF i] by (auto split: if_splits)
  then show ?thesis using that u by auto
qed

lemma connect_loop_undo:
  "cinv abs inv (cn_view cn) \<Longrightarrow> coins_ok (cabs abs (cn_view cn)) \<Longrightarrow> height (cx_pindex cx) \<noteq> 0 \<Longrightarrow>
   fresh_ids (cy_Hash (cx_crypto cx)) (cabs abs (cn_view cn)) (abs (cv_base (cn_view cn))) txs \<Longrightarrow>
   (\<forall>tx\<in>set txs. storable tx \<and> \<not> IsCoinBase tx) \<Longrightarrow> connect_loop cx B st False txs cn = Inr cn' \<Longrightarrow>
   \<exists>uss. cn_vtxundo cn' = cn_vtxundo cn @ uss \<and> length uss = length txs \<and> cinv abs inv (cn_view cn')
     \<and> (\<forall>w rest f. cinv abs inv w \<longrightarrow> cabs abs w = cabs abs (cn_view cn') \<longrightarrow>
         (\<exists>w'. disconnect_loop (cy_Hash (cx_crypto cx)) B (height (cx_pindex cx)) cb w (rev (zip txs uss) @ rest) f =
               disconnect_loop (cy_Hash (cx_crypto cx)) B (height (cx_pindex cx)) cb w' rest f
             \<and> cinv abs inv w' \<and> cabs abs w' = cabs abs (cn_view cn)))"
proof (induction txs arbitrary: cn)
  case Nil
  then show ?case by auto
next
  case (Cons tx txs)
  let ?H = "cy_Hash (cx_crypto cx)" and ?h = "height (cx_pindex cx)"
  obtain cn1 where 1: "connect_tx cx B st False tx cn = Inr cn1" "connect_loop cx B st False txs cn1 = Inr cn'"
    using Cons.prems(6) by (auto simp: bindE_Inr_iff)
  obtain view us where s: "shown (cn_view cn) view" and u: "UpdateCoins ?H B view tx [] ?h = Some (cn_view cn1, us)"
    and vu: "cn_vtxundo cn1 = cn_vtxundo cn @ [us]"
    using connect_tx_update [OF Cons.prems(1) 1(1)] by auto
  have sv: "cinv abs inv view" "cabs abs view = cabs abs (cn_view cn)" "abs (cv_base view) = abs (cv_base (cn_view cn))"
    using s by (simp_all add: same_shown_def)
  have tx: "storable tx" "\<not> IsCoinBase tx" using Cons.prems(5) by simp_all
  have fr: "cabs abs view (tx_GetHash ?H tx) = None" "abs (cv_base view) (tx_GetHash ?H tx) = None"
    using Cons.prems(4) by (simp_all add: fresh_ids_def sv)
  have ok: "coins_ok (cabs abs view)" using Cons.prems(2) by (simp add: sv)
  note U = UpdateCoins_undo [OF sv(1) ok tx(1) Cons.prems(3) fr u]
  have k: "cabs abs (cn_view cn1) t = None" if "t \<noteq> tx_GetHash ?H tx" "cabs abs (cn_view cn) t = None" for t
    using U that sv(2) by simp
  have b1: "abs (cv_base (cn_view cn1)) = abs (cv_base (cn_view cn))" using U sv(3) by simp
  have "tx_GetHash ?H y \<noteq> tx_GetHash ?H tx" if "y \<in> set txs" for y
    using Cons.prems(4) that by (metis fresh_ids_def distinct.simps(2) image_eqI list.set_map list.simps(9))
  then have "fresh_ids ?H (cabs abs (cn_view cn1)) (abs (cv_base (cn_view cn1))) txs"
    using Cons.prems(4) k unfolding fresh_ids_def b1 by simp
  then obtain uss where uss: "cn_vtxundo cn' = cn_vtxundo cn1 @ uss" "length uss = length txs" "cinv abs inv (cn_view cn')"
     "\<And>w rest f. cinv abs inv w \<Longrightarrow> cabs abs w = cabs abs (cn_view cn') \<Longrightarrow>
         (\<exists>w'. disconnect_loop ?H B ?h cb w (rev (zip txs uss) @ rest) f = disconnect_loop ?H B ?h cb w' rest f
             \<and> cinv abs inv w' \<and> cabs abs w' = cabs abs (cn_view cn1))"
    using Cons.IH [of cn1] Cons.prems(3,5) U 1(2) by auto
  have "\<exists>w'. disconnect_loop ?H B ?h cb w (rev (zip (tx # txs) (us # uss)) @ rest) f = disconnect_loop ?H B ?h cb w' rest f
      \<and> cinv abs inv w' \<and> cabs abs w' = cabs abs (cn_view cn)"
    if w: "cinv abs inv w" "cabs abs w = cabs abs (cn_view cn')" for w rest f
  proof -
    obtain w1 where w1: "disconnect_loop ?H B ?h cb w (rev (zip txs uss) @ (tx, us) # rest) f
          = disconnect_loop ?H B ?h cb w1 ((tx, us) # rest) f" "cinv abs inv w1" "cabs abs w1 = cabs abs (cn_view cn1)"
      using uss(4) [OF w] by blast
    obtain w2 w3 where "undo_outputs ?H B w1 tx ?h = (w2, True)" "undo_loop B w2 (rev (zip (tx_vin tx) us)) f = (w3, f)"
      "cinv abs inv w3" "cabs abs w3 = cabs abs view"
      using U w1(2,3) tx(2) by fastforce
    then show ?thesis using w1(1) U tx(2) sv(2) by auto
  qed
  then show ?case using uss vu by (intro exI [of _ "us # uss"]) simp
qed

end

context coins_reader begin

lemma connect_block_run:
  assumes v: "cinv abs inv view" "coins_ok (cabs abs view)" and h: "height (cx_pindex cx) \<noteq> 0"
    and cb: "IsCoinBase cb" "storable cb" and txs: "\<forall>tx\<in>set txs. storable tx \<and> \<not> IsCoinBase tx"
    and fr: "fresh_ids (cy_Hash (cx_crypto cx)) (cabs abs view) (abs (cv_base view)) (cb # txs)"
    and c: "connect_block_txs cx B st (cb # txs) view = Inr cn"
  shows "length (cn_vtxundo cn) = length txs \<and> cinv abs inv (cn_view cn)
    \<and> (\<forall>w. cinv abs inv w \<longrightarrow> cabs abs w = cabs abs (cn_view cn) \<longrightarrow>
        (\<exists>w'. disconnect_loop (cy_Hash (cx_crypto cx)) B (height (cx_pindex cx)) cb w (rev (zip txs (cn_vtxundo cn))) True = Some (w', True)
            \<and> cinv abs inv w' \<and> cabs abs w' = cabs abs view))"
proof -
  let ?H = "cy_Hash (cx_crypto cx)" and ?h = "height (cx_pindex cx)"
  define cn0 where "cn0 = \<lparr> cn_view = view, cn_nSigOps = 0, cn_nFees = 0, cn_vtxundo = [], cn_checks = [] \<rparr>"
  have cn0: "cn_view cn0 = view" "cn_vtxundo cn0 = []" by (simp_all add: cn0_def)
  obtain cn1 where 1: "connect_tx cx B st True cb cn0 = Inr cn1" "connect_loop cx B st False txs cn1 = Inr cn"
    using c by (auto simp: connect_block_txs_def bindE_Inr_iff cn0_def)
  obtain view1 us where s: "shown view view1" and u: "UpdateCoins ?H B view1 cb [] ?h = Some (cn_view cn1, us)"
    and vu: "cn_vtxundo cn1 = []"
    using connect_tx_update [OF _ 1(1)] v(1) cn0 by auto
  have sv: "cinv abs inv view1" "cabs abs view1 = cabs abs view" "abs (cv_base view1) = abs (cv_base view)"
    using s by (simp_all add: same_shown_def)
  have f1: "cabs abs view1 (tx_GetHash ?H cb) = None" "abs (cv_base view1) (tx_GetHash ?H cb) = None"
    using fr by (simp_all add: fresh_ids_def sv)
  have ok: "coins_ok (cabs abs view1)" using v(2) by (simp add: sv)
  note U = UpdateCoins_undo [OF sv(1) ok cb(2) h f1 u]
  have b1: "abs (cv_base (cn_view cn1)) = abs (cv_base view)" using U sv(3) by simp
  have "tx_GetHash ?H y \<noteq> tx_GetHash ?H cb" if "y \<in> set txs" for y
    using fr that by (metis fresh_ids_def distinct.simps(2) image_eqI list.set_map list.simps(9))
  then have "fresh_ids ?H (cabs abs (cn_view cn1)) (abs (cv_base (cn_view cn1))) txs"
    using fr U sv(2) unfolding fresh_ids_def b1 by simp
  then obtain uss where uss: "cn_vtxundo cn = uss" "length uss = length txs" "cinv abs inv (cn_view cn)"
     "\<And>w rest f. cinv abs inv w \<Longrightarrow> cabs abs w = cabs abs (cn_view cn) \<Longrightarrow>
         (\<exists>w'. disconnect_loop ?H B ?h cb w (rev (zip txs uss) @ rest) f = disconnect_loop ?H B ?h cb w' rest f
             \<and> cinv abs inv w' \<and> cabs abs w' = cabs abs (cn_view cn1))"
    using connect_loop_undo [of cn1 cx txs st cn] U h txs 1(2) vu by auto
  have "\<exists>w'. disconnect_loop ?H B ?h cb w (rev (zip txs uss)) True = Some (w', True) \<and> cinv abs inv w' \<and> cabs abs w' = cabs abs view"
    if w: "cinv abs inv w" "cabs abs w = cabs abs (cn_view cn)" for w
  proof -
    obtain w1 where w1: "disconnect_loop ?H B ?h cb w (rev (zip txs uss)) True = disconnect_loop ?H B ?h cb w1 [] True"
        "cinv abs inv w1" "cabs abs w1 = cabs abs (cn_view cn1)"
      using uss(4) [OF w, of "[]" True] by auto
    obtain w2 where "undo_outputs ?H B w1 cb ?h = (w2, True)" "cinv abs inv w2" "cabs abs w2 = cabs abs view1"
      using U w1(2,3) cb(1) by fastforce
    then show ?thesis using w1(1) sv(2) by simp
  qed
  then show ?thesis using uss(1,2,3) by simp
qed

lemma connect_block_undo:
  assumes v: "cinv abs inv view" "coins_ok (cabs abs view)" and h: "height (cx_pindex cx) \<noteq> 0"
    and cb: "IsCoinBase cb" "storable cb" and txs: "\<forall>tx\<in>set txs. storable tx \<and> \<not> IsCoinBase tx"
    and fr: "fresh_ids (cy_Hash (cx_crypto cx)) (cabs abs view) (abs (cv_base view)) (cb # txs)"
    and c: "connect_block_txs cx B st (cb # txs) view = Inr cn"
    and p: "pprev (cx_pindex cx) = Some prev" "dp_nFile (GetUndoPos (cx_pindex cx)) \<noteq> -1"
    and w: "cinv abs inv w" "cabs abs w = cabs abs (cn_view cn)" "cv_hashBlock w = bi_hash (bi (cx_pindex cx))"
      "bi_hash (bi (cx_pindex cx)) \<noteq> 0"
  shows "\<exists>view'. DisconnectBlock (cy_Hash (cx_crypto cx)) B (cb # txs) (cx_pindex cx) (Some (cn_vtxundo cn)) w = Some (Inr (view', True))
    \<and> cinv abs inv view' \<and> cabs abs view' = cabs abs view \<and> cv_hashBlock view' = bi_hash (bi prev)"
proof -
  have best: "cache_GetBestBlock B w = (w, bi_hash (bi (cx_pindex cx)))" using w(3,4) by (simp add: cache_GetBestBlock_def)
  show ?thesis using connect_block_run [OF v h cb txs fr c] w(1,2) best p
    by (auto simp: DisconnectBlock_def SetBestBlock_def cabs_hash cinv_hash)
qed

end

subsection \<open>An example block\<close>

definition sample_out :: "CAmount \<Rightarrow> CTxOut" where
  "sample_out v = \<lparr> txout_nValue = v, txout_scriptPubKey = [], txout_nRounds = -10 \<rparr>"

definition sample_in :: "COutPoint \<Rightarrow> script \<Rightarrow> CTxIn" where
  "sample_in p s = \<lparr> txin_prevout = p, txin_scriptSig = s, txin_nSequence = SEQUENCE_FINAL, txin_prevPubKey = [] \<rparr>"

definition sample_coinbase :: CTransaction where
  "sample_coinbase = \<lparr> tx_nVersion = 2, tx_vin = [sample_in COutPoint_null [1, 2]], tx_vout = [sample_out 50], tx_nLockTime = 0 \<rparr>"

definition sample_spend :: CTransaction where
  "sample_spend = \<lparr> tx_nVersion = 1, tx_vin = [sample_in (COutPoint 5 0) []], tx_vout = [sample_out 6], tx_nLockTime = 0 \<rparr>"

definition sample_prev :: CBlockIndex where
  "sample_prev = CBlockIndex (SetNull_index \<lparr> bi_hash := 9, bi_nHeight := 19 \<rparr>) None None"

definition sample_index :: CBlockIndex where
  "sample_index = CBlockIndex (SetNull_index \<lparr> bi_hash := 10, bi_nHeight := 20, bi_nStatus := BLOCK_HAVE_UNDO \<rparr>) (Some sample_prev) None"

definition sample_env :: connect_env where
  "sample_env = \<lparr> cx_crypto = \<lparr> cy_Hash = (\<lambda>bs. 100 + ucast (hd bs)), cy_ripemd160 = (\<lambda>b. b), cy_sha1 = (\<lambda>b. b),
       cy_sha256 = (\<lambda>b. b), cy_verify = (\<lambda>_ _ _. False), cy_CheckLowS = (\<lambda>_. False) \<rparr>,
     cx_pindex = sample_index, cx_mapBlockIndex = (\<lambda>h. if h = 9 then Some sample_prev else None),
     cx_fScriptChecks = False, cx_queued = False \<rparr>"

lemma sample_sigops: "GetLegacySigOpCount sample_coinbase = 0" "GetLegacySigOpCount sample_spend = 0"
  by (code_simp, code_simp)

lemma sample_values: "GetValueOut sample_spend = Inr 6" "strict_p2sh sample_index = False"
   "SequenceLocks sample_spend (push_bit LOCKTIME_VERIFY_SEQUENCE 1) [3] sample_index = Some (True, [3])"
  by (code_simp, code_simp, code_simp)

lemma sample_cb: "IsCoinBase sample_coinbase" "\<not> IsCoinBase sample_spend"
  by (code_simp, code_simp)

lemma le_bytes4: "le_bytes 4 v = of_nat (v mod 256) # le_bytes 3 (v div 256)"
  using le_bytes.simps(2) [of 3 v] by simp

lemma sample_heads: "hd (ser_CTransaction sample_coinbase) = 2" "hd (ser_CTransaction sample_spend) = 1"
  by (simp_all add: ser_CTransaction_def ser_int32_def ser_writedata32_def sample_coinbase_def sample_spend_def le_bytes4)

lemma sample_ids: "tx_GetHash (cy_Hash (cx_crypto sample_env)) sample_coinbase = 102" 
   "tx_GetHash (cy_Hash (cx_crypto sample_env)) sample_spend = 101"
  by (simp_all add: tx_GetHash_def sample_heads sample_env_def)

lemma sample_fields [simp]: "cx_pindex sample_env = sample_index" "height sample_index = 20"
  "cx_mapBlockIndex sample_env 9 = Some sample_prev" "height sample_prev = 19" "cx_fScriptChecks sample_env = False"
  by (simp_all add: sample_env_def sample_index_def sample_prev_def)

definition sample_block_view :: "CCoinsViewDB CCoinsViewCache CCoinsViewCache" where
  "sample_block_view = sample_view \<lparr> cv_cacheCoins := [(5, \<lparr> ce_coins = sample_coins, ce_dirty = False, ce_fresh = False \<rparr>)] \<rparr>"

lemma sample_clean: "clean sample_coins" "\<not> IsPruned sample_coins" "IsAvailable sample_coins 0"
  by (simp_all add: sample_coins_def clean_def clean_vout_def IsPruned_def IsAvailable_def CTxOut_IsNull_def)

lemma sample_block_view_inv: "cinv (cabs db_coins) (cinv db_coins db_inv) sample_block_view"
  using sample_view_inv
  by (auto simp: sample_block_view_def cinv_def entries_ok_def entry_ok_def sample_clean cabs_def sample_view_def)

lemma sample_shown: "cabs (cabs db_coins) sample_block_view t = (if t = 5 then Some sample_coins else None)"
  "cabs db_coins (cv_base sample_block_view) t = (if t = 5 then Some sample_coins else None)"
  by (auto simp: sample_block_view_def cabs_def sample_clean sample_view_def)

lemma sample_connect_coinbase:
  "\<exists>v. connect_tx sample_env B CValidationState_init True sample_coinbase
       \<lparr> cn_view = sample_block_view, cn_nSigOps = 0, cn_nFees = 0, cn_vtxundo = [], cn_checks = [] \<rparr> =
     Inr \<lparr> cn_view = v, cn_nSigOps = 0, cn_nFees = 0, cn_vtxundo = [], cn_checks = [] \<rparr>
   \<and> map_of (cv_cacheCoins v) 5 = Some \<lparr> ce_coins = sample_coins, ce_dirty = False, ce_fresh = False \<rparr> \<and> cv_hashBlock v = 9"
proof -
  define v where "v = ModifyCoins B sample_block_view 102 (\<lambda>_. FromTx sample_coinbase 20)"
  have "map_of (cv_cacheCoins v) 5 = Some \<lparr> ce_coins = sample_coins, ce_dirty = False, ce_fresh = False \<rparr> \<and> cv_hashBlock v = 9"
    by (auto simp: v_def ModifyCoins_def begin_modify_def end_modify_def Let_def sample_block_view_def sample_view_def
        split: prod.split option.split)
  moreover have "connect_tx sample_env B CValidationState_init True sample_coinbase
       \<lparr> cn_view = sample_block_view, cn_nSigOps = 0, cn_nFees = 0, cn_vtxundo = [], cn_checks = [] \<rparr> =
     Inr \<lparr> cn_view = v, cn_nSigOps = 0, cn_nFees = 0, cn_vtxundo = [], cn_checks = [] \<rparr>"
    by (simp add: connect_tx_def sample_sigops sample_cb MAX_BLOCK_SIGOPS_def MAX_BLOCK_SIZE_def UpdateCoins_def sample_ids
        asserted_def v_def sample_fields)
  ultimately show ?thesis by blast
qed

lemma sample_spend_vin: "tx_vin sample_spend = [sample_in (COutPoint 5 0) []]" "txin_prevout (sample_in p s) = p"
  by (simp_all add: sample_spend_def sample_in_def)

lemma sample_connect_spend:
  assumes v: "map_of (cv_cacheCoins v) 5 = Some \<lparr> ce_coins = sample_coins, ce_dirty = False, ce_fresh = False \<rparr>" "cv_hashBlock v = 9"
  shows "\<exists>cn. connect_tx sample_env B CValidationState_init False sample_spend
       \<lparr> cn_view = v, cn_nSigOps = 0, cn_nFees = 0, cn_vtxundo = [], cn_checks = [] \<rparr> = Inr cn"
proof -
  have a: "AccessCoins B v 5 = (v, Some sample_coins)"
    using v(1) by (simp add: AccessCoins_def FetchCoins_def)
  have g: "GetOutputFor B v (sample_in (COutPoint 5 0) []) = (v, Some (sample_out 7))"
    by (simp add: GetOutputFor_def sample_spend_vin a sample_clean) (simp add: sample_coins_def sample_out_def)
  have c: "cc_nHeight sample_coins = 3" "cc_fCoinBase sample_coins = False" "txout_nValue (cc_vout sample_coins ! 0) = 7"
    "txout_nValue (sample_out 7) = 7"
    by (simp_all add: sample_coins_def sample_out_def)
  have b: "cache_GetBestBlock B v = (v, 9)" by (simp add: cache_GetBestBlock_def v(2))
  have h: "HaveInputs B v sample_spend = (v, True)"
    by (simp add: HaveInputs_def sample_cb sample_spend_vin a sample_clean)
  have ct: "CheckTxInputs B v sample_spend CValidationState_init 20 = (v, Some (True, CValidationState_init))"
    by (simp add: CheckTxInputs_def h sample_spend_vin a c i64_def i64_bounds MoneyRange_def MAX_MONEY_def sample_values)
  have ci: "connect_inputs sample_env B CValidationState_init sample_spend
       \<lparr> cn_view = v, cn_nSigOps = 0, cn_nFees = 0, cn_vtxundo = [], cn_checks = [] \<rparr> =
     Inr \<lparr> cn_view = v, cn_nSigOps = 0, cn_nFees = 1, cn_vtxundo = [], cn_checks = [] \<rparr>"
    by (simp add: connect_inputs_def h sample_spend_vin a c sample_values [unfolded sample_spend_vin] asserted_def GetValueIn_def sample_cb g
        i64_def i64_bounds GetSpendHeight_def b CheckInputs_def ct sample_values del: push_bit_of_1)
  obtain v' e where m: "begin_modify B v 5 = (v', e)" "ce_coins e = sample_coins" using v(1) by (simp add: begin_modify_def)
  have "spend_input B v (sample_in (COutPoint 5 0) []) \<noteq> None"
    using sample_clean(3) by (simp add: spend_input_def sample_spend_vin m Let_def IsAvailable_def)
  then obtain u where "UpdateCoins (cy_Hash (cx_crypto sample_env)) B v sample_spend [] 20 = Some u"
    by (auto simp: UpdateCoins_def sample_cb sample_spend_vin)
  then show ?thesis by (cases u) (simp add: connect_tx_def sample_sigops MAX_BLOCK_SIGOPS_def sample_cb ci asserted_def)
qed

lemma sample_connects:
  "\<exists>cn. connect_block_txs sample_env B CValidationState_init [sample_coinbase, sample_spend] sample_block_view = Inr cn"
proof -
  obtain v where v: "connect_tx sample_env B CValidationState_init True sample_coinbase
       \<lparr> cn_view = sample_block_view, cn_nSigOps = 0, cn_nFees = 0, cn_vtxundo = [], cn_checks = [] \<rparr> =
     Inr \<lparr> cn_view = v, cn_nSigOps = 0, cn_nFees = 0, cn_vtxundo = [], cn_checks = [] \<rparr>"
     "map_of (cv_cacheCoins v) 5 = Some \<lparr> ce_coins = sample_coins, ce_dirty = False, ce_fresh = False \<rparr>" "cv_hashBlock v = 9"
    using sample_connect_coinbase by blast
  obtain cn where "connect_tx sample_env B CValidationState_init False sample_spend
       \<lparr> cn_view = v, cn_nSigOps = 0, cn_nFees = 0, cn_vtxundo = [], cn_checks = [] \<rparr> = Inr cn"
    using sample_connect_spend [OF v(2,3)] by blast
  then show ?thesis using v(1) by (simp add: connect_block_txs_def)
qed

context coins_reader begin

lemma connect_block_inv:
  assumes v: "cinv abs inv view" "coins_ok (cabs abs view)" and h: "height (cx_pindex cx) \<noteq> 0"
    and cb: "IsCoinBase cb" "storable cb" and txs: "\<forall>tx\<in>set txs. storable tx \<and> \<not> IsCoinBase tx"
    and fr: "fresh_ids (cy_Hash (cx_crypto cx)) (cabs abs view) (abs (cv_base view)) (cb # txs)"
    and c: "connect_block_txs cx B st (cb # txs) view = Inr cn"
  shows "cinv abs inv (cn_view cn)"
  using connect_block_run [OF assms] by blast

end

subsection \<open>Properties\<close>

text \<open>C2: Disconnecting takes back what connecting did.  If the loop of \<open>ConnectBlock\<close> accepts the
  transactions of a block on a view over the cache of the active chain, then \<open>DisconnectBlock\<close> with
  the undo records of that run, on any view that shows the coins the run left (the same view, or one
  after flushes), ends without error, reports a clean undo, and leaves a view that shows exactly
  the coins from before the block and has the previous block as its best block.  The block starts with
  its only coinbase, and no coins carry the identifier of one of its transactions, neither in the view
  nor below it: \<open>ConnectBlock\<close> does not check that itself, since its BIP30 check is commented out.\<close>

theorem connect_disconnect:
  assumes v: "cinv (cabs db_coins) (cinv db_coins db_inv) view" "coins_ok (cabs (cabs db_coins) view)"
    and h: "height (cx_pindex cx) \<noteq> 0"
    and cb: "IsCoinBase cb" "storable cb" and txs: "\<forall>tx\<in>set txs. storable tx \<and> \<not> IsCoinBase tx"
    and fr: "fresh_ids (cy_Hash (cx_crypto cx)) (cabs (cabs db_coins) view) (cabs db_coins (cv_base view)) (cb # txs)"
    and c: "connect_block_txs cx (cache_ops db_ops) st (cb # txs) view = Inr cn"
    and p: "pprev (cx_pindex cx) = Some prev" "dp_nFile (GetUndoPos (cx_pindex cx)) \<noteq> -1"
    and w: "cinv (cabs db_coins) (cinv db_coins db_inv) w" "cabs (cabs db_coins) w = cabs (cabs db_coins) (cn_view cn)"
      "cv_hashBlock w = bi_hash (bi (cx_pindex cx))" "bi_hash (bi (cx_pindex cx)) \<noteq> 0"
  shows "\<exists>view'. DisconnectBlock (cy_Hash (cx_crypto cx)) (cache_ops db_ops) (cb # txs) (cx_pindex cx)
      (Some (cn_vtxundo cn)) w = Some (Inr (view', True))
    \<and> cinv (cabs db_coins) (cinv db_coins db_inv) view' \<and> cabs (cabs db_coins) view' = cabs (cabs db_coins) view
    \<and> cv_hashBlock view' = bi_hash (bi prev)"
  by (rule tip.connect_block_undo [OF v h cb txs fr c p w])

theorem connect_disconnect_witness:
  "\<exists>cn view'. connect_block_txs sample_env (cache_ops db_ops) CValidationState_init [sample_coinbase, sample_spend] sample_block_view = Inr cn
    \<and> DisconnectBlock (cy_Hash (cx_crypto sample_env)) (cache_ops db_ops) [sample_coinbase, sample_spend] sample_index
        (Some (cn_vtxundo cn)) (SetBestBlock (cn_view cn) 10) = Some (Inr (view', True))
    \<and> cabs (cabs db_coins) view' = cabs (cabs db_coins) sample_block_view"
proof -
  obtain cn where c: "connect_block_txs sample_env (cache_ops db_ops) CValidationState_init [sample_coinbase, sample_spend]
      sample_block_view = Inr cn"
    using sample_connects by blast
  have ok: "coins_ok (cabs (cabs db_coins) sample_block_view)" by (simp add: coins_ok_def sample_shown sample_coins_def)
  have st: "storable sample_coinbase" "storable sample_spend"
    by (simp_all add: storable_def no_null_outs_def sample_coinbase_def sample_spend_def sample_out_def CTxOut_IsNull_def)
  have fr: "fresh_ids (cy_Hash (cx_crypto sample_env)) (cabs (cabs db_coins) sample_block_view) (cabs db_coins (cv_base sample_block_view))
      [sample_coinbase, sample_spend]"
    by (simp add: fresh_ids_def sample_ids sample_shown)
  have p: "pprev sample_index = Some sample_prev" "dp_nFile (GetUndoPos sample_index) \<noteq> -1" "bi_hash (bi sample_index) = 10"
    by (simp_all add: sample_index_def GetUndoPos_def BLOCK_HAVE_UNDO_def SetNull_index_def)
  have i: "cinv (cabs db_coins) (cinv db_coins db_inv) (cn_view cn)"
    by (rule tip.connect_block_inv [OF sample_block_view_inv ok _ sample_cb(1) st(1) _ _ c]) (use st(2) sample_cb(2) fr in simp_all)
  then have w: "cinv (cabs db_coins) (cinv db_coins db_inv) (SetBestBlock (cn_view cn) 10)"
      "cabs (cabs db_coins) (SetBestBlock (cn_view cn) 10) = cabs (cabs db_coins) (cn_view cn)"
    by (simp_all add: SetBestBlock_def cinv_hash cabs_hash)
  have "\<exists>view'. DisconnectBlock (cy_Hash (cx_crypto sample_env)) (cache_ops db_ops) [sample_coinbase, sample_spend] (cx_pindex sample_env)
        (Some (cn_vtxundo cn)) (SetBestBlock (cn_view cn) 10) = Some (Inr (view', True))
    \<and> cinv (cabs db_coins) (cinv db_coins db_inv) view' \<and> cabs (cabs db_coins) view' = cabs (cabs db_coins) sample_block_view
    \<and> cv_hashBlock view' = bi_hash (bi sample_prev)"
    by (rule connect_disconnect [OF sample_block_view_inv ok _ sample_cb(1) st(1) _ fr c _ _ w])
      (use st(2) sample_cb(2) p in \<open>simp_all add: SetBestBlock_def\<close>)
  then show ?thesis using c by auto
qed

subsection \<open>The values of the inputs\<close>

definition in_value :: "(uint256 \<Rightarrow> CCoins option) \<Rightarrow> CTxIn \<Rightarrow> CAmount" where
  "in_value a i = (case a (prev_hash (txin_prevout i)) of
     None \<Rightarrow> 0 | Some c \<Rightarrow> txout_nValue (cc_vout c ! unat (prev_n (txin_prevout i))))"

definition in_available :: "(uint256 \<Rightarrow> CCoins option) \<Rightarrow> CTxIn \<Rightarrow> bool" where
  "in_available a i \<longleftrightarrow> (\<exists>c. a (prev_hash (txin_prevout i)) = Some c \<and> IsAvailable c (unat (prev_n (txin_prevout i))))"

definition in_mature :: "(uint256 \<Rightarrow> CCoins option) \<Rightarrow> int \<Rightarrow> CTxIn \<Rightarrow> bool" where
  "in_mature a h i \<longleftrightarrow> (\<forall>c. a (prev_hash (txin_prevout i)) = Some c \<longrightarrow> cc_fCoinBase c \<longrightarrow> COINBASE_MATURITY \<le> h - cc_nHeight c)"

definition inputs_pay :: "(uint256 \<Rightarrow> CCoins option) \<Rightarrow> int \<Rightarrow> CTransaction \<Rightarrow> CAmount \<Rightarrow> bool" where
  "inputs_pay a h tx nValueOut \<longleftrightarrow>
     (\<forall>i\<in>set (tx_vin tx). in_available a i \<and> in_mature a h i \<and> MoneyRange (in_value a i))
     \<and> MoneyRange (\<Sum>i\<leftarrow>tx_vin tx. in_value a i) \<and> nValueOut \<le> (\<Sum>i\<leftarrow>tx_vin tx. in_value a i)"

lemma MoneyRange_sum_list: "(\<forall>i\<in>set xs. MoneyRange (f i)) \<Longrightarrow> 0 \<le> (\<Sum>i\<leftarrow>xs. f i)"
  by (induction xs) (auto simp: MoneyRange_def)

context coins_reader begin

lemma input_values_loop_spec:
  "cinv abs inv view \<Longrightarrow> (\<forall>i\<in>set is. in_available (cabs abs view) i) \<Longrightarrow> MoneyRange n \<Longrightarrow>
   input_values_loop B h st view is n = (view', r) \<Longrightarrow>
   (\<exists>m. r = Some (Inr m)) = ((\<forall>i\<in>set is. in_mature (cabs abs view) h i \<and> MoneyRange (in_value (cabs abs view) i))
      \<and> MoneyRange (n + (\<Sum>i\<leftarrow>is. in_value (cabs abs view) i)))
   \<and> (\<forall>m. r = Some (Inr m) \<longrightarrow> m = n + (\<Sum>i\<leftarrow>is. in_value (cabs abs view) i))"
proof (induction "is" arbitrary: view n)
  case Nil
  then show ?case by auto
next
  case (Cons i "is")
  let ?a = "cabs abs view" and ?t = "prev_hash (txin_prevout i)" and ?n = "unat (prev_n (txin_prevout i))"
  obtain c where c: "?a ?t = Some c" "IsAvailable c ?n" using Cons.prems(2) by (auto simp: in_available_def)
  obtain view1 r1 where g: "AccessCoins B view ?t = (view1, r1)" by fastforce
  note s = AccessCoins_shown [OF Cons.prems(1) g]
  have r1: "r1 = Some c" using s c(1) by (auto split: option.splits if_splits)
  have s1: "cinv abs inv view1" "cabs abs view1 = ?a" using s by (simp_all add: same_shown_def)
  have v: "in_value ?a i = txout_nValue (cc_vout c ! ?n)" by (simp add: in_value_def c(1))
  have mt: "in_mature ?a h i \<longleftrightarrow> \<not> (cc_fCoinBase c \<and> h - cc_nHeight c < COINBASE_MATURITY)"
    by (auto simp: in_mature_def c(1))
  let ?v = "in_value ?a i" and ?s = "\<Sum>i\<leftarrow>is. in_value ?a i"
  show ?case
  proof (cases "in_mature ?a h i \<and> MoneyRange ?v \<and> MoneyRange (n + ?v)")
    case True
    have i: "i64 (n + ?v) = Some (n + ?v)" using True by (simp add: i64_def i64_bounds MoneyRange_def MAX_MONEY_def)
    have nc: "(cc_fCoinBase c \<and> h - cc_nHeight c < COINBASE_MATURITY) = False" using True mt by blast
    have mr: "MoneyRange ?v" "MoneyRange (n + ?v)" using True by simp_all
    have "input_values_loop B h st view1 is (n + ?v) = (view', r)"
      using Cons.prems(4) i mr by (simp add: g r1 nc v Let_def i64_def)
    then show ?thesis using Cons.IH [OF s1(1), of "n + ?v"] Cons.prems(2) True s1(2) by (auto simp: add.assoc)
  next
    case False
    have "\<nexists>m. r = Some (Inr m)"
      using Cons.prems(4) False mt by (auto simp: g r1 v Let_def split: if_splits option.splits)
    moreover have "\<not> ((\<forall>i\<in>set (i # is). in_mature ?a h i \<and> MoneyRange (in_value ?a i)) \<and> MoneyRange (n + (?v + ?s)))"
    proof
      assume *: "(\<forall>i\<in>set (i # is). in_mature ?a h i \<and> MoneyRange (in_value ?a i)) \<and> MoneyRange (n + (?v + ?s))"
      have "0 \<le> ?s" using * by (intro MoneyRange_sum_list) auto
      then show False using * False Cons.prems(3) by (auto simp: MoneyRange_def)
    qed
    ultimately show ?thesis by simp
  qed
qed

lemma CheckTxInputs_spec:
  assumes i: "cinv abs inv view" and cb: "\<not> IsCoinBase tx" and vo: "GetValueOut tx = Inr nValueOut"
    and r: "CheckTxInputs B view tx st h = (view', r)"
  shows "r = Some (True, st) \<longleftrightarrow> inputs_pay (cabs abs view) h tx nValueOut"
proof -
  obtain view1 hvi where h1: "HaveInputs B view tx = (view1, hvi)" by fastforce
  have l: "have_inputs_loop B view (tx_vin tx) = (view1, hvi)" using h1 cb by (simp add: HaveInputs_def)
  note hv = have_inputs_loop_shown [OF i l]
  have av: "hvi \<longleftrightarrow> (\<forall>i\<in>set (tx_vin tx). in_available (cabs abs view) i)" using hv by (simp add: in_available_def)
  have s1: "cinv abs inv view1" "cabs abs view1 = cabs abs view" using hv by (simp_all add: same_shown_def)
  show ?thesis
  proof (cases hvi)
    case False
    then have "HaveInputs B view tx = (view1, False)" using h1 by simp
    then have "r \<noteq> Some (True, st)" using r by (auto simp: CheckTxInputs_def)
    then show ?thesis using av False by (auto simp: inputs_pay_def)
  next
    case True
    obtain view2 x where h2: "input_values_loop B h st view1 (tx_vin tx) 0 = (view2, x)" by fastforce
    have h1': "HaveInputs B view tx = (view1, True)" using h1 True by simp
    have z: "MoneyRange 0" by (simp add: MoneyRange_def MAX_MONEY_def)
    have "\<forall>i\<in>set (tx_vin tx). in_available (cabs abs view1) i" using av True s1(2) by simp
    note lp = input_values_loop_spec [OF s1(1) this z h2]
    have out: "0 \<le> nValueOut" using vo by (auto simp: GetValueOut_Inr MoneyRange_sum_list)
    have res: "r = Some (True, st) \<longleftrightarrow> (\<exists>m. x = Some (Inr m) \<and> nValueOut \<le> m)"
      using r h1' vo lp out
      by (auto simp: CheckTxInputs_def h2 reject_def Let_def MoneyRange_def split: option.splits sum.splits if_splits)
    show ?thesis unfolding res inputs_pay_def using lp av True s1(2) by auto
  qed
qed

end

subsection \<open>Accepted inputs can be spent\<close>

lemma Spend_available:
  assumes "IsAvailable c m" "m \<noteq> n"
  shows "IsAvailable (fst (Spend c n)) m"
proof -
  define u where "u = (cc_vout c)[n := CTxOut_null]"
  obtain k where k: "u = drop_null_back u @ k" "list_all CTxOut_IsNull k" using drop_null_back_append by blast
  have m: "m < length u" "\<not> CTxOut_IsNull (u ! m)" using assms by (simp_all add: IsAvailable_def u_def)
  have "m < length (drop_null_back u)"
  proof (rule ccontr)
    assume out: "\<not> m < length (drop_null_back u)"
    have "u ! m = k ! (m - length (drop_null_back u))" using arg_cong [OF k(1), of "\<lambda>x. x ! m"] out by (simp add: nth_append)
    moreover have "m - length (drop_null_back u) < length k" using m(1) arg_cong [OF k(1), of length] out by simp
    ultimately show False using m(2) k(2) by (simp add: list_all_length)
  qed
  moreover have "drop_null_back u ! m = u ! m"
    using arg_cong [OF k(1), of "\<lambda>x. x ! m"] calculation by (simp add: nth_append)
  ultimately show ?thesis using assms(1) m by (simp add: Spend_def Cleanup_def IsAvailable_def u_def)
qed

context coins_reader begin

lemma spend_input_Some:
  assumes i: "cinv abs inv view" and a: "in_available (cabs abs view) inp"
  shows "spend_input B view inp \<noteq> None"
proof -
  obtain view1 e where b: "begin_modify B view (prev_hash (txin_prevout inp)) = (view1, e)" by fastforce
  have "cabs abs view (prev_hash (txin_prevout inp)) = Some (ce_coins e)"
    using begin_modify_spec [OF i b] a by (auto simp: in_available_def)
  then show ?thesis using a by (auto simp: spend_input_def b Let_def in_available_def IsAvailable_def)
qed

lemma spend_loop_Some:
  "cinv abs inv view \<Longrightarrow> (\<forall>i\<in>set is. in_available (cabs abs view) i) \<Longrightarrow> distinct (map txin_prevout is) \<Longrightarrow>
   spend_loop B view is us \<noteq> None"
proof (induction "is" arbitrary: view us)
  case (Cons i "is")
  obtain view1 u where s: "spend_input B view i = Some (view1, u)"
    using spend_input_Some [OF Cons.prems(1), of i] Cons.prems(2) by fastforce
  define t n where "t = prev_hash (txin_prevout i)" and "n = unat (prev_n (txin_prevout i))"
  obtain c where c: "cabs abs view t = Some c" "cinv abs inv view1"
      "cabs abs view1 = (cabs abs view)(t := live (Some (fst (Spend c n))))"
    using spend_input_spec [OF Cons.prems(1) s] by (auto simp: t_def n_def)
  have "in_available (cabs abs view1) j" if j: "j \<in> set is" for j
  proof (cases "prev_hash (txin_prevout j) = t")
    case True
    let ?m = "unat (prev_n (txin_prevout j))"
    have "txin_prevout j \<noteq> txin_prevout i" using Cons.prems(3) j by (metis distinct.simps(2) image_eqI list.set_map list.simps(9))
    then have "?m \<noteq> n" using True by (auto simp: t_def n_def COutPoint.expand word_unat_eq_iff [symmetric])
    moreover have "IsAvailable c ?m" using Cons.prems(2) j True c(1) by (auto simp: in_available_def)
    ultimately have av: "IsAvailable (fst (Spend c n)) ?m" by (rule Spend_available [rotated])
    then have "\<not> IsPruned (fst (Spend c n))" by (auto simp: IsAvailable_def IsPruned_def list_all_length)
    then show ?thesis using av True by (simp add: in_available_def c(3))
  next
    case False
    then show ?thesis using Cons.prems(2) j by (simp add: in_available_def c(3))
  qed
  then show ?case using Cons.IH [OF c(2)] Cons.prems(3) s by simp
qed simp

lemma CheckTxInputs_spendable:
  assumes i: "cinv abs inv view" and cb: "\<not> IsCoinBase tx" and d: "distinct (map txin_prevout (tx_vin tx))"
    and r: "CheckTxInputs B view tx st h = (view', Some (True, st'))"
  shows "UpdateCoins H B view' tx us nHeight \<noteq> None"
proof -
  obtain view1 where h1: "HaveInputs B view tx = (view1, True)"
    using r by (auto simp: CheckTxInputs_def Invalid_def split: prod.splits bool.splits)
  then have "have_inputs_loop B view (tx_vin tx) = (view1, True)" using cb by (simp add: HaveInputs_def)
  then have "\<forall>i\<in>set (tx_vin tx). in_available (cabs abs view) i"
    using have_inputs_loop_shown [OF i] by (auto simp: in_available_def)
  moreover have "shown view view'" by (rule CheckTxInputs_shown [OF i r])
  ultimately have "spend_loop B view' (tx_vin tx) us \<noteq> None" using d by (intro spend_loop_Some) (auto simp: same_shown_def)
  then show ?thesis using cb by (auto simp: UpdateCoins_def)
qed

end

text \<open>C3: \<open>CheckTxInputs\<close> lets no money be created: for a transaction with a valid output total it
  accepts exactly when every input spends an available output, no coinbase is spent before its
  maturity, each value and their total are in the money range, and the total of the inputs is at least
  the total of the outputs.  The check changes no coins, and when it accepts inputs that are
  distinct (as \<open>CheckTransaction\<close> demands), \<open>UpdateCoins\<close> never runs into its assertion.\<close>

theorem CheckTxInputs_no_inflation:
  assumes i: "cinv (cabs db_coins) (cinv db_coins db_inv) view" and cb: "\<not> IsCoinBase tx"
    and vo: "GetValueOut tx = Inr nValueOut" and d: "distinct (map txin_prevout (tx_vin tx))"
    and r: "CheckTxInputs (cache_ops db_ops) view tx st h = (view', r)"
  shows "(r = Some (True, st) \<longleftrightarrow> inputs_pay (cabs (cabs db_coins) view) h tx nValueOut)
    \<and> cabs (cabs db_coins) view' = cabs (cabs db_coins) view
    \<and> (r = Some (True, st) \<longrightarrow> UpdateCoins H (cache_ops db_ops) view' tx us nHeight \<noteq> None)"
  using tip.CheckTxInputs_spec [OF i cb vo r] tip.CheckTxInputs_shown [OF i r]
    tip.CheckTxInputs_spendable [OF i cb d, of st h view' st H us nHeight] r
  by (simp add: same_shown_def)

theorem CheckTxInputs_no_inflation_witness:
  "\<exists>view'. CheckTxInputs (cache_ops db_ops) sample_block_view sample_spend CValidationState_init 20 = (view', Some (True, CValidationState_init))
    \<and> UpdateCoins (cy_Hash (cx_crypto sample_env)) (cache_ops db_ops) view' sample_spend [] 20 \<noteq> None"
proof -
  obtain view' r where r: "CheckTxInputs (cache_ops db_ops) sample_block_view sample_spend CValidationState_init 20 = (view', r)"
    by fastforce
  have "inputs_pay (cabs (cabs db_coins) sample_block_view) 20 sample_spend 6"
    by (simp add: inputs_pay_def sample_spend_vin in_available_def in_mature_def in_value_def sample_shown sample_clean)
      (simp add: sample_coins_def MoneyRange_def MAX_MONEY_def)
  moreover have "distinct (map txin_prevout (tx_vin sample_spend))" by (simp add: sample_spend_vin)
  ultimately show ?thesis
    using CheckTxInputs_no_inflation [OF sample_block_view_inv sample_cb(2) sample_values(1) _ r] r by blast
qed

end
