(* ===== verification/Check_Queue.thy ===== *)
theory Check_Queue
  imports Main
begin

text \<open>
  The queue of script checks that the block validation thread shares with its workers
  (src/src/checkqueue.h), as a step relation on interleavings.

  A step is one critical section of \<open>Loop\<close>, one evaluated check, one call of \<open>Add\<close> or one entry into
  \<open>Loop\<close>; the mutex makes a critical section atomic, and waiting on a condition releases it.
  Thread 0 is the master, the others are workers.  A waiting thread carries the flag that it was
  notified; the standard allows it to wake up without that, which is the action \<open>spurious\<close>.
\<close>

subsection \<open>State\<close>

datatype cq_pc = Outside | AtLock | Waiting bool | Checking

record 'c cq_thread =
  ct_pc :: cq_pc
  ct_vChecks :: "'c list"
  ct_nNow :: nat
  ct_fOk :: bool

record 'c CCheckQueue =
  cq_queue :: "'c list"
  cq_nIdle :: int
  cq_nTotal :: int
  cq_fAllOk :: bool
  cq_nTodo :: nat
  cq_fQuit :: bool

definition CCheckQueue_init :: "'c CCheckQueue" where
  "CCheckQueue_init = \<lparr> cq_queue = [], cq_nIdle = 0, cq_nTotal = 0, cq_fAllOk = True, cq_nTodo = 0, cq_fQuit = False \<rparr>"

definition IsIdle :: "'c CCheckQueue \<Rightarrow> bool" where
  "IsIdle q \<longleftrightarrow> cq_nTotal q = cq_nIdle q \<and> cq_nTodo q = 0 \<and> cq_fAllOk q = True"

text \<open>\<open>cq_added\<close> are the checks added since the master last returned, and \<open>cq_result\<close> is what it last
  returned, with the checks of that round.\<close>

record 'c cq_state =
  cq_q :: "'c CCheckQueue"
  cq_threads :: "'c cq_thread list"
  cq_added :: "'c list"
  cq_result :: "(bool \<times> 'c list) option"

subsection \<open>The sections of the code\<close>

definition Loop_enter :: "'c cq_thread \<Rightarrow> 'c cq_thread" where
  "Loop_enter th = th \<lparr> ct_pc := AtLock, ct_vChecks := [], ct_nNow := 0, ct_fOk := True \<rparr>"

text \<open>How many checks a thread takes.\<close>

definition batch_size :: "nat \<Rightarrow> 'c CCheckQueue \<Rightarrow> nat" where
  "batch_size nBatchSize q = max 1 (min nBatchSize (length (cq_queue q) div nat (cq_nTotal q + cq_nIdle q + 1)))"

text \<open>From the test of the inner loop on: return, wait, or take a batch from the back of the queue.\<close>

definition Loop_test ::
  "nat \<Rightarrow> bool \<Rightarrow> 'c CCheckQueue \<Rightarrow> 'c cq_thread \<Rightarrow> 'c CCheckQueue \<times> 'c cq_thread \<times> bool option" where
  "Loop_test nBatchSize fMaster q th =
     (if cq_queue q = []
      then if (fMaster \<or> cq_fQuit q) \<and> cq_nTodo q = 0
           then (q \<lparr> cq_nTotal := cq_nTotal q - 1, cq_fAllOk := (if fMaster then True else cq_fAllOk q) \<rparr>,
                 th \<lparr> ct_pc := Outside \<rparr>, Some (cq_fAllOk q))
           else (q \<lparr> cq_nIdle := cq_nIdle q + 1 \<rparr>, th \<lparr> ct_pc := Waiting False \<rparr>, None)
      else let nNow = batch_size nBatchSize q; k = length (cq_queue q) - nNow in
           (q \<lparr> cq_queue := take k (cq_queue q) \<rparr>,
            th \<lparr> ct_pc := Checking, ct_vChecks := rev (drop k (cq_queue q)), ct_nNow := nNow, ct_fOk := cq_fAllOk q \<rparr>,
            None))"

text \<open>The clean-up of the previous round; the third value tells whether the master is notified.\<close>

definition Loop_cleanup :: "bool \<Rightarrow> 'c CCheckQueue \<Rightarrow> 'c cq_thread \<Rightarrow> 'c CCheckQueue \<times> bool" where
  "Loop_cleanup fMaster q th =
     (if ct_nNow th \<noteq> 0
      then let q' = q \<lparr> cq_fAllOk := cq_fAllOk q \<and> ct_fOk th, cq_nTodo := cq_nTodo q - ct_nNow th \<rparr> in
           (q', cq_nTodo q' = 0 \<and> \<not> fMaster)
      else (q \<lparr> cq_nTotal := cq_nTotal q + 1 \<rparr>, False))"

text \<open>One round of the loop that executes the batch, and its end.\<close>

definition run_check :: "('c \<Rightarrow> bool) \<Rightarrow> 'c cq_thread \<Rightarrow> 'c cq_thread" where
  "run_check check th =
     (case ct_vChecks th of
        [] \<Rightarrow> th \<lparr> ct_pc := AtLock \<rparr>
      | c # cs \<Rightarrow> th \<lparr> ct_vChecks := cs, ct_fOk := (if ct_fOk th then check c else ct_fOk th) \<rparr>)"

definition queue_add :: "'c list \<Rightarrow> 'c CCheckQueue \<Rightarrow> 'c CCheckQueue" where
  "queue_add vChecks q = q \<lparr> cq_queue := cq_queue q @ vChecks, cq_nTodo := cq_nTodo q + length vChecks \<rparr>"

definition wake :: "'c cq_thread \<Rightarrow> 'c cq_thread" where
  "wake th = (case ct_pc th of Waiting b \<Rightarrow> th \<lparr> ct_pc := Waiting True \<rparr> | _ \<Rightarrow> th)"

text \<open>\<open>notify_one\<close> on the condition of the master, and the ways \<open>Add\<close> may notify the workers: all of them,
  or any one that waits.\<close>

definition notify_master :: "bool \<Rightarrow> 'c cq_thread list \<Rightarrow> 'c cq_thread list" where
  "notify_master b ts = (case ts of [] \<Rightarrow> [] | m # ws \<Rightarrow> (if b then wake m else m) # ws)"

definition notify_workers :: "nat set \<Rightarrow> 'c cq_thread list \<Rightarrow> 'c cq_thread list" where
  "notify_workers J ts = map (\<lambda>(j, th). if j \<in> J \<and> j \<noteq> 0 then wake th else th) (enumerate 0 ts)"

definition waiting :: "'c cq_thread \<Rightarrow> bool" where
  "waiting th \<longleftrightarrow> (\<exists>b. ct_pc th = Waiting b)"

definition may_notify :: "nat \<Rightarrow> 'c cq_thread list \<Rightarrow> nat set \<Rightarrow> bool" where
  "may_notify n ts J \<longleftrightarrow>
     (if n = 0 then J = {}
      else if n = 1
      then if \<exists>j. 0 < j \<and> j < length ts \<and> ct_pc (ts ! j) = Waiting False
           then \<exists>j. J = {j} \<and> 0 < j \<and> j < length ts \<and> ct_pc (ts ! j) = Waiting False
           else J = {}
      else J = UNIV)"

subsection \<open>Steps\<close>

datatype cq_action = act_add | act_enter nat | act_section nat | act_check nat | act_wake nat | act_spurious nat

text \<open>Thread \<open>i\<close> leaves a critical section with the queue \<open>q\<close>, its own state \<open>th\<close>, and \<open>r\<close> when it returned.\<close>

definition leave :: "nat \<Rightarrow> 'c CCheckQueue \<times> 'c cq_thread \<times> bool option \<Rightarrow> bool \<Rightarrow> 'c cq_state \<Rightarrow> 'c cq_state" where
  "leave i x notify s =
     (case x of (q, th, r) \<Rightarrow>
        s \<lparr> cq_q := q, cq_threads := (notify_master notify (cq_threads s))[i := th],
            cq_result := (case r of Some b \<Rightarrow> if i = 0 then Some (b, cq_added s) else cq_result s | None \<Rightarrow> cq_result s),
            cq_added := (if r \<noteq> None \<and> i = 0 then [] else cq_added s) \<rparr>)"

inductive cq_step :: "('c \<Rightarrow> bool) \<Rightarrow> nat \<Rightarrow> cq_action \<Rightarrow> 'c cq_state \<Rightarrow> 'c cq_state \<Rightarrow> bool" for check nBatchSize where
  step_add: "cq_threads s \<noteq> [] \<Longrightarrow> ct_pc (cq_threads s ! 0) = Outside \<Longrightarrow> may_notify (length cs) (cq_threads s) J \<Longrightarrow>
    cq_step check nBatchSize act_add s
      (s \<lparr> cq_q := queue_add cs (cq_q s), cq_threads := notify_workers J (cq_threads s), cq_added := cq_added s @ cs \<rparr>)"
| step_enter: "i < length (cq_threads s) \<Longrightarrow> ct_pc (cq_threads s ! i) = Outside \<Longrightarrow>
    cq_step check nBatchSize (act_enter i) s
      (s \<lparr> cq_threads := (cq_threads s)[i := Loop_enter (cq_threads s ! i)],
          cq_result := (if i = 0 then None else cq_result s) \<rparr>)"
| step_section: "i < length (cq_threads s) \<Longrightarrow> ct_pc (cq_threads s ! i) = AtLock \<Longrightarrow>
    Loop_cleanup (i = 0) (cq_q s) (cq_threads s ! i) = (q, notify) \<Longrightarrow>
    cq_step check nBatchSize (act_section i) s (leave i (Loop_test nBatchSize (i = 0) q (cq_threads s ! i)) notify s)"
| step_check: "i < length (cq_threads s) \<Longrightarrow> ct_pc (cq_threads s ! i) = Checking \<Longrightarrow>
    cq_step check nBatchSize (act_check i) s (s \<lparr> cq_threads := (cq_threads s)[i := run_check check (cq_threads s ! i)] \<rparr>)"
| step_wake: "i < length (cq_threads s) \<Longrightarrow> ct_pc (cq_threads s ! i) = Waiting b \<Longrightarrow>
    a = (if b then act_wake i else act_spurious i) \<Longrightarrow>
    cq_step check nBatchSize a s
      (leave i (Loop_test nBatchSize (i = 0) ((cq_q s) \<lparr> cq_nIdle := cq_nIdle (cq_q s) - 1 \<rparr>) (cq_threads s ! i)) False s)"

inductive cq_reachable :: "('c \<Rightarrow> bool) \<Rightarrow> nat \<Rightarrow> 'c cq_state \<Rightarrow> bool" for check nBatchSize where
  reach_init: "(\<forall>th\<in>set ts. ct_pc th = Outside \<and> ct_nNow th = 0) \<Longrightarrow> ts \<noteq> [] \<Longrightarrow>
    cq_reachable check nBatchSize \<lparr> cq_q = CCheckQueue_init, cq_threads = ts, cq_added = [], cq_result = None \<rparr>"
| reach_step: "cq_reachable check nBatchSize s \<Longrightarrow> cq_step check nBatchSize a s s' \<Longrightarrow> cq_reachable check nBatchSize s'"

inductive_cases cq_stepE: "cq_step check nBatchSize a s s'"

subsection \<open>The invariant\<close>

text \<open>A thread is in flight between taking a batch and accounting for it.\<close>

definition in_flight :: "'c cq_thread \<Rightarrow> nat" where
  "in_flight th = (if ct_pc th = Checking \<or> ct_pc th = AtLock then ct_nNow th else 0)"

definition counted :: "'c cq_thread \<Rightarrow> int" where
  "counted th = (if waiting th \<or> 0 < in_flight th then 1 else 0)"

definition idle :: "'c cq_thread \<Rightarrow> int" where
  "idle th = (if waiting th then 1 else 0)"

text \<open>What a thread in flight still claims: its checks so far, and the ones it has not run.\<close>

definition claims_ok :: "('c \<Rightarrow> bool) \<Rightarrow> 'c cq_thread \<Rightarrow> bool" where
  "claims_ok check th \<longleftrightarrow> 0 < in_flight th \<longrightarrow> ct_fOk th \<and> (ct_pc th = Checking \<longrightarrow> list_all check (ct_vChecks th))"

text \<open>The invariant while \<open>k\<close> threads (none or one) are inside a critical section and stand as \<open>Outside\<close>
  in the list.\<close>

definition cq_core :: "('c \<Rightarrow> bool) \<Rightarrow> int \<Rightarrow> 'c CCheckQueue \<Rightarrow> 'c cq_thread list \<Rightarrow> 'c list \<Rightarrow> bool" where
  "cq_core check k q ts added \<longleftrightarrow>
     ts \<noteq> [] \<and> cq_fQuit q = False
     \<and> cq_nTodo q = length (cq_queue q) + sum_list (map in_flight ts)
     \<and> cq_nTotal q = sum_list (map counted ts) + k \<and> cq_nIdle q = sum_list (map idle ts)
     \<and> (\<forall>th\<in>set ts. ct_pc th = Checking \<longrightarrow> 0 < ct_nNow th)
     \<and> ((cq_fAllOk q \<and> list_all check (cq_queue q) \<and> list_all (claims_ok check) ts) = list_all check added)"

text \<open>The master waits only on an empty queue, and without a notification only while checks run.\<close>

definition master_ok :: "'c CCheckQueue \<Rightarrow> 'c cq_thread list \<Rightarrow> bool" where
  "master_ok q ts \<longleftrightarrow> (waiting (ts ! 0) \<longrightarrow> cq_queue q = []) \<and> (ct_pc (ts ! 0) = Waiting False \<longrightarrow> 0 < cq_nTodo q)"

definition cq_inv :: "('c \<Rightarrow> bool) \<Rightarrow> 'c cq_state \<Rightarrow> bool" where
  "cq_inv check s \<longleftrightarrow> cq_core check 0 (cq_q s) (cq_threads s) (cq_added s) \<and> master_ok (cq_q s) (cq_threads s)
     \<and> (\<forall>r cs. cq_result s = Some (r, cs) \<longrightarrow> r = list_all check cs)"

lemma sum_list_map_update:
  "i < length ts \<Longrightarrow> sum_list (map f (ts[i := t])) + f (ts ! i) = sum_list (map f ts) + f t"
  for f :: "'a \<Rightarrow> 'b :: comm_monoid_add"
proof (induction ts arbitrary: i)
  case (Cons x ts)
  then show ?case by (cases i) (simp_all add: algebra_simps)
qed simp

lemma list_all_split: "i < length ts \<Longrightarrow> list_all P (ts[i := t]) \<longleftrightarrow> P t \<and> (\<forall>j<length ts. j \<noteq> i \<longrightarrow> P (ts ! j))"
  by (auto simp: list_all_length nth_list_update)

lemma list_all_split': "i < length ts \<Longrightarrow> list_all P ts \<longleftrightarrow> P (ts ! i) \<and> (\<forall>j<length ts. j \<noteq> i \<longrightarrow> P (ts ! j))"
  by (auto simp: list_all_length)

lemma wake_same [simp]:
  "in_flight (wake th) = in_flight th" "counted (wake th) = counted th" "idle (wake th) = idle th"
  "claims_ok check (wake th) = claims_ok check th" "waiting (wake th) = waiting th"
  "ct_pc (wake th) = Checking \<longleftrightarrow> ct_pc th = Checking" "ct_nNow (wake th) = ct_nNow th" "ct_pc (wake th) \<noteq> Waiting False"
  by (auto simp: wake_def in_flight_def counted_def idle_def claims_ok_def waiting_def split: cq_pc.split)

lemma notify_same:
  assumes "\<And>th. f (wake th) = f th"
  shows "map f (notify_master b ts) = map f ts" "map f (notify_workers J ts) = map f ts"
proof -
  show "map f (notify_master b ts) = map f ts" by (simp add: notify_master_def assms split: list.split)
  have "map f (notify_workers J ts) = map (f \<circ> snd) (enumerate 0 ts)"
    by (auto simp: notify_workers_def assms)
  also have "\<dots> = map f (map snd (enumerate 0 ts))" by (simp only: map_map)
  finally show "map f (notify_workers J ts) = map f ts" by simp
qed

lemma notify_all: 
  assumes "\<And>th. P (wake th) = P th"
  shows "list_all P (notify_master b ts) = list_all P ts" "list_all P (notify_workers J ts) = list_all P ts"
  using arg_cong [OF notify_same(1) [of P b ts, OF assms], of "list_all id"]
    arg_cong [OF notify_same(2) [of P J ts, OF assms], of "list_all id"]
  by (simp_all add: list.pred_map comp_def)

lemma notify_length [simp]: "length (notify_master b ts) = length ts" "length (notify_workers J ts) = length ts"
  by (simp_all add: notify_master_def notify_workers_def split: list.split)

lemma core_notify:
  "cq_core check k q (notify_master b ts) added = cq_core check k q ts added"
  "cq_core check k q (notify_workers J ts) added = cq_core check k q ts added"
  using notify_all(1) [of "\<lambda>th. ct_pc th = Checking \<longrightarrow> 0 < ct_nNow th" b ts] notify_all(1) [of "claims_ok check" b ts]
    notify_all(2) [of "\<lambda>th. ct_pc th = Checking \<longrightarrow> 0 < ct_nNow th" J ts] notify_all(2) [of "claims_ok check" J ts]
  by (simp_all add: cq_core_def notify_same list_all_iff flip: length_greater_0_conv)

lemma notify_nth:
  "j \<noteq> 0 \<Longrightarrow> j < length ts \<Longrightarrow> notify_master b ts ! j = ts ! j"
  "ts \<noteq> [] \<Longrightarrow> notify_master b ts ! 0 = (if b then wake (ts ! 0) else ts ! 0)"
  "ts \<noteq> [] \<Longrightarrow> notify_workers J ts ! 0 = ts ! 0"
  "j < length ts \<Longrightarrow> notify_workers J ts ! j = (if j \<in> J \<and> j \<noteq> 0 then wake (ts ! j) else ts ! j)"
  by (auto simp: notify_master_def notify_workers_def enumerate_eq_zip nth_Cons' split: list.split)

text \<open>A neutral thread stands for the one inside the critical section.\<close>

definition gone :: "'c cq_thread" where
  "gone = \<lparr> ct_pc = Outside, ct_vChecks = [], ct_nNow = 0, ct_fOk = True \<rparr>"

lemma gone_simps [simp]: "in_flight gone = 0" "counted gone = 0" "idle gone = 0" "claims_ok check gone" "\<not> waiting gone"
  "ct_pc gone = Outside"
  by (simp_all add: gone_def in_flight_def counted_def idle_def claims_ok_def waiting_def)

text \<open>Replacing one thread.\<close>

lemma core_update:
  assumes "cq_core check k q ts added" and i: "i < length ts"
  shows "cq_core check k' q' (ts[i := t]) added \<longleftrightarrow>
    cq_fQuit q' = False
    \<and> cq_nTodo q' + length (cq_queue q) + in_flight (ts ! i) = cq_nTodo q + length (cq_queue q') + in_flight t
    \<and> cq_nTotal q' + counted (ts ! i) + k = cq_nTotal q + counted t + k'
    \<and> cq_nIdle q' + idle (ts ! i) = cq_nIdle q + idle t
    \<and> (ct_pc t = Checking \<longrightarrow> 0 < ct_nNow t)
    \<and> ((cq_fAllOk q' \<and> list_all check (cq_queue q') \<and> claims_ok check t \<and> (\<forall>j<length ts. j \<noteq> i \<longrightarrow> claims_ok check (ts ! j)))
        = list_all check added)"
proof -
  have c: "(\<forall>th\<in>set (ts[i := t]). ct_pc th = Checking \<longrightarrow> 0 < ct_nNow th) \<longleftrightarrow> (ct_pc t = Checking \<longrightarrow> 0 < ct_nNow t)"
    using assms(1) i list_all_split [OF i, of "\<lambda>th. ct_pc th = Checking \<longrightarrow> 0 < ct_nNow th" t]
    by (auto simp: cq_core_def list_all_iff)
  have o1: "cq_nTodo q = length (cq_queue q) + sum_list (map in_flight ts)" "cq_nTotal q = sum_list (map counted ts) + k"
      "cq_nIdle q = sum_list (map idle ts)" "ts \<noteq> []"
    using assms(1) by (simp_all add: cq_core_def)
  have e1: "cq_nTodo q' = length (cq_queue q') + sum_list (map in_flight (ts[i := t])) \<longleftrightarrow>
      cq_nTodo q' + length (cq_queue q) + in_flight (ts ! i) = cq_nTodo q + length (cq_queue q') + in_flight t"
    using sum_list_map_update [OF i, of in_flight t] o1(1) by linarith
  have e2: "cq_nTotal q' = sum_list (map counted (ts[i := t])) + k' \<longleftrightarrow> cq_nTotal q' + counted (ts ! i) + k = cq_nTotal q + counted t + k'"
    using sum_list_map_update [OF i, of counted t] o1(2) by linarith
  have e3: "cq_nIdle q' = sum_list (map idle (ts[i := t])) \<longleftrightarrow> cq_nIdle q' + idle (ts ! i) = cq_nIdle q + idle t"
    using sum_list_map_update [OF i, of idle t] o1(3) by linarith
  show ?thesis unfolding cq_core_def c e1 e2 e3 list_all_split [OF i] using o1(4) by (simp only: list_update_nonempty) simp
qed

lemma core_others:
  assumes "cq_core check k q ts added" and i: "i < length ts"
  shows "(cq_fAllOk q \<and> list_all check (cq_queue q) \<and> claims_ok check (ts ! i) \<and> (\<forall>j<length ts. j \<noteq> i \<longrightarrow> claims_ok check (ts ! j)))
    = list_all check added"
  using assms(1) list_all_split' [OF i, of "claims_ok check"] by (auto simp: cq_core_def)

text \<open>Entering a critical section after a batch, or when waking up.\<close>

lemma core_cleanup:
  assumes c: "cq_core check 0 q ts added" and i: "i < length ts" "ct_pc (ts ! i) = AtLock"
    and l: "Loop_cleanup fMaster q (ts ! i) = (q', b)"
  shows "cq_core check 1 q' (ts[i := gone]) added"
    and "cq_queue q' = cq_queue q" "b \<longleftrightarrow> 0 < ct_nNow (ts ! i) \<and> cq_nTodo q' = 0 \<and> \<not> fMaster" "cq_nTodo q' \<le> cq_nTodo q"
      "ct_nNow (ts ! i) = 0 \<Longrightarrow> cq_nTodo q' = cq_nTodo q"
proof -
  have fl: "in_flight (ts ! i) = ct_nNow (ts ! i)" "\<not> waiting (ts ! i)" using i(2) by (simp_all add: in_flight_def waiting_def)
  have le: "in_flight (ts ! i) \<le> sum_list (map in_flight ts)" using i(1) by (auto intro: member_le_sum_list)
  have cl: "claims_ok check (ts ! i) \<longleftrightarrow> (0 < ct_nNow (ts ! i) \<longrightarrow> ct_fOk (ts ! i))" using i(2) fl by (simp add: claims_ok_def)
  have todo: "ct_nNow (ts ! i) \<le> cq_nTodo q" using c fl le by (simp add: cq_core_def)
  have quit: "\<not> cq_fQuit q" using c by (simp add: cq_core_def)
  note eq = core_others [OF c i(1)]
  show "cq_core check 1 q' (ts[i := gone]) added"
  proof (cases "ct_nNow (ts ! i) = 0")
    case True
    then have "q' = q \<lparr> cq_nTotal := cq_nTotal q + 1 \<rparr>" using l by (simp add: Loop_cleanup_def)
    then show ?thesis unfolding core_update [OF c i(1)] using True fl eq quit by (simp add: counted_def idle_def cl)
  next
    case False
    then have "q' = q \<lparr> cq_fAllOk := cq_fAllOk q \<and> ct_fOk (ts ! i), cq_nTodo := cq_nTodo q - ct_nNow (ts ! i) \<rparr>"
      using l by (simp add: Loop_cleanup_def Let_def)
    then show ?thesis unfolding core_update [OF c i(1)] using False fl eq quit todo
      by (simp add: counted_def idle_def cl) blast
  qed
  show "cq_queue q' = cq_queue q" "b \<longleftrightarrow> 0 < ct_nNow (ts ! i) \<and> cq_nTodo q' = 0 \<and> \<not> fMaster" "cq_nTodo q' \<le> cq_nTodo q"
      "ct_nNow (ts ! i) = 0 \<Longrightarrow> cq_nTodo q' = cq_nTodo q"
    using l by (auto simp: Loop_cleanup_def Let_def split: if_splits)
qed

lemma core_wake:
  assumes c: "cq_core check 0 q ts added" and i: "i < length ts" "ct_pc (ts ! i) = Waiting b"
  shows "cq_core check 1 (q \<lparr> cq_nIdle := cq_nIdle q - 1 \<rparr>) (ts[i := gone]) added"
proof -
  have fl: "in_flight (ts ! i) = 0" "waiting (ts ! i)" using i(2) by (simp_all add: in_flight_def waiting_def)
  then have "claims_ok check (ts ! i)" by (simp add: claims_ok_def)
  then show ?thesis unfolding core_update [OF c i(1)]
    using c core_others [OF c i(1)] fl by (auto simp: cq_core_def counted_def idle_def)
qed

text \<open>Leaving it.\<close>

lemma batch_size_bounds: "cq_queue q \<noteq> [] \<Longrightarrow> 0 < batch_size N q \<and> batch_size N q \<le> length (cq_queue q)"
proof -
  assume "cq_queue q \<noteq> []"
  then have "1 \<le> length (cq_queue q)" by (cases "cq_queue q") simp_all
  moreover have "length (cq_queue q) div nat (cq_nTotal q + cq_nIdle q + 1) \<le> length (cq_queue q)" by (rule div_le_dividend)
  ultimately show ?thesis unfolding batch_size_def by linarith
qed

lemma core_test:
  assumes c: "cq_core check 1 q (ts[i := gone]) added" and i: "i < length ts"
    and l: "Loop_test N fMaster q th = (q', th', r)"
  shows "cq_core check 0 q' (ts[i := th']) (if r \<noteq> None then [] else added)
    \<and> (\<forall>b. r = Some b \<longrightarrow> b = list_all check added)"
proof -
  let ?ts = "ts[i := gone]" and ?others = "\<forall>j<length ts. j \<noteq> i \<longrightarrow> claims_ok check (ts ! j)"
  have i': "i < length ?ts" "?ts ! i = gone" "?ts[i := th'] = ts[i := th']" using i by simp_all
  have oth: "(\<forall>j<length ?ts. j \<noteq> i \<longrightarrow> claims_ok check (?ts ! j)) = ?others" by auto
  have eq: "(cq_fAllOk q \<and> list_all check (cq_queue q) \<and> ?others) = list_all check added"
    using core_others [OF c i'(1)] i'(2) oth by simp
  have base: "cq_fQuit q = False" "cq_nTotal q = sum_list (map counted ?ts) + 1"
    using c by (simp_all add: cq_core_def)
  show ?thesis
  proof (cases "cq_queue q = []")
    case False
    note bs = batch_size_bounds [OF False, of N]
    let ?k = "length (cq_queue q) - batch_size N q"
    have r: "r = None" "q' = q \<lparr> cq_queue := take ?k (cq_queue q) \<rparr>"
      "th' = th \<lparr> ct_pc := Checking, ct_vChecks := rev (drop ?k (cq_queue q)), ct_nNow := batch_size N q, ct_fOk := cq_fAllOk q \<rparr>"
      using l False by (auto simp: Loop_test_def Let_def)
    have th: "in_flight th' = batch_size N q" "counted th' = 1" "idle th' = 0"
      "claims_ok check th' \<longleftrightarrow> cq_fAllOk q \<and> list_all check (drop ?k (cq_queue q))"
      using bs by (simp_all add: r(3) in_flight_def counted_def idle_def claims_ok_def waiting_def)
    have "list_all check (cq_queue q) \<longleftrightarrow> list_all check (take ?k (cq_queue q)) \<and> list_all check (drop ?k (cq_queue q))"
      by (metis append_take_drop_id list_all_append)
    then show ?thesis using core_update [OF c i'(1), of 0 q' th'] i'(2,3) oth th eq base bs by (auto simp: r)
  next
    case True
    show ?thesis
    proof (cases "fMaster \<and> cq_nTodo q = 0")
      case True
      have r: "r = Some (cq_fAllOk q)" "q' = q \<lparr> cq_nTotal := cq_nTotal q - 1, cq_fAllOk := True \<rparr>" "th' = th \<lparr> ct_pc := Outside \<rparr>"
        using l True \<open>cq_queue q = []\<close> by (auto simp: Loop_test_def)
      have th: "in_flight th' = 0" "counted th' = 0" "idle th' = 0" "claims_ok check th'" "ct_pc th' = Outside"
        by (simp_all add: r(3) in_flight_def counted_def idle_def claims_ok_def waiting_def)
      have "sum_list (map in_flight ?ts) = 0" using c True by (simp add: cq_core_def)
      then have "\<forall>th\<in>set ?ts. in_flight th = 0" by (simp add: sum_list_eq_0_iff)
      then have "list_all (claims_ok check) ?ts" by (auto simp: list_all_iff claims_ok_def)
      then have ot: ?others using list_all_split [OF i, of "claims_ok check" gone] by simp
      have "cq_core check 0 q' (?ts[i := th']) []"
        using c i'(1,2) th ot oth \<open>cq_queue q = []\<close> base sum_list_map_update [OF i'(1), of in_flight th']
          sum_list_map_update [OF i'(1), of counted th'] sum_list_map_update [OF i'(1), of idle th']
          list_all_split [OF i'(1), of "claims_ok check" th'] list_all_split [OF i'(1), of "\<lambda>th. ct_pc th = Checking \<longrightarrow> 0 < ct_nNow th" th']
          list_all_split' [OF i'(1), of "\<lambda>th. ct_pc th = Checking \<longrightarrow> 0 < ct_nNow th"]
        by (simp add: cq_core_def r(2) list_all_iff)
      then show ?thesis using r(1) i'(3) eq ot \<open>cq_queue q = []\<close> by simp
    next
      case False
      have r: "r = None" "q' = q \<lparr> cq_nIdle := cq_nIdle q + 1 \<rparr>" "th' = th \<lparr> ct_pc := Waiting False \<rparr>"
        using l False True base by (auto simp: Loop_test_def)
      have th: "in_flight th' = 0" "counted th' = 1" "idle th' = 1" "claims_ok check th'"
        by (auto simp: r(3) in_flight_def counted_def idle_def claims_ok_def waiting_def)
      have pc: "ct_pc th' \<noteq> Checking" by (simp add: r(3))
      have "cq_core check 0 q' (?ts[i := th']) added"
        unfolding core_update [OF c i'(1)] i'(2) oth using th eq base pc by (simp add: r(2))
      then show ?thesis using i'(3) r(1) by simp
    qed
  qed
qed

lemma master_test:
  assumes "Loop_test N True q th = (q', th', r)" "cq_fQuit q = False"
  shows "(waiting th' \<longrightarrow> cq_queue q' = []) \<and> (ct_pc th' = Waiting False \<longrightarrow> 0 < cq_nTodo q')"
  using assms by (auto simp: Loop_test_def waiting_def Let_def split: if_splits)

lemma worker_test:
  assumes "Loop_test N False q th = (q', th', r)" "cq_fQuit q = False"
  shows "r = None \<and> cq_nTodo q' = cq_nTodo q \<and> (cq_queue q = [] \<longrightarrow> cq_queue q' = [])"
  using assms by (auto simp: Loop_test_def Let_def split: if_splits)

lemma leave_inv:
  assumes c: "cq_core check 1 q (ts[i := gone]) (cq_added s)" and i: "i < length ts"
    and ts: "ts = notify_master b (cq_threads s)" and l: "Loop_test N (i = 0) q th = (q', th', r)"
    and m: "i \<noteq> 0 \<longrightarrow> master_ok q ts" and res: "\<forall>r cs. cq_result s = Some (r, cs) \<longrightarrow> r = list_all check cs"
  shows "cq_inv check (leave i (Loop_test N (i = 0) q th) b s)"
proof -
  have quit: "cq_fQuit q = False" using c by (simp add: cq_core_def)
  note t = core_test [OF c i l]
  have mo: "master_ok q' (ts[i := th'])"
  proof (cases "i = 0")
    case True
    then show ?thesis using master_test [of N q th q' th' r] l quit i by (simp add: master_ok_def)
  next
    case False
    then show ?thesis using worker_test [of N q th q' th' r] l quit m by (auto simp: master_ok_def)
  qed
  have "r = None" if "i \<noteq> 0" using worker_test [of N q th q' th' r] l quit that by simp
  then show ?thesis using t mo res
    by (cases r) (auto simp: l leave_def cq_inv_def ts split: if_splits)
qed

lemma step_inv: "cq_step check N a s s' \<Longrightarrow> cq_inv check s \<Longrightarrow> cq_inv check s'"
proof (induction rule: cq_step.induct)
  case (step_add s cs J)
  have "cq_core check 0 (queue_add cs (cq_q s)) (cq_threads s) (cq_added s @ cs)"
    using step_add(4) by (auto simp: cq_inv_def cq_core_def queue_add_def)
  moreover have "\<not> waiting (cq_threads s ! 0)" using step_add(2) by (simp add: waiting_def)
  ultimately show ?case using step_add(1,4) by (auto simp: cq_inv_def core_notify master_ok_def notify_nth waiting_def)
next
  case (step_enter i s)
  let ?th = "cq_threads s ! i"
  have th: "in_flight (Loop_enter ?th) = 0" "in_flight ?th = 0" "counted ?th = 0" "idle ?th = 0" "claims_ok check ?th"
      "counted (Loop_enter ?th) = 0" "idle (Loop_enter ?th) = 0" "claims_ok check (Loop_enter ?th)"
      "ct_pc (Loop_enter ?th) = AtLock"
    using step_enter(2) by (simp_all add: Loop_enter_def in_flight_def counted_def idle_def claims_ok_def waiting_def)
  have c: "cq_core check 0 (cq_q s) (cq_threads s) (cq_added s)" using step_enter(3) by (simp add: cq_inv_def)
  have "cq_core check 0 (cq_q s) ((cq_threads s)[i := Loop_enter ?th]) (cq_added s)"
    unfolding core_update [OF c step_enter(1)] using core_others [OF c step_enter(1)] c th by (simp add: cq_core_def)
  moreover have "master_ok (cq_q s) ((cq_threads s)[i := Loop_enter ?th])"
    using step_enter(1,3) th(9) by (cases "i = 0") (auto simp: cq_inv_def master_ok_def waiting_def simp del: length_greater_0_conv)
  ultimately show ?case using step_enter(3) by (auto simp: cq_inv_def split: if_splits)
next
  case (step_section i s q b)
  obtain q' th' r where l: "Loop_test N (i = 0) q (cq_threads s ! i) = (q', th', r)" by (metis prod_cases3)
  let ?ts = "notify_master b (cq_threads s)"
  have c: "cq_core check 0 (cq_q s) (cq_threads s) (cq_added s)" and m: "master_ok (cq_q s) (cq_threads s)"
    using step_section(4) by (simp_all add: cq_inv_def)
  note cl = core_cleanup [OF c step_section(1,2,3)]
  have nb: "b \<Longrightarrow> i \<noteq> 0" using cl(3) by simp
  have ne: "cq_threads s \<noteq> []" using c by (simp add: cq_core_def)
  have "?ts[i := gone] = notify_master b ((cq_threads s)[i := gone])"
  proof (cases i)
    case 0
    then show ?thesis using nb by (auto simp: notify_master_def split: list.split)
  next
    case (Suc j)
    then show ?thesis by (auto simp: notify_master_def split: list.split)
  qed
  then have core: "cq_core check 1 q (?ts[i := gone]) (cq_added s)" using cl(1) by (simp add: core_notify)
  have "master_ok q ?ts" if "i \<noteq> 0"
  proof -
    have "?ts ! 0 = (if b then wake (cq_threads s ! 0) else cq_threads s ! 0)" using ne by (rule notify_nth(2))
    moreover have "0 < cq_nTodo q" if "\<not> b" "0 < cq_nTodo (cq_q s)"
      using cl(3,5) that \<open>i \<noteq> 0\<close> by (cases "ct_nNow (cq_threads s ! i) = 0") auto
    ultimately show ?thesis using m unfolding master_ok_def cl(2) by (cases b) simp_all
  qed
  moreover have "i < length ?ts" using step_section(1) by simp
  moreover have "\<forall>r cs. cq_result s = Some (r, cs) \<longrightarrow> r = list_all check cs" using step_section(4) by (simp add: cq_inv_def)
  ultimately show ?case by (intro leave_inv [OF core _ refl l]) blast+
next
  case (step_check i s)
  let ?th = "cq_threads s ! i"
  have c: "cq_core check 0 (cq_q s) (cq_threads s) (cq_added s)" and m: "master_ok (cq_q s) (cq_threads s)"
    using step_check(3) by (simp_all add: cq_inv_def)
  have pos: "0 < ct_nNow ?th" using c step_check(1,2) by (auto simp: cq_core_def)
  have th: "in_flight (run_check check ?th) = in_flight ?th" "counted (run_check check ?th) = counted ?th"
      "idle (run_check check ?th) = idle ?th" "claims_ok check (run_check check ?th) = claims_ok check ?th"
      "ct_nNow (run_check check ?th) = ct_nNow ?th" "\<not> waiting (run_check check ?th)"
    using step_check(2) pos
    by (auto simp: run_check_def in_flight_def counted_def idle_def claims_ok_def waiting_def split: list.split)
  have "cq_core check 0 (cq_q s) ((cq_threads s)[i := run_check check ?th]) (cq_added s)"
    unfolding core_update [OF c step_check(1)] using core_others [OF c step_check(1)] c th pos by (simp add: cq_core_def)
  moreover have "master_ok (cq_q s) ((cq_threads s)[i := run_check check ?th])"
    using m th(6) step_check(1) by (cases "i = 0") (auto simp: master_ok_def waiting_def simp del: length_greater_0_conv)
  ultimately show ?case using step_check(3) by (auto simp: cq_inv_def)
next
  case (step_wake i s b a)
  let ?q = "(cq_q s) \<lparr> cq_nIdle := cq_nIdle (cq_q s) - 1 \<rparr>"
  obtain q' th' r where l: "Loop_test N (i = 0) ?q (cq_threads s ! i) = (q', th', r)" by (metis prod_cases3)
  have c: "cq_core check 0 (cq_q s) (cq_threads s) (cq_added s)" and m: "master_ok (cq_q s) (cq_threads s)"
    using step_wake(4) by (simp_all add: cq_inv_def)
  have nm: "notify_master False ts = ts" for ts :: "'a cq_thread list" by (simp add: notify_master_def split: list.split)
  have core: "cq_core check 1 ?q ((notify_master False (cq_threads s))[i := gone]) (cq_added s)"
    using core_wake [OF c step_wake(1,2)] by (simp add: nm)
  have "i \<noteq> 0 \<longrightarrow> master_ok ?q (notify_master False (cq_threads s))" using m by (simp add: master_ok_def nm)
  moreover have "i < length (notify_master False (cq_threads s))" using step_wake(1) by simp
  moreover have "\<forall>r cs. cq_result s = Some (r, cs) \<longrightarrow> r = list_all check cs" using step_wake(4) by (simp add: cq_inv_def)
  ultimately show ?case by (intro leave_inv [OF core _ refl l]) blast+
qed

lemma reachable_inv: "cq_reachable check N s \<Longrightarrow> cq_inv check s"
proof (induction rule: cq_reachable.induct)
  case (reach_init ts)
  have z: "\<forall>th\<in>set ts. in_flight th = 0 \<and> counted th = 0 \<and> idle th = 0 \<and> claims_ok check th \<and> \<not> waiting th"
    using reach_init(1) by (auto simp: in_flight_def counted_def idle_def claims_ok_def waiting_def)
  then have "sum_list (map in_flight ts) = 0" "sum_list (map counted ts) = 0" "sum_list (map idle ts) = 0"
    by (simp_all add: sum_list_eq_0_iff cong: map_cong)
  then show ?case using reach_init z hd_conv_nth [OF reach_init(2)] hd_in_set [OF reach_init(2)]
    by (auto simp: cq_inv_def cq_core_def master_ok_def CCheckQueue_init_def list_all_iff)
next
  case (reach_step s a s')
  then show ?case using step_inv by blast
qed

lemma todo_le_added: "cq_reachable check N s \<Longrightarrow> cq_nTodo (cq_q s) \<le> length (cq_added s)"
proof (induction rule: cq_reachable.induct)
  case (reach_init ts)
  show ?case by (simp add: CCheckQueue_init_def)
next
  case (reach_step s a s')
  have test: "cq_nTodo q' = cq_nTodo q \<and> (r \<noteq> None \<longrightarrow> cq_nTodo q = 0)" if "Loop_test N m q th = (q', th', r)" for m q th q' th' r
    using that by (auto simp: Loop_test_def Let_def split: if_splits)
  have clean: "cq_nTodo q' \<le> cq_nTodo q" if "Loop_cleanup m q th = (q', b)" for m q th q' b
    using that by (auto simp: Loop_cleanup_def Let_def split: if_splits)
  have lv: "cq_nTodo (cq_q (leave i (Loop_test N m q th) b s)) \<le> length (cq_added (leave i (Loop_test N m q th) b s))"
    if "cq_nTodo q \<le> cq_nTodo (cq_q s)" for i m q th b
  proof -
    obtain q' th' r where l: "Loop_test N m q th = (q', th', r)" by (metis prod_cases3)
    show ?thesis using test [OF l] that reach_step.IH by (auto simp: l leave_def)
  qed
  show ?case using reach_step.hyps(2) reach_step.IH
    by (cases rule: cq_step.cases) (auto simp: queue_add_def intro!: lv dest: clean)
qed

text \<open>C10: However the threads interleave, and whichever waiting thread a notification or a spurious wake-up
  hits, \<open>Wait\<close> returns true exactly when all checks that were added since the last \<open>Wait\<close> hold, the
  number of open checks never underflows (it is the number of queued checks and of those in flight),
  and when no checks were added since the last \<open>Wait\<close> the queue is idle, so the assertion of the
  controller never fails.\<close>

theorem check_queue_result:
  assumes "cq_reachable check N s"
  shows "(\<forall>r cs. cq_result s = Some (r, cs) \<longrightarrow> (r \<longleftrightarrow> (\<forall>c\<in>set cs. check c)))
    \<and> cq_nTodo (cq_q s) = length (cq_queue (cq_q s)) + sum_list (map in_flight (cq_threads s))
    \<and> (cq_added s = [] \<longrightarrow> IsIdle (cq_q s))"
proof -
  have i: "cq_inv check s" by (rule reachable_inv [OF assms])
  have "IsIdle (cq_q s)" if "cq_added s = []"
  proof -
    have z: "cq_nTodo (cq_q s) = 0" using todo_le_added [OF assms] that by simp
    then have "sum_list (map in_flight (cq_threads s)) = 0" using i by (simp add: cq_inv_def cq_core_def)
    then have "\<forall>th\<in>set (cq_threads s). counted th = idle th" by (simp add: sum_list_eq_0_iff counted_def idle_def)
    then have "sum_list (map counted (cq_threads s)) = sum_list (map idle (cq_threads s))"
      by (intro arg_cong [of _ _ sum_list] map_cong) auto
    then show ?thesis using i z that by (simp add: cq_inv_def cq_core_def IsIdle_def)
  qed
  then show ?thesis using i by (auto simp: cq_inv_def cq_core_def list_all_iff)
qed

subsection \<open>The wait ends\<close>

text \<open>The steps that happen while the master waits, without spurious wake-ups.\<close>

definition productive :: "cq_action \<Rightarrow> bool" where
  "productive a = (case a of act_add \<Rightarrow> False | act_enter i \<Rightarrow> i \<noteq> 0 | act_spurious i \<Rightarrow> False | _ \<Rightarrow> True)"

definition thread_weight :: "nat \<Rightarrow> 'c cq_thread \<Rightarrow> nat" where
  "thread_weight i th = (case ct_pc th of
     Outside \<Rightarrow> if i = 0 then 0 else 4 | AtLock \<Rightarrow> 3 | Waiting b \<Rightarrow> if b then 2 else 0 | Checking \<Rightarrow> 4 + length (ct_vChecks th))"

definition cq_measure :: "'c cq_state \<Rightarrow> nat" where
  "cq_measure s = 5 * length (cq_queue (cq_q s)) + (\<Sum>i<length (cq_threads s). thread_weight i (cq_threads s ! i))"

lemma weight_update:
  "i < length ts \<Longrightarrow> (\<Sum>j<length ts. thread_weight j (ts[i := t] ! j)) + thread_weight i (ts ! i)
    = (\<Sum>j<length ts. thread_weight j (ts ! j)) + thread_weight i t"
proof -
  assume i: "i < length ts"
  have "(\<Sum>j\<in>{..<length ts} - {i}. thread_weight j (ts[i := t] ! j)) = (\<Sum>j\<in>{..<length ts} - {i}. thread_weight j (ts ! j))"
    by (intro sum.cong) auto
  then show ?thesis using i
    by (simp add: sum.remove [of "{..<length ts}" i] add.commute add.left_commute)
qed

lemma weight_notify:
  "(\<Sum>j<length ts. thread_weight j (notify_master b ts ! j)) \<le> (\<Sum>j<length ts. thread_weight j (ts ! j)) + 2"
proof (cases ts)
  case (Cons m ws)
  have "notify_master b ts = ts[0 := (if b then wake m else m)]" by (simp add: notify_master_def Cons)
  moreover have "thread_weight 0 (if b then wake m else m) \<le> thread_weight 0 m + 2"
    by (auto simp: thread_weight_def wake_def split: cq_pc.split)
  ultimately show ?thesis using weight_update [of 0 ts "if b then wake m else m"] Cons by simp
qed simp

lemma leave_measure:
  assumes i: "i < length (cq_threads s)" and q: "cq_queue q = cq_queue (cq_q s)" "cq_fQuit q = False"
    and w: "thread_weight i (cq_threads s ! i) = 3 \<or> thread_weight i (cq_threads s ! i) = 2 \<and> \<not> b"
    and nb: "b \<longrightarrow> i \<noteq> 0"
  shows "cq_measure (leave i (Loop_test N (i = 0) q th) b s) < cq_measure s"
proof -
  obtain q' th' r where l: "Loop_test N (i = 0) q th = (q', th', r)" by (metis prod_cases3)
  let ?ts = "notify_master b (cq_threads s)"
  have same: "?ts ! i = cq_threads s ! i"
    using i nb by (cases "i = 0") (auto simp: notify_master_def split: list.split)
  have sum: "(\<Sum>j<length ?ts. thread_weight j (?ts ! j)) \<le> (\<Sum>j<length ?ts. thread_weight j (cq_threads s ! j)) + (if b then 2 else 0)"
    using weight_notify [of b "cq_threads s"] by (auto simp: notify_master_def split: list.splits)
  have upd: "(\<Sum>j<length ?ts. thread_weight j (?ts[i := th'] ! j)) + thread_weight i (cq_threads s ! i)
      = (\<Sum>j<length ?ts. thread_weight j (?ts ! j)) + thread_weight i th'"
    using weight_update [of i ?ts th'] i same by simp
  have th': "5 * length (cq_queue q') + thread_weight i th' + (if b then 2 else 0)
      < 5 * length (cq_queue (cq_q s)) + thread_weight i (cq_threads s ! i)"
  proof (cases "cq_queue q = []")
    case True
    then show ?thesis using l q w by (auto simp: Loop_test_def thread_weight_def split: if_splits)
  next
    case False
    then show ?thesis using l q w batch_size_bounds [OF False, of N]
      by (auto simp: Loop_test_def thread_weight_def Let_def split: if_splits)
  qed
  show ?thesis using sum upd th' i by (simp add: cq_measure_def leave_def l)
qed

lemma productive_decreases:
  assumes "cq_inv check s" "cq_step check N a s s'" "productive a"
  shows "cq_measure s' < cq_measure s"
  using assms(2,1,3)
proof (induction rule: cq_step.induct)
  case (step_add s cs J)
  then show ?case by (simp add: productive_def)
next
  case (step_enter i s)
  then show ?case using weight_update [OF step_enter(1), of "Loop_enter (cq_threads s ! i)"]
    by (simp add: cq_measure_def productive_def thread_weight_def [of i] Loop_enter_def)
next
  case (step_section i s q b)
  have c: "cq_core check 0 (cq_q s) (cq_threads s) (cq_added s)" using step_section(4) by (simp add: cq_inv_def)
  note cl = core_cleanup [OF c step_section(1,2,3)]
  have "cq_fQuit q = False" using cl(1) by (simp add: cq_core_def)
  then show ?case using cl(2,3) step_section(1,2) by (intro leave_measure) (auto simp: thread_weight_def)
next
  case (step_check i s)
  have "thread_weight i (run_check check (cq_threads s ! i)) < thread_weight i (cq_threads s ! i)"
    using step_check(2) by (auto simp: thread_weight_def run_check_def split: list.split)
  then show ?case using weight_update [OF step_check(1), of "run_check check (cq_threads s ! i)"]
    by (simp add: cq_measure_def)
next
  case (step_wake i s b a)
  then have "b" by (auto simp: productive_def split: if_splits)
  moreover have "cq_fQuit (cq_q s) = False" using step_wake(4) by (simp add: cq_inv_def cq_core_def)
  ultimately show ?case using step_wake(1,2) by (intro leave_measure) (auto simp: thread_weight_def)
qed

lemma productive_simps [simp]: "productive (act_section j)" "productive (act_check j)" "productive (act_wake j)"
  by (simp_all add: productive_def)

lemma productive_enabled:
  assumes i: "cq_inv check s" and m: "ct_pc (cq_threads s ! 0) \<noteq> Outside"
  shows "\<exists>a s'. productive a \<and> cq_step check N a s s'"
proof -
  have step: "\<exists>a s'. productive a \<and> cq_step check N a s s'"
    if "j < length (cq_threads s)" "ct_pc (cq_threads s ! j) = AtLock \<or> ct_pc (cq_threads s ! j) = Checking
        \<or> ct_pc (cq_threads s ! j) = Waiting True" for j
  proof -
    obtain q b where "Loop_cleanup (j = 0) (cq_q s) (cq_threads s ! j) = (q, b)" by fastforce
    then have "ct_pc (cq_threads s ! j) = AtLock \<Longrightarrow> \<exists>s'. cq_step check N (act_section j) s s'"
      using step_section [of j s q b check N] that(1) by blast
    moreover have "ct_pc (cq_threads s ! j) = Checking \<Longrightarrow> \<exists>s'. cq_step check N (act_check j) s s'"
      using step_check [of j s check N] that(1) by blast
    moreover have "ct_pc (cq_threads s ! j) = Waiting True \<Longrightarrow> \<exists>s'. cq_step check N (act_wake j) s s'"
      using step_wake [of j s True "act_wake j" check N] that(1) by auto
    ultimately show ?thesis using that(2) productive_simps [of j] by blast
  qed
  have ne: "0 < length (cq_threads s)" using i by (simp add: cq_inv_def cq_core_def)
  show ?thesis
  proof (cases "ct_pc (cq_threads s ! 0) = Waiting False")
    case True
    then have "cq_queue (cq_q s) = []" "0 < cq_nTodo (cq_q s)" using i by (auto simp: cq_inv_def master_ok_def waiting_def)
    then have "0 < sum_list (map in_flight (cq_threads s))" using i by (simp add: cq_inv_def cq_core_def)
    then have "sum_list (map in_flight (cq_threads s)) \<noteq> 0" by (rule gr_implies_not0)
    then have "\<exists>th\<in>set (cq_threads s). in_flight th \<noteq> 0" unfolding sum_list_eq_0_iff by auto
    then obtain j where "j < length (cq_threads s)" "in_flight (cq_threads s ! j) \<noteq> 0" by (auto simp: in_set_conv_nth)
    then show ?thesis by (intro step) (auto simp: in_flight_def split: if_splits)
  next
    case False
    then show ?thesis using m ne by (intro step [of 0]) (cases "ct_pc (cq_threads s ! 0)"; auto)+
  qed
qed

text \<open>A productive step of a waiting master: either it still waits in the same round, or it returned.\<close>

lemma productive_round:
  assumes i: "cq_inv check s" and st: "cq_step check N a s s'" and p: "productive a"
    and m: "ct_pc (cq_threads s ! 0) \<noteq> Outside"
  shows "(ct_pc (cq_threads s' ! 0) \<noteq> Outside \<and> cq_added s' = cq_added s)
    \<or> (ct_pc (cq_threads s' ! 0) = Outside \<and> cq_result s' = Some (list_all check (cq_added s), cq_added s))"
proof -
  have quit: "cq_fQuit (cq_q s) = False" and ne: "cq_threads s \<noteq> []" using i by (simp_all add: cq_inv_def cq_core_def)
  have inv': "cq_inv check s'" by (rule step_inv [OF st i])
  have lv: "(ct_pc (cq_threads (leave j x b s) ! 0) \<noteq> Outside \<and> cq_added (leave j x b s) = cq_added s)
      \<or> (ct_pc (cq_threads (leave j x b s) ! 0) = Outside \<and> (\<exists>r. cq_result (leave j x b s) = Some (r, cq_added s)))"
    if l: "x = Loop_test N (j = 0) q (cq_threads s ! j)" and q: "cq_fQuit q = False" for j x q b
  proof -
    obtain q' th' r where x: "Loop_test N (j = 0) q (cq_threads s ! j) = (q', th', r)" by (metis prod_cases3)
    have "ct_pc (wake (cq_threads s ! 0)) \<noteq> Outside" using m by (auto simp: wake_def split: cq_pc.split)
    then have "ct_pc (notify_master b (cq_threads s) ! 0) \<noteq> Outside" using m ne by (simp add: notify_nth)
    moreover have "if j = 0 then (r = None) = (ct_pc th' \<noteq> Outside) else r = None"
      using x q by (auto simp: Loop_test_def Let_def split: if_splits)
    moreover have lx: "x = (q', th', r)" using l x by simp
    ultimately show ?thesis using ne unfolding lx by (cases r; cases "j = 0") (auto simp: leave_def)
  qed
  have "(ct_pc (cq_threads s' ! 0) \<noteq> Outside \<and> cq_added s' = cq_added s)
      \<or> (ct_pc (cq_threads s' ! 0) = Outside \<and> (\<exists>r. cq_result s' = Some (r, cq_added s)))"
    using st
  proof (cases rule: cq_step.cases)
    case (step_enter i)
    then show ?thesis using m p ne by (cases "i = 0") (auto simp: productive_def)
  next
    case (step_section i q b)
    have "cq_fQuit q = False" using quit step_section(5) by (auto simp: Loop_cleanup_def Let_def split: if_splits)
    then show ?thesis unfolding step_section(2) by (rule lv [OF refl])
  next
    case (step_check i)
    then show ?thesis using m ne by (cases "i = 0") (auto simp: run_check_def split: list.split)
  next
    case (step_wake i b)
    show ?thesis unfolding step_wake(1) by (rule lv [OF refl]) (simp add: quit)
  qed (use p in \<open>simp add: productive_def\<close>)
  then show ?thesis using inv' by (auto simp: cq_inv_def)
qed

text \<open>C38: \<open>Wait\<close> ends.  While the master is inside \<open>Wait\<close> and adds nothing, some thread can always go on
  without a spurious wake-up (no notification is lost), every such step decreases a measure, so any
  run of them ends, and it ends with \<open>Wait\<close> returning whether all checks of the round hold.\<close>

theorem check_queue_wait_ends:
  assumes "cq_reachable check N s" and "ct_pc (cq_threads s ! 0) \<noteq> Outside"
  shows "(\<exists>a s'. productive a \<and> cq_step check N a s s')
    \<and> (\<forall>a s'. productive a \<and> cq_step check N a s s' \<longrightarrow> cq_measure s' < cq_measure s)
    \<and> (\<exists>s'. (\<lambda>x y. \<exists>a. productive a \<and> cq_step check N a x y)\<^sup>*\<^sup>* s s' \<and> ct_pc (cq_threads s' ! 0) = Outside
         \<and> cq_result s' = Some (list_all check (cq_added s), cq_added s))"
proof -
  have run: "\<exists>s'. (\<lambda>x y. \<exists>a. productive a \<and> cq_step check N a x y)\<^sup>*\<^sup>* s s' \<and> ct_pc (cq_threads s' ! 0) = Outside
       \<and> cq_result s' = Some (list_all check (cq_added s), cq_added s)"
    if "cq_inv check s" "ct_pc (cq_threads s ! 0) \<noteq> Outside" for s
    using that
  proof (induction "cq_measure s" arbitrary: s rule: less_induct)
    case less
    obtain a s1 where a: "productive a" "cq_step check N a s s1" using productive_enabled [OF less.prems] by blast
    note rd = productive_round [OF less.prems(1) a(2,1) less.prems(2)]
    have st: "(\<lambda>x y. \<exists>a. productive a \<and> cq_step check N a x y) s s1" using a by blast
    show ?case
    proof (cases "ct_pc (cq_threads s1 ! 0) = Outside")
      case True
      then show ?thesis using rd st by blast
    next
      case False
      have "cq_measure s1 < cq_measure s" by (rule productive_decreases [OF less.prems(1) a(2,1)])
      then show ?thesis using less.hyps [OF _ step_inv [OF a(2) less.prems(1)] False] rd False st
        by (metis (no_types, lifting) converse_rtranclp_into_rtranclp)
    qed
  qed
  have i: "cq_inv check s" by (rule reachable_inv [OF assms(1)])
  show ?thesis using productive_enabled [OF i assms(2)] productive_decreases [OF i] run [OF i assms(2)] by blast
qed

definition sample_threads :: "nat cq_thread list" where
  "sample_threads = [gone, gone, gone]"

text \<open>The master adds three checks, a worker enters and takes a batch, the master waits.\<close>

definition sample_queue_state :: "nat cq_state" where
  "sample_queue_state = \<lparr> cq_q = queue_add [1, 2, 3] CCheckQueue_init, cq_threads = sample_threads[0 := Loop_enter gone],
     cq_added = [1, 2, 3], cq_result = None \<rparr>"

lemma sample_queue_reachable: "cq_reachable (\<lambda>c. c < 3) 128 sample_queue_state"
proof -
  let ?s = "\<lparr> cq_q = CCheckQueue_init, cq_threads = sample_threads, cq_added = [], cq_result = None \<rparr>"
  have 0: "cq_reachable (\<lambda>c. c < 3) 128 ?s" by (rule reach_init) (simp_all add: sample_threads_def gone_def)
  have "cq_step (\<lambda>c. c < 3) 128 act_add ?s
      (?s \<lparr> cq_q := queue_add [1, 2, 3] (cq_q ?s), cq_threads := notify_workers UNIV (cq_threads ?s), cq_added := cq_added ?s @ [1, 2, 3] \<rparr>)"
    by (rule step_add) (simp_all add: sample_threads_def may_notify_def)
  note 1 = reach_step [OF 0 this]
  have n: "notify_workers UNIV sample_threads = sample_threads"
    by (simp add: notify_workers_def sample_threads_def wake_def)
  let ?s1 = "\<lparr> cq_q = queue_add [1, 2, 3] CCheckQueue_init, cq_threads = sample_threads, cq_added = [1, 2, 3], cq_result = None \<rparr>"
  have "cq_step (\<lambda>c. c < 3) 128 (act_enter 0) ?s1 sample_queue_state"
    using step_enter [of 0 ?s1 "\<lambda>c. c < 3" 128] by (simp add: sample_queue_state_def sample_threads_def)
  then show ?thesis using reach_step [of "\<lambda>c. c < 3" 128 ?s1] 1 by (simp add: n)
qed

theorem check_queue_result_witness:
  "cq_nTodo (cq_q sample_queue_state) = length (cq_queue (cq_q sample_queue_state)) + sum_list (map in_flight (cq_threads sample_queue_state))"
  using check_queue_result [OF sample_queue_reachable] by blast

theorem check_queue_wait_ends_witness:
  "\<exists>s'. cq_result s' = Some (False, [1, 2, 3]) \<and> ct_pc (cq_threads s' ! 0) = Outside
    \<and> (\<lambda>x y. \<exists>a. productive a \<and> cq_step (\<lambda>c. c < 3) 128 a x y)\<^sup>*\<^sup>* sample_queue_state s'"
proof -
  have "ct_pc (cq_threads sample_queue_state ! 0) \<noteq> Outside"
    by (simp add: sample_queue_state_def sample_threads_def Loop_enter_def)
  note w = check_queue_wait_ends [OF sample_queue_reachable this]
  have "cq_added sample_queue_state = [1, 2, 3]" by (simp add: sample_queue_state_def)
  then show ?thesis using w by auto
qed

end
