(* ===== verification/Merkle.thy ===== *)
theory Merkle
  imports Tx_Check
begin

unbundle bit_operations_syntax

text \<open>
  Merkle trees (src/src/consensus/merkle.cpp) and partial Merkle trees (src/src/merkleblock.cpp).

  \<open>H\<close> hashes two nodes: the double SHA-256 of their 64 bytes, which is not under src/ as a function that
  can be read here.  The counters are natural numbers: below the limit of \<open>2 ^ 31\<close> leaves that the properties
  carry, no 32-bit counter wraps.  \<open>None\<close> is an access outside \<open>inner\<close>, which has 32 elements.
\<close>

definition hash_pair :: "(byte list \<Rightarrow> uint256) \<Rightarrow> uint256 \<Rightarrow> uint256 \<Rightarrow> uint256" where
  "hash_pair Hs a b = Hs (ser_uint256 a @ ser_uint256 b)"

subsection \<open>Roots and branches in constant space\<close>

text \<open>The extension of the branch; \<open>want\<close> says that \<open>pbranch\<close> is not null.  The result has the new
  \<open>matchh\<close>.\<close>

definition branch_step :: "bool \<Rightarrow> 'h list \<Rightarrow> int \<Rightarrow> nat \<Rightarrow> 'h \<Rightarrow> bool \<Rightarrow> 'h list \<Rightarrow> bool \<times> 'h list" where
  "branch_step want inner matchlevel level h matchh branch =
     (if want
      then if matchh then (True, branch @ [inner ! level])
           else if matchlevel = int level then (True, branch @ [h])
           else (False, branch)
      else (matchh, branch))"

text \<open>The inner loop; the argument before \<open>level\<close> is the number of levels that are left in \<open>inner\<close>.\<close>

fun level_loop ::
  "('h \<Rightarrow> 'h \<Rightarrow> 'h) \<Rightarrow> bool \<Rightarrow> 'h list \<Rightarrow> int \<Rightarrow> nat \<Rightarrow> nat \<Rightarrow> nat \<Rightarrow> 'h \<Rightarrow> bool \<Rightarrow> bool \<Rightarrow> 'h list \<Rightarrow>
     (nat \<times> 'h \<times> bool \<times> bool \<times> 'h list) option" where
  "level_loop H want inner matchlevel cnt 0 level h matchh mutated branch = None"
| "level_loop H want inner matchlevel cnt (Suc n) level h matchh mutated branch =
     (if bit cnt level then Some (level, h, matchh, mutated, branch)
      else case branch_step want inner matchlevel level h matchh branch of
        (matchh', branch') \<Rightarrow>
          level_loop H want inner matchlevel cnt n (Suc level) (H (inner ! level) h) matchh'
            (mutated \<or> inner ! level = h) branch')"

fun leaf_loop ::
  "('h \<Rightarrow> 'h \<Rightarrow> 'h) \<Rightarrow> bool \<Rightarrow> nat \<Rightarrow> nat \<Rightarrow> 'h list \<Rightarrow> 'h list \<Rightarrow> int \<Rightarrow> bool \<Rightarrow> 'h list \<Rightarrow>
     ('h list \<times> int \<times> bool \<times> 'h list) option" where
  "leaf_loop H want branchpos cnt [] inner matchlevel mutated branch = Some (inner, matchlevel, mutated, branch)"
| "leaf_loop H want branchpos cnt (x # leaves) inner matchlevel mutated branch =
     (case level_loop H want inner matchlevel (Suc cnt) 32 0 x (cnt = branchpos) mutated branch of
        None \<Rightarrow> None
      | Some (level, h, matchh, mutated', branch') \<Rightarrow>
          leaf_loop H want branchpos (Suc cnt) leaves (inner[level := h])
            (if matchh then int level else matchlevel) mutated' branch')"

fun lowest_level :: "nat \<Rightarrow> nat \<Rightarrow> nat \<Rightarrow> nat option" where
  "lowest_level cnt 0 level = None"
| "lowest_level cnt (Suc n) level = (if bit cnt level then Some level else lowest_level cnt n (Suc level))"

text \<open>The final sweep; it does not look for mutations.\<close>

fun sweep_loop ::
  "('h \<Rightarrow> 'h \<Rightarrow> 'h) \<Rightarrow> bool \<Rightarrow> 'h list \<Rightarrow> int \<Rightarrow> nat \<Rightarrow> nat \<Rightarrow> nat \<Rightarrow> 'h \<Rightarrow> bool \<Rightarrow> 'h list \<Rightarrow> ('h \<times> 'h list) option" where
  "sweep_loop H want inner matchlevel 0 cnt level h matchh branch = None"
| "sweep_loop H want inner matchlevel (Suc n) cnt level h matchh branch =
     (if cnt = 2 ^ level then Some (h, branch)
      else case level_loop H want inner matchlevel (cnt + 2 ^ level) (31 - level) (Suc level) (H h h) matchh False
             (if want \<and> matchh then branch @ [h] else branch) of
        None \<Rightarrow> None
      | Some (level', h', matchh', _, branch') \<Rightarrow>
          sweep_loop H want inner matchlevel n (cnt + 2 ^ level) level' h' matchh' branch')"

text \<open>The root, the mutation flag and the branch.\<close>

definition MerkleComputation ::
  "('h::zero \<Rightarrow> 'h \<Rightarrow> 'h) \<Rightarrow> 'h list \<Rightarrow> nat \<Rightarrow> bool \<Rightarrow> ('h \<times> bool \<times> 'h list) option" where
  "MerkleComputation H leaves branchpos want =
     (if leaves = [] then Some (0, False, [])
      else case leaf_loop H want branchpos 0 leaves (replicate 32 0) (-1) False [] of
        None \<Rightarrow> None
      | Some (inner, matchlevel, mutated, branch) \<Rightarrow>
          (case lowest_level (length leaves) 32 0 of
             None \<Rightarrow> None
           | Some level \<Rightarrow>
               (case sweep_loop H want inner matchlevel 32 (length leaves) level (inner ! level) (matchlevel = int level) branch of
                  None \<Rightarrow> None
                | Some (h, branch') \<Rightarrow> Some (h, mutated, branch'))))"

definition ComputeMerkleRoot :: "('h::zero \<Rightarrow> 'h \<Rightarrow> 'h) \<Rightarrow> 'h list \<Rightarrow> ('h \<times> bool) option" where
  "ComputeMerkleRoot H leaves = map_option (\<lambda>(h, mutated, _). (h, mutated)) (MerkleComputation H leaves (2 ^ 32 - 1) False)"

definition ComputeMerkleBranch :: "('h::zero \<Rightarrow> 'h \<Rightarrow> 'h) \<Rightarrow> 'h list \<Rightarrow> nat \<Rightarrow> 'h list option" where
  "ComputeMerkleBranch H leaves position = map_option (\<lambda>(_, _, branch). branch) (MerkleComputation H leaves position True)"

fun ComputeMerkleRootFromBranch :: "('h \<Rightarrow> 'h \<Rightarrow> 'h) \<Rightarrow> 'h \<Rightarrow> 'h list \<Rightarrow> nat \<Rightarrow> 'h" where
  "ComputeMerkleRootFromBranch H hash [] nIndex = hash"
| "ComputeMerkleRootFromBranch H hash (it # vMerkleBranch) nIndex =
     ComputeMerkleRootFromBranch H (if odd nIndex then H it hash else H hash it) vMerkleBranch (nIndex div 2)"

definition BlockMerkleRoot :: "(byte list \<Rightarrow> uint256) \<Rightarrow> CBlock \<Rightarrow> (uint256 \<times> bool) option" where
  "BlockMerkleRoot Hs block = ComputeMerkleRoot (hash_pair Hs) (map (tx_GetHash Hs) (blk_vtx block))"

definition BlockMerkleBranch :: "(byte list \<Rightarrow> uint256) \<Rightarrow> CBlock \<Rightarrow> nat \<Rightarrow> uint256 list option" where
  "BlockMerkleBranch Hs block position = ComputeMerkleBranch (hash_pair Hs) (map (tx_GetHash Hs) (blk_vtx block)) position"

subsection \<open>Partial trees\<close>

definition CalcTreeWidth :: "nat \<Rightarrow> nat \<Rightarrow> nat" where
  "CalcTreeWidth nTransactions ht = (nTransactions + 2 ^ ht - 1) div 2 ^ ht"

fun CalcHash :: "('h \<Rightarrow> 'h \<Rightarrow> 'h) \<Rightarrow> 'h list \<Rightarrow> nat \<Rightarrow> nat \<Rightarrow> 'h" where
  "CalcHash H vTxid 0 pos = vTxid ! pos"
| "CalcHash H vTxid (Suc ht) pos =
     H (CalcHash H vTxid ht (pos * 2))
       (if pos * 2 + 1 < CalcTreeWidth (length vTxid) ht then CalcHash H vTxid ht (pos * 2 + 1)
        else CalcHash H vTxid ht (pos * 2))"

record 'h CPartialMerkleTree =
  pmt_nTransactions :: nat
  pmt_vBits :: "bool list"
  pmt_vHash :: "'h list"
  pmt_fBad :: bool

text \<open>Some matched transaction is below the node.\<close>

definition fParentOfMatch :: "nat \<Rightarrow> bool list \<Rightarrow> nat \<Rightarrow> nat \<Rightarrow> bool" where
  "fParentOfMatch nTransactions vMatch ht pos =
     list_ex (\<lambda>p. vMatch ! p) [pos * 2 ^ ht ..< min ((pos + 1) * 2 ^ ht) nTransactions]"

fun TraverseAndBuild ::
  "('h \<Rightarrow> 'h \<Rightarrow> 'h) \<Rightarrow> 'h list \<Rightarrow> bool list \<Rightarrow> nat \<Rightarrow> nat \<Rightarrow> bool list \<times> 'h list \<Rightarrow> bool list \<times> 'h list" where
  "TraverseAndBuild H vTxid vMatch 0 pos (vBits, vHash) =
     (vBits @ [fParentOfMatch (length vTxid) vMatch 0 pos], vHash @ [CalcHash H vTxid 0 pos])"
| "TraverseAndBuild H vTxid vMatch (Suc ht) pos (vBits, vHash) =
     (let f = fParentOfMatch (length vTxid) vMatch (Suc ht) pos; vBits' = vBits @ [f] in
      if \<not> f then (vBits', vHash @ [CalcHash H vTxid (Suc ht) pos])
      else let l = TraverseAndBuild H vTxid vMatch ht (pos * 2) (vBits', vHash) in
        if pos * 2 + 1 < CalcTreeWidth (length vTxid) ht
        then TraverseAndBuild H vTxid vMatch ht (pos * 2 + 1) l else l)"

text \<open>The height of the tree; \<open>CalcTreeWidth\<close> is at most one from the logarithm on, so 32 steps are
  enough for 32-bit numbers.\<close>

fun height_loop :: "nat \<Rightarrow> nat \<Rightarrow> nat \<Rightarrow> nat option" where
  "height_loop nTransactions 0 nHeight = None"
| "height_loop nTransactions (Suc n) nHeight =
     (if CalcTreeWidth nTransactions nHeight > 1 then height_loop nTransactions n (Suc nHeight) else Some nHeight)"

definition tree_height :: "nat \<Rightarrow> nat option" where
  "tree_height nTransactions = height_loop nTransactions 33 0"

definition CPartialMerkleTree_of :: "('h \<Rightarrow> 'h \<Rightarrow> 'h) \<Rightarrow> 'h list \<Rightarrow> bool list \<Rightarrow> 'h CPartialMerkleTree option" where
  "CPartialMerkleTree_of H vTxid vMatch =
     (case tree_height (length vTxid) of
        None \<Rightarrow> None
      | Some nHeight \<Rightarrow>
          (case TraverseAndBuild H vTxid vMatch nHeight 0 ([], []) of
             (vBits, vHash) \<Rightarrow> Some \<lparr> pmt_nTransactions = length vTxid, pmt_vBits = vBits, pmt_vHash = vHash, pmt_fBad = False \<rparr>))"

text \<open>The state of the extraction.\<close>

record 'h extract_state =
  ex_nBitsUsed :: nat
  ex_nHashUsed :: nat
  ex_vMatch :: "'h list"
  ex_fBad :: bool

fun TraverseAndExtract ::
  "('h::zero \<Rightarrow> 'h \<Rightarrow> 'h) \<Rightarrow> 'h CPartialMerkleTree \<Rightarrow> nat \<Rightarrow> nat \<Rightarrow> 'h extract_state \<Rightarrow> 'h \<times> 'h extract_state" where
  "TraverseAndExtract H t ht pos s =
     (if ex_nBitsUsed s \<ge> length (pmt_vBits t) then (0, s\<lparr>ex_fBad := True\<rparr>)
      else
        let f = pmt_vBits t ! ex_nBitsUsed s; s1 = s\<lparr>ex_nBitsUsed := ex_nBitsUsed s + 1\<rparr> in
        if ht = 0 \<or> \<not> f then
          (if ex_nHashUsed s1 \<ge> length (pmt_vHash t) then (0, s1\<lparr>ex_fBad := True\<rparr>)
           else
             let hash = pmt_vHash t ! ex_nHashUsed s1; s2 = s1\<lparr>ex_nHashUsed := ex_nHashUsed s1 + 1\<rparr> in
             (hash, if ht = 0 \<and> f then s2\<lparr>ex_vMatch := ex_vMatch s2 @ [hash]\<rparr> else s2))
        else
          (case TraverseAndExtract H t (ht - 1) (pos * 2) s1 of
             (left, s2) \<Rightarrow>
               if pos * 2 + 1 < CalcTreeWidth (pmt_nTransactions t) (ht - 1)
               then (case TraverseAndExtract H t (ht - 1) (pos * 2 + 1) s2 of
                       (right, s3) \<Rightarrow> (H left right, if right = left then s3\<lparr>ex_fBad := True\<rparr> else s3))
               else (H left left, s2)))"

declare TraverseAndExtract.simps [simp del]

text \<open>The root, zero for a tree that is not well formed, and the matches.\<close>

definition ExtractMatches :: "('h::zero \<Rightarrow> 'h \<Rightarrow> 'h) \<Rightarrow> 'h CPartialMerkleTree \<Rightarrow> ('h \<times> 'h list) option" where
  "ExtractMatches H t =
     (if pmt_nTransactions t = 0 then Some (0, [])
      else if pmt_nTransactions t > MAX_BLOCK_SIZE div 60 then Some (0, [])
      else if length (pmt_vHash t) > pmt_nTransactions t then Some (0, [])
      else if length (pmt_vBits t) < length (pmt_vHash t) then Some (0, [])
      else case tree_height (pmt_nTransactions t) of
        None \<Rightarrow> None
      | Some nHeight \<Rightarrow>
          (case TraverseAndExtract H t nHeight 0
                  \<lparr> ex_nBitsUsed = 0, ex_nHashUsed = 0, ex_vMatch = [], ex_fBad = pmt_fBad t \<rparr> of
             (hashMerkleRoot, s) \<Rightarrow>
               Some (if ex_fBad s then 0
                     else if (ex_nBitsUsed s + 7) div 8 \<noteq> (length (pmt_vBits t) + 7) div 8 then 0
                     else if ex_nHashUsed s \<noteq> length (pmt_vHash t) then 0
                     else hashMerkleRoot, ex_vMatch s)))"

subsection \<open>The wire format of partial trees\<close>

definition pack_bits :: "bool list \<Rightarrow> byte list" where
  "pack_bits vBits =
     foldl (\<lambda>vBytes p. vBytes[p div 8 := vBytes ! (p div 8) OR push_bit (p mod 8) (of_bool (vBits ! p))])
       (replicate ((length vBits + 7) div 8) 0) [0..<length vBits]"

definition unpack_bits :: "byte list \<Rightarrow> bool list" where
  "unpack_bits vBytes = map (\<lambda>p. vBytes ! (p div 8) AND push_bit (p mod 8) 1 \<noteq> 0) [0..<length vBytes * 8]"

record CMerkleBlock =
  mb_header :: CBlockHeader
  mb_txn :: "uint256 CPartialMerkleTree"
  mb_vMatchedTxn :: "(nat \<times> uint256) list"

definition merkle_block :: "(byte list \<Rightarrow> uint256) \<Rightarrow> CBlock \<Rightarrow> bool list \<Rightarrow> (nat \<times> uint256) list \<Rightarrow> CMerkleBlock option" where
  "merkle_block Hs block vMatch vMatchedTxn =
     map_option (\<lambda>txn. \<lparr> mb_header = blk_header block, mb_txn = txn, mb_vMatchedTxn = vMatchedTxn \<rparr>)
       (CPartialMerkleTree_of (hash_pair Hs) (map (tx_GetHash Hs) (blk_vtx block)) vMatch)"

definition CMerkleBlock_of :: "(byte list \<Rightarrow> uint256) \<Rightarrow> CBlock \<Rightarrow> uint256 set \<Rightarrow> CMerkleBlock option" where
  "CMerkleBlock_of Hs block txids = merkle_block Hs block (map (\<lambda>tx. tx_GetHash Hs tx \<in> txids) (blk_vtx block)) []"

text \<open>The block filtered by a bloom filter, of which \<open>relevant\<close> is \<open>IsRelevantAndUpdate\<close>.\<close>

fun filter_loop ::
  "('f \<Rightarrow> CTransaction \<Rightarrow> bool \<times> 'f) \<Rightarrow> (byte list \<Rightarrow> uint256) \<Rightarrow> nat \<Rightarrow> CTransaction list \<Rightarrow> 'f \<Rightarrow>
     bool list \<times> (nat \<times> uint256) list \<times> 'f" where
  "filter_loop relevant Hs i [] flt = ([], [], flt)"
| "filter_loop relevant Hs i (tx # vtx) flt =
     (case relevant flt tx of
        (ok, flt') \<Rightarrow>
          (case filter_loop relevant Hs (Suc i) vtx flt' of
             (vMatch, vMatchedTxn, flt'') \<Rightarrow>
               (ok # vMatch, if ok then (i, tx_GetHash Hs tx) # vMatchedTxn else vMatchedTxn, flt'')))"

definition CMerkleBlock_filtered ::
  "('f \<Rightarrow> CTransaction \<Rightarrow> bool \<times> 'f) \<Rightarrow> (byte list \<Rightarrow> uint256) \<Rightarrow> CBlock \<Rightarrow> 'f \<Rightarrow> (CMerkleBlock \<times> 'f) option" where
  "CMerkleBlock_filtered relevant Hs block flt =
     (case filter_loop relevant Hs 0 (blk_vtx block) flt of
        (vMatch, vMatchedTxn, flt') \<Rightarrow> map_option (\<lambda>b. (b, flt')) (merkle_block Hs block vMatch vMatchedTxn))"

end
