(* ===== verification/Chain_Params.thy ===== *)
theory Chain_Params
  imports Params
begin

text \<open>
  The consensus parameters of the three networks (src/src/chainparams.cpp).  The parameter objects have
  static storage, so a field that a constructor does not set is zero.
\<close>

datatype network = MAIN | TESTNET | REGTEST

definition CMainParams_consensus :: Consensus_Params where
  "CMainParams_consensus = \<lparr>
     hashGenesisBlock = 0x0000a1df5d2885908898ea64db0a0f893a5752beafad0e5503e4c22fe6a090a2,
     nHardForkOne = 250000, nHardForkTwo = 1999999999, nMasternodePaymentsStartBlock = 10801,
     nInstantSendKeepLock = 24, nBudgetPaymentsStartBlock = 20545, nBudgetPaymentsCycleBlocks = 20545,
     nBudgetPaymentsWindowBlocks = 100, nBudgetProposalEstablishingTime = 24 * 60 * 60,
     nSuperblockStartBlock = 20546, nSuperblockCycle = 20545, nGovernanceMinQuorum = 10,
     nGovernanceFilterElements = 20000, nMasternodeMinimumConfirmations = 15,
     nMajorityEnforceBlockUpgrade = 750, nMajorityRejectBlockOutdated = 950, nMajorityWindow = 1000,
     nIntPhaseTotalBlocks = 125000, nZumyBeginsBlock = 1800, nDevPhaseTotalBlocks = 250000,
     nPhase1LastBlock = 1999999999, nPhase2LastBlock = 1999999999, nPhase3LastBlock = 1999999999,
     nPhase4LastBlock = 1999999999, nPhase5LastBlock = 1999999999,
     nRuleChangeActivationThreshold = 321, nMinerConfirmationWindow = 338,
     vDeployments = (\<lambda>d. case d of
        DEPLOYMENT_TESTDUMMY \<Rightarrow> \<lparr> dep_bit = 28, dep_nStartTime = 1199145601, dep_nTimeout = 1230767999 \<rparr>
      | DEPLOYMENT_CSV \<Rightarrow> \<lparr> dep_bit = 0, dep_nStartTime = 1542700106, dep_nTimeout = 1542700106 \<rparr>),
     powLimit = 0x0000ffffffffffffffffffffffffffffffffffffffffffffffffffffffffffff,
     nPowTargetSpacing = 2 * 64, nPowTargetTimespan = 24 * 60 * 60 \<rparr>"

definition CTestNetParams_consensus :: Consensus_Params where
  "CTestNetParams_consensus = \<lparr>
     hashGenesisBlock = 0x00ca5b1b383175ddd612ead5d8b61ffca932991f1421c26a31b358c731818f75,
     nHardForkOne = 5000, nHardForkTwo = 30000, nMasternodePaymentsStartBlock = 0,
     nInstantSendKeepLock = 24, nBudgetPaymentsStartBlock = 200, nBudgetPaymentsCycleBlocks = 50,
     nBudgetPaymentsWindowBlocks = 10, nBudgetProposalEstablishingTime = 60 * 20,
     nSuperblockStartBlock = 0, nSuperblockCycle = 24, nGovernanceMinQuorum = 1,
     nGovernanceFilterElements = 500, nMasternodeMinimumConfirmations = 1,
     nMajorityEnforceBlockUpgrade = 510, nMajorityRejectBlockOutdated = 750, nMajorityWindow = 1000,
     nIntPhaseTotalBlocks = 5000, nZumyBeginsBlock = 0, nDevPhaseTotalBlocks = 0,
     nPhase1LastBlock = 30000, nPhase2LastBlock = 60000, nPhase3LastBlock = 80000,
     nPhase4LastBlock = 105000, nPhase5LastBlock = 0,
     nRuleChangeActivationThreshold = 254, nMinerConfirmationWindow = 338,
     vDeployments = (\<lambda>d. case d of
        DEPLOYMENT_TESTDUMMY \<Rightarrow> \<lparr> dep_bit = 28, dep_nStartTime = 1542700106, dep_nTimeout = 1542700106 \<rparr>
      | DEPLOYMENT_CSV \<Rightarrow> \<lparr> dep_bit = 0, dep_nStartTime = 1542700106, dep_nTimeout = 1542700106 \<rparr>),
     powLimit = 0x00ffffffffffffffffffffffffffffffffffffffffffffffffffffffffffffff,
     nPowTargetSpacing = 10, nPowTargetTimespan = 24 * 60 * 60 \<rparr>"

definition CRegTestParams_consensus :: Consensus_Params where
  "CRegTestParams_consensus = \<lparr>
     hashGenesisBlock = 0x00ca5b1b383175ddd612ead5d8b61ffca932991f1421c26a31b358c731818f75,
     nHardForkOne = 0, nHardForkTwo = 0, nMasternodePaymentsStartBlock = 0,
     nInstantSendKeepLock = 24, nBudgetPaymentsStartBlock = 1000, nBudgetPaymentsCycleBlocks = 50,
     nBudgetPaymentsWindowBlocks = 10, nBudgetProposalEstablishingTime = 60 * 20,
     nSuperblockStartBlock = 0, nSuperblockCycle = 10, nGovernanceMinQuorum = 1,
     nGovernanceFilterElements = 100, nMasternodeMinimumConfirmations = 1,
     nMajorityEnforceBlockUpgrade = 750, nMajorityRejectBlockOutdated = 950, nMajorityWindow = 1000,
     nIntPhaseTotalBlocks = 125000, nZumyBeginsBlock = 0, nDevPhaseTotalBlocks = 0,
     nPhase1LastBlock = 375000, nPhase2LastBlock = 1125000, nPhase3LastBlock = 1375000,
     nPhase4LastBlock = 2000000, nPhase5LastBlock = 0,
     nRuleChangeActivationThreshold = 254, nMinerConfirmationWindow = 338,
     vDeployments = (\<lambda>d. case d of
        DEPLOYMENT_TESTDUMMY \<Rightarrow> \<lparr> dep_bit = 28, dep_nStartTime = 0, dep_nTimeout = 999999999999 \<rparr>
      | DEPLOYMENT_CSV \<Rightarrow> \<lparr> dep_bit = 0, dep_nStartTime = 0, dep_nTimeout = 999999999999 \<rparr>),
     powLimit = 0x00ffffffffffffffffffffffffffffffffffffffffffffffffffffffffffffff,
     nPowTargetSpacing = 2 * 64, nPowTargetTimespan = 24 * 60 * 60 \<rparr>"

fun GetConsensus :: "network \<Rightarrow> Consensus_Params" where
  "GetConsensus MAIN = CMainParams_consensus"
| "GetConsensus TESTNET = CTestNetParams_consensus"
| "GetConsensus REGTEST = CRegTestParams_consensus"

lemmas consensus_defs = CMainParams_consensus_def CTestNetParams_consensus_def CRegTestParams_consensus_def

lemma window_simps [simp]: "nMinerConfirmationWindow (GetConsensus net) = 338"
  by (cases net) (simp_all add: consensus_defs)

lemma deployment_times: "dep_nStartTime (vDeployments (GetConsensus net) d) \<le> dep_nTimeout (vDeployments (GetConsensus net) d)"
  by (cases net; cases d) (simp_all add: consensus_defs)

end
