(* ===== verification/Version_Bits.thy ===== *)
theory Version_Bits
  imports Chain_Params Chain_Props
begin

unbundle bit_operations_syntax

text \<open>
  Deployments by version bits (src/src/versionbits.h, src/src/versionbits.cpp, and
  \<open>ComputeBlockVersion\<close> and \<open>WarningBitsConditionChecker\<close> of src/src/main.cpp).

  The virtual functions of \<open>AbstractThresholdConditionChecker\<close> are a record; \<open>Condition\<close> carries a
  state because the checker for unknown bits fills the global cache of the known ones.  A cache is
  a map from block index pointers.  A result \<open>None\<close> is a failed assertion or a null pointer.
\<close>

definition VERSIONBITS_TOP_BITS :: u32 where "VERSIONBITS_TOP_BITS = 0x20000000"
definition VERSIONBITS_TOP_MASK :: u32 where "VERSIONBITS_TOP_MASK = 0xE0000000"
definition VERSIONBITS_NUM_BITS :: nat where "VERSIONBITS_NUM_BITS = 29"

datatype ThresholdState =
  THRESHOLD_DEFINED | THRESHOLD_STARTED | THRESHOLD_LOCKED_IN | THRESHOLD_ACTIVE | THRESHOLD_FAILED

type_synonym ThresholdConditionCache = "CBlockIndex option \<Rightarrow> ThresholdState option"

record 's checker_ops =
  tc_Condition :: "'s \<Rightarrow> CBlockIndex \<Rightarrow> (bool \<times> 's) option"
  tc_BeginTime :: int
  tc_EndTime :: int
  tc_Period :: int
  tc_Threshold :: int

subsection \<open>The state of a block\<close>

text \<open>The walk backwards; \<open>vToCompute\<close> has its last element first.  It may not end when the period is not
  positive.\<close>

partial_function (option) vb_walk ::
  "'s checker_ops \<Rightarrow> ThresholdConditionCache \<Rightarrow> CBlockIndex option \<Rightarrow> CBlockIndex list \<Rightarrow>
     (ThresholdConditionCache \<times> CBlockIndex option \<times> CBlockIndex list) option" where
  "vb_walk C cache pindexPrev vToCompute =
     (if cache pindexPrev \<noteq> None then Some (cache, pindexPrev, vToCompute)
      else case pindexPrev of
        None \<Rightarrow> Some (cache(pindexPrev \<mapsto> THRESHOLD_DEFINED), pindexPrev, vToCompute)
      | Some b \<Rightarrow>
          if GetMedianTimePast b < tc_BeginTime C
          then Some (cache(pindexPrev \<mapsto> THRESHOLD_DEFINED), pindexPrev, vToCompute)
          else (case GetAncestor b (height b - tc_Period C) of
                  None \<Rightarrow> None
                | Some p \<Rightarrow> vb_walk C cache p (b # vToCompute)))"

fun count_loop :: "'s checker_ops \<Rightarrow> 's \<Rightarrow> CBlockIndex option \<Rightarrow> nat \<Rightarrow> int \<Rightarrow> (int \<times> 's) option" where
  "count_loop C s pindexCount 0 cnt = Some (cnt, s)"
| "count_loop C s pindexCount (Suc n) cnt =
     (case pindexCount of
        None \<Rightarrow> None
      | Some b \<Rightarrow>
          (case tc_Condition C s b of
             None \<Rightarrow> None
           | Some (ok, s') \<Rightarrow> count_loop C s' (pprev b) n (if ok then cnt + 1 else cnt)))"

fun next_state :: "'s checker_ops \<Rightarrow> 's \<Rightarrow> CBlockIndex \<Rightarrow> ThresholdState \<Rightarrow> (ThresholdState \<times> 's) option" where
  "next_state C s b THRESHOLD_DEFINED =
     Some (if GetMedianTimePast b \<ge> tc_EndTime C then THRESHOLD_FAILED
           else if GetMedianTimePast b \<ge> tc_BeginTime C then THRESHOLD_STARTED else THRESHOLD_DEFINED, s)"
| "next_state C s b THRESHOLD_STARTED =
     (if GetMedianTimePast b \<ge> tc_EndTime C then Some (THRESHOLD_FAILED, s)
      else case count_loop C s (Some b) (nat (tc_Period C)) 0 of
        None \<Rightarrow> None
      | Some (cnt, s') \<Rightarrow> Some (if cnt \<ge> tc_Threshold C then THRESHOLD_LOCKED_IN else THRESHOLD_STARTED, s'))"
| "next_state C s b THRESHOLD_LOCKED_IN = Some (THRESHOLD_ACTIVE, s)"
| "next_state C s b THRESHOLD_FAILED = Some (THRESHOLD_FAILED, s)"
| "next_state C s b THRESHOLD_ACTIVE = Some (THRESHOLD_ACTIVE, s)"

fun vb_forward ::
  "'s checker_ops \<Rightarrow> 's \<Rightarrow> ThresholdConditionCache \<Rightarrow> ThresholdState \<Rightarrow> CBlockIndex list \<Rightarrow>
     (ThresholdState \<times> ThresholdConditionCache \<times> 's) option" where
  "vb_forward C s cache state [] = Some (state, cache, s)"
| "vb_forward C s cache state (b # vToCompute) =
     (case next_state C s b state of
        None \<Rightarrow> None
      | Some (stateNext, s') \<Rightarrow> vb_forward C s' (cache(Some b \<mapsto> stateNext)) stateNext vToCompute)"

definition GetStateFor ::
  "'s checker_ops \<Rightarrow> 's \<Rightarrow> CBlockIndex option \<Rightarrow> ThresholdConditionCache \<Rightarrow>
     (ThresholdState \<times> ThresholdConditionCache \<times> 's) option" where
  "GetStateFor C s pindexPrev cache =
     (case (case pindexPrev of None \<Rightarrow> Some None
            | Some b \<Rightarrow> GetAncestor b (height b - ((height b + 1) smod tc_Period C))) of
        None \<Rightarrow> None
      | Some p \<Rightarrow>
          (case vb_walk C cache p [] of
             None \<Rightarrow> None
           | Some (cache1, p1, vToCompute) \<Rightarrow>
               (case cache1 p1 of
                  None \<Rightarrow> None
                | Some state \<Rightarrow> vb_forward C s cache1 state vToCompute)))"

subsection \<open>The checkers\<close>

text \<open>\<open>(uint32_t)1 << bit\<close>.\<close>

definition Mask :: "Consensus_Params \<Rightarrow> DeploymentPos \<Rightarrow> u32" where
  "Mask P d = push_bit (dep_bit (vDeployments P d)) 1"

definition block_nVersion :: "CBlockIndex \<Rightarrow> u32" where
  "block_nVersion b = word_of_int (bi_nVersion (bi b))"

definition VersionBitsConditionChecker :: "Consensus_Params \<Rightarrow> DeploymentPos \<Rightarrow> unit checker_ops" where
  "VersionBitsConditionChecker P d =
     \<lparr> tc_Condition = (\<lambda>s b. Some (block_nVersion b AND VERSIONBITS_TOP_MASK = VERSIONBITS_TOP_BITS
         \<and> block_nVersion b AND Mask P d \<noteq> 0, s)),
       tc_BeginTime = dep_nStartTime (vDeployments P d), tc_EndTime = dep_nTimeout (vDeployments P d),
       tc_Period = nMinerConfirmationWindow P, tc_Threshold = nRuleChangeActivationThreshold P \<rparr>"

type_synonym VersionBitsCache = "DeploymentPos \<Rightarrow> ThresholdConditionCache"

definition VersionBitsState ::
  "CBlockIndex option \<Rightarrow> Consensus_Params \<Rightarrow> DeploymentPos \<Rightarrow> VersionBitsCache \<Rightarrow> (ThresholdState \<times> VersionBitsCache) option" where
  "VersionBitsState pindexPrev P pos cache =
     (case GetStateFor (VersionBitsConditionChecker P pos) () pindexPrev (cache pos) of
        None \<Rightarrow> None
      | Some (state, c, _) \<Rightarrow> Some (state, cache(pos := c)))"

definition VersionBitsMask :: "Consensus_Params \<Rightarrow> DeploymentPos \<Rightarrow> u32" where
  "VersionBitsMask P pos = Mask P pos"

definition VersionBitsCache_Clear :: "VersionBitsCache \<Rightarrow> VersionBitsCache" where
  "VersionBitsCache_Clear cache = (\<lambda>d _. None)"

text \<open>The deployments in the order of their numbers.\<close>

fun block_version_loop ::
  "CBlockIndex option \<Rightarrow> Consensus_Params \<Rightarrow> DeploymentPos list \<Rightarrow> VersionBitsCache \<Rightarrow> u32 \<Rightarrow> (u32 \<times> VersionBitsCache) option" where
  "block_version_loop pindexPrev P [] cache nVersion = Some (nVersion, cache)"
| "block_version_loop pindexPrev P (d # ds) cache nVersion =
     (case VersionBitsState pindexPrev P d cache of
        None \<Rightarrow> None
      | Some (state, cache') \<Rightarrow>
          block_version_loop pindexPrev P ds cache'
            (if state = THRESHOLD_LOCKED_IN \<or> state = THRESHOLD_STARTED then nVersion OR VersionBitsMask P d else nVersion))"

definition ComputeBlockVersion :: "CBlockIndex option \<Rightarrow> Consensus_Params \<Rightarrow> VersionBitsCache \<Rightarrow> (u32 \<times> VersionBitsCache) option" where
  "ComputeBlockVersion pindexPrev P cache =
     block_version_loop pindexPrev P [DEPLOYMENT_TESTDUMMY, DEPLOYMENT_CSV] cache VERSIONBITS_TOP_BITS"

text \<open>A bit of a 32-bit version.  The right operands of \<open>&&\<close> are evaluated only when needed, so the cache
  changes only then.\<close>

definition version_bit :: "u32 \<Rightarrow> nat \<Rightarrow> bool" where
  "version_bit v k = bit v k"

definition WarningBitsConditionChecker :: "Consensus_Params \<Rightarrow> nat \<Rightarrow> VersionBitsCache checker_ops" where
  "WarningBitsConditionChecker P k =
     \<lparr> tc_Condition = (\<lambda>cache b.
         if block_nVersion b AND VERSIONBITS_TOP_MASK = VERSIONBITS_TOP_BITS \<and> version_bit (block_nVersion b) k
         then (case ComputeBlockVersion (pprev b) P cache of
                 None \<Rightarrow> None
               | Some (v, cache') \<Rightarrow> Some (\<not> version_bit v k, cache'))
         else Some (False, cache)),
       tc_BeginTime = 0, tc_EndTime = INT64_MAX,
       tc_Period = nMinerConfirmationWindow P, tc_Threshold = nRuleChangeActivationThreshold P \<rparr>"

end
