(* ===== verification/Block_Check.thy ===== *)
theory Block_Check
  imports Pow Merkle Version_Bits
begin

text \<open>
  The checks of a block before it is connected (src/src/main.cpp, src/src/checkpoints.cpp), its entry into the
  block index, and the rewards.

  What a check reads besides the block is a record: the hashes, the network, the clock, whether the spork that
  filters blocks is active, and the transactions that InstantSend has locked.  A function returns \<open>None\<close> where the
  program fails an assertion or dereferences a null pointer.
\<close>

record block_env =
  be_Hs :: "byte list \<Rightarrow> uint256"
  be_Hb :: "CBlockHeader \<Rightarrow> uint256"
  be_P :: Consensus_Params
  be_time :: int
  be_adjusted :: int
  be_spork3 :: bool
  be_locked :: "COutPoint \<Rightarrow> uint256 option"
  be_horizon :: "int \<Rightarrow> int \<Rightarrow> int \<Rightarrow> bool"

text \<open>What \<open>CheckBlock\<close> changes: the flag in the block, \<open>mapRejectedBlocks\<close>, and the lock requests that are
  relayed.\<close>

record block_state =
  bk_fChecked :: bool
  bk_rejected :: "uint256 \<Rightarrow> int option"
  bk_relayed :: "uint256 list"

definition reject_corrupt :: "CValidationState \<Rightarrow> int \<Rightarrow> string \<Rightarrow> check_result" where
  "reject_corrupt st level reason = (False, DoS st level REJECT_INVALID reason True [])"

definition hdr_GetBlockTime :: "CBlockHeader \<Rightarrow> int" where
  "hdr_GetBlockTime h = uint (hdr_nTime h)"

subsection \<open>Checks without context\<close>

definition CheckBlockHeader :: "block_env \<Rightarrow> CBlockHeader \<Rightarrow> CValidationState \<Rightarrow> bool \<Rightarrow> check_result" where
  "CheckBlockHeader env h st fCheckPOW =
     (if fCheckPOW \<and> \<not> CheckProofOfWork (be_Hb env h) (hdr_nBits h) (be_P env) then reject st 50 ''high-hash'' else (True, st))"

text \<open>The second block of \<open>CheckBlock\<close>; the inner \<open>None\<close> means that the check passes.\<close>

definition check_merkle :: "block_env \<Rightarrow> CBlock \<Rightarrow> CValidationState \<Rightarrow> check_result option option" where
  "check_merkle env block st =
     (case BlockMerkleRoot (be_Hs env) block of
        None \<Rightarrow> None
      | Some (hashMerkleRoot2, mutated) \<Rightarrow>
          Some (if hdr_hashMerkleRoot (blk_header block) \<noteq> hashMerkleRoot2 then Some (reject_corrupt st 100 ''bad-txnmrklroot'')
                else if mutated then Some (reject_corrupt st 100 ''bad-txns-duplicate'') else None))"

definition check_shape :: "CBlock \<Rightarrow> string option" where
  "check_shape block =
     (if blk_vtx block = [] \<or> length (blk_vtx block) > MAX_BLOCK_SIZE \<or> block_size block > MAX_BLOCK_SIZE then Some ''bad-blk-length''
      else if blk_vtx block = [] \<or> \<not> IsCoinBase (blk_vtx block ! 0) then Some ''bad-cb-missing''
      else if list_ex IsCoinBase (drop 1 (blk_vtx block)) then Some ''bad-cb-multiple''
      else None)"

text \<open>The first input whose outpoint is locked by another transaction.\<close>

fun conflict_inputs :: "block_env \<Rightarrow> uint256 \<Rightarrow> CTxIn list \<Rightarrow> uint256 option" where
  "conflict_inputs env txid [] = None"
| "conflict_inputs env txid (txin # vin) =
     (case be_locked env (txin_prevout txin) of
        Some hashLocked \<Rightarrow> if hashLocked \<noteq> txid then Some hashLocked else conflict_inputs env txid vin
      | None \<Rightarrow> conflict_inputs env txid vin)"

fun conflict_txs :: "block_env \<Rightarrow> CTransaction list \<Rightarrow> uint256 option" where
  "conflict_txs env [] = None"
| "conflict_txs env (tx # vtx) =
     (if IsCoinBase tx then conflict_txs env vtx
      else case conflict_inputs env (tx_GetHash (be_Hs env) tx) (tx_vin tx) of
        Some hashLocked \<Rightarrow> Some hashLocked
      | None \<Rightarrow> conflict_txs env vtx)"

fun check_txs :: "CTransaction list \<Rightarrow> CValidationState \<Rightarrow> check_result" where
  "check_txs [] st = (True, st)"
| "check_txs (tx # vtx) st = (case CheckTransaction tx st of (ok, st') \<Rightarrow> if ok then check_txs vtx st' else (False, st'))"

text \<open>The InstantSend block of \<open>CheckBlock\<close>; the request that is locked is relayed, and the block is noted as
  rejected unless it is already.\<close>

definition check_locks :: "block_env \<Rightarrow> CBlock \<Rightarrow> CValidationState \<Rightarrow> block_state \<Rightarrow> (check_result \<times> block_state) option" where
  "check_locks env block st bs =
     (case (if be_spork3 env then conflict_txs env (blk_vtx block) else None) of
        None \<Rightarrow> None
      | Some hashLocked \<Rightarrow>
          (let hash = be_Hb env (blk_header block) in
           Some (reject st 0 ''conflict-tx-lock'',
             bs\<lparr> bk_relayed := bk_relayed bs @ [hashLocked],
                 bk_rejected := (if bk_rejected bs hash = None then (bk_rejected bs)(hash \<mapsto> be_time env) else bk_rejected bs) \<rparr>)))"

text \<open>The transactions and their signature operations.\<close>

definition check_content :: "CBlock \<Rightarrow> CValidationState \<Rightarrow> check_result" where
  "check_content block st =
     (case check_txs (blk_vtx block) st of
        (False, st') \<Rightarrow> (False, st')
      | (True, st') \<Rightarrow>
          if sum_list (map GetLegacySigOpCount (blk_vtx block)) > MAX_BLOCK_SIGOPS then reject st' 100 ''bad-blk-sigops''
          else (True, st'))"

definition CheckBlock ::
  "block_env \<Rightarrow> CBlock \<Rightarrow> CValidationState \<Rightarrow> bool \<Rightarrow> bool \<Rightarrow> block_state \<Rightarrow> (check_result \<times> block_state) option" where
  "CheckBlock env block st fCheckPOW fCheckMerkleRoot bs =
     (if bk_fChecked bs then Some ((True, st), bs)
      else if \<not> fst (CheckBlockHeader env (blk_header block) st fCheckPOW)
      then Some (CheckBlockHeader env (blk_header block) st fCheckPOW, bs)
      else case (if fCheckMerkleRoot then check_merkle env block st else Some None) of
        None \<Rightarrow> None
      | Some (Some r) \<Rightarrow> Some (r, bs)
      | Some None \<Rightarrow>
          (case check_shape block of
             Some reason \<Rightarrow> Some (reject st 100 reason, bs)
           | None \<Rightarrow>
               (case check_locks env block st bs of
                  Some r \<Rightarrow> Some r
                | None \<Rightarrow> Some (check_content block st,
                    if fst (check_content block st) \<and> fCheckPOW \<and> fCheckMerkleRoot then bs\<lparr>bk_fChecked := True\<rparr> else bs))))"

subsection \<open>Checks against the chain\<close>

text \<open>The checkpoints are the pairs of a map in the order of the heights.\<close>

type_synonym MapCheckpoints = "(int \<times> uint256) list"
type_synonym BlockMap = "uint256 \<Rightarrow> CBlockIndex option"

definition GetTotalBlocksEstimate :: "MapCheckpoints \<Rightarrow> int" where
  "GetTotalBlocksEstimate checkpoints = (if checkpoints = [] then 0 else fst (last checkpoints))"

fun last_checkpoint_loop :: "BlockMap \<Rightarrow> MapCheckpoints \<Rightarrow> CBlockIndex option" where
  "last_checkpoint_loop mapBlockIndex [] = None"
| "last_checkpoint_loop mapBlockIndex (i # cps) =
     (case mapBlockIndex (snd i) of Some t \<Rightarrow> Some t | None \<Rightarrow> last_checkpoint_loop mapBlockIndex cps)"

definition GetLastCheckpoint :: "BlockMap \<Rightarrow> MapCheckpoints \<Rightarrow> CBlockIndex option" where
  "GetLastCheckpoint mapBlockIndex checkpoints = last_checkpoint_loop mapBlockIndex (rev checkpoints)"

definition CheckIndexAgainstCheckpoint ::
  "block_env \<Rightarrow> BlockMap \<Rightarrow> MapCheckpoints \<Rightarrow> CBlockIndex \<Rightarrow> CValidationState \<Rightarrow> check_result" where
  "CheckIndexAgainstCheckpoint env mapBlockIndex checkpoints pindexPrev st =
     (if bi_hash (bi pindexPrev) = hashGenesisBlock (be_P env) then (True, st)
      else case GetLastCheckpoint mapBlockIndex checkpoints of
        None \<Rightarrow> (True, st)
      | Some pcheckpoint \<Rightarrow>
          if height pindexPrev + 1 < height pcheckpoint then (False, DoS st 100 0 [] False []) else (True, st))"

definition ContextualCheckBlockHeader ::
  "block_env \<Rightarrow> CBlockHeader \<Rightarrow> CValidationState \<Rightarrow> CBlockIndex \<Rightarrow> check_result option" where
  "ContextualCheckBlockHeader env block st pindexPrev =
     (let nHeight = height pindexPrev + 1; P = be_P env in
      if be_Hb env block = hashGenesisBlock P then Some (True, st)
      else case GetNextWorkRequired (be_horizon env) (Some pindexPrev) P of
        None \<Rightarrow> None
      | Some nBits \<Rightarrow>
          Some (if hdr_nBits block \<noteq> nBits then reject st 100 ''bad-diffbits''
                else if hdr_GetBlockTime block \<le> GetMedianTimePast pindexPrev
                then (False, Invalid st REJECT_INVALID ''time-too-old'' [])
                else if nHeight \<ge> nHardForkOne P \<and> hdr_GetBlockTime block > be_adjusted env + 15 * 60
                  \<or> hdr_GetBlockTime block > be_adjusted env + 2 * 60 * 60
                then (False, Invalid st REJECT_INVALID ''time-too-new'' [])
                else if nHeight \<ge> nHardForkOne P \<and> hdr_GetBlockTime block \<le> block_time pindexPrev - 15 * 60
                then (False, Invalid st REJECT_INVALID ''wrong-time-between-blocks'' [])
                else (True, st)))"

fun super_majority_loop :: "int \<Rightarrow> CBlockIndex option \<Rightarrow> nat \<Rightarrow> nat \<Rightarrow> nat \<Rightarrow> nat" where
  "super_majority_loop minVersion pstart nRequired 0 nFound = nFound"
| "super_majority_loop minVersion pstart nRequired (Suc n) nFound =
     (if nFound < nRequired
      then case pstart of
             None \<Rightarrow> nFound
           | Some b \<Rightarrow> super_majority_loop minVersion (pprev b) nRequired n
                         (if bi_nVersion (bi b) \<ge> minVersion then nFound + 1 else nFound)
      else nFound)"

definition IsSuperMajority :: "int \<Rightarrow> CBlockIndex option \<Rightarrow> nat \<Rightarrow> Consensus_Params \<Rightarrow> bool" where
  "IsSuperMajority minVersion pstart nRequired P =
     (super_majority_loop minVersion pstart nRequired (nat (nMajorityWindow P)) 0 \<ge> nRequired)"

text \<open>The last check of \<open>ContextualCheckBlock\<close>: the script of the coinbase starts with the height.\<close>

definition check_cb_height :: "CBlock \<Rightarrow> int \<Rightarrow> bool option" where
  "check_cb_height block nHeight =
     (if blk_vtx block = [] \<or> tx_vin (blk_vtx block ! 0) = [] then None
      else let expect = push_int64 [] nHeight; scriptSig = txin_scriptSig (tx_vin (blk_vtx block ! 0) ! 0) in
        Some (\<not> (length scriptSig < length expect \<or> expect \<noteq> take (length expect) scriptSig)))"

definition ContextualCheckBlock ::
  "block_env \<Rightarrow> CBlock \<Rightarrow> CValidationState \<Rightarrow> CBlockIndex option \<Rightarrow> VersionBitsCache \<Rightarrow> (check_result \<times> VersionBitsCache) option" where
  "ContextualCheckBlock env block st pindexPrev cache =
     (let nHeight = (case pindexPrev of None \<Rightarrow> 0 | Some b \<Rightarrow> height b + 1); P = be_P env in
      case VersionBitsState pindexPrev P DEPLOYMENT_CSV cache of
        None \<Rightarrow> None
      | Some (state, cache') \<Rightarrow>
          (case (if state = THRESHOLD_ACTIVE then map_option GetMedianTimePast pindexPrev
                 else Some (hdr_GetBlockTime (blk_header block))) of
             None \<Rightarrow> None
           | Some nLockTimeCutoff \<Rightarrow>
               if list_ex (\<lambda>tx. \<not> IsFinalTx tx nHeight nLockTimeCutoff) (blk_vtx block)
               then Some (reject st 10 ''bad-txns-nonfinal'', cache')
               else if hdr_nVersion (blk_header block) \<ge> 2
                   \<and> IsSuperMajority 2 pindexPrev (nat (nMajorityEnforceBlockUpgrade P)) P
               then (case check_cb_height block nHeight of
                       None \<Rightarrow> None
                     | Some ok \<Rightarrow> Some (if ok then (True, st) else reject st 100 ''bad-cb-height'', cache'))
               else Some ((True, st), cache')))"

subsection \<open>Headers enter the index\<close>

text \<open>The new entry; its work is the work of its predecessor and its own.\<close>

definition CBlockIndex_of :: "CBlockHeader \<Rightarrow> block_data" where
  "CBlockIndex_of block = SetNull_index \<lparr> bi_nVersion := hdr_nVersion block, bi_hashMerkleRoot := hdr_hashMerkleRoot block,
     bi_nTime := hdr_nTime block, bi_nBits := hdr_nBits block, bi_nNonce := hdr_nNonce block \<rparr>"

definition new_entry :: "block_env \<Rightarrow> BlockMap \<Rightarrow> CBlockHeader \<Rightarrow> CBlockIndex option" where
  "new_entry env mapBlockIndex block =
     (let d = (CBlockIndex_of block)\<lparr> bi_nSequenceId := 0, bi_hash := be_Hb env block \<rparr>;
          linked = (case mapBlockIndex (hdr_hashPrevBlock block) of
                      None \<Rightarrow> Some (CBlockIndex d None None)
                    | Some p \<Rightarrow> BuildSkip (CBlockIndex (d\<lparr> bi_nHeight := height p + 1 \<rparr>) (Some p) None))
      in case linked of
           None \<Rightarrow> None
         | Some b \<Rightarrow>
             (case GetBlockProof b of
                None \<Rightarrow> None
              | Some proof \<Rightarrow>
                  let work = arith_add (case pprev b of None \<Rightarrow> arith_zero | Some p \<Rightarrow> bi_nChainWork (bi p)) proof in
                  map_option fst (RaiseValidity (CBlockIndex ((bi b)\<lparr> bi_nChainWork := work \<rparr>) (pprev b) (pskip b)) BLOCK_VALID_TREE)))"

text \<open>The index and the best header, which may be null.\<close>

type_synonym header_state = "BlockMap \<times> CBlockIndex option"

definition AddToBlockIndex :: "block_env \<Rightarrow> header_state \<Rightarrow> CBlockHeader \<Rightarrow> (CBlockIndex \<times> header_state) option" where
  "AddToBlockIndex env hs block =
     (case hs of (mapBlockIndex, pindexBestHeader) \<Rightarrow>
        (case mapBlockIndex (be_Hb env block) of
           Some b \<Rightarrow> Some (b, hs)
         | None \<Rightarrow>
             (case new_entry env mapBlockIndex block of
                None \<Rightarrow> None
              | Some pindexNew \<Rightarrow>
                  Some (pindexNew, mapBlockIndex(be_Hb env block \<mapsto> pindexNew),
                    case pindexBestHeader of
                      None \<Rightarrow> Some pindexNew
                    | Some best \<Rightarrow> if CompareTo (bi_nChainWork (bi best)) (bi_nChainWork (bi pindexNew)) < 0 then Some pindexNew
                                   else pindexBestHeader))))"

definition index_failed :: "CBlockIndex \<Rightarrow> bool" where
  "index_failed b \<longleftrightarrow> bi_nStatus (bi b) AND BLOCK_FAILED_MASK \<noteq> 0"

text \<open>The checks of a header that is not in the index yet.\<close>

definition check_new_header ::
  "block_env \<Rightarrow> bool \<Rightarrow> MapCheckpoints \<Rightarrow> BlockMap \<Rightarrow> CBlockHeader \<Rightarrow> CValidationState \<Rightarrow> check_result option" where
  "check_new_header env fCheckpointsEnabled checkpoints mapBlockIndex block st =
     (if \<not> fst (CheckBlockHeader env block st True) then Some (CheckBlockHeader env block st True)
      else case mapBlockIndex (hdr_hashPrevBlock block) of
        None \<Rightarrow> Some (False, DoS st 10 0 ''bad-prevblk'' False [])
      | Some pindexPrev \<Rightarrow>
          if index_failed pindexPrev then Some (reject st 100 ''bad-prevblk'')
          else let cp = CheckIndexAgainstCheckpoint env mapBlockIndex checkpoints pindexPrev st in
            if fCheckpointsEnabled \<and> \<not> fst cp then Some (False, snd cp)
            else ContextualCheckBlockHeader env block (if fCheckpointsEnabled then snd cp else st) pindexPrev)"

definition AcceptBlockHeader ::
  "block_env \<Rightarrow> bool \<Rightarrow> MapCheckpoints \<Rightarrow> header_state \<Rightarrow> CBlockHeader \<Rightarrow> CValidationState \<Rightarrow>
     (check_result \<times> CBlockIndex option \<times> header_state) option" where
  "AcceptBlockHeader env fCheckpointsEnabled checkpoints hs block st =
     (let hash = be_Hb env block;
          add = (\<lambda>st'. map_option (\<lambda>(b, hs'). ((True, st'), Some b, hs')) (AddToBlockIndex env hs block)) in
      if hash = hashGenesisBlock (be_P env) then add st
      else case fst hs hash of
        Some b \<Rightarrow>
          Some (if index_failed b then (False, Invalid st 0 ''duplicate'' []) else (True, st), Some b, hs)
      | None \<Rightarrow>
          (case check_new_header env fCheckpointsEnabled checkpoints (fst hs) block st of
             None \<Rightarrow> None
           | Some (False, st') \<Rightarrow> Some ((False, st'), None, hs)
           | Some (True, st') \<Rightarrow> add st'))"

subsection \<open>Rewards\<close>

text \<open>The factors of the code are decimal fractions of a coin; as doubles their products with \<open>COIN\<close> round to the
  whole numbers below.  The argument is the height of the active chain, not \<open>nHeight\<close>.\<close>

definition hundredths :: "int \<Rightarrow> CAmount" where
  "hundredths n = n * (COIN div 100)"

definition GetPoWBlockPayment :: "Consensus_Params \<Rightarrow> int \<Rightarrow> CAmount \<Rightarrow> CAmount" where
  "GetPoWBlockPayment P h nFees =
     (let nNextHeight = h + 1 in
      if h = 0 then 640000 * COIN
      else if h = 1 then 5 * COIN
      else if h \<ge> 2 \<and> nNextHeight \<le> nZumyBeginsBlock P then hundredths 5
      else if h \<ge> 2700 \<and> nNextHeight \<le> 375002 then hundredths 160
      else if h \<ge> 375003 \<and> nNextHeight \<le> 467001 then hundredths 120
      else if h \<ge> 467002 \<and> nNextHeight \<le> 592001 then hundredths 100
      else if h \<ge> 592002 \<and> nNextHeight \<le> 717000 then hundredths 80
      else if h \<ge> 717001 \<and> nNextHeight \<le> 842000 then hundredths 60
      else if h \<ge> 842001 \<and> nNextHeight \<le> 967000 then hundredths 70
      else if h \<ge> 967001 \<and> nNextHeight \<le> 1092000 then hundredths 100
      else hundredths 80 + nFees)"

definition GetMasternodePayment :: "Consensus_Params \<Rightarrow> int \<Rightarrow> bool \<Rightarrow> CAmount" where
  "GetMasternodePayment P h fMasternode =
     (if fMasternode \<and> h > nMasternodePaymentsStartBlock P \<and> h + 1 \<le> nPhase5LastBlock P then hundredths 80 else hundredths 80)"

text \<open>The output to the fund; \<open>script_of\<close> is the script of an address.  Two outputs are read without a check
  that they exist.\<close>

definition dev_address :: "Consensus_Params \<Rightarrow> int \<Rightarrow> string" where
  "dev_address P h =
     (let nNextHeight = h + 1;
          a = (if nNextHeight \<ge> 375004 \<and> nNextHeight \<le> nPhase3LastBlock P then ''ZUMYD3VX7ZcbBpdZMtMNioAAKQjKguKWmd'' else [])
      in if nNextHeight > nDevPhaseTotalBlocks P \<and> nNextHeight \<le> 375003 then ''53NTdWeAxEfVjXufpBqU2YKopyZYmN9P1V'' else a)"

definition IsFundRewardValid :: "(string \<Rightarrow> script) \<Rightarrow> Consensus_Params \<Rightarrow> int \<Rightarrow> CTransaction \<Rightarrow> CAmount \<Rightarrow> bool option" where
  "IsFundRewardValid script_of P h txNew fundReward =
     (let dev = script_of (dev_address P h);
          pays = (\<lambda>k. txout_scriptPubKey (tx_vout txNew ! k) = dev \<and> txout_nValue (tx_vout txNew ! k) = fundReward)
      in if length (tx_vout txNew) \<le> 2 then None else Some (pays 2 \<or> pays 1))"

end
