(* ===== verification/Version_Bits_Props.thy ===== *)
theory Version_Bits_Props
  imports Version_Bits
begin

text \<open>
  The cached computation of \<open>GetStateFor\<close> is the state machine of BIP 9: a fold over the blocks of the
  chain, one step per period.  The checkers are instances of one locale; the checker for unknown bits
  relies on the contract of the checker for known ones.
\<close>

subsection \<open>The state machine\<close>

text \<open>One step, at the last block of a period with median time past \<open>mtp\<close>, when \<open>n\<close> blocks of the period
  signal.\<close>

fun bip9_next :: "'s checker_ops \<Rightarrow> int \<Rightarrow> nat \<Rightarrow> ThresholdState \<Rightarrow> ThresholdState" where
  "bip9_next C mtp n THRESHOLD_DEFINED =
     (if mtp \<ge> tc_EndTime C then THRESHOLD_FAILED else if mtp \<ge> tc_BeginTime C then THRESHOLD_STARTED else THRESHOLD_DEFINED)"
| "bip9_next C mtp n THRESHOLD_STARTED =
     (if mtp \<ge> tc_EndTime C then THRESHOLD_FAILED else if int n \<ge> tc_Threshold C then THRESHOLD_LOCKED_IN else THRESHOLD_STARTED)"
| "bip9_next C mtp n THRESHOLD_LOCKED_IN = THRESHOLD_ACTIVE"
| "bip9_next C mtp n THRESHOLD_ACTIVE = THRESHOLD_ACTIVE"
| "bip9_next C mtp n THRESHOLD_FAILED = THRESHOLD_FAILED"

abbreviation period :: "'s checker_ops \<Rightarrow> nat" where
  "period C \<equiv> nat (tc_Period C)"

text \<open>The state after \<open>k\<close> periods of the chain \<open>xs\<close>.\<close>

fun bip9_state :: "'s checker_ops \<Rightarrow> (CBlockIndex \<Rightarrow> bool) \<Rightarrow> CBlockIndex list \<Rightarrow> nat \<Rightarrow> ThresholdState" where
  "bip9_state C cond xs 0 = THRESHOLD_DEFINED"
| "bip9_state C cond xs (Suc k) =
     bip9_next C (GetMedianTimePast (xs ! (Suc k * period C - 1)))
       (length (filter cond (take (period C) (drop (k * period C) xs)))) (bip9_state C cond xs k)"

lemma bip9_state_prefix:
  "0 < period C \<Longrightarrow> k * period C \<le> n \<Longrightarrow> bip9_state C cond (take n xs) k = bip9_state C cond xs k"
proof (induction k)
  case (Suc k)
  have "Suc k * period C - 1 < n" using Suc.prems by (cases "period C") simp_all
  moreover define m where "m = k * period C"
  have m: "period C + m \<le> n" using Suc.prems(2) by (simp add: m_def)
  then have "take (period C) (drop m (take n xs)) = take (period C) (drop m xs)" by (auto simp: drop_take min_def)
  ultimately show ?case using Suc.IH Suc.prems m by (simp add: m_def)
qed simp

text \<open>Chains on which the median time past never decreases, which the check of a block's time against the
  median ensures.\<close>

definition good_chain :: "CBlockIndex \<Rightarrow> bool" where
  "good_chain b \<longleftrightarrow> wf_index b
     \<and> (\<forall>i j. i \<le> j \<longrightarrow> j < length (path b) \<longrightarrow> GetMedianTimePast (path b ! i) \<le> GetMedianTimePast (path b ! j))"

lemma good_chain_nth:
  assumes "good_chain b" "k < length (path b)"
  shows "good_chain (path b ! k) \<and> height (path b ! k) = int k \<and> path (path b ! k) = take (Suc k) (path b)"
  using assms path_nth [of b k] by (auto simp: good_chain_def)

lemma good_chain_pprev: "good_chain b \<Longrightarrow> pprev b = Some p \<Longrightarrow> good_chain p \<and> path b = path p @ [b]"
proof -
  assume g: "good_chain b" and p: "pprev b = Some p"
  have w: "wf_index p" "path b = path p @ [b]" using wf_pprev [OF _ p] g by (auto simp: good_chain_def)
  have "path b ! (length (path p) - 1) = p" using w path_last [OF w(1)] path_length [OF w(1)] by (simp add: nth_append)
  moreover have "length (path p) - 1 < length (path b)" using w(2) by simp
  ultimately show ?thesis using good_chain_nth [OF g, of "length (path p) - 1"] w(2) by simp
qed

text \<open>The last block of period \<open>k\<close>, and none before the first period.\<close>

definition boundary :: "'s checker_ops \<Rightarrow> CBlockIndex list \<Rightarrow> nat \<Rightarrow> CBlockIndex" where
  "boundary C xs k = xs ! (k * period C - 1)"

definition boundary_ptr :: "'s checker_ops \<Rightarrow> CBlockIndex list \<Rightarrow> nat \<Rightarrow> CBlockIndex option" where
  "boundary_ptr C xs k = (if k = 0 then None else Some (boundary C xs k))"

text \<open>A cache holds only states that the machine computes.\<close>

definition cache_ok :: "'s checker_ops \<Rightarrow> (CBlockIndex \<Rightarrow> bool) \<Rightarrow> ThresholdConditionCache \<Rightarrow> bool" where
  "cache_ok C cond cache \<longleftrightarrow> (\<forall>p st. cache p = Some st \<longrightarrow>
     (case p of None \<Rightarrow> st = THRESHOLD_DEFINED | Some b \<Rightarrow> st = bip9_state C cond (path b) (length (path b) div period C)))"

text \<open>The chain up to a pointer.\<close>

definition opt_path :: "CBlockIndex option \<Rightarrow> CBlockIndex list" where
  "opt_path p = (case p of None \<Rightarrow> [] | Some b \<Rightarrow> path b)"

lemma cache_ok_empty: "cache_ok C cond (\<lambda>_. None)"
  by (simp add: cache_ok_def)

subsection \<open>The contract of a checker\<close>

locale threshold_checker =
  fixes C :: "'s checker_ops" and cond :: "CBlockIndex \<Rightarrow> bool" and I :: "'s \<Rightarrow> bool"
  assumes period_pos: "0 < tc_Period C"
    and times: "tc_BeginTime C \<le> tc_EndTime C"
    and condition: "I s \<Longrightarrow> good_chain b \<Longrightarrow> \<exists>s'. tc_Condition C s b = Some (cond b, s') \<and> I s'"
begin

lemma period_nat: "0 < period C"
  using period_pos by simp

lemma boundary_props:
  assumes "good_chain b" "0 < k" "k * period C \<le> length (path b)"
  shows "good_chain (boundary C (path b) k)" "height (boundary C (path b) k) = int (k * period C) - 1"
    "path (boundary C (path b) k) = take (k * period C) (path b)"
proof -
  have pos: "0 < k * period C" using assms(2) period_nat by simp
  then have "k * period C - 1 < length (path b)" using assms(3) by linarith
  note g = good_chain_nth [OF assms(1) this]
  show "good_chain (boundary C (path b) k)" "height (boundary C (path b) k) = int (k * period C) - 1"
    "path (boundary C (path b) k) = take (k * period C) (path b)"
    using g pos by (auto simp: boundary_def of_nat_diff)
qed

lemma cache_ok_update:
  assumes "cache_ok C cond cache" "good_chain b" "k * period C \<le> length (path b)"
  shows "cache_ok C cond (cache(boundary_ptr C (path b) k \<mapsto> bip9_state C cond (path b) k))"
proof (cases "k = 0")
  case True
  then show ?thesis using assms(1) by (auto simp: boundary_ptr_def cache_ok_def)
next
  case False
  have p: "path (boundary C (path b) k) = take (k * period C) (path b)"
    using boundary_props(3) [OF assms(2) _ assms(3)] False by simp
  have "length (path (boundary C (path b) k)) div period C = k" using assms(3) period_nat by (simp add: p)
  then have "bip9_state C cond (path (boundary C (path b) k)) (length (path (boundary C (path b) k)) div period C)
      = bip9_state C cond (path b) k"
    using bip9_state_prefix [OF period_nat, of k "k * period C" cond "path b"] by (simp add: p)
  then show ?thesis using assms(1) False by (auto simp: boundary_ptr_def cache_ok_def)
qed

lemma cache_ok_lookup:
  assumes "cache_ok C cond cache" "good_chain b" "k * period C \<le> length (path b)" "cache (boundary_ptr C (path b) k) = Some st"
  shows "st = bip9_state C cond (path b) k"
proof (cases "k = 0")
  case True
  then show ?thesis using assms(1)[unfolded cache_ok_def, rule_format, of None st] assms(4) by (simp add: boundary_ptr_def)
next
  case False
  have p: "path (boundary C (path b) k) = take (k * period C) (path b)"
    using boundary_props(3) [OF assms(2) _ assms(3)] False by simp
  have "length (path (boundary C (path b) k)) div period C = k" using assms(3) period_nat by (simp add: p)
  moreover have "st = bip9_state C cond (path (boundary C (path b) k)) (length (path (boundary C (path b) k)) div period C)"
    using assms(1)[unfolded cache_ok_def, rule_format, of "Some (boundary C (path b) k)" st] assms(4) False
    by (simp add: boundary_ptr_def)
  ultimately show ?thesis using bip9_state_prefix [OF period_nat, of k "k * period C" cond "path b"] by (simp add: p)
qed

text \<open>Before the start time nothing has happened, so the walk backwards may stop there.\<close>

lemma before_start:
  assumes b: "good_chain b" and k: "0 < k" "k * period C \<le> length (path b)"
    and m: "GetMedianTimePast (boundary C (path b) k) < tc_BeginTime C"
  shows "j \<le> k \<Longrightarrow> bip9_state C cond (path b) j = THRESHOLD_DEFINED"
proof (induction j)
  case (Suc j)
  have "Suc j * period C \<le> k * period C" using Suc.prems by (rule mult_le_mono1)
  moreover have "0 < Suc j * period C" using period_nat by simp
  ultimately have "Suc j * period C - 1 \<le> k * period C - 1" "k * period C - 1 < length (path b)" using k(2) by linarith+
  then have "GetMedianTimePast (path b ! (Suc j * period C - 1)) \<le> GetMedianTimePast (path b ! (k * period C - 1))"
    using b unfolding good_chain_def by blast
  then show ?case using Suc m times by (simp add: boundary_def)
qed simp

lemma walk_step:
  assumes b: "good_chain b" and k: "Suc k * period C \<le> length (path b)"
  shows "GetAncestor (boundary C (path b) (Suc k)) (height (boundary C (path b) (Suc k)) - tc_Period C)
    = Some (boundary_ptr C (path b) k)"
proof -
  note p = boundary_props [OF b zero_less_Suc k]
  have "int (Suc k * period C) = int (k * period C) + tc_Period C" using period_pos by (simp add: algebra_simps)
  then have h: "height (boundary C (path b) (Suc k)) - tc_Period C = int (k * period C) - 1" unfolding p(2) by simp
  have w: "wf_index (boundary C (path b) (Suc k))" using p(1) by (simp add: good_chain_def)
  show ?thesis
  proof (cases "k = 0")
    case True
    then show ?thesis unfolding h GetAncestor_path [OF w] by (simp add: boundary_ptr_def)
  next
    case False
    then have pos: "0 < k * period C" using period_nat by simp
    define n where "n = k * period C"
    have "0 < n" "n \<le> Suc k * period C" using pos unfolding n_def by simp_all
    then have n: "0 < n" "n \<le> Suc k * period C" "nat (int n - 1) = n - 1" by (assumption | linarith)+
    have "height (boundary C (path b) (Suc k)) = int (Suc k * period C) - 1" by (rule p(2))
    then have "0 \<le> int n - 1 \<and> int n - 1 \<le> height (boundary C (path b) (Suc k))" using n by linarith
    moreover have "path (boundary C (path b) (Suc k)) ! (n - 1) = boundary C (path b) k"
      unfolding p(3) using n by (subst nth_take) (linarith, simp add: boundary_def n_def)
    ultimately show ?thesis using False n(3) unfolding GetAncestor_path [OF w] h n_def [symmetric]
      by (simp add: boundary_ptr_def)
  qed
qed

lemma walk:
  assumes "cache_ok C cond cache" "good_chain b"
  shows "k * period C \<le> length (path b) \<Longrightarrow> \<exists>cache' j. vb_walk C cache (boundary_ptr C (path b) k) acc
      = Some (cache', boundary_ptr C (path b) j, map (boundary C (path b)) [Suc j..<Suc k] @ acc)
    \<and> j \<le> k \<and> cache_ok C cond cache' \<and> cache' (boundary_ptr C (path b) j) = Some (bip9_state C cond (path b) j)"
proof (induction k arbitrary: acc)
  case 0
  have "bip9_state C cond (path b) 0 = THRESHOLD_DEFINED" by simp
  then show ?case using cache_ok_lookup [OF assms, of 0] cache_ok_update [OF assms, of 0] assms(1)
    by (cases "cache None") (auto simp: vb_walk.simps boundary_ptr_def)
next
  case (Suc k)
  let ?b = "boundary C (path b) (Suc k)"
  have ptr: "boundary_ptr C (path b) (Suc k) = Some ?b" by (simp add: boundary_ptr_def)
  consider st where "cache (Some ?b) = Some st"
    | "cache (Some ?b) = None" "GetMedianTimePast ?b < tc_BeginTime C"
    | "cache (Some ?b) = None" "\<not> GetMedianTimePast ?b < tc_BeginTime C" by fastforce
  then show ?case
  proof cases
    case hit: 1
    then have "st = bip9_state C cond (path b) (Suc k)" using cache_ok_lookup [OF assms Suc.prems, of st] ptr by simp
    then show ?thesis using hit assms(1) unfolding ptr
      by (intro exI [of _ cache] exI [of _ "Suc k"]) (simp add: vb_walk.simps ptr)
  next
    case early: 2
    have d: "bip9_state C cond (path b) (Suc k) = THRESHOLD_DEFINED"
      by (rule before_start [OF assms(2) zero_less_Suc Suc.prems early(2) order_refl])
    have w: "vb_walk C cache (Some ?b) acc = Some (cache(Some ?b \<mapsto> THRESHOLD_DEFINED), Some ?b, acc)"
      using early by (simp add: vb_walk.simps)
    define c1 where "c1 = cache(Some ?b \<mapsto> THRESHOLD_DEFINED)"
    have "cache_ok C cond c1" "c1 (Some ?b) = Some THRESHOLD_DEFINED"
      using cache_ok_update [OF assms Suc.prems] unfolding ptr d c1_def by simp_all
    then show ?thesis unfolding ptr w c1_def [symmetric]
      by (intro exI [of _ c1] exI [of _ "Suc k"]) (simp add: ptr d del: bip9_state.simps)
  next
    case older: 3
    have w: "vb_walk C cache (Some ?b) acc = vb_walk C cache (boundary_ptr C (path b) k) (?b # acc)"
      by (subst vb_walk.simps) (simp add: older walk_step [OF assms(2) Suc.prems])
    have "k * period C \<le> length (path b)" using Suc.prems by simp
    from Suc.IH [OF this, of "?b # acc"] obtain c1 j where
      c1: "vb_walk C cache (boundary_ptr C (path b) k) (?b # acc)
        = Some (c1, boundary_ptr C (path b) j, map (boundary C (path b)) [Suc j..<Suc k] @ ?b # acc)"
        "j \<le> k" "cache_ok C cond c1" "c1 (boundary_ptr C (path b) j) = Some (bip9_state C cond (path b) j)" by blast
    moreover have "[Suc j..<Suc (Suc k)] = [Suc j..<Suc k] @ [Suc k]" using c1(2) by simp
    ultimately show ?thesis unfolding ptr w by (intro exI [of _ c1] exI [of _ j]) (simp del: upt_Suc)
  qed
qed

lemma opt_path_snoc: "good_chain b \<Longrightarrow> path b = opt_path (pprev b) @ [b]"
  using good_chain_pprev [of b] path_genesis [of b] by (cases "pprev b") (auto simp: opt_path_def)

lemma counting:
  "I s \<Longrightarrow> (\<forall>b. p = Some b \<longrightarrow> good_chain b) \<Longrightarrow> n \<le> length (opt_path p) \<Longrightarrow> \<exists>s'. I s' \<and> count_loop C s p n cnt
     = Some (cnt + int (length (filter cond (drop (length (opt_path p) - n) (opt_path p)))), s')"
proof (induction n arbitrary: p s cnt)
  case (Suc n)
  then obtain b where p: "p = Some b" by (cases p) (auto simp: opt_path_def)
  then have b: "good_chain b" using Suc.prems(2) by simp
  have path: "opt_path p = opt_path (pprev b) @ [b]" using opt_path_snoc [OF b] by (simp add: p opt_path_def)
  obtain s' where s': "tc_Condition C s b = Some (cond b, s')" "I s'" using condition [OF Suc.prems(1) b] by blast
  have "\<forall>c. pprev b = Some c \<longrightarrow> good_chain c" using good_chain_pprev [OF b] by blast
  moreover have "n \<le> length (opt_path (pprev b))" using Suc.prems(3) path by simp
  ultimately obtain t where "I t" "count_loop C s' (pprev b) n (if cond b then cnt + 1 else cnt)
      = Some ((if cond b then cnt + 1 else cnt)
          + int (length (filter cond (drop (length (opt_path (pprev b)) - n) (opt_path (pprev b))))), t)"
    using Suc.IH [OF s'(2), of "pprev b"] by blast
  then show ?case using s'(1) path by (auto simp: p)
qed simp

lemma next_state:
  assumes "I s" "good_chain b" "Suc k * period C \<le> length (path b)"
  shows "\<exists>s'. I s' \<and> next_state C s (boundary C (path b) (Suc k)) (bip9_state C cond (path b) k)
    = Some (bip9_state C cond (path b) (Suc k), s')"
proof -
  let ?b = "boundary C (path b) (Suc k)"
  note p = boundary_props [OF assms(2) zero_less_Suc assms(3)]
  have "opt_path (Some ?b) = take (Suc k * period C) (path b)" using p(3) by (simp add: opt_path_def)
  moreover have "drop (k * period C) (take (period C + k * period C) (path b)) = take (period C) (drop (k * period C) (path b))"
    by (simp add: drop_take)
  ultimately obtain s' where "I s'" "count_loop C s (Some ?b) (period C) 0
      = Some (int (length (filter cond (take (period C) (drop (k * period C) (path b))))), s')"
    using counting [OF assms(1), of "Some ?b" "period C" 0] p(1) assms(3) by auto
  then show ?thesis using assms(1) by (cases "bip9_state C cond (path b) k") (auto simp: boundary_def)
qed

lemma forward:
  assumes "good_chain b" "k * period C \<le> length (path b)"
  shows "j \<le> k \<Longrightarrow> I s \<Longrightarrow> cache_ok C cond cache \<Longrightarrow>
    \<exists>cache' s'. vb_forward C s cache (bip9_state C cond (path b) j) (map (boundary C (path b)) [Suc j..<Suc k])
      = Some (bip9_state C cond (path b) k, cache', s') \<and> cache_ok C cond cache' \<and> I s'"
proof (induction "k - j" arbitrary: j s cache)
  case (Suc m)
  then have lt: "j < k" by simp
  then have le: "Suc j * period C \<le> length (path b)" using assms(2) mult_le_mono1 [of "Suc j" k "period C"] by linarith
  obtain s' where s': "I s'" "next_state C s (boundary C (path b) (Suc j)) (bip9_state C cond (path b) j)
      = Some (bip9_state C cond (path b) (Suc j), s')" using next_state [OF Suc.prems(2) assms(1) le] by blast
  have list: "[Suc j..<Suc k] = Suc j # [Suc (Suc j)..<Suc k]" using lt by (simp add: upt_rec)
  have c: "cache_ok C cond (cache(Some (boundary C (path b) (Suc j)) \<mapsto> bip9_state C cond (path b) (Suc j)))"
    using cache_ok_update [OF Suc.prems(3) assms(1) le] by (simp add: boundary_ptr_def)
  have "m = k - Suc j" "Suc j \<le> k" using Suc.hyps(2) lt by simp_all
  from Suc.hyps(1) [OF this s'(1) c] show ?case unfolding list using s'(2) by simp
qed simp

text \<open>The result is the state of the last finished period, whatever the cache held.\<close>

lemma state_for:
  assumes "I s" "cache_ok C cond cache" "\<forall>b. p = Some b \<longrightarrow> good_chain b"
  shows "\<exists>cache' s'. GetStateFor C s p cache
      = Some (bip9_state C cond (opt_path p) (length (opt_path p) div period C), cache', s') \<and> cache_ok C cond cache' \<and> I s'"
proof (cases p)
  case None
  then show ?thesis using assms(1) cache_ok_empty [of C cond] assms(2)[unfolded cache_ok_def, rule_format, of None]
    by (cases "cache None") (auto simp: GetStateFor_def vb_walk.simps opt_path_def cache_ok_def assms(2)[unfolded cache_ok_def, rule_format])
next
  case (Some b)
  then have b: "good_chain b" using assms(3) by simp
  define n where "n = length (path b)"
  define k where "k = n div period C"
  have k: "k * period C \<le> n" unfolding k_def by (rule div_times_less_eq_dividend)
  have w: "wf_index b" using b by (simp add: good_chain_def)
  have n: "height b + 1 = int n" using path_length [OF w] wf_height_nonneg [OF w] by (simp add: n_def)
  have "(height b + 1) smod tc_Period C = int n mod int (period C)"
    unfolding n using smod_nonneg [of "int n" "tc_Period C"] period_pos by simp
  then have "(height b + 1) smod tc_Period C = int (n mod period C)" unfolding zmod_int .
  then have "height b - (height b + 1) smod tc_Period C = int (k * period C) - 1"
    using n div_mult_mod_eq [of n "period C"] unfolding k_def by linarith
  note h = this
  have "GetAncestor b (int (k * period C) - 1) = Some (boundary_ptr C (path b) k)"
  proof (cases "k = 0")
    case True
    then show ?thesis by (simp add: GetAncestor_path [OF w] boundary_ptr_def)
  next
    case False
    define m where "m = k * period C"
    have "0 < m" "m \<le> n" using False period_nat k unfolding m_def by simp_all
    then have "0 \<le> int m - 1 \<and> int m - 1 \<le> height b" "nat (int m - 1) = m - 1" using n by linarith+
    then show ?thesis using False unfolding GetAncestor_path [OF w] m_def [symmetric]
      by (simp add: boundary_ptr_def boundary_def m_def)
  qed
  note anc = this
  obtain c1 j where "vb_walk C cache (boundary_ptr C (path b) k) []
      = Some (c1, boundary_ptr C (path b) j, map (boundary C (path b)) [Suc j..<Suc k] @ [])"
    "j \<le> k" "cache_ok C cond c1" "c1 (boundary_ptr C (path b) j) = Some (bip9_state C cond (path b) j)"
    using walk [OF assms(2) b, of k "[]"] k unfolding n_def by blast
  moreover from this obtain c2 s' where
    "vb_forward C s c1 (bip9_state C cond (path b) j) (map (boundary C (path b)) [Suc j..<Suc k])
      = Some (bip9_state C cond (path b) k, c2, s')" "cache_ok C cond c2" "I s'"
    using forward [OF b _ _ assms(1), of k j c1] k unfolding n_def by blast
  ultimately show ?thesis using Some anc unfolding GetStateFor_def h
    by (simp add: opt_path_def h k_def n_def)
qed

end

subsection \<open>The checkers of the program\<close>

text \<open>A block signals for a deployment.\<close>

definition signals :: "Consensus_Params \<Rightarrow> DeploymentPos \<Rightarrow> CBlockIndex \<Rightarrow> bool" where
  "signals P d b \<longleftrightarrow> block_nVersion b AND VERSIONBITS_TOP_MASK = VERSIONBITS_TOP_BITS \<and> block_nVersion b AND Mask P d \<noteq> 0"

definition deployment_state :: "Consensus_Params \<Rightarrow> DeploymentPos \<Rightarrow> CBlockIndex option \<Rightarrow> ThresholdState" where
  "deployment_state P d p = bip9_state (VersionBitsConditionChecker P d) (signals P d) (opt_path p)
     (length (opt_path p) div nat (nMinerConfirmationWindow P))"

definition caches_ok :: "Consensus_Params \<Rightarrow> VersionBitsCache \<Rightarrow> bool" where
  "caches_ok P cache \<longleftrightarrow> (\<forall>d. cache_ok (VersionBitsConditionChecker P d) (signals P d) (cache d))"

definition good_tip :: "CBlockIndex option \<Rightarrow> bool" where
  "good_tip p \<longleftrightarrow> (\<forall>b. p = Some b \<longrightarrow> good_chain b)"

interpretation known: threshold_checker "VersionBitsConditionChecker (GetConsensus net) d" "signals (GetConsensus net) d" "\<lambda>_. True"
  for net d
  by unfold_locales (auto simp: VersionBitsConditionChecker_def signals_def deployment_times)

lemma VersionBitsState_ok:
  assumes "caches_ok (GetConsensus net) cache" "good_tip p"
  shows "\<exists>cache'. VersionBitsState p (GetConsensus net) d cache = Some (deployment_state (GetConsensus net) d p, cache')
    \<and> caches_ok (GetConsensus net) cache'"
proof -
  let ?P = "GetConsensus net"
  have ok: "cache_ok (VersionBitsConditionChecker ?P d) (signals ?P d) (cache d)" using assms(1) by (simp add: caches_ok_def)
  have per: "tc_Period (VersionBitsConditionChecker ?P d) = nMinerConfirmationWindow ?P" by (simp add: VersionBitsConditionChecker_def)
  obtain c' s' where c': "GetStateFor (VersionBitsConditionChecker ?P d) () p (cache d) = Some (deployment_state ?P d p, c', s')"
    "cache_ok (VersionBitsConditionChecker ?P d) (signals ?P d) c'"
    using known.state_for [where s = "()", OF TrueI ok assms(2)[unfolded good_tip_def]] unfolding deployment_state_def per by blast
  then have "caches_ok ?P (cache(d := c'))" using assms(1) by (simp add: caches_ok_def)
  then show ?thesis using c'(1) unfolding VersionBitsState_def by simp
qed

text \<open>The version that a block should have: the bits of the deployments that are being voted on.\<close>

definition expected_version :: "Consensus_Params \<Rightarrow> CBlockIndex option \<Rightarrow> u32" where
  "expected_version P p = foldl (\<lambda>v d. if deployment_state P d p \<in> {THRESHOLD_LOCKED_IN, THRESHOLD_STARTED} then v OR Mask P d else v)
     VERSIONBITS_TOP_BITS [DEPLOYMENT_TESTDUMMY, DEPLOYMENT_CSV]"

lemma ComputeBlockVersion_ok:
  assumes "caches_ok (GetConsensus net) cache" "good_tip p"
  shows "\<exists>cache'. ComputeBlockVersion p (GetConsensus net) cache = Some (expected_version (GetConsensus net) p, cache')
    \<and> caches_ok (GetConsensus net) cache'"
proof -
  obtain c1 where c1: "VersionBitsState p (GetConsensus net) DEPLOYMENT_TESTDUMMY cache
      = Some (deployment_state (GetConsensus net) DEPLOYMENT_TESTDUMMY p, c1)" "caches_ok (GetConsensus net) c1"
    using VersionBitsState_ok [OF assms] by blast
  obtain c2 where c2: "VersionBitsState p (GetConsensus net) DEPLOYMENT_CSV c1
      = Some (deployment_state (GetConsensus net) DEPLOYMENT_CSV p, c2)" "caches_ok (GetConsensus net) c2"
    using VersionBitsState_ok [OF c1(2) assms(2)] by blast
  show ?thesis using c1(1) c2 by (simp add: ComputeBlockVersion_def expected_version_def VersionBitsMask_def)
qed

text \<open>An unknown bit is one that the program would not set.\<close>

definition unknown_signal :: "Consensus_Params \<Rightarrow> nat \<Rightarrow> CBlockIndex \<Rightarrow> bool" where
  "unknown_signal P k b \<longleftrightarrow> block_nVersion b AND VERSIONBITS_TOP_MASK = VERSIONBITS_TOP_BITS
     \<and> version_bit (block_nVersion b) k \<and> \<not> version_bit (expected_version P (pprev b)) k"

interpretation unknown: threshold_checker "WarningBitsConditionChecker (GetConsensus net) k" "unknown_signal (GetConsensus net) k"
  "caches_ok (GetConsensus net)"
  for net k
proof unfold_locales
  fix s b assume s: "caches_ok (GetConsensus net) s" and b: "good_chain b"
  have "good_tip (pprev b)" using good_chain_pprev [OF b] by (simp add: good_tip_def)
  from ComputeBlockVersion_ok [OF s this] s
  show "\<exists>s'. tc_Condition (WarningBitsConditionChecker (GetConsensus net) k) s b
      = Some (unknown_signal (GetConsensus net) k b, s') \<and> caches_ok (GetConsensus net) s'"
    by (auto simp: WarningBitsConditionChecker_def unknown_signal_def)
qed (simp_all add: WarningBitsConditionChecker_def INT64_MAX_def)

text \<open>C18: deployments follow BIP 9.  For every chain whose median time never decreases and every
  coherent cache, the cached computation returns the state of the machine that steps once per period;
  the version of a new block has exactly the bits of the deployments that are started or locked in; the
  warning for an unknown bit is the same machine run on the blocks that set a bit which the program
  would not set; and the caches stay coherent.\<close>

theorem version_bits_follow_bip9:
  assumes "good_tip p" "caches_ok (GetConsensus net) cache"
    and "cache_ok (WarningBitsConditionChecker (GetConsensus net) k) (unknown_signal (GetConsensus net) k) wcache"
  shows "\<exists>c1 c2 c3 w. VersionBitsState p (GetConsensus net) d cache = Some (deployment_state (GetConsensus net) d p, c1)
    \<and> ComputeBlockVersion p (GetConsensus net) cache = Some (expected_version (GetConsensus net) p, c2)
    \<and> GetStateFor (WarningBitsConditionChecker (GetConsensus net) k) cache p wcache
      = Some (bip9_state (WarningBitsConditionChecker (GetConsensus net) k) (unknown_signal (GetConsensus net) k) (opt_path p)
          (length (opt_path p) div nat (nMinerConfirmationWindow (GetConsensus net))), w, c3)
    \<and> caches_ok (GetConsensus net) c1 \<and> caches_ok (GetConsensus net) c2 \<and> caches_ok (GetConsensus net) c3
    \<and> cache_ok (WarningBitsConditionChecker (GetConsensus net) k) (unknown_signal (GetConsensus net) k) w"
proof -
  have per: "tc_Period (WarningBitsConditionChecker (GetConsensus net) k) = nMinerConfirmationWindow (GetConsensus net)"
    by (simp add: WarningBitsConditionChecker_def)
  show ?thesis
    using VersionBitsState_ok [OF assms(2,1), of d] ComputeBlockVersion_ok [OF assms(2,1)]
      unknown.state_for [OF assms(2,3) assms(1)[unfolded good_tip_def]] unfolding per by blast
qed

text \<open>On the main and the test network the relative-lock-time deployment starts when it times out, so it is
  never voted on.\<close>

lemma csv_never_started:
  "net \<in> {MAIN, TESTNET} \<Longrightarrow>
   bip9_state (VersionBitsConditionChecker (GetConsensus net) DEPLOYMENT_CSV) cond xs k \<in> {THRESHOLD_DEFINED, THRESHOLD_FAILED}"
  by (induction k) (auto simp: VersionBitsConditionChecker_def consensus_defs)

text \<open>A chain of blocks at time 0, on the regression test network: after the first period both deployments
  are voted on.\<close>

fun vote_block :: "nat \<Rightarrow> CBlockIndex" where
  "vote_block 0 = CBlockIndex (SetNull_index \<lparr> bi_nTime := 0 \<rparr>) None None"
| "vote_block (Suc n) = CBlockIndex (SetNull_index \<lparr> bi_nTime := 0, bi_nHeight := int n + 1 \<rparr>) (Some (vote_block n)) None"

lemma vote_block_simps [simp]:
  "pskip (vote_block n) = None" "height (vote_block n) = int n" "bi_nTime (bi (vote_block n)) = 0"
  "pprev (vote_block 0) = None" "pprev (vote_block (Suc n)) = Some (vote_block n)"
  by (cases n; simp add: SetNull_index_def)+

declare vote_block.simps [simp del]

lemma path_vote_block [simp]: "path (vote_block n) = map vote_block [0..<Suc n]"
proof (induction n)
  case (Suc n)
  then show ?case by (simp add: path.simps [of "vote_block (Suc n)"])
qed (simp add: path.simps [of "vote_block 0"])

lemma wf_vote_block [simp]: "wf_index (vote_block n)"
  by (induction n) (simp_all add: wf_index.simps [of "vote_block 0"] wf_index.simps [of "vote_block (Suc n)" for n])

lemma median_vote_block [simp]: "GetMedianTimePast (vote_block n) = 0"
proof -
  have "set (median_times k (vote_block n)) \<subseteq> {0}" for k
  proof (induction k arbitrary: n)
    case (Suc k)
    then show ?case by (cases n) simp_all
  qed simp
  moreover have "median_times nMedianTimeSpan (vote_block n) \<noteq> []"
    by (simp add: nMedianTimeSpan_def eval_nat_numeral)
  ultimately have "sort (median_times nMedianTimeSpan (vote_block n)) ! (length (median_times nMedianTimeSpan (vote_block n)) div 2) \<in> {0}"
    using nth_mem [of "length (median_times nMedianTimeSpan (vote_block n)) div 2" "sort (median_times nMedianTimeSpan (vote_block n))"]
    by auto
  then show ?thesis by (simp add: GetMedianTimePast_def Let_def)
qed

lemma good_vote_block: "good_tip (Some (vote_block n))"
  by (auto simp: good_tip_def good_chain_def simp del: upt_Suc)

lemma vote_block_started: "deployment_state CRegTestParams_consensus d (Some (vote_block 337)) = THRESHOLD_STARTED"
  by (cases d) (simp_all add: deployment_state_def opt_path_def VersionBitsConditionChecker_def CRegTestParams_consensus_def
      del: upt_Suc bip9_state.simps, simp_all add: numeral_2_eq_2)

lemma version_bits_follow_bip9_witness:
  "\<exists>c. ComputeBlockVersion (Some (vote_block 337)) (GetConsensus REGTEST) (VersionBitsCache_Clear (\<lambda>_ _. Some THRESHOLD_FAILED)) = Some (0x30000001, c)"
proof -
  have "expected_version (GetConsensus REGTEST) (Some (vote_block 337)) = 0x30000001"
    by (simp add: expected_version_def vote_block_started VERSIONBITS_TOP_BITS_def Mask_def)
       (simp add: CRegTestParams_consensus_def)
  moreover have "caches_ok (GetConsensus REGTEST) (VersionBitsCache_Clear (\<lambda>_ _. Some THRESHOLD_FAILED))"
    by (simp add: caches_ok_def VersionBitsCache_Clear_def cache_ok_empty)
  ultimately show ?thesis using version_bits_follow_bip9 [OF good_vote_block _ cache_ok_empty, of REGTEST] by metis
qed

end
