(* ===== verification/Merkle_Props.thy ===== *)
theory Merkle_Props
  imports Merkle "HOL-Library.Countable"
begin

text \<open>
  The constant-space computation of the root agrees with the recursive one of the partial trees, branches
  lead to the root, a root without the mutation flag commits to its leaves, and partial trees give back
  what they were built from.
\<close>

subsection \<open>Widths\<close>

lemma less_width: "i < CalcTreeWidth n l \<longleftrightarrow> i * 2 ^ l < n"
proof -
  have "Suc i \<le> (n + 2 ^ l - 1) div 2 ^ l \<longleftrightarrow> Suc i * 2 ^ l \<le> n + 2 ^ l - 1"
    by (rule less_eq_div_iff_mult_less_eq) simp
  moreover have "Suc i * 2 ^ l = i * 2 ^ l + 2 ^ l" "(1::nat) \<le> 2 ^ l" by simp_all
  ultimately show ?thesis unfolding CalcTreeWidth_def Suc_le_eq by linarith
qed

lemma CalcHash_pair:
  assumes "(2 * i + 1) * 2 ^ l < length xs"
  shows "CalcHash H xs (Suc l) i = H (CalcHash H xs l (2 * i)) (CalcHash H xs l (2 * i + 1))"
  using assms less_width [of "2 * i + 1" "length xs" l] by (simp add: mult.commute)

lemma CalcHash_single:
  assumes "length xs \<le> (2 * i + 1) * 2 ^ l"
  shows "CalcHash H xs (Suc l) i = H (CalcHash H xs l (2 * i)) (CalcHash H xs l (2 * i))"
  using assms less_width [of "2 * i + 1" "length xs" l] by (simp add: mult.commute)

lemma CalcHash_left: "\<exists>a. CalcHash H xs (Suc l) q = H (CalcHash H xs l (2 * q)) a"
  by (auto simp: mult.commute)

declare CalcHash.simps(2) [simp del]

subsection \<open>Counters\<close>

text \<open>\<open>c'\<close> is the end of the block at level \<open>l\<close> after the last one that \<open>c\<close> leaves complete.\<close>

definition next_block :: "nat \<Rightarrow> nat \<Rightarrow> nat \<Rightarrow> bool" where
  "next_block c c' l \<longleftrightarrow> c' = Suc (c div 2 ^ l) * 2 ^ l"

lemma next_block_Suc:
  assumes "next_block c c' l" "\<not> bit c' l"
  shows "odd (c div 2 ^ l)" "bit c l" "c div 2 ^ l = 2 * (c div 2 ^ Suc l) + 1" "next_block c c' (Suc l)"
proof -
  have d: "c' div 2 ^ l = Suc (c div 2 ^ l)" using assms(1) unfolding next_block_def by simp
  then show o: "odd (c div 2 ^ l)" using assms(2) by (simp add: bit_iff_odd)
  then show "bit c l" by (simp add: bit_iff_odd)
  have "c div 2 ^ Suc l = c div 2 ^ l div 2" by (simp only: power_Suc2 div_mult2_eq)
  then show e: "c div 2 ^ l = 2 * (c div 2 ^ Suc l) + 1" using o by (simp add: odd_two_times_div_two_succ)
  show "next_block c c' (Suc l)" using assms(1) unfolding next_block_def e by simp
qed

lemma next_block_bit:
  assumes "next_block c c' l" "bit c' l"
  shows "even (c div 2 ^ l)" "\<not> bit c l" "l < j \<Longrightarrow> c' div 2 ^ j = c div 2 ^ j" "l < j \<Longrightarrow> bit c' j \<longleftrightarrow> bit c j"
proof -
  have d: "c' div 2 ^ l = Suc (c div 2 ^ l)" using assms(1) unfolding next_block_def by simp
  then show e: "even (c div 2 ^ l)" using assms(2) by (simp add: bit_iff_odd)
  then show "\<not> bit c l" by (simp add: bit_iff_odd)
  have "c' div 2 ^ j = c div 2 ^ j" if lt: "l < j" for j
  proof -
    obtain k where j: "j = Suc l + k" using less_iff_Suc_add [of l j] lt by auto
    have "c' div 2 ^ Suc l = c' div 2 ^ l div 2" "c div 2 ^ Suc l = c div 2 ^ l div 2" by (simp_all only: power_Suc2 div_mult2_eq)
    then have "c' div 2 ^ Suc l = c div 2 ^ Suc l" unfolding d even_Suc_div_two [OF e] by simp
    moreover have "x div 2 ^ j = x div 2 ^ Suc l div 2 ^ k" for x :: nat by (simp only: j power_add div_mult2_eq)
    ultimately show ?thesis by simp
  qed
  then show "l < j \<Longrightarrow> c' div 2 ^ j = c div 2 ^ j" "l < j \<Longrightarrow> bit c' j \<longleftrightarrow> bit c j" by (simp_all add: bit_iff_odd)
qed

lemma next_block_le:
  assumes "next_block c c' l" shows "c < c'"
proof -
  have "c mod 2 ^ l < 2 ^ l" by simp
  moreover have "Suc (c div 2 ^ l) * 2 ^ l = c div 2 ^ l * 2 ^ l + 2 ^ l" by (simp only: mult_Suc add.commute)
  ultimately show ?thesis using div_mult_mod_eq [of c "2 ^ l"] assms unfolding next_block_def by linarith
qed

lemma next_block_level: "next_block c c' l \<Longrightarrow> c' \<le> 2 ^ 31 \<Longrightarrow> l \<le> 31"
proof (rule ccontr)
  assume n: "next_block c c' l" "c' \<le> 2 ^ 31" and "\<not> l \<le> 31"
  then have "(2::nat) ^ 32 \<le> 2 ^ l" by (intro power_increasing) simp_all
  moreover have "(2::nat) ^ l \<le> c'" using n(1) by (simp add: next_block_def)
  ultimately show False using n(2) by simp
qed

subsection \<open>The inner loop\<close>

text \<open>What \<open>inner\<close> holds after \<open>c\<close> leaves.\<close>

definition inner_ok :: "('h \<Rightarrow> 'h \<Rightarrow> 'h) \<Rightarrow> 'h list \<Rightarrow> nat \<Rightarrow> 'h list \<Rightarrow> bool" where
  "inner_ok H xs c inner \<longleftrightarrow> length inner = 32 \<and> (\<forall>j. bit c j \<longrightarrow> inner ! j = CalcHash H xs j (c div 2 ^ j - 1))"

text \<open>Two complete neighbours among the first \<open>c\<close> leaves have the same hash.\<close>

definition twins :: "('h \<Rightarrow> 'h \<Rightarrow> 'h) \<Rightarrow> 'h list \<Rightarrow> nat \<Rightarrow> bool" where
  "twins H xs c \<longleftrightarrow> (\<exists>j i. (2 * i + 2) * 2 ^ j \<le> c \<and> CalcHash H xs j (2 * i) = CalcHash H xs j (2 * i + 1))"

text \<open>The sibling of the ancestor of leaf \<open>p\<close> at level \<open>l\<close>.\<close>

definition sibling :: "('h \<Rightarrow> 'h \<Rightarrow> 'h) \<Rightarrow> 'h list \<Rightarrow> nat \<Rightarrow> nat \<Rightarrow> 'h" where
  "sibling H xs p l = (let i = p div 2 ^ l in
     if odd i then CalcHash H xs l (i - 1)
     else if (i + 1) * 2 ^ l < length xs then CalcHash H xs l (i + 1) else CalcHash H xs l i)"

definition branch_ok :: "('h \<Rightarrow> 'h \<Rightarrow> 'h) \<Rightarrow> 'h list \<Rightarrow> nat \<Rightarrow> nat \<Rightarrow> nat \<Rightarrow> bool \<Rightarrow> int \<Rightarrow> 'h list \<Rightarrow> bool" where
  "branch_ok H xs p c l matchh matchlevel branch \<longleftrightarrow>
     (if matchh then p div 2 ^ l = c div 2 ^ l \<and> branch = map (sibling H xs p) [0..<l]
      else matchlevel = -1 \<and> branch = [] \<and> c < p
        \<or> (\<exists>m\<ge>l. matchlevel = int m \<and> bit c m \<and> p div 2 ^ m = c div 2 ^ m - 1 \<and> branch = map (sibling H xs p) [0..<m] \<and> p < c))"

lemma branch_ok_step:
  assumes b: "branch_ok H xs p c l matchh matchlevel branch" and i: "inner_ok H xs c inner"
    and n: "next_block c c' l" "\<not> bit c' l" and c: "c div 2 ^ l * 2 ^ l < length xs"
    and s: "branch_step True inner matchlevel l (CalcHash H xs l (c div 2 ^ l)) matchh branch = (matchh', branch')"
  shows "branch_ok H xs p c (Suc l) matchh' matchlevel branch'"
proof -
  note nb = next_block_Suc [OF n]
  have inner: "inner ! l = CalcHash H xs l (c div 2 ^ l - 1)" using i nb(2) by (simp add: inner_ok_def)
  have half: "p div 2 ^ Suc l = p div 2 ^ l div 2" "c div 2 ^ Suc l = c div 2 ^ l div 2" by (simp_all only: power_Suc2 div_mult2_eq)
  consider "matchh" | "\<not> matchh" "matchlevel = int l" | "\<not> matchh" "matchlevel \<noteq> int l" by blast
  then show ?thesis
  proof cases
    case 1
    then have "p div 2 ^ l = c div 2 ^ l" using b by (simp add: branch_ok_def)
    then have "sibling H xs p l = inner ! l" using nb(1) inner by (simp add: sibling_def Let_def)
    then show ?thesis using 1 s b half by (auto simp: branch_step_def branch_ok_def)
  next
    case 2
    then have p: "p div 2 ^ l = c div 2 ^ l - 1" using b by (auto simp: branch_ok_def)
    have "c div 2 ^ l - 1 + 1 = c div 2 ^ l" using nb(3) by simp
    then have "sibling H xs p l = CalcHash H xs l (c div 2 ^ l)" using nb(1,3) c unfolding sibling_def Let_def p by simp
    moreover have "(c div 2 ^ l - 1) div 2 = c div 2 ^ l div 2" unfolding nb(3) by simp
    ultimately show ?thesis using 2 s b half p by (auto simp: branch_step_def branch_ok_def)
  next
    case 3
    then have "(matchh', branch') = (False, branch)" using s by (simp add: branch_step_def)
    moreover have "m = l \<or> Suc l \<le> m" if "l \<le> m" for m using that by linarith
    ultimately show ?thesis using 3 b by (auto simp: branch_ok_def)
  qed
qed

lemma level_loop_ok:
  assumes "inner_ok H xs c inner"
  shows "next_block c c' l \<Longrightarrow> c' \<le> 2 ^ 31 \<Longrightarrow> c div 2 ^ l * 2 ^ l < length xs \<Longrightarrow>
    (want \<Longrightarrow> branch_ok H xs p c l matchh matchlevel branch) \<Longrightarrow>
    \<exists>l' matchh' mutated' branch'. level_loop H want inner matchlevel c' (32 - l) l (CalcHash H xs l (c div 2 ^ l)) matchh mutated branch
      = Some (l', CalcHash H xs l' (c div 2 ^ l'), matchh', mutated', branch')
    \<and> bit c' l' \<and> next_block c c' l' \<and> l \<le> l' \<and> c div 2 ^ l' * 2 ^ l' < length xs
    \<and> (want \<longrightarrow> branch_ok H xs p c l' matchh' matchlevel branch')
    \<and> (mutated' \<longleftrightarrow> mutated \<or> (\<exists>j\<in>{l..<l'}. CalcHash H xs j (c div 2 ^ j - 1) = CalcHash H xs j (c div 2 ^ j)))"
proof (induction "32 - l" arbitrary: l matchh mutated branch)
  case 0
  then show ?case using next_block_level [of c c' l] by simp
next
  case (Suc k)
  have fuel: "32 - l = Suc k" using Suc.hyps(2) by simp
  show ?case
  proof (cases "bit c' l")
    case True
    then show ?thesis using Suc.prems unfolding fuel by (intro exI [of _ l]) simp
  next
    case False
    note nb = next_block_Suc [OF Suc.prems(1) False]
    have inner: "inner ! l = CalcHash H xs l (c div 2 ^ l - 1)" using assms nb(2) by (simp add: inner_ok_def)
    have "(2 * (c div 2 ^ Suc l) + 1) * 2 ^ l < length xs" using Suc.prems(3) unfolding nb(3) .
    from CalcHash_pair [OF this, of H] have h: "H (inner ! l) (CalcHash H xs l (c div 2 ^ l)) = CalcHash H xs (Suc l) (c div 2 ^ Suc l)"
      unfolding inner nb(3) by simp
    have le: "c div 2 ^ Suc l * 2 ^ Suc l < length xs" using Suc.prems(3) unfolding nb(3) by simp
    obtain matchh1 branch1 where st: "branch_step want inner matchlevel l (CalcHash H xs l (c div 2 ^ l)) matchh branch = (matchh1, branch1)"
      by (cases "branch_step want inner matchlevel l (CalcHash H xs l (c div 2 ^ l)) matchh branch")
    have "want \<Longrightarrow> branch_ok H xs p c (Suc l) matchh1 matchlevel branch1"
      using branch_ok_step [OF Suc.prems(4) assms Suc.prems(1) False Suc.prems(3)] st by simp
    moreover have "k = 32 - Suc l" using fuel by simp
    ultimately obtain l' matchh' mutated' branch' where r:
      "level_loop H want inner matchlevel c' (32 - Suc l) (Suc l) (CalcHash H xs (Suc l) (c div 2 ^ Suc l)) matchh1
          (mutated \<or> inner ! l = CalcHash H xs l (c div 2 ^ l)) branch1
        = Some (l', CalcHash H xs l' (c div 2 ^ l'), matchh', mutated', branch')"
      "bit c' l' \<and> next_block c c' l' \<and> Suc l \<le> l' \<and> c div 2 ^ l' * 2 ^ l' < length xs
        \<and> (want \<longrightarrow> branch_ok H xs p c l' matchh' matchlevel branch')"
      "mutated' \<longleftrightarrow> (mutated \<or> inner ! l = CalcHash H xs l (c div 2 ^ l))
        \<or> (\<exists>j\<in>{Suc l..<l'}. CalcHash H xs j (c div 2 ^ j - 1) = CalcHash H xs j (c div 2 ^ j))"
      using Suc.hyps(1) [OF _ nb(4) Suc.prems(2) le, of matchh1 branch1 "mutated \<or> inner ! l = CalcHash H xs l (c div 2 ^ l)"] by blast
    have "{l..<l'} = insert l {Suc l..<l'}" using r(2) by auto
    then have "mutated' \<longleftrightarrow> mutated \<or> (\<exists>j\<in>{l..<l'}. CalcHash H xs j (c div 2 ^ j - 1) = CalcHash H xs j (c div 2 ^ j))"
      unfolding r(3) inner by simp
    moreover have "level_loop H want inner matchlevel c' (32 - l) l (CalcHash H xs l (c div 2 ^ l)) matchh mutated branch
        = Some (l', CalcHash H xs l' (c div 2 ^ l'), matchh', mutated', branch')"
      using r(1) False st h unfolding fuel \<open>k = 32 - Suc l\<close> [symmetric] by simp
    ultimately show ?thesis using r(2) by (meson Suc_leD)
  qed
qed

subsection \<open>The leaves\<close>

definition progress :: "('h \<Rightarrow> 'h \<Rightarrow> 'h) \<Rightarrow> 'h list \<Rightarrow> nat \<Rightarrow> nat \<Rightarrow> int \<Rightarrow> 'h list \<Rightarrow> bool" where
  "progress H xs p c matchlevel branch \<longleftrightarrow>
     matchlevel = -1 \<and> branch = [] \<and> c \<le> p
     \<or> (\<exists>m. matchlevel = int m \<and> bit c m \<and> p div 2 ^ m = c div 2 ^ m - 1 \<and> branch = map (sibling H xs p) [0..<m] \<and> p < c)"

lemma progress_start: "progress H xs p c matchlevel branch \<Longrightarrow> branch_ok H xs p c 0 (c = p) matchlevel branch"
  unfolding progress_def branch_ok_def by (cases "c = p") auto

lemma progress_end:
  assumes "branch_ok H xs p c l matchh matchlevel branch" "next_block c (Suc c) l" "bit (Suc c) l"
  shows "progress H xs p (Suc c) (if matchh then int l else matchlevel) branch"
proof (cases matchh)
  case True
  have "Suc c div 2 ^ l = Suc (c div 2 ^ l)" using assms(2) unfolding next_block_def by (metis nonzero_mult_div_cancel_right power_not_zero zero_neq_numeral)
  moreover have "p < Suc c"
  proof -
    have "p mod 2 ^ l < 2 ^ l" by simp
    moreover have "p div 2 ^ l * 2 ^ l = c div 2 ^ l * 2 ^ l" using True assms(1) by (simp add: branch_ok_def)
    moreover have "Suc (c div 2 ^ l) * 2 ^ l = c div 2 ^ l * 2 ^ l + 2 ^ l" by (simp only: mult_Suc add.commute)
    ultimately show ?thesis using div_mult_mod_eq [of p "2 ^ l"] assms(2) unfolding next_block_def by linarith
  qed
  ultimately show ?thesis using True assms(1,3) by (auto simp: progress_def branch_ok_def)
next
  case False
  note nb = next_block_bit [OF assms(2,3)]
  consider "matchlevel = -1" "branch = []" "c < p"
    | m where "l \<le> m" "matchlevel = int m" "bit c m" "p div 2 ^ m = c div 2 ^ m - 1" "branch = map (sibling H xs p) [0..<m]" "p < c"
    using False assms(1) by (auto simp: branch_ok_def)
  then show ?thesis
  proof cases
    case 1
    then show ?thesis using False by (simp add: progress_def)
  next
    case 2
    then have "l < m" using nb(2) by (metis le_neq_implies_less)
    then show ?thesis using 2 False nb(3,4) by (auto simp: progress_def)
  qed
qed

lemma next_block_dvd: "next_block c (Suc c) l \<longleftrightarrow> 2 ^ l dvd Suc c"
proof
  assume "2 ^ l dvd Suc c"
  then obtain k where k: "Suc c = 2 ^ l * k" by (elim dvdE)
  then obtain q where q: "k = Suc q" by (cases k) simp_all
  have pos: "(1::nat) \<le> 2 ^ l" by simp
  have "2 ^ l * Suc q = 2 ^ l * q + 2 ^ l" by simp
  then have "2 ^ l * q \<le> c" using k pos unfolding q by linarith
  moreover have "c < 2 ^ l * Suc q" using k unfolding q by linarith
  ultimately have "c div 2 ^ l = q" by (rule div_nat_eqI)
  then show "next_block c (Suc c) l" using k q by (simp add: next_block_def)
qed (simp add: next_block_def)

lemma twins_Suc:
  assumes "next_block c (Suc c) l" "bit (Suc c) l"
  shows "twins H xs (Suc c) \<longleftrightarrow> twins H xs c \<or> (\<exists>j\<in>{0..<l}. CalcHash H xs j (c div 2 ^ j - 1) = CalcHash H xs j (c div 2 ^ j))"
    (is "_ \<longleftrightarrow> _ \<or> ?new")
proof
  assume "twins H xs (Suc c)"
  then obtain i j where ij: "(2 * i + 2) * 2 ^ j \<le> Suc c" "CalcHash H xs j (2 * i) = CalcHash H xs j (2 * i + 1)" by (auto simp: twins_def)
  show "twins H xs c \<or> ?new"
  proof (cases "(2 * i + 2) * 2 ^ j \<le> c")
    case True
    then show ?thesis using ij(2) by (auto simp: twins_def)
  next
    case False
    then have e: "Suc c = (2 * i + 2) * 2 ^ j" using ij(1) by simp
    have lt: "j < l"
    proof (rule ccontr)
      assume "\<not> j < l"
      then have "(2::nat) ^ l dvd 2 ^ j" by (simp add: le_imp_power_dvd)
      then obtain k where k: "(2::nat) ^ j = 2 ^ l * k" by (elim dvdE)
      have "Suc c = 2 ^ l * (2 * ((i + 1) * k))" unfolding e k by (simp add: algebra_simps)
      then have "even (Suc c div 2 ^ l)" by (metis dvd_triv_left nonzero_mult_div_cancel_left power_not_zero zero_neq_numeral)
      then show False using assms(2) by (simp add: bit_iff_odd)
    qed
    have "2 ^ j dvd Suc c" unfolding e by simp
    then have "next_block c (Suc c) j" unfolding next_block_dvd .
    then have "Suc (c div 2 ^ j) * 2 ^ j = (2 * i + 2) * 2 ^ j" unfolding next_block_def e by simp
    then have "Suc (c div 2 ^ j) = 2 * i + 2" unfolding mult_cancel2 by simp
    then have "c div 2 ^ j = 2 * i + 1" by simp
    then show ?thesis using ij(2) lt by (intro disjI2 bexI [of _ j]) simp_all
  qed
next
  assume "twins H xs c \<or> ?new"
  moreover have "twins H xs (Suc c)" if "j < l" "CalcHash H xs j (c div 2 ^ j - 1) = CalcHash H xs j (c div 2 ^ j)" for j
  proof -
    have "2 ^ Suc j dvd Suc c" using assms(1) that(1) unfolding next_block_dvd by (meson Suc_leI dvd_trans le_imp_power_dvd)
    then have n: "next_block c (Suc c) (Suc j)" unfolding next_block_dvd .
    have "2 ^ j dvd Suc c" using \<open>2 ^ Suc j dvd Suc c\<close> by (meson dvd_trans le_imp_power_dvd lessI less_imp_le)
    then have m: "next_block c (Suc c) j" unfolding next_block_dvd .
    define q where "q = c div 2 ^ Suc j"
    have "Suc (c div 2 ^ j) * 2 ^ j = (2 * q + 2) * 2 ^ j" using n m unfolding next_block_def q_def by simp
    then have "Suc (c div 2 ^ j) = 2 * q + 2" unfolding mult_cancel2 by simp
    then have "c div 2 ^ j = 2 * q + 1" by simp
    moreover have "(2 * q + 2) * 2 ^ j \<le> Suc c" using n unfolding next_block_def q_def by simp
    ultimately show ?thesis using that(2) unfolding twins_def by (intro exI [of _ j] exI [of _ q]) simp
  qed
  ultimately show "twins H xs (Suc c)" by (auto simp: twins_def intro: le_SucI)
qed

lemma inner_ok_end:
  assumes "inner_ok H xs c inner" "next_block c (Suc c) l" "bit (Suc c) l" "l < 32"
  shows "inner_ok H xs (Suc c) (inner[l := CalcHash H xs l (c div 2 ^ l)])"
proof -
  have "inner[l := CalcHash H xs l (c div 2 ^ l)] ! j = CalcHash H xs j (Suc c div 2 ^ j - 1)" if j: "bit (Suc c) j" for j
  proof (cases "j = l")
    case True
    have "Suc c div 2 ^ l = Suc (c div 2 ^ l)" using assms(2) unfolding next_block_def
      by (metis nonzero_mult_div_cancel_right power_not_zero zero_neq_numeral)
    then show ?thesis using True assms(1,4) by (simp add: inner_ok_def)
  next
    case False
    have "l \<le> j"
    proof (rule ccontr)
      assume "\<not> l \<le> j"
      then have "2 ^ Suc j dvd Suc c" using assms(2) unfolding next_block_dvd by (meson Suc_leI dvd_trans le_imp_power_dvd not_le)
      then obtain k where "Suc c = 2 ^ j * (2 * k)" by (elim dvdE) simp
      then have "even (Suc c div 2 ^ j)" by (metis dvd_triv_left nonzero_mult_div_cancel_left power_not_zero zero_neq_numeral)
      then show False using j by (simp add: bit_iff_odd)
    qed
    then have "l < j" using False by simp
    then show ?thesis using next_block_bit(3,4) [OF assms(2,3), of j] j assms(1) by (simp add: inner_ok_def)
  qed
  then show ?thesis using assms(1) by (simp add: inner_ok_def)
qed

lemma leaf_loop_ok:
  assumes "length xs \<le> 2 ^ 31"
  shows "drop c xs = leaves \<Longrightarrow> c \<le> length xs \<Longrightarrow> inner_ok H xs c inner \<Longrightarrow> (mutated \<longleftrightarrow> twins H xs c) \<Longrightarrow>
    (want \<Longrightarrow> progress H xs p c matchlevel branch) \<Longrightarrow>
    \<exists>inner' matchlevel' branch'. leaf_loop H want p c leaves inner matchlevel mutated branch
      = Some (inner', matchlevel', twins H xs (length xs), branch')
    \<and> inner_ok H xs (length xs) inner' \<and> (want \<longrightarrow> progress H xs p (length xs) matchlevel' branch')"
proof (induction leaves arbitrary: c inner matchlevel mutated branch)
  case (Cons x leaves)
  have lt: "c < length xs" using Cons.prems(1) by (metis drop_all list.distinct(1) not_less)
  have x: "x = CalcHash H xs 0 (c div 2 ^ 0)" and rest: "drop (Suc c) xs = leaves"
    using Cons.prems(1) lt by (simp_all add: Cons_nth_drop_Suc [symmetric])
  have nb: "next_block c (Suc c) 0" by (simp add: next_block_def)
  have "Suc c \<le> 2 ^ 31" "c div 2 ^ 0 * 2 ^ 0 < length xs" using lt assms by simp_all
  then obtain l matchh mutated' branch' where l:
    "level_loop H want inner matchlevel (Suc c) 32 0 x (c = p) mutated branch
      = Some (l, CalcHash H xs l (c div 2 ^ l), matchh, mutated', branch')"
    "bit (Suc c) l" "next_block c (Suc c) l" "want \<longrightarrow> branch_ok H xs p c l matchh matchlevel branch'"
    "mutated' \<longleftrightarrow> mutated \<or> (\<exists>j\<in>{0..<l}. CalcHash H xs j (c div 2 ^ j - 1) = CalcHash H xs j (c div 2 ^ j))"
    using level_loop_ok [OF Cons.prems(3) nb, of want p "c = p" matchlevel branch mutated] progress_start [of H xs p c matchlevel branch]
      Cons.prems(5) unfolding x [symmetric] by auto
  have "l < 32" using next_block_level [OF l(3)] \<open>Suc c \<le> 2 ^ 31\<close> by simp
  note i = inner_ok_end [OF Cons.prems(3) l(3,2) this]
  have t: "mutated' \<longleftrightarrow> twins H xs (Suc c)" using l(5) Cons.prems(4) twins_Suc [OF l(3,2), of H xs] by simp
  have p: "want \<Longrightarrow> progress H xs p (Suc c) (if matchh then int l else matchlevel) branch'"
    using progress_end [OF _ l(3,2)] l(4) by blast
  show ?case using Cons.IH [OF rest _ i t p] lt l(1) by simp
qed auto

subsection \<open>The sweep\<close>

text \<open>What the sweep keeps when it arrives at level \<open>l\<close> with the hash of node \<open>i\<close>.\<close>

definition sweep_branch :: "('h \<Rightarrow> 'h \<Rightarrow> 'h) \<Rightarrow> 'h list \<Rightarrow> nat \<Rightarrow> nat \<Rightarrow> nat \<Rightarrow> bool \<Rightarrow> int \<Rightarrow> 'h list \<Rightarrow> bool" where
  "sweep_branch H xs p i l matchh matchlevel branch \<longleftrightarrow> p < length xs
     \<and> (if matchh then p div 2 ^ l = i \<and> branch = map (sibling H xs p) [0..<l]
        else \<exists>m>l. matchlevel = int m \<and> bit (length xs) m \<and> p div 2 ^ m = length xs div 2 ^ m - 1
          \<and> branch = map (sibling H xs p) [0..<m])"

definition sweep_state :: "nat \<Rightarrow> nat \<Rightarrow> nat \<Rightarrow> bool" where
  "sweep_state n i l \<longleftrightarrow> even i \<and> i * 2 ^ l < n \<and> n \<le> (i + 1) * 2 ^ l \<and> (i + 1) * 2 ^ l \<le> 2 ^ 31 \<and> (l = 0 \<or> 2 ^ (l - 1) < n)"

text \<open>One more level with the last hash doubled.\<close>

lemma sweep_double:
  assumes s: "sweep_state n i l" and i: "i \<noteq> 0" and n: "n = length xs" "n \<le> 2 ^ 31"
  shows "next_block n ((i + 1) * 2 ^ l + 2 ^ l) (Suc l)" "(i + 1) * 2 ^ l + 2 ^ l \<le> 2 ^ 31"
    "n div 2 ^ Suc l * 2 ^ Suc l < length xs" "n div 2 ^ Suc l = i div 2"
    "H (CalcHash H xs l i) (CalcHash H xs l i) = CalcHash H xs (Suc l) (n div 2 ^ Suc l)"
proof -
  define q where "q = i div 2"
  have q: "i = 2 * q" using s by (simp add: sweep_state_def q_def)
  have b: "i * 2 ^ l < n" "n \<le> (i + 1) * 2 ^ l" using s by (simp_all add: sweep_state_def)
  have e: "i * 2 ^ l = 2 ^ Suc l * q" "(i + 1) * 2 ^ l + 2 ^ l = 2 ^ Suc l * Suc q" unfolding q by simp_all
  have "(i + 1) * 2 ^ l < (i + 1) * 2 ^ l + 2 ^ l" by simp
  then have d: "n div 2 ^ Suc l = q" using b unfolding e by (intro div_nat_eqI) (simp, linarith)
  then show "n div 2 ^ Suc l = i div 2" by (simp add: q_def)
  show "next_block n ((i + 1) * 2 ^ l + 2 ^ l) (Suc l)" unfolding next_block_def d e by (rule mult.commute)
  show "n div 2 ^ Suc l * 2 ^ Suc l < length xs" using b(1) n(1) unfolding d e by (simp add: mult.commute)
  have "length xs \<le> (2 * q + 1) * 2 ^ l" using b(2) n(1) by (simp add: q)
  from CalcHash_single [OF this, of H]
  show "H (CalcHash H xs l i) (CalcHash H xs l i) = CalcHash H xs (Suc l) (n div 2 ^ Suc l)" unfolding d by (simp add: q)
  have "2 ^ l * 2 \<le> i * 2 ^ l" using i q by simp
  moreover have "(2::nat) ^ Suc l = 2 ^ l * 2" by simp
  ultimately have "(2::nat) ^ Suc l < 2 ^ 31" using b(1) n(2) by linarith
  then have "Suc l < 31" by (rule power_less_imp_less_exp [rotated]) simp
  then have p: "(2::nat) ^ 31 = 2 ^ Suc l * 2 ^ (31 - Suc l)" by (metis le_add_diff_inverse less_imp_le power_add)
  have "2 ^ Suc l * q < 2 ^ Suc l * 2 ^ (31 - Suc l)" using b(1) n(2) unfolding e p by (rule less_le_trans)
  then have "Suc q \<le> 2 ^ (31 - Suc l)" by simp
  then show "(i + 1) * 2 ^ l + 2 ^ l \<le> 2 ^ 31" unfolding e p by (rule mult_le_mono2)
qed

lemma sweep_again:
  assumes s: "sweep_state n i l" "i \<noteq> 0" and c: "c' = (i + 1) * 2 ^ l + 2 ^ l" "c' \<le> 2 ^ 31"
    and nb: "next_block n c' l'" "bit c' l'" "l < l'" "n div 2 ^ l' * 2 ^ l' < n"
  shows "sweep_state n (n div 2 ^ l') l'" "c' = (n div 2 ^ l' + 1) * 2 ^ l'"
proof -
  show c': "c' = (n div 2 ^ l' + 1) * 2 ^ l'" using nb(1) by (simp add: next_block_def)
  have "2 ^ (l' - 1) < n"
  proof (cases "n div 2 ^ l' = 0")
    case True
    then have "c' = 2 ^ l'" using c' by simp
    moreover have two: "2 ^ Suc l * 2 \<le> c'"
    proof -
      have "2 \<le> i" using s by (auto simp: sweep_state_def elim!: evenE)
      then have "2 * 2 ^ l \<le> i * 2 ^ l" by (rule mult_le_mono1)
      then show ?thesis using c(1) by simp
    qed
    moreover have "c' < n + 2 ^ Suc l" using s(1) c(1) by (simp add: sweep_state_def)
    moreover have "(2::nat) ^ Suc l \<le> 2 ^ (l' - 1)"
    proof -
      have "(2::nat) ^ Suc (Suc l) \<le> 2 ^ l'" using two calculation(1) by simp
      then have "Suc (Suc l) \<le> l'" by (rule power_le_imp_le_exp [rotated]) simp
      then show ?thesis by (intro power_increasing) simp_all
    qed
    moreover have "(2::nat) ^ l' = 2 ^ (l' - 1) + 2 ^ (l' - 1)" using nb(3) by (cases l') simp_all
    ultimately show ?thesis by linarith
  next
    case False
    then have "1 * 2 ^ l' \<le> n div 2 ^ l' * 2 ^ l'" by (intro mult_le_mono1) simp
    moreover have "(2::nat) ^ (l' - 1) \<le> 2 ^ l'" by (intro power_increasing) simp_all
    ultimately show ?thesis using nb(4) by linarith
  qed
  then show "sweep_state n (n div 2 ^ l') l'"
    using next_block_bit(1) [OF nb(1,2)] next_block_le [OF nb(1)] nb(4) c(2) c' by (simp add: sweep_state_def)
qed

lemma sweep_loop_ok:
  assumes "inner_ok H xs n inner" "n = length xs" "n \<le> 2 ^ 31"
  shows "sweep_state n i l \<Longrightarrow> 32 - l \<le> fuel \<Longrightarrow> (want \<Longrightarrow> sweep_branch H xs p i l matchh matchlevel branch) \<Longrightarrow>
    \<exists>L branch'. n \<le> 2 ^ L \<and> (L = 0 \<or> 2 ^ (L - 1) < n)
      \<and> sweep_loop H want inner matchlevel fuel ((i + 1) * 2 ^ l) l (CalcHash H xs l i) matchh branch
      = Some (CalcHash H xs L 0, branch') \<and> (want \<longrightarrow> branch' = map (sibling H xs p) [0..<L])"
proof (induction fuel arbitrary: i l matchh branch)
  case 0
  then have "(2::nat) ^ 32 \<le> 2 ^ l" by (intro power_increasing) simp_all
  moreover have "1 * 2 ^ l \<le> (i + 1) * 2 ^ l" by (rule mult_le_mono1) simp
  ultimately show ?case using 0(1) by (simp add: sweep_state_def)
next
  case (Suc fuel)
  show ?case
  proof (cases "i = 0")
    case True
    have m: "matchh" if w: want
    proof (rule ccontr)
      assume "\<not> matchh"
      then obtain m where m: "l < m" "bit (length xs) m" using Suc.prems(3) w by (auto simp: sweep_branch_def)
      then have "(2::nat) ^ m \<le> length xs" by (metis bit_iff_odd div_less even_zero not_le)
      moreover have "(2::nat) ^ l < 2 ^ m" using m(1) by simp
      ultimately have "2 ^ l < length xs" by linarith
      then show False using Suc.prems(1) True assms(2) by (simp add: sweep_state_def)
    qed
    then show ?thesis using True Suc.prems(1,3)
      by (intro exI [of _ l] exI [of _ branch]) (auto simp: sweep_state_def sweep_branch_def)
  next
    case False
    let ?c = "(i + 1) * 2 ^ l + 2 ^ l"
    let ?b = "if want \<and> matchh then branch @ [CalcHash H xs l i] else branch"
    note d = sweep_double [OF Suc.prems(1) False assms(2,3)]
    have ne: "(i + 1) * 2 ^ l \<noteq> 2 ^ l" using False by simp
    have sib: "sibling H xs p l = CalcHash H xs l i" if "p div 2 ^ l = i"
      using Suc.prems(1) that assms(2) by (simp add: sibling_def Let_def sweep_state_def)
    have half: "p div 2 ^ Suc l = p div 2 ^ l div 2" by (simp only: power_Suc2 div_mult2_eq)
    have bo: "branch_ok H xs p n (Suc l) matchh matchlevel ?b" if want
      using Suc.prems(3) [OF that] that sib assms(2) unfolding branch_ok_def sweep_branch_def d(4) half
      by (auto simp: Suc_le_eq)
    have fuel: "32 - Suc l = 31 - l" by simp
    obtain l' matchh' mutated' branch' where r:
      "level_loop H want inner matchlevel ?c (31 - l) (Suc l) (H (CalcHash H xs l i) (CalcHash H xs l i)) matchh False ?b
        = Some (l', CalcHash H xs l' (n div 2 ^ l'), matchh', mutated', branch')"
      "bit ?c l'" "next_block n ?c l'" "Suc l \<le> l'" "n div 2 ^ l' * 2 ^ l' < length xs"
      "want \<longrightarrow> branch_ok H xs p n l' matchh' matchlevel branch'"
      using level_loop_ok [OF assms(1) d(1,2,3), of want p matchh matchlevel ?b False] bo unfolding fuel d(5) by blast
    have again: "sweep_state n (n div 2 ^ l') l'" "?c = (n div 2 ^ l' + 1) * 2 ^ l'"
      using sweep_again [OF Suc.prems(1) False refl d(2) r(3,2)] r(4,5) assms(2) by auto
    have sb: "sweep_branch H xs p (n div 2 ^ l') l' matchh' matchlevel branch'" if want
    proof -
      have "\<not> bit n l'" by (rule next_block_bit(2) [OF r(3,2)])
      then show ?thesis using r(6) Suc.prems(3) that assms(2)
        by (auto simp: branch_ok_def sweep_branch_def le_less)
    qed
    have "32 - l' \<le> fuel" using r(4) Suc.prems(2) by simp
    from Suc.IH [OF again(1) this sb] show ?thesis using ne r(1) unfolding again(2) [symmetric] by simp
  qed
qed

subsection \<open>The whole computation\<close>

lemma lowest_level_ok:
  assumes "0 < n" "n < 2 ^ 32"
  shows "2 ^ l dvd n \<Longrightarrow> \<exists>l'. lowest_level n (32 - l) l = Some l' \<and> bit n l' \<and> 2 ^ l' dvd n"
proof (induction "32 - l" arbitrary: l)
  case 0
  then have "(2::nat) ^ 32 \<le> 2 ^ l" by (intro power_increasing) simp_all
  moreover have "2 ^ l \<le> n" by (rule dvd_imp_le [OF 0(2) assms(1)])
  ultimately show ?case using assms(2) by simp
next
  case (Suc k)
  have fuel: "32 - l = Suc k" "k = 32 - Suc l" using Suc.hyps(2) by simp_all
  show ?case
  proof (cases "bit n l")
    case True
    then show ?thesis using Suc.prems unfolding fuel(1) by simp
  next
    case False
    obtain k' where k': "n = 2 ^ l * k'" using Suc.prems by (elim dvdE)
    have "even k'" using False unfolding k' by (simp add: bit_iff_odd)
    then have "2 ^ Suc l dvd n" unfolding k' by (elim dvdE) simp
    from Suc.hyps(1) [OF fuel(2) this] show ?thesis using False unfolding fuel(1) by (simp add: fuel(2))
  qed
qed

lemma height_loop_ok:
  assumes "n \<le> 2 ^ L" "L = 0 \<or> 2 ^ (L - 1) < n"
  shows "l \<le> L \<Longrightarrow> L < l + fuel \<Longrightarrow> height_loop n fuel l = Some L"
proof (induction fuel arbitrary: l)
  case (Suc fuel)
  have w: "1 < CalcTreeWidth n l \<longleftrightarrow> 2 ^ l < n" using less_width [of 1 n l] by simp
  show ?case
  proof (cases "l = L")
    case True
    then show ?thesis using w assms(1) by simp
  next
    case False
    then have "2 ^ l \<le> (2::nat) ^ (L - 1)" "L \<noteq> 0" using Suc.prems by (auto intro!: power_increasing)
    then have "2 ^ l < n" using assms(2) by linarith
    then show ?thesis using w Suc.IH [of "Suc l"] Suc.prems False by simp
  qed
qed simp

lemma tree_height_ok:
  assumes "n \<le> 2 ^ L" "L = 0 \<or> 2 ^ (L - 1) < n" "n \<le> 2 ^ 31"
  shows "tree_height n = Some L"
proof -
  have "L - 1 < 31" if "L \<noteq> 0"
  proof -
    have "(2::nat) ^ (L - 1) < 2 ^ 31" using assms(2,3) that by simp
    then show ?thesis by (rule power_less_imp_less_exp [rotated]) simp
  qed
  then have "L < 33" by (cases L) auto
  then show ?thesis unfolding tree_height_def by (intro height_loop_ok [OF assms(1,2)]) simp_all
qed

lemma MerkleComputation_ok:
  assumes "xs \<noteq> []" "length xs \<le> 2 ^ 31" "want \<Longrightarrow> p < length xs"
  shows "\<exists>L branch. tree_height (length xs) = Some L
    \<and> MerkleComputation H xs p want = Some (CalcHash H xs L 0, twins H xs (length xs), branch)
    \<and> (want \<longrightarrow> branch = map (sibling H xs p) [0..<L])"
proof -
  let ?n = "length xs"
  have i0: "inner_ok H xs 0 (replicate 32 0)" by (simp add: inner_ok_def)
  have t0: "False \<longleftrightarrow> twins H xs 0" by (simp add: twins_def)
  have p0: "progress H xs p 0 (-1) []" by (simp add: progress_def)
  obtain inner matchlevel branch where l: "leaf_loop H want p 0 xs (replicate 32 0) (-1) False [] = Some (inner, matchlevel, twins H xs ?n, branch)"
    "inner_ok H xs ?n inner" "want \<longrightarrow> progress H xs p ?n matchlevel branch"
    using leaf_loop_ok [OF assms(2) drop_0 _ i0 t0 p0, of want] by auto
  obtain l0 where l0: "lowest_level ?n 32 0 = Some l0" "bit ?n l0" "2 ^ l0 dvd ?n"
    using lowest_level_ok [of ?n 0] assms(1,2) by (auto simp: Suc_le_eq)
  define i where "i = ?n div 2 ^ l0 - 1"
  have o: "odd (?n div 2 ^ l0)" using l0(2) by (simp add: bit_iff_odd)
  have n: "(i + 1) * 2 ^ l0 = ?n" using l0(3) o unfolding i_def by (cases "?n div 2 ^ l0") auto
  have st: "sweep_state ?n i l0"
  proof -
    have "even i" using o unfolding i_def by (cases "?n div 2 ^ l0") auto
    moreover have "i * 2 ^ l0 < (i + 1) * 2 ^ l0" by simp
    moreover have "(2::nat) ^ (l0 - 1) < 2 ^ l0" if "l0 \<noteq> 0" using that by (intro power_strict_increasing) simp_all
    moreover have "1 * 2 ^ l0 \<le> (i + 1) * 2 ^ l0" by (rule mult_le_mono1) simp
    ultimately show ?thesis using assms(2) unfolding sweep_state_def n by fastforce
  qed
  have top: "inner ! l0 = CalcHash H xs l0 i" using l(2) l0(2) by (simp add: inner_ok_def i_def)
  have sb: "sweep_branch H xs p i l0 (matchlevel = int l0) matchlevel branch" if w: want
  proof -
    obtain m where m: "matchlevel = int m" "bit ?n m" "p div 2 ^ m = ?n div 2 ^ m - 1" "branch = map (sibling H xs p) [0..<m]"
      using l(3) assms(3) w by (auto simp: progress_def)
    have "l0 \<le> m"
    proof (rule ccontr)
      assume "\<not> l0 \<le> m"
      then have "2 ^ Suc m dvd ?n" using l0(3) by (meson Suc_leI dvd_trans le_imp_power_dvd not_le)
      then obtain k where "?n = 2 ^ m * (2 * k)" by (elim dvdE) simp
      then have "even (?n div 2 ^ m)" by (metis dvd_triv_left nonzero_mult_div_cancel_left power_not_zero zero_neq_numeral)
      then show False using m(2) by (simp add: bit_iff_odd)
    qed
    then show ?thesis using m assms(3) w by (auto simp: sweep_branch_def i_def)
  qed
  obtain L branch' where r: "?n \<le> 2 ^ L" "L = 0 \<or> 2 ^ (L - 1) < ?n"
    "sweep_loop H want inner matchlevel 32 ?n l0 (CalcHash H xs l0 i) (matchlevel = int l0) branch = Some (CalcHash H xs L 0, branch')"
    "want \<longrightarrow> branch' = map (sibling H xs p) [0..<L]"
    using sweep_loop_ok [OF l(2) refl assms(2) st, of 32 want p "matchlevel = int l0" matchlevel branch] sb unfolding n by auto
  show ?thesis using tree_height_ok [OF r(1,2) assms(2)] assms(1) l(1) l0(1) r(3,4)
    by (simp add: MerkleComputation_def top)
qed

lemma root_from_branch:
  assumes "p < length xs"
  shows "l \<le> L \<Longrightarrow> ComputeMerkleRootFromBranch H (CalcHash H xs l (p div 2 ^ l)) (map (sibling H xs p) [l..<L]) (p div 2 ^ l)
    = CalcHash H xs L (p div 2 ^ L)"
proof (induction "L - l" arbitrary: l)
  case (Suc k)
  define i where "i = p div 2 ^ l"
  have half: "p div 2 ^ Suc l = i div 2" unfolding i_def by (simp only: power_Suc2 div_mult2_eq)
  have lt: "i * 2 ^ l < length xs" using assms div_times_less_eq_dividend [of p "2 ^ l"] unfolding i_def by linarith
  have step: "(if odd i then H (sibling H xs p l) (CalcHash H xs l i) else H (CalcHash H xs l i) (sibling H xs p l))
      = CalcHash H xs (Suc l) (i div 2)"
  proof (cases "odd i")
    case True
    then obtain q where q: "i = 2 * q + 1" by (elim oddE)
    then show ?thesis using CalcHash_pair [of q l xs H] lt by (simp add: sibling_def Let_def i_def [symmetric])
  next
    case False
    then obtain q where q: "i = 2 * q" by auto
    then show ?thesis using CalcHash_pair [of q l xs H] CalcHash_single [of xs q l H]
      by (auto simp: sibling_def Let_def i_def [symmetric] not_less)
  qed
  have list: "[l..<L] = l # [Suc l..<L]" using Suc.hyps(2) by (simp add: upt_rec)
  have "k = L - Suc l" "Suc l \<le> L" using Suc.hyps(2) by simp_all
  from Suc.hyps(1) [OF this] show ?case unfolding list half i_def [symmetric] using step by simp
qed simp

subsection \<open>Commitment\<close>

text \<open>The two hashes that are hashed for the inner node \<open>q\<close> above the level \<open>h\<close>; the last node of a level of odd
  width is hashed with itself.  \<open>node_pairs\<close> are all the pairs hashed in the tree of \<open>xs\<close>.\<close>

definition children :: "('h \<Rightarrow> 'h \<Rightarrow> 'h) \<Rightarrow> 'h list \<Rightarrow> nat \<Rightarrow> nat \<Rightarrow> 'h \<times> 'h" where
  "children H xs h q =
     (CalcHash H xs h (2 * q), CalcHash H xs h (if (2 * q + 1) * 2 ^ h < length xs then 2 * q + 1 else 2 * q))"

definition node_pairs :: "('h \<Rightarrow> 'h \<Rightarrow> 'h) \<Rightarrow> 'h list \<Rightarrow> ('h \<times> 'h) set" where
  "node_pairs H xs = {children H xs h q |h q. 2 ^ h < length xs \<and> 2 * q * 2 ^ h < length xs}"

text \<open>Two different pairs of \<open>P\<close> with the same hash.\<close>

definition collision :: "('h \<Rightarrow> 'h \<Rightarrow> 'h) \<Rightarrow> ('h \<times> 'h) set \<Rightarrow> bool" where
  "collision H P \<longleftrightarrow> (\<exists>p\<in>P. \<exists>p'\<in>P. p \<noteq> p' \<and> H (fst p) (snd p) = H (fst p') (snd p'))"

lemma no_collision: "\<not> collision H P \<Longrightarrow> p \<in> P \<Longrightarrow> p' \<in> P \<Longrightarrow> H (fst p) (snd p) = H (fst p') (snd p') \<Longrightarrow> p = p'"
  unfolding collision_def by blast

lemma children_in: "2 ^ h < length xs \<Longrightarrow> 2 * q * 2 ^ h < length xs \<Longrightarrow> children H xs h q \<in> node_pairs H xs"
  unfolding node_pairs_def by blast

lemma children_both: "(2 * q + 1) * 2 ^ h < length xs \<Longrightarrow> children H xs h q = (CalcHash H xs h (2 * q), CalcHash H xs h (2 * q + 1))"
  by (simp add: children_def)

lemma children_left: "\<not> (2 * q + 1) * 2 ^ h < length xs \<Longrightarrow> children H xs h q = (CalcHash H xs h (2 * q), CalcHash H xs h (2 * q))"
  unfolding children_def by simp

lemma CalcHash_children: "CalcHash H xs (Suc h) q = H (fst (children H xs h q)) (snd (children H xs h q))"
proof (cases "(2 * q + 1) * 2 ^ h < length xs")
  case True
  then show ?thesis using CalcHash_pair [OF True, of H] children_both [OF True, of H] by (simp only: fst_conv snd_conv)
next
  case False
  then show ?thesis using CalcHash_single [of xs q h H] children_left [OF False, of H] by (simp only: fst_conv snd_conv not_less)
qed

lemma fst_children [simp]: "fst (children H xs h q) = CalcHash H xs h (2 * q)"
  by (simp add: children_def)

lemma children_eq:
  assumes "\<not> collision H P" "node_pairs H xs \<subseteq> P" "node_pairs H ys \<subseteq> P"
    and "2 ^ h < length xs" "2 * q * 2 ^ h < length xs" "2 ^ k < length ys" "2 * r * 2 ^ k < length ys"
    and "CalcHash H xs (Suc h) q = CalcHash H ys (Suc k) r"
  shows "children H xs h q = children H ys k r"
  using no_collision [OF assms(1)] children_in [OF assms(4,5)] children_in [OF assms(6,7)] assms(2,3,8)
  unfolding CalcHash_children by blast

lemma incomplete_twins:
  assumes "\<not> collision H P" "node_pairs H xs \<subseteq> P"
  shows "j * 2 ^ l < length xs \<Longrightarrow> length xs < (j + 1) * 2 ^ l \<Longrightarrow> (k + 1) * 2 ^ l \<le> length xs \<Longrightarrow>
    CalcHash H xs l j = CalcHash H xs l k \<Longrightarrow> twins H xs (length xs)"
proof (induction l arbitrary: j k)
  case (Suc l)
  have k: "(2 * k + 2) * 2 ^ l \<le> length xs" using Suc.prems(3) by simp
  then have k1: "(2 * k + 1) * 2 ^ l < length xs" by (rule less_le_trans [rotated]) simp
  then have l: "2 ^ l < length xs" "2 * k * 2 ^ l < length xs" "2 * j * 2 ^ l < length xs" using Suc.prems(1) by simp_all
  note c = children_eq [OF assms assms(2) l(1,3,1,2) Suc.prems(4), unfolded children_both [OF k1]]
  show ?case
  proof (cases "(2 * j + 1) * 2 ^ l < length xs")
    case True
    have "CalcHash H xs l (2 * j + 1) = CalcHash H xs l (2 * k + 1)" using c unfolding children_both [OF True] by blast
    moreover have "length xs < (2 * j + 1 + 1) * 2 ^ l" "(2 * k + 1 + 1) * 2 ^ l \<le> length xs"
      using Suc.prems(2) k by simp_all
    ultimately show ?thesis using Suc.IH True by blast
  next
    case False
    have "CalcHash H xs l (2 * k) = CalcHash H xs l (2 * k + 1)" using c unfolding children_left [OF False] by (metis prod.inject)
    then show ?thesis using k unfolding twins_def by blast
  qed
qed simp

lemma sibling_twins:
  assumes "\<not> collision H P" "node_pairs H xs \<subseteq> P" "(2 * i + 1) * 2 ^ l < length xs" "CalcHash H xs l (2 * i) = CalcHash H xs l (2 * i + 1)"
  shows "twins H xs (length xs)"
proof (cases "(2 * i + 2) * 2 ^ l \<le> length xs")
  case True
  then show ?thesis using assms(4) unfolding twins_def by blast
next
  case False
  then show ?thesis using incomplete_twins [OF assms(1,2), of "2 * i + 1" l "2 * i"] assms(3,4) by simp
qed

lemma leftmost:
  assumes "\<not> collision H P" "node_pairs H xs \<subseteq> P" "node_pairs H ys \<subseteq> P"
  shows "(\<And>i. i < k \<Longrightarrow> 2 ^ (l + i) < length xs \<and> 2 ^ (m + i) < length ys) \<Longrightarrow>
    CalcHash H xs (l + k) 0 = CalcHash H ys (m + k) 0 \<Longrightarrow> CalcHash H xs l 0 = CalcHash H ys m 0"
proof (induction k)
  case (Suc k)
  have w: "2 ^ (l + k) < length xs" "2 ^ (m + k) < length ys" using Suc.prems(1) [of k] by simp_all
  then have z: "2 * 0 * 2 ^ (l + k) < length xs" "2 * 0 * 2 ^ (m + k) < length ys" by auto
  have "children H xs (l + k) 0 = children H ys (m + k) 0"
    using children_eq [OF assms w(1) z(1) w(2) z(2)] Suc.prems(2) by simp
  from arg_cong [OF this, of fst] have "CalcHash H xs (l + k) 0 = CalcHash H ys (m + k) 0" by simp
  then show ?case using Suc.IH Suc.prems(1) less_SucI by blast
qed simp

lemma same_level:
  assumes H: "\<not> collision H P" "node_pairs H xs \<subseteq> P" "node_pairs H ys \<subseteq> P"
    and x: "\<not> twins H xs (length xs)" and y: "\<not> twins H ys (length ys)"
    and l: "2 ^ l < length xs" "2 ^ l < length ys"
    and d: "\<forall>q. q * 2 ^ Suc l < length xs \<longleftrightarrow> q * 2 ^ Suc l < length ys"
    and eq: "\<forall>q. q * 2 ^ Suc l < length xs \<longrightarrow> CalcHash H xs (Suc l) q = CalcHash H ys (Suc l) q"
  shows "(i * 2 ^ l < length xs \<longleftrightarrow> i * 2 ^ l < length ys) \<and> (i * 2 ^ l < length xs \<longrightarrow> CalcHash H xs l i = CalcHash H ys l i)"
proof -
  define q where "q = i div 2"
  have q2: "q * 2 ^ Suc l = 2 * q * 2 ^ l" by simp
  have i: "i = 2 * q \<or> i = 2 * q + 1" unfolding q_def by presburger
  show ?thesis
  proof (cases "2 * q * 2 ^ l < length xs")
    case True
    then have ys: "2 * q * 2 ^ l < length ys" using d unfolding q2 [symmetric] by blast
    have c: "children H xs l q = children H ys l q"
      using children_eq [OF H l(1) True l(2) ys] eq True unfolding q2 [symmetric] by blast
    have "(2 * q + 1) * 2 ^ l < length xs \<longleftrightarrow> (2 * q + 1) * 2 ^ l < length ys"
    proof (rule ccontr)
      assume "\<not> ?thesis"
      then consider "(2 * q + 1) * 2 ^ l < length xs" "\<not> (2 * q + 1) * 2 ^ l < length ys"
        | "\<not> (2 * q + 1) * 2 ^ l < length xs" "(2 * q + 1) * 2 ^ l < length ys" by blast
      then show False
      proof cases
        case 1
        then show False using c x sibling_twins [OF H(1,2) 1(1)] unfolding children_both [OF 1(1)] children_left [OF 1(2)] by (metis prod.inject)
      next
        case 2
        then show False using c y sibling_twins [OF H(1,3) 2(2)] unfolding children_both [OF 2(2)] children_left [OF 2(1)] by (metis prod.inject)
      qed
    qed
    then show ?thesis using i c True ys by (auto simp: children_def)
  next
    case False
    then have ys: "\<not> 2 * q * 2 ^ l < length ys" using d unfolding q2 [symmetric] by blast
    have "2 * q * 2 ^ l \<le> i * 2 ^ l" using i by auto
    then show ?thesis using False ys by linarith
  qed
qed

lemma single_width:
  assumes "length zs \<le> 2 ^ L" "zs \<noteq> []" shows "i * 2 ^ L < length zs \<longleftrightarrow> i = 0"
proof (cases i)
  case (Suc j)
  then have "1 * 2 ^ L \<le> i * 2 ^ L" by (intro mult_le_mono1) simp
  then show ?thesis using Suc assms(1) by simp
qed (use assms in simp)

lemma same_tree:
  assumes H: "\<not> collision H P" "node_pairs H xs \<subseteq> P" "node_pairs H ys \<subseteq> P" "\<not> twins H xs (length xs)" "\<not> twins H ys (length ys)"
    and L: "length xs \<le> 2 ^ L" "length ys \<le> 2 ^ L" "xs \<noteq> []" "ys \<noteq> []" "CalcHash H xs L 0 = CalcHash H ys L 0"
    and w: "\<And>l. l < L \<Longrightarrow> 2 ^ l < length xs \<and> 2 ^ l < length ys"
  shows "xs = ys"
proof -
  have "\<forall>i. (i * 2 ^ l < length xs \<longleftrightarrow> i * 2 ^ l < length ys) \<and> (i * 2 ^ l < length xs \<longrightarrow> CalcHash H xs l i = CalcHash H ys l i)"
    if "l \<le> L" for l
    using that
  proof (induction "L - l" arbitrary: l)
    case 0
    then have l: "l = L" by simp
    show ?case using L(5) single_width [OF L(1,3)] single_width [OF L(2,4)] unfolding l by simp
  next
    case (Suc k)
    have "k = L - Suc l" "Suc l \<le> L" "l < L" using Suc.hyps(2) by simp_all
    from Suc.hyps(1) [OF this(1,2)] w [OF this(3)] show ?case using same_level [OF H, of l] by blast
  qed
  from this [of 0] have "\<forall>i. (i < length xs \<longleftrightarrow> i < length ys) \<and> (i < length xs \<longrightarrow> xs ! i = ys ! i)" by simp
  then show ?thesis by (metis less_irrefl linorder_neqE_nat nth_equalityI)
qed

subsection \<open>Properties\<close>

lemma ComputeMerkleRoot_ok:
  assumes "xs \<noteq> []" "length xs \<le> 2 ^ 31"
  shows "\<exists>L. tree_height (length xs) = Some L \<and> ComputeMerkleRoot H xs = Some (CalcHash H xs L 0, twins H xs (length xs))"
  using MerkleComputation_ok [OF assms, of False "2 ^ 32 - 1" H] by (auto simp: ComputeMerkleRoot_def)

text \<open>The bounds on the height of a tree.\<close>

lemma tree_height_least: "tree_height n = Some L \<Longrightarrow> l < L \<Longrightarrow> 2 ^ l < n"
proof -
  have "height_loop n fuel k = Some L \<Longrightarrow> k \<le> l \<Longrightarrow> l < L \<Longrightarrow> 2 ^ l < n" for fuel k
  proof (induction fuel arbitrary: k)
    case (Suc fuel)
    have "1 < CalcTreeWidth n k \<longleftrightarrow> 2 ^ k < n" using less_width [of 1 n k] by simp
    then show ?case using Suc by (cases "k = l") (auto split: if_splits)
  qed simp
  then show "tree_height n = Some L \<Longrightarrow> l < L \<Longrightarrow> 2 ^ l < n" unfolding tree_height_def by blast
qed

lemma tree_height_le: "tree_height n = Some L \<Longrightarrow> n \<le> 2 ^ L"
proof -
  have "height_loop n fuel l = Some L \<Longrightarrow> n \<le> 2 ^ L" for fuel l
  proof (induction fuel arbitrary: l)
    case (Suc fuel)
    have "1 < CalcTreeWidth n l \<longleftrightarrow> 2 ^ l < n" using less_width [of 1 n l] by simp
    then show ?case using Suc by (auto split: if_splits)
  qed simp
  then show "tree_height n = Some L \<Longrightarrow> n \<le> 2 ^ L" unfolding tree_height_def by blast
qed

text \<open>A hash of numbers in which no two pairs have the same hash, for the examples.\<close>

definition number_hash :: "nat \<Rightarrow> nat \<Rightarrow> nat" where
  "number_hash a b = 2 * prod_encode (a, b) + 1"

lemma number_level:
  "CalcHash number_hash [2, 4, 6] (Suc 0) 0 = number_hash 2 4" "CalcHash number_hash [2, 4, 6] (Suc 0) (Suc 0) = number_hash 6 6"
  using CalcHash_pair [of 0 0 "[2, 4, 6]" number_hash] CalcHash_single [of "[2, 4, 6]" 1 0 number_hash] by simp_all

text \<open>C24: for up to \<open>2 ^ 31\<close> leaves the constant-space computation returns the root that the recursion over
  the levels of the tree defines; for every position it returns a branch of the height of the tree, and
  following that branch from the leaf gives back the root.\<close>

theorem merkle_root_and_branch:
  assumes "xs \<noteq> []" "length xs \<le> 2 ^ 31" "position < length xs"
  shows "\<exists>L mutated branch. tree_height (length xs) = Some L
    \<and> ComputeMerkleRoot H xs = Some (CalcHash H xs L 0, mutated)
    \<and> ComputeMerkleBranch H xs position = Some branch \<and> length branch = L
    \<and> ComputeMerkleRootFromBranch H (xs ! position) branch position = CalcHash H xs L 0"
proof -
  obtain L branch where b: "tree_height (length xs) = Some L" "ComputeMerkleBranch H xs position = Some branch"
    "branch = map (sibling H xs position) [0..<L]"
    using MerkleComputation_ok [OF assms(1,2), of True position H] assms(3) by (auto simp: ComputeMerkleBranch_def)
  have "position < 2 ^ L" using assms(3) tree_height_le [OF b(1)] by linarith
  then have "ComputeMerkleRootFromBranch H (xs ! position) branch position = CalcHash H xs L 0"
    using root_from_branch [OF assms(3), of 0 L H] b(3) by simp
  then show ?thesis using ComputeMerkleRoot_ok [OF assms(1,2), of H] b by auto
qed

lemma merkle_root_and_branch_witness:
  "\<exists>branch. ComputeMerkleBranch number_hash [2, 4, 6] 2 = Some branch
    \<and> ComputeMerkleRootFromBranch number_hash 6 branch 2 = number_hash (number_hash 2 4) (number_hash 6 6)"
proof -
  let ?xs = "[2, 4, 6] :: nat list"
  have h: "tree_height (length ?xs) = Some (Suc (Suc 0))" by (rule tree_height_ok) simp_all
  have "CalcHash number_hash ?xs (Suc (Suc 0)) 0 = number_hash (number_hash 2 4) (number_hash 6 6)"
    using CalcHash_pair [of 0 "Suc 0" ?xs number_hash] number_level by simp
  then show ?thesis using merkle_root_and_branch [of ?xs 2 number_hash] h by auto
qed

text \<open>C11: the root commits to the leaves.  Two different lists of leaves with the same root, neither of them
  flagged as mutated, give a collision: among the pairs that are hashed in the two trees there are two different
  pairs with the same hash, or a pair whose hash is one of the leaves.  Nothing is assumed of \<open>H\<close>.\<close>

theorem merkle_root_commits:
  assumes "xs \<noteq> []" "ys \<noteq> []" "length xs \<le> 2 ^ 31" "length ys \<le> 2 ^ 31"
    and "ComputeMerkleRoot H xs = Some (root, False)" "ComputeMerkleRoot H ys = Some (root, False)"
  shows "xs = ys \<or> collision H (node_pairs H xs \<union> node_pairs H ys)
    \<or> (\<exists>p \<in> node_pairs H xs \<union> node_pairs H ys. H (fst p) (snd p) \<in> set xs \<union> set ys)"
proof (rule ccontr)
  define P where "P = node_pairs H xs \<union> node_pairs H ys"
  assume "\<not> ?thesis"
  then have ne: "xs \<noteq> ys" and P: "\<not> collision H P" and lf: "\<And>p. p \<in> P \<Longrightarrow> H (fst p) (snd p) \<notin> set xs \<union> set ys"
    unfolding P_def by blast+
  have s: "node_pairs H xs \<subseteq> P" "node_pairs H ys \<subseteq> P" unfolding P_def by blast+
  obtain L M where x: "tree_height (length xs) = Some L" "root = CalcHash H xs L 0" "\<not> twins H xs (length xs)"
    and y: "tree_height (length ys) = Some M" "root = CalcHash H ys M 0" "\<not> twins H ys (length ys)"
    using ComputeMerkleRoot_ok [OF assms(1,3), of H] ComputeMerkleRoot_ok [OF assms(2,4), of H] assms(5,6) by auto
  have deeper: "False"
    if d: "CalcHash H us (0 + k) 0 = CalcHash H vs (Suc j + k) 0" "us \<noteq> []" "vs \<noteq> []" "set us \<subseteq> set xs \<union> set ys"
      "node_pairs H us \<subseteq> P" "node_pairs H vs \<subseteq> P" "\<And>i. i < k \<Longrightarrow> 2 ^ i < length us" "\<And>i. i < Suc j + k \<Longrightarrow> 2 ^ i < length vs" for us vs k j
  proof -
    have "2 ^ (0 + i) < length us \<and> 2 ^ (Suc j + i) < length vs" if "i < k" for i using d(7) [of i] d(8) [of "Suc j + i"] that by simp
    then have "us ! 0 = CalcHash H vs (Suc j) 0" using leftmost [OF P d(5,6) _ d(1)] by simp
    moreover have "us ! 0 \<in> set xs \<union> set ys" using d(2,4) nth_mem [of 0 us] by blast
    moreover have "children H vs j 0 \<in> P" using children_in [of j vs 0 H] d(3,6,8) by auto
    ultimately show False using lf unfolding CalcHash_children by metis
  qed
  have "L = M"
  proof (rule ccontr)
    assume "L \<noteq> M"
    then consider j where "M = Suc j + L" | j where "L = Suc j + M" using less_iff_Suc_add by (metis add.commute add_Suc nat_neq_iff)
    then show False
    proof cases
      case 1
      then show False using deeper [of xs L ys j] x y assms(1,2) s tree_height_least [OF x(1)] tree_height_least [OF y(1)] by simp
    next
      case 2
      then show False using deeper [of ys M xs j] x y assms(1,2) s tree_height_least [OF x(1)] tree_height_least [OF y(1)] by simp
    qed
  qed
  then have "xs = ys"
    using same_tree [OF P s x(3) y(3) tree_height_le [OF x(1)] _ assms(1,2)] x y tree_height_le [OF y(1)] tree_height_least by metis
  then show False using ne by blast
qed

lemma pair_root: "ComputeMerkleRoot H [a, b] = Some (H a b, a = b)"
proof -
  have n: "length [a, b] = 2" by simp
  have "(2 * i + 2) * 2 ^ j \<le> 2 \<longleftrightarrow> i = 0 \<and> j = 0" for i j :: nat
  proof (cases j)
    case (Suc k)
    have "2 * 2 \<le> (2 * i + 2) * 2 ^ Suc k" by (intro mult_le_mono) simp_all
    then show ?thesis using Suc by simp
  qed auto
  then have t: "twins H [a, b] 2 \<longleftrightarrow> a = b" by (auto simp: twins_def)
  have h: "tree_height 2 = Some 1" by (rule tree_height_ok) simp_all
  have c: "CalcHash H [a, b] 1 0 = H a b" using CalcHash_pair [of 0 0 "[a, b]" H] by simp
  obtain L where "tree_height 2 = Some L" "ComputeMerkleRoot H [a, b] = Some (CalcHash H [a, b] L 0, twins H [a, b] 2)"
    using ComputeMerkleRoot_ok [of "[a, b]" H] unfolding n by auto
  then show ?thesis using h c t by simp
qed

lemma pair_node: "node_pairs H [a, b] = {(a, b)}"
proof -
  have n: "length [a, b] = 2" by simp
  have h: "(2::nat) ^ h < 2 \<longleftrightarrow> h = 0" for h by (cases h) auto
  have "2 ^ h < (2::nat) \<and> 2 * q * 2 ^ h < (2::nat) \<longleftrightarrow> h = 0 \<and> q = 0" for h q unfolding h by auto
  then have "node_pairs H [a, b] = {children H [a, b] 0 0}" unfolding node_pairs_def n by auto
  then show ?thesis by (simp add: children_def)
qed

text \<open>A hash of 256-bit words with collisions.\<close>

definition word_hash :: "uint256 \<Rightarrow> uint256 \<Rightarrow> uint256" where
  "word_hash a b = 16 * a + b"

lemma merkle_root_commits_witness:
  "ComputeMerkleRoot word_hash [1, 20] = Some (36, False) \<and> ComputeMerkleRoot word_hash [2, 4] = Some (36, False)
    \<and> collision word_hash {(1, 20), (2, 4)}"
proof -
  have r: "ComputeMerkleRoot word_hash [1, 20] = Some (36, False)" "ComputeMerkleRoot word_hash [2, 4] = Some (36, False)"
    by (simp_all add: pair_root word_hash_def)
  have "[1, 20] \<noteq> [2, 4 :: uint256]" "word_hash 1 20 \<notin> {1, 20, 2, 4}" "word_hash 2 4 \<notin> {1, 20, 2, 4}"
    unfolding word_hash_def by simp_all
  moreover have "insert (2, 4) {(1, 20)} = {(1 :: uint256, 20 :: uint256), (2, 4)}" by blast
  ultimately show ?thesis using merkle_root_commits [OF _ _ _ _ r] r unfolding pair_node by simp
qed

end
