(* ===== verification/Block_Check_Props.thy ===== *)
theory Block_Check_Props
  imports Block_Check Version_Bits_Props Merkle_Props Chain_Params
begin

text \<open>
  What the checks of a block accept, the invariant of the block index under new headers, which is what the version
  bits and the retargeting rely on, and the rewards.
\<close>

subsection \<open>The median time of a chain never decreases\<close>

lemma median_le:
  assumes m: "median_of xs m" and m': "median_of (take k (x # xs)) m'" and x: "m < x" and k: "length xs \<le> k"
  shows "m \<le> m'"
proof (rule ccontr)
  assume "\<not> m \<le> m'"
  then have lt: "m' < m" by simp
  define ge where "ge ys = length (filter (\<lambda>y. m \<le> y) ys)" for ys
  have split: "ge ys + length (filter (\<lambda>y. y < m) ys) = length ys" for ys
    unfolding ge_def using sum_length_filter_compl [of "\<lambda>y. m \<le> y" ys] by (simp add: not_le)
  have half: "length xs \<le> 2 * ge xs" using m split [of xs] by (auto simp: median_of_def)
  have "ge ys \<le> length (filter (\<lambda>y. m' < y) ys)" for ys
    unfolding ge_def using lt by (induction ys) auto
  then have less: "2 * ge (take k (x # xs)) < length (take k (x # xs))"
    using m' unfolding median_of_def by (meson le_less_trans mult_le_mono2)
  show False
  proof (cases "length xs < k")
    case True
    then have "take k (x # xs) = x # xs" by simp
    then show False using less half x by (simp add: ge_def)
  next
    case False
    then have n: "length xs = k" using k by simp
    show False
    proof (cases k)
      case 0
      then show False using less by simp
    next
      case (Suc j)
      have "take (Suc j) xs = take j xs @ [xs ! j]" using n Suc by (intro take_Suc_conv_app_nth) simp
      then have e: "xs = take j xs @ [xs ! j]" using n Suc by simp
      have "ge (ys @ [z]) \<le> ge ys + 1" for ys z by (simp add: ge_def)
      from this [of "take j xs" "xs ! j"] have "ge xs \<le> ge (take j xs) + 1" unfolding e [symmetric] .
      then show False using less half x n Suc by (simp add: ge_def)
    qed
  qed
qed

lemma median_time_mono:
  assumes "wf_index b" "pprev b = Some p" "GetMedianTimePast p < uint (bi_nTime (bi b))"
  shows "GetMedianTimePast p \<le> GetMedianTimePast b"
proof -
  define ts where "ts c = rev (map (\<lambda>x. uint (bi_nTime (bi x))) (path c))" for c
  have w: "wf_index p" "path b = path p @ [b]" using wf_pprev [OF assms(1,2)] by auto
  have "ts b = uint (bi_nTime (bi b)) # ts p" by (simp add: ts_def w(2))
  moreover have "take nMedianTimeSpan (x # zs) = take nMedianTimeSpan (x # take nMedianTimeSpan zs)" for x and zs :: "int list"
    by (simp add: nMedianTimeSpan_def take_Cons')
  ultimately have "median_of (take nMedianTimeSpan (uint (bi_nTime (bi b)) # take nMedianTimeSpan (ts p))) (GetMedianTimePast b)"
    using GetMedianTimePast_spec [OF assms(1)] by (simp add: ts_def)
  then show ?thesis using median_le [OF _ _ assms(3)] GetMedianTimePast_spec [OF w(1)] by (simp add: ts_def)
qed

lemma good_chain_extend:
  assumes "wf_index b" "pprev b = Some p" "good_chain p" "GetMedianTimePast p < uint (bi_nTime (bi b))"
  shows "good_chain b"
  unfolding good_chain_def
proof (intro conjI allI impI assms(1))
  fix i j assume ij: "i \<le> j" "j < length (path b)"
  have w: "wf_index p" "path b = path p @ [b]" using wf_pprev [OF assms(1,2)] by auto
  have mono: "GetMedianTimePast (path p ! i) \<le> GetMedianTimePast (path p ! j)" if "i \<le> j" "j < length (path p)" for i j
    using assms(3) that unfolding good_chain_def by blast
  show "GetMedianTimePast (path b ! i) \<le> GetMedianTimePast (path b ! j)"
  proof (cases "j < length (path p)")
    case True
    then show ?thesis using mono [OF ij(1)] ij w(2) by (simp add: nth_append)
  next
    case False
    then have j: "j = length (path p)" using ij(2) w(2) by simp
    show ?thesis
    proof (cases "i < length (path p)")
      case True
      have last: "path p ! (length (path p) - 1) = p" using path_last [OF w(1)] path_length [OF w(1)] by simp
      have "i \<le> length (path p) - 1" "length (path p) - 1 < length (path p)" using True by simp_all
      then have "GetMedianTimePast (path p ! i) \<le> GetMedianTimePast p" using mono last by metis
      then show ?thesis using median_time_mono [OF assms(1,2,4)] True w(2) j by (simp add: nth_append)
    next
      case False
      then show ?thesis using ij(1) j w(2) by (simp add: nth_append)
    qed
  qed
qed

lemma good_chain_genesis: "wf_index b \<Longrightarrow> pprev b = None \<Longrightarrow> good_chain b"
  by (simp add: good_chain_def path_genesis)

subsection \<open>The block index under new headers\<close>

text \<open>Entries are found under their hash together with their predecessors; except for the genesis block they have
  proof of work for the target that retargeting asks for; the best header has the most work.\<close>

definition header_ok :: "block_env \<Rightarrow> BlockMap \<Rightarrow> uint256 \<Rightarrow> CBlockIndex \<Rightarrow> bool" where
  "header_ok env m h b \<longleftrightarrow> bi_hash (bi b) = h \<and> good_chain b \<and> limbs_ok (bi_nChainWork (bi b))
     \<and> (\<forall>p. pprev b = Some p \<longrightarrow> m (bi_hash (bi p)) = Some p)
     \<and> (h \<noteq> hashGenesisBlock (be_P env) \<longrightarrow> pprev b \<noteq> None \<and> CheckProofOfWork h (bi_nBits (bi b)) (be_P env)
          \<and> GetNextWorkRequired (be_horizon env) (pprev b) (be_P env) = Some (bi_nBits (bi b)))"

definition index_inv :: "block_env \<Rightarrow> header_state \<Rightarrow> bool" where
  "index_inv env hs \<longleftrightarrow> (\<forall>h b. fst hs h = Some b \<longrightarrow> header_ok env (fst hs) h b
       \<and> (\<exists>best. snd hs = Some best \<and> limbs_val (bi_nChainWork (bi b)) \<le> limbs_val (bi_nChainWork (bi best))))
     \<and> (\<forall>best. snd hs = Some best \<longrightarrow> fst hs (bi_hash (bi best)) = Some best)"

lemma RaiseValidity_tree: "\<exists>r s. RaiseValidity b BLOCK_VALID_TREE = Some r
    \<and> pprev (fst r) = pprev b \<and> pskip (fst r) = pskip b \<and> bi (fst r) = (bi b)\<lparr> bi_nStatus := s \<rparr>"
proof -
  have "BLOCK_VALID_TREE AND NOT BLOCK_VALID_MASK = 0"
    by (simp add: BLOCK_VALID_TREE_def BLOCK_VALID_MASK_def BLOCK_VALID_HEADER_def BLOCK_VALID_TRANSACTIONS_def BLOCK_VALID_CHAIN_def BLOCK_VALID_SCRIPTS_def)
  then have e: "RaiseValidity b BLOCK_VALID_TREE =
     (if bi_nStatus (bi b) AND BLOCK_FAILED_MASK \<noteq> 0 then Some (b, False)
      else if bi_nStatus (bi b) AND BLOCK_VALID_MASK < BLOCK_VALID_TREE
      then Some (CBlockIndex ((bi b)\<lparr> bi_nStatus := (bi_nStatus (bi b) AND NOT BLOCK_VALID_MASK) OR BLOCK_VALID_TREE \<rparr>) (pprev b) (pskip b), True)
      else Some (b, False))"
    unfolding RaiseValidity_def by (simp only: if_False not_not if_not_P)
  have same: "bi b = (bi b)\<lparr> bi_nStatus := bi_nStatus (bi b) \<rparr>" by simp
  consider "RaiseValidity b BLOCK_VALID_TREE = Some (b, False)"
    | t where "RaiseValidity b BLOCK_VALID_TREE = Some (CBlockIndex ((bi b)\<lparr> bi_nStatus := t \<rparr>) (pprev b) (pskip b), True)"
    using e by meson
  then show ?thesis
  proof cases
    case 1
    then show ?thesis using same by (intro exI [of _ "(b, False)"] exI [of _ "bi_nStatus (bi b)"]) simp
  next
    case (2 t)
    then show ?thesis by (intro exI [of _ "(CBlockIndex ((bi b)\<lparr> bi_nStatus := t \<rparr>) (pprev b) (pskip b), True)"] exI [of _ t]) simp
  qed
qed

text \<open>Being well formed depends on the pointers and the height only.\<close>

lemma wf_index_same:
  assumes "wf_index b" "pprev c = pprev b" "pskip c = pskip b" "height c = height b"
  shows "wf_index c"
proof (cases "pprev b")
  case None
  have "pskip b = None"
  proof (cases "pskip b")
    case (Some s)
    then have "s = b" using assms(1) None by (simp add: wf_index.simps [of b] path_genesis GetSkipHeight_def)
    then show ?thesis using size_pskip [OF Some] by simp
  qed simp
  then show ?thesis using None assms by (simp add: wf_index.simps [of c] wf_index.simps [of b])
next
  case (Some p)
  define k where "k = GetSkipHeight (height b)"
  have wp: "wf_index p" "height b = height p + 1" "path b = path p @ [b]" using wf_pprev [OF assms(1) Some] by simp_all
  have k: "0 \<le> k" "k < height b" using GetSkipHeight_bounds [of "height b"] wp wf_height_nonneg [OF wp(1)] by (auto simp: k_def)
  have "path c = path p @ [c]" by (subst path.simps) (simp add: assms(2) Some)
  moreover have "nat k < length (path p)" using k wp path_length [OF wp(1)] by simp
  ultimately have "path c ! nat k = path b ! nat k" using wp(3) by (simp add: nth_append)
  then show ?thesis using assms Some wp by (simp add: wf_index.simps [of c] wf_index.simps [of b] k_def cong: option.case_cong)
qed

lemma wf_index_root: "pprev b = None \<Longrightarrow> pskip b = None \<Longrightarrow> height b = 0 \<Longrightarrow> wf_index b"
  by (simp add: wf_index.simps [of b])

text \<open>A new entry has the fields of its header and is linked to its predecessor.\<close>

lemma new_entry_ok:
  assumes m: "\<And>p. m (hdr_hashPrevBlock block) = Some p \<Longrightarrow> wf_index p \<and> limbs_ok (bi_nChainWork (bi p))"
  shows "\<exists>b. new_entry env m block = Some b \<and> wf_index b \<and> pprev b = m (hdr_hashPrevBlock block) \<and> bi_hash (bi b) = be_Hb env block
    \<and> bi_nBits (bi b) = hdr_nBits block \<and> bi_nTime (bi b) = hdr_nTime block \<and> limbs_ok (bi_nChainWork (bi b))"
proof -
  let ?d = "(CBlockIndex_of block)\<lparr> bi_nSequenceId := 0, bi_hash := be_Hb env block \<rparr>"
  define linked where "linked = (case m (hdr_hashPrevBlock block) of None \<Rightarrow> Some (CBlockIndex ?d None None)
      | Some p \<Rightarrow> BuildSkip (CBlockIndex (?d\<lparr> bi_nHeight := height p + 1 \<rparr>) (Some p) None))"
  obtain b where b: "linked = Some b" "wf_index b" "pprev b = m (hdr_hashPrevBlock block)" "bi_hash (bi b) = be_Hb env block"
    "bi_nBits (bi b) = hdr_nBits block" "bi_nTime (bi b) = hdr_nTime block"
  proof (cases "m (hdr_hashPrevBlock block)")
    case None
    have "wf_index (CBlockIndex ?d None None)" by (rule wf_index_root) (simp_all add: CBlockIndex_of_def SetNull_index_def)
    then show ?thesis using None that [of "CBlockIndex ?d None None"] by (simp add: linked_def CBlockIndex_of_def)
  next
    case (Some p)
    let ?b = "CBlockIndex (?d\<lparr> bi_nHeight := height p + 1 \<rparr>) (Some p) None"
    obtain b' where "BuildSkip ?b = Some b'" "wf_index b'" "bi b' = bi ?b" "pprev b' = pprev ?b"
      using BuildSkip_wf [of ?b] m [OF Some] by auto
    then show ?thesis using Some that [of b'] by (simp add: linked_def CBlockIndex_of_def)
  qed
  obtain proof' where pr: "GetBlockProof b = Some proof'" "limbs_ok proof'" using GetBlockProof_spec by blast
  define work where "work = arith_add (case pprev b of None \<Rightarrow> arith_zero | Some p \<Rightarrow> bi_nChainWork (bi p)) proof'"
  have work: "limbs_ok work"
    using pr(2) m b(3) by (cases "m (hdr_hashPrevBlock block)") (simp_all add: work_def)
  let ?b = "CBlockIndex ((bi b)\<lparr> bi_nChainWork := work \<rparr>) (pprev b) (pskip b)"
  obtain r s where r: "RaiseValidity ?b BLOCK_VALID_TREE = Some r" "pprev (fst r) = pprev b" "pskip (fst r) = pskip b"
    and s: "bi (fst r) = (bi b)\<lparr> bi_nChainWork := work, bi_nStatus := s \<rparr>"
    using RaiseValidity_tree [of ?b] unfolding CBlockIndex.sel by blast
  have "wf_index (fst r)"
    by (rule wf_index_same [OF b(2) r(2,3)]) (simp add: s)
  moreover have "new_entry env m block = Some (fst r)"
    unfolding new_entry_def Let_def linked_def [symmetric] b(1) option.case pr(1) work_def [symmetric] r(1) by simp
  ultimately show ?thesis using b r(2) s work by (intro exI [of _ "fst r"]) simp
qed

lemma header_ok_mono:
  assumes "header_ok env m h b" "m (be_Hb env block) = None"
  shows "header_ok env (m(be_Hb env block \<mapsto> c)) h b"
  using assms unfolding header_ok_def by fastforce

lemma CompareTo_less: "limbs_ok a \<Longrightarrow> limbs_ok b \<Longrightarrow> CompareTo a b < 0 \<longleftrightarrow> limbs_val a < limbs_val b"
  using CompareTo_ge [of a b] by linarith

lemma AddToBlockIndex_ok:
  assumes inv: "index_inv env (m, best)"
    and new: "m (be_Hb env block) = None \<Longrightarrow>
      (if be_Hb env block = hashGenesisBlock (be_P env) then m (hdr_hashPrevBlock block) = None
       else \<exists>p. m (hdr_hashPrevBlock block) = Some p \<and> GetMedianTimePast p < uint (hdr_nTime block)
         \<and> CheckProofOfWork (be_Hb env block) (hdr_nBits block) (be_P env)
         \<and> GetNextWorkRequired (be_horizon env) (Some p) (be_P env) = Some (hdr_nBits block))"
  shows "\<exists>b hs'. AddToBlockIndex env (m, best) block = Some (b, hs') \<and> index_inv env hs' \<and> fst hs' (be_Hb env block) = Some b"
proof (cases "m (be_Hb env block)")
  case (Some b)
  then show ?thesis using inv by (simp add: AddToBlockIndex_def)
next
  case None
  have ok: "\<And>h b. m h = Some b \<Longrightarrow> header_ok env m h b" using inv by (simp add: index_inv_def)
  then have pre: "\<And>p. m (hdr_hashPrevBlock block) = Some p \<Longrightarrow> wf_index p \<and> limbs_ok (bi_nChainWork (bi p))"
    by (auto simp: header_ok_def good_chain_def)
  obtain b where b: "new_entry env m block = Some b" "wf_index b" "pprev b = m (hdr_hashPrevBlock block)" "bi_hash (bi b) = be_Hb env block"
    "bi_nBits (bi b) = hdr_nBits block" "bi_nTime (bi b) = hdr_nTime block" "limbs_ok (bi_nChainWork (bi b))"
    using new_entry_ok [where m = m and env = env and block = block, OF pre] by blast
  let ?m = "m(be_Hb env block \<mapsto> b)"
  have "good_chain b"
  proof (cases "pprev b")
    case None
    then show ?thesis by (rule good_chain_genesis [OF b(2)])
  next
    case (Some p)
    then have "good_chain p" using ok [of "hdr_hashPrevBlock block" p] b(3) by (simp add: header_ok_def)
    then show ?thesis using good_chain_extend [OF b(2) Some] new [OF None] Some b(3,6) by (simp split: if_splits)
  qed
  moreover have "?m (bi_hash (bi p)) = Some p" if "pprev b = Some p" for p
  proof -
    have "m (hdr_hashPrevBlock block) = Some p" "bi_hash (bi p) = hdr_hashPrevBlock block"
      using that b(3) ok [of "hdr_hashPrevBlock block" p] by (auto simp: header_ok_def)
    then show ?thesis using None by auto
  qed
  ultimately have hb: "header_ok env ?m (be_Hb env block) b"
    using new [OF None] b(3-5,7) by (auto simp: header_ok_def split: if_splits)
  define best' where "best' = (case best of None \<Rightarrow> Some b
      | Some c \<Rightarrow> if CompareTo (bi_nChainWork (bi c)) (bi_nChainWork (bi b)) < 0 then Some b else best)"
  have best: "\<exists>c. best' = Some c \<and> ?m (bi_hash (bi c)) = Some c \<and> limbs_val (bi_nChainWork (bi b)) \<le> limbs_val (bi_nChainWork (bi c))
      \<and> (\<forall>d. best = Some d \<longrightarrow> limbs_val (bi_nChainWork (bi d)) \<le> limbs_val (bi_nChainWork (bi c)))"
  proof (cases best)
    case None
    then show ?thesis using b(4) by (simp add: best'_def)
  next
    case (Some c)
    then have c: "m (bi_hash (bi c)) = Some c" using inv by (simp add: index_inv_def)
    then have "limbs_ok (bi_nChainWork (bi c))" using ok by (simp add: header_ok_def)
    then show ?thesis using Some c None b(4,7) CompareTo_less by (auto simp: best'_def)
  qed
  have "index_inv env (?m, best')"
    unfolding index_inv_def
  proof (intro conjI allI impI)
    fix h c assume hc: "fst (?m, best') h = Some c"
    show "header_ok env (fst (?m, best')) h c"
      using hc hb header_ok_mono [OF ok None, of h c b] by (auto split: if_splits)
    have "\<exists>d. best = Some d \<and> limbs_val (bi_nChainWork (bi c)) \<le> limbs_val (bi_nChainWork (bi d))" if "m h = Some c"
      using inv that by (simp add: index_inv_def)
    then show "\<exists>d. snd (?m, best') = Some d \<and> limbs_val (bi_nChainWork (bi c)) \<le> limbs_val (bi_nChainWork (bi d))"
      using best hc by (fastforce split: if_splits)
  next
    fix c assume "snd (?m, best') = Some c"
    then show "fst (?m, best') (bi_hash (bi c)) = Some c" using best by auto
  qed
  moreover have "AddToBlockIndex env (m, best) block = Some (b, ?m, best')"
    using None b(1) unfolding AddToBlockIndex_def best'_def by (simp split: option.split)
  ultimately show ?thesis by simp
qed

subsection \<open>What a header has to satisfy\<close>

text \<open>From the first hard fork on the window for the time of a header is tighter, and it may not lie more than a
  quarter of an hour before its predecessor.\<close>

definition time_ok :: "block_env \<Rightarrow> CBlockHeader \<Rightarrow> CBlockIndex \<Rightarrow> bool" where
  "time_ok env h p \<longleftrightarrow> GetMedianTimePast p < hdr_GetBlockTime h
     \<and> hdr_GetBlockTime h \<le> be_adjusted env + 60 * (if nHardForkOne (be_P env) \<le> height p + 1 then 15 else 120)
     \<and> (nHardForkOne (be_P env) \<le> height p + 1 \<longrightarrow> block_time p - 60 * 15 < hdr_GetBlockTime h)"

definition below_checkpoint :: "block_env \<Rightarrow> BlockMap \<Rightarrow> MapCheckpoints \<Rightarrow> CBlockIndex \<Rightarrow> bool" where
  "below_checkpoint env m checkpoints p \<longleftrightarrow> bi_hash (bi p) \<noteq> hashGenesisBlock (be_P env)
     \<and> (\<exists>c. GetLastCheckpoint m checkpoints = Some c \<and> height p + 1 < height c)"

lemma ContextualCheckBlockHeader_verdict:
  assumes "be_Hb env h \<noteq> hashGenesisBlock (be_P env)" "GetNextWorkRequired (be_horizon env) (Some p) (be_P env) = Some c"
  shows "\<exists>r. ContextualCheckBlockHeader env h st p =
    Some (if hdr_nBits h \<noteq> c then reject st 100 ''bad-diffbits'' else if time_ok env h p then (True, st)
          else (False, Invalid st REJECT_INVALID r []))"
proof -
  let ?late = "nHardForkOne (be_P env) \<le> height p + 1" and ?t = "hdr_GetBlockTime h"
  have new: "(?late \<and> ?t > be_adjusted env + 15 * 60 \<or> ?t > be_adjusted env + 2 * 60 * 60)
      \<longleftrightarrow> \<not> ?t \<le> be_adjusted env + 60 * (if ?late then 15 else 120)" by auto
  consider "hdr_nBits h \<noteq> c" | "hdr_nBits h = c" "?t \<le> GetMedianTimePast p"
    | "hdr_nBits h = c" "GetMedianTimePast p < ?t" "\<not> ?t \<le> be_adjusted env + 60 * (if ?late then 15 else 120)"
    | "hdr_nBits h = c" "GetMedianTimePast p < ?t" "?t \<le> be_adjusted env + 60 * (if ?late then 15 else 120)"
    by linarith
  then show ?thesis
  proof cases
    case 1
    then show ?thesis using assms by (simp add: ContextualCheckBlockHeader_def Let_def)
  next
    case 2
    then show ?thesis using assms by (simp add: ContextualCheckBlockHeader_def Let_def time_ok_def) blast
  next
    case 3
    then show ?thesis using assms unfolding ContextualCheckBlockHeader_def Let_def new time_ok_def by simp blast
  next
    case 4
    then show ?thesis using assms unfolding ContextualCheckBlockHeader_def Let_def new time_ok_def by auto
  qed
qed

lemma CheckIndexAgainstCheckpoint_verdict:
  "CheckIndexAgainstCheckpoint env m checkpoints p st =
     (if below_checkpoint env m checkpoints p then (False, DoS st 100 0 [] False []) else (True, st))"
  by (auto simp: CheckIndexAgainstCheckpoint_def below_checkpoint_def split: option.split)

text \<open>The verdict on a new header and the ban score that it costs.\<close>

definition header_verdict :: "block_env \<Rightarrow> bool \<Rightarrow> MapCheckpoints \<Rightarrow> BlockMap \<Rightarrow> CBlockHeader \<Rightarrow> bool \<times> int" where
  "header_verdict env cpe checkpoints m h =
     (if \<not> CheckProofOfWork (be_Hb env h) (hdr_nBits h) (be_P env) then (False, 50)
      else case m (hdr_hashPrevBlock h) of None \<Rightarrow> (False, 10)
      | Some p \<Rightarrow>
          if index_failed p \<or> cpe \<and> below_checkpoint env m checkpoints p
             \<or> GetNextWorkRequired (be_horizon env) (Some p) (be_P env) \<noteq> Some (hdr_nBits h) then (False, 100)
          else (time_ok env h p, 0))"

lemma check_new_header_verdict:
  assumes "be_Hb env h \<noteq> hashGenesisBlock (be_P env)" "vs_mode st = MODE_VALID"
    and "\<And>p. m (hdr_hashPrevBlock h) = Some p \<Longrightarrow> \<exists>c. GetNextWorkRequired (be_horizon env) (Some p) (be_P env) = Some c"
  shows "\<exists>ok st'. check_new_header env cpe checkpoints m h st = Some (ok, st') \<and> ok = fst (header_verdict env cpe checkpoints m h)
    \<and> (if ok then st' = st
       else IsInvalid st' \<and> vs_nDoS st' = vs_nDoS st + snd (header_verdict env cpe checkpoints m h))"
proof (cases "CheckProofOfWork (be_Hb env h) (hdr_nBits h) (be_P env)")
  case False
  then show ?thesis using assms(2)
    by (auto simp: check_new_header_def CheckBlockHeader_def header_verdict_def reject_def DoS_def IsInvalid_def)
next
  case pow: True
  note [simp] = check_new_header_def CheckBlockHeader_def header_verdict_def DoS_def IsInvalid_def reject_def
    CheckIndexAgainstCheckpoint_verdict
  show ?thesis
  proof (cases "m (hdr_hashPrevBlock h)")
    case None
    then show ?thesis using pow assms(2) by auto
  next
    case (Some p)
    obtain c where c: "GetNextWorkRequired (be_horizon env) (Some p) (be_P env) = Some c" using assms(3) [OF Some] by blast
    show ?thesis
    proof (cases "index_failed p \<or> cpe \<and> below_checkpoint env m checkpoints p")
      case True
      then show ?thesis using pow Some assms(2) by auto
    next
      case False
      obtain r where "ContextualCheckBlockHeader env h st p = Some (if hdr_nBits h \<noteq> c then reject st 100 ''bad-diffbits''
          else if time_ok env h p then (True, st) else (False, Invalid st REJECT_INVALID r []))"
        using ContextualCheckBlockHeader_verdict [OF assms(1) c] by blast
      then show ?thesis using False pow Some c assms(2) by (auto simp: Invalid_def)
    qed
  qed
qed

text \<open>C25: A header that is not in the index is accepted exactly when its proof of work holds, its predecessor is
  known and not marked as failed, the checkpoints allow the height, its target is the one that retargeting asks for
  and its time lies in the window.  What only the clock decides costs no ban score, the other faults do; a rejected
  header changes neither the index nor the best header, and an accepted one is added.\<close>

theorem AcceptBlockHeader_verdict:
  assumes inv: "index_inv env (m, best)" and small: "\<And>k b. m k = Some b \<Longrightarrow> height b < 2 ^ 31 - 1"
    and bt: "0 < nPowTargetSpacing (be_P env)" "nPowTargetSpacing (be_P env) < 2 ^ 32"
    and new: "m (be_Hb env h) = None" "be_Hb env h \<noteq> hashGenesisBlock (be_P env)" and st: "vs_mode st = MODE_VALID"
  shows "\<exists>ok st' pindex hs'. AcceptBlockHeader env cpe checkpoints (m, best) h st = Some ((ok, st'), pindex, hs')
    \<and> ok = fst (header_verdict env cpe checkpoints m h)
    \<and> (if ok then st' = st \<and> pindex \<noteq> None \<and> fst hs' = m(be_Hb env h := pindex)
       else pindex = None \<and> hs' = (m, best) \<and> IsInvalid st'
         \<and> vs_nDoS st' = vs_nDoS st + snd (header_verdict env cpe checkpoints m h))"
proof -
  have ok: "\<And>k b. m k = Some b \<Longrightarrow> wf_index b \<and> limbs_ok (bi_nChainWork (bi b))"
    using inv by (auto simp: index_inv_def header_ok_def good_chain_def)
  have "\<exists>c. GetNextWorkRequired (be_horizon env) (Some p) (be_P env) = Some c" if p: "m (hdr_hashPrevBlock h) = Some p" for p
    using GetNextWorkRequired_spec [of "Some p" "be_P env" "be_horizon env"] ok [OF p] small [OF p] bt by force
  then obtain ok' st' where r: "check_new_header env cpe checkpoints m h st = Some (ok', st')"
      "ok' = fst (header_verdict env cpe checkpoints m h)"
      "if ok' then st' = st else IsInvalid st' \<and> vs_nDoS st' = vs_nDoS st + snd (header_verdict env cpe checkpoints m h)"
    using check_new_header_verdict [OF new(2) st] by blast
  obtain b where b: "new_entry env m h = Some b" using new_entry_ok [of m h env] ok by blast
  show ?thesis
  proof (cases ok')
    case True
    then show ?thesis using r new b by (auto simp: AcceptBlockHeader_def AddToBlockIndex_def)
  next
    case False
    then show ?thesis using r new by (auto simp: AcceptBlockHeader_def)
  qed
qed

lemma index_inv_empty: "index_inv env (Map.empty, None)"
  by (simp add: index_inv_def)

definition sample_env :: block_env where
  "sample_env = \<lparr> be_Hs = (\<lambda>bs. 0), be_Hb = (\<lambda>h. 7), be_P = sample_params, be_time = 0, be_adjusted = 0, be_spork3 = False,
     be_locked = (\<lambda>p. None), be_horizon = (\<lambda>a b c. False) \<rparr>"

theorem AcceptBlockHeader_verdict_witness:
  "\<exists>st'. AcceptBlockHeader (sample_env\<lparr> be_Hb := (\<lambda>h. 8) \<rparr>) True [] (Map.empty, None) CBlockHeader_null CValidationState_init
     = Some ((False, st'), None, (Map.empty, None)) \<and> IsInvalid st'"
proof -
  let ?env = "sample_env\<lparr> be_Hb := (\<lambda>h. 8) \<rparr>"
  have "\<exists>ok st' pindex hs'. AcceptBlockHeader ?env True [] (Map.empty, None) CBlockHeader_null CValidationState_init
        = Some ((ok, st'), pindex, hs')
    \<and> ok = fst (header_verdict ?env True [] Map.empty CBlockHeader_null)
    \<and> (if ok then st' = CValidationState_init \<and> pindex \<noteq> None \<and> fst hs' = Map.empty(be_Hb ?env CBlockHeader_null := pindex)
       else pindex = None \<and> hs' = (Map.empty, None) \<and> IsInvalid st'
         \<and> vs_nDoS st' = vs_nDoS CValidationState_init + snd (header_verdict ?env True [] Map.empty CBlockHeader_null))"
    by (rule AcceptBlockHeader_verdict) (simp_all add: index_inv_empty sample_env_def sample_params_def CValidationState_init_def)
  moreover have "\<not> fst (header_verdict ?env True [] Map.empty CBlockHeader_null)" by (simp add: header_verdict_def)
  ultimately show ?thesis by auto
qed

text \<open>C15: Every header that \<open>AcceptBlockHeader\<close> is given leaves the block index in order: each entry is found under
  its hash, its predecessor is in the index, its skip pointer is right, median times do not decrease along its chain,
  it has proof of work for the target of retargeting, and the best header has the most work.  No assertion fails.\<close>

theorem AcceptBlockHeader_keeps_index:
  assumes inv: "index_inv env (m, best)" and small: "\<And>k b. m k = Some b \<Longrightarrow> height b < 2 ^ 31 - 1"
    and bt: "0 < nPowTargetSpacing (be_P env)" "nPowTargetSpacing (be_P env) < 2 ^ 32"
    and genesis: "be_Hb env h = hashGenesisBlock (be_P env) \<Longrightarrow> m (hdr_hashPrevBlock h) = None" and st: "vs_mode st = MODE_VALID"
  shows "\<exists>ok st' pindex hs'. AcceptBlockHeader env cpe checkpoints (m, best) h st = Some ((ok, st'), pindex, hs') \<and> index_inv env hs'
    \<and> (ok \<longrightarrow> pindex \<noteq> None \<and> fst hs' (be_Hb env h) = pindex)"
proof (cases "be_Hb env h = hashGenesisBlock (be_P env)")
  case True
  then obtain b hs' where "AddToBlockIndex env (m, best) h = Some (b, hs')" "index_inv env hs'" "fst hs' (be_Hb env h) = Some b"
    using AddToBlockIndex_ok [OF inv, of h] genesis by auto
  then show ?thesis using True by (auto simp: AcceptBlockHeader_def)
next
  case False
  note ng = this
  show ?thesis
  proof (cases "m (be_Hb env h)")
    case (Some b)
    then show ?thesis using ng inv by (auto simp: AcceptBlockHeader_def)
  next
    case None
    have wf: "\<And>k b. m k = Some b \<Longrightarrow> wf_index b" using inv by (auto simp: index_inv_def header_ok_def good_chain_def)
    have "\<exists>c. GetNextWorkRequired (be_horizon env) (Some p) (be_P env) = Some c" if p: "m (hdr_hashPrevBlock h) = Some p" for p
      using GetNextWorkRequired_spec [of "Some p" "be_P env" "be_horizon env"] wf [OF p] small [OF p] bt by force
    then obtain ok st' where r: "check_new_header env cpe checkpoints m h st = Some (ok, st')" "ok = fst (header_verdict env cpe checkpoints m h)"
      using check_new_header_verdict [OF ng st] by blast
    show ?thesis
    proof (cases ok)
      case True
      then obtain p where p: "m (hdr_hashPrevBlock h) = Some p" "GetMedianTimePast p < uint (hdr_nTime h)"
        "CheckProofOfWork (be_Hb env h) (hdr_nBits h) (be_P env)"
        "GetNextWorkRequired (be_horizon env) (Some p) (be_P env) = Some (hdr_nBits h)"
        using r(2) by (auto simp: header_verdict_def time_ok_def hdr_GetBlockTime_def split: if_splits option.splits)
      then obtain b hs' where "AddToBlockIndex env (m, best) h = Some (b, hs')" "index_inv env hs'" "fst hs' (be_Hb env h) = Some b"
        using AddToBlockIndex_ok [OF inv, of h] ng by auto
      then show ?thesis using True r(1) ng None by (auto simp: AcceptBlockHeader_def)
    next
      case False
      then show ?thesis using r(1) ng None inv by (auto simp: AcceptBlockHeader_def)
    qed
  qed
qed

theorem AcceptBlockHeader_keeps_index_witness:
  "\<exists>b hs'. AcceptBlockHeader sample_env True [] (Map.empty, None) CBlockHeader_null CValidationState_init
      = Some ((True, CValidationState_init), Some b, hs') \<and> index_inv sample_env hs'"
proof -
  have "be_Hb sample_env CBlockHeader_null = hashGenesisBlock (be_P sample_env)" by (simp add: sample_env_def sample_params_def)
  moreover have "\<exists>ok st' pindex hs'. AcceptBlockHeader sample_env True [] (Map.empty, None) CBlockHeader_null CValidationState_init
      = Some ((ok, st'), pindex, hs') \<and> index_inv sample_env hs' \<and> (ok \<longrightarrow> pindex \<noteq> None \<and> fst hs' (be_Hb sample_env CBlockHeader_null) = pindex)"
    by (rule AcceptBlockHeader_keeps_index) (simp_all add: index_inv_empty sample_env_def sample_params_def CValidationState_init_def)
  ultimately show ?thesis by (auto simp: AcceptBlockHeader_def)
qed

subsection \<open>What a block has to satisfy\<close>

definition block_shape :: "CBlock \<Rightarrow> bool" where
  "block_shape block \<longleftrightarrow> blk_vtx block \<noteq> [] \<and> length (blk_vtx block) \<le> MAX_BLOCK_SIZE \<and> block_size block \<le> MAX_BLOCK_SIZE
     \<and> (\<forall>i < length (blk_vtx block). IsCoinBase (blk_vtx block ! i) \<longleftrightarrow> i = 0)"

lemma check_shape_None: "check_shape block = None \<longleftrightarrow> block_shape block"
proof (cases "blk_vtx block")
  case Nil
  then show ?thesis by (simp add: check_shape_def block_shape_def)
next
  case (Cons tx vtx)
  have "(\<forall>i < length (tx # vtx). IsCoinBase ((tx # vtx) ! i) \<longleftrightarrow> i = 0) \<longleftrightarrow> IsCoinBase tx \<and> (\<forall>t\<in>set vtx. \<not> IsCoinBase t)"
    by (auto simp: all_set_conv_all_nth less_Suc_eq_0_disj)
  then show ?thesis using Cons by (auto simp: check_shape_def block_shape_def list_ex_iff)
qed

text \<open>No transaction but the coinbase spends an outpoint that another transaction has locked.\<close>

definition respects_locks :: "block_env \<Rightarrow> CBlock \<Rightarrow> bool" where
  "respects_locks env block \<longleftrightarrow> (\<forall>tx\<in>set (blk_vtx block). \<not> IsCoinBase tx \<longrightarrow>
     (\<forall>i\<in>set (tx_vin tx). be_locked env (txin_prevout i) \<in> {None, Some (tx_GetHash (be_Hs env) tx)}))"

lemma conflict_inputs_None:
  "conflict_inputs env txid vin = None \<longleftrightarrow> (\<forall>i\<in>set vin. be_locked env (txin_prevout i) \<in> {None, Some txid})"
  by (induction vin) (auto split: option.split)

lemma conflict_txs_None:
  "conflict_txs env (blk_vtx block) = None \<longleftrightarrow> respects_locks env block"
proof -
  have "conflict_txs env vtx = None \<longleftrightarrow> (\<forall>tx\<in>set vtx. \<not> IsCoinBase tx \<longrightarrow>
     (\<forall>i\<in>set (tx_vin tx). be_locked env (txin_prevout i) \<in> {None, Some (tx_GetHash (be_Hs env) tx)}))" for vtx
  proof (induction vtx)
    case (Cons tx vtx)
    define free where "free \<longleftrightarrow> (\<forall>i\<in>set (tx_vin tx). be_locked env (txin_prevout i) \<in> {None, Some (tx_GetHash (be_Hs env) tx)})"
    have "conflict_inputs env (tx_GetHash (be_Hs env) tx) (tx_vin tx) = None \<longleftrightarrow> free"
      unfolding free_def by (rule conflict_inputs_None)
    then have "conflict_txs env (tx # vtx) = None \<longleftrightarrow> (\<not> IsCoinBase tx \<longrightarrow> free) \<and> conflict_txs env vtx = None"
      by (cases "conflict_inputs env (tx_GetHash (be_Hs env) tx) (tx_vin tx)") auto
    then show ?case unfolding free_def using Cons.IH by simp
  qed simp
  then show ?thesis by (simp add: respects_locks_def)
qed

lemma check_txs_cases:
  assumes "vs_mode st = MODE_VALID"
  shows "check_txs vtx st = (True, st) \<and> (\<forall>tx\<in>set vtx. well_formed_tx tx)
    \<or> (\<exists>st'. check_txs vtx st = (False, st') \<and> IsInvalid st' \<and> \<not> vs_corruptionPossible st' \<and> \<not> (\<forall>tx\<in>set vtx. well_formed_tx tx))"
proof (induction vtx)
  case (Cons tx vtx)
  then show ?case using CheckTransaction_cases [of tx st] assms by (auto simp: DoS_def Let_def IsInvalid_def reject_def)
qed simp

text \<open>The conditions on a block without context; its Merkle root is that of its transactions, and no list of
  transactions with a repetition has the same root.\<close>

definition block_ok :: "block_env \<Rightarrow> bool \<Rightarrow> bool \<Rightarrow> CBlock \<Rightarrow> bool" where
  "block_ok env fCheckPOW fCheckMerkleRoot block \<longleftrightarrow>
     (fCheckPOW \<longrightarrow> CheckProofOfWork (be_Hb env (blk_header block)) (hdr_nBits (blk_header block)) (be_P env))
     \<and> (fCheckMerkleRoot \<longrightarrow> BlockMerkleRoot (be_Hs env) block = Some (hdr_hashMerkleRoot (blk_header block), False))
     \<and> block_shape block \<and> (be_spork3 env \<longrightarrow> respects_locks env block) \<and> (\<forall>tx\<in>set (blk_vtx block). well_formed_tx tx)
     \<and> sum_list (map GetLegacySigOpCount (blk_vtx block)) \<le> MAX_BLOCK_SIGOPS"

lemma BlockMerkleRoot_Some:
  assumes "length (blk_vtx block) \<le> 2 ^ 31"
  shows "\<exists>root mutated. BlockMerkleRoot Hs block = Some (root, mutated)"
proof (cases "blk_vtx block")
  case Nil
  then show ?thesis by (auto simp: BlockMerkleRoot_def ComputeMerkleRoot_def MerkleComputation_def)
next
  case Cons
  then show ?thesis
    using ComputeMerkleRoot_ok [of "map (tx_GetHash Hs) (blk_vtx block)" "hash_pair Hs"] assms by (auto simp: BlockMerkleRoot_def)
qed

lemma check_merkle_cases:
  assumes "BlockMerkleRoot (be_Hs env) block = Some (root, mutated)" "vs_mode st = MODE_VALID"
  shows "if (root, mutated) = (hdr_hashMerkleRoot (blk_header block), False) then check_merkle env block st = Some None
    else \<exists>st'. check_merkle env block st = Some (Some (False, st')) \<and> IsInvalid st' \<and> vs_corruptionPossible st'"
  using assms by (auto simp: check_merkle_def reject_corrupt_def DoS_def IsInvalid_def)

lemma check_locks_cases:
  assumes "vs_mode st = MODE_VALID"
  shows "if be_spork3 env \<longrightarrow> respects_locks env block then check_locks env block st bs = None
    else \<exists>st' bs'. check_locks env block st bs = Some ((False, st'), bs') \<and> IsInvalid st' \<and> \<not> vs_corruptionPossible st'
      \<and> bk_fChecked bs' = bk_fChecked bs"
proof (cases "if be_spork3 env then conflict_txs env (blk_vtx block) else None")
  case None
  then have "be_spork3 env \<longrightarrow> respects_locks env block" using conflict_txs_None by (auto split: if_splits)
  then show ?thesis using None by (simp add: check_locks_def)
next
  case (Some k)
  then have "be_spork3 env \<and> \<not> respects_locks env block" using conflict_txs_None [of env block] by (auto split: if_splits)
  then show ?thesis using Some assms by (auto simp: check_locks_def reject_def DoS_def IsInvalid_def Let_def)
qed

lemma check_content_cases:
  assumes "vs_mode st = MODE_VALID"
  shows "if (\<forall>tx\<in>set (blk_vtx block). well_formed_tx tx) \<and> sum_list (map GetLegacySigOpCount (blk_vtx block)) \<le> MAX_BLOCK_SIGOPS
    then check_content block st = (True, st)
    else \<exists>st'. check_content block st = (False, st') \<and> IsInvalid st' \<and> \<not> vs_corruptionPossible st'"
  using check_txs_cases [OF assms, of "blk_vtx block"] assms
  by (auto simp: check_content_def reject_def DoS_def IsInvalid_def)

text \<open>C17: \<open>CheckBlock\<close> accepts exactly the blocks with proof of work, the Merkle root of an unrepeated list of
  transactions, one coinbase in front, the size and signature-operation limits, no conflict with a transaction lock
  and well-formed transactions; a rejection marks the state as invalid, and as possibly corrupted exactly when the
  transactions do not belong to a header with proof of work, so that the header is not blamed; only a fully checked
  block is remembered as checked.\<close>

theorem CheckBlock_correct:
  assumes "length (blk_vtx block) \<le> 2 ^ 31" and st: "vs_mode st = MODE_VALID" and "\<not> bk_fChecked bs"
  shows "\<exists>ok st' bs'. CheckBlock env block st fCheckPOW fCheckMerkleRoot bs = Some ((ok, st'), bs')
    \<and> ok = block_ok env fCheckPOW fCheckMerkleRoot block \<and> bk_fChecked bs' = (ok \<and> fCheckPOW \<and> fCheckMerkleRoot)
    \<and> (if ok then st' = st
       else IsInvalid st' \<and> (vs_corruptionPossible st' \<longleftrightarrow> fCheckMerkleRoot
          \<and> (fCheckPOW \<longrightarrow> CheckProofOfWork (be_Hb env (blk_header block)) (hdr_nBits (blk_header block)) (be_P env))
          \<and> BlockMerkleRoot (be_Hs env) block \<noteq> Some (hdr_hashMerkleRoot (blk_header block), False)))"
proof -
  define pow where "pow \<longleftrightarrow> (fCheckPOW \<longrightarrow> CheckProofOfWork (be_Hb env (blk_header block)) (hdr_nBits (blk_header block)) (be_P env))"
  define mroot where "mroot \<longleftrightarrow> (fCheckMerkleRoot \<longrightarrow> BlockMerkleRoot (be_Hs env) block = Some (hdr_hashMerkleRoot (blk_header block), False))"
  define locks where "locks \<longleftrightarrow> (be_spork3 env \<longrightarrow> respects_locks env block)"
  define content where "content \<longleftrightarrow> (\<forall>tx\<in>set (blk_vtx block). well_formed_tx tx)
    \<and> sum_list (map GetLegacySigOpCount (blk_vtx block)) \<le> MAX_BLOCK_SIGOPS"
  define cm where "cm = (if fCheckMerkleRoot then check_merkle env block st else Some None)"
  let ?CB = "CheckBlock env block st fCheckPOW fCheckMerkleRoot bs"
  have ok: "block_ok env fCheckPOW fCheckMerkleRoot block \<longleftrightarrow> pow \<and> mroot \<and> block_shape block \<and> locks \<and> content"
    by (simp add: block_ok_def pow_def mroot_def locks_def content_def)
  have mr: "(fCheckMerkleRoot \<and> pow \<and> BlockMerkleRoot (be_Hs env) block \<noteq> Some (hdr_hashMerkleRoot (blk_header block), False)) \<longleftrightarrow> pow \<and> \<not> mroot"
    by (auto simp: mroot_def)
  have hdr: "CheckBlockHeader env (blk_header block) st fCheckPOW = (if pow then (True, st) else reject st 50 ''high-hash'')"
    by (simp add: CheckBlockHeader_def pow_def)
  obtain root mutated where rm: "BlockMerkleRoot (be_Hs env) block = Some (root, mutated)"
    using BlockMerkleRoot_Some [OF assms(1)] by blast
  have cm: "if mroot then cm = Some None
      else \<exists>st'. cm = Some (Some (False, st')) \<and> IsInvalid st' \<and> vs_corruptionPossible st'"
    using check_merkle_cases [OF rm st] rm by (auto simp: cm_def mroot_def split: if_splits)
  have rej: "IsInvalid (snd (reject st l r)) \<and> \<not> vs_corruptionPossible (snd (reject st l r)) \<and> \<not> fst (reject st l r)" for l r
    using st by (simp add: reject_def DoS_def IsInvalid_def)
  have "\<exists>st' bs'. ?CB = Some ((pow \<and> mroot \<and> block_shape block \<and> locks \<and> content, st'), bs')
      \<and> bk_fChecked bs' = (pow \<and> mroot \<and> block_shape block \<and> locks \<and> content \<and> fCheckPOW \<and> fCheckMerkleRoot)
      \<and> (if pow \<and> mroot \<and> block_shape block \<and> locks \<and> content then st' = st
         else IsInvalid st' \<and> (vs_corruptionPossible st' \<longleftrightarrow> pow \<and> \<not> mroot))"
  proof (cases "pow \<and> mroot")
    case False
    then show ?thesis using rej [of 50 "''high-hash''"] cm assms(3)
      unfolding CheckBlock_def hdr cm_def [symmetric] by (cases "reject st 50 ''high-hash''") auto
  next
    case True
    then have "?CB = (case check_shape block of Some reason \<Rightarrow> Some (reject st 100 reason, bs)
        | None \<Rightarrow> (case check_locks env block st bs of
                  Some r \<Rightarrow> Some r
                | None \<Rightarrow> Some (check_content block st,
                    if fst (check_content block st) \<and> fCheckPOW \<and> fCheckMerkleRoot then bs\<lparr>bk_fChecked := True\<rparr> else bs)))"
      using cm assms(3) unfolding CheckBlock_def hdr cm_def [symmetric] by simp
    moreover have "\<exists>st'. reject st 100 r = (False, st') \<and> IsInvalid st' \<and> \<not> vs_corruptionPossible st'" for r
      using rej [of 100 r] by (cases "reject st 100 r") auto
    ultimately show ?thesis
      using True check_shape_None [of block] check_locks_cases [OF st, of env block bs, folded locks_def]
        check_content_cases [OF st, of block, folded content_def] assms(3)
      by (cases "check_shape block"; cases locks; cases content) fastforce+
  qed
  then show ?thesis unfolding ok by (auto simp: pow_def [symmetric] mr)
qed

theorem CheckBlock_correct_witness:
  "\<exists>r. CheckBlock sample_env \<lparr> blk_header = CBlockHeader_null, blk_vtx = [\<lparr> tx_nVersion = 1,
      tx_vin = [mk_CTxIn COutPoint_null [1, 2] SEQUENCE_FINAL], tx_vout = [mk_CTxOut 500 []], tx_nLockTime = 0 \<rparr>] \<rparr>
      CValidationState_init False False \<lparr> bk_fChecked = False, bk_rejected = Map.empty, bk_relayed = [] \<rparr> = Some r \<and> fst (fst r)"
proof -
  let ?tx = "\<lparr> tx_nVersion = 1, tx_vin = [mk_CTxIn COutPoint_null [1, 2] SEQUENCE_FINAL], tx_vout = [mk_CTxOut 500 []], tx_nLockTime = 0 \<rparr>"
  let ?b = "\<lparr> blk_header = CBlockHeader_null, blk_vtx = [?tx] \<rparr>"
  have "GetSigOpCount [1, 2] False = 0" "GetSigOpCount [] False = 0" by code_simp+
  then have "well_formed_tx ?tx" "IsCoinBase ?tx" "GetLegacySigOpCount ?tx = 0"
    by (simp_all add: well_formed_tx_def IsCoinBase_def mk_CTxIn_def mk_CTxOut_def COutPoint_IsNull_def COutPoint_null_def
        GetValueOut_Inr MoneyRange_def MAX_MONEY_def tx_size_def vec_size_def txin_size_def txout_size_def bytes_size_def
        GetSizeOfCompactSize_def MAX_BLOCK_SIZE_def GetLegacySigOpCount_def)
  moreover have "block_size ?b \<le> MAX_BLOCK_SIZE"
    by (simp add: block_size_def mk_CTxIn_def mk_CTxOut_def tx_size_def vec_size_def txin_size_def txout_size_def bytes_size_def
        GetSizeOfCompactSize_def MAX_BLOCK_SIZE_def)
  ultimately have "block_ok sample_env False False ?b"
    by (simp add: block_ok_def block_shape_def sample_env_def MAX_BLOCK_SIZE_def)
  then show ?thesis
    using CheckBlock_correct [of ?b CValidationState_init "\<lparr> bk_fChecked = False, bk_rejected = Map.empty, bk_relayed = [] \<rparr>" sample_env False False]
    by (auto simp: CValidationState_init_def)
qed

subsection \<open>Rewards\<close>

text \<open>On the main network the schedule has holes: the nine hundred blocks after \<open>nZumyBeginsBlock\<close> and the last
  block of every phase are paid at the final rate, with the fees that the other blocks leave out.\<close>

lemma zumy_begins: "nZumyBeginsBlock CMainParams_consensus = 1800"
  by (simp add: CMainParams_consensus_def)

lemma reward_gap: "1800 \<le> h \<Longrightarrow> h < 2700 \<Longrightarrow> GetPoWBlockPayment CMainParams_consensus h nFees = hundredths 80 + nFees"
  by (simp add: GetPoWBlockPayment_def zumy_begins)

lemma reward_phase_ends:
  "h \<in> {375002, 467001, 592001, 717000, 842000, 967000} \<Longrightarrow> GetPoWBlockPayment CMainParams_consensus h nFees = hundredths 80 + nFees"
  by (auto simp: GetPoWBlockPayment_def zumy_begins)

lemma GetMasternodePayment_constant: "GetMasternodePayment P h fMasternode = hundredths 80"
  by (simp add: GetMasternodePayment_def)

text \<open>The rewards have no last block, so that their sum passes every bound, \<open>MAX_MONEY\<close> too.\<close>

lemma supply_unbounded: "\<exists>n. A < (\<Sum>h<n. GetPoWBlockPayment CMainParams_consensus (int h) 0)"
proof -
  have pos_if: "1 \<le> a \<Longrightarrow> 1 \<le> b \<Longrightarrow> 1 \<le> (if c then a else b)" for a b :: int and c by simp
  have pos: "1 \<le> GetPoWBlockPayment CMainParams_consensus (int h) 0" for h
    unfolding GetPoWBlockPayment_def Let_def by (intro pos_if) (simp_all add: hundredths_def COIN_def)
  have "int n \<le> (\<Sum>h<n. GetPoWBlockPayment CMainParams_consensus (int h) 0)" for n
  proof (induction n)
    case (Suc n)
    then show ?case using pos [of n] by simp
  qed simp
  from this [of "nat (A + 1)"] show ?thesis by (intro exI [of _ "nat (A + 1)"]) linarith
qed

end
