(* ===== verification/Merkle_Partial.thy ===== *)
theory Merkle_Partial
  imports Merkle_Props
begin

text \<open>
  Partial Merkle trees: what is built is extracted again, also after the bits went through the bytes of the
  wire format, and what is extracted under a genuine root comes from the block.
\<close>

subsection \<open>Building and extracting\<close>

definition distinct_siblings :: "('h \<Rightarrow> 'h \<Rightarrow> 'h) \<Rightarrow> 'h list \<Rightarrow> bool" where
  "distinct_siblings H xs \<longleftrightarrow> (\<forall>l i. (2 * i + 1) * 2 ^ l < length xs \<longrightarrow> CalcHash H xs l (2 * i) \<noteq> CalcHash H xs l (2 * i + 1))"

definition matched :: "'h list \<Rightarrow> bool list \<Rightarrow> nat \<Rightarrow> nat \<Rightarrow> 'h list" where
  "matched vTxid vMatch a b = map (\<lambda>p. vTxid ! p) (filter (\<lambda>p. vMatch ! p) [a..<b])"

lemma matched_append: "a \<le> b \<Longrightarrow> b \<le> c \<Longrightarrow> matched xs M a b @ matched xs M b c = matched xs M a c"
  unfolding matched_def by (metis filter_append le_Suc_ex map_append upt_add_eq_append)

lemma matched_none: "\<not> fParentOfMatch (length xs) M h q \<Longrightarrow> matched xs M (q * 2 ^ h) (min ((q + 1) * 2 ^ h) (length xs)) = []"
  by (auto simp: matched_def fParentOfMatch_def list_ex_iff filter_empty_conv)

abbreviation advance :: "nat \<Rightarrow> nat \<Rightarrow> 'h list \<Rightarrow> 'h extract_state \<Rightarrow> 'h extract_state" where
  "advance nb nh ms s \<equiv> s\<lparr> ex_nBitsUsed := ex_nBitsUsed s + nb, ex_nHashUsed := ex_nHashUsed s + nh, ex_vMatch := ex_vMatch s @ ms \<rparr>"

text \<open>The bits \<open>b\<close> and hashes \<open>hs\<close> of a node stand in the tree where the state is.\<close>

definition stands_at :: "'h CPartialMerkleTree \<Rightarrow> 'h extract_state \<Rightarrow> bool list \<Rightarrow> 'h list \<Rightarrow> bool" where
  "stands_at t s b hs \<longleftrightarrow> (\<exists>B B' A A'. pmt_vBits t = B @ b @ B' \<and> ex_nBitsUsed s = length B \<and> pmt_vHash t = A @ hs @ A' \<and> ex_nHashUsed s = length A)"

lemma stands_at_left: "stands_at t s (f # b @ b') (hs @ hs') \<Longrightarrow> stands_at t (advance 1 0 [] s) b hs"
  unfolding stands_at_def
proof (elim exE conjE)
  fix B B' A A'
  assume "pmt_vBits t = B @ (f # b @ b') @ B'" "ex_nBitsUsed s = length B" "pmt_vHash t = A @ (hs @ hs') @ A'" "ex_nHashUsed s = length A"
  then show "\<exists>B B' A A'. pmt_vBits t = B @ b @ B' \<and> ex_nBitsUsed (advance 1 0 [] s) = length B \<and> pmt_vHash t = A @ hs @ A' \<and> ex_nHashUsed (advance 1 0 [] s) = length A"
    by (intro exI [of _ "B @ [f]"] exI [of _ "b' @ B'"] exI [of _ A] exI [of _ "hs' @ A'"]) simp
qed

lemma stands_at_right: "stands_at t s (f # b @ b') (hs @ hs') \<Longrightarrow> stands_at t (advance (1 + length b) (length hs) ms s) b' hs'"
  unfolding stands_at_def
proof (elim exE conjE)
  fix B B' A A'
  assume "pmt_vBits t = B @ (f # b @ b') @ B'" "ex_nBitsUsed s = length B" "pmt_vHash t = A @ (hs @ hs') @ A'" "ex_nHashUsed s = length A"
  then show "\<exists>B B' A A'. pmt_vBits t = B @ b' @ B' \<and> ex_nBitsUsed (advance (1 + length b) (length hs) ms s) = length B \<and> pmt_vHash t = A @ hs' @ A'
      \<and> ex_nHashUsed (advance (1 + length b) (length hs) ms s) = length A"
    by (intro exI [of _ "B @ f # b"] exI [of _ B'] exI [of _ "A @ hs"] exI [of _ A']) simp
qed

lemma stands_at_bit: "stands_at t s (f # b) hs \<Longrightarrow> ex_nBitsUsed s < length (pmt_vBits t) \<and> pmt_vBits t ! ex_nBitsUsed s = f"
  by (auto simp: stands_at_def nth_append)

lemma stands_at_hash: "stands_at t s b (x # hs) \<Longrightarrow> ex_nHashUsed s < length (pmt_vHash t) \<and> pmt_vHash t ! ex_nHashUsed s = x"
  by (auto simp: stands_at_def nth_append)

lemma extract_stop:
  assumes "stands_at t s [f] [x]" "h = 0 \<or> \<not> f"
  shows "TraverseAndExtract H t h q s = (x, advance 1 1 (if f then [x] else []) s)"
  using stands_at_bit [OF assms(1)] stands_at_hash [OF assms(1)] assms(2)
  by (subst TraverseAndExtract.simps) auto

text \<open>The node \<open>q\<close> of height \<open>h\<close> is built as the bits \<open>b\<close> and hashes \<open>hs\<close>, and extracted from them.\<close>

definition node_ok :: "('h::zero \<Rightarrow> 'h \<Rightarrow> 'h) \<Rightarrow> 'h list \<Rightarrow> bool list \<Rightarrow> nat \<Rightarrow> nat \<Rightarrow> bool list \<Rightarrow> 'h list \<Rightarrow> bool" where
  "node_ok H xs M h q b hs \<longleftrightarrow>
     (\<forall>B A. TraverseAndBuild H xs M h q (B, A) = (B @ b, A @ hs))
     \<and> length hs \<le> length b \<and> length hs \<le> min ((q + 1) * 2 ^ h) (length xs) - q * 2 ^ h
     \<and> (\<forall>t s. pmt_nTransactions t = length xs \<longrightarrow> stands_at t s b hs \<longrightarrow>
          TraverseAndExtract H t h q s
            = (CalcHash H xs h q, advance (length b) (length hs) (matched xs M (q * 2 ^ h) (min ((q + 1) * 2 ^ h) (length xs))) s))"

lemma node_leaf:
  assumes "q < length xs"
  shows "node_ok H xs M 0 q [M ! q] [xs ! q]"
proof -
  have "[q..<min (Suc q) (length xs)] = [q]" using assms by (simp add: min_absorb1 Suc_le_eq)
  then have "fParentOfMatch (length xs) M 0 q = M ! q" "matched xs M (q * 2 ^ 0) (min ((q + 1) * 2 ^ 0) (length xs)) = (if M ! q then [xs ! q] else [])"
    by (simp_all add: fParentOfMatch_def matched_def)
  then show ?thesis using assms extract_stop [of _ _ "M ! q" "xs ! q" 0 H q] by (auto simp: node_ok_def)
qed

lemma node_stop:
  assumes "q * 2 ^ Suc h < length xs" "\<not> fParentOfMatch (length xs) M (Suc h) q"
  shows "node_ok H xs M (Suc h) q [False] [CalcHash H xs (Suc h) q]"
proof -
  have "1 \<le> min ((q + 1) * 2 ^ Suc h) (length xs) - q * 2 ^ Suc h"
  proof -
    have "q * 2 ^ Suc h < (q + 1) * 2 ^ Suc h" by simp
    then have "q * 2 ^ Suc h < min ((q + 1) * 2 ^ Suc h) (length xs)" using assms(1) by (simp only: min_less_iff_conj)
    then show ?thesis by linarith
  qed
  then show ?thesis using assms(2) extract_stop [of _ _ False "CalcHash H xs (Suc h) q" "Suc h" H q] matched_none [OF assms(2)]
    by (auto simp: node_ok_def Let_def)
qed

lemma node_left:
  assumes f: "fParentOfMatch (length xs) M (Suc h) q" and w: "\<not> (q * 2 + 1) * 2 ^ h < length xs"
    and l: "node_ok H xs M h (q * 2) b hs"
  shows "node_ok H xs M (Suc h) q (True # b) hs"
proof -
  let ?n = "length xs"
  have r: "q * 2 * 2 ^ h = q * 2 ^ Suc h" "min ((q * 2 + 1) * 2 ^ h) ?n = ?n" "min ((q + 1) * 2 ^ Suc h) ?n = ?n"
    using w by simp_all
  have wd: "\<not> q * 2 + 1 < CalcTreeWidth ?n h" using w by (simp add: less_width)
  have h: "CalcHash H xs (Suc h) q = H (CalcHash H xs h (q * 2)) (CalcHash H xs h (q * 2))" using wd by (simp add: CalcHash.simps(2))
  have e: "TraverseAndExtract H t (Suc h) q s = (CalcHash H xs (Suc h) q, advance (length (True # b)) (length hs) (matched xs M (q * 2 ^ Suc h) ?n) s)"
    if "pmt_nTransactions t = ?n" "stands_at t s (True # b) hs" for t s
  proof -
    note bit = stands_at_bit [OF that(2)]
    have "stands_at t (advance 1 0 [] s) b hs" using stands_at_left [of t s True b "[]" hs "[]"] that(2) by simp
    then have "TraverseAndExtract H t h (q * 2) (s\<lparr>ex_nBitsUsed := ex_nBitsUsed s + 1\<rparr>)
        = (CalcHash H xs h (q * 2), advance (length b) (length hs) (matched xs M (q * 2 ^ Suc h) ?n) (s\<lparr>ex_nBitsUsed := ex_nBitsUsed s + 1\<rparr>))"
      using l that(1) unfolding node_ok_def r by simp
    then show ?thesis unfolding h using bit wd that(1) by (subst TraverseAndExtract.simps) (simp add: Let_def)
  qed
  have b: "\<forall>B A. TraverseAndBuild H xs M (Suc h) q (B, A) = (B @ True # b, A @ hs)"
    using l f wd by (simp add: node_ok_def Let_def)
  have "length hs \<le> length b" "length hs \<le> ?n - q * 2 ^ Suc h" using l unfolding node_ok_def r by blast+
  then show ?thesis using e b unfolding node_ok_def r by simp
qed

lemma node_both:
  assumes f: "fParentOfMatch (length xs) M (Suc h) q" and w: "(q * 2 + 1) * 2 ^ h < length xs"
    and l: "node_ok H xs M h (q * 2) b hs" and r: "node_ok H xs M h (q * 2 + 1) b' hs'" and d: "distinct_siblings H xs"
  shows "node_ok H xs M (Suc h) q (True # b @ b') (hs @ hs')"
proof -
  let ?n = "length xs" let ?m = "(q * 2 + 1) * 2 ^ h" let ?hi = "min ((q + 1) * 2 ^ Suc h) (length xs)"
  have ends: "q * 2 * 2 ^ h = q * 2 ^ Suc h" "min ?m ?n = ?m" "min ((q * 2 + 1 + 1) * 2 ^ h) ?n = ?hi" using w by simp_all
  have le: "q * 2 ^ Suc h \<le> ?m" "?m \<le> ?hi" using w by simp_all
  have wd: "q * 2 + 1 < CalcTreeWidth ?n h" using w by (simp add: less_width)
  have h: "CalcHash H xs (Suc h) q = H (CalcHash H xs h (q * 2)) (CalcHash H xs h (q * 2 + 1))" using wd by (simp add: CalcHash.simps(2))
  have ne: "CalcHash H xs h (q * 2 + 1) \<noteq> CalcHash H xs h (q * 2)"
    using d w unfolding distinct_siblings_def by (metis mult.commute)
  have e: "TraverseAndExtract H t (Suc h) q s
      = (CalcHash H xs (Suc h) q, advance (length (True # b @ b')) (length (hs @ hs')) (matched xs M (q * 2 ^ Suc h) ?hi) s)"
    if t: "pmt_nTransactions t = ?n" and st: "stands_at t s (True # b @ b') (hs @ hs')" for t s
  proof -
    note bit = stands_at_bit [OF st]
    let ?s1 = "advance 1 0 [] s"
    let ?s2 = "advance (1 + length b) (length hs) (matched xs M (q * 2 ^ Suc h) ?m) s"
    have s1: "?s1 = s\<lparr>ex_nBitsUsed := ex_nBitsUsed s + 1\<rparr>" by simp
    have "advance (length b) (length hs) (matched xs M (q * 2 ^ Suc h) ?m) ?s1 = ?s2" by simp
    then have "TraverseAndExtract H t h (q * 2) ?s1 = (CalcHash H xs h (q * 2), ?s2)"
      using l t stands_at_left [OF st] unfolding node_ok_def ends by metis
    note left = this [unfolded s1]
    have "advance (length b') (length hs') (matched xs M ?m ?hi) ?s2
        = advance (length (True # b @ b')) (length (hs @ hs')) (matched xs M (q * 2 ^ Suc h) ?hi) s"
      using matched_append [OF le, of xs M] by simp
    then have "TraverseAndExtract H t h (q * 2 + 1) ?s2 = (CalcHash H xs h (q * 2 + 1),
        advance (length (True # b @ b')) (length (hs @ hs')) (matched xs M (q * 2 ^ Suc h) ?hi) s)"
      using r t stands_at_right [OF st, of "matched xs M (q * 2 ^ Suc h) ?m"] unfolding node_ok_def ends by metis
    then show ?thesis unfolding h using bit left wd t ne
      by (subst TraverseAndExtract.simps) (simp add: Let_def del: length_append list.size)
  qed
  have b: "\<forall>B A. TraverseAndBuild H xs M (Suc h) q (B, A) = (B @ True # b @ b', A @ hs @ hs')"
    using l r f wd by (simp add: node_ok_def Let_def)
  have "length hs \<le> length b" "length hs \<le> ?m - q * 2 ^ Suc h" "length hs' \<le> length b'" "length hs' \<le> ?hi - ?m"
    using l r unfolding node_ok_def ends by blast+
  then have "length (hs @ hs') \<le> length (True # b @ b')" "length (hs @ hs') \<le> ?hi - q * 2 ^ Suc h" using le by simp_all
  then show ?thesis using e b unfolding node_ok_def by blast
qed

lemma node_exists:
  assumes "distinct_siblings H xs"
  shows "q * 2 ^ h < length xs \<Longrightarrow> \<exists>b hs. node_ok H xs M h q b hs"
proof (induction h arbitrary: q)
  case 0
  then have "q < length xs" by simp
  from node_leaf [OF this] show ?case by blast
next
  case (Suc h)
  have "q * 2 * 2 ^ h < length xs" using Suc.prems by simp
  from Suc.IH [OF this] obtain b hs where l: "node_ok H xs M h (q * 2) b hs" by blast
  show ?case
  proof (cases "fParentOfMatch (length xs) M (Suc h) q")
    case False
    then show ?thesis using node_stop [OF Suc.prems] by blast
  next
    case f: True
    show ?thesis
    proof (cases "(q * 2 + 1) * 2 ^ h < length xs")
      case True
      from Suc.IH [OF this] show ?thesis using node_both [OF f True l _ assms] by blast
    next
      case False
      then show ?thesis using node_left [OF f _ l] by blast
    qed
  qed
qed

subsection \<open>The bits on the wire\<close>

definition pack_step :: "bool list \<Rightarrow> byte list \<Rightarrow> nat \<Rightarrow> byte list" where
  "pack_step vBits vBytes p = vBytes[p div 8 := vBytes ! (p div 8) OR push_bit (p mod 8) (of_bool (vBits ! p))]"

lemma pack_bits_upto:
  assumes "k \<le> length bs"
  defines "m \<equiv> (length bs + 7) div 8"
  shows "length (foldl (pack_step bs) (replicate m 0) [0..<k]) = m
    \<and> (\<forall>j<m. \<forall>i<8. bit (foldl (pack_step bs) (replicate m 0) [0..<k] ! j) i \<longleftrightarrow> 8 * j + i < k \<and> bs ! (8 * j + i))"
  using assms(1)
proof (induction k)
  case (Suc k)
  let ?v = "foldl (pack_step bs) (replicate m 0) [0..<k]"
  have IH: "length ?v = m" "\<And>j i. j < m \<Longrightarrow> i < 8 \<Longrightarrow> bit (?v ! j) i \<longleftrightarrow> 8 * j + i < k \<and> bs ! (8 * j + i)"
    using Suc.IH Suc.prems by simp_all
  have k: "k div 8 < m" using Suc.prems unfolding m_def by linarith
  have "bit (pack_step bs ?v k ! j) i \<longleftrightarrow> 8 * j + i < Suc k \<and> bs ! (8 * j + i)" if "j < m" "i < 8" for j i
  proof (cases "j = k div 8")
    case True
    have "bit (push_bit (k mod 8) (of_bool (bs ! k)) :: byte) i \<longleftrightarrow> i = k mod 8 \<and> bs ! k"
      using that(2) by (auto simp: bit_simps)
    moreover have "i = k mod 8 \<longleftrightarrow> 8 * j + i = k"
      using mult_div_mod_eq [of 8 k] unfolding True by (intro iffI) linarith+
    moreover note less_Suc_eq [of "8 * j + i" k]
    ultimately show ?thesis using IH(2) [OF that] IH(1) True k by (auto simp: pack_step_def bit_or_iff)
  next
    case False
    then have "8 * j + i \<noteq> k" using that(2) by auto
    then show ?thesis using IH(2) [OF that] False by (simp add: pack_step_def less_Suc_eq)
  qed
  moreover have "foldl (pack_step bs) (replicate m 0) [0..<Suc k] = pack_step bs ?v k" by simp
  moreover have "length (pack_step bs ?v k) = m" using IH(1) by (simp add: pack_step_def)
  ultimately show ?case by presburger
qed simp

lemma pack_bits_fold: "pack_bits bs = foldl (pack_step bs) (replicate ((length bs + 7) div 8) 0) [0..<length bs]"
  unfolding pack_bits_def pack_step_def ..

lemma unpack_pack: "unpack_bits (pack_bits bs) = bs @ replicate ((length bs + 7) div 8 * 8 - length bs) False"
proof (rule nth_equalityI)
  note p = pack_bits_upto [of "length bs" bs, simplified, folded pack_bits_fold]
  show len: "length (unpack_bits (pack_bits bs)) = length (bs @ replicate ((length bs + 7) div 8 * 8 - length bs) False)"
    using p by (simp add: unpack_bits_def)
  fix i assume "i < length (unpack_bits (pack_bits bs))"
  then have i: "i < (length bs + 7) div 8 * 8" using p by (simp add: unpack_bits_def)
  have "b AND push_bit k 1 \<noteq> 0 \<longleftrightarrow> bit b k" if "k < 8" for b :: byte and k
    using that by (simp add: bit_iff_and_push_bit_not_eq_0)
  then have "unpack_bits (pack_bits bs) ! i \<longleftrightarrow> bit (pack_bits bs ! (i div 8)) (i mod 8)"
    using i p by (simp add: unpack_bits_def)
  also have "\<dots> \<longleftrightarrow> i < length bs \<and> bs ! i"
  proof -
    have "i div 8 < (length bs + 7) div 8" "i mod 8 < 8" "8 * (i div 8) + i mod 8 = i"
      by (rule less_mult_imp_div_less [OF i], simp, rule mult_div_mod_eq)
    then show ?thesis using p by metis
  qed
  finally show "unpack_bits (pack_bits bs) ! i = (bs @ replicate ((length bs + 7) div 8 * 8 - length bs) False) ! i"
    using i by (simp add: nth_append)
qed

subsection \<open>Soundness\<close>

text \<open>The pairs that are hashed while the node \<open>q\<close> of height \<open>h\<close> is extracted.\<close>

fun extract_pairs :: "('h::zero \<Rightarrow> 'h \<Rightarrow> 'h) \<Rightarrow> 'h CPartialMerkleTree \<Rightarrow> nat \<Rightarrow> nat \<Rightarrow> 'h extract_state \<Rightarrow> ('h \<times> 'h) set" where
  "extract_pairs H t 0 q s = {}"
| "extract_pairs H t (Suc h) q s =
     (if ex_nBitsUsed s \<ge> length (pmt_vBits t) \<or> \<not> pmt_vBits t ! ex_nBitsUsed s then {}
      else let s1 = s\<lparr>ex_nBitsUsed := ex_nBitsUsed s + 1\<rparr>; (left, s2) = TraverseAndExtract H t h (q * 2) s1 in
        extract_pairs H t h (q * 2) s1
        \<union> (if q * 2 + 1 < CalcTreeWidth (pmt_nTransactions t) h
           then insert (left, fst (TraverseAndExtract H t h (q * 2 + 1) s2)) (extract_pairs H t h (q * 2 + 1) s2)
           else {(left, left)}))"

declare extract_pairs.simps(2) [simp del]

definition opened_pairs :: "('h::zero \<Rightarrow> 'h \<Rightarrow> 'h) \<Rightarrow> 'h CPartialMerkleTree \<Rightarrow> ('h \<times> 'h) set" where
  "opened_pairs H t = (case tree_height (pmt_nTransactions t) of None \<Rightarrow> {}
     | Some L \<Rightarrow> extract_pairs H t L 0 \<lparr> ex_nBitsUsed = 0, ex_nHashUsed = 0, ex_vMatch = [], ex_fBad = pmt_fBad t \<rparr>)"

text \<open>The bits \<open>b\<close> and hashes \<open>hs\<close> show the transactions at the positions \<open>ms\<close> below the node \<open>q\<close> of height \<open>h\<close>:
  each node is shown by its own hash, or opened into its children, which are different.\<close>

inductive proof_of :: "('h \<Rightarrow> 'h \<Rightarrow> 'h) \<Rightarrow> 'h list \<Rightarrow> nat \<Rightarrow> nat \<Rightarrow> bool list \<Rightarrow> 'h list \<Rightarrow> nat list \<Rightarrow> bool" for H xs where
  leaf: "q < length xs \<Longrightarrow> proof_of H xs 0 q [f] [xs ! q] (if f then [q] else [])"
| hidden: "q * 2 ^ Suc h < length xs \<Longrightarrow> proof_of H xs (Suc h) q [False] [CalcHash H xs (Suc h) q] []"
| single: "length xs \<le> (2 * q + 1) * 2 ^ h \<Longrightarrow> proof_of H xs h (2 * q) b hs ms \<Longrightarrow> proof_of H xs (Suc h) q (True # b) hs ms"
| both: "CalcHash H xs h (2 * q) \<noteq> CalcHash H xs h (2 * q + 1) \<Longrightarrow> proof_of H xs h (2 * q) b hs ms \<Longrightarrow>
    proof_of H xs h (2 * q + 1) b' hs' ms' \<Longrightarrow> proof_of H xs (Suc h) q (True # b @ b') (hs @ hs') (ms @ ms')"

text \<open>The positions are below the node and in their order.\<close>

lemma proof_of_positions:
  "proof_of H xs h q b hs ms \<Longrightarrow> sorted_wrt (<) ms \<and> (\<forall>p\<in>set ms. q * 2 ^ h \<le> p \<and> p < (q + 1) * 2 ^ h \<and> p < length xs)"
proof (induction rule: proof_of.induct)
  case (both h q b hs ms b' hs' ms')
  have "2 * q * 2 ^ h \<le> (2 * q + 1) * 2 ^ h" "(2 * q + 1) * 2 ^ h \<le> (2 * q + 1 + 1) * 2 ^ h" by simp_all
  moreover have "q * 2 ^ Suc h = 2 * q * 2 ^ h" "(q + 1) * 2 ^ Suc h = (2 * q + 1 + 1) * 2 ^ h" by simp_all
  ultimately show ?case using both.IH by (fastforce simp: sorted_wrt_append)
next
  case (single q h b hs ms)
  have "(2 * q + 1) * 2 ^ h \<le> (q + 1) * 2 ^ Suc h" "q * 2 ^ Suc h = 2 * q * 2 ^ h" by simp_all
  then show ?case using single.IH by fastforce
qed auto

text \<open>Where bits and hashes stand, by their positions.\<close>

lemma stands_at_iff:
  "stands_at t s b hs \<longleftrightarrow>
     ex_nBitsUsed s + length b \<le> length (pmt_vBits t) \<and> take (length b) (drop (ex_nBitsUsed s) (pmt_vBits t)) = b
     \<and> ex_nHashUsed s + length hs \<le> length (pmt_vHash t) \<and> take (length hs) (drop (ex_nHashUsed s) (pmt_vHash t)) = hs"
proof -
  have piece: "(\<exists>B B'. xs = B @ ys @ B' \<and> n = length B) \<longleftrightarrow> n + length ys \<le> length xs \<and> take (length ys) (drop n xs) = ys" for xs ys :: "'b list" and n
  proof
    assume r: "n + length ys \<le> length xs \<and> take (length ys) (drop n xs) = ys"
    then have "xs = take n xs @ ys @ drop (length ys) (drop n xs)" by (metis append_take_drop_id)
    then show "\<exists>B B'. xs = B @ ys @ B' \<and> n = length B" using r by (intro exI [of _ "take n xs"] exI [of _ "drop (length ys) (drop n xs)"]) simp
  qed auto
  show ?thesis unfolding stands_at_def using piece [of "pmt_vBits t" b "ex_nBitsUsed s"] piece [of "pmt_vHash t" hs "ex_nHashUsed s"] by blast
qed

lemma stands_at_join:
  assumes "ex_nBitsUsed s < length (pmt_vBits t)" "pmt_vBits t ! ex_nBitsUsed s = f"
    and "stands_at t (advance 1 0 [] s) b hs" "stands_at t (advance (1 + length b) (length hs) ms s) b' hs'"
  shows "stands_at t s (f # b @ b') (hs @ hs')"
  using assms by (simp add: stands_at_iff take_add Cons_nth_drop_Suc [symmetric] add.commute add.left_commute add.assoc)

lemma stands_at_one:
  assumes "ex_nBitsUsed s < length (pmt_vBits t)" "ex_nHashUsed s < length (pmt_vHash t)"
  shows "stands_at t s [pmt_vBits t ! ex_nBitsUsed s] [pmt_vHash t ! ex_nHashUsed s]"
  using assms by (simp add: stands_at_iff Cons_nth_drop_Suc [symmetric])

text \<open>A node that is not bad is taken from the hashes, or extracted from its children.\<close>

lemma extract_leaf:
  assumes "TraverseAndExtract H t h q s = (x, s')" "\<not> ex_fBad s'" "h = 0 \<or> \<not> pmt_vBits t ! ex_nBitsUsed s"
  shows "ex_nBitsUsed s < length (pmt_vBits t) \<and> ex_nHashUsed s < length (pmt_vHash t) \<and> x = pmt_vHash t ! ex_nHashUsed s
    \<and> s' = advance 1 1 (if pmt_vBits t ! ex_nBitsUsed s then [x] else []) s"
  using assms by (subst (asm) TraverseAndExtract.simps) (auto simp: Let_def split: if_splits)

lemma extract_cases:
  assumes "TraverseAndExtract H t (Suc h) q s = (x, s')" "\<not> ex_fBad s'" "pmt_vBits t ! ex_nBitsUsed s"
  defines "s1 \<equiv> advance 1 0 [] s"
  obtains (single) y where "ex_nBitsUsed s < length (pmt_vBits t)" "\<not> q * 2 + 1 < CalcTreeWidth (pmt_nTransactions t) h"
      "TraverseAndExtract H t h (q * 2) s1 = (y, s')" "x = H y y"
      "extract_pairs H t (Suc h) q s = insert (y, y) (extract_pairs H t h (q * 2) s1)"
  | (both) y s2 z where "ex_nBitsUsed s < length (pmt_vBits t)" "q * 2 + 1 < CalcTreeWidth (pmt_nTransactions t) h"
      "TraverseAndExtract H t h (q * 2) s1 = (y, s2)" "TraverseAndExtract H t h (q * 2 + 1) s2 = (z, s')" "x = H y z" "z \<noteq> y"
      "extract_pairs H t (Suc h) q s = insert (y, z) (extract_pairs H t h (q * 2) s1 \<union> extract_pairs H t h (q * 2 + 1) s2)"
proof -
  have lt: "ex_nBitsUsed s < length (pmt_vBits t)"
    using assms(1,2) by (subst (asm) TraverseAndExtract.simps) (auto split: if_splits)
  have s1: "s1 = s\<lparr>ex_nBitsUsed := ex_nBitsUsed s + 1\<rparr>" unfolding s1_def by simp
  obtain y s2 where l: "TraverseAndExtract H t h (q * 2) s1 = (y, s2)" by fastforce
  note l' = l [unfolded s1, simplified]
  show thesis
  proof (cases "q * 2 + 1 < CalcTreeWidth (pmt_nTransactions t) h")
    case True
    obtain z s3 where r: "TraverseAndExtract H t h (q * 2 + 1) s2 = (z, s3)" by fastforce
    have "x = H y z \<and> s' = (if z = y then s3\<lparr>ex_fBad := True\<rparr> else s3)"
      using assms(1,3) lt True l' r by (subst (asm) TraverseAndExtract.simps) (simp add: Let_def)
    then have "x = H y z" "z \<noteq> y" "s' = s3" using assms(2) by (auto split: if_splits)
    then show thesis using both [OF lt True l] r lt True assms(3) l' by (simp add: extract_pairs.simps(2) s1 Let_def)
  next
    case False
    then have "x = H y y \<and> s' = s2"
      using assms(1,3) lt l' by (subst (asm) TraverseAndExtract.simps) (simp add: Let_def)
    then show thesis using single [OF lt False] l lt False assms(3) l' by (simp add: extract_pairs.simps(2) s1 Let_def)
  qed
qed

lemma extract_bad: "TraverseAndExtract H t h q s = (x, s') \<Longrightarrow> \<not> ex_fBad s' \<Longrightarrow> \<not> ex_fBad s"
proof (induction h arbitrary: q s x s')
  case 0
  then show ?case using extract_leaf [OF 0] by simp
next
  case (Suc h)
  show ?case
  proof (cases "pmt_vBits t ! ex_nBitsUsed s")
    case True
    from Suc.prems True show ?thesis
    proof (cases rule: extract_cases)
      case (single y)
      then show ?thesis using Suc.IH [OF single(3)] Suc.prems(2) by simp
    next
      case (both y s2 z)
      then show ?thesis using Suc.IH [OF both(3)] Suc.IH [OF both(4)] Suc.prems(2) by simp
    qed
  next
    case False
    then show ?thesis using extract_leaf [OF Suc.prems] Suc.prems(2) by simp
  qed
qed

text \<open>What is extracted under the genuine hash of a node is shown by the bits and hashes that were read.\<close>

lemma extract_sound:
  assumes H: "\<not> collision H P" "node_pairs H xs \<subseteq> P" and n: "pmt_nTransactions t = length xs"
  shows "q * 2 ^ h < length xs \<Longrightarrow> (\<And>i. i < h \<Longrightarrow> 2 ^ i < length xs) \<Longrightarrow> TraverseAndExtract H t h q s = (CalcHash H xs h q, s') \<Longrightarrow>
    \<not> ex_fBad s' \<Longrightarrow> extract_pairs H t h q s \<subseteq> P \<Longrightarrow>
    \<exists>b hs ms. proof_of H xs h q b hs ms \<and> stands_at t s b hs \<and> s' = advance (length b) (length hs) (map (\<lambda>p. xs ! p) ms) s"
proof (induction h arbitrary: q s s')
  case 0
  note l = extract_leaf [OF 0(3,4)]
  have "xs ! q = pmt_vHash t ! ex_nHashUsed s" using l by simp
  then have "stands_at t s [pmt_vBits t ! ex_nBitsUsed s] [xs ! q]" using stands_at_one [of s t] l by simp
  moreover have "proof_of H xs 0 q [pmt_vBits t ! ex_nBitsUsed s] [xs ! q] (if pmt_vBits t ! ex_nBitsUsed s then [q] else [])"
    using 0(1) by (intro proof_of.leaf) simp
  moreover have "s' = advance 1 1 (map (\<lambda>p. xs ! p) (if pmt_vBits t ! ex_nBitsUsed s then [q] else [])) s" using l by simp
  ultimately show ?case by (metis length_Cons list.size(3) One_nat_def)
next
  case (Suc h)
  have w: "q * 2 + 1 < CalcTreeWidth (length xs) h \<longleftrightarrow> (2 * q + 1) * 2 ^ h < length xs" unfolding less_width by (simp add: mult.commute)
  have lt: "2 * q * 2 ^ h < length xs" using Suc.prems(1) by simp
  have ch: "children H xs h q \<in> P" using children_in [of h xs q H] lt Suc.prems(2) [of h] H(2) by blast
  have below: "\<And>i. i < h \<Longrightarrow> 2 ^ i < length xs" using Suc.prems(2) by simp
  show ?case
  proof (cases "pmt_vBits t ! ex_nBitsUsed s")
    case False
    note l = extract_leaf [OF Suc.prems(3,4) disjI2 [OF False]]
    have "stands_at t s [False] [CalcHash H xs (Suc h) q]" using stands_at_one [of s t] l False by simp
    moreover have "proof_of H xs (Suc h) q [False] [CalcHash H xs (Suc h) q] []" using Suc.prems(1) by (rule proof_of.hidden)
    moreover have "s' = advance 1 1 (map (\<lambda>p. xs ! p) []) s" using l False by simp
    ultimately show ?thesis by (metis length_Cons list.size(3) One_nat_def)
  next
    case True
    from Suc.prems(3,4) True show ?thesis
    proof (cases rule: extract_cases)
      case (single y)
      have nb: "\<not> (2 * q + 1) * 2 ^ h < length xs" using single(2) w n by simp
      have "(y, y) = children H xs h q"
        using no_collision [OF H(1) _ ch, of "(y, y)"] single(4,5) Suc.prems(5) unfolding CalcHash_children by simp
      then have y: "y = CalcHash H xs h (2 * q)" unfolding children_left [OF nb] by simp
      obtain b hs ms where r: "proof_of H xs h (2 * q) b hs ms" "stands_at t (advance 1 0 [] s) b hs"
        "s' = advance (length b) (length hs) (map (\<lambda>p. xs ! p) ms) (advance 1 0 [] s)"
        using Suc.IH [OF lt below single(3) [unfolded y mult.commute [of q 2]] Suc.prems(4)] single(5) Suc.prems(5) by (auto simp: mult.commute)
      have "stands_at t s (True # b) hs"
        using stands_at_join [OF single(1), of True b hs "[]" "[]" "[]"] r(2) True by (simp add: stands_at_iff)
      moreover have "proof_of H xs (Suc h) q (True # b) hs ms" using proof_of.single [OF _ r(1)] nb by simp
      moreover have "s' = advance (length (True # b)) (length hs) (map (\<lambda>p. xs ! p) ms) s" unfolding r(3) by simp
      ultimately show ?thesis by blast
    next
      case (both y s2 z)
      have big: "(2 * q + 1) * 2 ^ h < length xs" using both(2) w n by simp
      have "(y, z) = children H xs h q"
        using no_collision [OF H(1) _ ch, of "(y, z)"] both(5,7) Suc.prems(5) unfolding CalcHash_children by simp
      then have yz: "y = CalcHash H xs h (2 * q)" "z = CalcHash H xs h (2 * q + 1)" unfolding children_both [OF big] by simp_all
      have nb: "\<not> ex_fBad s2" using extract_bad [OF both(4) Suc.prems(4)] .
      obtain b hs ms where r: "proof_of H xs h (2 * q) b hs ms" "stands_at t (advance 1 0 [] s) b hs"
        "s2 = advance (length b) (length hs) (map (\<lambda>p. xs ! p) ms) (advance 1 0 [] s)"
        using Suc.IH [OF lt below both(3) [unfolded yz mult.commute [of q 2]] nb] both(7) Suc.prems(5) by (auto simp: mult.commute)
      have s2: "s2 = advance (1 + length b) (length hs) (map (\<lambda>p. xs ! p) ms) s" unfolding r(3) by simp
      obtain b' hs' ms' where r': "proof_of H xs h (2 * q + 1) b' hs' ms'" "stands_at t s2 b' hs'"
        "s' = advance (length b') (length hs') (map (\<lambda>p. xs ! p) ms') s2"
        using Suc.IH [OF big below both(4) [unfolded yz mult.commute [of q 2]] Suc.prems(4)] both(7) Suc.prems(5) by (auto simp: mult.commute)
      have "stands_at t s (True # b @ b') (hs @ hs')"
        using stands_at_join [OF both(1) _ r(2) r'(2) [unfolded s2]] True by simp
      moreover have "proof_of H xs (Suc h) q (True # b @ b') (hs @ hs') (ms @ ms')"
        by (rule proof_of.both [OF _ r(1) r'(1)]) (use both(6) yz in simp)
      moreover have "s' = advance (length (True # b @ b')) (length (hs @ hs')) (map (\<lambda>p. xs ! p) (ms @ ms')) s"
        unfolding r'(3) s2 by simp
      ultimately show ?thesis by blast
    qed
  qed
qed

subsection \<open>Properties\<close>

text \<open>The tree with its bits as they are read back from the wire.\<close>

definition over_the_wire :: "'h CPartialMerkleTree \<Rightarrow> 'h CPartialMerkleTree" where
  "over_the_wire t = t\<lparr> pmt_vBits := unpack_bits (pack_bits (pmt_vBits t)), pmt_fBad := False \<rparr>"

lemma extract_built:
  assumes t: "pmt_nTransactions t = length xs" "pmt_vHash t = hs" "\<not> pmt_fBad t" "pmt_vBits t = b @ pad" "(length (b @ pad) + 7) div 8 = (length b + 7) div 8"
    and n: "xs \<noteq> []" "length xs \<le> MAX_BLOCK_SIZE div 60" "tree_height (length xs) = Some L" and ok: "node_ok H xs M L 0 b hs"
  shows "ExtractMatches H t = Some (CalcHash H xs L 0, matched xs M 0 (length xs))"
proof -
  let ?s = "\<lparr> ex_nBitsUsed = 0, ex_nHashUsed = 0, ex_vMatch = [], ex_fBad = pmt_fBad t \<rparr>"
  have m: "min ((0 + 1) * 2 ^ L) (length xs) = length xs" using tree_height_le [OF n(3)] by simp
  have "stands_at t ?s b hs" using t(2,4) by (simp add: stands_at_def)
  then have e: "TraverseAndExtract H t L 0 ?s = (CalcHash H xs L 0, advance (length b) (length hs) (matched xs M 0 (length xs)) ?s)"
    using ok t(1) m unfolding node_ok_def by simp
  have "length hs \<le> length b" "length hs \<le> length xs" using ok m unfolding node_ok_def by simp_all
  then show ?thesis using t n e unfolding ExtractMatches_def by simp
qed

lemma build_ok:
  assumes "xs \<noteq> []" "distinct_siblings H xs" "tree_height (length xs) = Some L"
  shows "\<exists>b hs. node_ok H xs M L 0 b hs
    \<and> CPartialMerkleTree_of H xs M = Some \<lparr> pmt_nTransactions = length xs, pmt_vBits = b, pmt_vHash = hs, pmt_fBad = False \<rparr>"
proof -
  obtain b hs where ok: "node_ok H xs M L 0 b hs" using node_exists [OF assms(2), of 0 L M] assms(1) by auto
  then have "TraverseAndBuild H xs M L 0 ([], []) = (b, hs)" unfolding node_ok_def by simp
  then show ?thesis using ok assms(3) by (auto simp: CPartialMerkleTree_of_def)
qed

text \<open>C31: a partial tree gives back what it was built from.  For a block of at most \<open>MAX_BLOCK_SIZE / 60\<close>
  transactions in which no two siblings have the same hash, building succeeds, and extracting, also after
  the bits were packed into bytes and read back, returns the root that \<open>ComputeMerkleRoot\<close> computes and exactly the
  matched transactions in their order.\<close>

theorem partial_tree_roundtrip:
  assumes "xs \<noteq> []" "length xs \<le> MAX_BLOCK_SIZE div 60" "distinct_siblings H xs"
  shows "\<exists>t root mutated. CPartialMerkleTree_of H xs M = Some t \<and> ComputeMerkleRoot H xs = Some (root, mutated)
    \<and> ExtractMatches H t = Some (root, matched xs M 0 (length xs))
    \<and> ExtractMatches H (over_the_wire t) = Some (root, matched xs M 0 (length xs))"
proof -
  have n: "length xs \<le> 2 ^ 31" using assms(2) by (simp add: MAX_BLOCK_SIZE_def)
  obtain L where L: "tree_height (length xs) = Some L" "ComputeMerkleRoot H xs = Some (CalcHash H xs L 0, twins H xs (length xs))"
    using ComputeMerkleRoot_ok [OF assms(1) n] by blast
  obtain b hs t where ok: "node_ok H xs M L 0 b hs" and t: "CPartialMerkleTree_of H xs M = Some t"
    and t_def: "t = \<lparr> pmt_nTransactions = length xs, pmt_vBits = b, pmt_vHash = hs, pmt_fBad = False \<rparr>"
    using build_ok [OF assms(1,3) L(1), of M] by blast
  note x = extract_built [OF _ _ _ _ _ assms(1,2) L(1) ok]
  have "ExtractMatches H t = Some (CalcHash H xs L 0, matched xs M 0 (length xs))" by (rule x [of _ "[]"]) (simp_all add: t_def)
  moreover have "length b \<le> (length b + 7) div 8 * 8" "((length b + 7) div 8 * 8 + 7) div 8 = (length b + 7) div 8" by linarith+
  then have "ExtractMatches H (over_the_wire t) = Some (CalcHash H xs L 0, matched xs M 0 (length xs))"
    by (intro x [of _ "replicate ((length b + 7) div 8 * 8 - length b) False"]) (simp_all add: t_def over_the_wire_def unpack_pack)
  ultimately show ?thesis using t L(2) by blast
qed

lemma small_node: "(2 * i + 1) * 2 ^ l < m \<Longrightarrow> 2 ^ l < m \<and> 2 * i + 1 < m" for i l m :: nat
proof -
  assume a: "(2 * i + 1) * 2 ^ l < m"
  have "1 * 2 ^ l \<le> (2 * i + 1) * 2 ^ l" by (rule mult_le_mono1) simp
  moreover have "(2 * i + 1) * 1 \<le> (2 * i + 1) * 2 ^ l" by (rule mult_le_mono2) simp
  ultimately show ?thesis using le_less_trans [OF _ a] by simp
qed

lemma number_siblings: "distinct_siblings number_hash [2, 4, 6]"
  unfolding distinct_siblings_def
proof (intro allI impI)
  fix l i :: nat
  assume "(2 * i + 1) * 2 ^ l < length [2::nat, 4, 6]"
  then have a: "(2 * i + 1) * 2 ^ l < 3" by simp
  then have "(2::nat) ^ l < 2 ^ 2" "i = 0" using small_node [OF a] by simp_all
  moreover from this(1) have "l < 2" by (rule power_less_imp_less_exp [rotated]) simp
  ultimately consider "i = 0" "l = 0" | "i = 0" "l = Suc 0" by linarith
  then show "CalcHash number_hash [2, 4, 6] l (2 * i) \<noteq> CalcHash number_hash [2, 4, 6] l (2 * i + 1)"
  proof cases
    case 2
    then show ?thesis by (auto simp: number_level number_hash_def)
  qed simp
qed

lemma partial_tree_roundtrip_witness:
  "\<exists>t root. CPartialMerkleTree_of number_hash [2, 4, 6] [False, True, False] = Some t
    \<and> ExtractMatches number_hash (over_the_wire t) = Some (root, [4])"
proof -
  have "matched [2, 4, 6] [False, True, False] 0 (Suc (Suc (Suc 0))) = [4::nat]" by (simp add: matched_def upt_rec)
  then show ?thesis
    using partial_tree_roundtrip [of "[2, 4, 6]" number_hash "[False, True, False]"] number_siblings by (auto simp: MAX_BLOCK_SIZE_def)
qed

text \<open>C32: a partial tree that extracts the root of a block and that has the right number of transactions is a proof
  for the transactions it returns.  Its hashes and its bits, up to padding of less than a byte, are exactly
  a tree in which every node is shown by its genuine hash or opened into two different children (\<open>proof_of\<close>), and the
  transactions returned are those of the block at the positions the bits mark, in their order.  Otherwise there
  are two different pairs with the same hash among those hashed in the block's tree and in the extraction.  The number
  of transactions, which the code does not check against the block, is assumed to be right.\<close>

theorem partial_tree_sound:
  assumes "xs \<noteq> []" "length xs \<le> 2 ^ 31"
    and "ComputeMerkleRoot H xs = Some (root, mutated)" "root \<noteq> 0"
    and "pmt_nTransactions t = length xs" "ExtractMatches H t = Some (root, vMatch)"
  shows "(\<exists>L b pad ms. tree_height (length xs) = Some L \<and> proof_of H xs L 0 b (pmt_vHash t) ms
      \<and> pmt_vBits t = b @ pad \<and> length pad < 8
      \<and> vMatch = map (\<lambda>p. xs ! p) ms \<and> sorted_wrt (<) ms \<and> set ms \<subseteq> {..<length xs})
    \<or> collision H (node_pairs H xs \<union> opened_pairs H t)"
proof (rule disjCI)
  let ?P = "node_pairs H xs \<union> opened_pairs H t"
  assume c: "\<not> collision H ?P"
  obtain L where L: "tree_height (length xs) = Some L" "root = CalcHash H xs L 0"
    using ComputeMerkleRoot_ok [OF assms(1,2), of H] assms(3) by auto
  let ?s = "\<lparr> ex_nBitsUsed = 0, ex_nHashUsed = 0, ex_vMatch = [], ex_fBad = pmt_fBad t \<rparr>"
  obtain h s' where e: "TraverseAndExtract H t L 0 ?s = (h, s')" by (cases "TraverseAndExtract H t L 0 ?s")
  then have s': "h = CalcHash H xs L 0" "\<not> ex_fBad s'" "vMatch = ex_vMatch s'"
      "(ex_nBitsUsed s' + 7) div 8 = (length (pmt_vBits t) + 7) div 8" "ex_nHashUsed s' = length (pmt_vHash t)"
    using assms(4-6) L by (auto simp: ExtractMatches_def split: if_splits)
  have "extract_pairs H t L 0 ?s \<subseteq> ?P" using L(1) assms(5) by (simp add: opened_pairs_def)
  then obtain b hs ms where r: "proof_of H xs L 0 b hs ms" "stands_at t ?s b hs" "s' = advance (length b) (length hs) (map (\<lambda>p. xs ! p) ms) ?s"
    using extract_sound [OF c Un_upper1 assms(5) _ _ e [unfolded s'(1)] s'(2)] tree_height_least [OF L(1)] assms(1) by auto
  have b: "take (length b) (pmt_vBits t) = b" "hs = pmt_vHash t" using r(2) s'(5) unfolding r(3) by (simp_all add: stands_at_iff)
  have "(length b + 7) div 8 = (length (pmt_vBits t) + 7) div 8" using s'(4) unfolding r(3) by simp
  then have "length (pmt_vBits t) < length b + 8" by linarith
  then have "length (drop (length b) (pmt_vBits t)) < 8" using r(2) by (simp add: stands_at_iff)
  moreover have "pmt_vBits t = b @ drop (length b) (pmt_vBits t)" using b(1) by (metis append_take_drop_id)
  moreover have "vMatch = map (\<lambda>p. xs ! p) ms" using s'(3) unfolding r(3) by simp
  moreover have "sorted_wrt (<) ms" "set ms \<subseteq> {..<length xs}" using proof_of_positions [OF r(1)] by auto
  ultimately show "\<exists>L b pad ms. tree_height (length xs) = Some L \<and> proof_of H xs L 0 b (pmt_vHash t) ms
      \<and> pmt_vBits t = b @ pad \<and> length pad < 8
      \<and> vMatch = map (\<lambda>p. xs ! p) ms \<and> sorted_wrt (<) ms \<and> set ms \<subseteq> {..<length xs}"
    using L(1) r(1) unfolding b(2) by blast
qed

text \<open>A tree of two 256-bit leaves, of which the first is matched, with two bits of padding.\<close>

definition word_tree :: "uint256 CPartialMerkleTree" where
  "word_tree = \<lparr> pmt_nTransactions = 2, pmt_vBits = [True, True, False, False, False], pmt_vHash = [2, 4], pmt_fBad = False \<rparr>"

lemma partial_tree_sound_witness:
  "ComputeMerkleRoot word_hash [2, 4] = Some (36, False) \<and> ExtractMatches word_hash word_tree = Some (36, [2])
    \<and> (\<exists>b pad ms. proof_of word_hash [2, 4] 1 0 b [2, 4] ms \<and> [True, True, False, False, False] = b @ pad \<and> length pad < 8
      \<and> [2] = map (\<lambda>p. [2, 4 :: uint256] ! p) ms)"
proof -
  have h: "tree_height 2 = Some (Suc 0)" by (rule tree_height_ok) simp_all
  have w: "CalcTreeWidth 2 0 = 2" by (simp add: CalcTreeWidth_def)
  have r: "ComputeMerkleRoot word_hash [2, 4] = Some (36, False)" by (simp add: pair_root word_hash_def)
  have e: "ExtractMatches word_hash word_tree = Some (36, [2])"
    unfolding ExtractMatches_def word_tree_def
    by (simp add: h w MAX_BLOCK_SIZE_def TraverseAndExtract.simps [of _ _ "Suc 0"] TraverseAndExtract.simps [of _ _ 0] Let_def word_hash_def)
  have "opened_pairs word_hash word_tree = {(2, 4)}"
    unfolding opened_pairs_def word_tree_def
    by (simp add: h w extract_pairs.simps(2) TraverseAndExtract.simps [of _ _ 0] Let_def)
  then have "\<not> collision word_hash (node_pairs word_hash [2, 4] \<union> opened_pairs word_hash word_tree)"
    by (simp add: pair_node collision_def)
  then obtain L b pad ms where L: "tree_height (length [2 :: uint256, 4]) = Some L"
    and x: "proof_of word_hash [2, 4] L 0 b (pmt_vHash word_tree) ms" "pmt_vBits word_tree = b @ pad" "length pad < 8"
      "[2] = map (\<lambda>p. [2, 4 :: uint256] ! p) ms"
    using partial_tree_sound [OF _ _ r _ _ e] by (auto simp: word_tree_def)
  from L have "L = 1" using h by (simp add: numeral_2_eq_2)
  from x [unfolded this word_tree_def CPartialMerkleTree.simps] show ?thesis using r e by (intro conjI exI)
qed

end
