(* ===== verification/Chain_Select.thy ===== *)
theory Chain_Select
  imports Chain Tx_Check
begin

text \<open>
  How a node follows the chain with the most work (src/src/main.cpp): the set of candidates, the blocks whose
  predecessors are missing, the reorganisation to a better chain, and blocks that are marked as invalid by hand.

  Entries of the block index are shared and change, so they live in a store: a pointer is a number, and the store maps
  it to the fields that this component reads.  The work is the number that the limbs of \<open>nChainWork\<close> hold.  The walk
  to an ancestor follows \<open>pprev\<close>; \<open>Chain_Props\<close> shows that the walk over the skip list ends at the same entry.  What
  lies behind the coin cache (reading a block, \<open>ConnectBlock\<close>, \<open>DisconnectBlock\<close>, flushing) is a record of functions
  on a state \<open>'v\<close> of its own.  The memory pool, the wallet and the warnings are not modelled.  A function returns
  \<open>None\<close> where the program fails an assertion or dereferences a null pointer.
\<close>

subsection \<open>The store\<close>

record node =
  nd_hash :: uint256
  nd_pprev :: "nat option"
  nd_nHeight :: int
  nd_nChainWork :: nat
  nd_nTx :: nat
  nd_nChainTx :: nat
  nd_nStatus :: u32
  nd_nSequenceId :: nat

type_synonym store = "nat \<Rightarrow> node"

definition nd_failed :: "node \<Rightarrow> bool" where
  "nd_failed n \<longleftrightarrow> nd_nStatus n AND BLOCK_FAILED_MASK \<noteq> 0"

definition nd_has_data :: "node \<Rightarrow> bool" where
  "nd_has_data n \<longleftrightarrow> nd_nStatus n AND BLOCK_HAVE_DATA \<noteq> 0"

text \<open>The levels asked for are constants, so that the assertion in \<open>IsValid\<close> and \<open>RaiseValidity\<close> holds.\<close>

definition nd_IsValid :: "node \<Rightarrow> u32 \<Rightarrow> bool" where
  "nd_IsValid n nUpTo \<longleftrightarrow> \<not> nd_failed n \<and> nd_nStatus n AND BLOCK_VALID_MASK \<ge> nUpTo"

definition nd_RaiseValidity :: "u32 \<Rightarrow> node \<Rightarrow> node" where
  "nd_RaiseValidity nUpTo n =
     (if nd_failed n then n
      else if nd_nStatus n AND BLOCK_VALID_MASK < nUpTo
      then n\<lparr> nd_nStatus := (nd_nStatus n AND NOT BLOCK_VALID_MASK) OR nUpTo \<rparr> else n)"

definition set_flag :: "u32 \<Rightarrow> node \<Rightarrow> node" where
  "set_flag f n = n\<lparr> nd_nStatus := nd_nStatus n OR f \<rparr>"

definition clear_failed :: "node \<Rightarrow> node" where
  "clear_failed n = n\<lparr> nd_nStatus := nd_nStatus n AND NOT BLOCK_FAILED_MASK \<rparr>"

fun nd_back :: "store \<Rightarrow> nat \<Rightarrow> nat option \<Rightarrow> nat option" where
  "nd_back N k None = None"
| "nd_back N 0 p = p"
| "nd_back N (Suc k) (Some p) = nd_back N k (nd_pprev (N p))"

definition nd_GetAncestor :: "store \<Rightarrow> nat \<Rightarrow> int \<Rightarrow> nat option" where
  "nd_GetAncestor N p h =
     (if h > nd_nHeight (N p) \<or> h < 0 then None else nd_back N (nat (nd_nHeight (N p) - h)) (Some p))"

subsection \<open>The order of the candidates\<close>

definition CBlockIndexWorkComparator :: "store \<Rightarrow> nat \<Rightarrow> nat \<Rightarrow> bool" where
  "CBlockIndexWorkComparator N pa pb =
     (if nd_nChainWork (N pa) > nd_nChainWork (N pb) then False
      else if nd_nChainWork (N pa) < nd_nChainWork (N pb) then True
      else if nd_nSequenceId (N pa) < nd_nSequenceId (N pb) then False
      else if nd_nSequenceId (N pa) > nd_nSequenceId (N pb) then True
      else if pa < pb then False else if pa > pb then True else False)"

text \<open>The ordered set as the list of its elements from the least to the greatest.\<close>

fun set_insert :: "store \<Rightarrow> nat \<Rightarrow> nat list \<Rightarrow> nat list" where
  "set_insert N x [] = [x]"
| "set_insert N x (y # ys) =
     (if CBlockIndexWorkComparator N x y then x # y # ys
      else if CBlockIndexWorkComparator N y x then y # set_insert N x ys else y # ys)"

definition set_erase :: "store \<Rightarrow> nat \<Rightarrow> nat list \<Rightarrow> nat list" where
  "set_erase N x ys = filter (\<lambda>y. CBlockIndexWorkComparator N x y \<or> CBlockIndexWorkComparator N y x) ys"

subsection \<open>The state\<close>

text \<open>What the node remembers of a peer that sent a block.\<close>

record peer_state =
  ps_nMisbehavior :: int
  ps_fShouldBan :: bool
  ps_rejects :: "(nat \<times> string \<times> uint256) list"

record 'v chain_state =
  cs_node :: store
  cs_index :: "nat list"
  cs_active :: "nat list"
  cs_candidates :: "nat list"
  cs_unlinked :: "(nat \<times> nat) list"
  cs_bestInvalid :: "nat option"
  cs_nBlockSequenceId :: nat
  cs_source :: "uint256 \<Rightarrow> nat option"
  cs_peers :: "nat \<Rightarrow> peer_state option"
  cs_coins :: 'v

abbreviation nod :: "'v chain_state \<Rightarrow> nat \<Rightarrow> node" where
  "nod st \<equiv> cs_node st"

definition update_node :: "nat \<Rightarrow> (node \<Rightarrow> node) \<Rightarrow> 'v chain_state \<Rightarrow> 'v chain_state" where
  "update_node p f st = st\<lparr> cs_node := (cs_node st)(p := f (cs_node st p)) \<rparr>"

definition erase_candidate :: "nat \<Rightarrow> 'v chain_state \<Rightarrow> 'v chain_state" where
  "erase_candidate p st = st\<lparr> cs_candidates := set_erase (cs_node st) p (cs_candidates st) \<rparr>"

definition insert_candidate :: "nat \<Rightarrow> 'v chain_state \<Rightarrow> 'v chain_state" where
  "insert_candidate p st = st\<lparr> cs_candidates := set_insert (cs_node st) p (cs_candidates st) \<rparr>"

subsection \<open>The active chain\<close>

definition ac_Tip :: "'v chain_state \<Rightarrow> nat option" where
  "ac_Tip st = (if cs_active st = [] then None else Some (last (cs_active st)))"

definition ac_Height :: "'v chain_state \<Rightarrow> int" where
  "ac_Height st = int (length (cs_active st)) - 1"

definition ac_Contains :: "'v chain_state \<Rightarrow> nat \<Rightarrow> bool" where
  "ac_Contains st p \<longleftrightarrow> 0 \<le> nd_nHeight (nod st p) \<and> nd_nHeight (nod st p) < int (length (cs_active st))
     \<and> cs_active st ! nat (nd_nHeight (nod st p)) = p"

text \<open>\<open>SetTip\<close> resizes the vector and writes entries downwards until one is in place; new elements of the
  vector are null pointers.\<close>

fun ac_settip_loop :: "store \<Rightarrow> nat \<Rightarrow> nat option \<Rightarrow> nat option list \<Rightarrow> nat option list" where
  "ac_settip_loop N 0 p xs = xs"
| "ac_settip_loop N (Suc k) None xs = xs"
| "ac_settip_loop N (Suc k) (Some p) xs =
     (let h = nat (nd_nHeight (N p)) in
      if h < length xs \<and> xs ! h = Some p then xs else ac_settip_loop N k (nd_pprev (N p)) (xs[h := Some p]))"

definition resize_null :: "nat \<Rightarrow> nat list \<Rightarrow> nat option list" where
  "resize_null n xs = take n (map Some xs) @ replicate (n - length xs) None"

definition ac_SetTip :: "nat option \<Rightarrow> 'v chain_state \<Rightarrow> 'v chain_state" where
  "ac_SetTip pindex st = (case pindex of
      None \<Rightarrow> st\<lparr> cs_active := [] \<rparr>
    | Some p \<Rightarrow> let n = nat (nd_nHeight (nod st p) + 1) in
        st\<lparr> cs_active := map the (ac_settip_loop (nod st) n (Some p) (resize_null n (cs_active st))) \<rparr>)"

fun ac_fork_loop :: "'v chain_state \<Rightarrow> nat \<Rightarrow> nat option \<Rightarrow> nat option" where
  "ac_fork_loop st 0 p = None"
| "ac_fork_loop st (Suc k) None = None"
| "ac_fork_loop st (Suc k) (Some p) = (if ac_Contains st p then Some p else ac_fork_loop st k (nd_pprev (nod st p)))"

definition ac_FindFork :: "'v chain_state \<Rightarrow> nat \<Rightarrow> nat option" where
  "ac_FindFork st p =
     (let start = (if nd_nHeight (nod st p) > ac_Height st then nd_GetAncestor (nod st) p (ac_Height st) else Some p)
      in ac_fork_loop st (nat (nd_nHeight (nod st p)) + 1) start)"

subsection \<open>Invalid blocks\<close>

definition Misbehaving :: "int \<Rightarrow> nat \<Rightarrow> int \<Rightarrow> 'v chain_state \<Rightarrow> 'v chain_state" where
  "Misbehaving banscore pnode howmuch st =
     (if howmuch = 0 then st
      else case cs_peers st pnode of
        None \<Rightarrow> st
      | Some s \<Rightarrow>
          (let m = ps_nMisbehavior s + howmuch;
               s' = s\<lparr> ps_nMisbehavior := m, ps_fShouldBan := ps_fShouldBan s \<or> (m \<ge> banscore \<and> m - howmuch < banscore) \<rparr>
           in st\<lparr> cs_peers := (cs_peers st)(pnode \<mapsto> s') \<rparr>))"

definition more_work :: "store \<Rightarrow> nat \<Rightarrow> nat option \<Rightarrow> bool" where
  "more_work N p q = (case q of None \<Rightarrow> True | Some r \<Rightarrow> nd_nChainWork (N p) > nd_nChainWork (N r))"

definition InvalidChainFound :: "nat \<Rightarrow> 'v chain_state \<Rightarrow> 'v chain_state option" where
  "InvalidChainFound pindexNew st =
     (if ac_Tip st = None then None
      else Some (if more_work (nod st) pindexNew (cs_bestInvalid st) then st\<lparr> cs_bestInvalid := Some pindexNew \<rparr> else st))"

definition MAX_REJECT_MESSAGE_LENGTH :: nat where "MAX_REJECT_MESSAGE_LENGTH = 111"
definition REJECT_INTERNAL :: nat where "REJECT_INTERNAL = 0x100"

text \<open>The sender of an invalid block is told and, if the rejection has a ban score, punished.\<close>

definition blame_source :: "int \<Rightarrow> nat \<Rightarrow> CValidationState \<Rightarrow> 'v chain_state \<Rightarrow> 'v chain_state option" where
  "blame_source banscore pindex vs st =
     (case cs_source st (nd_hash (nod st pindex)) of
        None \<Rightarrow> Some st
      | Some pnode \<Rightarrow>
          (case cs_peers st pnode of
             None \<Rightarrow> Some st
           | Some s \<Rightarrow>
               if vs_chRejectCode vs \<ge> REJECT_INTERNAL then None
               else let r = (vs_chRejectCode vs mod 256, take MAX_REJECT_MESSAGE_LENGTH (vs_strRejectReason vs), nd_hash (nod st pindex));
                        st1 = st\<lparr> cs_peers := (cs_peers st)(pnode \<mapsto> s\<lparr> ps_rejects := ps_rejects s @ [r] \<rparr>) \<rparr>
                    in Some (if vs_nDoS vs > 0 then Misbehaving banscore pnode (vs_nDoS vs) st1 else st1)))"

definition InvalidBlockFound :: "int \<Rightarrow> nat \<Rightarrow> CValidationState \<Rightarrow> 'v chain_state \<Rightarrow> 'v chain_state option" where
  "InvalidBlockFound banscore pindex vs st =
     (case (if IsInvalid vs then blame_source banscore pindex vs st else Some st) of
        None \<Rightarrow> None
      | Some st1 \<Rightarrow>
          if vs_corruptionPossible vs then Some st1
          else InvalidChainFound pindex (erase_candidate pindex (update_node pindex (set_flag BLOCK_FAILED_VALID) st1)))"

subsection \<open>One block more or less\<close>

text \<open>What lies behind the coin cache.  \<open>bo_connect\<close> and \<open>bo_disconnect\<close> return whether the block was applied to a new
  cache, and that state flushed; the others may fail for reasons of the system.\<close>

record 'v block_ops =
  bo_read :: "nat \<Rightarrow> 'v \<Rightarrow> bool"
  bo_connect :: "nat \<Rightarrow> 'v \<Rightarrow> CValidationState \<Rightarrow> bool \<times> CValidationState \<times> 'v"
  bo_disconnect :: "nat \<Rightarrow> 'v \<Rightarrow> CValidationState \<Rightarrow> bool \<times> CValidationState \<times> 'v"
  bo_flush :: "'v \<Rightarrow> bool"
  bo_shutdown :: "'v \<Rightarrow> bool"
  bo_banscore :: int

type_synonym 'v step_result = "bool \<times> CValidationState \<times> 'v chain_state"

definition UpdateTip :: "nat option \<Rightarrow> 'v chain_state \<Rightarrow> 'v chain_state" where
  "UpdateTip pindexNew st = ac_SetTip pindexNew st"

definition DisconnectTip :: "'v block_ops \<Rightarrow> CValidationState \<Rightarrow> 'v chain_state \<Rightarrow> 'v step_result option" where
  "DisconnectTip ops vs st =
     (case ac_Tip st of
        None \<Rightarrow> None
      | Some pindexDelete \<Rightarrow>
          if \<not> bo_read ops pindexDelete (cs_coins st) then Some (False, Error_state vs ''Failed to read block'', st)
          else (case bo_disconnect ops pindexDelete (cs_coins st) vs of (ok, vs', v) \<Rightarrow>
            if \<not> ok then Some (False, vs', st)
            else if \<not> bo_flush ops v then Some (False, Error_state vs' ''Failed to write to coin database'', st\<lparr> cs_coins := v \<rparr>)
            else Some (True, vs', UpdateTip (nd_pprev (nod st pindexDelete)) (st\<lparr> cs_coins := v \<rparr>))))"

definition ConnectTip :: "'v block_ops \<Rightarrow> nat \<Rightarrow> CValidationState \<Rightarrow> 'v chain_state \<Rightarrow> 'v step_result option" where
  "ConnectTip ops pindexNew vs st =
     (if nd_pprev (nod st pindexNew) \<noteq> ac_Tip st then None
      else if \<not> bo_read ops pindexNew (cs_coins st) then Some (False, Error_state vs ''Failed to read block'', st)
      else (case bo_connect ops pindexNew (cs_coins st) vs of (rv, vs', v) \<Rightarrow>
        if \<not> rv then (if IsInvalid vs' then map_option (\<lambda>st'. (False, vs', st')) (InvalidBlockFound (bo_banscore ops) pindexNew vs' st)
                      else Some (False, vs', st))
        else let st1 = st\<lparr> cs_source := (cs_source st)(nd_hash (nod st pindexNew) := None), cs_coins := v \<rparr> in
          if \<not> bo_flush ops v then Some (False, Error_state vs' ''Failed to write to coin database'', st1)
          else Some (True, vs', UpdateTip (Some pindexNew) st1)))"

text \<open>\<open>DisconnectBlocks\<close>.\<close>

fun DisconnectBlocks :: "'v block_ops \<Rightarrow> nat \<Rightarrow> CValidationState \<Rightarrow> 'v chain_state \<Rightarrow> (bool \<times> 'v chain_state) option" where
  "DisconnectBlocks ops 0 vs st = Some (True, st)"
| "DisconnectBlocks ops (Suc n) vs st =
     (case DisconnectTip ops vs st of
        None \<Rightarrow> None
      | Some (ok, vs', st') \<Rightarrow> if \<not> ok \<or> vs_mode vs' \<noteq> MODE_VALID then Some (False, st') else DisconnectBlocks ops n vs' st')"

subsection \<open>The candidate with the most work\<close>

datatype path_test = path_clean | path_bad nat

text \<open>The inner loop of \<open>FindMostWorkChain\<close>: from the candidate down to the active chain.  The loops over predecessors
  have the height as fuel, which is enough as heights decrease.\<close>

fun test_path :: "'v chain_state \<Rightarrow> nat \<Rightarrow> nat option \<Rightarrow> path_test option" where
  "test_path st 0 pindexTest = None"
| "test_path st (Suc k) None = Some path_clean"
| "test_path st (Suc k) (Some t) =
     (if ac_Contains st t then Some path_clean
      else if nd_nChainTx (nod st t) = 0 \<and> nd_nHeight (nod st t) \<noteq> 0 then None
      else if nd_failed (nod st t) \<or> \<not> nd_has_data (nod st t) then Some (path_bad t)
      else test_path st k (nd_pprev (nod st t)))"

text \<open>From the candidate to the entry that cannot be used, candidates are removed; they are marked, or noted as
  waiting for data.\<close>

fun drop_path :: "nat \<Rightarrow> bool \<Rightarrow> nat \<Rightarrow> nat \<Rightarrow> 'v chain_state \<Rightarrow> 'v chain_state option" where
  "drop_path 0 fFailedChain pindexTest pindexFailed st = None"
| "drop_path (Suc k) fFailedChain pindexTest pindexFailed st =
     (if pindexTest = pindexFailed then Some (erase_candidate pindexTest st)
      else let q = nd_pprev (nod st pindexFailed);
               st1 = (if fFailedChain then update_node pindexFailed (set_flag BLOCK_FAILED_CHILD) st
                      else case q of None \<Rightarrow> st | Some r \<Rightarrow> st\<lparr> cs_unlinked := cs_unlinked st @ [(r, pindexFailed)] \<rparr>);
               st2 = erase_candidate pindexFailed st1
           in case q of None \<Rightarrow> None | Some r \<Rightarrow> drop_path k fFailedChain pindexTest r st2)"

definition path_fuel :: "'v chain_state \<Rightarrow> nat \<Rightarrow> nat" where
  "path_fuel st p = nat (nd_nHeight (nod st p)) + 2"

text \<open>Every round removes a candidate, so that their number bounds the rounds.\<close>

fun find_most_work :: "nat \<Rightarrow> 'v chain_state \<Rightarrow> ('v chain_state \<times> nat option) option" where
  "find_most_work 0 st = None"
| "find_most_work (Suc k) st =
     (if cs_candidates st = [] then Some (st, None)
      else let pindexNew = last (cs_candidates st) in
        case test_path st (path_fuel st pindexNew) (Some pindexNew) of
          None \<Rightarrow> None
        | Some path_clean \<Rightarrow> Some (st, Some pindexNew)
        | Some (path_bad t) \<Rightarrow>
            (let fFailedChain = nd_failed (nod st t);
                 st1 = (if fFailedChain \<and> more_work (nod st) pindexNew (cs_bestInvalid st) then st\<lparr> cs_bestInvalid := Some pindexNew \<rparr> else st)
             in case drop_path (path_fuel st pindexNew) fFailedChain t pindexNew st1 of
                  None \<Rightarrow> None
                | Some st2 \<Rightarrow> find_most_work k st2))"

definition FindMostWorkChain :: "'v chain_state \<Rightarrow> ('v chain_state \<times> nat option) option" where
  "FindMostWorkChain st = find_most_work (length (cs_candidates st) + 1) st"

definition PruneBlockIndexCandidates :: "'v chain_state \<Rightarrow> 'v chain_state option" where
  "PruneBlockIndexCandidates st =
     (case ac_Tip st of
        None \<Rightarrow> None
      | Some tip \<Rightarrow>
          (let cs = dropWhile (\<lambda>c. CBlockIndexWorkComparator (nod st) c tip) (cs_candidates st)
           in if cs = [] then None else Some (st\<lparr> cs_candidates := cs \<rparr>)))"

subsection \<open>Reorganisation\<close>

text \<open>The first loop of \<open>ActivateBestChainStep\<close>; each round shortens the active chain.\<close>

fun disconnect_to :: "'v block_ops \<Rightarrow> nat \<Rightarrow> nat option \<Rightarrow> CValidationState \<Rightarrow> 'v chain_state \<Rightarrow> 'v step_result option" where
  "disconnect_to ops k pindexFork vs st =
     (if ac_Tip st = None \<or> ac_Tip st = pindexFork then Some (True, vs, st)
      else case k of
        0 \<Rightarrow> None
      | Suc k' \<Rightarrow>
          (case DisconnectTip ops vs st of
             None \<Rightarrow> None
           | Some (False, r) \<Rightarrow> Some (False, r)
           | Some (True, vs', st') \<Rightarrow> disconnect_to ops k' pindexFork vs' st'))"

text \<open>The blocks to connect, the highest first.\<close>

fun to_connect :: "store \<Rightarrow> nat \<Rightarrow> nat option \<Rightarrow> int \<Rightarrow> nat list" where
  "to_connect N 0 pindexIter nHeight = []"
| "to_connect N (Suc k) None nHeight = []"
| "to_connect N (Suc k) (Some p) nHeight =
     (if nd_nHeight (N p) = nHeight then [] else p # to_connect N k (nd_pprev (N p)) nHeight)"

datatype step_end = go_on | better_tip | found_invalid | system_error

fun connect_each :: "'v block_ops \<Rightarrow> nat option \<Rightarrow> nat \<Rightarrow> nat list \<Rightarrow> CValidationState \<Rightarrow> 'v chain_state \<Rightarrow>
    (step_end \<times> CValidationState \<times> 'v chain_state) option" where
  "connect_each ops pindexOldTip lowest [] vs st = Some (go_on, vs, st)"
| "connect_each ops pindexOldTip lowest (p # ps) vs st =
     (case ConnectTip ops p vs st of
        None \<Rightarrow> None
      | Some (True, vs', st') \<Rightarrow>
          (case PruneBlockIndexCandidates st' of
             None \<Rightarrow> None
           | Some st'' \<Rightarrow>
               (case ac_Tip st'' of
                  None \<Rightarrow> None
                | Some tip \<Rightarrow>
                    if more_work (nod st'') tip pindexOldTip then Some (better_tip, vs', st'')
                    else connect_each ops pindexOldTip lowest ps vs' st''))
      | Some (False, vs', st') \<Rightarrow>
          if IsInvalid vs'
          then map_option (\<lambda>st''. (found_invalid, CValidationState_init, st''))
                 (if vs_corruptionPossible vs' then Some st' else InvalidChainFound lowest st')
          else Some (system_error, vs', st'))"

text \<open>The batches of at most 32 blocks; \<open>nTop\<close> is the height of \<open>pindexMostWork\<close>.\<close>

function connect_batches :: "'v block_ops \<Rightarrow> nat option \<Rightarrow> nat \<Rightarrow> int \<Rightarrow> int \<Rightarrow> CValidationState \<Rightarrow> 'v chain_state \<Rightarrow>
    (step_end \<times> CValidationState \<times> 'v chain_state) option" where
  "connect_batches ops pindexOldTip mostWork nTop nHeight vs st =
     (if nHeight = nTop then Some (go_on, vs, st)
      else let nTargetHeight = min (nHeight + 32) nTop;
               vpindexToConnect = to_connect (nod st) (nat (nTargetHeight - nHeight)) (nd_GetAncestor (nod st) mostWork nTargetHeight) nHeight
           in case connect_each ops pindexOldTip (last vpindexToConnect) (rev vpindexToConnect) vs st of
                Some (go_on, vs', st') \<Rightarrow> connect_batches ops pindexOldTip mostWork nTop nTargetHeight vs' st'
              | r \<Rightarrow> r)"
  by pat_completeness auto
termination
  by (relation "measure (\<lambda>(ops, old, m, nTop, h, vs, st). nat \<bar>nTop - h\<bar>)") (auto simp: Let_def min_def)

text \<open>The result of a step: whether it succeeded, and whether an invalid block was found.\<close>

definition ActivateBestChainStep :: "'v block_ops \<Rightarrow> nat \<Rightarrow> CValidationState \<Rightarrow> 'v chain_state \<Rightarrow>
    (bool \<times> bool \<times> CValidationState \<times> 'v chain_state) option" where
  "ActivateBestChainStep ops pindexMostWork vs st =
     (let pindexFork = ac_FindFork st pindexMostWork in
      case disconnect_to ops (length (cs_active st)) pindexFork vs st of
        None \<Rightarrow> None
      | Some (False, vs', st') \<Rightarrow> Some (False, False, vs', st')
      | Some (True, vs', st') \<Rightarrow>
          (case connect_batches ops (ac_Tip st) pindexMostWork (nd_nHeight (nod st pindexMostWork))
                  (case pindexFork of Some f \<Rightarrow> nd_nHeight (nod st f) | None \<Rightarrow> -1) vs' st' of
             None \<Rightarrow> None
           | Some (e, vs'', st'') \<Rightarrow>
               if e = system_error then Some (False, False, vs'', st'')
               else if cs_active st' \<noteq> cs_active st \<and> ac_Tip st'' = None then None
               else Some (True, e = found_invalid, vs'', st'')))"

text \<open>\<open>ActivateBestChain\<close> may loop for ever, for example if the block on the disk is corrupted, so it is a partial
  function.  The result of the shutdown branch is that of the code after the loop.\<close>

partial_function (option) activate_loop ::
  "'v block_ops \<Rightarrow> nat option \<Rightarrow> CValidationState \<Rightarrow> 'v chain_state \<Rightarrow> 'v step_result option" where
  "activate_loop ops pindexMostWork vs st =
     (if bo_shutdown ops (cs_coins st) then Some (bo_flush ops (cs_coins st), vs, st)
      else case (case pindexMostWork of Some p \<Rightarrow> Some (st, Some p) | None \<Rightarrow> FindMostWorkChain st) of
        None \<Rightarrow> None
      | Some (st1, None) \<Rightarrow> Some (True, vs, st1)
      | Some (st1, Some most) \<Rightarrow>
          if ac_Tip st1 = Some most then Some (True, vs, st1)
          else (case ActivateBestChainStep ops most vs st1 of
              None \<Rightarrow> None
            | Some (ok, fInvalidFound, vs', st2) \<Rightarrow>
                if \<not> ok then Some (False, vs', st2)
                else if ac_Tip st2 = (if fInvalidFound then None else Some most) then Some (bo_flush ops (cs_coins st2), vs', st2)
                else activate_loop ops (if fInvalidFound then None else Some most) vs' st2))"

definition ActivateBestChain :: "'v block_ops \<Rightarrow> CValidationState \<Rightarrow> 'v chain_state \<Rightarrow> 'v step_result option" where
  "ActivateBestChain ops vs st = activate_loop ops None vs st"

subsection \<open>Blocks whose data arrives\<close>

text \<open>The queue of \<open>ReceivedBlockTransactions\<close>: an entry is linked, becomes a candidate if it is as good as the tip, and
  the entries that waited for it follow.\<close>

definition waiting_for :: "nat \<Rightarrow> (nat \<times> nat) list \<Rightarrow> nat list" where
  "waiting_for p unlinked = map snd (filter (\<lambda>e. fst e = p) unlinked)"

definition link_entry :: "nat \<Rightarrow> 'v chain_state \<Rightarrow> 'v chain_state" where
  "link_entry p st =
     (let n = nod st p;
          before = (case nd_pprev n of None \<Rightarrow> 0 | Some q \<Rightarrow> nd_nChainTx (nod st q));
          st1 = (update_node p (\<lambda>n. n\<lparr> nd_nChainTx := (before + nd_nTx n) mod 2 ^ 32, nd_nSequenceId := cs_nBlockSequenceId st \<rparr>) st)
                  \<lparr> cs_nBlockSequenceId := (cs_nBlockSequenceId st + 1) mod 2 ^ 32 \<rparr>
      in case ac_Tip st1 of
           None \<Rightarrow> insert_candidate p st1
         | Some tip \<Rightarrow> if \<not> CBlockIndexWorkComparator (nod st1) p tip then insert_candidate p st1 else st1)"

lemma cs_unlinked_link_entry [simp]: "cs_unlinked (link_entry p st) = cs_unlinked st"
  by (simp add: link_entry_def update_node_def insert_candidate_def Let_def split: option.split)

function link_loop :: "nat list \<Rightarrow> 'v chain_state \<Rightarrow> 'v chain_state" where
  "link_loop [] st = st"
| "link_loop (p # queue) st =
     (let st1 = link_entry p st in
      link_loop (queue @ waiting_for p (cs_unlinked st1))
        (st1\<lparr> cs_unlinked := filter (\<lambda>e. fst e \<noteq> p) (cs_unlinked st1) \<rparr>))"
  by pat_completeness auto
termination
proof (relation "measure (\<lambda>(queue, st). length queue + 2 * length (cs_unlinked st))", goal_cases)
  case (2 p queue st st1)
  have "length (waiting_for p xs) + length (filter (\<lambda>e. fst e \<noteq> p) xs) = length xs" for xs :: "(nat \<times> nat) list"
    unfolding waiting_for_def using sum_length_filter_compl [of "\<lambda>e. fst e = p" xs] by simp
  from this [of "cs_unlinked st"] show ?case using 2 by simp
qed simp

definition ReceivedBlockTransactions :: "CBlock \<Rightarrow> nat \<Rightarrow> 'v chain_state \<Rightarrow> 'v chain_state" where
  "ReceivedBlockTransactions block pindexNew st =
     (let st1 = update_node pindexNew (\<lambda>n. nd_RaiseValidity BLOCK_VALID_TRANSACTIONS
                  (set_flag BLOCK_HAVE_DATA (n\<lparr> nd_nTx := length (blk_vtx block) mod 2 ^ 32, nd_nChainTx := 0 \<rparr>))) st
      in case nd_pprev (nod st1 pindexNew) of
           None \<Rightarrow> link_loop [pindexNew] st1
         | Some q \<Rightarrow>
             if nd_nChainTx (nod st1 q) \<noteq> 0 then link_loop [pindexNew] st1
             else if nd_IsValid (nod st1 q) BLOCK_VALID_TREE then st1\<lparr> cs_unlinked := cs_unlinked st1 @ [(q, pindexNew)] \<rparr>
             else st1)"

subsection \<open>Blocks marked by hand\<close>

fun invalidate_loop :: "'v block_ops \<Rightarrow> nat \<Rightarrow> nat \<Rightarrow> CValidationState \<Rightarrow> 'v chain_state \<Rightarrow> 'v step_result option" where
  "invalidate_loop ops k pindex vs st =
     (if \<not> ac_Contains st pindex then Some (True, vs, st)
      else case (k, ac_Tip st) of
        (Suc k', Some pindexWalk) \<Rightarrow>
          (case DisconnectTip ops vs (erase_candidate pindexWalk (update_node pindexWalk (set_flag BLOCK_FAILED_CHILD) st)) of
             None \<Rightarrow> None
           | Some (False, r) \<Rightarrow> Some (False, r)
           | Some (True, vs', st') \<Rightarrow> invalidate_loop ops k' pindex vs' st')
      | _ \<Rightarrow> None)"

definition readd_candidate :: "nat \<Rightarrow> nat \<Rightarrow> 'v chain_state \<Rightarrow> 'v chain_state" where
  "readd_candidate tip p st =
     (if nd_IsValid (nod st p) BLOCK_VALID_TRANSACTIONS \<and> nd_nChainTx (nod st p) \<noteq> 0
         \<and> \<not> CBlockIndexWorkComparator (nod st) p tip
      then insert_candidate p st else st)"

definition InvalidateBlock :: "'v block_ops \<Rightarrow> CValidationState \<Rightarrow> nat \<Rightarrow> 'v chain_state \<Rightarrow> 'v step_result option" where
  "InvalidateBlock ops vs pindex st =
     (case invalidate_loop ops (length (cs_active st)) pindex vs
             (erase_candidate pindex (update_node pindex (set_flag BLOCK_FAILED_VALID) st)) of
        None \<Rightarrow> None
      | Some (False, r) \<Rightarrow> Some (False, r)
      | Some (True, vs', st') \<Rightarrow>
          (case ac_Tip st' of
             None \<Rightarrow> None
           | Some tip \<Rightarrow> map_option (\<lambda>st''. (True, vs', st'')) (InvalidChainFound pindex (fold (readd_candidate tip) (cs_index st') st'))))"

definition reconsider_entry :: "nat \<Rightarrow> nat \<Rightarrow> 'v chain_state \<Rightarrow> 'v chain_state option" where
  "reconsider_entry pindex p st =
     (if nd_IsValid (nod st p) BLOCK_VALID_TRANSACTIONS
         \<or> nd_GetAncestor (nod st) p (nd_nHeight (nod st pindex)) \<noteq> Some pindex then Some st
      else let st1 = update_node p clear_failed st in
        case (if nd_IsValid (nod st1 p) BLOCK_VALID_TRANSACTIONS \<and> nd_nChainTx (nod st1 p) \<noteq> 0
              then (case ac_Tip st1 of
                      None \<Rightarrow> None
                    | Some tip \<Rightarrow> Some (if CBlockIndexWorkComparator (nod st1) tip p then insert_candidate p st1 else st1))
              else Some st1) of
          None \<Rightarrow> None
        | Some st2 \<Rightarrow> Some (if cs_bestInvalid st2 = Some p then st2\<lparr> cs_bestInvalid := None \<rparr> else st2))"

fun reconsider_all :: "nat \<Rightarrow> nat list \<Rightarrow> 'v chain_state \<Rightarrow> 'v chain_state option" where
  "reconsider_all pindex [] st = Some st"
| "reconsider_all pindex (p # ps) st =
     (case reconsider_entry pindex p st of None \<Rightarrow> None | Some st' \<Rightarrow> reconsider_all pindex ps st')"

text \<open>The flags of the ancestors; the height bounds their number.\<close>

fun clear_ancestors :: "nat \<Rightarrow> nat option \<Rightarrow> 'v chain_state \<Rightarrow> 'v chain_state" where
  "clear_ancestors 0 p st = st"
| "clear_ancestors (Suc k) None st = st"
| "clear_ancestors (Suc k) (Some p) st =
     clear_ancestors k (nd_pprev (nod st p)) (if nd_failed (nod st p) then update_node p clear_failed st else st)"

definition ReconsiderBlock :: "nat \<Rightarrow> 'v chain_state \<Rightarrow> 'v chain_state option" where
  "ReconsiderBlock pindex st =
     map_option (\<lambda>st'. clear_ancestors (path_fuel st' pindex) (Some pindex) st') (reconsider_all pindex (cs_index st) st)"

end
