(* ===== verification/Chain_Select_Props.thy ===== *)
theory Chain_Select_Props
  imports Chain_Select
begin

text \<open>
  The candidate with the most work is found, linking is complete, and \<open>ActivateBestChain\<close> ends at the best chain.
\<close>

subsection \<open>The order of the candidates is a strict linear order\<close>

lemma cmp_iff: "CBlockIndexWorkComparator N p q \<longleftrightarrow> nd_nChainWork (N p) < nd_nChainWork (N q)
    \<or> nd_nChainWork (N p) = nd_nChainWork (N q) \<and> (nd_nSequenceId (N q) < nd_nSequenceId (N p)
      \<or> nd_nSequenceId (N q) = nd_nSequenceId (N p) \<and> q < p)"
  by (auto simp: CBlockIndexWorkComparator_def)

lemma cmp_irrefl [simp]: "\<not> CBlockIndexWorkComparator N p p"
  by (simp add: cmp_iff)

lemma cmp_trans: "CBlockIndexWorkComparator N p q \<Longrightarrow> CBlockIndexWorkComparator N q r \<Longrightarrow> CBlockIndexWorkComparator N p r"
  unfolding cmp_iff by linarith

lemma cmp_total: "p \<noteq> q \<Longrightarrow> CBlockIndexWorkComparator N p q \<or> CBlockIndexWorkComparator N q p"
  unfolding cmp_iff by linarith

lemma cmp_asym: "CBlockIndexWorkComparator N p q \<Longrightarrow> \<not> CBlockIndexWorkComparator N q p"
  using cmp_trans [of N p q p] by auto

lemma cmp_work: "nd_nChainWork (N p) < nd_nChainWork (N q) \<Longrightarrow> CBlockIndexWorkComparator N p q"
  by (simp add: cmp_iff)

lemma cmp_work_le: "CBlockIndexWorkComparator N p q \<Longrightarrow> nd_nChainWork (N p) \<le> nd_nChainWork (N q)"
  by (auto simp: cmp_iff)

lemma set_erase_filter: "set_erase N x ys = filter (\<lambda>y. y \<noteq> x) ys"
proof -
  have "(CBlockIndexWorkComparator N x y \<or> CBlockIndexWorkComparator N y x) = (y \<noteq> x)" for y
    using cmp_total [of x y N] by (cases "x = y") auto
  then show ?thesis by (simp add: set_erase_def)
qed

lemma set_set_insert: "set (set_insert N x ys) = insert x (set ys)"
proof (induction ys)
  case (Cons y ys)
  then show ?case using cmp_total [of x y N] by (cases "x = y") auto
qed simp

lemma sorted_set_insert:
  "sorted_wrt (CBlockIndexWorkComparator N) ys \<Longrightarrow> sorted_wrt (CBlockIndexWorkComparator N) (set_insert N x ys)"
proof (induction ys)
  case (Cons y ys)
  then show ?case using cmp_trans [of N x y] by (auto simp: set_set_insert)
qed simp

lemma sorted_last:
  assumes "sorted_wrt (CBlockIndexWorkComparator N) ys" "y \<in> set ys"
  shows "y = last ys \<or> CBlockIndexWorkComparator N y (last ys)"
proof -
  have "ys = butlast ys @ [last ys]" using assms(2) by (metis append_butlast_last_id empty_iff list.set(1))
  then have "sorted_wrt (CBlockIndexWorkComparator N) (butlast ys @ [last ys])" "y \<in> set (butlast ys @ [last ys])"
    using assms by metis+
  then show ?thesis by (auto simp: sorted_wrt_append)
qed

lemma sorted_dropWhile:
  assumes "sorted_wrt (CBlockIndexWorkComparator N) ys"
  shows "set (dropWhile (\<lambda>c. CBlockIndexWorkComparator N c t) ys) = {c \<in> set ys. \<not> CBlockIndexWorkComparator N c t}"
  using assms
proof (induction ys)
  case (Cons y ys)
  then show ?case using cmp_trans [of N y _ t] by (simp add: set_eq_iff) blast
qed simp

lemma sorted_dropWhile': "sorted_wrt P ys \<Longrightarrow> sorted_wrt P (dropWhile Q ys)"
  by (induction ys) auto

subsection \<open>The tree of entries\<close>

text \<open>Heights count predecessors, work increases, and there is one root.\<close>

definition tree_ok :: "store \<Rightarrow> nat set \<Rightarrow> bool" where
  "tree_ok N I \<longleftrightarrow> finite I \<and> (\<forall>p\<in>I. (case nd_pprev (N p) of None \<Rightarrow> nd_nHeight (N p) = 0
      | Some q \<Rightarrow> q \<in> I \<and> nd_nHeight (N p) = nd_nHeight (N q) + 1 \<and> nd_nChainWork (N q) < nd_nChainWork (N p)
          \<and> 0 \<le> nd_nHeight (N q) \<and> (nd_nChainTx (N p) \<noteq> 0 \<longrightarrow> nd_nChainTx (N q) \<noteq> 0)))
     \<and> (\<forall>p\<in>I. \<forall>q\<in>I. nd_pprev (N p) = None \<longrightarrow> nd_pprev (N q) = None \<longrightarrow> p = q)"

fun path_upto :: "store \<Rightarrow> nat \<Rightarrow> nat \<Rightarrow> nat list" where
  "path_upto N 0 p = [p]"
| "path_upto N (Suc k) p = (case nd_pprev (N p) of None \<Rightarrow> [p] | Some q \<Rightarrow> path_upto N k q @ [p])"

definition node_path :: "store \<Rightarrow> nat \<Rightarrow> nat list" where
  "node_path N p = path_upto N (nat (nd_nHeight (N p))) p"

lemma tree_pprev:
  "tree_ok N I \<Longrightarrow> p \<in> I \<Longrightarrow> nd_pprev (N p) = Some q \<Longrightarrow> q \<in> I \<and> nd_nHeight (N p) = nd_nHeight (N q) + 1
     \<and> nd_nChainWork (N q) < nd_nChainWork (N p) \<and> 0 \<le> nd_nHeight (N q) \<and> (nd_nChainTx (N p) \<noteq> 0 \<longrightarrow> nd_nChainTx (N q) \<noteq> 0)"
  by (fastforce simp: tree_ok_def)

lemma tree_root: "tree_ok N I \<Longrightarrow> p \<in> I \<Longrightarrow> nd_pprev (N p) = None \<Longrightarrow> nd_nHeight (N p) = 0"
  by (fastforce simp: tree_ok_def)

lemma node_path_root: "tree_ok N I \<Longrightarrow> p \<in> I \<Longrightarrow> nd_pprev (N p) = None \<Longrightarrow> node_path N p = [p]"
  by (simp add: node_path_def tree_root)

lemma node_path_step:
  "tree_ok N I \<Longrightarrow> p \<in> I \<Longrightarrow> nd_pprev (N p) = Some q \<Longrightarrow> node_path N p = node_path N q @ [p]"
  using tree_pprev [of N I p q] by (simp add: node_path_def nat_add_distrib)

lemma node_induct [consumes 2, case_names root step]:
  assumes "tree_ok N I" "p \<in> I" "\<And>p. p \<in> I \<Longrightarrow> nd_pprev (N p) = None \<Longrightarrow> P p"
    "\<And>p q. p \<in> I \<Longrightarrow> q \<in> I \<Longrightarrow> nd_pprev (N p) = Some q \<Longrightarrow> P q \<Longrightarrow> P p"
  shows "P p"
  using assms(2)
proof (induction "nat (nd_nHeight (N p))" arbitrary: p rule: less_induct)
  case less
  show ?case
  proof (cases "nd_pprev (N p)")
    case None
    then show ?thesis using assms(3) less.prems by blast
  next
    case (Some q)
    then have "q \<in> I" "nat (nd_nHeight (N q)) < nat (nd_nHeight (N p))" using tree_pprev [OF assms(1) less.prems Some] by auto
    then show ?thesis using assms(4) [OF less.prems _ Some] less.hyps by blast
  qed
qed

lemma node_path_facts:
  assumes "tree_ok N I" "p \<in> I"
  shows "set (node_path N p) \<subseteq> I \<and> int (length (node_path N p)) = nd_nHeight (N p) + 1 \<and> last (node_path N p) = p
    \<and> node_path N p \<noteq> [] \<and> (\<forall>i < length (node_path N p). nd_nHeight (N (node_path N p ! i)) = int i
        \<and> node_path N (node_path N p ! i) = take (Suc i) (node_path N p)
        \<and> (nd_nChainTx (N p) \<noteq> 0 \<longrightarrow> nd_nChainTx (N (node_path N p ! i)) \<noteq> 0)
        \<and> (i < length (node_path N p) - 1 \<longrightarrow> nd_nChainWork (N (node_path N p ! i)) < nd_nChainWork (N p)))"
  using assms
proof (induction rule: node_induct)
  case (root p)
  then show ?case using assms(1) by (simp add: node_path_root tree_root)
next
  case (step p q)
  note n = tree_pprev [OF assms(1) step(1,3)] and e = node_path_step [OF assms(1) step(1,3)]
  have l: "int (length (node_path N p)) = nd_nHeight (N p) + 1" "set (node_path N p) \<subseteq> I" using step n e by auto
  have "\<forall>i < length (node_path N p). nd_nHeight (N (node_path N p ! i)) = int i
        \<and> node_path N (node_path N p ! i) = take (Suc i) (node_path N p)
        \<and> (nd_nChainTx (N p) \<noteq> 0 \<longrightarrow> nd_nChainTx (N (node_path N p ! i)) \<noteq> 0)
        \<and> (i < length (node_path N p) - 1 \<longrightarrow> nd_nChainWork (N (node_path N p ! i)) < nd_nChainWork (N p))"
  proof (intro allI impI)
    fix i assume "i < length (node_path N p)"
    then consider "i < length (node_path N q) - 1" | "i = length (node_path N q) - 1" | "i = length (node_path N q)"
      using e by fastforce
    then show "nd_nHeight (N (node_path N p ! i)) = int i
        \<and> node_path N (node_path N p ! i) = take (Suc i) (node_path N p)
        \<and> (nd_nChainTx (N p) \<noteq> 0 \<longrightarrow> nd_nChainTx (N (node_path N p ! i)) \<noteq> 0)
        \<and> (i < length (node_path N p) - 1 \<longrightarrow> nd_nChainWork (N (node_path N p ! i)) < nd_nChainWork (N p))"
    proof cases
      case 1
      then have "nd_nHeight (N (node_path N q ! i)) = int i \<and> node_path N (node_path N q ! i) = take (Suc i) (node_path N q)
        \<and> (nd_nChainTx (N q) \<noteq> 0 \<longrightarrow> nd_nChainTx (N (node_path N q ! i)) \<noteq> 0) \<and> nd_nChainWork (N (node_path N q ! i)) < nd_nChainWork (N q)"
        using step.IH by simp
      then show ?thesis using 1 e n by (simp add: nth_append)
    next
      case 2
      have "node_path N q \<noteq> []" "last (node_path N q) = q" using step.IH by auto
      then have "node_path N q ! i = q" "i < length (node_path N q)" "Suc i = length (node_path N q)" using 2 by (auto simp: last_conv_nth)
      then show ?thesis using e n step.IH by (simp add: nth_append)
    next
      case 3
      then show ?thesis using e n step.IH l by (simp add: nth_append)
    qed
  qed
  then show ?case using l e by simp
qed

lemmas node_path_set = node_path_facts [THEN conjunct1]
  and node_path_length = node_path_facts [THEN conjunct2, THEN conjunct1]
  and node_path_last = node_path_facts [THEN conjunct2, THEN conjunct2, THEN conjunct1]
  and node_path_ne = node_path_facts [THEN conjunct2, THEN conjunct2, THEN conjunct2, THEN conjunct1]

lemma node_path_nth:
  assumes "tree_ok N I" "p \<in> I" "i < length (node_path N p)"
  shows "nd_nHeight (N (node_path N p ! i)) = int i" "node_path N (node_path N p ! i) = take (Suc i) (node_path N p)"
    "node_path N p ! i \<in> I" "nd_nChainTx (N p) \<noteq> 0 \<Longrightarrow> nd_nChainTx (N (node_path N p ! i)) \<noteq> 0"
    "i < length (node_path N p) - 1 \<Longrightarrow> nd_nChainWork (N (node_path N p ! i)) < nd_nChainWork (N p)"
  using node_path_facts [OF assms(1,2)] assms(3) nth_mem by blast+

subsection \<open>Stores that differ in the status only\<close>

definition same_tree :: "store \<Rightarrow> store \<Rightarrow> bool" where
  "same_tree N N' \<longleftrightarrow> (\<forall>p. N' p = (N p)\<lparr> nd_nStatus := nd_nStatus (N' p) \<rparr>)"

lemma same_tree_fields:
  assumes "same_tree N N'"
  shows "nd_pprev (N' p) = nd_pprev (N p)" "nd_nHeight (N' p) = nd_nHeight (N p)" "nd_nChainWork (N' p) = nd_nChainWork (N p)"
    "nd_nChainTx (N' p) = nd_nChainTx (N p)" "nd_nSequenceId (N' p) = nd_nSequenceId (N p)" "nd_hash (N' p) = nd_hash (N p)"
    "nd_nTx (N' p) = nd_nTx (N p)"
proof -
  have "N' p = (N p)\<lparr> nd_nStatus := nd_nStatus (N' p) \<rparr>" using assms by (simp add: same_tree_def)
  then obtain s where "N' p = (N p)\<lparr> nd_nStatus := s \<rparr>" by blast
  then show "nd_pprev (N' p) = nd_pprev (N p)" "nd_nHeight (N' p) = nd_nHeight (N p)" "nd_nChainWork (N' p) = nd_nChainWork (N p)"
    "nd_nChainTx (N' p) = nd_nChainTx (N p)" "nd_nSequenceId (N' p) = nd_nSequenceId (N p)" "nd_hash (N' p) = nd_hash (N p)"
    "nd_nTx (N' p) = nd_nTx (N p)" by simp_all
qed

lemma same_tree_refl [simp]: "same_tree N N"
  by (simp add: same_tree_def)

lemma same_tree_trans: "same_tree N N' \<Longrightarrow> same_tree N' N'' \<Longrightarrow> same_tree N N''"
  unfolding same_tree_def by (metis node.select_convs(7) node.surjective node.update_convs(7))

lemma same_tree_flag: "same_tree N (N(p := set_flag f (N p)))"
  by (simp add: same_tree_def set_flag_def)

lemma same_tree_path:
  assumes "same_tree N N'" shows "node_path N' p = node_path N p"
proof -
  have "path_upto N' k p = path_upto N k p" for k p
    by (induction k arbitrary: p) (simp_all add: same_tree_fields [OF assms] split: option.split)
  then show ?thesis by (simp add: node_path_def same_tree_fields [OF assms])
qed

lemma same_tree_cmp: "same_tree N N' \<Longrightarrow> CBlockIndexWorkComparator N' = CBlockIndexWorkComparator N"
  by (intro ext) (simp add: cmp_iff same_tree_fields)

lemma same_tree_ok: "same_tree N N' \<Longrightarrow> tree_ok N' I = tree_ok N I"
  by (simp add: tree_ok_def same_tree_fields cong: option.case_cong)

subsection \<open>Ancestors and the active chain\<close>

lemma nd_back_path:
  assumes "tree_ok N I" "p \<in> I" "int k \<le> nd_nHeight (N p)"
  shows "nd_back N k (Some p) = Some (node_path N p ! (length (node_path N p) - 1 - k))"
  using assms
proof (induction arbitrary: k rule: node_induct)
  case (root p)
  then show ?case using assms(1) by (simp add: tree_root node_path_root)
next
  case (step p q)
  note n = tree_pprev [OF assms(1) step(1,3)] and e = node_path_step [OF assms(1) step(1,3)]
  show ?case
  proof (cases k)
    case 0
    then show ?thesis using e by (simp add: nth_append)
  next
    case (Suc j)
    have l: "int (length (node_path N q)) = nd_nHeight (N q) + 1" using node_path_length [OF assms(1) step(2)] .
    then have "nd_back N j (Some q) = Some (node_path N q ! (length (node_path N q) - 1 - j))" using step.IH Suc step.prems n by simp
    moreover have "node_path N q \<noteq> []" using node_path_ne [OF assms(1) step(2)] .
    ultimately show ?thesis using Suc e step(3) by (simp add: nth_append)
  qed
qed

lemma nd_GetAncestor_path:
  assumes "tree_ok N I" "p \<in> I" "0 \<le> h" "h \<le> nd_nHeight (N p)"
  shows "nd_GetAncestor N p h = Some (node_path N p ! nat h)"
proof -
  have l: "int (length (node_path N p)) = nd_nHeight (N p) + 1" by (rule node_path_length [OF assms(1,2)])
  have "nd_back N (nat (nd_nHeight (N p) - h)) (Some p) = Some (node_path N p ! (length (node_path N p) - 1 - nat (nd_nHeight (N p) - h)))"
    using assms by (intro nd_back_path) simp_all
  moreover have "length (node_path N p) - 1 - nat (nd_nHeight (N p) - h) = nat h" using l assms(3,4) by linarith
  ultimately show ?thesis using assms by (simp add: nd_GetAncestor_def)
qed

lemma to_connect_path:
  assumes "tree_ok N I" "p \<in> I" "-1 \<le> h" "h \<le> nd_nHeight (N p)"
  shows "to_connect N (nat (nd_nHeight (N p) - h)) (Some p) h = rev (drop (nat (h + 1)) (node_path N p))"
  using assms(1,2,4)
proof (induction rule: node_induct)
  case (root p)
  have "nd_nHeight (N p) = 0" "node_path N p = [p]" using tree_root node_path_root assms(1) root by blast+
  moreover from this have "h = 0 \<or> h = -1" using root.prems assms(3) by linarith
  moreover have "to_connect N (Suc 0) (Some p) (-1) = (if nd_nHeight (N p) = -1 then [] else [p])" by simp
  ultimately show ?case by (elim disjE) simp_all
next
  case (step p q)
  note n = tree_pprev [OF assms(1) step(1,3)] and e = node_path_step [OF assms(1) step(1,3)]
  have l: "int (length (node_path N q)) = nd_nHeight (N q) + 1" using node_path_length [OF assms(1) step(2)] .
  show ?case
  proof (cases "h = nd_nHeight (N p)")
    case True
    then have "length (node_path N p) \<le> nat (h + 1)" using l n e by simp
    then show ?thesis using True by simp
  next
    case False
    then have h: "h \<le> nd_nHeight (N q)" "nat (nd_nHeight (N p) - h) = Suc (nat (nd_nHeight (N q) - h))" using step.prems n by simp_all
    then have "nat (h + 1) \<le> length (node_path N q)" using l by simp
    then show ?thesis using h step.IH False step(3) e by simp
  qed
qed

lemma ac_Tip_path:
  assumes "tree_ok (nod st) I" "t \<in> I" "cs_active st = node_path (nod st) t"
  shows "ac_Tip st = Some t"
  using node_path_facts [OF assms(1,2)] assms(3) by (simp add: ac_Tip_def)

lemma ac_Contains_path:
  assumes "tree_ok (nod st) I" "t \<in> I" "cs_active st = node_path (nod st) t" "p \<in> I"
  shows "ac_Contains st p \<longleftrightarrow> p \<in> set (cs_active st)"
proof
  assume "ac_Contains st p"
  then show "p \<in> set (cs_active st)" unfolding ac_Contains_def by (metis nat_less_iff nth_mem)
next
  assume "p \<in> set (cs_active st)"
  then obtain i where "i < length (cs_active st)" "cs_active st ! i = p" by (auto simp: in_set_conv_nth)
  then show "ac_Contains st p" using node_path_nth(1) [OF assms(1,2), of i] assms(3) by (auto simp: ac_Contains_def)
qed

lemma ac_Height_path:
  assumes "tree_ok (nod st) I" "t \<in> I" "cs_active st = node_path (nod st) t"
  shows "ac_Height st = nd_nHeight (nod st t)"
  using node_path_length [OF assms(1,2)] assms(3) by (simp add: ac_Height_def)

lemma SetTip_connect:
  assumes "tree_ok (nod st) I" "p \<in> I" "nd_pprev (nod st p) = Some t" "cs_active st = node_path (nod st) t"
  shows "ac_SetTip (Some p) st = st\<lparr> cs_active := node_path (nod st) p \<rparr>"
proof -
  have t: "t \<in> I" "nd_nHeight (nod st p) = nd_nHeight (nod st t) + 1" using tree_pprev [OF assms(1-3)] by auto
  have l: "int (length (cs_active st)) = nd_nHeight (nod st p)" using node_path_length [OF assms(1) t(1)] t(2) assms(4) by simp
  have t': "cs_active st \<noteq> []" "last (cs_active st) = t" using node_path_facts [OF assms(1) t(1)] assms(4) by auto
  define n where "n = length (cs_active st)"
  have n: "nat (nd_nHeight (nod st p)) = n" "nat (nd_nHeight (nod st p) + 1) = Suc n" "nat (nd_nHeight (nod st t)) = n - 1" "0 < n"
    using l t(2) t'(1) by (simp_all add: n_def nat_add_distrib) 
  define ys where "ys = resize_null (Suc n) (cs_active st)"
  have r: "ys = map Some (cs_active st) @ [None]" by (simp add: ys_def resize_null_def n_def)
  obtain m where m: "n = Suc m" using n(4) by (cases n) auto
  have y: "ys ! n = None" "ys[n := Some p] = map Some (cs_active st @ [p])" by (simp_all add: r n_def list_update_append nth_append)
  have "cs_active st ! m = t" using t' m n_def by (simp add: last_conv_nth)
  then have "(ys[n := Some p]) ! m = Some t" "m < length (ys[n := Some p])" using m n_def by (simp_all add: r nth_append)
  then have "ac_settip_loop (nod st) n (Some t) (ys[n := Some p]) = ys[n := Some p]" using m n(3) by (simp add: Let_def)
  then have "ac_settip_loop (nod st) (Suc n) (Some p) ys = map Some (cs_active st @ [p])"
    using n(1) y assms(3) by (simp add: Let_def)
  then show ?thesis using n(2) node_path_step [OF assms(1-3)] assms(4) by (simp add: ac_SetTip_def Let_def comp_def ys_def)
qed

lemma SetTip_disconnect:
  assumes "tree_ok (nod st) I" "p \<in> I" "nd_pprev (nod st p) = Some q" "cs_active st = node_path (nod st) p"
  shows "ac_SetTip (Some q) st = st\<lparr> cs_active := node_path (nod st) q \<rparr>"
proof -
  have q: "q \<in> I" using tree_pprev [OF assms(1-3)] by auto
  have e: "cs_active st = node_path (nod st) q @ [p]" using node_path_step [OF assms(1-3)] assms(4) by simp
  have l: "int (length (node_path (nod st) q)) = nd_nHeight (nod st q) + 1" by (rule node_path_length [OF assms(1) q])
  have q': "node_path (nod st) q \<noteq> []" "last (node_path (nod st) q) = q" using node_path_facts [OF assms(1) q] by auto
  define n where "n = length (node_path (nod st) q)"
  have n: "nat (nd_nHeight (nod st q) + 1) = n" "nat (nd_nHeight (nod st q)) = n - 1" using l by (simp_all add: n_def)
  obtain m where m: "n = Suc m" using q'(1) by (cases n) (auto simp: n_def)
  have r: "resize_null n (cs_active st) = map Some (node_path (nod st) q)" by (simp add: resize_null_def e n_def)
  have "node_path (nod st) q ! m = q" using q' m n_def by (simp add: last_conv_nth)
  then have "ac_settip_loop (nod st) n (Some q) (resize_null n (cs_active st)) = map Some (node_path (nod st) q)"
    using n(2) m n_def unfolding r by (simp add: Let_def)
  then show ?thesis using n(1) by (simp add: ac_SetTip_def Let_def comp_def)
qed

lemma root_in_path:
  assumes "tree_ok N I" "p \<in> I" "r \<in> I" "nd_pprev (N r) = None"
  shows "r \<in> set (node_path N p)"
  using assms(1,2)
proof (induction rule: node_induct)
  case (root p)
  then have "p = r" using assms unfolding tree_ok_def by blast
  then show ?case using node_path_root [OF assms(1) root] by simp
next
  case (step p q)
  then show ?case using node_path_step [OF assms(1) step(1,3)] by simp
qed

lemma ac_fork_loop_path:
  assumes "tree_ok (nod st) I" "t \<in> I" "cs_active st = node_path (nod st) t" "p \<in> I" "nat (nd_nHeight (nod st p)) < k"
  shows "\<exists>f. ac_fork_loop st k (Some p) = Some f \<and> f \<in> set (node_path (nod st) p) \<and> f \<in> set (cs_active st)
    \<and> (\<forall>a\<in>set (node_path (nod st) p). nd_nHeight (nod st a) > nd_nHeight (nod st f) \<longrightarrow> a \<notin> set (cs_active st))"
  using assms(1,4,5)
proof (induction arbitrary: k rule: node_induct)
  case (root p)
  then have "p \<in> set (cs_active st)" using root_in_path [OF assms(1,2)] assms(3) by simp
  moreover obtain j where "k = Suc j" using root.prems by (cases k) auto
  ultimately show ?case
    using ac_Contains_path [OF assms(1-3) root(1)] node_path_root [OF assms(1) root(1,2)] by simp
next
  case (step p q)
  note e = node_path_step [OF assms(1) step(1,3)] and n = tree_pprev [OF assms(1) step(1,3)]
  obtain j where j: "k = Suc j" using step.prems by (cases k) auto
  show ?case
  proof (cases "p \<in> set (cs_active st)")
    case True
    have "\<not> nd_nHeight (nod st p) < nd_nHeight (nod st a)" if a: "a \<in> set (node_path (nod st) p)" for a
    proof -
      obtain i where "i < length (node_path (nod st) p)" "a = node_path (nod st) p ! i" using a by (auto simp: in_set_conv_nth)
      then show ?thesis using node_path_nth(1) [OF assms(1) step(1)] node_path_length [OF assms(1) step(1)] by simp
    qed
    then show ?thesis using True j ac_Contains_path [OF assms(1-3) step(1)] e by auto
  next
    case False
    obtain f where f: "ac_fork_loop st j (Some q) = Some f" "f \<in> set (node_path (nod st) q)" "f \<in> set (cs_active st)"
        "\<forall>a\<in>set (node_path (nod st) q). nd_nHeight (nod st a) > nd_nHeight (nod st f) \<longrightarrow> a \<notin> set (cs_active st)"
      using step.IH [of j] step.prems n j by fastforce
    then show ?thesis using False j ac_Contains_path [OF assms(1-3) step(1)] e step(3) by auto
  qed
qed

lemma ac_FindFork_path:
  assumes t: "tree_ok (nod st) I" "t \<in> I" "cs_active st = node_path (nod st) t" and m: "m \<in> I"
  shows "\<exists>f. ac_FindFork st m = Some f \<and> f \<in> set (node_path (nod st) m) \<and> f \<in> set (cs_active st)
    \<and> (\<forall>a\<in>set (node_path (nod st) m). nd_nHeight (nod st a) > nd_nHeight (nod st f) \<longrightarrow> a \<notin> set (cs_active st))"
proof -
  have lt: "int (length (node_path (nod st) t)) = nd_nHeight (nod st t) + 1" using node_path_length [OF t(1,2)] .
  have lm: "int (length (node_path (nod st) m)) = nd_nHeight (nod st m) + 1" using node_path_length [OF t(1) m] .
  have ht: "0 \<le> nd_nHeight (nod st t)" using node_path_ne [OF t(1,2)] lt by (cases "node_path (nod st) t") auto
  have low: "nd_nHeight (nod st a) \<le> nd_nHeight (nod st t)" if "a \<in> set (cs_active st)" for a
    using that node_path_nth(1) [OF t(1,2)] lt t(3) by (auto simp: in_set_conv_nth)
  define s where "s = (if nd_nHeight (nod st m) > ac_Height st then node_path (nod st) m ! nat (ac_Height st) else m)"
  have e: "ac_FindFork st m = ac_fork_loop st (nat (nd_nHeight (nod st m)) + 1) (Some s)"
    using nd_GetAncestor_path [OF t(1) m] ac_Height_path [OF t] ht by (simp add: ac_FindFork_def s_def)
  have s: "s \<in> I \<and> nat (nd_nHeight (nod st s)) < nat (nd_nHeight (nod st m)) + 1 \<and> set (node_path (nod st) s) \<subseteq> set (node_path (nod st) m)
    \<and> (\<forall>a\<in>set (node_path (nod st) m). nd_nHeight (nod st a) \<le> nd_nHeight (nod st t) \<longrightarrow> a \<in> set (node_path (nod st) s))"
  proof (cases "nd_nHeight (nod st m) > ac_Height st")
    case False
    then show ?thesis using m by (simp add: s_def)
  next
    case True
    define i where "i = nat (nd_nHeight (nod st t))"
    have i: "i < length (node_path (nod st) m)" "s = node_path (nod st) m ! i" "int i = nd_nHeight (nod st t)"
      using True lm ht ac_Height_path [OF t] by (simp_all add: i_def s_def)
    note p = node_path_nth [OF t(1) m i(1), folded i(2)]
    have "a \<in> set (take (Suc i) (node_path (nod st) m))" if a: "a \<in> set (node_path (nod st) m)" "nd_nHeight (nod st a) \<le> nd_nHeight (nod st t)" for a
    proof -
      obtain j where j: "j < length (node_path (nod st) m)" "a = node_path (nod st) m ! j" using a(1) by (auto simp: in_set_conv_nth)
      then have "j \<le> i" using node_path_nth(1) [OF t(1) m j(1)] a(2) i(3) by simp
      then show ?thesis using j i(1) by (auto simp: in_set_conv_nth intro!: exI [of _ j])
    qed
    then show ?thesis using p(1-3) i lm by (auto dest: in_set_takeD)
  qed
  obtain f where f: "ac_FindFork st m = Some f" "f \<in> set (node_path (nod st) s)" "f \<in> set (cs_active st)"
      "\<forall>a\<in>set (node_path (nod st) s). nd_nHeight (nod st a) > nd_nHeight (nod st f) \<longrightarrow> a \<notin> set (cs_active st)"
    using ac_fork_loop_path [OF t, of s "nat (nd_nHeight (nod st m)) + 1"] s e by auto
  then show ?thesis using s low by (intro exI [of _ f]) force
qed

subsection \<open>Usable entries\<close>

text \<open>All data is there up to the genesis block, and nothing on the way is marked as failed.\<close>

definition usable :: "store \<Rightarrow> nat set \<Rightarrow> nat \<Rightarrow> bool" where
  "usable N I p \<longleftrightarrow> p \<in> I \<and> nd_nChainTx (N p) \<noteq> 0 \<and> (\<forall>a\<in>set (node_path N p). \<not> nd_failed (N a) \<and> nd_has_data (N a))"

lemma usable_ancestor:
  assumes "tree_ok N I" "usable N I p" "a \<in> set (node_path N p)"
  shows "usable N I a"
proof -
  have p: "p \<in> I" using assms(2) by (simp add: usable_def)
  obtain i where "i < length (node_path N p)" "a = node_path N p ! i" using assms(3) by (auto simp: in_set_conv_nth)
  then show ?thesis using node_path_nth [OF assms(1) p, of i] assms(2) by (auto simp: usable_def dest: in_set_takeD)
qed

text \<open>From one state to the next, flags are added and candidates removed, but not for the entries in a set that is
  kept.\<close>

definition shrinks :: "(nat \<Rightarrow> bool) \<Rightarrow> 'v chain_state \<Rightarrow> 'v chain_state \<Rightarrow> bool" where
  "shrinks G st st' \<longleftrightarrow> same_tree (nod st) (nod st') \<and> cs_index st' = cs_index st
     \<and> (\<forall>q. nd_has_data (nod st' q) = nd_has_data (nod st q)) \<and> (\<forall>q. nd_failed (nod st q) \<longrightarrow> nd_failed (nod st' q))
     \<and> (\<forall>q. G q \<longrightarrow> nd_failed (nod st' q) = nd_failed (nod st q))
     \<and> (\<exists>P. cs_candidates st' = filter P (cs_candidates st) \<and> (\<forall>c. G c \<longrightarrow> P c))"

lemma shrinks_refl [simp]: "shrinks G st st"
  by (auto simp: shrinks_def intro!: exI [of _ "\<lambda>c. True"])

lemma shrinks_trans:
  assumes "shrinks G st st'" "shrinks G st' st''"
  shows "shrinks G st st''"
proof -
  obtain P Q where "cs_candidates st' = filter P (cs_candidates st)" "\<forall>c. G c \<longrightarrow> P c"
      "cs_candidates st'' = filter Q (cs_candidates st')" "\<forall>c. G c \<longrightarrow> Q c"
    using assms unfolding shrinks_def by meson
  then have "\<exists>P. cs_candidates st'' = filter P (cs_candidates st) \<and> (\<forall>c. G c \<longrightarrow> P c)"
    by (intro exI [of _ "\<lambda>c. P c \<and> Q c"]) simp
  moreover have "same_tree (nod st) (nod st'')" using assms same_tree_trans unfolding shrinks_def by meson
  moreover have "cs_index st'' = cs_index st" "\<forall>q. nd_has_data (nod st'' q) = nd_has_data (nod st q)"
      "\<forall>q. nd_failed (nod st q) \<longrightarrow> nd_failed (nod st'' q)" "\<forall>q. G q \<longrightarrow> nd_failed (nod st'' q) = nd_failed (nod st q)"
    using assms by (simp_all add: shrinks_def)
  ultimately show ?thesis unfolding shrinks_def by blast
qed

lemma shrinks_mono: "shrinks G st st' \<Longrightarrow> (\<And>q. G' q \<Longrightarrow> G q) \<Longrightarrow> shrinks G' st st'"
  unfolding shrinks_def by blast

lemma shrinks_usable_iff:
  assumes "shrinks G st st'" "\<And>a. a \<in> set (node_path (nod st) q) \<Longrightarrow> G a"
  shows "usable (nod st') I q = usable (nod st) I q"
  using assms by (auto simp: usable_def shrinks_def same_tree_path same_tree_fields)

lemma shrinks_usable_back: "shrinks G st st' \<Longrightarrow> usable (nod st') I q \<Longrightarrow> usable (nod st) I q"
  by (auto simp: usable_def shrinks_def same_tree_path same_tree_fields)

lemma shrinks_usable:
  assumes "shrinks (usable (nod st) I) st st'" "tree_ok (nod st) I"
  shows "usable (nod st') I q = usable (nod st) I q"
  using shrinks_usable_iff [OF assms(1)] shrinks_usable_back [OF assms(1)] usable_ancestor [OF assms(2)] by blast

lemma BLOCK_flags:
  "BLOCK_FAILED_MASK = 96" "BLOCK_FAILED_VALID = 32" "BLOCK_FAILED_CHILD = 64" "BLOCK_HAVE_DATA = 8"
  by (simp_all add: BLOCK_FAILED_MASK_def BLOCK_FAILED_VALID_def BLOCK_FAILED_CHILD_def BLOCK_HAVE_DATA_def)

lemma u32_and_or: "((a::u32) OR b) AND c = (a AND c) OR (b AND c)"
  by (simp add: bit_eq_iff bit_and_iff bit_or_iff) blast

lemma set_flag_failed: "f \<in> {BLOCK_FAILED_VALID, BLOCK_FAILED_CHILD} \<Longrightarrow> nd_failed (set_flag f n)"
  by (auto simp: nd_failed_def set_flag_def u32_and_or BLOCK_flags or_eq_0_iff)

lemma set_flag_data: "f \<in> {BLOCK_FAILED_VALID, BLOCK_FAILED_CHILD} \<Longrightarrow> nd_has_data (set_flag f n) = nd_has_data n"
  by (auto simp: nd_has_data_def set_flag_def u32_and_or BLOCK_flags)

subsection \<open>The candidate with the most work is found\<close>

text \<open>What \<open>FindMostWorkChain\<close> relies on: the active chain is the path of a usable tip, and the candidates are linked
  entries in their order.\<close>

definition candidates_ok :: "'v chain_state \<Rightarrow> bool" where
  "candidates_ok st \<longleftrightarrow> set (cs_candidates st) \<subseteq> set (cs_index st) \<and> (\<forall>c\<in>set (cs_candidates st). nd_nChainTx (nod st c) \<noteq> 0)
     \<and> sorted_wrt (CBlockIndexWorkComparator (nod st)) (cs_candidates st)"

definition active_path :: "'v chain_state \<Rightarrow> nat \<Rightarrow> bool" where
  "active_path st t \<longleftrightarrow> tree_ok (nod st) (set (cs_index st)) \<and> usable (nod st) (set (cs_index st)) t \<and> cs_active st = node_path (nod st) t"

lemma active_pathD:
  assumes "active_path st t"
  shows "tree_ok (nod st) (set (cs_index st))" "t \<in> set (cs_index st)" "cs_active st = node_path (nod st) t"
    "usable (nod st) (set (cs_index st)) t" "ac_Tip st = Some t"
  using assms ac_Tip_path [of st "set (cs_index st)" t] by (auto simp: active_path_def usable_def)

lemma shrinks_candidates_ok:
  assumes "shrinks G st st'" "candidates_ok st"
  shows "candidates_ok st'"
proof -
  obtain P where "cs_candidates st' = filter P (cs_candidates st)" using assms(1) by (auto simp: shrinks_def)
  moreover have "same_tree (nod st) (nod st')" "cs_index st' = cs_index st" using assms(1) by (auto simp: shrinks_def)
  ultimately show ?thesis using assms(2)
    by (auto simp: candidates_ok_def same_tree_fields same_tree_cmp sorted_wrt_filter)
qed

lemma shrinks_active_path:
  assumes "shrinks G st st'" "cs_active st' = cs_active st" "active_path st t" "\<And>a. a \<in> set (cs_active st) \<Longrightarrow> G a"
  shows "active_path st' t"
proof -
  have "same_tree (nod st) (nod st')" "cs_index st' = cs_index st" using assms(1) by (auto simp: shrinks_def)
  then show ?thesis using assms(2,3) shrinks_usable_iff [OF assms(1), of t] assms(4)
    by (auto simp: active_path_def same_tree_ok same_tree_path)
qed

lemma test_path_cases:
  assumes "active_path st t" "p \<in> set (cs_index st)" "nd_nChainTx (nod st p) \<noteq> 0" "nat (nd_nHeight (nod st p)) < k"
  shows "(test_path st k (Some p) = Some path_clean \<and> usable (nod st) (set (cs_index st)) p)
    \<or> (\<exists>b\<in>set (node_path (nod st) p). test_path st k (Some p) = Some (path_bad b) \<and> (nd_failed (nod st b) \<or> \<not> nd_has_data (nod st b)))"
  using active_pathD(1) [OF assms(1)] assms(2,3,4)
proof (induction arbitrary: k rule: node_induct)
  case (root p)
  note t = active_pathD [OF assms(1)]
  have "p \<in> set (cs_active st)" using root_in_path [OF t(1,2) root(1,2)] t(3) by simp
  moreover obtain j where "k = Suc j" using root.prems by (cases k) auto
  ultimately show ?case using ac_Contains_path [OF t(1-3) root(1)] usable_ancestor [OF t(1,4), of p] t(3) by simp
next
  case (step p q)
  note t = active_pathD [OF assms(1)]
  note e = node_path_step [OF t(1) step(1,3)] and n = tree_pprev [OF t(1) step(1,3)]
  obtain j where j: "k = Suc j" using step.prems by (cases k) auto
  show ?case
  proof (cases "p \<in> set (cs_active st)")
    case True
    then show ?thesis using j ac_Contains_path [OF t(1-3) step(1)] usable_ancestor [OF t(1,4), of p] t(3) by simp
  next
    case False
    then have c: "\<not> ac_Contains st p" using ac_Contains_path [OF t(1-3) step(1)] by simp
    show ?thesis
    proof (cases "nd_failed (nod st p) \<or> \<not> nd_has_data (nod st p)")
      case True
      then show ?thesis using c j step.prems e by simp
    next
      case False
      then have "test_path st k (Some p) = test_path st j (Some q)" using c j step.prems step(3) by simp
      then show ?thesis using step.IH [of j] False j step.prems n e step(1) by (auto simp: usable_def)
    qed
  qed
qed

lemma drop_path_ok:
  assumes "tree_ok (nod st) (set (cs_index st))" "p \<in> set (cs_index st)" "b \<in> set (node_path (nod st) p)" "nat (nd_nHeight (nod st p)) < k"
    "if ff then nd_failed (nod st b) else \<not> nd_has_data (nod st b)"
  shows "\<exists>st'. drop_path k ff b p st = Some st' \<and> shrinks (usable (nod st) (set (cs_index st))) st st' \<and> p \<notin> set (cs_candidates st')
    \<and> cs_active st' = cs_active st \<and> cs_coins st' = cs_coins st \<and> cs_nBlockSequenceId st' = cs_nBlockSequenceId st"
  using assms
proof (induction k arbitrary: p st)
  case (Suc k)
  let ?u = "usable (nod st) (set (cs_index st))"
  have nu: "\<not> ?u p" using Suc.prems(3,5) by (auto simp: usable_def split: if_splits)
  show ?case
  proof (cases "b = p")
    case True
    then show ?thesis using nu
      by (auto simp: erase_candidate_def shrinks_def set_erase_filter intro!: exI [of _ "\<lambda>y. y \<noteq> p"])
  next
    case False
    then obtain q where q: "nd_pprev (nod st p) = Some q"
      using node_path_root [OF Suc.prems(1,2)] Suc.prems(3) by (cases "nd_pprev (nod st p)") auto
    note e = node_path_step [OF Suc.prems(1,2) q] and n = tree_pprev [OF Suc.prems(1,2) q]
    define st1 where "st1 = (if ff then update_node p (set_flag BLOCK_FAILED_CHILD) st
        else st\<lparr> cs_unlinked := cs_unlinked st @ [(q, p)] \<rparr>)"
    define st2 where "st2 = erase_candidate p st1"
    have run: "drop_path (Suc k) ff b p st = drop_path k ff b q st2"
      using False q by (simp add: st2_def st1_def Let_def)
    have flags: "nd_has_data (nod st2 a) = nd_has_data (nod st a)" "nd_failed (nod st a) \<Longrightarrow> nd_failed (nod st2 a)"
        "a \<noteq> p \<Longrightarrow> nod st2 a = nod st a" for a
      by (auto simp: st2_def st1_def erase_candidate_def update_node_def set_flag_data set_flag_failed)
    have tree: "same_tree (nod st) (nod st2)"
      by (auto simp: st2_def st1_def erase_candidate_def update_node_def same_tree_flag)
    have cand: "cs_candidates st2 = filter (\<lambda>c. c \<noteq> p) (cs_candidates st)"
      by (simp add: st2_def st1_def erase_candidate_def update_node_def set_erase_filter)
    have rest: "cs_index st2 = cs_index st" "cs_active st2 = cs_active st" "cs_coins st2 = cs_coins st" "cs_nBlockSequenceId st2 = cs_nBlockSequenceId st"
      by (simp_all add: st2_def st1_def erase_candidate_def update_node_def)
    have sh: "shrinks ?u st st2"
      unfolding shrinks_def
      using tree flags rest nu cand by (intro conjI allI impI exI [of _ "\<lambda>c. c \<noteq> p"]) (metis | blast)+
    have "b \<in> set (node_path (nod st2) q)" using Suc.prems(3) e False by (simp add: same_tree_path [OF tree])
    moreover have "if ff then nd_failed (nod st2 b) else \<not> nd_has_data (nod st2 b)" using Suc.prems(5) flags by (simp split: if_splits)
    moreover have "nat (nd_nHeight (nod st2 q)) < k" using n Suc.prems(4) by (simp add: same_tree_fields [OF tree] nat_add_distrib)
    moreover have "tree_ok (nod st2) (set (cs_index st2))" using Suc.prems(1) by (simp add: same_tree_ok [OF tree] rest)
    ultimately obtain st' where st': "drop_path k ff b q st2 = Some st'" "shrinks (usable (nod st2) (set (cs_index st2))) st2 st'"
        "cs_active st' = cs_active st2" "cs_coins st' = cs_coins st2" "cs_nBlockSequenceId st' = cs_nBlockSequenceId st2"
      using Suc.IH [of st2 q] n rest by auto
    have "shrinks ?u st2 st'"
      by (rule shrinks_mono [OF st'(2)]) (simp add: rest shrinks_usable [OF sh Suc.prems(1)])
    then have "shrinks ?u st st'" using shrinks_trans [OF sh] by blast
    moreover have "p \<notin> set (cs_candidates st')" using st'(2) cand by (auto simp: shrinks_def)
    ultimately show ?thesis using run st' rest by simp
  qed
qed simp

lemma find_most_work_ok:
  assumes "active_path st t" "candidates_ok st" "length (cs_candidates st) < k"
  shows "\<exists>st' r. find_most_work k st = Some (st', r) \<and> shrinks (usable (nod st) (set (cs_index st))) st st'
    \<and> cs_active st' = cs_active st \<and> cs_coins st' = cs_coins st \<and> cs_nBlockSequenceId st' = cs_nBlockSequenceId st
    \<and> (case r of None \<Rightarrow> cs_candidates st' = [] | Some p \<Rightarrow> cs_candidates st' \<noteq> [] \<and> p = last (cs_candidates st')
        \<and> usable (nod st) (set (cs_index st)) p)"
  using assms
proof (induction k arbitrary: st)
  case (Suc k)
  let ?u = "usable (nod st) (set (cs_index st))"
  note t = active_pathD [OF Suc.prems(1)]
  show ?case
  proof (cases "cs_candidates st = []")
    case True
    then show ?thesis by simp
  next
    case False
    define p where "p = last (cs_candidates st)"
    have p: "p \<in> set (cs_candidates st)" "p \<in> set (cs_index st)" "nd_nChainTx (nod st p) \<noteq> 0"
      using False Suc.prems(2) by (auto simp: p_def candidates_ok_def)
    from test_path_cases [OF Suc.prems(1) p(2,3), of "path_fuel st p"]
    consider "test_path st (path_fuel st p) (Some p) = Some path_clean" "?u p"
      | b where "b \<in> set (node_path (nod st) p)" "test_path st (path_fuel st p) (Some p) = Some (path_bad b)"
          "nd_failed (nod st b) \<or> \<not> nd_has_data (nod st b)"
      by (auto simp: path_fuel_def)
    then show ?thesis
    proof cases
      case 1
      then show ?thesis using False by (simp add: p_def)
    next
      case (2 b)
      define st1 where "st1 = (if nd_failed (nod st b) \<and> more_work (nod st) p (cs_bestInvalid st) then st\<lparr> cs_bestInvalid := Some p \<rparr> else st)"
      have st1: "nod st1 = nod st" "cs_index st1 = cs_index st" "cs_active st1 = cs_active st" "cs_coins st1 = cs_coins st"
          "cs_candidates st1 = cs_candidates st" "cs_nBlockSequenceId st1 = cs_nBlockSequenceId st" by (simp_all add: st1_def)
      have fuel: "nat (nd_nHeight (nod st p)) < path_fuel st p" by (simp add: path_fuel_def)
      have bad: "if nd_failed (nod st b) then nd_failed (nod st b) else \<not> nd_has_data (nod st b)" using 2(3) by auto
      obtain st2 where st2: "drop_path (path_fuel st p) (nd_failed (nod st b)) b p st1 = Some st2" "shrinks ?u st1 st2"
          "p \<notin> set (cs_candidates st2)" "cs_active st2 = cs_active st" "cs_coins st2 = cs_coins st" "cs_nBlockSequenceId st2 = cs_nBlockSequenceId st"
        using drop_path_ok [of st1 p b "path_fuel st p" "nd_failed (nod st b)", unfolded st1] t(1) p(2) 2(1) fuel bad by blast
      have sh: "shrinks ?u st st2" using st2(2) st1 by (simp add: shrinks_def)
      have a2: "active_path st2 t"
        using shrinks_active_path [OF sh st2(4) Suc.prems(1)] usable_ancestor [OF t(1,4)] t(3) by simp
      have c2: "candidates_ok st2" by (rule shrinks_candidates_ok [OF sh Suc.prems(2)])
      have l2: "length (cs_candidates st2) < k"
      proof -
        obtain P where P: "cs_candidates st2 = filter P (cs_candidates st)" using sh by (auto simp: shrinks_def)
        then have "\<not> P p" using p(1) st2(3) by auto
        then have "length (filter P (cs_candidates st)) < length (cs_candidates st)" using p(1) length_filter_less [of p "cs_candidates st" P] by simp
        then show ?thesis using P Suc.prems(3) by simp
      qed
      have i2: "cs_index st2 = cs_index st" using sh by (simp add: shrinks_def)
      have u2: "usable (nod st2) (set (cs_index st2)) = ?u" by (intro ext) (simp add: i2 shrinks_usable [OF sh t(1)])
      obtain st' r where r: "find_most_work k st2 = Some (st', r)" "shrinks ?u st2 st'"
          "cs_active st' = cs_active st2" "cs_coins st' = cs_coins st2" "cs_nBlockSequenceId st' = cs_nBlockSequenceId st2"
          "case r of None \<Rightarrow> cs_candidates st' = [] | Some p \<Rightarrow> cs_candidates st' \<noteq> [] \<and> p = last (cs_candidates st') \<and> ?u p"
        using Suc.IH [OF a2 c2 l2, unfolded u2] by blast
      have "find_most_work (Suc k) st = Some (st', r)"
        using False 2 st2(1) r(1) by (simp add: p_def [symmetric] Let_def st1_def)
      then show ?thesis using r st2 shrinks_trans [OF sh r(2)] by auto
    qed
  qed
qed simp

lemma FindMostWorkChain_ok:
  assumes "active_path st t" "candidates_ok st"
  shows "\<exists>st' r. FindMostWorkChain st = Some (st', r) \<and> shrinks (usable (nod st) (set (cs_index st))) st st'
    \<and> cs_active st' = cs_active st \<and> cs_coins st' = cs_coins st \<and> cs_nBlockSequenceId st' = cs_nBlockSequenceId st
    \<and> (case r of None \<Rightarrow> cs_candidates st' = [] | Some p \<Rightarrow> cs_candidates st' \<noteq> [] \<and> p = last (cs_candidates st')
        \<and> usable (nod st) (set (cs_index st)) p)"
  unfolding FindMostWorkChain_def by (rule find_most_work_ok [OF assms]) simp

text \<open>The entry that is found is the greatest usable candidate.\<close>

lemma FindMostWorkChain_greatest:
  assumes "active_path st t" "candidates_ok st"
  shows "\<exists>st' r. FindMostWorkChain st = Some (st', r) \<and>
    (case r of None \<Rightarrow> \<not> (\<exists>c\<in>set (cs_candidates st). usable (nod st) (set (cs_index st)) c)
     | Some p \<Rightarrow> p \<in> set (cs_candidates st) \<and> usable (nod st) (set (cs_index st)) p
         \<and> (\<forall>c\<in>set (cs_candidates st). usable (nod st) (set (cs_index st)) c \<longrightarrow> c = p \<or> CBlockIndexWorkComparator (nod st) c p))"
proof -
  obtain st' r where r: "FindMostWorkChain st = Some (st', r)" "shrinks (usable (nod st) (set (cs_index st))) st st'"
    "case r of None \<Rightarrow> cs_candidates st' = [] | Some p \<Rightarrow> cs_candidates st' \<noteq> [] \<and> p = last (cs_candidates st')
        \<and> usable (nod st) (set (cs_index st)) p"
    using FindMostWorkChain_ok [OF assms] by blast
  have keep: "c \<in> set (cs_candidates st')" if "c \<in> set (cs_candidates st)" "usable (nod st) (set (cs_index st)) c" for c
    using r(2) that by (auto simp: shrinks_def)
  have sub: "set (cs_candidates st') \<subseteq> set (cs_candidates st)" using r(2) by (auto simp: shrinks_def)
  have tree: "same_tree (nod st) (nod st')" using r(2) by (simp add: shrinks_def)
  have sorted: "sorted_wrt (CBlockIndexWorkComparator (nod st)) (cs_candidates st')"
    using shrinks_candidates_ok [OF r(2) assms(2)] by (simp add: candidates_ok_def same_tree_cmp [OF tree])
  show ?thesis
  proof (cases r)
    case None
    then show ?thesis using r keep by force
  next
    case (Some p)
    then have "p = last (cs_candidates st')" "p \<in> set (cs_candidates st')" using r(3) by auto
    then show ?thesis using r Some sub keep sorted_last [OF sorted] by auto
  qed
qed

end
