(* ===== verification/Chain_Activate.thy ===== *)
theory Chain_Activate
  imports Chain_Select_Props
begin

text \<open>
  \<open>ActivateBestChain\<close> ends, and it ends at the best of all chains that are complete, unmarked and valid.
\<close>

subsection \<open>Connecting blocks\<close>

text \<open>Blocks either connect, and can then be disconnected again, or they are invalid; nothing fails for reasons of the
  system.  \<open>conn\<close> is what connecting does to the coins.\<close>

definition lawful :: "'v block_ops \<Rightarrow> (nat \<Rightarrow> 'v \<Rightarrow> 'v option) \<Rightarrow> bool" where
  "lawful ops conn \<longleftrightarrow> (\<forall>p v. bo_read ops p v) \<and> (\<forall>v. bo_flush ops v \<and> \<not> bo_shutdown ops v)
     \<and> (\<forall>p v vs. vs_mode vs = MODE_VALID \<longrightarrow> (case conn p v of
          Some v' \<Rightarrow> bo_connect ops p v vs = (True, vs, v') \<and> bo_disconnect ops p v' vs = (True, vs, v)
        | None \<Rightarrow> \<exists>vs' v'. bo_connect ops p v vs = (False, vs', v') \<and> IsInvalid vs' \<and> \<not> vs_corruptionPossible vs'
            \<and> vs_chRejectCode vs' < REJECT_INTERNAL))"

lemma lawfulD:
  assumes "lawful ops conn"
  shows "bo_read ops p v" "bo_flush ops v" "\<not> bo_shutdown ops v"
    "vs_mode vs = MODE_VALID \<Longrightarrow> conn p v = Some v' \<Longrightarrow> bo_connect ops p v vs = (True, vs, v') \<and> bo_disconnect ops p v' vs = (True, vs, v)"
    "vs_mode vs = MODE_VALID \<Longrightarrow> conn p v = None \<Longrightarrow> \<exists>vs' v'. bo_connect ops p v vs = (False, vs', v') \<and> IsInvalid vs'
       \<and> \<not> vs_corruptionPossible vs' \<and> vs_chRejectCode vs' < REJECT_INTERNAL"
proof -
  have *: "vs_mode vs = MODE_VALID \<longrightarrow> (case conn p v of
          Some v' \<Rightarrow> bo_connect ops p v vs = (True, vs, v') \<and> bo_disconnect ops p v' vs = (True, vs, v)
        | None \<Rightarrow> \<exists>vs' v'. bo_connect ops p v vs = (False, vs', v') \<and> IsInvalid vs' \<and> \<not> vs_corruptionPossible vs'
            \<and> vs_chRejectCode vs' < REJECT_INTERNAL)"
    using assms unfolding lawful_def by blast
  show "bo_read ops p v" "bo_flush ops v" "\<not> bo_shutdown ops v" using assms unfolding lawful_def by blast+
  show "vs_mode vs = MODE_VALID \<Longrightarrow> conn p v = Some v' \<Longrightarrow> bo_connect ops p v vs = (True, vs, v') \<and> bo_disconnect ops p v' vs = (True, vs, v)"
    "vs_mode vs = MODE_VALID \<Longrightarrow> conn p v = None \<Longrightarrow> \<exists>vs' v'. bo_connect ops p v vs = (False, vs', v') \<and> IsInvalid vs'
       \<and> \<not> vs_corruptionPossible vs' \<and> vs_chRejectCode vs' < REJECT_INTERNAL"
    using * by auto
qed

fun replay :: "(nat \<Rightarrow> 'v \<Rightarrow> 'v option) \<Rightarrow> nat list \<Rightarrow> 'v \<Rightarrow> 'v option" where
  "replay conn [] v = Some v"
| "replay conn (p # ps) v = (case conn p v of None \<Rightarrow> None | Some v' \<Rightarrow> replay conn ps v')"

lemma replay_append: "replay conn (ps @ qs) v = (case replay conn ps v of None \<Rightarrow> None | Some v' \<Rightarrow> replay conn qs v')"
  by (induction ps arbitrary: v) (simp_all split: option.split)

text \<open>A good entry is usable and the blocks up to it connect, one after the other.\<close>

definition good :: "(nat \<Rightarrow> 'v \<Rightarrow> 'v option) \<Rightarrow> 'v \<Rightarrow> 'v chain_state \<Rightarrow> nat \<Rightarrow> bool" where
  "good conn v0 st p \<longleftrightarrow> usable (nod st) (set (cs_index st)) p \<and> replay conn (node_path (nod st) p) v0 \<noteq> None"

lemma good_ancestor:
  assumes "tree_ok (nod st) (set (cs_index st))" "good conn v0 st p" "a \<in> set (node_path (nod st) p)"
  shows "good conn v0 st a"
proof -
  have u: "usable (nod st) (set (cs_index st)) p" and p: "p \<in> set (cs_index st)" using assms(2) by (auto simp: good_def usable_def)
  obtain i where i: "i < length (node_path (nod st) p)" "a = node_path (nod st) p ! i" using assms(3) by (auto simp: in_set_conv_nth)
  have "node_path (nod st) p = node_path (nod st) a @ drop (Suc i) (node_path (nod st) p)"
    using node_path_nth(2) [OF assms(1) p i(1)] i(2) by simp
  then have "replay conn (node_path (nod st) a @ drop (Suc i) (node_path (nod st) p)) v0 \<noteq> None" using assms(2) by (simp add: good_def)
  then have "replay conn (node_path (nod st) a) v0 \<noteq> None" by (auto simp: replay_append split: option.splits)
  then show ?thesis using usable_ancestor [OF assms(1) u assms(3)] by (simp add: good_def)
qed

lemma shrinks_good:
  assumes "shrinks (good conn v0 st) st st'" "tree_ok (nod st) (set (cs_index st))"
  shows "good conn v0 st' = good conn v0 st"
proof
  fix q
  have e: "cs_index st' = cs_index st" "node_path (nod st') q = node_path (nod st) q"
    using assms(1) same_tree_path by (auto simp: shrinks_def)
  show "good conn v0 st' q = good conn v0 st q"
  proof
    assume "good conn v0 st' q"
    then show "good conn v0 st q" using shrinks_usable_back [OF assms(1)] by (simp add: good_def e)
  next
    assume g: "good conn v0 st q"
    then have "usable (nod st') (set (cs_index st)) q"
      using shrinks_usable_iff [OF assms(1), of q] good_ancestor [OF assms(2) g] by (simp add: good_def)
    then show "good conn v0 st' q" using g by (simp add: good_def e)
  qed
qed

text \<open>The invariant: the coins are those of the active chain, and every good entry is a candidate or worse than a
  good candidate, so that the best good entry is a candidate.\<close>

definition act_inv :: "(nat \<Rightarrow> 'v \<Rightarrow> 'v option) \<Rightarrow> 'v \<Rightarrow> 'v chain_state \<Rightarrow> bool" where
  "act_inv conn v0 st \<longleftrightarrow> (\<exists>t. active_path st t) \<and> candidates_ok st \<and> replay conn (cs_active st) v0 = Some (cs_coins st)
     \<and> (\<forall>n. good conn v0 st n \<longrightarrow> n \<in> set (cs_candidates st)
          \<or> (\<exists>b\<in>set (cs_candidates st). good conn v0 st b \<and> CBlockIndexWorkComparator (nod st) n b))"

lemma act_inv_tip:
  assumes "act_inv conn v0 st"
  obtains t where "active_path st t" "ac_Tip st = Some t" "good conn v0 st t"
proof -
  obtain t where t: "active_path st t" using assms by (auto simp: act_inv_def)
  have "good conn v0 st t" using active_pathD(3,4) [OF t] assms by (simp add: good_def act_inv_def)
  then show ?thesis using that [OF t active_pathD(5) [OF t]] by blast
qed

lemma act_inv_tree: "act_inv conn v0 st \<Longrightarrow> tree_ok (nod st) (set (cs_index st))"
  using active_pathD(1) by (auto simp: act_inv_def)

lemma shrinks_act_inv:
  assumes "shrinks (good conn v0 st) st st'" "act_inv conn v0 st" "cs_active st' = cs_active st" "cs_coins st' = cs_coins st"
  shows "act_inv conn v0 st'"
proof -
  obtain t where t: "active_path st t" "good conn v0 st t" using act_inv_tip [OF assms(2)] by blast
  have "active_path st' t"
    using shrinks_active_path [OF assms(1,3) t(1)] good_ancestor [OF active_pathD(1) [OF t(1)] t(2)] active_pathD(3) [OF t(1)] by simp
  moreover have "candidates_ok st'" using shrinks_candidates_ok [OF assms(1)] assms(2) by (simp add: act_inv_def)
  moreover have "\<forall>c. good conn v0 st c \<longrightarrow> c \<in> set (cs_candidates st) \<longrightarrow> c \<in> set (cs_candidates st')"
    using assms(1) by (auto simp: shrinks_def)
  moreover have "CBlockIndexWorkComparator (nod st') = CBlockIndexWorkComparator (nod st)"
    using assms(1) same_tree_cmp by (auto simp: shrinks_def)
  moreover have "good conn v0 st' = good conn v0 st" by (rule shrinks_good [OF assms(1) act_inv_tree [OF assms(2)]])
  ultimately show ?thesis using assms(2-4) unfolding act_inv_def by metis
qed

subsection \<open>One block more or less\<close>

lemma sorted_dropWhile_filter:
  "sorted_wrt (CBlockIndexWorkComparator N) ys \<Longrightarrow>
     dropWhile (\<lambda>c. CBlockIndexWorkComparator N c t) ys = filter (\<lambda>c. \<not> CBlockIndexWorkComparator N c t) ys"
proof (induction ys)
  case (Cons y ys)
  show ?case
  proof (cases "CBlockIndexWorkComparator N y t")
    case False
    then have "\<forall>c\<in>set ys. \<not> CBlockIndexWorkComparator N c t" using Cons.prems cmp_trans [of N y] by auto
    then show ?thesis using False by simp
  qed (use Cons in simp)
qed simp

lemma good_cong: "nod st' = nod st \<Longrightarrow> cs_index st' = cs_index st \<Longrightarrow> good conn v0 st' = good conn v0 st"
  by (intro ext) (simp add: good_def)

lemma act_inv_move:
  assumes "act_inv conn v0 st" "good conn v0 st p" "nod st' = nod st" "cs_index st' = cs_index st"
    "cs_candidates st' = cs_candidates st" "cs_active st' = node_path (nod st) p" "replay conn (node_path (nod st) p) v0 = Some (cs_coins st')"
  shows "act_inv conn v0 st'"
proof -
  have "active_path st' p" using assms act_inv_tree [OF assms(1)] by (simp add: active_path_def good_def)
  then show ?thesis using assms good_cong [OF assms(3,4)] by (auto simp: act_inv_def candidates_ok_def)
qed

lemma DisconnectTip_ok:
  assumes L: "lawful ops conn" "vs_mode vs = MODE_VALID" and i: "act_inv conn v0 st"
    and t: "ac_Tip st = Some p" "nd_pprev (nod st p) = Some q"
  shows "\<exists>st'. DisconnectTip ops vs st = Some (True, vs, st') \<and> act_inv conn v0 st' \<and> cs_active st' = node_path (nod st) q
    \<and> nod st' = nod st \<and> cs_index st' = cs_index st \<and> cs_candidates st' = cs_candidates st"
proof -
  have p: "active_path st p" "good conn v0 st p" using act_inv_tip [OF i] t(1) by auto
  note a = active_pathD [OF p(1)]
  have e: "cs_active st = node_path (nod st) q @ [p]" using node_path_step [OF a(1,2) t(2)] a(3) by simp
  then have g: "good conn v0 st q"
    using good_ancestor [OF a(1) p(2)] node_path_facts [OF a(1)] tree_pprev [OF a(1,2) t(2)] a(3) last_in_set
    by (metis Un_iff set_append)
  obtain v where v: "replay conn (node_path (nod st) q) v0 = Some v" "conn p v = Some (cs_coins st)"
    using i by (auto simp: act_inv_def e replay_append split: option.splits)
  define st' where "st' = st\<lparr> cs_coins := v, cs_active := node_path (nod st) q \<rparr>"
  have "ac_SetTip (Some q) (st\<lparr> cs_coins := v \<rparr>) = st'"
    using SetTip_disconnect [of "st\<lparr> cs_coins := v \<rparr>" "set (cs_index st)" p q] a t(2) by (simp add: st'_def)
  then have "DisconnectTip ops vs st = Some (True, vs, st')"
    using lawfulD(1,2) [OF L(1)] lawfulD(4) [OF L(1) L(2) v(2)] t by (simp add: DisconnectTip_def UpdateTip_def)
  moreover have "act_inv conn v0 st'" by (rule act_inv_move [OF i g]) (simp_all add: st'_def v(1))
  ultimately show ?thesis by (simp add: st'_def)
qed

lemma ConnectTip_ok:
  assumes L: "lawful ops conn" "vs_mode vs = MODE_VALID" and i: "act_inv conn v0 st"
    and t: "ac_Tip st = nd_pprev (nod st p)" and u: "usable (nod st) (set (cs_index st)) p"
  shows "(\<exists>st'. ConnectTip ops p vs st = Some (True, vs, st') \<and> act_inv conn v0 st' \<and> cs_active st' = node_path (nod st) p
      \<and> nod st' = nod st \<and> cs_index st' = cs_index st \<and> cs_candidates st' = cs_candidates st)
    \<or> (\<exists>vs' st'. ConnectTip ops p vs st = Some (False, vs', st') \<and> IsInvalid vs' \<and> \<not> vs_corruptionPossible vs'
      \<and> act_inv conn v0 st' \<and> shrinks (good conn v0 st) st st' \<and> nd_failed (nod st' p))"
proof -
  obtain q where q: "active_path st q" "ac_Tip st = Some q" using act_inv_tip [OF i] by blast
  note a = active_pathD [OF q(1)]
  have pq: "nd_pprev (nod st p) = Some q" and p: "p \<in> set (cs_index st)" using t q(2) u by (auto simp: usable_def)
  have e: "node_path (nod st) p = cs_active st @ [p]" using node_path_step [OF a(1) p pq] a(3) by simp
  have v: "replay conn (cs_active st) v0 = Some (cs_coins st)" using i by (simp add: act_inv_def)
  show ?thesis
  proof (cases "conn p (cs_coins st)")
    case (Some v')
    define st1 where "st1 = st\<lparr> cs_source := (cs_source st)(nd_hash (nod st p) := None), cs_coins := v' \<rparr>"
    define st' where "st' = st1\<lparr> cs_active := node_path (nod st) p \<rparr>"
    have "ac_SetTip (Some p) st1 = st'"
      using SetTip_connect [of st1 "set (cs_index st)" p q] a p pq by (simp add: st1_def st'_def)
    then have "ConnectTip ops p vs st = Some (True, vs, st')"
      using lawfulD(1,2) [OF L(1)] lawfulD(4) [OF L(1) L(2) Some] t by (simp add: ConnectTip_def UpdateTip_def st1_def Let_def)
    moreover have r: "replay conn (node_path (nod st) p) v0 = Some v'" using v Some by (simp add: e replay_append)
    moreover have "act_inv conn v0 st'"
      by (rule act_inv_move [OF i, of p]) (simp_all add: st'_def st1_def r good_def u)
    ultimately show ?thesis by (simp add: st'_def st1_def)
  next
    case None
    obtain vs' v' where vs': "bo_connect ops p (cs_coins st) vs = (False, vs', v')" "IsInvalid vs'" "\<not> vs_corruptionPossible vs'"
        "vs_chRejectCode vs' < REJECT_INTERNAL"
      using lawfulD(5) [OF L(1) L(2) None] by blast
    have bad: "\<not> good conn v0 st p" using v None by (simp add: good_def e replay_append)
    obtain st1 where b: "blame_source (bo_banscore ops) p vs' st = Some st1" and
      st1: "nod st1 = nod st" "cs_index st1 = cs_index st" "cs_active st1 = cs_active st" "cs_coins st1 = cs_coins st"
        "cs_candidates st1 = cs_candidates st"
    proof -
      have m: "nod (Misbehaving bs k h s) = nod s \<and> cs_index (Misbehaving bs k h s) = cs_index s \<and> cs_active (Misbehaving bs k h s) = cs_active s
          \<and> cs_coins (Misbehaving bs k h s) = cs_coins s \<and> cs_candidates (Misbehaving bs k h s) = cs_candidates s"
        for bs k h and s :: "'a chain_state" by (simp add: Misbehaving_def Let_def split: option.split)
      have "\<exists>st1. blame_source (bo_banscore ops) p vs' st = Some st1 \<and> nod st1 = nod st \<and> cs_index st1 = cs_index st
          \<and> cs_active st1 = cs_active st \<and> cs_coins st1 = cs_coins st \<and> cs_candidates st1 = cs_candidates st"
        using vs'(4) m by (simp add: blame_source_def Let_def split: option.split)
      then show ?thesis using that by blast
    qed
    define st2 where "st2 = erase_candidate p (update_node p (set_flag BLOCK_FAILED_VALID) st1)"
    have tip2: "ac_Tip st2 = Some q" using q(2) by (simp add: st2_def ac_Tip_def erase_candidate_def update_node_def st1 split: if_splits)
    define st' where "st' = (if more_work (nod st2) p (cs_bestInvalid st2) then st2\<lparr> cs_bestInvalid := Some p \<rparr> else st2)"
    have "ConnectTip ops p vs st = Some (False, vs', st')"
      using vs' lawfulD(1) [OF L(1)] t b tip2
      by (simp add: ConnectTip_def InvalidBlockFound_def InvalidChainFound_def st2_def [symmetric] st'_def)
    moreover have f: "nod st' = (nod st)(p := set_flag BLOCK_FAILED_VALID (nod st p))" "cs_index st' = cs_index st"
        "cs_active st' = cs_active st" "cs_coins st' = cs_coins st" "cs_candidates st' = filter (\<lambda>c. c \<noteq> p) (cs_candidates st)"
      by (simp_all add: st'_def st2_def erase_candidate_def update_node_def st1 set_erase_filter)
    moreover have sh: "shrinks (good conn v0 st) st st'"
      using bad by (auto simp: shrinks_def f same_tree_flag set_flag_data set_flag_failed intro!: exI [of _ "\<lambda>c. c \<noteq> p"])
    moreover have "act_inv conn v0 st'" by (rule shrinks_act_inv [OF sh i f(3,4)])
    moreover have "nd_failed (nod st' p)" by (simp add: f(1) set_flag_failed)
    ultimately show ?thesis using vs'(2,3) by blast
  qed
qed

lemma Prune_ok:
  assumes i: "act_inv conn v0 st"
  shows "\<exists>st'. PruneBlockIndexCandidates st = Some st' \<and> act_inv conn v0 st' \<and> cs_active st' = cs_active st \<and> nod st' = nod st
    \<and> cs_index st' = cs_index st \<and> (\<exists>P. cs_candidates st' = filter P (cs_candidates st))"
proof -
  obtain t where t: "active_path st t" "ac_Tip st = Some t" "good conn v0 st t" using act_inv_tip [OF i] by blast
  define cs where "cs = dropWhile (\<lambda>c. CBlockIndexWorkComparator (nod st) c t) (cs_candidates st)"
  have sorted: "sorted_wrt (CBlockIndexWorkComparator (nod st)) (cs_candidates st)" using i by (simp add: act_inv_def candidates_ok_def)
  have set_cs: "set cs = {c \<in> set (cs_candidates st). \<not> CBlockIndexWorkComparator (nod st) c t}"
    unfolding cs_def by (rule sorted_dropWhile [OF sorted])
  have complete: "n \<in> set cs \<or> (\<exists>b\<in>set cs. good conn v0 st b \<and> CBlockIndexWorkComparator (nod st) n b)" if "good conn v0 st n" for n
  proof -
    have best: "t \<in> set cs \<or> (\<exists>b\<in>set cs. good conn v0 st b \<and> CBlockIndexWorkComparator (nod st) t b)"
      using i t(3) cmp_asym unfolding set_cs act_inv_def by fastforce
    have "\<exists>b. (b = n \<or> CBlockIndexWorkComparator (nod st) n b) \<and> good conn v0 st b \<and> b \<in> set (cs_candidates st)"
      using i that unfolding act_inv_def by blast
    then obtain b where b: "b = n \<or> CBlockIndexWorkComparator (nod st) n b" "good conn v0 st b" "b \<in> set (cs_candidates st)" by blast
    show ?thesis
    proof (cases "CBlockIndexWorkComparator (nod st) b t")
      case True
      then have "CBlockIndexWorkComparator (nod st) n t" using b(1) cmp_trans by blast
      then show ?thesis using best t(3) cmp_trans by blast
    next
      case False
      then show ?thesis using b set_cs by blast
    qed
  qed
  define st' where "st' = st\<lparr> cs_candidates := cs \<rparr>"
  have "cs \<noteq> []" using complete [OF t(3)] by auto
  then have "PruneBlockIndexCandidates st = Some st'" using t(2) by (simp add: PruneBlockIndexCandidates_def st'_def cs_def Let_def)
  moreover have "act_inv conn v0 st'"
  proof -
    have "good conn v0 st' = good conn v0 st" by (rule good_cong) (simp_all add: st'_def)
    moreover have "sorted_wrt (CBlockIndexWorkComparator (nod st)) cs" unfolding cs_def by (rule sorted_dropWhile' [OF sorted])
    ultimately show ?thesis using i complete set_cs
      by (auto simp: act_inv_def active_path_def candidates_ok_def st'_def)
  qed
  moreover have "\<exists>P. cs = filter P (cs_candidates st)" unfolding cs_def using sorted_dropWhile_filter [OF sorted] by blast
  ultimately show ?thesis by (auto simp: st'_def)
qed

subsection \<open>A step of the reorganisation\<close>

lemma disconnect_to_ok:
  assumes L: "lawful ops conn" "vs_mode vs = MODE_VALID"
  shows "act_inv conn v0 st \<Longrightarrow> f \<in> set (cs_active st) \<Longrightarrow> int (length (cs_active st)) \<le> int k + nd_nHeight (nod st f) + 1 \<Longrightarrow>
    \<exists>st'. disconnect_to ops k (Some f) vs st = Some (True, vs, st') \<and> act_inv conn v0 st' \<and> cs_active st' = node_path (nod st) f
      \<and> nod st' = nod st \<and> cs_index st' = cs_index st \<and> cs_candidates st' = cs_candidates st"
proof (induction k arbitrary: st)
  case k: (0 st)
  obtain t where t: "active_path st t" "ac_Tip st = Some t" using act_inv_tip [OF k(1)] by blast
  note a = active_pathD [OF t(1)]
  obtain i where i: "i < length (cs_active st)" "f = cs_active st ! i" using k(2) by (auto simp: in_set_conv_nth)
  have "i = length (cs_active st) - 1" using k(3) i node_path_nth(1) [OF a(1,2), of i] a(3) by simp
  then have "f = t" using i node_path_last [OF a(1,2)] node_path_ne [OF a(1,2)] a(3) by (simp add: last_conv_nth)
  then show ?case using t(2) k a(3) by simp
next
  case (Suc k)
  obtain t where t: "active_path st t" "ac_Tip st = Some t" using act_inv_tip [OF Suc.prems(1)] by blast
  note a = active_pathD [OF t(1)]
  show ?case
  proof (cases "t = f")
    case True
    then show ?thesis using t(2) Suc.prems a(3) by simp
  next
    case False
    then obtain q where q: "nd_pprev (nod st t) = Some q"
      using node_path_root [OF a(1,2)] Suc.prems(2) a(3) by (cases "nd_pprev (nod st t)") auto
    have e: "cs_active st = node_path (nod st) q @ [t]" using node_path_step [OF a(1,2) q] a(3) by simp
    obtain st1 where st1: "DisconnectTip ops vs st = Some (True, vs, st1)" "act_inv conn v0 st1" "cs_active st1 = node_path (nod st) q"
        "nod st1 = nod st" "cs_index st1 = cs_index st" "cs_candidates st1 = cs_candidates st"
      using DisconnectTip_ok [OF L Suc.prems(1) t(2) q] by blast
    have "f \<in> set (cs_active st1)" "int (length (cs_active st1)) \<le> int k + nd_nHeight (nod st1 f) + 1"
      using Suc.prems(2,3) False e by (auto simp: st1)
    then obtain st' where "disconnect_to ops k (Some f) vs st1 = Some (True, vs, st')" "act_inv conn v0 st'" "cs_active st' = node_path (nod st1) f"
        "nod st' = nod st1" "cs_index st' = cs_index st1" "cs_candidates st' = cs_candidates st1"
      using Suc.IH [OF st1(2)] by blast
    then show ?thesis using False t(2) st1 by simp
  qed
qed

text \<open>What a reorganisation does to the index and the candidates: pruning may remove good candidates as well.\<close>

definition marks :: "(nat \<Rightarrow> bool) \<Rightarrow> 'v chain_state \<Rightarrow> 'v chain_state \<Rightarrow> bool" where
  "marks G st st' \<longleftrightarrow> shrinks G (st\<lparr> cs_candidates := cs_candidates st' \<rparr>) st' \<and> (\<exists>P. cs_candidates st' = filter P (cs_candidates st))"

lemma marks_iff: "marks G st st' \<longleftrightarrow> same_tree (nod st) (nod st') \<and> cs_index st' = cs_index st
     \<and> (\<forall>q. nd_has_data (nod st' q) = nd_has_data (nod st q)) \<and> (\<forall>q. nd_failed (nod st q) \<longrightarrow> nd_failed (nod st' q))
     \<and> (\<forall>q. G q \<longrightarrow> nd_failed (nod st' q) = nd_failed (nod st q)) \<and> (\<exists>P. cs_candidates st' = filter P (cs_candidates st))"
proof -
  have "\<exists>P. cs_candidates st' = filter P (cs_candidates st') \<and> (\<forall>c. G c \<longrightarrow> P c)" by (rule exI [of _ "\<lambda>c. True"]) simp
  then show ?thesis by (auto simp: marks_def shrinks_def)
qed

lemma shrinks_marks: "shrinks G st st' \<Longrightarrow> marks G st st'"
  unfolding marks_iff shrinks_def by blast

lemma marks_same:
  assumes "nod st' = nod st" "cs_index st' = cs_index st" "\<exists>P. cs_candidates st' = filter P (cs_candidates st)"
  shows "marks G st st'"
  using assms by (simp add: marks_iff)

lemma marks_refl [simp]: "marks G st st"
  by (simp add: shrinks_marks)

lemma marks_trans:
  assumes "marks G st st'" "marks G st' st''" shows "marks G st st''"
proof -
  obtain P Q where "cs_candidates st' = filter P (cs_candidates st)" "cs_candidates st'' = filter Q (cs_candidates st')"
    using assms unfolding marks_iff by meson
  then have "\<exists>P. cs_candidates st'' = filter P (cs_candidates st)" by (intro exI [of _ "\<lambda>c. P c \<and> Q c"]) simp
  moreover have "same_tree (nod st) (nod st'')" using assms same_tree_trans unfolding marks_iff by meson
  ultimately show ?thesis using assms unfolding marks_iff by simp
qed

lemma marks_good:
  assumes "marks (good conn v0 st) st st'" "tree_ok (nod st) (set (cs_index st))"
  shows "good conn v0 st' = good conn v0 st"
proof -
  let ?st = "st\<lparr> cs_candidates := cs_candidates st' \<rparr>"
  have g: "good conn v0 ?st = good conn v0 st" by (rule good_cong) simp_all
  then have "good conn v0 st' = good conn v0 ?st"
    using assms by (intro shrinks_good) (simp_all add: marks_def)
  then show ?thesis using g by simp
qed

text \<open>How a run over the blocks to connect may end.\<close>

definition end_ok :: "(nat \<Rightarrow> 'v \<Rightarrow> 'v option) \<Rightarrow> 'v \<Rightarrow> nat option \<Rightarrow> nat list \<Rightarrow> nat \<Rightarrow> 'v chain_state \<Rightarrow>
    (step_end \<times> CValidationState \<times> 'v chain_state) option \<Rightarrow> bool" where
  "end_ok conn v0 old aim m st r \<longleftrightarrow> (\<exists>e vs' st'. r = Some (e, vs', st') \<and> vs_mode vs' = MODE_VALID \<and> act_inv conn v0 st'
     \<and> marks (good conn v0 st) st st' \<and> e \<noteq> system_error
     \<and> (e = go_on \<longrightarrow> cs_active st' = aim \<and> nod st' = nod st)
     \<and> (e = better_tip \<longrightarrow> nod st' = nod st \<and> (\<exists>tip. ac_Tip st' = Some tip \<and> more_work (nod st) tip old))
     \<and> (e = found_invalid \<longrightarrow> (\<exists>p\<in>set (node_path (nod st) m). nd_failed (nod st' p))))"

lemma end_ok_step:
  assumes "marks (good conn v0 st) st st1" "nod st1 = nod st" "tree_ok (nod st) (set (cs_index st))" "end_ok conn v0 old aim m st1 r"
  shows "end_ok conn v0 old aim m st r"
proof -
  have g: "good conn v0 st1 = good conn v0 st" by (rule marks_good [OF assms(1,3)])
  obtain e vs' st' where r: "r = Some (e, vs', st')" "vs_mode vs' = MODE_VALID" "act_inv conn v0 st'" "marks (good conn v0 st1) st1 st'"
     "e \<noteq> system_error" "e = go_on \<longrightarrow> cs_active st' = aim \<and> nod st' = nod st1"
     "e = better_tip \<longrightarrow> nod st' = nod st1 \<and> (\<exists>tip. ac_Tip st' = Some tip \<and> more_work (nod st1) tip old)"
     "e = found_invalid \<longrightarrow> (\<exists>p\<in>set (node_path (nod st1) m). nd_failed (nod st' p))"
    using assms(4) unfolding end_ok_def by blast
  have "marks (good conn v0 st) st st'" using marks_trans [OF assms(1)] r(4) by (simp add: g)
  then show ?thesis using r unfolding end_ok_def assms(2) by blast
qed

lemma path_continues:
  assumes "tree_ok N I" "m \<in> I" "node_path N m = node_path N t @ p # rest" "t \<in> I"
  shows "nd_pprev (N p) = Some t" "p \<in> I" "node_path N p = node_path N t @ [p]"
proof -
  define i where "i = length (node_path N t)"
  have i: "i < length (node_path N m)" "node_path N m ! i = p" using assms(3) by (auto simp: i_def nth_append)
  note n = node_path_nth [OF assms(1,2) i(1)]
  show "p \<in> I" "node_path N p = node_path N t @ [p]" using n i assms(3) by (auto simp: i_def)
  then show "nd_pprev (N p) = Some t"
  proof (cases "nd_pprev (N p)")
    case None
    then show ?thesis using node_path_root [OF assms(1) \<open>p \<in> I\<close>] \<open>node_path N p = _\<close> node_path_ne [OF assms(1,4)] by simp
  next
    case (Some q)
    then have "node_path N q = node_path N t" "q \<in> I"
      using node_path_step [OF assms(1) \<open>p \<in> I\<close>] \<open>node_path N p = _\<close> tree_pprev [OF assms(1) \<open>p \<in> I\<close>] by auto
    then have "q = t" using node_path_last [OF assms(1)] assms(4) by metis
    then show ?thesis using Some by simp
  qed
qed

lemma connect_each_ok:
  assumes L: "lawful ops conn"
  shows "vs_mode vs = MODE_VALID \<Longrightarrow> act_inv conn v0 st \<Longrightarrow> usable (nod st) (set (cs_index st)) m \<Longrightarrow>
    node_path (nod st) m = cs_active st @ ps @ rest \<Longrightarrow>
    end_ok conn v0 old (cs_active st @ ps) m st (connect_each ops old lowest ps vs st)"
proof (induction ps arbitrary: st vs)
  case Nil
  then show ?case by (simp add: end_ok_def)
next
  case (Cons p ps)
  obtain t where t: "active_path st t" "ac_Tip st = Some t" using act_inv_tip [OF Cons.prems(2)] by blast
  note a = active_pathD [OF t(1)]
  have m: "m \<in> set (cs_index st)" using Cons.prems(3) by (simp add: usable_def)
  have path: "node_path (nod st) m = node_path (nod st) t @ p # (ps @ rest)" using Cons.prems(4) a(3) by simp
  note pc = path_continues [OF a(1) m path a(2)]
  have pm: "p \<in> set (node_path (nod st) m)" using path by simp
  have up: "usable (nod st) (set (cs_index st)) p" by (rule usable_ancestor [OF a(1) Cons.prems(3) pm])
  have "ac_Tip st = nd_pprev (nod st p)" using t(2) pc(1) by simp
  from ConnectTip_ok [OF L Cons.prems(1,2) this up]
  consider st1 where "ConnectTip ops p vs st = Some (True, vs, st1)" "act_inv conn v0 st1" "cs_active st1 = node_path (nod st) p"
      "nod st1 = nod st" "cs_index st1 = cs_index st" "cs_candidates st1 = cs_candidates st"
    | vs1 st1 where "ConnectTip ops p vs st = Some (False, vs1, st1)" "IsInvalid vs1" "\<not> vs_corruptionPossible vs1"
      "act_inv conn v0 st1" "shrinks (good conn v0 st) st st1" "nd_failed (nod st1 p)"
    by blast
  then show ?case
  proof cases
    case (1 st1)
    obtain st2 where st2: "PruneBlockIndexCandidates st1 = Some st2" "act_inv conn v0 st2" "cs_active st2 = cs_active st1" "nod st2 = nod st1"
        "cs_index st2 = cs_index st1" "\<exists>P. cs_candidates st2 = filter P (cs_candidates st1)"
      using Prune_ok [OF 1(2)] by blast
    obtain t2 where t2: "active_path st2 t2" "ac_Tip st2 = Some t2" using act_inv_tip [OF st2(2)] by blast
    have mk: "marks (good conn v0 st) st st2" using 1 st2 by (intro marks_same) auto
    have act: "cs_active st2 = cs_active st @ [p]" using st2(3) 1(3) pc(3) a(3) by simp
    have "end_ok conn v0 old (cs_active st2 @ ps) m st2 (connect_each ops old lowest ps vs st2)"
      using Cons.IH [OF Cons.prems(1) st2(2)] Cons.prems(3,4) 1 st2 act by simp
    then have rest_ok: "end_ok conn v0 old (cs_active st @ p # ps) m st (connect_each ops old lowest ps vs st2)"
      using end_ok_step [OF mk _ a(1)] 1(4) st2(4) act by simp
    show ?thesis
    proof (cases "more_work (nod st) t2 old")
      case True
      then have "connect_each ops old lowest (p # ps) vs st = Some (better_tip, vs, st2)" using 1 st2 t2 by simp
      then show ?thesis using True Cons.prems(1) st2 1(4) t2 mk by (simp add: end_ok_def)
    next
      case False
      then have "connect_each ops old lowest (p # ps) vs st = connect_each ops old lowest ps vs st2" using 1 st2 t2 by simp
      then show ?thesis using rest_ok by simp
    qed
  next
    case (2 vs1 st1)
    obtain t1 where t1: "active_path st1 t1" "ac_Tip st1 = Some t1" using act_inv_tip [OF 2(4)] by blast
    define st' where "st' = (if more_work (nod st1) lowest (cs_bestInvalid st1) then st1\<lparr> cs_bestInvalid := Some lowest \<rparr> else st1)"
    have "connect_each ops old lowest (p # ps) vs st = Some (found_invalid, CValidationState_init, st')"
      using 2 t1 by (simp add: InvalidChainFound_def st'_def)
    moreover have "shrinks (good conn v0 st1) st1 st'"
      unfolding st'_def shrinks_def by (intro conjI allI impI exI [of _ "\<lambda>c. True"]) simp_all
    then have "act_inv conn v0 st'" by (rule shrinks_act_inv [OF _ 2(4)]) (simp_all add: st'_def)
    moreover have "marks (good conn v0 st) st st'" using shrinks_marks [OF 2(5)] by (simp add: marks_iff st'_def)
    moreover have "nd_failed (nod st' p)" using 2(6) by (simp add: st'_def)
    moreover have "vs_mode CValidationState_init = MODE_VALID" by (simp add: CValidationState_init_def)
    ultimately show ?thesis using pm unfolding end_ok_def by blast
  qed
qed

text \<open>One batch is a stretch of the path to the entry with the most work.\<close>

lemma batch_blocks:
  assumes tr: "tree_ok N I" "m \<in> I" and l: "int n - 1 = h" "h < nd_nHeight (N m)" and target: "target = min (h + 32) (nd_nHeight (N m))"
  shows "rev (to_connect N (nat (target - h)) (nd_GetAncestor N m target) h)
    = drop n (take (nat (target + 1)) (node_path N m))" "n < nat (target + 1)" "nat (target + 1) \<le> length (node_path N m)"
proof -
  have tg: "h < target" "target \<le> nd_nHeight (N m)" "-1 \<le> h" using l target by auto
  have lm: "int (length (node_path N m)) = nd_nHeight (N m) + 1" by (rule node_path_length [OF tr])
  define s where "s = node_path N m ! nat target"
  have i: "nat target < length (node_path N m)" using lm tg by simp
  have s: "nd_GetAncestor N m target = Some s" using nd_GetAncestor_path [OF tr] tg by (simp add: s_def)
  have h: "nd_nHeight (N s) = target" using node_path_nth(1) [OF tr i] tg by (simp add: s_def)
  have suc: "Suc (nat target) = nat (target + 1)" using tg by (simp add: nat_add_distrib)
  have p: "node_path N s = take (nat (target + 1)) (node_path N m)" "s \<in> I" using node_path_nth(2,3) [OF tr i] by (simp_all add: s_def suc)
  have "to_connect N (nat (target - h)) (Some s) h = rev (drop (nat (h + 1)) (node_path N s))"
    using to_connect_path [OF tr(1) p(2), of h] tg h by simp
  moreover have "nat (h + 1) = n" using l by simp
  ultimately show "rev (to_connect N (nat (target - h)) (nd_GetAncestor N m target) h)
      = drop n (take (nat (target + 1)) (node_path N m))" by (simp add: s p(1))
  show "n < nat (target + 1)" "nat (target + 1) \<le> length (node_path N m)" using l tg lm by simp_all
qed

lemma connect_batches_ok:
  assumes L: "lawful ops conn"
  shows "vs_mode vs = MODE_VALID \<Longrightarrow> act_inv conn v0 st \<Longrightarrow> usable (nod st) (set (cs_index st)) m \<Longrightarrow>
    node_path (nod st) m = cs_active st @ rest \<Longrightarrow> h = int (length (cs_active st)) - 1 \<Longrightarrow>
    end_ok conn v0 old (node_path (nod st) m) m st (connect_batches ops old m (nd_nHeight (nod st m)) h vs st)"
proof (induction "length rest" arbitrary: st vs h rest rule: less_induct)
  case less
  have tr: "tree_ok (nod st) (set (cs_index st))" "m \<in> set (cs_index st)"
    using act_inv_tree [OF less.prems(2)] less.prems(3) by (auto simp: usable_def)
  have lm: "int (length (node_path (nod st) m)) = nd_nHeight (nod st m) + 1" by (rule node_path_length [OF tr])
  show ?case
  proof (cases "h = nd_nHeight (nod st m)")
    case True
    have "length (node_path (nod st) m) = length (cs_active st) + length rest" using less.prems(4) by simp
    then have "length rest = 0" using lm less.prems(5) True by linarith
    then have "rest = []" by simp
    then show ?thesis using True less.prems by (simp add: end_ok_def)
  next
    case False
    then have hl: "h < nd_nHeight (nod st m)" using lm less.prems(4,5) by simp
    define target where "target = min (h + 32) (nd_nHeight (nod st m))"
    define ps where "ps = drop (length (cs_active st)) (take (nat (target + 1)) (node_path (nod st) m))"
    define rest' where "rest' = drop (nat (target + 1)) (node_path (nod st) m)"
    have n: "int (length (cs_active st)) - 1 = h" using less.prems(5) by simp
    note b = batch_blocks [OF tr n hl target_def]
    have split: "cs_active st @ ps = take (nat (target + 1)) (node_path (nod st) m)"
      using b(2) less.prems(4) by (simp add: ps_def)
    have path: "node_path (nod st) m = cs_active st @ ps @ rest'"
      using split by (simp add: rest'_def flip: append_assoc)
    have len: "length ps > 0" "int (length (cs_active st @ ps)) = target + 1"
      using split b(2,3) hl n by (auto simp: ps_def)
    define vp where "vp = to_connect (nod st) (nat (target - h)) (nd_GetAncestor (nod st) m target) h"
    have vp: "rev vp = ps" using b(1) by (simp add: vp_def ps_def)
    have each: "end_ok conn v0 old (cs_active st @ ps) m st (connect_each ops old (last vp) ps vs st)"
      by (rule connect_each_ok [OF L less.prems(1-3) path])
    have run: "connect_batches ops old m (nd_nHeight (nod st m)) h vs st = (case connect_each ops old (last vp) ps vs st of
         Some (go_on, vs', st') \<Rightarrow> connect_batches ops old m (nd_nHeight (nod st m)) target vs' st' | r \<Rightarrow> r)"
      using False by (subst connect_batches.simps) (simp only: Let_def if_False target_def [symmetric] vp_def [symmetric] vp)
    from each obtain e vs' st' where r: "connect_each ops old (last vp) ps vs st = Some (e, vs', st')" "vs_mode vs' = MODE_VALID"
        "act_inv conn v0 st'" "marks (good conn v0 st) st st'" "e \<noteq> system_error" "e = go_on \<longrightarrow> cs_active st' = cs_active st @ ps \<and> nod st' = nod st"
      unfolding end_ok_def by blast
    show ?thesis
    proof (cases "e = go_on")
      case True
      then have st': "cs_active st' = cs_active st @ ps" "nod st' = nod st" using r(6) by auto
      have idx: "cs_index st' = cs_index st" using r(4) by (simp add: marks_iff)
      have "length rest' < length rest" using path less.prems(4) len(1) by simp
      moreover have "node_path (nod st') m = cs_active st' @ rest'" using path st' by simp
      moreover have "target = int (length (cs_active st')) - 1" using len(2) st'(1) by simp
      moreover have "usable (nod st') (set (cs_index st')) m" using less.prems(3) st'(2) idx by simp
      ultimately have "end_ok conn v0 old (node_path (nod st') m) m st' (connect_batches ops old m (nd_nHeight (nod st' m)) target vs' st')"
        using less.hyps r(2,3) by blast
      then show ?thesis using run r(1) True end_ok_step [OF r(4) st'(2) tr(1)] st'(2) by simp
    next
      case False
      then have "connect_batches ops old m (nd_nHeight (nod st m)) h vs st = connect_each ops old (last vp) ps vs st"
        using run r(1) by (cases e) simp_all
      then show ?thesis using each False r(1) unfolding end_ok_def by auto
    qed
  qed
qed

text \<open>A step succeeds; it finds an invalid block, or arrives, or ends with more work than before.\<close>

lemma ActivateBestChainStep_ok:
  assumes L: "lawful ops conn" "vs_mode vs = MODE_VALID" and i: "act_inv conn v0 st" and u: "usable (nod st) (set (cs_index st)) m"
  shows "\<exists>inv vs' st'. ActivateBestChainStep ops m vs st = Some (True, inv, vs', st') \<and> vs_mode vs' = MODE_VALID \<and> act_inv conn v0 st'
    \<and> marks (good conn v0 st) st st'
    \<and> (if inv then \<exists>p\<in>set (node_path (nod st) m). nd_failed (nod st' p)
       else nod st' = nod st \<and> (ac_Tip st' = Some m \<or> (\<exists>tip. ac_Tip st' = Some tip \<and> more_work (nod st) tip (ac_Tip st))))"
proof -
  obtain t where t: "active_path st t" using act_inv_tip [OF i] by blast
  note a = active_pathD [OF t]
  have m: "m \<in> set (cs_index st)" using u by (simp add: usable_def)
  obtain f where f: "ac_FindFork st m = Some f" "f \<in> set (node_path (nod st) m)" "f \<in> set (cs_active st)"
    using ac_FindFork_path [OF a(1-3) m] by blast
  obtain j where j: "j < length (node_path (nod st) m)" "f = node_path (nod st) m ! j" using f(2) by (auto simp: in_set_conv_nth)
  note pj = node_path_nth [OF a(1) m j(1), folded j(2)]
  obtain st1 where st1: "disconnect_to ops (length (cs_active st)) (Some f) vs st = Some (True, vs, st1)" "act_inv conn v0 st1"
      "cs_active st1 = node_path (nod st) f" "nod st1 = nod st" "cs_index st1 = cs_index st" "cs_candidates st1 = cs_candidates st"
    using disconnect_to_ok [OF L i f(3), of "length (cs_active st)"] pj(1) by auto
  have path: "node_path (nod st1) m = cs_active st1 @ drop (Suc j) (node_path (nod st) m)" using pj(2) st1(3,4) by simp
  have h: "nd_nHeight (nod st f) = int (length (cs_active st1)) - 1" using pj(1,2) st1(3) j(1) by simp
  have mk: "marks (good conn v0 st) st st1"
    by (rule marks_same) (use st1 in \<open>auto intro!: exI [of _ "\<lambda>c. True"]\<close>)
  have u1: "usable (nod st1) (set (cs_index st1)) m" using u st1 by simp
  have run: "end_ok conn v0 (ac_Tip st) (node_path (nod st) m) m st
      (connect_batches ops (ac_Tip st) m (nd_nHeight (nod st m)) (nd_nHeight (nod st f)) vs st1)"
    using end_ok_step [OF mk st1(4) a(1) connect_batches_ok [OF L(1) L(2) st1(2) u1 path h]] st1(4) by simp
  then obtain e vs' st' where r: "connect_batches ops (ac_Tip st) m (nd_nHeight (nod st m)) (nd_nHeight (nod st f)) vs st1 = Some (e, vs', st')"
      "vs_mode vs' = MODE_VALID" "act_inv conn v0 st'" "marks (good conn v0 st) st st'" "e \<noteq> system_error"
      "e = go_on \<longrightarrow> cs_active st' = node_path (nod st) m \<and> nod st' = nod st"
      "e = better_tip \<longrightarrow> nod st' = nod st \<and> (\<exists>tip. ac_Tip st' = Some tip \<and> more_work (nod st) tip (ac_Tip st))"
      "e = found_invalid \<longrightarrow> (\<exists>p\<in>set (node_path (nod st) m). nd_failed (nod st' p))"
    unfolding end_ok_def by blast
  obtain t' where t': "ac_Tip st' = Some t'" using act_inv_tip [OF r(3)] by blast
  have "ActivateBestChainStep ops m vs st = Some (True, e = found_invalid, vs', st')"
    using f(1) st1(1) r(1,5) t' by (simp add: ActivateBestChainStep_def Let_def)
  moreover have "ac_Tip st' = Some m" if "e = go_on"
    using that r(6) node_path_last [OF a(1) m] node_path_ne [OF a(1) m] by (simp add: ac_Tip_def)
  ultimately show ?thesis using r by (cases e) auto
qed

subsection \<open>The loop ends at the best chain\<close>

text \<open>Every round either marks an entry that was not marked, or raises the work of the tip.\<close>

definition unmarked :: "'v chain_state \<Rightarrow> nat set" where
  "unmarked st = {q \<in> set (cs_index st). \<not> nd_failed (nod st q)}"

definition above_tip :: "'v chain_state \<Rightarrow> nat set" where
  "above_tip st = {q \<in> set (cs_index st). more_work (nod st) q (ac_Tip st)}"

definition rounds_left :: "'v chain_state \<Rightarrow> nat" where
  "rounds_left st = card (unmarked st) * (card (set (cs_index st)) + 1) + card (above_tip st)"

lemma rounds_left_less:
  assumes "cs_index st' = cs_index st" "unmarked st' \<subset> unmarked st \<or> unmarked st' \<subseteq> unmarked st \<and> above_tip st' \<subset> above_tip st"
  shows "rounds_left st' < rounds_left st"
proof -
  define n where "n = card (set (cs_index st)) + 1"
  have fin: "finite (unmarked st)" "finite (above_tip st)" by (simp_all add: unmarked_def above_tip_def)
  have "above_tip st' \<subseteq> set (cs_index st)" using assms(1) by (auto simp: above_tip_def)
  then have b: "card (above_tip st') < n" by (simp add: n_def card_mono less_Suc_eq_le)
  have e: "rounds_left st' = card (unmarked st') * n + card (above_tip st')" "rounds_left st = card (unmarked st) * n + card (above_tip st)"
    by (simp_all add: rounds_left_def n_def assms(1))
  from assms(2) show ?thesis
  proof
    assume "unmarked st' \<subset> unmarked st"
    then have "card (unmarked st') + 1 \<le> card (unmarked st)" using psubset_card_mono [OF fin(1), of "unmarked st'"] by simp
    then have "(card (unmarked st') + 1) * n \<le> card (unmarked st) * n" by (rule mult_le_mono1)
    then show ?thesis using b e by (simp add: algebra_simps)
  next
    assume "unmarked st' \<subseteq> unmarked st \<and> above_tip st' \<subset> above_tip st"
    then have "card (unmarked st') \<le> card (unmarked st)" "card (above_tip st') < card (above_tip st)"
      using card_mono [OF fin(1), of "unmarked st'"] psubset_card_mono [OF fin(2), of "above_tip st'"] by simp_all
    then show ?thesis using e mult_le_mono1 [of "card (unmarked st')" "card (unmarked st)" n] by linarith
  qed
qed

lemma marks_unmarked: "marks G st st' \<Longrightarrow> unmarked st' \<subseteq> unmarked st"
  unfolding marks_iff unmarked_def by auto

text \<open>A tip that no candidate beats is beaten by no good entry.\<close>

definition best_tip :: "(nat \<Rightarrow> 'v \<Rightarrow> 'v option) \<Rightarrow> 'v \<Rightarrow> 'v chain_state \<Rightarrow> bool" where
  "best_tip conn v0 st \<longleftrightarrow> (\<exists>t. ac_Tip st = Some t \<and> (\<forall>n. good conn v0 st n \<longrightarrow> \<not> CBlockIndexWorkComparator (nod st) t n))"

lemma best_tipI:
  assumes "act_inv conn v0 st" "ac_Tip st = Some t" "\<forall>c\<in>set (cs_candidates st). \<not> CBlockIndexWorkComparator (nod st) t c"
  shows "best_tip conn v0 st"
proof -
  have "\<not> CBlockIndexWorkComparator (nod st) t n" if g: "good conn v0 st n" for n
  proof
    assume c: "CBlockIndexWorkComparator (nod st) t n"
    obtain b where "b \<in> set (cs_candidates st)" "b = n \<or> CBlockIndexWorkComparator (nod st) n b"
      using assms(1) g unfolding act_inv_def by blast
    then show False using c assms(3) cmp_trans by blast
  qed
  then show ?thesis using assms(2) by (simp add: best_tip_def)
qed

lemma activate_loop_ok:
  assumes L: "lawful ops conn"
  shows "vs_mode vs = MODE_VALID \<Longrightarrow> act_inv conn v0 st \<Longrightarrow>
    (\<And>m. mw = Some m \<Longrightarrow> usable (nod st) (set (cs_index st)) m \<and> (\<forall>c\<in>set (cs_candidates st). \<not> CBlockIndexWorkComparator (nod st) m c)) \<Longrightarrow>
    \<exists>vs' st'. activate_loop ops mw vs st = Some (True, vs', st') \<and> act_inv conn v0 st' \<and> marks (good conn v0 st) st st' \<and> best_tip conn v0 st'"
proof (induction "rounds_left st" arbitrary: st vs mw rule: less_induct)
  case less
  have "\<exists>m st1. (case mw of Some p \<Rightarrow> Some (st, Some p) | None \<Rightarrow> FindMostWorkChain st) = Some (st1, Some m)
      \<and> marks (good conn v0 st) st st1 \<and> act_inv conn v0 st1 \<and> usable (nod st1) (set (cs_index st1)) m \<and> cs_active st1 = cs_active st
      \<and> (\<forall>c\<in>set (cs_candidates st1). \<not> CBlockIndexWorkComparator (nod st1) m c)"
  proof (cases mw)
    case (Some m)
    then show ?thesis using less.prems by simp
  next
    case None
    obtain t where t: "active_path st t" "good conn v0 st t" using act_inv_tip [OF less.prems(2)] by blast
    note a = active_pathD [OF t(1)]
    have co: "candidates_ok st" using less.prems(2) by (simp add: act_inv_def)
    obtain st1 r where r: "FindMostWorkChain st = Some (st1, r)" "shrinks (usable (nod st) (set (cs_index st))) st st1"
        "cs_active st1 = cs_active st" "cs_coins st1 = cs_coins st"
        "case r of None \<Rightarrow> cs_candidates st1 = [] | Some p \<Rightarrow> cs_candidates st1 \<noteq> [] \<and> p = last (cs_candidates st1)
          \<and> usable (nod st) (set (cs_index st)) p"
      using FindMostWorkChain_ok [OF t(1) co] by blast
    have sh: "shrinks (good conn v0 st) st st1" by (rule shrinks_mono [OF r(2)]) (simp add: good_def)
    have i1: "act_inv conn v0 st1" by (rule shrinks_act_inv [OF sh less.prems(2) r(3,4)])
    have u1: "usable (nod st1) (set (cs_index st1)) p = usable (nod st) (set (cs_index st)) p" for p
      using shrinks_usable [OF r(2) a(1)] r(2) by (simp add: shrinks_def)
    have "good conn v0 st1 t" using shrinks_good [OF sh a(1)] t(2) by simp
    then have "cs_candidates st1 \<noteq> []" using i1 by (fastforce simp: act_inv_def)
    then obtain m where m: "r = Some m" "m = last (cs_candidates st1)" "usable (nod st) (set (cs_index st)) m"
      using r(5) by (cases r) auto
    have "\<not> CBlockIndexWorkComparator (nod st1) m c" if "c \<in> set (cs_candidates st1)" for c
      using sorted_last [of "nod st1" "cs_candidates st1" c] that i1 m(2) cmp_asym by (auto simp: act_inv_def candidates_ok_def)
    moreover have "usable (nod st1) (set (cs_index st1)) m" using u1 m(3) by blast
    ultimately show ?thesis using None r(1,3) m(1) shrinks_marks [OF sh] i1
      by (intro exI [of _ m] exI [of _ st1]) simp
  qed
  then obtain m st1 where s1: "(case mw of Some p \<Rightarrow> Some (st, Some p) | None \<Rightarrow> FindMostWorkChain st) = Some (st1, Some m)"
      "marks (good conn v0 st) st st1" "act_inv conn v0 st1" "usable (nod st1) (set (cs_index st1)) m" "cs_active st1 = cs_active st"
      "\<forall>c\<in>set (cs_candidates st1). \<not> CBlockIndexWorkComparator (nod st1) m c" by blast
  note g1 = marks_good [OF s1(2) act_inv_tree [OF less.prems(2)]]
  show ?case
  proof (cases "ac_Tip st1 = Some m")
    case True
    then have "activate_loop ops mw vs st = Some (True, vs, st1)"
      using s1(1) lawfulD(3) [OF L] by (subst activate_loop.simps) simp
    then show ?thesis using s1(2,3) best_tipI [OF s1(3) True s1(6)] by simp
  next
    case False
    from ActivateBestChainStep_ok [OF L less.prems(1) s1(3,4)] obtain inv vs2 st2 where
      s2: "ActivateBestChainStep ops m vs st1 = Some (True, inv, vs2, st2)" "vs_mode vs2 = MODE_VALID" "act_inv conn v0 st2"
        "marks (good conn v0 st1) st1 st2"
        "if inv then \<exists>p\<in>set (node_path (nod st1) m). nd_failed (nod st2 p)
         else nod st2 = nod st1 \<and> (ac_Tip st2 = Some m \<or> (\<exists>tip. ac_Tip st2 = Some tip \<and> more_work (nod st1) tip (ac_Tip st1)))" by blast
    have mk: "marks (good conn v0 st) st st2" using marks_trans [OF s1(2)] s2(4) g1 by simp
    obtain t2 where t2: "ac_Tip st2 = Some t2" using act_inv_tip [OF s2(3)] by blast
    define mw2 where "mw2 = (if inv then None else Some m)"
    have run: "activate_loop ops mw vs st = (if ac_Tip st2 = mw2 then Some (bo_flush ops (cs_coins st2), vs2, st2) else activate_loop ops mw2 vs2 st2)"
      using s1(1) s2(1) False lawfulD(3) [OF L] by (subst activate_loop.simps) (simp add: mw2_def)
    have most: "usable (nod st2) (set (cs_index st2)) m \<and> (\<forall>c\<in>set (cs_candidates st2). \<not> CBlockIndexWorkComparator (nod st2) m c)" if "\<not> inv"
      using that s2(4,5) s1(4,6) by (auto simp: marks_iff)
    show ?thesis
    proof (cases "ac_Tip st2 = mw2")
      case True
      then have "\<not> inv" "ac_Tip st2 = Some m" using t2 by (auto simp: mw2_def split: if_splits)
      then have "best_tip conn v0 st2" using best_tipI [OF s2(3)] most by blast
      then show ?thesis using run True lawfulD(2) [OF L] s2(3) mk by simp
    next
      case go: False
      have idx: "cs_index st2 = cs_index st" using mk by (simp add: marks_iff)
      have un: "unmarked st1 \<subseteq> unmarked st" "unmarked st2 \<subseteq> unmarked st1" using marks_unmarked s1(2) s2(4) by blast+
      have "rounds_left st2 < rounds_left st"
      proof (rule rounds_left_less [OF idx], cases inv)
        case True
        then obtain p where p: "p \<in> set (node_path (nod st1) m)" "nd_failed (nod st2 p)" using s2(5) by auto
        then have "p \<in> unmarked st1" using usable_ancestor [OF act_inv_tree [OF s1(3)] s1(4) p(1)] s1(4) act_inv_tree [OF s1(3)]
          node_path_last node_path_ne by (fastforce simp: unmarked_def usable_def)
        moreover have "p \<notin> unmarked st2" using p(2) by (simp add: unmarked_def)
        ultimately show "unmarked st2 \<subset> unmarked st \<or> unmarked st2 \<subseteq> unmarked st \<and> above_tip st2 \<subset> above_tip st" using un by blast
      next
        case no_inv: False
        then obtain tip where tip: "nod st2 = nod st1" "ac_Tip st2 = Some tip" "more_work (nod st1) tip (ac_Tip st1)"
          using s2(5) go t2 by (auto simp: mw2_def)
        have same: "same_tree (nod st) (nod st1)" "ac_Tip st1 = ac_Tip st" using s1(2,5) by (simp_all add: marks_iff ac_Tip_def)
        obtain t0 where t0: "ac_Tip st = Some t0" using act_inv_tip [OF less.prems(2)] by blast
        obtain t3 where t3: "active_path st2 t3" "ac_Tip st2 = Some t3" using act_inv_tip [OF s2(3)] by blast
        have "tip \<in> set (cs_index st)" using tip(2) active_pathD(2) [OF t3(1)] t3(2) idx by simp
        moreover have "nd_nChainWork (nod st t0) < nd_nChainWork (nod st tip)"
          using tip(3) same t0 by (simp add: more_work_def same_tree_fields)
        ultimately have "above_tip st2 \<subset> above_tip st"
          using t0 tip(1,2) same idx by (auto simp: above_tip_def more_work_def same_tree_fields)
        then show "unmarked st2 \<subset> unmarked st \<or> unmarked st2 \<subseteq> unmarked st \<and> above_tip st2 \<subset> above_tip st" using un by blast
      qed
      moreover have "usable (nod st2) (set (cs_index st2)) k \<and> (\<forall>c\<in>set (cs_candidates st2). \<not> CBlockIndexWorkComparator (nod st2) k c)"
        if "mw2 = Some k" for k
        using that most by (cases inv) (simp_all add: mw2_def)
      ultimately obtain vs' st' where "activate_loop ops mw2 vs2 st2 = Some (True, vs', st')" "act_inv conn v0 st'" "marks (good conn v0 st2) st2 st'"
          "best_tip conn v0 st'"
        using less.hyps [OF _ s2(2,3), of mw2] by blast
      then show ?thesis using run go marks_trans [OF mk] marks_good [OF mk act_inv_tree [OF less.prems(2)]] by simp
    qed
  qed
qed

lemma ActivateBestChain_ok:
  assumes "lawful ops conn" "vs_mode vs = MODE_VALID" "act_inv conn v0 st"
  shows "\<exists>vs' st' tip. ActivateBestChain ops vs st = Some (True, vs', st') \<and> act_inv conn v0 st' \<and> cs_index st' = cs_index st
    \<and> ac_Tip st' = Some tip \<and> good conn v0 st tip \<and> cs_active st' = node_path (nod st) tip
    \<and> replay conn (node_path (nod st) tip) v0 = Some (cs_coins st')
    \<and> (\<forall>n. good conn v0 st n \<longrightarrow> n = tip \<or> CBlockIndexWorkComparator (nod st) n tip)"
proof -
  obtain vs' st' where r: "ActivateBestChain ops vs st = Some (True, vs', st')" "act_inv conn v0 st'" "marks (good conn v0 st) st st'"
      "best_tip conn v0 st'"
    using activate_loop_ok [OF assms] unfolding ActivateBestChain_def by blast
  obtain t where t: "active_path st' t" "ac_Tip st' = Some t" "good conn v0 st' t" using act_inv_tip [OF r(2)] by blast
  note g = marks_good [OF r(3) act_inv_tree [OF assms(3)]]
  have tree: "same_tree (nod st) (nod st')" "cs_index st' = cs_index st" using r(3) by (simp_all add: marks_iff)
  have "\<forall>n. good conn v0 st n \<longrightarrow> \<not> CBlockIndexWorkComparator (nod st) t n"
    using r(4) t(2) g by (simp add: best_tip_def same_tree_cmp [OF tree(1)])
  then have "\<forall>n. good conn v0 st n \<longrightarrow> n = t \<or> CBlockIndexWorkComparator (nod st) n t" using cmp_total by blast
  moreover have "cs_active st' = node_path (nod st) t" using active_pathD(3) [OF t(1)] by (simp add: same_tree_path [OF tree(1)])
  moreover have "replay conn (cs_active st') v0 = Some (cs_coins st')" using r(2) by (simp add: act_inv_def)
  ultimately show ?thesis using r(1,2) tree(2) t(2,3) g by auto
qed

text \<open>C1: \<open>ActivateBestChain\<close> ends and succeeds, whatever blocks turn out to be invalid on the way, when nothing
  fails for reasons of the system: the new tip is the greatest entry, in the order of the candidates (most work first),
  among all entries whose chain is complete, unmarked and connects block by block; the active chain is the path to it;
  the coins are those that connecting this path from the start gives; and the invariant holds again.\<close>

theorem ActivateBestChain_best:
  assumes "lawful ops conn" "vs_mode vs = MODE_VALID" "act_inv conn v0 st"
  shows "\<exists>vs' st' tip. ActivateBestChain ops vs st = Some (True, vs', st') \<and> act_inv conn v0 st' \<and> cs_index st' = cs_index st
    \<and> ac_Tip st' = Some tip \<and> good conn v0 st tip \<and> cs_active st' = node_path (nod st) tip
    \<and> replay conn (node_path (nod st) tip) v0 = Some (cs_coins st')
    \<and> (\<forall>n. good conn v0 st n \<longrightarrow> n = tip \<or> CBlockIndexWorkComparator (nod st) n tip)"
  using assms by (rule ActivateBestChain_ok)

text \<open>A sample: a genesis block 1 with the children 2 and 3; the block 3 has more work, but is invalid.\<close>

definition sample_node :: "nat \<Rightarrow> node" where
  "sample_node p = \<lparr> nd_hash = of_nat p, nd_pprev = (if p = 1 then None else Some 1), nd_nHeight = (if p = 1 then 0 else 1),
     nd_nChainWork = p, nd_nTx = 1, nd_nChainTx = (if p = 1 then 1 else 2), nd_nStatus = 11, nd_nSequenceId = p \<rparr>"

definition sample_select :: "nat list chain_state" where
  "sample_select = \<lparr> cs_node = sample_node, cs_index = [1, 2, 3], cs_active = [1], cs_candidates = [1, 2, 3], cs_unlinked = [],
     cs_bestInvalid = None, cs_nBlockSequenceId = 4, cs_source = Map.empty, cs_peers = Map.empty, cs_coins = [1] \<rparr>"

definition sample_conn :: "nat \<Rightarrow> nat list \<Rightarrow> nat list option" where
  "sample_conn p v = (if p = 3 then None else Some (p # v))"

definition sample_ops :: "nat list block_ops" where
  "sample_ops = \<lparr> bo_read = (\<lambda>p v. True),
     bo_connect = (\<lambda>p v vs. if p = 3 then (False, DoS vs 100 REJECT_INVALID ''bad'' False [], v) else (True, vs, p # v)),
     bo_disconnect = (\<lambda>p v vs. (True, vs, tl v)), bo_flush = (\<lambda>v. True), bo_shutdown = (\<lambda>v. False), bo_banscore = 100 \<rparr>"

lemma sample_lawful: "lawful sample_ops sample_conn"
  by (auto simp: lawful_def sample_ops_def sample_conn_def DoS_def IsInvalid_def REJECT_INTERNAL_def REJECT_INVALID_def)

lemma sample_paths: "node_path sample_node 1 = [1]" "node_path sample_node 2 = [1, 2]" "node_path sample_node 3 = [1, 3]"
  by (simp_all add: node_path_def sample_node_def)

lemma sample_usable: "p \<in> {1, 2, 3} \<Longrightarrow> usable sample_node {1, 2, 3} p"
proof -
  have "\<not> nd_failed (sample_node a) \<and> nd_has_data (sample_node a)" for a
    by (simp add: nd_failed_def nd_has_data_def sample_node_def BLOCK_flags)
  then show "p \<in> {1, 2, 3} \<Longrightarrow> usable sample_node {1, 2, 3} p" by (auto simp: usable_def sample_node_def)
qed

lemma sample_good: "good sample_conn [] sample_select p \<longleftrightarrow> p \<in> {1, 2}"
proof -
  have "usable sample_node {1, 2, 3} p \<Longrightarrow> p \<in> {1, 2, 3}" by (simp add: usable_def)
  then show ?thesis using sample_usable [of p]
    by (auto simp: good_def sample_select_def sample_paths [simplified] sample_conn_def)
qed

lemma sample_act_inv: "act_inv sample_conn [] sample_select"
proof -
  have "tree_ok sample_node {1, 2, 3}" by (auto simp: tree_ok_def sample_node_def)
  then have "active_path sample_select 1" using sample_usable [of 1] sample_paths by (simp add: active_path_def sample_select_def)
  moreover have "CBlockIndexWorkComparator sample_node p q \<longleftrightarrow> p < q" if "p \<noteq> q" for p q
    using that by (simp add: cmp_iff sample_node_def)
  then have "candidates_ok sample_select" by (simp add: candidates_ok_def sample_select_def) (simp add: sample_node_def)
  moreover have "replay sample_conn (cs_active sample_select) [] = Some (cs_coins sample_select)"
    by (simp add: sample_select_def sample_conn_def)
  moreover have "\<forall>n\<in>{1, 2}. n \<in> set (cs_candidates sample_select)" by (simp add: sample_select_def)
  ultimately show ?thesis unfolding act_inv_def sample_good by blast
qed

theorem ActivateBestChain_best_witness:
  "\<exists>vs' st'. ActivateBestChain sample_ops CValidationState_init sample_select = Some (True, vs', st')
    \<and> cs_active st' = [1, 2] \<and> cs_coins st' = [2, 1]"
proof -
  have "vs_mode CValidationState_init = MODE_VALID" by (simp add: CValidationState_init_def)
  then obtain vs' st' tip where r: "ActivateBestChain sample_ops CValidationState_init sample_select = Some (True, vs', st')"
      "good sample_conn [] sample_select tip" "cs_active st' = node_path (nod sample_select) tip"
      "replay sample_conn (node_path (nod sample_select) tip) [] = Some (cs_coins st')"
      "\<forall>n. good sample_conn [] sample_select n \<longrightarrow> n = tip \<or> CBlockIndexWorkComparator (nod sample_select) n tip"
    using ActivateBestChain_best [OF sample_lawful _ sample_act_inv] by blast
  have tip: "tip \<in> {1, 2}" "\<forall>n\<in>{1, 2}. n = tip \<or> CBlockIndexWorkComparator (nod sample_select) n tip"
    using r(2,5) unfolding sample_good by blast+
  have "\<not> CBlockIndexWorkComparator (nod sample_select) 2 1" by (simp add: cmp_iff sample_select_def sample_node_def)
  then have "tip = 2" using tip by (cases "tip = 1") auto
  moreover have "nod sample_select = sample_node" by (simp add: sample_select_def)
  ultimately have "cs_active st' = [1, 2]" "replay sample_conn [1, 2] [] = Some (cs_coins st')"
    using r(3,4) sample_paths(2) by simp_all
  moreover have "replay sample_conn [1, 2] [] = Some [2, 1]" by (simp add: sample_conn_def)
  ultimately show ?thesis using r(1) by simp
qed

end
