(* ===== verification/Chain_Mark.thy ===== *)
theory Chain_Mark
  imports Chain_Activate
begin

text \<open>
  Blocks that are marked by hand (\<open>InvalidateBlock\<close>, \<open>ReconsiderBlock\<close> of src/src/main.cpp).
\<close>

subsection \<open>The active chain without the candidates\<close>

definition active_upto :: "(nat \<Rightarrow> 'v \<Rightarrow> 'v option) \<Rightarrow> 'v \<Rightarrow> 'v chain_state \<Rightarrow> nat \<Rightarrow> bool" where
  "active_upto conn v0 st t \<longleftrightarrow> tree_ok (nod st) (set (cs_index st)) \<and> t \<in> set (cs_index st) \<and> cs_active st = node_path (nod st) t
     \<and> replay conn (cs_active st) v0 = Some (cs_coins st)"

lemma act_inv_active_upto:
  assumes "act_inv conn v0 st"
  obtains t where "active_upto conn v0 st t" "good conn v0 st t" "ac_Tip st = Some t"
proof -
  obtain t where t: "active_path st t" "ac_Tip st = Some t" "good conn v0 st t" using act_inv_tip [OF assms] by blast
  then have "active_upto conn v0 st t" using active_pathD [OF t(1)] assms by (simp add: active_upto_def act_inv_def)
  then show ?thesis using that t by blast
qed

lemma active_upto_tip: "active_upto conn v0 st t \<Longrightarrow> ac_Tip st = Some t"
  by (auto simp: active_upto_def intro: ac_Tip_path)

lemma DisconnectTip_active_upto:
  assumes L: "lawful ops conn" "vs_mode vs = MODE_VALID" and c: "active_upto conn v0 st t" and q: "nd_pprev (nod st t) = Some q"
  shows "\<exists>st'. DisconnectTip ops vs st = Some (True, vs, st') \<and> active_upto conn v0 st' q \<and> nod st' = nod st \<and> cs_index st' = cs_index st
    \<and> cs_candidates st' = cs_candidates st"
proof -
  have a: "tree_ok (nod st) (set (cs_index st))" "t \<in> set (cs_index st)" "cs_active st = node_path (nod st) t"
      "replay conn (cs_active st) v0 = Some (cs_coins st)" using c unfolding active_upto_def by blast+
  have e: "cs_active st = node_path (nod st) q @ [t]" using node_path_step [OF a(1,2) q] a(3) by simp
  obtain v where v: "replay conn (node_path (nod st) q) v0 = Some v" "conn t v = Some (cs_coins st)"
    using a(4) by (auto simp: e replay_append split: option.splits)
  define st' where "st' = st\<lparr> cs_coins := v, cs_active := node_path (nod st) q \<rparr>"
  have "ac_SetTip (Some q) (st\<lparr> cs_coins := v \<rparr>) = st'"
    using SetTip_disconnect [of "st\<lparr> cs_coins := v \<rparr>" "set (cs_index st)" t q] a q by (simp add: st'_def)
  then have "DisconnectTip ops vs st = Some (True, vs, st')"
    using lawfulD(1,2) [OF L(1)] lawfulD(4) [OF L(1) L(2) v(2)] q active_upto_tip [OF c] by (simp add: DisconnectTip_def UpdateTip_def)
  moreover have "active_upto conn v0 st' q"
    using a(1) v(1) tree_pprev [OF a(1,2) q] by (simp add: active_upto_def st'_def)
  ultimately show ?thesis by (simp add: st'_def)
qed

subsection \<open>Marking a block\<close>

text \<open>Flags are added to entries that build on \<open>p\<close>, and only those leave the candidates.\<close>

definition marked_above :: "nat \<Rightarrow> 'v chain_state \<Rightarrow> 'v chain_state \<Rightarrow> bool" where
  "marked_above p st st' \<longleftrightarrow> same_tree (nod st) (nod st') \<and> cs_index st' = cs_index st
     \<and> (\<forall>q. nd_has_data (nod st' q) = nd_has_data (nod st q)) \<and> (\<forall>q. nd_failed (nod st q) \<longrightarrow> nd_failed (nod st' q))
     \<and> (\<forall>q. nd_nStatus (nod st' q) AND BLOCK_VALID_MASK = nd_nStatus (nod st q) AND BLOCK_VALID_MASK)
     \<and> (\<forall>q. p \<notin> set (node_path (nod st) q) \<longrightarrow> nod st' q = nod st q)
     \<and> (\<exists>P. cs_candidates st' = filter P (cs_candidates st))"

lemma marked_above_refl [simp]: "marked_above p st st"
  by (auto simp: marked_above_def intro!: exI [of _ "\<lambda>c. True"])

lemma marked_above_trans:
  assumes "marked_above p st st'" "marked_above p st' st''" shows "marked_above p st st''"
proof -
  have t: "same_tree (nod st) (nod st')" "same_tree (nod st') (nod st'')" using assms by (auto simp: marked_above_def)
  obtain P Q where "cs_candidates st' = filter P (cs_candidates st)" "cs_candidates st'' = filter Q (cs_candidates st')"
    using assms unfolding marked_above_def by meson
  then have "\<exists>P. cs_candidates st'' = filter P (cs_candidates st)" by (intro exI [of _ "\<lambda>c. P c \<and> Q c"]) simp
  then show ?thesis using assms same_tree_trans [OF t] unfolding marked_above_def by (simp add: same_tree_path [OF t(1)])
qed

lemma set_flag_level: "f \<in> {BLOCK_FAILED_VALID, BLOCK_FAILED_CHILD} \<Longrightarrow>
    nd_nStatus (set_flag f n) AND BLOCK_VALID_MASK = nd_nStatus n AND BLOCK_VALID_MASK"
  by (auto simp: set_flag_def u32_and_or BLOCK_flags BLOCK_VALID_MASK_def BLOCK_VALID_HEADER_def BLOCK_VALID_TREE_def
      BLOCK_VALID_TRANSACTIONS_def BLOCK_VALID_CHAIN_def BLOCK_VALID_SCRIPTS_def)

lemma mark_and_erase:
  assumes "f \<in> {BLOCK_FAILED_VALID, BLOCK_FAILED_CHILD}" "tree_ok (nod st) (set (cs_index st))" "w \<in> set (cs_index st)" "p \<in> set (node_path (nod st) w)"
  defines "st' \<equiv> erase_candidate w (update_node w (set_flag f) st)"
  shows "marked_above p st st'" "nd_failed (nod st' w)" "cs_active st' = cs_active st" "cs_coins st' = cs_coins st"
proof -
  have f: "nod st' = (nod st)(w := set_flag f (nod st w))" "cs_candidates st' = filter (\<lambda>c. c \<noteq> w) (cs_candidates st)" "cs_index st' = cs_index st"
    by (simp_all add: st'_def erase_candidate_def update_node_def set_erase_filter)
  show "marked_above p st st'"
    using assms(1,4) by (auto simp: marked_above_def f same_tree_flag set_flag_data set_flag_failed set_flag_level)
  show "nd_failed (nod st' w)" by (simp add: f(1) set_flag_failed [OF assms(1)])
qed (simp_all add: st'_def erase_candidate_def update_node_def)

lemma invalidate_loop_ok:
  assumes L: "lawful ops conn" "vs_mode vs = MODE_VALID"
  shows "active_upto conn v0 st t \<Longrightarrow> p \<in> set (cs_index st) \<Longrightarrow> nd_pprev (nod st p) \<noteq> None \<Longrightarrow> length (cs_active st) \<le> k \<Longrightarrow>
    \<exists>st' t'. invalidate_loop ops k p vs st = Some (True, vs, st') \<and> active_upto conn v0 st' t' \<and> p \<notin> set (cs_active st')
      \<and> t' \<in> set (node_path (nod st) t) \<and> marked_above p st st'"
proof (induction k arbitrary: st t)
  case (0 st)
  then show ?case using node_path_ne [of "nod st" "set (cs_index st)" t] by (simp add: active_upto_def)
next
  case (Suc k)
  have a: "tree_ok (nod st) (set (cs_index st))" "t \<in> set (cs_index st)" "cs_active st = node_path (nod st) t"
    using Suc.prems(1) by (simp_all add: active_upto_def)
  note contains = ac_Contains_path [OF a Suc.prems(2)]
  show ?case
  proof (cases "p \<in> set (cs_active st)")
    case False
    then show ?thesis using contains Suc.prems(1) node_path_last [OF a(1,2)] node_path_ne [OF a(1,2)] last_in_set
      by (intro exI [of _ st] exI [of _ t]) fastforce
  next
    case True
    define st1 where "st1 = erase_candidate t (update_node t (set_flag BLOCK_FAILED_CHILD) st)"
    have pt: "p \<in> set (node_path (nod st) t)" using True a(3) by simp
    have child: "BLOCK_FAILED_CHILD \<in> {BLOCK_FAILED_VALID, BLOCK_FAILED_CHILD}" by simp
    note m = mark_and_erase [OF child a(1,2) pt, folded st1_def]
    have tree: "same_tree (nod st) (nod st1)" "cs_index st1 = cs_index st" using m(1) by (simp_all add: marked_above_def)
    have c1: "active_upto conn v0 st1 t"
      using Suc.prems(1) unfolding active_upto_def tree(2) same_tree_ok [OF tree(1)] same_tree_path [OF tree(1)] m(3,4) .
    obtain q where q: "nd_pprev (nod st t) = Some q"
      using node_path_root [OF a(1,2)] pt Suc.prems(3) by (cases "nd_pprev (nod st t)") auto
    have q1: "nd_pprev (nod st1 t) = Some q" using q by (simp add: same_tree_fields [OF tree(1)])
    obtain st2 where st2: "DisconnectTip ops vs st1 = Some (True, vs, st2)" "active_upto conn v0 st2 q" "nod st2 = nod st1"
        "cs_index st2 = cs_index st1" "cs_candidates st2 = cs_candidates st1"
      using DisconnectTip_active_upto [OF L c1 q1] by blast
    have e: "node_path (nod st) t = node_path (nod st) q @ [t]" by (rule node_path_step [OF a(1,2) q])
    have m2: "marked_above p st st2" using m(1) st2(3-5) by (simp add: marked_above_def)
    have act2: "cs_active st2 = node_path (nod st) q" using st2(2,3) by (simp add: active_upto_def same_tree_path [OF tree(1)])
    have "p \<in> set (cs_index st2)" "nd_pprev (nod st2 p) \<noteq> None" "length (cs_active st2) \<le> k"
      using Suc.prems(2-4) st2(3,4) tree act2 e a(3) by (simp_all add: same_tree_fields [OF tree(1)])
    then obtain st' t' where r: "invalidate_loop ops k p vs st2 = Some (True, vs, st')" "active_upto conn v0 st' t'" "p \<notin> set (cs_active st')"
        "t' \<in> set (node_path (nod st2) q)" "marked_above p st2 st'"
      using Suc.IH [OF st2(2)] by blast
    have "invalidate_loop ops (Suc k) p vs st = invalidate_loop ops k p vs st2"
      using True contains active_upto_tip [OF Suc.prems(1)] st2(1) by (simp add: st1_def)
    moreover have "t' \<in> set (node_path (nod st) t)" using r(4) st2(3) e by (simp add: same_tree_path [OF tree(1)])
    ultimately show ?thesis using r marked_above_trans [OF m2 r(5)] by auto
  qed
qed

text \<open>The good entries after marking are those that do not build on the block.\<close>

lemma marked_above_good:
  assumes "marked_above p st st'" "nd_failed (nod st' p)" "tree_ok (nod st) (set (cs_index st))"
  shows "good conn v0 st' n \<longleftrightarrow> good conn v0 st n \<and> p \<notin> set (node_path (nod st) n)"
proof -
  have tree: "same_tree (nod st) (nod st')" and idx: "cs_index st' = cs_index st" using assms(1) by (simp_all add: marked_above_def)
  note path = same_tree_path [OF tree]
  have keep: "nod st' a = nod st a" if w: "p \<notin> set (node_path (nod st) n)" "a \<in> set (node_path (nod st) n)" "n \<in> set (cs_index st)" for a
  proof -
    obtain i where "i < length (node_path (nod st) n)" "a = node_path (nod st) n ! i" using w(2) by (auto simp: in_set_conv_nth)
    then have "set (node_path (nod st) a) \<subseteq> set (node_path (nod st) n)"
      using node_path_nth(2) [OF assms(3) w(3)] by (auto dest: in_set_takeD)
    then show ?thesis using assms(1) w(1) by (auto simp: marked_above_def)
  qed
  show ?thesis
  proof
    assume g: "good conn v0 st' n"
    then have "p \<notin> set (node_path (nod st) n)" using assms(2) by (auto simp: good_def usable_def path)
    moreover have "good conn v0 st n"
      using g assms(1) by (auto simp: good_def usable_def path idx same_tree_fields [OF tree] marked_above_def)
    ultimately show "good conn v0 st n \<and> p \<notin> set (node_path (nod st) n)" by simp
  next
    assume "good conn v0 st n \<and> p \<notin> set (node_path (nod st) n)"
    then show "good conn v0 st' n"
      using keep by (simp add: good_def usable_def path idx same_tree_fields [OF tree])
  qed
qed

text \<open>Linked entries have reached the level of their transactions.\<close>

definition levels_ok :: "'v chain_state \<Rightarrow> bool" where
  "levels_ok st \<longleftrightarrow> (\<forall>p\<in>set (cs_index st). nd_nChainTx (nod st p) \<noteq> 0 \<longrightarrow>
     BLOCK_VALID_TRANSACTIONS \<le> nd_nStatus (nod st p) AND BLOCK_VALID_MASK)"

lemma fold_readd:
  defines "again st t n \<equiv> nd_IsValid (nod st n) BLOCK_VALID_TRANSACTIONS \<and> nd_nChainTx (nod st n) \<noteq> 0 \<and> \<not> CBlockIndexWorkComparator (nod st) n t"
  shows "sorted_wrt (CBlockIndexWorkComparator (nod st)) (cs_candidates st) \<Longrightarrow>
    \<exists>cs. fold (readd_candidate t) ns st = st\<lparr> cs_candidates := cs \<rparr> \<and> sorted_wrt (CBlockIndexWorkComparator (nod st)) cs
      \<and> set cs = set (cs_candidates st) \<union> {n \<in> set ns. again st t n}"
proof (induction ns arbitrary: st)
  case Nil
  then show ?case by (intro exI [of _ "cs_candidates st"]) simp
next
  case (Cons n ns)
  define st1 where "st1 = readd_candidate t n st"
  obtain cs1 where cs1: "st1 = st\<lparr> cs_candidates := cs1 \<rparr>" "sorted_wrt (CBlockIndexWorkComparator (nod st)) cs1"
      "set cs1 = set (cs_candidates st) \<union> {k. k = n \<and> again st t k}"
  proof (cases "again st t n")
    case True
    then have "st1 = st\<lparr> cs_candidates := set_insert (nod st) n (cs_candidates st) \<rparr>"
      by (simp add: st1_def readd_candidate_def again_def insert_candidate_def)
    then show ?thesis
      by (rule that [OF _ sorted_set_insert [OF Cons.prems]]) (use True in \<open>auto simp: set_set_insert\<close>)
  next
    case False
    then have "st1 = st" by (auto simp: st1_def readd_candidate_def again_def)
    then show ?thesis using that [of "cs_candidates st"] Cons.prems False by auto
  qed
  have "again st1 t = again st t" by (intro ext) (simp add: again_def cs1(1))
  then obtain cs where "fold (readd_candidate t) ns st1 = st1\<lparr> cs_candidates := cs \<rparr>" "sorted_wrt (CBlockIndexWorkComparator (nod st1)) cs"
      "set cs = set (cs_candidates st1) \<union> {k \<in> set ns. again st t k}"
    using Cons.IH [of st1] cs1 by auto
  then have "fold (readd_candidate t) (n # ns) st = st\<lparr> cs_candidates := cs \<rparr> \<and> sorted_wrt (CBlockIndexWorkComparator (nod st)) cs
      \<and> set cs = set (cs_candidates st) \<union> {k \<in> set (n # ns). again st t k}"
    using cs1 by (auto simp: st1_def [symmetric])
  then show ?case by blast
qed

lemma InvalidateBlock_ok:
  assumes L: "lawful ops conn" "vs_mode vs = MODE_VALID" and i: "act_inv conn v0 st" "levels_ok st"
    and p: "p \<in> set (cs_index st)" "nd_pprev (nod st p) \<noteq> None"
  shows "\<exists>st'. InvalidateBlock ops vs p st = Some (True, vs, st') \<and> act_inv conn v0 st' \<and> levels_ok st'
    \<and> same_tree (nod st) (nod st') \<and> cs_index st' = cs_index st \<and> p \<notin> set (cs_active st')
    \<and> (\<forall>n. good conn v0 st' n \<longleftrightarrow> good conn v0 st n \<and> p \<notin> set (node_path (nod st) n))"
proof -
  obtain t where t: "active_upto conn v0 st t" "good conn v0 st t" using act_inv_active_upto [OF i(1)] by blast
  note tr = act_inv_tree [OF i(1)]
  have valid: "BLOCK_FAILED_VALID \<in> {BLOCK_FAILED_VALID, BLOCK_FAILED_CHILD}" by simp
  have pp: "p \<in> set (node_path (nod st) p)" using node_path_last [OF tr p(1)] node_path_ne [OF tr p(1)] last_in_set by metis
  define st1 where "st1 = erase_candidate p (update_node p (set_flag BLOCK_FAILED_VALID) st)"
  note m1 = mark_and_erase [OF valid tr p(1) pp, folded st1_def]
  have tree1: "same_tree (nod st) (nod st1)" "cs_index st1 = cs_index st" using m1(1) by (simp_all add: marked_above_def)
  have c1: "active_upto conn v0 st1 t"
    using t(1) unfolding active_upto_def tree1(2) same_tree_ok [OF tree1(1)] same_tree_path [OF tree1(1)] m1(3,4) .
  have "p \<in> set (cs_index st1)" "nd_pprev (nod st1 p) \<noteq> None" using p tree1(2) same_tree_fields(1) [OF tree1(1)] by simp_all
  then obtain st2 t2 where st2: "invalidate_loop ops (length (cs_active st1)) p vs st1 = Some (True, vs, st2)" "active_upto conn v0 st2 t2"
      "p \<notin> set (cs_active st2)" "t2 \<in> set (node_path (nod st1) t)" "marked_above p st1 st2"
    using invalidate_loop_ok [OF L c1] by blast
  have m2: "marked_above p st st2" by (rule marked_above_trans [OF m1(1) st2(5)])
  have tree: "same_tree (nod st) (nod st2)" and idx: "cs_index st2 = cs_index st" using m2 by (simp_all add: marked_above_def)
  have failed: "nd_failed (nod st2 p)" using m1(2) st2(5) by (simp add: marked_above_def)
  have good2: "good conn v0 st2 n \<longleftrightarrow> good conn v0 st n \<and> p \<notin> set (node_path (nod st) n)" for n
    by (rule marked_above_good [OF m2 failed tr])
  have act2: "cs_active st2 = node_path (nod st) t2" using st2(2) by (simp add: active_upto_def same_tree_path [OF tree])
  have gt2: "good conn v0 st2 t2"
    using good2 good_ancestor [OF tr t(2), of t2] st2(3,4) act2 by (simp add: same_tree_path [OF tree1(1)])
  have lev2: "levels_ok st2" using i(2) m2 by (simp add: levels_ok_def marked_above_def same_tree_fields [OF tree])
  obtain P where P: "cs_candidates st2 = filter P (cs_candidates st)" using m2 by (auto simp: marked_above_def)
  have sorted: "sorted_wrt (CBlockIndexWorkComparator (nod st2)) (cs_candidates st2)"
    using i(1) by (simp add: P act_inv_def candidates_ok_def sorted_wrt_filter same_tree_cmp [OF tree])
  obtain cs where cs: "fold (readd_candidate t2) (cs_index st2) st2 = st2\<lparr> cs_candidates := cs \<rparr>" "sorted_wrt (CBlockIndexWorkComparator (nod st2)) cs"
      "set cs = set (cs_candidates st2) \<union> {n \<in> set (cs_index st2). nd_IsValid (nod st2 n) BLOCK_VALID_TRANSACTIONS
         \<and> nd_nChainTx (nod st2 n) \<noteq> 0 \<and> \<not> CBlockIndexWorkComparator (nod st2) n t2}"
    using fold_readd [OF sorted, of t2 "cs_index st2"] by blast
  define st' where "st' = (if more_work (nod st2) p (cs_bestInvalid st2) then st2\<lparr> cs_candidates := cs, cs_bestInvalid := Some p \<rparr> else st2\<lparr> cs_candidates := cs \<rparr>)"
  have f: "nod st' = nod st2" "cs_index st' = cs_index st2" "cs_active st' = cs_active st2" "cs_coins st' = cs_coins st2" "cs_candidates st' = cs"
    by (simp_all add: st'_def)
  have "InvalidateBlock ops vs p st = Some (True, vs, st')"
    using st2(1) m1(3) active_upto_tip [OF st2(2)] cs(1)
    by (simp add: InvalidateBlock_def st1_def [symmetric] InvalidChainFound_def ac_Tip_def st'_def split: if_splits)
  moreover have g': "good conn v0 st' = good conn v0 st2" by (rule good_cong [OF f(1,2)])
  moreover have "act_inv conn v0 st'"
  proof -
    have "active_path st' t2" using gt2 st2(2) by (simp add: active_path_def f good_def active_upto_def)
    moreover have "candidates_ok st'" using i(1) cs(2,3) idx P
      by (auto simp: candidates_ok_def act_inv_def f same_tree_fields [OF tree])
    moreover have "replay conn (cs_active st') v0 = Some (cs_coins st')" using st2(2) unfolding active_upto_def f by blast
    moreover have mem: "n \<in> set cs" if n: "good conn v0 st2 n" "\<not> CBlockIndexWorkComparator (nod st2) n t2" for n
    proof -
      have u: "usable (nod st2) (set (cs_index st2)) n" using n(1) by (simp add: good_def)
      then have in': "n \<in> set (cs_index st2)" "nd_nChainTx (nod st2 n) \<noteq> 0" by (simp_all add: usable_def)
      have "tree_ok (nod st2) (set (cs_index st2))" using tr by (simp add: same_tree_ok [OF tree] idx)
      then have "n \<in> set (node_path (nod st2) n)" using node_path_last node_path_ne in'(1) last_in_set by metis
      then have "\<not> nd_failed (nod st2 n)" using u by (simp add: usable_def)
      then have "nd_IsValid (nod st2 n) BLOCK_VALID_TRANSACTIONS" using lev2 in' by (simp add: nd_IsValid_def levels_ok_def)
      then show ?thesis using cs(3) in' n(2) by simp
    qed
    moreover have "n \<in> set cs \<or> (\<exists>b\<in>set cs. good conn v0 st2 b \<and> CBlockIndexWorkComparator (nod st2) n b)" if "good conn v0 st2 n" for n
      using mem [OF that] mem [OF gt2] gt2 by auto
    ultimately show ?thesis unfolding act_inv_def g' f by blast
  qed
  moreover have "levels_ok st'" using lev2 by (simp add: levels_ok_def f)
  ultimately show ?thesis using tree idx st2(3) good2 by (simp add: f)
qed

text \<open>C6: Marking a block that is not the genesis block as invalid succeeds, and the following \<open>ActivateBestChain\<close>
  leaves the active chain without it, at the greatest entry among all good ones that do not build on it.\<close>

theorem InvalidateBlock_avoids:
  assumes "lawful ops conn" "vs_mode vs = MODE_VALID" "act_inv conn v0 st" "levels_ok st" "p \<in> set (cs_index st)" "nd_pprev (nod st p) \<noteq> None"
  shows "\<exists>st1 vs' st' tip. InvalidateBlock ops vs p st = Some (True, vs, st1) \<and> ActivateBestChain ops vs st1 = Some (True, vs', st')
    \<and> act_inv conn v0 st' \<and> ac_Tip st' = Some tip \<and> cs_active st' = node_path (nod st) tip \<and> p \<notin> set (cs_active st')
    \<and> good conn v0 st tip
    \<and> (\<forall>n. good conn v0 st n \<and> p \<notin> set (node_path (nod st) n) \<longrightarrow> n = tip \<or> CBlockIndexWorkComparator (nod st) n tip)"
proof -
  obtain st1 where st1: "InvalidateBlock ops vs p st = Some (True, vs, st1)" "act_inv conn v0 st1" "same_tree (nod st) (nod st1)"
      "\<And>n. good conn v0 st1 n \<longleftrightarrow> good conn v0 st n \<and> p \<notin> set (node_path (nod st) n)"
    using InvalidateBlock_ok [OF assms] by blast
  obtain vs' st' tip where "ActivateBestChain ops vs st1 = Some (True, vs', st')" "act_inv conn v0 st'" "ac_Tip st' = Some tip"
      "good conn v0 st1 tip" "cs_active st' = node_path (nod st1) tip"
      "\<forall>n. good conn v0 st1 n \<longrightarrow> n = tip \<or> CBlockIndexWorkComparator (nod st1) n tip"
    using ActivateBestChain_ok [OF assms(1,2) st1(2)] by blast
  then show ?thesis
    using st1(1) unfolding st1(4) same_tree_path [OF st1(3)] same_tree_cmp [OF st1(3)] by metis
qed

theorem InvalidateBlock_avoids_witness:
  "\<exists>st1 vs' st'. InvalidateBlock sample_ops CValidationState_init 2 sample_select = Some (True, CValidationState_init, st1)
    \<and> ActivateBestChain sample_ops CValidationState_init st1 = Some (True, vs', st') \<and> 2 \<notin> set (cs_active st')"
proof -
  have "vs_mode CValidationState_init = MODE_VALID" by (simp add: CValidationState_init_def)
  moreover have "levels_ok sample_select"
    by (simp add: levels_ok_def sample_select_def sample_node_def BLOCK_VALID_TRANSACTIONS_def BLOCK_VALID_MASK_def BLOCK_VALID_HEADER_def
        BLOCK_VALID_TREE_def BLOCK_VALID_CHAIN_def BLOCK_VALID_SCRIPTS_def)
  moreover have "2 \<in> set (cs_index sample_select)" "nd_pprev (nod sample_select 2) \<noteq> None" by (simp_all add: sample_select_def sample_node_def)
  ultimately show ?thesis using InvalidateBlock_avoids [OF sample_lawful _ sample_act_inv] by blast
qed

subsection \<open>Reconsidering a block\<close>

text \<open>\<open>ReconsiderBlock\<close> clears the marks of the block, of what builds on it and of its ancestors; every other entry
  keeps its mark, also one that was only marked because it builds on an ancestor that is cleared now.\<close>

lemma reconsider_entry_nod:
  assumes "reconsider_entry p q st = Some st'"
  shows "nod st' = (if nd_IsValid (nod st q) BLOCK_VALID_TRANSACTIONS \<or> nd_GetAncestor (nod st) q (nd_nHeight (nod st p)) \<noteq> Some p
      then nod st else (nod st)(q := clear_failed (nod st q)))"
  using assms
  by (auto simp: reconsider_entry_def update_node_def insert_candidate_def Let_def split: if_splits option.splits)

definition sample_marked :: "nat list chain_state" where
  "sample_marked = sample_select\<lparr> cs_index := [1, 2, 3, 4], cs_candidates := [1],
     cs_node := sample_node(2 := set_flag BLOCK_FAILED_VALID (sample_node 2),
       3 := (sample_node 3)\<lparr> nd_pprev := Some 2, nd_nHeight := 2, nd_nStatus := 11 OR BLOCK_FAILED_CHILD \<rparr>,
       4 := (sample_node 4)\<lparr> nd_pprev := Some 2, nd_nHeight := 2, nd_nStatus := 11 OR BLOCK_FAILED_CHILD \<rparr>) \<rparr>"

lemma sibling_stays_marked:
  "case ReconsiderBlock 3 sample_marked of None \<Rightarrow> False
   | Some st' \<Rightarrow> \<not> nd_failed (nod st' 2) \<and> \<not> nd_failed (nod st' 3) \<and> nd_failed (nod st' 4)"
  by code_simp

end
