(* ===== verification/Chain_Receive.thy ===== *)
theory Chain_Receive
  imports Chain_Mark
begin

text \<open>
  Blocks whose data arrives (\<open>ReceivedBlockTransactions\<close> of src/src/main.cpp): linking is complete, and the invariant of
  \<open>ActivateBestChain\<close> is kept.
\<close>

subsection \<open>Entries that are not linked may change\<close>

definition grows :: "'v chain_state \<Rightarrow> 'v chain_state \<Rightarrow> bool" where
  "grows st st' \<longleftrightarrow> (\<forall>p. nd_pprev (nod st' p) = nd_pprev (nod st p) \<and> nd_nHeight (nod st' p) = nd_nHeight (nod st p)
       \<and> nd_nChainWork (nod st' p) = nd_nChainWork (nod st p) \<and> (nd_nChainTx (nod st p) \<noteq> 0 \<longrightarrow> nod st' p = nod st p))
     \<and> cs_index st' = cs_index st \<and> cs_active st' = cs_active st \<and> cs_coins st' = cs_coins st
     \<and> tree_ok (nod st') (set (cs_index st))"

lemma node_path_cong:
  assumes "\<And>p. nd_pprev (N' p) = nd_pprev (N p)" "\<And>p. nd_nHeight (N' p) = nd_nHeight (N p)"
  shows "node_path N' p = node_path N p"
proof -
  have "path_upto N' k p = path_upto N k p" for k p
    by (induction k arbitrary: p) (simp_all add: assms(1) split: option.split)
  then show ?thesis by (simp add: node_path_def assms(2))
qed

lemma grows_path: "grows st st' \<Longrightarrow> node_path (nod st') p = node_path (nod st) p"
  by (rule node_path_cong) (simp_all add: grows_def)

lemma tree_ok_relink:
  assumes tr: "tree_ok N I" and s: "\<And>a. nd_pprev (N' a) = nd_pprev (N a)" "\<And>a. nd_nHeight (N' a) = nd_nHeight (N a)"
      "\<And>a. nd_nChainWork (N' a) = nd_nChainWork (N a)"
    and l: "\<And>a b. a \<in> I \<Longrightarrow> nd_pprev (N a) = Some b \<Longrightarrow> nd_nChainTx (N' a) \<noteq> 0 \<longrightarrow> nd_nChainTx (N' b) \<noteq> 0"
  shows "tree_ok N' I"
  unfolding tree_ok_def
proof (intro conjI ballI impI)
  show "finite I" using tr by (simp add: tree_ok_def)
  show "p = q" if "p \<in> I" "q \<in> I" "nd_pprev (N' p) = None" "nd_pprev (N' q) = None" for p q
    using tr that unfolding tree_ok_def s by blast
  fix p assume p: "p \<in> I"
  show "case nd_pprev (N' p) of None \<Rightarrow> nd_nHeight (N' p) = 0
      | Some q \<Rightarrow> q \<in> I \<and> nd_nHeight (N' p) = nd_nHeight (N' q) + 1 \<and> nd_nChainWork (N' q) < nd_nChainWork (N' p)
          \<and> 0 \<le> nd_nHeight (N' q) \<and> (nd_nChainTx (N' p) \<noteq> 0 \<longrightarrow> nd_nChainTx (N' q) \<noteq> 0)"
    using tree_root [OF tr p] tree_pprev [OF tr p] l [OF p] unfolding s by (cases "nd_pprev (N p)") auto
qed

lemma linked_path:
  assumes "tree_ok N I" "p \<in> I" "nd_nChainTx (N p) \<noteq> 0" "a \<in> set (node_path N p)"
  shows "nd_nChainTx (N a) \<noteq> 0"
proof -
  obtain i where "i < length (node_path N p)" "a = node_path N p ! i" using assms(4) by (auto simp: in_set_conv_nth)
  then show ?thesis using node_path_nth(4) [OF assms(1,2)] assms(3) by simp
qed

lemma grows_good:
  assumes "grows st st'" "tree_ok (nod st) (set (cs_index st))" "nd_nChainTx (nod st n) \<noteq> 0"
  shows "good conn v0 st' n = good conn v0 st n"
proof (cases "n \<in> set (cs_index st)")
  case True
  have same: "nod st' p = nod st p" if "nd_nChainTx (nod st p) \<noteq> 0" for p using assms(1) that by (simp add: grows_def)
  then have "nod st' a = nod st a" if "a \<in> set (node_path (nod st) n)" for a
    using linked_path [OF assms(2) True assms(3) that] by blast
  moreover have "cs_index st' = cs_index st" using assms(1) by (simp add: grows_def)
  ultimately show ?thesis using same [OF assms(3)] by (simp add: good_def usable_def grows_path [OF assms(1)])
next
  case False
  then show ?thesis using assms(1) by (simp add: good_def usable_def grows_def)
qed

lemma grows_cmp:
  "grows st st' \<Longrightarrow> nd_nChainTx (nod st p) \<noteq> 0 \<Longrightarrow> nd_nChainTx (nod st q) \<noteq> 0 \<Longrightarrow>
    CBlockIndexWorkComparator (nod st') p q = CBlockIndexWorkComparator (nod st) p q"
  by (simp add: grows_def cmp_iff)

text \<open>The invariant survives when the new good entries are candidates or worse than the tip.\<close>

lemma grows_act_inv:
  assumes g: "grows st st'" and i: "act_inv conn v0 st" and t: "ac_Tip st = Some t"
    and c: "sorted_wrt (CBlockIndexWorkComparator (nod st')) (cs_candidates st')" "set (cs_candidates st) \<subseteq> set (cs_candidates st')"
      "\<And>n. n \<in> set (cs_candidates st') \<Longrightarrow> n \<in> set (cs_index st) \<and> nd_nChainTx (nod st' n) \<noteq> 0"
    and new: "\<And>n. good conn v0 st' n \<Longrightarrow> nd_nChainTx (nod st n) = 0 \<Longrightarrow> n \<in> set (cs_candidates st') \<or> CBlockIndexWorkComparator (nod st') n t"
  shows "act_inv conn v0 st'"
proof -
  obtain t' where "active_path st t'" "ac_Tip st = Some t'" "good conn v0 st t'" using act_inv_tip [OF i] by blast
  then have ap: "active_path st t" "good conn v0 st t" using t by auto
  note a = active_pathD [OF ap(1)]
  have lt: "nd_nChainTx (nod st t) \<noteq> 0" using a(4) by (simp add: usable_def)
  have gt: "good conn v0 st' t" using grows_good [OF g a(1) lt] ap(2) by simp
  have linked: "nd_nChainTx (nod st n) \<noteq> 0" if "n \<in> set (cs_candidates st)" for n
    using i that by (simp add: act_inv_def candidates_ok_def)
  have f: "cs_index st' = cs_index st" "cs_active st' = cs_active st" "cs_coins st' = cs_coins st" "tree_ok (nod st') (set (cs_index st))"
    using g by (simp_all add: grows_def)
  have "active_path st' t" using gt f a(3) by (simp add: active_path_def good_def grows_path [OF g])
  moreover have "candidates_ok st'" using c(1,3) f(1) by (auto simp: candidates_ok_def)
  moreover have "replay conn (cs_active st') v0 = Some (cs_coins st')" using i by (simp add: act_inv_def f)
  moreover have old: "n \<in> set (cs_candidates st') \<or> (\<exists>b\<in>set (cs_candidates st'). good conn v0 st' b \<and> CBlockIndexWorkComparator (nod st') n b)"
    if n: "good conn v0 st' n" "nd_nChainTx (nod st n) \<noteq> 0" for n
  proof -
    have "good conn v0 st n" using n grows_good [OF g a(1)] by blast
    then consider "n \<in> set (cs_candidates st)" | b where "b \<in> set (cs_candidates st)" "good conn v0 st b" "CBlockIndexWorkComparator (nod st) n b"
      using i unfolding act_inv_def by blast
    then show ?thesis
    proof cases
      case 1
      then show ?thesis using c(2) by blast
    next
      case (2 b)
      then have "good conn v0 st' b" "CBlockIndexWorkComparator (nod st') n b"
        using linked [of b] grows_good [OF g a(1)] grows_cmp [OF g n(2)] by blast+
      then show ?thesis using 2(1) c(2) by blast
    qed
  qed
  moreover have "n \<in> set (cs_candidates st') \<or> (\<exists>b\<in>set (cs_candidates st'). good conn v0 st' b \<and> CBlockIndexWorkComparator (nod st') n b)"
    if n: "good conn v0 st' n" for n
  proof (cases "nd_nChainTx (nod st n) = 0")
    case True
    then show ?thesis using new [OF n] old [OF gt lt] gt cmp_trans by blast
  next
    case False
    then show ?thesis using old n by blast
  qed
  ultimately show ?thesis unfolding act_inv_def by blast
qed

subsection \<open>The counts of transactions\<close>

text \<open>A linked entry counts the transactions up to it, and entries with data have reached that level.\<close>

definition counts_ok :: "'v chain_state \<Rightarrow> bool" where
  "counts_ok st \<longleftrightarrow> (\<Sum>p\<in>set (cs_index st). nd_nTx (nod st p)) < 2 ^ 32
     \<and> (\<forall>p\<in>set (cs_index st). BLOCK_VALID_TREE \<le> nd_nStatus (nod st p) AND BLOCK_VALID_MASK
         \<and> (nd_nTx (nod st p) \<noteq> 0 \<longrightarrow> BLOCK_VALID_TRANSACTIONS \<le> nd_nStatus (nod st p) AND BLOCK_VALID_MASK)
         \<and> (nd_nChainTx (nod st p) \<noteq> 0 \<longrightarrow> nd_nTx (nod st p) \<noteq> 0
              \<and> nd_nChainTx (nod st p) = sum_list (map (\<lambda>a. nd_nTx (nod st a)) (node_path (nod st) p))))"

lemma counts_levels: "counts_ok st \<Longrightarrow> levels_ok st"
  by (auto simp: counts_ok_def levels_ok_def)

lemma distinct_node_path:
  assumes "tree_ok N I" "p \<in> I" shows "distinct (node_path N p)"
  unfolding distinct_conv_nth using node_path_nth(1) [OF assms] by (metis of_nat_eq_iff)

lemma path_count_le:
  assumes "tree_ok N I" "p \<in> I"
  shows "sum_list (map f (node_path N p)) \<le> (\<Sum>a\<in>I. f a :: nat)"
proof -
  have "sum_list (map f (node_path N p)) = (\<Sum>a\<in>set (node_path N p). f a)"
    by (rule sum_list_distinct_conv_sum_set [OF distinct_node_path [OF assms]])
  also have "\<dots> \<le> (\<Sum>a\<in>I. f a)"
    using assms(1) node_path_set [OF assms] by (intro sum_mono2) (auto simp: tree_ok_def)
  finally show ?thesis .
qed

subsection \<open>Linking one entry\<close>

text \<open>An entry that can be linked: its data is there and its predecessor is linked.\<close>

definition ready :: "'v chain_state \<Rightarrow> nat \<Rightarrow> bool" where
  "ready st p \<longleftrightarrow> p \<in> set (cs_index st) \<and> nd_nTx (nod st p) \<noteq> 0 \<and> nd_nChainTx (nod st p) = 0
     \<and> (\<exists>q. nd_pprev (nod st p) = Some q \<and> nd_nChainTx (nod st q) \<noteq> 0)"

lemma link_entry_ok:
  assumes i: "act_inv conn v0 st" "counts_ok st" and r: "ready st p"
  shows "act_inv conn v0 (link_entry p st) \<and> counts_ok (link_entry p st) \<and> cs_index (link_entry p st) = cs_index st
    \<and> nd_nChainTx (nod (link_entry p st) p) \<noteq> 0
    \<and> (\<exists>c s. nod (link_entry p st) = (nod st)(p := (nod st p)\<lparr> nd_nChainTx := c, nd_nSequenceId := s \<rparr>))"
proof -
  note tr = act_inv_tree [OF i(1)]
  obtain t where t: "active_path st t" "ac_Tip st = Some t" using act_inv_tip [OF i(1)] by blast
  obtain q where p: "p \<in> set (cs_index st)" "nd_nTx (nod st p) \<noteq> 0" "nd_nChainTx (nod st p) = 0" "nd_pprev (nod st p) = Some q"
      "nd_nChainTx (nod st q) \<noteq> 0" using r by (auto simp: ready_def)
  have q: "q \<in> set (cs_index st)" using tree_pprev [OF tr p(1,4)] by simp
  have e: "node_path (nod st) p = node_path (nod st) q @ [p]" by (rule node_path_step [OF tr p(1,4)])
  define total where "total = sum_list (map (\<lambda>a. nd_nTx (nod st a)) (node_path (nod st) p))"
  have "nd_nChainTx (nod st q) = sum_list (map (\<lambda>a. nd_nTx (nod st a)) (node_path (nod st) q))" using i(2) q p(5) by (simp add: counts_ok_def)
  then have tot: "nd_nChainTx (nod st q) + nd_nTx (nod st p) = total" by (simp add: total_def e)
  have "total < 2 ^ 32" using path_count_le [OF tr p(1), of "\<lambda>a. nd_nTx (nod st a)"] i(2) by (simp add: total_def counts_ok_def)
  then have c: "(nd_nChainTx (nod st q) + nd_nTx (nod st p)) mod 2 ^ 32 = total" using tot by simp
  define st1 where "st1 = st\<lparr> cs_node := (nod st)(p := (nod st p)\<lparr> nd_nChainTx := total, nd_nSequenceId := cs_nBlockSequenceId st \<rparr>),
      cs_nBlockSequenceId := (cs_nBlockSequenceId st + 1) mod 2 ^ 32 \<rparr>"
  have step: "(update_node p (\<lambda>n. n\<lparr> nd_nChainTx := (nd_nChainTx (nod st q) + nd_nTx n) mod 2 ^ 32,
      nd_nSequenceId := cs_nBlockSequenceId st \<rparr>) st)\<lparr> cs_nBlockSequenceId := (cs_nBlockSequenceId st + 1) mod 2 ^ 32 \<rparr> = st1"
    by (simp only: st1_def update_node_def c)
  have tip1: "ac_Tip st1 = Some t" using t(2) by (simp add: st1_def ac_Tip_def split: if_splits)
  have run: "link_entry p st = (if \<not> CBlockIndexWorkComparator (nod st1) p t then insert_candidate p st1 else st1)"
    unfolding link_entry_def Let_def p(4) option.case step tip1 ..
  define st' where "st' = link_entry p st"
  have f: "nod st' = nod st1" "cs_index st' = cs_index st" "cs_active st' = cs_active st" "cs_coins st' = cs_coins st"
    by (simp_all add: st'_def run insert_candidate_def st1_def)
  have n1: "nod st1 = (nod st)(p := (nod st p)\<lparr> nd_nChainTx := total, nd_nSequenceId := cs_nBlockSequenceId st \<rparr>)" by (simp add: st1_def)
  have tn: "total \<noteq> 0" using tot p(5) by simp
  have fields: "nd_pprev (nod st1 a) = nd_pprev (nod st a)" "nd_nHeight (nod st1 a) = nd_nHeight (nod st a)"
      "nd_nChainWork (nod st1 a) = nd_nChainWork (nod st a)" "nd_nTx (nod st1 a) = nd_nTx (nod st a)"
      "nd_nStatus (nod st1 a) = nd_nStatus (nod st a)" "nd_nChainTx (nod st1 a) = (if a = p then total else nd_nChainTx (nod st a))" for a
    by (simp_all add: n1)
  have tr1: "tree_ok (nod st1) (set (cs_index st))"
  proof -
    have "nd_nChainTx (nod st1 a) \<noteq> 0 \<longrightarrow> nd_nChainTx (nod st1 b) \<noteq> 0" if "a \<in> set (cs_index st)" "nd_pprev (nod st a) = Some b" for a b
      using tree_pprev [OF tr that] that p(4,5) tn by (auto simp: fields)
    then show ?thesis by (rule tree_ok_relink [OF tr fields(1-3)])
  qed
  have g: "grows st st'" unfolding grows_def f using tr1 p(3) by (auto simp: n1)
  have linked: "n \<in> set (cs_index st)" "nd_nChainTx (nod st n) \<noteq> 0" if "n \<in> set (cs_candidates st)" for n
    using i(1) that by (auto simp: act_inv_def candidates_ok_def)
  have sorted0: "sorted_wrt (CBlockIndexWorkComparator (nod st)) (cs_candidates st)" using i(1) by (simp add: act_inv_def candidates_ok_def)
  have sorted: "sorted_wrt (CBlockIndexWorkComparator (nod st1)) (cs_candidates st)"
    using sorted_wrt_mono_rel [OF _ sorted0, of "CBlockIndexWorkComparator (nod st1)"] grows_cmp [OF g] linked by (simp add: f(1))
  have cand: "cs_candidates st' = (if \<not> CBlockIndexWorkComparator (nod st1) p t then set_insert (nod st1) p (cs_candidates st) else cs_candidates st)"
    by (simp add: st'_def run insert_candidate_def st1_def)
  have "act_inv conn v0 st'"
  proof (rule grows_act_inv [OF g i(1) t(2)])
    show "sorted_wrt (CBlockIndexWorkComparator (nod st')) (cs_candidates st')"
      using sorted sorted_set_insert [OF sorted] by (simp add: cand f(1))
    show "set (cs_candidates st) \<subseteq> set (cs_candidates st')" by (auto simp: cand set_set_insert)
    show "n \<in> set (cs_index st) \<and> nd_nChainTx (nod st' n) \<noteq> 0" if "n \<in> set (cs_candidates st')" for n
      using that linked p(1) tn by (auto simp: cand set_set_insert f(1) fields(6) split: if_splits)
    show "n \<in> set (cs_candidates st') \<or> CBlockIndexWorkComparator (nod st') n t"
      if "good conn v0 st' n" "nd_nChainTx (nod st n) = 0" for n
    proof -
      have "n = p" using that by (auto simp: good_def usable_def f(1) fields(6) split: if_splits)
      then show ?thesis by (auto simp: cand set_set_insert f(1))
    qed
  qed
  moreover have "counts_ok st'"
  proof -
    have same: "node_path (nod st1) a = node_path (nod st) a" for a by (rule node_path_cong) (simp_all add: fields)
    show ?thesis using i(2) p(1,2) unfolding counts_ok_def f same fields by (auto simp: total_def)
  qed
  ultimately show ?thesis using f n1 tn unfolding st'_def by auto
qed

subsection \<open>The queue\<close>

definition marked_path :: "'v chain_state \<Rightarrow> nat \<Rightarrow> bool" where
  "marked_path st p \<longleftrightarrow> (\<exists>a\<in>set (node_path (nod st) p). nd_failed (nod st a))"

text \<open>An entry waits for its predecessor: the pair is in \<open>mapBlocksUnlinked\<close>.\<close>

definition waits :: "'v chain_state \<Rightarrow> nat \<times> nat \<Rightarrow> bool" where
  "waits st e \<longleftrightarrow> snd e \<in> set (cs_index st) \<and> nd_pprev (nod st (snd e)) = Some (fst e) \<and> nd_nTx (nod st (snd e)) \<noteq> 0
     \<and> nd_nChainTx (nod st (snd e)) = 0 \<and> nd_nChainTx (nod st (fst e)) = 0"

text \<open>Entries with data that are not linked are in the queue, or wait, or have a mark on their path.\<close>

definition queue_inv :: "nat list \<Rightarrow> 'v chain_state \<Rightarrow> bool" where
  "queue_inv Q st \<longleftrightarrow> distinct (Q @ map snd (cs_unlinked st)) \<and> (\<forall>p\<in>set Q. ready st p) \<and> (\<forall>e\<in>set (cs_unlinked st). waits st e)
     \<and> (\<forall>p\<in>set (cs_index st). nd_nTx (nod st p) \<noteq> 0 \<and> nd_nChainTx (nod st p) = 0 \<longrightarrow>
          p \<in> set Q \<or> p \<in> snd ` set (cs_unlinked st) \<or> marked_path st p)"

lemma waiting_for_set: "set (waiting_for p U) = {c. (p, c) \<in> set U}"
  by (force simp: waiting_for_def)

lemma distinct_waiting:
  assumes "distinct (p # Q @ map snd U)"
  shows "distinct ((Q @ waiting_for p U) @ map snd (filter (\<lambda>e. fst e \<noteq> p) U))"
proof -
  have "distinct (map snd U)" "set Q \<inter> snd ` set U = {}" "distinct Q" using assms by auto
  then have "distinct (waiting_for p U)" "distinct (map snd (filter (\<lambda>e. fst e \<noteq> p) U))"
    by (auto simp: waiting_for_def intro: distinct_map_filter)
  moreover have "set (waiting_for p U) \<inter> snd ` set (filter (\<lambda>e. fst e \<noteq> p) U) = {}"
    using \<open>distinct (map snd U)\<close> by (force simp: waiting_for_set distinct_map inj_on_def)
  moreover have "set (waiting_for p U) \<subseteq> snd ` set U" by (force simp: waiting_for_set)
  ultimately show ?thesis using \<open>distinct Q\<close> \<open>set Q \<inter> snd ` set U = {}\<close> by auto
qed

lemma queue_step:
  assumes i: "act_inv conn v0 st" "counts_ok st" "queue_inv (p # Q) st"
  defines "st1 \<equiv> link_entry p st"
  defines "st2 \<equiv> st1\<lparr> cs_unlinked := filter (\<lambda>e. fst e \<noteq> p) (cs_unlinked st1) \<rparr>"
  shows "act_inv conn v0 st2 \<and> counts_ok st2 \<and> queue_inv (Q @ waiting_for p (cs_unlinked st1)) st2 \<and> cs_index st2 = cs_index st
    \<and> (\<forall>a. \<exists>c s. nod st2 a = (nod st a)\<lparr> nd_nChainTx := c, nd_nSequenceId := s \<rparr>)"
proof -
  have r: "ready st p" using i(3) by (simp add: queue_inv_def)
  obtain c s where l: "act_inv conn v0 st1" "counts_ok st1" "cs_index st1 = cs_index st" "nd_nChainTx (nod st1 p) \<noteq> 0"
      "nod st1 = (nod st)(p := (nod st p)\<lparr> nd_nChainTx := c, nd_nSequenceId := s \<rparr>)"
    using link_entry_ok [OF i(1,2) r] unfolding st1_def by blast
  have u: "cs_unlinked st1 = cs_unlinked st" by (simp add: st1_def)
  have f: "nod st2 = nod st1" "cs_index st2 = cs_index st" "cs_unlinked st2 = filter (\<lambda>e. fst e \<noteq> p) (cs_unlinked st)"
    by (simp_all add: st2_def l(3) u)
  have c0: "c \<noteq> 0" using l(4,5) by simp
  have fields: "nd_pprev (nod st1 a) = nd_pprev (nod st a)" "nd_nHeight (nod st1 a) = nd_nHeight (nod st a)" "nd_nTx (nod st1 a) = nd_nTx (nod st a)"
      "nd_nStatus (nod st1 a) = nd_nStatus (nod st a)" "nd_nChainTx (nod st1 a) = (if a = p then c else nd_nChainTx (nod st a))" for a
    by (simp_all add: l(5))
  have path: "node_path (nod st1) a = node_path (nod st) a" for a by (rule node_path_cong) (simp_all add: fields)
  have act: "act_inv conn v0 st2"
    using l(1) by (auto simp: st2_def act_inv_def active_path_def candidates_ok_def good_def)
  have cnt: "counts_ok st2" using l(2) by (simp add: st2_def counts_ok_def)
  have dist: "distinct (p # Q @ map snd (cs_unlinked st))" using i(3) by (simp add: queue_inv_def)
  have "ready st2 a" if a: "a \<in> set Q \<union> set (waiting_for p (cs_unlinked st))" for a
  proof (cases "a \<in> set Q")
    case True
    then have "a \<noteq> p" "ready st a" using i(3) dist by (auto simp: queue_inv_def)
    then show ?thesis using c0 by (auto simp: ready_def f fields)
  next
    case False
    then have "(p, a) \<in> set (cs_unlinked st)" using a by (simp add: waiting_for_set)
    then have "waits st (p, a)" "a \<noteq> p" using i(3) dist by (auto simp: queue_inv_def image_iff)
    then show ?thesis using c0 by (simp add: waits_def ready_def f fields)
  qed
  moreover have "waits st2 e" if e: "e \<in> set (cs_unlinked st2)" for e
  proof -
    have "e \<in> set (cs_unlinked st)" "fst e \<noteq> p" using e f(3) by auto
    then have "waits st e" "snd e \<noteq> p" using i(3) dist by (auto simp: queue_inv_def)
    then show ?thesis using \<open>fst e \<noteq> p\<close> by (simp add: waits_def f fields)
  qed
  moreover have "a \<in> set (Q @ waiting_for p (cs_unlinked st)) \<or> a \<in> snd ` set (cs_unlinked st2) \<or> marked_path st2 a"
    if a: "a \<in> set (cs_index st)" "nd_nTx (nod st2 a) \<noteq> 0 \<and> nd_nChainTx (nod st2 a) = 0" for a
  proof -
    have "a \<noteq> p" "nd_nTx (nod st a) \<noteq> 0 \<and> nd_nChainTx (nod st a) = 0" using a(2) c0 by (auto simp: f fields split: if_splits)
    then have "a \<in> set Q \<or> a \<in> snd ` set (cs_unlinked st) \<or> marked_path st a"
      using i(3) a(1) unfolding queue_inv_def by auto
    moreover have "marked_path st2 a = marked_path st a" by (simp add: marked_path_def f path nd_failed_def fields)
    ultimately show ?thesis by (auto simp: f(3) waiting_for_set image_iff)
  qed
  ultimately have "queue_inv (Q @ waiting_for p (cs_unlinked st)) st2"
    using distinct_waiting [OF dist] unfolding queue_inv_def f(2,3) by auto
  moreover have "\<exists>c s. nod st2 a = (nod st a)\<lparr> nd_nChainTx := c, nd_nSequenceId := s \<rparr>" for a
  proof (cases "a = p")
    case False
    then have "nod st2 a = (nod st a)\<lparr> nd_nChainTx := nd_nChainTx (nod st a), nd_nSequenceId := nd_nSequenceId (nod st a) \<rparr>"
      by (simp add: f(1) l(5))
    then show ?thesis by blast
  qed (auto simp: f(1) l(5))
  ultimately show ?thesis using act cnt f(2) u by simp
qed

lemma link_loop_ok:
  "act_inv conn v0 st \<Longrightarrow> counts_ok st \<Longrightarrow> queue_inv Q st \<Longrightarrow>
    act_inv conn v0 (link_loop Q st) \<and> counts_ok (link_loop Q st) \<and> queue_inv [] (link_loop Q st) \<and> cs_index (link_loop Q st) = cs_index st
    \<and> (\<forall>a. \<exists>c s. nod (link_loop Q st) a = (nod st a)\<lparr> nd_nChainTx := c, nd_nSequenceId := s \<rparr>)"
proof (induction Q st rule: link_loop.induct)
  case (1 st)
  have "nod st a = (nod st a)\<lparr> nd_nChainTx := nd_nChainTx (nod st a), nd_nSequenceId := nd_nSequenceId (nod st a) \<rparr>" for a by simp
  then have "\<exists>c s. nod st a = (nod st a)\<lparr> nd_nChainTx := c, nd_nSequenceId := s \<rparr>" for a by blast
  then show ?case using 1 by simp
next
  case (2 p Q st)
  define st2 where "st2 = (link_entry p st)\<lparr> cs_unlinked := filter (\<lambda>e. fst e \<noteq> p) (cs_unlinked (link_entry p st)) \<rparr>"
  have s: "act_inv conn v0 st2" "counts_ok st2" "queue_inv (Q @ waiting_for p (cs_unlinked (link_entry p st))) st2" "cs_index st2 = cs_index st"
      "\<And>a. \<exists>c s. nod st2 a = (nod st a)\<lparr> nd_nChainTx := c, nd_nSequenceId := s \<rparr>"
    using queue_step [OF 2(2-4)] unfolding st2_def by blast+
  have e: "link_loop (p # Q) st = link_loop (Q @ waiting_for p (cs_unlinked (link_entry p st))) st2" by (simp add: Let_def st2_def)
  define st' where "st' = link_loop (p # Q) st"
  have h: "act_inv conn v0 st' \<and> counts_ok st' \<and> queue_inv [] st' \<and> cs_index st' = cs_index st2
      \<and> (\<forall>a. \<exists>c s. nod st' a = (nod st2 a)\<lparr> nd_nChainTx := c, nd_nSequenceId := s \<rparr>)"
    unfolding st'_def e using 2(1) [OF refl, folded st2_def, OF s(1-3)] .
  have "\<exists>c s. nod st' a = (nod st a)\<lparr> nd_nChainTx := c, nd_nSequenceId := s \<rparr>" for a
  proof -
    obtain c s c' s' where "nod st2 a = (nod st a)\<lparr> nd_nChainTx := c, nd_nSequenceId := s \<rparr>"
        "nod st' a = (nod st2 a)\<lparr> nd_nChainTx := c', nd_nSequenceId := s' \<rparr>" using s(5) [of a] h by blast
    then have "nod st' a = (nod st a)\<lparr> nd_nChainTx := c', nd_nSequenceId := s' \<rparr>" by simp
    then show ?thesis by blast
  qed
  then show ?case using h s(4) unfolding st'_def by auto
qed

text \<open>When the queue is empty, every entry whose data is there up to the genesis block is linked, unless one of them
  is marked.\<close>

lemma queue_invD:
  "queue_inv [] st \<Longrightarrow> n \<in> set (cs_index st) \<Longrightarrow> nd_nTx (nod st n) \<noteq> 0 \<Longrightarrow> nd_nChainTx (nod st n) = 0 \<Longrightarrow> \<not> marked_path st n \<Longrightarrow>
    \<exists>q. waits st (q, n)"
  unfolding queue_inv_def by force

lemma linking_complete:
  assumes "tree_ok (nod st) (set (cs_index st))" "queue_inv [] st" "n \<in> set (cs_index st)"
    "\<forall>a\<in>set (node_path (nod st) n). nd_nTx (nod st a) \<noteq> 0 \<and> \<not> nd_failed (nod st a)"
  shows "nd_nChainTx (nod st n) \<noteq> 0"
  using assms(1,3,4)
proof (induction rule: node_induct)
  case (root n)
  show ?case
  proof
    assume z: "nd_nChainTx (nod st n) = 0"
    have "n \<in> set (node_path (nod st) n)" using node_path_root [OF assms(1) root(1,2)] by simp
    moreover have "\<not> marked_path st n" using root by (auto simp: marked_path_def)
    ultimately obtain r where "waits st (r, n)" using queue_invD [OF assms(2) root(1) _ z] root by blast
    then show False using root(2) by (simp add: waits_def)
  qed
next
  case (step n q)
  have e: "node_path (nod st) n = node_path (nod st) q @ [n]" by (rule node_path_step [OF assms(1) step(1,3)])
  then have l: "nd_nChainTx (nod st q) \<noteq> 0" using step by simp
  show ?case
  proof
    assume z: "nd_nChainTx (nod st n) = 0"
    have "n \<in> set (node_path (nod st) n)" "\<not> marked_path st n" using e step.prems by (auto simp: marked_path_def)
    then obtain r where "waits st (r, n)" using queue_invD [OF assms(2) step(1) _ z] step.prems by blast
    then show False using step(3) l by (simp add: waits_def)
  qed
qed

lemma u32_and_not_same: "((s::u32) AND NOT m) AND m = 0"
  by (auto simp: bit_eq_iff bit_and_iff bit_not_iff)

lemma BLOCK_levels: "BLOCK_VALID_MASK = 7" "BLOCK_VALID_TRANSACTIONS = 3" "BLOCK_VALID_TREE = 2"
  by (simp_all add: BLOCK_VALID_MASK_def BLOCK_VALID_HEADER_def BLOCK_VALID_TREE_def BLOCK_VALID_TRANSACTIONS_def BLOCK_VALID_CHAIN_def BLOCK_VALID_SCRIPTS_def)

lemma raised_level:
  assumes "\<not> nd_failed n"
  shows "BLOCK_VALID_TRANSACTIONS \<le> nd_nStatus (nd_RaiseValidity BLOCK_VALID_TRANSACTIONS n) AND BLOCK_VALID_MASK"
    "\<not> nd_failed (nd_RaiseValidity BLOCK_VALID_TRANSACTIONS n)"
proof -
  have c: "BLOCK_VALID_TRANSACTIONS AND BLOCK_VALID_MASK = BLOCK_VALID_TRANSACTIONS" "BLOCK_VALID_TRANSACTIONS AND BLOCK_FAILED_MASK = 0"
      "NOT BLOCK_VALID_MASK AND BLOCK_FAILED_MASK = BLOCK_FAILED_MASK"
    by (simp_all add: BLOCK_levels BLOCK_flags)
  have b: "(s AND NOT BLOCK_VALID_MASK) AND BLOCK_FAILED_MASK = s AND BLOCK_FAILED_MASK" for s
    by (simp only: and.assoc c(3))
  show "BLOCK_VALID_TRANSACTIONS \<le> nd_nStatus (nd_RaiseValidity BLOCK_VALID_TRANSACTIONS n) AND BLOCK_VALID_MASK"
    using assms by (auto simp: nd_RaiseValidity_def u32_and_or u32_and_not_same c)
  show "\<not> nd_failed (nd_RaiseValidity BLOCK_VALID_TRANSACTIONS n)"
    using assms by (auto simp: nd_RaiseValidity_def nd_failed_def u32_and_or b c)
qed

subsection \<open>The data of a block arrives\<close>

text \<open>Storing the data of one entry that is not linked.\<close>

definition store_data :: "CBlock \<Rightarrow> nat \<Rightarrow> 'v chain_state \<Rightarrow> 'v chain_state" where
  "store_data block p st = update_node p (\<lambda>n. nd_RaiseValidity BLOCK_VALID_TRANSACTIONS
     (set_flag BLOCK_HAVE_DATA (n\<lparr> nd_nTx := length (blk_vtx block) mod 2 ^ 32, nd_nChainTx := 0 \<rparr>))) st"

lemma store_data_ok:
  assumes i: "act_inv conn v0 st" "counts_ok st" "queue_inv [] st"
    and p: "p \<in> set (cs_index st)" "nd_nTx (nod st p) = 0" "\<not> nd_failed (nod st p)"
    and b: "blk_vtx block \<noteq> []" "(\<Sum>a\<in>set (cs_index st). nd_nTx (nod st a)) + length (blk_vtx block) < 2 ^ 32"
  defines "st1 \<equiv> store_data block p st"
  shows "act_inv conn v0 st1 \<and> counts_ok st1 \<and> cs_index st1 = cs_index st \<and> cs_unlinked st1 = cs_unlinked st
    \<and> nd_nTx (nod st1 p) = length (blk_vtx block) \<and> nd_nChainTx (nod st1 p) = 0 \<and> \<not> nd_failed (nod st1 p)
    \<and> (\<forall>a. nd_pprev (nod st1 a) = nd_pprev (nod st a) \<and> nd_nHeight (nod st1 a) = nd_nHeight (nod st a)) \<and> (\<forall>a. a \<noteq> p \<longrightarrow> nod st1 a = nod st a)"
proof -
  note tr = act_inv_tree [OF i(1)]
  define k where "k = length (blk_vtx block)"
  have k: "k mod 2 ^ 32 = k" "k \<noteq> 0" using b by (simp_all add: k_def)
  have z: "nd_nChainTx (nod st p) = 0" using i(2) p(1,2) by (auto simp: counts_ok_def)
  define m where "m = set_flag BLOCK_HAVE_DATA ((nod st p)\<lparr> nd_nTx := k, nd_nChainTx := 0 \<rparr>)"
  have f: "nod st1 = (nod st)(p := nd_RaiseValidity BLOCK_VALID_TRANSACTIONS m)" "cs_index st1 = cs_index st" "cs_unlinked st1 = cs_unlinked st"
      "cs_active st1 = cs_active st" "cs_coins st1 = cs_coins st" "cs_candidates st1 = cs_candidates st" "ac_Tip st1 = ac_Tip st"
    using k by (simp_all add: st1_def store_data_def update_node_def m_def k_def ac_Tip_def)
  have "\<not> nd_failed m" using p(3) by (simp add: m_def nd_failed_def set_flag_def u32_and_or BLOCK_flags)
  note lev = raised_level [OF this]
  have rv: "nd_pprev (nd_RaiseValidity u n) = nd_pprev n" "nd_nHeight (nd_RaiseValidity u n) = nd_nHeight n"
      "nd_nChainWork (nd_RaiseValidity u n) = nd_nChainWork n" "nd_nTx (nd_RaiseValidity u n) = nd_nTx n"
      "nd_nChainTx (nd_RaiseValidity u n) = nd_nChainTx n" "nd_nSequenceId (nd_RaiseValidity u n) = nd_nSequenceId n" for u n
    by (simp_all add: nd_RaiseValidity_def)
  have fields: "nd_pprev (nod st1 a) = nd_pprev (nod st a)" "nd_nHeight (nod st1 a) = nd_nHeight (nod st a)"
      "nd_nChainWork (nod st1 a) = nd_nChainWork (nod st a)" "nd_nTx (nod st1 a) = (if a = p then k else nd_nTx (nod st a))"
      "nd_nChainTx (nod st1 a) = nd_nChainTx (nod st a)" "nd_nSequenceId (nod st1 a) = nd_nSequenceId (nod st a)" for a
    using z by (simp_all add: f(1) rv m_def set_flag_def)
  have path: "node_path (nod st1) a = node_path (nod st) a" for a by (rule node_path_cong) (simp_all add: fields)
  have cmp: "CBlockIndexWorkComparator (nod st1) = CBlockIndexWorkComparator (nod st)" by (intro ext) (simp add: cmp_iff fields)
  have tr1: "tree_ok (nod st1) (set (cs_index st))" by (rule tree_ok_relink [OF tr]) (use tree_pprev [OF tr] in \<open>auto simp: fields\<close>)
  have g: "grows st st1" unfolding grows_def using fields tr1 z by (auto simp: f(1-5))
  obtain t where t: "ac_Tip st = Some t" using act_inv_tip [OF i(1)] by blast
  have "act_inv conn v0 st1"
    by (rule grows_act_inv [OF g i(1) t]) (use i(1) in \<open>auto simp: f(6) cmp fields act_inv_def candidates_ok_def good_def usable_def\<close>)
  moreover have "counts_ok st1"
  proof -
    have fin: "finite (set (cs_index st))" by simp
    have "(\<Sum>a\<in>set (cs_index st). nd_nTx (nod st1 a)) = k + (\<Sum>a\<in>set (cs_index st) - {p}. nd_nTx (nod st a))"
      using p(1) by (simp add: sum.remove [OF fin p(1)] fields(4))
    also have "\<dots> \<le> k + (\<Sum>a\<in>set (cs_index st). nd_nTx (nod st a))" by (intro add_left_mono sum_mono2) auto
    finally have "(\<Sum>a\<in>set (cs_index st). nd_nTx (nod st1 a)) < 2 ^ 32" using b(2) by (simp add: k_def)
    moreover have "nd_nChainTx (nod st n) = sum_list (map (\<lambda>a. nd_nTx (nod st1 a)) (node_path (nod st) n))"
      if n: "n \<in> set (cs_index st)" "nd_nChainTx (nod st n) \<noteq> 0" for n
    proof -
      have "map (\<lambda>a. nd_nTx (nod st1 a)) (node_path (nod st) n) = map (\<lambda>a. nd_nTx (nod st a)) (node_path (nod st) n)"
      proof (intro map_cong refl)
        fix a assume "a \<in> set (node_path (nod st) n)"
        then have "a \<noteq> p" using linked_path [OF tr n] z by metis
        then show "nd_nTx (nod st1 a) = nd_nTx (nod st a)" by (simp add: fields(4))
      qed
      moreover have "nd_nChainTx (nod st n) = sum_list (map (\<lambda>a. nd_nTx (nod st a)) (node_path (nod st) n))"
        using i(2) n by (simp add: counts_ok_def)
      ultimately show ?thesis by (simp only:)
    qed
    moreover have "BLOCK_VALID_TREE \<le> nd_nStatus (nod st1 n) AND BLOCK_VALID_MASK
        \<and> (nd_nTx (nod st1 n) \<noteq> 0 \<longrightarrow> BLOCK_VALID_TRANSACTIONS \<le> nd_nStatus (nod st1 n) AND BLOCK_VALID_MASK)" if n: "n \<in> set (cs_index st)" for n
    proof (cases "n = p")
      case True
      have "BLOCK_VALID_TREE \<le> BLOCK_VALID_TRANSACTIONS" by (simp add: BLOCK_levels)
      then show ?thesis using True lev(1) by (simp add: f(1) order_trans)
    next
      case False
      then show ?thesis using i(2) n by (simp add: counts_ok_def f(1))
    qed
    moreover have "nd_nTx (nod st1 n) \<noteq> 0" if "n \<in> set (cs_index st)" "nd_nChainTx (nod st n) \<noteq> 0" for n
      using i(2) that k(2) by (simp add: counts_ok_def fields)
    ultimately show ?thesis unfolding counts_ok_def f(2) path fields(5) by blast
  qed
  moreover have "nd_nTx (nod st1 p) = length (blk_vtx block)" "nd_nChainTx (nod st1 p) = 0" using fields z by (simp_all add: k_def)
  moreover have "\<not> nd_failed (nod st1 p)" "\<forall>a. a \<noteq> p \<longrightarrow> nod st1 a = nod st a" using lev(2) by (simp_all add: f(1))
  ultimately show ?thesis using f(2,3) fields(1,2) by blast
qed

lemma ReceivedBlockTransactions_ok:
  assumes i: "act_inv conn v0 st" "counts_ok st" "queue_inv [] st"
    and p: "p \<in> set (cs_index st)" "nd_nTx (nod st p) = 0" "\<not> nd_failed (nod st p)"
    and b: "blk_vtx block \<noteq> []" "(\<Sum>a\<in>set (cs_index st). nd_nTx (nod st a)) + length (blk_vtx block) < 2 ^ 32"
  defines "st' \<equiv> ReceivedBlockTransactions block p st"
  shows "act_inv conn v0 st' \<and> counts_ok st' \<and> queue_inv [] st' \<and> cs_index st' = cs_index st
    \<and> (\<forall>a. nd_nTx (nod st' a) = (if a = p then length (blk_vtx block) else nd_nTx (nod st a)))"
proof -
  define st1 where "st1 = store_data block p st"
  have s: "act_inv conn v0 st1" "counts_ok st1" "cs_index st1 = cs_index st" "cs_unlinked st1 = cs_unlinked st"
      "nd_nTx (nod st1 p) = length (blk_vtx block)" "nd_nChainTx (nod st1 p) = 0" "\<not> nd_failed (nod st1 p)"
      "\<And>a. nd_pprev (nod st1 a) = nd_pprev (nod st a)" "\<And>a. nd_nHeight (nod st1 a) = nd_nHeight (nod st a)" "\<And>a. a \<noteq> p \<Longrightarrow> nod st1 a = nod st a"
    using store_data_ok [OF i p b] unfolding st1_def by blast+
  note tr = act_inv_tree [OF i(1)]
  obtain t where t: "active_path st t" using act_inv_tip [OF i(1)] by blast
  note a = active_pathD [OF t]
  obtain q where q: "nd_pprev (nod st p) = Some q"
  proof (cases "nd_pprev (nod st p)")
    case None
    then have "nd_nChainTx (nod st p) \<noteq> 0"
      using linked_path [OF tr a(2) _ root_in_path [OF tr a(2) p(1)]] a(4) by (simp add: usable_def)
    moreover have "nd_nChainTx (nod st p) = 0" using i(2) p(1,2) by (auto simp: counts_ok_def)
    ultimately show ?thesis by simp
  qed (use that in blast)
  have qp: "q \<noteq> p" "q \<in> set (cs_index st)" using tree_pprev [OF tr p(1) q] by auto
  have path: "node_path (nod st1) n = node_path (nod st) n" for n by (rule node_path_cong) (simp_all add: s(8,9))
  have fresh: "p \<notin> snd ` set (cs_unlinked st)" using i(3) p(2) by (auto simp: queue_inv_def waits_def)
  have w: "waits st1 e" if e: "e \<in> set (cs_unlinked st)" for e
  proof -
    have "waits st e" "snd e \<noteq> p" using i(3) e fresh by (auto simp: queue_inv_def)
    then show ?thesis using s(6,10) by (cases "fst e = p") (auto simp: waits_def s(3))
  qed
  have rest: "n \<in> snd ` set (cs_unlinked st) \<or> marked_path st1 n"
    if n: "n \<in> set (cs_index st)" "nd_nTx (nod st1 n) \<noteq> 0 \<and> nd_nChainTx (nod st1 n) = 0" "n \<noteq> p" for n
  proof -
    have "n \<in> snd ` set (cs_unlinked st) \<or> marked_path st n" using i(3) n s(10) [OF n(3)] by (simp add: queue_inv_def)
    moreover have "marked_path st n \<longrightarrow> marked_path st1 n" using p(3) s(10) unfolding marked_path_def path by metis
    ultimately show ?thesis by blast
  qed
  then have rest: "\<forall>n\<in>set (cs_index st). nd_nTx (nod st1 n) \<noteq> 0 \<and> nd_nChainTx (nod st1 n) = 0 \<longrightarrow>
      n = p \<or> n \<in> snd ` set (cs_unlinked st) \<or> marked_path st1 n" by blast
  have w: "\<forall>e\<in>set (cs_unlinked st). waits st1 e" using w by blast
  have dist: "distinct (map snd (cs_unlinked st))" using i(3) by (simp add: queue_inv_def)
  have run: "st' = (if nd_nChainTx (nod st1 q) \<noteq> 0 then link_loop [p] st1
      else if nd_IsValid (nod st1 q) BLOCK_VALID_TREE then st1\<lparr> cs_unlinked := cs_unlinked st1 @ [(q, p)] \<rparr> else st1)"
    unfolding st'_def ReceivedBlockTransactions_def store_data_def [symmetric] st1_def [symmetric] Let_def by (simp add: s(8) q)
  have tx1: "nd_nTx (nod st1 n) = (if n = p then length (blk_vtx block) else nd_nTx (nod st n))" for n using s(5,10) by simp
  consider "nd_nChainTx (nod st1 q) \<noteq> 0" | "nd_nChainTx (nod st1 q) = 0" "nd_IsValid (nod st1 q) BLOCK_VALID_TREE"
    | "nd_nChainTx (nod st1 q) = 0" "\<not> nd_IsValid (nod st1 q) BLOCK_VALID_TREE" by blast
  then show ?thesis
  proof cases
    case 1
    have "ready st1 p" using 1 p(1) s(3,5,6) b(1) q s(8) by (auto simp: ready_def)
    then have "queue_inv [p] st1" using dist fresh w rest unfolding queue_inv_def s(3,4) by simp
    note l = link_loop_ok [OF s(1,2) this]
    have st': "st' = link_loop [p] st1" using run 1 by simp
    have "nd_nTx (nod st' n) = nd_nTx (nod st1 n)" for n
    proof -
      obtain c k where "nod st' n = (nod st1 n)\<lparr> nd_nChainTx := c, nd_nSequenceId := k \<rparr>" using l st' by blast
      then show ?thesis by simp
    qed
    then show ?thesis using l st' s(3) tx1 by simp
  next
    case 2
    have st': "st' = st1\<lparr> cs_unlinked := cs_unlinked st @ [(q, p)] \<rparr>" using run 2 s(4) by simp
    have "waits st1 (q, p)" using 2 p(1) s(3,5,6,8) b(1) q by (simp add: waits_def)
    moreover have "waits st' e = waits st1 e" "marked_path st' n = marked_path st1 n" for e n
      by (simp_all add: st' waits_def marked_path_def)
    ultimately have "queue_inv [] st'" using dist fresh w rest unfolding queue_inv_def by (simp add: st' s(3))
    moreover have "act_inv conn v0 st'" using s(1) by (auto simp: st' act_inv_def active_path_def candidates_ok_def good_def)
    moreover have "counts_ok st'" using s(2) by (simp add: st' counts_ok_def)
    ultimately show ?thesis using tx1 s(3) by (simp add: st')
  next
    case 3
    have st': "st' = st1" using run 3 by simp
    have "BLOCK_VALID_TREE \<le> nd_nStatus (nod st1 q) AND BLOCK_VALID_MASK" using s(2,3) qp(2) by (simp add: counts_ok_def)
    then have "nd_failed (nod st1 q)" using 3 by (simp add: nd_IsValid_def)
    moreover have "q \<in> set (node_path (nod st1) p)"
      using node_path_step [OF tr p(1) q] node_path_last [OF tr qp(2)] node_path_ne [OF tr qp(2)] last_in_set [of "node_path (nod st) q"]
      by (simp add: path)
    ultimately have "marked_path st1 p" by (auto simp: marked_path_def)
    then have "queue_inv [] st1" using dist w rest unfolding queue_inv_def s(3,4) by auto
    then show ?thesis using s(1-3) tx1 by (simp add: st')
  qed
qed

text \<open>C16: When the data of a block arrives, every entry whose data is now there up to the genesis block, with no mark
  on the way, is linked, in whatever order the blocks came; its \<open>nChainTx\<close> is the number of transactions up to it.
  The entries that still miss a predecessor wait in \<open>mapBlocksUnlinked\<close>, and every complete valid entry is a candidate
  or has less work than one, so that \<open>ActivateBestChain\<close> finds the best chain.\<close>

theorem ReceivedBlockTransactions_links:
  assumes "act_inv conn v0 st" "counts_ok st" "queue_inv [] st"
    and "p \<in> set (cs_index st)" "nd_nTx (nod st p) = 0" "\<not> nd_failed (nod st p)" "blk_vtx block \<noteq> []"
    and "(\<Sum>a\<in>set (cs_index st). nd_nTx (nod st a)) + length (blk_vtx block) < 2 ^ 32"
    and "st' = ReceivedBlockTransactions block p st"
  shows "act_inv conn v0 st' \<and> counts_ok st' \<and> queue_inv [] st' \<and> nd_nTx (nod st' p) = length (blk_vtx block)
    \<and> (\<forall>n\<in>set (cs_index st). (\<forall>a\<in>set (node_path (nod st') n). nd_nTx (nod st' a) \<noteq> 0 \<and> \<not> nd_failed (nod st' a)) \<longrightarrow>
        nd_nChainTx (nod st' n) = sum_list (map (\<lambda>a. nd_nTx (nod st' a)) (node_path (nod st') n)) \<and> nd_nChainTx (nod st' n) \<noteq> 0)"
proof -
  have r: "act_inv conn v0 st'" "counts_ok st'" "queue_inv [] st'" "cs_index st' = cs_index st" "nd_nTx (nod st' p) = length (blk_vtx block)"
    using ReceivedBlockTransactions_ok [OF assms(1-8)] unfolding assms(9) by simp_all
  have "nd_nChainTx (nod st' n) \<noteq> 0"
    if "n \<in> set (cs_index st)" "\<forall>a\<in>set (node_path (nod st') n). nd_nTx (nod st' a) \<noteq> 0 \<and> \<not> nd_failed (nod st' a)" for n
    using linking_complete [OF act_inv_tree [OF r(1)] r(3)] that r(4) by simp
  then show ?thesis using r unfolding counts_ok_def by simp
qed

text \<open>A sample: the data of the block 3 came before that of its predecessor 2.\<close>

definition sample_waiting :: "nat list chain_state" where
  "sample_waiting = sample_select\<lparr> cs_index := [1, 2, 3], cs_candidates := [1], cs_unlinked := [(2, 3)],
     cs_node := sample_node(2 := (sample_node 2)\<lparr> nd_nTx := 0, nd_nChainTx := 0, nd_nStatus := 2 \<rparr>,
       3 := (sample_node 3)\<lparr> nd_pprev := Some 2, nd_nHeight := 2, nd_nChainTx := 0 \<rparr>) \<rparr>"

lemma sample_waiting_fields:
  "nod sample_waiting 1 = sample_node 1" "nod sample_waiting 2 = (sample_node 2)\<lparr> nd_nTx := 0, nd_nChainTx := 0, nd_nStatus := 2 \<rparr>"
  "nod sample_waiting 3 = (sample_node 3)\<lparr> nd_pprev := Some 2, nd_nHeight := 2, nd_nChainTx := 0 \<rparr>"
  "cs_index sample_waiting = [1, 2, 3]" "cs_candidates sample_waiting = [1]" "cs_unlinked sample_waiting = [(2, 3)]"
  "cs_active sample_waiting = [1]" "cs_coins sample_waiting = [1]"
  by (simp_all add: sample_waiting_def sample_select_def)

lemma sample_waiting_node:
  "nd_pprev (sample_node 1) = None" "nd_pprev (sample_node 2) = Some 1" "nd_nHeight (sample_node 1) = 0" "nd_nHeight (sample_node 2) = 1"
  "nd_nChainWork (sample_node p) = p" "nd_nTx (sample_node p) = 1" "nd_nStatus (sample_node p) = 11" "nd_nChainTx (sample_node 1) = 1"
  by (simp_all add: sample_node_def)

lemma sample_waiting_path: "node_path (nod sample_waiting) 1 = [1]"
  by (simp add: node_path_def sample_waiting_fields [simplified] sample_waiting_node [simplified])

lemma sample_waiting_good: "good sample_conn [] sample_waiting n \<longleftrightarrow> n = 1"
proof
  assume "good sample_conn [] sample_waiting n"
  then have "n \<in> {1, 2, 3}" "nd_nChainTx (nod sample_waiting n) \<noteq> 0" by (auto simp: good_def usable_def sample_waiting_fields)
  then show "n = 1" by (auto simp: sample_waiting_fields)
next
  assume "n = 1"
  then show "good sample_conn [] sample_waiting n"
    by (simp add: good_def usable_def sample_waiting_fields [simplified] sample_waiting_path [simplified] sample_waiting_node [simplified]
        sample_conn_def nd_failed_def nd_has_data_def BLOCK_flags)
qed

lemma sample_waiting_inv: "act_inv sample_conn [] sample_waiting" "counts_ok sample_waiting" "queue_inv [] sample_waiting"
proof -
  note [simp] = sample_waiting_fields sample_waiting_fields [simplified] sample_waiting_node sample_waiting_node [simplified]
    sample_waiting_path sample_waiting_path [simplified]
  have "tree_ok (nod sample_waiting) (set (cs_index sample_waiting))" by (auto simp: tree_ok_def)
  then have "active_path sample_waiting 1" using sample_waiting_good [of 1] by (simp add: active_path_def good_def)
  then show "act_inv sample_conn [] sample_waiting"
    unfolding act_inv_def sample_waiting_good by (auto simp: candidates_ok_def sample_conn_def)
  show "counts_ok sample_waiting" by (simp add: counts_ok_def BLOCK_levels)
  show "queue_inv [] sample_waiting" by (simp add: queue_inv_def waits_def)
qed

theorem ReceivedBlockTransactions_links_witness:
  "queue_inv [] (ReceivedBlockTransactions \<lparr> blk_header = CBlockHeader_null,
      blk_vtx = [\<lparr> tx_nVersion = 1, tx_vin = [], tx_vout = [], tx_nLockTime = 0 \<rparr>] \<rparr> 2 sample_waiting)"
proof -
  have "2 \<in> set (cs_index sample_waiting)" "nd_nTx (nod sample_waiting 2) = 0" "\<not> nd_failed (nod sample_waiting 2)"
      "(\<Sum>a\<in>set (cs_index sample_waiting). nd_nTx (nod sample_waiting a)) + 1 < 2 ^ 32"
    by (simp_all add: sample_waiting_fields sample_waiting_fields [simplified] sample_waiting_node sample_waiting_node [simplified]
        nd_failed_def BLOCK_flags)
  then show ?thesis using ReceivedBlockTransactions_links [OF sample_waiting_inv, of 2] by simp
qed

end
