(* ===== verification/Mempool.thy ===== *)
theory Mempool
  imports Tx_Check "HOL-Library.Log_Nat"
begin

text \<open>
  The pool of transactions that wait for a block (src/src/txmempool.cpp, txmempool.h): its entries with the totals over
  their descendants, the links between parents and children, the spent outpoints, and the operations that add, remove
  and re-weigh entries.

  An iterator into \<open>mapTx\<close> is the hash of the transaction that it points to, and so is a pointer to a transaction of the
  pool.  The ordered sets and maps of the program are sorted lists.  A function returns \<open>None\<close> where the program fails an
  assertion or where the fuel of a loop ends, which \<open>Mempool_Props\<close> excludes.  Sums of fees are exact; sizes keep their
  64 bits where a limit is tested.  The fee estimator, the priorities and the rolling minimum fee, which are computed with
  floating-point numbers, and the address and spent indexes are not part of this theory.
\<close>

subsection \<open>Ordered sets and maps\<close>

type_synonym txiter = uint256
type_synonym setEntries = "txiter list"

definition entries_insert :: "txiter \<Rightarrow> setEntries \<Rightarrow> setEntries" where
  "entries_insert x s = insort_insert_key ser_uint256 x s"

definition entries_erase :: "txiter \<Rightarrow> setEntries \<Rightarrow> setEntries" where
  "entries_erase x s = filter (\<lambda>y. y \<noteq> x) s"

text \<open>Inserting a key that is there changes nothing, as in \<open>std::map::insert\<close>.\<close>

definition map_insert :: "('k \<Rightarrow> 'o::linorder) \<Rightarrow> 'k \<Rightarrow> 'v \<Rightarrow> ('k \<times> 'v) list \<Rightarrow> ('k \<times> 'v) list" where
  "map_insert f k v m = (if k \<in> fst ` set m then m else insort_key (f \<circ> fst) (k, v) m)"

definition map_erase :: "'k \<Rightarrow> ('k \<times> 'v) list \<Rightarrow> ('k \<times> 'v) list" where
  "map_erase k m = filter (\<lambda>e. fst e \<noteq> k) m"

fun each :: "('a \<Rightarrow> 's \<Rightarrow> 's option) \<Rightarrow> 'a list \<Rightarrow> 's \<Rightarrow> 's option" where
  "each f [] s = Some s"
| "each f (x # xs) s = (case f x s of None \<Rightarrow> None | Some s' \<Rightarrow> each f xs s')"

subsection \<open>Entries\<close>

record LockPoints =
  lp_height :: int
  lp_time :: int
  lp_maxInputBlock :: "CBlockIndex option"

record CTxMemPoolEntry =
  me_tx :: CTransaction
  me_nFee :: CAmount
  me_nTxSize :: int
  me_nUsageSize :: int
  me_nTime :: int
  me_entryHeight :: nat
  me_hadNoDependencies :: bool
  me_inChainInputValue :: CAmount
  me_spendsCoinbase :: bool
  me_sigOpCount :: nat
  me_feeDelta :: int
  me_lockPoints :: LockPoints
  me_nCountWithDescendants :: int
  me_nSizeWithDescendants :: int
  me_nModFeesWithDescendants :: CAmount

text \<open>The constructor; \<open>usage\<close> is the memory that the transaction takes.  Its assertion also fails if the value of the
  outputs cannot be computed.\<close>

definition CTxMemPoolEntry_of :: "CTransaction \<Rightarrow> CAmount \<Rightarrow> int \<Rightarrow> nat \<Rightarrow> bool \<Rightarrow> CAmount \<Rightarrow> bool \<Rightarrow> nat \<Rightarrow> LockPoints \<Rightarrow> int \<Rightarrow>
    CTxMemPoolEntry option" where
  "CTxMemPoolEntry_of tx nFee nTime entryHeight poolHasNoInputsOf inChainInputValue spendsCoinbase sigOps lp usage =
     (let nTxSize = int (length (ser_CTransaction tx)) in
      case GetValueOut tx of
        Inl _ \<Rightarrow> None
      | Inr valueOut \<Rightarrow>
          if inChainInputValue \<le> valueOut + nFee
          then Some \<lparr> me_tx = tx, me_nFee = nFee, me_nTxSize = nTxSize, me_nUsageSize = usage, me_nTime = nTime,
             me_entryHeight = entryHeight, me_hadNoDependencies = poolHasNoInputsOf, me_inChainInputValue = inChainInputValue,
             me_spendsCoinbase = spendsCoinbase, me_sigOpCount = sigOps, me_feeDelta = 0, me_lockPoints = lp,
             me_nCountWithDescendants = 1, me_nSizeWithDescendants = nTxSize, me_nModFeesWithDescendants = nFee \<rparr>
          else None)"

definition GetModifiedFee :: "CTxMemPoolEntry \<Rightarrow> int" where
  "GetModifiedFee e = me_nFee e + me_feeDelta e"

definition IsDirty :: "CTxMemPoolEntry \<Rightarrow> bool" where
  "IsDirty e \<longleftrightarrow> me_nCountWithDescendants e = 0"

definition UpdateFeeDelta :: "int \<Rightarrow> CTxMemPoolEntry \<Rightarrow> CTxMemPoolEntry" where
  "UpdateFeeDelta newFeeDelta e =
     e\<lparr> me_nModFeesWithDescendants := me_nModFeesWithDescendants e + (newFeeDelta - me_feeDelta e), me_feeDelta := newFeeDelta \<rparr>"

definition UpdateLockPoints :: "LockPoints \<Rightarrow> CTxMemPoolEntry \<Rightarrow> CTxMemPoolEntry" where
  "UpdateLockPoints lp e = e\<lparr> me_lockPoints := lp \<rparr>"

definition SetDirty :: "CTxMemPoolEntry \<Rightarrow> CTxMemPoolEntry" where
  "SetDirty e = e\<lparr> me_nCountWithDescendants := 0, me_nSizeWithDescendants := me_nTxSize e, me_nModFeesWithDescendants := GetModifiedFee e \<rparr>"

text \<open>The assertions read the unsigned totals as signed numbers.\<close>

definition positive_i64 :: "int \<Rightarrow> bool" where
  "positive_i64 x \<longleftrightarrow> 0 < x \<and> x < 2 ^ 63"

definition UpdateState :: "int \<Rightarrow> CAmount \<Rightarrow> int \<Rightarrow> CTxMemPoolEntry \<Rightarrow> CTxMemPoolEntry option" where
  "UpdateState modifySize modifyFee modifyCount e =
     (if IsDirty e then Some e
      else let s = me_nSizeWithDescendants e + modifySize; c = me_nCountWithDescendants e + modifyCount in
        if positive_i64 s \<and> positive_i64 c
        then Some (e\<lparr> me_nSizeWithDescendants := s, me_nModFeesWithDescendants := me_nModFeesWithDescendants e + modifyFee,
                      me_nCountWithDescendants := c \<rparr>)
        else None)"

subsection \<open>Scores\<close>

text \<open>The scores are compared as floating-point numbers.  They are integers or products of two integers, so that the
  double nearest to them is an integer too: \<open>dbl\<close> rounds to 53 bits, ties to even.\<close>

definition dbl :: "int \<Rightarrow> int" where
  "dbl x = (let e = nat (bitlen \<bar>x\<bar> - 53); q = \<bar>x\<bar> div 2 ^ e; r = \<bar>x\<bar> mod 2 ^ e
            in sgn x * ((if 2 * r > 2 ^ e \<or> (2 * r = 2 ^ e \<and> odd q) then q + 1 else q) * 2 ^ e))"

definition dbl_mult :: "int \<Rightarrow> int \<Rightarrow> int" where
  "dbl_mult x y = dbl (dbl x * dbl y)"

definition UseDescendantScore :: "CTxMemPoolEntry \<Rightarrow> bool" where
  "UseDescendantScore a \<longleftrightarrow>
     dbl_mult (me_nModFeesWithDescendants a) (me_nTxSize a) > dbl_mult (GetModifiedFee a) (me_nSizeWithDescendants a)"

definition CompareByDescendantScore :: "CTxMemPoolEntry \<Rightarrow> CTxMemPoolEntry \<Rightarrow> bool" where
  "CompareByDescendantScore a b =
     (let fUseADescendants = UseDescendantScore a; fUseBDescendants = UseDescendantScore b;
          aModFee = (if fUseADescendants then me_nModFeesWithDescendants a else GetModifiedFee a);
          aSize = (if fUseADescendants then me_nSizeWithDescendants a else me_nTxSize a);
          bModFee = (if fUseBDescendants then me_nModFeesWithDescendants b else GetModifiedFee b);
          bSize = (if fUseBDescendants then me_nSizeWithDescendants b else me_nTxSize b);
          f1 = dbl_mult aModFee bSize; f2 = dbl_mult aSize bModFee
      in if f1 = f2 then me_nTime a \<ge> me_nTime b else f1 < f2)"

definition CompareByScore :: "(byte list \<Rightarrow> uint256) \<Rightarrow> CTxMemPoolEntry \<Rightarrow> CTxMemPoolEntry \<Rightarrow> bool" where
  "CompareByScore H a b =
     (let f1 = dbl_mult (GetModifiedFee a) (me_nTxSize b); f2 = dbl_mult (GetModifiedFee b) (me_nTxSize a)
      in if f1 = f2 then uint256_less (tx_GetHash H (me_tx b)) (tx_GetHash H (me_tx a)) else f1 > f2)"

definition CompareByEntryTime :: "CTxMemPoolEntry \<Rightarrow> CTxMemPoolEntry \<Rightarrow> bool" where
  "CompareByEntryTime a b \<longleftrightarrow> me_nTime a < me_nTime b"

subsection \<open>The pool\<close>

record TxLinks =
  lk_parents :: setEntries
  lk_children :: setEntries

definition TxLinks_init :: TxLinks where
  "TxLinks_init = \<lparr> lk_parents = [], lk_children = [] \<rparr>"

record CTxMemPool =
  mp_mapTx :: "(txiter \<times> CTxMemPoolEntry) list"
  mp_mapLinks :: "txiter \<Rightarrow> TxLinks option"
  mp_mapNextTx :: "(COutPoint \<times> txiter) list"
  mp_mapDeltas :: "(uint256 \<times> CAmount) list"
  mp_totalTxSize :: int
  mp_cachedInnerUsage :: int
  mp_nTransactionsUpdated :: nat

definition pool_clear :: "CTxMemPool \<Rightarrow> CTxMemPool" where
  "pool_clear mp = mp\<lparr> mp_mapLinks := \<lambda>_. None, mp_mapTx := [], mp_mapNextTx := [], mp_totalTxSize := 0, mp_cachedInnerUsage := 0,
     mp_nTransactionsUpdated := mp_nTransactionsUpdated mp + 1 \<rparr>"

definition CTxMemPool_init :: CTxMemPool where
  "CTxMemPool_init = pool_clear \<lparr> mp_mapTx = [], mp_mapLinks = \<lambda>_. None, mp_mapNextTx = [], mp_mapDeltas = [],
     mp_totalTxSize = 0, mp_cachedInnerUsage = 0, mp_nTransactionsUpdated = 0 \<rparr>"

abbreviation entry :: "CTxMemPool \<Rightarrow> txiter \<Rightarrow> CTxMemPoolEntry option" where
  "entry mp h \<equiv> map_of (mp_mapTx mp) h"

abbreviation next_tx :: "CTxMemPool \<Rightarrow> COutPoint \<Rightarrow> txiter option" where
  "next_tx mp p \<equiv> map_of (mp_mapNextTx mp) p"

definition exists_tx :: "CTxMemPool \<Rightarrow> uint256 \<Rightarrow> bool" where
  "exists_tx mp h \<longleftrightarrow> entry mp h \<noteq> None"

definition lookup_tx :: "CTxMemPool \<Rightarrow> uint256 \<Rightarrow> CTransaction option" where
  "lookup_tx mp h = map_option me_tx (entry mp h)"

definition queryHashes :: "CTxMemPool \<Rightarrow> uint256 list" where
  "queryHashes mp = map fst (mp_mapTx mp)"

fun HasNoInputsOf :: "CTxMemPool \<Rightarrow> CTxIn list \<Rightarrow> bool" where
  "HasNoInputsOf mp [] = True"
| "HasNoInputsOf mp (i # is) = (if exists_tx mp (prev_hash (txin_prevout i)) then False else HasNoInputsOf mp is)"

definition modify_entry :: "txiter \<Rightarrow> (CTxMemPoolEntry \<Rightarrow> CTxMemPoolEntry option) \<Rightarrow> CTxMemPool \<Rightarrow> CTxMemPool option" where
  "modify_entry h f mp =
     (case entry mp h of
        None \<Rightarrow> None
      | Some e \<Rightarrow> map_option (\<lambda>e'. mp\<lparr> mp_mapTx := map (\<lambda>(k, v). (k, if k = h then e' else v)) (mp_mapTx mp) \<rparr>) (f e))"

subsection \<open>Links\<close>

text \<open>The memory of a set, for pointers of 8 bytes: a tree node has a colour, three pointers and the element.\<close>

definition MallocUsage :: "nat \<Rightarrow> nat" where
  "MallocUsage alloc = (if alloc = 0 then 0 else push_bit 4 (drop_bit 4 (alloc + 31)))"

definition stl_tree_node :: "nat \<Rightarrow> nat" where
  "stl_tree_node x = 8 + 3 * 8 + x"

definition IncrementalZumyUsage :: int where
  "IncrementalZumyUsage = int (MallocUsage (stl_tree_node 8))"

definition set_usage :: "setEntries \<Rightarrow> int" where
  "set_usage s = IncrementalZumyUsage * int (length s)"

text \<open>\<open>mapLinks[h]\<close> adds empty links if there are none.\<close>

definition links_at :: "CTxMemPool \<Rightarrow> txiter \<Rightarrow> TxLinks" where
  "links_at mp h = (case mp_mapLinks mp h of None \<Rightarrow> TxLinks_init | Some l \<Rightarrow> l)"

definition put_links :: "txiter \<Rightarrow> TxLinks \<Rightarrow> int \<Rightarrow> CTxMemPool \<Rightarrow> CTxMemPool" where
  "put_links h l usage mp = mp\<lparr> mp_mapLinks := (mp_mapLinks mp)(h \<mapsto> l), mp_cachedInnerUsage := mp_cachedInnerUsage mp + usage \<rparr>"

definition UpdateChild :: "txiter \<Rightarrow> txiter \<Rightarrow> bool \<Rightarrow> CTxMemPool \<Rightarrow> CTxMemPool" where
  "UpdateChild h child add mp =
     (let l = links_at mp h; s = lk_children l in
      if add \<and> child \<notin> set s then put_links h (l\<lparr> lk_children := entries_insert child s \<rparr>) IncrementalZumyUsage mp
      else if \<not> add \<and> child \<in> set s then put_links h (l\<lparr> lk_children := entries_erase child s \<rparr>) (- IncrementalZumyUsage) mp
      else put_links h l 0 mp)"

definition UpdateParent :: "txiter \<Rightarrow> txiter \<Rightarrow> bool \<Rightarrow> CTxMemPool \<Rightarrow> CTxMemPool" where
  "UpdateParent h parent add mp =
     (let l = links_at mp h; s = lk_parents l in
      if add \<and> parent \<notin> set s then put_links h (l\<lparr> lk_parents := entries_insert parent s \<rparr>) IncrementalZumyUsage mp
      else if \<not> add \<and> parent \<in> set s then put_links h (l\<lparr> lk_parents := entries_erase parent s \<rparr>) (- IncrementalZumyUsage) mp
      else put_links h l 0 mp)"

definition GetMemPoolParents :: "CTxMemPool \<Rightarrow> txiter \<Rightarrow> setEntries option" where
  "GetMemPoolParents mp h = map_option lk_parents (mp_mapLinks mp h)"

definition GetMemPoolChildren :: "CTxMemPool \<Rightarrow> txiter \<Rightarrow> setEntries option" where
  "GetMemPoolChildren mp h = map_option lk_children (mp_mapLinks mp h)"

subsection \<open>Ancestors\<close>

record ancestor_limits =
  limitAncestorCount :: int
  limitAncestorSize :: int
  limitDescendantCount :: int
  limitDescendantSize :: int

definition nNoLimit :: int where "nNoLimit = 2 ^ 64 - 1"

definition no_limits :: ancestor_limits where
  "no_limits = \<lparr> limitAncestorCount = nNoLimit, limitAncestorSize = nNoLimit, limitDescendantCount = nNoLimit,
     limitDescendantSize = nNoLimit \<rparr>"

definition wrap64 :: "int \<Rightarrow> int" where "wrap64 x = x mod 2 ^ 64"

text \<open>The text of \<open>errString\<close>, with the transaction that it names.\<close>

datatype ancestor_error =
  too_many_parents | descendant_size_exceeded txiter | too_many_descendants txiter | ancestor_size_exceeded | too_many_ancestors

fun search_parents :: "CTxMemPool \<Rightarrow> ancestor_limits \<Rightarrow> CTxIn list \<Rightarrow> setEntries \<Rightarrow> ancestor_error + setEntries" where
  "search_parents mp lims [] parentHashes = Inr parentHashes"
| "search_parents mp lims (i # is) parentHashes =
     (let h = prev_hash (txin_prevout i) in
      if exists_tx mp h
      then let parentHashes' = entries_insert h parentHashes in
        if wrap64 (int (length parentHashes') + 1) > limitAncestorCount lims then Inl too_many_parents
        else search_parents mp lims is parentHashes'
      else search_parents mp lims is parentHashes)"

fun add_parents :: "ancestor_limits \<Rightarrow> setEntries \<Rightarrow> txiter list \<Rightarrow> setEntries \<Rightarrow> ancestor_error + setEntries" where
  "add_parents lims setAncestors [] parentHashes = Inr parentHashes"
| "add_parents lims setAncestors (p # ps) parentHashes =
     (let parentHashes' = (if p \<in> set setAncestors then parentHashes else entries_insert p parentHashes) in
      if wrap64 (int (length parentHashes') + int (length setAncestors) + 1) > limitAncestorCount lims then Inl too_many_ancestors
      else add_parents lims setAncestors ps parentHashes')"

definition check_limits :: "ancestor_limits \<Rightarrow> int \<Rightarrow> int \<Rightarrow> txiter \<Rightarrow> CTxMemPoolEntry \<Rightarrow> ancestor_error option" where
  "check_limits lims txSize totalSizeWithAncestors stageit e =
     (if wrap64 (me_nSizeWithDescendants e + txSize) > limitDescendantSize lims then Some (descendant_size_exceeded stageit)
      else if wrap64 (me_nCountWithDescendants e + 1) > limitDescendantCount lims then Some (too_many_descendants stageit)
      else if totalSizeWithAncestors > limitAncestorSize lims then Some ancestor_size_exceeded
      else None)"

fun ancestor_loop :: "nat \<Rightarrow> CTxMemPool \<Rightarrow> ancestor_limits \<Rightarrow> int \<Rightarrow> setEntries \<Rightarrow> setEntries \<Rightarrow> int \<Rightarrow>
    (ancestor_error + setEntries) option" where
  "ancestor_loop k mp lims txSize [] setAncestors totalSize = Some (Inr setAncestors)"
| "ancestor_loop 0 mp lims txSize (stageit # ph) setAncestors totalSize = None"
| "ancestor_loop (Suc k) mp lims txSize (stageit # ph) setAncestors totalSize =
     (case (entry mp stageit, GetMemPoolParents mp stageit) of
        (Some e, Some setMemPoolParents) \<Rightarrow>
          (let setAncestors' = entries_insert stageit setAncestors;
               totalSize' = wrap64 (totalSize + me_nTxSize e) in
           case check_limits lims txSize totalSize' stageit e of
             Some err \<Rightarrow> Some (Inl err)
           | None \<Rightarrow>
               (case add_parents lims setAncestors' setMemPoolParents (entries_erase stageit (stageit # ph)) of
                  Inl err \<Rightarrow> Some (Inl err)
                | Inr ph' \<Rightarrow> ancestor_loop k mp lims txSize ph' setAncestors' totalSize'))
      | _ \<Rightarrow> None)"

text \<open>The last argument is the entry itself if it is in the pool (\<open>fSearchForParents = false\<close>).\<close>

definition CalculateMemPoolAncestors :: "CTxMemPool \<Rightarrow> ancestor_limits \<Rightarrow> CTxMemPoolEntry \<Rightarrow> txiter option \<Rightarrow>
    (ancestor_error + setEntries) option" where
  "CalculateMemPoolAncestors mp lims e self =
     (let fuel = length (mp_mapTx mp) + 1 in
      case self of
        None \<Rightarrow>
          (case search_parents mp lims (tx_vin (me_tx e)) [] of
             Inl err \<Rightarrow> Some (Inl err)
           | Inr parentHashes \<Rightarrow> ancestor_loop fuel mp lims (me_nTxSize e) parentHashes [] (me_nTxSize e))
      | Some it \<Rightarrow>
          (case GetMemPoolParents mp it of
             None \<Rightarrow> None
           | Some parentHashes \<Rightarrow> ancestor_loop fuel mp lims (me_nTxSize e) parentHashes [] (me_nTxSize e)))"

subsection \<open>Adding\<close>

definition UpdateAncestorsOf :: "bool \<Rightarrow> txiter \<Rightarrow> setEntries \<Rightarrow> CTxMemPool \<Rightarrow> CTxMemPool option" where
  "UpdateAncestorsOf add it setAncestors mp =
     (case (entry mp it, GetMemPoolParents mp it) of
        (Some e, Some parentIters) \<Rightarrow>
          (let mp1 = fold (\<lambda>piter. UpdateChild piter it add) parentIters mp;
               updateCount = (if add then 1 else -1)
           in each (\<lambda>a. modify_entry a (UpdateState (updateCount * me_nTxSize e) (updateCount * GetModifiedFee e) updateCount))
                setAncestors mp1)
      | _ \<Rightarrow> None)"

definition link_parent :: "txiter \<Rightarrow> uint256 \<Rightarrow> CTxMemPool \<Rightarrow> CTxMemPool" where
  "link_parent newit phash mp = (if exists_tx mp phash then UpdateParent newit phash True mp else mp)"

definition addUnchecked :: "(byte list \<Rightarrow> uint256) \<Rightarrow> uint256 \<Rightarrow> CTxMemPoolEntry \<Rightarrow> setEntries \<Rightarrow> CTxMemPool \<Rightarrow> CTxMemPool option" where
  "addUnchecked H hash e setAncestors mp =
     (let newit = tx_GetHash H (me_tx e);
          mp1 = mp\<lparr> mp_mapTx := map_insert ser_uint256 newit e (mp_mapTx mp),
                    mp_mapLinks := (case mp_mapLinks mp newit of None \<Rightarrow> (mp_mapLinks mp)(newit \<mapsto> TxLinks_init) | Some _ \<Rightarrow> mp_mapLinks mp) \<rparr>
      in case (case map_of (mp_mapDeltas mp1) hash of
                 Some d \<Rightarrow> if d \<noteq> 0 then modify_entry newit (\<lambda>e. Some (UpdateFeeDelta d e)) mp1 else Some mp1
               | None \<Rightarrow> Some mp1) of
           None \<Rightarrow> None
         | Some mp2 \<Rightarrow>
             (case entry mp2 newit of
                None \<Rightarrow> None
              | Some e2 \<Rightarrow>
                  (let vin = tx_vin (me_tx e2);
                       mp3 = mp2\<lparr> mp_cachedInnerUsage := mp_cachedInnerUsage mp2 + me_nUsageSize e,
                                  mp_mapNextTx := fold (\<lambda>i. map_insert id (txin_prevout i) newit) vin (mp_mapNextTx mp2) \<rparr>;
                       setParentTransactions = fold (\<lambda>i. entries_insert (prev_hash (txin_prevout i))) vin [];
                       mp4 = fold (link_parent newit) setParentTransactions mp3
                   in map_option (\<lambda>mp5. mp5\<lparr> mp_nTransactionsUpdated := mp_nTransactionsUpdated mp5 + 1,
                                             mp_totalTxSize := mp_totalTxSize mp5 + me_nTxSize e \<rparr>)
                        (UpdateAncestorsOf True newit setAncestors mp4))))"

text \<open>The variant that searches the ancestors itself, without limits, so that the search cannot fail (\<open>within_no_limits\<close> in
  \<open>Mempool_Props\<close>); what it would have collected before a failure is not modelled.\<close>

definition addUnchecked_search :: "(byte list \<Rightarrow> uint256) \<Rightarrow> uint256 \<Rightarrow> CTxMemPoolEntry \<Rightarrow> CTxMemPool \<Rightarrow> CTxMemPool option" where
  "addUnchecked_search H hash e mp =
     (case CalculateMemPoolAncestors mp no_limits e None of
        None \<Rightarrow> None
      | Some (Inl _) \<Rightarrow> addUnchecked H hash e [] mp
      | Some (Inr setAncestors) \<Rightarrow> addUnchecked H hash e setAncestors mp)"

subsection \<open>Removing\<close>

definition UpdateChildrenForRemoval :: "txiter \<Rightarrow> CTxMemPool \<Rightarrow> CTxMemPool option" where
  "UpdateChildrenForRemoval it mp =
     map_option (\<lambda>setMemPoolChildren. fold (\<lambda>updateIt. UpdateParent updateIt it False) setMemPoolChildren mp)
       (GetMemPoolChildren mp it)"

definition unlink_ancestors :: "txiter \<Rightarrow> CTxMemPool \<Rightarrow> CTxMemPool option" where
  "unlink_ancestors removeIt mp =
     (case entry mp removeIt of
        None \<Rightarrow> None
      | Some e \<Rightarrow>
          (case CalculateMemPoolAncestors mp no_limits e (Some removeIt) of
             None \<Rightarrow> None
           | Some (Inl _) \<Rightarrow> UpdateAncestorsOf False removeIt [] mp
           | Some (Inr setAncestors) \<Rightarrow> UpdateAncestorsOf False removeIt setAncestors mp))"

definition UpdateForRemoveFromMempool :: "setEntries \<Rightarrow> CTxMemPool \<Rightarrow> CTxMemPool option" where
  "UpdateForRemoveFromMempool entriesToRemove mp =
     Option.bind (each unlink_ancestors entriesToRemove mp) (each UpdateChildrenForRemoval entriesToRemove)"

definition removeUnchecked :: "txiter \<Rightarrow> CTxMemPool \<Rightarrow> CTxMemPool option" where
  "removeUnchecked it mp =
     map_option (\<lambda>e. let l = links_at mp it in
       mp\<lparr> mp_mapNextTx := fold (\<lambda>i. map_erase (txin_prevout i)) (tx_vin (me_tx e)) (mp_mapNextTx mp),
           mp_totalTxSize := mp_totalTxSize mp - me_nTxSize e,
           mp_cachedInnerUsage := mp_cachedInnerUsage mp - me_nUsageSize e - (set_usage (lk_parents l) + set_usage (lk_children l)),
           mp_mapLinks := (mp_mapLinks mp)(it := None),
           mp_mapTx := map_erase it (mp_mapTx mp),
           mp_nTransactionsUpdated := mp_nTransactionsUpdated mp + 1 \<rparr>) (entry mp it)"

definition RemoveStaged :: "setEntries \<Rightarrow> CTxMemPool \<Rightarrow> CTxMemPool option" where
  "RemoveStaged stage mp = Option.bind (UpdateForRemoveFromMempool stage mp) (each removeUnchecked stage)"

definition add_children :: "setEntries \<Rightarrow> txiter list \<Rightarrow> setEntries \<Rightarrow> setEntries" where
  "add_children setDescendants children stage = fold (\<lambda>c s. if c \<in> set setDescendants then s else entries_insert c s) children stage"

fun descendant_loop :: "nat \<Rightarrow> CTxMemPool \<Rightarrow> setEntries \<Rightarrow> setEntries \<Rightarrow> setEntries option" where
  "descendant_loop k mp [] setDescendants = Some setDescendants"
| "descendant_loop 0 mp (it # stage) setDescendants = None"
| "descendant_loop (Suc k) mp (it # stage) setDescendants =
     (case GetMemPoolChildren mp it of
        None \<Rightarrow> None
      | Some setChildren \<Rightarrow>
          (let setDescendants' = entries_insert it setDescendants
           in descendant_loop k mp (add_children setDescendants' setChildren (entries_erase it (it # stage))) setDescendants'))"

definition CalculateDescendants :: "CTxMemPool \<Rightarrow> txiter \<Rightarrow> setEntries \<Rightarrow> setEntries option" where
  "CalculateDescendants mp entryit setDescendants =
     descendant_loop (length (mp_mapTx mp) + 1) mp (if entryit \<in> set setDescendants then [] else [entryit]) setDescendants"

text \<open>The spenders of the outputs \<open>0, 1, \<dots>\<close> of a transaction that is not in the pool.\<close>

fun spenders_of :: "CTxMemPool \<Rightarrow> uint256 \<Rightarrow> nat \<Rightarrow> nat \<Rightarrow> setEntries \<Rightarrow> setEntries option" where
  "spenders_of mp h i 0 txToRemove = Some txToRemove"
| "spenders_of mp h i (Suc n) txToRemove =
     (case next_tx mp (COutPoint h (of_nat i)) of
        None \<Rightarrow> spenders_of mp h (Suc i) n txToRemove
      | Some nextit \<Rightarrow> if exists_tx mp nextit then spenders_of mp h (Suc i) n (entries_insert nextit txToRemove) else None)"

text \<open>The result is the pool and the removed transactions.\<close>

definition remove_tx :: "(byte list \<Rightarrow> uint256) \<Rightarrow> CTransaction \<Rightarrow> bool \<Rightarrow> CTxMemPool \<Rightarrow> (CTxMemPool \<times> CTransaction list) option" where
  "remove_tx H origTx fRecursive mp =
     (let h = tx_GetHash H origTx in
      case (if exists_tx mp h then Some (entries_insert h [])
            else if fRecursive then spenders_of mp h 0 (length (tx_vout origTx)) [] else Some []) of
        None \<Rightarrow> None
      | Some txToRemove \<Rightarrow>
          (case (if fRecursive then each (CalculateDescendants mp) txToRemove [] else Some txToRemove) of
             None \<Rightarrow> None
           | Some setAllRemoves \<Rightarrow>
               map_option (\<lambda>mp'. (mp', map (\<lambda>h. me_tx (the (entry mp h))) setAllRemoves)) (RemoveStaged setAllRemoves mp)))"

definition ClearPrioritisation :: "uint256 \<Rightarrow> CTxMemPool \<Rightarrow> CTxMemPool" where
  "ClearPrioritisation h mp = mp\<lparr> mp_mapDeltas := map_erase h (mp_mapDeltas mp) \<rparr>"

text \<open>The hash of the conflicting transaction is read before the removal; the program reads it afterwards, from the
  entry that was freed.\<close>

fun removeConflicts :: "(byte list \<Rightarrow> uint256) \<Rightarrow> uint256 \<Rightarrow> CTxIn list \<Rightarrow> CTxMemPool \<Rightarrow> CTransaction list \<Rightarrow>
    (CTxMemPool \<times> CTransaction list) option" where
  "removeConflicts H h [] mp removed = Some (mp, removed)"
| "removeConflicts H h (i # is) mp removed =
     (case next_tx mp (txin_prevout i) of
        None \<Rightarrow> removeConflicts H h is mp removed
      | Some c \<Rightarrow>
          if c = h then removeConflicts H h is mp removed
          else (case entry mp c of
              None \<Rightarrow> None
            | Some e \<Rightarrow>
                (case remove_tx H (me_tx e) True mp of
                   None \<Rightarrow> None
                 | Some (mp', r) \<Rightarrow> removeConflicts H h is (ClearPrioritisation c mp') (removed @ r))))"

fun removeForBlock :: "(byte list \<Rightarrow> uint256) \<Rightarrow> CTransaction list \<Rightarrow> CTxMemPool \<Rightarrow> CTransaction list \<Rightarrow>
    (CTxMemPool \<times> CTransaction list) option" where
  "removeForBlock H [] mp conflicts = Some (mp, conflicts)"
| "removeForBlock H (tx # vtx) mp conflicts =
     (case remove_tx H tx False mp of
        None \<Rightarrow> None
      | Some (mp1, _) \<Rightarrow>
          (case removeConflicts H (tx_GetHash H tx) (tx_vin tx) mp1 conflicts of
             None \<Rightarrow> None
           | Some (mp2, conflicts') \<Rightarrow> removeForBlock H vtx (ClearPrioritisation (tx_GetHash H tx) mp2) conflicts'))"

end
