(* ===== verification/Mempool_Limit.thy ===== *)
theory Mempool_Limit
  imports Mempool Coins
begin

text \<open>
  The operations of the pool that work on many entries (src/src/txmempool.cpp): limits on memory and age, priorities given
  by hand, transactions that come back from a disconnected block, transactions that a reorganisation makes invalid (with
  the lock points of src/src/main.cpp), and the view of coins through the pool.
\<close>

subsection \<open>Outputs spent in the pool\<close>

text \<open>The loop from \<open>lower_bound(COutPoint(hash, 0))\<close> to the first outpoint of another transaction.\<close>

definition outputs_range :: "CTxMemPool \<Rightarrow> uint256 \<Rightarrow> (COutPoint \<times> txiter) list" where
  "outputs_range mp h = takeWhile (\<lambda>e. prev_hash (fst e) = h) (dropWhile (\<lambda>e. fst e < COutPoint h 0) (mp_mapNextTx mp))"

definition pruneSpent :: "CTxMemPool \<Rightarrow> uint256 \<Rightarrow> CCoins \<Rightarrow> CCoins" where
  "pruneSpent mp hashTx coins = fold (\<lambda>e c. fst (Spend c (unat (prev_n (fst e))))) (outputs_range mp hashTx) coins"

definition MEMPOOL_HEIGHT :: int where "MEMPOOL_HEIGHT = 0x7FFFFFFF"

definition mempool_GetCoins :: "CTxMemPool \<Rightarrow> (uint256 \<Rightarrow> CCoins option) \<Rightarrow> uint256 \<Rightarrow> CCoins option" where
  "mempool_GetCoins mp base txid =
     (case lookup_tx mp txid of
        Some tx \<Rightarrow> Some (FromTx tx MEMPOOL_HEIGHT)
      | None \<Rightarrow> (case base txid of Some coins \<Rightarrow> if IsPruned coins then None else Some coins | None \<Rightarrow> None))"

definition mempool_HaveCoins :: "CTxMemPool \<Rightarrow> (uint256 \<Rightarrow> bool) \<Rightarrow> uint256 \<Rightarrow> bool" where
  "mempool_HaveCoins mp base txid \<longleftrightarrow> exists_tx mp txid \<or> base txid"

subsection \<open>Limits\<close>

text \<open>The memory of the pool; \<open>entry_size\<close> is \<open>sizeof(CTxMemPoolEntry)\<close>.  Every transaction has an entry in \<open>mapLinks\<close>.\<close>

definition ZumyMemoryUsage :: "nat \<Rightarrow> CTxMemPool \<Rightarrow> int" where
  "ZumyMemoryUsage entry_size mp =
     int (MallocUsage (entry_size + 12 * 8) * length (mp_mapTx mp)
          + MallocUsage (stl_tree_node 16) * length (mp_mapNextTx mp)
          + MallocUsage (stl_tree_node 48) * length (mp_mapDeltas mp)
          + MallocUsage (stl_tree_node 104) * length (mp_mapTx mp))
     + mp_cachedInnerUsage mp"

definition Expire :: "int \<Rightarrow> CTxMemPool \<Rightarrow> (CTxMemPool \<times> nat) option" where
  "Expire time mp =
     (let toremove = map fst (filter (\<lambda>(h, e). me_nTime e < time) (mp_mapTx mp)) in
      case each (CalculateDescendants mp) toremove [] of
        None \<Rightarrow> None
      | Some stage \<Rightarrow> map_option (\<lambda>mp'. (mp', length stage)) (RemoveStaged stage mp))"

text \<open>The transactions whose last spender in the pool was removed.\<close>

definition no_spends_remaining :: "CTxMemPool \<Rightarrow> CTransaction \<Rightarrow> uint256 list" where
  "no_spends_remaining mp tx =
     map (\<lambda>i. prev_hash (txin_prevout i))
       (filter (\<lambda>i. \<not> exists_tx mp (prev_hash (txin_prevout i)) \<and> outputs_range mp (prev_hash (txin_prevout i)) = []) (tx_vin tx))"

text \<open>The order by the descendant score puts an entry before itself.\<close>

lemma CompareByDescendantScore_self: "CompareByDescendantScore e e"
  by (simp add: CompareByDescendantScore_def Let_def dbl_mult_def mult.commute)

text \<open>\<open>worst\<close> is the first entry in the order of the descendant score.  That order is left open: its comparison holds
  between an entry and itself, which the container does not allow for.  Each round removes an entry, so that their number
  bounds the rounds.\<close>

fun TrimToSize :: "nat \<Rightarrow> (CTxMemPool \<Rightarrow> txiter) \<Rightarrow> nat \<Rightarrow> int \<Rightarrow> CTxMemPool \<Rightarrow> uint256 list \<Rightarrow> (CTxMemPool \<times> uint256 list) option" where
  "TrimToSize k worst entry_size sizelimit mp noSpends =
     (if mp_mapTx mp = [] \<or> ZumyMemoryUsage entry_size mp \<le> sizelimit then Some (mp, noSpends)
      else case k of
        0 \<Rightarrow> None
      | Suc k' \<Rightarrow>
          (case CalculateDescendants mp (worst mp) [] of
             None \<Rightarrow> None
           | Some stage \<Rightarrow>
               (let txn = map (\<lambda>h. me_tx (the (entry mp h))) stage in
                case RemoveStaged stage mp of
                  None \<Rightarrow> None
                | Some mp' \<Rightarrow> TrimToSize k' worst entry_size sizelimit mp' (noSpends @ concat (map (no_spends_remaining mp') txn)))))"

subsection \<open>Priorities by hand\<close>

definition PrioritiseTransaction :: "uint256 \<Rightarrow> CAmount \<Rightarrow> CTxMemPool \<Rightarrow> CTxMemPool option" where
  "PrioritiseTransaction h nFeeDelta mp =
     (let d = (case map_of (mp_mapDeltas mp) h of None \<Rightarrow> 0 | Some x \<Rightarrow> x) + nFeeDelta;
          mp1 = mp\<lparr> mp_mapDeltas := map_insert ser_uint256 h d (map_erase h (mp_mapDeltas mp)) \<rparr>
      in if \<not> exists_tx mp1 h then Some mp1
         else case modify_entry h (\<lambda>e. Some (UpdateFeeDelta d e)) mp1 of
           None \<Rightarrow> None
         | Some mp2 \<Rightarrow>
             (case CalculateMemPoolAncestors mp2 no_limits (the (entry mp2 h)) (Some h) of
                None \<Rightarrow> None
              | Some (Inl _) \<Rightarrow> Some mp2
              | Some (Inr setAncestors) \<Rightarrow> each (\<lambda>a. modify_entry a (UpdateState 0 nFeeDelta 0)) setAncestors mp2))"

definition ApplyDeltas :: "CTxMemPool \<Rightarrow> uint256 \<Rightarrow> CAmount \<Rightarrow> CAmount" where
  "ApplyDeltas mp h nFeeDelta = (case map_of (mp_mapDeltas mp) h of None \<Rightarrow> nFeeDelta | Some d \<Rightarrow> nFeeDelta + d)"

subsection \<open>Transactions that come back from a block\<close>

text \<open>A descendant that was computed before: its own descendants are added at once, and counted if they are new.\<close>

fun visit_cached :: "uint256 set \<Rightarrow> setEntries \<Rightarrow> txiter list \<Rightarrow> setEntries \<Rightarrow> nat \<Rightarrow> setEntries \<times> nat" where
  "visit_cached setExclude stage [] setAll n = (setAll, n)"
| "visit_cached setExclude stage (c # cs) setAll n =
     (if c \<in> set setAll then visit_cached setExclude stage cs setAll n
      else visit_cached setExclude stage cs (entries_insert c setAll) (if c \<notin> setExclude \<and> c \<notin> set stage then n + 1 else n))"

type_synonym cacheMap = "txiter \<Rightarrow> setEntries option"

text \<open>The children of an entry; \<open>None\<close> if more entries were met than may be visited.\<close>

fun visit_children :: "nat \<Rightarrow> cacheMap \<Rightarrow> uint256 set \<Rightarrow> txiter list \<Rightarrow> setEntries \<Rightarrow> setEntries \<Rightarrow> nat \<Rightarrow>
    (setEntries \<times> setEntries \<times> nat) option" where
  "visit_children maxVisit cache setExclude [] stage setAll n = Some (stage, setAll, n)"
| "visit_children maxVisit cache setExclude (c # cs) stage setAll n =
     (case (case cache c of
              Some cached \<Rightarrow> (case visit_cached setExclude stage cached setAll n of (setAll', n') \<Rightarrow> (stage, setAll', n'))
            | None \<Rightarrow>
                if c \<in> set setAll \<or> c \<in> set stage then (stage, setAll, n)
                else (entries_insert c stage, setAll, if c \<notin> setExclude then n + 1 else n)) of
        (stage', setAll', n') \<Rightarrow>
          if n' > maxVisit then None else visit_children maxVisit cache setExclude cs stage' setAll' n')"

text \<open>The result: all descendants, or that the search was given up.\<close>

datatype descend_result = gave_up | descendants setEntries

fun descend_loop :: "nat \<Rightarrow> CTxMemPool \<Rightarrow> nat \<Rightarrow> cacheMap \<Rightarrow> uint256 set \<Rightarrow> setEntries \<Rightarrow> setEntries \<Rightarrow> nat \<Rightarrow> descend_result option" where
  "descend_loop k mp maxVisit cache setExclude [] setAll n = Some (descendants setAll)"
| "descend_loop 0 mp maxVisit cache setExclude (cit # stage) setAll n = None"
| "descend_loop (Suc k) mp maxVisit cache setExclude (cit # stage) setAll n =
     (case (entry mp cit, GetMemPoolChildren mp cit) of
        (Some e, Some setChildren) \<Rightarrow>
          if IsDirty e then Some gave_up
          else (case visit_children maxVisit cache setExclude setChildren (entries_erase cit (cit # stage)) (entries_insert cit setAll) n of
              None \<Rightarrow> Some gave_up
            | Some (stage', setAll', n') \<Rightarrow> descend_loop k mp maxVisit cache setExclude stage' setAll' n')
      | _ \<Rightarrow> None)"

definition UpdateForDescendants :: "txiter \<Rightarrow> nat \<Rightarrow> cacheMap \<Rightarrow> uint256 set \<Rightarrow> CTxMemPool \<Rightarrow> (bool \<times> cacheMap \<times> CTxMemPool) option" where
  "UpdateForDescendants updateIt maxVisit cache setExclude mp =
     (case GetMemPoolChildren mp updateIt of
        None \<Rightarrow> None
      | Some children \<Rightarrow>
          (case descend_loop (length (mp_mapTx mp) + 1) mp maxVisit cache setExclude children [] 0 of
             None \<Rightarrow> None
           | Some gave_up \<Rightarrow> Some (False, cache, mp)
           | Some (descendants setAll) \<Rightarrow>
               (let counted = filter (\<lambda>c. c \<notin> setExclude) setAll;
                    cache' = (if counted = [] then cache
                              else cache(updateIt \<mapsto> fold entries_insert counted (case cache updateIt of None \<Rightarrow> [] | Some s \<Rightarrow> s)))
                in map_option (\<lambda>mp'. (True, cache', mp'))
                     (modify_entry updateIt (UpdateState (sum_list (map (\<lambda>c. me_nTxSize (the (entry mp c))) counted))
                        (sum_list (map (\<lambda>c. GetModifiedFee (the (entry mp c))) counted)) (int (length counted))) mp))))"

text \<open>The links to children that are not in the block themselves.\<close>

fun link_spenders :: "txiter \<Rightarrow> uint256 set \<Rightarrow> txiter list \<Rightarrow> setEntries \<Rightarrow> CTxMemPool \<Rightarrow> CTxMemPool option" where
  "link_spenders it setAlreadyIncluded [] setChildren mp = Some mp"
| "link_spenders it setAlreadyIncluded (c # cs) setChildren mp =
     (if \<not> exists_tx mp c then None
      else link_spenders it setAlreadyIncluded cs (entries_insert c setChildren)
             (if c \<notin> set setChildren \<and> c \<notin> setAlreadyIncluded then UpdateParent c it True (UpdateChild it c True mp) else mp))"

fun update_from_block :: "uint256 set \<Rightarrow> uint256 list \<Rightarrow> cacheMap \<Rightarrow> CTxMemPool \<Rightarrow> CTxMemPool option" where
  "update_from_block setAlreadyIncluded [] cache mp = Some mp"
| "update_from_block setAlreadyIncluded (it # hs) cache mp =
     (if \<not> exists_tx mp it then update_from_block setAlreadyIncluded hs cache mp
      else case link_spenders it setAlreadyIncluded (map snd (outputs_range mp it)) [] mp of
        None \<Rightarrow> None
      | Some mp1 \<Rightarrow>
          (case UpdateForDescendants it 100 cache setAlreadyIncluded mp1 of
             None \<Rightarrow> None
           | Some (True, cache', mp2) \<Rightarrow> update_from_block setAlreadyIncluded hs cache' mp2
           | Some (False, cache', mp2) \<Rightarrow>
               (case modify_entry it (\<lambda>e. Some (SetDirty e)) mp2 of
                  None \<Rightarrow> None
                | Some mp3 \<Rightarrow> update_from_block setAlreadyIncluded hs cache' mp3)))"

definition UpdateTransactionsFromBlock :: "uint256 list \<Rightarrow> CTxMemPool \<Rightarrow> CTxMemPool option" where
  "UpdateTransactionsFromBlock vHashesToUpdate mp =
     update_from_block (set vHashesToUpdate) (rev vHashesToUpdate) (\<lambda>_. None) mp"

subsection \<open>Lock points and reorganisations\<close>

definition TestLockPointValidity :: "CChain \<Rightarrow> LockPoints \<Rightarrow> bool" where
  "TestLockPointValidity chainActive lp =
     (case lp_maxInputBlock lp of None \<Rightarrow> True | Some b \<Rightarrow> chain_Contains chainActive b)"

text \<open>The heights of the inputs, as if every transaction of the pool were in the next block; \<open>None\<close> if an input is missing.\<close>

fun prev_heights :: "CTxMemPool \<Rightarrow> (uint256 \<Rightarrow> CCoins option) \<Rightarrow> int \<Rightarrow> CTxIn list \<Rightarrow> int list option" where
  "prev_heights mp pcoinsTip tipHeight [] = Some []"
| "prev_heights mp pcoinsTip tipHeight (i # is) =
     (case mempool_GetCoins mp pcoinsTip (prev_hash (txin_prevout i)) of
        None \<Rightarrow> None
      | Some coins \<Rightarrow>
          map_option ((#) (if cc_nHeight coins = MEMPOOL_HEIGHT then tipHeight + 1 else cc_nHeight coins))
            (prev_heights mp pcoinsTip tipHeight is))"

definition next_block_index :: "CBlockIndex \<Rightarrow> CBlockIndex" where
  "next_block_index tip = CBlockIndex (SetNull_index\<lparr> bi_nHeight := height tip + 1 \<rparr>) (Some tip) None"

definition max_input_height :: "int \<Rightarrow> int list \<Rightarrow> int" where
  "max_input_height tipHeight hs = fold (\<lambda>h m. if h \<noteq> tipHeight + 1 then max m h else m) hs 0"

text \<open>The result is the verdict and the lock points; \<open>None\<close> is a null pointer or a failed assertion.\<close>

definition CheckSequenceLocks :: "CChain \<Rightarrow> (uint256 \<Rightarrow> CCoins option) \<Rightarrow> CTxMemPool \<Rightarrow> CTransaction \<Rightarrow> int \<Rightarrow> LockPoints \<Rightarrow> bool \<Rightarrow>
    (bool \<times> LockPoints) option" where
  "CheckSequenceLocks chainActive pcoinsTip mp tx flags lp useExistingLockPoints =
     (case chain_Tip chainActive of
        None \<Rightarrow> None
      | Some tip \<Rightarrow>
          (let index = next_block_index tip in
           if useExistingLockPoints
           then map_option (\<lambda>ok. (ok, lp)) (EvaluateSequenceLocks index (lp_height lp, lp_time lp))
           else case prev_heights mp pcoinsTip (height tip) (tx_vin tx) of
             None \<Rightarrow> Some (False, lp)
           | Some prevheights \<Rightarrow>
               (case CalculateSequenceLocks tx flags prevheights index of
                  None \<Rightarrow> None
                | Some (lockPair, prevheights') \<Rightarrow>
                    (case GetAncestor tip (max_input_height (height tip) prevheights') of
                       None \<Rightarrow> None
                     | Some maxInputBlock \<Rightarrow>
                         map_option (\<lambda>ok. (ok, \<lparr> lp_height = fst lockPair, lp_time = snd lockPair, lp_maxInputBlock = maxInputBlock \<rparr>))
                           (EvaluateSequenceLocks index lockPair)))))"

text \<open>Whether an input of a transaction spends an immature coinbase, or coins that are gone (which the node asserts against if it
  runs with consistency checks).\<close>

fun spends_immature :: "CTxMemPool \<Rightarrow> (uint256 \<Rightarrow> CCoins option) \<Rightarrow> int \<Rightarrow> CTxIn list \<Rightarrow> bool" where
  "spends_immature mp pcoins nMemPoolHeight [] = False"
| "spends_immature mp pcoins nMemPoolHeight (i # is) =
     (if exists_tx mp (prev_hash (txin_prevout i)) then spends_immature mp pcoins nMemPoolHeight is
      else case pcoins (prev_hash (txin_prevout i)) of
        None \<Rightarrow> True
      | Some coins \<Rightarrow>
          if cc_fCoinBase coins \<and> nMemPoolHeight - cc_nHeight coins < COINBASE_MATURITY then True
          else spends_immature mp pcoins nMemPoolHeight is)"

text \<open>One entry: whether it has to go, and its lock points.\<close>

definition reorg_entry :: "CChain \<Rightarrow> int \<Rightarrow> (uint256 \<Rightarrow> CCoins option) \<Rightarrow> int \<Rightarrow> int \<Rightarrow> CTxMemPool \<Rightarrow> CTxMemPoolEntry \<Rightarrow>
    (bool \<times> LockPoints) option" where
  "reorg_entry chainActive nAdjustedTime pcoins nMemPoolHeight flags mp e =
     (let tx = me_tx e; lp = me_lockPoints e; validLP = TestLockPointValidity chainActive lp in
      case CheckFinalTx chainActive nAdjustedTime tx flags of
        None \<Rightarrow> None
      | Some False \<Rightarrow> Some (True, lp)
      | Some True \<Rightarrow>
          (case CheckSequenceLocks chainActive pcoins mp tx flags lp validLP of
             None \<Rightarrow> None
           | Some (False, lp') \<Rightarrow> Some (True, lp')
           | Some (True, lp') \<Rightarrow> Some (me_spendsCoinbase e \<and> spends_immature mp pcoins nMemPoolHeight (tx_vin tx), lp')))"

fun reorg_scan :: "CChain \<Rightarrow> int \<Rightarrow> (uint256 \<Rightarrow> CCoins option) \<Rightarrow> int \<Rightarrow> int \<Rightarrow> txiter list \<Rightarrow> CTxMemPool \<Rightarrow> CTransaction list \<Rightarrow>
    (CTxMemPool \<times> CTransaction list) option" where
  "reorg_scan chainActive nAdjustedTime pcoins nMemPoolHeight flags [] mp transactionsToRemove = Some (mp, transactionsToRemove)"
| "reorg_scan chainActive nAdjustedTime pcoins nMemPoolHeight flags (it # its) mp transactionsToRemove =
     (case entry mp it of
        None \<Rightarrow> None
      | Some e \<Rightarrow>
          (case reorg_entry chainActive nAdjustedTime pcoins nMemPoolHeight flags mp e of
             None \<Rightarrow> None
           | Some (bad, lp) \<Rightarrow>
               (case (if TestLockPointValidity chainActive (me_lockPoints e) then Some mp
                      else modify_entry it (\<lambda>e. Some (UpdateLockPoints lp e)) mp) of
                  None \<Rightarrow> None
                | Some mp' \<Rightarrow>
                    reorg_scan chainActive nAdjustedTime pcoins nMemPoolHeight flags its mp'
                      (if bad then transactionsToRemove @ [me_tx e] else transactionsToRemove))))"

definition removeForReorg :: "(byte list \<Rightarrow> uint256) \<Rightarrow> CChain \<Rightarrow> int \<Rightarrow> (uint256 \<Rightarrow> CCoins option) \<Rightarrow> int \<Rightarrow> int \<Rightarrow> CTxMemPool \<Rightarrow>
    CTxMemPool option" where
  "removeForReorg H chainActive nAdjustedTime pcoins nMemPoolHeight flags mp =
     (case reorg_scan chainActive nAdjustedTime pcoins nMemPoolHeight flags (queryHashes mp) mp [] of
        None \<Rightarrow> None
      | Some (mp1, transactionsToRemove) \<Rightarrow> each (\<lambda>tx m. map_option fst (remove_tx H tx True m)) transactionsToRemove mp1)"

end
