(* ===== verification/Standard.thy ===== *)
theory Standard
  imports Block_Connect
begin

text \<open>
  Standard scripts and destinations (src/src/script/standard.cpp, standard.h), the policy for transactions that are relayed
  (src/src/policy/policy.cpp, policy.h) and the opt-in for replacement (src/src/policy/rbf.cpp).

  A vector of bytes is a list; a reference to a key or to a script is the number with these 20 bytes.  \<open>None\<close> is a failed
  assertion or a signed overflow.
\<close>

subsection \<open>Templates\<close>

datatype txnouttype = TX_NONSTANDARD | TX_PUBKEY | TX_PUBKEYHASH | TX_SCRIPTHASH | TX_MULTISIG | TX_NULL_DATA

definition GetTxnOutputType :: "txnouttype \<Rightarrow> string" where
  "GetTxnOutputType t =
     (case t of
        TX_NONSTANDARD \<Rightarrow> ''nonstandard''
      | TX_PUBKEY \<Rightarrow> ''pubkey''
      | TX_PUBKEYHASH \<Rightarrow> ''pubkeyhash''
      | TX_SCRIPTHASH \<Rightarrow> ''scripthash''
      | TX_MULTISIG \<Rightarrow> ''multisig''
      | TX_NULL_DATA \<Rightarrow> ''nulldata'')"

definition mTemplates :: "(txnouttype \<times> script) list" where
  "mTemplates =
     [(TX_PUBKEY, push_op (push_op [] OP_PUBKEY) OP_CHECKSIG),
      (TX_PUBKEYHASH, push_op (push_op (push_op (push_op (push_op [] OP_DUP) OP_HASH160) OP_PUBKEYHASH) OP_EQUALVERIFY) OP_CHECKSIG),
      (TX_MULTISIG, push_op (push_op (push_op (push_op [] OP_SMALLINTEGER) OP_PUBKEYS) OP_SMALLINTEGER) OP_CHECKMULTISIG)]"

text \<open>The inner loop for \<open>OP_PUBKEYS\<close>: the position, the last opcode with its data, and the solutions.\<close>

function take_pubkeys :: "script \<Rightarrow> opcodetype \<Rightarrow> valtype \<Rightarrow> valtype list \<Rightarrow> script \<times> opcodetype \<times> valtype \<times> valtype list" where
  "take_pubkeys pc1 opcode1 vch1 vSolutions =
     (if length vch1 \<ge> 33 \<and> length vch1 \<le> 65
      then case GetOp pc1 of
          (False, opcode1', vch1', pc1') \<Rightarrow> (pc1', opcode1', vch1', vSolutions @ [vch1])
        | (True, opcode1', vch1', pc1') \<Rightarrow> take_pubkeys pc1' opcode1' vch1' (vSolutions @ [vch1])
      else (pc1, opcode1, vch1, vSolutions))"
  by pat_completeness auto
termination by (relation "measure (\<lambda>(pc1, _). length pc1)") (auto dest: GetOp_True_length')

declare take_pubkeys.simps [simp del]

text \<open>The comparison with a template: the solutions of a match.\<close>

function match_loop :: "script \<Rightarrow> script \<Rightarrow> valtype list \<Rightarrow> valtype list option" where
  "match_loop pc1 pc2 vSolutions =
     (if pc1 = [] \<and> pc2 = [] then Some vSolutions
      else case GetOp pc1 of
        (False, _) \<Rightarrow> None
      | (True, opcode1, vch1, pc1') \<Rightarrow>
          (case GetOp pc2 of
             (False, _) \<Rightarrow> None
           | (True, opcode2, vch2, pc2') \<Rightarrow>
               (let (q1, o1, v1, vs) = (if opcode2 = OP_PUBKEYS then take_pubkeys pc1' opcode1 vch1 vSolutions
                                        else (pc1', opcode1, vch1, vSolutions));
                    (ok2, o2, v2, q2) = (if opcode2 = OP_PUBKEYS then GetOp pc2' else (True, opcode2, vch2, pc2'))
                in if \<not> ok2 then None
                   else if o2 = OP_PUBKEY then
                     (if length v1 < 33 \<or> length v1 > 65 then None else match_loop q1 q2 (vs @ [v1]))
                   else if o2 = OP_PUBKEYHASH then
                     (if length v1 \<noteq> 20 then None else match_loop q1 q2 (vs @ [v1]))
                   else if o2 = OP_SMALLINTEGER then
                     (if o1 = OP_0 \<or> (o1 \<ge> OP_1 \<and> o1 \<le> OP_16)
                      then match_loop q1 q2 (vs @ [[of_nat (the (DecodeOP_N o1))]]) else None)
                   else if o1 \<noteq> o2 \<or> v1 \<noteq> v2 then None
                   else match_loop q1 q2 vs)))"
  by pat_completeness auto
termination
  by (relation "measure (\<lambda>(_, pc2, _). length pc2)")
    (auto split: if_splits dest!: GetOp_True_length' dest: GetOp_True_length order.strict_trans)

declare match_loop.simps [simp del]

definition multisig_ok :: "valtype list \<Rightarrow> bool" where
  "multisig_ok vs \<longleftrightarrow>
     (let m = hd vs ! 0; n = last vs ! 0 in \<not> (m < 1 \<or> n < 1 \<or> m > n \<or> length vs - 2 \<noteq> unat n))"

fun scan_templates :: "(txnouttype \<times> script) list \<Rightarrow> script \<Rightarrow> bool \<times> txnouttype \<times> valtype list" where
  "scan_templates [] s = (False, TX_NONSTANDARD, [])"
| "scan_templates ((t, script2) # ts) s =
     (case match_loop s script2 [] of
        Some vs \<Rightarrow> (t = TX_MULTISIG \<longrightarrow> multisig_ok vs, t, vs)
      | None \<Rightarrow> scan_templates ts s)"

definition Solver :: "script \<Rightarrow> bool \<times> txnouttype \<times> valtype list" where
  "Solver s =
     (if IsPayToScriptHash s then (True, TX_SCRIPTHASH, [take 20 (drop 2 s)])
      else if length s \<ge> 1 \<and> s ! 0 = OP_RETURN \<and> IsPushOnly (drop 1 s) then (True, TX_NULL_DATA, [])
      else scan_templates mTemplates s)"

subsection \<open>Destinations\<close>

type_synonym uint160 = "160 word"

definition uint160_bytes :: "uint160 \<Rightarrow> byte list" where "uint160_bytes h = le_bytes 20 (unat h)"
definition uint160_of :: "byte list \<Rightarrow> uint160" where "uint160_of vch = of_nat (le_nat vch)"

datatype CTxDestination = CNoDestination | CKeyID uint160 | CScriptID uint160

definition Hash160 :: "crypto_env \<Rightarrow> byte list \<Rightarrow> uint160" where
  "Hash160 env d = uint160_of (cy_ripemd160 env (cy_sha256 env d))"

text \<open>\<open>CPubKey::GetID\<close> hashes the bytes of the key.\<close>

definition pubkey_GetID :: "crypto_env \<Rightarrow> byte list \<Rightarrow> uint160" where
  "pubkey_GetID env k = Hash160 env (take (CPubKey_GetLen (k ! 0)) k)"

definition GetScriptID :: "crypto_env \<Rightarrow> script \<Rightarrow> uint160" where
  "GetScriptID env s = Hash160 env s"

definition ExtractDestination :: "crypto_env \<Rightarrow> script \<Rightarrow> CTxDestination option" where
  "ExtractDestination env s =
     (case Solver s of
        (False, _) \<Rightarrow> None
      | (True, whichType, vs) \<Rightarrow>
          if whichType = TX_PUBKEY then
            (let pubKey = CPubKey_of (vs ! 0) in if \<not> CPubKey_IsValid pubKey then None else Some (CKeyID (pubkey_GetID env pubKey)))
          else if whichType = TX_PUBKEYHASH then Some (CKeyID (uint160_of (vs ! 0)))
          else if whichType = TX_SCRIPTHASH then Some (CScriptID (uint160_of (vs ! 0)))
          else None)"

text \<open>The type is returned with the verdict, then the addresses and the number of signatures that are required.\<close>

definition ExtractDestinations :: "crypto_env \<Rightarrow> script \<Rightarrow> txnouttype \<times> (CTxDestination list \<times> nat) option" where
  "ExtractDestinations env s =
     (case Solver s of
        (False, typeRet, _) \<Rightarrow> (typeRet, None)
      | (True, typeRet, vs) \<Rightarrow>
          (typeRet,
           if typeRet = TX_NULL_DATA then None
           else if typeRet = TX_MULTISIG then
             (let addressRet = map (\<lambda>k. CKeyID (pubkey_GetID env k)) (filter CPubKey_IsValid (map CPubKey_of (butlast (tl vs))))
              in if addressRet = [] then None else Some (addressRet, unat (hd vs ! 0)))
           else map_option (\<lambda>address. ([address], 1)) (ExtractDestination env s)))"

definition GetScriptForDestination :: "CTxDestination \<Rightarrow> script" where
  "GetScriptForDestination dest =
     (case dest of
        CNoDestination \<Rightarrow> []
      | CKeyID keyID \<Rightarrow>
          push_op (push_op (push_data (push_op (push_op [] OP_DUP) OP_HASH160) (uint160_bytes keyID)) OP_EQUALVERIFY) OP_CHECKSIG
      | CScriptID scriptID \<Rightarrow> push_op (push_data (push_op [] OP_HASH160) (uint160_bytes scriptID)) OP_EQUAL)"

definition GetScriptForRawPubKey :: "byte list \<Rightarrow> script" where
  "GetScriptForRawPubKey pubKey = push_op (push_data [] (take (CPubKey_GetLen (pubKey ! 0)) pubKey)) OP_CHECKSIG"

definition GetScriptForMultisig :: "int \<Rightarrow> byte list list \<Rightarrow> script option" where
  "GetScriptForMultisig nRequired ks =
     (case (EncodeOP_N nRequired, EncodeOP_N (int (length ks))) of
        (Some m, Some n) \<Rightarrow>
          Some (push_op (push_op (fold (\<lambda>k s. push_data s (take (CPubKey_GetLen (k ! 0)) k)) ks (push_op [] m)) n) OP_CHECKMULTISIG)
      | _ \<Rightarrow> None)"

subsection \<open>Policy\<close>

definition MAX_STANDARD_TX_SIZE :: nat where "MAX_STANDARD_TX_SIZE = 400000"
definition MAX_P2SH_SIGOPS :: nat where "MAX_P2SH_SIGOPS = 15"
definition MAX_STANDARD_TX_SIGOPS :: nat where "MAX_STANDARD_TX_SIGOPS = MAX_BLOCK_SIGOPS div 5"
definition MAX_STANDARD_VERSION :: int where "MAX_STANDARD_VERSION = 1"
definition MAX_OP_RETURN_RELAY :: nat where "MAX_OP_RETURN_RELAY = 83"

text \<open>The settings of the node.\<close>

record policy =
  po_fAcceptDatacarrier :: bool
  po_nMaxDatacarrierBytes :: nat
  po_fIsBareMultisigStd :: bool
  po_minRelayTxFee :: CFeeRate

definition IsStandard :: "policy \<Rightarrow> script \<Rightarrow> bool \<times> txnouttype" where
  "IsStandard po s =
     (case Solver s of
        (False, whichType, _) \<Rightarrow> (False, whichType)
      | (True, whichType, vs) \<Rightarrow>
          (if whichType = TX_MULTISIG then
             (let m = hd vs ! 0; n = last vs ! 0 in \<not> (n < 1 \<or> n > 3) \<and> \<not> (m < 1 \<or> m > n))
           else if whichType = TX_NULL_DATA \<and> (\<not> po_fAcceptDatacarrier po \<or> length s > po_nMaxDatacarrierBytes po) then False
           else whichType \<noteq> TX_NONSTANDARD, whichType))"

text \<open>The result is the reason of a rejection, or \<open>None\<close>.\<close>

fun standard_inputs :: "CTxIn list \<Rightarrow> string option" where
  "standard_inputs [] = None"
| "standard_inputs (i # is) =
     (if length (txin_scriptSig i) > 1650 then Some ''scriptsig-size''
      else if \<not> IsPushOnly (txin_scriptSig i) then Some ''scriptsig-not-pushonly''
      else standard_inputs is)"

fun standard_outputs :: "policy \<Rightarrow> CTxOut list \<Rightarrow> nat \<Rightarrow> (string + nat) option" where
  "standard_outputs po [] nDataOut = Some (Inr nDataOut)"
| "standard_outputs po (o' # os) nDataOut =
     (case IsStandard po (txout_scriptPubKey o') of
        (False, _) \<Rightarrow> Some (Inl ''scriptpubkey'')
      | (True, whichType) \<Rightarrow>
          if whichType = TX_NULL_DATA then standard_outputs po os (nDataOut + 1)
          else if whichType = TX_MULTISIG \<and> \<not> po_fIsBareMultisigStd po then Some (Inl ''bare-multisig'')
          else (case IsDust o' (po_minRelayTxFee po) of
              None \<Rightarrow> None
            | Some True \<Rightarrow> Some (Inl ''dust'')
            | Some False \<Rightarrow> standard_outputs po os nDataOut))"

text \<open>\<open>Some None\<close> is a standard transaction, \<open>Some (Some reason)\<close> another one.\<close>

definition IsStandardTx :: "policy \<Rightarrow> CTransaction \<Rightarrow> string option option" where
  "IsStandardTx po tx =
     (if tx_nVersion tx > MAX_STANDARD_VERSION \<or> tx_nVersion tx < 1 then Some (Some ''version'')
      else if tx_size tx \<ge> MAX_STANDARD_TX_SIZE then Some (Some ''tx-size'')
      else case standard_inputs (tx_vin tx) of
        Some reason \<Rightarrow> Some (Some reason)
      | None \<Rightarrow>
          (case standard_outputs po (tx_vout tx) 0 of
             None \<Rightarrow> None
           | Some (Inl reason) \<Rightarrow> Some (Some reason)
           | Some (Inr nDataOut) \<Rightarrow> if nDataOut > 1 then Some (Some ''multi-op-return'') else Some None))"

definition eval_ctx :: "crypto_env \<Rightarrow> script_ctx" where
  "eval_ctx env = \<lparr> sc_flags = 0, sc_checker = BaseSignatureChecker, sc_ripemd160 = cy_ripemd160 env, sc_sha1 = cy_sha1 env,
     sc_sha256 = cy_sha256 env, sc_CheckLowS = cy_CheckLowS env \<rparr>"

fun inputs_standard_loop :: "crypto_env \<Rightarrow> 'v view_ops \<Rightarrow> 'v CCoinsViewCache \<Rightarrow> CTxIn list \<Rightarrow> 'v CCoinsViewCache \<times> bool option" where
  "inputs_standard_loop env B view [] = (view, Some True)"
| "inputs_standard_loop env B view (i # is) =
     (case GetOutputFor B view i of
        (view', None) \<Rightarrow> (view', None)
      | (view', Some prev) \<Rightarrow>
          (case Solver (txout_scriptPubKey prev) of
             (False, _) \<Rightarrow> (view', Some False)
           | (True, whichType, _) \<Rightarrow>
               if whichType = TX_SCRIPTHASH then
                 (case EvalScript (eval_ctx env) [] (txin_scriptSig i) of
                    Inl _ \<Rightarrow> (view', Some False)
                  | Inr stack \<Rightarrow>
                      if stack = [] then (view', Some False)
                      else if GetSigOpCount (hd stack) True > MAX_P2SH_SIGOPS then (view', Some False)
                      else inputs_standard_loop env B view' is)
               else inputs_standard_loop env B view' is))"

definition AreInputsStandard :: "crypto_env \<Rightarrow> 'v view_ops \<Rightarrow> CTransaction \<Rightarrow> 'v CCoinsViewCache \<Rightarrow> 'v CCoinsViewCache \<times> bool option" where
  "AreInputsStandard env B tx view = (if IsCoinBase tx then (view, Some True) else inputs_standard_loop env B view (tx_vin tx))"

definition SignalsOptInRBF :: "CTransaction \<Rightarrow> bool" where
  "SignalsOptInRBF tx \<longleftrightarrow> list_ex (\<lambda>i. txin_nSequence i < 0xffffffff - 1) (tx_vin tx)"

end
