(* ===== verification/Mempool_Accept.thy ===== *)
theory Mempool_Accept
  imports Mempool_Limit Standard
begin

text \<open>
  Accepting a loose transaction into the pool: \<open>AcceptToMemoryPool\<close> with its worker and \<open>LimitMempoolSize\<close> of
  src/src/main.cpp, the view of coins through the pool of src/src/txmempool.cpp, and \<open>IsRBFOptIn\<close> of
  src/src/policy/rbf.cpp.

  The worker is a sequence of stages, one function for each; a stage ends with a result or with a rejection.  What the
  worker reads of the node is the record \<open>accept_env\<close>: the settings, the active chain, what InstantSend answers, and the
  decisions that are made with floating-point numbers (the rolling minimum fee, the priority that allows a free
  transaction, and the limiter of free transactions).  The address and spent indexes, the
  notifications of wallets and the log are left out, and so is the debug message of a chain that is too long.
\<close>

subsection \<open>Coins through the pool\<close>

definition mempool_view_GetCoins :: "CTxMemPool \<Rightarrow> 'v view_ops \<Rightarrow> 'v CCoinsViewCache \<Rightarrow> uint256 \<Rightarrow> 'v CCoinsViewCache \<times> CCoins option" where
  "mempool_view_GetCoins mp B base txid =
     (case lookup_tx mp txid of
        Some tx \<Rightarrow> (base, Some (FromTx tx MEMPOOL_HEIGHT))
      | None \<Rightarrow>
          (case cache_GetCoins B base txid of
             (base', Some coins) \<Rightarrow> (base', if IsPruned coins then None else Some coins)
           | (base', None) \<Rightarrow> (base', None)))"

text \<open>The other functions of \<open>CCoinsViewMemPool\<close> go to its base.\<close>

definition mempool_view_ops :: "CTxMemPool \<Rightarrow> 'v view_ops \<Rightarrow> 'v CCoinsViewCache view_ops" where
  "mempool_view_ops mp B =
     \<lparr> vo_GetCoins = mempool_view_GetCoins mp B, vo_GetBestBlock = cache_GetBestBlock B, vo_BatchWrite = cache_BatchWrite \<rparr>"

text \<open>The empty view \<open>CCoinsView\<close>, and \<open>SetBackend\<close>, which keeps what a cache has read.\<close>

definition dummy_ops :: "unit view_ops" where
  "dummy_ops = \<lparr> vo_GetCoins = \<lambda>v txid. (v, None), vo_GetBestBlock = \<lambda>v. (v, 0), vo_BatchWrite = \<lambda>v mapCoins hashBlock. (v, False) \<rparr>"

definition SetBackend :: "'w \<Rightarrow> 'v CCoinsViewCache \<Rightarrow> 'w CCoinsViewCache" where
  "SetBackend viewIn view = \<lparr> cv_base = viewIn, cv_hashBlock = cv_hashBlock view, cv_cacheCoins = cv_cacheCoins view \<rparr>"

subsection \<open>The environment\<close>

definition REJECT_INSUFFICIENTFEE :: nat where "REJECT_INSUFFICIENTFEE = 0x42"
definition REJECT_HIGHFEE :: nat where "REJECT_HIGHFEE = 0x100"
definition REJECT_ALREADY_KNOWN :: nat where "REJECT_ALREADY_KNOWN = 0x101"
definition REJECT_CONFLICT :: nat where "REJECT_CONFLICT = 0x102"

definition STANDARD_LOCKTIME_VERIFY_FLAGS :: int where
  "STANDARD_LOCKTIME_VERIFY_FLAGS = push_bit LOCKTIME_VERIFY_SEQUENCE 1 OR push_bit LOCKTIME_MEDIAN_TIME_PAST 1"

record accept_env =
  ac_crypto :: crypto_env
  ac_policy :: policy
  ac_fRequireStandard :: bool
  ac_csv_active :: bool
  ac_chainActive :: CChain
  ac_mapBlockIndex :: "uint256 \<Rightarrow> CBlockIndex option"
  ac_GetTime :: int
  ac_GetAdjustedTime :: int
  ac_HasTxLockRequest :: "uint256 \<Rightarrow> bool"
  ac_lock_request_valid :: "CTransaction \<Rightarrow> bool"
  ac_GetLockedOutPointTxHash :: "COutPoint \<Rightarrow> uint256 option"
  ac_fEnableReplacement :: bool
  ac_nBytesPerSigOp :: nat
  ac_GetMinFee :: "CTxMemPool \<Rightarrow> CFeeRate"
  ac_relaypriority :: bool
  ac_AllowFree :: "CTxMemPoolEntry \<Rightarrow> bool"
  ac_rate_limited :: bool
  ac_limits :: ancestor_limits
  ac_tx_usage :: "CTransaction \<Rightarrow> int"
  ac_worst :: "CTxMemPool \<Rightarrow> txiter"
  ac_entry_size :: nat
  ac_maxmempool :: int
  ac_mempoolexpiry :: int

text \<open>The flags of a call.\<close>

record accept_flags =
  af_fLimitFree :: bool
  af_fOverrideMempoolLimit :: bool
  af_fRejectAbsurdFee :: bool
  af_fDryRun :: bool

text \<open>How a stage stops: an assertion failed, or the transaction is rejected; the flag is \<open>*pfMissingInputs\<close>.\<close>

datatype accept_stop = accept_assert | accept_reject bool CValidationState

definition need :: "'a option \<Rightarrow> accept_stop + 'a" where
  "need x = (case x of None \<Rightarrow> Inl accept_assert | Some y \<Rightarrow> Inr y)"

definition no_tx :: "CValidationState \<Rightarrow> int \<Rightarrow> nat \<Rightarrow> string \<Rightarrow> accept_stop + 'a" where
  "no_tx st level code reason = Inl (accept_reject False (DoS st level code reason False []))"

definition checked :: "check_result \<Rightarrow> accept_stop + CValidationState" where
  "checked r = (case r of (ok, st) \<Rightarrow> if ok then Inr st else Inl (accept_reject False st))"

subsection \<open>Checks without coins\<close>

fun locked_by_other :: "accept_env \<Rightarrow> uint256 \<Rightarrow> CTxIn list \<Rightarrow> bool" where
  "locked_by_other env hash [] = False"
| "locked_by_other env hash (i # is) =
     (case ac_GetLockedOutPointTxHash env (txin_prevout i) of
        Some hashLocked \<Rightarrow> if hash \<noteq> hashLocked then True else locked_by_other env hash is
      | None \<Rightarrow> locked_by_other env hash is)"

text \<open>The transactions of the pool that spend one of the inputs.\<close>

fun find_conflicts :: "accept_env \<Rightarrow> CTxMemPool \<Rightarrow> uint256 \<Rightarrow> CValidationState \<Rightarrow> CTxIn list \<Rightarrow> setEntries \<Rightarrow> accept_stop + setEntries" where
  "find_conflicts env mp hash st [] setConflicts = Inr setConflicts"
| "find_conflicts env mp hash st (i # is) setConflicts =
     (case next_tx mp (txin_prevout i) of
        None \<Rightarrow> find_conflicts env mp hash st is setConflicts
      | Some c \<Rightarrow>
          if c \<in> set setConflicts then find_conflicts env mp hash st is setConflicts
          else if ac_HasTxLockRequest env c then no_tx st 0 REJECT_INVALID ''tx-txlockreq-mempool-conflict''
          else if ac_HasTxLockRequest env hash then no_tx st 0 REJECT_INVALID ''txlockreq-tx-mempool-conflict''
          else bindE (need (lookup_tx mp c)) (\<lambda>ptxConflicting.
            let fReplacementOptOut = \<not> (ac_fEnableReplacement env \<and> SignalsOptInRBF ptxConflicting) in
            if fReplacementOptOut then no_tx st 0 REJECT_CONFLICT ''txn-mempool-conflict''
            else find_conflicts env mp hash st is (entries_insert c setConflicts)))"

definition accept_precheck :: "accept_env \<Rightarrow> CTxMemPool \<Rightarrow> CTransaction \<Rightarrow> CValidationState \<Rightarrow> accept_stop + CValidationState \<times> setEntries" where
  "accept_precheck env mp tx st0 =
     bindE (checked (CheckTransaction tx st0)) (\<lambda>st.
       if IsCoinBase tx then no_tx st 100 REJECT_INVALID ''coinbase''
       else if ac_fRequireStandard env \<and> tx_nVersion tx \<ge> 2 \<and> \<not> ac_csv_active env
         then no_tx st 0 REJECT_NONSTANDARD ''premature-version2-tx''
       else bindE (if ac_fRequireStandard env then need (IsStandardTx (ac_policy env) tx) else Inr None) (\<lambda>reason.
         case reason of
           Some r \<Rightarrow> no_tx st 0 REJECT_NONSTANDARD r
         | None \<Rightarrow>
             bindE (need (CheckFinalTx (ac_chainActive env) (ac_GetAdjustedTime env) tx STANDARD_LOCKTIME_VERIFY_FLAGS)) (\<lambda>final.
               let hash = tx_GetHash (cy_Hash (ac_crypto env)) tx in
               if \<not> final then no_tx st 0 REJECT_NONSTANDARD ''non-final''
               else if exists_tx mp hash then no_tx st 0 REJECT_ALREADY_KNOWN ''txn-already-in-mempool''
               else if ac_HasTxLockRequest env hash \<and> \<not> ac_lock_request_valid env tx then no_tx st 10 REJECT_INVALID ''bad-txlockrequest''
               else if locked_by_other env hash (tx_vin tx) then no_tx st 10 REJECT_INVALID ''tx-txlock-conflict''
               else bindE (find_conflicts env mp hash st (tx_vin tx) []) (\<lambda>setConflicts. Inr (st, setConflicts)))))"

subsection \<open>Reading the coins\<close>

text \<open>The loop over the inputs: the view, the transactions that were not in \<open>pcoinsTip\<close> yet, and whether all exist.\<close>

fun inputs_exist_loop :: "CTxMemPool \<Rightarrow> 'v view_ops \<Rightarrow> 'v CCoinsViewCache CCoinsViewCache \<Rightarrow> CTxIn list \<Rightarrow> uint256 list \<Rightarrow>
    'v CCoinsViewCache CCoinsViewCache \<times> uint256 list \<times> bool" where
  "inputs_exist_loop mp B view [] toUncache = (view, toUncache, True)"
| "inputs_exist_loop mp B view (i # is) toUncache =
     (let h = prev_hash (txin_prevout i);
          toUncache' = (if \<not> HaveCoinsInCache (cv_base view) h then toUncache @ [h] else toUncache) in
      case HaveCoins (mempool_view_ops mp B) view h of
        (view', False) \<Rightarrow> (view', toUncache', False)
      | (view', True) \<Rightarrow> inputs_exist_loop mp B view' is toUncache')"

text \<open>The result: \<open>pcoinsTip\<close>, which the reads fill, the transactions to forget again, and the view on the dummy with the
  value of the inputs and the lock points.  All coins that \<open>CheckSequenceLocks\<close> reads are in \<open>pcoinsTip\<close> by then.\<close>

definition accept_coins :: "accept_env \<Rightarrow> 'v view_ops \<Rightarrow> CTxMemPool \<Rightarrow> 'v CCoinsViewCache \<Rightarrow> CTransaction \<Rightarrow> CValidationState \<Rightarrow>
    'v CCoinsViewCache \<times> uint256 list \<times> (accept_stop + unit CCoinsViewCache \<times> CAmount \<times> LockPoints)" where
  "accept_coins env B mp tip tx st =
     (let M = mempool_view_ops mp B; hash = tx_GetHash (cy_Hash (ac_crypto env)) tx;
          fHadTxInCache = HaveCoinsInCache tip hash;
          (view1, known) = HaveCoins M (new_cache tip) hash in
      if known then (cv_base view1, if fHadTxInCache then [] else [hash], no_tx st 0 REJECT_ALREADY_KNOWN ''txn-already-known'')
      else let (view2, toUncache, found) = inputs_exist_loop mp B view1 (tx_vin tx) [] in
        if \<not> found then (cv_base view2, toUncache, Inl (accept_reject True st))
        else let (view3, available) = HaveInputs M view2 tx in
          if \<not> available then (cv_base view3, toUncache, no_tx st 0 REJECT_DUPLICATE ''bad-txns-inputs-spent'')
          else let (view4, _) = cache_GetBestBlock M view3; (view5, nValueIn) = GetValueIn M view4 tx; tip' = cv_base view5 in
            (tip', toUncache,
             bindE (need nValueIn) (\<lambda>n.
               bindE (need (CheckSequenceLocks (ac_chainActive env) (\<lambda>t. snd (cache_GetCoins B tip' t)) mp tx STANDARD_LOCKTIME_VERIFY_FLAGS
                        \<lparr> lp_height = 0, lp_time = 0, lp_maxInputBlock = None \<rparr> False)) (\<lambda>(ok, lp).
                 if \<not> ok then no_tx st 0 REJECT_NONSTANDARD ''non-BIP68-final''
                 else Inr (SetBackend () view5, n, lp)))))"

subsection \<open>The entry and its fee\<close>

text \<open>The part of \<open>GetPriority\<close> that is not a floating-point number: the value of the inputs that are in the chain.\<close>

fun in_chain_loop :: "'v view_ops \<Rightarrow> int \<Rightarrow> 'v CCoinsViewCache \<Rightarrow> CTxIn list \<Rightarrow> CAmount \<Rightarrow> 'v CCoinsViewCache \<times> CAmount option" where
  "in_chain_loop B nHeight view [] inChainInputValue = (view, Some inChainInputValue)"
| "in_chain_loop B nHeight view (i # is) inChainInputValue =
     (case AccessCoins B view (prev_hash (txin_prevout i)) of
        (view', None) \<Rightarrow> (view', None)
      | (view', Some coins) \<Rightarrow>
          (let n = unat (prev_n (txin_prevout i)) in
           if IsAvailable coins n \<and> cc_nHeight coins \<le> nHeight
           then (case i64 (inChainInputValue + txout_nValue (cc_vout coins ! n)) of
                   None \<Rightarrow> (view', None)
                 | Some v \<Rightarrow> in_chain_loop B nHeight view' is v)
           else in_chain_loop B nHeight view' is inChainInputValue))"

definition GetPriority_value :: "'v view_ops \<Rightarrow> 'v CCoinsViewCache \<Rightarrow> CTransaction \<Rightarrow> int \<Rightarrow> 'v CCoinsViewCache \<times> CAmount option" where
  "GetPriority_value B view tx nHeight = (if IsCoinBase tx then (view, Some 0) else in_chain_loop B nHeight view (tx_vin tx) 0)"

fun spends_coinbase_loop :: "'v view_ops \<Rightarrow> 'v CCoinsViewCache \<Rightarrow> CTxIn list \<Rightarrow> 'v CCoinsViewCache \<times> bool option" where
  "spends_coinbase_loop B view [] = (view, Some False)"
| "spends_coinbase_loop B view (i # is) =
     (case AccessCoins B view (prev_hash (txin_prevout i)) of
        (view', None) \<Rightarrow> (view', None)
      | (view', Some coins) \<Rightarrow> if cc_fCoinBase coins then (view', Some True) else spends_coinbase_loop B view' is)"

definition lift_view :: "'v \<times> 'a option \<Rightarrow> accept_stop + 'v \<times> 'a" where
  "lift_view r = (case r of (v, None) \<Rightarrow> Inl accept_assert | (v, Some x) \<Rightarrow> Inr (v, x))"

text \<open>The entry, its fee and its fee with the delta of \<open>PrioritiseTransaction\<close>.\<close>

definition accept_entry :: "accept_env \<Rightarrow> CTxMemPool \<Rightarrow> CTransaction \<Rightarrow> CValidationState \<Rightarrow> unit CCoinsViewCache \<times> CAmount \<times> LockPoints \<Rightarrow>
    accept_stop + unit CCoinsViewCache \<times> CTxMemPoolEntry \<times> CAmount \<times> CAmount" where
  "accept_entry env mp tx st = (\<lambda>(view0, nValueIn, lp).
     bindE (if ac_fRequireStandard env then lift_view (AreInputsStandard (ac_crypto env) dummy_ops tx view0) else Inr (view0, True)) (\<lambda>(view1, std).
       if \<not> std then no_tx st 0 REJECT_NONSTANDARD ''bad-txns-nonstandard-inputs''
       else bindE (lift_view (GetP2SHSigOpCount dummy_ops view1 tx)) (\<lambda>(view2, nP2SH).
         let nSigOps = GetLegacySigOpCount tx + nP2SH in
         case GetValueOut tx of
           Inl _ \<Rightarrow> Inl accept_assert
         | Inr nValueOut \<Rightarrow>
             (let nFees = nValueIn - nValueOut; nHeight = chain_Height (ac_chainActive env);
                  nModifiedFees = ApplyDeltas mp (tx_GetHash (cy_Hash (ac_crypto env)) tx) nFees in
              bindE (lift_view (GetPriority_value dummy_ops view2 tx nHeight)) (\<lambda>(view3, inChainInputValue).
                bindE (lift_view (spends_coinbase_loop dummy_ops view3 (tx_vin tx))) (\<lambda>(view4, fSpendsCoinbase).
                  bindE (need (CTxMemPoolEntry_of tx nFees (ac_GetTime env) (nat nHeight) (HasNoInputsOf mp (tx_vin tx)) inChainInputValue
                           fSpendsCoinbase nSigOps lp (ac_tx_usage env tx))) (\<lambda>e.
                    let nSize = nat (me_nTxSize e) in
                    if nSigOps > MAX_STANDARD_TX_SIGOPS \<or> (ac_nBytesPerSigOp env \<noteq> 0 \<and> nSigOps > nSize div ac_nBytesPerSigOp env)
                    then Inl (accept_reject False (DoS st 0 REJECT_NONSTANDARD ''bad-txns-too-many-sigops'' False (print_d (int nSigOps))))
                    else Inr (view4, e, nFees, nModifiedFees))))))))"

text \<open>The fee policies.\<close>

definition accept_fees :: "accept_env \<Rightarrow> accept_flags \<Rightarrow> CTxMemPool \<Rightarrow> CValidationState \<Rightarrow> CTxMemPoolEntry \<Rightarrow> CAmount \<Rightarrow> CAmount \<Rightarrow>
    accept_stop + unit" where
  "accept_fees env fl mp st e nFees nModifiedFees =
     (let nSize = nat (me_nTxSize e); relay_fee = need (GetFee (po_minRelayTxFee (ac_policy env)) nSize) in
      bindE (need (GetFee (ac_GetMinFee env mp) nSize)) (\<lambda>mempoolRejectFee.
        if mempoolRejectFee > 0 \<and> nModifiedFees < mempoolRejectFee
        then Inl (accept_reject False (DoS st 0 REJECT_INSUFFICIENTFEE ''mempool min fee not met'' False
               (print_d nFees @ '' < '' @ print_d mempoolRejectFee)))
        else bindE (if ac_relaypriority env then map_sum id (\<lambda>f. nModifiedFees < f) relay_fee else Inr False) (\<lambda>low.
          if low \<and> \<not> ac_AllowFree env e then no_tx st 0 REJECT_INSUFFICIENTFEE ''insufficient priority''
          else bindE (if af_fLimitFree fl then map_sum id (\<lambda>f. nModifiedFees < f) relay_fee else Inr False) (\<lambda>free.
            if free \<and> ac_rate_limited env then no_tx st 0 REJECT_INSUFFICIENTFEE ''rate limited free transaction''
            else bindE (if af_fRejectAbsurdFee fl then bindE relay_fee (\<lambda>f. need (i64 (f * 10000))) else Inr nFees) (\<lambda>absurd.
              if nFees > absurd
              then Inl (accept_reject False (Invalid st REJECT_HIGHFEE ''absurdly-high-fee'' (print_d nFees @ '' > '' @ print_d absurd)))
              else Inr ())))))"

subsection \<open>Ancestors and replacement\<close>

text \<open>The conflicts in the order of their hashes: those found, the transactions that they spend, and the number of their
  descendants.\<close>

fun conflicts_loop :: "CTxMemPool \<Rightarrow> CValidationState \<Rightarrow> CFeeRate \<Rightarrow> txiter list \<Rightarrow> setEntries \<Rightarrow> uint256 set \<Rightarrow> int \<Rightarrow>
    accept_stop + setEntries \<times> uint256 set \<times> int" where
  "conflicts_loop mp st newFeeRate [] setIter parents n = Inr (setIter, parents, n)"
| "conflicts_loop mp st newFeeRate (h # hs) setIter parents n =
     (case entry mp h of
        None \<Rightarrow> conflicts_loop mp st newFeeRate hs setIter parents n
      | Some mi \<Rightarrow>
          if IsDirty mi then no_tx st 0 REJECT_NONSTANDARD ''too many potential replacements''
          else bindE (need (CFeeRate_paid (GetModifiedFee mi) (nat (me_nTxSize mi)))) (\<lambda>oldFeeRate.
            if nSatoshisPerK newFeeRate \<le> nSatoshisPerK oldFeeRate then no_tx st 0 REJECT_INSUFFICIENTFEE ''insufficient fee''
            else conflicts_loop mp st newFeeRate hs (entries_insert h setIter)
                   (parents \<union> (\<lambda>i. prev_hash (txin_prevout i)) ` set (tx_vin (me_tx mi))) (wrap64 (n + me_nCountWithDescendants mi))))"

definition maxDescendantsToVisit :: int where "maxDescendantsToVisit = 100"

text \<open>The result: the entries to evict.\<close>

definition accept_replacement :: "accept_env \<Rightarrow> CTxMemPool \<Rightarrow> CTransaction \<Rightarrow> CValidationState \<Rightarrow> CTxMemPoolEntry \<Rightarrow> CAmount \<Rightarrow> setEntries \<Rightarrow>
    accept_stop + setEntries" where
  "accept_replacement env mp tx st e nModifiedFees setConflicts =
     (if setConflicts = [] then Inr []
      else let nSize = nat (me_nTxSize e) in
        bindE (need (CFeeRate_paid nModifiedFees nSize)) (\<lambda>newFeeRate.
          bindE (conflicts_loop mp st newFeeRate setConflicts [] {} 0) (\<lambda>(setIterConflicting, setConflictsParents, nConflictingCount).
            if nConflictingCount > maxDescendantsToVisit then no_tx st 0 REJECT_NONSTANDARD ''too many potential replacements''
            else bindE (need (each (CalculateDescendants mp) setIterConflicting [])) (\<lambda>allConflicting.
              let nConflictingFees = sum_list (map (\<lambda>h. GetModifiedFee (the (entry mp h))) allConflicting) in
              if list_ex (\<lambda>i. prev_hash (txin_prevout i) \<notin> setConflictsParents \<and> exists_tx mp (prev_hash (txin_prevout i))) (tx_vin tx)
              then no_tx st 0 REJECT_NONSTANDARD ''replacement-adds-unconfirmed''
              else if nModifiedFees < nConflictingFees then no_tx st 0 REJECT_INSUFFICIENTFEE ''insufficient fee''
              else bindE (need (GetFee (po_minRelayTxFee (ac_policy env)) nSize)) (\<lambda>relay_fee.
                if nModifiedFees - nConflictingFees < relay_fee then no_tx st 0 REJECT_INSUFFICIENTFEE ''insufficient fee''
                else Inr allConflicting)))))"

definition accept_ancestors :: "accept_env \<Rightarrow> CTxMemPool \<Rightarrow> CValidationState \<Rightarrow> CTxMemPoolEntry \<Rightarrow> setEntries \<Rightarrow> accept_stop + setEntries" where
  "accept_ancestors env mp st e setConflicts =
     bindE (need (CalculateMemPoolAncestors mp (ac_limits env) e None)) (\<lambda>r.
       case r of
         Inl _ \<Rightarrow> no_tx st 0 REJECT_NONSTANDARD ''too-long-mempool-chain''
       | Inr setAncestors \<Rightarrow>
           if list_ex (\<lambda>a. a \<in> set setConflicts) setAncestors then no_tx st 10 REJECT_INVALID ''bad-txns-spends-conflicting-tx''
           else Inr setAncestors)"

subsection \<open>Scripts\<close>

definition accept_script_pass :: "accept_env \<Rightarrow> CTransaction \<Rightarrow> u32 \<Rightarrow> CValidationState \<Rightarrow> unit CCoinsViewCache \<Rightarrow>
    accept_stop + unit CCoinsViewCache \<times> CValidationState" where
  "accept_script_pass env tx flags st view =
     bindE (lift_view (GetSpendHeight (ac_mapBlockIndex env) dummy_ops view)) (\<lambda>(view1, nSpendHeight).
       bindE (lift_view (CheckInputs (ac_crypto env) dummy_ops view1 tx st nSpendHeight True flags False)) (\<lambda>(view2, r, vChecks).
         map_sum id (\<lambda>st'. (view2, st')) (checked r)))"

definition accept_scripts :: "accept_env \<Rightarrow> CTransaction \<Rightarrow> CValidationState \<Rightarrow> unit CCoinsViewCache \<Rightarrow> accept_stop + CValidationState" where
  "accept_scripts env tx st view =
     bindE (accept_script_pass env tx STANDARD_SCRIPT_VERIFY_FLAGS st view) (\<lambda>(view', st').
       map_sum id snd (accept_script_pass env tx MANDATORY_SCRIPT_VERIFY_FLAGS st' view'))"

subsection \<open>Changing the pool\<close>

definition LimitMempoolSize :: "(CTxMemPool \<Rightarrow> txiter) \<Rightarrow> nat \<Rightarrow> int \<Rightarrow> int \<Rightarrow> int \<Rightarrow> CTxMemPool \<Rightarrow> 'v CCoinsViewCache \<Rightarrow>
    (CTxMemPool \<times> 'v CCoinsViewCache) option" where
  "LimitMempoolSize worst entry_size now limit age mp tip =
     (case Expire (now - age) mp of
        None \<Rightarrow> None
      | Some (mp1, expired) \<Rightarrow>
          map_option (\<lambda>(mp2, vNoSpendsRemaining). (mp2, fold (\<lambda>removed t. Uncache t removed) vNoSpendsRemaining tip))
            (TrimToSize (length (mp_mapTx mp1)) worst entry_size limit mp1 []))"

definition accept_commit :: "accept_env \<Rightarrow> accept_flags \<Rightarrow> CTxMemPool \<Rightarrow> 'v CCoinsViewCache \<Rightarrow> CTransaction \<Rightarrow> CTxMemPoolEntry \<Rightarrow> setEntries \<Rightarrow>
    setEntries \<Rightarrow> (CTxMemPool \<times> 'v CCoinsViewCache) option" where
  "accept_commit env fl mp tip tx e setAncestors allConflicting =
     (let H = cy_Hash (ac_crypto env) in
      Option.bind (RemoveStaged allConflicting mp) (\<lambda>mp1.
        Option.bind (addUnchecked H (tx_GetHash H tx) e setAncestors mp1) (\<lambda>mp2.
          if af_fOverrideMempoolLimit fl then Some (mp2, tip)
          else LimitMempoolSize (ac_worst env) (ac_entry_size env) (ac_GetTime env) (ac_maxmempool env) (ac_mempoolexpiry env) mp2 tip)))"

subsection \<open>The worker\<close>

record 'v accept_result =
  ar_accepted :: bool
  ar_pool :: CTxMemPool
  ar_tip :: "'v CCoinsViewCache"
  ar_state :: CValidationState
  ar_missing :: bool

text \<open>All stages before the scripts, as far as they only read; the result is the validation state, the view, the entry, its
  ancestors and the entries to evict.\<close>

definition accept_checks :: "accept_env \<Rightarrow> accept_flags \<Rightarrow> CTxMemPool \<Rightarrow> CTransaction \<Rightarrow> CValidationState \<Rightarrow> setEntries \<Rightarrow>
    unit CCoinsViewCache \<times> CAmount \<times> LockPoints \<Rightarrow> accept_stop + unit CCoinsViewCache \<times> CTxMemPoolEntry \<times> setEntries \<times> setEntries" where
  "accept_checks env fl mp tx st setConflicts coins =
     bindE (accept_entry env mp tx st coins) (\<lambda>(view, e, nFees, nModifiedFees).
       bindE (accept_fees env fl mp st e nFees nModifiedFees) (\<lambda>_.
         bindE (accept_ancestors env mp st e setConflicts) (\<lambda>setAncestors.
           bindE (accept_replacement env mp tx st e nModifiedFees setConflicts) (\<lambda>allConflicting.
             Inr (view, e, setAncestors, allConflicting)))))"

text \<open>What is left of the pool and of \<open>pcoinsTip\<close> when a stage stopped.\<close>

definition accept_stopped :: "CTxMemPool \<Rightarrow> 'v CCoinsViewCache \<Rightarrow> uint256 list \<Rightarrow> accept_stop \<Rightarrow> ('v accept_result \<times> uint256 list) option" where
  "accept_stopped mp tip toUncache stop =
     (case stop of
        accept_assert \<Rightarrow> None
      | accept_reject missing st \<Rightarrow>
          Some (\<lparr> ar_accepted = False, ar_pool = mp, ar_tip = tip, ar_state = st, ar_missing = missing \<rparr>, toUncache))"

definition AcceptToMemoryPoolWorker :: "accept_env \<Rightarrow> 'v view_ops \<Rightarrow> accept_flags \<Rightarrow> CTransaction \<Rightarrow> CValidationState \<Rightarrow> CTxMemPool \<Rightarrow>
    'v CCoinsViewCache \<Rightarrow> ('v accept_result \<times> uint256 list) option" where
  "AcceptToMemoryPoolWorker env B fl tx st0 mp tip =
     (case accept_precheck env mp tx st0 of
        Inl stop \<Rightarrow> accept_stopped mp tip [] stop
      | Inr (st, setConflicts) \<Rightarrow>
          (case accept_coins env B mp tip tx st of
             (tip', toUncache, Inl stop) \<Rightarrow> accept_stopped mp tip' toUncache stop
           | (tip', toUncache, Inr coins) \<Rightarrow>
               (case accept_checks env fl mp tx st setConflicts coins of
                  Inl stop \<Rightarrow> accept_stopped mp tip' toUncache stop
                | Inr (view, e, setAncestors, allConflicting) \<Rightarrow>
                    if af_fDryRun fl
                    then Some (\<lparr> ar_accepted = True, ar_pool = mp, ar_tip = tip', ar_state = st, ar_missing = False \<rparr>, toUncache)
                    else (case accept_scripts env tx st view of
                        Inl stop \<Rightarrow> accept_stopped mp tip' toUncache stop
                      | Inr st' \<Rightarrow>
                          map_option (\<lambda>(mp', tip'').
                              let full = \<not> af_fOverrideMempoolLimit fl \<and> \<not> exists_tx mp' (tx_GetHash (cy_Hash (ac_crypto env)) tx) in
                              (\<lparr> ar_accepted = \<not> full, ar_pool = mp', ar_tip = tip'',
                                 ar_state = (if full then DoS st' 0 REJECT_INSUFFICIENTFEE ''mempool full'' False [] else st'),
                                 ar_missing = False \<rparr>, toUncache))
                            (accept_commit env fl mp tip' tx e setAncestors allConflicting)))))"

definition AcceptToMemoryPool :: "accept_env \<Rightarrow> 'v view_ops \<Rightarrow> accept_flags \<Rightarrow> CTransaction \<Rightarrow> CValidationState \<Rightarrow> CTxMemPool \<Rightarrow>
    'v CCoinsViewCache \<Rightarrow> 'v accept_result option" where
  "AcceptToMemoryPool env B fl tx st mp tip =
     map_option (\<lambda>(r, vHashTxToUncache).
         if \<not> ar_accepted r \<or> af_fDryRun fl then r\<lparr> ar_tip := fold (\<lambda>hashTx t. Uncache t hashTx) vHashTxToUncache (ar_tip r) \<rparr> else r)
       (AcceptToMemoryPoolWorker env B fl tx st mp tip)"

subsection \<open>Opting in to replacement\<close>

text \<open>\<open>Inl\<close> is the exception for a transaction that is not in the pool.  The search has no limits, so that it cannot be cut
  short.\<close>

definition IsRBFOptIn :: "(byte list \<Rightarrow> uint256) \<Rightarrow> CTxMemPoolEntry \<Rightarrow> CTxMemPool \<Rightarrow> (string + bool) option" where
  "IsRBFOptIn H e pool =
     (let hash = tx_GetHash H (me_tx e) in
      if SignalsOptInRBF (me_tx e) then Some (Inr True)
      else if \<not> exists_tx pool hash then Some (Inl (''Cannot determine RBF opt-in signal for non-mempool transaction'' @ [CHR 0x0A]))
      else case CalculateMemPoolAncestors pool no_limits e (Some hash) of
        None \<Rightarrow> None
      | Some (Inl _) \<Rightarrow> Some (Inr False)
      | Some (Inr setAncestors) \<Rightarrow> Some (Inr (list_ex (\<lambda>it. SignalsOptInRBF (me_tx (the (entry pool it)))) setAncestors)))"

end
