(* ===== verification/Mempool_Props.thy ===== *)
theory Mempool_Props
  imports Mempool
begin

text \<open>
  The invariant of the pool, and the two searches through its links.

  \<open>L\<close> is the relation of the links, from parent to child.  Outside a reorganisation it is the relation \<open>spends\<close> between the
  transactions of the pool; while the transactions of a disconnected block come back, links from them to older entries are
  missing, so that the invariant has the relation as a parameter.
\<close>

subsection \<open>Sorted sets and maps\<close>

definition ent_ok :: "setEntries \<Rightarrow> bool" where
  "ent_ok s \<longleftrightarrow> sorted (map ser_uint256 s) \<and> distinct s"

lemma ent_ok_Nil [simp]: "ent_ok []" by (simp add: ent_ok_def)

lemma ent_ok_single [simp]: "ent_ok [x]" by (simp add: ent_ok_def)

lemma inj_ser_uint256: "inj ser_uint256" by (simp add: inj_def ser_uint256_inject)

lemma set_entries_insert [simp]: "set (entries_insert x s) = insert x (set s)"
  unfolding entries_insert_def insort_insert_key_def
  using ser_uint256_inject by (auto simp: set_insort_key)

lemma ent_ok_insert [simp]: "ent_ok s \<Longrightarrow> ent_ok (entries_insert x s)"
  unfolding entries_insert_def insort_insert_key_def ent_ok_def
  by (auto simp: sorted_insort_key distinct_insort)

lemma set_entries_erase [simp]: "set (entries_erase x s) = set s - {x}"
  by (auto simp: entries_erase_def)

lemma ent_ok_erase [simp]: "ent_ok s \<Longrightarrow> ent_ok (entries_erase x s)"
  unfolding entries_erase_def ent_ok_def by (auto intro: sorted_filter)

lemma ent_ok_length: "ent_ok s \<Longrightarrow> length s = card (set s)"
  by (simp add: ent_ok_def distinct_card)

lemma ent_ok_distinct: "ent_ok s \<Longrightarrow> distinct s"
  by (simp add: ent_ok_def)

lemma length_entries_insert: "ent_ok s \<Longrightarrow> x \<notin> set s \<Longrightarrow> length (entries_insert x s) = Suc (length s)"
  using ent_ok_length [OF ent_ok_insert, of s x] ent_ok_length [of s] by simp

lemma length_entries_erase: "ent_ok s \<Longrightarrow> x \<in> set s \<Longrightarrow> length s = Suc (length (entries_erase x s))"
  using ent_ok_length [OF ent_ok_erase, of s x] ent_ok_length [of s] card_Suc_Diff1 [of "set s" x] by simp

lemma ent_ok_eq: "ent_ok s \<Longrightarrow> ent_ok t \<Longrightarrow> set s = set t \<Longrightarrow> s = t"
  unfolding ent_ok_def
  by (rule map_injective [of ser_uint256], rule sorted_distinct_set_unique)
    (auto simp: distinct_map inj_ser_uint256 intro: inj_on_subset [OF inj_ser_uint256])

lemma keys_map_insert: "fst ` set (map_insert f k v m) = insert k (fst ` set m)"
  by (auto simp: map_insert_def set_insort_key image_iff)

lemma map_of_insort: "k \<notin> fst ` set m \<Longrightarrow> map_of (insort_key g (k, v) m) = (map_of m)(k \<mapsto> v)"
  by (induction m) (auto simp: fun_eq_iff)

lemma map_of_map_insert: "k \<notin> fst ` set m \<Longrightarrow> map_of (map_insert f k v m) = (map_of m)(k \<mapsto> v)"
  by (simp add: map_insert_def map_of_insort)

lemma map_insert_present: "k \<in> fst ` set m \<Longrightarrow> map_insert f k v m = m"
  by (simp add: map_insert_def)

lemma map_of_map_erase: "map_of (map_erase k m) = (map_of m)(k := None)"
  by (induction m) (auto simp: map_erase_def fun_eq_iff)

lemma keys_map_erase: "fst ` set (map_erase k m) = fst ` set m - {k}"
  by (auto simp: map_erase_def image_iff)

definition map_ok :: "('k \<Rightarrow> 'o::linorder) \<Rightarrow> ('k \<times> 'v) list \<Rightarrow> bool" where
  "map_ok f m \<longleftrightarrow> sorted (map (f \<circ> fst) m) \<and> distinct (map fst m)"

lemma map_ok_Nil [simp]: "map_ok f []" by (simp add: map_ok_def)

lemma distinct_fst_insort: "k \<notin> fst ` set m \<Longrightarrow> distinct (map fst m) \<Longrightarrow> distinct (map fst (insort_key g (k, v) m))"
  by (induction m) (auto simp: set_insort_key)

lemma map_ok_insert: "map_ok f m \<Longrightarrow> map_ok f (map_insert f k v m)"
  by (auto simp: map_ok_def map_insert_def sorted_insort_key distinct_fst_insort)

lemma map_ok_erase: "map_ok f m \<Longrightarrow> map_ok f (map_erase k m)"
  unfolding map_ok_def map_erase_def by (auto simp: distinct_map_filter sorted_filter)

lemma dom_entry: "dom (map_of m) = fst ` set m" by (rule dom_map_of_conv_image_fst)

subsection \<open>The invariant\<close>

definition keys :: "CTxMemPool \<Rightarrow> txiter set" where
  "keys mp = fst ` set (mp_mapTx mp)"

lemma finite_keys [simp]: "finite (keys mp)" by (simp add: keys_def)

lemma keys_entry: "h \<in> keys mp \<longleftrightarrow> (\<exists>e. entry mp h = Some e)"
  using map_of_eq_None_iff [of "mp_mapTx mp" h] by (auto simp: keys_def)

lemma exists_keys: "exists_tx mp h \<longleftrightarrow> h \<in> keys mp"
  by (auto simp: exists_tx_def keys_entry)

lemma card_keys: "map_ok f (mp_mapTx mp) \<Longrightarrow> card (keys mp) = length (mp_mapTx mp)"
  unfolding keys_def map_ok_def using distinct_card [of "map fst (mp_mapTx mp)"] by simp

definition ent :: "CTxMemPool \<Rightarrow> txiter \<Rightarrow> CTxMemPoolEntry" where
  "ent mp h = the (entry mp h)"

lemma entry_ent: "h \<in> keys mp \<Longrightarrow> entry mp h = Some (ent mp h)"
  by (auto simp: keys_entry ent_def)

definition outpoints :: "CTxMemPoolEntry \<Rightarrow> COutPoint set" where
  "outpoints e = txin_prevout ` set (tx_vin (me_tx e))"

definition parent_ids :: "CTxMemPoolEntry \<Rightarrow> uint256 set" where
  "parent_ids e = prev_hash ` outpoints e"

text \<open>The parent relation between the transactions of the pool.\<close>

definition spends :: "CTxMemPool \<Rightarrow> (txiter \<times> txiter) set" where
  "spends mp = {(p, c). p \<in> keys mp \<and> c \<in> keys mp \<and> p \<in> parent_ids (ent mp c)}"

text \<open>The links follow one relation for the parents and one for the children, which differ while entries are removed.\<close>

definition links_ok :: "CTxMemPool \<Rightarrow> (txiter \<times> txiter) set \<Rightarrow> (txiter \<times> txiter) set \<Rightarrow> bool" where
  "links_ok mp P C \<longleftrightarrow> dom (mp_mapLinks mp) = keys mp
     \<and> (\<forall>h l. mp_mapLinks mp h = Some l \<longrightarrow> ent_ok (lk_parents l) \<and> ent_ok (lk_children l)
          \<and> set (lk_parents l) = {p. (p, h) \<in> P} \<and> set (lk_children l) = {c. (h, c) \<in> C})"

definition sum_size :: "CTxMemPool \<Rightarrow> txiter set \<Rightarrow> int" where
  "sum_size mp D = (\<Sum>d\<in>D. me_nTxSize (ent mp d))"

definition sum_fee :: "CTxMemPool \<Rightarrow> txiter set \<Rightarrow> int" where
  "sum_fee mp D = (\<Sum>d\<in>D. GetModifiedFee (ent mp d))"

text \<open>The totals of an entry are those of its set of descendants, unless it is dirty.\<close>

definition totals_of :: "CTxMemPool \<Rightarrow> txiter set \<Rightarrow> CTxMemPoolEntry \<Rightarrow> bool" where
  "totals_of mp D e \<longleftrightarrow>
     (if IsDirty e then me_nSizeWithDescendants e = me_nTxSize e \<and> me_nModFeesWithDescendants e = GetModifiedFee e
      else me_nCountWithDescendants e = int (card D) \<and> me_nSizeWithDescendants e = sum_size mp D
        \<and> me_nModFeesWithDescendants e = sum_fee mp D)"

definition totals_ok :: "CTxMemPool \<Rightarrow> (txiter \<Rightarrow> txiter set) \<Rightarrow> bool" where
  "totals_ok mp D \<longleftrightarrow> (\<forall>h\<in>keys mp. totals_of mp (D h) (ent mp h))"

definition pool_entries_ok :: "(byte list \<Rightarrow> uint256) \<Rightarrow> CTxMemPool \<Rightarrow> bool" where
  "pool_entries_ok H mp \<longleftrightarrow> map_ok ser_uint256 (mp_mapTx mp)
     \<and> (\<forall>h\<in>keys mp. tx_GetHash H (me_tx (ent mp h)) = h \<and> 0 < me_nTxSize (ent mp h))
     \<and> mp_totalTxSize mp = sum_size mp (keys mp) \<and> mp_totalTxSize mp < 2 ^ 63"

text \<open>Every outpoint that an entry spends leads to that entry, so that no two entries spend the same one.\<close>

definition next_ok :: "CTxMemPool \<Rightarrow> bool" where
  "next_ok mp \<longleftrightarrow> map_ok id (mp_mapNextTx mp)
     \<and> (\<forall>p h. next_tx mp p = Some h \<longleftrightarrow> h \<in> keys mp \<and> p \<in> outpoints (ent mp h))"

definition links_usage :: "TxLinks \<Rightarrow> int" where
  "links_usage l = set_usage (lk_parents l) + set_usage (lk_children l)"

definition usage_ok :: "CTxMemPool \<Rightarrow> bool" where
  "usage_ok mp \<longleftrightarrow> mp_cachedInnerUsage mp = (\<Sum>h\<in>keys mp. me_nUsageSize (ent mp h) + links_usage (links_at mp h))"

definition pool_inv :: "(byte list \<Rightarrow> uint256) \<Rightarrow> (txiter \<times> txiter) set \<Rightarrow> CTxMemPool \<Rightarrow> bool" where
  "pool_inv H L mp \<longleftrightarrow> pool_entries_ok H mp \<and> links_ok mp L L \<and> L \<subseteq> spends mp \<and> acyclic L
     \<and> totals_ok mp (\<lambda>h. L\<^sup>* `` {h}) \<and> next_ok mp \<and> usage_ok mp"

text \<open>Outside a reorganisation every parent in the pool is linked.\<close>

definition pool_ok :: "(byte list \<Rightarrow> uint256) \<Rightarrow> CTxMemPool \<Rightarrow> bool" where
  "pool_ok H mp \<longleftrightarrow> pool_inv H (spends mp) mp"

lemma pool_invD:
  assumes "pool_inv H L mp"
  shows "pool_entries_ok H mp" "links_ok mp L L" "L \<subseteq> spends mp" "acyclic L" "totals_ok mp (\<lambda>h. L\<^sup>* `` {h})" "next_ok mp" "usage_ok mp"
  using assms by (simp_all add: pool_inv_def)

lemma links_okD:
  assumes "links_ok mp P C" "h \<in> keys mp"
  obtains l where "mp_mapLinks mp h = Some l" "links_at mp h = l" "ent_ok (lk_parents l)" "ent_ok (lk_children l)"
    "set (lk_parents l) = {p. (p, h) \<in> P}" "set (lk_children l) = {c. (h, c) \<in> C}"
proof -
  have "h \<in> dom (mp_mapLinks mp)" using assms by (simp add: links_ok_def)
  then obtain l where l: "mp_mapLinks mp h = Some l" by blast
  moreover have "links_at mp h = l" using l by (simp add: links_at_def)
  ultimately show thesis using that assms(1) unfolding links_ok_def by blast
qed

lemma GetMemPoolParents_ok:
  assumes "links_ok mp P C" "h \<in> keys mp"
  obtains s where "GetMemPoolParents mp h = Some s" "ent_ok s" "set s = {p. (p, h) \<in> P}"
  using assms by (rule links_okD) (auto simp: GetMemPoolParents_def intro: that)

lemma GetMemPoolChildren_ok:
  assumes "links_ok mp P C" "h \<in> keys mp"
  obtains s where "GetMemPoolChildren mp h = Some s" "ent_ok s" "set s = {c. (h, c) \<in> C}"
  using assms by (rule links_okD) (auto simp: GetMemPoolChildren_def intro: that)

lemma spends_keys: "spends mp \<subseteq> keys mp \<times> keys mp"
  by (auto simp: spends_def)

lemma rtrancl_keys:
  assumes "L \<subseteq> K \<times> K" "(a, b) \<in> L\<^sup>*" "a \<in> K \<or> b \<in> K"
  shows "a \<in> K \<and> b \<in> K"
proof -
  have "a = b \<or> (a \<in> K \<and> b \<in> K)"
    using assms(2) by (induction rule: rtrancl_induct) (use assms(1) in auto)
  then show ?thesis using assms(3) by blast
qed

subsection \<open>Bounds\<close>

lemma sum_size_mono:
  assumes "pool_entries_ok H mp" "D \<subseteq> E" "E \<subseteq> keys mp"
  shows "sum_size mp D \<le> sum_size mp E"
  unfolding sum_size_def
  by (rule sum_mono2) (use assms in \<open>auto simp: pool_entries_ok_def less_imp_le intro: finite_subset [OF _ finite_keys]\<close>)

lemma sum_size_bounds:
  assumes "pool_entries_ok H mp" "D \<subseteq> keys mp"
  shows "int (card D) \<le> sum_size mp D" "sum_size mp D < 2 ^ 63" "0 \<le> sum_size mp D"
proof -
  have "(\<Sum>d\<in>D. 1) \<le> sum_size mp D"
    unfolding sum_size_def by (rule sum_mono) (use assms in \<open>force simp: pool_entries_ok_def\<close>)
  then show 1: "int (card D) \<le> sum_size mp D" by simp
  show "sum_size mp D < 2 ^ 63"
    using sum_size_mono [OF assms(1) assms(2) order_refl] assms(1) by (simp add: pool_entries_ok_def)
  show "0 \<le> sum_size mp D" using 1 by linarith
qed

lemma wrap64_id: "0 \<le> x \<Longrightarrow> x < 2 ^ 64 \<Longrightarrow> wrap64 x = x"
  by (simp add: wrap64_def)

lemma totals_bounds:
  assumes "pool_entries_ok H mp" "totals_ok mp D" "\<And>h. h \<in> keys mp \<Longrightarrow> D h \<subseteq> keys mp" "h \<in> keys mp"
  shows "0 \<le> me_nSizeWithDescendants (ent mp h)" "me_nSizeWithDescendants (ent mp h) < 2 ^ 63"
    "0 \<le> me_nCountWithDescendants (ent mp h)" "me_nCountWithDescendants (ent mp h) < 2 ^ 63"
proof -
  have t: "totals_of mp (D h) (ent mp h)" using assms(2,4) by (simp add: totals_ok_def)
  have s: "sum_size mp {h} = me_nTxSize (ent mp h)" by (simp add: sum_size_def)
  note b = sum_size_bounds [OF assms(1) assms(3) [OF assms(4)]] sum_size_bounds [OF assms(1), of "{h}"]
  show "0 \<le> me_nSizeWithDescendants (ent mp h)" "me_nSizeWithDescendants (ent mp h) < 2 ^ 63"
    "0 \<le> me_nCountWithDescendants (ent mp h)" "me_nCountWithDescendants (ent mp h) < 2 ^ 63"
    using t b s assms(4) unfolding totals_of_def IsDirty_def by (auto split: if_splits)
qed

subsection \<open>Ancestors\<close>

definition count_ok :: "ancestor_limits \<Rightarrow> nat \<Rightarrow> bool" where
  "count_ok lims n \<longleftrightarrow> int n + 1 \<le> limitAncestorCount lims"

text \<open>The limits hold for a transaction of the given size whose ancestors are \<open>U\<close>.\<close>

definition descendant_limits :: "CTxMemPool \<Rightarrow> ancestor_limits \<Rightarrow> int \<Rightarrow> txiter \<Rightarrow> bool" where
  "descendant_limits mp lims txSize a \<longleftrightarrow> me_nSizeWithDescendants (ent mp a) + txSize \<le> limitDescendantSize lims
     \<and> me_nCountWithDescendants (ent mp a) + 1 \<le> limitDescendantCount lims"

definition within_limits :: "CTxMemPool \<Rightarrow> ancestor_limits \<Rightarrow> int \<Rightarrow> txiter set \<Rightarrow> bool" where
  "within_limits mp lims txSize U \<longleftrightarrow> (\<forall>a\<in>U. descendant_limits mp lims txSize a)
     \<and> (U \<noteq> {} \<longrightarrow> txSize + sum_size mp U \<le> limitAncestorSize lims \<and> count_ok lims (card U))"

lemma add_parents_spec:
  assumes "ent_ok ph" "card (set ph \<union> (set ps - set anc)) + length anc < 2 ^ 63"
  shows "case add_parents lims anc ps ph of
      Inr ph' \<Rightarrow> ent_ok ph' \<and> set ph' = set ph \<union> (set ps - set anc) \<and> (ps \<noteq> [] \<longrightarrow> count_ok lims (card (set ph') + length anc))
    | Inl _ \<Rightarrow> \<not> count_ok lims (card (set ph \<union> (set ps - set anc)) + length anc)"
  using assms
proof (induction ps arbitrary: ph)
  case Nil
  then show ?case by simp
next
  case (Cons p ps)
  define ph' where "ph' = (if p \<in> set anc then ph else entries_insert p ph)"
  have ok: "ent_ok ph'" using Cons.prems(1) by (simp add: ph'_def)
  have st: "set ph' \<union> (set ps - set anc) = set ph \<union> (set (p # ps) - set anc)" by (auto simp: ph'_def)
  have le: "length ph' \<le> card (set ph \<union> (set (p # ps) - set anc))"
    unfolding ent_ok_length [OF ok] st [symmetric] by (rule card_mono) auto
  then have w: "wrap64 (int (length ph') + int (length anc) + 1) = int (length ph') + int (length anc) + 1"
    using Cons.prems(2) by (intro wrap64_id) auto
  show ?case
  proof (cases "int (length ph') + int (length anc) + 1 > limitAncestorCount lims")
    case True
    then have "add_parents lims anc (p # ps) ph = Inl too_many_ancestors" by (simp add: ph'_def [symmetric] w Let_def)
    moreover have "\<not> count_ok lims (card (set ph \<union> (set (p # ps) - set anc)) + length anc)"
      using True le by (simp add: count_ok_def)
    ultimately show ?thesis by simp
  next
    case False
    then have "add_parents lims anc (p # ps) ph = add_parents lims anc ps ph'" by (simp add: ph'_def [symmetric] w Let_def)
    moreover have "count_ok lims (card (set ph') + length anc)" using False by (simp add: count_ok_def ent_ok_length [OF ok])
    ultimately show ?thesis
      using Cons.IH [OF ok, unfolded st, OF Cons.prems(2)] by (cases "ps = []") (auto split: sum.splits)
  qed
qed

text \<open>What the loop relies on while it runs: \<open>anc\<close> are the ancestors that were visited, \<open>ph\<close> those that wait.\<close>

definition ancestor_inv :: "CTxMemPool \<Rightarrow> (txiter \<times> txiter) set \<Rightarrow> ancestor_limits \<Rightarrow> int \<Rightarrow> txiter set \<Rightarrow> setEntries \<Rightarrow> setEntries \<Rightarrow> bool" where
  "ancestor_inv mp P lims txSize U ph anc \<longleftrightarrow> ent_ok ph \<and> ent_ok anc \<and> set ph \<inter> set anc = {} \<and> set ph \<union> set anc \<subseteq> U
     \<and> (\<forall>a\<in>set anc. {p. (p, a) \<in> P} \<subseteq> set ph \<union> set anc) \<and> U \<subseteq> {a. \<exists>x\<in>set ph \<union> set anc. (a, x) \<in> P\<^sup>*}
     \<and> (set ph \<union> set anc \<noteq> {} \<longrightarrow> count_ok lims (card (set ph \<union> set anc)))
     \<and> (\<forall>a\<in>set anc. descendant_limits mp lims txSize a)
     \<and> (set anc \<noteq> {} \<longrightarrow> txSize + sum_size mp (set anc) \<le> limitAncestorSize lims)"

lemma ancestor_inv_done:
  assumes "ancestor_inv mp P lims txSize U [] anc"
  shows "ent_ok anc \<and> set anc = U \<and> within_limits mp lims txSize U"
proof -
  have cl: "a \<in> set anc" if "(a, x) \<in> P\<^sup>*" "x \<in> set anc" for a x
    using that by (induction rule: converse_rtrancl_induct) (use assms in \<open>auto simp: ancestor_inv_def\<close>)
  then have "set anc = U" using assms unfolding ancestor_inv_def by auto
  then show ?thesis using assms unfolding ancestor_inv_def within_limits_def by auto
qed

lemma check_limits_iff:
  assumes "0 \<le> me_nSizeWithDescendants (ent mp a)" "me_nSizeWithDescendants (ent mp a) < 2 ^ 63"
    "0 \<le> me_nCountWithDescendants (ent mp a)" "me_nCountWithDescendants (ent mp a) < 2 ^ 63" "0 \<le> txSize" "txSize < 2 ^ 63"
  shows "check_limits lims txSize tot a (ent mp a) = None \<longleftrightarrow> descendant_limits mp lims txSize a \<and> tot \<le> limitAncestorSize lims"
  using assms by (simp add: check_limits_def descendant_limits_def wrap64_id not_less)

text \<open>The totals of the entries are small enough for the comparisons of the search.\<close>

definition bounded :: "CTxMemPool \<Rightarrow> bool" where
  "bounded mp \<longleftrightarrow> (\<forall>h\<in>keys mp. 0 \<le> me_nSizeWithDescendants (ent mp h) \<and> me_nSizeWithDescendants (ent mp h) < 2 ^ 63
     \<and> 0 \<le> me_nCountWithDescendants (ent mp h) \<and> me_nCountWithDescendants (ent mp h) < 2 ^ 63)"

lemma bounded_totals:
  assumes "pool_entries_ok H mp" "totals_ok mp D" "\<And>h. h \<in> keys mp \<Longrightarrow> D h \<subseteq> keys mp"
  shows "bounded mp"
  unfolding bounded_def using totals_bounds [OF assms] by blast

text \<open>What the search relies on; \<open>U\<close> is the set of ancestors.\<close>

definition searchable :: "(byte list \<Rightarrow> uint256) \<Rightarrow> CTxMemPool \<Rightarrow> (txiter \<times> txiter) set \<Rightarrow> (txiter \<times> txiter) set \<Rightarrow> int \<Rightarrow> txiter set \<Rightarrow> bool" where
  "searchable H mp P C txSize U \<longleftrightarrow> pool_entries_ok H mp \<and> links_ok mp P C \<and> P \<subseteq> keys mp \<times> keys mp \<and> bounded mp
     \<and> 0 \<le> txSize \<and> txSize < 2 ^ 63 \<and> U \<subseteq> keys mp \<and> (\<forall>a\<in>U. {p. (p, a) \<in> P} \<subseteq> U)"

lemma searchableD:
  assumes "searchable H mp P C txSize U"
  shows "pool_entries_ok H mp" "links_ok mp P C" "0 \<le> txSize" "txSize < 2 ^ 63" "U \<subseteq> keys mp"
    "\<And>a p. a \<in> U \<Longrightarrow> (p, a) \<in> P \<Longrightarrow> p \<in> U" "bounded mp"
  using assms unfolding searchable_def by blast+

lemma card_ancestors: "searchable H mp P C txSize U \<Longrightarrow> A \<subseteq> U \<Longrightarrow> card A < 2 ^ 63"
  using sum_size_bounds [of H mp A] searchableD(1,5) [of H mp P C txSize U] by fastforce

lemma size_ancestors:
  assumes "searchable H mp P C txSize U" "A \<subseteq> U"
  shows "0 \<le> txSize + sum_size mp A \<and> txSize + sum_size mp A < 2 ^ 64 \<and> sum_size mp A \<le> sum_size mp U"
proof -
  note s = searchableD [OF assms(1)]
  show ?thesis
    using sum_size_bounds [OF s(1) order_trans [OF assms(2) s(5)]] s(3,4) sum_size_mono [OF s(1) assms(2) s(5)] by simp
qed

lemma check_limits_searchable:
  assumes "searchable H mp P C txSize U" "a \<in> keys mp"
  shows "check_limits lims txSize tot a (ent mp a) = None \<longleftrightarrow> descendant_limits mp lims txSize a \<and> tot \<le> limitAncestorSize lims"
  by (rule check_limits_iff) (use searchableD [OF assms(1)] assms(2) in \<open>simp_all add: bounded_def\<close>)

lemma ancestor_step:
  assumes srch: "searchable H mp P C txSize U"
    and inv: "ancestor_inv mp P lims txSize U (a # ph) anc" and tot: "tot = txSize + sum_size mp (set anc)"
  shows "(\<exists>ph' anc'. ancestor_loop (Suc k) mp lims txSize (a # ph) anc tot
            = ancestor_loop k mp lims txSize ph' anc' (txSize + sum_size mp (set anc'))
          \<and> ancestor_inv mp P lims txSize U ph' anc' \<and> card (set anc') = Suc (card (set anc)))
     \<or> (\<exists>err. ancestor_loop (Suc k) mp lims txSize (a # ph) anc tot = Some (Inl err) \<and> \<not> within_limits mp lims txSize U)"
proof -
  note sd = searchableD [OF srch]
  note U_keys = sd(5) and U_closed = sd(6) and links = sd(2) and size_U = size_ancestors [OF srch] and card_U = card_ancestors [OF srch]
    and check_iff = check_limits_searchable [OF srch]
  note i = inv [unfolded ancestor_inv_def]
  define anc' where "anc' = entries_insert a anc"
  define rest where "rest = entries_erase a (a # ph)"
  have aU: "a \<in> U" and a_anc: "a \<notin> set anc" using i by auto
  have aK: "a \<in> keys mp" using aU U_keys by blast
  obtain ps where ps: "GetMemPoolParents mp a = Some ps" "ent_ok ps" "set ps = {p. (p, a) \<in> P}"
    using GetMemPoolParents_ok [OF links aK] by blast
  have anc': "ent_ok anc'" "set anc' = insert a (set anc)" "set anc' \<subseteq> U" using i aU by (auto simp: anc'_def)
  have rest: "ent_ok rest" "set rest = set ph" using i by (auto simp: rest_def ent_ok_def entries_erase_def intro: sorted_filter)
  have sum': "sum_size mp (set anc') = sum_size mp (set anc) + me_nTxSize (ent mp a)"
    using a_anc by (simp add: anc'(2) sum_size_def)
  have tot': "wrap64 (tot + me_nTxSize (ent mp a)) = txSize + sum_size mp (set anc')"
    using size_U [OF anc'(3)] by (simp add: tot sum' [symmetric] wrap64_id add.assoc)
  note lim_iff = check_iff [OF aK, of lims "txSize + sum_size mp (set anc')"]
  let ?F = "set rest \<union> (set ps - set anc')"
  have F: "?F \<union> set anc' \<subseteq> U" using i anc'(2,3) rest(2) ps(3) U_closed [OF aU] by auto
  have disj: "?F \<inter> set anc' = {}" using i rest(2) anc'(2) by (auto simp: ent_ok_def)
  have cF: "card ?F + length anc' = card (?F \<union> set anc')"
    unfolding ent_ok_length [OF anc'(1)] using disj by (simp add: card_Un_disjoint)
  note ap = add_parents_spec [OF rest(1), of ps anc' lims, unfolded cF, OF card_U [OF F]]
  have loop: "ancestor_loop (Suc k) mp lims txSize (a # ph) anc tot =
      (case check_limits lims txSize (txSize + sum_size mp (set anc')) a (ent mp a) of
         Some err \<Rightarrow> Some (Inl err)
       | None \<Rightarrow> (case add_parents lims anc' ps rest of
             Inl err \<Rightarrow> Some (Inl err)
           | Inr ph' \<Rightarrow> ancestor_loop k mp lims txSize ph' anc' (txSize + sum_size mp (set anc'))))"
    unfolding rest_def by (simp add: entry_ent [OF aK] ps(1) tot' Let_def flip: anc'_def)
  show ?thesis
  proof (cases "check_limits lims txSize (txSize + sum_size mp (set anc')) a (ent mp a)")
    case (Some err)
    then have "\<not> (descendant_limits mp lims txSize a \<and> txSize + sum_size mp (set anc') \<le> limitAncestorSize lims)"
      using lim_iff by simp
    then have "\<not> within_limits mp lims txSize U"
      using aU size_U [OF anc'(3)] unfolding within_limits_def by fastforce
    then show ?thesis using loop Some by simp
  next
    case None
    note lim_a = lim_iff [THEN iffD1, OF None]
    show ?thesis
    proof (cases "add_parents lims anc' ps rest")
      case (Inl err)
      have "\<not> count_ok lims (card (?F \<union> set anc'))" using ap Inl cF by simp
      moreover have "card (?F \<union> set anc') \<le> card U"
        by (rule card_mono [OF _ F]) (rule finite_subset [OF U_keys], simp)
      ultimately have "\<not> count_ok lims (card U)" by (simp add: count_ok_def)
      then have "\<not> within_limits mp lims txSize U" using aU by (auto simp: within_limits_def)
      then show ?thesis using loop None Inl by simp
    next
      case (Inr ph')
      have ph': "ent_ok ph'" "set ph' = ?F" using ap Inr by simp_all
      have ps_cnt: "count_ok lims (card (?F \<union> set anc'))" if "ps \<noteq> []"
        using ap Inr that cF by (simp add: ph'(2))
      have sub: "set (a # ph) \<union> set anc \<subseteq> ?F \<union> set anc'" using rest(2) anc'(2) by auto
      have cnt: "count_ok lims (card (?F \<union> set anc'))"
      proof (cases "ps = []")
        case True
        then have "?F \<union> set anc' = set (a # ph) \<union> set anc" using rest(2) anc'(2) by auto
        then show ?thesis using i by simp
      qed (rule ps_cnt)
      have "ancestor_inv mp P lims txSize U ph' anc'"
        unfolding ancestor_inv_def ph'(2)
      proof (intro conjI)
        show "\<forall>x\<in>set anc'. {p. (p, x) \<in> P} \<subseteq> ?F \<union> set anc'" using i anc'(2) rest(2) ps(3) by auto
        show "U \<subseteq> {u. \<exists>x\<in>?F \<union> set anc'. (u, x) \<in> P\<^sup>*}" using i sub by blast
        show "\<forall>x\<in>set anc'. descendant_limits mp lims txSize x" using i anc'(2) lim_a by auto
      qed (use ph'(1) anc' disj F cnt lim_a in auto)
      moreover have "card (set anc') = Suc (card (set anc))" using a_anc by (simp add: anc'(2))
      ultimately show ?thesis using loop None Inr by auto
    qed
  qed
qed

lemma ancestor_loop_ok:
  assumes srch: "searchable H mp P C txSize U"
    and "ancestor_inv mp P lims txSize U ph anc" "card U \<le> k + card (set anc)" "tot = txSize + sum_size mp (set anc)"
  shows "case ancestor_loop k mp lims txSize ph anc tot of
      Some (Inr A) \<Rightarrow> ent_ok A \<and> set A = U \<and> within_limits mp lims txSize U
    | Some (Inl _) \<Rightarrow> \<not> within_limits mp lims txSize U
    | None \<Rightarrow> False"
  using assms(2-)
proof (induction k arbitrary: ph anc tot)
  case 0
  note U_keys = searchableD(5) [OF srch]
  have s: "set anc \<subseteq> U" "set ph \<subseteq> U" "set ph \<inter> set anc = {}" using 0(1) unfolding ancestor_inv_def by blast+
  have "set anc = U" by (rule card_seteq [OF finite_subset [OF U_keys finite_keys] s(1)]) (use 0(2) in simp)
  then have "ph = []" using s(2,3) by (cases ph) auto
  then show ?case using ancestor_inv_done 0(1) by simp
next
  case (Suc k)
  show ?case
  proof (cases ph)
    case Nil
    then show ?thesis using ancestor_inv_done Suc.prems(1) by simp
  next
    case (Cons a ph0)
    from ancestor_step [OF srch Suc.prems(1) [unfolded Cons] Suc.prems(3), of k] show ?thesis
    proof (elim disjE exE conjE, goal_cases)
      case (1 ph' anc')
      have "card U \<le> k + card (set anc')" using Suc.prems(2) 1(3) by linarith
      from Suc.IH [OF 1(2) this refl] show ?thesis unfolding Cons 1(1) .
    next
      case (2 err)
      then show ?thesis by (simp add: Cons)
    qed
  qed
qed


text \<open>All entries from which a link path leads into \<open>S\<close>.\<close>

definition ancestors_of :: "(txiter \<times> txiter) set \<Rightarrow> txiter set \<Rightarrow> txiter set" where
  "ancestors_of P S = (P\<inverse>)\<^sup>* `` S"

lemma ancestors_of_iff: "a \<in> ancestors_of P S \<longleftrightarrow> (\<exists>s\<in>S. (a, s) \<in> P\<^sup>*)"
  unfolding ancestors_of_def by (auto simp: rtrancl_converse)

lemma ancestors_of_subset: "S \<subseteq> ancestors_of P S"
  by (auto simp: ancestors_of_iff)

lemma ancestors_of_closed: "a \<in> ancestors_of P S \<Longrightarrow> (p, a) \<in> P \<Longrightarrow> p \<in> ancestors_of P S"
  by (meson ancestors_of_iff converse_rtrancl_into_rtrancl)

lemma ancestors_of_keys: "P \<subseteq> K \<times> K \<Longrightarrow> S \<subseteq> K \<Longrightarrow> ancestors_of P S \<subseteq> K"
  using rtrancl_keys [of P K] unfolding ancestors_of_iff subset_iff [of _ K] subset_iff [of S] by blast

lemma ancestors_of_empty [simp]: "ancestors_of P {} = {}"
  by (simp add: ancestors_of_def)

lemma ancestor_inv_start:
  "ent_ok ph \<Longrightarrow> (ph \<noteq> [] \<longrightarrow> count_ok lims (card (set ph))) \<Longrightarrow> ancestor_inv mp P lims txSize (ancestors_of P (set ph)) ph []"
  unfolding ancestor_inv_def by (auto simp: ancestors_of_iff)

lemma search_parents_spec:
  assumes "ent_ok ph" "set ph \<subseteq> keys mp" "card (keys mp) < 2 ^ 63" "ph \<noteq> [] \<longrightarrow> count_ok lims (card (set ph))"
  shows "case search_parents mp lims is ph of
      Inr ph' \<Rightarrow> ent_ok ph' \<and> set ph' = set ph \<union> ((\<lambda>i. prev_hash (txin_prevout i)) ` set is \<inter> keys mp)
        \<and> (ph' \<noteq> [] \<longrightarrow> count_ok lims (card (set ph')))
    | Inl _ \<Rightarrow> \<not> count_ok lims (card (set ph \<union> ((\<lambda>i. prev_hash (txin_prevout i)) ` set is \<inter> keys mp)))
        \<and> (\<lambda>i. prev_hash (txin_prevout i)) ` set is \<inter> keys mp \<noteq> {}"
  using assms
proof (induction "is" arbitrary: ph)
  case Nil
  then show ?case by auto
next
  case (Cons i is')
  let ?h = "prev_hash (txin_prevout i)"
  show ?case
  proof (cases "?h \<in> keys mp")
    case False
    then have "search_parents mp lims (i # is') ph = search_parents mp lims is' ph" by (simp add: exists_keys)
    moreover have "(\<lambda>i. prev_hash (txin_prevout i)) ` set (i # is') \<inter> keys mp = (\<lambda>i. prev_hash (txin_prevout i)) ` set is' \<inter> keys mp"
      using False by auto
    ultimately show ?thesis using Cons.IH [OF Cons.prems] by (simp only:)
  next
    case True
    define ph' where "ph' = entries_insert ?h ph"
    have ok: "ent_ok ph'" "set ph' \<subseteq> keys mp" "ph' \<noteq> []"
      using Cons.prems(1,2) True by (auto simp: ph'_def dest: arg_cong [of _ _ set])
    have len: "length ph' \<le> card (keys mp)"
      unfolding ent_ok_length [OF ok(1)] by (rule card_mono [OF finite_keys ok(2)])
    have w: "wrap64 (int (length ph') + 1) = int (length ph') + 1" using len Cons.prems(3) by (intro wrap64_id) auto
    let ?F = "set ph \<union> ((\<lambda>i. prev_hash (txin_prevout i)) ` set (i # is') \<inter> keys mp)"
    have F: "set ph' \<union> ((\<lambda>i. prev_hash (txin_prevout i)) ` set is' \<inter> keys mp) = ?F" using True by (auto simp: ph'_def)
    have loop: "search_parents mp lims (i # is') ph =
        (if \<not> count_ok lims (card (set ph')) then Inl too_many_parents else search_parents mp lims is' ph')"
      using True w by (simp add: exists_keys Let_def count_ok_def ent_ok_length [OF ok(1), symmetric] flip: ph'_def)
    show ?thesis
    proof (cases "count_ok lims (card (set ph'))")
      case False
      have "card (set ph') \<le> card ?F" by (rule card_mono) (use F in auto)
      then have "\<not> count_ok lims (card ?F)" using False by (simp add: count_ok_def)
      then show ?thesis using loop False True by auto
    next
      case ok': True
      note IH = Cons.IH [OF ok(1,2) Cons.prems(3) impI, OF ok', unfolded F]
      have ne: "(\<lambda>i. prev_hash (txin_prevout i)) ` set (i # is') \<inter> keys mp \<noteq> {}" using True by auto
      have eq: "search_parents mp lims (i # is') ph = search_parents mp lims is' ph'" using loop ok' by simp
      show ?thesis unfolding eq using IH ne by (cases "search_parents mp lims is' ph'"; simp only: sum.case; blast)
    qed
  qed
qed

lemma CalculateMemPoolAncestors_search:
  assumes "pool_entries_ok H mp" "links_ok mp P C" "P \<subseteq> keys mp \<times> keys mp" "bounded mp"
    and size: "0 \<le> me_nTxSize e" "me_nTxSize e < 2 ^ 63"
  defines "U \<equiv> ancestors_of P (parent_ids e \<inter> keys mp)"
  shows "case CalculateMemPoolAncestors mp lims e None of
      Some (Inr A) \<Rightarrow> ent_ok A \<and> set A = U \<and> within_limits mp lims (me_nTxSize e) U
    | Some (Inl _) \<Rightarrow> \<not> within_limits mp lims (me_nTxSize e) U
    | None \<Rightarrow> False"
proof -
  have U: "U \<subseteq> keys mp" unfolding U_def by (rule ancestors_of_keys [OF assms(3)]) blast
  have finU: "finite U" by (rule finite_subset [OF U finite_keys])
  have search: "searchable H mp P C (me_nTxSize e) U"
    unfolding searchable_def using assms(1-4) size U by (auto simp: U_def intro: ancestors_of_closed)
  have ids: "(\<lambda>i. prev_hash (txin_prevout i)) ` set (tx_vin (me_tx e)) = parent_ids e"
    by (auto simp: parent_ids_def outpoints_def)
  have c63: "card (keys mp) < 2 ^ 63" using sum_size_bounds [OF assms(1) order_refl] by simp
  have sp: "case search_parents mp lims (tx_vin (me_tx e)) [] of
      Inr ph \<Rightarrow> ent_ok ph \<and> set ph = parent_ids e \<inter> keys mp \<and> (ph \<noteq> [] \<longrightarrow> count_ok lims (card (set ph)))
    | Inl _ \<Rightarrow> \<not> count_ok lims (card (parent_ids e \<inter> keys mp)) \<and> parent_ids e \<inter> keys mp \<noteq> {}"
    by (rule search_parents_spec [of "[]" mp lims "tx_vin (me_tx e)", unfolded ids list.set Un_empty_left]) (use c63 in simp_all)
  have le: "card U \<le> length (mp_mapTx mp) + 1 + card (set ([] :: setEntries))"
    using card_mono [OF finite_keys U] assms(1) by (simp add: card_keys [of ser_uint256] pool_entries_ok_def)
  show ?thesis
  proof (cases "search_parents mp lims (tx_vin (me_tx e)) []")
    case (Inl err)
    have sub: "parent_ids e \<inter> keys mp \<subseteq> U" unfolding U_def by (rule ancestors_of_subset)
    have "card (parent_ids e \<inter> keys mp) \<le> card U" by (rule card_mono [OF finU sub])
    then have "\<not> within_limits mp lims (me_nTxSize e) U" using sp Inl sub by (auto simp: within_limits_def count_ok_def)
    then show ?thesis by (simp add: CalculateMemPoolAncestors_def Inl)
  next
    case (Inr ph)
    have ph: "ent_ok ph" "set ph = parent_ids e \<inter> keys mp" "ph \<noteq> [] \<longrightarrow> count_ok lims (card (set ph))"
      using sp [unfolded Inr sum.case] by blast+
    from ancestor_loop_ok [OF search ancestor_inv_start [OF ph(1,3), of mp P "me_nTxSize e", unfolded ph(2), folded U_def] le, of "me_nTxSize e"]
    show ?thesis by (simp add: CalculateMemPoolAncestors_def Inr sum_size_def)
  qed
qed

lemma within_no_limits:
  assumes "pool_entries_ok H mp" "bounded mp" "U \<subseteq> keys mp" "txSize < 2 ^ 63"
  shows "within_limits mp no_limits txSize U"
proof -
  have "descendant_limits mp no_limits txSize a" if "a \<in> U" for a
  proof -
    have "a \<in> keys mp" using that assms(3) by blast
    then show ?thesis using assms(2,4) by (force simp: bounded_def descendant_limits_def no_limits_def nNoLimit_def)
  qed
  moreover have "txSize + sum_size mp U \<le> nNoLimit" "count_ok no_limits (card U)"
    using sum_size_bounds [OF assms(1,3)] assms(4) by (simp_all add: nNoLimit_def count_ok_def no_limits_def)
  ultimately show ?thesis by (simp add: within_limits_def no_limits_def)
qed

lemma no_limits_count: "pool_entries_ok H mp \<Longrightarrow> S \<subseteq> keys mp \<Longrightarrow> count_ok no_limits (card S)"
  using sum_size_bounds [of H mp S] by (simp add: count_ok_def no_limits_def nNoLimit_def)

lemma CalculateMemPoolAncestors_self:
  assumes "pool_entries_ok H mp" "links_ok mp P C" "P \<subseteq> keys mp \<times> keys mp" "bounded mp"
    and h: "h \<in> keys mp"
  obtains A where "CalculateMemPoolAncestors mp no_limits (ent mp h) (Some h) = Some (Inr A)" "ent_ok A"
    "set A = ancestors_of P {p. (p, h) \<in> P}"
proof -
  define U where "U = ancestors_of P {p. (p, h) \<in> P}"
  have U: "U \<subseteq> keys mp" unfolding U_def by (rule ancestors_of_keys [OF assms(3)]) (use assms(3) in blast)
  have size: "0 \<le> me_nTxSize (ent mp h)" "me_nTxSize (ent mp h) < 2 ^ 63"
    using sum_size_bounds [OF assms(1), of "{h}"] h by (simp_all add: sum_size_def)
  have search: "searchable H mp P C (me_nTxSize (ent mp h)) U"
    unfolding searchable_def using assms(1-4) size U by (auto simp: U_def intro: ancestors_of_closed)
  obtain ph where ph: "GetMemPoolParents mp h = Some ph" "ent_ok ph" "set ph = {p. (p, h) \<in> P}"
    using GetMemPoolParents_ok [OF assms(2) h] by blast
  have cnt: "ph \<noteq> [] \<longrightarrow> count_ok no_limits (card (set ph))"
    using no_limits_count [OF assms(1), of "set ph"] ph(3) assms(3) by blast
  have le: "card U \<le> length (mp_mapTx mp) + 1 + card (set ([] :: setEntries))"
    using card_mono [OF finite_keys U] assms(1) by (simp add: card_keys [of ser_uint256] pool_entries_ok_def)
  have inv: "ancestor_inv mp P no_limits (me_nTxSize (ent mp h)) U ph []"
    using ancestor_inv_start [OF ph(2) cnt] unfolding ph(3) U_def .
  note r = ancestor_loop_ok [OF search inv le, of "me_nTxSize (ent mp h)"]
  have "within_limits mp no_limits (me_nTxSize (ent mp h)) U" by (rule within_no_limits [OF assms(1,4) U size(2)])
  then obtain A where "ancestor_loop (length (mp_mapTx mp) + 1) mp no_limits (me_nTxSize (ent mp h)) ph [] (me_nTxSize (ent mp h)) = Some (Inr A)"
      "ent_ok A" "set A = U"
    using r by (auto simp: sum_size_def split: option.splits sum.splits)
  then show thesis using that by (simp add: CalculateMemPoolAncestors_def ph(1) U_def)
qed

subsection \<open>Descendants\<close>

lemma add_children_spec:
  "ent_ok stage \<Longrightarrow> ent_ok (add_children D cs stage) \<and> set (add_children D cs stage) = set stage \<union> (set cs - set D)"
  unfolding add_children_def by (induction cs arbitrary: stage) auto

text \<open>Entries that are in the result already are assumed to have their descendants there.\<close>

lemma descendant_loop_ok:
  assumes "links_ok mp P C" "C \<subseteq> keys mp \<times> keys mp" "finite (keys mp)"
    and "ent_ok stage" "ent_ok D" "set stage \<inter> set D = {}" "set stage \<union> set D \<subseteq> keys mp"
    and "\<forall>d\<in>set D. {c. (d, c) \<in> C} \<subseteq> set stage \<union> set D" "card (keys mp) < k + card (set D) + 1"
  shows "\<exists>R. descendant_loop k mp stage D = Some R \<and> ent_ok R \<and> set R = C\<^sup>* `` (set stage \<union> set D)"
  using assms(4-)
proof (induction k arbitrary: stage D)
  case 0
  have "set D = keys mp" by (rule card_seteq [OF assms(3)]) (use 0(4,6) in auto)
  then have "stage = []" using 0(3,4) by (cases stage) auto
  moreover have "C\<^sup>* `` set D = set D"
    using 0(5) \<open>stage = []\<close> by (intro Image_closed_trancl) auto
  ultimately show ?case using 0(2) by simp
next
  case (Suc k)
  show ?case
  proof (cases stage)
    case Nil
    then have "C\<^sup>* `` set D = set D" using Suc.prems(5) by (intro Image_closed_trancl) auto
    then show ?thesis using Nil Suc.prems(2) by simp
  next
    case (Cons it rest)
    have it: "it \<in> keys mp" "it \<notin> set D" using Suc.prems(3,4) Cons by auto
    obtain cs where cs: "GetMemPoolChildren mp it = Some cs" "ent_ok cs" "set cs = {c. (it, c) \<in> C}"
      by (rule GetMemPoolChildren_ok [OF assms(1) it(1)])
    define D' where "D' = entries_insert it D"
    define st where "st = add_children D' cs (entries_erase it stage)"
    have ok: "ent_ok (entries_erase it stage)" "ent_ok D'" using Suc.prems(1,2) by (simp_all add: D'_def)
    have st: "ent_ok st" "set st = (set stage - {it}) \<union> (set cs - set D')"
      using add_children_spec [OF ok(1), of D' cs] by (simp_all add: st_def)
    have D': "set D' = insert it (set D)" by (simp add: D'_def)
    have un: "set st \<union> set D' = set stage \<union> set D \<union> {c. (it, c) \<in> C}" using st(2) D' cs(3) Cons by auto
    have "\<exists>R. descendant_loop k mp st D' = Some R \<and> ent_ok R \<and> set R = C\<^sup>* `` (set st \<union> set D')"
    proof (rule Suc.IH [OF st(1) ok(2)])
      show "set st \<inter> set D' = {}" using st(2) D' Suc.prems(3) by auto
      show "set st \<union> set D' \<subseteq> keys mp" unfolding un using Suc.prems(4) assms(2) by auto
      show "\<forall>d\<in>set D'. {c. (d, c) \<in> C} \<subseteq> set st \<union> set D'" unfolding un using Suc.prems(5) D' by auto
      show "card (keys mp) < k + card (set D') + 1" unfolding D' using Suc.prems(6) it(2) by simp
    qed
    moreover have "C\<^sup>* `` (set st \<union> set D') = C\<^sup>* `` (set stage \<union> set D)"
    proof -
      have "C\<^sup>* `` {c. (it, c) \<in> C} \<subseteq> C\<^sup>* `` (set stage \<union> set D)"
        unfolding Cons by (auto intro: converse_rtrancl_into_rtrancl)
      then show ?thesis unfolding un Image_Un by blast
    qed
    moreover have "descendant_loop (Suc k) mp stage D = descendant_loop k mp st D'"
      by (simp add: Cons cs(1) Let_def D'_def st_def)
    ultimately show ?thesis by simp
  qed
qed

lemma CalculateDescendants_ok:
  assumes "links_ok mp P C" "C \<subseteq> keys mp \<times> keys mp" "map_ok ser_uint256 (mp_mapTx mp)"
    and "ent_ok D" "set D \<subseteq> keys mp" "C `` set D \<subseteq> set D" "h \<in> keys mp"
  obtains R where "CalculateDescendants mp h D = Some R" "ent_ok R" "set R = set D \<union> C\<^sup>* `` {h}"
    "set R \<subseteq> keys mp" "C `` set R \<subseteq> set R"
proof -
  let ?st = "if h \<in> set D then [] else [h]"
  have "card (keys mp) < (length (mp_mapTx mp) + 1) + card (set D) + 1" using card_keys [OF assms(3)] by simp
  then obtain R where R: "CalculateDescendants mp h D = Some R" "ent_ok R" "set R = C\<^sup>* `` (set ?st \<union> set D)"
    using descendant_loop_ok [OF assms(1,2) finite_keys, of ?st D "length (mp_mapTx mp) + 1"] assms(4-7)
    unfolding CalculateDescendants_def by (cases "h \<in> set D") auto
  have D: "C\<^sup>* `` set D = set D" using assms(6) by (rule Image_closed_trancl)
  have "set R = set D \<union> C\<^sup>* `` {h}"
  proof (cases "h \<in> set D")
    case True
    then have "C\<^sup>* `` {h} \<subseteq> C\<^sup>* `` set D" by (intro Image_mono) auto
    then show ?thesis using R(3) True D by auto
  next
    case False
    then have "set ?st \<union> set D = {h} \<union> set D" by simp
    then show ?thesis unfolding R(3) by (simp only: Image_Un D) auto
  qed
  moreover have "set R \<subseteq> keys mp"
    using rtrancl_keys [OF assms(2)] assms(5,7) unfolding R(3) by (auto split: if_splits)
  moreover have "C `` set R \<subseteq> set R" unfolding R(3) by (auto intro: rtrancl_into_rtrancl)
  ultimately show thesis using that R(1,2) by blast
qed

end
