(* ===== verification/Mempool_Update.thy ===== *)
theory Mempool_Update
  imports Mempool_Props
begin

text \<open>
  Adding an entry to the pool and removing a set of entries keep the invariant: links, totals over descendants, spent
  outpoints, sizes and memory usage.
\<close>

subsection \<open>Changing totals\<close>

text \<open>What an update of the totals, or of the lock points, leaves alone.\<close>

definition static :: "CTxMemPoolEntry \<Rightarrow> CTxMemPoolEntry" where
  "static e = e\<lparr> me_nCountWithDescendants := 0, me_nSizeWithDescendants := 0, me_nModFeesWithDescendants := 0,
     me_lockPoints := \<lparr> lp_height = 0, lp_time = 0, lp_maxInputBlock = None \<rparr> \<rparr>"

lemma staticD:
  assumes "static e = static e'"
  shows "me_tx e = me_tx e'" "me_nTxSize e = me_nTxSize e'" "me_nUsageSize e = me_nUsageSize e'"
    "GetModifiedFee e = GetModifiedFee e'" "outpoints e = outpoints e'" "parent_ids e = parent_ids e'" "me_nTime e = me_nTime e'"
    "me_feeDelta e = me_feeDelta e'" "me_spendsCoinbase e = me_spendsCoinbase e'"
  using assms by (cases e; cases e'; simp add: static_def GetModifiedFee_def outpoints_def parent_ids_def)+

definition same_entries :: "CTxMemPool \<Rightarrow> CTxMemPool \<Rightarrow> bool" where
  "same_entries mp mp' \<longleftrightarrow> map fst (mp_mapTx mp') = map fst (mp_mapTx mp) \<and> (\<forall>h\<in>keys mp. static (ent mp' h) = static (ent mp h))"

lemma same_entries_keys: "same_entries mp mp' \<Longrightarrow> keys mp' = keys mp"
  unfolding same_entries_def keys_def by (metis set_map)

lemma same_entries_refl [simp]: "same_entries mp mp"
  by (simp add: same_entries_def)

lemma same_entries_trans: "same_entries mp mp' \<Longrightarrow> same_entries mp' mp'' \<Longrightarrow> same_entries mp mp''"
  using same_entries_keys [of mp mp'] by (simp add: same_entries_def)

lemma same_entries_map_ok: "same_entries mp mp' \<Longrightarrow> map_ok f (mp_mapTx mp') = map_ok f (mp_mapTx mp)"
  unfolding same_entries_def map_ok_def map_map [symmetric] by simp

lemma same_entries_sums:
  assumes "same_entries mp mp'" "D \<subseteq> keys mp"
  shows "sum_size mp' D = sum_size mp D" "sum_fee mp' D = sum_fee mp D"
proof -
  have "static (ent mp' d) = static (ent mp d)" if "d \<in> D" for d using assms that by (auto simp: same_entries_def)
  then show "sum_size mp' D = sum_size mp D" "sum_fee mp' D = sum_fee mp D"
    unfolding sum_size_def sum_fee_def by (auto intro!: sum.cong dest: staticD)
qed

lemma same_entries_spends: "same_entries mp mp' \<Longrightarrow> spends mp' = spends mp"
  unfolding spends_def same_entries_keys [of mp mp'] by (auto simp: same_entries_def dest: staticD)

lemma same_entries_inv:
  assumes "same_entries mp mp'"
  shows "mp_totalTxSize mp' = mp_totalTxSize mp \<Longrightarrow> pool_entries_ok H mp \<Longrightarrow> pool_entries_ok H mp'"
    and "mp_mapNextTx mp' = mp_mapNextTx mp \<Longrightarrow> next_ok mp \<Longrightarrow> next_ok mp'"
    and "mp_mapLinks mp' = mp_mapLinks mp \<Longrightarrow> links_ok mp P C \<Longrightarrow> links_ok mp' P C"
    and "mp_mapLinks mp' = mp_mapLinks mp \<Longrightarrow> mp_cachedInnerUsage mp' = mp_cachedInnerUsage mp \<Longrightarrow> usage_ok mp \<Longrightarrow> usage_ok mp'"
proof -
  note k = same_entries_keys [OF assms]
  have st: "static (ent mp' h) = static (ent mp h)" if "h \<in> keys mp" for h using assms that by (simp add: same_entries_def)
  note f = staticD [OF st]
  show "mp_totalTxSize mp' = mp_totalTxSize mp \<Longrightarrow> pool_entries_ok H mp \<Longrightarrow> pool_entries_ok H mp'"
    unfolding pool_entries_ok_def k same_entries_map_ok [OF assms] same_entries_sums(1) [OF assms order_refl] by (auto simp: f)
  show "mp_mapNextTx mp' = mp_mapNextTx mp \<Longrightarrow> next_ok mp \<Longrightarrow> next_ok mp'"
    unfolding next_ok_def k by (auto simp: f)
  show "mp_mapLinks mp' = mp_mapLinks mp \<Longrightarrow> links_ok mp P C \<Longrightarrow> links_ok mp' P C"
    unfolding links_ok_def k by auto
  show "mp_mapLinks mp' = mp_mapLinks mp \<Longrightarrow> mp_cachedInnerUsage mp' = mp_cachedInnerUsage mp \<Longrightarrow> usage_ok mp \<Longrightarrow> usage_ok mp'"
    unfolding usage_ok_def k links_at_def by (auto simp: f intro!: sum.cong)
qed

lemma map_of_replace:
  "map_of (map (\<lambda>(k, v). (k, if k = h then e' else v)) m) = (\<lambda>k. if k = h then map_option (\<lambda>_. e') (map_of m k) else map_of m k)"
  by (induction m) auto

lemma modify_entry_ok:
  assumes "h \<in> keys mp" "f (ent mp h) = Some e'"
  obtains m where "modify_entry h f mp = Some (mp\<lparr> mp_mapTx := m \<rparr>)" "map fst m = map fst (mp_mapTx mp)"
    "\<And>k. ent (mp\<lparr> mp_mapTx := m \<rparr>) k = (if k = h then e' else ent mp k)"
proof
  let ?m = "map (\<lambda>(k, v). (k, if k = h then e' else v)) (mp_mapTx mp)"
  show "modify_entry h f mp = Some (mp\<lparr> mp_mapTx := ?m \<rparr>)"
    using assms(2) by (simp add: modify_entry_def entry_ent [OF assms(1)])
  show "map fst ?m = map fst (mp_mapTx mp)" by (simp add: comp_def split_def)
  show "ent (mp\<lparr> mp_mapTx := ?m \<rparr>) k = (if k = h then e' else ent mp k)" for k
    using assms(1) unfolding keys_entry by (auto simp: ent_def map_of_replace)
qed

lemma keys_eqI: "map fst (mp_mapTx mp') = map fst (mp_mapTx mp) \<Longrightarrow> keys mp' = keys mp"
  unfolding keys_def by (metis set_map)

text \<open>The same update of all entries of a set.\<close>

lemma each_modify_entry:
  assumes "distinct A" "set A \<subseteq> keys mp" "\<And>a. a \<in> set A \<Longrightarrow> f (ent mp a) = Some (g a)"
  obtains m where "each (\<lambda>a. modify_entry a f) A mp = Some (mp\<lparr> mp_mapTx := m \<rparr>)" "map fst m = map fst (mp_mapTx mp)"
    "\<And>k. ent (mp\<lparr> mp_mapTx := m \<rparr>) k = (if k \<in> set A then g k else ent mp k)"
proof -
  have "\<exists>m. each (\<lambda>a. modify_entry a f) A mp = Some (mp\<lparr> mp_mapTx := m \<rparr>) \<and> map fst m = map fst (mp_mapTx mp)
    \<and> (\<forall>k. ent (mp\<lparr> mp_mapTx := m \<rparr>) k = (if k \<in> set A then g k else ent mp k))"
    using assms
  proof (induction A arbitrary: mp)
    case Nil
    then show ?case by (intro exI [of _ "mp_mapTx mp"]) simp
  next
    case (Cons a A)
    obtain m where m: "modify_entry a f mp = Some (mp\<lparr> mp_mapTx := m \<rparr>)" "map fst m = map fst (mp_mapTx mp)"
        "\<And>k. ent (mp\<lparr> mp_mapTx := m \<rparr>) k = (if k = a then g a else ent mp k)"
      by (rule modify_entry_ok [of a mp f "g a"]) (use Cons.prems in auto)
    have "\<exists>m'. each (\<lambda>a. modify_entry a f) A (mp\<lparr> mp_mapTx := m \<rparr>) = Some (mp\<lparr> mp_mapTx := m \<rparr>\<lparr> mp_mapTx := m' \<rparr>)
        \<and> map fst m' = map fst (mp_mapTx (mp\<lparr> mp_mapTx := m \<rparr>))
        \<and> (\<forall>k. ent (mp\<lparr> mp_mapTx := m \<rparr>\<lparr> mp_mapTx := m' \<rparr>) k = (if k \<in> set A then g k else ent (mp\<lparr> mp_mapTx := m \<rparr>) k))"
    proof (rule Cons.IH)
      show "set A \<subseteq> keys (mp\<lparr> mp_mapTx := m \<rparr>)" using Cons.prems(2) m(2) by (simp add: keys_eqI [of "mp\<lparr> mp_mapTx := m \<rparr>" mp])
      show "f (ent (mp\<lparr> mp_mapTx := m \<rparr>) b) = Some (g b)" if "b \<in> set A" for b using Cons.prems(1,3) that by (auto simp: m(3))
    qed (use Cons.prems in simp)
    then obtain m' where m': "each (\<lambda>a. modify_entry a f) A (mp\<lparr> mp_mapTx := m \<rparr>) = Some (mp\<lparr> mp_mapTx := m' \<rparr>)"
        "map fst m' = map fst m" "\<And>k. ent (mp\<lparr> mp_mapTx := m' \<rparr>) k = (if k \<in> set A then g k else ent (mp\<lparr> mp_mapTx := m \<rparr>) k)"
      by auto
    show ?case
      by (rule exI [of _ m']) (use m m' in auto)
  qed
  then show thesis using that by blast
qed

text \<open>The totals of the entries in \<open>A\<close> are moved from \<open>D\<close> to \<open>D'\<close> by one entry more or less.\<close>

lemma each_UpdateState:
  assumes "distinct A" "set A \<subseteq> keys mp" "map_ok ser_uint256 (mp_mapTx mp)"
    and t: "totals_ok mp D" and t': "\<And>a. a \<in> set A \<Longrightarrow> int (card (D' a)) = int (card (D a)) + c
      \<and> sum_size mp (D' a) = sum_size mp (D a) + s \<and> sum_fee mp (D' a) = sum_fee mp (D a) + fe
      \<and> positive_i64 (int (card (D' a))) \<and> positive_i64 (sum_size mp (D' a))"
    and keep: "\<And>h. h \<in> keys mp \<Longrightarrow> h \<notin> set A \<Longrightarrow> D' h = D h" and D': "\<And>h. h \<in> keys mp \<Longrightarrow> D' h \<subseteq> keys mp"
  obtains m where "each (\<lambda>a. modify_entry a (UpdateState s fe c)) A mp = Some (mp\<lparr> mp_mapTx := m \<rparr>)"
    "same_entries mp (mp\<lparr> mp_mapTx := m \<rparr>)" "totals_ok (mp\<lparr> mp_mapTx := m \<rparr>) D'"
proof -
  have pos: "\<exists>e'. UpdateState s fe c (ent mp a) = Some e' \<and> static e' = static (ent mp a) \<and> totals_of mp (D' a) e'"
    if a: "a \<in> set A" for a
  proof -
    have "totals_of mp (D a) (ent mp a)" using t a assms(2) by (auto simp: totals_ok_def)
    then show ?thesis
      using t' [OF a] unfolding totals_of_def UpdateState_def
      by (cases "IsDirty (ent mp a)") (auto simp: Let_def static_def positive_i64_def IsDirty_def GetModifiedFee_def)
  qed
  define g where "g a = the (UpdateState s fe c (ent mp a))" for a
  have g: "UpdateState s fe c (ent mp a) = Some (g a)" "static (g a) = static (ent mp a)" "totals_of mp (D' a) (g a)" if "a \<in> set A" for a
    using pos [OF that] by (auto simp: g_def)
  obtain m where m: "each (\<lambda>a. modify_entry a (UpdateState s fe c)) A mp = Some (mp\<lparr> mp_mapTx := m \<rparr>)" "map fst m = map fst (mp_mapTx mp)"
    "\<And>k. ent (mp\<lparr> mp_mapTx := m \<rparr>) k = (if k \<in> set A then g k else ent mp k)"
    by (rule each_modify_entry [OF assms(1,2), of "UpdateState s fe c" g]) (use g(1) in auto)
  have same: "same_entries mp (mp\<lparr> mp_mapTx := m \<rparr>)" unfolding same_entries_def using m(2,3) g(2) by auto
  have "totals_of (mp\<lparr> mp_mapTx := m \<rparr>) (D' h) (ent (mp\<lparr> mp_mapTx := m \<rparr>) h)" if h: "h \<in> keys mp" for h
  proof -
    have "totals_of mp (D' h) (ent (mp\<lparr> mp_mapTx := m \<rparr>) h)"
      using g(3) keep [OF h] t h by (auto simp: m(3) totals_ok_def)
    then show ?thesis unfolding totals_of_def same_entries_sums [OF same D' [OF h]] .
  qed
  then have "totals_ok (mp\<lparr> mp_mapTx := m \<rparr>) D'" unfolding totals_ok_def same_entries_keys [OF same] by blast
  then show thesis using that m(1) same by blast
qed

subsection \<open>Changing links\<close>

lemma put_links_simps [simp]:
  "mp_mapTx (put_links h l u mp) = mp_mapTx mp" "mp_mapNextTx (put_links h l u mp) = mp_mapNextTx mp"
  "mp_totalTxSize (put_links h l u mp) = mp_totalTxSize mp" "mp_mapDeltas (put_links h l u mp) = mp_mapDeltas mp"
  "mp_nTransactionsUpdated (put_links h l u mp) = mp_nTransactionsUpdated mp"
  by (simp_all add: put_links_def)

lemma put_links_more [simp]: "keys (put_links h l u mp) = keys mp" "ent (put_links h l u mp) = ent mp"
  by (simp_all add: keys_def ent_def fun_eq_iff)

lemma put_links_ok:
  assumes "links_ok mp P C" "usage_ok mp" "h \<in> keys mp" "ent_ok (lk_parents l)" "ent_ok (lk_children l)"
    and "set (lk_parents l) = {p. (p, h) \<in> P'}" "set (lk_children l) = {c. (h, c) \<in> C'}"
    and "\<And>k p. k \<noteq> h \<Longrightarrow> (p, k) \<in> P' \<longleftrightarrow> (p, k) \<in> P" "\<And>k c. k \<noteq> h \<Longrightarrow> (k, c) \<in> C' \<longleftrightarrow> (k, c) \<in> C"
    and u: "u = links_usage l - links_usage (links_at mp h)"
  shows "links_ok (put_links h l u mp) P' C' \<and> usage_ok (put_links h l u mp)"
proof
  show "links_ok (put_links h l u mp) P' C'"
    using assms(1,3-9) unfolding links_ok_def by (auto simp: put_links_def keys_def)
  let ?f = "\<lambda>mp h. me_nUsageSize (ent mp h) + links_usage (links_at mp h)"
  have "(\<Sum>k\<in>keys mp. ?f (put_links h l u mp) k) = ?f (put_links h l u mp) h + (\<Sum>k\<in>keys mp - {h}. ?f (put_links h l u mp) k)"
    by (rule sum.remove [OF finite_keys assms(3)])
  also have "(\<Sum>k\<in>keys mp - {h}. ?f (put_links h l u mp) k) = (\<Sum>k\<in>keys mp - {h}. ?f mp k)"
    by (rule sum.cong [OF refl]) (simp add: links_at_def put_links_def ent_def)
  also have "?f (put_links h l u mp) h = ?f mp h + u" by (simp add: u links_at_def put_links_def ent_def)
  also have "(?f mp h + u) + (\<Sum>k\<in>keys mp - {h}. ?f mp k) = (\<Sum>k\<in>keys mp. ?f mp k) + u"
    using sum.remove [OF finite_keys assms(3), of "?f mp"] by simp
  finally show "usage_ok (put_links h l u mp)" using assms(2) by (simp add: usage_ok_def put_links_def ent_def keys_def)
qed

text \<open>What the two functions that change one link leave alone.\<close>

definition same_but_links :: "CTxMemPool \<Rightarrow> CTxMemPool \<Rightarrow> bool" where
  "same_but_links mp mp' \<longleftrightarrow> mp_mapTx mp' = mp_mapTx mp \<and> mp_mapNextTx mp' = mp_mapNextTx mp \<and> mp_totalTxSize mp' = mp_totalTxSize mp
     \<and> mp_mapDeltas mp' = mp_mapDeltas mp \<and> mp_nTransactionsUpdated mp' = mp_nTransactionsUpdated mp"

lemma same_but_links_refl [simp]: "same_but_links mp mp" by (simp add: same_but_links_def)

lemma same_but_links_trans: "same_but_links mp mp' \<Longrightarrow> same_but_links mp' mp'' \<Longrightarrow> same_but_links mp mp''"
  by (simp add: same_but_links_def)

lemma same_but_links_keys: "same_but_links mp mp' \<Longrightarrow> keys mp' = keys mp"
  by (simp add: same_but_links_def keys_def)

lemma same_but_links_ent: "same_but_links mp mp' \<Longrightarrow> ent mp' = ent mp"
  by (simp add: same_but_links_def ent_def fun_eq_iff)

lemma same_but_links_put: "same_but_links mp (put_links h l u mp)"
  by (simp add: same_but_links_def)

lemma UpdateChild_ok:
  assumes "links_ok mp P C" "usage_ok mp" "h \<in> keys mp"
  shows "links_ok (UpdateChild h c add mp) P (if add then insert (h, c) C else C - {(h, c)}) \<and> usage_ok (UpdateChild h c add mp)
    \<and> same_but_links mp (UpdateChild h c add mp)"
proof -
  obtain l where l: "mp_mapLinks mp h = Some l" "links_at mp h = l" "ent_ok (lk_parents l)" "ent_ok (lk_children l)"
    "set (lk_parents l) = {p. (p, h) \<in> P}" "set (lk_children l) = {c. (h, c) \<in> C}"
    by (rule links_okD [OF assms(1,3)])
  let ?C = "if add then insert (h, c) C else C - {(h, c)}"
  consider (add) "add" "c \<notin> set (lk_children l)" | (erase) "\<not> add" "c \<in> set (lk_children l)"
    | (none) "add \<longleftrightarrow> c \<in> set (lk_children l)" by blast
  then show ?thesis
  proof cases
    case add
    let ?l = "l\<lparr> lk_children := entries_insert c (lk_children l) \<rparr>"
    have "links_ok (put_links h ?l IncrementalZumyUsage mp) P ?C \<and> usage_ok (put_links h ?l IncrementalZumyUsage mp)"
      by (rule put_links_ok [OF assms]) (use l add in \<open>auto simp: links_usage_def set_usage_def length_entries_insert algebra_simps\<close>)
    then show ?thesis using l add by (simp add: UpdateChild_def Let_def same_but_links_put)
  next
    case erase
    let ?l = "l\<lparr> lk_children := entries_erase c (lk_children l) \<rparr>"
    have "links_ok (put_links h ?l (- IncrementalZumyUsage) mp) P ?C \<and> usage_ok (put_links h ?l (- IncrementalZumyUsage) mp)"
      by (rule put_links_ok [OF assms]) (use l erase length_entries_erase [OF l(4), of c] in \<open>auto simp: links_usage_def set_usage_def algebra_simps\<close>)
    then show ?thesis using l erase by (simp add: UpdateChild_def Let_def same_but_links_put)
  next
    case none
    have "links_ok (put_links h l 0 mp) P ?C \<and> usage_ok (put_links h l 0 mp)"
      by (rule put_links_ok [OF assms]) (use l none in \<open>auto simp: links_usage_def\<close>)
    then show ?thesis using l none by (auto simp: UpdateChild_def Let_def same_but_links_put)
  qed
qed

lemma UpdateParent_ok:
  assumes "links_ok mp P C" "usage_ok mp" "h \<in> keys mp"
  shows "links_ok (UpdateParent h p add mp) (if add then insert (p, h) P else P - {(p, h)}) C \<and> usage_ok (UpdateParent h p add mp)
    \<and> same_but_links mp (UpdateParent h p add mp)"
proof -
  obtain l where l: "mp_mapLinks mp h = Some l" "links_at mp h = l" "ent_ok (lk_parents l)" "ent_ok (lk_children l)"
    "set (lk_parents l) = {p. (p, h) \<in> P}" "set (lk_children l) = {c. (h, c) \<in> C}"
    by (rule links_okD [OF assms(1,3)])
  let ?P = "if add then insert (p, h) P else P - {(p, h)}"
  consider (add) "add" "p \<notin> set (lk_parents l)" | (erase) "\<not> add" "p \<in> set (lk_parents l)"
    | (none) "add \<longleftrightarrow> p \<in> set (lk_parents l)" by blast
  then show ?thesis
  proof cases
    case add
    let ?l = "l\<lparr> lk_parents := entries_insert p (lk_parents l) \<rparr>"
    have "links_ok (put_links h ?l IncrementalZumyUsage mp) ?P C \<and> usage_ok (put_links h ?l IncrementalZumyUsage mp)"
      by (rule put_links_ok [OF assms]) (use l add in \<open>auto simp: links_usage_def set_usage_def length_entries_insert algebra_simps\<close>)
    then show ?thesis using l add by (simp add: UpdateParent_def Let_def same_but_links_put)
  next
    case erase
    let ?l = "l\<lparr> lk_parents := entries_erase p (lk_parents l) \<rparr>"
    have "links_ok (put_links h ?l (- IncrementalZumyUsage) mp) ?P C \<and> usage_ok (put_links h ?l (- IncrementalZumyUsage) mp)"
      by (rule put_links_ok [OF assms]) (use l erase length_entries_erase [OF l(3), of p] in \<open>auto simp: links_usage_def set_usage_def algebra_simps\<close>)
    then show ?thesis using l erase by (simp add: UpdateParent_def Let_def same_but_links_put)
  next
    case none
    have "links_ok (put_links h l 0 mp) ?P C \<and> usage_ok (put_links h l 0 mp)"
      by (rule put_links_ok [OF assms]) (use l none in \<open>auto simp: links_usage_def\<close>)
    then show ?thesis using l none by (auto simp: UpdateParent_def Let_def same_but_links_put)
  qed
qed

text \<open>The same for all parents, or all children, of an entry.\<close>

lemma fold_UpdateChild:
  assumes "links_ok mp P C" "usage_ok mp" "set ps \<subseteq> keys mp"
  shows "links_ok (fold (\<lambda>p. UpdateChild p c add) ps mp) P (if add then C \<union> set ps \<times> {c} else C - set ps \<times> {c})
    \<and> usage_ok (fold (\<lambda>p. UpdateChild p c add) ps mp) \<and> same_but_links mp (fold (\<lambda>p. UpdateChild p c add) ps mp)"
  using assms
proof (induction ps arbitrary: mp C)
  case Nil
  then show ?case by simp
next
  case (Cons p ps)
  let ?mp = "UpdateChild p c add mp" and ?C = "if add then insert (p, c) C else C - {(p, c)}"
  have 1: "links_ok ?mp P ?C" "usage_ok ?mp" "same_but_links mp ?mp" using UpdateChild_ok [OF Cons.prems(1,2)] Cons.prems(3) by simp_all
  have "(if add then ?C \<union> set ps \<times> {c} else ?C - set ps \<times> {c}) = (if add then C \<union> set (p # ps) \<times> {c} else C - set (p # ps) \<times> {c})"
    by auto
  then show ?case
    using Cons.IH [OF 1(1,2)] Cons.prems(3) same_but_links_keys [OF 1(3)] same_but_links_trans [OF 1(3)] by simp
qed

lemma fold_UpdateParent_children:
  assumes "links_ok mp P C" "usage_ok mp" "set cs \<subseteq> keys mp"
  shows "links_ok (fold (\<lambda>c. UpdateParent c h False) cs mp) (P - {h} \<times> set cs) C
    \<and> usage_ok (fold (\<lambda>c. UpdateParent c h False) cs mp) \<and> same_but_links mp (fold (\<lambda>c. UpdateParent c h False) cs mp)"
  using assms
proof (induction cs arbitrary: mp P)
  case Nil
  then show ?case by simp
next
  case (Cons c cs)
  let ?mp = "UpdateParent c h False mp"
  have 1: "links_ok ?mp (P - {(h, c)}) C" "usage_ok ?mp" "same_but_links mp ?mp"
    using UpdateParent_ok [OF Cons.prems(1,2), of c h False] Cons.prems(3) by simp_all
  have "P - {(h, c)} - {h} \<times> set cs = P - {h} \<times> set (c # cs)" by auto
  then show ?case
    using Cons.IH [OF 1(1,2)] Cons.prems(3) same_but_links_keys [OF 1(3)] same_but_links_trans [OF 1(3)] by simp
qed

lemma fold_link_parent:
  assumes "links_ok mp P C" "usage_ok mp" "h \<in> keys mp"
  shows "links_ok (fold (link_parent h) ps mp) (P \<union> (set ps \<inter> keys mp) \<times> {h}) C
    \<and> usage_ok (fold (link_parent h) ps mp) \<and> same_but_links mp (fold (link_parent h) ps mp)"
  using assms
proof (induction ps arbitrary: mp P)
  case Nil
  then show ?case by simp
next
  case (Cons p ps)
  let ?mp = "link_parent h p mp" and ?P = "P \<union> (set [p] \<inter> keys mp) \<times> {h}"
  have "links_ok ?mp ?P C \<and> usage_ok ?mp \<and> same_but_links mp ?mp"
  proof (cases "p \<in> keys mp")
    case True
    then show ?thesis using UpdateParent_ok [OF Cons.prems, of p True] by (simp add: link_parent_def exists_keys insert_Times_insert)
  next
    case False
    then show ?thesis using Cons.prems by (simp add: link_parent_def exists_keys)
  qed
  then have 1: "links_ok ?mp ?P C" "usage_ok ?mp" "same_but_links mp ?mp" by simp_all
  have "?P \<union> (set ps \<inter> keys mp) \<times> {h} = P \<union> (set (p # ps) \<inter> keys mp) \<times> {h}" by auto
  then show ?case
    using Cons.IH [OF 1(1,2)] Cons.prems(3) same_but_links_keys [OF 1(3)] same_but_links_trans [OF 1(3)] by simp
qed

subsection \<open>Adding an entry\<close>

lemma fold_map_insert:
  assumes "map_ok f m" "\<And>i. i \<in> set vin \<Longrightarrow> map_of m (txin_prevout i) \<in> {None, Some h}"
  shows "map_ok f (fold (\<lambda>i. map_insert f (txin_prevout i) h) vin m)
    \<and> (\<forall>p. map_of (fold (\<lambda>i. map_insert f (txin_prevout i) h) vin m) p = (if p \<in> txin_prevout ` set vin then Some h else map_of m p))"
  using assms
proof (induction vin arbitrary: m)
  case Nil
  then show ?case by simp
next
  case (Cons i vin)
  let ?m = "map_insert f (txin_prevout i) h m"
  have m: "map_of ?m p = (if p = txin_prevout i then Some h else map_of m p)" for p
  proof (cases "txin_prevout i \<in> fst ` set m")
    case True
    then show ?thesis using Cons.prems(2) [of i] by (auto simp: map_insert_present map_of_eq_None_iff)
  next
    case False
    then show ?thesis by (simp add: map_of_map_insert)
  qed
  have "map_of ?m (txin_prevout j) \<in> {None, Some h}" if "j \<in> set vin" for j using Cons.prems(2) [of j] that by (simp add: m)
  note IH = Cons.IH [OF map_ok_insert [OF Cons.prems(1)] this]
  show ?case unfolding fold_simps
  proof (intro conjI allI)
    show "map_ok f (fold (\<lambda>i. map_insert f (txin_prevout i) h) vin ?m)" using IH by blast
    show "map_of (fold (\<lambda>i. map_insert f (txin_prevout i) h) vin ?m) p = (if p \<in> txin_prevout ` set (i # vin) then Some h else map_of m p)" for p
      using IH [THEN conjunct2, THEN spec, of p] unfolding m by auto
  qed
qed

lemma set_fold_entries_insert: "set (fold (\<lambda>i. entries_insert (f i)) is s) = set s \<union> f ` set is"
  by (induction "is" arbitrary: s) auto

text \<open>A fresh entry: its totals are its own.\<close>

definition fresh_entry :: "CTxMemPoolEntry \<Rightarrow> bool" where
  "fresh_entry e \<longleftrightarrow> me_nCountWithDescendants e = 1 \<and> me_nSizeWithDescendants e = me_nTxSize e \<and> me_feeDelta e = 0
     \<and> me_nModFeesWithDescendants e = me_nFee e \<and> 0 < me_nTxSize e"

text \<open>What the caller checks before it adds an entry: none of its outpoints is spent by the pool.\<close>

definition addable :: "(byte list \<Rightarrow> uint256) \<Rightarrow> CTxMemPool \<Rightarrow> CTxMemPoolEntry \<Rightarrow> bool" where
  "addable H mp e \<longleftrightarrow> fresh_entry e \<and> tx_GetHash H (me_tx e) \<notin> keys mp \<and> tx_GetHash H (me_tx e) \<notin> parent_ids e
     \<and> (\<forall>p\<in>outpoints e. next_tx mp p = None) \<and> mp_totalTxSize mp + me_nTxSize e < 2 ^ 63"

text \<open>The links after adding: one from every parent in the pool.\<close>

definition links_added :: "CTxMemPool \<Rightarrow> (txiter \<times> txiter) set \<Rightarrow> txiter \<Rightarrow> CTxMemPoolEntry \<Rightarrow> (txiter \<times> txiter) set" where
  "links_added mp L h e = L \<union> (parent_ids e \<inter> keys mp) \<times> {h}"

lemma links_added_rtrancl:
  assumes "L \<subseteq> K \<times> K" "h \<notin> K" "S \<subseteq> K" "a \<in> K"
  shows "(L \<union> S \<times> {h})\<^sup>* `` {a} = L\<^sup>* `` {a} \<union> (if a \<in> ancestors_of L S then {h} else {})"
proof -
  let ?L = "L \<union> S \<times> {h}"
  have "b \<in> L\<^sup>* `` {a} \<union> (if a \<in> ancestors_of L S then {h} else {})" if "(a, b) \<in> ?L\<^sup>*" for b
    using that
  proof (induction rule: rtrancl_induct)
    case (step b c)
    show ?case
    proof (cases "b = h")
      case True
      then show ?thesis using step(2) assms(1-3) by auto
    next
      case False
      then have ab: "(a, b) \<in> L\<^sup>*" using step(3) by (auto split: if_splits)
      then show ?thesis using step(2) by (auto simp: ancestors_of_iff intro: rtrancl_into_rtrancl)
    qed
  qed simp
  moreover have "L\<^sup>* `` {a} \<subseteq> ?L\<^sup>* `` {a}" by (intro Image_mono rtrancl_mono) auto
  moreover have "(a, h) \<in> ?L\<^sup>*" if a: "a \<in> ancestors_of L S"
  proof -
    obtain s where s: "s \<in> S" "(a, s) \<in> L\<^sup>*" using a by (auto simp: ancestors_of_iff)
    have "(a, s) \<in> ?L\<^sup>*" using rtrancl_mono [of L ?L] s(2) by auto
    then show ?thesis using s(1) by (auto intro: rtrancl_into_rtrancl)
  qed
  ultimately show ?thesis by (cases "a \<in> ancestors_of L S") (simp_all, blast+)
qed

lemma links_added_leaf:
  assumes "L \<subseteq> K \<times> K" "h \<notin> K" "S \<subseteq> K"
  shows "(L \<union> S \<times> {h})\<^sup>* `` {h} = {h}"
  by (rule Image_closed_trancl) (use assms in auto)

lemma links_added_acyclic:
  fixes L :: "(txiter \<times> txiter) set"
  assumes "acyclic L" "L \<subseteq> K \<times> K" "h \<notin> K" "S \<subseteq> K"
  shows "acyclic (L \<union> S \<times> {h})"
proof -
  have "(x, x) \<in> L\<^sup>+" if x: "(x, x) \<in> (L \<union> S \<times> {h})\<^sup>+" for x
  proof -
    obtain y where y: "(x, y) \<in> L \<union> S \<times> {h}" "(y, x) \<in> (L \<union> S \<times> {h})\<^sup>*" using tranclD [OF x] by blast
    show ?thesis
    proof (cases "y = h")
      case True
      then have "x = h" using y(2) links_added_leaf [OF assms(2-4)] by auto
      then show ?thesis using y(1) assms(2-4) by auto
    next
      case False
      then have xy: "(x, y) \<in> L" using y(1) by auto
      then have "y \<in> K" "x \<in> K" using assms(2) by auto
      then have "(y, x) \<in> L\<^sup>*" using y(2) links_added_rtrancl [OF assms(2-4), of y] assms(3) by (auto split: if_splits)
      with xy show ?thesis by (rule rtrancl_into_trancl2)
    qed
  qed
  then show ?thesis using assms(1) unfolding acyclic_def by blast
qed

lemma sums_cong:
  assumes "\<And>d. d \<in> D \<Longrightarrow> ent mp' d = ent mp d"
  shows "sum_size mp' D = sum_size mp D" "sum_fee mp' D = sum_fee mp D"
  unfolding sum_size_def sum_fee_def using assms by (auto intro: sum.cong)

lemma entry_after_insert:
  assumes "h \<notin> keys mp" "mp_mapTx mp' = map_insert f h e (mp_mapTx mp)"
  shows "keys mp' = insert h (keys mp)" "ent mp' k = (if k = h then e else ent mp k)"
proof -
  show "keys mp' = insert h (keys mp)" by (simp add: keys_def assms(2) keys_map_insert)
  have "map_of (mp_mapTx mp') = (map_of (mp_mapTx mp))(h \<mapsto> e)"
    using assms map_of_map_insert [of h "mp_mapTx mp" f e] by (simp add: keys_def)
  then show "ent mp' k = (if k = h then e else ent mp k)" by (simp add: ent_def)
qed

text \<open>The entry with the fee delta that was set for its transaction in advance.\<close>

definition with_delta :: "CTxMemPool \<Rightarrow> uint256 \<Rightarrow> CTxMemPoolEntry \<Rightarrow> CTxMemPoolEntry" where
  "with_delta mp h e = (case map_of (mp_mapDeltas mp) h of Some d \<Rightarrow> if d \<noteq> 0 then UpdateFeeDelta d e else e | None \<Rightarrow> e)"

lemma with_delta_simps [simp]:
  "me_tx (with_delta mp h e) = me_tx e" "me_nTxSize (with_delta mp h e) = me_nTxSize e" "me_nUsageSize (with_delta mp h e) = me_nUsageSize e"
  "outpoints (with_delta mp h e) = outpoints e" "parent_ids (with_delta mp h e) = parent_ids e"
  "me_nCountWithDescendants (with_delta mp h e) = me_nCountWithDescendants e"
  "me_nSizeWithDescendants (with_delta mp h e) = me_nSizeWithDescendants e"
  by (auto simp: with_delta_def UpdateFeeDelta_def outpoints_def parent_ids_def split: option.split)

lemma with_delta_fee: "fresh_entry e \<Longrightarrow> me_nModFeesWithDescendants (with_delta mp h e) = GetModifiedFee (with_delta mp h e)"
  by (auto simp: with_delta_def UpdateFeeDelta_def GetModifiedFee_def fresh_entry_def split: option.split)

text \<open>The pool after the first half of \<open>addUnchecked\<close>, before the links.\<close>

lemma insert_entry_ok:
  assumes inv: "pool_inv H L mp" and add: "addable H mp e" and h: "h = tx_GetHash H (me_tx e)"
  obtains mp2 where
    "addUnchecked H h e A mp = map_option (\<lambda>mp5. mp5\<lparr> mp_nTransactionsUpdated := mp_nTransactionsUpdated mp5 + 1,
         mp_totalTxSize := mp_totalTxSize mp5 + me_nTxSize e \<rparr>)
       (UpdateAncestorsOf True h A (fold (link_parent h) (fold (\<lambda>i. entries_insert (prev_hash (txin_prevout i))) (tx_vin (me_tx e)) []) mp2))"
    "map_ok ser_uint256 (mp_mapTx mp2)" "keys mp2 = insert h (keys mp)" "\<And>k. ent mp2 k = (if k = h then with_delta mp h e else ent mp k)"
    "links_ok mp2 L L" "usage_ok mp2" "next_ok mp2" "mp_totalTxSize mp2 = mp_totalTxSize mp" "mp_mapDeltas mp2 = mp_mapDeltas mp"
proof -
  note i = pool_invD [OF inv]
  let ?e = "with_delta mp h e"
  have hk: "h \<notin> keys mp" using add h by (simp add: addable_def)
  have noL: "mp_mapLinks mp h = None" using i(2) hk by (auto simp: links_ok_def)
  define mp1 where "mp1 = mp\<lparr> mp_mapTx := map_insert ser_uint256 h e (mp_mapTx mp), mp_mapLinks := (mp_mapLinks mp)(h \<mapsto> TxLinks_init) \<rparr>"
  have mp1: "keys mp1 = insert h (keys mp)" "\<And>k. ent mp1 k = (if k = h then e else ent mp k)"
    using entry_after_insert [OF hk, of mp1 ser_uint256 e] by (simp_all add: mp1_def)
  have ok1: "map_ok ser_uint256 (mp_mapTx mp1)" using i(1) by (simp add: mp1_def pool_entries_ok_def map_ok_insert)
  have d1: "mp_mapDeltas mp1 = mp_mapDeltas mp" by (simp add: mp1_def)
  obtain m where m: "(case map_of (mp_mapDeltas mp1) h of
                 Some d \<Rightarrow> if d \<noteq> 0 then modify_entry h (\<lambda>e. Some (UpdateFeeDelta d e)) mp1 else Some mp1
               | None \<Rightarrow> Some mp1) = Some (mp1\<lparr> mp_mapTx := m \<rparr>)"
      "map fst m = map fst (mp_mapTx mp1)" "\<And>k. ent (mp1\<lparr> mp_mapTx := m \<rparr>) k = (if k = h then ?e else ent mp1 k)"
  proof (cases "with_delta mp h e = e \<and> map_of (mp_mapDeltas mp) h \<in> {None, Some 0}")
    case True
    have "mp1\<lparr> mp_mapTx := mp_mapTx mp1 \<rparr> = mp1" by simp
    with True show thesis using mp1(2) d1 by (intro that [of "mp_mapTx mp1"]) auto
  next
    case False
    then obtain d where d: "map_of (mp_mapDeltas mp) h = Some d" "d \<noteq> 0" by (cases "map_of (mp_mapDeltas mp) h") (auto simp: with_delta_def split: if_splits)
    have "h \<in> keys mp1" using mp1(1) by simp
    then obtain m where "modify_entry h (\<lambda>e. Some (UpdateFeeDelta d e)) mp1 = Some (mp1\<lparr> mp_mapTx := m \<rparr>)"
        "map fst m = map fst (mp_mapTx mp1)" "\<And>k. ent (mp1\<lparr> mp_mapTx := m \<rparr>) k = (if k = h then UpdateFeeDelta d (ent mp1 h) else ent mp1 k)"
      by (rule modify_entry_ok [where f = "\<lambda>e. Some (UpdateFeeDelta d e)" and e' = "UpdateFeeDelta d (ent mp1 h)"]) auto
    then show thesis using d mp1(2) d1 by (intro that [of m]) (auto simp: with_delta_def)
  qed
  let ?vin = "tx_vin (me_tx e)"
  define mp2 where "mp2 = mp1\<lparr> mp_mapTx := m, mp_cachedInnerUsage := mp_cachedInnerUsage mp + me_nUsageSize e,
                        mp_mapNextTx := fold (\<lambda>i. map_insert id (txin_prevout i) h) ?vin (mp_mapNextTx mp) \<rparr>"
  have k2: "keys mp2 = insert h (keys mp)" unfolding mp1(1) [symmetric] by (rule keys_eqI) (simp add: mp2_def m(2))
  have e2: "ent mp2 k = (if k = h then ?e else ent mp k)" for k
    using m(3) [of k] mp1(2) [of k] by (simp add: mp2_def ent_def)
  have "entry (mp1\<lparr> mp_mapTx := m \<rparr>) h = Some ?e"
    using entry_ent [of h mp2] k2 e2 [of h] by (simp add: mp2_def)
  then have eq: "addUnchecked H h e A mp = map_option (\<lambda>mp5. mp5\<lparr> mp_nTransactionsUpdated := mp_nTransactionsUpdated mp5 + 1,
         mp_totalTxSize := mp_totalTxSize mp5 + me_nTxSize e \<rparr>)
       (UpdateAncestorsOf True h A (fold (link_parent h) (fold (\<lambda>i. entries_insert (prev_hash (txin_prevout i))) ?vin []) mp2))"
    using m(1) unfolding addUnchecked_def Let_def h [symmetric] noL option.case mp1_def [symmetric]
    by (simp add: mp2_def) (simp add: mp1_def)
  have ok2: "map_ok ser_uint256 (mp_mapTx mp2)"
    using ok1 m(2) unfolding map_ok_def map_map [symmetric] by (simp add: mp2_def)
  have l2: "links_ok mp2 L L"
  proof -
    have "L \<subseteq> keys mp \<times> keys mp" using i(3) spends_keys by blast
    then have "{p. (p, h) \<in> L} = {}" "{c. (h, c) \<in> L} = {}" using hk by auto
    then show ?thesis using i(2) unfolding links_ok_def k2 by (auto simp: mp2_def mp1_def TxLinks_init_def)
  qed
  have u2: "usage_ok mp2"
  proof -
    have "(\<Sum>k\<in>keys mp. me_nUsageSize (ent mp2 k) + links_usage (links_at mp2 k)) = mp_cachedInnerUsage mp"
    proof -
      have "links_at mp2 k = links_at mp k" if "k \<in> keys mp" for k using that hk by (auto simp: links_at_def mp2_def mp1_def)
      then show ?thesis using i(7) hk e2 unfolding usage_ok_def by (auto intro!: sum.cong)
    qed
    moreover have "links_usage (links_at mp2 h) = 0"
      by (simp add: links_at_def mp2_def mp1_def TxLinks_init_def links_usage_def set_usage_def)
    ultimately show ?thesis using hk unfolding usage_ok_def k2 by (simp add: e2) (simp add: mp2_def)
  qed
  have n2: "next_ok mp2"
  proof -
    have none: "next_tx mp p = None" if "p \<in> outpoints e" for p using add that by (simp add: addable_def)
    have ff: "map_ok id (mp_mapNextTx mp2)"
        "next_tx mp2 p = (if p \<in> outpoints e then Some h else next_tx mp p)" for p
      using fold_map_insert [of id "mp_mapNextTx mp" ?vin h] i(6) none by (simp_all add: mp2_def next_ok_def outpoints_def)
    have "next_tx mp2 p = Some k \<longleftrightarrow> k \<in> keys mp2 \<and> p \<in> outpoints (ent mp2 k)" for p k
    proof -
      have n: "next_tx mp p = Some k \<longleftrightarrow> k \<in> keys mp \<and> p \<in> outpoints (ent mp k)" using i(6) by (simp add: next_ok_def)
      show ?thesis using n hk none [of p] unfolding k2 e2 ff(2) by auto
    qed
    then show ?thesis using ff(1) by (simp add: next_ok_def)
  qed
  show thesis by (rule that [OF eq ok2 k2 e2 l2 u2 n2]) (simp_all add: mp2_def mp1_def)
qed

lemma addUnchecked_ok:
  assumes inv: "pool_inv H L mp" and add: "addable H mp e" and h: "h = tx_GetHash H (me_tx e)"
    and A: "ent_ok A" "set A = ancestors_of L (parent_ids e \<inter> keys mp)"
  obtains mp' where "addUnchecked H h e A mp = Some mp'" "pool_inv H (links_added mp L h e) mp'" "keys mp' = insert h (keys mp)"
    "\<And>k. k \<in> keys mp \<Longrightarrow> static (ent mp' k) = static (ent mp k)" "static (ent mp' h) = static (with_delta mp h e)" "mp_mapDeltas mp' = mp_mapDeltas mp"
proof -
  note i = pool_invD [OF inv]
  let ?e = "with_delta mp h e" and ?S = "parent_ids e \<inter> keys mp"
  let ?L = "links_added mp L h e"
  have Lk: "L \<subseteq> keys mp \<times> keys mp" using i(3) spends_keys by blast
  have a: "fresh_entry e" "h \<notin> keys mp" "h \<notin> parent_ids e" "mp_totalTxSize mp + me_nTxSize e < 2 ^ 63" "0 < me_nTxSize e"
    using add unfolding addable_def h fresh_entry_def by blast+
  obtain mp2 where mp2: "addUnchecked H h e A mp = map_option (\<lambda>mp5. mp5\<lparr> mp_nTransactionsUpdated := mp_nTransactionsUpdated mp5 + 1,
         mp_totalTxSize := mp_totalTxSize mp5 + me_nTxSize e \<rparr>)
       (UpdateAncestorsOf True h A (fold (link_parent h) (fold (\<lambda>i. entries_insert (prev_hash (txin_prevout i))) (tx_vin (me_tx e)) []) mp2))"
    "map_ok ser_uint256 (mp_mapTx mp2)" "keys mp2 = insert h (keys mp)" "\<And>k. ent mp2 k = (if k = h then ?e else ent mp k)"
    "links_ok mp2 L L" "usage_ok mp2" "next_ok mp2" "mp_totalTxSize mp2 = mp_totalTxSize mp" "mp_mapDeltas mp2 = mp_mapDeltas mp"
    by (rule insert_entry_ok [OF inv add h, where A = A], rule that) assumption+
  define mp4 where "mp4 = fold (link_parent h) (fold (\<lambda>i. entries_insert (prev_hash (txin_prevout i))) (tx_vin (me_tx e)) []) mp2"
  have ids: "set (fold (\<lambda>i. entries_insert (prev_hash (txin_prevout i))) (tx_vin (me_tx e)) []) \<inter> keys mp2 = ?S"
    using a(3) by (auto simp: set_fold_entries_insert mp2(3) parent_ids_def outpoints_def)
  have mp4: "links_ok mp4 ?L L" "usage_ok mp4" "same_but_links mp2 mp4"
    using fold_link_parent [OF mp2(5,6), of h] mp2(3) unfolding mp4_def ids [symmetric] links_added_def by auto
  have k4: "keys mp4 = insert h (keys mp)" "ent mp4 = ent mp2" using mp4(3) mp2(3) by (simp_all add: same_but_links_keys same_but_links_ent)
  obtain ps where ps: "GetMemPoolParents mp4 h = Some ps" "ent_ok ps" "set ps = {p. (p, h) \<in> ?L}"
    using GetMemPoolParents_ok [OF mp4(1), of h] k4(1) by blast
  have psS: "set ps = ?S" using Lk a(2) unfolding ps(3) links_added_def by auto
  define mp5 where "mp5 = fold (\<lambda>p. UpdateChild p h True) ps mp4"
  have mp5: "links_ok mp5 ?L ?L" "usage_ok mp5" "same_but_links mp2 mp5"
    using fold_UpdateChild [OF mp4(1,2), of ps h True] same_but_links_trans [OF mp4(3)] psS
    unfolding mp5_def [symmetric] links_added_def by (auto simp: k4)
  have k5: "keys mp5 = insert h (keys mp)" "\<And>k. ent mp5 k = (if k = h then ?e else ent mp k)"
    using mp5(3) mp2(3,4) by (simp_all add: same_but_links_keys same_but_links_ent)
  let ?D = "\<lambda>k. if k = h then {h} else L\<^sup>* `` {k}" and ?D' = "\<lambda>k. ?L\<^sup>* `` {k}"
  have desc: "?D' k = L\<^sup>* `` {k} \<union> (if k \<in> set A then {h} else {})" if "k \<in> keys mp" for k
    unfolding links_added_def A(2) using links_added_rtrancl [OF Lk a(2) Int_lower2 that] .
  have desc_h: "?D' h = {h}" unfolding links_added_def by (rule links_added_leaf [OF Lk a(2) Int_lower2])
  have Dk: "L\<^sup>* `` {k} \<subseteq> keys mp" if "k \<in> keys mp" for k using rtrancl_keys [OF Lk] that by blast
  have Ak: "set A \<subseteq> keys mp" unfolding A(2) by (rule ancestors_of_keys [OF Lk Int_lower2])
  have sums: "sum_size mp5 D = sum_size mp D" "sum_fee mp5 D = sum_fee mp D" if "D \<subseteq> keys mp" for D
    by (rule sums_cong; use that a(2) in \<open>auto simp: k5\<close>)+
  have t5: "totals_ok mp5 ?D"
  proof -
    have "totals_of mp5 {h} ?e"
      using a(1) by (auto simp: totals_of_def IsDirty_def sum_size_def sum_fee_def k5(2) with_delta_fee fresh_entry_def)
    moreover have "totals_of mp5 (L\<^sup>* `` {k}) (ent mp k)" if "k \<in> keys mp" for k
      using i(5) that unfolding totals_ok_def totals_of_def sums [OF Dk [OF that]] by blast
    ultimately show ?thesis using a(2) unfolding totals_ok_def k5 by auto
  qed
  have step: "int (card (?D' k)) = int (card (?D k)) + 1 \<and> sum_size mp5 (?D' k) = sum_size mp5 (?D k) + me_nTxSize ?e
      \<and> sum_fee mp5 (?D' k) = sum_fee mp5 (?D k) + GetModifiedFee ?e \<and> positive_i64 (int (card (?D' k))) \<and> positive_i64 (sum_size mp5 (?D' k))"
    if k: "k \<in> set A" for k
  proof -
    have kk: "k \<in> keys mp" "k \<noteq> h" using k Ak a(2) by auto
    let ?X = "L\<^sup>* `` {k}"
    have X: "?D' k = insert h ?X" "h \<notin> ?X" "finite ?X" using desc [OF kk(1)] k Dk [OF kk(1)] a(2) by (auto intro: finite_subset)
    have s: "sum_size mp5 (?D' k) = sum_size mp ?X + me_nTxSize e" "sum_fee mp5 (?D' k) = sum_fee mp ?X + GetModifiedFee ?e"
      using X sums [OF Dk [OF kk(1)]] by (simp_all add: sum_size_def sum_fee_def k5(2))
    have "sum_size mp ?X \<le> mp_totalTxSize mp" using sum_size_mono [OF i(1) Dk [OF kk(1)] order_refl] i(1) by (simp add: pool_entries_ok_def)
    moreover note b = sum_size_bounds [OF i(1) Dk [OF kk(1)]]
    ultimately have "positive_i64 (sum_size mp ?X + me_nTxSize e)" "positive_i64 (1 + int (card ?X))"
      using a(4,5) by (auto simp: positive_i64_def)
    then show ?thesis using s X kk(2) sums [OF Dk [OF kk(1)]] by simp
  qed
  have mok: "map_ok ser_uint256 (mp_mapTx mp5)" using mp2(2) mp5(3) by (simp add: same_but_links_def)
  obtain m where m: "each (\<lambda>a. modify_entry a (UpdateState (me_nTxSize ?e) (GetModifiedFee ?e) 1)) A mp5 = Some (mp5\<lparr> mp_mapTx := m \<rparr>)"
      "same_entries mp5 (mp5\<lparr> mp_mapTx := m \<rparr>)" "totals_ok (mp5\<lparr> mp_mapTx := m \<rparr>) ?D'"
  proof (rule each_UpdateState [OF ent_ok_distinct [OF A(1)] _ mok t5 step])
    show "set A \<subseteq> keys mp5" using Ak k5 by auto
    show "?D' k = ?D k" if "k \<in> keys mp5" "k \<notin> set A" for k using that desc [of k] desc_h k5(1) by auto
    show "?D' k \<subseteq> keys mp5" if "k \<in> keys mp5" for k
    proof (cases "k = h")
      case False
      then have "k \<in> keys mp" using that k5(1) by simp
      then show ?thesis unfolding desc [OF \<open>k \<in> keys mp\<close>] k5(1) using Dk by auto
    qed (use desc_h k5(1) in auto)
  qed
  define mp' where "mp' = mp5\<lparr> mp_mapTx := m, mp_nTransactionsUpdated := mp_nTransactionsUpdated mp5 + 1,
     mp_totalTxSize := mp_totalTxSize mp5 + me_nTxSize e \<rparr>"
  have same: "same_entries mp5 mp'" using m(2) by (simp add: same_entries_def mp'_def ent_def)
  have upd: "UpdateAncestorsOf True h A mp4 = Some (mp5\<lparr> mp_mapTx := m \<rparr>)"
    using m(1) entry_ent [of h mp4] by (simp add: UpdateAncestorsOf_def ps(1) k4 mp2(4) Let_def flip: mp5_def)
  have res: "addUnchecked H h e A mp = Some mp'" unfolding mp2(1) mp4_def [symmetric] upd by (simp add: mp'_def)
  have k': "keys mp' = insert h (keys mp)" using same_entries_keys [OF same] k5(1) by simp
  have st: "static (ent mp' k) = static (if k = h then ?e else ent mp k)" if "k \<in> keys mp'" for k
    using same that k5 unfolding k' same_entries_def by auto
  have inv': "pool_inv H ?L mp'"
    unfolding pool_inv_def
  proof (intro conjI)
    have tot: "mp_totalTxSize mp' = mp_totalTxSize mp + me_nTxSize e"
      using mp5(3) mp2(8) by (simp add: mp'_def same_but_links_def)
    have "sum_size mp' (keys mp') = sum_size mp5 (insert h (keys mp))"
      unfolding k' using same_entries_sums(1) [OF same, of "keys mp5"] k5(1) by simp
    also have "\<dots> = mp_totalTxSize mp + me_nTxSize e"
      using a(2) sums(1) [OF order_refl] i(1) by (simp add: sum_size_def k5(2) pool_entries_ok_def)
    finally have sz: "mp_totalTxSize mp' = sum_size mp' (keys mp')" using tot by simp
    have "tx_GetHash H (me_tx (ent mp' k)) = k \<and> 0 < me_nTxSize (ent mp' k)" if "k \<in> keys mp'" for k
      using staticD(1,2) [OF st [OF that]] that i(1) a(5) h unfolding k' pool_entries_ok_def by (cases "k = h") auto
    then show "pool_entries_ok H mp'"
      unfolding pool_entries_ok_def using mok same_entries_map_ok [OF same, of ser_uint256] sz tot a(4) by simp
    show "links_ok mp' ?L ?L" by (rule same_entries_inv(3) [OF same _ mp5(1)]) (simp add: mp'_def)
    show "usage_ok mp'" by (rule same_entries_inv(4) [OF same _ _ mp5(2)]) (simp_all add: mp'_def)
    have n5: "next_ok mp5" using mp2(7) mp5(3) unfolding next_ok_def keys_def ent_def same_but_links_def by simp
    show "next_ok mp'" by (rule same_entries_inv(2) [OF same _ n5]) (simp add: mp'_def)
    show "totals_ok mp' ?D'" using m(3) by (simp add: totals_ok_def totals_of_def sum_size_def sum_fee_def keys_def ent_def mp'_def)
    show "acyclic ?L" unfolding links_added_def by (rule links_added_acyclic [OF i(4) Lk a(2) Int_lower2])
    have "parent_ids (ent mp' k) = parent_ids (if k = h then e else ent mp k)" if "k \<in> keys mp'" for k
      using staticD(6) [OF st [OF that]] by simp
    then show "?L \<subseteq> spends mp'" using i(3) a(2) unfolding spends_def links_added_def k' by auto
  qed
  have deltas: "mp_mapDeltas mp' = mp_mapDeltas mp" using mp5(3) mp2(9) by (simp add: mp'_def same_but_links_def)
  show thesis
  proof (rule that [OF res inv' k'])
    show "static (ent mp' k) = static (ent mp k)" if "k \<in> keys mp" for k using st [of k] that a(2) k' by auto
    show "static (ent mp' h) = static ?e" using st [of h] k' by simp
  qed (rule deltas)
qed

end
