(* ===== verification/Mempool_Remove.thy ===== *)
theory Mempool_Remove
  imports Mempool_Update
begin

text \<open>
  Removing a set of entries keeps the invariant, if no link path between remaining entries leads through the set.  The
  removal of a transaction with its descendants, and of a transaction without ancestors in the pool, are of this kind.
\<close>

subsection \<open>Taking the entries out of the totals\<close>

text \<open>The state after the entries in \<open>R\<close> were taken out of the totals of their ancestors.\<close>

definition removing :: "(txiter \<times> txiter) set \<Rightarrow> CTxMemPool \<Rightarrow> txiter set \<Rightarrow> CTxMemPool \<Rightarrow> bool" where
  "removing L mp0 R mp \<longleftrightarrow> same_entries mp0 mp \<and> links_ok mp L (L - UNIV \<times> R) \<and> usage_ok mp
     \<and> totals_ok mp (\<lambda>h. L\<^sup>* `` {h} - (R - {h}))
     \<and> mp_mapNextTx mp = mp_mapNextTx mp0 \<and> mp_totalTxSize mp = mp_totalTxSize mp0 \<and> mp_mapDeltas mp = mp_mapDeltas mp0"

lemma proper_ancestor:
  assumes "acyclic L" "a \<in> ancestors_of L {p. (p, r) \<in> L}"
  shows "(a, r) \<in> L\<^sup>+" "a \<noteq> r"
proof -
  obtain p where "(a, p) \<in> L\<^sup>*" "(p, r) \<in> L" using assms(2) by (auto simp: ancestors_of_iff)
  then show "(a, r) \<in> L\<^sup>+" by (rule rtrancl_into_trancl1)
  then show "a \<noteq> r" using assms(1) by (auto simp: acyclic_def)
qed

lemma not_ancestor:
  assumes "a \<notin> ancestors_of L {p. (p, r) \<in> L}" "(a, r) \<in> L\<^sup>*"
  shows "a = r"
  using assms(2)
proof (cases rule: rtranclE)
  case (step p)
  then show ?thesis using assms(1) by (auto simp: ancestors_of_iff)
qed

lemma unlink_step:
  assumes inv: "pool_inv H L mp0" and rem: "removing L mp0 R mp" and r: "r \<in> keys mp0" "r \<notin> R"
  obtains mp' where "unlink_ancestors r mp = Some mp'" "removing L mp0 (insert r R) mp'"
proof -
  note i = pool_invD [OF inv] and m = rem [unfolded removing_def]
  have Lk: "L \<subseteq> keys mp0 \<times> keys mp0" using i(3) spends_keys by blast
  have same: "same_entries mp0 mp" and k: "keys mp = keys mp0" using m same_entries_keys by auto
  have ent_ok_mp: "pool_entries_ok H mp" by (rule same_entries_inv(1) [OF same _ i(1)]) (use m in simp)
  have mok: "map_ok ser_uint256 (mp_mapTx mp)" using ent_ok_mp by (simp add: pool_entries_ok_def)
  let ?D = "\<lambda>h. L\<^sup>* `` {h} - (R - {h})" and ?D' = "\<lambda>h. L\<^sup>* `` {h} - (insert r R - {h})"
  have D: "L\<^sup>* `` {h} \<subseteq> keys mp0" if "h \<in> keys mp0" for h using rtrancl_keys [OF Lk] that by blast
  obtain A where A: "CalculateMemPoolAncestors mp no_limits (ent mp r) (Some r) = Some (Inr A)" "ent_ok A"
      "set A = ancestors_of L {p. (p, r) \<in> L}"
  proof (rule CalculateMemPoolAncestors_self [OF ent_ok_mp, of L "L - UNIV \<times> R" r])
    show "links_ok mp L (L - UNIV \<times> R)" using m by simp
    show "bounded mp" by (rule bounded_totals [OF ent_ok_mp, of ?D]) (use m D k in auto)
  qed (use Lk r k in \<open>simp_all\<close>)
  obtain ps where ps: "GetMemPoolParents mp r = Some ps" "ent_ok ps" "set ps = {p. (p, r) \<in> L}"
    using GetMemPoolParents_ok [of mp L "L - UNIV \<times> R" r] m r k by blast
  define mp1 where "mp1 = fold (\<lambda>p. UpdateChild p r False) ps mp"
  have mp1: "links_ok mp1 L (L - UNIV \<times> R - set ps \<times> {r})" "usage_ok mp1" "same_but_links mp mp1"
    using fold_UpdateChild [of mp L "L - UNIV \<times> R" ps r False] m ps(3) Lk k unfolding mp1_def by auto
  have C: "L - UNIV \<times> R - set ps \<times> {r} = L - UNIV \<times> insert r R" using ps(3) by auto
  have k1: "keys mp1 = keys mp0" "ent mp1 = ent mp" using mp1(3) k by (simp_all add: same_but_links_keys same_but_links_ent)
  have sums: "sum_size mp1 X = sum_size mp X" "sum_fee mp1 X = sum_fee mp X" for X by (simp_all add: sum_size_def sum_fee_def k1)
  have t1: "totals_ok mp1 ?D" using m unfolding totals_ok_def totals_of_def sums k1 k by blast
  have mok1: "map_ok ser_uint256 (mp_mapTx mp1)" using mok mp1(3) by (simp add: same_but_links_def)
  have Ak: "set A \<subseteq> keys mp0" unfolding A(3) by (rule ancestors_of_keys [OF Lk]) (use Lk in blast)
  have step: "int (card (?D' a)) = int (card (?D a)) + - 1 \<and> sum_size mp1 (?D' a) = sum_size mp1 (?D a) + - me_nTxSize (ent mp r)
      \<and> sum_fee mp1 (?D' a) = sum_fee mp1 (?D a) + - GetModifiedFee (ent mp r)
      \<and> positive_i64 (int (card (?D' a))) \<and> positive_i64 (sum_size mp1 (?D' a))" if a: "a \<in> set A" for a
  proof -
    have ar: "(a, r) \<in> L\<^sup>+" "a \<noteq> r" using proper_ancestor [OF i(4)] a A(3) by auto
    have ak: "a \<in> keys mp0" using a Ak by blast
    have fin: "finite (?D' a)" by (rule finite_subset [OF _ finite_keys [of mp0]]) (use D [OF ak] in blast)
    have D_eq: "?D a = insert r (?D' a)" "r \<notin> ?D' a" using ar r(2) by auto
    have a_in: "a \<in> ?D' a" by auto
    have sub: "?D' a \<subseteq> keys mp" using D [OF ak] k by blast
    have "0 < card (?D' a)" using a_in fin card_gt_0_iff by blast
    then have "positive_i64 (int (card (?D' a)))" "positive_i64 (sum_size mp (?D' a))"
      using sum_size_bounds [OF ent_ok_mp sub] by (simp_all add: positive_i64_def)
    then show ?thesis unfolding D_eq(1) sums using fin D_eq(2) by (simp add: sum_size_def sum_fee_def)
  qed
  obtain m' where m': "each (\<lambda>a. modify_entry a (UpdateState (- me_nTxSize (ent mp r)) (- GetModifiedFee (ent mp r)) (- 1))) A mp1
        = Some (mp1\<lparr> mp_mapTx := m' \<rparr>)"
      "same_entries mp1 (mp1\<lparr> mp_mapTx := m' \<rparr>)" "totals_ok (mp1\<lparr> mp_mapTx := m' \<rparr>) ?D'"
  proof (rule each_UpdateState [OF ent_ok_distinct [OF A(2)] _ mok1 t1 step])
    show "set A \<subseteq> keys mp1" using Ak k1 by simp
    show "?D' h \<subseteq> keys mp1" if "h \<in> keys mp1" for h using D that k1 by blast
    show "?D' h = ?D h" if "h \<in> keys mp1" "h \<notin> set A" for h using not_ancestor [of h L r] that(2) A(3) by auto
  qed
  let ?mp = "mp1\<lparr> mp_mapTx := m' \<rparr>"
  have "unlink_ancestors r mp = Some ?mp"
    using m'(1) r k by (simp add: unlink_ancestors_def UpdateAncestorsOf_def entry_ent A(1) ps(1) Let_def flip: mp1_def)
  moreover have "removing L mp0 (insert r R) ?mp"
    unfolding removing_def
  proof (intro conjI)
    have "same_entries mp mp1" using mp1(3) by (simp add: same_entries_def same_but_links_def ent_def)
    then show "same_entries mp0 ?mp" using same m'(2) same_entries_trans by blast
    show "links_ok ?mp L (L - UNIV \<times> insert r R)" by (rule same_entries_inv(3) [OF m'(2) _ mp1(1) [unfolded C]]) simp
    show "usage_ok ?mp" by (rule same_entries_inv(4) [OF m'(2) _ _ mp1(2)]) simp_all
    show "totals_ok ?mp ?D'" by (rule m'(3))
  qed (use m mp1(3) in \<open>simp_all add: same_but_links_def\<close>)
  ultimately show thesis by (rule that)
qed

lemma unlink_all:
  assumes inv: "pool_inv H L mp0" and "removing L mp0 R mp" "distinct S" "set S \<inter> R = {}" "set S \<subseteq> keys mp0"
  shows "\<exists>mp'. each unlink_ancestors S mp = Some mp' \<and> removing L mp0 (R \<union> set S) mp'"
  using assms(2-)
proof (induction S arbitrary: mp R)
  case Nil
  then show ?case by simp
next
  case (Cons r S)
  obtain mp1 where mp1: "unlink_ancestors r mp = Some mp1" "removing L mp0 (insert r R) mp1"
    using unlink_step [OF inv Cons.prems(1), of r] Cons.prems(3,4) by auto
  have "\<exists>mp'. each unlink_ancestors S mp1 = Some mp' \<and> removing L mp0 (insert r R \<union> set S) mp'"
    by (rule Cons.IH [OF mp1(2)]) (use Cons.prems in auto)
  then show ?case using mp1(1) by simp
qed

subsection \<open>Cutting the links to children that stay\<close>

lemma cut_children:
  assumes "links_ok mp P C" "usage_ok mp" "set S \<subseteq> keys mp" "C \<subseteq> keys mp \<times> keys mp"
  shows "\<exists>mp'. each UpdateChildrenForRemoval S mp = Some mp' \<and> links_ok mp' (P - {(r, c). r \<in> set S \<and> (r, c) \<in> C}) C
    \<and> usage_ok mp' \<and> same_but_links mp mp'"
  using assms
proof (induction S arbitrary: mp P)
  case Nil
  then show ?case by simp
next
  case (Cons r S)
  obtain cs where cs: "GetMemPoolChildren mp r = Some cs" "ent_ok cs" "set cs = {c. (r, c) \<in> C}"
    using GetMemPoolChildren_ok [OF Cons.prems(1), of r] Cons.prems(3) by auto
  let ?mp = "fold (\<lambda>c. UpdateParent c r False) cs mp"
  have 1: "links_ok ?mp (P - {r} \<times> set cs) C" "usage_ok ?mp" "same_but_links mp ?mp"
    using fold_UpdateParent_children [OF Cons.prems(1,2), of cs r] cs(3) Cons.prems(4) by auto
  have k: "keys ?mp = keys mp" by (rule same_but_links_keys [OF 1(3)])
  have "\<exists>mp'. each UpdateChildrenForRemoval S ?mp = Some mp'
      \<and> links_ok mp' (P - {r} \<times> set cs - {(r, c). r \<in> set S \<and> (r, c) \<in> C}) C \<and> usage_ok mp' \<and> same_but_links ?mp mp'"
    by (rule Cons.IH [OF 1(1,2)]) (use Cons.prems(3,4) k in auto)
  moreover have "P - {r} \<times> set cs - {(r, c). r \<in> set S \<and> (r, c) \<in> C} = P - {(r', c). r' \<in> set (r # S) \<and> (r', c) \<in> C}"
    using cs(3) by auto
  moreover have "UpdateChildrenForRemoval r mp = Some ?mp" by (simp add: UpdateChildrenForRemoval_def cs(1))
  ultimately show ?case using same_but_links_trans [OF 1(3)] by (auto simp del: set_simps)
qed

subsection \<open>Erasing\<close>

lemma fold_map_erase:
  assumes "map_ok f m"
  shows "map_ok f (fold (\<lambda>i. map_erase (g i)) vin m)
    \<and> (\<forall>p. map_of (fold (\<lambda>i. map_erase (g i)) vin m) p = (if p \<in> g ` set vin then None else map_of m p))"
  using assms
proof (induction vin arbitrary: m)
  case Nil
  then show ?case by simp
next
  case (Cons i vin)
  show ?case using Cons.IH [OF map_ok_erase [OF Cons.prems], of "g i"] by (auto simp: map_of_map_erase)
qed

text \<open>What erasing one entry keeps; the totals of the other entries are not touched.\<close>

definition erasing :: "(txiter \<times> txiter) set \<Rightarrow> (txiter \<times> txiter) set \<Rightarrow> CTxMemPool \<Rightarrow> bool" where
  "erasing P C mp \<longleftrightarrow> map_ok ser_uint256 (mp_mapTx mp) \<and> links_ok mp P C \<and> usage_ok mp \<and> next_ok mp
     \<and> mp_totalTxSize mp = sum_size mp (keys mp)"

lemma removeUnchecked_step:
  assumes "erasing P C mp" "r \<in> keys mp"
  obtains mp' where "removeUnchecked r mp = Some mp'" "erasing P C mp'" "keys mp' = keys mp - {r}"
    "\<And>h. h \<noteq> r \<Longrightarrow> ent mp' h = ent mp h" "mp_mapDeltas mp' = mp_mapDeltas mp"
proof -
  note e = assms(1) [unfolded erasing_def]
  define mp' where "mp' = the (removeUnchecked r mp)"
  let ?l = "links_at mp r" and ?vin = "tx_vin (me_tx (ent mp r))"
  have res: "removeUnchecked r mp = Some mp'" by (simp add: mp'_def removeUnchecked_def entry_ent [OF assms(2)])
  have mp': "mp' = mp\<lparr> mp_mapNextTx := fold (\<lambda>i. map_erase (txin_prevout i)) ?vin (mp_mapNextTx mp),
           mp_totalTxSize := mp_totalTxSize mp - me_nTxSize (ent mp r),
           mp_cachedInnerUsage := mp_cachedInnerUsage mp - me_nUsageSize (ent mp r) - links_usage ?l,
           mp_mapLinks := (mp_mapLinks mp)(r := None), mp_mapTx := map_erase r (mp_mapTx mp),
           mp_nTransactionsUpdated := mp_nTransactionsUpdated mp + 1 \<rparr>"
    by (simp add: mp'_def removeUnchecked_def entry_ent [OF assms(2)] Let_def links_usage_def)
  have k: "keys mp' = keys mp - {r}" by (simp add: mp' keys_def keys_map_erase)
  have en: "ent mp' h = ent mp h" if "h \<noteq> r" for h using that by (simp add: mp' ent_def map_of_map_erase)
  have la: "links_at mp' h = links_at mp h" if "h \<noteq> r" for h using that by (simp add: mp' links_at_def)
  have "map_ok ser_uint256 (mp_mapTx mp')" using e by (simp add: mp' map_ok_erase)
  moreover have "links_ok mp' P C"
    using e k unfolding links_ok_def mp' by (auto split: if_splits)
  moreover have "usage_ok mp'"
  proof -
    let ?f = "\<lambda>mp h. me_nUsageSize (ent mp h) + links_usage (links_at mp h)"
    have "mp_cachedInnerUsage mp = ?f mp r + (\<Sum>h\<in>keys mp - {r}. ?f mp h)"
      using e sum.remove [OF finite_keys assms(2), of "?f mp"] by (simp add: usage_ok_def)
    moreover have "(\<Sum>h\<in>keys mp'. ?f mp' h) = (\<Sum>h\<in>keys mp - {r}. ?f mp h)"
      unfolding k by (rule sum.cong [OF refl]) (simp add: en la)
    ultimately show ?thesis unfolding usage_ok_def by (simp add: mp')
  qed
  moreover have "next_ok mp'"
  proof -
    have f: "map_ok id (mp_mapNextTx mp')" "next_tx mp' p = (if p \<in> outpoints (ent mp r) then None else next_tx mp p)" for p
      using fold_map_erase [of id "mp_mapNextTx mp" txin_prevout ?vin] e by (simp_all add: mp' next_ok_def outpoints_def)
    have n: "next_tx mp p = Some h \<longleftrightarrow> h \<in> keys mp \<and> p \<in> outpoints (ent mp h)" for p h using e by (simp add: next_ok_def)
    have "next_tx mp' p = Some h \<longleftrightarrow> h \<in> keys mp' \<and> p \<in> outpoints (ent mp' h)" for p h
    proof (cases "p \<in> outpoints (ent mp r)")
      case True
      then have "next_tx mp p = Some r" using n assms(2) by blast
      then have "h \<in> keys mp \<and> p \<in> outpoints (ent mp h) \<longleftrightarrow> h = r" using n [of p h] by auto
      then show ?thesis using True en [of h] unfolding f(2) k by auto
    next
      case False
      then show ?thesis using n [of p h] en [of h] unfolding f(2) k by (cases "h = r") auto
    qed
    then show ?thesis using f(1) by (simp add: next_ok_def)
  qed
  moreover have "mp_totalTxSize mp' = sum_size mp' (keys mp')"
  proof -
    have "sum_size mp (keys mp) = me_nTxSize (ent mp r) + sum_size mp (keys mp - {r})"
      unfolding sum_size_def by (rule sum.remove [OF finite_keys assms(2)])
    moreover have "sum_size mp' (keys mp') = sum_size mp (keys mp - {r})" unfolding k by (rule sums_cong) (simp add: en)
    ultimately show ?thesis using e by (simp add: mp')
  qed
  ultimately have er: "erasing P C mp'" by (simp add: erasing_def)
  show thesis by (rule that [OF res er k en]) (simp_all add: mp')
qed

lemma removeUnchecked_all:
  assumes "erasing P C mp" "distinct S" "set S \<subseteq> keys mp"
  shows "\<exists>mp'. each removeUnchecked S mp = Some mp' \<and> erasing P C mp' \<and> keys mp' = keys mp - set S
    \<and> (\<forall>h. h \<notin> set S \<longrightarrow> ent mp' h = ent mp h) \<and> mp_mapDeltas mp' = mp_mapDeltas mp"
  using assms
proof (induction S arbitrary: mp)
  case Nil
  then show ?case by simp
next
  case (Cons r S)
  obtain mp1 where mp1: "removeUnchecked r mp = Some mp1" "erasing P C mp1" "keys mp1 = keys mp - {r}"
      "\<And>h. h \<noteq> r \<Longrightarrow> ent mp1 h = ent mp h" "mp_mapDeltas mp1 = mp_mapDeltas mp"
    using removeUnchecked_step [OF Cons.prems(1), of r] Cons.prems(3) by auto
  obtain mp' where mp': "each removeUnchecked S mp1 = Some mp'" "erasing P C mp'" "keys mp' = keys mp1 - set S"
      "\<forall>h. h \<notin> set S \<longrightarrow> ent mp' h = ent mp1 h" "mp_mapDeltas mp' = mp_mapDeltas mp1"
    using Cons.IH [OF mp1(2)] Cons.prems(2,3) mp1(3) by auto
  then show ?case using mp1 by (intro exI [of _ mp']) auto
qed

subsection \<open>Removing a set of entries\<close>

text \<open>No path between entries that stay leads through the set.\<close>

definition separable :: "(txiter \<times> txiter) set \<Rightarrow> txiter set \<Rightarrow> bool" where
  "separable L S \<longleftrightarrow> (\<forall>a b. a \<notin> S \<longrightarrow> b \<notin> S \<longrightarrow> (a, b) \<in> L\<^sup>* \<longrightarrow> (a, b) \<in> (L \<inter> (- S) \<times> (- S))\<^sup>*)"

lemma separable_descendants: "L `` S \<subseteq> S \<Longrightarrow> separable L S"
proof -
  assume cl: "L `` S \<subseteq> S"
  have "b \<notin> S \<longrightarrow> (a, b) \<in> (L \<inter> (- S) \<times> (- S))\<^sup>*" if "(a, b) \<in> L\<^sup>*" for a b
    using that
  proof (induction rule: rtrancl_induct)
    case (step b c)
    show ?case
    proof
      assume c: "c \<notin> S"
      then have "b \<notin> S" using step(2) cl by auto
      then show "(a, c) \<in> (L \<inter> (- S) \<times> (- S))\<^sup>*" using step c by (auto intro: rtrancl_into_rtrancl)
    qed
  qed simp
  then show ?thesis by (simp add: separable_def)
qed

lemma separable_ancestors: "L\<inverse> `` S \<subseteq> S \<Longrightarrow> separable L S"
proof -
  assume cl: "L\<inverse> `` S \<subseteq> S"
  have "a \<notin> S \<longrightarrow> (a, b) \<in> (L \<inter> (- S) \<times> (- S))\<^sup>*" if "(a, b) \<in> L\<^sup>*" for a b
    using that
  proof (induction rule: converse_rtrancl_induct)
    case (step a c)
    show ?case
    proof
      assume a: "a \<notin> S"
      then have "c \<notin> S" using step(1) cl by auto
      then show "(a, b) \<in> (L \<inter> (- S) \<times> (- S))\<^sup>*" using step a by (auto intro: converse_rtrancl_into_rtrancl)
    qed
  qed simp
  then show ?thesis by (simp add: separable_def)
qed

lemma links_ok_cong:
  assumes "links_ok mp P C" "\<And>h p. h \<in> keys mp \<Longrightarrow> (p, h) \<in> P \<longleftrightarrow> (p, h) \<in> P'" "\<And>h c. h \<in> keys mp \<Longrightarrow> (h, c) \<in> C \<longleftrightarrow> (h, c) \<in> C'"
  shows "links_ok mp P' C'"
proof -
  have "h \<in> keys mp" if "mp_mapLinks mp h = Some l" for h l using assms(1) that by (auto simp: links_ok_def)
  then have "set (lk_parents l) = {p. (p, h) \<in> P'} \<and> set (lk_children l) = {c. (h, c) \<in> C'}" if "mp_mapLinks mp h = Some l" for h l
    using assms that unfolding links_ok_def by auto
  then show ?thesis using assms(1) by (simp add: links_ok_def)
qed

lemma RemoveStaged_ok:
  assumes inv: "pool_inv H L mp" and S: "ent_ok S" "set S \<subseteq> keys mp" "separable L (set S)"
  obtains mp' where "RemoveStaged S mp = Some mp'" "pool_inv H (L \<inter> (- set S) \<times> (- set S)) mp'" "keys mp' = keys mp - set S"
    "\<And>h. h \<in> keys mp' \<Longrightarrow> static (ent mp' h) = static (ent mp h)" "mp_mapDeltas mp' = mp_mapDeltas mp"
proof -
  note i = pool_invD [OF inv]
  let ?S = "set S" and ?L = "L \<inter> (- set S) \<times> (- set S)"
  have Lk: "L \<subseteq> keys mp \<times> keys mp" using i(3) spends_keys by blast
  have "removing L mp {} mp" using i by (simp add: removing_def)
  then obtain mp1 where mp1: "each unlink_ancestors S mp = Some mp1" "removing L mp ?S mp1"
    using unlink_all [OF inv _ ent_ok_distinct [OF S(1)] _ S(2), of "{}" mp] by auto
  note r1 = mp1(2) [unfolded removing_def]
  have same: "same_entries mp mp1" and k1: "keys mp1 = keys mp" using r1 same_entries_keys by auto
  obtain mp2 where mp2: "each UpdateChildrenForRemoval S mp1 = Some mp2"
      "links_ok mp2 (L - {(r, c). r \<in> ?S \<and> (r, c) \<in> L - UNIV \<times> ?S}) (L - UNIV \<times> ?S)" "usage_ok mp2" "same_but_links mp1 mp2"
    using cut_children [of mp1 L "L - UNIV \<times> ?S" S] r1 S(2) k1 Lk by auto
  have k2: "keys mp2 = keys mp" "ent mp2 = ent mp1" using mp2(4) k1 by (simp_all add: same_but_links_keys same_but_links_ent)
  have e1: "pool_entries_ok H mp1" by (rule same_entries_inv(1) [OF same _ i(1)]) (use r1 in simp)
  have n1: "next_ok mp1" by (rule same_entries_inv(2) [OF same _ i(6)]) (use r1 in simp)
  let ?P = "L - {(r, c). r \<in> ?S \<and> (r, c) \<in> L - UNIV \<times> ?S}" and ?C = "L - UNIV \<times> ?S"
  have "erasing ?P ?C mp2"
    unfolding erasing_def
  proof (intro conjI mp2(2,3))
    show "map_ok ser_uint256 (mp_mapTx mp2)" using e1 mp2(4) by (simp add: pool_entries_ok_def same_but_links_def)
    show "next_ok mp2" using n1 mp2(4) unfolding next_ok_def keys_def ent_def same_but_links_def by simp
    show "mp_totalTxSize mp2 = sum_size mp2 (keys mp2)"
      using e1 mp2(4) by (simp add: pool_entries_ok_def k2 k1 same_but_links_def sum_size_def)
  qed
  then obtain mp' where mp': "each removeUnchecked S mp2 = Some mp'" "erasing ?P ?C mp'" "keys mp' = keys mp - ?S"
      "\<forall>h. h \<notin> ?S \<longrightarrow> ent mp' h = ent mp1 h" "mp_mapDeltas mp' = mp_mapDeltas mp2"
    using removeUnchecked_all [of ?P ?C mp2 S] ent_ok_distinct [OF S(1)] S(2) k2 by auto
  note er = mp'(2) [unfolded erasing_def]
  have res: "RemoveStaged S mp = Some mp'" by (simp add: RemoveStaged_def UpdateForRemoveFromMempool_def mp1(1) mp2(1) mp'(1))
  have st: "static (ent mp' h) = static (ent mp h)" if "h \<in> keys mp'" for h
    using that mp'(3,4) same by (auto simp: same_entries_def)
  have "pool_inv H ?L mp'"
    unfolding pool_inv_def
  proof (intro conjI)
    have sz: "mp_totalTxSize mp' = sum_size mp (keys mp - ?S)"
    proof -
      have "mp_totalTxSize mp' = sum_size mp1 (keys mp - ?S)"
        using er mp'(3,4) by (auto simp: sum_size_def intro!: sum.cong)
      also have "\<dots> = sum_size mp (keys mp - ?S)" by (rule same_entries_sums(1) [OF same]) blast
      finally show ?thesis .
    qed
    have "sum_size mp (keys mp - ?S) < 2 ^ 63" by (rule sum_size_bounds(2) [OF i(1)]) blast
    then show "pool_entries_ok H mp'"
      unfolding pool_entries_ok_def using er sz staticD(1,2) [OF st] i(1) mp'(3) by (auto simp: pool_entries_ok_def)
    have lk: "links_ok mp' ?P ?C" using er by simp
    show "links_ok mp' ?L ?L" by (rule links_ok_cong [OF lk]) (use mp'(3) in auto)
    have "parent_ids (ent mp' h) = parent_ids (ent mp h)" if "h \<in> keys mp'" for h using staticD(6) [OF st [OF that]] .
    then show "?L \<subseteq> spends mp'" using i(3) unfolding spends_def mp'(3) by auto
    show "acyclic ?L" by (rule acyclic_subset [OF i(4)]) blast
    show "totals_ok mp' (\<lambda>h. ?L\<^sup>* `` {h})"
    proof -
      have "totals_of mp' (?L\<^sup>* `` {h}) (ent mp' h)" if h: "h \<in> keys mp'" for h
      proof -
        have hS: "h \<in> keys mp" "h \<notin> ?S" using h mp'(3) by auto
        have "?L\<^sup>* `` {h} \<subseteq> - ?S"
        proof
          fix b assume "b \<in> ?L\<^sup>* `` {h}"
          then have "(h, b) \<in> ?L\<^sup>*" by simp
          then show "b \<in> - ?S" by (cases rule: rtranclE) (use hS in auto)
        qed
        moreover have "?L\<^sup>* \<subseteq> L\<^sup>*" by (rule rtrancl_mono) blast
        ultimately have D: "L\<^sup>* `` {h} - (?S - {h}) = ?L\<^sup>* `` {h}" using S(3) hS(2) unfolding separable_def by blast
        have sub: "?L\<^sup>* `` {h} \<subseteq> keys mp - ?S" unfolding D [symmetric] using rtrancl_keys [OF Lk] hS by blast
        have "totals_of mp1 (?L\<^sup>* `` {h}) (ent mp1 h)" using r1 hS(1) k1 unfolding totals_ok_def D [symmetric] by blast
        moreover have "sum_size mp' (?L\<^sup>* `` {h}) = sum_size mp1 (?L\<^sup>* `` {h})" "sum_fee mp' (?L\<^sup>* `` {h}) = sum_fee mp1 (?L\<^sup>* `` {h})"
          using sub mp'(4) by (auto intro!: sums_cong)
        ultimately show ?thesis using mp'(4) hS(2) unfolding totals_of_def by simp
      qed
      then show ?thesis by (simp add: totals_ok_def)
    qed
    show "next_ok mp'" "usage_ok mp'" using er by simp_all
  qed
  moreover have "mp_mapDeltas mp' = mp_mapDeltas mp" using mp'(5) mp2(4) r1 by (simp add: same_but_links_def)
  ultimately show thesis using that [OF res] mp'(3) st by blast
qed

end
