(* ===== verification/Mempool_Correct.thy ===== *)
theory Mempool_Correct
  imports Mempool_Remove Mempool_Limit
begin

text \<open>
  What the operations of the pool promise outside a reorganisation: they succeed, keep \<open>pool_ok\<close>, and add or remove exactly
  the entries that they should.
\<close>

subsection \<open>Adding\<close>

lemma pool_okD:
  assumes "pool_ok H mp"
  shows "pool_entries_ok H mp" "links_ok mp (spends mp) (spends mp)" "acyclic (spends mp)"
    "totals_ok mp (\<lambda>h. (spends mp)\<^sup>* `` {h})" "next_ok mp" "usage_ok mp" "map_ok ser_uint256 (mp_mapTx mp)"
  using assms by (simp_all add: pool_ok_def pool_inv_def pool_entries_ok_def)

lemma pool_descendants_keys: "h \<in> keys mp \<Longrightarrow> (spends mp)\<^sup>* `` {h} \<subseteq> keys mp"
  using rtrancl_keys [OF spends_keys] by blast

lemma pool_bounded: "pool_ok H mp \<Longrightarrow> bounded mp"
  by (rule bounded_totals [OF pool_okD(1,4) pool_descendants_keys])

text \<open>The ancestors in the pool of a transaction that is not in it.\<close>

definition pool_ancestors :: "CTxMemPool \<Rightarrow> CTxMemPoolEntry \<Rightarrow> txiter set" where
  "pool_ancestors mp e = ancestors_of (spends mp) (parent_ids e \<inter> keys mp)"

lemma CalculateMemPoolAncestors_pool:
  assumes "pool_ok H mp" "0 \<le> me_nTxSize e" "me_nTxSize e < 2 ^ 63"
  shows "case CalculateMemPoolAncestors mp lims e None of
      Some (Inr A) \<Rightarrow> ent_ok A \<and> set A = pool_ancestors mp e \<and> within_limits mp lims (me_nTxSize e) (pool_ancestors mp e)
    | Some (Inl _) \<Rightarrow> \<not> within_limits mp lims (me_nTxSize e) (pool_ancestors mp e)
    | None \<Rightarrow> False"
  unfolding pool_ancestors_def
  by (rule CalculateMemPoolAncestors_search [OF pool_okD(1,2) [OF assms(1)] spends_keys pool_bounded [OF assms(1)] assms(2,3)])

lemma spends_added:
  assumes "keys mp' = insert h (keys mp)" "h \<notin> keys mp" "h \<notin> parent_ids e"
    and "\<And>k. k \<in> keys mp \<Longrightarrow> parent_ids (ent mp' k) = parent_ids (ent mp k)" "parent_ids (ent mp' h) = parent_ids e"
    and "\<And>k. k \<in> keys mp \<Longrightarrow> h \<notin> parent_ids (ent mp k)"
  shows "spends mp' = links_added mp (spends mp) h e"
  using assms unfolding spends_def links_added_def by auto

lemma addUnchecked_pool_ok:
  assumes ok: "pool_ok H mp" and add: "addable H mp e" and h: "h = tx_GetHash H (me_tx e)"
    and child: "\<And>k. k \<in> keys mp \<Longrightarrow> h \<notin> parent_ids (ent mp k)" and A: "ent_ok A" "set A = pool_ancestors mp e"
  obtains mp' where "addUnchecked H h e A mp = Some mp'" "pool_ok H mp'" "keys mp' = insert h (keys mp)"
    "\<And>k. k \<in> keys mp \<Longrightarrow> static (ent mp' k) = static (ent mp k)" "static (ent mp' h) = static (with_delta mp h e)"
    "mp_mapDeltas mp' = mp_mapDeltas mp"
proof -
  have inv: "pool_inv H (spends mp) mp" using ok by (simp add: pool_ok_def)
  obtain mp' where m: "addUnchecked H h e A mp = Some mp'" "pool_inv H (links_added mp (spends mp) h e) mp'" "keys mp' = insert h (keys mp)"
    "\<And>k. k \<in> keys mp \<Longrightarrow> static (ent mp' k) = static (ent mp k)" "static (ent mp' h) = static (with_delta mp h e)"
    "mp_mapDeltas mp' = mp_mapDeltas mp"
    by (rule addUnchecked_ok [OF inv add h A(1) A(2) [unfolded pool_ancestors_def]], rule that) assumption+
  have "h \<notin> keys mp" "h \<notin> parent_ids e" using add h by (simp_all add: addable_def)
  then have "spends mp' = links_added mp (spends mp) h e"
    by (rule spends_added [OF m(3)]) (use staticD(6) [OF m(4)] staticD(6) [OF m(5)] child in auto)
  then have "pool_ok H mp'" using m(2) by (simp add: pool_ok_def)
  then show thesis using that m by blast
qed

subsection \<open>Removing\<close>

lemma spends_removed:
  assumes "keys mp' = keys mp - S" "\<And>k. k \<in> keys mp' \<Longrightarrow> parent_ids (ent mp' k) = parent_ids (ent mp k)"
  shows "spends mp' = spends mp \<inter> (- S) \<times> (- S)"
  using assms unfolding spends_def by auto

text \<open>What remains of the pool: some entries, unchanged but for their totals, with their fee deltas.\<close>

definition delta_at :: "CTxMemPool \<Rightarrow> uint256 \<Rightarrow> int" where
  "delta_at mp h = (case map_of (mp_mapDeltas mp) h of None \<Rightarrow> 0 | Some d \<Rightarrow> d)"

definition shrunk :: "CTxMemPool \<Rightarrow> CTxMemPool \<Rightarrow> bool" where
  "shrunk mp mp' \<longleftrightarrow> keys mp' \<subseteq> keys mp \<and> (\<forall>k\<in>keys mp'. static (ent mp' k) = static (ent mp k) \<and> delta_at mp' k = delta_at mp k)"

lemma shrunk_refl [simp]: "shrunk mp mp" by (simp add: shrunk_def)

lemma shrunk_trans: "shrunk mp mp' \<Longrightarrow> shrunk mp' mp'' \<Longrightarrow> shrunk mp mp''"
  unfolding shrunk_def by (metis subsetD subset_trans)

lemma shrunk_ids: "shrunk mp mp' \<Longrightarrow> k \<in> keys mp' \<Longrightarrow> parent_ids (ent mp' k) = parent_ids (ent mp k) \<and> outpoints (ent mp' k) = outpoints (ent mp k)"
  unfolding shrunk_def by (metis staticD(5,6))

text \<open>What remains when entries were removed with all their descendants.\<close>

definition trimmed :: "(byte list \<Rightarrow> uint256) \<Rightarrow> CTxMemPool \<Rightarrow> CTxMemPool \<Rightarrow> bool" where
  "trimmed H mp mp' \<longleftrightarrow> pool_ok H mp' \<and> shrunk mp mp' \<and> spends mp `` (keys mp - keys mp') \<subseteq> keys mp - keys mp'"

lemma trimmed_trans:
  assumes "trimmed H mp mp1" "trimmed H mp1 mp2"
  shows "trimmed H mp mp2"
proof -
  have sh: "shrunk mp mp2" using assms shrunk_trans by (auto simp: trimmed_def)
  have "c \<in> keys mp - keys mp2" if "(p, c) \<in> spends mp" "p \<in> keys mp - keys mp2" for p c
  proof (cases "p \<in> keys mp1")
    case False
    then have "c \<in> keys mp - keys mp1" using assms(1) that by (auto simp: trimmed_def)
    then show ?thesis using assms(2) by (auto simp: trimmed_def shrunk_def)
  next
    case p: True
    show ?thesis
    proof (cases "c \<in> keys mp1")
      case True
      then have "(p, c) \<in> spends mp1"
        using p that(1) assms(1) shrunk_ids [of mp mp1 c] by (auto simp: spends_def trimmed_def)
      then show ?thesis using assms p that spends_keys by (auto simp: trimmed_def)
    next
      case False
      then show ?thesis using assms(2) that(1) by (auto simp: trimmed_def shrunk_def spends_def)
    qed
  qed
  then show ?thesis using assms(2) sh by (auto simp: trimmed_def)
qed

lemma trimmed_self: "pool_ok H mp \<Longrightarrow> trimmed H mp mp" by (simp add: trimmed_def)

lemma removed_trimmed:
  assumes "pool_ok H mp'" "shrunk mp mp'" "keys mp' = keys mp - (spends mp)\<^sup>* `` S"
  shows "trimmed H mp mp'"
proof -
  have "y \<in> keys mp - keys mp'" if "(x, y) \<in> spends mp" "x \<in> keys mp - keys mp'" for x y
  proof -
    have "x \<in> (spends mp)\<^sup>* `` S" using that(2) unfolding assms(3) by blast
    then have "y \<in> (spends mp)\<^sup>* `` S" using that(1) by (meson Image_iff rtrancl_into_rtrancl)
    then show ?thesis using that(1) spends_keys [of mp] unfolding assms(3) by blast
  qed
  then show ?thesis using assms(1,2) by (auto simp: trimmed_def)
qed

lemma RemoveStaged_pool_ok:
  assumes ok: "pool_ok H mp" and S: "ent_ok S" "set S \<subseteq> keys mp" "separable (spends mp) (set S)"
  obtains mp' where "RemoveStaged S mp = Some mp'" "pool_ok H mp'" "keys mp' = keys mp - set S" "shrunk mp mp'" "mp_mapDeltas mp' = mp_mapDeltas mp"
proof -
  have inv: "pool_inv H (spends mp) mp" using ok by (simp add: pool_ok_def)
  obtain mp' where m: "RemoveStaged S mp = Some mp'" "pool_inv H (spends mp \<inter> (- set S) \<times> (- set S)) mp'" "keys mp' = keys mp - set S"
    "\<And>h. h \<in> keys mp' \<Longrightarrow> static (ent mp' h) = static (ent mp h)" "mp_mapDeltas mp' = mp_mapDeltas mp"
    by (rule RemoveStaged_ok [OF inv S], rule that) assumption+
  have "spends mp' = spends mp \<inter> (- set S) \<times> (- set S)"
    by (rule spends_removed [OF m(3)]) (use staticD(6) [OF m(4)] in blast)
  then have "pool_ok H mp'" using m(2) by (simp add: pool_ok_def)
  moreover have "shrunk mp mp'" using m(3,4,5) by (auto simp: shrunk_def delta_at_def)
  ultimately show thesis using that m by blast
qed

lemma CalculateDescendants_pool:
  assumes "pool_ok H mp" "ent_ok D" "set D \<subseteq> keys mp" "spends mp `` set D \<subseteq> set D" "h \<in> keys mp"
  obtains R where "CalculateDescendants mp h D = Some R" "ent_ok R" "set R = set D \<union> (spends mp)\<^sup>* `` {h}"
    "set R \<subseteq> keys mp" "spends mp `` set R \<subseteq> set R"
  by (rule CalculateDescendants_ok [OF pool_okD(2) [OF assms(1)] spends_keys pool_okD(7) [OF assms(1)] assms(2-5)], rule that) assumption+

lemma each_CalculateDescendants:
  assumes "pool_ok H mp" "ent_ok D" "set D \<subseteq> keys mp" "spends mp `` set D \<subseteq> set D" "set hs \<subseteq> keys mp"
  shows "\<exists>R. each (CalculateDescendants mp) hs D = Some R \<and> ent_ok R \<and> set R = set D \<union> (spends mp)\<^sup>* `` set hs
    \<and> set R \<subseteq> keys mp \<and> spends mp `` set R \<subseteq> set R"
  using assms(2-)
proof (induction hs arbitrary: D)
  case Nil
  then show ?case by simp
next
  case (Cons h hs)
  obtain R where R: "CalculateDescendants mp h D = Some R" "ent_ok R" "set R = set D \<union> (spends mp)\<^sup>* `` {h}"
    "set R \<subseteq> keys mp" "spends mp `` set R \<subseteq> set R"
    using CalculateDescendants_pool [OF assms(1) Cons.prems(1-3), of h] Cons.prems(4) by auto
  obtain R' where R': "each (CalculateDescendants mp) hs R = Some R'" "ent_ok R'" "set R' = set R \<union> (spends mp)\<^sup>* `` set hs"
    "set R' \<subseteq> keys mp" "spends mp `` set R' \<subseteq> set R'"
    using Cons.IH [OF R(2,4,5)] Cons.prems(4) by auto
  have "set R' = set D \<union> (spends mp)\<^sup>* `` set (h # hs)" unfolding R'(3) R(3) by auto
  then show ?case using R(1) R'(1,2,4,5) by simp
qed

text \<open>A set of entries with all their descendants can be removed.\<close>

lemma remove_closed:
  assumes "pool_ok H mp" "set hs \<subseteq> keys mp"
  obtains R mp' where "each (CalculateDescendants mp) hs [] = Some R" "set R = (spends mp)\<^sup>* `` set hs" "ent_ok R"
    "RemoveStaged R mp = Some mp'" "pool_ok H mp'" "keys mp' = keys mp - (spends mp)\<^sup>* `` set hs" "shrunk mp mp'"
    "mp_mapDeltas mp' = mp_mapDeltas mp"
proof -
  obtain R where R: "each (CalculateDescendants mp) hs [] = Some R" "ent_ok R" "set R = (spends mp)\<^sup>* `` set hs"
    "set R \<subseteq> keys mp" "spends mp `` set R \<subseteq> set R"
    using each_CalculateDescendants [OF assms(1), of "[]" hs] assms(2) by auto
  obtain mp' where m: "RemoveStaged R mp = Some mp'" "pool_ok H mp'" "keys mp' = keys mp - set R" "shrunk mp mp'"
      "mp_mapDeltas mp' = mp_mapDeltas mp"
    by (rule RemoveStaged_pool_ok [OF assms(1) R(2,4) separable_descendants [OF R(5)]], rule that) assumption+
  show thesis by (rule that [OF R(1,3,2) m(1,2) m(3) [unfolded R(3)] m(4,5)])
qed

text \<open>The entries that \<open>remove\<close> starts from.\<close>

definition spender_set :: "CTxMemPool \<Rightarrow> uint256 \<Rightarrow> nat set \<Rightarrow> txiter set" where
  "spender_set mp h I = {c. \<exists>i\<in>I. next_tx mp (COutPoint h (of_nat i)) = Some c}"

lemma spenders_of_ok:
  assumes "next_ok mp" "ent_ok S" "set S \<subseteq> keys mp"
  shows "\<exists>R. spenders_of mp h i n S = Some R \<and> ent_ok R \<and> set R = set S \<union> spender_set mp h {i..<i + n} \<and> set R \<subseteq> keys mp"
  using assms(2,3)
proof (induction n arbitrary: i S)
  case 0
  then show ?case by (simp add: spender_set_def)
next
  case (Suc n)
  have "{i..<i + Suc n} = {i} \<union> {Suc i..<Suc i + n}" by auto
  then have split: "spender_set mp h {i..<i + Suc n} = spender_set mp h {i} \<union> spender_set mp h {Suc i..<Suc i + n}"
    unfolding spender_set_def by blast
  show ?case
  proof (cases "next_tx mp (COutPoint h (of_nat i))")
    case None
    then have "spender_set mp h {i} = {}" by (simp add: spender_set_def)
    then show ?thesis using Suc.IH [of S "Suc i"] Suc.prems None unfolding split by simp
  next
    case (Some c)
    have c: "c \<in> keys mp" using assms(1) Some by (simp add: next_ok_def)
    have "spender_set mp h {i} = {c}" using Some by (auto simp: spender_set_def)
    then show ?thesis using c Suc.IH [of "entries_insert c S" "Suc i"] Suc.prems Some unfolding split by (auto simp: exists_keys)
  qed
qed

text \<open>The transaction itself if it is in the pool, else the spenders of its outputs.\<close>

definition remove_roots :: "(byte list \<Rightarrow> uint256) \<Rightarrow> CTransaction \<Rightarrow> CTxMemPool \<Rightarrow> txiter set" where
  "remove_roots H tx mp =
     (if tx_GetHash H tx \<in> keys mp then {tx_GetHash H tx} else spender_set mp (tx_GetHash H tx) {0..<length (tx_vout tx)})"

lemma remove_tx_recursive:
  assumes ok: "pool_ok H mp"
  obtains mp' removed where "remove_tx H tx True mp = Some (mp', removed)" "pool_ok H mp'" "shrunk mp mp'"
    "keys mp' = keys mp - (spends mp)\<^sup>* `` remove_roots H tx mp"
    "set removed = (\<lambda>k. me_tx (ent mp k)) ` (spends mp)\<^sup>* `` remove_roots H tx mp" "mp_mapDeltas mp' = mp_mapDeltas mp"
proof -
  let ?h = "tx_GetHash H tx"
  obtain S where S: "(if exists_tx mp ?h then Some (entries_insert ?h []) else spenders_of mp ?h 0 (length (tx_vout tx)) []) = Some S"
      "set S = remove_roots H tx mp" "set S \<subseteq> keys mp"
  proof (cases "?h \<in> keys mp")
    case True
    then show thesis by (intro that [of "entries_insert ?h []"]) (simp_all add: exists_keys remove_roots_def)
  next
    case False
    obtain R where "spenders_of mp ?h 0 (length (tx_vout tx)) [] = Some R" "set R = spender_set mp ?h {0..<length (tx_vout tx)}"
        "set R \<subseteq> keys mp"
      using spenders_of_ok [OF pool_okD(5) [OF ok], of "[]" ?h 0 "length (tx_vout tx)"] by auto
    then show thesis using False by (intro that [of R]) (simp_all add: exists_keys remove_roots_def)
  qed
  obtain R mp' where R: "each (CalculateDescendants mp) S [] = Some R" "set R = (spends mp)\<^sup>* `` set S" "ent_ok R"
    "RemoveStaged R mp = Some mp'" "pool_ok H mp'" "keys mp' = keys mp - (spends mp)\<^sup>* `` set S" "shrunk mp mp'"
    "mp_mapDeltas mp' = mp_mapDeltas mp"
    by (rule remove_closed [OF ok S(3)], rule that) assumption+
  show thesis
  proof (rule that)
    show "remove_tx H tx True mp = Some (mp', map (\<lambda>h. me_tx (the (entry mp h))) R)"
      using S(1) R(1,4) by (cases "exists_tx mp ?h") (simp_all add: remove_tx_def Let_def)
    show "keys mp' = keys mp - (spends mp)\<^sup>* `` remove_roots H tx mp" using R(6) S(2) by simp
    show "set (map (\<lambda>h. me_tx (the (entry mp h))) R) = (\<lambda>k. me_tx (ent mp k)) ` (spends mp)\<^sup>* `` remove_roots H tx mp"
      using R(2) S(2) by (simp add: ent_def)
  qed (rule R)+
qed

text \<open>A transaction without a parent in the pool is removed alone.\<close>

lemma remove_tx_single:
  assumes ok: "pool_ok H mp" and root: "\<And>p. (p, tx_GetHash H tx) \<notin> spends mp"
  obtains mp' removed where "remove_tx H tx False mp = Some (mp', removed)" "pool_ok H mp'" "shrunk mp mp'"
    "keys mp' = keys mp - {tx_GetHash H tx}" "mp_mapDeltas mp' = mp_mapDeltas mp"
proof -
  let ?h = "tx_GetHash H tx" and ?S = "if tx_GetHash H tx \<in> keys mp then [tx_GetHash H tx] else []"
  have "separable (spends mp) (set ?S)" using root by (intro separable_ancestors) auto
  then obtain mp' where m: "RemoveStaged ?S mp = Some mp'" "pool_ok H mp'" "keys mp' = keys mp - set ?S" "shrunk mp mp'"
      "mp_mapDeltas mp' = mp_mapDeltas mp"
    by (rule RemoveStaged_pool_ok [OF ok, rotated 2]) auto
  have "entries_insert ?h [] = [?h]" by (simp add: entries_insert_def insort_insert_key_def)
  then have "remove_tx H tx False mp = Some (mp', map (\<lambda>h. me_tx (the (entry mp h))) ?S)"
    using m(1) by (cases "?h \<in> keys mp") (simp_all add: remove_tx_def exists_keys Let_def)
  moreover have "keys mp' = keys mp - {?h}" using m(3) by auto
  ultimately show thesis using that m by blast
qed

lemma ClearPrioritisation_simps [simp]:
  "keys (ClearPrioritisation h mp) = keys mp" "ent (ClearPrioritisation h mp) = ent mp" "spends (ClearPrioritisation h mp) = spends mp"
  "mp_mapNextTx (ClearPrioritisation h mp) = mp_mapNextTx mp"
  by (simp_all add: ClearPrioritisation_def keys_def ent_def spends_def fun_eq_iff)

lemma pool_ok_ClearPrioritisation [simp]: "pool_ok H (ClearPrioritisation h mp) = pool_ok H mp"
  by (simp add: pool_ok_def pool_inv_def pool_entries_ok_def links_ok_def totals_ok_def totals_of_def sum_size_def sum_fee_def next_ok_def
      usage_ok_def links_at_def ClearPrioritisation_def keys_def ent_def spends_def)

lemma shrunk_ClearPrioritisation: "h \<notin> keys mp \<Longrightarrow> shrunk mp (ClearPrioritisation h mp)"
  by (auto simp: shrunk_def delta_at_def) (auto simp: ClearPrioritisation_def map_of_map_erase)

text \<open>After \<open>removeConflicts\<close> no other transaction spends an input of the given one.\<close>

lemma shrunk_next:
  assumes "shrunk mp mp'" "next_ok mp" "next_ok mp'" "next_tx mp' p = Some k"
  shows "next_tx mp p = Some k"
  using assms shrunk_ids [OF assms(1)] unfolding next_ok_def shrunk_def by (metis subsetD)

lemma trimmed_ClearPrioritisation: "pool_ok H mp \<Longrightarrow> h \<notin> keys mp \<Longrightarrow> trimmed H mp (ClearPrioritisation h mp)"
  using shrunk_ClearPrioritisation [of h mp] by (simp add: trimmed_def)

lemma removeConflicts_ok:
  assumes "pool_ok H mp"
  shows "\<exists>mp' removed'. removeConflicts H h is mp removed = Some (mp', removed') \<and> pool_ok H mp' \<and> shrunk mp mp' \<and> trimmed H mp mp'
    \<and> (\<forall>i\<in>set is. \<forall>c. next_tx mp' (txin_prevout i) = Some c \<longrightarrow> c = h)"
  using assms
proof (induction "is" arbitrary: mp removed)
  case Nil
  then show ?case by (simp add: trimmed_self)
next
  case (Cons i is')
  let ?p = "txin_prevout i"
  have n: "next_ok mp" by (rule pool_okD(5) [OF Cons.prems])
  have skip: ?case if "\<And>c. next_tx mp ?p = Some c \<Longrightarrow> c = h" "removeConflicts H h (i # is') mp removed = removeConflicts H h is' mp removed"
  proof -
    obtain mp' removed' where m: "removeConflicts H h is' mp removed = Some (mp', removed')" "pool_ok H mp'" "shrunk mp mp'" "trimmed H mp mp'"
        "\<forall>i\<in>set is'. \<forall>c. next_tx mp' (txin_prevout i) = Some c \<longrightarrow> c = h"
      using Cons.IH [OF Cons.prems] by blast
    moreover have "\<forall>c. next_tx mp' ?p = Some c \<longrightarrow> c = h" using shrunk_next [OF m(3) n pool_okD(5) [OF m(2)]] that(1) by blast
    ultimately show ?thesis using that(2) by auto
  qed
  show ?case
  proof (cases "next_tx mp ?p")
    case None
    then show ?thesis by (intro skip) auto
  next
    case (Some c)
    show ?thesis
    proof (cases "c = h")
      case True
      then show ?thesis using Some by (intro skip) auto
    next
      case False
      have c: "c \<in> keys mp" using n Some by (simp add: next_ok_def)
      have hc: "tx_GetHash H (me_tx (ent mp c)) = c" using pool_okD(1) [OF Cons.prems] c by (simp add: pool_entries_ok_def)
      obtain mp1 r where m1: "remove_tx H (me_tx (ent mp c)) True mp = Some (mp1, r)" "pool_ok H mp1" "shrunk mp mp1"
          "keys mp1 = keys mp - (spends mp)\<^sup>* `` remove_roots H (me_tx (ent mp c)) mp"
        by (rule remove_tx_recursive [OF Cons.prems])
      have c1: "c \<notin> keys mp1" using c unfolding m1(4) remove_roots_def hc by auto
      let ?mp = "ClearPrioritisation c mp1"
      obtain mp' removed' where m: "removeConflicts H h is' ?mp (removed @ r) = Some (mp', removed')" "pool_ok H mp'" "shrunk ?mp mp'" "trimmed H ?mp mp'"
          "\<forall>i\<in>set is'. \<forall>c. next_tx mp' (txin_prevout i) = Some c \<longrightarrow> c = h"
        using Cons.IH [of ?mp "removed @ r"] m1(2) by auto
      have s: "shrunk mp mp'" by (rule shrunk_trans [OF shrunk_trans [OF m1(3) shrunk_ClearPrioritisation [OF c1]] m(3)])
      have "next_tx mp' ?p \<noteq> Some k" for k
      proof
        assume k: "next_tx mp' ?p = Some k"
        then have "k = c" using shrunk_next [OF s n pool_okD(5) [OF m(2)]] Some by fastforce
        moreover have "k \<in> keys mp'" using k pool_okD(5) [OF m(2)] by (simp add: next_ok_def)
        ultimately show False using c1 m(3) by (auto simp: shrunk_def)
      qed
      moreover have "trimmed H mp mp'"
        by (rule trimmed_trans [OF trimmed_trans [OF removed_trimmed [OF m1(2-4)] trimmed_ClearPrioritisation [OF m1(2) c1]] m(4)])
      moreover have "removeConflicts H h (i # is') mp removed = Some (mp', removed')"
        using Some False m1(1) m(1) by (simp add: entry_ent [OF c])
      ultimately show ?thesis using m s by auto
    qed
  qed
qed

text \<open>The transactions of a block come after their parents: a parent that is in the pool is in the block before them.\<close>

fun block_ordered :: "(byte list \<Rightarrow> uint256) \<Rightarrow> txiter set \<Rightarrow> CTransaction list \<Rightarrow> bool" where
  "block_ordered H K [] = True"
| "block_ordered H K (tx # vtx) \<longleftrightarrow> (\<forall>i\<in>set (tx_vin tx). prev_hash (txin_prevout i) \<notin> K) \<and> block_ordered H (K - {tx_GetHash H tx}) vtx"

lemma block_ordered_mono: "block_ordered H K vtx \<Longrightarrow> K' \<subseteq> K \<Longrightarrow> block_ordered H K' vtx"
proof (induction vtx arbitrary: K K')
  case (Cons tx vtx)
  have "block_ordered H (K' - {tx_GetHash H tx}) vtx" by (rule Cons.IH [of "K - {tx_GetHash H tx}"]) (use Cons.prems in auto)
  then show ?case using Cons.prems by auto
qed simp

lemma removeForBlock_ok:
  assumes "pool_ok H mp" "block_ordered H (keys mp) vtx" "inj_on (tx_GetHash H) (set vtx \<union> (\<lambda>k. me_tx (ent mp k)) ` keys mp)"
  shows "\<exists>mp' conflicts'. removeForBlock H vtx mp conflicts = Some (mp', conflicts') \<and> pool_ok H mp' \<and> shrunk mp mp'
    \<and> keys mp' \<inter> tx_GetHash H ` set vtx = {} \<and> (\<forall>tx\<in>set vtx. \<forall>i\<in>set (tx_vin tx). next_tx mp' (txin_prevout i) = None)
    \<and> (\<forall>(t, k)\<in>spends mp. k \<in> keys mp' \<longrightarrow> t \<in> keys mp' \<or> t \<in> tx_GetHash H ` set vtx)"
  using assms
proof (induction vtx arbitrary: mp conflicts)
  case Nil
  then show ?case using spends_keys [of mp] by auto
next
  case (Cons tx vtx)
  let ?h = "tx_GetHash H tx"
  have root: "(p, ?h) \<notin> spends mp" for p
  proof
    assume a: "(p, ?h) \<in> spends mp"
    then have k: "?h \<in> keys mp" "p \<in> keys mp" "p \<in> parent_ids (ent mp ?h)" by (simp_all add: spends_def)
    have "tx_GetHash H (me_tx (ent mp ?h)) = ?h" using pool_okD(1) [OF Cons.prems(1)] k(1) by (simp add: pool_entries_ok_def)
    then have "me_tx (ent mp ?h) = tx" by (rule inj_onD [OF Cons.prems(3)]) (use k(1) in auto)
    then show False using k(2,3) Cons.prems(2) by (auto simp: parent_ids_def outpoints_def)
  qed
  obtain mp1 r where m1: "remove_tx H tx False mp = Some (mp1, r)" "pool_ok H mp1" "shrunk mp mp1" "keys mp1 = keys mp - {?h}"
    by (rule remove_tx_single [OF Cons.prems(1) root])
  obtain mp2 c2 where m2: "removeConflicts H ?h (tx_vin tx) mp1 conflicts = Some (mp2, c2)" "pool_ok H mp2" "shrunk mp1 mp2" "trimmed H mp1 mp2"
      "\<forall>i\<in>set (tx_vin tx). \<forall>c. next_tx mp2 (txin_prevout i) = Some c \<longrightarrow> c = ?h"
    using removeConflicts_ok [OF m1(2), of ?h "tx_vin tx" conflicts] by blast
  let ?mp = "ClearPrioritisation ?h mp2"
  have s2: "shrunk mp mp2" by (rule shrunk_trans [OF m1(3) m2(3)])
  have k2: "keys mp2 \<subseteq> keys mp - {?h}" using m2(3) m1(4) by (auto simp: shrunk_def)
  have txs: "(\<lambda>k. me_tx (ent mp2 k)) ` keys mp2 \<subseteq> (\<lambda>k. me_tx (ent mp k)) ` keys mp"
  proof (rule image_subsetI)
    fix k assume k: "k \<in> keys mp2"
    then have "me_tx (ent mp2 k) = me_tx (ent mp k)" "k \<in> keys mp" using s2 staticD(1) unfolding shrunk_def by blast+
    then show "me_tx (ent mp2 k) \<in> (\<lambda>k. me_tx (ent mp k)) ` keys mp" by simp
  qed
  have inj: "inj_on (tx_GetHash H) (set vtx \<union> (\<lambda>k. me_tx (ent ?mp k)) ` keys ?mp)"
    by (rule inj_on_subset [OF Cons.prems(3)]) (use txs in auto)
  have bo: "block_ordered H (keys ?mp) vtx" by (rule block_ordered_mono [of H "keys mp - {?h}"]) (use Cons.prems(2) k2 in auto)
  have ok2: "pool_ok H ?mp" using m2(2) by simp
  obtain mp' c' where m: "removeForBlock H vtx ?mp c2 = Some (mp', c')" "pool_ok H mp'" "shrunk ?mp mp'"
      "keys mp' \<inter> tx_GetHash H ` set vtx = {}" "\<forall>tx\<in>set vtx. \<forall>i\<in>set (tx_vin tx). next_tx mp' (txin_prevout i) = None"
      "\<forall>(t, k)\<in>spends ?mp. k \<in> keys mp' \<longrightarrow> t \<in> keys mp' \<or> t \<in> tx_GetHash H ` set vtx"
    using Cons.IH [OF ok2 bo inj, of c2] by (elim exE conjE) (rule that)
  have h2: "?h \<notin> keys mp2" using k2 by auto
  have s3: "shrunk mp2 mp'" by (rule shrunk_trans [OF shrunk_ClearPrioritisation [OF h2] m(3)])
  have s: "shrunk mp mp'" by (rule shrunk_trans [OF s2 s3])
  have h': "?h \<notin> keys mp'" using s3 k2 unfolding shrunk_def by blast
  have "next_tx mp' (txin_prevout i) = None" if i: "i \<in> set (tx_vin tx)" for i
  proof (rule ccontr)
    assume "next_tx mp' (txin_prevout i) \<noteq> None"
    then obtain c where c: "next_tx mp' (txin_prevout i) = Some c" by blast
    have "next_tx mp2 (txin_prevout i) = Some c" by (rule shrunk_next [OF s3 pool_okD(5) [OF m2(2)] pool_okD(5) [OF m(2)] c])
    then have "c = ?h" using m2(5) i by blast
    moreover have "c \<in> keys mp'" using c pool_okD(5) [OF m(2)] by (simp add: next_ok_def)
    ultimately show False using h' by simp
  qed
  moreover have "removeForBlock H (tx # vtx) mp conflicts = Some (mp', c')" using m1(1) m2(1) m(1) by simp
  moreover have "t \<in> keys mp' \<or> t \<in> tx_GetHash H ` set (tx # vtx)" if tk: "(t, k) \<in> spends mp" "k \<in> keys mp'" for t k
  proof (cases "t = ?h")
    case False
    have k1: "k \<in> keys mp2" "k \<in> keys mp1" using tk(2) s3 m2(3) unfolding shrunk_def by blast+
    have t1: "t \<in> keys mp1" using tk(1) False m1(4) by (auto simp: spends_def)
    have "(t, k) \<in> spends mp1" using tk(1) t1 k1(2) shrunk_ids [OF m1(3) k1(2)] by (auto simp: spends_def)
    then have "t \<in> keys mp2" using m2(4) t1 k1(1) by (auto simp: trimmed_def)
    then have "(t, k) \<in> spends ?mp" using tk(1) k1(1) shrunk_ids [OF s2 k1(1)] by (auto simp: spends_def)
    then show ?thesis using m(6) tk(2) by auto
  qed simp
  ultimately show ?case using m(2,4,5) s h' by auto
qed

end
