(* ===== verification/Mempool_Keep.thy ===== *)
theory Mempool_Keep
  imports Mempool_Correct
begin

text \<open>
  The limits on memory and age and the priorities given by hand: each keeps \<open>pool_ok\<close>.
\<close>

subsection \<open>The outputs of one transaction in \<open>mapNextTx\<close>\<close>

lemma range_filter:
  assumes "sorted (map fst xs)" "\<And>x y. Q y \<Longrightarrow> x \<le> y \<Longrightarrow> Q x" "\<And>x. P x \<Longrightarrow> \<not> Q x" "\<And>x y. x \<le> y \<Longrightarrow> \<not> Q x \<Longrightarrow> P y \<Longrightarrow> P x"
  shows "takeWhile (\<lambda>e. P (fst e)) (dropWhile (\<lambda>e. Q (fst e)) xs) = filter (\<lambda>e. P (fst e)) xs"
  using assms(1)
proof (induction xs)
  case (Cons e xs)
  show ?case
  proof (cases "Q (fst e)")
    case True
    then show ?thesis using Cons assms(3) by auto
  next
    case False
    have nq: "\<not> Q (fst x)" if "x \<in> set xs" for x using False assms(2) Cons.prems that by auto
    then have "dropWhile (\<lambda>e. Q (fst e)) xs = xs" by (cases xs) auto
    moreover have "\<not> P (fst x)" if "\<not> P (fst e)" "x \<in> set xs" for x
      using assms(4) [OF _ False, of "fst x"] Cons.prems that by auto
    then have "filter (\<lambda>e. P (fst e)) xs = []" if "\<not> P (fst e)" using that by (auto simp: filter_empty_conv)
    ultimately show ?thesis using False Cons by auto
  qed
qed simp

lemma uint256_less_simps: "uint256_less a b \<or> a = b \<longleftrightarrow> ser_uint256 a \<le> ser_uint256 b"
  unfolding uint256_less_def le_less using ser_uint256_inject by metis

lemma outputs_range_filter:
  assumes "next_ok mp"
  shows "outputs_range mp h = filter (\<lambda>e. prev_hash (fst e) = h) (mp_mapNextTx mp)"
  unfolding outputs_range_def
proof (rule range_filter)
  show "sorted (map fst (mp_mapNextTx mp))" using assms by (simp add: next_ok_def map_ok_def comp_def)
  have less: "p < COutPoint h 0 \<longleftrightarrow> uint256_less (prev_hash p) h" for p
    by (simp add: less_COutPoint_def COutPoint_less_def word_not_simps(1))
  show "x < COutPoint h 0" if "y < COutPoint h 0" "x \<le> y" for x y using that by (rule order.strict_trans1 [rotated])
  show "\<not> x < COutPoint h 0" if "prev_hash x = h" for x using that unfolding less by (simp add: uint256_less_def)
  show "prev_hash x = h" if "x \<le> y" "\<not> x < COutPoint h 0" "prev_hash y = h" for x y
  proof -
    have "ser_uint256 (prev_hash x) \<le> ser_uint256 h"
      using that(1,3) by (auto simp: less_eq_COutPoint_def COutPoint_less_def uint256_less_def)
    then show ?thesis using that(2) unfolding less uint256_less_def by (auto simp: ser_uint256_inject)
  qed
qed

lemma outputs_range_iff:
  assumes "next_ok mp"
  shows "c \<in> snd ` set (outputs_range mp h) \<longleftrightarrow> c \<in> keys mp \<and> h \<in> parent_ids (ent mp c)"
proof -
  have d: "distinct (map fst (mp_mapNextTx mp))" using assms by (simp add: next_ok_def map_ok_def)
  have "c \<in> snd ` set (outputs_range mp h) \<longleftrightarrow> (\<exists>p. prev_hash p = h \<and> next_tx mp p = Some c)"
    unfolding outputs_range_filter [OF assms] map_of_eq_Some_iff [OF d] by force
  then show ?thesis using assms unfolding next_ok_def parent_ids_def by auto
qed

lemma outputs_range_empty: "next_ok mp \<Longrightarrow> outputs_range mp h = [] \<longleftrightarrow> (\<forall>c\<in>keys mp. h \<notin> parent_ids (ent mp c))"
  using outputs_range_iff [of mp _ h] by (metis empty_iff image_empty image_is_empty list.set(1) set_empty ex_in_conv)

subsection \<open>Age and memory\<close>

lemma Expire_ok:
  assumes "pool_ok H mp"
  obtains mp' n where "Expire time mp = Some (mp', n)" "pool_ok H mp'" "shrunk mp mp'"
    "keys mp' = keys mp - (spends mp)\<^sup>* `` {h \<in> keys mp. me_nTime (ent mp h) < time}" "n = card (keys mp) - card (keys mp')"
proof -
  let ?hs = "map fst (filter (\<lambda>(h, e). me_nTime e < time) (mp_mapTx mp))"
  have d: "distinct (map fst (mp_mapTx mp))" using pool_okD(7) [OF assms] by (simp add: map_ok_def)
  have "h \<in> set ?hs \<longleftrightarrow> h \<in> keys mp \<and> me_nTime (ent mp h) < time" for h
  proof -
    have "h \<in> set ?hs \<longleftrightarrow> (\<exists>e. entry mp h = Some e \<and> me_nTime e < time)"
      unfolding map_of_eq_Some_iff [OF d] by force
    also have "\<dots> \<longleftrightarrow> h \<in> keys mp \<and> me_nTime (ent mp h) < time" unfolding keys_entry ent_def by (metis option.sel)
    finally show ?thesis .
  qed
  then have hs: "set ?hs = {h \<in> keys mp. me_nTime (ent mp h) < time}" by blast
  have sub: "set ?hs \<subseteq> keys mp" unfolding hs by blast
  obtain R mp' where R: "each (CalculateDescendants mp) ?hs [] = Some R" "set R = (spends mp)\<^sup>* `` set ?hs" "ent_ok R"
    "RemoveStaged R mp = Some mp'" "pool_ok H mp'" "keys mp' = keys mp - (spends mp)\<^sup>* `` set ?hs" "shrunk mp mp'"
    by (rule remove_closed [OF assms sub], rule that) assumption+
  have "set R \<subseteq> keys mp" unfolding R(2) hs using pool_descendants_keys by blast
  then have "length R = card (keys mp) - card (keys mp')"
    unfolding R(6) R(2) [symmetric] ent_ok_length [OF R(3)] by (simp add: card_Diff_subset card_mono)
  then show thesis using R hs by (intro that [of mp' "length R"]) (simp_all add: Expire_def Let_def)
qed

lemma no_spends_remaining_iff:
  "next_ok mp \<Longrightarrow> h \<in> set (no_spends_remaining mp tx) \<longleftrightarrow>
     (\<exists>i\<in>set (tx_vin tx). h = prev_hash (txin_prevout i)) \<and> h \<notin> keys mp \<and> (\<forall>c\<in>keys mp. h \<notin> parent_ids (ent mp c))"
  by (auto simp: no_spends_remaining_def outputs_range_empty exists_keys)

definition picks_entry :: "(CTxMemPool \<Rightarrow> txiter) \<Rightarrow> bool" where
  "picks_entry worst \<longleftrightarrow> (\<forall>m. mp_mapTx m \<noteq> [] \<longrightarrow> worst m \<in> keys m)"

text \<open>Whatever entry the order of the scores puts first: the pool shrinks to the limit, or until it is empty.\<close>

lemma TrimToSize_ok:
  assumes "pool_ok H mp" "picks_entry worst" "length (mp_mapTx mp) \<le> k"
  shows "\<exists>mp' ns'. TrimToSize k worst es sizelimit mp ns = Some (mp', ns') \<and> trimmed H mp mp'
    \<and> (mp_mapTx mp' = [] \<or> ZumyMemoryUsage es mp' \<le> sizelimit)
    \<and> (\<forall>h\<in>set ns' - set ns. h \<notin> keys mp' \<and> (\<forall>c\<in>keys mp'. h \<notin> parent_ids (ent mp' c)))"
  using assms(1,3)
proof (induction k arbitrary: mp ns)
  case 0
  then show ?case by (simp add: trimmed_def)
next
  case (Suc k)
  show ?case
  proof (cases "mp_mapTx mp = [] \<or> ZumyMemoryUsage es mp \<le> sizelimit")
    case True
    then show ?thesis using Suc.prems(1) by (auto simp: trimmed_def)
  next
    case False
    then have w: "worst mp \<in> keys mp" using assms(2) by (simp add: picks_entry_def)
    obtain R where R: "CalculateDescendants mp (worst mp) [] = Some R" "ent_ok R" "set R = (spends mp)\<^sup>* `` {worst mp}"
        "set R \<subseteq> keys mp" "spends mp `` set R \<subseteq> set R"
      using CalculateDescendants_pool [OF Suc.prems(1), of "[]" "worst mp"] w by auto
    obtain mp1 where m1: "RemoveStaged R mp = Some mp1" "pool_ok H mp1" "keys mp1 = keys mp - set R" "shrunk mp mp1"
      using RemoveStaged_pool_ok [OF Suc.prems(1) R(2,4) separable_descendants [OF R(5)]] by blast
    have t1: "trimmed H mp mp1" using m1 R(4,5) by (auto simp: trimmed_def)
    have "card (keys mp1) < card (keys mp)" by (rule psubset_card_mono) (use m1(3) R(3) w in auto)
    then have len: "length (mp_mapTx mp1) \<le> k"
      using Suc.prems(2) card_keys [OF pool_okD(7) [OF Suc.prems(1)]] card_keys [OF pool_okD(7) [OF m1(2)]] by simp
    let ?txn = "map (\<lambda>h. me_tx (the (entry mp h))) R"
    let ?ns = "ns @ concat (map (no_spends_remaining mp1) ?txn)"
    obtain mp' ns' where m: "TrimToSize k worst es sizelimit mp1 ?ns = Some (mp', ns')" "trimmed H mp1 mp'"
        "mp_mapTx mp' = [] \<or> ZumyMemoryUsage es mp' \<le> sizelimit"
        "\<forall>h\<in>set ns' - set ?ns. h \<notin> keys mp' \<and> (\<forall>c\<in>keys mp'. h \<notin> parent_ids (ent mp' c))"
      using Suc.IH [OF m1(2) len, of ?ns] by blast
    have "h \<notin> keys mp' \<and> (\<forall>c\<in>keys mp'. h \<notin> parent_ids (ent mp' c))" if h: "h \<in> set ns' - set ns" for h
    proof (cases "h \<in> set ?ns")
      case True
      then obtain tx where "h \<in> set (no_spends_remaining mp1 tx)" using h by auto
      then have "h \<notin> keys mp1" "\<forall>c\<in>keys mp1. h \<notin> parent_ids (ent mp1 c)"
        using no_spends_remaining_iff [OF pool_okD(5) [OF m1(2)]] by auto
      then show ?thesis using m(2) shrunk_ids [of mp1 mp'] unfolding trimmed_def shrunk_def by blast
    next
      case False
      then show ?thesis using m(4) h by blast
    qed
    moreover have "TrimToSize (Suc k) worst es sizelimit mp ns = Some (mp', ns')"
      using m(1) by (subst TrimToSize.simps) (simp add: False R(1) m1(1) Let_def del: TrimToSize.simps)
    ultimately show ?thesis using trimmed_trans [OF t1 m(2)] m(3) by blast
  qed
qed

subsection \<open>Priorities by hand\<close>

text \<open>The entries carry the fee deltas of \<open>mapDeltas\<close>.\<close>

definition deltas_ok :: "CTxMemPool \<Rightarrow> bool" where
  "deltas_ok mp \<longleftrightarrow> (\<forall>h\<in>keys mp. me_feeDelta (ent mp h) = delta_at mp h)"

lemma sum_fee_change:
  assumes "finite D" "\<And>k. k \<in> D \<Longrightarrow> k \<noteq> h \<Longrightarrow> GetModifiedFee (ent mp' k) = GetModifiedFee (ent mp k)"
    and "GetModifiedFee (ent mp' h) = GetModifiedFee (ent mp h) + d"
  shows "sum_fee mp' D = sum_fee mp D + (if h \<in> D then d else 0)"
proof (cases "h \<in> D")
  case True
  have "sum_fee mp' D = GetModifiedFee (ent mp' h) + (\<Sum>k\<in>D - {h}. GetModifiedFee (ent mp' k))"
    unfolding sum_fee_def by (rule sum.remove [OF assms(1) True])
  also have "(\<Sum>k\<in>D - {h}. GetModifiedFee (ent mp' k)) = (\<Sum>k\<in>D - {h}. GetModifiedFee (ent mp k))"
    by (rule sum.cong) (use assms(2) in auto)
  finally show ?thesis using sum.remove [OF assms(1) True, of "\<lambda>k. GetModifiedFee (ent mp k)"] assms(3) True by (simp add: sum_fee_def)
next
  case False
  then show ?thesis using assms(2) unfolding sum_fee_def by (auto intro!: sum.cong)
qed

lemma pool_ok_same:
  assumes ok: "pool_ok H mp" and k: "map fst (mp_mapTx mp') = map fst (mp_mapTx mp)"
    and e: "\<And>h. h \<in> keys mp \<Longrightarrow> me_tx (ent mp' h) = me_tx (ent mp h) \<and> me_nTxSize (ent mp' h) = me_nTxSize (ent mp h)
       \<and> me_nUsageSize (ent mp' h) = me_nUsageSize (ent mp h)"
    and t: "totals_ok mp' (\<lambda>h. (spends mp)\<^sup>* `` {h})"
    and f: "mp_mapLinks mp' = mp_mapLinks mp" "mp_mapNextTx mp' = mp_mapNextTx mp" "mp_totalTxSize mp' = mp_totalTxSize mp"
      "mp_cachedInnerUsage mp' = mp_cachedInnerUsage mp"
  shows "pool_ok H mp'"
proof -
  note i = pool_okD [OF ok]
  have K: "keys mp' = keys mp" by (rule keys_eqI [OF k])
  have out: "outpoints (ent mp' h) = outpoints (ent mp h)" "parent_ids (ent mp' h) = parent_ids (ent mp h)" if "h \<in> keys mp" for h
    using e [OF that] by (simp_all add: outpoints_def parent_ids_def)
  have S: "spends mp' = spends mp" using out(2) unfolding spends_def K by auto
  have sz: "sum_size mp' (keys mp) = sum_size mp (keys mp)" using e unfolding sum_size_def by (auto intro: sum.cong)
  have "map_ok ser_uint256 (mp_mapTx mp')" using i(7) k unfolding map_ok_def map_map [symmetric] by simp
  then have "pool_entries_ok H mp'" using i(1) e sz f(3) unfolding pool_entries_ok_def K by simp
  moreover have "links_ok mp' (spends mp) (spends mp)" using i(2) unfolding links_ok_def K f(1) .
  moreover have "next_ok mp'" using i(5) out(1) unfolding next_ok_def K f(2) by auto
  moreover have "usage_ok mp'" using i(6) e unfolding usage_ok_def K f(4) links_at_def f(1) by (auto intro: sum.cong)
  ultimately show ?thesis using t i(3) by (simp add: pool_ok_def pool_inv_def S)
qed

lemma sums_positive:
  assumes "pool_ok H mp" "h \<in> keys mp"
  shows "positive_i64 (int (card ((spends mp)\<^sup>* `` {h})))" "positive_i64 (sum_size mp ((spends mp)\<^sup>* `` {h}))"
proof -
  let ?D = "(spends mp)\<^sup>* `` {h}"
  have D: "?D \<subseteq> keys mp" by (rule pool_descendants_keys [OF assms(2)])
  have "h \<in> ?D" "finite ?D" using finite_subset [OF D] by auto
  then have "0 < card ?D" using card_gt_0_iff by blast
  then show "positive_i64 (int (card ?D))" "positive_i64 (sum_size mp ?D)"
    using sum_size_bounds [OF pool_okD(1) [OF assms(1)] D] by (simp_all add: positive_i64_def)
qed

lemma PrioritiseTransaction_ok:
  assumes ok: "pool_ok H mp" and d: "deltas_ok mp"
  obtains mp' where "PrioritiseTransaction h nFeeDelta mp = Some mp'" "pool_ok H mp'" "deltas_ok mp'" "keys mp' = keys mp"
    "\<And>k. delta_at mp' k = delta_at mp k + (if k = h then nFeeDelta else 0)"
    "\<And>k. k \<in> keys mp \<Longrightarrow> me_tx (ent mp' k) = me_tx (ent mp k)
       \<and> GetModifiedFee (ent mp' k) = GetModifiedFee (ent mp k) + (if k = h then nFeeDelta else 0)"
proof -
  note i = pool_okD [OF ok]
  let ?D = "\<lambda>k. (spends mp)\<^sup>* `` {k}"
  define x where "x = delta_at mp h + nFeeDelta"
  define mp1 where "mp1 = mp\<lparr> mp_mapDeltas := map_insert ser_uint256 h x (map_erase h (mp_mapDeltas mp)) \<rparr>"
  have k1: "keys mp1 = keys mp" "ent mp1 = ent mp" by (simp_all add: mp1_def keys_def ent_def fun_eq_iff)
  have "map_of (mp_mapDeltas mp1) = (map_of (mp_mapDeltas mp))(h \<mapsto> x)"
    by (simp add: mp1_def map_of_map_insert keys_map_erase map_of_map_erase)
  then have delta: "delta_at mp1 k = delta_at mp k + (if k = h then nFeeDelta else 0)" for k by (simp add: delta_at_def x_def)
  have unf: "PrioritiseTransaction h nFeeDelta mp = (if \<not> exists_tx mp1 h then Some mp1
         else case modify_entry h (\<lambda>e. Some (UpdateFeeDelta x e)) mp1 of
           None \<Rightarrow> None
         | Some mp2 \<Rightarrow>
             (case CalculateMemPoolAncestors mp2 no_limits (the (entry mp2 h)) (Some h) of
                None \<Rightarrow> None
              | Some (Inl _) \<Rightarrow> Some mp2
              | Some (Inr setAncestors) \<Rightarrow> each (\<lambda>a. modify_entry a (UpdateState 0 nFeeDelta 0)) setAncestors mp2))"
    unfolding PrioritiseTransaction_def Let_def x_def delta_at_def mp1_def ..
  show thesis
  proof (cases "h \<in> keys mp")
    case False
    have "totals_ok mp1 ?D" using i(4) by (simp add: totals_ok_def totals_of_def sum_size_def sum_fee_def k1)
    then have "pool_ok H mp1" by (rule pool_ok_same [OF ok, rotated 2]) (simp_all add: k1, simp_all add: mp1_def)
    moreover have "deltas_ok mp1" using d False delta by (auto simp: deltas_ok_def k1)
    ultimately show thesis using False delta by (intro that [of mp1]) (auto simp: unf exists_keys k1)
  next
    case True
    obtain m where m: "modify_entry h (\<lambda>e. Some (UpdateFeeDelta x e)) mp1 = Some (mp1\<lparr> mp_mapTx := m \<rparr>)"
        "map fst m = map fst (mp_mapTx mp1)" "\<And>k. ent (mp1\<lparr> mp_mapTx := m \<rparr>) k = (if k = h then UpdateFeeDelta x (ent mp1 h) else ent mp1 k)"
      by (rule modify_entry_ok [of h mp1 "\<lambda>e. Some (UpdateFeeDelta x e)" "UpdateFeeDelta x (ent mp1 h)"]) (use True k1 in auto)
    define mp2 where "mp2 = mp1\<lparr> mp_mapTx := m \<rparr>"
    have k2: "keys mp2 = keys mp" using m(2) k1(1) keys_eqI [of mp2 mp1] by (simp add: mp2_def)
    have e2: "ent mp2 k = (if k = h then UpdateFeeDelta x (ent mp h) else ent mp k)" for k using m(3) k1 by (simp add: mp2_def)
    have fd: "me_feeDelta (ent mp h) = delta_at mp h" using d True by (simp add: deltas_ok_def)
    have fee2: "GetModifiedFee (ent mp2 k) = GetModifiedFee (ent mp k) + (if k = h then nFeeDelta else 0)" for k
      using fd by (simp add: e2 UpdateFeeDelta_def GetModifiedFee_def x_def)
    have stat2: "me_tx (ent mp2 k) = me_tx (ent mp k)" "me_nTxSize (ent mp2 k) = me_nTxSize (ent mp k)"
        "me_nUsageSize (ent mp2 k) = me_nUsageSize (ent mp k)" "me_nSizeWithDescendants (ent mp2 k) = me_nSizeWithDescendants (ent mp k)"
        "me_nCountWithDescendants (ent mp2 k) = me_nCountWithDescendants (ent mp k)" for k
      by (simp_all add: e2 UpdateFeeDelta_def)
    have L2: "links_ok mp2 (spends mp) (spends mp)" using i(2) unfolding links_ok_def k2 by (simp add: mp2_def mp1_def)
    have sz: "sum_size mp2 D = sum_size mp D" for D by (simp add: sum_size_def stat2)
    have ent2: "pool_entries_ok H mp2"
    proof -
      have "map_ok ser_uint256 (mp_mapTx mp2)" using i(7) m(2) unfolding map_ok_def map_map [symmetric] by (simp add: mp2_def mp1_def)
      then show ?thesis using i(1) unfolding pool_entries_ok_def k2 sz by (simp add: stat2) (simp add: mp2_def mp1_def)
    qed
    have b2: "bounded mp2" using pool_bounded [OF ok] by (simp add: bounded_def k2 stat2)
    have Lk: "spends mp \<subseteq> keys mp2 \<times> keys mp2" using spends_keys k2 by simp
    obtain A where A: "CalculateMemPoolAncestors mp2 no_limits (ent mp2 h) (Some h) = Some (Inr A)" "ent_ok A"
        "set A = ancestors_of (spends mp) {p. (p, h) \<in> spends mp}"
      by (rule CalculateMemPoolAncestors_self [OF ent2 L2 Lk b2]) (use True k2 in simp)
    have A_iff: "a \<in> set A \<longleftrightarrow> (a, h) \<in> (spends mp)\<^sup>+" for a
      unfolding A(3) ancestors_of_iff by (auto simp: trancl_unfold_right)
    have AK: "set A \<subseteq> keys mp2" unfolding A(3) by (rule ancestors_of_keys [OF Lk]) (use Lk in blast)
    have hA: "h \<notin> set A" using i(3) unfolding A_iff acyclic_def by blast
    define g where "g a = the (UpdateState 0 nFeeDelta 0 (ent mp a))" for a
    have g: "UpdateState 0 nFeeDelta 0 (ent mp2 a) = Some (g a)"
        "g a = (if IsDirty (ent mp a) then ent mp a
          else (ent mp a)\<lparr> me_nModFeesWithDescendants := me_nModFeesWithDescendants (ent mp a) + nFeeDelta \<rparr>)" if a: "a \<in> set A" for a
    proof -
      have "a \<in> keys mp" "a \<noteq> h" using AK a k2 hA by auto
      moreover have "totals_of mp (?D a) (ent mp a)" using i(4) \<open>a \<in> keys mp\<close> by (simp add: totals_ok_def)
      ultimately show "UpdateState 0 nFeeDelta 0 (ent mp2 a) = Some (g a)"
        "g a = (if IsDirty (ent mp a) then ent mp a
          else (ent mp a)\<lparr> me_nModFeesWithDescendants := me_nModFeesWithDescendants (ent mp a) + nFeeDelta \<rparr>)"
        using sums_positive [OF ok \<open>a \<in> keys mp\<close>] by (auto simp: e2 g_def UpdateState_def totals_of_def Let_def)
    qed
    obtain m' where m': "each (\<lambda>a. modify_entry a (UpdateState 0 nFeeDelta 0)) A mp2 = Some (mp2\<lparr> mp_mapTx := m' \<rparr>)"
        "map fst m' = map fst (mp_mapTx mp2)" "\<And>k. ent (mp2\<lparr> mp_mapTx := m' \<rparr>) k = (if k \<in> set A then g k else ent mp2 k)"
      by (rule each_modify_entry [OF ent_ok_distinct [OF A(2)] AK, of "UpdateState 0 nFeeDelta 0" g]) (use g(1) in auto)
    define mp3 where "mp3 = mp2\<lparr> mp_mapTx := m' \<rparr>"
    have k3: "map fst (mp_mapTx mp3) = map fst (mp_mapTx mp)" using m'(2) m(2) by (simp add: mp3_def mp2_def mp1_def)
    then have K3: "keys mp3 = keys mp" by (rule keys_eqI)
    have e3: "ent mp3 k = (if k \<in> set A then g k else if k = h then UpdateFeeDelta x (ent mp h) else ent mp k)" for k
      using m'(3) by (simp add: mp3_def e2)
    have fee3: "GetModifiedFee (ent mp3 k) = GetModifiedFee (ent mp k) + (if k = h then nFeeDelta else 0)" for k
      using fee2 [of k] hA g(2) [of k] by (auto simp: e3 e2 GetModifiedFee_def)
    have stat3: "me_tx (ent mp3 k) = me_tx (ent mp k)" "me_nTxSize (ent mp3 k) = me_nTxSize (ent mp k)"
        "me_nUsageSize (ent mp3 k) = me_nUsageSize (ent mp k)" "me_nSizeWithDescendants (ent mp3 k) = me_nSizeWithDescendants (ent mp k)"
        "me_nCountWithDescendants (ent mp3 k) = me_nCountWithDescendants (ent mp k)"
        "me_feeDelta (ent mp3 k) = (if k = h then x else me_feeDelta (ent mp k))" for k
      using stat2 [of k] hA g(2) [of k] by (auto simp: e3 e2 UpdateFeeDelta_def)
    have tot3: "me_nModFeesWithDescendants (ent mp3 k) = me_nModFeesWithDescendants (ent mp k)
        + (if k = h \<or> (k \<in> set A \<and> \<not> IsDirty (ent mp k)) then nFeeDelta else 0)" for k
      using hA g(2) [of k] fd by (auto simp: e3 UpdateFeeDelta_def x_def)
    have dirty3: "IsDirty (ent mp3 k) = IsDirty (ent mp k)" for k by (simp add: IsDirty_def stat3)
    have "totals_of mp3 (?D k) (ent mp3 k)" if k: "k \<in> keys mp" for k
    proof -
      have fin: "finite (?D k)" by (rule finite_subset [OF pool_descendants_keys [OF k] finite_keys])
      have "sum_fee mp3 (?D k) = sum_fee mp (?D k) + (if h \<in> ?D k then nFeeDelta else 0)"
        by (rule sum_fee_change [OF fin]) (simp_all add: fee3)
      moreover have "h \<in> ?D k \<longleftrightarrow> k = h \<or> k \<in> set A" by (auto simp: A_iff rtrancl_eq_or_trancl)
      moreover have "sum_size mp3 (?D k) = sum_size mp (?D k)" by (simp add: sum_size_def stat3)
      moreover have "totals_of mp (?D k) (ent mp k)" using i(4) k by (simp add: totals_ok_def)
      ultimately show ?thesis using hA by (auto simp: totals_of_def dirty3 stat3 tot3 fee3)
    qed
    then have "totals_ok mp3 ?D" by (simp add: totals_ok_def K3)
    then have "pool_ok H mp3" by (rule pool_ok_same [OF ok k3, rotated]) (simp_all add: stat3, simp_all add: mp3_def mp2_def mp1_def)
    moreover have d3: "delta_at mp3 k = delta_at mp1 k" for k by (simp add: delta_at_def mp3_def mp2_def)
    moreover have "deltas_ok mp3" unfolding deltas_ok_def K3 d3 delta stat3 using d fd by (auto simp: deltas_ok_def x_def)
    moreover have "PrioritiseTransaction h nFeeDelta mp = Some mp3"
      using True m(1) A(1) m'(1) k2 unfolding unf by (simp add: exists_keys k1 entry_ent flip: mp2_def mp3_def)
    ultimately show thesis using delta K3 stat3(1) fee3 by (intro that [of mp3]) simp_all
  qed
qed

end
