(* ===== verification/Mempool_Reorg.thy ===== *)
theory Mempool_Reorg
  imports Mempool_Keep
begin

text \<open>
  Transactions of a disconnected block come back to the pool while their spenders are in it already:
  \<open>UpdateTransactionsFromBlock\<close> restores the links to the spenders and the totals over the descendants, with a cache of the
  descendants that were computed before, or marks an entry as dirty.
\<close>

subsection \<open>The state between two transactions of the block\<close>

text \<open>\<open>E\<close> are the transactions of the block, \<open>W\<close> those of them that wait.\<close>

definition linked :: "CTxMemPool \<Rightarrow> txiter set \<Rightarrow> txiter set \<Rightarrow> (txiter \<times> txiter) set" where
  "linked mp E W = spends mp - W \<times> (- E)"

definition counted_in :: "CTxMemPool \<Rightarrow> txiter set \<Rightarrow> txiter set \<Rightarrow> txiter \<Rightarrow> txiter set" where
  "counted_in mp E W h = (if h \<in> W then (spends mp)\<^sup>* `` {h} \<inter> E else (spends mp)\<^sup>* `` {h})"

text \<open>The parents of a transaction of the block are in the block, if they are in the pool at all.\<close>

definition block_rooted :: "CTxMemPool \<Rightarrow> txiter set \<Rightarrow> bool" where
  "block_rooted mp E \<longleftrightarrow> spends mp \<inter> (- E) \<times> E = {}"

definition cached_ok :: "CTxMemPool \<Rightarrow> txiter set \<Rightarrow> cacheMap \<Rightarrow> bool" where
  "cached_ok mp E cache \<longleftrightarrow> (\<forall>c S. cache c = Some S \<longrightarrow> c \<in> E \<and> ent_ok S \<and> set S = (spends mp)\<^sup>+ `` {c} - E)"

definition relinking :: "(byte list \<Rightarrow> uint256) \<Rightarrow> txiter set \<Rightarrow> txiter set \<Rightarrow> CTxMemPool \<Rightarrow> bool" where
  "relinking H E W mp \<longleftrightarrow> pool_entries_ok H mp \<and> links_ok mp (linked mp E W) (linked mp E W) \<and> acyclic (spends mp)
     \<and> totals_ok mp (counted_in mp E W) \<and> next_ok mp \<and> usage_ok mp \<and> block_rooted mp E"

lemma relinkingD:
  assumes "relinking H E W mp"
  shows "pool_entries_ok H mp" "links_ok mp (linked mp E W) (linked mp E W)" "acyclic (spends mp)" "totals_ok mp (counted_in mp E W)"
    "next_ok mp" "usage_ok mp" "block_rooted mp E" "map_ok ser_uint256 (mp_mapTx mp)"
  using assms by (simp_all add: relinking_def pool_entries_ok_def)

text \<open>Once outside the block, a path of spenders stays outside.\<close>

lemma outside_closed:
  assumes "block_rooted mp E" "(x, y) \<in> (spends mp)\<^sup>*" "x \<notin> E"
  shows "y \<notin> E"
  using assms(2) by (induction rule: rtrancl_induct) (use assms(1,3) in \<open>auto simp: block_rooted_def\<close>)

lemma outside_trancl: "block_rooted mp E \<Longrightarrow> (x, y) \<in> (spends mp)\<^sup>+ \<Longrightarrow> x \<notin> E \<Longrightarrow> y \<notin> E"
  using outside_closed [OF _ trancl_into_rtrancl] .

lemma descendants_of_links:
  assumes "block_rooted mp E" "W \<subseteq> E"
  shows "h \<notin> E \<Longrightarrow> (linked mp E W)\<^sup>* `` {h} = (spends mp)\<^sup>* `` {h}"
    and "W = E \<Longrightarrow> h \<in> E \<Longrightarrow> (linked mp E W)\<^sup>* `` {h} = (spends mp)\<^sup>* `` {h} \<inter> E"
proof -
  have sub: "(linked mp E W)\<^sup>* \<subseteq> (spends mp)\<^sup>*" by (rule rtrancl_mono) (simp add: linked_def)
  show "(linked mp E W)\<^sup>* `` {h} = (spends mp)\<^sup>* `` {h}" if h: "h \<notin> E"
  proof -
    have "(h, y) \<in> (linked mp E W)\<^sup>*" if "(h, y) \<in> (spends mp)\<^sup>*" for y
      using that
    proof (induction rule: rtrancl_induct)
      case (step y z)
      have "y \<notin> E" by (rule outside_closed [OF assms(1) step(1) h])
      then have "(y, z) \<in> linked mp E W" using step(2) assms(2) by (auto simp: linked_def)
      then show ?case using step(3) by (rule rtrancl_into_rtrancl [rotated])
    qed simp
    then show ?thesis using sub by auto
  qed
  show "(linked mp E W)\<^sup>* `` {h} = (spends mp)\<^sup>* `` {h} \<inter> E" if W: "W = E" and h: "h \<in> E"
  proof -
    have 1: "(h, y) \<in> (linked mp E W)\<^sup>*" if "(h, y) \<in> (spends mp)\<^sup>*" "y \<in> E" for y
      using that
    proof (induction rule: rtrancl_induct)
      case (step y z)
      have "y \<in> E" using step(2,4) assms(1) by (auto simp: block_rooted_def)
      moreover have "(y, z) \<in> linked mp E W" using step(2,4) by (simp add: linked_def)
      ultimately show ?case using step(3) by (meson rtrancl_into_rtrancl)
    qed simp
    have 2: "y \<in> E" if "(h, y) \<in> (linked mp E W)\<^sup>*" for y
      using that by (induction rule: rtrancl_induct) (use h W in \<open>auto simp: linked_def\<close>)
    show ?thesis using 1 2 sub by auto
  qed
qed

text \<open>It starts with the invariant of the pool, where only the links to the older spenders are missing.\<close>

lemma relinking_start:
  assumes "pool_inv H (spends mp - E \<times> (- E)) mp" "block_rooted mp E" "acyclic (spends mp)"
  shows "relinking H E E mp"
proof -
  note i = pool_invD [OF assms(1)]
  have L: "spends mp - E \<times> (- E) = linked mp E E" by (simp add: linked_def)
  have "(linked mp E E)\<^sup>* `` {h} = counted_in mp E E h" for h
    using descendants_of_links [OF assms(2), of E h] by (simp add: counted_in_def)
  then have "totals_ok mp (counted_in mp E E)" using i(5) unfolding L by simp
  then show ?thesis using i(1,2,6,7) assms(2,3) by (simp add: relinking_def L)
qed

lemma relinking_end: "relinking H E {} mp \<Longrightarrow> pool_ok H mp"
  unfolding relinking_def linked_def counted_in_def pool_ok_def pool_inv_def by simp

subsection \<open>Links to the spenders\<close>

lemma link_spenders_ok:
  assumes "set cs \<subseteq> keys mp" "links_ok mp L L" "usage_ok mp" "it \<in> keys mp" "{it} \<times> (set ch - E) \<subseteq> L"
  shows "\<exists>mp'. link_spenders it E cs ch mp = Some mp' \<and> links_ok mp' (L \<union> {it} \<times> (set cs - E)) (L \<union> {it} \<times> (set cs - E))
    \<and> usage_ok mp' \<and> same_but_links mp mp'"
  using assms
proof (induction cs arbitrary: ch mp L)
  case Nil
  then show ?case by simp
next
  case (Cons c cs)
  have c: "c \<in> keys mp" using Cons.prems(1) by simp
  show ?case
  proof (cases "c \<notin> set ch \<and> c \<notin> E")
    case True
    let ?mp1 = "UpdateChild it c True mp" and ?L = "insert (it, c) L"
    let ?mp2 = "UpdateParent c it True ?mp1"
    have 1: "links_ok ?mp1 L ?L" "usage_ok ?mp1" "same_but_links mp ?mp1"
      using UpdateChild_ok [OF Cons.prems(2-4), of c True] by simp_all
    have "c \<in> keys ?mp1" using c same_but_links_keys [OF 1(3)] by simp
    from UpdateParent_ok [OF 1(1,2) this, of it True]
    have 2: "links_ok ?mp2 ?L ?L" "usage_ok ?mp2" "same_but_links mp ?mp2" using same_but_links_trans [OF 1(3)] by simp_all
    have k: "keys ?mp2 = keys mp" by (rule same_but_links_keys [OF 2(3)])
    obtain mp' where m: "link_spenders it E cs (entries_insert c ch) ?mp2 = Some mp'"
      "links_ok mp' (?L \<union> {it} \<times> (set cs - E)) (?L \<union> {it} \<times> (set cs - E))" "usage_ok mp'" "same_but_links ?mp2 mp'"
      using Cons.IH [of ?mp2 ?L "entries_insert c ch"] 2(1,2) Cons.prems(1,4,5) k by auto
    have "?L \<union> {it} \<times> (set cs - E) = L \<union> {it} \<times> (set (c # cs) - E)" using True by auto
    then show ?thesis using m True c same_but_links_trans [OF 2(3) m(4)] by (simp add: exists_keys)
  next
    case False
    have "L \<union> {it} \<times> (set cs - E) = L \<union> {it} \<times> (set (c # cs) - E)" using False Cons.prems(5) by auto
    moreover have "{it} \<times> (set (entries_insert c ch) - E) \<subseteq> L" using False Cons.prems(5) by auto
    ultimately show ?thesis using False c Cons.IH [of mp L "entries_insert c ch"] Cons.prems by (auto simp: exists_keys)
  qed
qed

subsection \<open>The search with the cache\<close>

lemma visit_cached_ok:
  "ent_ok setAll \<Longrightarrow> visit_cached X stage cs setAll n = (setAll', n') \<Longrightarrow> ent_ok setAll' \<and> set setAll' = set setAll \<union> set cs"
  by (induction X stage cs setAll n rule: visit_cached.induct) (auto split: if_splits)

text \<open>What became of a child: it waits, it was visited, or it is cached and its cached descendants were added.\<close>

definition handled :: "cacheMap \<Rightarrow> setEntries \<Rightarrow> setEntries \<Rightarrow> txiter \<Rightarrow> bool" where
  "handled cache stage setAll c \<longleftrightarrow> c \<in> set stage \<union> set setAll \<or> (\<exists>S. cache c = Some S \<and> set S \<subseteq> set setAll)"

lemma handled_mono: "handled cache stage setAll c \<Longrightarrow> set stage \<subseteq> set stage' \<union> set setAll' \<Longrightarrow> set setAll \<subseteq> set setAll' \<Longrightarrow> handled cache stage' setAll' c"
  unfolding handled_def by blast

definition visited :: "cacheMap \<Rightarrow> txiter list \<Rightarrow> setEntries \<Rightarrow> setEntries \<Rightarrow> setEntries \<Rightarrow> setEntries \<Rightarrow> bool" where
  "visited cache cs stage setAll stage' setAll' \<longleftrightarrow> ent_ok stage' \<and> ent_ok setAll' \<and> set stage \<subseteq> set stage' \<and> set setAll \<subseteq> set setAll'
    \<and> set stage' \<subseteq> set stage \<union> (set cs - set setAll)
    \<and> (\<forall>x\<in>set setAll' - set setAll. \<exists>c\<in>set cs. \<exists>S. cache c = Some S \<and> x \<in> set S \<and> set S \<subseteq> set setAll')
    \<and> (\<forall>c\<in>set cs. handled cache stage' setAll' c)"

lemma visitedD:
  assumes "visited cache cs stage setAll stage' setAll'"
  shows "ent_ok stage'" "ent_ok setAll'" "set stage \<subseteq> set stage'" "set setAll \<subseteq> set setAll'" "set stage' \<subseteq> set stage \<union> (set cs - set setAll)"
    "\<And>x. x \<in> set setAll' \<Longrightarrow> x \<notin> set setAll \<Longrightarrow> \<exists>c\<in>set cs. \<exists>S. cache c = Some S \<and> x \<in> set S \<and> set S \<subseteq> set setAll'"
    "\<And>c. c \<in> set cs \<Longrightarrow> handled cache stage' setAll' c"
  using assms unfolding visited_def by (elim conjE, blast)+

lemma visited_Cons:
  assumes "visited cache cs st A stage' setAll'" "set stage \<subseteq> set st" "set setAll \<subseteq> set A" "set st \<subseteq> set stage \<union> ({c} - set setAll)"
    and "\<And>x. x \<in> set A \<Longrightarrow> x \<notin> set setAll \<Longrightarrow> \<exists>S. cache c = Some S \<and> x \<in> set S \<and> set S \<subseteq> set A" "handled cache st A c"
  shows "visited cache (c # cs) stage setAll stage' setAll'"
proof -
  note v = visitedD [OF assms(1)]
  have "handled cache stage' setAll' c" using handled_mono [OF assms(6)] v(3,4) by blast
  then have 7: "\<forall>c'\<in>set (c # cs). handled cache stage' setAll' c'" using v(7) by simp
  have 6: "\<forall>x\<in>set setAll' - set setAll. \<exists>c'\<in>set (c # cs). \<exists>S. cache c' = Some S \<and> x \<in> set S \<and> set S \<subseteq> set setAll'"
  proof
    fix x assume "x \<in> set setAll' - set setAll"
    then show "\<exists>c'\<in>set (c # cs). \<exists>S. cache c' = Some S \<and> x \<in> set S \<and> set S \<subseteq> set setAll'" using v(4) v(6) [of x] assms(5) [of x] by (cases "x \<in> set A") auto
  qed
  have "set stage' \<subseteq> set stage \<union> (set (c # cs) - set setAll)" using v(5) assms(3,4) by auto
  then show ?thesis using v(1-4) assms(2,3) 6 7 unfolding visited_def by blast
qed

lemma visit_children_ok:
  assumes "visit_children m cache X cs stage setAll n = Some (stage', setAll', n')" "ent_ok stage" "ent_ok setAll"
  shows "visited cache cs stage setAll stage' setAll'"
  using assms
proof (induction cs arbitrary: stage setAll n)
  case Nil
  then show ?case by (simp add: visited_def)
next
  case (Cons c cs)
  show ?case
  proof (cases "cache c")
    case (Some S)
    obtain A k where A: "visit_cached X stage S setAll n = (A, k)" by fastforce
    have a: "ent_ok A" "set A = set setAll \<union> set S" using visit_cached_ok [OF Cons.prems(3) A] by auto
    have r: "visit_children m cache X cs stage A k = Some (stage', setAll', n')"
      using Cons.prems(1) Some A by (simp split: if_splits)
    show ?thesis
      by (rule visited_Cons [OF Cons.IH [OF r Cons.prems(2) a(1)]]) (use a(2) Some in \<open>auto simp: handled_def\<close>)
  next
    case None
    define st where "st = (if c \<in> set setAll \<or> c \<in> set stage then stage else entries_insert c stage)"
    have st: "ent_ok st" "set st = set stage \<union> ({c} - set setAll)" using Cons.prems(2) by (auto simp: st_def)
    obtain k where r: "visit_children m cache X cs st setAll k = Some (stage', setAll', n')"
      using Cons.prems(1) None unfolding st_def by (auto split: if_splits)
    show ?thesis
      by (rule visited_Cons [OF Cons.IH [OF r st(1) Cons.prems(3)]]) (use st(2) in \<open>auto simp: handled_def\<close>)
  qed
qed

text \<open>While the search runs: it stays among the descendants \<open>D\<close>, the children of every visited entry are taken care of, and
  the entries that were expanded (\<open>P\<close>) do not come back.\<close>

definition search_inv :: "CTxMemPool \<Rightarrow> cacheMap \<Rightarrow> txiter \<Rightarrow> setEntries \<Rightarrow> setEntries \<Rightarrow> bool" where
  "search_inv mp cache it stage setAll \<longleftrightarrow> ent_ok stage \<and> ent_ok setAll \<and> set stage \<union> set setAll \<subseteq> (spends mp)\<^sup>+ `` {it}
     \<and> (\<forall>d\<in>insert it (set setAll). \<forall>c. (d, c) \<in> spends mp \<longrightarrow> handled cache stage setAll c)"

lemma search_done:
  assumes "search_inv mp cache it [] setAll" "cached_ok mp E cache"
  shows "set setAll - E = (spends mp)\<^sup>+ `` {it} - E"
proof
  show "set setAll - E \<subseteq> (spends mp)\<^sup>+ `` {it} - E" using assms(1) by (auto simp: search_inv_def)
  have all: "handled cache [] setAll c" if "d \<in> insert it (set setAll)" "(d, c) \<in> spends mp" for d c
    using assms(1) that unfolding search_inv_def by blast
  have "y \<in> set setAll \<or> (\<exists>c S. cache c = Some S \<and> (c, y) \<in> (spends mp)\<^sup>* \<and> set S \<subseteq> set setAll)" if "(it, y) \<in> (spends mp)\<^sup>+" for y
    using that
  proof (induction rule: trancl_induct)
    case (base y)
    then show ?case using all [of it y] by (auto simp: handled_def)
  next
    case (step y z)
    from step.IH show ?case
    proof
      assume "y \<in> set setAll"
      then show ?thesis using all [of y z] step(2) by (auto simp: handled_def)
    next
      assume "\<exists>c S. cache c = Some S \<and> (c, y) \<in> (spends mp)\<^sup>* \<and> set S \<subseteq> set setAll"
      then show ?thesis using step(2) by (meson rtrancl_into_rtrancl)
    qed
  qed
  moreover have "y \<in> set setAll" if "cache c = Some S" "(c, y) \<in> (spends mp)\<^sup>*" "set S \<subseteq> set setAll" "y \<notin> E" for c S y
  proof -
    have "c \<in> E" "set S = (spends mp)\<^sup>+ `` {c} - E" using assms(2) that(1) by (auto simp: cached_ok_def)
    moreover have "(c, y) \<in> (spends mp)\<^sup>+" using that(2,4) \<open>c \<in> E\<close> by (auto simp: rtrancl_eq_or_trancl)
    ultimately show ?thesis using that(3,4) by blast
  qed
  ultimately show "(spends mp)\<^sup>+ `` {it} - E \<subseteq> set setAll - E" by blast
qed

text \<open>The links of the descendants are complete when the search runs.\<close>

definition complete_below :: "CTxMemPool \<Rightarrow> (txiter \<times> txiter) set \<Rightarrow> txiter \<Rightarrow> bool" where
  "complete_below mp L it \<longleftrightarrow> (\<forall>d c. (it, d) \<in> (spends mp)\<^sup>* \<longrightarrow> ((d, c) \<in> L \<longleftrightarrow> (d, c) \<in> spends mp))"

lemma complete_belowD: "complete_below mp L it \<Longrightarrow> (it, d) \<in> (spends mp)\<^sup>* \<Longrightarrow> (d, c) \<in> L \<longleftrightarrow> (d, c) \<in> spends mp"
  by (simp add: complete_below_def)

lemma search_step:
  assumes inv: "search_inv mp cache it (cit # stage) setAll" and cache: "cached_ok mp E cache" and root: "block_rooted mp E"
    and cs: "set cs = {c. (cit, c) \<in> spends mp}"
    and v: "visited cache cs (entries_erase cit (cit # stage)) (entries_insert cit setAll) stage' setAll'"
  shows "search_inv mp cache it stage' setAll'"
proof -
  note i = inv [unfolded search_inv_def] and w = visitedD [OF v]
  let ?D = "(spends mp)\<^sup>+ `` {it}"
  have cit: "cit \<in> ?D" and sub: "set (cit # stage) \<subseteq> ?D" "set setAll \<subseteq> ?D" using i by auto
  have csD: "set cs \<subseteq> ?D" using cit unfolding cs by (auto intro: trancl_into_trancl)
  have closed: "set S \<subseteq> ?D" if "c \<in> set cs" "cache c = Some S" for c S
    using csD that cache unfolding cached_ok_def by (auto intro: trancl_trans)
  have D: "set stage' \<union> set setAll' \<subseteq> ?D"
  proof
    fix x assume "x \<in> set stage' \<union> set setAll'"
    then consider "x \<in> set (cit # stage) \<union> set setAll \<union> set cs" | c S where "c \<in> set cs" "cache c = Some S" "x \<in> set S"
      using w(5,6) by fastforce
    then show "x \<in> ?D"
    proof cases
      case 1
      then show ?thesis using sub csD by blast
    next
      case 2
      then show ?thesis using closed [OF 2(1,2)] by blast
    qed
  qed
  have "handled cache stage' setAll' c" if d: "d \<in> insert it (set setAll')" and e: "(d, c) \<in> spends mp" for d c
  proof -
    consider "d \<in> insert it (set setAll)" | "d = cit" | "d \<in> set setAll'" "d \<notin> set (entries_insert cit setAll)" using d by auto
    then show ?thesis
    proof cases
      case 1
      then have "handled cache (cit # stage) setAll c" using i e by blast
      then show ?thesis by (rule handled_mono) (use w(3,4) in auto)
    next
      case 2
      then show ?thesis using w(7) cs e by blast
    next
      case 3
      then obtain c' S where S: "c' \<in> set cs" "cache c' = Some S" "d \<in> set S" "set S \<subseteq> set setAll'" using w(6) by blast
      then have "set S = (spends mp)\<^sup>+ `` {c'} - E" using cache by (simp add: cached_ok_def)
      moreover have "c \<notin> E" if "d \<notin> E" using root e that by (auto simp: block_rooted_def)
      ultimately have "c \<in> set S" using S(3) e by (auto intro: trancl_into_trancl)
      then show ?thesis using S(4) by (auto simp: handled_def)
    qed
  qed
  then show ?thesis using w(1,2) D unfolding search_inv_def by blast
qed

lemma search_keys: "search_inv mp cache it stage setAll \<Longrightarrow> set stage \<union> set setAll \<subseteq> keys mp"
  using trancl_subset_Sigma [OF spends_keys, of mp] unfolding search_inv_def by fastforce

lemma descend_loop_search:
  assumes L: "links_ok mp L L" "complete_below mp L it" and cache: "cached_ok mp E cache" and root: "block_rooted mp E" and it: "it \<in> keys mp"
    and "search_inv mp cache it stage setAll" "P \<subseteq> set setAll" "P \<inter> set stage = {}" "card (keys mp) < k + card P + 1"
  shows "descend_loop k mp m cache X stage setAll n = Some gave_up
    \<or> (\<exists>A. descend_loop k mp m cache X stage setAll n = Some (descendants A) \<and> search_inv mp cache it [] A)"
  using assms(6-)
proof (induction k arbitrary: stage setAll n P)
  case (0 stage setAll n P)
  have sub: "set stage \<union> set setAll \<subseteq> keys mp" by (rule search_keys [OF 0(1)])
  have "P = keys mp" by (rule card_seteq) (use 0(2,4) sub in auto)
  then have "stage = []" using 0(3) sub by (cases stage) auto
  then show ?case using 0(1) by simp
next
  case (Suc k stage setAll n P)
  show ?case
  proof (cases stage)
    case Nil
    then show ?thesis using Suc.prems(1) by simp
  next
    case (Cons cit st)
    have D: "(it, cit) \<in> (spends mp)\<^sup>+" using Suc.prems(1) Cons by (simp add: search_inv_def)
    then have cK: "cit \<in> keys mp" using trancl_subset_Sigma [OF spends_keys, of mp] by blast
    obtain cs where cs: "GetMemPoolChildren mp cit = Some cs" "set cs = {c. (cit, c) \<in> L}"
      by (rule GetMemPoolChildren_ok [OF L(1) cK])
    have cs': "set cs = {c. (cit, c) \<in> spends mp}"
      using complete_belowD [OF L(2) trancl_into_rtrancl [OF D]] unfolding cs(2) by simp
    let ?st = "entries_erase cit (cit # st)" and ?A = "entries_insert cit setAll"
    have loop: "descend_loop (Suc k) mp m cache X stage setAll n =
        (if IsDirty (ent mp cit) then Some gave_up
         else case visit_children m cache X cs ?st ?A n of None \<Rightarrow> Some gave_up
           | Some (stage', setAll', n') \<Rightarrow> descend_loop k mp m cache X stage' setAll' n')"
      by (simp add: Cons entry_ent [OF cK] cs(1))
    show ?thesis
    proof (cases "IsDirty (ent mp cit) \<or> visit_children m cache X cs ?st ?A n = None")
      case True
      then show ?thesis unfolding loop by auto
    next
      case False
      then obtain st' A' n' where r: "visit_children m cache X cs ?st ?A n = Some (st', A', n')" by (metis not_None_eq surj_pair)
      have ok: "ent_ok ?st" "ent_ok ?A" using Suc.prems(1) Cons by (simp_all add: search_inv_def)
      have v: "visited cache cs ?st ?A st' A'" by (rule visit_children_ok [OF r ok])
      have inv: "search_inv mp cache it st' A'" by (rule search_step [OF Suc.prems(1) [unfolded Cons] cache root cs' v])
      have cP: "cit \<notin> P" using Suc.prems(3) Cons by auto
      have "P \<subseteq> keys mp" using Suc.prems(2) search_keys [OF Suc.prems(1)] by blast
      then have "finite P" by (rule finite_subset) simp
      have 1: "insert cit P \<inter> set st' = {}" using visitedD(5) [OF v] Suc.prems(2,3) Cons by auto
      have 2: "insert cit P \<subseteq> set A'" using visitedD(4) [OF v] Suc.prems(2) by auto
      have 3: "card (keys mp) < k + card (insert cit P) + 1" using Suc.prems(4) cP \<open>finite P\<close> by simp
      show ?thesis using Suc.IH [OF inv 2 1 3, of n'] False r unfolding loop by simp
    qed
  qed
qed

text \<open>The descendants outside the block, and the whole function.\<close>

lemma UpdateForDescendants_ok:
  assumes L: "links_ok mp L L" "complete_below mp L it" and cache: "cached_ok mp E cache" and root: "block_rooted mp E"
    and it: "it \<in> keys mp" "it \<in> E" and mok: "map_ok ser_uint256 (mp_mapTx mp)"
  defines "C \<equiv> (spends mp)\<^sup>+ `` {it} - E"
  shows "UpdateForDescendants it m cache E mp = Some (False, cache, mp)
    \<or> (\<exists>cache'. cached_ok mp E cache' \<and> UpdateForDescendants it m cache E mp
          = map_option (\<lambda>mp'. (True, cache', mp')) (modify_entry it (UpdateState (sum_size mp C) (sum_fee mp C) (int (card C))) mp))"
proof -
  obtain cs where cs: "GetMemPoolChildren mp it = Some cs" "ent_ok cs" "set cs = {c. (it, c) \<in> L}"
    by (rule GetMemPoolChildren_ok [OF L(1) it(1)])
  have cs': "set cs = {c. (it, c) \<in> spends mp}" using complete_belowD [OF L(2) rtrancl_refl] unfolding cs(3) by simp
  have inv: "search_inv mp cache it cs []" using cs(2) unfolding search_inv_def cs' by (auto simp: handled_def cs')
  have "card (keys mp) < (length (mp_mapTx mp) + 1) + card {} + 1" using card_keys [OF mok] by simp
  then consider "descend_loop (length (mp_mapTx mp) + 1) mp m cache E cs [] 0 = Some gave_up"
    | A where "descend_loop (length (mp_mapTx mp) + 1) mp m cache E cs [] 0 = Some (descendants A)" "search_inv mp cache it [] A"
    using descend_loop_search [OF L cache root it(1) inv, of "{}" "length (mp_mapTx mp) + 1" m E 0] by auto
  then show ?thesis
  proof cases
    case 1
    then show ?thesis by (simp add: UpdateForDescendants_def cs(1))
  next
    case (2 A)
    let ?F = "filter (\<lambda>c. c \<notin> E) A"
    define S where "S = fold entries_insert ?F (case cache it of None \<Rightarrow> [] | Some s \<Rightarrow> s)"
    define cache' where "cache' = (if ?F = [] then cache else cache(it \<mapsto> S))"
    have F: "set ?F = C" using search_done [OF 2(2) cache] by (auto simp: C_def)
    have "distinct ?F" using 2(2) by (simp add: search_inv_def ent_ok_distinct)
    then have sums: "sum_list (map (\<lambda>c. me_nTxSize (the (entry mp c))) ?F) = sum_size mp C"
        "sum_list (map (\<lambda>c. GetModifiedFee (the (entry mp c))) ?F) = sum_fee mp C" "int (length ?F) = int (card C)"
      using F by (simp_all add: sum_list_distinct_conv_sum_set sum_size_def sum_fee_def ent_def distinct_card [symmetric])
    have prev: "ent_ok (case cache it of None \<Rightarrow> [] | Some s \<Rightarrow> s)" "set (case cache it of None \<Rightarrow> [] | Some s \<Rightarrow> s) \<subseteq> C"
      using cache by (auto simp: cached_ok_def C_def split: option.splits)
    have fold: "ent_ok (fold entries_insert xs s) \<and> set (fold entries_insert xs s) = set xs \<union> set s" if "ent_ok s" for xs s
      using that by (induction xs arbitrary: s) auto
    have "ent_ok S" "set S = C" using fold [OF prev(1), of ?F] F prev(2) by (auto simp: S_def)
    then have "cached_ok mp E cache'" using cache it(2) by (auto simp: cached_ok_def cache'_def C_def)
    moreover have "UpdateForDescendants it m cache E mp
        = map_option (\<lambda>mp'. (True, cache', mp')) (modify_entry it (UpdateState (sum_size mp C) (sum_fee mp C) (int (card C))) mp)"
      unfolding UpdateForDescendants_def cs(1) option.case 2(1) descend_result.case Let_def sums cache'_def S_def ..
    ultimately show ?thesis by blast
  qed
qed

subsection \<open>One transaction of the block\<close>

lemma relinking_keep:
  assumes rel: "relinking H E W mp" and same: "same_entries mp mp'"
    and L: "links_ok mp' (linked mp E W') (linked mp E W')" and t: "totals_ok mp' (counted_in mp E W')" and u: "usage_ok mp'"
    and f: "mp_mapNextTx mp' = mp_mapNextTx mp" "mp_totalTxSize mp' = mp_totalTxSize mp"
  shows "relinking H E W' mp'"
proof -
  note r = relinkingD [OF rel] and S = same_entries_spends [OF same]
  have "linked mp' E W' = linked mp E W'" "counted_in mp' E W' = counted_in mp E W'" "block_rooted mp' E = block_rooted mp E"
    by (simp_all add: linked_def counted_in_def block_rooted_def S fun_eq_iff)
  then show ?thesis
    using r L t u same_entries_inv(1) [OF same f(2) r(1)] same_entries_inv(2) [OF same f(1) r(5)] by (simp add: relinking_def S)
qed

lemma same_but_links_same: "same_but_links mp mp' \<Longrightarrow> same_entries mp mp'"
  by (simp add: same_entries_def same_but_links_def ent_def)

text \<open>No transaction that was processed has a spender among those that wait.\<close>

definition settled :: "CTxMemPool \<Rightarrow> txiter set \<Rightarrow> txiter set \<Rightarrow> bool" where
  "settled mp E W \<longleftrightarrow> spends mp \<inter> (E - W) \<times> W = {}"

lemma settled_descendants:
  assumes "block_rooted mp E" "W \<subseteq> E" "settled mp E (W - {it})" "it \<in> W" "(it, d) \<in> (spends mp)\<^sup>*"
  shows "d \<notin> W - {it}"
  using assms(5)
proof (induction rule: rtrancl_induct)
  case (step d c)
  show ?case
  proof (cases "d \<in> E")
    case True
    then show ?thesis using step(2,3) assms(3) by (auto simp: settled_def)
  next
    case False
    then have "c \<notin> E" using step(2) assms(1) by (auto simp: block_rooted_def)
    then show ?thesis using assms(2) by auto
  qed
qed simp

lemma counted_step:
  assumes "it \<in> W" "W \<subseteq> E"
  shows "counted_in mp E (W - {it}) it = counted_in mp E W it \<union> ((spends mp)\<^sup>+ `` {it} - E)"
    and "h \<noteq> it \<Longrightarrow> counted_in mp E (W - {it}) h = counted_in mp E W h"
  using assms by (auto simp: counted_in_def rtrancl_eq_or_trancl)

lemma counted_in_keys: "h \<in> keys mp \<Longrightarrow> counted_in mp E W h \<subseteq> keys mp"
  using pool_descendants_keys [of h mp] by (auto simp: counted_in_def)

lemma relink_entry:
  assumes rel: "relinking H E W mp" and W: "W \<subseteq> E" "it \<in> W" and set: "settled mp E (W - {it})" and it: "it \<in> keys mp"
    and cache: "cached_ok mp E cache"
  obtains mp1 ok cache' mp2 mp3 where "link_spenders it E (map snd (outputs_range mp it)) [] mp = Some mp1"
    "UpdateForDescendants it 100 cache E mp1 = Some (ok, cache', mp2)"
    "(if ok then Some mp2 else modify_entry it (\<lambda>e. Some (SetDirty e)) mp2) = Some mp3"
    "relinking H E (W - {it}) mp3" "same_entries mp mp3" "cached_ok mp E cache'" "mp_mapDeltas mp3 = mp_mapDeltas mp"
proof -
  note r = relinkingD [OF rel]
  let ?W = "W - {it}" and ?C = "(spends mp)\<^sup>+ `` {it} - E"
  have kids: "set (map snd (outputs_range mp it)) = {c. (it, c) \<in> spends mp}"
    using outputs_range_iff [OF r(5)] it by (auto simp: spends_def)
  have sub: "set (map snd (outputs_range mp it)) \<subseteq> keys mp" unfolding kids using spends_keys by blast
  obtain mp1 where m1: "link_spenders it E (map snd (outputs_range mp it)) [] mp = Some mp1"
      "links_ok mp1 (linked mp E W \<union> {it} \<times> (set (map snd (outputs_range mp it)) - E)) (linked mp E W \<union> {it} \<times> (set (map snd (outputs_range mp it)) - E))"
      "usage_ok mp1" "same_but_links mp mp1"
    using link_spenders_ok [OF sub r(2,6) it, of "[]" E] by auto
  have L1: "linked mp E W \<union> {it} \<times> (set (map snd (outputs_range mp it)) - E) = linked mp E ?W"
    unfolding kids using W by (auto simp: linked_def)
  have same1: "same_entries mp mp1" by (rule same_but_links_same [OF m1(4)])
  note S1 = same_entries_spends [OF same1] and K1 = same_entries_keys [OF same1] and e1 = same_but_links_ent [OF m1(4)]
  have L: "links_ok mp1 (linked mp E ?W) (linked mp E ?W)" using m1(2) unfolding L1 .
  have below: "complete_below mp1 (linked mp E ?W) it"
    unfolding complete_below_def S1 using settled_descendants [OF r(7) W(1) set W(2)] by (auto simp: linked_def)
  have cache1: "cached_ok mp1 E cache" using cache by (simp add: cached_ok_def S1)
  have root1: "block_rooted mp1 E" using r(7) by (simp add: block_rooted_def S1)
  have mok1: "map_ok ser_uint256 (mp_mapTx mp1)" using r(8) m1(4) by (simp add: same_but_links_def)
  have itE: "it \<in> E" and it1: "it \<in> keys mp1" using W it K1 by auto
  have ent1: "pool_entries_ok H mp1" by (rule same_entries_inv(1) [OF same1 _ r(1)]) (use m1(4) in \<open>simp add: same_but_links_def\<close>)
  have sums1: "sum_size mp1 D = sum_size mp D" "sum_fee mp1 D = sum_fee mp D" for D by (simp_all add: sum_size_def sum_fee_def e1)
  have t1: "totals_ok mp1 (counted_in mp E W)" using r(4) by (simp add: totals_ok_def totals_of_def K1 e1 sums1)
  have keep: "relinking H E ?W mp3 \<and> same_entries mp mp3 \<and> mp_mapDeltas mp3 = mp_mapDeltas mp"
    if "mp3 = mp1\<lparr> mp_mapTx := m \<rparr>" "same_entries mp1 mp3" "totals_ok mp3 (counted_in mp E ?W)" for mp3 m
  proof -
    have "links_ok mp3 (linked mp E ?W) (linked mp E ?W)" by (rule same_entries_inv(3) [OF that(2) _ L]) (simp add: that(1))
    moreover have "usage_ok mp3" by (rule same_entries_inv(4) [OF that(2) _ _ m1(3)]) (simp_all add: that(1))
    moreover have "same_entries mp mp3" by (rule same_entries_trans [OF same1 that(2)])
    moreover have "mp_mapNextTx mp3 = mp_mapNextTx mp" "mp_totalTxSize mp3 = mp_totalTxSize mp" "mp_mapDeltas mp3 = mp_mapDeltas mp"
      using m1(4) by (simp_all add: that(1) same_but_links_def)
    ultimately show ?thesis using relinking_keep [OF rel, of mp3 ?W] that(3) by blast
  qed
  from UpdateForDescendants_ok [OF L below cache1 root1 it1 itE mok1, of 100, unfolded S1]
  show thesis
  proof (elim disjE exE conjE)
    assume up: "UpdateForDescendants it 100 cache E mp1 = Some (False, cache, mp1)"
    obtain m where m: "modify_entry it (\<lambda>e. Some (SetDirty e)) mp1 = Some (mp1\<lparr> mp_mapTx := m \<rparr>)" "map fst m = map fst (mp_mapTx mp1)"
        "\<And>k. ent (mp1\<lparr> mp_mapTx := m \<rparr>) k = (if k = it then SetDirty (ent mp1 it) else ent mp1 k)"
      by (rule modify_entry_ok [OF it1, of "\<lambda>e. Some (SetDirty e)" "SetDirty (ent mp1 it)", OF refl], rule that) assumption+
    let ?mp3 = "mp1\<lparr> mp_mapTx := m \<rparr>"
    have same3: "same_entries mp1 ?mp3" using m(2,3) by (simp add: same_entries_def SetDirty_def static_def)
    have "totals_of ?mp3 (counted_in mp E ?W h) (ent ?mp3 h)" if h: "h \<in> keys mp1" for h
    proof (cases "h = it")
      case True
      then show ?thesis using m(3) by (simp add: totals_of_def SetDirty_def IsDirty_def GetModifiedFee_def)
    next
      case False
      have "totals_of mp1 (counted_in mp E W h) (ent mp1 h)" using t1 h by (simp add: totals_ok_def)
      moreover have "counted_in mp E ?W h = counted_in mp E W h" by (rule counted_step(2) [OF W(2,1) False])
      moreover have "counted_in mp E W h \<subseteq> keys mp1" using counted_in_keys h K1 by simp
      ultimately show ?thesis using m(3) False same_entries_sums [OF same3] by (simp add: totals_of_def)
    qed
    then have "totals_ok ?mp3 (counted_in mp E ?W)" using same_entries_keys [OF same3] by (simp add: totals_ok_def)
    from keep [OF refl same3 this] show thesis using m1(1) up m(1) cache by (intro that [of mp1 False cache mp1 ?mp3]) simp_all
  next
    fix cache'
    assume c': "cached_ok mp1 E cache'" and up: "UpdateForDescendants it 100 cache E mp1
      = map_option (\<lambda>mp'. (True, cache', mp')) (modify_entry it (UpdateState (sum_size mp1 ?C) (sum_fee mp1 ?C) (int (card ?C))) mp1)"
    let ?D = "counted_in mp E W it" and ?D' = "counted_in mp E ?W it"
    have D': "?D' = ?D \<union> ?C" by (rule counted_step(1) [OF W(2,1)])
    have D'K: "?D' \<subseteq> keys mp1" using counted_in_keys [OF it] K1 by simp
    have fin: "finite ?D'" by (rule finite_subset [OF D'K finite_keys])
    have dis: "?D \<inter> ?C = {}" using W by (auto simp: counted_in_def)
    have fin2: "finite ?D" "finite ?C" using fin unfolding D' by auto
    have itD: "it \<in> ?D'" by (simp add: counted_in_def)
    have sums: "int (card ?D') = int (card ?D) + int (card ?C)" "sum_size mp1 ?D' = sum_size mp1 ?D + sum_size mp1 ?C"
        "sum_fee mp1 ?D' = sum_fee mp1 ?D + sum_fee mp1 ?C"
      unfolding D' by (simp_all add: card_Un_disjoint fin2 dis sum_size_def sum_fee_def sum.union_disjoint)
    have "0 < card ?D'" using itD fin card_gt_0_iff by blast
    then have pos: "positive_i64 (int (card ?D'))" "positive_i64 (sum_size mp1 ?D')"
      using sum_size_bounds [OF ent1 D'K] by (simp_all add: positive_i64_def)
    obtain m where m: "each (\<lambda>a. modify_entry a (UpdateState (sum_size mp1 ?C) (sum_fee mp1 ?C) (int (card ?C)))) [it] mp1
          = Some (mp1\<lparr> mp_mapTx := m \<rparr>)"
        "same_entries mp1 (mp1\<lparr> mp_mapTx := m \<rparr>)" "totals_ok (mp1\<lparr> mp_mapTx := m \<rparr>) (counted_in mp E ?W)"
    proof (rule each_UpdateState [of "[it]" mp1 "counted_in mp E W" "counted_in mp E ?W" "int (card ?C)" "sum_size mp1 ?C" "sum_fee mp1 ?C"])
      show "totals_ok mp1 (counted_in mp E W)" by (rule t1)
      show "counted_in mp E ?W h = counted_in mp E W h" if "h \<in> keys mp1" "h \<notin> set [it]" for h
        by (rule counted_step(2) [OF W(2,1)]) (use that in simp)
      show "counted_in mp E ?W h \<subseteq> keys mp1" if "h \<in> keys mp1" for h using counted_in_keys that K1 by simp
      show "int (card (counted_in mp E ?W a)) = int (card (counted_in mp E W a)) + int (card ?C)
          \<and> sum_size mp1 (counted_in mp E ?W a) = sum_size mp1 (counted_in mp E W a) + sum_size mp1 ?C
          \<and> sum_fee mp1 (counted_in mp E ?W a) = sum_fee mp1 (counted_in mp E W a) + sum_fee mp1 ?C
          \<and> positive_i64 (int (card (counted_in mp E ?W a))) \<and> positive_i64 (sum_size mp1 (counted_in mp E ?W a))" if "a \<in> set [it]" for a
        using that sums pos by simp
    qed (use it1 mok1 in simp_all)
    have mod: "modify_entry it (UpdateState (sum_size mp1 ?C) (sum_fee mp1 ?C) (int (card ?C))) mp1 = Some (mp1\<lparr> mp_mapTx := m \<rparr>)"
      using m(1) by (simp split: option.splits)
    have "cached_ok mp E cache'" using c' by (simp add: cached_ok_def S1)
    with keep [OF refl m(2,3)] show thesis
      using m1(1) up mod by (intro that [of mp1 True cache' "mp1\<lparr> mp_mapTx := m \<rparr>" "mp1\<lparr> mp_mapTx := m \<rparr>"]) simp_all
  qed
qed

subsection \<open>All transactions of the block\<close>

text \<open>The transactions come after their parents.\<close>

definition parents_first :: "CTxMemPool \<Rightarrow> uint256 list \<Rightarrow> bool" where
  "parents_first mp hs \<longleftrightarrow> distinct hs \<and> sorted_wrt (\<lambda>a b. (b, a) \<notin> spends mp) hs"

lemma relinking_skip:
  assumes "relinking H E W mp" "it \<notin> keys mp"
  shows "relinking H E (W - {it}) mp"
proof -
  have "linked mp E (W - {it}) = linked mp E W" using assms(2) spends_keys by (auto simp: linked_def)
  moreover have "totals_ok mp (counted_in mp E (W - {it})) = totals_ok mp (counted_in mp E W)"
    unfolding totals_ok_def using assms(2) by (intro ball_cong refl) (auto simp: counted_in_def)
  ultimately show ?thesis using assms(1) by (simp add: relinking_def)
qed

lemma update_from_block_ok:
  assumes "relinking H E (set hs) mp" "set hs \<subseteq> E" "distinct hs" "settled mp E (set hs)" "sorted_wrt (\<lambda>a b. (a, b) \<notin> spends mp) hs"
    "cached_ok mp E cache"
  shows "\<exists>mp'. update_from_block E hs cache mp = Some mp' \<and> pool_ok H mp' \<and> same_entries mp mp' \<and> mp_mapDeltas mp' = mp_mapDeltas mp"
  using assms
proof (induction hs arbitrary: mp cache)
  case Nil
  then show ?case using relinking_end by simp
next
  case (Cons it hs)
  have W: "set (it # hs) - {it} = set hs" using Cons.prems(3) by auto
  have set: "settled mp E (set hs)"
    using Cons.prems(4,5) unfolding settled_def by auto
  show ?case
  proof (cases "it \<in> keys mp")
    case False
    have "relinking H E (set hs) mp" using relinking_skip [OF Cons.prems(1) False] unfolding W .
    then obtain mp' where "update_from_block E hs cache mp = Some mp'" "pool_ok H mp'" "same_entries mp mp'" "mp_mapDeltas mp' = mp_mapDeltas mp"
      using Cons.IH [of mp cache] Cons.prems set by auto
    then show ?thesis using False by (simp add: exists_keys)
  next
    case True
    obtain mp1 ok cache' mp2 mp3 where r: "link_spenders it E (map snd (outputs_range mp it)) [] mp = Some mp1"
      "UpdateForDescendants it 100 cache E mp1 = Some (ok, cache', mp2)"
      "(if ok then Some mp2 else modify_entry it (\<lambda>e. Some (SetDirty e)) mp2) = Some mp3"
      "relinking H E (set hs) mp3" "same_entries mp mp3" "cached_ok mp E cache'" "mp_mapDeltas mp3 = mp_mapDeltas mp"
      by (rule relink_entry [OF Cons.prems(1,2), of it, unfolded W, OF _ set True Cons.prems(6)]) auto
    note S = same_entries_spends [OF r(5)]
    have "\<exists>mp'. update_from_block E hs cache' mp3 = Some mp' \<and> pool_ok H mp' \<and> same_entries mp3 mp' \<and> mp_mapDeltas mp' = mp_mapDeltas mp3"
      by (rule Cons.IH [OF r(4)]) (use Cons.prems set r(6) in \<open>simp_all add: S settled_def cached_ok_def\<close>)
    moreover have "update_from_block E (it # hs) cache mp = update_from_block E hs cache' mp3"
      using True r(1-3) by (cases ok) (simp_all add: exists_keys)
    ultimately show ?thesis using same_entries_trans [OF r(5)] r(7) by auto
  qed
qed

lemma UpdateTransactionsFromBlock_ok:
  assumes "pool_inv H (spends mp - set hs \<times> (- set hs)) mp" "acyclic (spends mp)" "block_rooted mp (set hs)" "parents_first mp hs"
  obtains mp' where "UpdateTransactionsFromBlock hs mp = Some mp'" "pool_ok H mp'" "same_entries mp mp'" "mp_mapDeltas mp' = mp_mapDeltas mp"
proof -
  have "relinking H (set hs) (set (rev hs)) mp" using relinking_start [OF assms(1,3,2)] by simp
  moreover have "settled mp (set hs) (set (rev hs))" by (simp add: settled_def)
  moreover have "distinct (rev hs)" "sorted_wrt (\<lambda>a b. (a, b) \<notin> spends mp) (rev hs)"
    using assms(4) by (simp_all add: parents_first_def sorted_wrt_rev)
  moreover have "cached_ok mp (set hs) (\<lambda>_. None)" by (simp add: cached_ok_def)
  ultimately show thesis
    using update_from_block_ok [of H "set hs" "rev hs" mp "\<lambda>_. None"] that unfolding UpdateTransactionsFromBlock_def by auto
qed

subsection \<open>Bringing a block back\<close>

lemma relinked_acyclic:
  assumes "acyclic (spends mp - E \<times> (- E))" "block_rooted mp E"
  shows "acyclic (spends mp)"
proof -
  let ?L = "spends mp - E \<times> (- E)"
  have "(x, y) \<in> ?L\<^sup>+" if "(x, y) \<in> (spends mp)\<^sup>+" "x \<in> E \<longleftrightarrow> y \<in> E" for x y
    using that
  proof (induction rule: trancl_induct)
    case (base y)
    then show ?case by auto
  next
    case (step y z)
    have "y \<in> E" if "z \<in> E" using step(2) assms(2) that by (auto simp: block_rooted_def)
    moreover have "y \<notin> E" if "x \<notin> E" by (rule outside_trancl [OF assms(2) step(1) that])
    ultimately have "x \<in> E \<longleftrightarrow> y \<in> E" "(y, z) \<in> ?L" using step(2,4) by auto
    then show ?case using step.IH by (meson trancl_into_trancl)
  qed
  then show ?thesis using assms(1) unfolding acyclic_def by blast
qed

lemma addUnchecked_search_ok:
  assumes inv: "pool_inv H L mp" and add: "addable H mp e" and h: "h = tx_GetHash H (me_tx e)"
  obtains mp' where "addUnchecked_search H h e mp = Some mp'" "pool_inv H (links_added mp L h e) mp'" "keys mp' = insert h (keys mp)"
    "\<And>k. k \<in> keys mp \<Longrightarrow> static (ent mp' k) = static (ent mp k)" "static (ent mp' h) = static (with_delta mp h e)"
    "mp_mapDeltas mp' = mp_mapDeltas mp"
proof -
  note i = pool_invD [OF inv]
  have Lk: "L \<subseteq> keys mp \<times> keys mp" using i(3) spends_keys by blast
  have D: "L\<^sup>* `` {k} \<subseteq> keys mp" if "k \<in> keys mp" for k using rtrancl_keys [OF Lk] that by blast
  note b = bounded_totals [OF i(1,5) D]
  have "0 \<le> mp_totalTxSize mp" using sum_size_bounds [OF i(1) order_refl] i(1) by (simp add: pool_entries_ok_def)
  then have s: "0 \<le> me_nTxSize e" "me_nTxSize e < 2 ^ 63" using add by (simp_all add: addable_def fresh_entry_def)
  have "ancestors_of L (parent_ids e \<inter> keys mp) \<subseteq> keys mp" by (rule ancestors_of_keys [OF Lk]) blast
  from within_no_limits [OF i(1) b this s(2)] CalculateMemPoolAncestors_search [OF i(1,2) Lk b s, of no_limits]
  obtain A where A: "CalculateMemPoolAncestors mp no_limits e None = Some (Inr A)" "ent_ok A"
      "set A = ancestors_of L (parent_ids e \<inter> keys mp)"
    by (auto split: option.splits sum.splits)
  have eq: "addUnchecked_search H h e mp = addUnchecked H h e A mp" by (simp add: addUnchecked_search_def A(1))
  show thesis by (rule addUnchecked_ok [OF inv add h A(2,3)], rule that, unfold eq) assumption+
qed

text \<open>The transactions of a block enter the pool again, one by one; then the links to their spenders are restored.\<close>

fun readd :: "(byte list \<Rightarrow> uint256) \<Rightarrow> CTxMemPoolEntry list \<Rightarrow> CTxMemPool \<Rightarrow> CTxMemPool option" where
  "readd H [] mp = Some mp"
| "readd H (e # es) mp = Option.bind (addUnchecked_search H (tx_GetHash H (me_tx e)) e mp) (readd H es)"

definition ids_of :: "(byte list \<Rightarrow> uint256) \<Rightarrow> CTxMemPoolEntry list \<Rightarrow> uint256 list" where
  "ids_of H es = map (\<lambda>e. tx_GetHash H (me_tx e)) es"

fun parents_before :: "(byte list \<Rightarrow> uint256) \<Rightarrow> uint256 set \<Rightarrow> uint256 set \<Rightarrow> CTxMemPoolEntry list \<Rightarrow> bool" where
  "parents_before H U E [] \<longleftrightarrow> True"
| "parents_before H U E (e # es) \<longleftrightarrow> parent_ids e \<inter> U \<subseteq> E \<and> parents_before H U (insert (tx_GetHash H (me_tx e)) E) es"

text \<open>What is known of a disconnected block: its transactions are new to the pool and spend nothing that the pool or another of
  them spends, and among the pool and the block the parents of each come earlier in the block.\<close>

definition comes_back :: "(byte list \<Rightarrow> uint256) \<Rightarrow> CTxMemPool \<Rightarrow> uint256 set \<Rightarrow> CTxMemPoolEntry list \<Rightarrow> bool" where
  "comes_back H mp E es \<longleftrightarrow> list_all fresh_entry es \<and> distinct (ids_of H es) \<and> set (ids_of H es) \<inter> keys mp = {}
     \<and> parents_before H (keys mp \<union> set (ids_of H es)) E es \<and> (\<forall>e\<in>set es. \<forall>p\<in>outpoints e. next_tx mp p = None)
     \<and> sorted_wrt (\<lambda>a b. outpoints a \<inter> outpoints b = {}) es \<and> mp_totalTxSize mp + sum_list (map me_nTxSize es) < 2 ^ 63"

lemma comes_backD:
  assumes "comes_back H mp E (e # es)" "E \<subseteq> keys mp"
  defines "h \<equiv> tx_GetHash H (me_tx e)"
  shows "addable H mp e" "h \<notin> keys mp" "h \<notin> parent_ids e" "parent_ids e \<inter> keys mp \<subseteq> E"
proof -
  note c = assms(1) [unfolded comes_back_def ids_of_def, simplified, folded h_def]
  show "h \<notin> keys mp" using c by blast
  then show "h \<notin> parent_ids e" using c assms(2) by blast
  show "parent_ids e \<inter> keys mp \<subseteq> E" using c by blast
  have "0 \<le> sum_list (map me_nTxSize es)" by (rule sum_list_nonneg) (use c in \<open>auto simp: list_all_iff fresh_entry_def less_imp_le\<close>)
  then show "addable H mp e" using c \<open>h \<notin> parent_ids e\<close> unfolding addable_def by (auto simp flip: h_def)
qed

lemma comes_back_tail:
  assumes c: "comes_back H mp E (e # es)" and E: "E \<subseteq> keys mp" and h: "h = tx_GetHash H (me_tx e)" and ok: "next_ok mp" "pool_entries_ok H mp"
    and m: "keys mp' = insert h (keys mp)" "\<And>k. k \<in> keys mp \<Longrightarrow> static (ent mp' k) = static (ent mp k)"
    "static (ent mp' h) = static (with_delta mp h e)" "next_ok mp'" "pool_entries_ok H mp'"
  shows "comes_back H mp' (insert h E) es"
proof -
  note d = c [unfolded comes_back_def ids_of_def, simplified, folded h]
  have hk: "h \<notin> keys mp" using d by blast
  have "next_tx mp' p = None" if x: "x \<in> set es" "p \<in> outpoints x" for x p
  proof (cases "next_tx mp' p")
    case (Some k)
    then have k: "k \<in> insert h (keys mp)" "p \<in> outpoints (ent mp' k)" using m(1,4) by (simp_all add: next_ok_def)
    show ?thesis
    proof (cases "k = h")
      case True
      then have "p \<in> outpoints e" using k(2) staticD(5) [OF m(3)] by simp
      then show ?thesis using d x by blast
    next
      case False
      then have "k \<in> keys mp" "p \<in> outpoints (ent mp k)" using k staticD(5) [OF m(2)] by auto
      then have "next_tx mp p = Some k" using ok(1) by (simp add: next_ok_def)
      then show ?thesis using d x by auto
    qed
  qed simp
  moreover have "mp_totalTxSize mp' = mp_totalTxSize mp + me_nTxSize e"
  proof -
    have "sum_size mp' (keys mp') = me_nTxSize (ent mp' h) + sum_size mp' (keys mp)"
      unfolding m(1) sum_size_def using hk by simp
    also have "sum_size mp' (keys mp) = sum_size mp (keys mp)"
      unfolding sum_size_def by (rule sum.cong [OF refl]) (rule staticD(2) [OF m(2)])
    finally show ?thesis using ok(2) m(5) staticD(2) [OF m(3)] by (simp add: pool_entries_ok_def)
  qed
  moreover have "insert h (keys mp) \<union> set (ids_of H es) = keys mp \<union> set (ids_of H (e # es))" by (auto simp: ids_of_def h)
  ultimately show ?thesis using c unfolding comes_back_def m(1) by (auto simp: ids_of_def h)
qed

lemma readd_ok:
  assumes "pool_inv H (spends mp - E \<times> (- E)) mp" "E \<subseteq> keys mp" "block_rooted mp E" "comes_back H mp E es"
    "\<And>e k. e \<in> set es \<Longrightarrow> k \<in> E \<Longrightarrow> tx_GetHash H (me_tx e) \<notin> parent_ids (ent mp k)"
  shows "\<exists>mp'. readd H es mp = Some mp' \<and> pool_inv H (spends mp' - (E \<union> set (ids_of H es)) \<times> (- (E \<union> set (ids_of H es)))) mp'
    \<and> block_rooted mp' (E \<union> set (ids_of H es)) \<and> keys mp' = keys mp \<union> set (ids_of H es)
    \<and> (\<forall>k\<in>keys mp. static (ent mp' k) = static (ent mp k)) \<and> mp_mapDeltas mp' = mp_mapDeltas mp
    \<and> (\<forall>e\<in>set es. static (ent mp' (tx_GetHash H (me_tx e))) = static (with_delta mp (tx_GetHash H (me_tx e)) e))"
  using assms
proof (induction es arbitrary: mp E)
  case Nil
  then show ?case by (simp add: ids_of_def)
next
  case (Cons e es)
  define h where "h = tx_GetHash H (me_tx e)"
  let ?L = "spends mp - E \<times> (- E)" and ?E = "insert h E"
  note i = pool_invD [OF Cons.prems(1)] and c = comes_backD [OF Cons.prems(4,2), folded h_def]
  obtain mp1 where m: "addUnchecked_search H h e mp = Some mp1" "pool_inv H (links_added mp ?L h e) mp1" "keys mp1 = insert h (keys mp)"
    "\<And>k. k \<in> keys mp \<Longrightarrow> static (ent mp1 k) = static (ent mp k)" "static (ent mp1 h) = static (with_delta mp h e)"
    "mp_mapDeltas mp1 = mp_mapDeltas mp"
    by (rule addUnchecked_search_ok [OF Cons.prems(1) c(1) h_def], rule that) assumption+
  note i1 = pool_invD [OF m(2)]
  have ids1: "parent_ids (ent mp1 k) = parent_ids (ent mp k)" if "k \<in> keys mp" for k using staticD(6) [OF m(4) [OF that]] .
  have idh: "parent_ids (ent mp1 h) = parent_ids e" using staticD(6) [OF m(5)] by simp
  have noE: "h \<notin> parent_ids (ent mp k)" if "k \<in> E" for k using Cons.prems(5) [of e k] that by (simp add: h_def)
  have sp: "(p, k) \<in> spends mp1 \<longleftrightarrow> (p, k) \<in> spends mp \<or> (k = h \<and> p \<in> parent_ids e \<inter> keys mp)
      \<or> (p = h \<and> k \<in> keys mp \<and> h \<in> parent_ids (ent mp k))" for p k
    using c(2,3) ids1 idh unfolding spends_def m(3) by (cases "k = h") auto
  have spk: "p \<noteq> h" "k \<noteq> h" if "(p, k) \<in> spends mp" for p k using that c(2) by (auto simp: spends_def)
  have L1: "links_added mp ?L h e = spends mp1 - ?E \<times> (- ?E)"
  proof -
    have "(p, k) \<in> links_added mp ?L h e \<longleftrightarrow> (p, k) \<in> spends mp1 - ?E \<times> (- ?E)" for p k
      using c(2,4) Cons.prems(2) noE spk [of p k] unfolding links_added_def by (auto simp: sp)
    then show ?thesis by (intro set_eqI) (auto simp del: Diff_iff)
  qed
  have root1: "block_rooted mp1 ?E"
  proof -
    have "p \<in> ?E" if "(p, k) \<in> spends mp1" "k \<in> ?E" for p k
      using that(1) unfolding sp
    proof (elim disjE conjE)
      assume s: "(p, k) \<in> spends mp"
      then have "k \<in> E" using spk(2) that(2) by blast
      then show ?thesis using s Cons.prems(3) by (auto simp: block_rooted_def)
    qed (use c(4) in auto)
    then show ?thesis by (auto simp: block_rooted_def)
  qed
  have cb1: "comes_back H mp1 ?E es"
    by (rule comes_back_tail [OF Cons.prems(4,2) h_def i(6,1) m(3,4,5) i1(6,1)])
  have E1: "?E \<subseteq> keys mp1" using Cons.prems(2) m(3) by auto
  have pb: "parents_before H U E es \<Longrightarrow> tx_GetHash H (me_tx x) \<in> U" if "x \<in> set es" "set (ids_of H es) \<subseteq> U" for U x
    using that by (auto simp: ids_of_def)
  have no1: "tx_GetHash H (me_tx x) \<notin> parent_ids (ent mp1 k)" if x: "x \<in> set es" and k: "k \<in> ?E" for x k
  proof (cases "k = h")
    case True
    have "tx_GetHash H (me_tx x) \<in> keys mp \<union> set (ids_of H (e # es))" "tx_GetHash H (me_tx x) \<notin> E"
      using x Cons.prems(2,4) by (auto simp: ids_of_def comes_back_def)
    then show ?thesis using Cons.prems(4) True idh unfolding comes_back_def by auto
  next
    case False
    then show ?thesis using Cons.prems(2) Cons.prems(5) [of x k] x k ids1 [of k] by auto
  qed
  obtain mp' where m': "readd H es mp1 = Some mp'" "pool_inv H (spends mp' - (?E \<union> set (ids_of H es)) \<times> (- (?E \<union> set (ids_of H es)))) mp'"
    "block_rooted mp' (?E \<union> set (ids_of H es))" "keys mp' = keys mp1 \<union> set (ids_of H es)"
    "\<forall>k\<in>keys mp1. static (ent mp' k) = static (ent mp1 k)" "mp_mapDeltas mp' = mp_mapDeltas mp1"
    "\<forall>e\<in>set es. static (ent mp' (tx_GetHash H (me_tx e))) = static (with_delta mp1 (tx_GetHash H (me_tx e)) e)"
    using Cons.IH [OF m(2) [unfolded L1] E1 root1 cb1 no1] by blast
  have E2: "?E \<union> set (ids_of H es) = E \<union> set (ids_of H (e # es))" by (auto simp: ids_of_def h_def)
  have "with_delta mp1 k x = with_delta mp k x" for k x by (simp add: with_delta_def m(6))
  moreover have "readd H (e # es) mp = Some mp'" using m(1) m'(1) by (simp flip: h_def)
  moreover have "keys mp' = keys mp \<union> set (ids_of H (e # es))" using m'(4) m(3) by (auto simp: ids_of_def h_def)
  ultimately show ?case using m'(2,3,5-7) m(3-6) unfolding E2 by (simp flip: h_def)
qed

end
