(* ===== verification/Mempool_Reach.thy ===== *)
theory Mempool_Reach
  imports Mempool_Reorg Mempool_Keep
begin

text \<open>
  The properties of the operations of the pool: admission, blocks that are connected and disconnected, limits, priorities.
\<close>

subsection \<open>The fee deltas of the entries\<close>

lemma deltas_ok_shrunk: "deltas_ok mp \<Longrightarrow> shrunk mp mp' \<Longrightarrow> deltas_ok mp'"
  unfolding deltas_ok_def shrunk_def using staticD(8) by (metis subsetD)

lemma with_delta_feeDelta: "me_feeDelta e = 0 \<Longrightarrow> me_feeDelta (with_delta mp h e) = delta_at mp h"
  by (auto simp: with_delta_def delta_at_def UpdateFeeDelta_def split: option.split)

lemma deltas_ok_added:
  assumes "deltas_ok mp" "keys mp' = keys mp \<union> set (ids_of H es)" "\<forall>k\<in>keys mp. static (ent mp' k) = static (ent mp k)"
    "mp_mapDeltas mp' = mp_mapDeltas mp" "list_all fresh_entry es"
    "\<forall>e\<in>set es. static (ent mp' (tx_GetHash H (me_tx e))) = static (with_delta mp (tx_GetHash H (me_tx e)) e)"
  shows "deltas_ok mp'"
proof -
  have d: "delta_at mp' k = delta_at mp k" for k by (simp add: delta_at_def assms(4))
  have "me_feeDelta (ent mp' k) = delta_at mp k" if k: "k \<in> keys mp'" for k
  proof (cases "k \<in> keys mp")
    case True
    then show ?thesis using assms(1,3) staticD(8) unfolding deltas_ok_def by metis
  next
    case False
    then obtain e where e: "e \<in> set es" "k = tx_GetHash H (me_tx e)" using k assms(2) by (auto simp: ids_of_def)
    then have "me_feeDelta (ent mp' k) = me_feeDelta (with_delta mp k e)" using assms(6) staticD(8) by metis
    then show ?thesis using with_delta_feeDelta [of e mp k] e(1) assms(5) by (simp add: list_all_iff fresh_entry_def)
  qed
  then show ?thesis by (simp add: deltas_ok_def d)
qed

lemma deltas_ok_same: "deltas_ok mp \<Longrightarrow> same_entries mp mp' \<Longrightarrow> mp_mapDeltas mp' = mp_mapDeltas mp \<Longrightarrow> deltas_ok mp'"
  using same_entries_keys [of mp mp'] staticD(8) unfolding deltas_ok_def delta_at_def same_entries_def by metis

subsection \<open>Bringing a block back\<close>

definition resurrect :: "(byte list \<Rightarrow> uint256) \<Rightarrow> CTxMemPoolEntry list \<Rightarrow> CTxMemPool \<Rightarrow> CTxMemPool option" where
  "resurrect H es mp = Option.bind (readd H es mp) (UpdateTransactionsFromBlock (ids_of H es))"

lemma parents_first_ids:
  assumes "\<And>e. e \<in> set es \<Longrightarrow> parent_ids (ent mp (tx_GetHash H (me_tx e))) = parent_ids e" "set (ids_of H es) \<subseteq> U"
    "parents_before H U E es" "distinct (ids_of H es)" "E \<inter> set (ids_of H es) = {}"
  shows "sorted_wrt (\<lambda>a b. (b, a) \<notin> spends mp) (ids_of H es)"
  using assms
proof (induction es arbitrary: E)
  case Nil
  then show ?case by (simp add: ids_of_def)
next
  case (Cons e es)
  let ?h = "tx_GetHash H (me_tx e)"
  have tail: "sorted_wrt (\<lambda>a b. (b, a) \<notin> spends mp) (ids_of H es)"
    by (rule Cons.IH [of "insert ?h E"]) (use Cons.prems in \<open>auto simp: ids_of_def\<close>)
  have "(b, ?h) \<notin> spends mp" if b: "b \<in> set (ids_of H es)" for b
  proof
    assume "(b, ?h) \<in> spends mp"
    then have "b \<in> parent_ids e" using Cons.prems(1) [of e] by (simp add: spends_def)
    moreover have "b \<in> U" "b \<notin> E" using b Cons.prems(2,5) by (auto simp: ids_of_def)
    ultimately show False using Cons.prems(3) by auto
  qed
  then show ?case using tail by (simp add: ids_of_def)
qed

lemma resurrect_ok:
  assumes ok: "pool_ok H mp" and c: "comes_back H mp {} es"
  obtains mp' where "resurrect H es mp = Some mp'" "pool_ok H mp'" "keys mp' = keys mp \<union> set (ids_of H es)"
    "\<forall>k\<in>keys mp. static (ent mp' k) = static (ent mp k)" "mp_mapDeltas mp' = mp_mapDeltas mp"
    "\<forall>e\<in>set es. static (ent mp' (tx_GetHash H (me_tx e))) = static (with_delta mp (tx_GetHash H (me_tx e)) e)"
proof -
  let ?E = "set (ids_of H es)"
  have inv: "pool_inv H (spends mp - {} \<times> (- {})) mp" using ok by (simp add: pool_ok_def)
  obtain m where m: "readd H es mp = Some m" "pool_inv H (spends m - ?E \<times> (- ?E)) m" "block_rooted m ?E" "keys m = keys mp \<union> ?E"
    "\<forall>k\<in>keys mp. static (ent m k) = static (ent mp k)" "mp_mapDeltas m = mp_mapDeltas mp"
    "\<forall>e\<in>set es. static (ent m (tx_GetHash H (me_tx e))) = static (with_delta mp (tx_GetHash H (me_tx e)) e)"
    using readd_ok [OF inv _ _ c] by (auto simp: block_rooted_def)
  have "parent_ids (ent m (tx_GetHash H (me_tx e))) = parent_ids e" if "e \<in> set es" for e
    using staticD(6) [of "ent m (tx_GetHash H (me_tx e))"] m(7) that by fastforce
  then have "parents_first m (ids_of H es)"
    using parents_first_ids [of es m H "keys mp \<union> ?E" "{}"] c by (simp add: parents_first_def comes_back_def)
  from UpdateTransactionsFromBlock_ok [OF m(2) relinked_acyclic [OF pool_invD(4) [OF m(2)] m(3)] m(3) this]
  obtain mp' where m': "UpdateTransactionsFromBlock (ids_of H es) m = Some mp'" "pool_ok H mp'" "same_entries m mp'"
      "mp_mapDeltas mp' = mp_mapDeltas m"
    by blast
  have st: "static (ent mp' k) = static (ent m k)" if "k \<in> keys m" for k using m'(3) that by (simp add: same_entries_def)
  show thesis
  proof (rule that)
    show "resurrect H es mp = Some mp'" using m(1) m'(1) by (simp add: resurrect_def)
    show "keys mp' = keys mp \<union> ?E" using same_entries_keys [OF m'(3)] m(4) by simp
    show "\<forall>k\<in>keys mp. static (ent mp' k) = static (ent mp k)" using st m(4,5) by simp
    show "\<forall>e\<in>set es. static (ent mp' (tx_GetHash H (me_tx e))) = static (with_delta mp (tx_GetHash H (me_tx e)) e)"
      using st m(4,7) by (auto simp: ids_of_def)
  qed (use m' m(6) in simp_all)
qed

subsection \<open>Adding, and a small pool\<close>

text \<open>An entry may be added if none of its outpoints is spent, no transaction of the pool spends it, and the outputs that it
  spends of the pool exist.\<close>

definition acceptable :: "(byte list \<Rightarrow> uint256) \<Rightarrow> CTxMemPool \<Rightarrow> CTxMemPoolEntry \<Rightarrow> bool" where
  "acceptable H mp e \<longleftrightarrow> addable H mp e \<and> (\<forall>k\<in>keys mp. tx_GetHash H (me_tx e) \<notin> parent_ids (ent mp k))"

definition block_fits :: "(byte list \<Rightarrow> uint256) \<Rightarrow> CTxMemPool \<Rightarrow> CTransaction list \<Rightarrow> bool" where
  "block_fits H mp vtx \<longleftrightarrow> block_ordered H (keys mp) vtx \<and> inj_on (tx_GetHash H) (set vtx \<union> (\<lambda>k. me_tx (ent mp k)) ` keys mp)"

lemma pool_ok_init: "pool_ok H CTxMemPool_init"
  by (simp add: pool_ok_def pool_inv_def pool_entries_ok_def links_ok_def spends_def totals_ok_def next_ok_def usage_ok_def sum_size_def acyclic_def
      CTxMemPool_init_def pool_clear_def keys_def)

lemma deltas_ok_init: "deltas_ok CTxMemPool_init"
  by (simp add: deltas_ok_def CTxMemPool_init_def pool_clear_def keys_def)

lemma add_acceptable:
  assumes "pool_ok H mp" "acceptable H mp e"
  obtains mp' where "addUnchecked_search H (tx_GetHash H (me_tx e)) e mp = Some mp'" "pool_ok H mp'"
    "keys mp' = keys mp \<union> set (ids_of H [e])" "\<forall>k\<in>keys mp. static (ent mp' k) = static (ent mp k)" "mp_mapDeltas mp' = mp_mapDeltas mp"
    "static (ent mp' (tx_GetHash H (me_tx e))) = static (with_delta mp (tx_GetHash H (me_tx e)) e)"
proof -
  let ?h = "tx_GetHash H (me_tx e)"
  have inv: "pool_inv H (spends mp) mp" and add: "addable H mp e" using assms by (simp_all add: pool_ok_def acceptable_def)
  obtain mp' where m: "addUnchecked_search H ?h e mp = Some mp'" "pool_inv H (links_added mp (spends mp) ?h e) mp'" "keys mp' = insert ?h (keys mp)"
    "\<And>k. k \<in> keys mp \<Longrightarrow> static (ent mp' k) = static (ent mp k)" "static (ent mp' ?h) = static (with_delta mp ?h e)"
    "mp_mapDeltas mp' = mp_mapDeltas mp"
    by (rule addUnchecked_search_ok [OF inv add refl], rule that) assumption+
  have "spends mp' = links_added mp (spends mp) ?h e"
  proof (rule spends_added [OF m(3)])
    show "parent_ids (ent mp' k) = parent_ids (ent mp k)" if "k \<in> keys mp" for k by (rule staticD(6) [OF m(4) [OF that]])
    show "parent_ids (ent mp' ?h) = parent_ids e" using staticD(6) [OF m(5)] by simp
  qed (use assms(2) in \<open>simp_all add: acceptable_def addable_def\<close>)
  then show thesis using m by (intro that [of mp']) (simp_all add: pool_ok_def ids_of_def)
qed

text \<open>A small pool: a transaction that spends an output of another, which comes back from a block after it.\<close>

definition sample_H :: "byte list \<Rightarrow> uint256" where
  "sample_H bs = of_nat (length bs)"

definition sample_tx :: "COutPoint \<Rightarrow> script \<Rightarrow> CTransaction" where
  "sample_tx p sig = \<lparr> tx_nVersion = 1, tx_vin = [mk_CTxIn p sig 0], tx_vout = [mk_CTxOut 5 []], tx_nLockTime = 0 \<rparr>"

definition sample_entry :: "CTransaction \<Rightarrow> int \<Rightarrow> CTxMemPoolEntry" where
  "sample_entry tx sz = \<lparr> me_tx = tx, me_nFee = 2, me_nTxSize = sz, me_nUsageSize = 100, me_nTime = 9, me_entryHeight = 3,
     me_hadNoDependencies = True, me_inChainInputValue = 7, me_spendsCoinbase = False, me_sigOpCount = 0, me_feeDelta = 0,
     me_lockPoints = \<lparr> lp_height = 0, lp_time = 0, lp_maxInputBlock = None \<rparr>,
     me_nCountWithDescendants = 1, me_nSizeWithDescendants = sz, me_nModFeesWithDescendants = 2 \<rparr>"

definition sample_parent :: CTxMemPoolEntry where "sample_parent = sample_entry (sample_tx (COutPoint 7 0) []) 60"
definition sample_child :: CTxMemPoolEntry where "sample_child = sample_entry (sample_tx (COutPoint 60 0) [1]) 61"

definition sample_pool1 :: CTxMemPool where "sample_pool1 = the (addUnchecked_search sample_H 61 sample_child CTxMemPool_init)"
definition sample_pool :: CTxMemPool where "sample_pool = the (resurrect sample_H [sample_parent] sample_pool1)"

lemma sample_hashes:
  "tx_GetHash sample_H (me_tx sample_parent) = 60" "tx_GetHash sample_H (me_tx sample_child) = 61"
  by (simp_all add: tx_GetHash_def sample_H_def sample_parent_def sample_child_def sample_entry_def sample_tx_def ser_CTransaction_def
      ser_int32_def ser_vec_def ser_CTxIn_def ser_CTxOut_def mk_CTxIn_def mk_CTxOut_def ser_COutPoint_def ser_uint256_def
      ser_bytes_def ser_int64_def WriteCompactSize_def ser_writedata8_def ser_writedata32_def ser_writedata64_def)

lemma sample_sets:
  "parent_ids sample_parent = {7}" "outpoints sample_parent = {COutPoint 7 0}" "parent_ids sample_child = {60}"
  "outpoints sample_child = {COutPoint 60 0}"
  by (simp_all add: outpoints_def parent_ids_def sample_parent_def sample_child_def sample_entry_def sample_tx_def mk_CTxIn_def)

lemma sample_fresh: "fresh_entry sample_parent" "fresh_entry sample_child" "me_nTxSize sample_parent = 60" "me_nTxSize sample_child = 61"
  by (simp_all add: fresh_entry_def sample_parent_def sample_child_def sample_entry_def)

lemma empty_pool: "keys CTxMemPool_init = {}" "mp_mapNextTx CTxMemPool_init = []" "mp_totalTxSize CTxMemPool_init = 0"
    "mp_mapDeltas CTxMemPool_init = []"
  by (simp_all add: CTxMemPool_init_def pool_clear_def keys_def)

lemma sample_child_acceptable: "acceptable sample_H CTxMemPool_init sample_child"
  by (simp add: acceptable_def addable_def sample_hashes sample_sets sample_fresh empty_pool)

lemma sample_pool1:
  "addUnchecked_search sample_H 61 sample_child CTxMemPool_init = Some sample_pool1" "pool_ok sample_H sample_pool1"
  "keys sample_pool1 = {61}" "static (ent sample_pool1 61) = static sample_child" "mp_mapDeltas sample_pool1 = []"
proof -
  obtain m where m: "addUnchecked_search sample_H 61 sample_child CTxMemPool_init = Some m" "pool_ok sample_H m"
    "keys m = {61}" "mp_mapDeltas m = []" "static (ent m 61) = static sample_child"
    by (rule add_acceptable [OF pool_ok_init sample_child_acceptable])
      (simp add: sample_hashes empty_pool ids_of_def with_delta_def)
  then show "addUnchecked_search sample_H 61 sample_child CTxMemPool_init = Some sample_pool1" "pool_ok sample_H sample_pool1"
    "keys sample_pool1 = {61}" "static (ent sample_pool1 61) = static sample_child" "mp_mapDeltas sample_pool1 = []"
    by (simp_all add: sample_pool1_def)
qed

lemma sample_comes_back: "comes_back sample_H sample_pool1 {} [sample_parent]"
proof -
  note i = pool_okD [OF sample_pool1(2)]
  have "next_tx sample_pool1 (COutPoint 7 0) \<noteq> Some k" for k
  proof
    assume "next_tx sample_pool1 (COutPoint 7 0) = Some k"
    then have "k = 61" "COutPoint 7 0 \<in> outpoints (ent sample_pool1 k)" using i(5) sample_pool1(3) by (auto simp: next_ok_def)
    then show False using staticD(5) [OF sample_pool1(4)] by (simp add: sample_sets)
  qed
  then have "next_tx sample_pool1 (COutPoint 7 0) = None" by (cases "next_tx sample_pool1 (COutPoint 7 0)") auto
  moreover have "mp_totalTxSize sample_pool1 = 61"
    using i(1) staticD(2) [OF sample_pool1(4)] by (simp add: pool_entries_ok_def sum_size_def sample_pool1(3) sample_fresh)
  ultimately show ?thesis
    by (simp add: comes_back_def ids_of_def sample_hashes sample_sets sample_fresh sample_pool1(3))
qed

lemma sample_pool:
  "resurrect sample_H [sample_parent] sample_pool1 = Some sample_pool" "pool_ok sample_H sample_pool" "keys sample_pool = {60, 61}"
  "static (ent sample_pool 60) = static sample_parent" "static (ent sample_pool 61) = static sample_child" "mp_mapDeltas sample_pool = []"
proof -
  obtain m where m: "resurrect sample_H [sample_parent] sample_pool1 = Some m" "pool_ok sample_H m"
    "keys m = {60, 61}" "mp_mapDeltas m = []" "static (ent m 60) = static sample_parent" "static (ent m 61) = static sample_child"
    by (rule resurrect_ok [OF sample_pool1(2) sample_comes_back])
      (simp add: sample_hashes sample_pool1 ids_of_def with_delta_def insert_commute)
  then show "resurrect sample_H [sample_parent] sample_pool1 = Some sample_pool" "pool_ok sample_H sample_pool" "keys sample_pool = {60, 61}"
    "static (ent sample_pool 60) = static sample_parent" "static (ent sample_pool 61) = static sample_child" "mp_mapDeltas sample_pool = []"
    by (simp_all add: sample_pool_def)
qed

lemma sample_spends: "spends sample_pool = {(60, 61)}"
proof -
  have "parent_ids (ent sample_pool 60) = {7}" "parent_ids (ent sample_pool 61) = {60}"
    using staticD(6) [OF sample_pool(4)] staticD(6) [OF sample_pool(5)] by (simp_all add: sample_sets)
  then show ?thesis by (auto simp: spends_def sample_pool(3))
qed

subsection \<open>Admission\<close>

definition limits_hold :: "CTxMemPool \<Rightarrow> ancestor_limits \<Rightarrow> CTxMemPoolEntry \<Rightarrow> bool" where
  "limits_hold mp lims e \<longleftrightarrow>
     (let A = pool_ancestors mp e in
      (A \<noteq> {} \<longrightarrow> int (card A) + 1 \<le> limitAncestorCount lims \<and> me_nTxSize e + sum_size mp A \<le> limitAncestorSize lims)
      \<and> (\<forall>a\<in>A. int (card ((spends mp)\<^sup>* `` {a})) + 1 \<le> limitDescendantCount lims
           \<and> sum_size mp ((spends mp)\<^sup>* `` {a}) + me_nTxSize e \<le> limitDescendantSize lims))"

lemma limits_hold_iff:
  assumes "pool_ok H mp" "\<forall>a\<in>pool_ancestors mp e. \<not> IsDirty (ent mp a)"
  shows "within_limits mp lims (me_nTxSize e) (pool_ancestors mp e) \<longleftrightarrow> limits_hold mp lims e"
proof -
  have K: "pool_ancestors mp e \<subseteq> keys mp" unfolding pool_ancestors_def by (rule ancestors_of_keys [OF spends_keys]) blast
  have "me_nCountWithDescendants (ent mp a) = int (card ((spends mp)\<^sup>* `` {a}))"
      "me_nSizeWithDescendants (ent mp a) = sum_size mp ((spends mp)\<^sup>* `` {a})" if a: "a \<in> pool_ancestors mp e" for a
    using pool_okD(4) [OF assms(1)] assms(2) a K by (auto simp: totals_ok_def totals_of_def)
  then show ?thesis by (auto simp: within_limits_def limits_hold_def descendant_limits_def count_ok_def Let_def)
qed

text \<open>C14: If no ancestor is marked as dirty, which \<open>UpdateForDescendants\<close> does to entries with too many descendants to count, the
  ancestor search accepts a transaction exactly if its ancestors and their descendants stay within the limits; then it
  returns all ancestors in the pool, and adding the transaction with them keeps the pool in order, with the totals of every
  ancestor raised.\<close>

theorem pool_admission:
  assumes "pool_ok H mp" "acceptable H mp e" "\<forall>a\<in>pool_ancestors mp e. \<not> IsDirty (ent mp a)"
  shows "case CalculateMemPoolAncestors mp lims e None of
      Some (Inr A) \<Rightarrow> limits_hold mp lims e \<and> set A = pool_ancestors mp e
        \<and> (\<exists>mp'. addUnchecked H (tx_GetHash H (me_tx e)) e A mp = Some mp' \<and> pool_ok H mp'
             \<and> keys mp' = insert (tx_GetHash H (me_tx e)) (keys mp))
    | Some (Inl _) \<Rightarrow> \<not> limits_hold mp lims e
    | None \<Rightarrow> False"
proof -
  have add: "addable H mp e" and no: "\<And>k. k \<in> keys mp \<Longrightarrow> tx_GetHash H (me_tx e) \<notin> parent_ids (ent mp k)"
    using assms(2) by (simp_all add: acceptable_def)
  have "0 \<le> mp_totalTxSize mp"
    using sum_size_bounds [OF pool_okD(1) [OF assms(1)] order_refl] pool_okD(1) [OF assms(1)] by (simp add: pool_entries_ok_def)
  then have s: "0 \<le> me_nTxSize e" "me_nTxSize e < 2 ^ 63" using add by (simp_all add: addable_def fresh_entry_def)
  note r = CalculateMemPoolAncestors_pool [OF assms(1) s, of lims, unfolded limits_hold_iff [OF assms(1,3)]]
  have ok: "\<exists>mp'. addUnchecked H (tx_GetHash H (me_tx e)) e A mp = Some mp' \<and> pool_ok H mp'
             \<and> keys mp' = insert (tx_GetHash H (me_tx e)) (keys mp)" if "ent_ok A" "set A = pool_ancestors mp e" for A
    by (rule addUnchecked_pool_ok [OF assms(1) add refl no that]) blast+
  show ?thesis using r ok by (simp split: option.splits sum.splits)
qed

definition sample_grandchild :: CTxMemPoolEntry where "sample_grandchild = sample_entry (sample_tx (COutPoint 61 0) [1, 2]) 62"

definition default_limits :: ancestor_limits where
  "default_limits = \<lparr> limitAncestorCount = 25, limitAncestorSize = 101000, limitDescendantCount = 25, limitDescendantSize = 101000 \<rparr>"

lemma sample_grandchild:
  "tx_GetHash sample_H (me_tx sample_grandchild) = 62" "parent_ids sample_grandchild = {61}" "outpoints sample_grandchild = {COutPoint 61 0}"
  "fresh_entry sample_grandchild" "me_nTxSize sample_grandchild = 62"
  by (simp_all add: tx_GetHash_def sample_H_def sample_grandchild_def sample_entry_def sample_tx_def ser_CTransaction_def
      ser_int32_def ser_vec_def ser_CTxIn_def ser_CTxOut_def mk_CTxIn_def mk_CTxOut_def ser_COutPoint_def ser_uint256_def
      ser_bytes_def ser_int64_def WriteCompactSize_def ser_writedata8_def ser_writedata32_def ser_writedata64_def
      parent_ids_def outpoints_def fresh_entry_def)

lemma sample_child_count: "me_nCountWithDescendants (ent sample_pool1 61) = 1"
  unfolding sample_pool1_def addUnchecked_search_def CalculateMemPoolAncestors_def addUnchecked_def sample_hashes
  by (simp add: CTxMemPool_init_def pool_clear_def exists_tx_def sample_child_def sample_entry_def sample_tx_def mk_CTxIn_def map_insert_def
      Let_def entries_insert_def insort_insert_key_def UpdateAncestorsOf_def link_parent_def GetMemPoolParents_def TxLinks_init_def ent_def)

lemma sample_next:
  assumes "pool_ok sample_H mp" "\<And>k. k \<in> keys mp \<Longrightarrow> p \<notin> outpoints (ent mp k)"
  shows "next_tx mp p = None"
proof -
  have "next_tx mp p \<noteq> Some k" for k using pool_okD(5) [OF assms(1)] assms(2) unfolding next_ok_def by blast
  then show ?thesis by (cases "next_tx mp p") auto
qed

theorem pool_admission_witness:
  "case CalculateMemPoolAncestors sample_pool1 default_limits sample_grandchild None of
      Some (Inr A) \<Rightarrow> limits_hold sample_pool1 default_limits sample_grandchild \<and> set A = pool_ancestors sample_pool1 sample_grandchild
        \<and> (\<exists>mp'. addUnchecked sample_H 62 sample_grandchild A sample_pool1 = Some mp' \<and> pool_ok sample_H mp' \<and> keys mp' = {61, 62})
    | Some (Inl _) \<Rightarrow> \<not> limits_hold sample_pool1 default_limits sample_grandchild
    | None \<Rightarrow> False"
proof -
  note p = sample_pool1(2)
  have "mp_totalTxSize sample_pool1 = 61"
    using pool_okD(1) [OF p] staticD(2) [OF sample_pool1(4)] by (simp add: pool_entries_ok_def sum_size_def sample_pool1(3) sample_fresh)
  moreover have "next_tx sample_pool1 (COutPoint 61 0) = None"
    by (rule sample_next [OF p]) (use staticD(5) [OF sample_pool1(4)] in \<open>simp add: sample_pool1(3) sample_sets\<close>)
  ultimately have "acceptable sample_H sample_pool1 sample_grandchild"
    using staticD(6) [OF sample_pool1(4)] by (simp add: acceptable_def addable_def sample_grandchild sample_pool1(3) sample_sets)
  moreover have "pool_ancestors sample_pool1 sample_grandchild \<subseteq> {61}"
    unfolding pool_ancestors_def sample_pool1(3) [symmetric] by (rule ancestors_of_keys [OF spends_keys]) blast
  then have "\<forall>a\<in>pool_ancestors sample_pool1 sample_grandchild. \<not> IsDirty (ent sample_pool1 a)"
    using sample_child_count by (auto simp: IsDirty_def)
  ultimately show ?thesis
    using pool_admission [OF p, of sample_grandchild default_limits]
    by (simp only: sample_grandchild(1) sample_pool1(3) insert_commute)
qed

subsection \<open>A block is connected\<close>

text \<open>C19: After the transactions of a block were removed, no entry is one of them or spends an outpoint that one of them spends;
  the entries that remain are unchanged but for their totals, which are those of the descendants that remain.\<close>

theorem removeForBlock_clears:
  assumes "pool_ok H mp" "block_fits H mp vtx"
  shows "\<exists>mp' conflicts'. removeForBlock H vtx mp conflicts = Some (mp', conflicts') \<and> pool_ok H mp' \<and> shrunk mp mp'
    \<and> keys mp' \<inter> tx_GetHash H ` set vtx = {} \<and> (\<forall>tx\<in>set vtx. \<forall>i\<in>set (tx_vin tx). next_tx mp' (txin_prevout i) = None)"
  using removeForBlock_ok [OF assms(1)] assms(2) unfolding block_fits_def by blast

theorem removeForBlock_clears_witness:
  "\<exists>mp' conflicts'. removeForBlock sample_H [me_tx sample_parent] sample_pool [] = Some (mp', conflicts') \<and> pool_ok sample_H mp'
     \<and> 60 \<notin> keys mp'"
proof -
  have txs: "me_tx (ent sample_pool 60) = me_tx sample_parent" "me_tx (ent sample_pool 61) = me_tx sample_child"
    using staticD(1) [OF sample_pool(4)] staticD(1) [OF sample_pool(5)] .
  have "block_fits sample_H sample_pool [me_tx sample_parent]"
    unfolding block_fits_def sample_pool(3)
  proof
    show "block_ordered sample_H {60, 61} [me_tx sample_parent]"
      by (simp add: sample_parent_def sample_entry_def sample_tx_def mk_CTxIn_def)
    have "inj_on (tx_GetHash sample_H) {me_tx sample_parent, me_tx sample_child}" by (auto simp: inj_on_def sample_hashes)
    moreover have "set [me_tx sample_parent] \<union> (\<lambda>k. me_tx (ent sample_pool k)) ` {60, 61} = {me_tx sample_parent, me_tx sample_child}"
      by (auto simp: txs)
    ultimately show "inj_on (tx_GetHash sample_H) (set [me_tx sample_parent] \<union> (\<lambda>k. me_tx (ent sample_pool k)) ` {60, 61})" by simp
  qed
  from removeForBlock_clears [OF sample_pool(2) this, of "[]"] show ?thesis by (auto simp: sample_hashes)
qed

subsection \<open>A block is disconnected\<close>

text \<open>C5: When the transactions of a disconnected block have come back, every entry that is not marked as dirty has the count,
  the size and the fees of exactly its descendants in the pool, the older spenders included, and all links are there.\<close>

theorem resurrect_restores:
  assumes "pool_ok H mp" "comes_back H mp {} es"
  shows "\<exists>mp'. resurrect H es mp = Some mp' \<and> pool_ok H mp' \<and> keys mp' = keys mp \<union> set (ids_of H es)
    \<and> (\<forall>h\<in>keys mp'. GetMemPoolChildren mp' h \<noteq> None \<and> set (the (GetMemPoolChildren mp' h)) = {c\<in>keys mp'. h \<in> parent_ids (ent mp' c)})
    \<and> (\<forall>h\<in>keys mp'. \<not> IsDirty (ent mp' h) \<longrightarrow>
         me_nCountWithDescendants (ent mp' h) = int (card ((spends mp')\<^sup>* `` {h}))
         \<and> me_nSizeWithDescendants (ent mp' h) = (\<Sum>d\<in>(spends mp')\<^sup>* `` {h}. me_nTxSize (ent mp' d))
         \<and> me_nModFeesWithDescendants (ent mp' h) = (\<Sum>d\<in>(spends mp')\<^sup>* `` {h}. GetModifiedFee (ent mp' d)))"
proof -
  obtain mp' where m: "resurrect H es mp = Some mp'" "pool_ok H mp'" "keys mp' = keys mp \<union> set (ids_of H es)"
    by (rule resurrect_ok [OF assms])
  note i = pool_okD [OF m(2)]
  have "GetMemPoolChildren mp' h \<noteq> None \<and> set (the (GetMemPoolChildren mp' h)) = {c\<in>keys mp'. h \<in> parent_ids (ent mp' c)}"
    if h: "h \<in> keys mp'" for h
    by (rule GetMemPoolChildren_ok [OF i(2) h]) (use h in \<open>auto simp: spends_def\<close>)
  moreover have "totals_of mp' ((spends mp')\<^sup>* `` {h}) (ent mp' h)" if "h \<in> keys mp'" for h
    using i(4) that by (simp add: totals_ok_def)
  ultimately show ?thesis using m unfolding totals_of_def sum_size_def sum_fee_def by (intro exI [of _ mp']) auto
qed

theorem resurrect_restores_witness: "\<exists>mp'. resurrect sample_H [sample_parent] sample_pool1 = Some mp' \<and> pool_ok sample_H mp' \<and> keys mp' = {60, 61}"
  using resurrect_restores [OF sample_pool1(2) sample_comes_back] by (auto simp: sample_pool1(3) ids_of_def sample_hashes)

subsection \<open>Limits\<close>

text \<open>C20: Whatever entry comes first in the order of the scores, trimming ends after at most as many rounds as there are entries, with
  a pool in order that is within the limit or empty, and without the descendants of a removed entry; no transaction that is reported as
  having no spends left is in the pool or is spent there.\<close>

theorem TrimToSize_ends:
  assumes "pool_ok H mp" "picks_entry worst"
  shows "\<exists>mp' ns. TrimToSize (length (mp_mapTx mp)) worst es sizelimit mp [] = Some (mp', ns) \<and> trimmed H mp mp'
    \<and> (mp_mapTx mp' = [] \<or> ZumyMemoryUsage es mp' \<le> sizelimit)
    \<and> (\<forall>h\<in>set ns. h \<notin> keys mp' \<and> (\<forall>c\<in>keys mp'. h \<notin> parent_ids (ent mp' c)))"
proof -
  obtain mp' ns where "TrimToSize (length (mp_mapTx mp)) worst es sizelimit mp [] = Some (mp', ns)" "trimmed H mp mp'"
    "mp_mapTx mp' = [] \<or> ZumyMemoryUsage es mp' \<le> sizelimit"
    "\<forall>h\<in>set ns - set []. h \<notin> keys mp' \<and> (\<forall>c\<in>keys mp'. h \<notin> parent_ids (ent mp' c))"
    using TrimToSize_ok [OF assms order_refl, of es sizelimit "[]"] by (elim exE conjE)
  then show ?thesis by (simp del: TrimToSize.simps)
qed

theorem TrimToSize_ends_witness:
  "\<exists>mp' ns. TrimToSize (length (mp_mapTx sample_pool)) (\<lambda>m. fst (hd (mp_mapTx m))) 200 0 sample_pool [] = Some (mp', ns)
     \<and> trimmed sample_H sample_pool mp'"
proof -
  have "picks_entry (\<lambda>m. fst (hd (mp_mapTx m)))" by (simp add: picks_entry_def keys_def)
  from TrimToSize_ends [OF sample_pool(2) this, of 200 0] show ?thesis by blast
qed

subsection \<open>Priorities by hand\<close>

text \<open>C30: Changing the priority of a transaction keeps the pool in order: its fee changes by the difference, and the totals of the
  fees of its ancestors with it; the difference is remembered for a transaction that is not in the pool.\<close>

theorem PrioritiseTransaction_moves_fees:
  assumes "pool_ok H mp" "deltas_ok mp"
  shows "\<exists>mp'. PrioritiseTransaction h nFeeDelta mp = Some mp' \<and> pool_ok H mp' \<and> deltas_ok mp' \<and> keys mp' = keys mp
    \<and> (\<forall>k. delta_at mp' k = delta_at mp k + (if k = h then nFeeDelta else 0))
    \<and> (\<forall>k\<in>keys mp. me_tx (ent mp' k) = me_tx (ent mp k)
         \<and> GetModifiedFee (ent mp' k) = GetModifiedFee (ent mp k) + (if k = h then nFeeDelta else 0))"
  by (rule PrioritiseTransaction_ok [OF assms, of h nFeeDelta]) blast

theorem PrioritiseTransaction_moves_fees_witness:
  "\<exists>mp'. PrioritiseTransaction 61 5 sample_pool = Some mp' \<and> pool_ok sample_H mp' \<and> GetModifiedFee (ent mp' 61) = 7"
proof -
  have "me_feeDelta (ent sample_pool 60) = 0" "me_feeDelta (ent sample_pool 61) = 0" "GetModifiedFee (ent sample_pool 61) = 2"
    using staticD(8) [OF sample_pool(4)] staticD(4,8) [OF sample_pool(5)]
    by (simp_all add: sample_parent_def sample_child_def sample_entry_def GetModifiedFee_def)
  moreover from this have "deltas_ok sample_pool" by (simp add: deltas_ok_def delta_at_def sample_pool(3,6))
  ultimately show ?thesis
    using PrioritiseTransaction_moves_fees [OF sample_pool(2), of 61 5] by (auto simp: sample_pool(3))
qed

end
