(* ===== verification/Mempool_Accept_Props.thy ===== *)
theory Mempool_Accept_Props
  imports Mempool_Accept Mempool_Reach Block_Connect_Props
begin

text \<open>
  What \<open>AcceptToMemoryPool\<close> promises: the view through the pool is a view of coins, the stages only read, and the pool stays in
  order with a transaction whose inputs are all there.
\<close>

subsection \<open>The view through the pool\<close>

definition pool_coins :: "CTxMemPool \<Rightarrow> (uint256 \<Rightarrow> CCoins option) \<Rightarrow> uint256 \<Rightarrow> CCoins option" where
  "pool_coins mp a t = (case lookup_tx mp t of Some tx \<Rightarrow> live (Some (FromTx tx MEMPOOL_HEIGHT)) | None \<Rightarrow> a t)"

definition pool_storable :: "CTxMemPool \<Rightarrow> bool" where
  "pool_storable mp \<longleftrightarrow> (\<forall>h\<in>keys mp. no_null_outs (me_tx (ent mp h)))"

text \<open>The view shows the coins \<open>a\<close> of the active chain with those of the pool over them.\<close>

definition pool_view_ok :: "('v \<Rightarrow> uint256 \<Rightarrow> CCoins option) \<Rightarrow> ('v \<Rightarrow> bool) \<Rightarrow> CTxMemPool \<Rightarrow> (uint256 \<Rightarrow> CCoins option) \<Rightarrow> 'v CCoinsViewCache \<Rightarrow> bool" where
  "pool_view_ok av iv mp a tip \<longleftrightarrow> cinv av iv tip \<and> cabs av tip = a \<and> pool_storable mp"

lemma lookup_ent: "lookup_tx mp h = (if h \<in> keys mp then Some (me_tx (ent mp h)) else None)"
  using keys_entry [of h mp] by (auto simp: lookup_tx_def entry_ent)

context coins_reader begin

lemma mempool_view_GetCoins_spec:
  assumes "pool_view_ok abs inv mp a tip" "mempool_view_GetCoins mp B tip t = (tip', r)"
  shows "live r = pool_coins mp a t \<and> pool_view_ok abs inv mp a tip' \<and> (\<forall>c. r = Some c \<longrightarrow> clean c)"
proof (cases "lookup_tx mp t")
  case (Some tx)
  then have "no_null_outs tx" using assms(1) by (auto simp: pool_view_ok_def pool_storable_def lookup_ent split: if_splits)
  then show ?thesis using assms Some clean_FromTx by (auto simp: mempool_view_GetCoins_def pool_coins_def)
next
  case None
  have i: "cinv abs inv tip" using assms(1) by (simp add: pool_view_ok_def)
  obtain e where f: "FetchCoins B tip t = (tip', e)" "r = (case map_option ce_coins e of None \<Rightarrow> None | Some c \<Rightarrow> if IsPruned c then None else Some c)"
    using assms(2) None by (auto simp: mempool_view_GetCoins_def cache_GetCoins_def split: prod.splits option.splits)
  have "live r = live (map_option ce_coins e)" by (simp add: f(2) split: option.split)
  then show ?thesis using FetchCoins_spec [OF i f(1)] None assms(1)
    by (auto simp: f(2) pool_coins_def pool_view_ok_def split: option.splits if_splits)
qed

lemma pool_view: "coins_reader (mempool_view_ops mp B) (\<lambda>_. pool_coins mp a) (pool_view_ok abs inv mp a)"
proof
  fix v t v' r c h
  note g = mempool_view_GetCoins_spec [where mp = mp and a = a]
  show "pool_view_ok abs inv mp a v \<Longrightarrow> shows_clean (pool_coins mp a)"
    using cabs_clean [of v] clean_FromTx
    by (auto simp: pool_view_ok_def shows_clean_def pool_coins_def pool_storable_def lookup_ent split: option.splits if_splits)
  show "pool_view_ok abs inv mp a v \<Longrightarrow> vo_GetCoins (mempool_view_ops mp B) v t = (v', r) \<Longrightarrow>
      live r = pool_coins mp a t \<and> pool_coins mp a = pool_coins mp a"
    using g by (simp add: mempool_view_ops_def)
  show "pool_view_ok abs inv mp a v \<Longrightarrow> vo_GetCoins (mempool_view_ops mp B) v t = (v', r) \<Longrightarrow> pool_view_ok abs inv mp a v'"
    using g by (simp add: mempool_view_ops_def)
  show "pool_view_ok abs inv mp a v \<Longrightarrow> vo_GetCoins (mempool_view_ops mp B) v t = (v', Some c) \<Longrightarrow> clean c"
    using g by (simp add: mempool_view_ops_def)
  show "pool_view_ok abs inv mp a v \<Longrightarrow> vo_GetBestBlock (mempool_view_ops mp B) v = (v', h) \<Longrightarrow>
      pool_view_ok abs inv mp a v' \<and> pool_coins mp a = pool_coins mp a"
    using GetBestBlock_spec [of v v' h] by (simp add: mempool_view_ops_def pool_view_ok_def)
qed

end

text \<open>Over the database the best block stays the same as well.\<close>

definition tip_view_ok :: "CTxMemPool \<Rightarrow> (uint256 \<Rightarrow> CCoins option) \<Rightarrow> uint256 \<Rightarrow> CCoinsViewDB CCoinsViewCache \<Rightarrow> bool" where
  "tip_view_ok mp a b tip \<longleftrightarrow> pool_view_ok db_coins db_inv mp a tip \<and> snd (cache_GetBestBlock db_ops tip) = b"

lemma best_kept:
  "FetchCoins db_ops tip t = (tip', e) \<Longrightarrow> snd (cache_GetBestBlock db_ops tip') = snd (cache_GetBestBlock db_ops tip)"
  "cache_GetBestBlock db_ops tip = (tip', h) \<Longrightarrow> snd (cache_GetBestBlock db_ops tip') = snd (cache_GetBestBlock db_ops tip)"
  by (auto simp: FetchCoins_def cache_GetBestBlock_def db_ops_def db_GetCoins_def db_GetBestBlock_def Let_def split: option.splits if_splits)

lemma mempool_view_best: "mempool_view_GetCoins mp db_ops tip t = (tip', r) \<Longrightarrow> snd (cache_GetBestBlock db_ops tip') = snd (cache_GetBestBlock db_ops tip)"
  using best_kept(1) [of tip t tip']
  by (auto simp: mempool_view_GetCoins_def cache_GetCoins_def split: option.splits prod.splits)

interpretation pool_view: coins_reader "mempool_view_ops mp db_ops" "\<lambda>_. pool_coins mp a" "tip_view_ok mp a b" for mp a b
proof
  note P = db.pool_view [of mp a]
  fix v t v' r c h
  show "tip_view_ok mp a b v \<Longrightarrow> shows_clean (pool_coins mp a)"
    using coins_reader.abs_clean [OF P] by (auto simp: tip_view_ok_def)
  show "tip_view_ok mp a b v \<Longrightarrow> vo_GetCoins (mempool_view_ops mp db_ops) v t = (v', r) \<Longrightarrow>
      live r = pool_coins mp a t \<and> pool_coins mp a = pool_coins mp a"
    using coins_reader.get_abs [OF P] by (auto simp: tip_view_ok_def)
  show "tip_view_ok mp a b v \<Longrightarrow> vo_GetCoins (mempool_view_ops mp db_ops) v t = (v', r) \<Longrightarrow> tip_view_ok mp a b v'"
    using coins_reader.get_inv [OF P, of v t v' r] mempool_view_best [of mp v t v' r] by (simp add: tip_view_ok_def mempool_view_ops_def)
  show "tip_view_ok mp a b v \<Longrightarrow> vo_GetCoins (mempool_view_ops mp db_ops) v t = (v', Some c) \<Longrightarrow> clean c"
    using coins_reader.get_clean [OF P] by (auto simp: tip_view_ok_def)
  show "tip_view_ok mp a b v \<Longrightarrow> vo_GetBestBlock (mempool_view_ops mp db_ops) v = (v', h) \<Longrightarrow>
      tip_view_ok mp a b v' \<and> pool_coins mp a = pool_coins mp a"
    using coins_reader.best_abs [OF P, of v v' h] best_kept(2) [of v v' h] by (simp add: tip_view_ok_def mempool_view_ops_def)
qed

subsection \<open>Coins that were read before\<close>

text \<open>Once the coins of all inputs are in the cache the view behind it does not matter, and reading changes nothing.\<close>

definition cached :: "'v CCoinsViewCache \<Rightarrow> CTxIn list \<Rightarrow> bool" where
  "cached view is \<longleftrightarrow> (\<forall>i\<in>set is. map_of (cv_cacheCoins view) (prev_hash (txin_prevout i)) \<noteq> None)"

definition cached_coins :: "'v CCoinsViewCache \<Rightarrow> CTxIn \<Rightarrow> CCoins" where
  "cached_coins view i = ce_coins (the (map_of (cv_cacheCoins view) (prev_hash (txin_prevout i))))"

lemma cached_simps [simp]:
  "cached view []" "cached view (i # is) \<longleftrightarrow> map_of (cv_cacheCoins view) (prev_hash (txin_prevout i)) \<noteq> None \<and> cached view is"
  by (auto simp: cached_def)

lemma AccessCoins_cached:
  "map_of (cv_cacheCoins view) (prev_hash (txin_prevout i)) \<noteq> None \<Longrightarrow>
   AccessCoins B view (prev_hash (txin_prevout i)) = (view, Some (cached_coins view i))"
  by (auto simp: AccessCoins_def FetchCoins_def cached_coins_def)

lemma AccessCoins_caches:
  assumes "AccessCoins B view t = (view', r)"
  shows "map_of (cv_cacheCoins view) x = Some e \<longrightarrow> map_of (cv_cacheCoins view') x = Some e"
    "r \<noteq> None \<longrightarrow> map_of (cv_cacheCoins view') t \<noteq> None"
  using assms by (auto simp: AccessCoins_def FetchCoins_def Let_def split: option.splits prod.splits)

lemma cached_AccessCoins: "AccessCoins B view t = (view', r) \<Longrightarrow> cached view is \<Longrightarrow> cached view' is"
  using AccessCoins_caches(1) unfolding cached_def by fastforce

lemma have_inputs_loop_caches:
  "have_inputs_loop B view is = (view', True) \<Longrightarrow> cached view' is \<and> (\<forall>js. cached view js \<longrightarrow> cached view' js)"
proof (induction "is" arbitrary: view)
  case (Cons i "is")
  obtain view1 r where g: "AccessCoins B view (prev_hash (txin_prevout i)) = (view1, r)" by fastforce
  then have r: "r \<noteq> None" "have_inputs_loop B view1 is = (view', True)" using Cons.prems by (auto split: option.splits if_splits)
  have "cached view1 [i]" using AccessCoins_caches(2) [OF g] r(1) by simp
  then show ?case using Cons.IH [OF r(2)] cached_AccessCoins [OF g] by fastforce
qed auto

lemma GetOutputFor_cached:
  "map_of (cv_cacheCoins view) (prev_hash (txin_prevout i)) \<noteq> None \<Longrightarrow> fst (GetOutputFor B view i) = view"
  by (simp add: GetOutputFor_def AccessCoins_cached Let_def)

lemma reads_cached:
  assumes "cached view is"
  shows "fst (value_in_loop B view is n) = view" "fst (p2sh_sigop_loop B view is m) = view" "fst (inputs_standard_loop env B view is) = view"
    "fst (in_chain_loop B h view is n) = view" "fst (spends_coinbase_loop B view is) = view" "fst (have_inputs_loop B view is) = view"
    "fst (input_values_loop B h st view is n) = view" "fst (check_scripts_loop env B tx fl q st view is k ks) = view"
proof -
  have o': "\<exists>r. GetOutputFor B view i = (view, r)" if "map_of (cv_cacheCoins view) (prev_hash (txin_prevout i)) = Some y" for i y
    using GetOutputFor_cached [of view i B] that by (metis option.simps(3) prod.collapse)
  show "fst (value_in_loop B view is n) = view" using assms
    by (induction "is" arbitrary: n) (auto dest!: o' simp: Let_def split: option.splits)
  show "fst (p2sh_sigop_loop B view is m) = view" using assms
    by (induction "is" arbitrary: m) (auto dest!: o' simp: Let_def split: option.splits)
  show "fst (inputs_standard_loop env B view is) = view" using assms
    by (induction "is") (auto dest!: o' split: option.splits prod.splits bool.splits sum.splits)
  show "fst (in_chain_loop B h view is n) = view" using assms
    by (induction "is" arbitrary: n) (auto simp: AccessCoins_cached Let_def split: option.splits)
  show "fst (spends_coinbase_loop B view is) = view" using assms
    by (induction "is") (auto simp: AccessCoins_cached)
  show "fst (have_inputs_loop B view is) = view" using assms
    by (induction "is") (auto simp: AccessCoins_cached)
  show "fst (input_values_loop B h st view is n) = view" using assms
    by (induction "is" arbitrary: n) (auto simp: AccessCoins_cached Let_def split: option.splits)
  show "fst (check_scripts_loop env B tx fl q st view is k ks) = view" using assms
    by (induction "is" arbitrary: k ks) (auto simp: AccessCoins_cached Let_def split: option.splits sum.splits)
qed

text \<open>Two caches with the same entries answer alike.\<close>

lemma same_answers:
  assumes "cv_cacheCoins v1 = cv_cacheCoins v2" "cached v1 is"
  shows "snd (have_inputs_loop B1 v1 is) = snd (have_inputs_loop B2 v2 is)"
    "snd (input_values_loop B1 h st v1 is n) = snd (input_values_loop B2 h st v2 is n)"
proof -
  have c: "cached_coins v1 i = cached_coins v2 i" for i by (simp add: cached_coins_def assms(1))
  have v: "cached v2 is" using assms by (simp add: cached_def)
  show "snd (have_inputs_loop B1 v1 is) = snd (have_inputs_loop B2 v2 is)" using assms(2) v
    by (induction "is") (auto simp: AccessCoins_cached c)
  show "snd (input_values_loop B1 h st v1 is n) = snd (input_values_loop B2 h st v2 is n)" using assms(2) v
    by (induction "is" arbitrary: n) (auto simp: AccessCoins_cached c Let_def split: option.splits)
qed

text \<open>When the loop over the scripts succeeds, every one of them was run.\<close>

lemma check_scripts_loop_runs:
  assumes "check_scripts_loop env B tx fl False st view is k ks = (view', Some ((True, st'), ks'))" "cached view is"
  shows "st' = st \<and> (\<forall>j<length is. CScriptCheck_run env (CScriptCheck_of (cached_coins view (is ! j)) tx (k + j) fl) = Some (Inr ()))"
  using assms
proof (induction "is" arbitrary: k ks)
  case (Cons i "is")
  have ok: "CScriptCheck_run env (CScriptCheck_of (cached_coins view i) tx k fl) = Some (Inr ())"
    "check_scripts_loop env B tx fl False st view is (Suc k) ks = (view', Some ((True, st'), ks'))"
    using Cons.prems by (auto simp: AccessCoins_cached Let_def split: option.splits sum.splits if_splits)
  have "CScriptCheck_run env (CScriptCheck_of (cached_coins view ((i # is) ! j)) tx (k + j) fl) = Some (Inr ())" if "j < length (i # is)" for j
    using Cons.IH [OF ok(2)] Cons.prems(2) ok(1) that by (cases j) auto
  then show ?case using Cons.IH [OF ok(2)] Cons.prems(2) by auto
qed auto


subsection \<open>The stage that reads the coins\<close>

abbreviation "view_ok mp a b view \<equiv> cinv (\<lambda>_. pool_coins mp a) (tip_view_ok mp a b) view \<and> cabs (\<lambda>_. pool_coins mp a) view = pool_coins mp a"

lemma view_okD:
  "view_ok mp a b view \<Longrightarrow> cinv db_coins db_inv (cv_base view) \<and> cabs db_coins (cv_base view) = a \<and> snd (cache_GetBestBlock db_ops (cv_base view)) = b"
  by (simp add: cinv_def pool_view_ok_def tip_view_ok_def)

lemma HaveCoins_view:
  assumes "view_ok mp a b view" "HaveCoins (mempool_view_ops mp db_ops) view t = (view', r)"
  shows "view_ok mp a b view' \<and> r = (pool_coins mp a t \<noteq> None)"
proof -
  obtain e where f: "FetchCoins (mempool_view_ops mp db_ops) view t = (view', e)" "r = (case e of None \<Rightarrow> False | Some x \<Rightarrow> cc_vout (ce_coins x) \<noteq> [])"
    using assms(2) by (auto simp: HaveCoins_def Let_def split: prod.splits)
  note s = pool_view.FetchCoins_spec [OF conjunct1 [OF assms(1)] f(1)]
  have pc: "pool_coins mp a t = live (map_option ce_coins e)" "\<And>x. e = Some x \<Longrightarrow> clean (ce_coins x)" using s assms(1) by auto
  have "r = (pool_coins mp a t \<noteq> None)" unfolding pc(1) f(2) using pc(2) by (cases e) (simp_all add: clean_IsPruned)
  then show ?thesis using s assms(1) by simp
qed

lemma inputs_exist_loop_view:
  "view_ok mp a b view \<Longrightarrow> inputs_exist_loop mp db_ops view is unc = (view', unc', r) \<Longrightarrow>
   view_ok mp a b view' \<and> (r \<longleftrightarrow> (\<forall>i\<in>set is. pool_coins mp a (prev_hash (txin_prevout i)) \<noteq> None))"
proof (induction "is" arbitrary: view unc)
  case (Cons i "is")
  obtain view1 ok where h: "HaveCoins (mempool_view_ops mp db_ops) view (prev_hash (txin_prevout i)) = (view1, ok)" by fastforce
  note s = HaveCoins_view [OF Cons.prems(1) h]
  show ?case using Cons.prems(2) h s Cons.IH [of view1] by (cases ok) (auto simp: Let_def)
qed auto

text \<open>What the stage hands on: the coins of all inputs, in a cache of their own.\<close>

definition coins_read :: "CTxMemPool \<Rightarrow> (uint256 \<Rightarrow> CCoins option) \<Rightarrow> uint256 \<Rightarrow> CTransaction \<Rightarrow> unit CCoinsViewCache \<Rightarrow> bool" where
  "coins_read mp a b tx D \<longleftrightarrow> cached D (tx_vin tx) \<and> (\<forall>i\<in>set (tx_vin tx). in_available (pool_coins mp a) i
     \<and> pool_coins mp a (prev_hash (txin_prevout i)) = Some (cached_coins D i))
     \<and> (\<exists>view. view_ok mp a b view \<and> D = SetBackend () view \<and> cv_hashBlock view = b)"

lemma value_in_loop_view:
  "view_ok mp a b view \<Longrightarrow> cached view is \<Longrightarrow> value_in_loop (mempool_view_ops mp db_ops) view is n = (view', Some m) \<Longrightarrow>
   m = n + (\<Sum>i\<leftarrow>is. in_value (pool_coins mp a) i)"
proof (induction "is" arbitrary: n)
  case (Cons i "is")
  have A: "AccessCoins (mempool_view_ops mp db_ops) view (prev_hash (txin_prevout i)) = (view, Some (cached_coins view i))"
    by (rule AccessCoins_cached) (use Cons.prems(2) in simp)
  then have l: "live (Some (cached_coins view i)) = pool_coins mp a (prev_hash (txin_prevout i))"
    using pool_view.AccessCoins_shown [OF conjunct1 [OF Cons.prems(1)]] Cons.prems(1) by fastforce
  have av: "IsAvailable (cached_coins view i) (unat (prev_n (txin_prevout i)))"
    and v: "value_in_loop (mempool_view_ops mp db_ops) view is
        (n + txout_nValue (cc_vout (cached_coins view i) ! unat (prev_n (txin_prevout i)))) = (view', Some m)"
    using Cons.prems(3) by (auto simp: GetOutputFor_def A Let_def i64_def split: option.splits if_splits)
  have "\<not> IsPruned (cached_coins view i)" using av by (auto simp: IsAvailable_def IsPruned_def list_all_length)
  then have "pool_coins mp a (prev_hash (txin_prevout i)) = Some (cached_coins view i)" using l by simp
  then show ?case using Cons.IH [OF Cons.prems(1) _ v] Cons.prems(2) by (simp add: in_value_def)
qed auto

lemma AccessCoins_hash: "AccessCoins B view t = (view', r) \<Longrightarrow> cv_hashBlock view' = cv_hashBlock view"
  by (cases view) (auto simp: AccessCoins_def FetchCoins_def Let_def split: option.splits prod.splits)

lemma HaveCoins_hash: "HaveCoins B view t = (view', r) \<Longrightarrow> cv_hashBlock view' = cv_hashBlock view"
  by (cases view) (auto simp: HaveCoins_def FetchCoins_def Let_def split: option.splits prod.splits)

lemma inputs_exist_loop_hash: "inputs_exist_loop mp B view is unc = (view', unc', r) \<Longrightarrow> cv_hashBlock view' = cv_hashBlock view"
  by (induction "is" arbitrary: view unc) (auto simp: Let_def dest!: HaveCoins_hash split: prod.splits bool.splits)

lemma have_inputs_loop_hash: "have_inputs_loop B view is = (view', r) \<Longrightarrow> cv_hashBlock view' = cv_hashBlock view"
  by (induction "is" arbitrary: view) (auto dest!: AccessCoins_hash split: prod.splits option.splits if_splits)

lemma accept_coins_spec:
  assumes tip: "cinv db_coins db_inv tip" "cabs db_coins tip = a" "snd (cache_GetBestBlock db_ops tip) = b" "pool_storable mp" and cb: "\<not> IsCoinBase tx"
    and r: "accept_coins env db_ops mp tip tx st = (tip', toUncache, r)"
  shows "cinv db_coins db_inv tip' \<and> cabs db_coins tip' = a \<and> snd (cache_GetBestBlock db_ops tip') = b
    \<and> (\<forall>D n lp. r = Inr (D, n, lp) \<longrightarrow> coins_read mp a b tx D \<and> pool_coins mp a (tx_GetHash (cy_Hash (ac_crypto env)) tx) = None
         \<and> n = (\<Sum>i\<leftarrow>tx_vin tx. in_value (pool_coins mp a) i))"
proof -
  let ?M = "mempool_view_ops mp db_ops" and ?h = "tx_GetHash (cy_Hash (ac_crypto env)) tx"
  have v0: "view_ok mp a b (new_cache tip)"
    using tip by (simp add: new_cache_def cinv_def tip_view_ok_def pool_view_ok_def entries_ok_def cabs_def fun_eq_iff)
  obtain view1 known where 1: "HaveCoins ?M (new_cache tip) ?h = (view1, known)" by fastforce
  note v1 = HaveCoins_view [OF v0 1]
  obtain view2 unc found where 2: "inputs_exist_loop mp db_ops view1 (tx_vin tx) [] = (view2, unc, found)" by (metis prod_cases3)
  have v2: "view_ok mp a b view2" using inputs_exist_loop_view [OF _ 2, of a] v1 by blast
  obtain view3 available where 3: "HaveInputs ?M view2 tx = (view3, available)" by fastforce
  then have h3: "have_inputs_loop ?M view2 (tx_vin tx) = (view3, available)" using cb by (simp add: HaveInputs_def)
  note l3 = pool_view.have_inputs_loop_shown [OF conjunct1 [OF v2] h3]
  have v3: "view_ok mp a b view3" using l3 v2 by (simp add: same_shown_def)
  obtain view4 bb where 4: "cache_GetBestBlock ?M view3 = (view4, bb)" by fastforce
  have v4: "view_ok mp a b view4" using pool_view.GetBestBlock_shown [OF conjunct1 [OF v3] 4] v3 by (simp add: same_shown_def)
  obtain view5 n where 5: "GetValueIn ?M view4 tx = (view5, n)" by fastforce
  then have h5: "value_in_loop ?M view4 (tx_vin tx) 0 = (view5, n)" using cb by (simp add: GetValueIn_def)
  have v5: "view_ok mp a b view5" using pool_view.value_in_loop_shown [OF conjunct1 [OF v4] h5] v4 by (simp add: same_shown_def)
  have "cv_cacheCoins view4 = cv_cacheCoins view3" using 4 by (cases view3) (auto simp: cache_GetBestBlock_def Let_def split: if_splits prod.splits)
  then have c4: "available \<Longrightarrow> cached view4 (tx_vin tx)" using have_inputs_loop_caches [of ?M view2 "tx_vin tx" view3] h3 by (simp add: cached_def)
  have "cv_hashBlock view3 = 0"
    using HaveCoins_hash [OF 1] inputs_exist_loop_hash [OF 2] have_inputs_loop_hash [OF h3] by (simp add: new_cache_def)
  moreover have "vo_GetBestBlock ?M = cache_GetBestBlock db_ops" by (simp add: mempool_view_ops_def)
  ultimately have b4: "cv_hashBlock view4 = b" using 4 [unfolded cache_GetBestBlock_def [of ?M]] view_okD [OF v3]
    by (cases view3) (auto simp: Let_def split: prod.splits)
  have read: "coins_read mp a b tx (SetBackend () view5)" if av: available
  proof -
    have e: "view5 = view4" using reads_cached(1) [OF c4 [OF av], of ?M 0] h5 by simp
    have c: "cached view5 (tx_vin tx)" using c4 [OF av] e by simp
    have inav: "\<forall>i\<in>set (tx_vin tx). in_available (pool_coins mp a) i" using l3 v2 av by (simp add: in_available_def)
    have "pool_coins mp a (prev_hash (txin_prevout i)) = Some (cached_coins (SetBackend () view5) i)" if i: "i \<in> set (tx_vin tx)" for i
    proof -
      have m: "map_of (cv_cacheCoins view5) (prev_hash (txin_prevout i)) \<noteq> None" using c i by (auto simp: cached_def)
      have "AccessCoins ?M view5 (prev_hash (txin_prevout i)) = (view5, Some (cached_coins view5 i))" by (rule AccessCoins_cached [OF m])
      then have "live (Some (cached_coins view5 i)) = pool_coins mp a (prev_hash (txin_prevout i))"
        using pool_view.AccessCoins_shown [OF conjunct1 [OF v5]] v5 by fastforce
      moreover have "pool_coins mp a (prev_hash (txin_prevout i)) \<noteq> None" using inav i by (auto simp: in_available_def)
      ultimately show ?thesis by (auto simp: cached_coins_def SetBackend_def split: if_splits)
    qed
    then show ?thesis using c inav v5 b4 e by (auto simp: coins_read_def cached_def SetBackend_def)
  qed
  note tips = view_okD [OF v1 [THEN conjunct1]] view_okD [OF v2] view_okD [OF v3] view_okD [OF v5]
  have val: "m = (\<Sum>i\<leftarrow>tx_vin tx. in_value (pool_coins mp a) i)" if "available" "n = Some m" for m
    using value_in_loop_view [OF v4 c4, of 0 view5 m] h5 that by simp
  note r' = r [unfolded accept_coins_def Let_def 1 prod.case 2 3 4 5]
  consider "known" | "\<not> known" "\<not> found" | "\<not> known" "found" "\<not> available" | "\<not> known" "found" "available" by blast
  then show ?thesis
  proof cases
    case 4
    have t: "tip' = cv_base view5" using r' 4 by simp
    have "D = SetBackend () view5 \<and> n = Some n'" if "r = Inr (D, n', lp)" for D n' lp
      using r' 4 that by (cases n) (auto simp: bindE_Inr_iff no_tx_def need_def split: prod.splits if_splits)
    then show ?thesis using tips read [OF 4(3)] v1 4(1) t val [OF 4(3)] by auto
  qed (use r' tips in \<open>auto simp: no_tx_def\<close>)
qed

end
