(* ===== verification/Mempool_Accept_Correct.thy ===== *)
theory Mempool_Accept_Correct
  imports Mempool_Accept_Props
begin

text \<open>
  The stages of \<open>AcceptToMemoryPool\<close> put together: the pool stays in order, and what an accepted transaction satisfies.
\<close>

subsection \<open>Results of the stages\<close>

lemma stop_simps [simp]:
  "need x = Inr y \<longleftrightarrow> x = Some y" "no_tx st l c r \<noteq> Inr y" "lift_view p = Inr (v, z) \<longleftrightarrow> p = (v, Some z)"
  "checked k = Inr st' \<longleftrightarrow> k = (True, st')" "map_sum id f s = Inr w \<longleftrightarrow> (\<exists>u. s = Inr u \<and> w = f u)"
  by (auto simp: need_def no_tx_def lift_view_def checked_def split: option.splits prod.splits) (cases s; auto)?

text \<open>The entries of the pool that spend an input of the transaction, and those that go with them.\<close>

definition conflicts_of :: "CTxMemPool \<Rightarrow> CTransaction \<Rightarrow> txiter set" where
  "conflicts_of mp tx = {c \<in> keys mp. \<exists>i\<in>set (tx_vin tx). txin_prevout i \<in> outpoints (ent mp c)}"

definition evicted :: "CTxMemPool \<Rightarrow> CTransaction \<Rightarrow> txiter set" where
  "evicted mp tx = (spends mp)\<^sup>* `` conflicts_of mp tx"

lemma find_conflicts_Inr:
  "find_conflicts env mp hash st is C = Inr C' \<Longrightarrow> ent_ok C \<Longrightarrow>
   ent_ok C' \<and> set C' = set C \<union> {c. \<exists>i\<in>set is. next_tx mp (txin_prevout i) = Some c}
   \<and> (\<forall>c\<in>set C' - set C. ac_fEnableReplacement env \<and> (\<exists>t. lookup_tx mp c = Some t \<and> SignalsOptInRBF t))"
proof (induction "is" arbitrary: C)
  case (Cons i "is")
  show ?case
  proof (cases "next_tx mp (txin_prevout i)")
    case None
    then show ?thesis using Cons.IH [of C] Cons.prems by auto
  next
    case (Some c)
    show ?thesis
    proof (cases "c \<in> set C")
      case True
      then show ?thesis using Cons.IH [of C] Cons.prems Some by auto
    next
      case False
      then obtain t where t: "lookup_tx mp c = Some t" "SignalsOptInRBF t" "ac_fEnableReplacement env"
        "find_conflicts env mp hash st is (entries_insert c C) = Inr C'"
        using Cons.prems(1) Some by (auto simp: bindE_Inr_iff Let_def split: if_splits)
      then show ?thesis using Cons.IH [OF t(4)] Cons.prems(2) Some by auto
    qed
  qed
qed auto

lemma accept_precheck_Inr:
  assumes "next_ok mp" "accept_precheck env mp tx st0 = Inr (st, C)"
  shows "st = st0" "well_formed_tx tx" "\<not> IsCoinBase tx" "tx_GetHash (cy_Hash (ac_crypto env)) tx \<notin> keys mp" "ent_ok C"
    "set C = conflicts_of mp tx" "\<forall>c\<in>conflicts_of mp tx. ac_fEnableReplacement env \<and> SignalsOptInRBF (me_tx (ent mp c))"
proof -
  let ?h = "tx_GetHash (cy_Hash (ac_crypto env)) tx"
  have c: "CheckTransaction tx st0 = (True, st)" "\<not> IsCoinBase tx" "?h \<notin> keys mp" "find_conflicts env mp ?h st (tx_vin tx) [] = Inr C"
    using assms(2) by (auto simp: accept_precheck_def bindE_Inr_iff Let_def exists_keys split: if_splits option.splits)
  show "st = st0" "well_formed_tx tx" using c(1) CheckTransaction_cases [of tx st0] by (auto simp: reject_def)
  show "\<not> IsCoinBase tx" "?h \<notin> keys mp" by (rule c(2,3))+
  note f = find_conflicts_Inr [OF c(4) ent_ok_Nil]
  show "ent_ok C" using f by blast
  show s: "set C = conflicts_of mp tx" using f assms(1) unfolding conflicts_of_def next_ok_def by auto
  show "\<forall>c\<in>conflicts_of mp tx. ac_fEnableReplacement env \<and> SignalsOptInRBF (me_tx (ent mp c))"
    using f s by (fastforce simp: lookup_ent split: if_splits)
qed

lemma CTxMemPoolEntry_of_Some:
  assumes "CTxMemPoolEntry_of tx nFee t h b v c k lp u = Some e"
  shows "me_tx e = tx \<and> fresh_entry e \<and> me_nFee e = nFee \<and> me_nTxSize e = int (length (ser_CTransaction tx))"
proof -
  have "0 < length (ser_CTransaction tx)" by (simp add: ser_CTransaction_def ser_int32_def ser_writedata32_def)
  then show ?thesis using assms by (auto simp: CTxMemPoolEntry_of_def fresh_entry_def Let_def split: sum.splits if_splits)
qed

lemma accept_entry_Inr:
  assumes "accept_entry env mp tx st (D, n, lp) = Inr (view, e, nFees, nMod)" "cached D (tx_vin tx)" "\<not> IsCoinBase tx"
  shows "view = D" "me_tx e = tx" "fresh_entry e" "me_nFee e = nFees" "me_nTxSize e = int (length (ser_CTransaction tx))"
    "\<exists>vo. GetValueOut tx = Inr vo \<and> nFees = n - vo" "nMod = nFees + delta_at mp (tx_GetHash (cy_Hash (ac_crypto env)) tx)"
proof -
  obtain vo where vo: "GetValueOut tx = Inr vo"
    using assms(1) by (cases "GetValueOut tx") (auto simp: accept_entry_def bindE_Inr_iff Let_def split: if_splits)
  obtain view1 view2 view3 k v u b s where r:
    "AreInputsStandard (ac_crypto env) dummy_ops tx D = (view1, Some True) \<or> view1 = D"
    "GetP2SHSigOpCount dummy_ops view1 tx = (view2, Some k)"
    "GetPriority_value dummy_ops view2 tx (chain_Height (ac_chainActive env)) = (view3, Some v)"
    "spends_coinbase_loop dummy_ops view3 (tx_vin tx) = (view, Some b)"
    "CTxMemPoolEntry_of tx (n - vo) (ac_GetTime env) (nat (chain_Height (ac_chainActive env))) (HasNoInputsOf mp (tx_vin tx)) v b s lp u = Some e"
    "nFees = n - vo" "nMod = ApplyDeltas mp (tx_GetHash (cy_Hash (ac_crypto env)) tx) (n - vo)"
    using assms(1) by (cases "ac_fRequireStandard env") (auto 0 0 simp: accept_entry_def bindE_Inr_iff Let_def vo split: if_splits; blast)+
  have 1: "view1 = D" using r(1) reads_cached(3) [OF assms(2), of "ac_crypto env" dummy_ops] assms(3)
    by (auto simp: AreInputsStandard_def)
  have 2: "view2 = D" using r(2) reads_cached(2) [OF assms(2), of dummy_ops 0] assms(3) by (auto simp: GetP2SHSigOpCount_def 1)
  have 3: "view3 = D" using r(3) reads_cached(4) [OF assms(2), of dummy_ops "chain_Height (ac_chainActive env)" 0] assms(3)
    by (auto simp: GetPriority_value_def 2)
  show "view = D" using r(4) reads_cached(5) [OF assms(2), of dummy_ops] by (auto simp: 3)
  show "me_tx e = tx" "fresh_entry e" "me_nFee e = nFees" "me_nTxSize e = int (length (ser_CTransaction tx))"
    using CTxMemPoolEntry_of_Some [OF r(5)] r(6) by simp_all
  show "\<exists>vo. GetValueOut tx = Inr vo \<and> nFees = n - vo" using vo r(6) by blast
  show "nMod = nFees + delta_at mp (tx_GetHash (cy_Hash (ac_crypto env)) tx)"
    using r(6,7) by (simp add: ApplyDeltas_def delta_at_def split: option.split)
qed

lemma accept_ancestors_Inr:
  assumes "pool_ok H mp" "fresh_entry e" "me_nTxSize e < 2 ^ 63" "accept_ancestors env mp st e C = Inr A"
  shows "ent_ok A" "set A = pool_ancestors mp e" "set A \<inter> set C = {}"
proof -
  have "0 \<le> me_nTxSize e" using assms(2) by (simp add: fresh_entry_def)
  note r = CalculateMemPoolAncestors_pool [OF assms(1) this assms(3), of "ac_limits env"]
  obtain x where x: "CalculateMemPoolAncestors mp (ac_limits env) e None = Some x"
    "(case x of Inl _ \<Rightarrow> no_tx st 0 REJECT_NONSTANDARD ''too-long-mempool-chain'' | Inr S \<Rightarrow>
        if list_ex (\<lambda>a. a \<in> set C) S then no_tx st 10 REJECT_INVALID ''bad-txns-spends-conflicting-tx'' else Inr S) = Inr A"
    using assms(4) unfolding accept_ancestors_def bindE_Inr_iff stop_simps(1) by blast
  have "CalculateMemPoolAncestors mp (ac_limits env) e None = Some (Inr A)" "\<not> list_ex (\<lambda>a. a \<in> set C) A"
    using x by (cases x; simp split: if_splits)+
  then show "ent_ok A" "set A = pool_ancestors mp e" "set A \<inter> set C = {}" using r by (auto simp: list_ex_iff)
qed

lemma conflicts_loop_Inr:
  "conflicts_loop mp st r hs I P n = Inr (I', P', n') \<Longrightarrow> ent_ok I \<Longrightarrow> set hs \<subseteq> keys mp \<Longrightarrow> ent_ok I' \<and> set I' = set I \<union> set hs"
proof (induction hs arbitrary: I P n)
  case (Cons h hs)
  have "entry mp h = Some (ent mp h)" using Cons.prems(3) by (intro entry_ent) simp
  then obtain P1 n1 where "conflicts_loop mp st r hs (entries_insert h I) P1 n1 = Inr (I', P', n')"
    using Cons.prems(1) by (auto simp: bindE_Inr_iff split: if_splits)
  then show ?case using Cons.IH Cons.prems(2,3) by fastforce
qed auto

lemma accept_replacement_Inr:
  assumes ok: "pool_ok H mp" and C: "ent_ok C" "set C \<subseteq> keys mp" and r: "accept_replacement env mp tx st e nMod C = Inr R"
  shows "ent_ok R" "set R = (spends mp)\<^sup>* `` set C"
    "C \<noteq> [] \<Longrightarrow> \<exists>f. GetFee (po_minRelayTxFee (ac_policy env)) (nat (me_nTxSize e)) = Some f \<and> sum_fee mp (set R) + f \<le> nMod
       \<and> sum_fee mp (set R) \<le> nMod"
proof -
  have *: "ent_ok R \<and> set R = (spends mp)\<^sup>* `` set C \<and> (C \<noteq> [] \<longrightarrow>
      (\<exists>f. GetFee (po_minRelayTxFee (ac_policy env)) (nat (me_nTxSize e)) = Some f \<and> sum_fee mp (set R) + f \<le> nMod \<and> sum_fee mp (set R) \<le> nMod))"
  proof (cases "C = []")
    case True
    then show ?thesis using r by (simp add: accept_replacement_def)
  next
    case False
    obtain rate I P n f where x: "conflicts_loop mp st rate C [] {} 0 = Inr (I, P, n)" "each (CalculateDescendants mp) I [] = Some R"
      "GetFee (po_minRelayTxFee (ac_policy env)) (nat (me_nTxSize e)) = Some f"
      "\<not> nMod < sum_list (map (\<lambda>h. GetModifiedFee (the (entry mp h))) R)"
      "\<not> nMod - sum_list (map (\<lambda>h. GetModifiedFee (the (entry mp h))) R) < f"
      using r False by (auto simp: accept_replacement_def bindE_Inr_iff Let_def split: if_splits)
    have I: "ent_ok I" "set I = set C" using conflicts_loop_Inr [OF x(1)] C(2) by auto
    have "set I \<subseteq> keys mp" using I(2) C(2) by simp
    from each_CalculateDescendants [OF ok ent_ok_Nil _ _ this]
    have R: "ent_ok R" "set R = (spends mp)\<^sup>* `` set C" using x(2) I(2) by auto
    have "sum_list (map (\<lambda>h. GetModifiedFee (the (entry mp h))) R) = sum_fee mp (set R)"
      using ent_ok_distinct [OF R(1)] by (simp add: sum_fee_def ent_def sum_list_distinct_conv_sum_set)
    then show ?thesis using R x(3-5) by auto
  qed
  show "ent_ok R" "set R = (spends mp)\<^sup>* `` set C" using * by blast+
  show "\<exists>f. GetFee (po_minRelayTxFee (ac_policy env)) (nat (me_nTxSize e)) = Some f \<and> sum_fee mp (set R) + f \<le> nMod \<and> sum_fee mp (set R) \<le> nMod" if "C \<noteq> []"
    using * that by blast
qed

subsection \<open>Evicting and adding\<close>

text \<open>The parent transaction of every input of an entry is in the pool or has coins \<open>a\<close> in the active chain.\<close>

definition pool_backed :: "(uint256 \<Rightarrow> CCoins option) \<Rightarrow> CTxMemPool \<Rightarrow> bool" where
  "pool_backed a mp \<longleftrightarrow> (\<forall>k\<in>keys mp. \<forall>h\<in>parent_ids (ent mp k). h \<in> keys mp \<or> a h \<noteq> None)"

lemma trimmed_backed:
  assumes "trimmed H mp mp'" "pool_backed a mp" "pool_storable mp"
  shows "pool_backed a mp'" "pool_storable mp'"
proof -
  have sh: "shrunk mp mp'" and cl: "spends mp `` (keys mp - keys mp') \<subseteq> keys mp - keys mp'" using assms(1) by (simp_all add: trimmed_def)
  have k: "k \<in> keys mp \<and> parent_ids (ent mp' k) = parent_ids (ent mp k) \<and> me_tx (ent mp' k) = me_tx (ent mp k)" if "k \<in> keys mp'" for k
    using sh that staticD(1) staticD(6) unfolding shrunk_def by blast
  show "pool_backed a mp'"
    unfolding pool_backed_def
  proof (intro ballI)
    fix k h assume a: "k \<in> keys mp'" "h \<in> parent_ids (ent mp' k)"
    then have h: "h \<in> keys mp \<or> a h \<noteq> None" using assms(2) k by (auto simp: pool_backed_def)
    show "h \<in> keys mp' \<or> a h \<noteq> None"
    proof (rule ccontr)
      assume n: "\<not> (h \<in> keys mp' \<or> a h \<noteq> None)"
      then have "(h, k) \<in> spends mp" "h \<in> keys mp - keys mp'" using h a k by (auto simp: spends_def)
      then show False using cl a(1) by blast
    qed
  qed
  show "pool_storable mp'" using assms(3) k by (auto simp: pool_storable_def)
qed

lemma Expire_trimmed:
  assumes "pool_ok H mp"
  obtains mp' n where "Expire time mp = Some (mp', n)" "trimmed H mp mp'"
proof -
  obtain mp' n where e: "Expire time mp = Some (mp', n)" "pool_ok H mp'" "shrunk mp mp'"
    "keys mp' = keys mp - (spends mp)\<^sup>* `` {h \<in> keys mp. me_nTime (ent mp h) < time}"
    by (rule Expire_ok [OF assms, of time], rule that) assumption+
  have "spends mp `` (keys mp - keys mp') \<subseteq> keys mp - keys mp'"
  proof
    fix y assume "y \<in> spends mp `` (keys mp - keys mp')"
    then obtain x where x: "(x, y) \<in> spends mp" "x \<in> (spends mp)\<^sup>* `` {h \<in> keys mp. me_nTime (ent mp h) < time}" unfolding e(4) by blast
    then have "y \<in> (spends mp)\<^sup>* `` {h \<in> keys mp. me_nTime (ent mp h) < time}" by (meson Image_iff rtrancl_into_rtrancl)
    then show "y \<in> keys mp - keys mp'" using x(1) spends_keys [of mp] unfolding e(4) by blast
  qed
  then show thesis using that e by (simp add: trimmed_def)
qed

lemma Uncache_best: "snd (cache_GetBestBlock B (Uncache view h)) = snd (cache_GetBestBlock B view)"
  by (simp add: Uncache_def cache_GetBestBlock_def Let_def split: option.split prod.split)

lemma fold_Uncache:
  "cinv db_coins db_inv tip \<Longrightarrow> cinv db_coins db_inv (fold (\<lambda>h t. Uncache t h) hs tip) \<and> cabs db_coins (fold (\<lambda>h t. Uncache t h) hs tip) = cabs db_coins tip
     \<and> snd (cache_GetBestBlock db_ops (fold (\<lambda>h t. Uncache t h) hs tip)) = snd (cache_GetBestBlock db_ops tip)"
proof (induction hs arbitrary: tip)
  case (Cons h hs)
  show ?case using Cons.IH [of "Uncache tip h"] db.Uncache_spec [OF Cons.prems, of h] Uncache_best [of db_ops tip h] by simp
qed simp

lemma LimitMempoolSize_ok:
  assumes "pool_ok H mp" "picks_entry worst" "cinv db_coins db_inv tip"
  obtains mp' tip' where "LimitMempoolSize worst es now limit age mp tip = Some (mp', tip')" "trimmed H mp mp'"
    "cinv db_coins db_inv tip'" "cabs db_coins tip' = cabs db_coins tip" "snd (cache_GetBestBlock db_ops tip') = snd (cache_GetBestBlock db_ops tip)"
proof -
  obtain mp1 n where 1: "Expire (now - age) mp = Some (mp1, n)" "trimmed H mp mp1" by (rule Expire_trimmed [OF assms(1)])
  obtain mp2 ns where 2: "TrimToSize (length (mp_mapTx mp1)) worst es limit mp1 [] = Some (mp2, ns)" "trimmed H mp1 mp2"
    using TrimToSize_ok [OF _ assms(2) order_refl, of H mp1 es limit "[]"] 1(2) unfolding trimmed_def [of H mp mp1] by blast
  show thesis
    by (rule that [of mp2 "fold (\<lambda>h t. Uncache t h) ns tip"])
      (use 1 2 trimmed_trans [OF 1(2) 2(2)] fold_Uncache [OF assms(3)] in \<open>simp_all add: LimitMempoolSize_def del: TrimToSize.simps\<close>)
qed

text \<open>The ancestors survive the eviction, since no conflict is one of them.\<close>

lemma ancestors_survive:
  assumes L: "L \<subseteq> K \<times> K" and R: "R = L\<^sup>* `` C" and dis: "ancestors_of L S \<inter> C = {}" and L': "L' = L \<inter> (- R) \<times> (- R)"
  shows "ancestors_of L S \<inter> R = {}" "ancestors_of L' S = ancestors_of L S"
proof -
  show d: "ancestors_of L S \<inter> R = {}"
  proof (rule ccontr)
    assume "ancestors_of L S \<inter> R \<noteq> {}"
    then obtain x c where x: "x \<in> ancestors_of L S" "c \<in> C" "(c, x) \<in> L\<^sup>*" using R by blast
    then have "c \<in> ancestors_of L S" unfolding ancestors_of_iff by (meson rtrancl_trans)
    then show False using dis x(2) by blast
  qed
  have "(a, s) \<in> L'\<^sup>*" if "(a, s) \<in> L\<^sup>*" "s \<in> S" for a s
    using that
  proof (induction rule: converse_rtrancl_induct)
    case (step y z)
    have "z \<in> ancestors_of L S" "y \<in> ancestors_of L S" using step.hyps step.prems unfolding ancestors_of_iff by (meson converse_rtrancl_into_rtrancl)+
    then have "(y, z) \<in> L'" using d step.hyps(1) L' by blast
    then show ?case using step.IH [OF step.prems] by (rule converse_rtrancl_into_rtrancl)
  qed simp
  moreover have "L'\<^sup>* \<subseteq> L\<^sup>*" unfolding L' by (rule rtrancl_mono) blast
  ultimately show "ancestors_of L' S = ancestors_of L S" unfolding set_eq_iff ancestors_of_iff by blast
qed

lemma evict_and_add:
  assumes ok: "pool_ok H mp" "pool_storable mp" "pool_backed a mp" and e: "fresh_entry e" "me_tx e = tx" "no_null_outs tx"
    and h: "h = tx_GetHash H tx" "h \<notin> keys mp" "a h = None"
    and inputs: "\<forall>t\<in>parent_ids e. t \<in> keys mp \<or> a t \<noteq> None"
    and R: "ent_ok R" "set R = evicted mp tx" and A: "ent_ok A" "set A = pool_ancestors mp e" "set A \<inter> conflicts_of mp tx = {}"
    and size: "mp_totalTxSize mp + me_nTxSize e < 2 ^ 63"
  obtains mp1 mp2 where "RemoveStaged R mp = Some mp1" "addUnchecked H h e A mp1 = Some mp2" "pool_ok H mp2" "pool_storable mp2" "pool_backed a mp2"
    "keys mp2 = insert h (keys mp - evicted mp tx)" "\<And>k. k \<in> keys mp - evicted mp tx \<Longrightarrow> static (ent mp2 k) = static (ent mp k)"
    "static (ent mp2 h) = static (with_delta mp h e)" "mp_mapDeltas mp2 = mp_mapDeltas mp"
    "\<forall>i\<in>set (tx_vin tx). prev_hash (txin_prevout i) \<notin> evicted mp tx"
proof -
  let ?R = "evicted mp tx"
  have Rk: "set R \<subseteq> keys mp" using pool_descendants_keys unfolding R(2) evicted_def conflicts_of_def by blast
  have Rcl: "spends mp `` set R \<subseteq> set R" unfolding R(2) evicted_def by (auto intro: rtrancl_into_rtrancl)
  obtain mp1 where m1: "RemoveStaged R mp = Some mp1" "pool_ok H mp1" "keys mp1 = keys mp - ?R" "shrunk mp mp1" "mp_mapDeltas mp1 = mp_mapDeltas mp"
    using RemoveStaged_pool_ok [OF ok(1) R(1) Rk separable_descendants [OF Rcl]] R(2) by metis
  have s1: "static (ent mp1 k) = static (ent mp k)" if "k \<in> keys mp1" for k using m1(4) that by (simp add: shrunk_def)
  have sp1: "spends mp1 = spends mp \<inter> (- ?R) \<times> (- ?R)"
    by (rule spends_removed [OF m1(3)]) (rule staticD(6) [OF s1])
  have hp: "h \<notin> parent_ids e" using inputs h(2,3) by blast
  have anc: "ancestors_of (spends mp) (parent_ids e \<inter> keys mp) \<inter> conflicts_of mp tx = {}" using A(2,3) by (simp add: pool_ancestors_def)
  note surv = ancestors_survive [OF spends_keys evicted_def anc sp1]
  have sub: "parent_ids e \<inter> keys mp \<inter> ?R = {}" using surv(1) ancestors_of_subset [of "parent_ids e \<inter> keys mp" "spends mp"] by blast
  then have "parent_ids e \<inter> keys mp1 = parent_ids e \<inter> keys mp" using m1(3) by blast
  then have A1: "set A = pool_ancestors mp1 e" using A(2) surv(2) by (simp add: pool_ancestors_def)
  have next1: "next_tx mp1 p = None" if p: "p \<in> outpoints e" for p
  proof (rule ccontr)
    assume "next_tx mp1 p \<noteq> None"
    then obtain k where "k \<in> keys mp1" "p \<in> outpoints (ent mp1 k)" using pool_okD(5) [OF m1(2)] by (auto simp: next_ok_def)
    then have k: "k \<in> keys mp1" "p \<in> outpoints (ent mp k)" using staticD(5) [OF s1] by simp_all
    obtain i where "i \<in> set (tx_vin tx)" "p = txin_prevout i" using p e(2) by (auto simp: outpoints_def)
    then have "k \<in> conflicts_of mp tx" using k m1(3) unfolding conflicts_of_def by blast
    then have "k \<in> ?R" unfolding evicted_def by blast
    then show False using k(1) m1(3) by blast
  qed
  have size1: "mp_totalTxSize mp1 + me_nTxSize e < 2 ^ 63"
  proof -
    have "mp_totalTxSize mp1 = sum_size mp1 (keys mp1)" using pool_okD(1) [OF m1(2)] by (simp add: pool_entries_ok_def)
    also have "\<dots> = sum_size mp (keys mp1)" unfolding sum_size_def using staticD(2) [OF s1] by simp
    also have "\<dots> \<le> sum_size mp (keys mp)" using sum_size_mono [OF pool_okD(1) [OF ok(1)], of "keys mp1" "keys mp"] m1(3) by blast
    finally show ?thesis using size pool_okD(1) [OF ok(1)] by (simp add: pool_entries_ok_def)
  qed
  have add: "addable H mp1 e" using e h hp m1(3) next1 size1 by (simp add: addable_def)
  have child: "h \<notin> parent_ids (ent mp1 k)" if "k \<in> keys mp1" for k
    using ok(3) that m1(3) h(2,3) staticD(6) [OF s1 [OF that]] unfolding pool_backed_def by blast
  have h1: "h = tx_GetHash H (me_tx e)" using h(1) e(2) by simp
  obtain mp2 where m2: "addUnchecked H h e A mp1 = Some mp2" "pool_ok H mp2" "keys mp2 = insert h (keys mp1)"
    "\<And>k. k \<in> keys mp1 \<Longrightarrow> static (ent mp2 k) = static (ent mp1 k)" "static (ent mp2 h) = static (with_delta mp1 h e)"
    "mp_mapDeltas mp2 = mp_mapDeltas mp1"
    by (rule addUnchecked_pool_ok [OF m1(2) add h1 child A(1) A1], assumption, rule that) assumption+
  have wd: "with_delta mp1 h e = with_delta mp h e" by (simp add: with_delta_def m1(5))
  have st: "static (ent mp2 k) = static (ent mp k)" if "k \<in> keys mp - ?R" for k using m2(4) s1 that m1(3) by simp
  have hk: "h \<notin> keys mp - ?R" using h(2) by blast
  have "pool_backed a mp2"
    unfolding pool_backed_def
  proof (intro ballI)
    fix k t assume k: "k \<in> keys mp2" and t: "t \<in> parent_ids (ent mp2 k)"
    show "t \<in> keys mp2 \<or> a t \<noteq> None"
    proof (cases "k = h")
      case True
      then have "t \<in> parent_ids e" using t staticD(6) [OF m2(5)] by simp
      then show ?thesis using inputs sub m2(3) m1(3) by blast
    next
      case False
      then have k': "k \<in> keys mp - ?R" using k m2(3) m1(3) by blast
      then have t': "t \<in> parent_ids (ent mp k)" using t staticD(6) [OF st [OF k']] by simp
      have "t \<notin> ?R" if "t \<in> keys mp"
      proof
        assume "t \<in> ?R"
        moreover have "(t, k) \<in> spends mp" using that t' k' by (auto simp: spends_def)
        ultimately have "k \<in> ?R" using Rcl R(2) by blast
        then show False using k' by blast
      qed
      then show ?thesis using ok(3) t' k' m2(3) m1(3) by (auto simp: pool_backed_def)
    qed
  qed
  moreover have "no_null_outs (me_tx (ent mp2 k))" if k: "k \<in> keys mp2" for k
  proof (cases "k = h")
    case True
    then show ?thesis using staticD(1) [OF m2(5)] e(2,3) by simp
  next
    case False
    then have k': "k \<in> keys mp - ?R" using k m2(3) m1(3) by blast
    then show ?thesis using staticD(1) [OF st [OF k']] ok(2) by (simp add: pool_storable_def)
  qed
  then have "pool_storable mp2" by (simp add: pool_storable_def)
  moreover have "\<forall>i\<in>set (tx_vin tx). prev_hash (txin_prevout i) \<notin> ?R"
    using sub Rk e(2) unfolding R(2) by (auto simp: parent_ids_def outpoints_def)
  moreover have "mp_mapDeltas mp2 = mp_mapDeltas mp" using m2(6) m1(5) by simp
  ultimately show thesis using that m1(1,3) m2(1-3,5) st wd by metis
qed

subsection \<open>Inputs and scripts\<close>

lemma CheckTxInputs_same:
  assumes "cv_cacheCoins v1 = cv_cacheCoins v2" "cached v1 (tx_vin tx)" "\<not> IsCoinBase tx"
  shows "fst (CheckTxInputs B1 v1 tx st h) = v1" "snd (CheckTxInputs B1 v1 tx st h) = snd (CheckTxInputs B2 v2 tx st h)"
proof -
  have c2: "cached v2 (tx_vin tx)" using assms(1,2) by (simp add: cached_def)
  obtain b where 1: "have_inputs_loop B1 v1 (tx_vin tx) = (v1, b)" using reads_cached(6) [OF assms(2), of B1] by (metis prod.collapse)
  have 2: "have_inputs_loop B2 v2 (tx_vin tx) = (v2, b)"
    by (rule prod_eqI) (use reads_cached(6) [OF c2, of B2] same_answers(1) [OF assms(1,2), of B1 B2] 1 in simp_all)
  obtain x where 3: "input_values_loop B1 h st v1 (tx_vin tx) 0 = (v1, x)" using reads_cached(7) [OF assms(2), of B1 h st 0] by (metis prod.collapse)
  have 4: "input_values_loop B2 h st v2 (tx_vin tx) 0 = (v2, x)"
    by (rule prod_eqI) (use reads_cached(7) [OF c2, of B2 h st 0] same_answers(2) [OF assms(1,2), of B1 h st 0 B2] 3 in simp_all)
  show "fst (CheckTxInputs B1 v1 tx st h) = v1"
    by (simp add: CheckTxInputs_def HaveInputs_def assms(3) 1 3 split: bool.split option.split sum.split)
  show "snd (CheckTxInputs B1 v1 tx st h) = snd (CheckTxInputs B2 v2 tx st h)"
    by (simp add: CheckTxInputs_def HaveInputs_def assms(3) 1 2 3 4 split: bool.split option.split sum.split)
qed

lemma CheckTxInputs_True: "snd (CheckTxInputs B view tx st h) = Some (True, st') \<Longrightarrow> st' = st"
  by (auto simp: CheckTxInputs_def reject_def Let_def split: prod.splits bool.splits option.splits sum.splits if_splits)

lemma GetSpendHeight_dummy:
  "GetSpendHeight m dummy_ops D = (D1, Some h) \<Longrightarrow> cv_cacheCoins D1 = cv_cacheCoins D \<and> (\<exists>p. m (cv_hashBlock D) = Some p \<and> h = height p + 1)"
  by (cases D) (auto simp: GetSpendHeight_def cache_GetBestBlock_def dummy_ops_def Let_def split: if_splits)

definition scripts_ok :: "accept_env \<Rightarrow> (uint256 \<Rightarrow> CCoins option) \<Rightarrow> CTransaction \<Rightarrow> bool" where
  "scripts_ok env coins tx \<longleftrightarrow> (\<forall>j<length (tx_vin tx). \<exists>c. coins (prev_hash (txin_prevout (tx_vin tx ! j))) = Some c
     \<and> CScriptCheck_run (ac_crypto env) (CScriptCheck_of c tx j STANDARD_SCRIPT_VERIFY_FLAGS) = Some (Inr ()))"

lemma accept_scripts_Inr:
  assumes r: "accept_scripts env tx st D = Inr st'" and D: "coins_read mp a b tx D" and cb: "\<not> IsCoinBase tx" and vo: "GetValueOut tx = Inr vo"
  shows "(\<exists>p. ac_mapBlockIndex env b = Some p \<and> inputs_pay (pool_coins mp a) (height p + 1) tx vo) \<and> scripts_ok env (pool_coins mp a) tx"
proof -
  obtain D1 h D2 st1 ks where 1: "GetSpendHeight (ac_mapBlockIndex env) dummy_ops D = (D1, Some h)"
    "CheckInputs (ac_crypto env) dummy_ops D1 tx st h True STANDARD_SCRIPT_VERIFY_FLAGS False = (D2, Some ((True, st1), ks))"
    using r by (auto simp: accept_scripts_def accept_script_pass_def bindE_Inr_iff)
  note g = GetSpendHeight_dummy [OF 1(1)]
  obtain V where V: "view_ok mp a b V" "D = SetBackend () V" "cv_hashBlock V = b" using D by (auto simp: coins_read_def)
  have c1: "cached D1 (tx_vin tx)" using D g by (simp add: coins_read_def cached_def)
  have cv: "cv_cacheCoins D1 = cv_cacheCoins V" using g V(2) by (simp add: SetBackend_def)
  let ?M = "mempool_view_ops mp db_ops"
  note same = CheckTxInputs_same [OF cv c1 cb, of dummy_ops st h]
  obtain st2 where 2: "CheckTxInputs dummy_ops D1 tx st h = (D1, Some (True, st2))"
    and 3: "check_scripts_loop (ac_crypto env) dummy_ops tx STANDARD_SCRIPT_VERIFY_FLAGS False st2 D1 (tx_vin tx) 0 [] = (D2, Some ((True, st1), ks))"
    using 1(2) cb same(1) by (auto simp: CheckInputs_def split: prod.splits option.splits bool.splits)
  have "st2 = st" by (rule CheckTxInputs_True [of dummy_ops D1 tx st h]) (simp add: 2)
  then have "snd (CheckTxInputs ?M V tx st h) = Some (True, st)" using same(2) [of ?M] 2 by simp
  then obtain w where w: "CheckTxInputs ?M V tx st h = (w, Some (True, st))" by (cases "CheckTxInputs ?M V tx st h") auto
  have "inputs_pay (pool_coins mp a) h tx vo"
    using pool_view.CheckTxInputs_spec [OF conjunct1 [OF V(1)] cb vo w] V(1) by simp
  moreover have "scripts_ok env (pool_coins mp a) tx"
    using check_scripts_loop_runs [OF 3 c1] D g by (auto simp: scripts_ok_def coins_read_def cached_coins_def)
  ultimately show ?thesis using g V(2,3) by (auto simp: SetBackend_def)
qed

end
