(* ===== verification/Mempool_Sound.thy ===== *)
theory Mempool_Sound
  imports Mempool_Accept_Correct
begin

text \<open>
  What every entry of the pool satisfies against the coins of the active chain: its inputs are unspent outputs of the chain or of
  other entries, mature and within the money range, and they pay for its outputs.  Removing entries with all their descendants,
  admitting a transaction and connecting a block keep this.
\<close>

subsection \<open>Single outputs\<close>

text \<open>An unspent output, with the height of its coinbase.\<close>

definition coin_at :: "CCoins \<Rightarrow> nat \<Rightarrow> (CTxOut \<times> int option) option" where
  "coin_at c n = (if IsAvailable c n then Some (cc_vout c ! n, if cc_fCoinBase c then Some (cc_nHeight c) else None) else None)"

definition out_at :: "coins_map \<Rightarrow> COutPoint \<Rightarrow> (CTxOut \<times> int option) option" where
  "out_at a p = (case a (prev_hash p) of None \<Rightarrow> None | Some c \<Rightarrow> coin_at c (unat (prev_n p)))"

lemma coin_at_pruned: "IsPruned c \<Longrightarrow> coin_at c n = None"
  by (auto simp: coin_at_def IsAvailable_def IsPruned_def list_all_length)

lemma out_at_upd: "out_at (a(t := live (Some c))) p = (if prev_hash p = t then coin_at c (unat (prev_n p)) else out_at a p)"
  by (simp add: out_at_def coin_at_pruned)

lemma coin_at_Cleanup: "coin_at (Cleanup c) n = coin_at c n"
proof -
  define d where "d = drop_null_back (cc_vout c)"
  obtain k where k: "cc_vout c = d @ k" "list_all CTxOut_IsNull k" using drop_null_back_append d_def by blast
  have cv: "cc_vout (Cleanup c) = d" "cc_fCoinBase (Cleanup c) = cc_fCoinBase c" "cc_nHeight (Cleanup c) = cc_nHeight c"
    by (simp_all add: Cleanup_def d_def)
  have "IsAvailable (Cleanup c) n = IsAvailable c n"
    using k by (auto simp: IsAvailable_def cv nth_append list_all_length)
  moreover have "d ! n = cc_vout c ! n" if "n < length d" using that k(1) by (simp add: nth_append)
  ultimately show ?thesis by (auto simp: coin_at_def cv) (auto simp: IsAvailable_def cv)
qed

lemma coin_at_Spend: "coin_at (fst (Spend c n)) m = (if m = n then None else coin_at c m)"
proof (cases "IsAvailable c n")
  case True
  then have "fst (Spend c n) = Cleanup (c \<lparr> cc_vout := (cc_vout c)[n := CTxOut_null] \<rparr>)" by (simp add: Spend_def IsAvailable_def)
  then show ?thesis using True by (auto simp: coin_at_Cleanup) (auto simp: coin_at_def IsAvailable_def)
next
  case False
  then have "fst (Spend c n) = c" by (auto simp: Spend_def IsAvailable_def)
  then show ?thesis using False by (simp add: coin_at_def)
qed

text \<open>The height does not matter for the outputs of a transaction that is not a coinbase.\<close>

lemma coin_at_FromTx: "\<not> IsCoinBase tx \<Longrightarrow> coin_at (FromTx tx h) n = coin_at (FromTx tx h') n"
  by (simp add: FromTx_def ClearUnspendable_def coin_at_Cleanup) (auto simp: coin_at_def IsAvailable_def)

lemma coin_at_exists: "coin_at (FromTx tx h) n \<noteq> None \<Longrightarrow> n < length (tx_vout tx) \<and> \<not> CTxOut_IsNull (tx_vout tx ! n)"
  by (simp add: FromTx_def ClearUnspendable_def coin_at_Cleanup) (auto simp: coin_at_def IsAvailable_def null_unspendable_def split: if_splits)

lemma out_at_available: "in_available a i \<longleftrightarrow> out_at a (txin_prevout i) \<noteq> None"
  by (auto simp: in_available_def out_at_def coin_at_def split: option.splits)

lemma out_at_Some:
  "out_at a (txin_prevout i) = Some (out, ht) \<Longrightarrow>
   in_value a i = txout_nValue out \<and> (in_mature a h i \<longleftrightarrow> (\<forall>x. ht = Some x \<longrightarrow> COINBASE_MATURITY \<le> h - x))"
  by (auto simp: out_at_def coin_at_def in_value_def in_mature_def split: option.splits if_splits)

lemma inputs_pay_cong:
  assumes "inputs_pay a h tx vo" "\<And>p. p \<in> txin_prevout ` set (tx_vin tx) \<Longrightarrow> out_at b p = out_at a p" "h \<le> h'"
  shows "inputs_pay b h' tx vo"
proof -
  have i: "in_available b i \<and> in_mature b h' i \<and> in_value b i = in_value a i" if "i \<in> set (tx_vin tx)" for i
  proof -
    have av: "in_available a i" "in_mature a h i" using assms(1) that by (simp_all add: inputs_pay_def)
    obtain out ht where o: "out_at a (txin_prevout i) = Some (out, ht)" using av(1) out_at_available by fastforce
    have o': "out_at b (txin_prevout i) = Some (out, ht)" using assms(2) that o by auto
    have "in_mature b h' i" using out_at_Some [OF o] out_at_Some [OF o'] av(2) assms(3) by fastforce
    then show ?thesis using out_at_Some [OF o, of h] out_at_Some [OF o', of h] o' out_at_available by simp
  qed
  have "(\<Sum>i\<leftarrow>tx_vin tx. in_value b i) = (\<Sum>i\<leftarrow>tx_vin tx. in_value a i)" using i by (simp cong: map_cong)
  then show ?thesis using assms(1) i by (simp add: inputs_pay_def)
qed

subsection \<open>Sound pools\<close>

definition tx_sound :: "coins_map \<Rightarrow> int \<Rightarrow> CTxMemPool \<Rightarrow> CTransaction \<Rightarrow> bool" where
  "tx_sound a h mp tx \<longleftrightarrow> \<not> IsCoinBase tx \<and> distinct (map txin_prevout (tx_vin tx))
     \<and> (\<exists>vo. GetValueOut tx = Inr vo \<and> inputs_pay (pool_coins mp a) h tx vo)"

text \<open>\<open>a\<close> are the coins of the chain, in which no transaction of the pool has outputs, and \<open>h\<close> is the height of the next block.\<close>

definition pool_sound :: "coins_map \<Rightarrow> int \<Rightarrow> CTxMemPool \<Rightarrow> bool" where
  "pool_sound a h mp \<longleftrightarrow> (\<forall>k\<in>keys mp. a k = None \<and> tx_sound a h mp (me_tx (ent mp k)))"

lemma out_at_pool:
  "out_at (pool_coins mp a) p = (if prev_hash p \<in> keys mp then coin_at (FromTx (me_tx (ent mp (prev_hash p))) MEMPOOL_HEIGHT) (unat (prev_n p))
     else out_at a p)"
  by (simp add: out_at_def pool_coins_def lookup_ent coin_at_pruned)

lemma pool_sound_tx: "pool_sound a h mp \<Longrightarrow> k \<in> keys mp \<Longrightarrow> tx_sound a h mp (me_tx (ent mp k))"
  by (simp add: pool_sound_def)

lemma tx_sound_inputs: "tx_sound a h mp tx \<Longrightarrow> p \<in> txin_prevout ` set (tx_vin tx) \<Longrightarrow> out_at (pool_coins mp a) p \<noteq> None"
  by (auto simp: tx_sound_def inputs_pay_def out_at_available)

lemma tx_sound_cong:
  assumes "tx_sound a h mp tx" "\<And>p. p \<in> txin_prevout ` set (tx_vin tx) \<Longrightarrow> out_at (pool_coins mp' a') p = out_at (pool_coins mp a) p" "h \<le> h'"
  shows "tx_sound a' h' mp' tx"
  using assms(1) inputs_pay_cong [OF _ assms(2,3)] by (auto simp: tx_sound_def)

lemma pool_sound_cong:
  assumes "pool_sound a h mp" "h \<le> h'"
    and k: "\<And>k. k \<in> keys mp' \<Longrightarrow> k \<in> keys mp \<and> me_tx (ent mp' k) = me_tx (ent mp k) \<and> a' k = None"
    and p: "\<And>k p. k \<in> keys mp' \<Longrightarrow> p \<in> outpoints (ent mp k) \<Longrightarrow> out_at (pool_coins mp' a') p = out_at (pool_coins mp a) p"
  shows "pool_sound a' h' mp'"
  unfolding pool_sound_def
proof (intro ballI conjI)
  fix x assume x: "x \<in> keys mp'"
  note kx = k [OF x]
  show "a' x = None" using kx by blast
  have "tx_sound a' h' mp' (me_tx (ent mp x))"
    by (rule tx_sound_cong [OF pool_sound_tx [OF assms(1)] _ assms(2)]) (use kx p [OF x] in \<open>auto simp: outpoints_def\<close>)
  then show "tx_sound a' h' mp' (me_tx (ent mp' x))" using kx by simp
qed

lemma pool_sound_backed:
  assumes "pool_sound a h mp" shows "pool_backed a mp"
proof -
  have "t \<in> keys mp \<or> a t \<noteq> None" if k: "k \<in> keys mp" and t: "t \<in> parent_ids (ent mp k)" for k t
  proof -
    obtain p where p: "p \<in> txin_prevout ` set (tx_vin (me_tx (ent mp k)))" "t = prev_hash p" using t by (auto simp: parent_ids_def outpoints_def)
    show ?thesis using tx_sound_inputs [OF pool_sound_tx [OF assms k] p(1), unfolded out_at_pool] p(2)
      by (cases "t \<in> keys mp") (auto simp: out_at_def split: option.splits)
  qed
  then show ?thesis by (auto simp: pool_backed_def)
qed

subsection \<open>Removing, admitting\<close>

lemma pool_sound_trimmed:
  assumes "pool_sound a h mp" "trimmed H mp mp'"
  shows "pool_sound a h mp'"
proof (rule pool_sound_cong [OF assms(1) order_refl])
  have sh: "shrunk mp mp'" and cl: "spends mp `` (keys mp - keys mp') \<subseteq> keys mp - keys mp'" using assms(2) by (simp_all add: trimmed_def)
  have t: "k \<in> keys mp \<and> me_tx (ent mp' k) = me_tx (ent mp k)" if "k \<in> keys mp'" for k using sh that staticD(1) unfolding shrunk_def by blast
  show "k \<in> keys mp \<and> me_tx (ent mp' k) = me_tx (ent mp k) \<and> a k = None" if "k \<in> keys mp'" for k
    using t [OF that] assms(1) by (simp add: pool_sound_def)
  show "out_at (pool_coins mp' a) p = out_at (pool_coins mp a) p" if k: "k \<in> keys mp'" and p: "p \<in> outpoints (ent mp k)" for k p
  proof (cases "prev_hash p \<in> keys mp")
    case True
    have "(prev_hash p, k) \<in> spends mp" using True p t [OF k] by (auto simp: spends_def parent_ids_def)
    then have "prev_hash p \<in> keys mp'" using True cl k by blast
    then show ?thesis using True t [of "prev_hash p"] by (simp add: out_at_pool)
  next
    case False
    then have "prev_hash p \<notin> keys mp'" using t by blast
    then show ?thesis using False by (simp add: out_at_pool)
  qed
qed

lemma pool_sound_admit:
  assumes s: "pool_sound a h mp" "tx_sound a h mp tx" and t: "t \<notin> keys mp" "a t = None"
    and k2: "keys mp2 = insert t (keys mp - E)" "\<And>k. k \<in> keys mp - E \<Longrightarrow> me_tx (ent mp2 k) = me_tx (ent mp k)" "me_tx (ent mp2 t) = tx"
    and E: "E \<subseteq> keys mp" "spends mp `` E \<subseteq> E" "\<forall>i\<in>set (tx_vin tx). prev_hash (txin_prevout i) \<notin> E"
  shows "pool_sound a h mp2"
proof -
  have nt: "out_at (pool_coins mp a) p = None" if "prev_hash p = t" for p using t that by (simp add: out_at_pool) (simp add: out_at_def)
  have same: "out_at (pool_coins mp2 a) p = out_at (pool_coins mp a) p" if "prev_hash p \<noteq> t" "prev_hash p \<notin> E" for p
    using that k2(1) k2(2) [of "prev_hash p"] by (auto simp: out_at_pool)
  have "tx_sound a h mp2 tx"
  proof (rule tx_sound_cong [OF s(2) _ order_refl])
    fix p assume p: "p \<in> txin_prevout ` set (tx_vin tx)"
    have "prev_hash p \<noteq> t" using nt [of p] tx_sound_inputs [OF s(2) p] by blast
    moreover have "prev_hash p \<notin> E" using p E(3) by blast
    ultimately show "out_at (pool_coins mp2 a) p = out_at (pool_coins mp a) p" by (rule same)
  qed
  moreover have "a k = None \<and> tx_sound a h mp2 (me_tx (ent mp2 k))" if k: "k \<in> keys mp - E" for k
  proof -
    have kk: "k \<in> keys mp" using k by blast
    have "tx_sound a h mp2 (me_tx (ent mp k))"
    proof (rule tx_sound_cong [OF pool_sound_tx [OF s(1) kk] _ order_refl])
      fix p assume p: "p \<in> txin_prevout ` set (tx_vin (me_tx (ent mp k)))"
      have "prev_hash p \<noteq> t" using nt [of p] tx_sound_inputs [OF pool_sound_tx [OF s(1) kk] p] by blast
      moreover have "prev_hash p \<notin> E"
      proof
        assume e: "prev_hash p \<in> E"
        show False
        proof (cases "prev_hash p \<in> keys mp")
          case True
          then have "(prev_hash p, k) \<in> spends mp" using p kk by (auto simp: spends_def parent_ids_def outpoints_def)
          then show False using E(2) e k by blast
        next
          case False
          then show False using e E(1) by blast
        qed
      qed
      ultimately show "out_at (pool_coins mp2 a) p = out_at (pool_coins mp a) p" by (rule same)
    qed
    then show ?thesis using s(1) kk k2(2) [OF k] by (simp add: pool_sound_def)
  qed
  ultimately show ?thesis using k2(1,3) t(2) by (auto simp: pool_sound_def)
qed

end
