(* ===== verification/Mempool_Admit.thy ===== *)
theory Mempool_Admit
  imports Mempool_Sound
begin

text \<open>
  The theorems on \<open>AcceptToMemoryPool\<close>: whatever is offered, the pool stays in order and the coins stay the same; a rejection
  leaves the pool as it was and gives its reason; what is accepted spends available coins, pays for what it replaces, and has
  scripts that verify.
\<close>

subsection \<open>The whole worker\<close>

text \<open>One of the stages fails an assertion.\<close>

definition stage_asserts :: "accept_env \<Rightarrow> accept_flags \<Rightarrow> CTransaction \<Rightarrow> CValidationState \<Rightarrow> CTxMemPool \<Rightarrow> CCoinsViewDB CCoinsViewCache \<Rightarrow> bool" where
  "stage_asserts env fl tx st0 mp tip \<longleftrightarrow>
     (case accept_precheck env mp tx st0 of
        Inl stop \<Rightarrow> stop = accept_assert
      | Inr (st, setConflicts) \<Rightarrow>
          (case accept_coins env db_ops mp tip tx st of
             (tip', toUncache, Inl stop) \<Rightarrow> stop = accept_assert
           | (tip', toUncache, Inr coins) \<Rightarrow>
               (case accept_checks env fl mp tx st setConflicts coins of
                  Inl stop \<Rightarrow> stop = accept_assert
                | Inr (view, e, setAncestors, allConflicting) \<Rightarrow> accept_scripts env tx st view = Inl accept_assert)))"

text \<open>What the stages have checked when the pool is changed.\<close>

definition tx_id :: "accept_env \<Rightarrow> CTransaction \<Rightarrow> uint256" where
  "tx_id env tx = tx_GetHash (cy_Hash (ac_crypto env)) tx"

definition inputs_ok :: "accept_env \<Rightarrow> (uint256 \<Rightarrow> CCoins option) \<Rightarrow> uint256 \<Rightarrow> CTransaction \<Rightarrow> bool" where
  "inputs_ok env coins best tx \<longleftrightarrow>
     (\<exists>vo p. GetValueOut tx = Inr vo \<and> ac_mapBlockIndex env best = Some p \<and> inputs_pay coins (height p + 1) tx vo) \<and> scripts_ok env coins tx"

definition replaces_fairly :: "accept_env \<Rightarrow> CTxMemPool \<Rightarrow> (uint256 \<Rightarrow> CCoins option) \<Rightarrow> CTransaction \<Rightarrow> bool" where
  "replaces_fairly env mp coins tx \<longleftrightarrow>
     (\<forall>c\<in>conflicts_of mp tx. ac_fEnableReplacement env \<and> SignalsOptInRBF (me_tx (ent mp c)))
     \<and> (conflicts_of mp tx \<noteq> {} \<longrightarrow>
          (\<exists>vo f. GetValueOut tx = Inr vo \<and> GetFee (po_minRelayTxFee (ac_policy env)) (length (ser_CTransaction tx)) = Some f
             \<and> sum_fee mp (evicted mp tx) + max f 0 \<le> (\<Sum>i\<leftarrow>tx_vin tx. in_value coins i) - vo + delta_at mp (tx_id env tx)))"

definition admitted :: "accept_env \<Rightarrow> (uint256 \<Rightarrow> CCoins option) \<Rightarrow> CTransaction \<Rightarrow> CTxMemPool \<Rightarrow> CTxMemPool \<Rightarrow> bool" where
  "admitted env a tx mp mp2 \<longleftrightarrow>
     pool_ok (cy_Hash (ac_crypto env)) mp2 \<and> pool_storable mp2 \<and> pool_backed a mp2 \<and> tx_id env tx \<notin> keys mp
     \<and> keys mp2 = insert (tx_id env tx) (keys mp - evicted mp tx) \<and> me_tx (ent mp2 (tx_id env tx)) = tx
     \<and> a (tx_id env tx) = None \<and> (\<forall>i\<in>set (tx_vin tx). prev_hash (txin_prevout i) \<notin> evicted mp tx)
     \<and> (\<forall>k\<in>keys mp - evicted mp tx. static (ent mp2 k) = static (ent mp k)) \<and> mp_mapDeltas mp2 = mp_mapDeltas mp
     \<and> me_feeDelta (ent mp2 (tx_id env tx)) = delta_at mp (tx_id env tx)"

lemma accept_checks_Inr:
  assumes ok: "pool_ok (cy_Hash (ac_crypto env)) mp" and D: "coins_read mp a b tx D" "n = (\<Sum>i\<leftarrow>tx_vin tx. in_value (pool_coins mp a) i)"
    and pre: "\<not> IsCoinBase tx" "ent_ok C" "set C = conflicts_of mp tx"
      "\<forall>c\<in>conflicts_of mp tx. ac_fEnableReplacement env \<and> SignalsOptInRBF (me_tx (ent mp c))"
    and size: "int (length (ser_CTransaction tx)) < 2 ^ 63"
    and r: "accept_checks env fl mp tx st C (D, n, lp) = Inr (view, e, A, R)"
  shows "view = D" "me_tx e = tx" "fresh_entry e" "me_nTxSize e = int (length (ser_CTransaction tx))" "ent_ok A" "set A = pool_ancestors mp e"
    "set A \<inter> conflicts_of mp tx = {}" "ent_ok R" "set R = evicted mp tx" "replaces_fairly env mp (pool_coins mp a) tx"
proof -
  have c: "cached D (tx_vin tx)" using D(1) by (simp add: coins_read_def)
  obtain nFees nMod where s: "accept_entry env mp tx st (D, n, lp) = Inr (view, e, nFees, nMod)" "accept_ancestors env mp st e C = Inr A"
    "accept_replacement env mp tx st e nMod C = Inr R"
    using r by (auto simp: accept_checks_def bindE_Inr_iff)
  note en = accept_entry_Inr [OF s(1) c pre(1)]
  show "view = D" "me_tx e = tx" "fresh_entry e" "me_nTxSize e = int (length (ser_CTransaction tx))" by (rule en(1,2,3,5))+
  have sz: "me_nTxSize e < 2 ^ 63" using size en(5) by simp
  note an = accept_ancestors_Inr [OF ok en(3) sz s(2)]
  show "ent_ok A" "set A = pool_ancestors mp e" "set A \<inter> conflicts_of mp tx = {}" using an pre(3) by simp_all
  have Ck: "set C \<subseteq> keys mp" using pre(3) by (auto simp: conflicts_of_def)
  note re = accept_replacement_Inr [OF ok pre(2) Ck s(3)]
  show "ent_ok R" "set R = evicted mp tx" using re(1,2) pre(3) by (simp_all add: evicted_def)
  have "\<exists>vo f. GetValueOut tx = Inr vo \<and> GetFee (po_minRelayTxFee (ac_policy env)) (length (ser_CTransaction tx)) = Some f
      \<and> sum_fee mp (evicted mp tx) + max f 0 \<le> (\<Sum>i\<leftarrow>tx_vin tx. in_value (pool_coins mp a) i) - vo + delta_at mp (tx_id env tx)"
    if "conflicts_of mp tx \<noteq> {}"
  proof -
    have "C \<noteq> []" using that pre(3) by auto
    then obtain f where f: "GetFee (po_minRelayTxFee (ac_policy env)) (nat (me_nTxSize e)) = Some f" "sum_fee mp (set R) + f \<le> nMod" "sum_fee mp (set R) \<le> nMod"
      using re(3) by blast
    obtain vo where vo: "GetValueOut tx = Inr vo" "nFees = n - vo" using en(6) by blast
    show ?thesis using f vo en(5,7) D(2) re(2) pre(3) by (auto simp: tx_id_def evicted_def)
  qed
  then show "replaces_fairly env mp (pool_coins mp a) tx" using pre(4) by (simp add: replaces_fairly_def)
qed

lemma no_null_outs_well_formed: "well_formed_tx tx \<Longrightarrow> no_null_outs tx"
  by (auto simp: well_formed_tx_def GetValueOut_Inr no_null_outs_def CTxOut_IsNull_def MoneyRange_def)

lemma accept_commit_ok:
  assumes ok: "pool_ok (cy_Hash (ac_crypto env)) mp" "pool_storable mp" "pool_backed a mp" and tip: "cinv db_coins db_inv tip" "cabs db_coins tip = a"
    and worst: "picks_entry (ac_worst env)" and e: "fresh_entry e" "me_tx e = tx" "no_null_outs tx" "tx_id env tx \<notin> keys mp"
    and D: "coins_read mp a b tx D" "pool_coins mp a (tx_id env tx) = None"
    and R: "ent_ok R" "set R = evicted mp tx" and A: "ent_ok A" "set A = pool_ancestors mp e" "set A \<inter> conflicts_of mp tx = {}"
    and size: "mp_totalTxSize mp + me_nTxSize e < 2 ^ 63"
  obtains mp2 mp' tip' where "accept_commit env fl mp tip tx e A R = Some (mp', tip')" "admitted env a tx mp mp2"
    "if af_fOverrideMempoolLimit fl then mp' = mp2 else trimmed (cy_Hash (ac_crypto env)) mp2 mp'" "cinv db_coins db_inv tip'" "cabs db_coins tip' = a"
    "snd (cache_GetBestBlock db_ops tip') = snd (cache_GetBestBlock db_ops tip)"
proof -
  let ?H = "cy_Hash (ac_crypto env)"
  have "lookup_tx mp (tx_id env tx) = None" using e(4) by (simp add: lookup_ent)
  then have h: "a (tx_id env tx) = None" using D(2) by (simp add: pool_coins_def)
  have inputs: "\<forall>t\<in>parent_ids e. t \<in> keys mp \<or> a t \<noteq> None"
    using D(1) e(2) by (auto simp: coins_read_def parent_ids_def outpoints_def in_available_def pool_coins_def lookup_ent split: if_splits)
  obtain mp1 mp2 where m: "RemoveStaged R mp = Some mp1" "addUnchecked ?H (tx_id env tx) e A mp1 = Some mp2" "pool_ok ?H mp2" "pool_storable mp2"
    "pool_backed a mp2" "keys mp2 = insert (tx_id env tx) (keys mp - evicted mp tx)" "static (ent mp2 (tx_id env tx)) = static (with_delta mp (tx_id env tx) e)"
    "\<And>k. k \<in> keys mp - evicted mp tx \<Longrightarrow> static (ent mp2 k) = static (ent mp k)" "mp_mapDeltas mp2 = mp_mapDeltas mp"
    "\<forall>i\<in>set (tx_vin tx). prev_hash (txin_prevout i) \<notin> evicted mp tx"
    by (rule evict_and_add [OF ok e(1-3) tx_id_def e(4) h inputs R A size], rule that) assumption+
  have fd: "me_feeDelta (ent mp2 (tx_id env tx)) = delta_at mp (tx_id env tx)"
    using staticD(8) [OF m(7)] with_delta_feeDelta [of e mp "tx_id env tx"] e(1) by (simp add: fresh_entry_def)
  have ad: "admitted env a tx mp mp2"
    unfolding admitted_def using m(3-6,9,10) e(2,4) staticD(1) [OF m(7)] h fd by (intro conjI ballI m(8)) simp_all
  have c: "accept_commit env fl mp tip tx e A R = (if af_fOverrideMempoolLimit fl then Some (mp2, tip)
      else LimitMempoolSize (ac_worst env) (ac_entry_size env) (ac_GetTime env) (ac_maxmempool env) (ac_mempoolexpiry env) mp2 tip)"
    using m(1,2) by (simp add: accept_commit_def Let_def tx_id_def)
  show thesis
  proof (cases "af_fOverrideMempoolLimit fl")
    case True
    then show ?thesis using that [of mp2 tip mp2] c ad tip by simp
  next
    case False
    obtain mp' tip' where "LimitMempoolSize (ac_worst env) (ac_entry_size env) (ac_GetTime env) (ac_maxmempool env) (ac_mempoolexpiry env) mp2 tip = Some (mp', tip')"
      "trimmed ?H mp2 mp'" "cinv db_coins db_inv tip'" "cabs db_coins tip' = cabs db_coins tip"
      "snd (cache_GetBestBlock db_ops tip') = snd (cache_GetBestBlock db_ops tip)"
      by (rule LimitMempoolSize_ok [OF m(3) worst tip(1)], rule that) assumption+
    then show ?thesis using that [of mp' tip' mp2] c ad tip False by simp
  qed
qed

text \<open>What the node keeps between two calls.\<close>

definition mempool_node_ok :: "accept_env \<Rightarrow> CTxMemPool \<Rightarrow> CCoinsViewDB CCoinsViewCache \<Rightarrow> bool" where
  "mempool_node_ok env mp tip \<longleftrightarrow> pool_ok (cy_Hash (ac_crypto env)) mp \<and> pool_storable mp \<and> pool_backed (cabs db_coins tip) mp
     \<and> cinv db_coins db_inv tip \<and> picks_entry (ac_worst env)"

definition outcome_ok :: "accept_env \<Rightarrow> accept_flags \<Rightarrow> CTransaction \<Rightarrow> CTxMemPool \<Rightarrow> CCoinsViewDB CCoinsViewCache \<Rightarrow> CCoinsViewDB accept_result \<Rightarrow> bool" where
  "outcome_ok env fl tx mp tip r \<longleftrightarrow>
     (let a = cabs db_coins tip; H = cy_Hash (ac_crypto env) in
      cinv db_coins db_inv (ar_tip r) \<and> cabs db_coins (ar_tip r) = a
      \<and> snd (cache_GetBestBlock db_ops (ar_tip r)) = snd (cache_GetBestBlock db_ops tip)
      \<and> (if ar_accepted r \<and> \<not> af_fDryRun fl \<or> ar_pool r \<noteq> mp
         then \<not> af_fDryRun fl \<and> inputs_ok env (pool_coins mp a) (snd (cache_GetBestBlock db_ops tip)) tx \<and> replaces_fairly env mp (pool_coins mp a) tx
           \<and> well_formed_tx tx \<and> \<not> IsCoinBase tx \<and> (\<exists>mp2. admitted env a tx mp mp2 \<and> trimmed H mp2 (ar_pool r) \<and> ar_accepted r = (tx_id env tx \<in> keys (ar_pool r)))
         else True))"

lemma outcome_ok_stopped:
  assumes "cinv db_coins db_inv tip'" "cabs db_coins tip' = cabs db_coins tip"
    "snd (cache_GetBestBlock db_ops tip') = snd (cache_GetBestBlock db_ops tip)" "ar_pool r = mp" "ar_tip r = tip'" "\<not> ar_accepted r \<or> af_fDryRun fl"
  shows "outcome_ok env fl tx mp tip r"
  using assms by (auto simp: outcome_ok_def Let_def)

lemma outcome_ok_tip:
  assumes "outcome_ok env fl tx mp tip r" "cinv db_coins db_inv tip'" "cabs db_coins tip' = cabs db_coins (ar_tip r)"
    "snd (cache_GetBestBlock db_ops tip') = snd (cache_GetBestBlock db_ops (ar_tip r))"
  shows "outcome_ok env fl tx mp tip (r\<lparr> ar_tip := tip' \<rparr>)"
  using assms by (auto simp: outcome_ok_def Let_def split: if_splits)

lemma Worker_outcome:
  assumes node: "mempool_node_ok env mp tip" and size: "mp_totalTxSize mp + int (length (ser_CTransaction tx)) < 2 ^ 63"
  shows "case AcceptToMemoryPoolWorker env db_ops fl tx st0 mp tip of None \<Rightarrow> stage_asserts env fl tx st0 mp tip
    | Some (r, unc) \<Rightarrow> outcome_ok env fl tx mp tip r"
proof -
  let ?H = "cy_Hash (ac_crypto env)" and ?a = "cabs db_coins tip" and ?b = "snd (cache_GetBestBlock db_ops tip)"
  note w = AcceptToMemoryPoolWorker_def [of env db_ops fl tx st0 mp tip]
  have n: "pool_ok ?H mp" "pool_storable mp" "pool_backed ?a mp" "cinv db_coins db_inv tip" "picks_entry (ac_worst env)"
    using node by (simp_all add: mempool_node_ok_def)
  have stop: "case accept_stopped mp tip' unc stop of None \<Rightarrow> stop = accept_assert | Some (r, unc) \<Rightarrow> outcome_ok env fl tx mp tip r"
    if "cinv db_coins db_inv tip'" "cabs db_coins tip' = ?a" "snd (cache_GetBestBlock db_ops tip') = ?b" for tip' unc stop
    using outcome_ok_stopped [OF that] by (cases stop) (simp_all add: accept_stopped_def)
  show ?thesis
  proof (cases "accept_precheck env mp tx st0")
    case (Inl s)
    then show ?thesis using stop [OF n(4) refl refl, of s "[]"] by (auto simp: w stage_asserts_def split: option.splits)
  next
    case (Inr p)
    obtain st C where p: "accept_precheck env mp tx st0 = Inr (st, C)" using Inr by (cases p) simp
    note pre = accept_precheck_Inr [OF pool_okD(5) [OF n(1)] p]
    obtain tip1 unc q where q: "accept_coins env db_ops mp tip tx st = (tip1, unc, q)" by (metis prod_cases3)
    note co = accept_coins_spec [OF n(4) refl refl n(2) pre(3) q]
    have t0: "cinv db_coins db_inv tip1" "cabs db_coins tip1 = ?a" "snd (cache_GetBestBlock db_ops tip1) = ?b" using co by blast+
    show ?thesis
    proof (cases q)
      case (Inl s)
      then show ?thesis using stop [OF t0, of s unc] co p q by (auto simp: w stage_asserts_def split: option.splits)
    next
      case (Inr coins)
      obtain D m lp where coins: "coins = (D, m, lp)" by (metis prod_cases3)
      have D: "coins_read mp ?a ?b tx D" "pool_coins mp ?a (tx_id env tx) = None" "m = (\<Sum>i\<leftarrow>tx_vin tx. in_value (pool_coins mp ?a) i)"
        using co Inr coins by (auto simp: tx_id_def)
      show ?thesis
      proof (cases "accept_checks env fl mp tx st C (D, m, lp)")
        case (Inl s)
        then show ?thesis using stop [OF t0, of s unc] p q \<open>q = Inr coins\<close> coins by (auto simp: w stage_asserts_def split: option.splits)
      next
        case c: (Inr x)
        obtain view e A R where x: "x = (view, e, A, R)" by (metis prod_cases4)
        have nn: "0 \<le> mp_totalTxSize mp"
          using sum_size_bounds [OF pool_okD(1) [OF n(1)] order_refl] pool_okD(1) [OF n(1)] by (simp add: pool_entries_ok_def)
        have sz: "int (length (ser_CTransaction tx)) < 2 ^ 63" using size nn by simp
        note ch = accept_checks_Inr [OF n(1) D(1,3) pre(3,5,6,7) sz c [unfolded x]]
        have W: "AcceptToMemoryPoolWorker env db_ops fl tx st0 mp tip =
            (if af_fDryRun fl
             then Some (\<lparr> ar_accepted = True, ar_pool = mp, ar_tip = tip1, ar_state = st, ar_missing = False \<rparr>, unc)
             else (case accept_scripts env tx st D of
                 Inl s \<Rightarrow> accept_stopped mp tip1 unc s
               | Inr st' \<Rightarrow>
                   map_option (\<lambda>(mp', tip'').
                       let full = \<not> af_fOverrideMempoolLimit fl \<and> \<not> exists_tx mp' (tx_id env tx) in
                       (\<lparr> ar_accepted = \<not> full, ar_pool = mp', ar_tip = tip'',
                          ar_state = (if full then DoS st' 0 REJECT_INSUFFICIENTFEE ''mempool full'' False [] else st'),
                          ar_missing = False \<rparr>, unc))
                     (accept_commit env fl mp tip1 tx e A R)))"
          unfolding w tx_id_def using p q Inr coins c x ch(1) by simp
        have S: "stage_asserts env fl tx st0 mp tip \<longleftrightarrow> accept_scripts env tx st D = Inl accept_assert"
          using p q Inr coins c x ch(1) by (simp add: stage_asserts_def)
        show ?thesis
        proof (cases "af_fDryRun fl")
          case True
          then show ?thesis using outcome_ok_stopped [OF t0, of _ mp fl env tx] by (simp add: W)
        next
          case live: False
          show ?thesis
          proof (cases "accept_scripts env tx st D")
            case (Inl s)
            then show ?thesis using stop [OF t0, of s unc] live by (auto simp: W S split: option.splits)
          next
            case (Inr st')
            have hk: "tx_id env tx \<notin> keys mp" using pre(4) by (simp add: tx_id_def)
            have sz2: "mp_totalTxSize mp + me_nTxSize e < 2 ^ 63" using size ch(4) by simp
            obtain mp2 mp' tip' where m: "accept_commit env fl mp tip1 tx e A R = Some (mp', tip')" "admitted env ?a tx mp mp2"
              "if af_fOverrideMempoolLimit fl then mp' = mp2 else trimmed ?H mp2 mp'" "cinv db_coins db_inv tip'" "cabs db_coins tip' = ?a"
              "snd (cache_GetBestBlock db_ops tip') = snd (cache_GetBestBlock db_ops tip1)"
              by (rule accept_commit_ok [OF n(1-3) t0(1,2) n(5) ch(3,2) no_null_outs_well_formed [OF pre(2)] hk D(1,2) ch(8,9,5,6,7) sz2], rule that) assumption+
            obtain vo where vo: "GetValueOut tx = Inr vo" using pre(2) by (auto simp: well_formed_tx_def)
            have io: "inputs_ok env (pool_coins mp ?a) ?b tx"
              using accept_scripts_Inr [OF Inr D(1) pre(3) vo] vo by (auto simp: inputs_ok_def)
            have tr: "trimmed ?H mp2 mp'" using m(2,3) trimmed_self by (auto simp: admitted_def split: if_splits)
            have "(af_fOverrideMempoolLimit fl \<or> exists_tx mp' (tx_id env tx)) = (tx_id env tx \<in> keys mp')"
              using m(2,3) by (auto simp: exists_keys admitted_def split: if_splits)
            then show ?thesis using live Inr m(1,2,4,5,6) t0(3) pre(2,3) io ch(10) tr by (auto simp: W Let_def outcome_ok_def)
          qed
        qed
      qed
    qed
  qed
qed

lemma AcceptToMemoryPool_outcome:
  assumes "mempool_node_ok env mp tip" "mp_totalTxSize mp + int (length (ser_CTransaction tx)) < 2 ^ 63"
  shows "case AcceptToMemoryPool env db_ops fl tx st0 mp tip of None \<Rightarrow> stage_asserts env fl tx st0 mp tip
    | Some r \<Rightarrow> outcome_ok env fl tx mp tip r"
proof (cases "AcceptToMemoryPoolWorker env db_ops fl tx st0 mp tip")
  case None
  then show ?thesis using Worker_outcome [OF assms, of fl st0] by (simp add: AcceptToMemoryPool_def)
next
  case (Some p)
  obtain r unc where p: "p = (r, unc)" by fastforce
  have o: "outcome_ok env fl tx mp tip r" using Worker_outcome [OF assms, of fl st0] Some p by simp
  then have "cinv db_coins db_inv (ar_tip r)" by (simp add: outcome_ok_def Let_def)
  from outcome_ok_tip [OF o] fold_Uncache [OF this, of unc] show ?thesis using Some p o by (simp add: AcceptToMemoryPool_def)
qed

subsection \<open>Rejections are told\<close>

text \<open>A stage that stops without a failed assertion leaves an invalid state, or sets the flag for missing inputs and leaves the
  state alone, which is how callers tell the two apart.\<close>

definition told :: "CValidationState \<Rightarrow> accept_stop + 'a \<Rightarrow> bool" where
  "told st s \<longleftrightarrow> (\<forall>m st'. s = Inl (accept_reject m st') \<longrightarrow> (if m then st' = st else IsInvalid st'))"

lemma told_simps [simp]: "told st (Inr x)" "told st (need y)" "told st (Inl accept_assert)" "told st (lift_view p)"
  by (auto simp: told_def need_def lift_view_def split: option.splits prod.splits)

lemma told_map_sum [simp]: "told st (map_sum id f s) = told st s"
  by (cases s) (simp_all add: told_def)

lemma told_bindE: "told st m \<Longrightarrow> (\<And>x. m = Inr x \<Longrightarrow> told st (f x)) \<Longrightarrow> told st (bindE m f)"
  by (cases m) (auto simp: told_def)

lemma IsInvalid_DoS [simp]: "vs_mode st \<noteq> MODE_ERROR \<Longrightarrow> IsInvalid (DoS st l c r k d)" "vs_mode st \<noteq> MODE_ERROR \<Longrightarrow> IsInvalid (Invalid st c r d)"
  by (simp_all add: DoS_def Invalid_def IsInvalid_def Let_def)

lemma told_reject [simp]: "told st (Inl (accept_reject False st')) = IsInvalid st'" "told st (Inl (accept_reject True st'))= (st' = st)"
  "vs_mode st \<noteq> MODE_ERROR \<Longrightarrow> told st (no_tx st l c r)"
  by (auto simp: told_def no_tx_def)

lemma told_checked: "(\<not> fst r \<Longrightarrow> IsInvalid (snd r)) \<Longrightarrow> told st (checked r)"
  by (auto simp: checked_def split: prod.split)

lemma find_conflicts_told:
  assumes "vs_mode st \<noteq> MODE_ERROR"
  shows "told st (find_conflicts env mp h st is C)"
proof (induction "is" arbitrary: C)
  case (Cons i "is")
  then show ?case using assms by (auto simp: Let_def intro!: told_bindE split: option.split)
qed simp

lemma conflicts_loop_told:
  assumes "vs_mode st \<noteq> MODE_ERROR"
  shows "told st (conflicts_loop mp st r hs I P n)"
proof (induction hs arbitrary: I P n)
  case (Cons h hs)
  then show ?case using assms by (auto intro!: told_bindE split: option.split)
qed simp

lemma stages_told:
  assumes v: "vs_mode st \<noteq> MODE_ERROR"
  shows "told st (accept_precheck env mp tx st)" "told st (snd (snd (accept_coins env B mp tip tx st)))" "told st (accept_entry env mp tx st coins)"
    "told st (accept_fees env fl mp st e nFees nMod)" "told st (accept_ancestors env mp st e C)" "told st (accept_replacement env mp tx st e nMod C)"
proof -
  have "told st (checked (CheckTransaction tx st))" using CheckTransaction_cases [of tx st] v by (intro told_checked) (auto simp: reject_def)
  moreover have "st' = st" if "checked (CheckTransaction tx st) = Inr st'" for st' using that CheckTransaction_cases [of tx st] by (auto simp: reject_def)
  ultimately show "told st (accept_precheck env mp tx st)"
    using v find_conflicts_told [OF v] unfolding accept_precheck_def Let_def
    by (intro told_bindE) (auto intro!: told_bindE split: option.split)
  show "told st (snd (snd (accept_coins env B mp tip tx st)))"
    using v by (auto simp: accept_coins_def Let_def intro!: told_bindE split: prod.split)
  show "told st (accept_entry env mp tx st coins)"
    using v by (auto simp: accept_entry_def Let_def intro!: told_bindE split: prod.split sum.split)
  show "told st (accept_fees env fl mp st e nFees nMod)"
    using v by (auto simp: accept_fees_def Let_def intro!: told_bindE)
  show "told st (accept_ancestors env mp st e C)"
    using v by (auto simp: accept_ancestors_def intro!: told_bindE split: sum.split)
  show "told st (accept_replacement env mp tx st e nMod C)"
    using v conflicts_loop_told [OF v] by (auto simp: accept_replacement_def Let_def intro!: told_bindE)
qed

lemma accept_checks_told: "vs_mode st \<noteq> MODE_ERROR \<Longrightarrow> told st (accept_checks env fl mp tx st C coins)"
  unfolding accept_checks_def by (auto simp: stages_told intro!: told_bindE)

lemma CheckInputs_told:
  assumes v: "vs_mode st \<noteq> MODE_ERROR" and r: "CheckInputs env B view tx st h fs fl q = (view', Some ((ok, st'), ks))"
  shows "if ok then st' = st else IsInvalid st'"
proof -
  have l: "if ok then st' = st else IsInvalid st'" if "check_scripts_loop env B tx fl q st view is n vs = (view', Some ((ok, st'), ks))" for view "is" n vs
    using that
  proof (induction "is" arbitrary: view n vs)
    case (Cons i "is")
    then show ?case using v by (auto simp: Let_def split: prod.splits option.splits sum.splits if_splits)
  qed auto
  have c: "if ok then st' = st else IsInvalid st'" if "CheckTxInputs B view tx st h = (view', Some (ok, st'))" for view ok st' view'
  proof -
    have i: "IsInvalid s" if "input_values_loop B h st view is n = (view', Some (Inl s))" for view "is" n view' s
      using that by (induction "is" arbitrary: view n) (use v in \<open>auto simp: Let_def split: prod.splits option.splits if_splits\<close>)
    show ?thesis using that v
      by (auto simp: CheckTxInputs_def Let_def reject_def dest: i split: prod.splits bool.splits option.splits sum.splits if_splits)
  qed
  have t: "s = st" if "CheckTxInputs B view tx st h = (v, Some (True, s))" for v s using c [OF that] by simp
  show ?thesis using r
    by (auto simp: CheckInputs_def split: prod.splits option.splits bool.splits if_splits dest!: t dest: l c)
qed

lemma accept_script_pass_state:
  "vs_mode st \<noteq> MODE_ERROR \<Longrightarrow> accept_script_pass env tx flags st view = Inr (view', st') \<Longrightarrow> st' = st"
  by (auto simp: accept_script_pass_def bindE_Inr_iff dest!: CheckInputs_told)

lemma accept_scripts_state: "vs_mode st \<noteq> MODE_ERROR \<Longrightarrow> accept_scripts env tx st view = Inr st' \<Longrightarrow> st' = st"
  by (auto simp: accept_scripts_def bindE_Inr_iff) (metis accept_script_pass_state)

lemma accept_scripts_told: "vs_mode st \<noteq> MODE_ERROR \<Longrightarrow> told st (accept_scripts env tx st view)"
proof -
  assume v: "vs_mode st \<noteq> MODE_ERROR"
  have c: "told st (checked r)" if "CheckInputs (ac_crypto env) dummy_ops view1 tx st h True flags False = (view2, Some (r, ks))" for view1 h flags view2 r ks
  proof -
    obtain ok st' where r: "r = (ok, st')" by fastforce
    show ?thesis using CheckInputs_told [OF v that [unfolded r]] by (intro told_checked) (simp add: r)
  qed
  have p: "told st (accept_script_pass env tx flags st view1)" for flags view1
    unfolding accept_script_pass_def using c by (auto intro!: told_bindE)
  show "told st (accept_scripts env tx st view)"
    unfolding accept_scripts_def using p by (auto intro!: told_bindE dest!: accept_script_pass_state [OF v])
qed

lemma Worker_told:
  assumes v: "vs_mode st0 \<noteq> MODE_ERROR" and r: "AcceptToMemoryPoolWorker env B fl tx st0 mp tip = Some (r, unc)" "\<not> ar_accepted r"
  shows "if ar_missing r then ar_state r = st0 else IsInvalid (ar_state r)"
proof -
  have stop: "if ar_missing r then ar_state r = st0 else IsInvalid (ar_state r)"
    if "accept_stopped mp tip' unc' s = Some (r, unc)" "told st0 (Inl s :: accept_stop + unit)" for tip' unc' s
    using that by (auto simp: accept_stopped_def split: accept_stop.splits)
  show ?thesis
  proof (cases "accept_precheck env mp tx st0")
    case (Inl s)
    then show ?thesis using r(1) stop [of tip "[]" s] stages_told(1) [OF v, of env mp tx] by (simp add: AcceptToMemoryPoolWorker_def told_def)
  next
    case (Inr p)
    obtain st C where p: "p = (st, C)" by fastforce
    have "CheckTransaction tx st0 = (True, st)"
      using Inr p by (auto simp: accept_precheck_def bindE_Inr_iff Let_def split: if_splits option.splits)
    then have st: "st = st0" using CheckTransaction_cases [of tx st0] by (auto simp: reject_def)
    obtain tip1 unc1 q where q: "accept_coins env B mp tip tx st = (tip1, unc1, q)" by (metis prod_cases3)
    show ?thesis
    proof (cases q)
      case (Inl s)
      then show ?thesis using r(1) \<open>accept_precheck env mp tx st0 = Inr p\<close> p q stop [of tip1 unc1 s] stages_told(2) [OF v, of env B mp tip tx]
        by (simp add: AcceptToMemoryPoolWorker_def told_def st)
    next
      case coins: (Inr coins)
      note told_checks = accept_checks_told [OF v, of env fl mp tx C coins]
      show ?thesis
      proof (cases "accept_checks env fl mp tx st C coins")
        case (Inl s)
        then show ?thesis using r(1) \<open>accept_precheck env mp tx st0 = Inr p\<close> p q coins stop [of tip1 unc1 s] told_checks
          by (simp add: AcceptToMemoryPoolWorker_def told_def st)
      next
        case x: (Inr x)
        obtain view e A R where x': "x = (view, e, A, R)" by (metis prod_cases4)
        have dry: "\<not> af_fDryRun fl" using r \<open>accept_precheck env mp tx st0 = Inr p\<close> p q coins x x'
          by (auto simp: AcceptToMemoryPoolWorker_def st split: if_splits)
        show ?thesis
        proof (cases "accept_scripts env tx st view")
          case (Inl s)
          then show ?thesis using r(1) \<open>accept_precheck env mp tx st0 = Inr p\<close> p q coins x x' dry stop [of tip1 unc1 s] accept_scripts_told [OF v, of env tx view]
            by (simp add: AcceptToMemoryPoolWorker_def told_def st)
        next
          case sc: (Inr st')
          have "st' = st0" using accept_scripts_state [OF v] sc st by blast
          moreover have "IsInvalid (DoS st0 0 REJECT_INSUFFICIENTFEE ''mempool full'' False [])" using v by simp
          ultimately show ?thesis using r \<open>accept_precheck env mp tx st0 = Inr p\<close> p q coins x x' dry sc
            by (auto simp: AcceptToMemoryPoolWorker_def st Let_def split: if_splits)
        qed
      qed
    qed
  qed
qed

subsection \<open>A sample\<close>

text \<open>An empty pool over one coin of a chain of one block, and a transaction that spends it: it passes every stage.\<close>

definition admit_coins :: CCoins where
  "admit_coins = \<lparr> cc_fCoinBase = False, cc_vout = [mk_CTxOut 7 [2, 5, 6]], cc_nHeight = 0, cc_nVersion = 1 \<rparr>"

definition admit_tip :: "CCoinsViewDB CCoinsViewCache" where
  "admit_tip = new_cache \<lparr> db_coins = (\<lambda>t. if t = 5 then Some admit_coins else None), db_best = 9 \<rparr>"

definition admit_block :: CBlockIndex where "admit_block = CBlockIndex SetNull_index None None"

definition admit_tx :: CTransaction where "admit_tx = sample_tx (COutPoint 5 0) []"

definition admit_env :: accept_env where
  "admit_env = \<lparr> ac_crypto = \<lparr> cy_Hash = sample_H, cy_ripemd160 = \<lambda>x. x, cy_sha1 = \<lambda>x. x, cy_sha256 = \<lambda>x. x, cy_verify = \<lambda>a b c. False,
       cy_CheckLowS = \<lambda>x. True \<rparr>,
     ac_policy = \<lparr> po_fAcceptDatacarrier = True, po_nMaxDatacarrierBytes = 83, po_fIsBareMultisigStd = True, po_minRelayTxFee = \<lparr> nSatoshisPerK = 0 \<rparr> \<rparr>,
     ac_fRequireStandard = False, ac_csv_active = False, ac_chainActive = [Some admit_block], ac_mapBlockIndex = \<lambda>h. if h = 9 then Some admit_block else None,
     ac_GetTime = 0, ac_GetAdjustedTime = 0, ac_HasTxLockRequest = \<lambda>_. False, ac_lock_request_valid = \<lambda>_. False,
     ac_GetLockedOutPointTxHash = \<lambda>_. None, ac_fEnableReplacement = True, ac_nBytesPerSigOp = 20, ac_GetMinFee = \<lambda>_. \<lparr> nSatoshisPerK = 0 \<rparr>,
     ac_relaypriority = False, ac_AllowFree = \<lambda>_. False, ac_rate_limited = False, ac_limits = default_limits, ac_tx_usage = \<lambda>_. 100,
     ac_worst = \<lambda>m. fst (hd (mp_mapTx m)), ac_entry_size = 200, ac_maxmempool = 1000, ac_mempoolexpiry = 72 \<rparr>"

definition admit_flags :: accept_flags where
  "admit_flags = \<lparr> af_fLimitFree = False, af_fOverrideMempoolLimit = True, af_fRejectAbsurdFee = False, af_fDryRun = False \<rparr>"

lemmas ser_size_defs = ser_CTransaction_def ser_int32_def ser_vec_def ser_CTxIn_def ser_CTxOut_def mk_CTxIn_def mk_CTxOut_def ser_COutPoint_def
  ser_uint256_def ser_bytes_def ser_int64_def WriteCompactSize_def ser_writedata8_def ser_writedata32_def ser_writedata64_def

lemma admit_env_fields:
  "cy_Hash (ac_crypto admit_env) = sample_H" "ac_fRequireStandard admit_env = False" "ac_chainActive admit_env = [Some admit_block]"
  "ac_mapBlockIndex admit_env = (\<lambda>h. if h = 9 then Some admit_block else None)" "ac_GetAdjustedTime admit_env = 0" "ac_GetTime admit_env = 0"
  "ac_HasTxLockRequest admit_env h = False" "ac_GetLockedOutPointTxHash admit_env p = None" "ac_nBytesPerSigOp admit_env = 20"
  "ac_GetMinFee admit_env m = \<lparr> nSatoshisPerK = 0 \<rparr>" "ac_relaypriority admit_env = False" "ac_limits admit_env = default_limits"
  "ac_tx_usage admit_env t = 100"
  by (simp_all add: admit_env_def)

lemma admit_tx_facts:
  "length (ser_CTransaction admit_tx) = 60" "tx_GetHash sample_H admit_tx = 60"
  "tx_vin admit_tx = [mk_CTxIn (COutPoint 5 0) [] 0]" "tx_vout admit_tx = [mk_CTxOut 5 []]" "tx_nLockTime admit_tx = 0" "tx_nVersion admit_tx = 1" "GetValueOut admit_tx = Inr 5"
  by (simp_all add: admit_tx_def sample_tx_def tx_GetHash_def sample_H_def ser_size_defs GetValueOut_Inr MoneyRange_def MAX_MONEY_def)

lemma admit_tx_loose: "\<not> IsCoinBase admit_tx"
  by (simp add: admit_tx_facts IsCoinBase_def mk_CTxIn_def COutPoint_IsNull_def)

lemma admit_well_formed: "well_formed_tx admit_tx"
  by (simp add: well_formed_tx_def admit_tx_facts admit_tx_loose mk_CTxIn_def mk_CTxOut_def COutPoint_IsNull_def tx_size_def vec_size_def txin_size_def txout_size_def bytes_size_def
        GetSizeOfCompactSize_def MAX_BLOCK_SIZE_def)

lemma admit_start_ok: "mempool_node_ok admit_env CTxMemPool_init admit_tip"
proof -
  have "picks_entry (ac_worst admit_env)" unfolding picks_entry_def admit_env_def keys_def by (auto intro: hd_in_set)
  moreover have "cinv db_coins db_inv admit_tip"
    by (simp add: admit_tip_def admit_coins_def new_cache_def cinv_def entries_ok_def
     db_inv_def shows_clean_def clean_def clean_vout_def IsPruned_def CTxOut_IsNull_def mk_CTxOut_def)
  ultimately show ?thesis
    by (simp add: mempool_node_ok_def pool_ok_init pool_storable_def pool_backed_def empty_pool)
qed

lemma admit_precheck: "accept_precheck admit_env CTxMemPool_init admit_tx st = Inr (st, [])"
proof -
  have 1: "CheckTransaction admit_tx st = (True, st)" using CheckTransaction_cases [of admit_tx st] admit_well_formed by blast
  have 2: "CheckFinalTx [Some admit_block] 0 admit_tx f = Some True" for f
    by (simp add: CheckFinalTx_def chain_Tip_def IsFinalTx_def admit_tx_facts Let_def)
  show ?thesis
    by (simp add: accept_precheck_def 1 2 checked_def admit_tx_facts admit_env_fields admit_tx_loose need_def exists_keys empty_pool )
qed

lemma admit_lookup: "lookup_tx CTxMemPool_init h = None" using empty_pool by (simp add: lookup_ent)

lemma admit_coins_facts:
  "\<not> IsPruned admit_coins" "IsAvailable admit_coins 0" "cc_vout admit_coins = [mk_CTxOut 7 [2, 5, 6]]" "cc_nHeight admit_coins = 0"
  "cc_fCoinBase admit_coins = False"
  by (simp_all add: admit_coins_def IsPruned_def CTxOut_IsNull_def mk_CTxOut_def IsAvailable_def)

lemma admit_block_facts:
  "height admit_block = 0" "GetMedianTimePast admit_block = 0" "GetAncestor admit_block 0 = Some (Some admit_block)"
  by code_simp+

lemma admit_lock_points:
  assumes "c 5 = Some admit_coins"
  shows "\<exists>lp'. CheckSequenceLocks [Some admit_block] c CTxMemPool_init admit_tx fl lp False = Some (True, lp')"
proof -
  have "CalculateSequenceLocks admit_tx fl [0] b = Some ((- 1, - 1), [0])" for b
    by (simp add: CalculateSequenceLocks_def admit_tx_facts Let_def word_le_nat_alt del: seqlock_loop.simps)
  then show ?thesis using assms
    by (simp add: CheckSequenceLocks_def chain_Tip_def admit_tx_facts mempool_GetCoins_def admit_lookup admit_coins_facts admit_block_facts
        mk_CTxIn_def max_input_height_def EvaluateSequenceLocks_def next_block_index_def MEMPOOL_HEIGHT_def Let_def)
qed

lemma admit_accept_coins: "\<exists>t u D lp. accept_coins admit_env db_ops CTxMemPool_init admit_tip admit_tx st = (t, u, Inr (D, 7, lp))
   \<and> cv_hashBlock D = 9 \<and> cv_cacheCoins D = [(5, \<lparr> ce_coins = admit_coins, ce_dirty = False, ce_fresh = False \<rparr>)]"
proof -
  let ?e = "\<lparr> ce_coins = admit_coins, ce_dirty = False, ce_fresh = False \<rparr>"
  let ?tip = "admit_tip \<lparr> cv_cacheCoins := [(5, ?e)] \<rparr>" and ?tip' = "admit_tip \<lparr> cv_hashBlock := 9, cv_cacheCoins := [(5, ?e)] \<rparr>"
  let ?M = "mempool_view_ops CTxMemPool_init db_ops"
  let ?v = "\<lparr> cv_base = ?tip, cv_hashBlock = 0, cv_cacheCoins = [(5, ?e)] \<rparr>"
  let ?v' = "\<lparr> cv_base = ?tip', cv_hashBlock = 9, cv_cacheCoins = [(5, ?e)] \<rparr>"
  have read: "FetchCoins B \<lparr> cv_base = b, cv_hashBlock = h, cv_cacheCoins = [(5, ?e)] \<rparr> 5 = (\<lparr> cv_base = b, cv_hashBlock = h, cv_cacheCoins = [(5, ?e)] \<rparr>, Some ?e)" 
    for B :: "'v view_ops" and b h by (simp add: FetchCoins_def)
  note fetch = HaveCoins_def FetchCoins_def mempool_view_ops_def mempool_view_GetCoins_def admit_lookup cache_GetCoins_def admit_tip_def new_cache_def db_ops_def db_GetCoins_def
  have 1: "HaveCoins ?M (new_cache admit_tip) 60 = (new_cache admit_tip, False)" by (simp add: fetch)
  have 2: "inputs_exist_loop CTxMemPool_init db_ops (new_cache admit_tip) (tx_vin admit_tx) [] = (?v, [5], True)"
    by (simp add: admit_tx_facts mk_CTxIn_def fetch admit_coins_facts HaveCoinsInCache_def Let_def)
  have 3: "HaveInputs ?M ?v admit_tx = (?v, True)"
    by (simp add: HaveInputs_def admit_tx_loose admit_tx_facts AccessCoins_def mk_CTxIn_def read admit_coins_facts)
  have 4: "cache_GetBestBlock ?M ?v = (?v', 9)"
    by (simp add: cache_GetBestBlock_def mempool_view_ops_def admit_tip_def new_cache_def db_ops_def db_GetBestBlock_def)
  have 5: "GetValueIn ?M ?v' admit_tx = (?v', Some 7)"
    by (simp add: GetValueIn_def admit_tx_loose admit_tx_facts GetOutputFor_def AccessCoins_def mk_CTxIn_def mk_CTxOut_def read admit_coins_facts i64_def in_i64_def INT64_MIN_def INT64_MAX_def)
  have 6: "snd (cache_GetCoins db_ops ?tip' 5) = Some admit_coins"
    by (simp add: cache_GetCoins_def FetchCoins_def)
  obtain lp where lp: "CheckSequenceLocks [Some admit_block] (\<lambda>t. snd (cache_GetCoins db_ops ?tip' t)) CTxMemPool_init admit_tx
      STANDARD_LOCKTIME_VERIFY_FLAGS \<lparr> lp_height = 0, lp_time = 0, lp_maxInputBlock = None \<rparr> False = Some (True, lp)"
    using admit_lock_points [of "\<lambda>t. snd (cache_GetCoins db_ops ?tip' t)"] 6 by blast
  show ?thesis
    unfolding accept_coins_def admit_env_fields admit_tx_facts(2) Let_def 1 2 3 4 5
    by (simp add: 2 3 4 5 need_def lp SetBackend_def)
qed

definition admit_view :: "unit CCoinsViewCache \<Rightarrow> bool" where
  "admit_view D \<longleftrightarrow> cv_hashBlock D = 9 \<and> cv_cacheCoins D = [(5, \<lparr> ce_coins = admit_coins, ce_dirty = False, ce_fresh = False \<rparr>)]"

lemma admit_access: "admit_view D \<Longrightarrow> AccessCoins B D 5 = (D, Some admit_coins)"
  by (simp add: admit_view_def AccessCoins_def FetchCoins_def)

lemma admit_verify: "CScriptCheck_run (ac_crypto admit_env) (CScriptCheck_of admit_coins admit_tx 0 fl) = Some (Inr ())"
  if "has_flag fl SCRIPT_VERIFY_CLEANSTACK \<Longrightarrow> has_flag fl SCRIPT_VERIFY_P2SH"
proof -
  note d = direct_push [of "[5, 6]", simplified]
  have e: "EvalScript c [] [2, 5, 6] = Inr [[5, 6]]" for c
    by (simp add: EvalScript_def eval_loop_step [OF d(2) [of "[]", simplified]] exec_instr_push [OF d(3) _ _ d(4)] size_check_def eval_loop_Nil)
  show ?thesis using that e
    by (simp add: CScriptCheck_run_def CScriptCheck_of_def admit_tx_facts admit_coins_facts mk_CTxIn_def mk_CTxOut_def VerifyScript_def
        IsPushOnly.simps [of "[]"] EvalScript_def [of _ "[]" "[]"] eval_loop_Nil eval_true_def IsPayToScriptHash_def verify_cleanstack_def)
qed

lemma admit_scripts: "admit_view D \<Longrightarrow> accept_scripts admit_env admit_tx st D = Inr st"
proof -
  assume D: "admit_view D"
  have h: "GetSpendHeight (ac_mapBlockIndex admit_env) dummy_ops D = (D, Some 1)"
    using D by (simp add: GetSpendHeight_def cache_GetBestBlock_def admit_view_def admit_env_fields admit_block_facts)
  have t: "CheckTxInputs dummy_ops D admit_tx st 1 = (D, Some (True, st))"
    by (simp add: CheckTxInputs_def HaveInputs_def admit_tx_loose admit_tx_facts mk_CTxIn_def mk_CTxOut_def admit_access [OF D] admit_coins_facts
        i64_def in_i64_def INT64_MIN_def INT64_MAX_def MoneyRange_def MAX_MONEY_def)
  have c: "CheckInputs (ac_crypto admit_env) dummy_ops D admit_tx st 1 True fl False = (D, Some ((True, st), []))"
    if "has_flag fl SCRIPT_VERIFY_CLEANSTACK \<Longrightarrow> has_flag fl SCRIPT_VERIFY_P2SH" for fl
    using admit_verify [OF that] by (simp add: CheckInputs_def t admit_tx_loose admit_tx_facts(3) mk_CTxIn_def admit_access [OF D] Let_def)
  have f: "has_flag STANDARD_SCRIPT_VERIFY_FLAGS SCRIPT_VERIFY_P2SH" "has_flag MANDATORY_SCRIPT_VERIFY_FLAGS SCRIPT_VERIFY_P2SH"
    by code_simp+
  show ?thesis using f
    by (simp add: accept_scripts_def accept_script_pass_def h c lift_view_def checked_def)
qed

lemma admit_checks: "admit_view D \<Longrightarrow>
  \<exists>e. accept_checks admit_env admit_flags CTxMemPool_init admit_tx st [] (D, 7, lp) = Inr (D, e, [], [])"
proof -
  assume D: "admit_view D"
  note r = admit_tx_loose admit_tx_facts mk_CTxIn_def mk_CTxOut_def admit_access [OF D] admit_coins_facts i64_def in_i64_def INT64_MIN_def INT64_MAX_def
  have 1: "GetP2SHSigOpCount dummy_ops D admit_tx = (D, Some 0)"
    by (simp add: GetP2SHSigOpCount_def GetOutputFor_def IsPayToScriptHash_def r)
  have 2: "GetPriority_value dummy_ops D admit_tx 0 = (D, Some 7)" by (simp add: GetPriority_value_def r)
  have 4: "GetLegacySigOpCount admit_tx = 0"
    by (simp add: GetLegacySigOpCount_def GetSigOpCount_def sigop_loop.simps [of _ "[]"] r)
  have 5: "chain_Height [Some admit_block] = 0" by (simp add: chain_Height_def)
  obtain e where e: "CTxMemPoolEntry_of admit_tx 2 0 0 True 7 False 0 lp 100 = Some e" "me_nTxSize e = 60" "me_tx e = admit_tx"
    by (simp add: CTxMemPoolEntry_of_def r)
  have 6: "accept_entry admit_env CTxMemPool_init admit_tx st (D, 7, lp) = Inr (D, e, 2, 2)"
    using e by (simp add: accept_entry_def admit_env_fields 1 2 4 5 lift_view_def need_def r ApplyDeltas_def
        exists_keys empty_pool CTxMemPool_init_def [THEN arg_cong, of mp_mapDeltas] MAX_STANDARD_TX_SIGOPS_def MAX_BLOCK_SIGOPS_def MAX_BLOCK_SIZE_def)
  have 7: "GetFee \<lparr> nSatoshisPerK = 0 \<rparr> 60 = Some 0" by (simp add: GetFee_def i64_def in_i64_def INT64_MIN_def INT64_MAX_def)
  have 8: "accept_fees admit_env admit_flags CTxMemPool_init st e 2 2 = Inr ()"
    using e by (simp add: accept_fees_def admit_env_fields admit_flags_def 7 need_def)
  show ?thesis
    by (simp add: accept_checks_def admit_env_fields 6 8 accept_replacement_def accept_ancestors_def CalculateMemPoolAncestors_def e need_def r exists_keys empty_pool)
qed

lemma admit_run: "\<exists>r. AcceptToMemoryPool admit_env db_ops admit_flags admit_tx CValidationState_init CTxMemPool_init admit_tip = Some r \<and> ar_accepted r"
proof -
  let ?H = "cy_Hash (ac_crypto admit_env)" and ?mp = "CTxMemPool_init" and ?st = CValidationState_init and ?a = "cabs db_coins admit_tip"
  note n = admit_start_ok [unfolded mempool_node_ok_def]
  obtain t u D lp where c: "accept_coins admit_env db_ops ?mp admit_tip admit_tx ?st = (t, u, Inr (D, 7, lp))" "admit_view D"
    using admit_accept_coins unfolding admit_view_def by blast
  have cs: "cinv db_coins db_inv t" "cabs db_coins t = ?a" "coins_read ?mp ?a (snd (cache_GetBestBlock db_ops admit_tip)) admit_tx D"
      "pool_coins ?mp ?a (tx_id admit_env admit_tx) = None" "7 = (\<Sum>i\<leftarrow>tx_vin admit_tx. in_value (pool_coins ?mp ?a) i)"
    using accept_coins_spec [OF _ refl refl _ admit_tx_loose c(1)] n unfolding tx_id_def by blast+
  obtain e where e: "accept_checks admit_env admit_flags ?mp admit_tx ?st [] (D, 7, lp) = Inr (D, e, [], [])"
    using admit_checks [OF c(2)] by blast
  have nc: "conflicts_of ?mp admit_tx = {}" by (simp add: conflicts_of_def empty_pool)
  have ok: "pool_ok ?H ?mp" using n by blast
  have sz: "int (length (ser_CTransaction admit_tx)) < 2 ^ 63" by (simp add: admit_tx_facts)
  note ch = accept_checks_Inr [OF ok cs(3,5) admit_tx_loose ent_ok_Nil _ _ sz e]
  obtain mp' tip' where k: "accept_commit admit_env admit_flags ?mp t admit_tx e [] [] = Some (mp', tip')"
    by (rule accept_commit_ok [of admit_env ?mp ?a t e admit_tx _ D "[]" "[]" admit_flags])
      (use n nc ch cs no_null_outs_well_formed [OF admit_well_formed] in \<open>simp_all add: empty_pool admit_tx_facts\<close>)
  show ?thesis
    by (simp add: AcceptToMemoryPool_def AcceptToMemoryPoolWorker_def admit_precheck c(1) e admit_scripts [OF c(2)] k admit_flags_def [THEN arg_cong, of af_fDryRun] admit_flags_def [THEN arg_cong, of af_fOverrideMempoolLimit] Let_def)
qed

subsection \<open>The properties\<close>

text \<open>The pool is also sound against the coins of the chain, for a block on top of the best one, which the node knows, and its
  entries carry the deltas of \<open>mapDeltas\<close>.\<close>

definition mempool_node_sound :: "accept_env \<Rightarrow> CTxMemPool \<Rightarrow> CCoinsViewDB CCoinsViewCache \<Rightarrow> bool" where
  "mempool_node_sound env mp tip \<longleftrightarrow> mempool_node_ok env mp tip \<and> deltas_ok mp
     \<and> (\<exists>p. ac_mapBlockIndex env (snd (cache_GetBestBlock db_ops tip)) = Some p \<and> pool_sound (cabs db_coins tip) (height p + 1) mp)"

lemma admitted_sound:
  assumes ad: "admitted env a tx mp mp2" and s: "pool_sound a h mp" and d: "deltas_ok mp"
    and tx: "tx_sound a h mp tx" "tx_id env tx \<notin> keys mp"
  shows "pool_sound a h mp2" "deltas_ok mp2"
proof -
  have m: "keys mp2 = insert (tx_id env tx) (keys mp - evicted mp tx)" "\<And>k. k \<in> keys mp - evicted mp tx \<Longrightarrow> static (ent mp2 k) = static (ent mp k)"
    "mp_mapDeltas mp2 = mp_mapDeltas mp" "me_feeDelta (ent mp2 (tx_id env tx)) = delta_at mp (tx_id env tx)"
    "a (tx_id env tx) = None" "\<forall>i\<in>set (tx_vin tx). prev_hash (txin_prevout i) \<notin> evicted mp tx" "me_tx (ent mp2 (tx_id env tx)) = tx"
    using ad unfolding admitted_def by blast+
  have E: "evicted mp tx \<subseteq> keys mp" "spends mp `` evicted mp tx \<subseteq> evicted mp tx"
    using pool_descendants_keys unfolding evicted_def conflicts_of_def by (blast, blast intro: rtrancl_into_rtrancl)
  show "pool_sound a h mp2"
    by (rule pool_sound_admit [OF s tx m(5,1) staticD(1) [OF m(2)] m(7) E m(6)])
  have "delta_at mp2 k = delta_at mp k" for k by (simp add: delta_at_def m(3))
  moreover have "me_feeDelta (ent mp2 k) = delta_at mp k" if "k \<in> keys mp2" for k
    using that m(1,4) staticD(8) [OF m(2)] d by (auto simp: deltas_ok_def)
  ultimately show "deltas_ok mp2" by (simp add: deltas_ok_def)
qed

lemma AcceptToMemoryPool_sound:
  assumes "mempool_node_sound env mp tip" "mp_totalTxSize mp + int (length (ser_CTransaction tx)) < 2 ^ 63"
  shows "case AcceptToMemoryPool env db_ops fl tx st mp tip of None \<Rightarrow> stage_asserts env fl tx st mp tip
    | Some r \<Rightarrow> mempool_node_sound env (ar_pool r) (ar_tip r) \<and> outcome_ok env fl tx mp tip r
        \<and> snd (cache_GetBestBlock db_ops (ar_tip r)) = snd (cache_GetBestBlock db_ops tip)"
proof (cases "AcceptToMemoryPool env db_ops fl tx st mp tip")
  case None
  have "mempool_node_ok env mp tip" using assms(1) by (simp add: mempool_node_sound_def)
  then show ?thesis using AcceptToMemoryPool_outcome [OF _ assms(2), of env tip fl st] None by simp
next
  case (Some r)
  obtain p where n: "mempool_node_ok env mp tip" "deltas_ok mp" "ac_mapBlockIndex env (snd (cache_GetBestBlock db_ops tip)) = Some p"
    "pool_sound (cabs db_coins tip) (height p + 1) mp"
    using assms(1) unfolding mempool_node_sound_def by blast
  have o: "outcome_ok env fl tx mp tip r" using AcceptToMemoryPool_outcome [OF n(1) assms(2), of fl st] Some by simp
  then have t: "cabs db_coins (ar_tip r) = cabs db_coins tip" "snd (cache_GetBestBlock db_ops (ar_tip r)) = snd (cache_GetBestBlock db_ops tip)"
    by (simp_all add: outcome_ok_def Let_def)
  have node: "mempool_node_sound env (ar_pool r) (ar_tip r)"
  proof (cases "ar_pool r = mp")
    case True
    then show ?thesis using o n t by (simp add: mempool_node_sound_def outcome_ok_def mempool_node_ok_def Let_def)
  next
    case False
    then obtain mp2 where m: "admitted env (cabs db_coins tip) tx mp mp2" "trimmed (cy_Hash (ac_crypto env)) mp2 (ar_pool r)"
        "inputs_ok env (pool_coins mp (cabs db_coins tip)) (snd (cache_GetBestBlock db_ops tip)) tx" "well_formed_tx tx" "\<not> IsCoinBase tx"
      using o by (auto simp: outcome_ok_def Let_def split: if_splits)
    then have k: "pool_backed (cabs db_coins tip) mp2" "pool_storable mp2" "tx_id env tx \<notin> keys mp" by (simp_all add: admitted_def)
    have ts: "tx_sound (cabs db_coins tip) (height p + 1) mp tx"
      using m(3-5) n(3) by (auto simp: tx_sound_def inputs_ok_def well_formed_tx_def)
    note s = admitted_sound [OF m(1) n(4,2) ts k(3)]
    have "deltas_ok (ar_pool r)" by (rule deltas_ok_shrunk [OF s(2)]) (use m(2) in \<open>simp add: trimmed_def\<close>)
    moreover note pool_sound_trimmed [OF s(1) m(2)] trimmed_backed [OF m(2) k(1,2)]
    moreover have "pool_ok (cy_Hash (ac_crypto env)) (ar_pool r)" using m(2) by (simp add: trimmed_def)
    ultimately show ?thesis using o n(1,3) t by (simp add: mempool_node_sound_def outcome_ok_def mempool_node_ok_def Let_def)
  qed
  then show ?thesis using o t(2) Some by simp
qed

text \<open>C8: Whatever transaction is offered, \<open>AcceptToMemoryPool\<close> keeps the node in order: the pool satisfies its invariant, and every
  input of every entry spends an output that is available at its index, unspent in the chain or made by another entry, mature for the next block and within the
  money range, with inputs that pay for the outputs (\<open>pool_sound\<close>).  \<open>pcoinsTip\<close> shows the same coins and the same best block.
  None of the operations on the pool fails an assertion; only a stage that reads (\<open>stage_asserts\<close>) may.  A dry run changes nothing; a rejection leaves the pool as
  it was, unless the transaction was trimmed away again, and makes the state invalid, except for missing inputs, which are told by
  the flag with the state untouched.\<close>

theorem AcceptToMemoryPool_keeps_node:
  assumes "mempool_node_sound env mp tip" "mp_totalTxSize mp + int (length (ser_CTransaction tx)) < 2 ^ 63" "vs_mode st = MODE_VALID"
  shows "case AcceptToMemoryPool env db_ops fl tx st mp tip of
      None \<Rightarrow> stage_asserts env fl tx st mp tip
    | Some r \<Rightarrow> mempool_node_sound env (ar_pool r) (ar_tip r) \<and> cabs db_coins (ar_tip r) = cabs db_coins tip
        \<and> snd (cache_GetBestBlock db_ops (ar_tip r)) = snd (cache_GetBestBlock db_ops tip)
        \<and> (af_fDryRun fl \<longrightarrow> ar_pool r = mp)
        \<and> (\<not> ar_accepted r \<longrightarrow> (ar_pool r = mp \<or> tx_id env tx \<notin> keys (ar_pool r))
             \<and> (if ar_missing r then ar_state r = st else IsInvalid (ar_state r)))"
proof (cases "AcceptToMemoryPool env db_ops fl tx st mp tip")
  case None
  then show ?thesis using AcceptToMemoryPool_sound [OF assms(1,2), of fl st] by simp
next
  case (Some r)
  have o: "mempool_node_sound env (ar_pool r) (ar_tip r)" "outcome_ok env fl tx mp tip r"
    using AcceptToMemoryPool_sound [OF assms(1,2), of fl st] Some by simp_all
  obtain r' unc where w: "AcceptToMemoryPoolWorker env db_ops fl tx st mp tip = Some (r', unc)" "ar_accepted r' = ar_accepted r"
      "ar_missing r' = ar_missing r" "ar_state r' = ar_state r"
    using Some by (auto simp: AcceptToMemoryPool_def split: if_splits)
  have "\<not> ar_accepted r \<longrightarrow> (if ar_missing r then ar_state r = st else IsInvalid (ar_state r))"
    using Worker_told [OF _ w(1)] assms(3) w(2-4) by auto
  then show ?thesis using o Some by (auto simp: outcome_ok_def Let_def split: if_splits)
qed

lemma admit_start_sound: "mempool_node_sound admit_env CTxMemPool_init admit_tip"
proof -
  have "snd (cache_GetBestBlock db_ops admit_tip) = 9"
    by (simp add: cache_GetBestBlock_def admit_tip_def new_cache_def db_ops_def db_GetBestBlock_def)
  then show ?thesis using admit_start_ok deltas_ok_init by (simp add: mempool_node_sound_def admit_env_fields pool_sound_def empty_pool)
qed

theorem AcceptToMemoryPool_keeps_node_witness:
  "\<exists>r. AcceptToMemoryPool admit_env db_ops admit_flags admit_tx CValidationState_init CTxMemPool_init admit_tip = Some r
    \<and> mempool_node_sound admit_env (ar_pool r) (ar_tip r) \<and> cabs db_coins (ar_tip r) = cabs db_coins admit_tip \<and> ar_accepted r"
proof -
  obtain r where r: "AcceptToMemoryPool admit_env db_ops admit_flags admit_tx CValidationState_init CTxMemPool_init admit_tip = Some r" "ar_accepted r"
    using admit_run by blast
  have "mp_totalTxSize CTxMemPool_init + int (length (ser_CTransaction admit_tx)) < 2 ^ 63" "vs_mode CValidationState_init = MODE_VALID"
    by (simp_all add: empty_pool admit_tx_facts CValidationState_init_def)
  from AcceptToMemoryPool_keeps_node [OF admit_start_sound this, of admit_flags] show ?thesis using r by auto
qed

text \<open>C4: What \<open>AcceptToMemoryPool\<close> accepts is in the pool and spends each of its inputs there alone: the inputs are available,
  mature and within the money range in the coins of the chain and the pool, they pay at least the outputs, and their scripts
  verify under the standard flags.  The entries that it conflicts with are gone with all their descendants; each had
  signalled that it may be replaced, and the new transaction pays the fees of all of them and the relay fee for itself.\<close>

theorem AcceptToMemoryPool_admits:
  assumes "mempool_node_ok env mp tip" "mp_totalTxSize mp + int (length (ser_CTransaction tx)) < 2 ^ 63"
    and "AcceptToMemoryPool env db_ops fl tx st mp tip = Some r" "ar_accepted r" "\<not> af_fDryRun fl"
  shows "tx_id env tx \<in> keys (ar_pool r) \<and> me_tx (ent (ar_pool r) (tx_id env tx)) = tx
    \<and> (\<forall>i\<in>set (tx_vin tx). next_tx (ar_pool r) (txin_prevout i) = Some (tx_id env tx))
    \<and> inputs_ok env (pool_coins mp (cabs db_coins tip)) (snd (cache_GetBestBlock db_ops tip)) tx
    \<and> keys (ar_pool r) \<subseteq> insert (tx_id env tx) (keys mp - evicted mp tx)
    \<and> replaces_fairly env mp (pool_coins mp (cabs db_coins tip)) tx"
proof -
  have o: "outcome_ok env fl tx mp tip r" using AcceptToMemoryPool_outcome [OF assms(1,2), of fl st] assms(3) by simp
  then obtain mp2 where m: "admitted env (cabs db_coins tip) tx mp mp2" "trimmed (cy_Hash (ac_crypto env)) mp2 (ar_pool r)"
      "tx_id env tx \<in> keys (ar_pool r)" "inputs_ok env (pool_coins mp (cabs db_coins tip)) (snd (cache_GetBestBlock db_ops tip)) tx"
      "replaces_fairly env mp (pool_coins mp (cabs db_coins tip)) tx"
    using assms(4,5) by (auto simp: outcome_ok_def Let_def split: if_splits)
  have sh: "pool_ok (cy_Hash (ac_crypto env)) (ar_pool r)" "shrunk mp2 (ar_pool r)" using m(2) by (simp_all add: trimmed_def)
  then have s: "static (ent (ar_pool r) (tx_id env tx)) = static (ent mp2 (tx_id env tx))" and k: "keys (ar_pool r) \<subseteq> keys mp2"
    using m(3) unfolding shrunk_def by blast+
  have tx: "me_tx (ent (ar_pool r) (tx_id env tx)) = tx" using staticD(1) [OF s] m(1) by (simp add: admitted_def)
  then have "next_tx (ar_pool r) (txin_prevout i) = Some (tx_id env tx)" if "i \<in> set (tx_vin tx)" for i
    using pool_okD(5) [OF sh(1)] m(3) that by (auto simp: next_ok_def outpoints_def)
  moreover have "keys (ar_pool r) \<subseteq> insert (tx_id env tx) (keys mp - evicted mp tx)" using k m(1) by (simp add: admitted_def)
  ultimately show ?thesis using m(3-5) tx by blast
qed

theorem AcceptToMemoryPool_admits_witness:
  "\<exists>r. AcceptToMemoryPool admit_env db_ops admit_flags admit_tx CValidationState_init CTxMemPool_init admit_tip = Some r
     \<and> keys (ar_pool r) = {60} \<and> me_tx (ent (ar_pool r) 60) = admit_tx \<and> next_tx (ar_pool r) (COutPoint 5 0) = Some 60"
proof -
  obtain r where r: "AcceptToMemoryPool admit_env db_ops admit_flags admit_tx CValidationState_init CTxMemPool_init admit_tip = Some r" "ar_accepted r"
    using admit_run by blast
  have id: "tx_id admit_env admit_tx = 60" by (simp add: tx_id_def admit_env_fields admit_tx_facts)
  have "\<not> af_fDryRun admit_flags" "mp_totalTxSize CTxMemPool_init + int (length (ser_CTransaction admit_tx)) < 2 ^ 63"
    by (simp_all add: admit_flags_def empty_pool admit_tx_facts)
  then show ?thesis using AcceptToMemoryPool_admits [OF admit_start_ok _ r] r(1)
    by (auto simp: id admit_tx_facts mk_CTxIn_def empty_pool)
qed

end
