(* ===== verification/Mempool_Sanity.thy ===== *)
theory Mempool_Sanity
  imports Mempool_Accept
begin

text \<open>
  The consistency check \<open>CTxMemPool::check\<close> of src/src/txmempool.cpp, with all its assertions; \<open>None\<close> is an assertion that fails.

  \<open>pcoins\<close> is a cache over a view with the functions \<open>B\<close>, and \<open>mempoolDuplicate\<close> is a cache over \<open>pcoins\<close>; both fill up as they are
  read.  A pointer to an entry is its txid.
\<close>

text \<open>The loop over the inputs of one entry, with \<open>fDependsWait\<close> and \<open>setParentCheck\<close>.\<close>

fun check_inputs_loop :: "CTxMemPool \<Rightarrow> 'v view_ops \<Rightarrow> txiter \<Rightarrow> 'v CCoinsViewCache \<Rightarrow> CTxIn list \<Rightarrow> bool \<Rightarrow> setEntries \<Rightarrow>
    ('v CCoinsViewCache \<times> bool \<times> setEntries) option" where
  "check_inputs_loop mp B it pcoins [] fDependsWait setParentCheck = Some (pcoins, fDependsWait, setParentCheck)"
| "check_inputs_loop mp B it pcoins (i # is) fDependsWait setParentCheck =
     (let p = txin_prevout i; n = unat (prev_n p) in
      case (case entry mp (prev_hash p) of
              Some e2 \<Rightarrow>
                if n < length (tx_vout (me_tx e2)) \<and> \<not> CTxOut_IsNull (tx_vout (me_tx e2) ! n)
                then Some (pcoins, True, entries_insert (prev_hash p) setParentCheck) else None
            | None \<Rightarrow>
                (case AccessCoins B pcoins (prev_hash p) of
                   (pcoins', None) \<Rightarrow> None
                 | (pcoins', Some coins) \<Rightarrow> if IsAvailable coins n then Some (pcoins', fDependsWait, setParentCheck) else None)) of
        None \<Rightarrow> None
      | Some (pcoins', w, s) \<Rightarrow> if next_tx mp p = Some it then check_inputs_loop mp B it pcoins' is w s else None)"

text \<open>The other assertions on one entry: its links and its totals.\<close>

definition check_links :: "CTxMemPool \<Rightarrow> txiter \<Rightarrow> CTxMemPoolEntry \<Rightarrow> setEntries \<Rightarrow> bool" where
  "check_links mp it e setParentCheck \<longleftrightarrow>
     GetMemPoolParents mp it = Some setParentCheck
     \<and> (let setChildrenCheck = fold (\<lambda>x. entries_insert (snd x)) (outputs_range mp it) [];
            childSizes = sum_list (map (\<lambda>c. me_nTxSize (the (entry mp c))) setChildrenCheck)
        in list_all (exists_tx mp) setChildrenCheck
           \<and> GetMemPoolChildren mp it = Some setChildrenCheck
           \<and> (if \<not> IsDirty e then me_nSizeWithDescendants e \<ge> childSizes + me_nTxSize e
              else me_nSizeWithDescendants e = me_nTxSize e \<and> me_nModFeesWithDescendants e = GetModifiedFee e))"

text \<open>\<open>assert(CheckInputs(tx, state, mempoolDuplicate, false, 0, false, NULL)); UpdateCoins(tx, state, mempoolDuplicate, 1000000)\<close>,
  where \<open>CheckInputs\<close> asks for the height only if the transaction is not a coinbase.\<close>

definition check_spend :: "crypto_env \<Rightarrow> (uint256 \<Rightarrow> CBlockIndex option) \<Rightarrow> 'v view_ops \<Rightarrow> 'v CCoinsViewCache CCoinsViewCache \<Rightarrow> CTransaction \<Rightarrow>
    'v CCoinsViewCache CCoinsViewCache option" where
  "check_spend cy mapBlockIndex B dup tx =
     (case (if IsCoinBase tx then (dup, Some 0) else GetSpendHeight mapBlockIndex (cache_ops B) dup) of
        (dup1, None) \<Rightarrow> None
      | (dup1, Some nSpendHeight) \<Rightarrow>
          (case CheckInputs cy (cache_ops B) dup1 tx CValidationState_init nSpendHeight False 0 False of
             (dup2, None) \<Rightarrow> None
           | (dup2, Some ((ok, st), vChecks)) \<Rightarrow>
               if ok then map_option fst (UpdateCoins (cy_Hash cy) (cache_ops B) dup2 tx [] 1000000) else None))"

text \<open>The loop over the entries in the order of \<open>mapTx\<close>; \<open>waiting\<close> is \<open>waitingOnDependants\<close>.\<close>

fun check_entries :: "crypto_env \<Rightarrow> (uint256 \<Rightarrow> CBlockIndex option) \<Rightarrow> 'v view_ops \<Rightarrow> CTxMemPool \<Rightarrow> (txiter \<times> CTxMemPoolEntry) list \<Rightarrow>
    'v CCoinsViewCache CCoinsViewCache \<Rightarrow> txiter list \<Rightarrow> ('v CCoinsViewCache CCoinsViewCache \<times> txiter list) option" where
  "check_entries cy mapBlockIndex B mp [] dup waiting = Some (dup, waiting)"
| "check_entries cy mapBlockIndex B mp ((it, e) # es) dup waiting =
     (case check_inputs_loop mp B it (cv_base dup) (tx_vin (me_tx e)) False [] of
        None \<Rightarrow> None
      | Some (pcoins, fDependsWait, setParentCheck) \<Rightarrow>
          let dup1 = dup\<lparr> cv_base := pcoins \<rparr> in
          if \<not> check_links mp it e setParentCheck then None
          else if fDependsWait then check_entries cy mapBlockIndex B mp es dup1 (waiting @ [it])
          else (case check_spend cy mapBlockIndex B dup1 (me_tx e) of
                  None \<Rightarrow> None
                | Some dup2 \<Rightarrow> check_entries cy mapBlockIndex B mp es dup2 waiting))"

text \<open>The loop over the entries that wait: an entry whose inputs are not there yet goes to the end of the queue, and the queue
  must not be gone through without success.\<close>

function wait_loop :: "crypto_env \<Rightarrow> (uint256 \<Rightarrow> CBlockIndex option) \<Rightarrow> 'v view_ops \<Rightarrow> CTxMemPool \<Rightarrow> txiter list \<Rightarrow> nat \<Rightarrow>
    'v CCoinsViewCache CCoinsViewCache \<Rightarrow> 'v CCoinsViewCache CCoinsViewCache option" where
  "wait_loop cy mapBlockIndex B mp [] stepsSinceLastRemove dup = Some dup"
| "wait_loop cy mapBlockIndex B mp (it # waiting) stepsSinceLastRemove dup =
     (let tx = me_tx (the (entry mp it)) in
      case HaveInputs (cache_ops B) dup tx of
        (dup1, False) \<Rightarrow>
          if stepsSinceLastRemove + 1 < length (waiting @ [it])
          then wait_loop cy mapBlockIndex B mp (waiting @ [it]) (stepsSinceLastRemove + 1) dup1 else None
      | (dup1, True) \<Rightarrow>
          (case check_spend cy mapBlockIndex B dup1 tx of
             None \<Rightarrow> None
           | Some dup2 \<Rightarrow> wait_loop cy mapBlockIndex B mp waiting 0 dup2))"
  by pat_completeness auto
termination
  by (relation "measures [\<lambda>(cy, M, B, mp, q, s, dup). length q, \<lambda>(cy, M, B, mp, q, s, dup). length q - s]") auto

declare wait_loop.simps(2) [simp del]

text \<open>The assertions after the loops.\<close>

definition check_totals :: "CTxMemPool \<Rightarrow> bool" where
  "check_totals mp \<longleftrightarrow>
     list_all (\<lambda>(p, it). exists_tx mp it) (mp_mapNextTx mp)
     \<and> mp_totalTxSize mp = sum_list (map (\<lambda>(it, e). me_nTxSize e) (mp_mapTx mp))
     \<and> mp_cachedInnerUsage mp
         = sum_list (map (\<lambda>(it, e). me_nUsageSize e + set_usage (lk_parents (links_at mp it)) + set_usage (lk_children (links_at mp it))) (mp_mapTx mp))"

text \<open>\<open>nCheckFrequency\<close> tells how often the check is made, and \<open>r\<close> is the random number; the result is \<open>pcoins\<close> with what was read.\<close>

definition check_mempool :: "crypto_env \<Rightarrow> (uint256 \<Rightarrow> CBlockIndex option) \<Rightarrow> 'v view_ops \<Rightarrow> nat \<Rightarrow> nat \<Rightarrow> CTxMemPool \<Rightarrow> 'v CCoinsViewCache \<Rightarrow>
    'v CCoinsViewCache option" where
  "check_mempool cy mapBlockIndex B nCheckFrequency r mp pcoins =
     (if nCheckFrequency = 0 then Some pcoins
      else if r \<ge> nCheckFrequency then Some pcoins
      else case check_entries cy mapBlockIndex B mp (mp_mapTx mp) (new_cache pcoins) [] of
        None \<Rightarrow> None
      | Some (dup, waiting) \<Rightarrow>
          (case wait_loop cy mapBlockIndex B mp waiting 0 dup of
             None \<Rightarrow> None
           | Some dup' \<Rightarrow> if check_totals mp then Some (cv_base dup') else None))"

end
