(* ===== verification/Mempool_Check.thy ===== *)
theory Mempool_Check
  imports Mempool_Admit Mempool_Sanity
begin

text \<open>
  The consistency check passes on every pool that satisfies the invariant and is sound against the coins of the chain: each
  entry can be spent in the copy of the coins once its parents were, the queue of the waiting entries always holds one whose
  parents are done, and the links and totals are right.
\<close>

subsection \<open>The links and totals\<close>

lemma fold_insert_snd: "ent_ok s \<Longrightarrow> ent_ok (fold (\<lambda>x. entries_insert (f x)) xs s)
    \<and> set (fold (\<lambda>x. entries_insert (f x)) xs s) = set s \<union> f ` set xs"
  by (induction xs arbitrary: s) auto

lemma sum_list_keys:
  assumes "map_ok ser_uint256 (mp_mapTx mp)"
  shows "sum_list (map (\<lambda>(it, e). f it e) (mp_mapTx mp)) = (\<Sum>h\<in>keys mp. f h (ent mp h))"
proof -
  have d: "distinct (map fst (mp_mapTx mp))" using assms by (simp add: map_ok_def)
  have "(case x of (it, e) \<Rightarrow> f it e) = f (fst x) (ent mp (fst x))" if "x \<in> set (mp_mapTx mp)" for x
    using map_of_is_SomeI [OF d, of "fst x" "snd x"] that by (cases x) (simp add: ent_def)
  then have "sum_list (map (\<lambda>(it, e). f it e) (mp_mapTx mp)) = sum_list (map (\<lambda>h. f h (ent mp h)) (map fst (mp_mapTx mp)))"
    by (simp add: comp_def cong: map_cong)
  also have "\<dots> = (\<Sum>h\<in>keys mp. f h (ent mp h))" using sum_list_distinct_conv_sum_set [OF d] by (simp add: keys_def)
  finally show ?thesis .
qed

lemma check_links_ok:
  assumes ok: "pool_ok H mp" and h: "h \<in> keys mp" and S: "ent_ok S" "set S = parent_ids (ent mp h) \<inter> keys mp"
  shows "check_links mp h (ent mp h) S"
proof -
  note i = pool_okD [OF ok]
  let ?C = "fold (\<lambda>x. entries_insert (snd x)) (outputs_range mp h) []"
  have C: "ent_ok ?C" "set ?C = snd ` set (outputs_range mp h)" using fold_insert_snd [of "[]" snd] by auto
  have C_iff: "set ?C = {c. (h, c) \<in> spends mp}"
    unfolding C(2) using outputs_range_iff [OF i(5)] h by (auto simp: spends_def)
  obtain l where l: "mp_mapLinks mp h = Some l" "ent_ok (lk_parents l)" "ent_ok (lk_children l)"
      "set (lk_parents l) = {p. (p, h) \<in> spends mp}" "set (lk_children l) = {c. (h, c) \<in> spends mp}"
    by (rule links_okD [OF i(2) h])
  have par: "lk_parents l = S"
    by (rule ent_ok_eq) (use l S h in \<open>auto simp: spends_def\<close>)
  have chi: "lk_children l = ?C" by (rule ent_ok_eq) (use l C C_iff in auto)
  have "sum_list (map (\<lambda>c. me_nTxSize (the (entry mp c))) ?C) = sum_size mp {c. (h, c) \<in> spends mp}"
    unfolding sum_size_def C_iff [symmetric] ent_def by (rule sum_list_distinct_conv_sum_set [OF ent_ok_distinct [OF C(1)]])
  moreover have "if \<not> IsDirty (ent mp h) then me_nSizeWithDescendants (ent mp h) \<ge> sum_size mp {c. (h, c) \<in> spends mp} + me_nTxSize (ent mp h)
      else me_nSizeWithDescendants (ent mp h) = me_nTxSize (ent mp h) \<and> me_nModFeesWithDescendants (ent mp h) = GetModifiedFee (ent mp h)"
  proof -
    let ?K = "{c. (h, c) \<in> spends mp}"
    have K: "?K \<subseteq> keys mp" "h \<notin> ?K" using spends_keys i(3) by (auto simp: acyclic_def)
    have "sum_size mp (insert h ?K) = me_nTxSize (ent mp h) + sum_size mp ?K"
      unfolding sum_size_def by (rule sum.insert) (use K finite_subset [OF K(1)] in auto)
    moreover have "sum_size mp (insert h ?K) \<le> sum_size mp ((spends mp)\<^sup>* `` {h})"
      by (rule sum_size_mono [OF i(1) _ pool_descendants_keys [OF h]]) auto
    moreover have "totals_of mp ((spends mp)\<^sup>* `` {h}) (ent mp h)" using i(4) h by (simp add: totals_ok_def)
    ultimately show ?thesis by (auto simp: totals_of_def)
  qed
  moreover have "list_all (exists_tx mp) ?C" using C_iff spends_keys by (auto simp: list_all_iff exists_keys)
  ultimately show ?thesis
    unfolding check_links_def Let_def using l(1) par chi by (simp add: GetMemPoolParents_def GetMemPoolChildren_def)
qed

lemma check_totals_ok:
  assumes "pool_ok H mp"
  shows "check_totals mp"
proof -
  note i = pool_okD [OF assms]
  have "list_all (\<lambda>(p, it). exists_tx mp it) (mp_mapNextTx mp)"
  proof -
    have d: "distinct (map fst (mp_mapNextTx mp))" using i(5) by (simp add: next_ok_def map_ok_def)
    have "it \<in> keys mp" if "(p, it) \<in> set (mp_mapNextTx mp)" for p it
      using map_of_is_SomeI [OF d that] i(5) unfolding next_ok_def by blast
    then show ?thesis by (auto simp: list_all_iff exists_keys)
  qed
  moreover have "mp_totalTxSize mp = sum_list (map (\<lambda>(it, e). me_nTxSize e) (mp_mapTx mp))"
    unfolding sum_list_keys [OF i(7)] using i(1) by (simp add: pool_entries_ok_def sum_size_def)
  moreover have "mp_cachedInnerUsage mp
         = sum_list (map (\<lambda>(it, e). me_nUsageSize e + set_usage (lk_parents (links_at mp it)) + set_usage (lk_children (links_at mp it))) (mp_mapTx mp))"
    unfolding sum_list_keys [OF i(7)] using i(6) by (simp add: usage_ok_def links_usage_def add.assoc)
  ultimately show ?thesis by (simp only: check_totals_def)
qed

subsection \<open>Spending on a view\<close>

lemma modify_hash [simp]:
  "cv_hashBlock (end_modify view t e) = cv_hashBlock view" "cv_hashBlock (ModifyNewCoins view t f) = cv_hashBlock view"
  by (simp_all add: ModifyNewCoins_def end_modify_def Let_def)

lemma begin_modify_hash: "begin_modify B view t = (view', e) \<Longrightarrow> cv_hashBlock view' = cv_hashBlock view"
  by (auto simp: begin_modify_def split: option.splits prod.splits)

lemma spend_loop_hash: "spend_loop B view is us = Some (view', us') \<Longrightarrow> cv_hashBlock view' = cv_hashBlock view"
proof (induction "is" arbitrary: view us)
  case (Cons i "is")
  obtain view1 u where s: "spend_input B view i = Some (view1, u)" "spend_loop B view1 is (us @ [u]) = Some (view', us')"
    using Cons.prems by (auto split: option.splits)
  have "cv_hashBlock view1 = cv_hashBlock view"
    using s(1) by (auto simp: spend_input_def Let_def dest!: begin_modify_hash split: prod.splits if_splits)
  then show ?case using Cons.IH [OF s(2)] by simp
qed simp

lemma UpdateCoins_hash: "UpdateCoins H B view tx us h = Some (view', us') \<Longrightarrow> cv_hashBlock view' = cv_hashBlock view"
  by (auto simp: UpdateCoins_def ModifyCoins_def dest: spend_loop_hash begin_modify_hash split: if_splits option.splits prod.splits)

lemma CheckTxInputs_hash: "CheckTxInputs B view tx st h = (view', r) \<Longrightarrow> cv_hashBlock view' = cv_hashBlock view"
proof -
  assume c: "CheckTxInputs B view tx st h = (view', r)"
  have l: "input_values_loop B h st v is n = (v', r') \<Longrightarrow> cv_hashBlock v' = cv_hashBlock v" for v v' "is" n r'
    by (induction "is" arbitrary: v n) (auto simp: Let_def dest!: AccessCoins_hash split: prod.splits option.splits if_splits)
  have h: "HaveInputs B view tx = (v, x) \<Longrightarrow> cv_hashBlock v = cv_hashBlock view" for v x
    by (auto simp: HaveInputs_def dest: have_inputs_loop_hash split: if_splits)
  show ?thesis using c by (auto simp: CheckTxInputs_def dest!: h l split: prod.splits bool.splits option.splits sum.splits)
qed

context coins_reader begin

lemma spend_loop_out:
  "cinv abs inv view \<Longrightarrow> spend_loop B view is us = Some (view', us') \<Longrightarrow>
   cinv abs inv view' \<and> abs (cv_base view') = abs (cv_base view)
   \<and> (\<forall>p. out_at (cabs abs view') p = (if p \<in> txin_prevout ` set is then None else out_at (cabs abs view) p))
   \<and> (\<forall>t. cabs abs view t = None \<longrightarrow> cabs abs view' t = None)"
proof (induction "is" arbitrary: view us)
  case (Cons i "is")
  obtain view1 u where s: "spend_input B view i = Some (view1, u)" "spend_loop B view1 is (us @ [u]) = Some (view', us')"
    using Cons.prems(2) by (auto split: option.splits)
  define t n where "t = prev_hash (txin_prevout i)" and "n = unat (prev_n (txin_prevout i))"
  obtain x where x: "cabs abs view t = Some x" "cinv abs inv view1" "abs (cv_base view1) = abs (cv_base view)"
      "cabs abs view1 = (cabs abs view)(t := live (Some (fst (Spend x n))))"
    using spend_input_spec [OF Cons.prems(1) s(1)] by (auto simp: t_def n_def)
  have eq: "p = txin_prevout i \<longleftrightarrow> prev_hash p = t \<and> unat (prev_n p) = n" for p
    by (cases p; cases "txin_prevout i") (auto simp: t_def n_def word_unat_eq_iff)
  have "out_at (cabs abs view1) p = (if p = txin_prevout i then None else out_at (cabs abs view) p)" for p
    unfolding x(4) out_at_upd coin_at_Spend eq using x(1) by (auto simp: out_at_def)
  moreover have "cabs abs view1 s = None" if "cabs abs view s = None" for s
    using that x(1) by (cases "s = t") (simp_all add: x(4))
  ultimately show ?case using Cons.IH [OF x(2) s(2)] x(3) by auto
qed simp

lemma UpdateCoins_out:
  assumes i: "cinv abs inv view" and nn: "no_null_outs tx" and fresh: "\<not> IsCoinBase tx \<Longrightarrow> abs (cv_base view) (tx_GetHash H tx) = None"
    and u: "UpdateCoins H B view tx us h = Some (view', us')"
  shows "cinv abs inv view' \<and> abs (cv_base view') = abs (cv_base view)
    \<and> (\<forall>p. out_at (cabs abs view') p = (if prev_hash p = tx_GetHash H tx then coin_at (FromTx tx h) (unat (prev_n p))
         else if \<not> IsCoinBase tx \<and> p \<in> txin_prevout ` set (tx_vin tx) then None else out_at (cabs abs view) p))
    \<and> (\<forall>t. t \<noteq> tx_GetHash H tx \<longrightarrow> cabs abs view t = None \<longrightarrow> cabs abs view' t = None)"
proof -
  let ?t = "tx_GetHash H tx"
  note cl = clean_FromTx [OF nn, of h]
  note c0 = clean_plain_nulls [OF cl] Cleanup_clean [OF cl]
  show ?thesis
  proof (cases "IsCoinBase tx")
    case True
    have v: "view' = ModifyCoins B view ?t (\<lambda>_. FromTx tx h)" using u True by (simp add: UpdateCoins_def)
    have m: "cinv abs inv view' \<and> cabs abs view' = (cabs abs view)(?t := live (Some (FromTx tx h)))"
      unfolding v by (rule ModifyCoins_spec [OF i]) (simp add: c0)
    have "abs (cv_base view') = abs (cv_base view)"
      using begin_modify_base [OF i] by (simp add: v ModifyCoins_def split: prod.split)
    moreover have "out_at (cabs abs view') p = (if prev_hash p = ?t then coin_at (FromTx tx h) (unat (prev_n p)) else out_at (cabs abs view) p)" for p
      using conjunct2 [OF m] by (simp only: out_at_upd)
    moreover have "cabs abs view' t = None" if "t \<noteq> ?t" "cabs abs view t = None" for t using m that by simp
    ultimately show ?thesis using m True by simp
  next
    case False
    obtain view1 where s: "spend_loop B view (tx_vin tx) us = Some (view1, us')" and v: "view' = ModifyNewCoins view1 ?t (\<lambda>_. FromTx tx h)"
      using u False by (auto simp: UpdateCoins_def split: option.splits)
    note l = spend_loop_out [OF i s]
    have m: "cinv abs inv view' \<and> cabs abs view' = (cabs abs view1)(?t := live (Some (FromTx tx h)))"
      unfolding v using ModifyNewCoins_spec [of view1 ?t "\<lambda>_. FromTx tx h"] l fresh [OF False] by (simp add: c0)
    have "out_at (cabs abs view') p = (if prev_hash p = ?t then coin_at (FromTx tx h) (unat (prev_n p)) else out_at (cabs abs view1) p)" for p
      using conjunct2 [OF m] by (simp only: out_at_upd)
    moreover have "cabs abs view' t = None" if "t \<noteq> ?t" "cabs abs view t = None" for t using m l that by simp
    moreover have "cv_base view' = cv_base view1" by (simp add: v)
    ultimately show ?thesis using m l False by simp
  qed
qed

end

subsection \<open>The copy of the coins\<close>

text \<open>\<open>pcoins\<close> shows the coins \<open>a\<close> and the best block \<open>b\<close>, and \<open>mempoolDuplicate\<close> lies over it.\<close>

definition tip_is :: "coins_map \<Rightarrow> uint256 \<Rightarrow> CCoinsViewDB CCoinsViewCache \<Rightarrow> bool" where
  "tip_is a b tip \<longleftrightarrow> cinv db_coins db_inv tip \<and> cabs db_coins tip = a \<and> snd (cache_GetBestBlock db_ops tip) = b"

interpretation chk: coins_reader "cache_ops db_ops" "cabs db_coins" "tip_is a b" for a b
proof
  fix v t v' r c h
  show "tip_is a b v \<Longrightarrow> shows_clean (cabs db_coins v)" using tip.abs_clean [of v] by (simp add: tip_is_def)
  show "tip_is a b v \<Longrightarrow> vo_GetCoins (cache_ops db_ops) v t = (v', r) \<Longrightarrow> live r = cabs db_coins v t \<and> cabs db_coins v' = cabs db_coins v"
    using tip.get_abs [of v t v' r] by (simp add: tip_is_def)
  show "tip_is a b v \<Longrightarrow> vo_GetCoins (cache_ops db_ops) v t = (v', r) \<Longrightarrow> tip_is a b v'"
    using tip.get_abs [of v t v' r] tip.get_inv [of v t v' r] best_kept(1) [of v t v']
    by (auto simp: tip_is_def cache_ops_def cache_GetCoins_def split: prod.splits)
  show "tip_is a b v \<Longrightarrow> vo_GetCoins (cache_ops db_ops) v t = (v', Some c) \<Longrightarrow> clean c"
    using tip.get_clean [of v t v' c] by (simp add: tip_is_def)
  show "tip_is a b v \<Longrightarrow> vo_GetBestBlock (cache_ops db_ops) v = (v', h) \<Longrightarrow> tip_is a b v' \<and> cabs db_coins v' = cabs db_coins v"
    using tip.best_abs [of v v' h] best_kept(2) [of v v' h] by (simp add: tip_is_def) (simp add: cache_ops_def)
qed

abbreviation "shown_by dup \<equiv> cabs (cabs db_coins) dup"

definition dup_ok :: "coins_map \<Rightarrow> uint256 \<Rightarrow> CCoinsViewDB CCoinsViewCache CCoinsViewCache \<Rightarrow> bool" where
  "dup_ok a b dup \<longleftrightarrow> cinv (cabs db_coins) (tip_is a b) dup \<and> (cv_hashBlock dup = 0 \<or> cv_hashBlock dup = b)"

lemma dup_ok_tip: "dup_ok a b dup \<Longrightarrow> tip_is a b (cv_base dup)"
  by (simp add: dup_ok_def cinv_def)

lemma dup_ok_new: "tip_is a b tip \<Longrightarrow> dup_ok a b (new_cache tip) \<and> shown_by (new_cache tip) = a"
  by (auto simp: dup_ok_def new_cache_def cinv_def entries_ok_def cabs_def [of "cabs db_coins"] fun_eq_iff tip_is_def)

lemma dup_best:
  assumes "dup_ok a b dup" "cache_GetBestBlock (cache_ops db_ops) dup = (dup1, h)"
  shows "h = b \<and> dup_ok a b dup1 \<and> shown_by dup1 = shown_by dup"
proof -
  have c: "cinv (cabs db_coins) (tip_is a b) dup" using assms(1) by (simp add: dup_ok_def)
  have t: "snd (vo_GetBestBlock (cache_ops db_ops) (cv_base dup)) = b" using dup_ok_tip [OF assms(1)] by (simp add: tip_is_def cache_ops_def)
  have "h = b \<and> cv_hashBlock dup1 = b"
    using assms(1) assms(2)[unfolded cache_GetBestBlock_def [of "cache_ops db_ops"]] t
    by (cases "cv_hashBlock dup = 0") (auto simp: dup_ok_def Let_def split: prod.splits)
  then show ?thesis using chk.GetBestBlock_shown [OF c assms(2)] by (simp add: dup_ok_def same_shown_def)
qed

lemma check_spend_ok:
  assumes d: "dup_ok a b dup" and p: "M b = Some p" and tx: "\<not> IsCoinBase tx" "distinct (map txin_prevout (tx_vin tx))" "no_null_outs tx"
    and pay: "GetValueOut tx = Inr vo" "inputs_pay (shown_by dup) (height p + 1) tx vo" and fresh: "a (tx_GetHash (cy_Hash cy) tx) = None"
  obtains dup' where "check_spend cy M db_ops dup tx = Some dup'" "dup_ok a b dup'"
    "\<And>q. out_at (shown_by dup') q = (if prev_hash q = tx_GetHash (cy_Hash cy) tx then coin_at (FromTx tx 1000000) (unat (prev_n q))
       else if q \<in> txin_prevout ` set (tx_vin tx) then None else out_at (shown_by dup) q)"
proof -
  let ?B = "cache_ops db_ops"
  obtain dup1 x where 1: "cache_GetBestBlock ?B dup = (dup1, x)" by fastforce
  note b = dup_best [OF d 1]
  have h: "GetSpendHeight M ?B dup = (dup1, Some (height p + 1))" using b p by (simp add: GetSpendHeight_def 1)
  have c1: "cinv (cabs db_coins) (tip_is a b) dup1" using b by (simp add: dup_ok_def)
  obtain dup2 r where 2: "CheckTxInputs ?B dup1 tx CValidationState_init (height p + 1) = (dup2, r)" by fastforce
  have r: "r = Some (True, CValidationState_init)" using chk.CheckTxInputs_spec [OF c1 tx(1) pay(1) 2] pay(2) b by simp
  have c2: "cinv (cabs db_coins) (tip_is a b) dup2" "shown_by dup2 = shown_by dup"
    using chk.CheckTxInputs_shown [OF c1 2] b by (simp_all add: same_shown_def)
  obtain dup3 us where 3: "UpdateCoins (cy_Hash cy) ?B dup2 tx [] 1000000 = Some (dup3, us)"
    using chk.CheckTxInputs_spendable [OF c1 tx(1,2) 2 [unfolded r], of "cy_Hash cy" "[]" 1000000] by fastforce
  have "cabs db_coins (cv_base dup2) = a" using c2(1) by (simp add: cinv_def tip_is_def)
  then have f: "cabs db_coins (cv_base dup2) (tx_GetHash (cy_Hash cy) tx) = None" using fresh by simp
  note u = chk.UpdateCoins_out [OF c2(1) tx(3) f 3]
  have "cv_hashBlock dup3 = cv_hashBlock dup1" using UpdateCoins_hash [OF 3] CheckTxInputs_hash [OF 2] by simp
  then have "dup_ok a b dup3" using u b by (simp add: dup_ok_def)
  moreover have "check_spend cy M db_ops dup tx = Some dup3" by (simp add: check_spend_def tx(1) h CheckInputs_def 2 r 3)
  ultimately show thesis using u c2(2) tx(1) by (intro that [of dup3]) simp_all
qed

subsection \<open>The inputs of an entry\<close>

lemma AccessCoins_best: "AccessCoins db_ops t h = (t1, r) \<Longrightarrow> snd (cache_GetBestBlock db_ops t1) = snd (cache_GetBestBlock db_ops t)"
  using best_kept(1) [of t h] by (auto simp: AccessCoins_def split: prod.splits option.splits)

lemma check_inputs_loop_ok:
  assumes "\<And>p. p \<in> txin_prevout ` set is \<Longrightarrow> next_tx mp p = Some k \<and> out_at (pool_coins mp a) p \<noteq> None"
  shows "tip_is a b t \<Longrightarrow> ent_ok S \<Longrightarrow> \<exists>t' S'. tip_is a b t' \<and> ent_ok S'
      \<and> set S' = set S \<union> prev_hash ` txin_prevout ` set is \<inter> keys mp
      \<and> check_inputs_loop mp db_ops k t is w S = Some (t', w \<or> prev_hash ` txin_prevout ` set is \<inter> keys mp \<noteq> {}, S')"
  using assms
proof (induction "is" arbitrary: t w S)
  case (Cons i "is")
  define h where "h = prev_hash (txin_prevout i)"
  have i: "next_tx mp (txin_prevout i) = Some k" "out_at (pool_coins mp a) (txin_prevout i) \<noteq> None" using Cons.prems(3) by simp_all
  have rest: "\<And>p. p \<in> txin_prevout ` set is \<Longrightarrow> next_tx mp p = Some k \<and> out_at (pool_coins mp a) p \<noteq> None" using Cons.prems(3) by simp
  show ?case
  proof (cases "h \<in> keys mp")
    case True
    have e: "entry mp h = Some (ent mp h)" using True by (rule entry_ent)
    have "unat (prev_n (txin_prevout i)) < length (tx_vout (me_tx (ent mp h))) \<and> \<not> CTxOut_IsNull (tx_vout (me_tx (ent mp h)) ! unat (prev_n (txin_prevout i)))"
      using i(2) True by (intro coin_at_exists [of _ MEMPOOL_HEIGHT]) (simp add: out_at_pool h_def)
    then show ?thesis using Cons.IH [of t "entries_insert h S" True] Cons.prems(1,2) rest True i(1) e
      by (auto simp: Let_def h_def)
  next
    case False
    have e: "entry mp h = None" using False keys_entry by (cases "entry mp h") auto
    obtain t1 r where r: "AccessCoins db_ops t h = (t1, r)" by fastforce
    have c: "cinv db_coins db_inv t" "cabs db_coins t = a" using Cons.prems(1) by (simp_all add: tip_is_def)
    note s = db.AccessCoins_shown [OF c(1) r]
    have "out_at a (txin_prevout i) \<noteq> None" using i(2) False by (simp add: out_at_pool h_def)
    then obtain c where c': "a h = Some c" "IsAvailable c (unat (prev_n (txin_prevout i)))"
      by (auto simp: out_at_def h_def coin_at_def split: option.splits if_splits)
    have "r = Some c" using s c' c(2) by (auto split: option.splits if_splits)
    moreover have "tip_is a b t1" using s Cons.prems(1) AccessCoins_best [OF r] by (simp add: tip_is_def same_shown_def)
    ultimately show ?thesis using Cons.IH [of t1 S w] Cons.prems(2) rest False i(1) e r c'(2)
      by (auto simp: Let_def h_def)
  qed
qed auto

subsection \<open>The entries already spent\<close>

text \<open>\<open>S\<close> are the entries already spent in the copy: it shows their outputs and not their inputs.\<close>

definition checked_coins :: "CTxMemPool \<Rightarrow> coins_map \<Rightarrow> txiter set \<Rightarrow> coins_map \<Rightarrow> bool" where
  "checked_coins mp a S c \<longleftrightarrow> S \<subseteq> keys mp \<and> (\<forall>k\<in>S. parent_ids (ent mp k) \<inter> keys mp \<subseteq> S)
     \<and> (\<forall>p. out_at c p = (if prev_hash p \<in> keys mp - S \<or> (\<exists>k\<in>S. p \<in> outpoints (ent mp k)) then None else out_at (pool_coins mp a) p))"

lemma checked_start: "pool_sound a h mp \<Longrightarrow> checked_coins mp a {} a"
  by (auto simp: checked_coins_def out_at_pool pool_sound_def) (auto simp: out_at_def pool_sound_def)

text \<open>What the consistency check relies on.\<close>

definition checkable :: "crypto_env \<Rightarrow> (uint256 \<Rightarrow> CBlockIndex option) \<Rightarrow> coins_map \<Rightarrow> uint256 \<Rightarrow> CTxMemPool \<Rightarrow> bool" where
  "checkable cy M a b mp \<longleftrightarrow> pool_ok (cy_Hash cy) mp \<and> pool_storable mp \<and> (\<exists>p. M b = Some p \<and> pool_sound a (height p + 1) mp)"

lemma checkableE:
  assumes "checkable cy M a b mp"
  obtains p where "pool_ok (cy_Hash cy) mp" "pool_storable mp" "M b = Some p" "pool_sound a (height p + 1) mp"
  using assms by (auto simp: checkable_def)

lemma checked_spendable:
  assumes c: "checkable cy M a b mp" and S: "checked_coins mp a S c" and k: "k \<in> keys mp - S" and p: "p \<in> outpoints (ent mp k)"
  shows "out_at (pool_coins mp a) p \<noteq> None" "out_at c p = (if prev_hash p \<in> keys mp - S then None else out_at (pool_coins mp a) p)"
proof -
  obtain q where q: "pool_ok (cy_Hash cy) mp" "pool_sound a (height q + 1) mp" using c by (rule checkableE)
  show "out_at (pool_coins mp a) p \<noteq> None"
    using tx_sound_inputs [OF pool_sound_tx [OF q(2)]] k p by (auto simp: outpoints_def)
  have "p \<notin> outpoints (ent mp j)" if "j \<in> S" for j
  proof
    assume "p \<in> outpoints (ent mp j)"
    then have "next_tx mp p = Some j" "next_tx mp p = Some k"
      using pool_okD(5) [OF q(1)] k p that S by (auto simp: next_ok_def checked_coins_def)
    then show False using k that by simp
  qed
  then show "out_at c p = (if prev_hash p \<in> keys mp - S then None else out_at (pool_coins mp a) p)"
    using S by (simp add: checked_coins_def)
qed

lemma have_inputs_checked:
  assumes c: "checkable cy M a b mp" and S: "checked_coins mp a S (shown_by dup)" and k: "k \<in> keys mp - S"
    and d: "dup_ok a b dup" and h: "HaveInputs (cache_ops db_ops) dup (me_tx (ent mp k)) = (dup1, r)"
  shows "dup_ok a b dup1" "shown_by dup1 = shown_by dup" "r \<longleftrightarrow> parent_ids (ent mp k) \<inter> keys mp \<subseteq> S"
proof -
  obtain q where q: "pool_sound a (height q + 1) mp" using c by (rule checkableE)
  have nc: "\<not> IsCoinBase (me_tx (ent mp k))" using q k by (auto simp: pool_sound_def tx_sound_def)
  have l: "have_inputs_loop (cache_ops db_ops) dup (tx_vin (me_tx (ent mp k))) = (dup1, r)" using h nc by (simp add: HaveInputs_def)
  have ci: "cinv (cabs db_coins) (tip_is a b) dup" using d by (simp add: dup_ok_def)
  note s = chk.have_inputs_loop_shown [OF ci l]
  show "shown_by dup1 = shown_by dup" using s by (simp add: same_shown_def)
  show "dup_ok a b dup1" using s d have_inputs_loop_hash [OF l] by (simp add: same_shown_def dup_ok_def)
  have "r \<longleftrightarrow> (\<forall>i\<in>set (tx_vin (me_tx (ent mp k))). in_available (shown_by dup) i)" using s by (simp add: in_available_def)
  also have "\<dots> \<longleftrightarrow> (\<forall>p\<in>outpoints (ent mp k). out_at (shown_by dup) p \<noteq> None)" by (simp add: outpoints_def out_at_available)
  also have "\<dots> \<longleftrightarrow> (\<forall>p\<in>outpoints (ent mp k). prev_hash p \<notin> keys mp - S)"
    using checked_spendable [OF c S k] by auto
  finally show "r \<longleftrightarrow> parent_ids (ent mp k) \<inter> keys mp \<subseteq> S" by (auto simp: parent_ids_def)
qed

lemma checked_step:
  assumes c: "checkable cy M a b mp" and S: "checked_coins mp a S (shown_by dup)" and k: "k \<in> keys mp - S"
    and d: "dup_ok a b dup" and ready: "parent_ids (ent mp k) \<inter> keys mp \<subseteq> S"
  shows "\<exists>dup'. check_spend cy M db_ops dup (me_tx (ent mp k)) = Some dup' \<and> dup_ok a b dup' \<and> checked_coins mp a (insert k S) (shown_by dup')"
proof -
  let ?tx = "me_tx (ent mp k)"
  obtain q where q: "pool_ok (cy_Hash cy) mp" "pool_storable mp" "M b = Some q" "pool_sound a (height q + 1) mp" using c by (rule checkableE)
  have kk: "k \<in> keys mp" "k \<notin> S" using k by auto
  have id: "tx_GetHash (cy_Hash cy) ?tx = k" using pool_okD(1) [OF q(1)] kk by (simp add: pool_entries_ok_def)
  obtain vo where t: "\<not> IsCoinBase ?tx" "distinct (map txin_prevout (tx_vin ?tx))" "GetValueOut ?tx = Inr vo"
      "inputs_pay (pool_coins mp a) (height q + 1) ?tx vo" "a k = None"
    using q(4) kk by (auto simp: pool_sound_def tx_sound_def)
  have pay: "inputs_pay (shown_by dup) (height q + 1) ?tx vo"
  proof (rule inputs_pay_cong [OF t(4) _ order_refl])
    fix p assume "p \<in> txin_prevout ` set (tx_vin ?tx)"
    then have p: "p \<in> outpoints (ent mp k)" by (simp add: outpoints_def)
    then have "prev_hash p \<notin> keys mp - S" using ready by (auto simp: parent_ids_def)
    then show "out_at (shown_by dup) p = out_at (pool_coins mp a) p" using checked_spendable(2) [OF c S k p] by auto
  qed
  have nn: "no_null_outs ?tx" using q(2) kk by (simp add: pool_storable_def)
  have fr: "a (tx_GetHash (cy_Hash cy) ?tx) = None" using t(5) id by simp
  obtain dup' where d': "check_spend cy M db_ops dup ?tx = Some dup'" "dup_ok a b dup'"
      "\<And>p. out_at (shown_by dup') p = (if prev_hash p = k then coin_at (FromTx ?tx 1000000) (unat (prev_n p))
         else if p \<in> outpoints (ent mp k) then None else out_at (shown_by dup) p)"
    by (rule check_spend_ok [where a = a and b = b and M = M and p = q and cy = cy, OF d q(3) t(1,2) nn t(3) pay fr, unfolded id outpoints_def [symmetric]]) blast
  have par: "k \<notin> parent_ids (ent mp j)" if "j \<in> insert k S" for j
  proof
    assume p: "k \<in> parent_ids (ent mp j)"
    show False
    proof (cases "j = k")
      case True
      then have "(k, k) \<in> spends mp" using p kk by (simp add: spends_def)
      then show False using pool_okD(3) [OF q(1)] by (auto simp: acyclic_def)
    next
      case False
      then show False using p that S kk by (auto simp: checked_coins_def)
    qed
  qed
  have "out_at (shown_by dup') p = (if prev_hash p \<in> keys mp - insert k S \<or> (\<exists>j\<in>insert k S. p \<in> outpoints (ent mp j)) then None
      else out_at (pool_coins mp a) p)" for p
  proof (cases "prev_hash p = k")
    case True
    then have "\<not> (\<exists>j\<in>insert k S. p \<in> outpoints (ent mp j))" using par by (auto simp: parent_ids_def)
    then show ?thesis using True kk(1) coin_at_FromTx [OF t(1), of 1000000 _ MEMPOOL_HEIGHT] by (simp add: d'(3) out_at_pool)
  next
    case False
    have "out_at (shown_by dup) p = (if prev_hash p \<in> keys mp - S \<or> (\<exists>j\<in>S. p \<in> outpoints (ent mp j)) then None else out_at (pool_coins mp a) p)"
      using S unfolding checked_coins_def by blast
    then show ?thesis using False by (auto simp: d'(3))
  qed
  then have "checked_coins mp a (insert k S) (shown_by dup')" using S ready kk(1) by (auto simp: checked_coins_def)
  then show ?thesis using d' by blast
qed

subsection \<open>The loops\<close>

lemma check_entries_ok:
  assumes c: "checkable cy M a b mp"
  shows "checked_coins mp a S (shown_by dup) \<Longrightarrow> dup_ok a b dup \<Longrightarrow> distinct (map fst es @ W) \<Longrightarrow> (fst ` set es \<union> set W) \<inter> S = {}
    \<Longrightarrow> (\<And>k e. (k, e) \<in> set es \<Longrightarrow> k \<in> keys mp \<and> e = ent mp k)
    \<Longrightarrow> \<exists>S' dup' W'. check_entries cy M db_ops mp es dup W = Some (dup', W') \<and> checked_coins mp a S' (shown_by dup') \<and> dup_ok a b dup'
        \<and> distinct W' \<and> set W' \<inter> S' = {} \<and> set W' \<union> S' = fst ` set es \<union> set W \<union> S"
proof (induction es arbitrary: S dup W)
  case (Cons x es)
  obtain k e where x: "x = (k, e)" by (cases x)
  have k: "k \<in> keys mp" "e = ent mp k" "k \<notin> S" "k \<notin> set W" using Cons.prems(3-5) x by auto
  obtain q where q: "pool_ok (cy_Hash cy) mp" "pool_sound a (height q + 1) mp" using c by (rule checkableE)
  note S = Cons.prems(1) and d = Cons.prems(2)
  have kS: "k \<in> keys mp - S" using k by simp
  have nx: "next_tx mp p = Some k" if "p \<in> outpoints e" for p using pool_okD(5) [OF q(1)] k(1,2) that by (simp add: next_ok_def)
  obtain t P where i: "tip_is a b t" "ent_ok P" "set P = parent_ids e \<inter> keys mp"
      "check_inputs_loop mp db_ops k (cv_base dup) (tx_vin (me_tx e)) False [] = Some (t, parent_ids e \<inter> keys mp \<noteq> {}, P)"
    using check_inputs_loop_ok [of "tx_vin (me_tx e)" mp k a b "cv_base dup" "[]" False] dup_ok_tip [OF d] nx checked_spendable(1) [OF c S kS] k(2)
    by (auto simp: outpoints_def parent_ids_def)
  let ?dup = "dup\<lparr>cv_base := t\<rparr>"
  have ci: "cinv (cabs db_coins) (tip_is a b) dup" "cabs db_coins (cv_base dup) = a" using d dup_ok_tip [OF d] by (simp_all add: dup_ok_def tip_is_def)
  have "cinv (cabs db_coins) (tip_is a b) ?dup \<and> shown_by ?dup = shown_by dup"
    using chk.base_step [OF ci(1) i(1)] i(1) ci(2) by (simp add: tip_is_def)
  then have d1: "dup_ok a b ?dup" "shown_by ?dup = shown_by dup" using d by (cases dup, simp_all add: dup_ok_def)
  have l: "check_links mp k e P" unfolding k(2) by (rule check_links_ok [OF q(1) k(1) i(2)]) (use i(3) k(2) in simp)
  note rest = Cons.prems(3-5) [unfolded x]
  show ?case
  proof (cases "parent_ids e \<inter> keys mp = {}")
    case False
    have "\<exists>S' dup' W'. check_entries cy M db_ops mp es ?dup (W @ [k]) = Some (dup', W') \<and> checked_coins mp a S' (shown_by dup') \<and> dup_ok a b dup'
        \<and> distinct W' \<and> set W' \<inter> S' = {} \<and> set W' \<union> S' = fst ` set es \<union> set (W @ [k]) \<union> S"
      by (rule Cons.IH) (use S d1 rest in auto)
    then show ?thesis using False by (auto simp: x i(4) Let_def l)
  next
    case True
    have "parent_ids (ent mp k) \<inter> keys mp \<subseteq> S" using True k(2) by simp
    from checked_step [OF c _ kS d1(1) this] obtain dup2 where d2: "check_spend cy M db_ops ?dup (me_tx e) = Some dup2" "dup_ok a b dup2"
        "checked_coins mp a (insert k S) (shown_by dup2)" using S d1(2) k(2) by metis
    have "\<exists>S' dup' W'. check_entries cy M db_ops mp es dup2 W = Some (dup', W') \<and> checked_coins mp a S' (shown_by dup') \<and> dup_ok a b dup'
        \<and> distinct W' \<and> set W' \<inter> S' = {} \<and> set W' \<union> S' = fst ` set es \<union> set W \<union> insert k S"
      by (rule Cons.IH [OF d2(3,2)]) (use rest in auto)
    then show ?thesis using True d2(1) by (auto simp: x i(4) Let_def l)
  qed
qed auto

text \<open>The last \<open>s\<close> entries of the queue were looked at since the last removal and are not ready; one of the queue is.\<close>

lemma ready_exists:
  assumes "acyclic (spends mp)" "finite (spends mp)" "W \<noteq> {}" "W = keys mp - S"
  shows "\<exists>k\<in>W. parent_ids (ent mp k) \<inter> keys mp \<subseteq> S"
proof -
  obtain k where k: "k \<in> W" "\<And>y. (y, k) \<in> spends mp \<Longrightarrow> y \<notin> W"
    using wfE_min [OF finite_acyclic_wf [OF assms(2,1)]] assms(3) by (metis ex_in_conv)
  have "parent_ids (ent mp k) \<inter> keys mp \<subseteq> S" using k assms(4) by (auto simp: spends_def)
  then show ?thesis using k(1) by blast
qed

lemma finite_spends: "finite (spends mp)"
proof -
  have "spends mp \<subseteq> keys mp \<times> keys mp" by (auto simp: spends_def)
  then show ?thesis by (rule finite_subset) (simp add: keys_def)
qed

lemma wait_loop_ok:
  assumes c: "checkable cy M a b mp"
  shows "checked_coins mp a S (shown_by dup) \<Longrightarrow> dup_ok a b dup \<Longrightarrow> distinct q \<Longrightarrow> set q = keys mp - S \<Longrightarrow> q = q1 @ q2 \<Longrightarrow> length q2 = s
    \<Longrightarrow> (\<And>k. k \<in> set q2 \<Longrightarrow> \<not> parent_ids (ent mp k) \<inter> keys mp \<subseteq> S)
    \<Longrightarrow> \<exists>dup'. wait_loop cy M db_ops mp q s dup = Some dup' \<and> dup_ok a b dup'"
proof (induction "length q * (length q + 1) + length q1" arbitrary: S dup q q1 q2 s rule: less_induct)
  case less
  obtain p where ok: "pool_ok (cy_Hash cy) mp" using c by (rule checkableE)
  note S = less.prems(1) and d = less.prems(2)
  show ?case
  proof (cases q)
    case Nil
    then show ?thesis using d by simp
  next
    case (Cons k q')
    obtain y where y: "y \<in> set q" "parent_ids (ent mp y) \<inter> keys mp \<subseteq> S"
      using ready_exists [OF pool_okD(3) [OF ok] finite_spends _ less.prems(4)] Cons by auto
    have y1: "y \<in> set q1" using y less.prems(5,7) by auto
    then obtain r where r: "q1 = k # r" using less.prems(5) Cons by (cases q1) auto
    have k: "k \<in> keys mp - S" using less.prems(4) Cons by auto
    have kent: "the (entry mp k) = ent mp k" by (simp add: ent_def)
    obtain dup1 h where h: "HaveInputs (cache_ops db_ops) dup (me_tx (ent mp k)) = (dup1, h)" by fastforce
    note hc = have_inputs_checked [OF c S k d h]
    show ?thesis
    proof (cases h)
      case True
      have rd: "parent_ids (ent mp k) \<inter> keys mp \<subseteq> S" using True hc(3) by simp
      obtain dup2 where d2: "check_spend cy M db_ops dup1 (me_tx (ent mp k)) = Some dup2" "dup_ok a b dup2"
          "checked_coins mp a (insert k S) (shown_by dup2)"
        using checked_step [OF c _ k hc(1) rd] S hc(2) by metis
      have "\<exists>dup'. wait_loop cy M db_ops mp q' 0 dup2 = Some dup' \<and> dup_ok a b dup'"
        by (rule less.hyps [of q' q' "insert k S" dup2 "[]" 0]) (use less.prems(3,4) Cons d2(2,3) in auto)
      then show ?thesis using True h d2(1) by (simp add: Cons wait_loop.simps(2) kent)
    next
      case False
      have nr: "\<not> parent_ids (ent mp k) \<inter> keys mp \<subseteq> S" using False hc(3) by simp
      then have "r \<noteq> []" using y y1 r by auto
      then have st: "s + 1 < length (q' @ [k])" using less.prems(5,6) Cons r by (cases r) auto
      have "\<exists>dup'. wait_loop cy M db_ops mp (q' @ [k]) (s + 1) dup1 = Some dup' \<and> dup_ok a b dup'"
        by (rule less.hyps [of "q' @ [k]" r S dup1 "q2 @ [k]" "s + 1"])
          (use less.prems(3-7) Cons r hc(1,2) S nr in auto)
      then show ?thesis using False h st by (simp add: Cons wait_loop.simps(2) kent)
    qed
  qed
qed

text \<open>The whole check passes and reads \<open>pcoins\<close> only.\<close>

lemma check_mempool_ok:
  assumes c: "checkable cy M a b mp" and t: "tip_is a b tip"
  shows "\<exists>tip'. check_mempool cy M db_ops f r mp tip = Some tip' \<and> tip_is a b tip'"
proof -
  obtain p where ok: "pool_ok (cy_Hash cy) mp" "pool_sound a (height p + 1) mp" using c by (rule checkableE)
  have dist: "distinct (map fst (mp_mapTx mp))" using pool_okD(7) [OF ok(1)] by (simp add: map_ok_def)
  have e: "k \<in> keys mp \<and> e = ent mp k" if "(k, e) \<in> set (mp_mapTx mp)" for k e
    using map_of_is_SomeI [OF dist that] that by (force simp: keys_def ent_def)
  have S: "checked_coins mp a {} (shown_by (new_cache tip))" "dup_ok a b (new_cache tip)"
    using checked_start [OF ok(2)] dup_ok_new [OF t] by simp_all
  obtain S' dup W where w: "check_entries cy M db_ops mp (mp_mapTx mp) (new_cache tip) [] = Some (dup, W)"
      "checked_coins mp a S' (shown_by dup)" "dup_ok a b dup" "distinct W" "set W \<inter> S' = {}" "set W \<union> S' = keys mp"
    using check_entries_ok [OF c S, of "mp_mapTx mp" "[]"] dist e by (auto simp: keys_def)
  have W: "set W = keys mp - S'" using w(5,6) by blast
  obtain dup' where d: "wait_loop cy M db_ops mp W 0 dup = Some dup'" "dup_ok a b dup'"
    using wait_loop_ok [OF c w(2,3,4) W, of W "[]" 0] by auto
  show ?thesis using w(1) d(1) check_totals_ok [OF ok(1)] dup_ok_tip [OF d(2)] t by (simp add: check_mempool_def)
qed

end
