(* ===== verification/Mempool_Node.thy ===== *)
theory Mempool_Node
  imports Mempool_Check
begin

text \<open>
  The pool beside the active chain: blocks are connected to the coins and taken from the pool, transactions are accepted, limits are
  enforced and priorities changed.  In all states that the node can get to the consistency check passes and no operation fails.
\<close>

subsection \<open>The outputs after a block\<close>

definition block_spent :: "CTransaction list \<Rightarrow> COutPoint set" where
  "block_spent vtx = (\<Union>tx\<in>set vtx. txin_prevout ` set (tx_vin tx))"

text \<open>What the coins show after a block, at the outpoints that the block does not spend.\<close>

definition coins_after :: "(byte list \<Rightarrow> uint256) \<Rightarrow> int \<Rightarrow> CTransaction list \<Rightarrow> coins_map \<Rightarrow> coins_map \<Rightarrow> bool" where
  "coins_after H h vtx a a' \<longleftrightarrow>
     (\<forall>t. t \<notin> tx_GetHash H ` set vtx \<longrightarrow> a t = None \<longrightarrow> a' t = None)
     \<and> (\<forall>p. p \<notin> block_spent vtx \<longrightarrow> prev_hash p \<notin> tx_GetHash H ` set vtx \<longrightarrow> out_at a' p = out_at a p)
     \<and> (\<forall>tx\<in>set vtx. \<forall>p. p \<notin> block_spent vtx \<longrightarrow> prev_hash p = tx_GetHash H tx \<longrightarrow> out_at a' p = coin_at (FromTx tx h) (unat (prev_n p)))"

context coins_reader begin

lemma connect_inputs_available:
  assumes i: "cinv abs inv (cn_view cn)" and c: "connect_inputs cx B st tx cn = Inr cn'" and nc: "\<not> IsCoinBase tx"
  shows "\<forall>i\<in>set (tx_vin tx). cabs abs (cn_view cn) (prev_hash (txin_prevout i)) \<noteq> None"
proof -
  obtain view b where h: "HaveInputs B (cn_view cn) tx = (view, b)" by fastforce
  have b using c by (rule contrapos_pp) (simp add: connect_inputs_def h)
  then have "have_inputs_loop B (cn_view cn) (tx_vin tx) = (view, True)" using h nc by (simp add: HaveInputs_def)
  then show ?thesis using have_inputs_loop_shown [OF i] by fastforce
qed

lemma connect_tx_available:
  assumes "cinv abs inv (cn_view cn)" "connect_tx cx B st first tx cn = Inr cn'" "\<not> IsCoinBase tx"
  shows "\<forall>i\<in>set (tx_vin tx). cabs abs (cn_view cn) (prev_hash (txin_prevout i)) \<noteq> None"
proof -
  obtain cn2 where "connect_inputs cx B st tx (cn\<lparr> cn_nSigOps := cn_nSigOps cn + GetLegacySigOpCount tx \<rparr>) = Inr cn2"
    using assms(2,3) by (auto simp: connect_tx_def Let_def bindE_Inr_iff split: if_splits)
  from connect_inputs_available [OF _ this assms(3)] show ?thesis using assms(1) by simp
qed

lemma connect_loop_out:
  "cinv abs inv (cn_view cn) \<Longrightarrow> \<forall>tx\<in>set vtx. no_null_outs tx \<Longrightarrow>
   fresh_ids (cy_Hash (cx_crypto cx)) (cabs abs (cn_view cn)) (abs (cv_base (cn_view cn))) vtx \<Longrightarrow>
   \<forall>k\<in>K. cabs abs (cn_view cn) k = None \<Longrightarrow>
   \<forall>tx\<in>set vtx. IsCoinBase tx \<longrightarrow> (\<forall>i\<in>set (tx_vin tx). prev_hash (txin_prevout i) \<notin> K) \<Longrightarrow>
   connect_loop cx B st first vtx cn = Inr cn' \<Longrightarrow>
   cinv abs inv (cn_view cn') \<and> block_ordered (cy_Hash (cx_crypto cx)) K vtx
   \<and> coins_after (cy_Hash (cx_crypto cx)) (height (cx_pindex cx)) vtx (cabs abs (cn_view cn)) (cabs abs (cn_view cn'))"
proof (induction vtx arbitrary: first cn K)
  case (Cons tx vtx)
  let ?H = "cy_Hash (cx_crypto cx)" and ?h = "height (cx_pindex cx)" and ?a = "cabs abs (cn_view cn)"
  obtain cn1 where 1: "connect_tx cx B st first tx cn = Inr cn1" "connect_loop cx B st False vtx cn1 = Inr cn'"
    using Cons.prems(6) by (auto simp: bindE_Inr_iff)
  obtain view us where s: "shown (cn_view cn) view" and u: "UpdateCoins ?H B view tx [] ?h = Some (cn_view cn1, us)"
    by (rule connect_tx_update [OF Cons.prems(1) 1(1)])
  have sv: "cinv abs inv view" "cabs abs view = ?a" "abs (cv_base view) = abs (cv_base (cn_view cn))"
    using s by (simp_all add: same_shown_def)
  have nn: "no_null_outs tx" using Cons.prems(2) by simp
  have fr: "abs (cv_base view) (tx_GetHash ?H tx) = None" using Cons.prems(3) by (simp add: fresh_ids_def sv)
  note U = UpdateCoins_out [OF sv(1) nn fr u]
  let ?b = "cabs abs (cn_view cn1)"
  have keep: "?b t = None" if "t \<noteq> tx_GetHash ?H tx" "?a t = None" for t using U that sv(2) by simp
  have out: "out_at ?b p = (if prev_hash p = tx_GetHash ?H tx then coin_at (FromTx tx ?h) (unat (prev_n p)) else out_at ?a p)"
    if "p \<notin> txin_prevout ` set (tx_vin tx)" for p using U that sv(2) by simp
  have dist: "tx_GetHash ?H y \<noteq> tx_GetHash ?H tx" if "y \<in> set vtx" for y
    using Cons.prems(3) that by (metis fresh_ids_def distinct.simps(2) image_eqI list.set_map list.simps(9))
  have b1: "abs (cv_base (cn_view cn1)) = abs (cv_base (cn_view cn))" using U sv(3) by simp
  have fr1: "fresh_ids ?H ?b (abs (cv_base (cn_view cn1))) vtx" using Cons.prems(3) dist keep unfolding fresh_ids_def b1 by simp
  have IH: "cinv abs inv (cn_view cn') \<and> block_ordered ?H (K - {tx_GetHash ?H tx}) vtx \<and> coins_after ?H ?h vtx ?b (cabs abs (cn_view cn'))"
    by (rule Cons.IH [OF _ _ fr1 _ _ 1(2)]) (use U Cons.prems(2,4,5) keep in auto)
  have "\<forall>i\<in>set (tx_vin tx). prev_hash (txin_prevout i) \<notin> K"
    using connect_tx_available [OF Cons.prems(1) 1(1)] Cons.prems(4,5) by (cases "IsCoinBase tx") auto
  moreover have "coins_after ?H ?h (tx # vtx) ?a (cabs abs (cn_view cn'))"
    unfolding coins_after_def
  proof (intro conjI allI ballI impI)
    note I = conjunct2 [OF conjunct2 [OF IH], unfolded coins_after_def]
    show "cabs abs (cn_view cn') t = None" if "t \<notin> tx_GetHash ?H ` set (tx # vtx)" "?a t = None" for t using I keep that by auto
    show "out_at (cabs abs (cn_view cn')) p = out_at ?a p" if "p \<notin> block_spent (tx # vtx)" "prev_hash p \<notin> tx_GetHash ?H ` set (tx # vtx)" for p
      using I out [of p] that by (auto simp: block_spent_def)
    show "out_at (cabs abs (cn_view cn')) p = coin_at (FromTx y ?h) (unat (prev_n p))"
      if "y \<in> set (tx # vtx)" "p \<notin> block_spent (tx # vtx)" "prev_hash p = tx_GetHash ?H y" for y p
    proof (cases "y \<in> set vtx")
      case True
      then show ?thesis using I that by (auto simp: block_spent_def)
    next
      case False
      then have y: "y = tx" using that(1) by simp
      have "prev_hash p \<notin> tx_GetHash ?H ` set vtx"
      proof
        assume "prev_hash p \<in> tx_GetHash ?H ` set vtx"
        then obtain x where x: "x \<in> set vtx" "prev_hash p = tx_GetHash ?H x" by blast
        show False using dist [OF x(1)] x(2) that(3) y by simp
      qed
      then show ?thesis using y using I out [of p] that(2,3) by (auto simp: block_spent_def)
    qed
  qed
  ultimately show ?case using IH by simp
qed (simp add: coins_after_def block_spent_def)

end

subsection \<open>Connecting a block\<close>

lemma pool_sound_connect:
  assumes s: "pool_sound a h mp" and ok: "pool_ok H mp" and c: "coins_after H g vtx a a'"
    and f: "\<forall>tx\<in>set vtx. a (tx_GetHash H tx) = None" and inj: "inj_on (tx_GetHash H) (set vtx \<union> (\<lambda>k. me_tx (ent mp k)) ` keys mp)"
    and mp': "pool_ok H mp'" "shrunk mp mp'" "keys mp' \<inter> tx_GetHash H ` set vtx = {}"
      "\<forall>tx\<in>set vtx. \<forall>i\<in>set (tx_vin tx). next_tx mp' (txin_prevout i) = None"
      "\<forall>(t, k)\<in>spends mp. k \<in> keys mp' \<longrightarrow> t \<in> keys mp' \<or> t \<in> tx_GetHash H ` set vtx"
  shows "pool_sound a' (h + 1) mp'"
proof (rule pool_sound_cong [OF s])
  have t: "k \<in> keys mp \<and> me_tx (ent mp' k) = me_tx (ent mp k)" if "k \<in> keys mp'" for k using mp'(2) that staticD(1) unfolding shrunk_def by blast
  have C: "a' k = None" if "k \<notin> tx_GetHash H ` set vtx" "a k = None" for k using c that by (simp add: coins_after_def)
  show "k \<in> keys mp \<and> me_tx (ent mp' k) = me_tx (ent mp k) \<and> a' k = None" if k: "k \<in> keys mp'" for k
  proof -
    have "a k = None" using s t [OF k] by (simp add: pool_sound_def)
    moreover have "k \<notin> tx_GetHash H ` set vtx" using mp'(3) k by blast
    ultimately show ?thesis using t [OF k] C [of k] by simp
  qed
  show "out_at (pool_coins mp' a') p = out_at (pool_coins mp a) p" if k: "k \<in> keys mp'" and p: "p \<in> outpoints (ent mp k)" for k p
  proof -
    have "p \<in> outpoints (ent mp' k)" using p t [OF k] by (simp add: outpoints_def)
    then have "next_tx mp' p = Some k" using pool_okD(5) [OF mp'(1)] k by (simp add: next_ok_def)
    then have ns: "p \<notin> block_spent vtx" using mp'(4) by (force simp: block_spent_def)
    have kk: "k \<in> keys mp" using t [OF k] by simp
    have ex: "out_at (pool_coins mp a) p \<noteq> None" using tx_sound_inputs [OF pool_sound_tx [OF s kk]] p by (simp add: outpoints_def)
    show ?thesis
    proof (cases "prev_hash p \<in> keys mp'")
      case True
      then show ?thesis using t [OF True] by (simp add: out_at_pool)
    next
      case n: False
      show ?thesis
      proof (cases "prev_hash p \<in> tx_GetHash H ` set vtx")
        case True
        then obtain tx where tx: "tx \<in> set vtx" "prev_hash p = tx_GetHash H tx" by blast
        have pk: "prev_hash p \<in> keys mp"
        proof (rule ccontr)
          assume "prev_hash p \<notin> keys mp"
          then have "out_at a p \<noteq> None" using ex by (simp add: out_at_pool)
          then show False using f tx by (simp add: out_at_def)
        qed
        have "tx_GetHash H (me_tx (ent mp (prev_hash p))) = tx_GetHash H tx"
          using pool_okD(1) [OF ok] pk tx(2) by (simp add: pool_entries_ok_def)
        then have e: "me_tx (ent mp (prev_hash p)) = tx" by (rule inj_onD [OF inj]) (use tx(1) pk in auto)
        have "\<not> IsCoinBase tx" using s pk e by (auto simp: pool_sound_def tx_sound_def)
        moreover have "out_at a' p = coin_at (FromTx tx g) (unat (prev_n p))" using c tx ns by (simp add: coins_after_def)
        ultimately show ?thesis using n pk e coin_at_FromTx [of tx g _ MEMPOOL_HEIGHT] by (simp add: out_at_pool)
      next
        case False
        have "prev_hash p \<notin> keys mp"
        proof
          assume "prev_hash p \<in> keys mp"
          then have "(prev_hash p, k) \<in> spends mp" using kk p by (auto simp: spends_def parent_ids_def)
          then show False using mp'(5) k n False by auto
        qed
        then show ?thesis using n c ns False by (simp add: out_at_pool coins_after_def)
      qed
    qed
  qed
qed simp

text \<open>What \<open>ConnectTip\<close> does when the loop over the transactions has ended in \<open>cn\<close>, a cache over \<open>pcoinsTip\<close>: the block becomes the
  best one, the cache is written to \<open>pcoinsTip\<close> (\<open>assert(view.Flush())\<close>), and the transactions of the block leave the pool.
  \<open>None\<close> is an assertion that fails.\<close>

definition connect_pool :: "(byte list \<Rightarrow> uint256) \<Rightarrow> CTransaction list \<Rightarrow> uint256 \<Rightarrow> CCoinsViewDB CCoinsViewCache connect_state \<Rightarrow> CTxMemPool \<Rightarrow>
    (CTxMemPool \<times> CCoinsViewDB CCoinsViewCache) option" where
  "connect_pool H vtx blockhash cn mp =
     (case Flush (cache_ops db_ops) (SetBestBlock (cn_view cn) blockhash) of (view, ok) \<Rightarrow>
        if \<not> ok then None
        else map_option (\<lambda>(mp', conflicts). (mp', cv_base view)) (removeForBlock H vtx mp []))"

text \<open>What the pool and the coins satisfy together; \<open>h\<close> is the height of the next block.\<close>

definition node_ok :: "(byte list \<Rightarrow> uint256) \<Rightarrow> int \<Rightarrow> CTxMemPool \<Rightarrow> CCoinsViewDB CCoinsViewCache \<Rightarrow> bool" where
  "node_ok H h mp tip \<longleftrightarrow> pool_ok H mp \<and> deltas_ok mp \<and> pool_storable mp \<and> pool_sound (cabs db_coins tip) h mp \<and> cinv db_coins db_inv tip"

lemma node_ok_trimmed:
  assumes "node_ok H h mp tip" "trimmed H mp mp'" "cinv db_coins db_inv tip'" "cabs db_coins tip' = cabs db_coins tip"
  shows "node_ok H h mp' tip'"
proof -
  have n: "deltas_ok mp" "pool_storable mp" "pool_sound (cabs db_coins tip) h mp" using assms(1) by (simp_all add: node_ok_def)
  have "pool_ok H mp'" "shrunk mp mp'" using assms(2) by (simp_all add: trimmed_def)
  then show ?thesis using deltas_ok_shrunk [OF n(1)] trimmed_backed(2) [OF assms(2) pool_sound_backed [OF n(3)] n(2)]
      pool_sound_trimmed [OF n(3) assms(2)] assms(3,4) by (simp add: node_ok_def)
qed

text \<open>The transactions of a block that is connected: the identifiers are new and tell the transactions of the block and of the
  pool apart, and no transaction of the pool has the null hash.\<close>

definition block_new :: "(byte list \<Rightarrow> uint256) \<Rightarrow> CTransaction list \<Rightarrow> CTxMemPool \<Rightarrow> CCoinsViewDB CCoinsViewCache \<Rightarrow> bool" where
  "block_new H vtx mp tip \<longleftrightarrow> fresh_ids H (cabs db_coins tip) (cabs db_coins tip) vtx \<and> list_all no_null_outs vtx
     \<and> inj_on (tx_GetHash H) (set vtx \<union> (\<lambda>k. me_tx (ent mp k)) ` keys mp) \<and> 0 \<notin> keys mp"

lemma coinbase_null: "IsCoinBase tx \<Longrightarrow> i \<in> set (tx_vin tx) \<Longrightarrow> prev_hash (txin_prevout i) = 0"
  by (cases "tx_vin tx") (auto simp: IsCoinBase_def COutPoint_IsNull_def)

lemma connect_pool_ok:
  assumes n: "node_ok (cy_Hash (cx_crypto cx)) h mp tip" and b: "block_new (cy_Hash (cx_crypto cx)) vtx mp tip"
    and c: "connect_block_txs cx (cache_ops db_ops) st vtx (new_cache tip) = Inr cn"
  shows "\<exists>mp' tip'. connect_pool (cy_Hash (cx_crypto cx)) vtx blockhash cn mp = Some (mp', tip') \<and> node_ok (cy_Hash (cx_crypto cx)) (h + 1) mp' tip'"
proof -
  let ?H = "cy_Hash (cx_crypto cx)" and ?a = "cabs db_coins tip"
  have N: "pool_ok ?H mp" "deltas_ok mp" "pool_storable mp" "pool_sound ?a h mp" "cinv db_coins db_inv tip" using n by (simp_all add: node_ok_def)
  have B: "fresh_ids ?H ?a ?a vtx" "\<forall>tx\<in>set vtx. no_null_outs tx" "inj_on (tx_GetHash ?H) (set vtx \<union> (\<lambda>k. me_tx (ent mp k)) ` keys mp)" "0 \<notin> keys mp"
    using b by (simp_all add: block_new_def list_all_iff)
  have v: "cinv (cabs db_coins) (cinv db_coins db_inv) (new_cache tip)" "shown_by (new_cache tip) = ?a" "cv_base (new_cache tip) = tip"
    using N(5) by (auto simp: new_cache_def cinv_def entries_ok_def cabs_def [of "cabs db_coins"] fun_eq_iff)
  have "cinv (cabs db_coins) (cinv db_coins db_inv) (cn_view cn) \<and> block_ordered ?H (keys mp) vtx
      \<and> coins_after ?H (height (cx_pindex cx)) vtx (shown_by (new_cache tip)) (shown_by (cn_view cn))"
    using tip.connect_loop_out [of "\<lparr> cn_view = new_cache tip, cn_nSigOps = 0, cn_nFees = 0, cn_vtxundo = [], cn_checks = [] \<rparr>" vtx cx "keys mp" st True cn]
      c v B N(4) coinbase_null by (simp add: connect_block_txs_def pool_sound_def)
  then have L: "cinv (cabs db_coins) (cinv db_coins db_inv) (cn_view cn)" "block_ordered ?H (keys mp) vtx"
    "coins_after ?H (height (cx_pindex cx)) vtx ?a (shown_by (cn_view cn))" using v(2) by simp_all
  obtain mp' cs where m: "removeForBlock ?H vtx mp [] = Some (mp', cs)" "pool_ok ?H mp'" "shrunk mp mp'"
      "keys mp' \<inter> tx_GetHash ?H ` set vtx = {}" "\<forall>tx\<in>set vtx. \<forall>i\<in>set (tx_vin tx). next_tx mp' (txin_prevout i) = None"
      "\<forall>(t, k)\<in>spends mp. k \<in> keys mp' \<longrightarrow> t \<in> keys mp' \<or> t \<in> tx_GetHash ?H ` set vtx"
    using removeForBlock_ok [OF N(1) L(2) B(3), of "[]"] by (elim exE conjE) (rule that)
  let ?view = "SetBestBlock (cn_view cn) blockhash"
  have V: "cinv (cabs db_coins) (cinv db_coins db_inv) ?view" "shown_by ?view = shown_by (cn_view cn)"
    using L(1) by (simp_all add: SetBestBlock_def cinv_hash cabs_hash)
  obtain view' fOk where f: "Flush (cache_ops db_ops) ?view = (view', fOk)" by fastforce
  have fOk: fOk using f by (auto simp: Flush_def cache_ops_def cache_BatchWrite_def)
  note F = tip.Flush_spec [OF V(1) f]
  have tip': "cinv db_coins db_inv (cv_base view')" "cabs db_coins (cv_base view') = shown_by (cn_view cn)"
    using F V(2) by (simp_all add: cinv_def [of "cabs db_coins"])
  have fr: "\<forall>tx\<in>set vtx. ?a (tx_GetHash ?H tx) = None" using B(1) by (simp add: fresh_ids_def)
  have "pool_sound (shown_by (cn_view cn)) (h + 1) mp'" by (rule pool_sound_connect [OF N(4,1) L(3) fr B(3) m(2-6)])
  moreover have "deltas_ok mp'" by (rule deltas_ok_shrunk [OF N(2) m(3)])
  moreover have "pool_storable mp'" using N(3) m(3) staticD(1) unfolding pool_storable_def shrunk_def by (metis subsetD)
  ultimately have "node_ok ?H (h + 1) mp' (cv_base view')" using m(2) tip' by (simp add: node_ok_def)
  then show ?thesis using f fOk m(1) by (simp add: connect_pool_def)
qed

subsection \<open>The states of the node\<close>

lemma remove_tx_trimmed:
  assumes "pool_ok H mp"
  obtains mp' removed where "remove_tx H tx True mp = Some (mp', removed)" "trimmed H mp mp'"
proof -
  obtain mp' removed where m: "remove_tx H tx True mp = Some (mp', removed)" "pool_ok H mp'" "shrunk mp mp'"
    "keys mp' = keys mp - (spends mp)\<^sup>* `` remove_roots H tx mp"
    by (rule remove_tx_recursive [OF assms])
  have "spends mp `` (keys mp - keys mp') \<subseteq> keys mp - keys mp'"
    using spends_keys [of mp] unfolding m(4) by (blast intro: rtrancl_into_rtrancl)
  then show thesis using m(2,3) by (intro that [OF m(1)]) (simp add: trimmed_def)
qed

text \<open>What \<open>AcceptToMemoryPool\<close> is called with: the block index knows the best block, and the sizes stay below the range of
  the sums.\<close>

definition accept_setting :: "(byte list \<Rightarrow> uint256) \<Rightarrow> int \<Rightarrow> CTxMemPool \<Rightarrow> CCoinsViewDB CCoinsViewCache \<Rightarrow> accept_env \<Rightarrow> CTransaction \<Rightarrow> CValidationState \<Rightarrow> bool" where
  "accept_setting H h mp tip env tx st \<longleftrightarrow> cy_Hash (ac_crypto env) = H \<and> picks_entry (ac_worst env)
     \<and> (\<exists>p. ac_mapBlockIndex env (snd (cache_GetBestBlock db_ops tip)) = Some p \<and> height p + 1 = h)
     \<and> mp_totalTxSize mp + int (length (ser_CTransaction tx)) < 2 ^ 63 \<and> vs_mode st = MODE_VALID"

inductive node_reach :: "(byte list \<Rightarrow> uint256) \<Rightarrow> CTxMemPool \<Rightarrow> CCoinsViewDB CCoinsViewCache \<Rightarrow> int \<Rightarrow> bool" for H where
  start: "cinv db_coins db_inv tip \<Longrightarrow> node_reach H CTxMemPool_init tip h"
| accept: "node_reach H mp tip h \<Longrightarrow> accept_setting H h mp tip env tx st
    \<Longrightarrow> AcceptToMemoryPool env db_ops fl tx st mp tip = Some r \<Longrightarrow> node_reach H (ar_pool r) (ar_tip r) h"
| limit: "node_reach H mp tip h \<Longrightarrow> picks_entry worst
    \<Longrightarrow> LimitMempoolSize worst es now limit age mp tip = Some (mp', tip') \<Longrightarrow> node_reach H mp' tip' h"
| prioritise: "node_reach H mp tip h \<Longrightarrow> PrioritiseTransaction t d mp = Some mp' \<Longrightarrow> node_reach H mp' tip h"
| remove: "node_reach H mp tip h \<Longrightarrow> remove_tx H tx True mp = Some (mp', removed) \<Longrightarrow> node_reach H mp' tip h"
| check: "node_reach H mp tip h \<Longrightarrow> cy_Hash cy = H \<Longrightarrow> M (snd (cache_GetBestBlock db_ops tip)) = Some p \<Longrightarrow> height p + 1 = h
    \<Longrightarrow> check_mempool cy M db_ops f r mp tip = Some tip' \<Longrightarrow> node_reach H mp tip' h"
| flush: "node_reach H mp tip h \<Longrightarrow> Flush db_ops tip = (tip', ok) \<Longrightarrow> node_reach H mp tip' h"
| connect: "node_reach H mp tip h \<Longrightarrow> cy_Hash (cx_crypto cx) = H \<Longrightarrow> height (cx_pindex cx) = h \<Longrightarrow> block_new H vtx mp tip
    \<Longrightarrow> connect_block_txs cx (cache_ops db_ops) st vtx (new_cache tip) = Inr cn
    \<Longrightarrow> connect_pool H vtx blockhash cn mp = Some (mp', tip') \<Longrightarrow> node_reach H mp' tip' (h + 1)"

lemma node_checkable:
  assumes "node_ok H h mp tip" "cy_Hash cy = H" "M (snd (cache_GetBestBlock db_ops tip)) = Some p" "height p + 1 = h"
  shows "\<exists>tip'. check_mempool cy M db_ops f r mp tip = Some tip' \<and> cinv db_coins db_inv tip' \<and> cabs db_coins tip' = cabs db_coins tip"
proof -
  let ?a = "cabs db_coins tip" and ?b = "snd (cache_GetBestBlock db_ops tip)"
  have "checkable cy M ?a ?b mp" using assms by (auto simp: checkable_def node_ok_def)
  moreover have "tip_is ?a ?b tip" using assms(1) by (simp add: tip_is_def node_ok_def)
  ultimately show ?thesis using check_mempool_ok [of cy M ?a ?b mp tip f r] by (auto simp: tip_is_def)
qed

lemma node_accept:
  assumes "node_ok H h mp tip" "accept_setting H h mp tip env tx st"
  shows "mempool_node_sound env mp tip"
  using assms pool_sound_backed by (auto simp: mempool_node_sound_def mempool_node_ok_def node_ok_def accept_setting_def)

lemma node_reach_ok: "node_reach H mp tip h \<Longrightarrow> node_ok H h mp tip"
proof (induction rule: node_reach.induct)
  case (start tip h)
  then show ?case by (simp add: node_ok_def pool_ok_init deltas_ok_init pool_storable_def pool_sound_def empty_pool)
next
  case (accept mp tip h env tx st fl r)
  have s: "mempool_node_sound env mp tip" by (rule node_accept [OF accept.IH accept.hyps(2)])
  have w: "cy_Hash (ac_crypto env) = H" "vs_mode st = MODE_VALID" "mp_totalTxSize mp + int (length (ser_CTransaction tx)) < 2 ^ 63"
    using accept.hyps(2) by (simp_all add: accept_setting_def)
  obtain p where p: "ac_mapBlockIndex env (snd (cache_GetBestBlock db_ops tip)) = Some p" "height p + 1 = h"
    using accept.hyps(2) by (auto simp: accept_setting_def)
  have "mempool_node_sound env (ar_pool r) (ar_tip r)" "snd (cache_GetBestBlock db_ops (ar_tip r)) = snd (cache_GetBestBlock db_ops tip)"
    using AcceptToMemoryPool_sound [OF s w(3), of fl st] accept.hyps(3) by simp_all
  then show ?case using w(1) p by (auto simp: mempool_node_sound_def mempool_node_ok_def node_ok_def)
next
  case (limit mp tip h worst es now limit age mp' tip')
  have n: "pool_ok H mp" "cinv db_coins db_inv tip" using limit.IH by (simp_all add: node_ok_def)
  obtain m t where m: "LimitMempoolSize worst es now limit age mp tip = Some (m, t)" "trimmed H mp m" "cinv db_coins db_inv t"
    "cabs db_coins t = cabs db_coins tip"
    by (rule LimitMempoolSize_ok [OF n(1) limit.hyps(2) n(2)])
  show ?case using node_ok_trimmed [OF limit.IH m(2-4)] m(1) limit.hyps(3) by simp
next
  case (prioritise mp tip h t d mp')
  have n: "pool_ok H mp" "deltas_ok mp" "pool_storable mp" "pool_sound (cabs db_coins tip) h mp" "cinv db_coins db_inv tip"
    using prioritise.IH by (simp_all add: node_ok_def)
  obtain m where m: "PrioritiseTransaction t d mp = Some m" "pool_ok H m" "deltas_ok m" "keys m = keys mp"
    "\<And>k. k \<in> keys mp \<Longrightarrow> me_tx (ent m k) = me_tx (ent mp k)"
    by (rule PrioritiseTransaction_ok [OF n(1,2), of t d]) blast
  have "pool_sound (cabs db_coins tip) h m"
    by (rule pool_sound_cong [OF n(4) order_refl]) (use m(4,5) n(4) in \<open>auto simp: pool_sound_def out_at_pool\<close>)
  then show ?case using m n prioritise.hyps(2) by (simp add: node_ok_def pool_storable_def)
next
  case (remove mp tip h tx mp' removed)
  have n: "pool_ok H mp" "cinv db_coins db_inv tip" using remove.IH by (simp_all add: node_ok_def)
  obtain m x where m: "remove_tx H tx True mp = Some (m, x)" "trimmed H mp m" by (rule remove_tx_trimmed [OF n(1)])
  show ?case using node_ok_trimmed [OF remove.IH m(2) n(2) refl] m(1) remove.hyps(2) by simp
next
  case (check mp tip h cy M p f r tip')
  show ?case using node_checkable [where M = M, OF check.IH check.hyps(2-4), of f r] check.hyps(5) check.IH by (auto simp: node_ok_def)
next
  case (flush mp tip h tip' ok)
  have "cinv db_coins db_inv tip" using flush.IH by (simp add: node_ok_def)
  then show ?case using db.Flush_spec [OF _ flush.hyps(2)] flush.IH by (simp add: node_ok_def)
next
  case (connect mp tip h cx vtx st cn blockhash mp' tip')
  show ?case using connect_pool_ok [of cx h mp tip vtx st cn blockhash] connect.IH connect.hyps(2,4-6) by auto
qed

text \<open>C9: In every state that the pool and the coins get to, by accepted transactions, connected blocks, limits, priorities, removals,
  checks and flushes, the consistency check passes, with all its assertions: the links and totals are right, every input is an
  unspent output of the chain or of another entry, every entry can be spent after its parents, and the queue of the waiting entries
  runs empty.  No operation fails an assertion in such a state; \<open>AcceptToMemoryPool\<close> may only in a stage that reads
  (\<open>stage_asserts\<close>).  Reorganisations are not steps of \<open>node_reach\<close>.\<close>

theorem pool_never_fails:
  assumes "node_reach H mp tip h"
  shows "pool_ok H mp \<and> pool_sound (cabs db_coins tip) h mp
    \<and> (\<forall>cy M p f r. cy_Hash cy = H \<longrightarrow> M (snd (cache_GetBestBlock db_ops tip)) = Some p \<longrightarrow> height p + 1 = h
         \<longrightarrow> check_mempool cy M db_ops f r mp tip \<noteq> None)
    \<and> (\<forall>env fl tx st. accept_setting H h mp tip env tx st \<longrightarrow> AcceptToMemoryPool env db_ops fl tx st mp tip = None
         \<longrightarrow> stage_asserts env fl tx st mp tip)
    \<and> (\<forall>worst es now limit age. picks_entry worst \<longrightarrow> LimitMempoolSize worst es now limit age mp tip \<noteq> None)
    \<and> (\<forall>t d. PrioritiseTransaction t d mp \<noteq> None) \<and> (\<forall>tx. remove_tx H tx True mp \<noteq> None)
    \<and> (\<forall>cx st vtx cn b. cy_Hash (cx_crypto cx) = H \<longrightarrow> block_new H vtx mp tip
         \<longrightarrow> connect_block_txs cx (cache_ops db_ops) st vtx (new_cache tip) = Inr cn \<longrightarrow> connect_pool H vtx b cn mp \<noteq> None)"
proof -
  have n: "node_ok H h mp tip" by (rule node_reach_ok [OF assms])
  then have N: "pool_ok H mp" "deltas_ok mp" "pool_sound (cabs db_coins tip) h mp" "cinv db_coins db_inv tip" by (simp_all add: node_ok_def)
  have "check_mempool cy M db_ops f r mp tip \<noteq> None"
    if "cy_Hash cy = H" "M (snd (cache_GetBestBlock db_ops tip)) = Some p" "height p + 1 = h" for cy M p f r
    using node_checkable [where M = M, OF n that, of f r] by auto
  moreover have "stage_asserts env fl tx st mp tip"
    if a: "accept_setting H h mp tip env tx st" "AcceptToMemoryPool env db_ops fl tx st mp tip = None" for env fl tx st
    using AcceptToMemoryPool_sound [OF node_accept [OF n a(1)], of tx fl st] a by (simp add: accept_setting_def)
  moreover have "LimitMempoolSize worst es now limit age mp tip \<noteq> None" if w: "picks_entry worst" for worst es now limit age
    by (rule LimitMempoolSize_ok [OF N(1) w N(4), of es now limit age]) simp
  moreover have "PrioritiseTransaction t d mp \<noteq> None" for t d by (rule PrioritiseTransaction_ok [OF N(1,2), of t d]) simp
  moreover have "remove_tx H tx True mp \<noteq> None" for tx by (rule remove_tx_trimmed [OF N(1), of tx]) simp
  moreover have "connect_pool H vtx b cn mp \<noteq> None"
    if c: "cy_Hash (cx_crypto cx) = H" "block_new H vtx mp tip" "connect_block_txs cx (cache_ops db_ops) st vtx (new_cache tip) = Inr cn" for cx st vtx cn b
    using connect_pool_ok [of cx h mp tip vtx st cn b] n c by auto
  ultimately show ?thesis using N(1,3) by blast
qed

lemma admit_reach:
  "\<exists>mp tip. node_reach sample_H mp tip 1 \<and> keys mp = {60} \<and> me_tx (ent mp 60) = admit_tx \<and> snd (cache_GetBestBlock db_ops tip) = 9"
proof -
  have b: "snd (cache_GetBestBlock db_ops admit_tip) = 9"
    by (simp add: cache_GetBestBlock_def admit_tip_def new_cache_def db_ops_def db_GetBestBlock_def)
  obtain r where r: "AcceptToMemoryPool admit_env db_ops admit_flags admit_tx CValidationState_init CTxMemPool_init admit_tip = Some r" "ar_accepted r"
    using admit_run by blast
  have sz: "mp_totalTxSize CTxMemPool_init + int (length (ser_CTransaction admit_tx)) < 2 ^ 63" by (simp add: empty_pool admit_tx_facts)
  have a: "accept_setting sample_H 1 CTxMemPool_init admit_tip admit_env admit_tx CValidationState_init"
    using sz b admit_start_ok by (simp add: accept_setting_def admit_env_fields admit_block_facts mempool_node_ok_def CValidationState_init_def)
  have "cinv db_coins db_inv admit_tip" using admit_start_ok by (simp add: mempool_node_ok_def)
  from node_reach.accept [OF node_reach.start [OF this] a r(1)] have n: "node_reach sample_H (ar_pool r) (ar_tip r) 1" .
  have o: "outcome_ok admit_env admit_flags admit_tx CTxMemPool_init admit_tip r"
      "snd (cache_GetBestBlock db_ops (ar_tip r)) = 9"
    using AcceptToMemoryPool_sound [OF admit_start_sound sz, of admit_flags CValidationState_init] r(1) b by simp_all
  have id: "tx_id admit_env admit_tx = 60" by (simp add: tx_id_def admit_env_fields admit_tx_facts)
  have "\<not> af_fDryRun admit_flags" by (simp add: admit_flags_def)
  then obtain mp2 where m: "admitted admit_env (cabs db_coins admit_tip) admit_tx CTxMemPool_init mp2" "trimmed sample_H mp2 (ar_pool r)" "60 \<in> keys (ar_pool r)"
    using o(1) r(2) by (auto simp: outcome_ok_def Let_def id admit_env_fields)
  have k2: "keys mp2 \<subseteq> {60}" "me_tx (ent mp2 60) = admit_tx" using m(1) by (auto simp: admitted_def id empty_pool)
  have sh: "keys (ar_pool r) \<subseteq> keys mp2" "static (ent (ar_pool r) 60) = static (ent mp2 60)" using m(2,3) by (auto simp: trimmed_def shrunk_def)
  have "keys (ar_pool r) = {60}" using sh(1) k2(1) m(3) by blast
  moreover have "me_tx (ent (ar_pool r) 60) = admit_tx" using staticD(1) [OF sh(2)] k2(2) by simp
  ultimately show ?thesis using n o(2) by blast
qed

theorem pool_never_fails_witness:
  "\<exists>mp tip tip'. node_reach sample_H mp tip 1 \<and> keys mp = {60} \<and> me_tx (ent mp 60) = admit_tx
     \<and> check_mempool (ac_crypto admit_env) (ac_mapBlockIndex admit_env) db_ops 1 0 mp tip = Some tip'"
proof -
  obtain mp tip where n: "node_reach sample_H mp tip 1" "keys mp = {60}" "me_tx (ent mp 60) = admit_tx"
    "snd (cache_GetBestBlock db_ops tip) = 9" using admit_reach by blast
  have "check_mempool (ac_crypto admit_env) (ac_mapBlockIndex admit_env) db_ops 1 0 mp tip \<noteq> None"
    using pool_never_fails [OF n(1)] n(4) by (simp add: admit_env_fields admit_block_facts)
  then show ?thesis using n(1-3) by auto
qed

end
