(* ===== verification/Standard_Props.thy ===== *)
theory Standard_Props
  imports Standard Script_Props
begin

text \<open>
  The scripts that the node builds for destinations are recognised, and what is recognised as a script hash is exactly such a
  script.
\<close>

subsection \<open>Matching one opcode\<close>

definition template_op :: "opcodetype \<Rightarrow> bool" where
  "template_op c \<longleftrightarrow> c = OP_PUBKEYS \<or> c = OP_PUBKEY \<or> c = OP_PUBKEYHASH \<or> c = OP_SMALLINTEGER"

lemma GetOp_plain: "c > OP_PUSHDATA4 \<Longrightarrow> GetOp (c # pc) = (True, c, [], pc)"
  by (auto simp: GetOp_def)

lemma match_plain:
  assumes "GetOp pc1 = (True, o1, v1, q1)" "c > OP_PUSHDATA4" "\<not> template_op c"
  shows "match_loop pc1 (c # pc2) vs = (if o1 \<noteq> c \<or> v1 \<noteq> [] then None else match_loop q1 pc2 vs)"
  using assms by (subst match_loop.simps) (simp add: GetOp_plain template_op_def)

lemma special_ops:
  "OP_PUBKEYS > OP_PUSHDATA4" "OP_PUBKEY > OP_PUSHDATA4" "OP_PUBKEYHASH > OP_PUSHDATA4" "OP_SMALLINTEGER > OP_PUSHDATA4"
  "OP_PUBKEY \<noteq> OP_PUBKEYS" "OP_PUBKEYHASH \<noteq> OP_PUBKEYS" "OP_PUBKEYHASH \<noteq> OP_PUBKEY" "OP_SMALLINTEGER \<noteq> OP_PUBKEYS"
  "OP_SMALLINTEGER \<noteq> OP_PUBKEY" "OP_SMALLINTEGER \<noteq> OP_PUBKEYHASH"
  by (simp_all add: opcode_defs)

lemma match_pubkey:
  assumes "GetOp pc1 = (True, o1, v1, q1)"
  shows "match_loop pc1 (OP_PUBKEY # pc2) vs = (if length v1 < 33 \<or> length v1 > 65 then None else match_loop q1 pc2 (vs @ [v1]))"
  using assms by (subst match_loop.simps) (simp add: GetOp_plain special_ops)

lemma match_pubkeyhash:
  assumes "GetOp pc1 = (True, o1, v1, q1)"
  shows "match_loop pc1 (OP_PUBKEYHASH # pc2) vs = (if length v1 \<noteq> 20 then None else match_loop q1 pc2 (vs @ [v1]))"
  using assms by (subst match_loop.simps) (simp add: GetOp_plain special_ops)

definition small_op :: "opcodetype \<Rightarrow> bool" where
  "small_op o1 \<longleftrightarrow> o1 = OP_0 \<or> (o1 \<ge> OP_1 \<and> o1 \<le> OP_16)"

lemma match_smallinteger:
  assumes "GetOp pc1 = (True, o1, v1, q1)"
  shows "match_loop pc1 (OP_SMALLINTEGER # pc2) vs
    = (if small_op o1 then match_loop q1 pc2 (vs @ [[of_nat (the (DecodeOP_N o1))]]) else None)"
  using assms by (subst match_loop.simps) (simp add: GetOp_plain special_ops small_op_def)

lemma match_pubkeys_smallinteger:
  assumes "GetOp pc1 = (True, o1, v1, q1)" "take_pubkeys q1 o1 v1 vs = (r1, o', v', vs')"
  shows "match_loop pc1 (OP_PUBKEYS # OP_SMALLINTEGER # pc2) vs
    = (if small_op o' then match_loop r1 pc2 (vs' @ [[of_nat (the (DecodeOP_N o'))]]) else None)"
  using assms by (subst match_loop.simps) (simp add: GetOp_plain special_ops small_op_def)

lemma match_end [simp]: "match_loop [] [] vs = Some vs"
  by (simp add: match_loop.simps)

lemma template_plain_ops:
  "OP_CHECKSIG > OP_PUSHDATA4" "\<not> template_op OP_CHECKSIG" "OP_DUP > OP_PUSHDATA4" "\<not> template_op OP_DUP"
  "OP_HASH160 > OP_PUSHDATA4" "\<not> template_op OP_HASH160" "OP_EQUALVERIFY > OP_PUSHDATA4" "\<not> template_op OP_EQUALVERIFY"
  "OP_CHECKMULTISIG > OP_PUSHDATA4" "\<not> template_op OP_CHECKMULTISIG" "OP_EQUAL > OP_PUSHDATA4"
  by (simp_all add: template_op_def opcode_defs)

lemma push_data_append: "push_data s b = s @ push_data [] b"
  by (simp add: push_data_def)

subsection \<open>Keys and hashes\<close>

lemma GetOp_push_end: "length d < 2 ^ 32 \<Longrightarrow> \<exists>op. GetOp (push_data [] d) = (True, op, d, []) \<and> op \<le> OP_PUSHDATA4"
  using GetOp_push_data [of d "[]"] by simp

lemma Solver_pubkeyhash:
  assumes "length h = 20"
  shows "Solver (push_op (push_op (push_data (push_op (push_op [] OP_DUP) OP_HASH160) h) OP_EQUALVERIFY) OP_CHECKSIG)
    = (True, TX_PUBKEYHASH, [h])"
proof -
  let ?s = "OP_DUP # OP_HASH160 # push_data [] h @ [OP_EQUALVERIFY, OP_CHECKSIG]"
  have s: "push_op (push_op (push_data (push_op (push_op [] OP_DUP) OP_HASH160) h) OP_EQUALVERIFY) OP_CHECKSIG = ?s"
    unfolding push_op_def by (subst push_data_append) simp
  obtain op where op: "GetOp (push_data [] h @ [OP_EQUALVERIFY, OP_CHECKSIG]) = (True, op, h, [OP_EQUALVERIFY, OP_CHECKSIG])"
    using GetOp_push_data [of h "[OP_EQUALVERIFY, OP_CHECKSIG]"] assms by auto
  have g1: "GetOp ?s = (True, OP_DUP, [], OP_HASH160 # push_data [] h @ [OP_EQUALVERIFY, OP_CHECKSIG])"
    by (rule GetOp_plain) (rule template_plain_ops)
  have g2: "GetOp (OP_HASH160 # push_data [] h @ [OP_EQUALVERIFY, OP_CHECKSIG])
      = (True, OP_HASH160, [], push_data [] h @ [OP_EQUALVERIFY, OP_CHECKSIG])"
    by (rule GetOp_plain) (rule template_plain_ops)
  have g3: "GetOp [OP_EQUALVERIFY, OP_CHECKSIG] = (True, OP_EQUALVERIFY, [], [OP_CHECKSIG])" "GetOp [OP_CHECKSIG] = (True, OP_CHECKSIG, [], [])"
    by (rule GetOp_plain, rule template_plain_ops)+
  have "match_loop ?s [OP_PUBKEY, OP_CHECKSIG] [] = None" by (simp add: match_pubkey [OF g1])
  moreover have "match_loop ?s [OP_DUP, OP_HASH160, OP_PUBKEYHASH, OP_EQUALVERIFY, OP_CHECKSIG] [] = Some [h]"
    by (simp add: match_plain [OF g1] match_plain [OF g2] match_pubkeyhash [OF op] match_plain [OF g3(1)] match_plain [OF g3(2)]
        template_plain_ops assms)
  moreover have "\<not> IsPayToScriptHash ?s" "?s ! 0 \<noteq> OP_RETURN" by (simp_all add: IsPayToScriptHash_def opcode_defs)
  ultimately show ?thesis unfolding s Solver_def by (simp add: mTemplates_def push_op_def)
qed

lemma Solver_pubkey:
  assumes "33 \<le> length k" "length k \<le> 65"
  shows "Solver (push_op (push_data [] k) OP_CHECKSIG) = (True, TX_PUBKEY, [k])"
proof -
  let ?s = "push_data [] k @ [OP_CHECKSIG]"
  obtain op where op: "GetOp ?s = (True, op, k, [OP_CHECKSIG])" using GetOp_push_data [of k "[OP_CHECKSIG]"] assms by auto
  have g: "GetOp [OP_CHECKSIG] = (True, OP_CHECKSIG, [], [])" by (rule GetOp_plain) (rule template_plain_ops)
  have "match_loop ?s [OP_PUBKEY, OP_CHECKSIG] [] = Some [k]"
    using assms by (simp add: match_pubkey [OF op] match_plain [OF g] template_plain_ops)
  moreover have "?s = of_nat (length k) # k @ [OP_CHECKSIG]" using assms by (simp add: push_data_def OP_PUSHDATA1_def)
  moreover have "(of_nat (length k) :: byte) \<noteq> OP_RETURN" "(of_nat (length k) :: byte) \<noteq> OP_HASH160"
  proof -
    have "unat (of_nat (length k) :: byte) = length k" using assms by (simp add: unat_of_nat)
    then show "(of_nat (length k) :: byte) \<noteq> OP_RETURN" "(of_nat (length k) :: byte) \<noteq> OP_HASH160"
      using assms by (auto simp: opcode_defs)
  qed
  ultimately show ?thesis by (simp add: Solver_def IsPayToScriptHash_def mTemplates_def push_op_def)
qed

lemma uint160_bytes_simps [simp]: "length (uint160_bytes h) = 20" "uint160_of (uint160_bytes h) = h"
proof -
  show "length (uint160_bytes h) = 20" by (simp add: uint160_bytes_def)
  have "unat h < 2 ^ LENGTH(160)" by (rule unsigned_less)
  then have "unat h < 256 ^ 20" by simp
  then show "uint160_of (uint160_bytes h) = h" by (simp add: uint160_of_def uint160_bytes_def le_nat_le_bytes)
qed

lemma IsPayToScriptHash_script: "IsPayToScriptHash (GetScriptForDestination (CScriptID h))"
  by (simp add: GetScriptForDestination_def push_op_def push_data_def OP_PUSHDATA1_def IsPayToScriptHash_def nth_append)

lemma Solver_scripthash: "Solver (GetScriptForDestination (CScriptID h)) = (True, TX_SCRIPTHASH, [uint160_bytes h])"
  using IsPayToScriptHash_script [of h]
  by (simp add: Solver_def) (simp add: GetScriptForDestination_def push_op_def push_data_def OP_PUSHDATA1_def)

subsection \<open>Several keys\<close>

lemma take_pubkeys_ok:
  assumes "n > OP_PUSHDATA4" "\<forall>k\<in>set (k0 # ks). 33 \<le> length k \<and> length k \<le> 65"
  shows "take_pubkeys (concat (map (push_data []) ks) @ n # rest) o1 k0 vs = (rest, n, [], vs @ k0 # ks)"
  using assms(2)
proof (induction ks arbitrary: o1 k0 vs)
  case Nil
  then show ?case by (subst take_pubkeys.simps) (simp add: GetOp_plain [OF assms(1)] take_pubkeys.simps [of rest n "[]"])
next
  case (Cons k ks)
  obtain op where op: "GetOp (push_data [] k @ concat (map (push_data []) ks) @ n # rest) = (True, op, k, concat (map (push_data []) ks) @ n # rest)"
    using GetOp_push_data [of k "concat (map (push_data []) ks) @ n # rest"] Cons.prems by auto
  then show ?case using Cons.IH [of k op "vs @ [k0]"] Cons.prems by (subst take_pubkeys.simps) simp
qed

lemma EncodeOP_N_small:
  assumes "1 \<le> m" "m \<le> 16"
  obtains op where "EncodeOP_N (int m) = Some op" "op > OP_PUSHDATA4" "small_op op" "DecodeOP_N op = Some m" "op \<noteq> OP_HASH160" "op \<noteq> OP_RETURN"
    "op \<noteq> OP_DUP"
proof
  let ?op = "of_int (uint OP_1 + int m - 1) :: byte"
  have u: "unat ?op = 80 + m"
  proof -
    have "?op = of_nat (80 + m)" using assms by (simp add: OP_1_def of_nat_diff)
    then show ?thesis using assms by (simp only: unat_of_nat) simp
  qed
  show "EncodeOP_N (int m) = Some ?op" using assms by (simp add: EncodeOP_N_def)
  show "?op > OP_PUSHDATA4" "small_op ?op" "?op \<noteq> OP_HASH160" "?op \<noteq> OP_RETURN" "?op \<noteq> OP_DUP"
    using u assms by (auto simp: small_op_def word_less_nat_alt word_le_nat_alt opcode_defs simp del: of_int_diff of_int_add)
  show "DecodeOP_N ?op = Some m"
    using u assms by (auto simp: DecodeOP_N_def word_less_nat_alt word_le_nat_alt opcode_defs simp del: of_int_diff of_int_add)
qed

lemma fold_push_data: "fold (\<lambda>k s. push_data s (f k)) ks s = s @ concat (map (\<lambda>k. push_data [] (f k)) ks)"
  by (induction ks arbitrary: s) (simp_all, metis append.assoc push_data_append)

text \<open>A key that is stored in a \<open>CPubKey\<close>.\<close>

definition full_key :: "byte list \<Rightarrow> bool" where
  "full_key k \<longleftrightarrow> CPubKey_IsValid k \<and> length k = CPubKey_GetLen (k ! 0)"

lemma full_keyD:
  assumes "full_key k"
  shows "33 \<le> length k" "length k \<le> 65" "take (CPubKey_GetLen (k ! 0)) k = k" "CPubKey_of k = k" "CPubKey_IsValid k" "k \<noteq> []"
  using assms by (auto simp: full_key_def CPubKey_IsValid_def CPubKey_GetLen_def CPubKey_of_def split: if_splits)

lemma Solver_multisig:
  assumes "1 \<le> m" "m \<le> length ks" "length ks \<le> 16" "\<forall>k\<in>set ks. full_key k"
  obtains s where "GetScriptForMultisig (int m) ks = Some s" "Solver s = (True, TX_MULTISIG, [of_nat m] # ks @ [[of_nat (length ks)]])"
proof -
  obtain a where a: "EncodeOP_N (int m) = Some a" "a > OP_PUSHDATA4" "small_op a" "DecodeOP_N a = Some m" "a \<noteq> OP_HASH160" "a \<noteq> OP_RETURN" "a \<noteq> OP_DUP"
    by (rule EncodeOP_N_small [of m]) (use assms in auto)
  obtain b where b: "EncodeOP_N (int (length ks)) = Some b" "b > OP_PUSHDATA4" "small_op b" "DecodeOP_N b = Some (length ks)"
    by (rule EncodeOP_N_small [of "length ks"]) (use assms in auto)
  obtain k0 kr where ks: "ks = k0 # kr" using assms(1,2) by (cases ks) auto
  let ?tail = "concat (map (push_data []) kr) @ b # [OP_CHECKMULTISIG]"
  let ?body = "concat (map (push_data []) ks) @ b # [OP_CHECKMULTISIG]"
  let ?s = "a # ?body"
  have eq: "map (\<lambda>k. push_data [] (take (CPubKey_GetLen (k ! 0)) k)) ks = map (push_data []) ks"
    using assms(4) full_keyD(3) by (simp cong: map_cong)
  have gs: "GetScriptForMultisig (int m) ks = Some ?s"
    by (simp add: GetScriptForMultisig_def a(1) b(1) fold_push_data push_op_def eq)
  have len: "\<forall>k\<in>set (k0 # kr). 33 \<le> length k \<and> length k \<le> 65" using assms(4) full_keyD(1,2) ks by blast
  obtain op where op: "GetOp ?body = (True, op, k0, ?tail)" using GetOp_push_data [of k0 ?tail] len ks by auto
  have ga: "GetOp ?s = (True, a, [], ?body)" by (rule GetOp_plain [OF a(2)])
  have gc: "GetOp [OP_CHECKMULTISIG] = (True, OP_CHECKMULTISIG, [], [])" by (rule GetOp_plain) (rule template_plain_ops)
  note tk = take_pubkeys_ok [OF b(2) len, of "[OP_CHECKMULTISIG]" op "[[of_nat m]]"]
  have "match_loop ?s [OP_SMALLINTEGER, OP_PUBKEYS, OP_SMALLINTEGER, OP_CHECKMULTISIG] [] = Some ([of_nat m] # (k0 # kr) @ [[of_nat (length ks)]])"
    by (simp add: match_smallinteger [OF ga] a(3,4) match_pubkeys_smallinteger [OF op tk] b(3,4) match_plain [OF gc] template_plain_ops)
  then have "match_loop ?s [OP_SMALLINTEGER, OP_PUBKEYS, OP_SMALLINTEGER, OP_CHECKMULTISIG] [] = Some ([of_nat m] # ks @ [[of_nat (length ks)]])"
    by (simp only: ks)
  moreover have "match_loop ?s [OP_PUBKEY, OP_CHECKSIG] [] = None" by (simp add: match_pubkey [OF ga])
  moreover have "match_loop ?s [OP_DUP, OP_HASH160, OP_PUBKEYHASH, OP_EQUALVERIFY, OP_CHECKSIG] [] = None"
    using a(7) by (simp add: match_plain [OF ga] template_plain_ops)
  moreover have "\<not> IsPayToScriptHash ?s" "?s ! 0 \<noteq> OP_RETURN" using a(5,6) by (auto simp: IsPayToScriptHash_def)
  moreover have "multisig_ok ([of_nat m] # ks @ [[of_nat (length ks)]])"
  proof -
    have u: "unat (of_nat m :: byte) = m" "unat (of_nat (length ks) :: byte) = length ks" using assms by (simp_all add: unat_of_nat)
    show ?thesis using assms(1,2) u by (auto simp: multisig_ok_def Let_def word_less_nat_alt)
  qed
  ultimately have "Solver ?s = (True, TX_MULTISIG, [of_nat m] # ks @ [[of_nat (length ks)]])"
    by (simp add: Solver_def mTemplates_def push_op_def)
  with gs show thesis by (rule that)
qed

subsection \<open>Destinations\<close>

lemma scan_templates_result: "scan_templates mTemplates s = (r, t, vs) \<Longrightarrow> t \<noteq> TX_SCRIPTHASH \<and> t \<noteq> TX_NULL_DATA"
  by (auto simp: mTemplates_def split: option.splits)

lemma scan_templates_types: "fst (snd (scan_templates mTemplates s)) \<noteq> TX_SCRIPTHASH" "fst (snd (scan_templates mTemplates s)) \<noteq> TX_NULL_DATA"
  by (cases "scan_templates mTemplates s"; auto dest: scan_templates_result)+

lemma le_nat_less: "le_nat d < 256 ^ length d"
proof (induction d)
  case (Cons b d)
  have "unat b < 2 ^ LENGTH(8)" by (rule unsigned_less)
  then show ?case using Cons by simp
qed simp

lemma le_bytes_le_nat: "le_bytes (length d) (le_nat d) = d"
proof (induction d)
  case (Cons b d)
  have "unat b < 2 ^ LENGTH(8)" by (rule unsigned_less)
  then show ?case using Cons by simp
qed simp

lemma uint160_of_bytes: "length d = 20 \<Longrightarrow> uint160_bytes (uint160_of d) = d"
proof -
  assume d: "length d = 20"
  have "le_nat d < 2 ^ LENGTH(160)" using le_nat_less [of d] d by simp
  then have "unat (uint160_of d) = le_nat d" unfolding uint160_of_def by (simp only: unat_of_nat) (simp add: mod_less)
  then show "uint160_bytes (uint160_of d) = d" using le_bytes_le_nat [of d] d by (simp add: uint160_bytes_def)
qed

lemma scripthash_script:
  assumes "IsPayToScriptHash s"
  shows "s = GetScriptForDestination (CScriptID (uint160_of (take 20 (drop 2 s))))"
proof -
  have l: "length s = 23" "s ! 0 = OP_HASH160" "s ! 1 = 0x14" "s ! 22 = OP_EQUAL" using assms by (simp_all add: IsPayToScriptHash_def)
  have "take 20 (drop 2 s) @ drop 22 s = drop 2 s" using append_take_drop_id [of 20 "drop 2 s"] by simp
  moreover have "drop 22 s = [OP_EQUAL]" using l Cons_nth_drop_Suc [of 22 s] by simp
  moreover have "s = OP_HASH160 # 0x14 # drop 2 s"
    using l Cons_nth_drop_Suc [of 0 s] Cons_nth_drop_Suc [of 1 s] by (simp add: numeral_2_eq_2)
  ultimately have "s = OP_HASH160 # 0x14 # take 20 (drop 2 s) @ [OP_EQUAL]" by simp
  then show ?thesis
    using l(1) uint160_of_bytes [of "take 20 (drop 2 s)"] by (simp add: GetScriptForDestination_def push_op_def push_data_def OP_PUSHDATA1_def)
qed

lemma ExtractDestination_scripthash: "ExtractDestination env s = Some (CScriptID h) \<longleftrightarrow> s = GetScriptForDestination (CScriptID h)"
proof
  assume a: "ExtractDestination env s = Some (CScriptID h)"
  show "s = GetScriptForDestination (CScriptID h)"
  proof (cases "IsPayToScriptHash s")
    case True
    then have "h = uint160_of (take 20 (drop 2 s))" using a by (simp add: ExtractDestination_def Solver_def)
    then show ?thesis using scripthash_script [OF True] by simp
  next
    case False
    then have "fst (snd (Solver s)) \<noteq> TX_SCRIPTHASH"
      using scan_templates_types [of s] by (cases "scan_templates mTemplates s") (auto simp: Solver_def)
    then show ?thesis using a by (auto simp: ExtractDestination_def Let_def split: prod.splits bool.splits if_splits)
  qed
qed (simp add: ExtractDestination_def Solver_scripthash)

lemma Solver_null_data: "Solver s = (True, TX_NULL_DATA, vs) \<Longrightarrow> IsUnspendable s"
  using scan_templates_types [of s] by (auto simp: Solver_def IsUnspendable_def split: if_splits)

text \<open>C28: The scripts that the node builds for a key, for the hash of a key or of a script, and for several keys are recognised as
  such, with the same destinations; only the script of a script hash is taken for one, and a data output can never be spent.\<close>

theorem standard_scripts_recognised:
  "(dest \<noteq> CNoDestination \<longrightarrow> ExtractDestination env (GetScriptForDestination dest) = Some dest)
   \<and> (full_key k \<longrightarrow> ExtractDestination env (GetScriptForRawPubKey k) = Some (CKeyID (pubkey_GetID env k)))
   \<and> (1 \<le> m \<and> m \<le> length ks \<and> length ks \<le> 16 \<and> (\<forall>k\<in>set ks. full_key k) \<longrightarrow>
        (\<exists>s. GetScriptForMultisig (int m) ks = Some s
           \<and> ExtractDestinations env s = (TX_MULTISIG, Some (map (\<lambda>k. CKeyID (pubkey_GetID env k)) ks, m))))
   \<and> (ExtractDestination env s = Some (CScriptID h) \<longleftrightarrow> s = GetScriptForDestination (CScriptID h))
   \<and> (Solver s = (True, TX_NULL_DATA, vs) \<longrightarrow> IsUnspendable s)"
proof (intro conjI impI)
  show "ExtractDestination env (GetScriptForDestination dest) = Some dest" if d: "dest \<noteq> CNoDestination"
  proof (cases dest)
    case (CKeyID h)
    then show ?thesis
      using Solver_pubkeyhash [of "uint160_bytes h"] by (simp add: GetScriptForDestination_def ExtractDestination_def)
  next
    case (CScriptID h)
    then show ?thesis by (simp add: ExtractDestination_scripthash)
  qed (use d in simp)
  show "ExtractDestination env (GetScriptForRawPubKey k) = Some (CKeyID (pubkey_GetID env k))" if "full_key k"
    using Solver_pubkey [of k] full_keyD [OF that] by (simp add: GetScriptForRawPubKey_def ExtractDestination_def Let_def)
  show "\<exists>s. GetScriptForMultisig (int m) ks = Some s
           \<and> ExtractDestinations env s = (TX_MULTISIG, Some (map (\<lambda>k. CKeyID (pubkey_GetID env k)) ks, m))"
    if a: "1 \<le> m \<and> m \<le> length ks \<and> length ks \<le> 16 \<and> (\<forall>k\<in>set ks. full_key k)"
  proof -
    obtain s where s: "GetScriptForMultisig (int m) ks = Some s" "Solver s = (True, TX_MULTISIG, [of_nat m] # ks @ [[of_nat (length ks)]])"
      using Solver_multisig [of m ks] a by blast
    have "map CPubKey_of ks = ks" using a full_keyD(4) by (simp add: map_idI)
    moreover have "filter CPubKey_IsValid ks = ks" using a full_keyD(5) by (simp add: filter_id_conv)
    moreover have "unat (of_nat m :: byte) = m" using a by (simp add: unat_of_nat)
    moreover have "ks \<noteq> []" using a by auto
    ultimately have "ExtractDestinations env s = (TX_MULTISIG, Some (map (\<lambda>k. CKeyID (pubkey_GetID env k)) ks, m))"
      by (simp add: ExtractDestinations_def s(2) Let_def)
    then show ?thesis using s(1) by blast
  qed
  show "IsUnspendable s" if "Solver s = (True, TX_NULL_DATA, vs)" by (rule Solver_null_data [OF that])
qed (rule ExtractDestination_scripthash)

theorem standard_scripts_recognised_witness:
  "\<forall>env. ExtractDestination env (GetScriptForDestination (CKeyID 5)) = Some (CKeyID 5)
   \<and> ExtractDestination env (GetScriptForRawPubKey (2 # replicate 32 0)) = Some (CKeyID (pubkey_GetID env (2 # replicate 32 0)))"
proof -
  have "full_key (2 # replicate 32 0)" by (simp add: full_key_def CPubKey_IsValid_def CPubKey_GetLen_def)
  then show ?thesis using standard_scripts_recognised [of "CKeyID 5" _ "2 # replicate 32 0"] by blast
qed

end
