(* ===== verification/Spec2Isabelle.thy ===== *)
theory Spec2Isabelle
  imports Pow Block_Connect_Props Check_Queue Block_Check_Props Merkle_Partial Chain_Receive Mempool_Node Standard_Props
begin

text \<open>
  Verification of the consensus core of Zumycoin, a fork of Bitcoin and Dash.

  \<^bold>\<open>The program.\<close>  A node keeps an index of block headers and the chain of the best ones, checks blocks and
  their transactions, and keeps the coins that are not spent yet.  What it accepts depends on arithmetic with
  256-bit targets, on retargeting, on the script interpreter, on deployments by version bits, and on the views
  of coins that connecting and disconnecting blocks update.  File names below are relative to src/src.

  \<^bold>\<open>Shared.\<close>  \<open>Zumy_Prelude\<close> holds the integer types of C++ (\<open>i64\<close> is \<open>None\<close> where signed 64-bit arithmetic
  overflows, \<open>u32\<close> and the like are words that wrap) and lemmas on lists and options.  Errors are values: \<open>None\<close> is an exception, a failed assertion or an
  access outside an array, and a rejected transaction carries its reason and its penalty in the validation
  state.  Cryptography (hashes and signatures) is a parameter, since properties hold for every such function.  What a
  Merkle tree commits to is shown up to an explicit collision: the conclusion names the pairs among which two
  different ones have the same hash.  Where transactions are told apart by their hash, that is a hypothesis on the finitely
  many transactions at hand.

  \<^bold>\<open>Amounts and numbers.\<close>  \<open>Amount\<close> (amount.cpp, fee rates), \<open>Money_Str\<close> (utilmoneystr.cpp), \<open>Arith_Uint256\<close>
  (arith_uint256.cpp, limb loops as they are written) with \<open>Arith_Refine\<close>, \<open>Arith_Shift\<close> and \<open>Arith_Compact\<close>,
  which show that the loops compute modulo \<open>2 ^ 256\<close>, that division is exact and that the compact encoding
  round trips.

  \<^bold>\<open>Blocks and their index.\<close>  \<open>Chain\<close> (chain.h, chain.cpp: block index entries, skip pointers, the active
  chain, locators) with \<open>Chain_Props\<close>, whose invariant \<open>wf_index\<close> says that heights count predecessors and skip
  pointers lead to ancestors; \<open>Params\<close> and \<open>Chain_Params\<close> (consensus/params.h, chainparams.cpp), \<open>Pow\<close> (pow.cpp:
  both retargeting rules and the check of the work), \<open>Version_Bits\<close> and \<open>Version_Bits_Props\<close> (versionbits.cpp and
  its users in main.cpp), where the cached computation is shown to be the state machine of BIP 9, \<open>Merkle\<close>,
  \<open>Merkle_Props\<close> and \<open>Merkle_Partial\<close> (consensus/merkle.cpp, merkleblock.cpp), \<open>Block_Check\<close> and
  \<open>Block_Check_Props\<close> (main.cpp, checkpoints.cpp: the checks of a block before it is connected, headers that enter
  the index, and rewards), where \<open>index_inv\<close> is the invariant that retargeting and version bits rely on.

  \<^bold>\<open>Scripts.\<close>  \<open>Script\<close> and \<open>Script_Props\<close> (script/script.h, script/script.cpp), \<open>Interpreter\<close>
  (script/interpreter.cpp: one function per group of opcodes, a loop over the script, and \<open>VerifyScript\<close>),
  \<open>Interpreter_Props\<close>, \<open>Interp_Bounds\<close> and \<open>Interp_Spend\<close>, with the limits of a run, monotonicity in the flags and
  what spends a pay-to-public-key-hash output; \<open>SigHash\<close> (the signature hash and the lock-time checkers);
  \<open>Standard\<close> and \<open>Standard_Props\<close> (script/standard.cpp, policy/policy.cpp, policy/rbf.cpp: templates, destinations, the
  scripts built for them and the rules for relayed transactions).

  \<^bold>\<open>Transactions and blocks.\<close>  \<open>Serialize\<close> (serialize.h), \<open>Transaction\<close> (primitives/transaction.h,
  primitives/block.h), \<open>Tx_Check\<close> (the checks of main.cpp that need no coins, and BIP 68 locks).

  \<^bold>\<open>Coins.\<close>  \<open>Coins\<close> (coins.h), \<open>Coins_View\<close> (coins.cpp, txdb.cpp: a locale for the contract of reading a view, \<open>coins_reader\<close>, and one that extends it to
  writing, \<open>coins_view\<close>, interpreted for the database, for a cache over it and for a cache over a cache; sequences of all
  operations of a cache refine those of a map of coins), \<open>Coins_Update\<close> and \<open>Coins_Undo\<close> (updating and
  restoring coins), \<open>Block_Connect\<close> and \<open>Block_Connect_Props\<close> (the checks of inputs, and the loop of \<open>ConnectBlock\<close>),
  \<open>Check_Queue\<close> (checkqueue.h: the worker pool as a step relation on interleavings, with safety and the absence of
  lost notifications).

  \<^bold>\<open>The best chain.\<close>  \<open>Chain_Select\<close> (main.cpp: the candidates, connecting and disconnecting tips, \<open>ActivateBestChain\<close>,
  blocks whose data arrives, and blocks marked by hand) keeps the index entries in a store, since they are shared and
  change.  What connects a block is the record \<open>block_ops\<close>; \<open>lawful\<close> states that it applies a partial function on coins,
  that disconnecting undoes it, that failures are reported as violations of a rule, and that nothing is lost on the
  disk.  \<open>Chain_Select_Props\<close> shows what \<open>FindMostWorkChain\<close> returns, \<open>Chain_Activate\<close> that \<open>act_inv\<close> (the coins are those
  of the active chain, the candidates cover every good entry) leads to the best chain, \<open>Chain_Mark\<close> and
  \<open>Chain_Receive\<close> that marks and new blocks keep \<open>act_inv\<close>.

  \<^bold>\<open>The transaction pool.\<close>  \<open>Mempool\<close> and \<open>Mempool_Limit\<close> (txmempool.cpp, txmempool.h, and the lock points of main.cpp)
  hold the entries with the totals over their descendants, the links, the spent outpoints, and the operations on them.
  \<open>Mempool_Props\<close> states the invariant \<open>pool_inv\<close>, relative to the relation of the links, and the two searches through the
  links; \<open>Mempool_Update\<close> and \<open>Mempool_Remove\<close> show that adding an entry and removing a set of entries keep it.  In \<open>pool_ok\<close>
  the links are all of those between the transactions: \<open>Mempool_Correct\<close> and \<open>Mempool_Keep\<close> show that blocks,
  conflicts, limits and priorities keep it; \<open>Mempool_Reorg\<close> restores it after a disconnected block came back, and
  \<open>Mempool_Reach\<close> holds the properties of the single operations.  \<open>Mempool_Accept\<close>
  (\<open>AcceptToMemoryPool\<close> of main.cpp, the view of coins through the pool, policy/rbf.cpp) admits a loose transaction, stage by
  stage; \<open>Mempool_Accept_Props\<close> interprets the reading half of the contract of a view for the coins through the pool,
  and \<open>Mempool_Accept_Correct\<close> says what each stage has checked.  \<open>Mempool_Sound\<close> states what every entry satisfies against the
  coins of the chain, output by output (\<open>pool_sound\<close>), and \<open>Mempool_Admit\<close> that the pool and the coins keep this
  whatever is offered, and what an accepted transaction satisfies.  \<open>Mempool_Sanity\<close> is the consistency check
  \<open>CTxMemPool::check\<close> with all its assertions, on a copy of the coins, \<open>Mempool_Check\<close> shows that it passes on a sound pool, and
  \<open>Mempool_Node\<close> that every state of the node (\<open>node_reach\<close>) has a sound pool, also after blocks were connected to the coins
  and taken from the pool.  Reorganisations are modelled (\<open>Mempool_Limit\<close>, \<open>Mempool_Reorg\<close>) but are not steps of \<open>node_reach\<close>.

  \<^bold>\<open>Bounds and fuel.\<close>  The walk back of the version bits and of other loops that may not end are partial
  functions into options.  The loops over the levels of a Merkle tree have fuel 32, the size of the array of
  inner hashes, which is enough for \<open>2 ^ 31\<close> leaves; the height of a partial tree has fuel 33, enough for a 32-bit
  number of transactions.  The queue of the entries that wait in the consistency check either shrinks or has been gone through
  less often than it is long, which is the measure of \<open>wait_loop\<close>.  Loops over predecessors in the store have the height as fuel, which decreases, and the
  search for the best candidate has the number of candidates.  The searches in the pool visit an entry once, so that the number of
  entries plus one is enough, and each round of trimming removes an entry.  \<open>ActivateBestChain\<close> is a partial function.  Counters of C++ that cannot reach their width under the stated bounds are natural
  numbers.

  \<^bold>\<open>Not modelled.\<close>  Logging, locks other than the one of the check queue, disk files and databases other than the
  map of coins, the network protocol, the fee estimator and the
  floating-point priorities of the pool, the wallet, the remote procedure calls, the graphical interface, and the
  vendored libraries (leveldb, secp256k1, univalue).
\<close>

end
